(* ===== verification/Js_Prelude.thy ===== *)
theory Js_Prelude
  imports Main
begin

text \<open>
  Shared vocabulary of the development: what the TypeScript sources use of the language and its
  standard library, as pure HOL functions.

  \<^item> A thrown exception is a value: an operation that may throw returns \<open>'a res\<close>, the sum of
    \<open>js_error\<close> (left) and the result (right); \<open>bind_res\<close> and \<open>map_res\<close> propagate the
    first exception as the interpreter would.
  \<^item> A field that may be \<open>undefined\<close> is an \<open>option\<close>; \<open>nullish\<close> is the operator \<open>??\<close>.
  \<^item> \<open>find_index\<close>, \<open>insert_at\<close>, \<open>remove_at\<close> are \<open>findIndex\<close> and the two uses of
    \<open>splice\<close> the sources make.
  \<^item> \<open>string_of_nat\<close> is the decimal text of a non-negative integer (\<open>String(n)\<close>).

  The lemmas feed two collections: \<open>res_simps\<close> (propagation of exceptions) and \<open>list_ops\<close>
  (length, membership and look-up after a list operation).
\<close>

named_theorems res_simps
named_theorems list_ops

section \<open>Exceptions as values\<close>

datatype js_error =
    Js_Error string   \<comment> \<open>\<open>new Error(message)\<close>\<close>
  | Js_TypeError      \<comment> \<open>property access on \<open>undefined\<close>\<close>
  | Js_SyntaxError    \<comment> \<open>\<open>new RegExp\<close> on an invalid pattern\<close>

type_synonym 'a res = "js_error + 'a"

definition bind_res :: "'a res \<Rightarrow> ('a \<Rightarrow> 'b res) \<Rightarrow> 'b res" where
  "bind_res r f = (case r of Inl e \<Rightarrow> Inl e | Inr x \<Rightarrow> f x)"

fun map_res :: "('a \<Rightarrow> 'b res) \<Rightarrow> 'a list \<Rightarrow> 'b list res" where
  "map_res f [] = Inr []"
| "map_res f (x # xs) = bind_res (f x) (\<lambda>y. bind_res (map_res f xs) (\<lambda>ys. Inr (y # ys)))"

lemma bind_res_simps [simp, res_simps]:
  "bind_res (Inl e) f = Inl e"
  "bind_res (Inr x) f = f x"
  by (simp_all add: bind_res_def)

lemma bind_res_Inr_iff [res_simps]:
  "bind_res r f = Inr y \<longleftrightarrow> (\<exists>x. r = Inr x \<and> f x = Inr y)"
  by (cases r) auto

lemma bind_res_Inl_iff [res_simps]:
  "bind_res r f = Inl e \<longleftrightarrow> r = Inl e \<or> (\<exists>x. r = Inr x \<and> f x = Inl e)"
  by (cases r) auto

lemma bind_res_cong [fundef_cong]:
  "r = r' \<Longrightarrow> (\<And>x. r' = Inr x \<Longrightarrow> f x = g x) \<Longrightarrow> bind_res r f = bind_res r' g"
  by (cases r') auto

lemma map_res_cong [fundef_cong]:
  "xs = ys \<Longrightarrow> (\<And>x. x \<in> set ys \<Longrightarrow> f x = g x) \<Longrightarrow> map_res f xs = map_res g ys"
  by (induction ys arbitrary: xs) auto

lemma map_res_total: "(\<And>x. x \<in> set xs \<Longrightarrow> f x = Inr (g x)) \<Longrightarrow> map_res f xs = Inr (map g xs)"
  by (induction xs) auto

lemma map_res_length: "map_res f xs = Inr ys \<Longrightarrow> length ys = length xs"
  by (induction xs arbitrary: ys) (auto simp: bind_res_Inr_iff)

lemma map_res_list_all2: "map_res f xs = Inr ys \<Longrightarrow> list_all2 (\<lambda>x y. f x = Inr y) xs ys"
  by (induction xs arbitrary: ys) (auto simp: bind_res_Inr_iff)

lemma map_res_member: "map_res f xs = Inr ys \<Longrightarrow> y \<in> set ys \<Longrightarrow> \<exists>x \<in> set xs. f x = Inr y"
  by (induction xs arbitrary: ys) (auto simp: bind_res_Inr_iff)

lemma map_res_Inl_iff:
  "(\<exists>e. map_res f xs = Inl e) \<longleftrightarrow> (\<exists>x \<in> set xs. \<exists>e. f x = Inl e)"
proof (induction xs)
  case (Cons x xs)
  show ?case
  proof (cases "f x")
    case (Inr y)
    then show ?thesis
      using Cons.IH by (cases "map_res f xs") auto
  qed auto
qed simp

section \<open>Optional values\<close>

definition nullish :: "'a option \<Rightarrow> 'a \<Rightarrow> 'a" where
  "nullish x d = (case x of None \<Rightarrow> d | Some v \<Rightarrow> v)"

lemma nullish_simps [simp]: "nullish None d = d" "nullish (Some v) d = v"
  by (simp_all add: nullish_def)

text \<open>The children of a tree node, in an optional list, are smaller than the node.\<close>

lemma size_in_list: "c \<in> set cs \<Longrightarrow> f c < Suc (size_list f cs)"
  by (induction cs) auto

lemma size_optional_child:
  "c \<in> set (nullish cs []) \<Longrightarrow> f c < Suc (size_option (size_list f) cs)"
  by (cases cs) (auto dest: size_in_list [of _ _ f])

lemma size_optional_nth:
  "k < length (nullish cs []) \<Longrightarrow> f (nullish cs [] ! k) < Suc (size_option (size_list f) cs)"
  by (rule size_optional_child) simp

lemmas size_child = size_optional_child size_optional_nth size_in_list less_SucI [OF size_in_list]

section \<open>List operations\<close>

fun find_index :: "('a \<Rightarrow> bool) \<Rightarrow> 'a list \<Rightarrow> nat option" where
  "find_index P [] = None"
| "find_index P (x # xs) = (if P x then Some 0 else map_option Suc (find_index P xs))"

definition insert_at :: "nat \<Rightarrow> 'a \<Rightarrow> 'a list \<Rightarrow> 'a list" where
  "insert_at i x xs = take i xs @ x # drop i xs"

definition remove_at :: "nat \<Rightarrow> 'a list \<Rightarrow> 'a list" where
  "remove_at i xs = take i xs @ drop (Suc i) xs"

lemma find_index_SomeD:
  "find_index P xs = Some i \<Longrightarrow> i < length xs \<and> P (xs ! i) \<and> (\<forall>j < i. \<not> P (xs ! j))"
proof (induction xs arbitrary: i)
  case (Cons x xs)
  then show ?case
    by (auto simp: nth_Cons split: if_splits nat.splits)
qed simp

lemma find_index_None_iff [list_ops]: "find_index P xs = None \<longleftrightarrow> (\<forall>x \<in> set xs. \<not> P x)"
  by (induction xs) auto

lemma length_insert_at [simp, list_ops]: "length (insert_at i x xs) = Suc (length xs)"
  by (simp add: insert_at_def)

lemma set_insert_at [simp, list_ops]: "set (insert_at i x xs) = insert x (set xs)"
proof -
  have "set xs = set (take i xs) \<union> set (drop i xs)"
    by (metis append_take_drop_id set_append)
  then show ?thesis by (simp add: insert_at_def)
qed

lemma insert_at_0 [simp]: "insert_at 0 x xs = x # xs"
  by (simp add: insert_at_def)

lemma insert_at_end [simp]: "insert_at (length xs) x xs = xs @ [x]"
  by (simp add: insert_at_def)

lemma length_remove_at [list_ops]: "i < length xs \<Longrightarrow> length (remove_at i xs) = length xs - 1"
  by (simp add: remove_at_def)

lemma nth_insert_at_same [list_ops]: "i \<le> length xs \<Longrightarrow> insert_at i x xs ! i = x"
  by (simp add: insert_at_def nth_append)

lemma remove_insert_at [list_ops]: "i \<le> length xs \<Longrightarrow> remove_at i (insert_at i x xs) = xs"
  by (simp add: insert_at_def remove_at_def min_def)

lemma insert_remove_at [list_ops]: "i < length xs \<Longrightarrow> insert_at i (xs ! i) (remove_at i xs) = xs"
  by (simp add: insert_at_def remove_at_def min_def id_take_nth_drop [symmetric])

text \<open>In a duplicate-free concatenation an element comes from one list only.\<close>

lemma distinct_concat_index:
  "distinct (concat (map f xs)) \<Longrightarrow> a < length xs \<Longrightarrow> b < length xs \<Longrightarrow>
   y \<in> set (f (xs ! a)) \<Longrightarrow> y \<in> set (f (xs ! b)) \<Longrightarrow> a = b"
proof (induction xs arbitrary: a b)
  case (Cons x xs)
  have other: "y \<notin> set (f (xs ! k))" if "y \<in> set (f x)" "k < length xs" for k
    using Cons.prems(1) that by (auto simp: disjoint_iff)
  show ?case
    using Cons other by (cases a; cases b) auto
qed simp

text \<open>lodash \<open>uniqBy\<close>: the first element of each key; \<open>seen\<close> holds the keys met so far.\<close>

fun uniq_by :: "('a \<Rightarrow> 'k) \<Rightarrow> 'k list \<Rightarrow> 'a list \<Rightarrow> 'a list" where
  "uniq_by f seen [] = []"
| "uniq_by f seen (x # xs) =
     (if f x \<in> set seen then uniq_by f seen xs else x # uniq_by f (f x # seen) xs)"

lemma uniq_by_keys: "distinct (map f (uniq_by f seen xs)) \<and> f ` set (uniq_by f seen xs) = f ` set xs - set seen"
  by (induction f seen xs rule: uniq_by.induct) auto

lemma uniq_by_subset: "set (uniq_by f seen xs) \<subseteq> set xs"
  by (induction f seen xs rule: uniq_by.induct) auto

section \<open>Shared contracts\<close>

text \<open>
  A text form of some values: what is written reads back. Different values then have different texts, and a
  list of texts reads back element by element.
\<close>

locale codec =
  fixes enc :: "'a \<Rightarrow> 'b" and dec :: "'b \<Rightarrow> 'a option" and ok :: "'a \<Rightarrow> bool"
  assumes dec_enc: "ok x \<Longrightarrow> dec (enc x) = Some x"
begin

lemma enc_eq_iff: "ok x \<Longrightarrow> ok y \<Longrightarrow> enc x = enc y \<longleftrightarrow> x = y"
  by (metis dec_enc option.inject)

lemma dec_encs: "list_all ok xs \<Longrightarrow> map dec (map enc xs) = map Some xs"
  by (auto simp: list_all_iff dec_enc)

end

text \<open>A store whose steps keep an invariant that its first states have: every state it reaches has it.\<close>

locale state_machine =
  fixes first :: "'s \<Rightarrow> bool" and step :: "'s \<Rightarrow> 's \<Rightarrow> bool" and inv :: "'s \<Rightarrow> bool"
  assumes first_inv: "first s \<Longrightarrow> inv s"
    and step_inv: "step s s' \<Longrightarrow> inv s \<Longrightarrow> inv s'"
begin

lemma run_inv: "rtranclp step s s' \<Longrightarrow> inv s \<Longrightarrow> inv s'"
  by (induction rule: rtranclp_induct) (auto intro: step_inv)

lemma reached_inv: "rtranclp step s0 s \<Longrightarrow> first s0 \<Longrightarrow> inv s"
  by (blast intro: run_inv first_inv)

end

section \<open>Decimal text of a number\<close>

definition digit_char :: "nat \<Rightarrow> char" where
  "digit_char d = char_of (48 + d)"

fun string_of_nat :: "nat \<Rightarrow> string" where
  "string_of_nat n =
     (if n < 10 then [digit_char n] else string_of_nat (n div 10) @ [digit_char (n mod 10)])"

declare string_of_nat.simps [simp del]

lemma of_char_digit_char: "d < 10 \<Longrightarrow> (of_char (digit_char d) :: nat) = 48 + d"
  by (simp add: digit_char_def)

lemma digit_char_inj: "a < 10 \<Longrightarrow> b < 10 \<Longrightarrow> digit_char a = digit_char b \<longleftrightarrow> a = b"
  by (metis add_left_cancel of_char_digit_char)

lemma string_of_nat_nonempty [simp]: "string_of_nat n \<noteq> []"
  by (subst string_of_nat.simps) simp

lemma string_of_nat_inj: "string_of_nat m = string_of_nat n \<Longrightarrow> m = n"
proof (induction m arbitrary: n rule: string_of_nat.induct)
  case (1 m)
  have last_digit: "last (string_of_nat k) = digit_char (k mod 10)" for k
    by (subst string_of_nat.simps) simp
  have init: "butlast (string_of_nat k) = (if k < 10 then [] else string_of_nat (k div 10))" for k
    by (subst string_of_nat.simps) simp
  have "digit_char (m mod 10) = digit_char (n mod 10)"
    using "1.prems" last_digit by metis
  then have same_mod: "m mod 10 = n mod 10"
    by (simp add: digit_char_inj)
  have inits: "(if m < 10 then [] else string_of_nat (m div 10)) =
      (if n < 10 then [] else string_of_nat (n div 10))"
    using "1.prems" init by metis
  show ?case
  proof (cases "m < 10")
    case True
    then have "n < 10"
      using inits by (auto split: if_splits) (metis string_of_nat_nonempty)
    with True same_mod show ?thesis by simp
  next
    case False
    then have n10: "\<not> n < 10" and "string_of_nat (m div 10) = string_of_nat (n div 10)"
      using inits by (auto split: if_splits)
    then have "m div 10 = n div 10"
      using "1.IH" [OF False] by simp
    with same_mod show ?thesis by (metis mult_div_mod_eq)
  qed
qed

end
