(* ===== verification/Js_Object.thy ===== *)
theory Js_Object
  imports Js_Prelude "HOL-Library.Multiset"
begin

text \<open>
  Plain JavaScript objects used as dictionaries (\<open>Record<string, V>\<close>), with the enumeration order
  of the language: keys that are array indices come first in ascending order, all other keys follow
  in the order of their first assignment. \<open>jo_get\<close>, \<open>jo_set\<close>, \<open>jo_delete\<close> are
  \<open>o[k]\<close>, \<open>o[k] = v\<close> and \<open>delete o[k]\<close>; \<open>jo_keys\<close>, \<open>jo_values\<close> are \<open>Object.keys\<close> and
  \<open>Object.values\<close>. A dictionary is its own entries; where a source also finds the
  members of \<open>Object.prototype\<close> (\<open>constructor\<close>, \<open>toString\<close>, ...) under a key, the model says so with
  \<open>finds_key\<close>, and elsewhere such names are not used as keys.

  The interface the components rely on is the locale \<open>dictionary\<close>: what a look-up returns after
  an assignment or a deletion, and the invariant the operations keep. The client lemmas (folding
  assignments over a list, copying one dictionary into another) are proved in it once and reach the
  components through its interpretation \<open>jo\<close> on the object operations.
\<close>

section \<open>The interface\<close>

locale dictionary =
  fixes get :: "'d \<Rightarrow> 'k \<Rightarrow> 'v option"
    and put :: "'k \<Rightarrow> 'v \<Rightarrow> 'd \<Rightarrow> 'd"
    and del :: "'k \<Rightarrow> 'd \<Rightarrow> 'd"
    and keys_of :: "'d \<Rightarrow> 'k list"
    and wf :: "'d \<Rightarrow> bool"
    and empty :: 'd
  assumes get_empty: "get empty k = None"
    and get_put: "get (put k v d) k' = (if k' = k then Some v else get d k')"
    and get_del: "get (del k d) k' = (if k' = k then None else get d k')"
    and keys_get: "k \<in> set (keys_of d) \<longleftrightarrow> get d k \<noteq> None"
    and wf_empty: "wf empty"
    and wf_put: "wf d \<Longrightarrow> wf (put k v d)"
    and wf_del: "wf d \<Longrightarrow> wf (del k d)"
    and wf_distinct: "wf d \<Longrightarrow> distinct (keys_of d)"
begin

lemma get_put_same: "get (put k v d) k = Some v"
  by (simp add: get_put)

lemma get_put_other: "k' \<noteq> k \<Longrightarrow> get (put k v d) k' = get d k'"
  by (simp add: get_put)

lemma keys_put: "set (keys_of (put k v d)) = insert k (set (keys_of d))"
  by (auto simp: keys_get get_put split: if_splits)

lemma keys_del: "set (keys_of (del k d)) = set (keys_of d) - {k}"
  by (auto simp: keys_get get_del split: if_splits)

lemma keys_empty: "keys_of empty = []"
  using keys_get [of _ empty] by (simp add: get_empty) (metis list.set_intros(1) neq_Nil_conv)

lemma get_fold_put:
  "get (fold (\<lambda>x. put (f x) (g x)) xs d) k =
     (case find (\<lambda>x. f x = k) (rev xs) of Some x \<Rightarrow> Some (g x) | None \<Rightarrow> get d k)"
proof (induction xs arbitrary: d)
  case Nil
  then show ?case by simp
next
  case (Cons x xs)
  have "find (\<lambda>x. f x = k) (ys @ [x]) =
      (case find (\<lambda>x. f x = k) ys of Some y \<Rightarrow> Some y | None \<Rightarrow> (if f x = k then Some x else None))"
    for ys by (induction ys) auto
  then show ?case
    by (simp add: Cons.IH get_put split: option.splits)
qed

lemma get_fold_put_const:
  "get (fold (\<lambda>x. put (f x) v) xs d) k = (if k \<in> f ` set xs then Some v else get d k)"
  by (induction xs arbitrary: d) (auto simp: get_put)

lemma keys_fold_put:
  "set (keys_of (fold (\<lambda>x. put (f x) (g x)) xs d)) = set (keys_of d) \<union> f ` set xs"
  by (induction xs arbitrary: d) (auto simp: keys_put)

lemma wf_fold_put: "wf d \<Longrightarrow> wf (fold (\<lambda>x. put (f x) (g x)) xs d)"
  by (induction xs arbitrary: d) (auto intro: wf_put)

lemma get_fold_del: "get (fold del ks d) k = (if k \<in> set ks then None else get d k)"
  by (induction ks arbitrary: d) (auto simp: get_del)

lemma wf_fold_del: "wf d \<Longrightarrow> wf (fold del ks d)"
  by (induction ks arbitrary: d) (auto intro: wf_del)

end

section \<open>Plain objects\<close>

type_synonym 'v jobj = "(string \<times> 'v) list"

definition is_digit :: "char \<Rightarrow> bool" where
  "is_digit c \<longleftrightarrow> (48 :: nat) \<le> of_char c \<and> of_char c \<le> (57 :: nat)"

definition nat_of_digits :: "string \<Rightarrow> nat" where
  "nat_of_digits s = fold (\<lambda>c n. n * 10 + (of_char c - 48)) s 0"

text \<open>The canonical numeric strings below \<open>2^32 - 1\<close>, which are enumerated first.\<close>

definition array_index :: "string \<Rightarrow> nat option" where
  "array_index s =
     (if s \<noteq> [] \<and> list_all is_digit s \<and> (hd s \<noteq> CHR ''0'' \<or> length s = 1)
         \<and> nat_of_digits s < 4294967295
      then Some (nat_of_digits s) else None)"

definition jo_get :: "'v jobj \<Rightarrow> string \<Rightarrow> 'v option" where
  "jo_get d k = map_of d k"

fun jo_replace :: "string \<Rightarrow> 'v \<Rightarrow> 'v jobj \<Rightarrow> 'v jobj" where
  "jo_replace k v [] = []"
| "jo_replace k v ((k', v') # d) = (if k' = k then (k, v) # d else (k', v') # jo_replace k v d)"

fun jo_insert_index :: "nat \<Rightarrow> string \<Rightarrow> 'v \<Rightarrow> 'v jobj \<Rightarrow> 'v jobj" where
  "jo_insert_index n k v [] = [(k, v)]"
| "jo_insert_index n k v ((k', v') # d) =
     (case array_index k' of
        None \<Rightarrow> (k, v) # (k', v') # d
      | Some m \<Rightarrow> if m < n then (k', v') # jo_insert_index n k v d else (k, v) # (k', v') # d)"

definition jo_set :: "string \<Rightarrow> 'v \<Rightarrow> 'v jobj \<Rightarrow> 'v jobj" where
  "jo_set k v d =
     (if jo_get d k \<noteq> None then jo_replace k v d
      else case array_index k of
             None \<Rightarrow> d @ [(k, v)]
           | Some n \<Rightarrow> jo_insert_index n k v d)"

definition jo_delete :: "string \<Rightarrow> 'v jobj \<Rightarrow> 'v jobj" where
  "jo_delete k d = filter (\<lambda>(k', _). k' \<noteq> k) d"

definition jo_keys :: "'v jobj \<Rightarrow> string list" where
  "jo_keys d = map fst d"

definition jo_values :: "'v jobj \<Rightarrow> 'v list" where
  "jo_values d = map snd d"

definition jo_wf :: "'v jobj \<Rightarrow> bool" where
  "jo_wf d \<longleftrightarrow> distinct (map fst d)"

text \<open>Built from a list of entries, later entries overwriting earlier ones (\<open>Object.fromEntries\<close>).\<close>

definition jo_from_entries :: "(string \<times> 'v) list \<Rightarrow> 'v jobj" where
  "jo_from_entries es = fold (\<lambda>(k, v). jo_set k v) es []"

subsection \<open>The operations keep the interface's laws\<close>

lemma map_of_jo_replace:
  "map_of (jo_replace k v d) k' =
     (if k' = k \<and> map_of d k \<noteq> None then Some v else map_of d k')"
  by (induction k v d rule: jo_replace.induct) auto

lemma map_of_jo_insert_index:
  "map_of d k = None \<Longrightarrow> map_of (jo_insert_index n k v d) k' = (if k' = k then Some v else map_of d k')"
  by (induction n k v d rule: jo_insert_index.induct) (auto split: option.splits)

lemma jo_get_set: "jo_get (jo_set k v d) k' = (if k' = k then Some v else jo_get d k')"
  by (auto simp: jo_set_def jo_get_def map_of_jo_replace map_of_jo_insert_index map_add_def
      split: option.splits)

lemma map_of_filter_key: "map_of (filter (\<lambda>(k', _). P k') d) k = (if P k then map_of d k else None)"
  by (induction d) auto

lemma jo_get_delete: "jo_get (jo_delete k d) k' = (if k' = k then None else jo_get d k')"
  using map_of_filter_key [of "\<lambda>k'. k' \<noteq> k" d k'] by (simp add: jo_get_def jo_delete_def)

lemma map_fst_jo_replace: "map fst (jo_replace k v d) = map fst d"
  by (induction k v d rule: jo_replace.induct) auto

lemma mset_keys_jo_insert_index:
  "set (map fst (jo_insert_index n k v d)) = insert k (set (map fst d)) \<and>
   (distinct (map fst d) \<and> k \<notin> set (map fst d) \<longrightarrow> distinct (map fst (jo_insert_index n k v d)))"
  by (induction n k v d rule: jo_insert_index.induct) (auto split: option.splits)

lemma jo_wf_set: "jo_wf d \<Longrightarrow> jo_wf (jo_set k v d)"
proof -
  assume wf: "jo_wf d"
  have "map_of d k = None \<longleftrightarrow> k \<notin> set (map fst d)"
    by (simp add: map_of_eq_None_iff)
  then show ?thesis
    using wf mset_keys_jo_insert_index [of _ k v d]
    by (auto simp: jo_wf_def jo_set_def jo_get_def map_fst_jo_replace split: option.splits)
qed

lemma jo_wf_delete: "jo_wf d \<Longrightarrow> jo_wf (jo_delete k d)"
  by (simp add: jo_wf_def jo_delete_def distinct_map_filter)

interpretation jo: dictionary jo_get jo_set jo_delete jo_keys jo_wf "[]"
proof unfold_locales
  fix k :: string and k' and v :: 'a and d :: "'a jobj"
  show "jo_get [] k = (None :: 'a option)" by (simp add: jo_get_def)
  show "jo_get (jo_set k v d) k' = (if k' = k then Some v else jo_get d k')" by (rule jo_get_set)
  show "jo_get (jo_delete k d) k' = (if k' = k then None else jo_get d k')" by (rule jo_get_delete)
  show "k \<in> set (jo_keys d) \<longleftrightarrow> jo_get d k \<noteq> None"
    by (simp add: jo_keys_def jo_get_def map_of_eq_None_iff)
  show "jo_wf ([] :: 'a jobj)" by (simp add: jo_wf_def)
  show "jo_wf d \<Longrightarrow> jo_wf (jo_set k v d)" by (rule jo_wf_set)
  show "jo_wf d \<Longrightarrow> jo_wf (jo_delete k d)" by (rule jo_wf_delete)
  show "jo_wf d \<Longrightarrow> distinct (jo_keys d)" by (simp add: jo_wf_def jo_keys_def)
qed

lemma jo_get_from_entries: "jo_get (jo_from_entries es) k = map_of (rev es) k"
proof -
  have "jo_get (fold (\<lambda>(k, v). jo_set k v) es d) k =
      (case map_of (rev es) k of Some v \<Rightarrow> Some v | None \<Rightarrow> jo_get d k)" for d
    by (induction es arbitrary: d) (auto simp: jo_get_set map_add_def split: option.splits)
  then show ?thesis
    by (simp add: jo_from_entries_def jo.get_empty split: option.splits)
qed

lemma jo_values_keys: "jo_wf d \<Longrightarrow> jo_values d = map (\<lambda>k. the (jo_get d k)) (jo_keys d)"
proof (induction d)
  case (Cons kv d)
  then have "the (map_of (kv # d) k) = the (map_of d k)" if "k \<in> set (map fst d)" for k
    using that by (cases kv) (auto simp: jo_wf_def)
  with Cons show ?case
    by (cases kv) (simp add: jo_wf_def jo_values_def jo_keys_def jo_get_def)
qed (simp add: jo_values_def jo_keys_def)

text \<open>What every plain object inherits: \<open>record[key]\<close> finds it though the record has no such entry.\<close>

definition inherited_names :: "string list" where
  "inherited_names =
     [''constructor'', ''hasOwnProperty'', ''isPrototypeOf'', ''propertyIsEnumerable'', ''toLocaleString'',
      ''toString'', ''valueOf'', ''__proto__'', ''__defineGetter__'', ''__defineSetter__'',
      ''__lookupGetter__'', ''__lookupSetter__'']"

definition finds_key :: "'v jobj \<Rightarrow> string \<Rightarrow> bool" where
  "finds_key d k \<longleftrightarrow> jo_get d k \<noteq> None \<or> k \<in> set inherited_names"

section \<open>Grouping and maps keyed by objects\<close>

text \<open>
  \<open>group_by\<close> is lodash \<open>groupBy\<close>: an object from the key of an element to the elements with
  that key, in order. \<open>es_map_set\<close> is \<open>Map.prototype.set\<close> on the entry list of a \<open>Map\<close>.
\<close>

definition group_push :: "string \<Rightarrow> 'a \<Rightarrow> 'a list jobj \<Rightarrow> 'a list jobj" where
  "group_push k x d = jo_set k (nullish (jo_get d k) [] @ [x]) d"

definition group_by :: "('a \<Rightarrow> string) \<Rightarrow> 'a list \<Rightarrow> 'a list jobj" where
  "group_by f xs = fold (\<lambda>x. group_push (f x) x) xs []"

fun es_map_set :: "'k \<Rightarrow> 'v \<Rightarrow> ('k \<times> 'v) list \<Rightarrow> ('k \<times> 'v) list" where
  "es_map_set k v [] = [(k, v)]"
| "es_map_set k v ((k', v') # es) = (if k' = k then (k, v) # es else (k', v') # es_map_set k v es)"

lemma group_by_snoc: "group_by f (xs @ [x]) = group_push (f x) x (group_by f xs)"
  by (simp add: group_by_def)

lemma jo_get_group_by:
  "jo_get (group_by f xs) k =
     (if k \<in> f ` set xs then Some (filter (\<lambda>x. f x = k) xs) else None)"
proof (induction xs rule: rev_induct)
  case Nil
  then show ?case by (simp add: group_by_def jo.get_empty)
next
  case (snoc x xs)
  have "f x \<notin> f ` set xs \<Longrightarrow> filter (\<lambda>y. f y = f x) xs = []"
    by (auto simp: filter_empty_conv image_iff)
  with snoc show ?case
    by (auto simp: group_by_snoc group_push_def jo_get_set)
qed

lemma jo_wf_group_by: "jo_wf (group_by f xs)"
  by (induction xs rule: rev_induct)
     (simp_all add: group_by_snoc group_push_def jo_wf_set jo.wf_empty group_by_def [of f "[]"])

lemma jo_keys_group_by: "set (jo_keys (group_by f xs)) = f ` set xs"
  by (auto simp: jo.keys_get jo_get_group_by split: if_splits)

lemma jo_values_group_by:
  "jo_values (group_by f xs) = map (\<lambda>k. filter (\<lambda>x. f x = k) xs) (jo_keys (group_by f xs))"
proof -
  have "the (jo_get (group_by f xs) k) = filter (\<lambda>x. f x = k) xs" if "k \<in> set (jo_keys (group_by f xs))" for k
    using that by (simp add: jo_get_group_by jo_keys_group_by)
  then show ?thesis
    by (simp add: jo_values_keys [OF jo_wf_group_by])
qed

lemma mset_concat_filter_keys:
  "distinct ks \<Longrightarrow> mset (concat (map (\<lambda>k. filter (\<lambda>x. f x = k) xs) ks)) = filter_mset (\<lambda>x. f x \<in> set ks) (mset xs)"
proof (induction ks)
  case (Cons k ks)
  have "filter_mset (\<lambda>x. f x = k \<or> f x \<in> set ks) M =
      filter_mset (\<lambda>x. f x = k) M + filter_mset (\<lambda>x. f x \<in> set ks) M" for M
    using Cons.prems by (induction M) auto
  with Cons show ?case by simp
qed simp

lemma mset_group_by: "mset (concat (jo_values (group_by f xs))) = mset xs"
proof -
  have "distinct (jo_keys (group_by f xs))"
    by (rule jo.wf_distinct [OF jo_wf_group_by])
  then have "mset (concat (jo_values (group_by f xs))) =
      filter_mset (\<lambda>x. f x \<in> f ` set xs) (mset xs)"
    using mset_concat_filter_keys [of "jo_keys (group_by f xs)" f xs]
    by (subst jo_values_group_by) (simp only: jo_keys_group_by)
  also have "\<dots> = mset xs"
    by (rule filter_mset_eq_conv [THEN iffD2]) auto
  finally show ?thesis .
qed

text \<open>The order of the keys depends on the keys alone, so grouping commutes with a map that keeps them.\<close>

lemma jo_keys_set_cong: "jo_keys d = jo_keys d' \<Longrightarrow> jo_keys (jo_set k v d) = jo_keys (jo_set k v' d')"
proof -
  assume keys: "jo_keys d = jo_keys d'"
  have "map fst (jo_insert_index n k v d) = map fst (jo_insert_index n k v' d')" if "map fst d = map fst d'" for n d d'
    using that
  proof (induction d arbitrary: d')
    case (Cons e d)
    then obtain e' d'' where "d' = e' # d''" "fst e' = fst e" by (cases d') auto
    with Cons show ?case by (cases e; cases e') (auto split: option.splits)
  qed simp
  moreover have "(jo_get d k \<noteq> None) = (jo_get d' k \<noteq> None)"
    using keys by (metis jo.keys_get)
  ultimately show ?thesis
    using keys by (auto simp: jo_set_def jo_keys_def map_fst_jo_replace split: option.splits)
qed

lemma jo_keys_group_by_map: "jo_keys (group_by f (map g xs)) = jo_keys (group_by (\<lambda>x. f (g x)) xs)"
proof (induction xs rule: rev_induct)
  case Nil
  then show ?case by (simp add: group_by_def jo_keys_def)
qed (simp add: group_by_snoc group_push_def jo_keys_set_cong)

lemma jo_values_group_by_map: "jo_values (group_by f (map g xs)) = map (map g) (jo_values (group_by (\<lambda>x. f (g x)) xs))"
  by (simp add: jo_values_group_by jo_keys_group_by_map filter_map comp_def)

lemma group_by_cong: "(\<And>x. x \<in> set xs \<Longrightarrow> f x = g x) \<Longrightarrow> group_by f xs = group_by g xs"
  by (induction xs rule: rev_induct) (simp_all add: group_by_snoc group_by_def [of _ "[]"])

lemma group_by_nonempty: "g \<in> set (jo_values (group_by f xs)) \<Longrightarrow> g \<noteq> []"
  using jo_keys_group_by [of f xs] by (auto simp: jo_values_group_by filter_empty_conv)

lemma jo_replace_append: "jo_replace k v (d @ d') = (if map_of d k = None then d @ jo_replace k v d' else jo_replace k v d @ d')"
  by (induction k v d rule: jo_replace.induct) auto

lemma jo_delete_set: "jo_delete k (jo_set k v d) = jo_delete k d"
proof -
  have "jo_delete k (jo_replace k v d) = jo_delete k d"
    by (induction k v d rule: jo_replace.induct) (auto simp: jo_delete_def)
  moreover have "jo_delete k (jo_insert_index n k v d) = jo_delete k d" for n
    by (induction n k v d rule: jo_insert_index.induct) (auto simp: jo_delete_def split: option.splits)
  ultimately show ?thesis by (auto simp: jo_set_def split: option.splits) (simp_all add: jo_delete_def)
qed

lemma map_of_es_map_set: "map_of (es_map_set k v es) = (map_of es)(k \<mapsto> v)"
  by (induction k v es rule: es_map_set.induct) (auto simp: fun_eq_iff)

lemma es_map_set_fresh: "k \<notin> fst ` set es \<Longrightarrow> es_map_set k v es = es @ [(k, v)]"
  by (induction k v es rule: es_map_set.induct) auto

lemma fold_es_map_set_fresh:
  "distinct (map f xs) \<Longrightarrow> set (map f xs) \<inter> fst ` set es = {} \<Longrightarrow>
   fold (\<lambda>x. es_map_set (f x) (g x)) xs es = es @ map (\<lambda>x. (f x, g x)) xs"
  by (induction xs arbitrary: es) (auto simp: es_map_set_fresh)

end
