(* ===== verification/Alert_Matching.thy ===== *)
theory Alert_Matching
  imports Js_Object
begin

text \<open>
  Label matching of notification policies: \<open>packages/grafana-alerting/src/grafana/matchers/utils.ts\<close>
  and the flag parser it uses, \<open>parseFlags\<close> of \<open>packages/grafana-data/src/text/text.ts\<close>.

  The regular-expression engine of JavaScript is the parameter \<open>re\<close>: \<open>re pattern flags\<close> is \<open>None\<close>
  when \<open>new RegExp(pattern, flags)\<close> throws a \<open>SyntaxError\<close>, and otherwise the function computed by
  \<open>test\<close>. Nothing is assumed of it.
\<close>

type_synonym regex_engine = "string \<Rightarrow> string \<Rightarrow> (string \<Rightarrow> bool) option"
type_synonym label = "string \<times> string"

datatype match_op = Op_eq | Op_ne | Op_re | Op_nre

record label_matcher =
  m_label :: string
  m_type :: match_op
  m_value :: string

section \<open>Mode modifiers\<close>

definition is_flag_char :: "char \<Rightarrow> bool" where
  "is_flag_char c \<longleftrightarrow> c \<in> set ''ims-''"

definition flag_add :: "char \<Rightarrow> char list \<Rightarrow> char list" where
  "flag_add c fs = (if c \<in> set fs then fs else fs @ [c])"

definition flag_delete :: "char \<Rightarrow> char list \<Rightarrow> char list" where
  "flag_delete c fs = filter (\<lambda>d. d \<noteq> c) fs"

text \<open>The loop over one group \<open>(?...)\<close>; \<open>prev\<close> is \<open>group.charAt(i - 1)\<close>.\<close>

fun apply_flag_group :: "bool \<Rightarrow> char option \<Rightarrow> string \<Rightarrow> char list \<Rightarrow> char list" where
  "apply_flag_group clear_all prev [] flags = flags"
| "apply_flag_group clear_all prev (c # cs) flags =
     apply_flag_group clear_all (Some c) cs
       (if clear_all \<or> prev = Some CHR ''-'' then flag_delete c flags
        else if c \<noteq> CHR ''-'' then flag_add c flags else flags)"

text \<open>A match of \<open>\(\?([ims-]+)\)\<close> at the head of the text: the group and what follows it.\<close>

definition flag_group_at :: "string \<Rightarrow> (string \<times> string) option" where
  "flag_group_at s =
     (if take 2 s = ''(?'' then
        (let g = takeWhile is_flag_char (drop 2 s); rest = dropWhile is_flag_char (drop 2 s)
         in if g \<noteq> [] \<and> rest \<noteq> [] \<and> hd rest = CHR '')'' then Some (g, tl rest) else None)
      else None)"

lemma flag_group_at_shorter: "flag_group_at s = Some (g, rest) \<Longrightarrow> length rest < length s"
proof -
  assume "flag_group_at s = Some (g, rest)"
  then have 1: "take 2 s = ''(?''" and 2: "rest = tl (dropWhile is_flag_char (drop 2 s))"
    by (auto simp: flag_group_at_def Let_def split: if_splits)
  from 1 have "2 \<le> length s" by (cases s; cases "tl s") auto
  moreover have "length rest \<le> length (drop 2 s)"
    using length_dropWhile_le [of is_flag_char "drop 2 s"] by (simp add: 2)
  ultimately show ?thesis by simp
qed

function replace_flags :: "string \<Rightarrow> char list \<Rightarrow> string \<times> char list" where
  "replace_flags s flags =
     (case s of
        [] \<Rightarrow> ([], flags)
      | c # cs \<Rightarrow>
          (case flag_group_at s of
             Some (g, rest) \<Rightarrow> replace_flags rest (apply_flag_group (hd g = CHR ''-'') None g flags)
           | None \<Rightarrow> (let (out, fs) = replace_flags cs flags in (c # out, fs))))"
  by pat_completeness auto
termination
  by (relation "measure (\<lambda>(s, _). length s)") (auto dest: flag_group_at_shorter)

declare replace_flags.simps [simp del]

definition parse_flags :: "string \<Rightarrow> string \<times> string" where
  "parse_flags text = replace_flags text [CHR ''g'']"

lemma replace_flags_no_group:
  "(\<And>i. flag_group_at (drop i s) = None) \<Longrightarrow> replace_flags s fs = (s, fs)"
proof (induction s arbitrary: fs)
  case Nil
  then show ?case by (subst replace_flags.simps) simp
next
  case (Cons c cs)
  have "replace_flags cs fs = (cs, fs)"
  proof (rule Cons.IH)
    show "flag_group_at (drop i cs) = None" for i
      using Cons.prems [of "Suc i"] by simp
  qed
  then show ?case
    using Cons.prems [of 0] by (subst replace_flags.simps) simp
qed

definition flags_wf :: "char list \<Rightarrow> bool" where
  "flags_wf fs \<longleftrightarrow> distinct fs \<and> CHR ''g'' \<in> set fs \<and> set fs \<subseteq> set ''gims''"

lemma apply_flag_group_wf:
  "flags_wf fs \<Longrightarrow> list_all is_flag_char g \<Longrightarrow> flags_wf (apply_flag_group clear_all prev g fs)"
proof (induction clear_all prev g fs rule: apply_flag_group.induct)
  case (2 clear_all prev c cs flags)
  then have "flags_wf (flag_delete c flags)" and "c \<noteq> CHR ''-'' \<Longrightarrow> flags_wf (flag_add c flags)"
    by (auto simp: flags_wf_def flag_delete_def flag_add_def is_flag_char_def)
  with 2 show ?case by simp
qed simp

lemma flag_group_at_chars: "flag_group_at s = Some (g, rest) \<Longrightarrow> list_all is_flag_char g"
  by (auto simp: flag_group_at_def Let_def list_all_iff dest: set_takeWhileD split: if_splits)

lemma replace_flags_wf: "flags_wf fs \<Longrightarrow> flags_wf (snd (replace_flags s fs))"
proof (induction s fs rule: replace_flags.induct)
  case (1 s fs)
  then show ?case
    by (subst replace_flags.simps)
       (auto simp: apply_flag_group_wf flag_group_at_chars split: list.splits option.splits prod.splits)
qed

lemma parse_flags_wf: "flags_wf (snd (parse_flags text))"
  unfolding parse_flags_def by (rule replace_flags_wf) (simp add: flags_wf_def)

section \<open>Operators\<close>

definition anchored :: "string \<Rightarrow> string" where
  "anchored mv = ''^(?:'' @ mv @ '')$''"

definition operator_regex :: "regex_engine \<Rightarrow> string \<Rightarrow> (string \<Rightarrow> bool) res" where
  "operator_regex re mv =
     (let (cleaned, flags) = parse_flags (anchored mv) in
      case re cleaned flags of None \<Rightarrow> Inl Js_SyntaxError | Some test \<Rightarrow> Inr test)"

definition operator_function :: "regex_engine \<Rightarrow> match_op \<Rightarrow> string \<Rightarrow> string \<Rightarrow> bool res" where
  "operator_function re ty lv mv =
     (case ty of
        Op_eq \<Rightarrow> Inr (lv = mv)
      | Op_ne \<Rightarrow> Inr (lv \<noteq> mv)
      | Op_re \<Rightarrow> bind_res (operator_regex re mv) (\<lambda>test. Inr (test lv))
      | Op_nre \<Rightarrow> bind_res (operator_regex re mv) (\<lambda>test. Inr (\<not> test lv)))"

definition is_label_match :: "regex_engine \<Rightarrow> label_matcher \<Rightarrow> label \<Rightarrow> bool res" where
  "is_label_match re m l =
     (if fst l \<noteq> m_label m then Inr False else operator_function re (m_type m) (snd l) (m_value m))"

text \<open>
  The value a matcher is compared with: the last entry of the label list with that name, or the
  empty string when there is none (or when it is empty).
\<close>

definition label_value :: "label list \<Rightarrow> string \<Rightarrow> string" where
  "label_value labels k =
     (case jo_get (jo_from_entries labels) k of
        None \<Rightarrow> [] | Some v \<Rightarrow> if v = [] then [] else v)"

definition is_label_match_in_set :: "regex_engine \<Rightarrow> label_matcher \<Rightarrow> label list \<Rightarrow> bool" where
  "is_label_match_in_set re m labels =
     (case operator_function re (m_type m) (label_value labels (m_label m)) (m_value m) of
        Inl _ \<Rightarrow> False
      | Inr b \<Rightarrow> b)"

fun match_labels_set :: "regex_engine \<Rightarrow> label_matcher list \<Rightarrow> label list \<Rightarrow> bool" where
  "match_labels_set re [] labels = True"
| "match_labels_set re (m # ms) labels =
     (if \<not> is_label_match_in_set re m labels then False else match_labels_set re ms labels)"

section \<open>Match details\<close>

record match_details =
  label_index :: nat
  d_match :: bool
  matched_by :: "label_matcher option"

record matching_result =
  matches :: bool
  details :: "match_details list"

text \<open>\<open>labels.findIndex(label => isLabelMatch(matcher, label))\<close>: the first exception escapes.\<close>

fun matching_label_index :: "regex_engine \<Rightarrow> label_matcher \<Rightarrow> label list \<Rightarrow> nat \<Rightarrow> nat option res" where
  "matching_label_index re m [] i = Inr None"
| "matching_label_index re m (l # ls) i =
     bind_res (is_label_match re m l)
       (\<lambda>b. if b then Inr (Some i) else matching_label_index re m ls (Suc i))"

fun record_details ::
  "regex_engine \<Rightarrow> label_matcher list \<Rightarrow> label list \<Rightarrow> match_details list \<Rightarrow> match_details list res" where
  "record_details re [] labels ds = Inr ds"
| "record_details re (m # ms) labels ds =
     bind_res (matching_label_index re m labels 0)
       (\<lambda>io. record_details re ms labels
          (case io of None \<Rightarrow> ds | Some i \<Rightarrow> ds[i := (ds ! i)\<lparr>d_match := True, matched_by := Some m\<rparr>]))"

definition match_labels :: "regex_engine \<Rightarrow> label_matcher list \<Rightarrow> label list \<Rightarrow> matching_result res" where
  "match_labels re ms labels =
     bind_res
       (record_details re ms labels
          (map (\<lambda>i. \<lparr>label_index = i, d_match = False, matched_by = None\<rparr>) [0..<length labels]))
       (\<lambda>ds. Inr \<lparr>matches = match_labels_set re ms labels, details = ds\<rparr>)"

section \<open>What matching computes\<close>

definition valid_matcher :: "regex_engine \<Rightarrow> label_matcher \<Rightarrow> bool" where
  "valid_matcher re m \<longleftrightarrow>
     m_type m = Op_eq \<or> m_type m = Op_ne \<or> (\<exists>test. operator_regex re (m_value m) = Inr test)"

lemma operator_function_throws_iff:
  "(\<exists>e. operator_function re (m_type m) lv (m_value m) = Inl e) \<longleftrightarrow> \<not> valid_matcher re m"
  by (cases "operator_regex re (m_value m)"; cases "m_type m")
     (auto simp: operator_function_def valid_matcher_def)

lemma match_labels_set_iff:
  "match_labels_set re ms labels \<longleftrightarrow> (\<forall>m \<in> set ms. is_label_match_in_set re m labels)"
  by (induction ms) auto

lemma invalid_matcher_matches_nothing:
  "\<not> valid_matcher re m \<Longrightarrow> \<not> is_label_match_in_set re m labels"
  using operator_function_throws_iff [of re m "label_value labels (m_label m)"]
  by (auto simp: is_label_match_in_set_def split: sum.splits)

lemma is_label_match_throws_iff:
  "(\<exists>e. is_label_match re m l = Inl e) \<longleftrightarrow> fst l = m_label m \<and> \<not> valid_matcher re m"
  using operator_function_throws_iff [of re m "snd l"] by (auto simp: is_label_match_def)

lemma matching_label_index_throws_iff:
  "(\<exists>e. matching_label_index re m labels i = Inl e) \<longleftrightarrow>
     m_label m \<in> fst ` set labels \<and> \<not> valid_matcher re m"
proof (induction labels arbitrary: i)
  case (Cons l ls)
  show ?case
  proof (cases "is_label_match re m l")
    case (Inl e)
    then show ?thesis using is_label_match_throws_iff [of re m l] by auto
  next
    case (Inr b)
    then have nothrow: "\<not> (fst l = m_label m \<and> \<not> valid_matcher re m)"
      using is_label_match_throws_iff [of re m l] by auto
    have "b \<Longrightarrow> fst l = m_label m"
      using Inr by (auto simp: is_label_match_def split: if_splits)
    with Inr nothrow Cons.IH [of "Suc i"] show ?thesis by (cases b) auto
  qed
qed simp

lemma matching_label_index_SomeD:
  "matching_label_index re m labels i = Inr (Some j) \<Longrightarrow>
     i \<le> j \<and> j - i < length labels \<and> is_label_match re m (labels ! (j - i)) = Inr True"
proof (induction labels arbitrary: i)
  case (Cons l ls)
  then obtain b where b: "is_label_match re m l = Inr b"
    by (auto simp: bind_res_Inr_iff)
  show ?case
  proof (cases b)
    case True
    with Cons.prems b show ?thesis by simp
  next
    case False
    with Cons.prems b have "matching_label_index re m ls (Suc i) = Inr (Some j)" by simp
    from Cons.IH [OF this] show ?thesis by (auto simp: nth_Cons' Suc_diff_le diff_Suc split: nat.splits)
  qed
qed simp

lemma record_details_throws_iff:
  "(\<exists>e. record_details re ms labels ds = Inl e) \<longleftrightarrow>
     (\<exists>m \<in> set ms. m_label m \<in> fst ` set labels \<and> \<not> valid_matcher re m)"
proof (induction ms arbitrary: ds)
  case (Cons m ms)
  show ?case
    using Cons.IH matching_label_index_throws_iff [of re m labels 0]
    by (cases "matching_label_index re m labels 0") auto
qed simp

lemma match_labels_throws_iff:
  "(\<exists>e. match_labels re ms labels = Inl e) \<longleftrightarrow>
     (\<exists>m \<in> set ms. m_label m \<in> fst ` set labels \<and> \<not> valid_matcher re m)"
  using record_details_throws_iff [of re ms labels]
  by (auto simp: match_labels_def bind_res_Inl_iff)

lemma match_labels_total:
  assumes "\<And>m. m \<in> set ms \<Longrightarrow> valid_matcher re m"
  obtains r where "match_labels re ms labels = Inr r"
  using match_labels_throws_iff [of re ms labels] assms by (cases "match_labels re ms labels") auto

lemma match_labels_matches:
  "match_labels re ms labels = Inr r \<Longrightarrow> matches r \<longleftrightarrow> match_labels_set re ms labels"
  by (auto simp: match_labels_def bind_res_Inr_iff)

text \<open>A recorded matcher really matched the label it is recorded for.\<close>

definition details_sound :: "regex_engine \<Rightarrow> label list \<Rightarrow> match_details list \<Rightarrow> bool" where
  "details_sound re labels ds \<longleftrightarrow> length ds = length labels \<and>
     (\<forall>i < length labels. label_index (ds ! i) = i \<and>
        (case matched_by (ds ! i) of
           None \<Rightarrow> \<not> d_match (ds ! i)
         | Some m \<Rightarrow> d_match (ds ! i) \<and> is_label_match re m (labels ! i) = Inr True))"

lemma record_details_sound:
  "record_details re ms labels ds = Inr ds' \<Longrightarrow> details_sound re labels ds \<Longrightarrow> details_sound re labels ds'"
proof (induction ms arbitrary: ds)
  case (Cons m ms)
  then obtain io where io: "matching_label_index re m labels 0 = Inr io"
    by (auto simp: bind_res_Inr_iff)
  show ?case
  proof (cases io)
    case None
    with Cons io show ?thesis by simp
  next
    case (Some i)
    with io have "i < length labels" "is_label_match re m (labels ! i) = Inr True"
      using matching_label_index_SomeD [of re m labels 0 i] by auto
    then have "details_sound re labels (ds[i := (ds ! i)\<lparr>d_match := True, matched_by := Some m\<rparr>])"
      using Cons.prems(2) by (auto simp: details_sound_def nth_list_update split: option.splits if_splits)
    with Cons io Some show ?thesis by simp
  qed
qed simp

lemma match_labels_details_sound:
  assumes "match_labels re ms labels = Inr r"
  shows "details_sound re labels (details r)"
proof -
  have "details_sound re labels
      (map (\<lambda>i. \<lparr>label_index = i, d_match = False, matched_by = None\<rparr>) [0..<length labels])"
    by (simp add: details_sound_def)
  with assms show ?thesis
    by (auto simp: match_labels_def bind_res_Inr_iff intro: record_details_sound)
qed

end
