(* ===== verification/Alert_Routes.thy ===== *)
theory Alert_Routes
  imports Alert_Matching
begin

text \<open>
  Notification-policy routing: \<open>packages/grafana-alerting/src/grafana/notificationPolicies/utils.ts\<close>
  and \<open>.../hooks/useMatchPolicies.ts\<close>.

  A route is a node of a policy tree. \<open>Route\<close> and \<open>RouteWithID\<close> are the two instances of
  \<open>'i rtree\<close> (\<open>unit\<close> and \<open>string\<close> identifiers); the generic functions of the source are polymorphic
  in \<open>'i\<close>. A list of labels is an array object, which the source later compares by identity: an
  instance carries the identity of its array (a number) beside its labels.

  \<open>selects\<close> is the abstract specification of the depth-first search (which policies an alert
  is delivered to), and the lemmas relate the search, the inheritance of properties and the
  numbering of nodes to it.
\<close>

section \<open>Routes\<close>

record route_fields =
  r_receiver :: "string option"
  r_group_by :: "string list option"
  r_group_wait :: "string option"
  r_group_interval :: "string option"
  r_repeat_interval :: "string option"
  r_continue :: bool
  r_matchers :: "label_matcher list option"
  r_mute_time_intervals :: "string list option"
  r_active_time_intervals :: "string list option"

datatype 'i rtree = Route (rt_id: 'i) (rt_fields: route_fields) (rt_routes: "'i rtree list option")

type_synonym route = "unit rtree"
type_synonym route_with_id = "string rtree"

abbreviation children :: "'i rtree \<Rightarrow> 'i rtree list" where
  "children r \<equiv> nullish (rt_routes r) []"

abbreviation continues :: "'i rtree \<Rightarrow> bool" where
  "continues r \<equiv> r_continue (rt_fields r)"

abbreviation matchers_of :: "'i rtree \<Rightarrow> label_matcher list" where
  "matchers_of r \<equiv> nullish (r_matchers (rt_fields r)) []"

record inst =
  ref :: nat
  inst_labels :: "label list"

record 'i route_match_info =
  mi_route :: "'i rtree"
  mi_details :: "match_details list"
  mi_matched :: bool

record 'i route_match_result =
  rm_route :: "'i rtree"
  rm_labels :: inst
  rm_journey :: "'i route_match_info list"

section \<open>Depth-first matching\<close>

fun find_matching_routes ::
    "regex_engine \<Rightarrow> inst \<Rightarrow> 'i route_match_info list \<Rightarrow> 'i rtree \<Rightarrow> 'i route_match_result list res"
  and find_in_children ::
    "regex_engine \<Rightarrow> inst \<Rightarrow> 'i route_match_info list \<Rightarrow> 'i rtree list \<Rightarrow> 'i route_match_result list res"
where
  "find_matching_routes re l journey (Route i f rs) =
     bind_res (match_labels re (nullish (r_matchers f) []) (inst_labels l)) (\<lambda>r.
       let journey' = journey @
             [\<lparr>mi_route = Route i f rs, mi_details = details r, mi_matched = matches r\<rparr>]
       in if \<not> matches r then Inr []
          else bind_res (case rs of None \<Rightarrow> Inr [] | Some cs \<Rightarrow> find_in_children re l journey' cs)
            (\<lambda>child_matches.
               Inr (if child_matches = []
                    then [\<lparr>rm_route = Route i f rs, rm_labels = l, rm_journey = journey'\<rparr>]
                    else child_matches)))"
| "find_in_children re l journey [] = Inr []"
| "find_in_children re l journey (c # cs) =
     bind_res (find_matching_routes re l journey c) (\<lambda>ms.
       if ms \<noteq> [] \<and> \<not> continues c then Inr ms
       else bind_res (find_in_children re l journey cs) (\<lambda>rest. Inr (ms @ rest)))"

section \<open>Inherited properties\<close>

record inheritable =
  i_receiver :: "string option"
  i_group_by :: "string list option"
  i_group_wait :: "string option"
  i_group_interval :: "string option"
  i_repeat_interval :: "string option"

definition pick_inheritable :: "route_fields \<Rightarrow> inheritable" where
  "pick_inheritable f =
     \<lparr>i_receiver = r_receiver f, i_group_by = r_group_by f, i_group_wait = r_group_wait f,
      i_group_interval = r_group_interval f, i_repeat_interval = r_repeat_interval f\<rparr>"

definition override :: "'a option \<Rightarrow> 'a option \<Rightarrow> 'a option" where
  "override x y = (case y of None \<Rightarrow> x | Some v \<Rightarrow> Some v)"

text \<open>The spread \<open>{...propsFromParent, ...propertiesParentInherited}\<close>, absent keys overriding nothing.\<close>

definition spread_inheritable :: "inheritable \<Rightarrow> inheritable option \<Rightarrow> inheritable" where
  "spread_inheritable p q = (case q of None \<Rightarrow> p | Some q \<Rightarrow>
     \<lparr>i_receiver = override (i_receiver p) (i_receiver q),
      i_group_by = override (i_group_by p) (i_group_by q),
      i_group_wait = override (i_group_wait p) (i_group_wait q),
      i_group_interval = override (i_group_interval p) (i_group_interval q),
      i_repeat_interval = override (i_repeat_interval p) (i_repeat_interval q)\<rparr>)"

definition inherit_string :: "string option \<Rightarrow> string option \<Rightarrow> string option" where
  "inherit_string parent_value child_value =
     (if parent_value \<noteq> None \<and> (child_value = None \<or> child_value = Some []) then parent_value else None)"

definition inherit_group_by :: "string list option \<Rightarrow> string list option \<Rightarrow> string list option" where
  "inherit_group_by parent_value child_value =
     (if parent_value \<noteq> None \<and> (child_value = None \<or> child_value = Some []) then parent_value else None)"

definition get_inherited_properties ::
  "route_fields \<Rightarrow> route_fields \<Rightarrow> inheritable option \<Rightarrow> inheritable" where
  "get_inherited_properties parent child parent_inherited =
     (let p = spread_inheritable (pick_inheritable parent) parent_inherited in
      \<lparr>i_receiver = inherit_string (i_receiver p) (r_receiver child),
       i_group_by = inherit_group_by (i_group_by p) (r_group_by child),
       i_group_wait = inherit_string (i_group_wait p) (r_group_wait child),
       i_group_interval = inherit_string (i_group_interval p) (r_group_interval child),
       i_repeat_interval = inherit_string (i_repeat_interval p) (r_repeat_interval child)\<rparr>)"

definition overlay :: "route_fields \<Rightarrow> inheritable \<Rightarrow> route_fields" where
  "overlay f p = f
     \<lparr>r_receiver := override (r_receiver f) (i_receiver p),
      r_group_by := override (r_group_by f) (i_group_by p),
      r_group_wait := override (r_group_wait f) (i_group_wait p),
      r_group_interval := override (r_group_interval f) (i_group_interval p),
      r_repeat_interval := override (r_repeat_interval f) (i_repeat_interval p)\<rparr>"

definition inherit_child :: "route_fields \<Rightarrow> 'i rtree \<Rightarrow> 'i rtree" where
  "inherit_child parent c =
     Route (rt_id c) (overlay (rt_fields c) (get_inherited_properties parent (rt_fields c) None)) (rt_routes c)"

lemma size_inherit_child [simp]: "size (inherit_child p c) = size c"
  by (cases c) (simp add: inherit_child_def)

lemma child_smaller: "c \<in> set cs \<Longrightarrow> size c < Suc (Suc (size_list size cs))"
  using size_list_estimation' [of c cs "size c" size] by simp

function compute_inherited_tree :: "'i rtree \<Rightarrow> 'i rtree" where
  "compute_inherited_tree (Route i f rs) =
     Route i f (map_option (map (\<lambda>c. compute_inherited_tree (inherit_child f c))) rs)"
  by pat_completeness auto
termination
  by (relation "measure size") (auto intro: child_smaller)

section \<open>Identifiers\<close>

text \<open>lodash \<open>uniqueId(prefix)\<close> increments a module-wide counter, which the model passes along.\<close>

definition route_id :: "nat \<Rightarrow> string" where
  "route_id n = ''route-'' @ string_of_nat n"

fun add_unique_identifier :: "'i rtree \<Rightarrow> nat \<Rightarrow> route_with_id \<times> nat"
  and add_unique_identifiers :: "'i rtree list \<Rightarrow> nat \<Rightarrow> route_with_id list \<times> nat"
where
  "add_unique_identifier (Route _ f rs) n =
     (let (cs, n') = (case rs of None \<Rightarrow> ([], Suc n) | Some cs \<Rightarrow> add_unique_identifiers cs (Suc n))
      in (Route (route_id (Suc n)) f (Some cs), n'))"
| "add_unique_identifiers [] n = ([], n)"
| "add_unique_identifiers (c # cs) n =
     (let (c', n') = add_unique_identifier c n; (cs', n'') = add_unique_identifiers cs n'
      in (c' # cs', n''))"

section \<open>Matching all instances against a tree\<close>

record tree_match =
  expanded_tree :: route_with_id
  matched_policies :: "(route_with_id \<times> string route_match_result list) list"

text \<open>\<open>matchedPolicies.set(match[0].route, match)\<close> over the groups; routes are compared as objects.\<close>

definition policies_by_route ::
  "string route_match_result list \<Rightarrow> (route_with_id \<times> string route_match_result list) list" where
  "policies_by_route ms =
     fold (\<lambda>g. es_map_set (rm_route (hd g)) g) (jo_values (group_by (\<lambda>m. rt_id (rm_route m)) ms)) []"

definition match_instances_to_route ::
  "regex_engine \<Rightarrow> route \<Rightarrow> inst list \<Rightarrow> nat \<Rightarrow> tree_match res \<times> nat" where
  "match_instances_to_route re root instances n =
     (let (expanded, n') = add_unique_identifier (compute_inherited_tree root) n in
      (bind_res (map_res (\<lambda>l. find_matching_routes re l [] expanded) instances)
         (\<lambda>mss. Inr \<lparr>expanded_tree = expanded, matched_policies = policies_by_route (concat mss)\<rparr>),
       n'))"

section \<open>Routing trees of the API\<close>

record routing_tree =
  rt_name :: "string option"
  rt_defaults :: inheritable
  rt_top_routes :: "route list"

function convert_route :: "route \<Rightarrow> route" where
  "convert_route (Route i f rs) =
     Route i f (Some (case rs of None \<Rightarrow> [] | Some cs \<Rightarrow> map convert_route cs))"
  by pat_completeness auto
termination
  by (relation "measure size") (auto intro: child_smaller)

definition convert_routing_tree_to_route :: "routing_tree \<Rightarrow> route" where
  "convert_routing_tree_to_route t =
     (let d = rt_defaults t in
      Route ()
        \<lparr>r_receiver = i_receiver d, r_group_by = i_group_by d, r_group_wait = i_group_wait d,
         r_group_interval = i_group_interval d, r_repeat_interval = i_repeat_interval d,
         r_continue = False, r_matchers = Some [],
         r_mute_time_intervals = Some [], r_active_time_intervals = Some []\<rparr>
        (Some (map convert_route (rt_top_routes t))))"

record route_match =
  rmt_route :: route_with_id
  rmt_tree_name :: string
  rmt_expanded :: route_with_id
  rmt_details :: "string route_match_result"

record instance_match_result =
  im_labels :: inst
  im_matched_routes :: "route_match list"

definition user_defined_tree_name :: string where
  "user_defined_tree_name = ''user-defined''"

fun match_trees ::
  "regex_engine \<Rightarrow> inst list \<Rightarrow> routing_tree list \<Rightarrow> nat \<Rightarrow> tree_match list res \<times> nat" where
  "match_trees re instances [] n = (Inr [], n)"
| "match_trees re instances (t # ts) n =
     (case match_instances_to_route re (convert_routing_tree_to_route t) instances n of
        (Inl e, n') \<Rightarrow> (Inl e, n')
      | (Inr m, n') \<Rightarrow>
          (case match_trees re instances ts n' of
             (Inl e, n'') \<Rightarrow> (Inl e, n'')
           | (Inr ms, n'') \<Rightarrow> (Inr (m # ms), n'')))"

definition routes_of_instance :: "inst \<Rightarrow> routing_tree \<Rightarrow> tree_match \<Rightarrow> route_match list" where
  "routes_of_instance l t tm =
     concat (map (\<lambda>(route, results).
       map (\<lambda>d. \<lparr>rmt_route = route, rmt_tree_name = nullish (rt_name t) user_defined_tree_name,
                 rmt_expanded = expanded_tree tm, rmt_details = d\<rparr>)
         (filter (\<lambda>d. ref (rm_labels d) = ref l) results)) (matched_policies tm))"

definition match_instances_to_route_trees ::
  "regex_engine \<Rightarrow> routing_tree list \<Rightarrow> inst list \<Rightarrow> nat \<Rightarrow> instance_match_result list res \<times> nat" where
  "match_instances_to_route_trees re trees instances n =
     (case match_trees re instances trees n of
        (Inl e, n') \<Rightarrow> (Inl e, n')
      | (Inr tms, n') \<Rightarrow>
          (Inr (map (\<lambda>l. \<lparr>im_labels = l,
                 im_matched_routes = concat (map (\<lambda>(t, tm). routes_of_instance l t tm) (zip trees tms))\<rparr>)
               instances), n'))"

section \<open>Specification: which policies an alert is delivered to\<close>

text \<open>
  \<open>selects m r path\<close>: starting at \<open>r\<close>, the search ends in the last node of \<open>path\<close>. Every node
  on the path matches, no matching sibling before a node of the path stops the search, and the last
  node has no matching child.
\<close>

inductive selects :: "('i rtree \<Rightarrow> bool) \<Rightarrow> 'i rtree \<Rightarrow> 'i rtree list \<Rightarrow> bool" for m where
  select_self: "m r \<Longrightarrow> \<forall>c \<in> set (children r). \<not> m c \<Longrightarrow> selects m r [r]"
| select_child: "m r \<Longrightarrow> children r = pre @ c # post \<Longrightarrow> \<forall>p \<in> set pre. m p \<longrightarrow> continues p \<Longrightarrow>
    selects m c path \<Longrightarrow> selects m r (r # path)"

inductive_simps selects_Nil [simp]: "selects m r []"

definition selects_in :: "('i rtree \<Rightarrow> bool) \<Rightarrow> 'i rtree list \<Rightarrow> 'i rtree list \<Rightarrow> bool" where
  "selects_in m cs path \<longleftrightarrow> (\<exists>pre c post. cs = pre @ c # post \<and>
     (\<forall>p \<in> set pre. m p \<longrightarrow> continues p) \<and> selects m c path)"

inductive_cases selectsE: "selects m r path"

lemma selects_matches: "selects m r path \<Longrightarrow> m r"
  by (auto elim: selectsE)

lemma selects_in_Nil [simp]: "\<not> selects_in m [] path"
  by (simp add: selects_in_def)

lemma selects_in_here: "selects m c path \<Longrightarrow> selects_in m (c # cs) path"
  unfolding selects_in_def by (rule exI [of _ "[]"]) auto

lemma selects_in_later:
  assumes "m c \<longrightarrow> continues c" and "selects_in m cs path"
  shows "selects_in m (c # cs) path"
proof -
  obtain pre c' post where "cs = pre @ c' # post" "\<forall>p \<in> set pre. m p \<longrightarrow> continues p" "selects m c' path"
    using assms(2) by (auto simp: selects_in_def)
  with assms(1) show ?thesis
    unfolding selects_in_def by (intro exI [of _ "c # pre"] exI [of _ c'] exI [of _ post]) auto
qed

lemma selects_in_Cons:
  "selects_in m (c # cs) path \<longleftrightarrow> selects m c path \<or> ((m c \<longrightarrow> continues c) \<and> selects_in m cs path)"
proof
  assume "selects_in m (c # cs) path"
  then obtain pre c' post where *: "c # cs = pre @ c' # post"
      "\<forall>p \<in> set pre. m p \<longrightarrow> continues p" "selects m c' path"
    by (auto simp: selects_in_def)
  then show "selects m c path \<or> ((m c \<longrightarrow> continues c) \<and> selects_in m cs path)"
    by (cases pre) (auto simp: selects_in_def)
qed (auto intro: selects_in_here selects_in_later)

lemma selects_eq:
  "selects m r path \<longleftrightarrow> m r \<and>
     ((path = [r] \<and> (\<forall>c \<in> set (children r). \<not> m c)) \<or>
      (\<exists>rest. path = r # rest \<and> selects_in m (children r) rest))"
proof
  assume "selects m r path"
  then show "m r \<and> ((path = [r] \<and> (\<forall>c \<in> set (children r). \<not> m c)) \<or>
      (\<exists>rest. path = r # rest \<and> selects_in m (children r) rest))"
    unfolding selects_in_def by cases fast+
qed (auto simp: selects_in_def intro: selects.intros)

lemma selects_in_matches: "selects_in m cs path \<Longrightarrow> \<exists>c \<in> set cs. m c"
  by (auto simp: selects_in_def dest: selects_matches)

definition policy_matches :: "regex_engine \<Rightarrow> label list \<Rightarrow> 'i rtree \<Rightarrow> bool" where
  "policy_matches re labels r = match_labels_set re (matchers_of r) labels"

abbreviation path_of :: "'i route_match_result \<Rightarrow> 'i rtree list" where
  "path_of x \<equiv> map mi_route (rm_journey x)"

definition result_ok :: "inst \<Rightarrow> 'i route_match_result \<Rightarrow> bool" where
  "result_ok l x \<longleftrightarrow> rm_labels x = l \<and> rm_journey x \<noteq> [] \<and> rm_route x = last (path_of x)"

lemma find_matching_routes_spec:
  fixes r :: "'i rtree" and cs :: "'i rtree list"
  shows "find_matching_routes re l j r = Inr ms \<Longrightarrow>
      (ms \<noteq> [] \<longleftrightarrow> policy_matches re (inst_labels l) r) \<and> (\<forall>x \<in> set ms. result_ok l x) \<and>
      path_of ` set ms = (@) (map mi_route j) ` {p. selects (policy_matches re (inst_labels l)) r p}"
    and "find_in_children re l j cs = Inr ms \<Longrightarrow>
      (ms \<noteq> [] \<longleftrightarrow> (\<exists>c \<in> set cs. policy_matches re (inst_labels l) c)) \<and> (\<forall>x \<in> set ms. result_ok l x) \<and>
      path_of ` set ms = (@) (map mi_route j) ` {p. selects_in (policy_matches re (inst_labels l)) cs p}"
proof (induction re l j r and re l j cs arbitrary: ms and ms
    rule: find_matching_routes_find_in_children.induct)
  case (1 re l j i f rs)
  let ?r = "Route i f rs" and ?m = "policy_matches re (inst_labels l)"
  obtain r where r: "match_labels re (nullish (r_matchers f) []) (inst_labels l) = Inr r"
    using "1.prems" by (auto simp: bind_res_Inr_iff)
  have m: "?m ?r \<longleftrightarrow> matches r"
    using match_labels_matches [OF r] by (simp add: policy_matches_def)
  let ?j' = "j @ [\<lparr>mi_route = ?r, mi_details = details r, mi_matched = matches r\<rparr>]"
  show ?case
  proof (cases "matches r")
    case False
    with m have "\<not> selects ?m ?r p" for p using selects_matches by blast
    with False "1.prems" r m show ?thesis by (auto simp: Let_def)
  next
    case True
    define kids where "kids = (case rs of None \<Rightarrow> Inr [] | Some cs \<Rightarrow> find_in_children re l ?j' cs)"
    have "bind_res kids (\<lambda>cms. Inr (if cms = []
        then [\<lparr>rm_route = ?r, rm_labels = l, rm_journey = ?j'\<rparr>] else cms)) = Inr ms"
      using "1.prems" r True by (simp add: Let_def kids_def)
    then obtain cms where kids: "kids = Inr cms"
      and ms: "ms = (if cms = [] then [\<lparr>rm_route = ?r, rm_labels = l, rm_journey = ?j'\<rparr>] else cms)"
      by (auto simp: bind_res_Inr_iff)
    have IH: "(cms \<noteq> [] \<longleftrightarrow> (\<exists>c \<in> set (children ?r). ?m c)) \<and> (\<forall>x \<in> set cms. result_ok l x) \<and>
        path_of ` set cms = (@) (map mi_route ?j') ` {p. selects_in ?m (children ?r) p}"
    proof (cases rs)
      case None
      with kids show ?thesis by (auto simp: kids_def)
    next
      case (Some cs)
      with kids show ?thesis using "1.IH" [OF r refl] True by (auto simp: kids_def)
    qed
    have sel: "{p. selects ?m ?r p} =
        (if \<exists>c \<in> set (children ?r). ?m c then (#) ?r ` {p. selects_in ?m (children ?r) p} else {[?r]})"
      using True m selects_in_matches by (subst selects_eq) auto
    show ?thesis
      using IH ms True m sel by (auto simp: result_ok_def image_image)
  qed
next
  case (2 re l j)
  then show ?case by simp
next
  case (3 re l j c cs)
  let ?m = "policy_matches re (inst_labels l)"
  obtain ms1 where ms1: "find_matching_routes re l j c = Inr ms1"
    using "3.prems" by (auto simp: bind_res_Inr_iff)
  note IH1 = "3.IH"(1) [OF ms1]
  show ?case
  proof (cases "ms1 \<noteq> [] \<and> \<not> continues c")
    case True
    with "3.prems" ms1 IH1 show ?thesis by (auto simp: selects_in_Cons)
  next
    case False
    with "3.prems" ms1 obtain ms2 where ms2: "find_in_children re l j cs = Inr ms2" "ms = ms1 @ ms2"
      by (auto simp: bind_res_Inr_iff)
    note IH2 = "3.IH"(2) [OF ms1 False ms2(1)]
    have "{p. selects_in ?m (c # cs) p} = {p. selects ?m c p} \<union> {p. selects_in ?m cs p}"
      using False IH1 by (auto simp: selects_in_Cons)
    with IH1 IH2 ms2 show ?thesis by (auto simp: image_Un)
  qed
qed

section \<open>Exceptions\<close>

text \<open>All matchers of a tree have a valid pattern.\<close>

fun tree_valid :: "regex_engine \<Rightarrow> 'i rtree \<Rightarrow> bool" where
  "tree_valid re (Route i f rs) \<longleftrightarrow>
     list_all (valid_matcher re) (nullish (r_matchers f) []) \<and>
     (case rs of None \<Rightarrow> True | Some cs \<Rightarrow> list_all (tree_valid re) cs)"

lemma find_matching_routes_total:
  fixes r :: "'i rtree" and cs :: "'i rtree list"
  shows "tree_valid re r \<Longrightarrow> \<exists>ms. find_matching_routes re l j r = Inr ms"
    and "list_all (tree_valid re) cs \<Longrightarrow> \<exists>ms. find_in_children re l j cs = Inr ms"
proof (induction re l j r and re l j cs rule: find_matching_routes_find_in_children.induct)
  case (1 re l j i f rs)
  obtain r where r: "match_labels re (nullish (r_matchers f) []) (inst_labels l) = Inr r"
    using "1.prems" match_labels_total [of "nullish (r_matchers f) []" re] by (auto simp: list_all_iff)
  then show ?case
    using "1.IH" [OF r refl] "1.prems"
    by (cases rs) (force simp: Let_def)+
next
  case (3 re l j c cs)
  then show ?case by fastforce
qed simp

section \<open>Expanding the tree does not change the routing\<close>

text \<open>What the search depends on: matchers, the continue flag and the shape of the tree.\<close>

definition routing_fields :: "route_fields \<Rightarrow> route_fields" where
  "routing_fields f =
     \<lparr>r_receiver = None, r_group_by = None, r_group_wait = None, r_group_interval = None,
      r_repeat_interval = None, r_continue = r_continue f, r_matchers = r_matchers f,
      r_mute_time_intervals = None, r_active_time_intervals = None\<rparr>"

function skeleton :: "'i rtree \<Rightarrow> route" where
  "skeleton (Route i f rs) =
     Route () (routing_fields f) (Some (case rs of None \<Rightarrow> [] | Some cs \<Rightarrow> map skeleton cs))"
  by pat_completeness auto
termination
  by (relation "measure size") (auto intro: child_smaller)

definition skeleton_info :: "'i route_match_info \<Rightarrow> unit route_match_info" where
  "skeleton_info i = \<lparr>mi_route = skeleton (mi_route i), mi_details = mi_details i, mi_matched = mi_matched i\<rparr>"

definition skeleton_result :: "'i route_match_result \<Rightarrow> unit route_match_result" where
  "skeleton_result x =
     \<lparr>rm_route = skeleton (rm_route x), rm_labels = rm_labels x, rm_journey = map skeleton_info (rm_journey x)\<rparr>"

lemma routing_fields_sel [simp]:
  "r_matchers (routing_fields f) = r_matchers f" "r_continue (routing_fields f) = r_continue f"
  by (simp_all add: routing_fields_def)

lemma continues_skeleton [simp]: "continues (skeleton r) = continues r"
  by (cases r) simp

lemma find_skeleton:
  fixes r :: "'i rtree" and cs :: "'i rtree list"
  shows "find_matching_routes re l (map skeleton_info j) (skeleton r) =
      map_sum id (map skeleton_result) (find_matching_routes re l j r)"
    and "find_in_children re l (map skeleton_info j) (map skeleton cs) =
      map_sum id (map skeleton_result) (find_in_children re l j cs)"
proof (induction re l j r and re l j cs rule: find_matching_routes_find_in_children.induct)
  case (1 re l j i f rs)
  show ?case
  proof (cases "match_labels re (nullish (r_matchers f) []) (inst_labels l)")
    case (Inl e)
    then show ?thesis by simp
  next
    case (Inr r)
    let ?j = "j @ [\<lparr>mi_route = Route i f rs, mi_details = details r, mi_matched = matches r\<rparr>]"
    show ?thesis
    proof (cases rs)
      case None
      with Inr show ?thesis by (simp add: Let_def skeleton_result_def skeleton_info_def)
    next
      case (Some cs)
      then show ?thesis
        using Inr "1.IH" [OF Inr refl _ Some]
        by (cases "find_in_children re l ?j cs")
           (auto simp: Let_def skeleton_result_def skeleton_info_def)
    qed
  qed
next
  case (3 re l j c cs)
  show ?case
  proof (cases "find_matching_routes re l j c")
    case (Inr ms)
    with 3 show ?thesis by (cases "find_in_children re l j cs") auto
  qed (use 3 in simp)
qed simp

lemma skeleton_inherit_child: "skeleton (inherit_child p c) = skeleton c"
  by (cases c) (simp add: inherit_child_def routing_fields_def overlay_def)

lemma skeleton_compute_inherited_tree: "skeleton (compute_inherited_tree r) = skeleton r"
proof (induction r rule: compute_inherited_tree.induct)
  case (1 i f rs)
  then show ?case by (cases rs) (auto simp: skeleton_inherit_child)
qed

lemma skeleton_add_unique_identifier:
  fixes r :: "'i rtree" and cs :: "'i rtree list"
  shows "skeleton (fst (add_unique_identifier r n)) = skeleton r"
    and "map skeleton (fst (add_unique_identifiers cs n)) = map skeleton cs"
proof (induction r n and cs n rule: add_unique_identifier_add_unique_identifiers.induct)
  case (1 i f rs n)
  then show ?case by (cases rs) (auto simp: split_beta)
next
  case (3 c cs n)
  then show ?case by (cases "add_unique_identifier c n") (auto simp: split_beta)
qed simp

section \<open>Identifiers are unique\<close>

function tree_nodes :: "'i rtree \<Rightarrow> 'i rtree list" where
  "tree_nodes (Route i f rs) =
     Route i f rs # (case rs of None \<Rightarrow> [] | Some cs \<Rightarrow> concat (map tree_nodes cs))"
  by pat_completeness auto
termination
  by (relation "measure size") (auto intro: child_smaller)

lemma ids_add_unique_identifier:
  fixes r :: "'i rtree" and cs :: "'i rtree list"
  shows "add_unique_identifier r n = (r', n') \<Longrightarrow>
      n < n' \<and> map rt_id (tree_nodes r') = map route_id [Suc n..<Suc n']"
    and "add_unique_identifiers cs n = (cs', n') \<Longrightarrow>
      n \<le> n' \<and> map rt_id (concat (map tree_nodes cs')) = map route_id [Suc n..<Suc n']"
proof (induction r n and cs n arbitrary: r' n' and cs' n'
    rule: add_unique_identifier_add_unique_identifiers.induct)
  case (1 i f rs n)
  show ?case
  proof (cases rs)
    case None
    with "1.prems" show ?thesis by auto
  next
    case (Some cs)
    then obtain cs' where cs': "add_unique_identifiers cs (Suc n) = (cs', n')"
      and r': "r' = Route (route_id (Suc n)) f (Some cs')"
      using "1.prems" by (auto split: prod.splits)
    from "1.IH" [OF Some cs'] show ?thesis
      by (simp add: r' upt_conv_Cons [of "Suc n" "Suc n'"] del: upt_Suc)
  qed
next
  case (2 n)
  then show ?case by auto
next
  case (3 c cs n)
  obtain c1 n1 where c1: "add_unique_identifier c n = (c1, n1)" by fastforce
  obtain cs1 n2 where cs1: "add_unique_identifiers cs n1 = (cs1, n2)" by fastforce
  have "n < n1" "map rt_id (tree_nodes c1) = map route_id [Suc n..<Suc n1]"
    using "3.IH"(1) [OF c1] by auto
  moreover have "n1 \<le> n2" "map rt_id (concat (map tree_nodes cs1)) = map route_id [Suc n1..<Suc n2]"
    using "3.IH"(2) [OF c1 [symmetric] refl cs1] by auto
  moreover have "[Suc n..<Suc n2] = [Suc n..<Suc n1] @ [Suc n1..<Suc n2]"
    using \<open>n < n1\<close> \<open>n1 \<le> n2\<close> upt_add_eq_append [of "Suc n" "Suc n1" "n2 - n1"] by simp
  ultimately show ?case
    using "3.prems" c1 cs1 by auto
qed

lemma route_id_inj: "route_id m = route_id n \<longleftrightarrow> m = n"
  by (auto simp: route_id_def dest: string_of_nat_inj)

lemma distinct_ids:
  assumes "add_unique_identifier r n = (r', n')"
  shows "distinct (map rt_id (tree_nodes r'))"
proof -
  have "inj_on route_id S" for S
    by (auto simp: inj_on_def route_id_inj)
  with ids_add_unique_identifier(1) [OF assms] show ?thesis
    by (simp add: distinct_map del: upt_Suc)
qed

lemma tree_nodes_children:
  "r \<in> set (tree_nodes r)"
  "c \<in> set (children r) \<Longrightarrow> set (tree_nodes c) \<subseteq> set (tree_nodes r)"
  by (cases r; cases "rt_routes r"; auto)+

lemma selects_nodes: "selects m r path \<Longrightarrow> set path \<subseteq> set (tree_nodes r)"
proof (induction rule: selects.induct)
  case (select_self r)
  then show ?case by (simp add: tree_nodes_children)
next
  case (select_child r pre c post path)
  then have "set (tree_nodes c) \<subseteq> set (tree_nodes r)"
    by (intro tree_nodes_children) simp
  with select_child.IH tree_nodes_children(1) [of r] show ?case by auto
qed

lemma found_route_in_tree:
  assumes "find_matching_routes re l [] r = Inr ms" and "x \<in> set ms"
  shows "rm_route x \<in> set (tree_nodes r)"
proof -
  note spec = find_matching_routes_spec(1) [OF assms(1)]
  then have "selects (policy_matches re (inst_labels l)) r (path_of x)"
    using assms(2) by auto
  moreover have "rm_route x \<in> set (path_of x)"
    using spec assms(2) by (metis last_in_set map_is_Nil_conv result_ok_def)
  ultimately show ?thesis using selects_nodes by blast
qed

section \<open>Inherited values\<close>

fun node_at :: "'i rtree \<Rightarrow> nat list \<Rightarrow> 'i rtree option" where
  "node_at t [] = Some t"
| "node_at t (k # ks) = (if k < length (children t) then node_at (children t ! k) ks else None)"

text \<open>The fields of the nodes from the root down to a position.\<close>

fun chain :: "'i rtree \<Rightarrow> nat list \<Rightarrow> route_fields list" where
  "chain t [] = [rt_fields t]"
| "chain t (k # ks) =
     rt_fields t # (if k < length (children t) then chain (children t ! k) ks else [])"

definition is_set :: "'a list option \<Rightarrow> bool" where
  "is_set v \<longleftrightarrow> v \<noteq> None \<and> v \<noteq> Some []"

text \<open>\<open>v\<close> is the value of the nearest node, from the last to the first, that sets one.\<close>

definition nearest :: "'a list option list \<Rightarrow> 'a list option \<Rightarrow> bool" where
  "nearest vs v \<longleftrightarrow> (if filter is_set vs = [] then \<not> is_set v else v = last (filter is_set vs))"

text \<open>A property that a child takes from its parent exactly when it is absent or empty.\<close>

definition inheriting :: "(route_fields \<Rightarrow> 'a list option) \<Rightarrow> bool" where
  "inheriting get \<longleftrightarrow> (\<forall>p c. get (overlay c (get_inherited_properties p c None)) =
     (if is_set (get c) \<or> get p = None then get c else get p))"

lemma inheriting_properties:
  "inheriting r_receiver" "inheriting r_group_by" "inheriting r_group_wait"
  "inheriting r_group_interval" "inheriting r_repeat_interval"
  by (auto simp: inheriting_def overlay_def get_inherited_properties_def spread_inheritable_def
      pick_inheritable_def inherit_string_def inherit_group_by_def override_def is_set_def Let_def
      split: option.splits)

lemma nearest_is_set: "nearest vs v \<Longrightarrow> v = None \<Longrightarrow> filter is_set vs = []"
proof (rule ccontr)
  assume n: "nearest vs v" "v = None" "filter is_set vs \<noteq> []"
  then have "None \<in> set (filter is_set vs)"
    using last_in_set [OF n(3)] by (simp add: nearest_def)
  then show False by (simp add: is_set_def)
qed

lemma nearest_snoc:
  assumes "nearest vs p"
  shows "nearest (vs @ [c]) (if is_set c \<or> p = None then c else p)"
proof (cases "is_set c")
  case True
  then show ?thesis by (simp add: nearest_def)
next
  case False
  then have "nearest (vs @ [c]) v \<longleftrightarrow> nearest vs v" for v
    by (simp add: nearest_def)
  with False assms show ?thesis
    by (cases "p = None") (simp_all add: nearest_def [of vs c] nearest_is_set)
qed

lemma nearest_step:
  "inheriting get \<Longrightarrow> nearest vs (get p) \<Longrightarrow>
   nearest (vs @ [get c]) (get (overlay c (get_inherited_properties p c None)))"
  unfolding inheriting_def using nearest_snoc [of vs "get p" "get c"] by presburger

lemma children_compute_inherited_tree:
  "children (compute_inherited_tree t) =
     map (\<lambda>c. compute_inherited_tree (inherit_child (rt_fields t) c)) (children t)"
  by (cases t; cases "rt_routes t") auto

lemma fields_compute_inherited_tree [simp]: "rt_fields (compute_inherited_tree t) = rt_fields t"
  by (cases t) simp

lemma children_inherit_child [simp]: "children (inherit_child p c) = children c"
  by (simp add: inherit_child_def)

lemma inherited_nearest:
  assumes inh: "inheriting get"
  shows "node_at t ks = Some r \<Longrightarrow> rt_routes t' = rt_routes t \<Longrightarrow> nearest vs (get (rt_fields t')) \<Longrightarrow>
    \<exists>r'. node_at (compute_inherited_tree t') ks = Some r' \<and>
      nearest (vs @ map get (tl (chain t ks))) (get (rt_fields r'))"
proof (induction ks arbitrary: t t' vs)
  case Nil
  then show ?case by simp
next
  case (Cons k ks)
  let ?c = "children t ! k"
  have k: "k < length (children t)" and at: "node_at ?c ks = Some r"
    using Cons.prems(1) by (auto split: if_splits)
  have kids: "children t' = children t"
    using Cons.prems(2) by simp
  have "nearest (vs @ [get (rt_fields ?c)]) (get (rt_fields (inherit_child (rt_fields t') ?c)))"
    using nearest_step [OF inh Cons.prems(3)] by (simp add: inherit_child_def)
  moreover have "rt_routes (inherit_child (rt_fields t') ?c) = rt_routes ?c"
    by (simp add: inherit_child_def)
  ultimately obtain r' where "node_at (compute_inherited_tree (inherit_child (rt_fields t') ?c)) ks = Some r'"
    and "nearest ((vs @ [get (rt_fields ?c)]) @ map get (tl (chain ?c ks))) (get (rt_fields r'))"
    using Cons.IH [OF at] by metis
  moreover have "node_at (compute_inherited_tree t') (k # ks) =
      node_at (compute_inherited_tree (inherit_child (rt_fields t') ?c)) ks"
    using k kids by (simp add: children_compute_inherited_tree)
  moreover have "vs @ map get (tl (chain t (k # ks))) =
      (vs @ [get (rt_fields ?c)]) @ map get (tl (chain ?c ks))"
    using k by (cases ks) simp_all
  ultimately show ?case by metis
qed

lemma inherited_value_at:
  assumes "inheriting get" and "node_at t ks = Some r"
  shows "\<exists>r'. node_at (compute_inherited_tree t) ks = Some r' \<and>
    nearest (map get (chain t ks)) (get (rt_fields r'))"
proof -
  have "nearest [get (rt_fields t)] (get (rt_fields t))"
    by (simp add: nearest_def)
  from inherited_nearest [OF assms(1) assms(2) refl this] show ?thesis
    by (cases ks) auto
qed

section \<open>Grouping the matches\<close>

lemma policies_by_route_eq:
  "policies_by_route ms =
     map (\<lambda>g. (rm_route (hd g), g)) (jo_values (group_by (\<lambda>m. rt_id (rm_route m)) ms))"
proof -
  let ?f = "\<lambda>m :: string route_match_result. rt_id (rm_route m)"
  let ?gs = "jo_values (group_by ?f ms)" and ?ks = "jo_keys (group_by ?f ms)"
  have "map (\<lambda>g. rt_id (rm_route (hd g))) ?gs = ?ks"
  proof -
    have "rt_id (rm_route (hd (filter (\<lambda>x. ?f x = k) ms))) = k" if "k \<in> set ?ks" for k
    proof -
      have "filter (\<lambda>x. ?f x = k) ms \<noteq> []"
        using that by (auto simp: jo_keys_group_by filter_empty_conv)
      from hd_in_set [OF this] show ?thesis by simp
    qed
    then show ?thesis by (simp add: jo_values_group_by map_idI)
  qed
  moreover have "distinct ?ks"
    by (rule jo.wf_distinct [OF jo_wf_group_by])
  ultimately have "distinct (map rt_id (map (\<lambda>g. rm_route (hd g)) ?gs))"
    by (simp add: comp_def)
  then have "distinct (map (\<lambda>g. rm_route (hd g)) ?gs)"
    by (simp only: distinct_map)
  then show ?thesis
    unfolding policies_by_route_def by (subst fold_es_map_set_fresh) auto
qed

lemma mset_policies_by_route: "mset (concat (map snd (policies_by_route ms))) = mset ms"
  using mset_group_by [of "\<lambda>m. rt_id (rm_route m)" ms]
  by (simp add: policies_by_route_eq comp_def)

lemma policies_by_route_keys:
  assumes inj: "inj_on rt_id (rm_route ` set ms)"
    and g: "(route, g) \<in> set (policies_by_route ms)" and x: "x \<in> set g"
  shows "rm_route x = route"
proof -
  let ?f = "\<lambda>m :: string route_match_result. rt_id (rm_route m)"
  obtain k where g': "g = filter (\<lambda>x. ?f x = k) ms" and r: "route = rm_route (hd g)"
    using g by (auto simp: policies_by_route_eq jo_values_group_by)
  have "hd g \<in> set g" using x by (cases g) auto
  then show ?thesis
    using x inj by (auto simp: g' r inj_on_def)
qed

lemma filter_own_matches:
  assumes "list_all2 (\<lambda>x ms. \<forall>d \<in> set ms. rm_labels d = x) xs mss"
    and "distinct (map ref xs)" and "(l, ms) \<in> set (zip xs mss)"
  shows "filter (\<lambda>d. ref (rm_labels d) = ref l) (concat mss) = ms"
  using assms
proof (induction xs mss rule: list_all2_induct)
  case (Cons x xs ms' mss)
  have other: "filter (\<lambda>d. ref (rm_labels d) = k) (concat mss) = []" if "k \<notin> ref ` set xs" for k
    using Cons.hyps(2) that by (induction rule: list_all2_induct) (auto simp: filter_empty_conv)
  show ?case
  proof (cases "(l, ms) = (x, ms')")
    case True
    with Cons other show ?thesis by (auto intro!: filter_True)
  next
    case False
    then have "(l, ms) \<in> set (zip xs mss)" using Cons.prems by auto
    moreover from this have "ref x \<noteq> ref l"
      using Cons.prems(1) by (auto dest: set_zip_leftD)
    ultimately show ?thesis
      using Cons by (auto simp: filter_empty_conv)
  qed
qed simp

lemma routes_of_instance_details:
  "map rmt_details (routes_of_instance l t tm) =
     filter (\<lambda>d. ref (rm_labels d) = ref l) (concat (map snd (matched_policies tm)))"
  by (simp add: routes_of_instance_def map_concat comp_def filter_concat split_beta)

lemma match_instances_to_route_spec:
  assumes run: "match_instances_to_route re root insts n = (Inr tm, n')"
    and refs: "distinct (map ref insts)" and l: "l \<in> set insts"
  obtains ms where "find_matching_routes re l [] (expanded_tree tm) = Inr ms"
    and "mset (map rmt_details (routes_of_instance l t tm)) = mset ms"
    and "\<And>x. x \<in> set (routes_of_instance l t tm) \<Longrightarrow> rmt_route x = rm_route (rmt_details x)"
proof -
  obtain e m where e: "add_unique_identifier (compute_inherited_tree root) n = (e, m)" by fastforce
  obtain mss where mss: "map_res (\<lambda>l. find_matching_routes re l [] e) insts = Inr mss"
    and tm: "tm = \<lparr>expanded_tree = e, matched_policies = policies_by_route (concat mss)\<rparr>"
    using run e by (auto simp: match_instances_to_route_def bind_res_Inr_iff)
  have all: "list_all2 (\<lambda>l ms. find_matching_routes re l [] e = Inr ms) insts mss"
    by (rule map_res_list_all2 [OF mss])
  then have own: "list_all2 (\<lambda>l ms. \<forall>d \<in> set ms. rm_labels d = l) insts mss"
    by (rule list_all2_mono) (auto dest: find_matching_routes_spec(1) simp: result_ok_def)
  obtain ms where ms: "(l, ms) \<in> set (zip insts mss)"
    using l list_all2_lengthD [OF all] by (metis in_set_impl_in_set_zip1)
  then have found: "find_matching_routes re l [] e = Inr ms"
    using all by (auto simp: list_all2_iff)
  have "mset (map rmt_details (routes_of_instance l t tm)) =
      filter_mset (\<lambda>d. ref (rm_labels d) = ref l) (mset (concat (map snd (matched_policies tm))))"
    unfolding routes_of_instance_details by (rule mset_filter)
  also have "\<dots> = mset (filter (\<lambda>d. ref (rm_labels d) = ref l) (concat mss))"
    by (simp only: tm tree_match.select_convs mset_policies_by_route mset_filter)
  also have "\<dots> = mset ms"
    using filter_own_matches [OF own refs ms] by simp
  finally have mset: "mset (map rmt_details (routes_of_instance l t tm)) = mset ms" .
  have "rm_route ` set (concat mss) \<subseteq> set (tree_nodes e)"
    using all found_route_in_tree by (fastforce simp: list_all2_iff in_set_zip in_set_conv_nth)
  then have inj: "inj_on rt_id (rm_route ` set (concat mss))"
    using distinct_ids [OF e] by (auto simp: distinct_map intro: inj_on_subset)
  have "rmt_route x = rm_route (rmt_details x)" if "x \<in> set (routes_of_instance l t tm)" for x
    using that policies_by_route_keys [OF inj] by (auto simp: routes_of_instance_def tm)
  with found mset show thesis by (intro that) (simp_all add: tm)
qed

lemma match_instances_to_route_skeleton:
  assumes "match_instances_to_route re root insts n = (Inr tm, n')"
  shows "skeleton (expanded_tree tm) = skeleton root"
proof -
  obtain e m where e: "add_unique_identifier (compute_inherited_tree root) n = (e, m)" by fastforce
  then have "expanded_tree tm = e"
    using assms by (auto simp: match_instances_to_route_def bind_res_Inr_iff)
  then show ?thesis
    using skeleton_add_unique_identifier(1) [of "compute_inherited_tree root" n] e
    by (simp add: skeleton_compute_inherited_tree)
qed

lemma match_trees_spec:
  "match_trees re insts ts n = (Inr tms, n') \<Longrightarrow>
   list_all2 (\<lambda>t tm. \<exists>m m'. match_instances_to_route re (convert_routing_tree_to_route t) insts m = (Inr tm, m')) ts tms"
proof (induction ts arbitrary: n tms)
  case (Cons t ts)
  then show ?case
    by (auto split: prod.splits sum.splits)
qed simp

lemma converted_root_matches:
  assumes "skeleton e = skeleton (convert_routing_tree_to_route t)"
  shows "policy_matches re labels e"
proof -
  have "matchers_of (skeleton e) = matchers_of e"
    by (cases e) simp
  with assms show ?thesis
    by (simp add: policy_matches_def convert_routing_tree_to_route_def Let_def)
qed

lemma matched_tree_results:
  assumes refs: "distinct (map ref insts)" and l: "l \<in> set insts"
    and spec: "list_all2 (\<lambda>t tm. \<exists>m m'. match_instances_to_route re (convert_routing_tree_to_route t) insts m = (Inr tm, m')) ts tms"
    and sk: "list_all2 (\<lambda>t tm. skeleton (expanded_tree tm) = skeleton (convert_routing_tree_to_route t)) ts tms"
  shows "\<exists>mss. list_all2 (\<lambda>tm ms. find_matching_routes re l [] (expanded_tree tm) = Inr ms \<and> ms \<noteq> []) tms mss \<and>
      mset (map rmt_details (concat (map (\<lambda>(t, tm). routes_of_instance l t tm) (zip ts tms)))) = mset (concat mss)"
    and "\<And>m. m \<in> set (concat (map (\<lambda>(t, tm). routes_of_instance l t tm) (zip ts tms))) \<Longrightarrow>
      rmt_route m = rm_route (rmt_details m)"
  using spec sk
proof (induction ts tms rule: list_all2_induct)
  case Nil
  {
    case 1
    then show ?case by simp
  next
    case 2
    then show ?case by simp
  }
next
  case (Cons t ts tm tms)
  obtain m m' where "match_instances_to_route re (convert_routing_tree_to_route t) insts m = (Inr tm, m')"
    using Cons.hyps(1) by blast
  from match_instances_to_route_spec [OF this refs l]
  obtain ms where ms: "find_matching_routes re l [] (expanded_tree tm) = Inr ms"
      "mset (map rmt_details (routes_of_instance l t tm)) = mset ms"
      "\<And>x. x \<in> set (routes_of_instance l t tm) \<Longrightarrow> rmt_route x = rm_route (rmt_details x)"
    by blast
  {
    case 1
    then have "ms \<noteq> []"
      using find_matching_routes_spec(1) [OF ms(1)] converted_root_matches [of "expanded_tree tm" t] by auto
    moreover obtain mss where "list_all2 (\<lambda>tm ms. find_matching_routes re l [] (expanded_tree tm) = Inr ms \<and> ms \<noteq> []) tms mss"
        "mset (map rmt_details (concat (map (\<lambda>(t, tm). routes_of_instance l t tm) (zip ts tms)))) = mset (concat mss)"
      using 1 Cons.IH(1) by auto
    ultimately show ?case
      using ms by (intro exI [of _ "ms # mss"]) simp
  next
    case (2 x)
    from 2(1) consider "x \<in> set (routes_of_instance l t tm)"
      | "x \<in> set (concat (map (\<lambda>(t, tm). routes_of_instance l t tm) (zip ts tms)))"
      by auto
    then show ?case
      using ms(3) Cons.IH(2) 2(2) by cases simp_all
  }
qed

lemma match_instances_to_route_trees_result:
  assumes run: "match_instances_to_route_trees re trees insts n = (Inr res, n')"
    and refs: "distinct (map ref insts)"
  shows "map im_labels res = insts \<and>
    (\<exists>tms :: tree_match list. list_all2 (\<lambda>t tm. skeleton (expanded_tree tm) = skeleton (convert_routing_tree_to_route t)) trees tms \<and>
      (\<forall>r. r \<in> set res \<longrightarrow>
        (\<exists>mss. list_all2 (\<lambda>tm ms. find_matching_routes re (im_labels r) [] (expanded_tree tm) = Inr ms \<and> ms \<noteq> []) tms mss \<and>
          mset (map rmt_details (im_matched_routes r)) = mset (concat mss)) \<and>
        (\<forall>m. m \<in> set (im_matched_routes r) \<longrightarrow> rmt_route m = rm_route (rmt_details m))))"
proof -
  obtain tms where tms: "match_trees re insts trees n = (Inr tms, n')"
    and res: "res = map (\<lambda>l. \<lparr>im_labels = l,
      im_matched_routes = concat (map (\<lambda>(t, tm). routes_of_instance l t tm) (zip trees tms))\<rparr>) insts"
    using run by (auto simp: match_instances_to_route_trees_def split: prod.splits sum.splits)
  note spec = match_trees_spec [OF tms]
  have sk: "list_all2 (\<lambda>t tm. skeleton (expanded_tree tm) = skeleton (convert_routing_tree_to_route t)) trees tms"
    using spec by (rule list_all2_mono) (auto dest: match_instances_to_route_skeleton)
  have one: "\<exists>mss. list_all2 (\<lambda>tm ms. find_matching_routes re l [] (expanded_tree tm) = Inr ms \<and> ms \<noteq> []) tms mss \<and>
      mset (map rmt_details (concat (map (\<lambda>(t, tm). routes_of_instance l t tm) (zip trees tms)))) = mset (concat mss)"
    and two: "m \<in> set (concat (map (\<lambda>(t, tm). routes_of_instance l t tm) (zip trees tms))) \<Longrightarrow>
      rmt_route m = rm_route (rmt_details m)" if l: "l \<in> set insts" for l m
    using spec sk matched_tree_results [OF refs l] by blast+
  have all: "(\<exists>mss. list_all2 (\<lambda>tm ms. find_matching_routes re (im_labels r) [] (expanded_tree tm) = Inr ms \<and> ms \<noteq> []) tms mss \<and>
        mset (map rmt_details (im_matched_routes r)) = mset (concat mss)) \<and>
      (\<forall>m. m \<in> set (im_matched_routes r) \<longrightarrow> rmt_route m = rm_route (rmt_details m))"
    if r: "r \<in> set res" for r
  proof -
    obtain l where "l \<in> set insts" and "im_labels r = l"
      and "im_matched_routes r = concat (map (\<lambda>(t, tm). routes_of_instance l t tm) (zip trees tms))"
      using r by (auto simp: res)
    with one [of l] two [of l] show ?thesis by simp
  qed
  have len: "map im_labels res = insts"
    by (simp add: res comp_def)
  show ?thesis
    by (intro conjI [OF len] exI [of _ tms] conjI [OF sk] allI impI) (rule all)
qed

lemma tree_valid_skeleton [simp]: "tree_valid re (skeleton r) = tree_valid re r"
proof (induction r rule: skeleton.induct)
  case (1 i f rs)
  then show ?case by (cases rs) (auto simp: list_all_iff)
qed

lemma tree_valid_convert_route [simp]: "tree_valid re (convert_route r) = tree_valid re r"
proof (induction r rule: convert_route.induct)
  case (1 i f rs)
  then show ?case by (cases rs) (auto simp: list_all_iff)
qed

lemma tree_valid_converted:
  "list_all (tree_valid re) (rt_top_routes t) \<Longrightarrow> tree_valid re (convert_routing_tree_to_route t)"
  by (auto simp: convert_routing_tree_to_route_def Let_def list_all_iff)

lemma match_instances_to_route_total:
  assumes "tree_valid re root"
  obtains tm n' where "match_instances_to_route re root insts n = (Inr tm, n')"
proof -
  obtain e n' where e: "add_unique_identifier (compute_inherited_tree root) n = (e, n')" by fastforce
  then have "skeleton e = skeleton root"
    using skeleton_add_unique_identifier(1) [of "compute_inherited_tree root" n]
    by (simp add: skeleton_compute_inherited_tree)
  then have "tree_valid re e"
    using assms by (metis tree_valid_skeleton)
  then have "\<exists>ms. find_matching_routes re l [] e = Inr ms" for l
    by (rule find_matching_routes_total(1))
  then have "\<nexists>er. map_res (\<lambda>l. find_matching_routes re l [] e) insts = Inl er"
    by (metis map_res_Inl_iff sum.distinct(1))
  then obtain mss where "map_res (\<lambda>l. find_matching_routes re l [] e) insts = Inr mss"
    by (cases "map_res (\<lambda>l. find_matching_routes re l [] e) insts") auto
  with e show thesis by (intro that) (simp add: match_instances_to_route_def)
qed

lemma match_trees_total:
  "list_all (\<lambda>t. list_all (tree_valid re) (rt_top_routes t)) ts \<Longrightarrow>
   \<exists>tms n'. match_trees re insts ts n = (Inr tms, n')"
proof (induction ts arbitrary: n)
  case (Cons t ts)
  have "tree_valid re (convert_routing_tree_to_route t)"
    using Cons.prems by (intro tree_valid_converted) simp
  then obtain tm n1 where "match_instances_to_route re (convert_routing_tree_to_route t) insts n = (Inr tm, n1)"
    by (rule match_instances_to_route_total)
  moreover obtain tms n2 where "match_trees re insts ts n1 = (Inr tms, n2)"
    using Cons by fastforce
  ultimately show ?case by simp
qed simp

section \<open>Properties\<close>

text \<open>
  C1. The depth-first search returns exactly the policies the specification delivers an alert to: the
  journeys of its results are the selected paths, each result names the last policy of its journey
  and the labels it was asked for, and there is a result exactly when the root matches.
\<close>

theorem find_matching_routes_selects:
  assumes "find_matching_routes re l [] r = Inr ms"
  shows "path_of ` set ms = {p. selects (policy_matches re (inst_labels l)) r p} \<and>
    (ms \<noteq> [] \<longleftrightarrow> policy_matches re (inst_labels l) r) \<and>
    (\<forall>x. x \<in> set ms \<longrightarrow> rm_labels x = l \<and> rm_route x = last (path_of x))"
  using find_matching_routes_spec(1) [OF assms] by (auto simp: result_ok_def)

definition sample_fields :: "label_matcher list \<Rightarrow> bool \<Rightarrow> string option \<Rightarrow> route_fields" where
  "sample_fields ms cont recv =
     \<lparr>r_receiver = recv, r_group_by = None, r_group_wait = None, r_group_interval = None,
      r_repeat_interval = None, r_continue = cont, r_matchers = Some ms,
      r_mute_time_intervals = None, r_active_time_intervals = None\<rparr>"

definition sample_tree :: route where
  "sample_tree =
     Route () (sample_fields [] False (Some ''mail''))
       (Some [Route () (sample_fields [\<lparr>m_label = ''team'', m_type = Op_eq, m_value = ''a''\<rparr>] True None) None,
              Route () (sample_fields [\<lparr>m_label = ''team'', m_type = Op_ne, m_value = ''b''\<rparr>] False (Some ''chat'')) None,
              Route () (sample_fields [] False None) None])"

definition sample_inst :: inst where
  "sample_inst = \<lparr>ref = 0, inst_labels = [(''team'', ''a'')]\<rparr>"

lemma find_matching_routes_selects_witness:
  "\<exists>ms. find_matching_routes (\<lambda>_ _. None) sample_inst [] sample_tree = Inr ms \<and> length ms = 2 \<and>
     path_of ` set ms = {p. selects (policy_matches (\<lambda>_ _. None) (inst_labels sample_inst)) sample_tree p}"
proof -
  obtain ms where ms: "find_matching_routes (\<lambda>_ _. None) sample_inst [] sample_tree = Inr ms" "length ms = 2"
    by (simp add: sample_tree_def sample_inst_def sample_fields_def match_labels_def Let_def
        is_label_match_def operator_function_def is_label_match_in_set_def label_value_def
        jo_from_entries_def jo_set_def jo_get_def array_index_def is_digit_def)
  with find_matching_routes_selects [OF ms(1)] show ?thesis by blast
qed

text \<open>
  C2. Expanding a policy tree (inheriting properties, numbering the nodes) does not change which
  policies an alert reaches, nor the recorded journeys, nor whether the search throws.
\<close>

theorem expansion_keeps_routing:
  "map_sum id (map skeleton_result)
     (find_matching_routes re l [] (fst (add_unique_identifier (compute_inherited_tree root) n))) =
   map_sum id (map skeleton_result) (find_matching_routes re l [] root)"
proof -
  let ?e = "fst (add_unique_identifier (compute_inherited_tree root) n)"
  have "skeleton ?e = skeleton root"
    by (simp add: skeleton_add_unique_identifier skeleton_compute_inherited_tree)
  with find_skeleton(1) [of re l "[]" ?e] find_skeleton(1) [of re l "[]" root] show ?thesis
    by simp
qed

text \<open>
  In the tree with inherited properties every node still is at its position, and each of its
  inheritable properties has the value of the nearest node on the way up that sets it.
\<close>

theorem inherited_properties_nearest:
  assumes "node_at t ks = Some r"
  shows "\<exists>r'. node_at (compute_inherited_tree t) ks = Some r' \<and>
    nearest (map r_receiver (chain t ks)) (r_receiver (rt_fields r')) \<and>
    nearest (map r_group_by (chain t ks)) (r_group_by (rt_fields r')) \<and>
    nearest (map r_group_wait (chain t ks)) (r_group_wait (rt_fields r')) \<and>
    nearest (map r_group_interval (chain t ks)) (r_group_interval (rt_fields r')) \<and>
    nearest (map r_repeat_interval (chain t ks)) (r_repeat_interval (rt_fields r'))"
  using inheriting_properties [THEN inherited_value_at [OF _ assms]] by auto

lemma inherited_properties_nearest_witness:
  "\<exists>r'. node_at (compute_inherited_tree sample_tree) [0] = Some r' \<and>
     r_receiver (rt_fields r') = Some ''mail''"
proof -
  have "\<exists>r. node_at sample_tree [0] = Some r" by (simp add: sample_tree_def)
  then obtain r where "node_at sample_tree [0] = Some r" ..
  from inherited_properties_nearest [OF this] show ?thesis
    by (auto simp: sample_tree_def sample_fields_def nearest_def is_set_def)
qed

text \<open>
  C3. Matching instances (distinct label arrays) against several routing trees with valid patterns
  returns: each instance gets one result, in order, and its matched routes are, tree by tree and with
  their multiplicities, what the search returns on that tree for its labels. Every tree has a match
  (its root is a catch-all), and each match is filed under its own route.
\<close>

theorem match_instances_to_route_trees_complete:
  assumes valid: "list_all (\<lambda>t. list_all (tree_valid re) (rt_top_routes t)) trees"
    and refs: "distinct (map ref insts)"
  shows "\<exists>res n'. match_instances_to_route_trees re trees insts n = (Inr res, n') \<and>
    map im_labels res = insts \<and>
    (\<exists>tms :: tree_match list. list_all2 (\<lambda>t tm. skeleton (expanded_tree tm) = skeleton (convert_routing_tree_to_route t)) trees tms \<and>
      (\<forall>r. r \<in> set res \<longrightarrow>
        (\<exists>mss. list_all2 (\<lambda>tm ms. find_matching_routes re (im_labels r) [] (expanded_tree tm) = Inr ms \<and> ms \<noteq> []) tms mss \<and>
          mset (map rmt_details (im_matched_routes r)) = mset (concat mss)) \<and>
        (\<forall>m. m \<in> set (im_matched_routes r) \<longrightarrow> rmt_route m = rm_route (rmt_details m))))"
proof -
  obtain res n' where "match_instances_to_route_trees re trees insts n = (Inr res, n')"
    using match_trees_total [OF valid, of insts n] by (auto simp: match_instances_to_route_trees_def)
  with match_instances_to_route_trees_result [OF this refs] show ?thesis by blast
qed

lemma match_instances_to_route_trees_complete_witness:
  "\<exists>res n'. match_instances_to_route_trees (\<lambda>_ _. None)
      [\<lparr>rt_name = None, rt_defaults = pick_inheritable (rt_fields sample_tree), rt_top_routes = children sample_tree\<rparr>]
      [sample_inst] 0 = (Inr res, n') \<and> map im_labels res = [sample_inst]"
proof -
  have "list_all (\<lambda>t. list_all (tree_valid (\<lambda>_ _. None)) (rt_top_routes t))
      [\<lparr>rt_name = None, rt_defaults = pick_inheritable (rt_fields sample_tree), rt_top_routes = children sample_tree\<rparr>]"
    by (simp add: sample_tree_def sample_fields_def valid_matcher_def)
  from match_instances_to_route_trees_complete [OF this, of "[sample_inst]" 0] show ?thesis by auto
qed

text \<open>
  Matching a policy's matchers throws exactly when some matcher has an invalid pattern and its
  label is present, although the decision itself (\<open>matchLabelsSet\<close>) catches the exception and counts
  such a matcher as not matching.
\<close>

theorem match_labels_throws:
  "((\<exists>e. match_labels re ms labels = Inl e) \<longleftrightarrow>
      (\<exists>m \<in> set ms. m_label m \<in> fst ` set labels \<and> \<not> valid_matcher re m)) \<and>
   ((\<exists>m \<in> set ms. \<not> valid_matcher re m) \<and> match_labels_set re ms labels \<longleftrightarrow> False)"
  using match_labels_throws_iff [of re ms labels] invalid_matcher_matches_nothing
  by (auto simp: match_labels_set_iff)

end
