(* ===== verification/Js_String.thy ===== *)
theory Js_String
  imports Js_Prelude
begin

text \<open>
  The operations on strings the sources use: \<open>trim\<close>, \<open>startsWith\<close>, \<open>endsWith\<close>, \<open>indexOf\<close>,
  \<open>split\<close> and \<open>join\<close> on one character, and the global replacement of a two-character pattern.

  A string is a list of \<open>char\<close>, i.e. code units below 256; text outside that range is not
  represented. \<open>is_space\<close> is the class \<open>\s\<close> (and what \<open>trim\<close> removes) on those code units,
  \<open>is_line_end\<close> what the dot of a regular expression does not match.
\<close>

named_theorems string_simps

definition is_space :: "char \<Rightarrow> bool" where
  "is_space c \<longleftrightarrow> (of_char c :: nat) \<in> {9, 10, 11, 12, 13, 32, 160}"

definition is_line_end :: "char \<Rightarrow> bool" where
  "is_line_end c \<longleftrightarrow> (of_char c :: nat) \<in> {10, 13}"

definition trim :: "string \<Rightarrow> string" where
  "trim s = rev (dropWhile is_space (rev (dropWhile is_space s)))"

definition starts_with :: "string \<Rightarrow> string \<Rightarrow> bool" where
  "starts_with p s \<longleftrightarrow> take (length p) s = p"

definition ends_with :: "string \<Rightarrow> string \<Rightarrow> bool" where
  "ends_with p s \<longleftrightarrow> starts_with (rev p) (rev s)"

fun index_of :: "string \<Rightarrow> string \<Rightarrow> nat option" where
  "index_of p [] = (if p = [] then Some 0 else None)"
| "index_of p (c # s) =
     (if starts_with p (c # s) then Some 0 else map_option Suc (index_of p s))"

fun replace_pair :: "char \<Rightarrow> char \<Rightarrow> string \<Rightarrow> string \<Rightarrow> string" where
  "replace_pair a b r (c # d # s) =
     (if c = a \<and> d = b then r @ replace_pair a b r s else c # replace_pair a b r (d # s))"
| "replace_pair a b r s = s"

function replace_all :: "string \<Rightarrow> string \<Rightarrow> string \<Rightarrow> string" where
  "replace_all p r s =
     (if p = [] then s
      else case s of
        [] \<Rightarrow> []
      | c # t \<Rightarrow> if starts_with p s then r @ replace_all p r (drop (length p) s) else c # replace_all p r t)"
  by pat_completeness auto
termination
proof (relation "measure (\<lambda>(_, _, s). length s)")
  fix p r s :: string and c t
  assume "p \<noteq> []" "s = c # t"
  then show "((p, r, drop (length p) s), p, r, s) \<in> measure (\<lambda>(_, _, s). length s)"
    by (cases p) (simp_all add: less_Suc_eq_le)
qed simp_all

declare replace_all.simps [simp del]

fun split_on :: "char \<Rightarrow> string \<Rightarrow> string list" where
  "split_on c [] = [[]]"
| "split_on c (d # s) =
     (if d = c then [] # split_on c s else (d # hd (split_on c s)) # tl (split_on c s))"

fun join_with :: "string \<Rightarrow> string list \<Rightarrow> string" where
  "join_with sep [] = []"
| "join_with sep [s] = s"
| "join_with sep (s # ss) = s @ sep @ join_with sep ss"

section \<open>Prefixes and positions\<close>

lemma starts_with_append [simp, string_simps]: "starts_with p (p @ s)"
  by (simp add: starts_with_def)

lemma starts_with_Nil [simp]: "starts_with [] s"
  by (simp add: starts_with_def)

lemma starts_with_Cons [simp, string_simps]:
  "starts_with (a # p) (c # s) \<longleftrightarrow> a = c \<and> starts_with p s"
  by (auto simp: starts_with_def)

lemma starts_with_Cons_Nil [simp]: "\<not> starts_with (a # p) []"
  by (simp add: starts_with_def)

lemma starts_with_iff: "starts_with p s \<longleftrightarrow> (\<exists>t. s = p @ t)"
  by (metis append_take_drop_id append_eq_conv_conj starts_with_def)

lemma ends_with_iff: "ends_with p s \<longleftrightarrow> (\<exists>t. s = t @ p)"
  unfolding ends_with_def starts_with_iff by (metis rev_append rev_rev_ident)

lemma index_of_SomeI:
  "starts_with p (drop i s) \<Longrightarrow> i \<le> length s \<Longrightarrow> (\<And>j. j < i \<Longrightarrow> \<not> starts_with p (drop j s)) \<Longrightarrow>
   index_of p s = Some i"
proof (induction s arbitrary: i)
  case Nil
  then show ?case by (cases p) auto
next
  case (Cons c s)
  show ?case
  proof (cases i)
    case 0
    with Cons.prems show ?thesis by simp
  next
    case (Suc k)
    have "\<not> starts_with p (drop j s)" if "j < k" for j
      using Cons.prems(3) [of "Suc j"] Suc that by simp
    then have "index_of p s = Some k"
      using Cons.prems Suc by (intro Cons.IH) auto
    moreover have "\<not> starts_with p (c # s)"
      using Cons.prems(3) [of 0] Suc by simp
    ultimately show ?thesis by (simp add: Suc)
  qed
qed

lemma index_of_SomeD:
  "index_of p s = Some i \<Longrightarrow> starts_with p (drop i s) \<and> i \<le> length s"
proof (induction s arbitrary: i)
  case (Cons c s)
  then show ?case by (auto split: if_splits)
qed (auto split: if_splits)

lemma index_of_least: "index_of p s = Some i \<Longrightarrow> j < i \<Longrightarrow> \<not> starts_with p (drop j s)"
proof (induction s arbitrary: i j)
  case (Cons c s)
  then show ?case by (cases j) (auto split: if_splits)
qed (auto split: if_splits)

section \<open>Replacing\<close>

lemma replace_all_Nil [simp]: "replace_all p r [] = []"
  by (subst replace_all.simps) simp

lemma replace_all_match: "p \<noteq> [] \<Longrightarrow> replace_all p r (p @ s) = r @ replace_all p r s"
  by (subst replace_all.simps) (cases p; simp)

lemma replace_all_skip: "\<not> starts_with p (c # s) \<Longrightarrow> replace_all p r (c # s) = c # replace_all p r s"
  by (subst replace_all.simps) (auto simp del: starts_with_Cons)

section \<open>Trimming\<close>

lemma dropWhile_hd: "s \<noteq> [] \<Longrightarrow> \<not> P (hd s) \<Longrightarrow> dropWhile P s = s"
  by (cases s) auto

lemma trim_id: "s \<noteq> [] \<Longrightarrow> \<not> is_space (hd s) \<Longrightarrow> \<not> is_space (last s) \<Longrightarrow> trim s = s"
  by (simp add: trim_def dropWhile_hd hd_rev)

lemma trim_no_space: "(\<And>c. c \<in> set s \<Longrightarrow> \<not> is_space c) \<Longrightarrow> trim s = s"
  by (cases "s = []") (simp_all add: trim_def dropWhile_hd hd_rev)

section \<open>Splitting and joining\<close>

lemma split_on_nonempty [simp]: "split_on c s \<noteq> []"
  by (cases s) auto

lemma split_on_absent: "c \<notin> set s \<Longrightarrow> split_on c s = [s]"
  by (induction s) auto

lemma split_on_append:
  "c \<notin> set s \<Longrightarrow> split_on c (s @ t) = (s @ hd (split_on c t)) # tl (split_on c t)"
  by (induction s) auto

lemma split_on_join:
  "ss \<noteq> [] \<Longrightarrow> (\<And>s. s \<in> set ss \<Longrightarrow> c \<notin> set s) \<Longrightarrow> split_on c (join_with [c] ss) = ss"
proof (induction "[c]" ss rule: join_with.induct)
  case (3 s s' ss)
  then show ?case by (simp add: split_on_append)
qed (simp_all add: split_on_absent)

lemma join_split_on: "join_with [c] (split_on c s) = s"
proof (induction s)
  case (Cons d s)
  obtain h t where "split_on c s = h # t" by (cases "split_on c s") auto
  with Cons show ?case by (cases t) auto
qed simp

section \<open>The first minimum of a stable sort\<close>

lemma insort_key_hd: "(\<And>y. y \<in> set ys \<Longrightarrow> f x \<le> f y) \<Longrightarrow> insort_key f x ys = x # ys"
  by (cases ys) auto

lemma hd_sort_key:
  "(\<And>y. y \<in> set bs \<Longrightarrow> f x \<le> f y) \<Longrightarrow> (\<And>y. y \<in> set as \<Longrightarrow> f x < f y) \<Longrightarrow>
   hd (sort_key f (as @ x # bs)) = x \<and> sort_key f (as @ x # bs) \<noteq> []"
proof (induction as)
  case Nil
  then have "insort_key f x (sort_key f bs) = x # sort_key f bs"
    by (intro insort_key_hd) simp
  then show ?case by simp
next
  case (Cons a as)
  then obtain rest where "sort_key f (as @ x # bs) = x # rest"
    by (metis list.collapse list.set_intros(2))
  moreover have "\<not> f a \<le> f x" using Cons.prems by (simp add: not_le)
  ultimately show ?case by simp
qed

end
