(* ===== verification/Alert_Matchers.thy ===== *)
theory Alert_Matchers
  imports Js_String Alert_Matching
begin

text \<open>
  Textual label matchers of the alerting feature:
  \<open>public/app/features/alerting/unified/utils/matchers.ts\<close> and \<open>matcherToMatcherField\<close> of
  \<open>utils/alertmanager.ts\<close>. Parsing of one matcher and of a PromQL-style list, quoting and escaping,
  and the normalisation of the three deprecated ways a route can hold matchers.

  The lemmas show that unquoting undoes quoting (up to line terminators), that an encoded matcher
  parses back to itself, and which names and values the textual form cannot carry.
\<close>

section \<open>Matchers\<close>

record matcher =
  ma_name :: string
  ma_value :: string
  ma_is_regex :: bool
  ma_is_equal :: bool

record matcher_field =
  mf_name :: string
  mf_operator :: match_op
  mf_value :: string

type_synonym object_matcher = "string \<times> match_op \<times> string"

fun op_text :: "match_op \<Rightarrow> string" where
  "op_text Op_eq = ''=''"
| "op_text Op_ne = ''!=''"
| "op_text Op_re = ''=~''"
| "op_text Op_nre = ''!~''"

section \<open>Quoting\<close>

abbreviation dquote :: char where "dquote \<equiv> CHR 0x22"
abbreviation bslash :: char where "bslash \<equiv> CHR 0x5C"

definition escape_char :: "char \<Rightarrow> string" where
  "escape_char c = (if c = bslash \<or> c = dquote then [bslash, c] else [c])"

definition quote_with_escape :: "string \<Rightarrow> string" where
  "quote_with_escape s = dquote # concat (map escape_char s) @ [dquote]"

definition is_reserved :: "char \<Rightarrow> bool" where
  "is_reserved c \<longleftrightarrow> c \<in> {CHR ''{'', CHR ''}'', CHR ''!'', CHR ''='', CHR ''~'', CHR '','', bslash, dquote,
     CHR 0x27, CHR 0x60} \<or> is_space c"

definition quote_with_escape_if_required :: "string \<Rightarrow> string" where
  "quote_with_escape_if_required s = (if list_ex is_reserved s then quote_with_escape s else s)"

text \<open>\<open>/^"(.*)"$/\<close>, whose dot does not match a line terminator.\<close>

definition is_quoted :: "string \<Rightarrow> bool" where
  "is_quoted s \<longleftrightarrow> 2 \<le> length s \<and> hd s = dquote \<and> last s = dquote \<and>
     list_all (\<lambda>c. \<not> is_line_end c) (butlast (tl s))"

definition unquote_with_unescape :: "string \<Rightarrow> string" where
  "unquote_with_unescape s =
     (if \<not> is_quoted s then s
      else replace_pair bslash bslash [bslash] (replace_pair bslash dquote [dquote] (butlast (tl s))))"

definition unquote_if_required :: "string \<Rightarrow> string" where
  "unquote_if_required s = quote_with_escape_if_required (unquote_with_unescape s)"

definition encode_matcher :: "matcher_field \<Rightarrow> string" where
  "encode_matcher m =
     quote_with_escape_if_required (mf_name m) @ op_text (mf_operator m) @ quote_with_escape (mf_value m)"

section \<open>Parsing\<close>

definition is_promql_style_matcher :: "string \<Rightarrow> bool" where
  "is_promql_style_matcher s \<longleftrightarrow> starts_with ''{'' s \<and> ends_with ''}'' s"

definition matcher_operators :: "match_op list" where
  "matcher_operators = [Op_re, Op_nre, Op_ne, Op_eq]"

definition operators_found :: "string \<Rightarrow> (match_op \<times> nat) list" where
  "operators_found s = sort_key snd (concat (map (\<lambda>op.
     case index_of (op_text op) s of None \<Rightarrow> [] | Some i \<Rightarrow> [(op, i)]) matcher_operators))"

definition invalid_matcher :: "string \<Rightarrow> js_error" where
  "invalid_matcher s = Js_Error (''Invalid matcher: '' @ s)"

definition parse_matcher :: "string \<Rightarrow> matcher res" where
  "parse_matcher s =
     (if is_promql_style_matcher s
      then Inl (Js_Error ''this function does not support PromQL-style matcher syntax, call parsePromQLStyleMatcher() instead'')
      else case operators_found s of
        [] \<Rightarrow> Inl (invalid_matcher s)
      | (op, i) # _ \<Rightarrow>
          (let name = trim (take i s); value = drop (i + length (op_text op)) s
           in if name = [] then Inl (invalid_matcher s)
              else Inr \<lparr>ma_name = name, ma_value = value,
                        ma_is_regex = (op = Op_re \<or> op = Op_nre),
                        ma_is_equal = (op = Op_eq \<or> op = Op_re)\<rparr>))"

text \<open>Splitting at the commas that are followed by an even number of double quotes.\<close>

fun split_unquoted_commas :: "string \<Rightarrow> string list" where
  "split_unquoted_commas [] = [[]]"
| "split_unquoted_commas (c # s) =
     (if c = CHR '','' \<and> even (length (filter (\<lambda>d. d = dquote) s)) then [] # split_unquoted_commas s
      else (c # hd (split_unquoted_commas s)) # tl (split_unquoted_commas s))"

definition strip_braces :: "string \<Rightarrow> string" where
  "strip_braces s =
     (let t = (if starts_with ''{'' s then tl s else s)
      in if ends_with ''}'' t then butlast t else t)"

definition parse_promql_style_matcher_loose :: "string \<Rightarrow> matcher list res" where
  "parse_promql_style_matcher_loose s =
     bind_res (map_res parse_matcher (filter (\<lambda>p. p \<noteq> []) (split_unquoted_commas (trim (strip_braces s)))))
       (\<lambda>ms. Inr (map (\<lambda>m. m\<lparr>ma_name := unquote_with_unescape (ma_name m),
                            ma_value := unquote_with_unescape (ma_value m)\<rparr>) ms))"

definition parse_promql_style_matcher :: "string \<Rightarrow> matcher list res" where
  "parse_promql_style_matcher s =
     (if \<not> is_promql_style_matcher s then Inl (Js_Error ''not a PromQL style matcher'')
      else parse_promql_style_matcher_loose s)"

definition parse_promql_style_matcher_loose_safe :: "string \<Rightarrow> matcher list" where
  "parse_promql_style_matcher_loose_safe s =
     (case parse_promql_style_matcher_loose s of Inl _ \<Rightarrow> [] | Inr ms \<Rightarrow> ms)"

definition parse_matcher_to_array :: "string \<Rightarrow> matcher list res" where
  "parse_matcher_to_array s =
     (if is_promql_style_matcher s then parse_promql_style_matcher s
      else bind_res (parse_matcher s) (\<lambda>m. Inr [m]))"

definition parse_query_param_matchers :: "string list \<Rightarrow> matcher list" where
  "parse_query_param_matchers pairs =
     uniq_by ma_name []
       (concat (map parse_promql_style_matcher_loose_safe (filter (\<lambda>m. m \<noteq> []) (map trim pairs))))"

section \<open>Conversions\<close>

definition matcher_to_operator :: "matcher \<Rightarrow> match_op" where
  "matcher_to_operator m =
     (if ma_is_equal m then if ma_is_regex m then Op_re else Op_eq
      else if ma_is_regex m then Op_nre else Op_ne)"

definition matcher_to_object_matcher :: "matcher \<Rightarrow> object_matcher" where
  "matcher_to_object_matcher m = (ma_name m, matcher_to_operator m, ma_value m)"

definition matcher_to_matcher_field :: "matcher \<Rightarrow> matcher_field" where
  "matcher_to_matcher_field m =
     \<lparr>mf_name = ma_name m, mf_operator = matcher_to_operator m, mf_value = ma_value m\<rparr>"

definition convert_object_matcher :: "object_matcher \<Rightarrow> label_matcher" where
  "convert_object_matcher om = \<lparr>m_label = fst om, m_type = fst (snd om), m_value = snd (snd om)\<rparr>"

definition is_valid_re2_regex :: "regex_engine \<Rightarrow> string \<Rightarrow> bool" where
  "is_valid_re2_regex re s = (let (cleaned, flags) = parse_flags s in re cleaned flags \<noteq> None)"

definition labels_to_matchers_param :: "string jobj \<Rightarrow> string option" where
  "labels_to_matchers_param labels =
     (if labels = [] then None
      else Some (''{'' @ join_with '','' (map (\<lambda>(k, v). k @ ''='' @ quote_with_escape v) labels) @ ''}''))"

definition is_private_label_key :: "string \<Rightarrow> bool" where
  "is_private_label_key k \<longleftrightarrow>
     (starts_with ''__'' k \<and> ends_with ''__'' k) \<or> k = ''__grafana_origin''"

text \<open>The entries appended to the \<open>URLSearchParams\<close>.\<close>

definition matcher_query_params :: "string jobj \<Rightarrow> (string \<times> string) list" where
  "matcher_query_params labels =
     map (\<lambda>(k, v). (''matcher'', k @ ''='' @ v)) (filter (\<lambda>(k, _). \<not> is_private_label_key k) labels)"

text \<open>The matchers of a route, in the four fields that can hold some.\<close>

definition normalize_matchers ::
  "string list option \<Rightarrow> object_matcher list option \<Rightarrow> string jobj option \<Rightarrow> string jobj option \<Rightarrow>
   object_matcher list res" where
  "normalize_matchers matchers object_matchers match_re match =
     bind_res (map_res parse_matcher_to_array (nullish matchers []))
       (\<lambda>parsed. Inr (map matcher_to_object_matcher (concat parsed)
          @ nullish object_matchers []
          @ map (\<lambda>(l, v). (l, Op_re, v)) (nullish match_re [])
          @ map (\<lambda>(l, v). (l, Op_eq, v)) (nullish match [])))"

section \<open>Unquoting undoes quoting\<close>

lemma escape_no_quote_head: "concat (map escape_char s) = c # t \<Longrightarrow> c \<noteq> dquote"
  by (cases s) (auto simp: escape_char_def split: if_splits)

lemma replace_pair_skip:
  "c \<noteq> a \<Longrightarrow> replace_pair a b r (c # s) = c # replace_pair a b r s"
  by (cases s) auto

lemma replace_pair_skip_head:
  "(\<And>d t. s = d # t \<Longrightarrow> d \<noteq> b) \<Longrightarrow> replace_pair a b r (c # s) = c # replace_pair a b r s"
  by (cases s) auto

lemma unescape_quotes:
  "replace_pair bslash dquote [dquote] (concat (map escape_char s)) =
   concat (map (\<lambda>c. if c = bslash then [bslash, bslash] else [c]) s)"
proof (induction s)
  case (Cons c s)
  show ?case
  proof (cases "c = bslash")
    case True
    have "replace_pair bslash dquote [dquote] (bslash # concat (map escape_char s)) =
        bslash # replace_pair bslash dquote [dquote] (concat (map escape_char s))"
      by (rule replace_pair_skip_head) (use escape_no_quote_head [of s] in auto)
    moreover have "escape_char c = [bslash, bslash]" using True by (simp add: escape_char_def)
    ultimately show ?thesis using True Cons by simp
  next
    case False
    with Cons show ?thesis
      by (cases "c = dquote") (simp_all add: escape_char_def replace_pair_skip)
  qed
qed simp

lemma unescape_backslashes:
  "replace_pair bslash bslash [bslash] (concat (map (\<lambda>c. if c = bslash then [bslash, bslash] else [c]) s)) = s"
  by (induction s) (simp_all add: replace_pair_skip)

lemma escape_line_ends:
  "list_all (\<lambda>c. \<not> is_line_end c) (concat (map escape_char s)) \<longleftrightarrow> list_all (\<lambda>c. \<not> is_line_end c) s"
  by (induction s) (auto simp: escape_char_def is_line_end_def)

lemma is_quoted_quote: "is_quoted (quote_with_escape s) \<longleftrightarrow> list_all (\<lambda>c. \<not> is_line_end c) s"
  by (simp add: is_quoted_def quote_with_escape_def escape_line_ends)

lemma unquote_quote:
  "list_all (\<lambda>c. \<not> is_line_end c) s \<Longrightarrow> unquote_with_unescape (quote_with_escape s) = s"
  by (simp add: unquote_with_unescape_def is_quoted_quote)
     (simp add: quote_with_escape_def unescape_quotes unescape_backslashes)

lemma unquote_quote_iff:
  "unquote_with_unescape (quote_with_escape s) = s \<longleftrightarrow> list_all (\<lambda>c. \<not> is_line_end c) s"
proof
  assume eq: "unquote_with_unescape (quote_with_escape s) = s"
  show "list_all (\<lambda>c. \<not> is_line_end c) s"
  proof (rule ccontr)
    assume "\<not> list_all (\<lambda>c. \<not> is_line_end c) s"
    then have "quote_with_escape s = s"
      using eq by (simp add: unquote_with_unescape_def is_quoted_quote)
    moreover have "length (quote_with_escape t) > length t" for t
      by (induction t) (auto simp: quote_with_escape_def escape_char_def)
    ultimately show False by (metis less_irrefl)
  qed
qed (rule unquote_quote)

lemma unquote_unreserved: "\<not> list_ex is_reserved s \<Longrightarrow> unquote_with_unescape s = s"
  by (cases s) (auto simp: unquote_with_unescape_def is_quoted_def is_reserved_def)

lemma unquote_quote_if_required:
  "list_all (\<lambda>c. \<not> is_line_end c) s \<Longrightarrow> unquote_with_unescape (quote_with_escape_if_required s) = s"
  by (simp add: quote_with_escape_if_required_def unquote_quote unquote_unreserved)

section \<open>Parsing an encoded matcher\<close>

text \<open>A name the textual form can carry: no character an operator could be found in.\<close>

definition encodable :: "matcher_field \<Rightarrow> bool" where
  "encodable m \<longleftrightarrow> mf_name m \<noteq> [] \<and> CHR ''='' \<notin> set (mf_name m) \<and> CHR ''~'' \<notin> set (mf_name m) \<and>
     list_all (\<lambda>c. \<not> is_line_end c) (mf_name m) \<and> list_all (\<lambda>c. \<not> is_line_end c) (mf_value m)"

lemma set_quote_if_required:
  "set (quote_with_escape_if_required s) \<subseteq> set s \<union> {dquote, bslash}"
  by (auto simp: quote_with_escape_if_required_def quote_with_escape_def escape_char_def split: if_splits)

lemma quote_if_required_ends:
  assumes "s \<noteq> []"
  shows "quote_with_escape_if_required s \<noteq> []" "last (quote_with_escape_if_required s) \<noteq> CHR ''!''"
    "hd (quote_with_escape_if_required s) \<noteq> CHR ''{''"
    "trim (quote_with_escape_if_required s) = quote_with_escape_if_required s"
proof -
  let ?q = "quote_with_escape_if_required s"
  have "?q \<noteq> [] \<and> \<not> is_space (hd ?q) \<and> \<not> is_space (last ?q) \<and> last ?q \<noteq> CHR ''!'' \<and> hd ?q \<noteq> CHR ''{''"
  proof (cases "list_ex is_reserved s")
    case True
    then show ?thesis
      by (simp add: quote_with_escape_if_required_def quote_with_escape_def is_space_def)
  next
    case False
    then have "\<not> is_reserved (hd s)" "\<not> is_reserved (last s)"
      using assms by (auto simp: list_ex_iff)
    with False assms show ?thesis
      by (auto simp: quote_with_escape_if_required_def is_reserved_def)
  qed
  then show "?q \<noteq> []" "last ?q \<noteq> CHR ''!''" "hd ?q \<noteq> CHR ''{''" "trim ?q = ?q"
    by (auto intro: trim_id)
qed

text \<open>No operator begins inside a name without \<open>=\<close> and \<open>~\<close>.\<close>

lemma no_operator_in_name:
  assumes q: "CHR ''='' \<notin> set q" "CHR ''~'' \<notin> set q" "last q \<noteq> CHR ''!''"
    and i: "i < length q"
  shows "\<not> starts_with (op_text op) (drop i (q @ r))"
proof -
  have d: "drop i (q @ r) = q ! i # drop (Suc i) q @ r"
    using i by (simp add: Cons_nth_drop_Suc [symmetric])
  have qi: "q ! i \<in> set q" using i by simp
  show ?thesis
  proof (cases "Suc i < length q")
    case True
    then have "drop (Suc i) q @ r = q ! Suc i # drop (Suc (Suc i)) q @ r"
      by (simp add: Cons_nth_drop_Suc [symmetric])
    moreover have "q ! Suc i \<in> set q" using True by simp
    ultimately show ?thesis using d qi q by (cases op) auto
  next
    case False
    then have "i = length q - 1" using i by simp
    moreover have "q \<noteq> []" using i by auto
    ultimately have "q ! i \<noteq> CHR ''!''" using q by (simp add: last_conv_nth)
    then show ?thesis using d qi q by (cases op) auto
  qed
qed

lemma index_of_skip:
  "(\<And>i. i < length q \<Longrightarrow> \<not> starts_with p (drop i (q @ r))) \<Longrightarrow>
   index_of p (q @ r) = map_option (\<lambda>k. length q + k) (index_of p r)"
proof (induction q)
  case Nil
  then show ?case by (simp add: map_option.identity)
next
  case (Cons c q)
  have "\<not> starts_with p (drop i (q @ r))" if "i < length q" for i
    using Cons.prems [of "Suc i"] that by simp
  then have "index_of p (q @ r) = map_option (\<lambda>k. length q + k) (index_of p r)"
    by (rule Cons.IH)
  then show ?case
    using Cons.prems [of 0] by (simp add: option.map_comp comp_def)
qed

lemma index_of_operator_after_name:
  assumes "CHR ''='' \<notin> set q" "CHR ''~'' \<notin> set q" "last q \<noteq> CHR ''!''"
  shows "index_of (op_text op) (q @ r) = map_option (\<lambda>k. length q + k) (index_of (op_text op) r)"
  using no_operator_in_name [OF assms] by (rule index_of_skip)

lemma operators_found_after_name:
  assumes "CHR ''='' \<notin> set q" "CHR ''~'' \<notin> set q" "last q \<noteq> CHR ''!''"
  shows "\<exists>rest. operators_found (q @ op_text op @ dquote # r) = (op, length q) # rest"
proof -
  let ?s = "q @ op_text op @ dquote # r"
  let ?f = "\<lambda>op'. case index_of (op_text op') ?s of None \<Rightarrow> [] | Some i \<Rightarrow> [(op', i)]"
  have at: "index_of (op_text op') ?s = map_option (\<lambda>k. length q + k) (index_of (op_text op') (op_text op @ dquote # r))"
    for op' by (rule index_of_operator_after_name [OF assms])
  have "\<exists>as bs. concat (map ?f matcher_operators) = as @ (op, length q) # bs \<and>
      (\<forall>y \<in> set as. length q < snd y) \<and> (\<forall>y \<in> set bs. length q \<le> snd y)"
  proof (cases op)
    case Op_re
    then show ?thesis
      using at [of Op_re] at [of Op_nre] at [of Op_ne] at [of Op_eq]
      by (intro exI [of _ "[]"] exI [of _ "?f Op_nre @ ?f Op_ne @ ?f Op_eq"]) (auto simp: matcher_operators_def split: option.splits)
  next
    case Op_nre
    then show ?thesis
      using at [of Op_re] at [of Op_nre] at [of Op_ne] at [of Op_eq]
      by (intro exI [of _ "?f Op_re"] exI [of _ "?f Op_ne @ ?f Op_eq"]) (auto simp: matcher_operators_def split: option.splits)
  next
    case Op_ne
    then show ?thesis
      using at [of Op_re] at [of Op_nre] at [of Op_ne] at [of Op_eq]
      by (intro exI [of _ "?f Op_re @ ?f Op_nre"] exI [of _ "?f Op_eq"]) (auto simp: matcher_operators_def split: option.splits)
  next
    case Op_eq
    then show ?thesis
      using at [of Op_re] at [of Op_nre] at [of Op_ne] at [of Op_eq]
      by (intro exI [of _ "?f Op_re @ ?f Op_nre @ ?f Op_ne"] exI [of _ "[]"]) (auto simp: matcher_operators_def split: option.splits)
  qed
  then obtain as bs where "concat (map ?f matcher_operators) = as @ (op, length q) # bs"
    and "\<And>y. y \<in> set as \<Longrightarrow> length q < snd y" "\<And>y. y \<in> set bs \<Longrightarrow> length q \<le> snd y"
    by blast
  then have "hd (operators_found ?s) = (op, length q)" "operators_found ?s \<noteq> []"
    using hd_sort_key [of bs snd "(op, length q)" as] by (simp_all add: operators_found_def)
  then show ?thesis by (metis list.collapse)
qed

lemma parse_matcher_after_name:
  assumes "CHR ''='' \<notin> set q" "CHR ''~'' \<notin> set q" "last q \<noteq> CHR ''!''" "q \<noteq> []" "hd q \<noteq> CHR ''{''"
    "trim q = q"
  shows "parse_matcher (q @ op_text op @ dquote # r) =
    Inr \<lparr>ma_name = q, ma_value = dquote # r, ma_is_regex = (op = Op_re \<or> op = Op_nre),
         ma_is_equal = (op = Op_eq \<or> op = Op_re)\<rparr>"
proof -
  have "\<not> is_promql_style_matcher (q @ op_text op @ dquote # r)"
    using assms(4,5) by (cases q) (auto simp: is_promql_style_matcher_def)
  moreover obtain rest where "operators_found (q @ op_text op @ dquote # r) = (op, length q) # rest"
    using operators_found_after_name [OF assms(1-3)] by blast
  ultimately show ?thesis
    using assms(4,6) by (simp add: parse_matcher_def)
qed

lemma matcher_to_operator_flags:
  "matcher_to_operator \<lparr>ma_name = n, ma_value = v, ma_is_regex = (op = Op_re \<or> op = Op_nre),
     ma_is_equal = (op = Op_eq \<or> op = Op_re)\<rparr> = op"
  by (cases op) (simp_all add: matcher_to_operator_def)

definition unquote_field :: "matcher_field \<Rightarrow> matcher_field" where
  "unquote_field m = \<lparr>mf_name = unquote_with_unescape (mf_name m), mf_operator = mf_operator m,
     mf_value = unquote_with_unescape (mf_value m)\<rparr>"

lemma parse_encoded_matcher:
  assumes "encodable m"
  shows "parse_matcher_to_array (encode_matcher m) =
    Inr [\<lparr>ma_name = quote_with_escape_if_required (mf_name m), ma_value = quote_with_escape (mf_value m),
      ma_is_regex = (mf_operator m = Op_re \<or> mf_operator m = Op_nre),
      ma_is_equal = (mf_operator m = Op_eq \<or> mf_operator m = Op_re)\<rparr>]"
proof -
  let ?q = "quote_with_escape_if_required (mf_name m)"
  have ne: "mf_name m \<noteq> []" and chars: "CHR ''='' \<notin> set ?q" "CHR ''~'' \<notin> set ?q"
    using assms set_quote_if_required [of "mf_name m"] by (auto simp: encodable_def)
  obtain r where r: "quote_with_escape (mf_value m) = dquote # r"
    by (simp add: quote_with_escape_def)
  have "\<not> is_promql_style_matcher (encode_matcher m)"
    using quote_if_required_ends(1,3) [OF ne]
    by (cases ?q) (auto simp: is_promql_style_matcher_def encode_matcher_def)
  then show ?thesis
    using parse_matcher_after_name [OF chars quote_if_required_ends(2,1,3,4) [OF ne], of "mf_operator m" r]
    by (simp add: parse_matcher_to_array_def encode_matcher_def r)
qed

section \<open>Lists of matchers\<close>

abbreviation quotes :: "string \<Rightarrow> nat" where
  "quotes s \<equiv> length (filter (\<lambda>d. d = dquote) s)"

text \<open>Every comma is followed by an odd number of double quotes in the string.\<close>

fun commas_guarded :: "string \<Rightarrow> bool" where
  "commas_guarded [] = True"
| "commas_guarded (c # s) = ((c = CHR '','' \<longrightarrow> odd (quotes s)) \<and> commas_guarded s)"

lemma split_unquoted_nonempty [simp]: "split_unquoted_commas s \<noteq> []"
  by (cases s) auto

lemma split_unquoted_append:
  "commas_guarded p \<Longrightarrow> even (quotes r) \<Longrightarrow>
   split_unquoted_commas (p @ r) = (p @ hd (split_unquoted_commas r)) # tl (split_unquoted_commas r)"
  by (induction p) auto

lemma quotes_join: "(\<And>p. p \<in> set ps \<Longrightarrow> even (quotes p)) \<Longrightarrow> even (quotes (join_with '','' ps))"
  by (induction "'',''" ps rule: join_with.induct) auto

lemma split_unquoted_join:
  "ps \<noteq> [] \<Longrightarrow> (\<And>p. p \<in> set ps \<Longrightarrow> commas_guarded p \<and> even (quotes p)) \<Longrightarrow>
   split_unquoted_commas (join_with '','' ps) = ps"
proof (induction "'',''" ps rule: join_with.induct)
  case (2 p)
  then show ?case using split_unquoted_append [of p "[]"] by simp
next
  case (3 p p' ps)
  then have "even (quotes (join_with '','' (p' # ps)))"
    by (intro quotes_join) auto
  with 3 show ?case
    by (simp add: split_unquoted_append)
qed simp

lemma commas_guarded_append:
  "CHR '','' \<notin> set k \<Longrightarrow> commas_guarded (k @ s) = commas_guarded s"
  by (induction k) auto

lemma guarded_escaped:
  "dquote \<notin> set v \<Longrightarrow> commas_guarded (concat (map escape_char v) @ [dquote]) \<and>
   quotes (concat (map escape_char v)) = 0"
  by (induction v) (auto simp: escape_char_def)

definition label_part :: "string \<times> string \<Rightarrow> string" where
  "label_part l = fst l @ ''='' @ quote_with_escape (snd l)"

text \<open>A label whose key needs no quoting and whose value has no double quote or line terminator.\<close>

definition plain_label :: "string \<times> string \<Rightarrow> bool" where
  "plain_label l \<longleftrightarrow> fst l \<noteq> [] \<and> \<not> list_ex is_reserved (fst l) \<and>
     dquote \<notin> set (snd l) \<and> list_all (\<lambda>c. \<not> is_line_end c) (snd l)"

lemma reserved_chars:
  "is_reserved (CHR ''='')" "is_reserved (CHR ''~'')" "is_reserved (CHR '','')" "is_reserved dquote"
  "is_reserved (CHR ''!'')" "is_reserved (CHR ''{'')" "is_space c \<Longrightarrow> is_reserved c"
  by (simp_all add: is_reserved_def)

lemma plain_label_key:
  assumes "plain_label l"
  shows "CHR ''='' \<notin> set (fst l)" "CHR ''~'' \<notin> set (fst l)" "CHR '','' \<notin> set (fst l)" "dquote \<notin> set (fst l)"
    "last (fst l) \<noteq> CHR ''!''" "hd (fst l) \<noteq> CHR ''{''" "trim (fst l) = fst l" "fst l \<noteq> []"
    "\<not> is_space (hd (fst l))"
proof -
  have all: "\<not> is_reserved c" if "c \<in> set (fst l)" for c
    using assms that by (auto simp: plain_label_def list_ex_iff)
  show ne: "fst l \<noteq> []" using assms by (simp add: plain_label_def)
  show "CHR ''='' \<notin> set (fst l)" "CHR ''~'' \<notin> set (fst l)" "CHR '','' \<notin> set (fst l)" "dquote \<notin> set (fst l)"
    using all reserved_chars(1-4) by blast+
  have "\<not> is_reserved (last (fst l))" "\<not> is_reserved (hd (fst l))"
    using ne by (simp_all add: all)
  then show "last (fst l) \<noteq> CHR ''!''" "hd (fst l) \<noteq> CHR ''{''" "\<not> is_space (hd (fst l))"
    using reserved_chars(5-7) by metis+
  show "trim (fst l) = fst l"
    using all reserved_chars(7) by (intro trim_no_space) blast
qed

lemma label_part_guarded:
  assumes "plain_label l" shows "commas_guarded (label_part l) \<and> even (quotes (label_part l))"
proof -
  have "dquote \<notin> set (snd l)" using assms by (simp add: plain_label_def)
  note esc = guarded_escaped [OF this]
  have k: "quotes (fst l) = 0"
    using plain_label_key(4) [OF assms] by (metis (full_types) filter_False length_0_conv)
  show ?thesis
    using plain_label_key(3) [OF assms] esc k
    by (simp add: label_part_def quote_with_escape_def commas_guarded_append)
qed

lemma parse_label_part:
  assumes "plain_label l"
  shows "parse_matcher (label_part l) = Inr \<lparr>ma_name = fst l, ma_value = quote_with_escape (snd l),
    ma_is_regex = False, ma_is_equal = True\<rparr>"
proof -
  obtain r where r: "quote_with_escape (snd l) = dquote # r"
    by (simp add: quote_with_escape_def)
  then show ?thesis
    using parse_matcher_after_name [OF plain_label_key(1,2,5,8,6,7) [OF assms], of Op_eq r]
    by (simp add: label_part_def)
qed

lemma labels_param_parts:
  "labels_to_matchers_param labels =
     (if labels = [] then None else Some (''{'' @ join_with '','' (map label_part labels) @ ''}''))"
  by (simp add: labels_to_matchers_param_def label_part_def [abs_def] split_def)

lemma join_ends:
  "ps \<noteq> [] \<Longrightarrow> (\<And>p. p \<in> set ps \<Longrightarrow> p \<noteq> []) \<Longrightarrow>
   join_with sep ps \<noteq> [] \<and> hd (join_with sep ps) = hd (hd ps) \<and> last (join_with sep ps) = last (last ps)"
  by (induction sep ps rule: join_with.induct) auto

lemma strip_braces_param: "strip_braces (''{'' @ s @ ''}'') = s"
  by (simp add: strip_braces_def ends_with_def)

section \<open>Properties\<close>

interpretation quoted_text: codec quote_with_escape "\<lambda>s. Some (unquote_with_unescape s)" "list_all (\<lambda>c. \<not> is_line_end c)"
  by unfold_locales (simp add: unquote_quote_iff)

text \<open>
  Unquoting undoes quoting exactly for the texts without a line terminator: backslashes and double
  quotes survive in every combination, but a value with a line break comes back quoted and escaped.
\<close>

theorem quote_round_trip:
  "unquote_with_unescape (quote_with_escape s) = s \<longleftrightarrow> list_all (\<lambda>c. \<not> is_line_end c) s"
  by (rule unquote_quote_iff)

text \<open>
  Round trip of a matcher through its text: encoding it, parsing the text and unquoting the parts,
  as the routing form does, gives the matcher back, whatever its operator and value.
\<close>

theorem encoded_matcher_round_trip:
  assumes "encodable m"
  shows "\<exists>ms. parse_matcher_to_array (encode_matcher m) = Inr ms \<and>
    map (unquote_field \<circ> matcher_to_matcher_field) ms = [m]"
  using assms parse_encoded_matcher [OF assms]
  by (simp add: matcher_to_matcher_field_def matcher_to_operator_flags unquote_field_def unquote_quote
      unquote_quote_if_required encodable_def)

lemma encoded_matcher_round_trip_witness:
  "\<exists>ms. parse_matcher_to_array (encode_matcher \<lparr>mf_name = ''a b!'', mf_operator = Op_ne, mf_value = [dquote, bslash]\<rparr>) = Inr ms \<and>
    map (unquote_field \<circ> matcher_to_matcher_field) ms = [\<lparr>mf_name = ''a b!'', mf_operator = Op_ne, mf_value = [dquote, bslash]\<rparr>]"
  by (rule encoded_matcher_round_trip) (simp add: encodable_def is_line_end_def)

text \<open>
  The matchers parameter built from a set of labels parses back to one equality matcher per label,
  in order, commas in the values included, when the keys need no quoting and no value holds a double
  quote.
\<close>

theorem labels_param_round_trip:
  assumes "list_all plain_label labels" and "labels \<noteq> []"
  shows "\<exists>p. labels_to_matchers_param labels = Some p \<and> parse_promql_style_matcher p =
    Inr (map (\<lambda>(k, v). \<lparr>ma_name = k, ma_value = v, ma_is_regex = False, ma_is_equal = True\<rparr>) labels)"
proof -
  let ?parts = "map label_part labels"
  let ?j = "join_with '','' ?parts"
  have plain: "plain_label l" if "l \<in> set labels" for l
    using assms that by (simp add: list_all_iff)
  have "?j \<noteq> [] \<and> hd ?j = hd (hd ?parts) \<and> last ?j = last (last ?parts)"
    using assms(2) by (intro join_ends) (auto simp: label_part_def)
  moreover have "hd (hd ?parts) = hd (fst (hd labels))" "last (last ?parts) = dquote"
    using assms(2) plain_label_key(8) [OF plain]
    by (simp_all add: label_part_def quote_with_escape_def hd_map last_map)
  ultimately have "trim ?j = ?j"
    using plain_label_key(9) [OF plain, of "hd labels"] assms(2)
    by (intro trim_id) (auto simp: is_space_def)
  moreover have "split_unquoted_commas ?j = ?parts"
    using assms(2) label_part_guarded [OF plain] by (intro split_unquoted_join) auto
  moreover have "filter (\<lambda>p. p \<noteq> []) ?parts = ?parts"
    by (auto simp: filter_id_conv label_part_def)
  moreover have "map_res parse_matcher ?parts = Inr (map (\<lambda>l. \<lparr>ma_name = fst l,
      ma_value = quote_with_escape (snd l), ma_is_regex = False, ma_is_equal = True\<rparr>) labels)"
    using plain by (induction labels) (simp_all add: parse_label_part)
  moreover have "is_promql_style_matcher (''{'' @ ?j @ ''}'')"
    by (simp add: is_promql_style_matcher_def ends_with_def)
  ultimately show ?thesis
    using assms(2) plain
    by (simp add: labels_param_parts parse_promql_style_matcher_def parse_promql_style_matcher_loose_def
        strip_braces_param [simplified] split_def unquote_quote unquote_unreserved plain_label_def)
qed

lemma labels_param_round_trip_witness:
  "\<exists>p. labels_to_matchers_param [(''team'', ''a,b''), (''x'', ''=~'')] = Some p \<and> parse_promql_style_matcher p =
    Inr [\<lparr>ma_name = ''team'', ma_value = ''a,b'', ma_is_regex = False, ma_is_equal = True\<rparr>,
         \<lparr>ma_name = ''x'', ma_value = ''=~'', ma_is_regex = False, ma_is_equal = True\<rparr>]"
  using labels_param_round_trip [of "[(''team'', ''a,b''), (''x'', ''=~'')]"]
  by (simp add: plain_label_def is_reserved_def is_space_def is_line_end_def)

text \<open>
  With a double quote in the value the comma before it counts as a separator: the one matcher of the
  label \<open>x,"\<close> is split in two, and parsing throws on the second half.
\<close>

lemma comma_before_quote_splits:
  "parse_promql_style_matcher (the (labels_to_matchers_param [(''a'', ''x,'' @ [dquote])])) =
   Inl (invalid_matcher [bslash, dquote, dquote])"
  by code_simp

end
