(* ===== verification/Js_Hash.thy ===== *)
theory Js_Hash
  imports Js_Prelude "HOL-Library.Word" "HOL-Library.Char_ord" "HOL-Library.List_Lexorder"
begin

text \<open>
  The 32-bit string hash that \<open>hashRoute\<close> (\<open>utils/routeTree.ts\<close>) and \<open>hash\<close> (\<open>utils/rule-id.ts\<close>) of
  the alerting feature share, and its rendering: \<open>toString(36)\<close> and \<open>toString()\<close> of a number.

  The loop computes on JavaScript numbers, wrapping to a signed 32-bit integer in every round
  (\<open>hash << 5\<close> and \<open>hash & hash\<close> or \<open>hash |= 0\<close>); the intermediate results are below \<open>2^53\<close>, so the
  wrapped value is the one of the arithmetic of \<open>32 word\<close>. \<open>hash_polynomial\<close> gives its closed
  form. Strings are ordered as \<open>Array.prototype.sort\<close> orders them: lexicographically by code unit.
\<close>

definition hash_step :: "char \<Rightarrow> 32 word \<Rightarrow> 32 word" where
  "hash_step c h = push_bit 5 h - h + word_of_nat (of_char c)"

definition hash_string :: "string \<Rightarrow> 32 word" where
  "hash_string s = fold hash_step s 0"

definition base_digit :: "nat \<Rightarrow> char" where
  "base_digit d = (if d < 10 then digit_char d else char_of (87 + d))"

function base_text :: "nat \<Rightarrow> nat \<Rightarrow> string" where
  "base_text b n =
     (if b < 2 \<or> n < b then [base_digit n] else base_text b (n div b) @ [base_digit (n mod b)])"
  by pat_completeness auto
termination
  by (relation "measure snd") auto

declare base_text.simps [simp del]

definition number_text :: "nat \<Rightarrow> int \<Rightarrow> string" where
  "number_text b k = (if k < 0 then CHR ''-'' # base_text b (nat (- k)) else base_text b (nat k))"

fun polynomial :: "string \<Rightarrow> int" where
  "polynomial [] = 0"
| "polynomial (c # s) = int (of_char c) * 31 ^ length s + polynomial s"

lemma push_bit_minus: "push_bit 5 h - h = 31 * (h :: 32 word)"
proof -
  have "push_bit 5 h = 32 * h" by (simp add: push_bit_eq_mult)
  then show ?thesis by simp
qed

lemma fold_hash_step:
  "fold hash_step s h = h * 31 ^ length s + word_of_int (polynomial s)"
proof (induction s arbitrary: h)
  case (Cons c s)
  then show ?case
    by (simp add: hash_step_def push_bit_minus algebra_simps)
qed simp

lemma hash_string_polynomial: "hash_string s = word_of_int (polynomial s)"
  by (simp add: hash_string_def fold_hash_step)

lemma base_digit_inj: "a < 36 \<Longrightarrow> b < 36 \<Longrightarrow> base_digit a = base_digit b \<Longrightarrow> a = b"
proof -
  assume ab: "a < 36" "b < 36" "base_digit a = base_digit b"
  have code: "(of_char (base_digit d) :: nat) = (if d < 10 then 48 + d else 87 + d)" if "d < 36" for d
    using that by (simp add: base_digit_def of_char_digit_char)
  then have "(if a < 10 then 48 + a else 87 + a) = (if b < 10 then 48 + b else 87 + b)"
    using ab by metis
  then show "a = b" by presburger
qed

lemma base_text_nonempty [simp]: "base_text b n \<noteq> []"
  by (subst base_text.simps) simp

lemma base_text_inj:
  "2 \<le> b \<Longrightarrow> b \<le> 36 \<Longrightarrow> base_text b m = base_text b n \<Longrightarrow> m = n"
proof (induction b m arbitrary: n rule: base_text.induct)
  case (1 b m)
  have last_digit: "last (base_text b k) = base_digit (k mod b)" for k
    using \<open>2 \<le> b\<close> by (subst base_text.simps) simp
  have init: "butlast (base_text b k) = (if k < b then [] else base_text b (k div b))" for k
    using \<open>2 \<le> b\<close> by (subst base_text.simps) simp
  have "base_digit (m mod b) = base_digit (n mod b)"
    using "1.prems" last_digit by metis
  moreover have "m mod b < 36" "n mod b < 36"
    using "1.prems"(1,2) mod_less_divisor [of b m] mod_less_divisor [of b n] by linarith+
  ultimately have same_mod: "m mod b = n mod b" by (metis base_digit_inj)
  have inits: "(if m < b then [] else base_text b (m div b)) = (if n < b then [] else base_text b (n div b))"
    using "1.prems" init by metis
  show ?case
  proof (cases "m < b")
    case True
    then have "n < b" using inits by (auto split: if_splits) (metis base_text_nonempty)
    with True same_mod show ?thesis by simp
  next
    case False
    then have "base_text b (m div b) = base_text b (n div b)" "\<not> (b < 2 \<or> m < b)"
      using inits "1.prems"(1) by (auto split: if_splits)
    then have "m div b = n div b" using "1.IH" "1.prems"(1,2) by blast
    with same_mod show ?thesis by (metis mult_div_mod_eq)
  qed
qed

lemma digit_char_minus [simp]:
  assumes "d < 10" shows "digit_char d \<noteq> CHR ''-''" "CHR ''-'' \<noteq> digit_char d"
proof -
  show "digit_char d \<noteq> CHR ''-''"
  proof
    assume "digit_char d = CHR ''-''"
    then have "(of_char (digit_char d) :: nat) = 45" by simp
    then show False using assms by (simp add: of_char_digit_char)
  qed
  then show "CHR ''-'' \<noteq> digit_char d" by metis
qed

lemma base_digit_minus:
  assumes "d < 36" shows "base_digit d \<noteq> CHR ''-''" "CHR ''-'' \<noteq> base_digit d"
proof -
  show "base_digit d \<noteq> CHR ''-''"
  proof
    assume "base_digit d = CHR ''-''"
    then have "(of_char (base_digit d) :: nat) = 45" by simp
    then show False using assms by (simp add: base_digit_def of_char_digit_char split: if_splits)
  qed
  then show "CHR ''-'' \<noteq> base_digit d" by metis
qed

lemma base_text_no_minus: "2 \<le> b \<Longrightarrow> b \<le> 36 \<Longrightarrow> CHR ''-'' \<notin> set (base_text b n)"
proof (induction b n rule: base_text.induct)
  case (1 b n)
  have "n mod b < 36" using "1.prems" mod_less_divisor [of b n] by linarith
  with 1 show ?case by (subst base_text.simps) (auto simp: base_digit_minus)
qed

lemma base_text_not_minus: "2 \<le> b \<Longrightarrow> b \<le> 36 \<Longrightarrow> hd (base_text b n) \<noteq> CHR ''-''"
  by (metis base_text_no_minus base_text_nonempty hd_in_set)

lemma number_text_inj:
  assumes "2 \<le> b" "b \<le> 36" "number_text b j = number_text b k"
  shows "j = k"
proof -
  have "j < 0 \<longleftrightarrow> k < 0"
    using assms base_text_not_minus [OF assms(1,2)] by (auto simp: number_text_def split: if_splits) (metis list.sel(1))+
  with assms show ?thesis
    by (auto simp: number_text_def dest: base_text_inj [OF assms(1,2)] split: if_splits)
qed

lemma sint_inj: "sint v = sint w \<Longrightarrow> v = w" for v w :: "32 word"
  by transfer (simp add: signed_take_bit_eq_iff_take_bit_eq)

end
