(* ===== verification/Am_Route.thy ===== *)
theory Am_Route
  imports Alert_Matchers Js_Hash
begin

text \<open>
  Notification policies as the Alertmanager API stores them and as the routing form edits them:
  \<open>public/app/features/alerting/unified/utils/amroutes.ts\<close> and the look-up, counting, cleaning and
  hashing functions of \<open>utils/routeTree.ts\<close>.

  \<open>am_route\<close> is \<open>Route\<close> and \<open>RouteWithID\<close> together (the identifier is optional); \<open>null\<close> and
  \<open>undefined\<close> fields are both \<open>None\<close>, which every function here treats alike. \<open>form_route\<close> is
  \<open>Partial<FormAmRoute>\<close>. The text \<open>JSON.stringify\<close> gives for a route depends on the insertion order
  of its keys, which the model does not keep: it is the parameter \<open>json\<close>.
\<close>

section \<open>Routes and form values\<close>

record route_meta =
  rme_provenance :: "string option"
  rme_resource_version :: "string option"
  rme_name :: "string option"

record am_fields =
  af_name :: "string option"
  af_receiver :: "string option"
  af_group_by :: "string list option"
  af_continue :: "bool option"
  af_object_matchers :: "object_matcher list option"
  af_matchers :: "string list option"
  af_match :: "string jobj option"
  af_match_re :: "string jobj option"
  af_group_wait :: "string option"
  af_group_interval :: "string option"
  af_repeat_interval :: "string option"
  af_mute_time_intervals :: "string list option"
  af_active_time_intervals :: "string list option"
  af_provenance :: "string option"
  af_meta :: "route_meta option"

datatype am_route =
  Am_Route (am_id: "string option") (am_fields: am_fields) (am_routes: "am_route list option")

abbreviation am_children :: "am_route \<Rightarrow> am_route list" where
  "am_children r \<equiv> nullish (am_routes r) []"

record form_fields =
  ff_id :: "string option"
  ff_name :: "string option"
  ff_object_matchers :: "matcher_field list option"
  ff_continue :: "bool option"
  ff_receiver :: "string option"
  ff_override_grouping :: "bool option"
  ff_group_by :: "string list option"
  ff_override_timings :: "bool option"
  ff_group_wait :: "string option"
  ff_group_interval :: "string option"
  ff_repeat_interval :: "string option"
  ff_mute_time_intervals :: "string list option"
  ff_active_time_intervals :: "string list option"

datatype form_route = Form_Route (fr_fields: form_fields) (fr_routes: "form_route list option")

section \<open>Look-up, counting and cleaning\<close>

function find_existing_route :: "string \<Rightarrow> am_route \<Rightarrow> am_route option" where
  "find_existing_route ident (Am_Route i f rs) =
     (if i = Some ident then Some (Am_Route i f rs)
      else find (\<lambda>r. find_existing_route ident r \<noteq> None) (nullish rs []))"
  by pat_completeness auto
termination
  by (relation "measure (\<lambda>(_, r). size r)") (auto intro: size_child)

function count_child_routes :: "am_route \<Rightarrow> nat" where
  "count_child_routes (Am_Route i f rs) =
     foldl (\<lambda>total child. total + 1 + count_child_routes child) 0 (nullish rs [])"
  by pat_completeness auto
termination
  by (relation "measure size") (auto intro: size_child)

function clean_route_ids :: "am_route \<Rightarrow> am_route" where
  "clean_route_ids (Am_Route i f rs) =
     Am_Route None (f\<lparr>af_name := None\<rparr>)
       (case rs of None \<Rightarrow> None | Some cs \<Rightarrow> Some (map clean_route_ids cs))"
  by pat_completeness auto
termination
  by (relation "measure size") (auto intro: size_child)

section \<open>Hashing\<close>

definition sort_record :: "string jobj \<Rightarrow> string jobj" where
  "sort_record r = fold (\<lambda>k. jo_set k (the (jo_get r k))) (sort (jo_keys r)) []"

text \<open>An array converted to a string, as \<open>sort\<close> without a comparison function does.\<close>

definition object_matcher_text :: "object_matcher \<Rightarrow> string" where
  "object_matcher_text m = join_with '','' [fst m, op_text (fst (snd m)), snd (snd m)]"

definition stabilize_route :: "am_route \<Rightarrow> am_route" where
  "stabilize_route r =
     (let f = am_fields r in
      Am_Route None
        \<lparr>af_name = Some (nullish (af_name f) []),
         af_receiver = Some (nullish (af_receiver f) []),
         af_group_by = Some (case af_group_by f of Some g \<Rightarrow> sort g | None \<Rightarrow> []),
         af_continue = Some (nullish (af_continue f) False),
         af_object_matchers = Some (case af_object_matchers f of
            Some ms \<Rightarrow> sort_key object_matcher_text ms | None \<Rightarrow> []),
         af_matchers = Some (case af_matchers f of Some ms \<Rightarrow> sort ms | None \<Rightarrow> []),
         af_match = Some (case af_match f of Some m \<Rightarrow> sort_record m | None \<Rightarrow> []),
         af_match_re = Some (case af_match_re f of Some m \<Rightarrow> sort_record m | None \<Rightarrow> []),
         af_group_wait = Some (nullish (af_group_wait f) []),
         af_group_interval = Some (nullish (af_group_interval f) []),
         af_repeat_interval = Some (nullish (af_repeat_interval f) []),
         af_mute_time_intervals = Some (case af_mute_time_intervals f of Some m \<Rightarrow> sort m | None \<Rightarrow> []),
         af_active_time_intervals = Some (case af_active_time_intervals f of Some m \<Rightarrow> sort m | None \<Rightarrow> []),
         af_provenance = Some (nullish (af_provenance f) []),
         af_meta = Some \<lparr>rme_provenance = None, rme_resource_version = None, rme_name = None\<rparr>\<rparr>
        (Some (am_children r)))"

definition hash_route :: "(am_route \<Rightarrow> string) \<Rightarrow> am_route \<Rightarrow> string" where
  "hash_route json r = number_text 36 (sint (hash_string (json (stabilize_route r))))"

function add_unique_identifier_to_route :: "(am_route \<Rightarrow> string) \<Rightarrow> am_route \<Rightarrow> string \<Rightarrow> am_route" where
  "add_unique_identifier_to_route json (Am_Route i f rs) position =
     Am_Route (Some (nullish i (position @ ''-'' @ hash_route json (Am_Route i f rs)))) f
       (Some (map (\<lambda>(k, r). add_unique_identifier_to_route json r (position @ ''-'' @ string_of_nat k))
         (List.enumerate 0 (nullish rs []))))"
  by pat_completeness auto
termination
  by (relation "measure (\<lambda>(_, r, _). size r)") (auto intro: size_child simp: in_set_enumerate_eq)

definition identify_tree :: "(am_route \<Rightarrow> string) \<Rightarrow> am_route \<Rightarrow> am_route" where
  "identify_tree json r = add_unique_identifier_to_route json r (nullish (af_name (am_fields r)) ''0'')"

section \<open>From a route to the form\<close>

definition extract_provenance :: "am_route \<Rightarrow> string option" where
  "extract_provenance r =
     (case af_meta (am_fields r) of
        Some m \<Rightarrow> (case rme_provenance m of Some p \<Rightarrow> Some p | None \<Rightarrow> af_provenance (am_fields r))
      | None \<Rightarrow> af_provenance (am_fields r))"

definition matchers_to_array_field_matchers :: "string jobj option \<Rightarrow> bool \<Rightarrow> matcher_field list" where
  "matchers_to_array_field_matchers ms is_regex =
     map (\<lambda>(n, v). \<lparr>mf_name = n, mf_operator = (if is_regex then Op_re else Op_eq), mf_value = v\<rparr>)
       (nullish ms [])"

definition default_group_by :: "string list" where
  "default_group_by = [''grafana_folder'', ''alertname'']"

definition empty_route :: form_route where
  "empty_route = Form_Route
     \<lparr>ff_id = Some [], ff_name = Some [], ff_object_matchers = Some [], ff_continue = Some False,
      ff_receiver = Some [], ff_override_grouping = Some False, ff_group_by = Some default_group_by,
      ff_override_timings = Some False, ff_group_wait = Some [], ff_group_interval = Some [],
      ff_repeat_interval = Some [], ff_mute_time_intervals = Some [], ff_active_time_intervals = Some []\<rparr>
     (Some [])"

definition truthy :: "string option \<Rightarrow> bool" where
  "truthy v \<longleftrightarrow> nullish v [] \<noteq> []"

definition form_matchers :: "am_fields \<Rightarrow> matcher_field list res" where
  "form_matchers f =
     bind_res (map_res parse_matcher_to_array (nullish (af_matchers f) []))
       (\<lambda>parsed. Inr (map (unquote_field \<circ> matcher_to_matcher_field) (concat parsed)
          @ map (\<lambda>(n, op, v). \<lparr>mf_name = n, mf_operator = op, mf_value = v\<rparr>) (nullish (af_object_matchers f) [])
          @ matchers_to_array_field_matchers (af_match f) False
          @ matchers_to_array_field_matchers (af_match_re f) True))"

function am_route_to_form :: "am_route \<Rightarrow> form_route res" where
  "am_route_to_form (Am_Route i f rs) =
     bind_res (map_res am_route_to_form (nullish rs [])) (\<lambda>form_routes.
     bind_res (form_matchers f) (\<lambda>ms.
       Inr (Form_Route
         \<lparr>ff_id = i, ff_name = Some (nullish (af_name f) []), ff_object_matchers = Some ms,
          ff_continue = Some (nullish (af_continue f) False),
          ff_receiver = Some (nullish (af_receiver f) []),
          ff_override_grouping = Some (nullish (af_group_by f) [] \<noteq> []),
          ff_group_by = af_group_by f,
          ff_override_timings = Some (list_ex truthy [af_group_wait f, af_group_interval f, af_repeat_interval f]),
          ff_group_wait = Some (nullish (af_group_wait f) []),
          ff_group_interval = Some (nullish (af_group_interval f) []),
          ff_repeat_interval = Some (nullish (af_repeat_interval f) []),
          ff_mute_time_intervals = Some (nullish (af_mute_time_intervals f) []),
          ff_active_time_intervals = Some (nullish (af_active_time_intervals f) [])\<rparr>
         (Some form_routes))))"
  by pat_completeness auto
termination
  by (relation "measure size") (auto intro: size_child)

definition am_route_to_form_opt :: "am_route option \<Rightarrow> form_route res" where
  "am_route_to_form_opt r = (case r of None \<Rightarrow> Inr empty_route | Some r \<Rightarrow> am_route_to_form r)"

section \<open>From the form to a route\<close>

definition grafana_rules_source_name :: string where
  "grafana_rules_source_name = ''grafana''"

definition empty_fields :: am_fields where
  "empty_fields =
     \<lparr>af_name = None, af_receiver = None, af_group_by = None, af_continue = None, af_object_matchers = None,
      af_matchers = None, af_match = None, af_match_re = None, af_group_wait = None,
      af_group_interval = None, af_repeat_interval = None, af_mute_time_intervals = None,
      af_active_time_intervals = None, af_provenance = None, af_meta = None\<rparr>"

definition override_timing :: "form_fields \<Rightarrow> string option \<Rightarrow> string option" where
  "override_timing g v = (if ff_override_timings g = Some True \<and> truthy v then v else None)"

definition form_object_matchers :: "form_fields \<Rightarrow> object_matcher list option" where
  "form_object_matchers g =
     map_option (\<lambda>ms. map (\<lambda>m. (mf_name m, mf_operator m, mf_value m)) (filter (\<lambda>m. mf_name m \<noteq> []) ms))
       (ff_object_matchers g)"

text \<open>The fields of \<open>amRoute\<close> before the matchers are moved to the field the source accepts.\<close>

definition form_to_fields :: "am_fields \<Rightarrow> form_fields \<Rightarrow> am_fields" where
  "form_to_fields existing g =
     existing
       \<lparr>af_continue := ff_continue g,
        af_group_by := (if ff_override_grouping g = Some True then ff_group_by g else None),
        af_object_matchers := form_object_matchers g,
        af_match := None, af_match_re := None,
        af_group_wait := override_timing g (ff_group_wait g),
        af_group_interval := override_timing g (ff_group_interval g),
        af_repeat_interval := override_timing g (ff_repeat_interval g),
        af_mute_time_intervals := ff_mute_time_intervals g,
        af_active_time_intervals := ff_active_time_intervals g,
        af_receiver := ff_receiver g\<rparr>"

definition place_matchers :: "string \<Rightarrow> form_fields \<Rightarrow> am_fields \<Rightarrow> am_fields res" where
  "place_matchers source g f =
     (if source \<noteq> grafana_rules_source_name
      then Inr (f\<lparr>af_matchers := map_option (map encode_matcher) (ff_object_matchers g),
                  af_object_matchers := None\<rparr>)
      else bind_res (normalize_matchers (af_matchers f) (af_object_matchers f) (af_match_re f) (af_match f))
        (\<lambda>ms. Inr (f\<lparr>af_object_matchers := Some ms, af_matchers := None\<rparr>)))"

function form_to_am_route :: "string \<Rightarrow> am_route \<Rightarrow> form_route \<Rightarrow> am_route res" where
  "form_to_am_route source tree (Form_Route g rs) =
     (let existing = find_existing_route (nullish (ff_id g) []) tree;
          (i, old) = (case existing of None \<Rightarrow> (None, empty_fields) | Some e \<Rightarrow> (am_id e, am_fields e))
      in bind_res (case rs of None \<Rightarrow> Inr None
                   | Some cs \<Rightarrow> bind_res (map_res (form_to_am_route source tree) cs) (\<lambda>x. Inr (Some x)))
           (\<lambda>routes. bind_res (place_matchers source g (form_to_fields old g))
              (\<lambda>f. Inr (Am_Route i f routes))))"
  by pat_completeness auto
termination
  by (relation "measure (\<lambda>(_, _, r). size r)") (auto intro: size_child)

section \<open>Nodes of a tree\<close>

function am_nodes :: "am_route \<Rightarrow> am_route list" where
  "am_nodes (Am_Route i f rs) = Am_Route i f rs # concat (map am_nodes (nullish rs []))"
  by pat_completeness auto
termination
  by (relation "measure size") (auto intro: size_child)

lemma am_nodes_children: "am_nodes r = r # concat (map am_nodes (am_children r))"
  by (cases r) simp

lemma self_in_am_nodes [simp]: "r \<in> set (am_nodes r)"
  by (cases r) simp

lemma own_id_in_am_ids: "am_id r = i \<Longrightarrow> i \<in> set (map am_id (am_nodes r))"
  by (cases r) simp

lemma child_in_am_nodes: "c \<in> set (am_children t) \<Longrightarrow> c \<in> set (am_nodes t)"
  by (cases t) (auto intro!: bexI [of _ c])

lemma find_Some_iff_ex: "find P xs \<noteq> None \<longleftrightarrow> (\<exists>x \<in> set xs. P x)"
  by (metis find_None_iff)

lemma find_existing_route_iff:
  "find_existing_route ident t \<noteq> None \<longleftrightarrow> (\<exists>n \<in> set (am_nodes t). am_id n = Some ident)"
proof (induction ident t rule: find_existing_route.induct)
  case (1 ident i f rs)
  show ?case
  proof (cases "i = Some ident")
    case False
    then have "find_existing_route ident (Am_Route i f rs) \<noteq> None \<longleftrightarrow>
        (\<exists>r \<in> set (nullish rs []). find_existing_route ident r \<noteq> None)"
      by (simp add: find_Some_iff_ex del: not_None_eq)
    with 1 [OF False] False show ?thesis by auto
  qed simp
qed

text \<open>What the look-up returns: the root when it has the identifier, and otherwise the first direct
  child in whose subtree it occurs.\<close>

lemma find_existing_route_SomeD:
  assumes "find_existing_route ident t = Some e"
  shows "e = t \<and> am_id t = Some ident \<or>
    am_id t \<noteq> Some ident \<and> e \<in> set (am_children t) \<and> (\<exists>n \<in> set (am_nodes e). am_id n = Some ident)"
  using assms find_existing_route_iff [of ident e]
  by (cases t) (auto simp: find_Some_iff split: if_splits)

lemma foldl_count: "foldl (\<lambda>t c. Suc (t + g c)) n cs = n + sum_list (map (\<lambda>c. Suc (g c)) cs)" for n :: nat
  by (induction cs arbitrary: n) auto

lemma count_child_routes_nodes: "Suc (count_child_routes r) = length (am_nodes r)"
proof (induction r rule: count_child_routes.induct)
  case (1 i f rs)
  then have "map (\<lambda>c. Suc (count_child_routes c)) (nullish rs []) = map (length \<circ> am_nodes) (nullish rs [])"
    by simp
  then show ?case
    by (simp add: foldl_count length_concat comp_def del: map_eq_conv)
qed

lemma clean_route_ids_nodes:
  "map (\<lambda>n. (am_id n, am_fields n)) (am_nodes (clean_route_ids r)) =
   map (\<lambda>n. (None, (am_fields n)\<lparr>af_name := None\<rparr>)) (am_nodes r)"
proof (induction r rule: clean_route_ids.induct)
  case (1 i f rs)
  then show ?case
    by (cases rs) (auto simp: map_concat comp_def intro!: arg_cong [of _ _ concat])
qed

section \<open>Hashes do not depend on the order of sets\<close>

lemma sort_record_cong:
  assumes "mset r = mset r'" "jo_wf r"
  shows "sort_record r = sort_record r'"
proof -
  have "distinct (map fst r')"
    using assms by (metis jo_wf_def mset_eq_imp_distinct_iff mset_map)
  then have get: "jo_get r k = jo_get r' k" for k
    using assms map_of_eqI [of r r'] by (metis jo_get_def jo_wf_def map_of_inject_set mset_eq_setD)
  have "mset (jo_keys r) = mset (jo_keys r')"
    using assms by (simp add: jo_keys_def)
  then have "sort (jo_keys r) = sort (jo_keys r')"
    by (metis properties_for_sort sorted_sort mset_sort)
  with get show ?thesis by (simp add: sort_record_def)
qed

text \<open>Two optional lists with the same elements, each as often.\<close>

definition reordered :: "'a list option \<Rightarrow> 'a list option \<Rightarrow> bool" where
  "reordered v w \<longleftrightarrow> map_option mset v = map_option mset w"

definition same_config :: "am_route \<Rightarrow> am_route \<Rightarrow> bool" where
  "same_config r r' \<longleftrightarrow>
     (let f = am_fields r; f' = am_fields r' in
      reordered (af_group_by f) (af_group_by f') \<and> reordered (af_matchers f) (af_matchers f') \<and>
      reordered (af_object_matchers f) (af_object_matchers f') \<and>
      inj_on object_matcher_text (set (nullish (af_object_matchers f) [])) \<and>
      reordered (af_match f) (af_match f') \<and> jo_wf (nullish (af_match f) []) \<and>
      reordered (af_match_re f) (af_match_re f') \<and> jo_wf (nullish (af_match_re f) []) \<and>
      reordered (af_mute_time_intervals f) (af_mute_time_intervals f') \<and>
      reordered (af_active_time_intervals f) (af_active_time_intervals f') \<and>
      nullish (af_name f) [] = nullish (af_name f') [] \<and>
      nullish (af_receiver f) [] = nullish (af_receiver f') [] \<and>
      nullish (af_continue f) False = nullish (af_continue f') False \<and>
      nullish (af_group_wait f) [] = nullish (af_group_wait f') [] \<and>
      nullish (af_group_interval f) [] = nullish (af_group_interval f') [] \<and>
      nullish (af_repeat_interval f) [] = nullish (af_repeat_interval f') [] \<and>
      nullish (af_provenance f) [] = nullish (af_provenance f') [] \<and>
      am_children r = am_children r')"

lemma sort_cong: "mset xs = mset ys \<Longrightarrow> sort xs = sort ys"
  by (metis properties_for_sort sorted_sort mset_sort)

lemma reordered_sort:
  "reordered v w \<Longrightarrow> (case v of Some g \<Rightarrow> sort g | None \<Rightarrow> []) = (case w of Some g \<Rightarrow> sort g | None \<Rightarrow> [])"
  by (cases v; cases w) (auto simp: reordered_def intro: sort_cong)

lemma reordered_sort_key:
  assumes "reordered v w" "inj_on key (set (nullish v []))"
  shows "(case v of Some g \<Rightarrow> sort_key key g | None \<Rightarrow> []) = (case w of Some g \<Rightarrow> sort_key key g | None \<Rightarrow> [])"
proof (cases v)
  case (Some g)
  then obtain h where h: "w = Some h" "mset g = mset h"
    using assms(1) by (cases w) (auto simp: reordered_def)
  have "sort_key key g = sort_key key h"
    using Some assms(2) h(2) by (intro sort_key_inj_key_eq) simp_all
  with Some h show ?thesis by simp
qed (use assms in \<open>auto simp: reordered_def split: option.splits\<close>)

lemma reordered_sort_record:
  assumes "reordered v w" "jo_wf (nullish v [])"
  shows "(case v of Some g \<Rightarrow> sort_record g | None \<Rightarrow> []) = (case w of Some g \<Rightarrow> sort_record g | None \<Rightarrow> [])"
  using assms by (cases v; cases w) (auto simp: reordered_def intro: sort_record_cong)

lemma stabilize_route_same_config:
  assumes "same_config r r'"
  shows "stabilize_route r = stabilize_route r'"
  using assms
  by (simp add: same_config_def stabilize_route_def Let_def reordered_sort [of "af_group_by (am_fields r)"]
      reordered_sort [of "af_matchers (am_fields r)"] reordered_sort [of "af_mute_time_intervals (am_fields r)"]
      reordered_sort [of "af_active_time_intervals (am_fields r)"]
      reordered_sort_key [of "af_object_matchers (am_fields r)"]
      reordered_sort_record [of "af_match (am_fields r)"] reordered_sort_record [of "af_match_re (am_fields r)"])

section \<open>The stable identifiers are distinct\<close>

definition index_path :: "nat list \<Rightarrow> string" where
  "index_path ks = concat (map (\<lambda>k. CHR ''-'' # string_of_nat k) ks)"

lemma digit_not_minus: "c \<in> set (string_of_nat n) \<Longrightarrow> c \<noteq> CHR ''-''"
  by (induction n rule: string_of_nat.induct) (subst (asm) (2) string_of_nat.simps, auto split: if_splits)

text \<open>A number text has no minus sign after its first character.\<close>

lemma number_text_shape: "CHR ''-'' \<notin> set (tl (number_text 36 k))"
  using base_text_no_minus [of 36] by (auto simp: number_text_def dest: list.set_sel(2) [rotated])

lemma digits_split:
  "u @ CHR ''-'' # x = v @ CHR ''-'' # y \<Longrightarrow> CHR ''-'' \<notin> set u \<Longrightarrow> CHR ''-'' \<notin> set v \<Longrightarrow> u = v \<and> x = y"
proof (induction u arbitrary: v)
  case Nil
  then show ?case by (cases v) auto
next
  case (Cons c u)
  then show ?case by (cases v) auto
qed

lemma id_path_inj:
  "index_path p @ CHR ''-'' # number_text 36 j = index_path q @ CHR ''-'' # number_text 36 k \<Longrightarrow> p = q"
proof (induction p arbitrary: q)
  case Nil
  show ?case
  proof (cases q)
    case (Cons k' ks)
    with Nil have eq: "number_text 36 j = string_of_nat k' @ index_path ks @ CHR ''-'' # number_text 36 k"
      by (simp add: index_path_def)
    then have "CHR ''-'' \<in> set (tl (number_text 36 j))"
      by (cases "string_of_nat k'") auto
    with number_text_shape show ?thesis by blast
  qed simp
next
  case (Cons i ps)
  show ?case
  proof (cases q)
    case Nil
    with Cons.prems have "number_text 36 k = string_of_nat i @ index_path ps @ CHR ''-'' # number_text 36 j"
      by (simp add: index_path_def)
    then have "CHR ''-'' \<in> set (tl (number_text 36 k))"
      by (cases "string_of_nat i") auto
    with number_text_shape show ?thesis by blast
  next
    case (Cons k' ks)
    have next_minus: "\<exists>r. index_path ms @ CHR ''-'' # s = CHR ''-'' # r" for ms s
      by (cases ms) (auto simp: index_path_def)
    have eq: "string_of_nat i @ index_path ps @ CHR ''-'' # number_text 36 j =
        string_of_nat k' @ index_path ks @ CHR ''-'' # number_text 36 k"
      using Cons.prems Cons by (simp add: index_path_def)
    obtain r r' where r: "index_path ps @ CHR ''-'' # number_text 36 j = CHR ''-'' # r"
      "index_path ks @ CHR ''-'' # number_text 36 k = CHR ''-'' # r'"
      using next_minus by blast
    have "string_of_nat i = string_of_nat k' \<and> r = r'"
      using eq digit_not_minus by (intro digits_split) (auto simp: r)
    then show ?thesis
      using Cons.IH [of ks] r Cons by (auto dest: string_of_nat_inj)
  qed
qed

abbreviation id_at :: "string \<Rightarrow> nat list \<times> int \<Rightarrow> string option" where
  "id_at position x \<equiv> Some (position @ index_path (fst x) @ CHR ''-'' # number_text 36 (snd x))"

abbreviation am_ids :: "am_route \<Rightarrow> string option list" where
  "am_ids r \<equiv> map am_id (am_nodes r)"

lemma ids_of_children:
  assumes "\<And>k r. (k, r) \<in> set (List.enumerate n cs) \<Longrightarrow> \<exists>ps. am_ids (add_unique_identifier_to_route json r (position @ ''-'' @ string_of_nat k)) =
      map (id_at (position @ ''-'' @ string_of_nat k)) ps \<and> distinct (map fst ps)"
  shows "\<exists>ps. concat (map am_ids (map (\<lambda>(k, r). add_unique_identifier_to_route json r (position @ ''-'' @ string_of_nat k))
      (List.enumerate n cs))) = map (id_at position) ps \<and> distinct (map fst ps) \<and>
    (\<forall>x \<in> set ps. fst x \<noteq> [] \<and> n \<le> hd (fst x))"
  using assms
proof (induction cs arbitrary: n)
  case (Cons c cs)
  obtain ps where ps: "am_ids (add_unique_identifier_to_route json c (position @ ''-'' @ string_of_nat n)) =
      map (id_at (position @ ''-'' @ string_of_nat n)) ps" "distinct (map fst ps)"
    using Cons.prems [of n c] by auto
  obtain qs where qs: "concat (map am_ids (map (\<lambda>(k, r). add_unique_identifier_to_route json r (position @ ''-'' @ string_of_nat k))
      (List.enumerate (Suc n) cs))) = map (id_at position) qs" "distinct (map fst qs)"
    "\<forall>x \<in> set qs. fst x \<noteq> [] \<and> Suc n \<le> hd (fst x)"
    using Cons.IH [of "Suc n"] Cons.prems by auto
  let ?ps = "map (\<lambda>x. (n # fst x, snd x)) ps @ qs"
  have "map (id_at (position @ ''-'' @ string_of_nat n)) ps = map (id_at position) (map (\<lambda>x. (n # fst x, snd x)) ps)"
    by (simp add: index_path_def)
  moreover have "distinct (map fst (map (\<lambda>x. (n # fst x, snd x)) ps))"
    using ps(2) by (simp add: distinct_map inj_on_def comp_def)
  ultimately show ?case
    using ps qs by (intro exI [of _ ?ps]) force
qed simp

lemma ids_of_identified:
  assumes "\<And>n. n \<in> set (am_nodes r) \<Longrightarrow> am_id n = None"
  shows "\<exists>ps. am_ids (add_unique_identifier_to_route json r position) = map (id_at position) ps \<and> distinct (map fst ps)"
  using assms
proof (induction json r position rule: add_unique_identifier_to_route.induct)
  case (1 json i f rs position)
  have i: "i = None" using "1.prems" [of "Am_Route i f rs"] by simp
  have "\<exists>ps. am_ids (add_unique_identifier_to_route json r (position @ ''-'' @ string_of_nat k)) =
      map (id_at (position @ ''-'' @ string_of_nat k)) ps \<and> distinct (map fst ps)"
    if kr: "(k, r) \<in> set (List.enumerate 0 (nullish rs []))" for k r
  proof (rule "1.IH" [OF kr refl])
    have "r \<in> set (nullish rs [])" using kr by (auto simp: in_set_enumerate_eq)
    then show "am_id n = None" if "n \<in> set (am_nodes r)" for n
      using that "1.prems" [of n] by auto
  qed
  from ids_of_children [OF this]
  obtain ps where ps: "concat (map am_ids (map (\<lambda>(k, r). add_unique_identifier_to_route json r (position @ ''-'' @ string_of_nat k))
      (List.enumerate 0 (nullish rs [])))) = map (id_at position) ps" "distinct (map fst ps)"
    "\<forall>x \<in> set ps. fst x \<noteq> []"
    by blast
  obtain j where j: "hash_route json (Am_Route i f rs) = number_text 36 j"
    by (simp add: hash_route_def)
  have "[] \<notin> set (map fst ps)" using ps(3) by force
  then show ?case
    using ps i j by (intro exI [of _ "([], j) # ps"]) (simp add: index_path_def map_concat comp_def)
qed

lemma identify_tree_distinct:
  assumes "\<And>n. n \<in> set (am_nodes r) \<Longrightarrow> am_id n = None"
  shows "distinct (am_ids (identify_tree json r)) \<and> None \<notin> set (am_ids (identify_tree json r))"
proof -
  let ?p = "nullish (af_name (am_fields r)) ''0''"
  obtain ps where ps: "am_ids (identify_tree json r) = map (id_at ?p) ps" "distinct (map fst ps)"
    using ids_of_identified [of r json ?p, OF assms] by (auto simp: identify_tree_def)
  have "inj_on (id_at ?p) (set ps)"
  proof (rule inj_onI)
    fix x y
    assume xy: "x \<in> set ps" "y \<in> set ps" "id_at ?p x = id_at ?p y"
    then have "fst x = fst y" using id_path_inj by auto
    with xy ps(2) show "x = y" by (metis eq_key_imp_eq_value prod.collapse)
  qed
  with ps show ?thesis by (auto simp: distinct_map)
qed

section \<open>From the form to a route and back\<close>

text \<open>The identifier and the name of a policy are not edited in the form.\<close>

function strip_form :: "form_route \<Rightarrow> form_route" where
  "strip_form (Form_Route g rs) =
     Form_Route (g\<lparr>ff_id := None, ff_name := None\<rparr>) (Some (map strip_form (nullish rs [])))"
  by pat_completeness auto
termination
  by (relation "measure size") (auto intro: size_child)

text \<open>The matchers have a name that the source can store.\<close>

definition storable :: "string \<Rightarrow> matcher_field \<Rightarrow> bool" where
  "storable source m \<longleftrightarrow> (if source = grafana_rules_source_name then mf_name m \<noteq> [] else encodable m)"

function form_ok :: "string \<Rightarrow> form_route \<Rightarrow> bool" where
  "form_ok source (Form_Route g rs) \<longleftrightarrow>
     list_all (storable source) (nullish (ff_object_matchers g) []) \<and> list_all (form_ok source) (nullish rs [])"
  by pat_completeness auto
termination
  by (relation "measure (\<lambda>(_, r). size r)") (auto intro: size_child)

text \<open>
  What of a form is in force: a grouping only where the form overrides it, each timing only where the form
  overrides timings, and the empty value for a field that is absent. The two flags say whether anything is left to
  override.
\<close>

definition timing_in_force :: "form_fields \<Rightarrow> string option \<Rightarrow> string" where
  "timing_in_force g v = (if ff_override_timings g = Some True then nullish v [] else [])"

definition fields_in_force :: "form_fields \<Rightarrow> form_fields" where
  "fields_in_force g =
     (let grouping = (if ff_override_grouping g = Some True then ff_group_by g else None);
          group_wait = timing_in_force g (ff_group_wait g);
          group_interval = timing_in_force g (ff_group_interval g);
          repeat_interval = timing_in_force g (ff_repeat_interval g)
      in \<lparr>ff_id = None, ff_name = None, ff_object_matchers = Some (nullish (ff_object_matchers g) []),
          ff_continue = Some (nullish (ff_continue g) False), ff_receiver = Some (nullish (ff_receiver g) []),
          ff_override_grouping = Some (nullish grouping [] \<noteq> []), ff_group_by = grouping,
          ff_override_timings = Some (list_ex (\<lambda>t. t \<noteq> []) [group_wait, group_interval, repeat_interval]),
          ff_group_wait = Some group_wait, ff_group_interval = Some group_interval, ff_repeat_interval = Some repeat_interval,
          ff_mute_time_intervals = Some (nullish (ff_mute_time_intervals g) []),
          ff_active_time_intervals = Some (nullish (ff_active_time_intervals g) [])\<rparr>)"

function form_in_force :: "form_route \<Rightarrow> form_route" where
  "form_in_force (Form_Route g rs) = Form_Route (fields_in_force g) (Some (map form_in_force (nullish rs [])))"
  by pat_completeness auto
termination
  by (relation "measure size") (auto intro: size_child)

text \<open>A form with every field, whose flags say whether there is something to override: all of it is in force.\<close>

definition settled_fields :: "form_fields \<Rightarrow> bool" where
  "settled_fields g \<longleftrightarrow>
     ff_object_matchers g \<noteq> None \<and> ff_continue g \<noteq> None \<and> ff_receiver g \<noteq> None \<and>
     ff_override_grouping g = Some (ff_group_by g \<noteq> None) \<and> ff_group_by g \<noteq> Some [] \<and>
     ff_group_wait g \<noteq> None \<and> ff_group_interval g \<noteq> None \<and> ff_repeat_interval g \<noteq> None \<and>
     ff_override_timings g = Some (list_ex truthy [ff_group_wait g, ff_group_interval g, ff_repeat_interval g]) \<and>
     ff_mute_time_intervals g \<noteq> None \<and> ff_active_time_intervals g \<noteq> None"

function settled :: "form_route \<Rightarrow> bool" where
  "settled (Form_Route g rs) \<longleftrightarrow> settled_fields g \<and> list_all settled (nullish rs [])"
  by pat_completeness auto
termination
  by (relation "measure size") (auto intro: size_child)

lemma settled_fields_in_force: "settled_fields g \<Longrightarrow> fields_in_force g = g\<lparr>ff_id := None, ff_name := None\<rparr>"
  by (cases g) (auto simp: settled_fields_def fields_in_force_def timing_in_force_def truthy_def Let_def)

lemma settled_in_force: "settled g \<Longrightarrow> form_in_force g = strip_form g"
proof (induction g rule: form_in_force.induct)
  case (1 g rs)
  then show ?case by (cases rs) (auto simp: settled_fields_in_force list_all_iff)
qed

lemma parse_encoded_list:
  "list_all encodable ms \<Longrightarrow>
   \<exists>parsed. map_res parse_matcher_to_array (map encode_matcher ms) = Inr parsed \<and>
     map (unquote_field \<circ> matcher_to_matcher_field) (concat parsed) = ms"
proof (induction ms)
  case (Cons m ms)
  then obtain parsed where p: "map_res parse_matcher_to_array (map encode_matcher ms) = Inr parsed"
    "map (unquote_field \<circ> matcher_to_matcher_field) (concat parsed) = ms"
    by auto
  have m: "encodable m" using Cons.prems by simp
  obtain one where one: "parse_matcher_to_array (encode_matcher m) = Inr [one]"
    "unquote_field (matcher_to_matcher_field one) = m"
    using parse_encoded_matcher [OF m] m
    by (simp add: matcher_to_matcher_field_def matcher_to_operator_flags unquote_field_def unquote_quote
        unquote_quote_if_required encodable_def)
  show ?case using p one by (intro exI [of _ "[one] # parsed"]) (simp add: comp_def)
qed simp

lemma form_to_fields_sel [simp]:
  "af_continue (form_to_fields old g) = ff_continue g"
  "af_group_by (form_to_fields old g) = (if ff_override_grouping g = Some True then ff_group_by g else None)"
  "af_object_matchers (form_to_fields old g) = form_object_matchers g"
  "af_match (form_to_fields old g) = None" "af_match_re (form_to_fields old g) = None"
  "af_group_wait (form_to_fields old g) = override_timing g (ff_group_wait g)"
  "af_group_interval (form_to_fields old g) = override_timing g (ff_group_interval g)"
  "af_repeat_interval (form_to_fields old g) = override_timing g (ff_repeat_interval g)"
  "af_mute_time_intervals (form_to_fields old g) = ff_mute_time_intervals g"
  "af_active_time_intervals (form_to_fields old g) = ff_active_time_intervals g"
  "af_receiver (form_to_fields old g) = ff_receiver g"
  "af_matchers (form_to_fields old g) = af_matchers old"
  by (simp_all add: form_to_fields_def)

lemma field_of_tuple: "map ((\<lambda>(n, op, v). \<lparr>mf_name = n, mf_operator = op, mf_value = v\<rparr>) \<circ>
    (\<lambda>m. (mf_name m, mf_operator m, mf_value m))) ms = ms"
  by (induction ms) simp_all

lemma placed_some_matchers:
  assumes ms: "ff_object_matchers g = Some ms" "list_all (storable source) ms"
    and old: "source = grafana_rules_source_name \<Longrightarrow> af_matchers old = None"
  shows "\<exists>m om. place_matchers source g (form_to_fields old g) =
      Inr ((form_to_fields old g)\<lparr>af_matchers := m, af_object_matchers := om\<rparr>) \<and>
    form_matchers ((form_to_fields old g)\<lparr>af_matchers := m, af_object_matchers := om\<rparr>) = Inr ms"
proof (cases "source = grafana_rules_source_name")
  case True
  let ?om = "map (\<lambda>m. (mf_name m, mf_operator m, mf_value m)) ms"
  have "filter (\<lambda>m. mf_name m \<noteq> []) ms = ms"
    using ms(2) True by (induction ms) (auto simp: storable_def)
  then have om: "form_object_matchers g = Some ?om"
    using ms(1) by (simp add: form_object_matchers_def)
  have "place_matchers source g (form_to_fields old g) =
      Inr ((form_to_fields old g)\<lparr>af_matchers := None, af_object_matchers := Some ?om\<rparr>)"
    using True old om by (simp add: place_matchers_def normalize_matchers_def)
  moreover have "form_matchers ((form_to_fields old g)\<lparr>af_matchers := None, af_object_matchers := Some ?om\<rparr>) = Inr ms"
    using field_of_tuple [of ms]
    by (simp add: form_matchers_def matchers_to_array_field_matchers_def del: map_map) (simp add: comp_def)
  ultimately show ?thesis by blast
next
  case False
  then have "list_all encodable ms"
    using ms(2) by (auto simp: storable_def list_all_iff)
  from parse_encoded_list [OF this] obtain parsed where
    p: "map_res parse_matcher_to_array (map encode_matcher ms) = Inr parsed"
    "map (unquote_field \<circ> matcher_to_matcher_field) (concat parsed) = ms" by blast
  have "place_matchers source g (form_to_fields old g) =
      Inr ((form_to_fields old g)\<lparr>af_matchers := Some (map encode_matcher ms), af_object_matchers := None\<rparr>)"
    using False ms(1) by (simp add: place_matchers_def)
  moreover have "form_matchers ((form_to_fields old g)\<lparr>af_matchers := Some (map encode_matcher ms),
      af_object_matchers := None\<rparr>) = Inr ms"
    using p by (simp add: form_matchers_def matchers_to_array_field_matchers_def)
  ultimately show ?thesis by blast
qed

lemma placed_matchers:
  assumes "list_all (storable source) (nullish (ff_object_matchers g) [])"
    and old: "source = grafana_rules_source_name \<Longrightarrow> af_matchers old = None"
  shows "\<exists>m om. place_matchers source g (form_to_fields old g) =
      Inr ((form_to_fields old g)\<lparr>af_matchers := m, af_object_matchers := om\<rparr>) \<and>
    form_matchers ((form_to_fields old g)\<lparr>af_matchers := m, af_object_matchers := om\<rparr>) = Inr (nullish (ff_object_matchers g) [])"
proof (cases "ff_object_matchers g")
  case None
  let ?om = "if source = grafana_rules_source_name then Some [] else None"
  have "place_matchers source g (form_to_fields old g) =
      Inr ((form_to_fields old g)\<lparr>af_matchers := None, af_object_matchers := ?om\<rparr>)"
    using None old by (simp add: place_matchers_def normalize_matchers_def form_object_matchers_def)
  moreover have "form_matchers ((form_to_fields old g)\<lparr>af_matchers := None, af_object_matchers := ?om\<rparr>) = Inr []"
    by (simp add: form_matchers_def matchers_to_array_field_matchers_def)
  ultimately show ?thesis using None by (metis nullish_simps(1))
next
  case (Some ms)
  with placed_some_matchers [OF Some _ old] assms(1) show ?thesis by simp
qed

lemma form_fields_return:
  assumes f: "f = (form_to_fields old g)\<lparr>af_matchers := m, af_object_matchers := om\<rparr>"
    and ms: "form_matchers f = Inr (nullish (ff_object_matchers g) [])"
    and rs: "map_res am_route_to_form (nullish rs []) = Inr hs"
  shows "\<exists>h. am_route_to_form (Am_Route i f rs) = Inr (Form_Route h (Some hs)) \<and>
    h\<lparr>ff_id := None, ff_name := None\<rparr> = fields_in_force g"
proof -
  have timing: "nullish (override_timing g v) [] = timing_in_force g v"
    "truthy (override_timing g v) \<longleftrightarrow> timing_in_force g v \<noteq> []" for v
    by (cases v; simp add: override_timing_def timing_in_force_def truthy_def)+
  let ?h = "(fields_in_force g)\<lparr>ff_id := i, ff_name := Some (nullish (af_name f) [])\<rparr>"
  have "am_route_to_form (Am_Route i f rs) = Inr (Form_Route ?h (Some hs))"
    using ms rs by (simp add: f timing fields_in_force_def Let_def)
  then show ?thesis by (simp add: fields_in_force_def Let_def)
qed

lemma find_existing_route_node: "find_existing_route ident t = Some e \<Longrightarrow> e \<in> set (am_nodes t)"
  using find_existing_route_SomeD [of ident t e] child_in_am_nodes self_in_am_nodes by blast

lemma form_to_am_route_returns:
  assumes "form_ok source g"
    and "source = grafana_rules_source_name \<Longrightarrow> \<forall>n \<in> set (am_nodes tree). af_matchers (am_fields n) = None"
  shows "\<exists>r h. form_to_am_route source tree g = Inr r \<and> am_route_to_form r = Inr h \<and> strip_form h = form_in_force g"
  using assms
proof (induction source tree g rule: form_to_am_route.induct)
  case (1 source tree g rs)
  define e where "e = find_existing_route (nullish (ff_id g) []) tree"
  define i where "i = (case e of None \<Rightarrow> None | Some r \<Rightarrow> am_id r)"
  define old where "old = (case e of None \<Rightarrow> empty_fields | Some r \<Rightarrow> am_fields r)"
  have io: "(case e of None \<Rightarrow> (None, empty_fields) | Some r \<Rightarrow> (am_id r, am_fields r)) = (i, old)"
    by (simp add: i_def old_def split: option.splits)
  let ?ms = "nullish (ff_object_matchers g) []"
  have ms: "list_all (storable source) ?ms" using "1.prems"(1) by simp
  have "af_matchers old = None" if "source = grafana_rules_source_name"
    using that "1.prems"(2) find_existing_route_node [of "nullish (ff_id g) []" tree]
    by (auto simp: old_def e_def empty_fields_def split: option.splits)
  from placed_matchers [OF ms this] obtain m om where
    placed: "place_matchers source g (form_to_fields old g) =
      Inr ((form_to_fields old g)\<lparr>af_matchers := m, af_object_matchers := om\<rparr>)"
    "form_matchers ((form_to_fields old g)\<lparr>af_matchers := m, af_object_matchers := om\<rparr>) = Inr ?ms"
    by blast
  let ?f = "(form_to_fields old g)\<lparr>af_matchers := m, af_object_matchers := om\<rparr>"
  have children: "\<exists>routes hs. (case rs of None \<Rightarrow> Inr None
      | Some cs \<Rightarrow> bind_res (map_res (form_to_am_route source tree) cs) (\<lambda>x. Inr (Some x))) = Inr routes \<and>
      map_res am_route_to_form (nullish routes []) = Inr hs \<and> map strip_form hs = map form_in_force (nullish rs [])"
  proof (cases rs)
    case (Some cs)
    have "\<exists>r h. form_to_am_route source tree c = Inr r \<and> am_route_to_form r = Inr h \<and> strip_form h = form_in_force c"
      if c: "c \<in> set cs" for c
    proof (rule "1.IH")
      show "e = find_existing_route (nullish (ff_id g) []) tree" by (rule e_def)
      show "(i, old) = (case e of None \<Rightarrow> (None, empty_fields) | Some r \<Rightarrow> (am_id r, am_fields r))"
        by (rule io [symmetric])
      show "form_ok source c" using "1.prems"(1) Some c by (simp add: list_all_iff)
    qed (use Some c "1.prems"(2) in auto)
    then have "\<exists>routes hs. map_res (form_to_am_route source tree) cs = Inr routes \<and>
        map_res am_route_to_form routes = Inr hs \<and> map strip_form hs = map form_in_force cs"
    proof (induction cs)
      case (Cons c cs)
      then obtain r h routes hs where "form_to_am_route source tree c = Inr r" "am_route_to_form r = Inr h"
        "strip_form h = form_in_force c" "map_res (form_to_am_route source tree) cs = Inr routes"
        "map_res am_route_to_form routes = Inr hs" "map strip_form hs = map form_in_force cs"
        by (metis list.set_intros)
      then show ?case by (intro exI [of _ "r # routes"] exI [of _ "h # hs"]) simp
    qed simp
    with Some show ?thesis by auto
  qed simp
  then obtain routes hs where ch: "(case rs of None \<Rightarrow> Inr None
      | Some cs \<Rightarrow> bind_res (map_res (form_to_am_route source tree) cs) (\<lambda>x. Inr (Some x))) = Inr routes"
    "map_res am_route_to_form (nullish routes []) = Inr hs" "map strip_form hs = map form_in_force (nullish rs [])"
    by blast
  obtain h where "am_route_to_form (Am_Route i ?f routes) = Inr (Form_Route h (Some hs))"
    "h\<lparr>ff_id := None, ff_name := None\<rparr> = fields_in_force g"
    using form_fields_return [OF refl placed(2) ch(2), where i = i] by blast
  moreover have "form_to_am_route source tree (Form_Route g rs) = Inr (Am_Route i ?f routes)"
    using ch(1) placed(1) by (simp add: Let_def e_def [symmetric] io)
  ultimately show ?case using ch(3) by auto
qed

section \<open>Properties\<close>

text \<open>
  C4. Round trip of a policy through the API representation: what the form saves, whether with quoted textual
  matchers or with object matchers, loads again as what of the form was in force (identifier and name, which the form
  does not edit, aside): the matchers, the flag to continue, the receiver and the time intervals as they were, with the
  empty value for an absent field; the grouping if the form overrides it, and none otherwise; the timings if it overrides
  them, and none otherwise. A form with every field, whose two flags say whether there is a grouping or timing,
  returns as it was. The matchers must have names that the source can store; for the Grafana source the stored
  policies must be without the deprecated textual matchers.
\<close>

theorem form_round_trip:
  assumes "form_ok source g"
    and "source = grafana_rules_source_name \<Longrightarrow> \<forall>n \<in> set (am_nodes tree). af_matchers (am_fields n) = None"
  shows "\<exists>r h. form_to_am_route source tree g = Inr r \<and> am_route_to_form r = Inr h \<and> strip_form h = form_in_force g \<and>
    (settled g \<longrightarrow> strip_form h = strip_form g)"
  using form_to_am_route_returns [OF assms] settled_in_force [of g] by auto

definition sample_form :: form_route where
  "sample_form = Form_Route
     \<lparr>ff_id = Some ''0-1'', ff_name = Some [], ff_object_matchers =
        Some [\<lparr>mf_name = ''team'', mf_operator = Op_re, mf_value = ''a|b''\<rparr>],
      ff_continue = Some True, ff_receiver = Some ''mail'', ff_override_grouping = Some True,
      ff_group_by = Some [''alertname''], ff_override_timings = Some True, ff_group_wait = Some ''30s'',
      ff_group_interval = Some [], ff_repeat_interval = Some [], ff_mute_time_intervals = Some [],
      ff_active_time_intervals = Some [''office'']\<rparr> (Some [])"

lemma form_round_trip_witness:
  "(\<exists>r h. form_to_am_route ''cortex'' (Am_Route (Some ''0'') empty_fields None) sample_form = Inr r \<and>
      am_route_to_form r = Inr h \<and> strip_form h = strip_form sample_form) \<and>
   (\<exists>r h. form_to_am_route ''grafana'' (Am_Route (Some ''0-1'') empty_fields None) sample_form = Inr r \<and>
      am_route_to_form r = Inr h \<and> strip_form h = strip_form sample_form) \<and>
   (\<exists>r h. form_to_am_route ''grafana'' (Am_Route (Some ''0-1'') empty_fields None) empty_route = Inr r \<and>
      am_route_to_form r = Inr h \<and> strip_form h = form_in_force empty_route)"
proof -
  have ok: "form_ok source sample_form" "form_ok source empty_route" "settled sample_form" for source
    by (simp_all add: sample_form_def empty_route_def settled_fields_def storable_def encodable_def is_line_end_def truthy_def)
  have tree: "\<forall>n \<in> set (am_nodes (Am_Route (Some i) empty_fields None)). af_matchers (am_fields n) = None" for i
    by (simp add: empty_fields_def)
  show ?thesis using form_round_trip [OF ok(1) tree] form_round_trip [OF ok(2) tree] ok(3) by blast
qed

text \<open>
  C21. The stable identifiers of a policy tree that has none yet are pairwise distinct, whatever the hashes are: the
  position prefix separates any two nodes, even when a hash is negative and starts with the separator.
\<close>

theorem stable_identifiers_distinct:
  assumes "\<forall>n \<in> set (am_nodes r). am_id n = None"
  shows "distinct (am_ids (identify_tree json r)) \<and> None \<notin> set (am_ids (identify_tree json r))"
  using assms by (intro identify_tree_distinct) blast

lemma stable_identifiers_distinct_witness:
  "distinct (am_ids (identify_tree (\<lambda>_. ''x'')
      (Am_Route None empty_fields (Some [Am_Route None empty_fields None, Am_Route None empty_fields None]))))"
  using stable_identifiers_distinct
    [of "Am_Route None empty_fields (Some [Am_Route None empty_fields None, Am_Route None empty_fields None])" "\<lambda>_. ''x''"]
  by simp

text \<open>
  The hash of a policy does not depend on the order of its grouping labels, matchers and timing
  names, nor on whether an absent field is written as its empty value; and two texts hash to the same
  identifier exactly when their polynomials in 31 agree modulo \<open>2^32\<close>.
\<close>

theorem hash_route_canonical:
  "(same_config r r' \<longrightarrow> hash_route json r = hash_route json r') \<and>
   (hash_route json r = hash_route json r' \<longleftrightarrow>
     polynomial (json (stabilize_route r)) mod 2 ^ 32 = polynomial (json (stabilize_route r')) mod 2 ^ 32)"
proof
  show "same_config r r' \<longrightarrow> hash_route json r = hash_route json r'"
    by (simp add: hash_route_def stabilize_route_same_config)
  have "hash_route json r = hash_route json r' \<longleftrightarrow>
      hash_string (json (stabilize_route r)) = hash_string (json (stabilize_route r'))"
    using number_text_inj [of 36 "sint (hash_string (json (stabilize_route r)))"
        "sint (hash_string (json (stabilize_route r')))"] sint_inj
    unfolding hash_route_def by auto
  also have "\<dots> \<longleftrightarrow> polynomial (json (stabilize_route r)) mod 2 ^ 32 = polynomial (json (stabilize_route r')) mod 2 ^ 32"
    by (simp add: hash_string_polynomial word_of_int_eq_iff take_bit_eq_mod)
  finally show "hash_route json r = hash_route json r' \<longleftrightarrow>
     polynomial (json (stabilize_route r)) mod 2 ^ 32 = polynomial (json (stabilize_route r')) mod 2 ^ 32" .
qed

lemma hash_route_canonical_witness:
  "hash_route (\<lambda>r. concat (nullish (af_group_by (am_fields r)) [])) (Am_Route None (empty_fields\<lparr>af_group_by := Some [''b'', ''a'']\<rparr>) None) =
   hash_route (\<lambda>r. concat (nullish (af_group_by (am_fields r)) [])) (Am_Route None (empty_fields\<lparr>af_group_by := Some [''a'', ''b''], af_receiver := Some []\<rparr>) (Some []))"
  using hash_route_canonical
    [of "Am_Route None (empty_fields\<lparr>af_group_by := Some [''b'', ''a'']\<rparr>) None"
        "Am_Route None (empty_fields\<lparr>af_group_by := Some [''a'', ''b''], af_receiver := Some []\<rparr>) (Some [])" "\<lambda>r. concat (nullish (af_group_by (am_fields r)) [])"]
  by (simp add: same_config_def reordered_def empty_fields_def jo_wf_def Let_def)

end
