(* ===== verification/Route_Tree.thy ===== *)
theory Route_Tree
  imports Am_Route
begin

text \<open>
  Edits of the notification-policy tree, \<open>public/app/features/alerting/unified/utils/routeTree.ts\<close>,
  and the array insertions they use, \<open>packages/grafana-data/src/utils/arrayUtils.ts\<close>.

  A draft object of \<open>produce\<close> is named by its position in the tree: the search for the reference
  policy returns the positions of the policy and of its parent, and a mutation of a draft is
  \<open>update_at\<close> at its position. The theorems say which nodes each edit adds, removes or
  changes, given the distinct identifiers that \<open>stable_identifiers\<close> provides.
\<close>

section \<open>Immutable array updates\<close>

definition insert_before_immutably :: "'a list \<Rightarrow> 'a \<Rightarrow> int \<Rightarrow> 'a list res" where
  "insert_before_immutably xs x i =
     (if i < 0 \<or> i > int (length xs) then Inl (Js_Error ''Index out of bounds'')
      else Inr (insert_at (nat i) x xs))"

definition insert_after_immutably :: "'a list \<Rightarrow> 'a \<Rightarrow> int \<Rightarrow> 'a list res" where
  "insert_after_immutably xs x i =
     (if i < 0 \<or> i > int (length xs) then Inl (Js_Error ''Index out of bounds'')
      else Inr (insert_at (nat i + 1) x xs))"

section \<open>Replacing and removing\<close>

datatype am_error = Am_Throw js_error | Newer_Configuration string

text \<open>The spread \<open>{...currentRoute, ...newRoute}\<close>: the keys a converted form always has win, the others
  only when the policy they were copied from had them.\<close>

definition or_else :: "'a option \<Rightarrow> 'a option \<Rightarrow> 'a option" where
  "or_else v w = (case v of None \<Rightarrow> w | Some _ \<Rightarrow> v)"

definition overlay_route :: "am_route \<Rightarrow> am_route \<Rightarrow> am_route" where
  "overlay_route current new =
     Am_Route (or_else (am_id new) (am_id current))
       ((am_fields new)\<lparr>af_name := or_else (af_name (am_fields new)) (af_name (am_fields current)),
          af_provenance := or_else (af_provenance (am_fields new)) (af_provenance (am_fields current)),
          af_meta := or_else (af_meta (am_fields new)) (af_meta (am_fields current))\<rparr>)
       (am_routes new)"

function find_and_replace :: "string \<Rightarrow> form_route \<Rightarrow> am_route \<Rightarrow> am_route \<Rightarrow> am_route res" where
  "find_and_replace source form tree (Am_Route i f rs) =
     bind_res (if i = ff_id (fr_fields form)
               then bind_res (form_to_am_route source tree form) (\<lambda>new. Inr (overlay_route (Am_Route i f rs) new))
               else Inr (Am_Route i f rs))
       (\<lambda>updated. case rs of
           None \<Rightarrow> Inr (Am_Route (am_id updated) (am_fields updated) None)
         | Some cs \<Rightarrow> bind_res (map_res (find_and_replace source form tree) cs)
             (\<lambda>cs'. Inr (Am_Route (am_id updated) (am_fields updated) (Some cs'))))"
  by pat_completeness auto
termination
  by (relation "measure (\<lambda>(_, _, _, r). size r)") (auto intro: size_child)

definition lift_error :: "'a res \<Rightarrow> am_error + 'a" where
  "lift_error r = (case r of Inl e \<Rightarrow> Inl (Am_Throw e) | Inr x \<Rightarrow> Inr x)"

definition merge_partial_route :: "string \<Rightarrow> form_route \<Rightarrow> am_route \<Rightarrow> am_error + am_route" where
  "merge_partial_route source form tree =
     (case find_existing_route (nullish (ff_id (fr_fields form)) []) tree of
        None \<Rightarrow> Inl (Newer_Configuration (''No such route with ID '' @ CHR 0x27 # nullish (ff_id (fr_fields form)) ''undefined'' @ [CHR 0x27]))
      | Some _ \<Rightarrow> lift_error (find_and_replace source form tree tree))"

function find_and_omit :: "string \<Rightarrow> am_route \<Rightarrow> am_route" where
  "find_and_omit ident (Am_Route i f rs) =
     Am_Route i f (case rs of None \<Rightarrow> None
       | Some cs \<Rightarrow> Some (map (find_and_omit ident) (filter (\<lambda>c. am_id c \<noteq> Some ident) cs)))"
  by pat_completeness auto
termination
  by (relation "measure (\<lambda>(_, r). size r)") (auto intro: size_child)

definition omit_route :: "string \<Rightarrow> am_route \<Rightarrow> am_route res" where
  "omit_route ident tree =
     (if am_id tree = Some ident then Inl (Js_Error ''You cant remove the root policy'')
      else Inr (find_and_omit ident tree))"

section \<open>Adding next to a reference policy\<close>

text \<open>The position of the reference policy, the one of its parent (its own, for the root) and its
  index there. \<open>at\<close> is the position of the current node.\<close>

type_synonym reference = "nat list \<times> nat list \<times> nat"

function find_in_route :: "string \<Rightarrow> am_route \<Rightarrow> nat list \<Rightarrow> nat \<Rightarrow> nat list \<Rightarrow> reference option"
  and find_in_routes :: "string \<Rightarrow> am_route list \<Rightarrow> nat list \<Rightarrow> nat \<Rightarrow> reference option"
where
  "find_in_route ident (Am_Route i f rs) at index parent =
     (if i = Some ident then Some (at, parent, index)
      else find_in_routes ident (nullish rs []) at 0)"
| "find_in_routes ident [] at index = None"
| "find_in_routes ident (c # cs) at index =
     (case find_in_route ident c (at @ [index]) index at of
        Some r \<Rightarrow> Some r
      | None \<Rightarrow> find_in_routes ident cs at (Suc index))"
  by pat_completeness auto
termination
  by (relation "measure (\<lambda>x. case x of Inl (_, r, _) \<Rightarrow> size r | Inr (_, rs, _) \<Rightarrow> size_list size rs)")
     (auto simp: nullish_def split: option.splits)

definition find_route_in_tree :: "am_route \<Rightarrow> string \<Rightarrow> reference option" where
  "find_route_in_tree tree ident = find_in_route ident tree [] 0 []"

fun update_at :: "nat list \<Rightarrow> (am_route \<Rightarrow> am_route res) \<Rightarrow> am_route \<Rightarrow> am_route res" where
  "update_at [] g r = g r"
| "update_at (k # ks) g (Am_Route i f rs) =
     (case rs of
        None \<Rightarrow> Inl Js_TypeError
      | Some cs \<Rightarrow>
          if k < length cs
          then bind_res (update_at ks g (cs ! k)) (\<lambda>c. Inr (Am_Route i f (Some (cs[k := c]))))
          else Inl Js_TypeError)"

datatype insert_position = Above | Below | Child

definition with_routes :: "am_route \<Rightarrow> am_route list \<Rightarrow> am_route" where
  "with_routes r cs = Am_Route (am_id r) (am_fields r) (Some cs)"

definition insert_route :: "am_route \<Rightarrow> insert_position \<Rightarrow> reference \<Rightarrow> am_route \<Rightarrow> am_route res" where
  "insert_route new position ref tree =
     (let (at, parent, index) = ref in
      case position of
        Child \<Rightarrow> update_at at (\<lambda>r. Inr (with_routes r (am_children r @ [new]))) tree
      | Above \<Rightarrow> update_at parent (\<lambda>p. bind_res (insert_before_immutably (am_children p) new (int index))
                                          (\<lambda>cs. Inr (with_routes p cs))) tree
      | Below \<Rightarrow> update_at parent (\<lambda>p. bind_res (insert_after_immutably (am_children p) new (int index))
                                          (\<lambda>cs. Inr (with_routes p cs))) tree)"

definition add_route :: "string \<Rightarrow> form_route \<Rightarrow> string \<Rightarrow> am_route \<Rightarrow> insert_position \<Rightarrow> am_error + am_route" where
  "add_route source form ident tree position =
     (case form_to_am_route source tree form of
        Inl e \<Rightarrow> Inl (Am_Throw e)
      | Inr new \<Rightarrow>
          (case find_route_in_tree tree ident of
             None \<Rightarrow> Inl (Newer_Configuration (''could not find reference route '' @ dquote # ident @ dquote # '' in tree''))
           | Some ref \<Rightarrow> lift_error (insert_route new position ref tree)))"

section \<open>Positions and nodes\<close>

fun am_node_at :: "am_route \<Rightarrow> nat list \<Rightarrow> am_route option" where
  "am_node_at r [] = Some r"
| "am_node_at r (k # ks) = (if k < length (am_children r) then am_node_at (am_children r ! k) ks else None)"

abbreviation am_label :: "am_route \<Rightarrow> string option \<times> am_fields" where
  "am_label r \<equiv> (am_id r, am_fields r)"

abbreviation am_flat :: "am_route \<Rightarrow> (string option \<times> am_fields) list" where
  "am_flat r \<equiv> map am_label (am_nodes r)"

lemma am_flat_simps: "am_flat (Am_Route i f rs) = (i, f) # concat (map am_flat (nullish rs []))"
  by (simp add: map_concat comp_def)

lemma am_node_at_snoc:
  "am_node_at r (ks @ [k]) =
     (case am_node_at r ks of None \<Rightarrow> None
      | Some p \<Rightarrow> if k < length (am_children p) then Some (am_children p ! k) else None)"
  by (induction ks arbitrary: r) auto

lemma am_node_at_prefix: "am_node_at r (ks @ js) = Some n \<Longrightarrow> \<exists>p. am_node_at r ks = Some p"
  by (induction ks arbitrary: r) (auto split: if_splits)

text \<open>An update at an existing position succeeds when the update of the node does; it replaces the
  labels of that node's subtree in the preorder listing.\<close>

lemma update_at_flat:
  assumes "am_node_at t p = Some r"
  shows "\<exists>xs ys. am_flat t = xs @ am_flat r @ ys \<and>
    (\<forall>g r'. g r = Inr r' \<longrightarrow> (\<exists>t'. update_at p g t = Inr t' \<and> am_flat t' = xs @ am_flat r' @ ys \<and>
      am_node_at t' p = Some r'))"
  using assms
proof (induction p arbitrary: t)
  case Nil
  then show ?case by (intro exI [of _ "[]"]) auto
next
  case (Cons k p)
  obtain i f rs where t: "t = Am_Route i f rs" by (cases t)
  with Cons.prems obtain cs where cs: "rs = Some cs" "k < length cs" "am_node_at (cs ! k) p = Some r"
    by (cases rs) (auto split: if_splits)
  from Cons.IH [OF cs(3)] obtain xs ys where
    flat: "am_flat (cs ! k) = xs @ am_flat r @ ys" and
    upd: "\<And>g r'. g r = Inr r' \<Longrightarrow> \<exists>t'. update_at p g (cs ! k) = Inr t' \<and> am_flat t' = xs @ am_flat r' @ ys \<and>
      am_node_at t' p = Some r'" by blast
  let ?b = "(i, f) # concat (map am_flat (take k cs))"
  let ?a = "concat (map am_flat (drop (Suc k) cs))"
  have split: "concat (map am_flat (cs[k := c])) =
      concat (map am_flat (take k cs)) @ am_flat c @ concat (map am_flat (drop (Suc k) cs))" for c
    using cs(2) by (simp add: upd_conv_take_nth_drop del: map_map)
  have "am_flat t = (?b @ xs) @ am_flat r @ (ys @ ?a)"
    using split [of "cs ! k"] flat by (simp add: t cs(1) am_flat_simps del: am_nodes.simps)
  moreover have "\<exists>t'. update_at (k # p) g t = Inr t' \<and> am_flat t' = (?b @ xs) @ am_flat r' @ (ys @ ?a) \<and>
      am_node_at t' (k # p) = Some r'" if g: "g r = Inr r'" for g r'
  proof -
    obtain c where c: "update_at p g (cs ! k) = Inr c" "am_flat c = xs @ am_flat r' @ ys" "am_node_at c p = Some r'"
      using upd [of g r', OF g] by blast
    have "update_at (k # p) g t = Inr (Am_Route i f (Some (cs[k := c])))"
      using cs c by (simp add: t)
    moreover have "am_flat (Am_Route i f (Some (cs[k := c]))) = (?b @ xs) @ am_flat r' @ (ys @ ?a)"
      using split [of c] c(2) by (simp add: am_flat_simps del: am_nodes.simps)
    ultimately show ?thesis using cs c(3) by simp
  qed
  ultimately show ?case by blast
qed

section \<open>The reference policy\<close>

lemma find_in_None:
  "find_in_route ident r at index parent = None \<longleftrightarrow> Some ident \<notin> set (am_ids r)"
  "find_in_routes ident rs at index = None \<longleftrightarrow> (\<forall>r \<in> set rs. Some ident \<notin> set (am_ids r))"
  by (induction ident r at index parent and ident rs at index rule: find_in_route_find_in_routes.induct)
     (auto split: option.splits)

lemma find_in_Some:
  "find_in_route ident r at index parent = Some (pos, ppos, k) \<Longrightarrow>
    \<exists>p n. pos = at @ p \<and> am_node_at r p = Some n \<and> am_id n = Some ident \<and>
      (if p = [] then ppos = parent \<and> k = index else ppos = at @ butlast p \<and> k = last p)"
  "find_in_routes ident rs at index = Some (pos, ppos, k) \<Longrightarrow>
    \<exists>m p n. m < length rs \<and> pos = at @ (index + m) # p \<and> am_node_at (rs ! m) p = Some n \<and> am_id n = Some ident \<and>
      ppos @ [k] = pos"
proof (induction ident r at index parent and ident rs at index rule: find_in_route_find_in_routes.induct)
  case (1 ident i f rs at index parent)
  show ?case
  proof (cases "i = Some ident")
    case True
    with 1 show ?thesis by auto
  next
    case False
    with 1 obtain m p n where m: "m < length (nullish rs [])" "pos = at @ m # p"
      "am_node_at (nullish rs [] ! m) p = Some n" "am_id n = Some ident" "ppos @ [k] = pos"
      by auto
    then have "ppos = at @ butlast (m # p)" "k = last (m # p)"
      by (metis butlast_append butlast_snoc list.discI, metis last_appendR last_snoc list.discI)
    with m show ?thesis by (intro exI [of _ "m # p"] exI [of _ n]) simp
  qed
next
  case (3 ident c cs at index)
  show ?case
  proof (cases "find_in_route ident c (at @ [index]) index at")
    case None
    with 3 obtain m p n where "m < length cs" "pos = at @ (Suc index + m) # p"
      "am_node_at (cs ! m) p = Some n" "am_id n = Some ident" "ppos @ [k] = pos"
      by auto
    then show ?thesis by (intro exI [of _ "Suc m"] exI [of _ p] exI [of _ n]) simp
  next
    case (Some x)
    then have "find_in_route ident c (at @ [index]) index at = Some (pos, ppos, k)"
      using 3 by simp
    with 3 obtain p n where p: "pos = (at @ [index]) @ p" "am_node_at c p = Some n" "am_id n = Some ident"
      "if p = [] then ppos = at \<and> k = index else ppos = (at @ [index]) @ butlast p \<and> k = last p"
      by blast
    then have "ppos @ [k] = pos" by (auto split: if_splits)
    with p show ?thesis by (intro exI [of _ 0] exI [of _ p] exI [of _ n]) simp
  qed
qed simp

lemma find_route_in_tree_SomeD:
  assumes "find_route_in_tree t ident = Some (pos, ppos, k)"
  shows "\<exists>n. am_node_at t pos = Some n \<and> am_id n = Some ident \<and>
    (if pos = [] then ppos = [] \<and> k = 0 else pos = ppos @ [k])"
  using find_in_Some(1) [OF assms [unfolded find_route_in_tree_def]] by (auto split: if_splits)

lemma find_route_in_tree_None: "find_route_in_tree t ident = None \<longleftrightarrow> Some ident \<notin> set (am_ids t)"
  by (simp add: find_route_in_tree_def find_in_None)

section \<open>Adding\<close>

lemma am_flat_with_routes: "am_flat (with_routes r cs) = am_label r # concat (map am_flat cs)"
  by (simp add: with_routes_def map_concat comp_def)

lemma am_flat_children: "am_flat r = am_label r # concat (map am_flat (am_children r))"
  by (cases r) (simp add: map_concat comp_def)

text \<open>The update of a node that inserts a child.\<close>

lemma update_at_insert:
  assumes p: "am_node_at t p = Some r" and k: "k \<le> length (am_children r)"
    and g: "g r = Inr (with_routes r (insert_at k new (am_children r)))"
  shows "\<exists>t' xs ys. update_at p g t = Inr t' \<and> am_flat t = xs @ ys \<and> am_flat t' = xs @ am_flat new @ ys \<and>
    am_node_at t' (p @ [k]) = Some new"
proof -
  let ?r = "with_routes r (insert_at k new (am_children r))"
  let ?b = "am_label r # concat (map am_flat (take k (am_children r)))"
  let ?a = "concat (map am_flat (drop k (am_children r)))"
  have "concat (map am_flat (am_children r)) =
      concat (map am_flat (take k (am_children r))) @ concat (map am_flat (drop k (am_children r)))"
    by (metis append_take_drop_id concat_append map_append)
  then have r: "am_flat r = ?b @ ?a" using am_flat_children [of r] by simp
  have r': "am_flat ?r = ?b @ am_flat new @ ?a"
    by (simp add: am_flat_with_routes insert_at_def del: map_map)
  obtain xs ys where flat: "am_flat t = xs @ am_flat r @ ys" and
    upd: "\<And>g r'. g r = Inr r' \<Longrightarrow> \<exists>t'. update_at p g t = Inr t' \<and> am_flat t' = xs @ am_flat r' @ ys \<and> am_node_at t' p = Some r'"
    using update_at_flat [OF p] by blast
  obtain t' where t': "update_at p g t = Inr t'" "am_flat t' = xs @ am_flat ?r @ ys" "am_node_at t' p = Some ?r"
    using upd [of g ?r, OF g] by blast
  have "am_node_at t' (p @ [k]) = Some new"
    using t'(3) k by (simp add: am_node_at_snoc with_routes_def nth_insert_at_same)
  with t' flat r r' show ?thesis
    by (intro exI [of _ t'] exI [of _ "xs @ ?b"] exI [of _ "?a @ ys"]) simp
qed

text \<open>Where the new policy goes: behind the children of the reference, or before or after it among its
  siblings. The root counts as its own parent's first child.\<close>

definition new_position :: "insert_position \<Rightarrow> nat list \<Rightarrow> am_route \<Rightarrow> nat list" where
  "new_position position pos n =
     (case position of
        Child \<Rightarrow> pos @ [length (am_children n)]
      | Above \<Rightarrow> if pos = [] then [0] else pos
      | Below \<Rightarrow> if pos = [] then [min 1 (length (am_children n))] else butlast pos @ [Suc (last pos)])"

lemma insert_at_past: "length xs \<le> i \<Longrightarrow> insert_at i x xs = insert_at (length xs) x xs"
  by (simp add: insert_at_def)

lemma insert_route_spec:
  assumes find: "find_route_in_tree t ident = Some (pos, ppos, k)"
  shows "\<exists>n t' xs ys. am_node_at t pos = Some n \<and> am_id n = Some ident \<and>
    insert_route new position (pos, ppos, k) t = Inr t' \<and> am_flat t = xs @ ys \<and> am_flat t' = xs @ am_flat new @ ys \<and>
    am_node_at t' (new_position position pos n) = Some new"
proof -
  obtain n where n: "am_node_at t pos = Some n" "am_id n = Some ident"
    and place: "if pos = [] then ppos = [] \<and> k = 0 else pos = ppos @ [k]"
    using find_route_in_tree_SomeD [OF find] by blast
  obtain q where q: "am_node_at t ppos = Some q" and kq: "pos \<noteq> [] \<Longrightarrow> k < length (am_children q)"
    and root: "pos = [] \<Longrightarrow> q = n"
    using n place by (cases "pos = []") (auto simp: am_node_at_snoc split: option.splits if_splits)
  have k: "k \<le> length (am_children q)" using kq place by (cases "pos = []") auto
  have "\<exists>t' xs ys. insert_route new position (pos, ppos, k) t = Inr t' \<and> am_flat t = xs @ ys \<and>
      am_flat t' = xs @ am_flat new @ ys \<and> am_node_at t' (new_position position pos n) = Some new"
  proof (cases position)
    case Child
    then show ?thesis
      using update_at_insert [OF n(1) order_refl, of "\<lambda>r. Inr (with_routes r (am_children r @ [new]))" new]
      by (simp add: insert_route_def new_position_def)
  next
    case Above
    then show ?thesis
      using update_at_insert [OF q k, of "\<lambda>p. bind_res (insert_before_immutably (am_children p) new (int k))
          (\<lambda>cs. Inr (with_routes p cs))" new] k place
      by (cases "pos = []") (auto simp: insert_route_def new_position_def insert_before_immutably_def)
  next
    case Below
    let ?k = "min (Suc k) (length (am_children q))"
    have "insert_at (Suc k) new (am_children q) = insert_at ?k new (am_children q)"
      by (cases "Suc k \<le> length (am_children q)") (auto simp: min_def insert_at_past)
    then show ?thesis
      using Below update_at_insert [OF q, of ?k "\<lambda>p. bind_res (insert_after_immutably (am_children p) new (int k))
          (\<lambda>cs. Inr (with_routes p cs))" new] k place kq root
      by (cases "pos = []") (auto simp: insert_route_def new_position_def insert_after_immutably_def min_def
          less_eq_Suc_le split: if_splits)
  qed
  with n show ?thesis by blast
qed

section \<open>Removing\<close>

lemma find_and_omit_children:
  "am_children (find_and_omit ident r) =
     map (find_and_omit ident) (filter (\<lambda>c. am_id c \<noteq> Some ident) (am_children r))"
  "am_label (find_and_omit ident r) = am_label r"
  by (cases r; cases "am_routes r"; simp)+

lemma omit_absent: "am_id r \<noteq> Some ident \<Longrightarrow> Some ident \<notin> set (am_ids (find_and_omit ident r))"
proof (induction ident r rule: find_and_omit.induct)
  case (1 ident i f rs)
  then show ?case by (cases rs) auto
qed

lemma omit_partition:
  "\<exists>subs. (\<forall>s \<in> set subs. am_id s = Some ident \<and> s \<in> set (am_nodes r)) \<and>
     mset (am_flat r) = mset (am_flat (find_and_omit ident r)) + mset (concat (map am_flat subs))"
proof (induction ident r rule: find_and_omit.induct)
  case (1 ident i f rs)
  let ?cs = "nullish rs []"
  let ?keep = "\<lambda>c. am_id c \<noteq> Some ident"
  have flat: "am_flat (find_and_omit ident (Am_Route i f rs)) =
      (i, f) # concat (map am_flat (map (find_and_omit ident) (filter ?keep ?cs)))"
    using am_flat_children [of "find_and_omit ident (Am_Route i f rs)"]
      find_and_omit_children [of ident "Am_Route i f rs"] by (simp del: find_and_omit.simps)
  have IH: "\<exists>subs. (\<forall>s \<in> set subs. am_id s = Some ident \<and> s \<in> set (am_nodes c)) \<and>
      mset (am_flat c) = mset (am_flat (find_and_omit ident c)) + mset (concat (map am_flat subs))"
    if "c \<in> set ?cs" "?keep c" for c
    using that 1 by (cases rs) auto
  have "\<exists>subs. (\<forall>s \<in> set subs. am_id s = Some ident \<and> s \<in> set (concat (map am_nodes cs))) \<and>
      mset (concat (map am_flat cs)) =
        mset (concat (map am_flat (map (find_and_omit ident) (filter ?keep cs)))) + mset (concat (map am_flat subs))"
    if "set cs \<subseteq> set ?cs" for cs
    using that
  proof (induction cs)
    case (Cons c cs)
    then obtain subs where subs: "\<forall>s \<in> set subs. am_id s = Some ident \<and> s \<in> set (concat (map am_nodes cs))"
      "mset (concat (map am_flat cs)) =
        mset (concat (map am_flat (map (find_and_omit ident) (filter ?keep cs)))) + mset (concat (map am_flat subs))"
      by auto
    show ?case
    proof (cases "?keep c")
      case True
      then obtain ss where "\<forall>s \<in> set ss. am_id s = Some ident \<and> s \<in> set (am_nodes c)"
        "mset (am_flat c) = mset (am_flat (find_and_omit ident c)) + mset (concat (map am_flat ss))"
        using IH [of c] Cons.prems by auto
      with subs True show ?thesis by (intro exI [of _ "ss @ subs"]) (auto simp del: map_map)
    next
      case False
      with subs show ?thesis by (intro exI [of _ "c # subs"]) (auto simp del: map_map)
    qed
  qed simp
  from this [OF order_refl] obtain subs where
    "\<forall>s \<in> set subs. am_id s = Some ident \<and> s \<in> set (concat (map am_nodes ?cs))"
    "mset (concat (map am_flat ?cs)) =
      mset (concat (map am_flat (map (find_and_omit ident) (filter ?keep ?cs)))) + mset (concat (map am_flat subs))"
    by blast
  then show ?case
    by (intro exI [of _ subs]) (simp only: flat am_flat_simps mset.simps, auto)
qed

lemma omit_removes_one:
  assumes "distinct (am_ids t)" "Some ident \<in> set (am_ids t)" "am_id t \<noteq> Some ident"
  shows "\<exists>s. s \<in> set (am_nodes t) \<and> am_id s = Some ident \<and>
    mset (am_flat t) = mset (am_flat (find_and_omit ident t)) + mset (am_flat s)"
proof -
  obtain subs where subs: "\<forall>s \<in> set subs. am_id s = Some ident \<and> s \<in> set (am_nodes t)"
    "mset (am_flat t) = mset (am_flat (find_and_omit ident t)) + mset (concat (map am_flat subs))"
    using omit_partition by blast
  have ids: "am_ids r = map fst (am_flat r)" for r by simp
  have "mset (am_ids t) = mset (am_ids (find_and_omit ident t)) + mset (concat (map am_ids subs))"
  proof -
    have "mset (map fst (am_flat t)) = mset (map fst (am_flat (find_and_omit ident t))) +
        mset (map fst (concat (map am_flat subs)))"
      using arg_cong [OF subs(2), of "image_mset fst"] by (simp only: mset_map image_mset_union)
    then show ?thesis by (simp add: map_concat comp_def del: mset_map)
  qed
  then have "count (mset (am_ids t)) (Some ident) = count (mset (concat (map am_ids subs))) (Some ident)"
    using omit_absent [OF assms(3)] by (metis add_0 count_mset_0_iff count_union)
  moreover have "count (mset (am_ids t)) (Some ident) = 1"
    using assms by (simp add: distinct_count_atmost_1)
  moreover have "length subs \<le> count (mset (concat (map am_ids subs))) (Some ident)" 
    "subs = [] \<longleftrightarrow> count (mset (concat (map am_ids subs))) (Some ident) = 0"
  proof -
    have one: "1 \<le> count (mset (am_ids s)) (Some ident)" if "s \<in> set subs" for s
      using subs(1) that self_in_am_nodes [of s] by (metis One_nat_def Suc_leI count_greater_zero_iff image_eqI set_map set_mset_mset)
    then show "length subs \<le> count (mset (concat (map am_ids subs))) (Some ident)"
    proof (induction subs)
      case (Cons a subs)
      then have "1 \<le> count (mset (am_ids a)) (Some ident)" by (meson list.set_intros(1))
      moreover have "length subs \<le> count (mset (concat (map am_ids subs))) (Some ident)"
        using Cons by (meson list.set_intros(2))
      moreover have "count (mset (concat (map am_ids (a # subs)))) (Some ident) =
          count (mset (am_ids a)) (Some ident) + count (mset (concat (map am_ids subs))) (Some ident)"
        by simp
      moreover have "length (a # subs) = Suc (length subs)" by simp
      ultimately show ?case by linarith
    qed simp
    with one show "subs = [] \<longleftrightarrow> count (mset (concat (map am_ids subs))) (Some ident) = 0"
      by (cases subs) auto
  qed
  ultimately have "length subs = 1" by (cases subs) auto
  then obtain s where "subs = [s]" by (cases subs) auto
  with subs show ?thesis by auto
qed

section \<open>Replacing\<close>

text \<open>Changing the labels of a tree and nothing else.\<close>

function am_map :: "(string option \<times> am_fields \<Rightarrow> string option \<times> am_fields) \<Rightarrow> am_route \<Rightarrow> am_route" where
  "am_map g (Am_Route i f rs) =
     Am_Route (fst (g (i, f))) (snd (g (i, f))) (case rs of None \<Rightarrow> None | Some cs \<Rightarrow> Some (map (am_map g) cs))"
  by pat_completeness auto
termination
  by (relation "measure (\<lambda>(_, r). size r)") (auto intro: size_child)

definition edited :: "string option \<Rightarrow> am_route \<Rightarrow> string option \<times> am_fields \<Rightarrow> string option \<times> am_fields" where
  "edited ident new l =
     (if fst l = ident then am_label (overlay_route (Am_Route (fst l) (snd l) None) new) else l)"

lemma overlay_label: "am_label (overlay_route (Am_Route i f rs) new) = am_label (overlay_route (Am_Route i f None) new)"
  by (simp add: overlay_route_def)

lemma find_and_replace_ok:
  "form_to_am_route source tree form = Inr new \<Longrightarrow>
   find_and_replace source form tree r = Inr (am_map (edited (ff_id (fr_fields form)) new) r)"
proof (induction source form tree r rule: find_and_replace.induct)
  case (1 source form tree i f rs)
  let ?g = "edited (ff_id (fr_fields form)) new"
  define updated where "updated = (if i = ff_id (fr_fields form) then overlay_route (Am_Route i f rs) new else Am_Route i f rs)"
  have u: "am_label updated = ?g (i, f)"
    using overlay_label [of i f rs new] by (auto simp: updated_def edited_def)
  have u': "am_id updated = fst (?g (i, f))" "am_fields updated = snd (?g (i, f))"
    using arg_cong [OF u, of fst] arg_cong [OF u, of snd] by simp_all
  have bind: "(if i = ff_id (fr_fields form)
       then bind_res (form_to_am_route source tree form) (\<lambda>new. Inr (overlay_route (Am_Route i f rs) new))
       else Inr (Am_Route i f rs)) = Inr updated"
    using "1.prems" by (simp add: updated_def)
  have step: "find_and_replace source form tree (Am_Route i f rs) = (case rs of
      None \<Rightarrow> Inr (Am_Route (am_id updated) (am_fields updated) None)
    | Some cs \<Rightarrow> bind_res (map_res (find_and_replace source form tree) cs)
        (\<lambda>cs'. Inr (Am_Route (am_id updated) (am_fields updated) (Some cs'))))"
    by (simp only: find_and_replace.simps bind bind_res_simps)
  show ?case
  proof (cases rs)
    case None
    with step u' show ?thesis by (simp del: find_and_replace.simps)
  next
    case (Some cs)
    have "map_res (find_and_replace source form tree) cs = Inr (map (am_map ?g) cs)"
      using "1.IH" [OF bind Some _ "1.prems"] by (intro map_res_total) auto
    with step u' Some show ?thesis by (simp del: find_and_replace.simps)
  qed
qed

lemma find_and_replace_absent:
  "ff_id (fr_fields form) \<notin> set (am_ids r) \<Longrightarrow> find_and_replace source form tree r = Inr r"
proof (induction source form tree r rule: find_and_replace.induct)
  case (1 source form tree i f rs)
  have i: "i \<noteq> ff_id (fr_fields form)" using "1.prems" by auto
  have cs: "map_res (find_and_replace source form tree) cs = Inr (map (\<lambda>c. c) cs)" if rs: "rs = Some cs" for cs
  proof (rule map_res_total)
    fix c assume c: "c \<in> set cs"
    then have "ff_id (fr_fields form) \<notin> set (am_ids c)" using "1.prems" rs by auto
    then show "find_and_replace source form tree c = Inr c"
      using "1.IH" [of "Am_Route i f rs" cs c] i rs c by simp
  qed
  show ?case using i cs by (cases rs) auto
qed

lemma find_and_replace_throws:
  "form_to_am_route source tree form = Inl e \<Longrightarrow> ff_id (fr_fields form) \<in> set (am_ids r) \<Longrightarrow>
   find_and_replace source form tree r = Inl e"
proof (induction source form tree r rule: find_and_replace.induct)
  case (1 source form tree i f rs)
  show ?case
  proof (cases "i = ff_id (fr_fields form)")
    case False
    with "1.prems" obtain cs where cs: "rs = Some cs" "\<exists>c \<in> set cs. ff_id (fr_fields form) \<in> set (am_ids c)"
      by (cases rs) auto
    have "map_res (find_and_replace source form tree) ds = Inl e"
      if "set ds \<subseteq> set cs" "\<exists>c \<in> set ds. ff_id (fr_fields form) \<in> set (am_ids c)" for ds
      using that
    proof (induction ds)
      case (Cons d ds)
      show ?case
      proof (cases "ff_id (fr_fields form) \<in> set (am_ids d)")
        case True
        then have "find_and_replace source form tree d = Inl e"
          using "1.IH" [OF _ cs(1) _ "1.prems"(1) True] False Cons.prems(1) by simp
        then show ?thesis by simp
      next
        case False
        then have "map_res (find_and_replace source form tree) ds = Inl e"
          using Cons by auto
        then show ?thesis using find_and_replace_absent [OF False] by simp
      qed
    qed simp
    with cs False show ?thesis by simp
  qed (use "1.prems" in simp)
qed

section \<open>Properties\<close>

text \<open>
  C5. Saving an edited policy: it fails as outdated exactly when the identifier is not in the tree,
  it throws exactly what converting the form throws, and otherwise the result is the same tree, every
  node in its place, with the fields of the nodes that have the identifier replaced by the form's.
\<close>

theorem merge_partial_route_edits:
  assumes "ff_id (fr_fields form) = Some ident"
  shows "(Some ident \<notin> set (am_ids t) \<longrightarrow> (\<exists>msg. merge_partial_route source form t = Inl (Newer_Configuration msg))) \<and>
    (Some ident \<in> set (am_ids t) \<longrightarrow> merge_partial_route source form t =
      (case form_to_am_route source t form of
         Inl e \<Rightarrow> Inl (Am_Throw e)
       | Inr new \<Rightarrow> Inr (am_map (edited (Some ident) new) t)))"
proof -
  have "find_existing_route ident t \<noteq> None \<longleftrightarrow> Some ident \<in> set (am_ids t)"
    using find_existing_route_iff [of ident t] by (force simp: image_iff)
  then show ?thesis
    using assms find_and_replace_ok [of source t form _ t] find_and_replace_throws [of source t form _ t]
    by (auto simp: merge_partial_route_def lift_error_def split: option.splits sum.splits)
qed

lemma merge_partial_route_edits_witness:
  "\<exists>new t'. merge_partial_route ''cortex'' sample_form (Am_Route (Some ''0-1'') empty_fields None) = Inr t' \<and>
     t' = am_map (edited (Some ''0-1'') new) (Am_Route (Some ''0-1'') empty_fields None)"
proof -
  obtain new where "form_to_am_route ''cortex'' (Am_Route (Some ''0-1'') empty_fields None) sample_form = Inr new"
    by (simp add: sample_form_def place_matchers_def grafana_rules_source_name_def)
  moreover have "ff_id (fr_fields sample_form) = Some ''0-1''" by (simp add: sample_form_def)
  ultimately show ?thesis
    using merge_partial_route_edits [of sample_form "''0-1''" "Am_Route (Some ''0-1'') empty_fields None" "''cortex''"]
    by (intro exI [of _ new] exI [of _ "am_map (edited (Some ''0-1'') new) (Am_Route (Some ''0-1'') empty_fields None)"])
       (simp del: am_map.simps)
qed

text \<open>
  C6. Removing a policy from a tree with distinct identifiers takes away exactly that node and what
  is nested under it (the node count the confirmation dialog announces), and the root is refused.
\<close>

theorem omit_route_removes_subtree:
  assumes "distinct (am_ids t)" and "Some ident \<in> set (am_ids t)"
  shows "(am_id t = Some ident \<longrightarrow> (\<exists>e. omit_route ident t = Inl e)) \<and>
    (am_id t \<noteq> Some ident \<longrightarrow> (\<exists>t' s. omit_route ident t = Inr t' \<and> s \<in> set (am_nodes t) \<and>
      am_id s = Some ident \<and> mset (am_flat t) = mset (am_flat t') + mset (am_flat s) \<and>
      count_child_routes t = count_child_routes t' + 1 + count_child_routes s))"
proof (cases "am_id t = Some ident")
  case False
  from omit_removes_one [OF assms False] obtain s where s: "s \<in> set (am_nodes t)" "am_id s = Some ident"
    "mset (am_flat t) = mset (am_flat (find_and_omit ident t)) + mset (am_flat s)" by blast
  have "length (am_nodes t) = length (am_nodes (find_and_omit ident t)) + length (am_nodes s)"
    using arg_cong [OF s(3), of size] by simp
  then have "count_child_routes t = count_child_routes (find_and_omit ident t) + 1 + count_child_routes s"
    using count_child_routes_nodes [of t] count_child_routes_nodes [of s]
      count_child_routes_nodes [of "find_and_omit ident t"] by linarith
  with s False show ?thesis by (auto simp: omit_route_def)
qed (simp add: omit_route_def)

definition sample_route_tree :: am_route where
  "sample_route_tree = Am_Route (Some ''0'') empty_fields (Some
     [Am_Route (Some ''1'') empty_fields (Some [Am_Route (Some ''2'') empty_fields None]),
      Am_Route (Some ''3'') empty_fields None])"

lemma omit_route_removes_subtree_witness:
  "\<exists>t'. omit_route ''1'' sample_route_tree = Inr t' \<and> count_child_routes t' = 1"
proof -
  have "distinct (am_ids sample_route_tree)" "Some ''1'' \<in> set (am_ids sample_route_tree)"
    by (simp_all add: sample_route_tree_def)
  from omit_route_removes_subtree [OF this] obtain t' s where
    "omit_route ''1'' sample_route_tree = Inr t'" "s \<in> set (am_nodes sample_route_tree)" "am_id s = Some ''1''"
    "count_child_routes sample_route_tree = count_child_routes t' + 1 + count_child_routes s"
    by (auto simp: sample_route_tree_def)
  then show ?thesis by (auto simp: sample_route_tree_def)
qed

text \<open>
  C7. Adding a policy next to a reference policy succeeds whenever the form converts and the
  reference is in the tree; the new policy and its children appear contiguously in the preorder of
  the policies, nothing else changes, and it stands where the position says (below the last sibling
  and above the first included, the root counting as its own first child).
\<close>

theorem add_route_inserts:
  assumes "form_to_am_route source t form = Inr new" and "Some ident \<in> set (am_ids t)"
  shows "\<exists>t' pos n xs ys. add_route source form ident t position = Inr t' \<and>
    am_node_at t pos = Some n \<and> am_id n = Some ident \<and>
    am_node_at t' (new_position position pos n) = Some new \<and>
    am_flat t = xs @ ys \<and> am_flat t' = xs @ am_flat new @ ys"
proof -
  obtain pos ppos k where find: "find_route_in_tree t ident = Some (pos, ppos, k)"
    using assms(2) find_route_in_tree_None [of t ident] by (cases "find_route_in_tree t ident") auto
  from insert_route_spec [OF find, of new position] obtain n t' xs ys where
    "am_node_at t pos = Some n" "am_id n = Some ident" "insert_route new position (pos, ppos, k) t = Inr t'"
    "am_flat t = xs @ ys" "am_flat t' = xs @ am_flat new @ ys" "am_node_at t' (new_position position pos n) = Some new"
    by blast
  then show ?thesis
    using assms(1) find
    by (intro exI [of _ t'] exI [of _ pos] exI [of _ n] exI [of _ xs] exI [of _ ys])
       (simp add: add_route_def lift_error_def)
qed

lemma add_route_inserts_witness:
  "\<exists>t' new. add_route ''cortex'' sample_form ''3'' sample_route_tree Below = Inr t' \<and>
     am_node_at t' [2] = Some new \<and> af_receiver (am_fields new) = Some ''mail''"
proof -
  obtain new where new: "form_to_am_route ''cortex'' sample_route_tree sample_form = Inr new"
    "af_receiver (am_fields new) = Some ''mail''"
    by (simp add: sample_form_def sample_route_tree_def place_matchers_def grafana_rules_source_name_def form_to_fields_def)
  have "Some ''3'' \<in> set (am_ids sample_route_tree)" by (simp add: sample_route_tree_def)
  from add_route_inserts [OF new(1) this, of Below] obtain t' pos n where
    t': "add_route ''cortex'' sample_form ''3'' sample_route_tree Below = Inr t'"
    "am_node_at sample_route_tree pos = Some n" "am_id n = Some ''3''"
    "am_node_at t' (new_position Below pos n) = Some new" by blast
  have "pos = [1]"
    using t'(2,3) by (cases pos; cases "tl pos"; cases "tl (tl pos)") (auto simp: sample_route_tree_def less_Suc_eq nth_Cons' split: if_splits)
  with t' new(2) show ?thesis by (auto simp: new_position_def numeral_2_eq_2)
qed

text \<open>
  The look-up of the policy an edit starts from finds the policy itself only at the root or
  directly below it: for a deeper identifier it returns the direct child of the root that contains it.
\<close>

theorem existing_route_is_shallow:
  assumes "distinct (am_ids t)"
  shows "(\<exists>e. find_existing_route ident t = Some e \<and> am_id e = Some ident) \<longleftrightarrow>
    (\<exists>n. n \<in> set (t # am_children t) \<and> am_id n = Some ident)"
proof
  assume "\<exists>n. n \<in> set (t # am_children t) \<and> am_id n = Some ident"
  then obtain n where n: "n \<in> set (t # am_children t)" "am_id n = Some ident" by blast
  show "\<exists>e. find_existing_route ident t = Some e \<and> am_id e = Some ident"
  proof (cases "am_id t = Some ident")
    case True
    then show ?thesis by (cases t) simp
  next
    case False
    then have n': "n \<in> set (am_children t)" using n by auto
    have "n \<in> set (am_nodes t)"
      using n' by (rule child_in_am_nodes)
    then have "find_existing_route ident t \<noteq> None"
      using n(2) find_existing_route_iff [of ident t] by blast
    then obtain e where e: "find_existing_route ident t = Some e" by blast
    then obtain m where m: "e \<in> set (am_children t)" "m \<in> set (am_nodes e)" "am_id m = Some ident"
      using find_existing_route_SomeD [OF e] False by auto
    have d: "distinct (concat (map am_ids (am_children t)))"
      using assms by (subst (asm) am_nodes_children) (simp add: map_concat comp_def)
    have "e = n"
    proof (rule ccontr)
      assume "e \<noteq> n"
      obtain a where a: "a < length (am_children t)" "e = am_children t ! a" using m(1) by (auto simp: in_set_conv_nth)
      obtain b where b: "b < length (am_children t)" "n = am_children t ! b" using n' by (auto simp: in_set_conv_nth)
      have "Some ident \<in> set (am_ids e)" "Some ident \<in> set (am_ids n)"
        using m own_id_in_am_ids [OF n(2)] by (simp_all add: image_iff) metis
      then have "a = b"
        using distinct_concat_index [OF d a(1) b(1), of "Some ident"] a(2) b(2) by simp
      then show False using \<open>e \<noteq> n\<close> a b by simp
    qed
    with e n(2) show ?thesis by blast
  qed
next
  assume "\<exists>e. find_existing_route ident t = Some e \<and> am_id e = Some ident"
  then show "\<exists>n. n \<in> set (t # am_children t) \<and> am_id n = Some ident"
    using find_existing_route_SomeD [of ident t] by fastforce
qed

lemma existing_route_is_shallow_witness:
  "\<not> (\<exists>e. find_existing_route ''2'' sample_route_tree = Some e \<and> am_id e = Some ''2'')"
  using existing_route_is_shallow [of sample_route_tree "''2''"] by (simp add: sample_route_tree_def)

end
