(* ===== verification/Dag.thy ===== *)
theory Dag
  imports Js_Object
begin

text \<open>
  The directed acyclic graph of \<open>public/app/core/utils/dag.ts\<close>. Nodes and edges are mutable objects
  that refer to each other, so the model has a store: a node or an edge is an address (an index into
  \<open>dg_nodes\<close> or \<open>dg_edges\<close>), and \<open>dg_names\<close> is the record \<open>nodes\<close> of the class \<open>Graph\<close>.

  \<open>link\<close> returns the graph beside its result, because a call that throws at a cycle keeps the edges it
  has made so far. The two graph traversals are total: their termination proofs say why the loops end.
\<close>

record dnode =
  dn_name :: string
  dn_edges :: "nat list"
  dn_inputs :: "nat list"
  dn_outputs :: "nat list"

record dedge =
  de_input :: "nat option"
  de_output :: "nat option"

record dgraph =
  dg_nodes :: "dnode list"
  dg_edges :: "dedge list"
  dg_names :: "nat jobj"

definition empty_graph :: dgraph where
  "empty_graph = \<lparr>dg_nodes = [], dg_edges = [], dg_names = []\<rparr>"

definition node_count :: "dgraph \<Rightarrow> nat" where
  "node_count g = length (dg_nodes g)"

abbreviation node_of :: "dgraph \<Rightarrow> nat \<Rightarrow> dnode" where
  "node_of g n \<equiv> dg_nodes g ! n"

abbreviation edge_of :: "dgraph \<Rightarrow> nat \<Rightarrow> dedge" where
  "edge_of g e \<equiv> dg_edges g ! e"

definition modify_node :: "nat \<Rightarrow> (dnode \<Rightarrow> dnode) \<Rightarrow> dgraph \<Rightarrow> dgraph" where
  "modify_node n f g = g\<lparr>dg_nodes := (dg_nodes g)[n := f (dg_nodes g ! n)]\<rparr>"

section \<open>Edges\<close>

definition link_to :: "nat \<Rightarrow> nat \<Rightarrow> int \<Rightarrow> dgraph \<Rightarrow> dgraph" where
  "link_to e n direction =
     modify_node n (\<lambda>nd.
       let nd = (if direction \<le> 0 then nd\<lparr>dn_inputs := dn_inputs nd @ [e]\<rparr> else nd);
           nd = (if direction \<ge> 0 then nd\<lparr>dn_outputs := dn_outputs nd @ [e]\<rparr> else nd)
       in nd\<lparr>dn_edges := dn_edges nd @ [e]\<rparr>)"

definition unlink_edge :: "nat \<Rightarrow> dgraph \<Rightarrow> dgraph" where
  "unlink_edge e g =
     (case (de_input (edge_of g e), de_output (edge_of g e)) of
        (Some i, Some out) \<Rightarrow>
          modify_node out (\<lambda>nd. nd\<lparr>dn_inputs := remove1 e (dn_inputs nd)\<rparr>)
            (modify_node i (\<lambda>nd. nd\<lparr>dn_outputs := remove1 e (dn_outputs nd)\<rparr>)
              (modify_node out (\<lambda>nd. nd\<lparr>dn_edges := remove1 e (dn_edges nd)\<rparr>)
                (modify_node i (\<lambda>nd. nd\<lparr>dn_edges := remove1 e (dn_edges nd)\<rparr>) g)))
      | _ \<Rightarrow> g)"

definition link_edge :: "nat \<Rightarrow> nat \<Rightarrow> nat \<Rightarrow> dgraph \<Rightarrow> dgraph" where
  "link_edge e i out g =
     (let g = unlink_edge e g;
          g = g\<lparr>dg_edges := (dg_edges g)[e := \<lparr>de_input = Some i, de_output = Some out\<rparr>]\<rparr>
      in link_to e out (- 1) (link_to e i 1 g))"

definition create_edge :: "dgraph \<Rightarrow> nat \<times> dgraph" where
  "create_edge g = (length (dg_edges g), g\<lparr>dg_edges := dg_edges g @ [\<lparr>de_input = None, de_output = None\<rparr>]\<rparr>)"

section \<open>Nodes\<close>

text \<open>The addresses at the other end of the output and of the input edges. Edges of a graph only refer
  to its nodes; the filter on allocated addresses is what makes the traversals below total.\<close>

definition succs :: "dgraph \<Rightarrow> nat \<Rightarrow> nat list" where
  "succs g n =
     (if n < node_count g
      then filter (\<lambda>m. m < node_count g)
             (concat (map (\<lambda>e. case de_output (edge_of g e) of None \<Rightarrow> [] | Some m \<Rightarrow> [m]) (dn_outputs (node_of g n))))
      else [])"

definition preds :: "dgraph \<Rightarrow> nat \<Rightarrow> nat list" where
  "preds g n =
     (if n < node_count g
      then filter (\<lambda>m. m < node_count g)
             (concat (map (\<lambda>e. case de_input (edge_of g e) of None \<Rightarrow> [] | Some m \<Rightarrow> [m]) (dn_inputs (node_of g n))))
      else [])"

definition name_at :: "dgraph \<Rightarrow> nat option \<Rightarrow> string option" where
  "name_at g n = map_option (\<lambda>m. dn_name (node_of g m)) n"

text \<open>A node is given by its name or as an object.\<close>

datatype endpoint = By_Name string | By_Node nat

fun wanted_name :: "dgraph \<Rightarrow> endpoint \<Rightarrow> string option" where
  "wanted_name g (By_Name name) = (if name = [] then None else Some name)"
| "wanted_name g (By_Node m) = Some (dn_name (node_of g m))"

definition get_edge_from :: "dgraph \<Rightarrow> nat \<Rightarrow> endpoint \<Rightarrow> nat option" where
  "get_edge_from g n from_node =
     (case wanted_name g from_node of
        None \<Rightarrow> None
      | Some name \<Rightarrow> find (\<lambda>e. name_at g (de_input (edge_of g e)) = Some name) (dn_inputs (node_of g n)))"

definition get_edge_to :: "dgraph \<Rightarrow> nat \<Rightarrow> endpoint \<Rightarrow> nat option" where
  "get_edge_to g n to_node =
     (case wanted_name g to_node of
        None \<Rightarrow> None
      | Some name \<Rightarrow> find (\<lambda>e. name_at g (de_output (edge_of g e)) = Some name) (dn_outputs (node_of g n)))"

definition edges_to_remove :: "dgraph \<Rightarrow> nat \<Rightarrow> nat list" where
  "edges_to_remove g n =
     concat (map (\<lambda>p. concat (map (\<lambda>q.
         case get_edge_to g q (By_Name (dn_name (node_of g n))) of None \<Rightarrow> [] | Some e \<Rightarrow> [e]) (preds g p)))
       (preds g n))"

definition optimized_input_edges :: "dgraph \<Rightarrow> nat \<Rightarrow> nat list" where
  "optimized_input_edges g n = filter (\<lambda>e. e \<notin> set (edges_to_remove g n)) (dn_inputs (node_of g n))"

section \<open>Graphs\<close>

definition create_node :: "string \<Rightarrow> dgraph \<Rightarrow> nat \<times> dgraph" where
  "create_node name g =
     (let n = length (dg_nodes g) in
      (n, g\<lparr>dg_nodes := dg_nodes g @ [\<lparr>dn_name = name, dn_edges = [], dn_inputs = [], dn_outputs = []\<rparr>],
            dg_names := jo_set name n (dg_names g)\<rparr>))"

fun create_nodes :: "string list \<Rightarrow> dgraph \<Rightarrow> nat list \<times> dgraph" where
  "create_nodes [] g = ([], g)"
| "create_nodes (name # names) g =
     (let (n, g1) = create_node name g; (ns, g2) = create_nodes names g1 in (n # ns, g2))"

definition get_node :: "dgraph \<Rightarrow> string \<Rightarrow> nat option" where
  "get_node g name = jo_get (dg_names g) name"

text \<open>The depth-first search of \<open>willCreateCycle\<close>; the head of the list is the top of the stack.\<close>

definition unvisited :: "dgraph \<Rightarrow> nat list \<Rightarrow> nat set" where
  "unvisited g visited = {..<node_count g} - set visited"

definition next_nodes :: "dgraph \<Rightarrow> nat list \<Rightarrow> nat \<Rightarrow> nat list" where
  "next_nodes g visited n = rev (filter (\<lambda>m. m \<notin> set visited) (succs g n))"

lemma finite_unvisited [simp]: "finite (unvisited g visited)"
  by (simp add: unvisited_def)

lemma next_nodes_fresh: "m \<in> set (next_nodes g visited n) \<Longrightarrow> m \<in> unvisited g visited"
  by (auto simp: next_nodes_def unvisited_def succs_def split: if_splits)

function dfs_reaches :: "dgraph \<Rightarrow> nat \<Rightarrow> nat list \<Rightarrow> nat list \<Rightarrow> bool" where
  "dfs_reaches g input [] visited = False"
| "dfs_reaches g input (current # stack) visited =
     (if current = input then True
      else dfs_reaches g input (next_nodes g (current # visited) current @ stack) (current # visited))"
  by pat_completeness auto

text \<open>
  Popping an unvisited node shrinks the set of unvisited nodes. Popping a visited one either pushes
  nothing, and the stack shrinks, or leaves an unvisited node on top.
\<close>

definition dfs_measure :: "dgraph \<Rightarrow> nat list \<Rightarrow> nat list \<Rightarrow> nat" where
  "dfs_measure g stack visited =
     2 * card (unvisited g visited) + (if stack \<noteq> [] \<and> hd stack \<in> unvisited g visited then 0 else 1)"

lemma unvisited_Cons: "unvisited g (c # visited) = unvisited g visited - {c}"
  by (auto simp: unvisited_def)

lemma dfs_measure_step:
  "dfs_measure g (next_nodes g (c # visited) c @ stack) (c # visited) < dfs_measure g (c # stack) visited \<or>
   dfs_measure g (next_nodes g (c # visited) c @ stack) (c # visited) \<le> dfs_measure g (c # stack) visited \<and>
   next_nodes g (c # visited) c = []"
proof (cases "c \<in> unvisited g visited")
  case True
  then have "card (unvisited g (c # visited)) < card (unvisited g visited)"
    unfolding unvisited_Cons by (intro card_Diff1_less) simp
  then show ?thesis by (simp add: dfs_measure_def)
next
  case False
  then have same: "unvisited g (c # visited) = unvisited g visited"
    by (auto simp: unvisited_Cons)
  show ?thesis
  proof (cases "next_nodes g (c # visited) c")
    case Nil
    with False same show ?thesis by (simp add: dfs_measure_def)
  next
    case (Cons m ms)
    then have "m \<in> unvisited g (c # visited)"
      using next_nodes_fresh [of m g "c # visited" c] by simp
    with Cons False same show ?thesis by (simp add: dfs_measure_def)
  qed
qed

termination dfs_reaches
proof (relation "measures [\<lambda>(g, _, stack, visited). dfs_measure g stack visited, \<lambda>(_, _, stack, _). length stack]")
  fix g input current stack visited
  show "((g, input, next_nodes g (current # visited) current @ stack, current # visited),
         g, input, current # stack, visited)
    \<in> measures [\<lambda>(g, _, stack, visited). dfs_measure g stack visited, \<lambda>(_, _, stack, _). length stack]"
    using dfs_measure_step [of g current visited stack] by auto
qed simp

definition will_create_cycle :: "dgraph \<Rightarrow> nat \<Rightarrow> nat \<Rightarrow> bool" where
  "will_create_cycle g input out = (if input = out then True else dfs_reaches g input [out] [])"

definition resolve_endpoint :: "string \<Rightarrow> dgraph \<Rightarrow> endpoint \<Rightarrow> nat res" where
  "resolve_endpoint kind g e =
     (case e of
        By_Node n \<Rightarrow> Inr n
      | By_Name name \<Rightarrow>
          (case get_node g name of
             None \<Rightarrow> Inl (Js_Error (''cannot link '' @ kind @ '' node named '' @ name @ '' since it doesn'' @ [CHR 0x27] @ ''t exist in graph''))
           | Some n \<Rightarrow> Inr n))"

fun link_pairs :: "(nat \<times> nat) list \<Rightarrow> dgraph \<Rightarrow> nat list res \<times> dgraph" where
  "link_pairs [] g = (Inr [], g)"
| "link_pairs ((i, out) # pairs) g =
     (if will_create_cycle g i out
      then (Inl (Js_Error (''cannot link '' @ dn_name (node_of g i) @ '' to '' @ dn_name (node_of g out)
              @ '' since it would create a cycle'')), g)
      else let (e, g1) = create_edge g;
               (r, g2) = link_pairs pairs (link_edge e i out g1)
           in (map_sum id (\<lambda>es. e # es) r, g2))"

definition link :: "endpoint list \<Rightarrow> endpoint list \<Rightarrow> dgraph \<Rightarrow> nat list res \<times> dgraph" where
  "link inputs outputs g =
     (case map_res (resolve_endpoint ''input'' g) inputs of
        Inl e \<Rightarrow> (Inl e, g)
      | Inr ins \<Rightarrow>
          (case map_res (resolve_endpoint ''output'' g) outputs of
             Inl e \<Rightarrow> (Inl e, g)
           | Inr outs \<Rightarrow> link_pairs (concat (map (\<lambda>i. map (Pair i) outs) ins)) g))"

section \<open>Descendants\<close>

text \<open>The nodes a loop adds to the set, in order.\<close>

fun add_fresh :: "nat list \<Rightarrow> nat list \<Rightarrow> nat list" where
  "add_fresh [] ds = []"
| "add_fresh (m # ms) ds = (if m \<in> set ds then add_fresh ms ds else m # add_fresh ms (ds @ [m]))"

lemma set_add_fresh: "set (add_fresh ms ds) = set ms - set ds"
  by (induction ms ds rule: add_fresh.induct) auto

lemma distinct_add_fresh: "distinct (add_fresh ms ds)"
  by (induction ms ds rule: add_fresh.induct) (auto simp: set_add_fresh)

function descendants_recursive :: "dgraph \<Rightarrow> nat list \<Rightarrow> nat list \<Rightarrow> nat list" where
  "descendants_recursive g [] ds = ds"
| "descendants_recursive g (n # ns) ds =
     (let new_descendants = add_fresh (preds g n) ds
      in descendants_recursive g ns (descendants_recursive g new_descendants (ds @ new_descendants)))"
  by pat_completeness auto

lemma preds_allocated: "m \<in> set (preds g n) \<Longrightarrow> m < node_count g"
  by (auto simp: preds_def split: if_splits)

lemma unvisited_grow: "set ds \<subseteq> set es \<Longrightarrow> card (unvisited g es) \<le> card (unvisited g ds)"
  by (intro card_mono) (auto simp: unvisited_def)

lemma unvisited_add_fresh:
  assumes "add_fresh (preds g n) ds \<noteq> []"
  shows "card (unvisited g (ds @ add_fresh (preds g n) ds)) < card (unvisited g ds)"
proof (intro psubset_card_mono psubsetI)
  obtain m where "m \<in> set (add_fresh (preds g n) ds)"
    using assms by (cases "add_fresh (preds g n) ds") auto
  then have "m \<in> unvisited g ds" "m \<notin> unvisited g (ds @ add_fresh (preds g n) ds)"
    using preds_allocated [of m g n] by (auto simp: set_add_fresh unvisited_def)
  then show "unvisited g (ds @ add_fresh (preds g n) ds) \<noteq> unvisited g ds" by blast
qed (auto simp: unvisited_def)

lemma descendants_recursive_grows:
  "descendants_recursive_dom (g, ns, ds) \<Longrightarrow> set ds \<subseteq> set (descendants_recursive g ns ds)"
proof (induction g ns ds rule: descendants_recursive.pinduct)
  case (2 g n ns ds)
  then show ?case by (auto simp: descendants_recursive.psimps Let_def)
qed (simp add: descendants_recursive.psimps)

termination descendants_recursive
proof (relation "measures [\<lambda>(g, _, ds). card (unvisited g ds), \<lambda>(_, ns, _). length ns]")
  fix g n ns ds new
  assume new: "new = add_fresh (preds g n) ds"
  show "((g, new, ds @ new), g, n # ns, ds)
    \<in> measures [\<lambda>(g, _, ds). card (unvisited g ds), \<lambda>(_, ns, _). length ns]"
    using unvisited_add_fresh [of g n ds] by (cases "new = []") (auto simp: new)
  assume "descendants_recursive_dom (g, new, ds @ new)"
  then have "set ds \<subseteq> set (descendants_recursive g new (ds @ new))"
    using descendants_recursive_grows by fastforce
  then show "((g, ns, descendants_recursive g new (ds @ new)), g, n # ns, ds)
    \<in> measures [\<lambda>(g, _, ds). card (unvisited g ds), \<lambda>(_, ns, _). length ns]"
    using unvisited_grow [of ds _ g] by (auto simp: le_less)
qed simp

definition descendants :: "dgraph \<Rightarrow> endpoint list \<Rightarrow> nat list" where
  "descendants g nodes =
     (if nodes = [] then []
      else descendants_recursive g
             (add_fresh (concat (map (\<lambda>e. case e of
                By_Node n \<Rightarrow> [n]
              | By_Name name \<Rightarrow> (case get_node g name of None \<Rightarrow> [] | Some n \<Rightarrow> [n])) nodes)) []) [])"

section \<open>What the searches compute\<close>

definition edge_rel :: "dgraph \<Rightarrow> (nat \<times> nat) set" where
  "edge_rel g = {(a, b). b \<in> set (succs g a)}"

definition pred_rel :: "dgraph \<Rightarrow> (nat \<times> nat) set" where
  "pred_rel g = {(a, b). a \<in> set (preds g b)}"

text \<open>A path that leaves a set closed up to a frontier passes through the frontier.\<close>

lemma path_through_frontier:
  "(x, y) \<in> r\<^sup>* \<Longrightarrow> x \<in> V \<Longrightarrow> y \<notin> V \<Longrightarrow> (\<And>v w. v \<in> V \<Longrightarrow> (v, w) \<in> r \<Longrightarrow> w \<in> V \<union> S) \<Longrightarrow>
   \<exists>s \<in> S. (s, y) \<in> r\<^sup>*"
proof (induction rule: converse_rtrancl_induct)
  case (step x z)
  then show ?case by (cases "z \<in> V") blast+
qed simp

lemma dfs_reaches_iff:
  assumes "input \<notin> set visited"
    and "\<And>v w. v \<in> set visited \<Longrightarrow> (v, w) \<in> edge_rel g \<Longrightarrow> w \<in> set visited \<union> set stack"
  shows "dfs_reaches g input stack visited \<longleftrightarrow> (\<exists>s \<in> set stack. (s, input) \<in> (edge_rel g)\<^sup>*)"
  using assms
proof (induction g input stack visited rule: dfs_reaches.induct)
  case (2 g input current stack visited)
  show ?case
  proof (cases "current = input")
    case False
    let ?visited = "current # visited"
    let ?stack = "next_nodes g ?visited current @ stack"
    have closed: "w \<in> set ?visited \<union> set ?stack" if "v \<in> set ?visited" "(v, w) \<in> edge_rel g" for v w
      using that "2.prems"(2) [of v w] by (auto simp: next_nodes_def edge_rel_def)
    have "dfs_reaches g input ?stack ?visited \<longleftrightarrow> (\<exists>s \<in> set ?stack. (s, input) \<in> (edge_rel g)\<^sup>*)"
      using False "2.prems"(1) closed by (intro "2.IH") auto
    also have "\<dots> \<longleftrightarrow> (\<exists>s \<in> set (current # stack). (s, input) \<in> (edge_rel g)\<^sup>*)"
    proof
      assume "\<exists>s \<in> set ?stack. (s, input) \<in> (edge_rel g)\<^sup>*"
      then obtain s where s: "s \<in> set ?stack" "(s, input) \<in> (edge_rel g)\<^sup>*" by blast
      show "\<exists>s \<in> set (current # stack). (s, input) \<in> (edge_rel g)\<^sup>*"
      proof (cases "s \<in> set stack")
        case False
        with s(1) have "(current, s) \<in> edge_rel g" by (auto simp: next_nodes_def edge_rel_def)
        with s(2) show ?thesis by (auto intro: converse_rtrancl_into_rtrancl)
      qed (use s in auto)
    next
      assume "\<exists>s \<in> set (current # stack). (s, input) \<in> (edge_rel g)\<^sup>*"
      then consider "(current, input) \<in> (edge_rel g)\<^sup>*" | "\<exists>s \<in> set stack. (s, input) \<in> (edge_rel g)\<^sup>*"
        by auto
      then show "\<exists>s \<in> set ?stack. (s, input) \<in> (edge_rel g)\<^sup>*"
      proof cases
        case 1
        from path_through_frontier [OF 1, of "set ?visited" "set ?stack"] show ?thesis
          using False "2.prems"(1) closed by auto
      qed auto
    qed
    finally show ?thesis using False by simp
  qed auto
qed simp

lemma will_create_cycle_iff: "will_create_cycle g i out \<longleftrightarrow> (out, i) \<in> (edge_rel g)\<^sup>*"
  using dfs_reaches_iff [of i "[]" g "[out]"] by (auto simp: will_create_cycle_def)

lemma descendants_recursive_spec:
  "set (descendants_recursive g ns ds) \<supseteq> set ds \<union> (\<Union>n \<in> set ns. set (preds g n)) \<and>
   (\<forall>x \<in> set (descendants_recursive g ns ds) - set ds. set (preds g x) \<subseteq> set (descendants_recursive g ns ds)) \<and>
   (\<forall>x \<in> set (descendants_recursive g ns ds) - set ds. \<exists>n \<in> set ns. (x, n) \<in> (pred_rel g)\<^sup>+)"
proof (induction g ns ds rule: descendants_recursive.induct)
  case (2 g n ns ds)
  define new where "new = add_fresh (preds g n) ds"
  define r1 where "r1 = descendants_recursive g new (ds @ new)"
  note IH1 = "2.IH"(1) [OF new_def, folded r1_def]
  note IH2 = "2.IH"(2) [OF new_def, folded r1_def]
  have new: "set new = set (preds g n) - set ds" by (simp add: new_def set_add_fresh)
  have r: "descendants_recursive g (n # ns) ds = descendants_recursive g ns r1"
    by (simp add: Let_def new_def r1_def)
  have sub: "set r1 \<subseteq> set (descendants_recursive g ns r1)" using IH2 by blast
  have r1_ds: "set ds \<union> set (preds g n) \<subseteq> set r1" using IH1 new by auto
  have closed1: "set (preds g x) \<subseteq> set r1" if "x \<in> set r1 - set ds" for x
    using that IH1 by (cases "x \<in> set new") auto
  have back1: "(x, n) \<in> (pred_rel g)\<^sup>+" if "x \<in> set r1 - set ds" for x
  proof (cases "x \<in> set new")
    case True
    then show ?thesis using new by (auto simp: pred_rel_def)
  next
    case False
    then have "x \<in> set r1 - set (ds @ new)" using that by simp
    then obtain m where m: "m \<in> set new" "(x, m) \<in> (pred_rel g)\<^sup>+" using IH1 by blast
    then have "(m, n) \<in> pred_rel g" using new by (simp add: pred_rel_def)
    with m show ?thesis by (auto intro: trancl.trancl_into_trancl)
  qed
  have "set ds \<union> (\<Union>n \<in> set (n # ns). set (preds g n)) \<subseteq> set (descendants_recursive g ns r1)"
    using IH2 sub r1_ds by auto
  moreover have "set (preds g x) \<subseteq> set (descendants_recursive g ns r1) \<and> (\<exists>m \<in> set (n # ns). (x, m) \<in> (pred_rel g)\<^sup>+)"
    if x: "x \<in> set (descendants_recursive g ns r1) - set ds" for x
  proof (cases "x \<in> set r1")
    case True
    with x closed1 [of x] back1 [of x] sub show ?thesis by auto
  next
    case False
    with x IH2 show ?thesis by auto
  qed
  ultimately show ?case unfolding r by blast
qed simp

lemma descendants_recursive_set:
  "set (descendants_recursive g ns []) = {x. \<exists>n \<in> set ns. (x, n) \<in> (pred_rel g)\<^sup>+}"
proof
  show "set (descendants_recursive g ns []) \<subseteq> {x. \<exists>n \<in> set ns. (x, n) \<in> (pred_rel g)\<^sup>+}"
    using descendants_recursive_spec [of "[]" g ns] by auto
  have "x \<in> set (descendants_recursive g ns [])" if "(x, n) \<in> (pred_rel g)\<^sup>+" "n \<in> set ns" for x n
    using that
  proof (induction rule: converse_trancl_induct)
    case (base y)
    then show ?case using descendants_recursive_spec [of "[]" g ns] by (auto simp: pred_rel_def)
  next
    case (step y z)
    then show ?case using descendants_recursive_spec [of "[]" g ns] by (auto simp: pred_rel_def)
  qed
  then show "{x. \<exists>n \<in> set ns. (x, n) \<in> (pred_rel g)\<^sup>+} \<subseteq> set (descendants_recursive g ns [])" by blast
qed

section \<open>Well-formed graphs\<close>

definition linked :: "dgraph \<Rightarrow> nat \<Rightarrow> nat \<Rightarrow> nat \<Rightarrow> bool" where
  "linked g e a b \<longleftrightarrow> e < length (dg_edges g) \<and> a < node_count g \<and> b < node_count g \<and>
     edge_of g e = \<lparr>de_input = Some a, de_output = Some b\<rparr>"

text \<open>Both ends of an edge list it exactly once, nothing else does, a name refers to a node of that
  name, and there is no cycle.\<close>

definition graph_consistent :: "dgraph \<Rightarrow> bool" where
  "graph_consistent g \<longleftrightarrow>
     (\<forall>n < node_count g. \<forall>e. e \<in> set (dn_outputs (node_of g n)) \<longleftrightarrow> (\<exists>b. linked g e n b)) \<and>
     (\<forall>n < node_count g. \<forall>e. e \<in> set (dn_inputs (node_of g n)) \<longleftrightarrow> (\<exists>a. linked g e a n)) \<and>
     (\<forall>n < node_count g. distinct (dn_outputs (node_of g n)) \<and> distinct (dn_inputs (node_of g n))) \<and>
     (\<forall>e < length (dg_edges g). \<exists>a b. linked g e a b) \<and>
     (\<forall>name n. get_node g name = Some n \<longrightarrow> n < node_count g \<and> dn_name (node_of g n) = name)"

definition graph_wf :: "dgraph \<Rightarrow> bool" where
  "graph_wf g \<longleftrightarrow> graph_consistent g \<and> acyclic (edge_rel g)"

lemma consistent_outputs:
  "graph_consistent g \<Longrightarrow> n < node_count g \<Longrightarrow> e \<in> set (dn_outputs (node_of g n)) \<longleftrightarrow> (\<exists>b. linked g e n b)"
  by (simp add: graph_consistent_def)

lemma consistent_inputs:
  "graph_consistent g \<Longrightarrow> n < node_count g \<Longrightarrow> e \<in> set (dn_inputs (node_of g n)) \<longleftrightarrow> (\<exists>a. linked g e a n)"
  by (simp add: graph_consistent_def)

lemma consistent_edge: "graph_consistent g \<Longrightarrow> e < length (dg_edges g) \<Longrightarrow> \<exists>a b. linked g e a b"
  by (simp add: graph_consistent_def)

lemma consistent_names:
  "graph_consistent g \<Longrightarrow> get_node g name = Some n \<Longrightarrow> n < node_count g \<and> dn_name (node_of g n) = name"
  by (simp add: graph_consistent_def)

lemma linked_bounds: "linked g e a b \<Longrightarrow> e < length (dg_edges g) \<and> a < node_count g \<and> b < node_count g"
  by (simp add: linked_def)

lemma linked_unique: "linked g e a b \<Longrightarrow> linked g e a' b' \<Longrightarrow> a = a' \<and> b = b'"
  by (simp add: linked_def)

lemma succs_iff:
  "b \<in> set (succs g a) \<longleftrightarrow> a < node_count g \<and> b < node_count g \<and>
     (\<exists>e \<in> set (dn_outputs (node_of g a)). de_output (edge_of g e) = Some b)"
  by (auto simp: succs_def split: option.splits) metis

lemma preds_iff:
  "a \<in> set (preds g b) \<longleftrightarrow> b < node_count g \<and> a < node_count g \<and>
     (\<exists>e \<in> set (dn_inputs (node_of g b)). de_input (edge_of g e) = Some a)"
  by (auto simp: preds_def split: option.splits) metis

lemma linked_ends: "linked g e a b \<Longrightarrow> de_input (edge_of g e) = Some a \<and> de_output (edge_of g e) = Some b"
  by (simp add: linked_def)

lemma edge_rel_linked:
  assumes "graph_consistent g"
  shows "(a, b) \<in> edge_rel g \<longleftrightarrow> (\<exists>e. linked g e a b)"
proof
  assume "(a, b) \<in> edge_rel g"
  then obtain e where e: "a < node_count g" "e \<in> set (dn_outputs (node_of g a))" "de_output (edge_of g e) = Some b"
    by (auto simp: edge_rel_def succs_iff)
  then obtain b' where "linked g e a b'" using consistent_outputs [OF assms] by blast
  with e(3) show "\<exists>e. linked g e a b" using linked_ends by fastforce
next
  assume "\<exists>e. linked g e a b"
  then obtain e where e: "linked g e a b" by blast
  then have "e \<in> set (dn_outputs (node_of g a))"
    using consistent_outputs [OF assms] linked_bounds by blast
  with e show "(a, b) \<in> edge_rel g"
    using linked_bounds [OF e] linked_ends [OF e] by (auto simp: edge_rel_def succs_iff)
qed

lemma pred_rel_linked:
  assumes "graph_consistent g"
  shows "(a, b) \<in> pred_rel g \<longleftrightarrow> (\<exists>e. linked g e a b)"
proof
  assume "(a, b) \<in> pred_rel g"
  then obtain e where e: "b < node_count g" "e \<in> set (dn_inputs (node_of g b))" "de_input (edge_of g e) = Some a"
    by (auto simp: pred_rel_def preds_iff)
  then obtain a' where "linked g e a' b" using consistent_inputs [OF assms] by blast
  with e(3) show "\<exists>e. linked g e a b" using linked_ends by fastforce
next
  assume "\<exists>e. linked g e a b"
  then obtain e where e: "linked g e a b" by blast
  then have "e \<in> set (dn_inputs (node_of g b))"
    using consistent_inputs [OF assms] linked_bounds by blast
  with e show "(a, b) \<in> pred_rel g"
    using linked_bounds [OF e] linked_ends [OF e] by (auto simp: pred_rel_def preds_iff)
qed

lemma pred_rel_edge_rel: "graph_consistent g \<Longrightarrow> pred_rel g = edge_rel g"
  using edge_rel_linked pred_rel_linked by auto

lemma graph_wf_empty: "graph_wf empty_graph"
  by (simp add: graph_wf_def graph_consistent_def empty_graph_def node_count_def get_node_def jo.get_empty
      edge_rel_def succs_def acyclic_def)

lemma node_create:
  "create_node name g = (m, g') \<Longrightarrow> m = node_count g \<and> node_count g' = Suc (node_count g) \<and>
     dg_edges g' = dg_edges g \<and> (\<forall>n < node_count g. node_of g' n = node_of g n) \<and>
     node_of g' (node_count g) = \<lparr>dn_name = name, dn_edges = [], dn_inputs = [], dn_outputs = []\<rparr> \<and>
     (\<forall>k. get_node g' k = (if k = name then Some (node_count g) else get_node g k))"
  by (auto simp: create_node_def Let_def node_count_def nth_append get_node_def jo_get_set)

lemma create_node_consistent:
  assumes wf: "graph_consistent g" and c: "create_node name g = (m, g')"
  shows "graph_consistent g' \<and> (\<forall>e a b. linked g' e a b \<longleftrightarrow> linked g e a b)"
proof -
  note n = node_create [OF c]
  have linked: "linked g' e a b \<longleftrightarrow> linked g e a b" for e a b
  proof
    assume l: "linked g' e a b"
    then obtain a' b' where l': "linked g e a' b'"
      using consistent_edge [OF wf, of e] n by (auto simp: linked_def)
    with l have "a = a'" "b = b'" using n by (auto simp: linked_def)
    with l' show "linked g e a b" by simp
  qed (use n in \<open>simp add: linked_def\<close>)
  have none: "\<not> linked g e (node_count g) b" "\<not> linked g e a (node_count g)" for e a b
    by (simp_all add: linked_def)
  have "(\<forall>e. e \<in> set (dn_outputs (node_of g' k)) \<longleftrightarrow> (\<exists>b. linked g e k b)) \<and>
      (\<forall>e. e \<in> set (dn_inputs (node_of g' k)) \<longleftrightarrow> (\<exists>a. linked g e a k)) \<and>
      distinct (dn_outputs (node_of g' k)) \<and> distinct (dn_inputs (node_of g' k))" if k: "k < node_count g'" for k
  proof (cases "k < node_count g")
    case True
    then have "node_of g' k = node_of g k" using n by simp
    with True wf show ?thesis
      by (simp add: consistent_outputs [OF wf True] consistent_inputs [OF wf True]) (simp add: graph_consistent_def)
  next
    case False
    then have "k = node_count g" using k n by simp
    then show ?thesis using n none by simp
  qed
  moreover have "\<forall>e < length (dg_edges g'). \<exists>a b. linked g e a b"
    using n consistent_edge [OF wf] by simp
  moreover have "k < node_count g' \<and> dn_name (node_of g' k) = nm" if "get_node g' nm = Some k" for nm k
    using that n consistent_names [OF wf, of nm k] by (auto split: if_splits)
  ultimately show ?thesis unfolding graph_consistent_def linked by blast
qed

lemma graph_wf_create_node:
  assumes wf: "graph_wf g" and c: "create_node name g = (m, g')"
  shows "graph_wf g'"
proof -
  have "graph_consistent g" using wf by (simp add: graph_wf_def)
  from create_node_consistent [OF this c] have c': "graph_consistent g'"
    and l: "\<And>e a b. linked g' e a b \<longleftrightarrow> linked g e a b" by blast+
  have "edge_rel g' = edge_rel g"
    using edge_rel_linked [OF c'] edge_rel_linked [OF \<open>graph_consistent g\<close>] l by auto
  with c' wf show ?thesis by (simp add: graph_wf_def)
qed

section \<open>Linking keeps a graph well-formed\<close>

lemma link_fresh_edge:
  assumes c: "create_edge g = (e, g1)" and i: "i < node_count g" and out: "out < node_count g" and ne: "i \<noteq> out"
  defines "g2 \<equiv> link_edge e i out g1"
  shows "e = length (dg_edges g)" and "node_count g2 = node_count g"
    and "dg_edges g2 = dg_edges g @ [\<lparr>de_input = Some i, de_output = Some out\<rparr>]"
    and "get_node g2 name = get_node g name"
    and "dn_name (node_of g2 n) = dn_name (node_of g n)"
    and "dn_outputs (node_of g2 n) = dn_outputs (node_of g n) @ (if n = i then [e] else [])"
    and "dn_inputs (node_of g2 n) = dn_inputs (node_of g n) @ (if n = out then [e] else [])"
proof -
  let ?g = "g\<lparr>dg_edges := dg_edges g @ [\<lparr>de_input = None, de_output = None\<rparr>]\<rparr>"
  have g1: "g1 = ?g" and e: "e = length (dg_edges g)" using c by (auto simp: create_edge_def)
  then have un: "unlink_edge e g1 = g1" by (simp add: unlink_edge_def nth_append)
  have g2: "g2 = link_to e out (- 1) (link_to e i 1
      (g1\<lparr>dg_edges := (dg_edges g1)[e := \<lparr>de_input = Some i, de_output = Some out\<rparr>]\<rparr>))"
    by (simp add: g2_def link_edge_def un)
  have len: "i < length (dg_nodes g)" "out < length (dg_nodes g)"
    using i out by (simp_all add: node_count_def)
  show "e = length (dg_edges g)" by (rule e)
  show "node_count g2 = node_count g" "get_node g2 name = get_node g name"
    "dg_edges g2 = dg_edges g @ [\<lparr>de_input = Some i, de_output = Some out\<rparr>]"
    by (simp_all add: g2 g1 e link_to_def modify_node_def node_count_def get_node_def)
  show "dn_name (node_of g2 n) = dn_name (node_of g n)"
    using len by (cases "n = i"; cases "n = out") (simp_all add: g2 g1 link_to_def modify_node_def Let_def nth_list_update)
  show "dn_outputs (node_of g2 n) = dn_outputs (node_of g n) @ (if n = i then [e] else [])"
    using len ne by (cases "n = i"; cases "n = out") (simp_all add: g2 g1 link_to_def modify_node_def Let_def nth_list_update)
  show "dn_inputs (node_of g2 n) = dn_inputs (node_of g n) @ (if n = out then [e] else [])"
    using len ne by (cases "n = i"; cases "n = out") (simp_all add: g2 g1 link_to_def modify_node_def Let_def nth_list_update)
qed

lemma link_fresh_consistent:
  assumes wf: "graph_consistent g" and c: "create_edge g = (e, g1)"
    and i: "i < node_count g" and out: "out < node_count g" and ne: "i \<noteq> out"
  shows "graph_consistent (link_edge e i out g1)"
    and "linked (link_edge e i out g1) e' a b \<longleftrightarrow> linked g e' a b \<or> e' = length (dg_edges g) \<and> a = i \<and> b = out"
proof -
  let ?g = "link_edge e i out g1"
  note f = link_fresh_edge [OF c i out ne]
  have l: "linked ?g e' a b \<longleftrightarrow> linked g e' a b \<or> e' = length (dg_edges g) \<and> a = i \<and> b = out" for e' a b
    using i out by (auto simp: linked_def f(2,3) nth_append less_Suc_eq)
  then show "linked ?g e' a b \<longleftrightarrow> linked g e' a b \<or> e' = length (dg_edges g) \<and> a = i \<and> b = out" .
  have new: "e \<notin> set (dn_outputs (node_of g n))" "e \<notin> set (dn_inputs (node_of g n))" if "n < node_count g" for n
    using consistent_outputs [OF wf that, of e] consistent_inputs [OF wf that, of e] f(1) by (auto simp: linked_def)
  have "x \<in> set (dn_outputs (node_of ?g n)) \<longleftrightarrow> (\<exists>b. linked ?g x n b)" if "n < node_count g" for n x
    using consistent_outputs [OF wf that, of x] by (auto simp: f(6) l f(1) [symmetric])
  moreover have "x \<in> set (dn_inputs (node_of ?g n)) \<longleftrightarrow> (\<exists>a. linked ?g x a n)" if "n < node_count g" for n x
    using consistent_inputs [OF wf that, of x] by (auto simp: f(7) l f(1) [symmetric])
  moreover have "distinct (dn_outputs (node_of ?g n)) \<and> distinct (dn_inputs (node_of ?g n))" if "n < node_count g" for n
  proof -
    have "distinct (dn_outputs (node_of g n))" "distinct (dn_inputs (node_of g n))"
      using wf that by (simp_all add: graph_consistent_def)
    then show ?thesis using new [OF that] ne by (cases "n = i"; cases "n = out") (simp_all add: f(6,7))
  qed
  moreover have "\<exists>a b. linked ?g x a b" if "x < length (dg_edges ?g)" for x
    using that consistent_edge [OF wf, of x] by (auto simp: f(3) l less_Suc_eq)
  moreover have "n < node_count g \<and> dn_name (node_of ?g n) = name" if "get_node ?g name = Some n" for name n
    using that consistent_names [OF wf] by (simp add: f(4,5))
  ultimately show "graph_consistent ?g"
    by (simp add: graph_consistent_def f(2))
qed

lemma link_fresh_wf:
  assumes wf: "graph_wf g" and c: "create_edge g = (e, g1)"
    and i: "i < node_count g" and out: "out < node_count g" and no: "\<not> will_create_cycle g i out"
  shows "graph_wf (link_edge e i out g1) \<and> edge_rel (link_edge e i out g1) = insert (i, out) (edge_rel g)"
proof -
  have ne: "i \<noteq> out" using no by (auto simp: will_create_cycle_def)
  have g: "graph_consistent g" "acyclic (edge_rel g)" using wf by (auto simp: graph_wf_def)
  note f = link_fresh_consistent [OF g(1) c i out ne]
  have "edge_rel (link_edge e i out g1) = insert (i, out) (edge_rel g)"
    using edge_rel_linked [OF f(1)] edge_rel_linked [OF g(1)] by (auto simp: f(2))
  moreover have "acyclic (insert (i, out) (edge_rel g))"
    using g(2) no by (simp add: acyclic_insert will_create_cycle_iff)
  ultimately show ?thesis using f(1) by (simp add: graph_wf_def)
qed

lemma link_pairs_spec:
  assumes "graph_wf g" and "\<And>p. p \<in> set pairs \<Longrightarrow> fst p < node_count g \<and> snd p < node_count g"
    and "link_pairs pairs g = (r, g')"
  shows "graph_wf g' \<and> node_count g' = node_count g \<and> (\<forall>name. get_node g' name = get_node g name) \<and>
    (\<forall>n. dn_name (node_of g' n) = dn_name (node_of g n)) \<and>
    (\<exists>k \<le> length pairs. edge_rel g' = edge_rel g \<union> set (take k pairs) \<and>
      ((\<exists>es. r = Inr es) \<longleftrightarrow> k = length pairs))"
  using assms
proof (induction pairs g arbitrary: r rule: link_pairs.induct)
  case (2 i out pairs g)
  show ?case
  proof (cases "will_create_cycle g i out")
    case True
    with 2 show ?thesis by auto
  next
    case False
    obtain e g1 where c: "create_edge g = (e, g1)" by fastforce
    let ?g = "link_edge e i out g1"
    obtain r1 where r1: "link_pairs pairs ?g = (r1, g')" "r = map_sum id (\<lambda>es. e # es) r1"
      using "2.prems"(3) False c by (auto split: prod.splits)
    have io: "i < node_count g" "out < node_count g" using "2.prems"(2) [of "(i, out)"] by simp_all
    have ne: "i \<noteq> out" using False by (auto simp: will_create_cycle_def)
    note f = link_fresh_edge [OF c io ne] and w = link_fresh_wf [OF "2.prems"(1) c io False]
    have "graph_wf g' \<and> node_count g' = node_count ?g \<and> (\<forall>name. get_node g' name = get_node ?g name) \<and>
      (\<forall>n. dn_name (node_of g' n) = dn_name (node_of ?g n)) \<and>
      (\<exists>k \<le> length pairs. edge_rel g' = edge_rel ?g \<union> set (take k pairs) \<and>
        ((\<exists>es. r1 = Inr es) \<longleftrightarrow> k = length pairs))"
      using False c w "2.prems"(2) f(2) r1(1) by (intro "2.IH") auto
    then obtain k where k: "graph_wf g'" "node_count g' = node_count g" "\<forall>name. get_node g' name = get_node g name"
      "\<forall>n. dn_name (node_of g' n) = dn_name (node_of g n)"
      "k \<le> length pairs" "edge_rel g' = insert (i, out) (edge_rel g) \<union> set (take k pairs)"
      "(\<exists>es. r1 = Inr es) \<longleftrightarrow> k = length pairs"
      using f w by auto
    moreover have "(\<exists>es. r = Inr es) \<longleftrightarrow> (\<exists>es. r1 = Inr es)" by (cases r1) (auto simp: r1(2))
    ultimately show ?thesis
      by (intro conjI exI [of _ "Suc k"]) auto
  qed
qed simp

section \<open>Reachable graphs\<close>

text \<open>The graphs a client can build: it names nodes, or passes nodes the graph gave it.\<close>

definition known_endpoint :: "dgraph \<Rightarrow> endpoint \<Rightarrow> bool" where
  "known_endpoint g e \<longleftrightarrow> (case e of By_Node n \<Rightarrow> n < node_count g | By_Name _ \<Rightarrow> True)"

inductive reachable_graph :: "dgraph \<Rightarrow> bool" where
  new: "reachable_graph empty_graph"
| node: "reachable_graph g \<Longrightarrow> create_node name g = (n, g') \<Longrightarrow> reachable_graph g'"
| link: "reachable_graph g \<Longrightarrow> list_all (known_endpoint g) (inputs @ outputs) \<Longrightarrow>
         Dag.link inputs outputs g = (r, g') \<Longrightarrow> reachable_graph g'"

lemma resolve_endpoint_known:
  "graph_wf g \<Longrightarrow> known_endpoint g e \<Longrightarrow> resolve_endpoint kind g e = Inr n \<Longrightarrow> n < node_count g"
  unfolding graph_wf_def using consistent_names [of g]
  by (cases e) (auto simp: resolve_endpoint_def known_endpoint_def split: option.splits)

lemma resolve_all_known:
  assumes "graph_wf g" "list_all (known_endpoint g) es" "map_res (resolve_endpoint kind g) es = Inr ns" "n \<in> set ns"
  shows "n < node_count g"
proof -
  obtain e where "e \<in> set es" "resolve_endpoint kind g e = Inr n"
    using map_res_member [OF assms(3,4)] by blast
  moreover from this have "known_endpoint g e" using assms(2) by (simp add: list_all_iff)
  ultimately show ?thesis using resolve_endpoint_known [OF assms(1)] by blast
qed

lemma link_spec:
  assumes wf: "graph_wf g" and known: "list_all (known_endpoint g) (inputs @ outputs)"
    and run: "link inputs outputs g = (r, g')"
  shows "graph_wf g' \<and> node_count g' = node_count g \<and> (\<forall>name. get_node g' name = get_node g name) \<and>
    (\<forall>n. dn_name (node_of g' n) = dn_name (node_of g n)) \<and> edge_rel g \<subseteq> edge_rel g'"
proof (cases "map_res (resolve_endpoint ''input'' g) inputs")
  case (Inr ins)
  show ?thesis
  proof (cases "map_res (resolve_endpoint ''output'' g) outputs")
    case outs: (Inr outs)
    have "link_pairs (concat (map (\<lambda>i. map (Pair i) outs) ins)) g = (r, g')"
      using run Inr outs by (simp add: link_def)
    moreover have "fst p < node_count g \<and> snd p < node_count g"
      if "p \<in> set (concat (map (\<lambda>i. map (Pair i) outs) ins))" for p
    proof -
      have k: "list_all (known_endpoint g) inputs" "list_all (known_endpoint g) outputs" using known by simp_all
      have "fst p \<in> set ins" "snd p \<in> set outs" using that by auto
      then show ?thesis
        using resolve_all_known [OF wf k(1) Inr] resolve_all_known [OF wf k(2) outs] by blast
    qed
    ultimately show ?thesis using link_pairs_spec [OF wf] by blast
  qed (use run wf Inr in \<open>auto simp: link_def\<close>)
qed (use run wf in \<open>auto simp: link_def\<close>)

lemma reachable_graph_wf: "reachable_graph g \<Longrightarrow> graph_wf g"
proof (induction rule: reachable_graph.induct)
  case new
  show ?case by (rule graph_wf_empty)
next
  case (node g name n g')
  from graph_wf_create_node [OF node.IH node.hyps(2)] show ?case .
next
  case (link g inputs outputs r g')
  from link_spec [OF link.IH link.hyps(2,3)] show ?case by blast
qed

section \<open>Optimised input edges\<close>

lemma finite_edge_rel: "finite (edge_rel g)"
proof -
  have "edge_rel g \<subseteq> {..<node_count g} \<times> {..<node_count g}"
    by (auto simp: edge_rel_def succs_iff)
  then show ?thesis by (rule finite_subset) simp
qed

lemma wf_predecessors: "graph_wf g \<Longrightarrow> wf ((edge_rel g)\<inverse>)"
  by (auto simp: graph_wf_def intro: finite_acyclic_wf_converse finite_edge_rel)

text \<open>The edges that remain when the inputs of \<open>n\<close> are reduced to the optimised ones.\<close>

definition kept_rel :: "dgraph \<Rightarrow> nat \<Rightarrow> (nat \<times> nat) set" where
  "kept_rel g n = {(a, b). \<exists>e. linked g e a b \<and> (b = n \<longrightarrow> e \<in> set (optimized_input_edges g n))}"

lemma removed_edge:
  assumes wf: "graph_wf g" and l: "linked g e a n" and r: "e \<in> set (edges_to_remove g n)"
  shows "\<exists>p. (a, p) \<in> edge_rel g \<and> (p, n) \<in> edge_rel g"
proof -
  have c: "graph_consistent g" using wf by (simp add: graph_wf_def)
  from r obtain p q where p: "p \<in> set (preds g n)" and q: "q \<in> set (preds g p)"
    and e: "get_edge_to g q (By_Name (dn_name (node_of g n))) = Some e"
    by (auto simp: edges_to_remove_def split: option.splits)
  have "e \<in> set (dn_outputs (node_of g q))"
    using e by (auto simp: get_edge_to_def find_Some_iff in_set_conv_nth split: option.splits)
  then obtain b where "linked g e q b"
    using consistent_outputs [OF c, of q e] q by (auto simp: preds_iff)
  with l have "q = a" by (auto dest: linked_unique)
  moreover have "(q, p) \<in> pred_rel g" "(p, n) \<in> pred_rel g" using p q by (simp_all add: pred_rel_def)
  ultimately show ?thesis using pred_rel_edge_rel [OF c] by auto
qed

lemma kept_rel_trancl:
  assumes wf: "graph_wf g"
  shows "(kept_rel g n)\<^sup>+ = (edge_rel g)\<^sup>+"
proof
  have c: "graph_consistent g" and ac: "acyclic (edge_rel g)" using wf by (simp_all add: graph_wf_def)
  have "kept_rel g n \<subseteq> edge_rel g" using edge_rel_linked [OF c] by (auto simp: kept_rel_def)
  then show "(kept_rel g n)\<^sup>+ \<subseteq> (edge_rel g)\<^sup>+" by (rule trancl_mono_subset)
  have into: "(a, n) \<in> (kept_rel g n)\<^sup>+" if "(a, n) \<in> edge_rel g" for a
    using wf_predecessors [OF wf] that
  proof (induction a rule: wf_induct_rule)
    case (less a)
    then obtain e where e: "linked g e a n" using edge_rel_linked [OF c] by auto
    show ?case
    proof (cases "e \<in> set (edges_to_remove g n)")
      case False
      then have "(a, n) \<in> kept_rel g n"
        using e consistent_inputs [OF c] linked_bounds [OF e] by (auto simp: kept_rel_def optimized_input_edges_def)
      then show ?thesis ..
    next
      case True
      from removed_edge [OF wf e True] obtain p where p: "(a, p) \<in> edge_rel g" "(p, n) \<in> edge_rel g" by blast
      then have "p \<noteq> n" using ac by (auto simp: acyclic_def)
      then have "(a, p) \<in> kept_rel g n" using p(1) edge_rel_linked [OF c] by (auto simp: kept_rel_def)
      moreover have "(p, n) \<in> (kept_rel g n)\<^sup>+" using less.IH p by auto
      ultimately show ?thesis by (rule trancl_into_trancl2)
    qed
  qed
  have "edge_rel g \<subseteq> (kept_rel g n)\<^sup>+"
  proof
    fix x assume x: "x \<in> edge_rel g"
    obtain a b where ab: "x = (a, b)" by fastforce
    show "x \<in> (kept_rel g n)\<^sup>+"
    proof (cases "b = n")
      case True
      with into x ab show ?thesis by simp
    next
      case False
      then have "x \<in> kept_rel g n" using x ab edge_rel_linked [OF c] by (auto simp: kept_rel_def)
      then show ?thesis by (rule r_into_trancl')
    qed
  qed
  then show "(edge_rel g)\<^sup>+ \<subseteq> (kept_rel g n)\<^sup>+"
    by (metis trancl_mono_subset trancl_id trans_trancl)
qed

lemma distinct_descendants_recursive: "distinct ds \<Longrightarrow> distinct (descendants_recursive g ns ds)"
proof (induction g ns ds rule: descendants_recursive.induct)
  case (2 g n ns ds)
  have "distinct (ds @ add_fresh (preds g n) ds)"
    using "2.prems" by (auto simp: distinct_add_fresh set_add_fresh)
  with "2.IH" show ?case by (simp add: Let_def)
qed simp

section \<open>Properties\<close>

text \<open>
  C8. The depth-first search for a cycle returns on every graph, and its answer is exact: linking
  \<open>i\<close> to \<open>out\<close> is refused exactly when \<open>i\<close> can be reached from \<open>out\<close> along output edges.
\<close>

theorem will_create_cycle_exact:
  "will_create_cycle g i out \<longleftrightarrow> (out, i) \<in> (edge_rel g)\<^sup>*"
  by (rule will_create_cycle_iff)

text \<open>
  C9. Every graph a client can build by creating nodes and linking, calls that throw half-way
  included, has no cycle, both ends of every edge list it exactly once, and a name leads to a node of
  that name.
\<close>

theorem reachable_graph_invariant:
  assumes "reachable_graph g"
  shows "graph_consistent g \<and> acyclic (edge_rel g)"
  using reachable_graph_wf [OF assms] by (simp add: graph_wf_def)

definition sample_graph :: dgraph where
  "sample_graph =
     (let g = snd (create_nodes [''A'', ''B'', ''C''] empty_graph)
      in snd (link [By_Name ''A''] [By_Name ''B'', By_Name ''C''] (snd (link [By_Name ''B''] [By_Name ''C''] g))))"

lemma reachable_create_nodes: "reachable_graph g \<Longrightarrow> reachable_graph (snd (create_nodes names g))"
proof (induction names arbitrary: g)
  case (Cons name names)
  obtain n g1 where c: "create_node name g = (n, g1)" by fastforce
  from Cons.IH [OF reachable_graph.node [OF Cons.prems c]] c show ?case
    by (auto split: prod.splits)
qed simp

lemma sample_graph_reachable: "reachable_graph sample_graph"
proof -
  define g0 where "g0 = snd (create_nodes [''A'', ''B'', ''C''] empty_graph)"
  have 0: "reachable_graph g0" unfolding g0_def by (intro reachable_create_nodes reachable_graph.new)
  have 1: "reachable_graph (snd (link [By_Name ''B''] [By_Name ''C''] g0))"
    by (rule reachable_graph.link [OF 0 _ surjective_pairing]) (simp add: known_endpoint_def)
  have 2: "reachable_graph (snd (link [By_Name ''A''] [By_Name ''B'', By_Name ''C'']
      (snd (link [By_Name ''B''] [By_Name ''C''] g0))))"
    by (rule reachable_graph.link [OF 1 _ surjective_pairing]) (simp add: known_endpoint_def)
  then show ?thesis by (simp add: sample_graph_def g0_def Let_def)
qed

lemma reachable_graph_invariant_witness:
  "graph_consistent sample_graph \<and> acyclic (edge_rel sample_graph)"
  by (rule reachable_graph_invariant [OF sample_graph_reachable])

text \<open>
  The set of descendants terminates and is, without repetition, the set of the nodes from which
  one of the named nodes can be reached along one or more edges; names not in the graph count for
  nothing.
\<close>

theorem descendants_are_reaching_nodes:
  assumes "reachable_graph g"
  shows "set (descendants g (map By_Name names)) =
      {x. \<exists>name \<in> set names. \<exists>n. get_node g name = Some n \<and> (x, n) \<in> (edge_rel g)\<^sup>+} \<and>
    distinct (descendants g (map By_Name names))"
proof -
  have "graph_consistent g" using reachable_graph_wf [OF assms] by (simp add: graph_wf_def)
  then have rel: "pred_rel g = edge_rel g" by (rule pred_rel_edge_rel)
  let ?init = "concat (map (\<lambda>e. case e of By_Node n \<Rightarrow> [n]
      | By_Name name \<Rightarrow> (case get_node g name of None \<Rightarrow> [] | Some n \<Rightarrow> [n])) (map By_Name names))"
  have "set ?init = {n. \<exists>name \<in> set names. get_node g name = Some n}"
    by (induction names) (auto split: option.splits)
  then have "set (descendants g (map By_Name names)) =
      {x. \<exists>n \<in> {n. \<exists>name \<in> set names. get_node g name = Some n}. (x, n) \<in> (edge_rel g)\<^sup>+}"
    by (simp add: descendants_def descendants_recursive_set set_add_fresh rel)
  moreover have "distinct (descendants g (map By_Name names))"
    by (simp add: descendants_def distinct_descendants_recursive)
  ultimately show ?thesis by blast
qed

lemma descendants_are_reaching_nodes_witness:
  "set (descendants sample_graph (map By_Name [''C'', ''Z''])) = {0, 1}"
proof -
  have "descendants sample_graph (map By_Name [''C'', ''Z'']) = [1, 0]" by code_simp
  with descendants_are_reaching_nodes [OF sample_graph_reachable, of "[''C'', ''Z'']"] show ?thesis by auto
qed

text \<open>
  C10. Dropping the input edges of a node that are implied by a path of length two (as the variable
  graph does) leaves reachability unchanged in every acyclic graph, although a dropped edge may have
  been justified by another dropped edge.
\<close>

theorem optimized_edges_keep_reachability:
  assumes "reachable_graph g"
  shows "(kept_rel g n)\<^sup>+ = (edge_rel g)\<^sup>+ \<and> set (optimized_input_edges g n) \<subseteq> set (dn_inputs (node_of g n))"
  using kept_rel_trancl [OF reachable_graph_wf [OF assms]] by (auto simp: optimized_input_edges_def)

lemma optimized_edges_keep_reachability_witness:
  "optimized_input_edges sample_graph 2 = [0] \<and> dn_inputs (node_of sample_graph 2) = [0, 2] \<and>
   (kept_rel sample_graph 2)\<^sup>+ = (edge_rel sample_graph)\<^sup>+"
proof (intro conjI)
  show "optimized_input_edges sample_graph 2 = [0]" by code_simp
  show "dn_inputs (node_of sample_graph 2) = [0, 2]" by code_simp
  show "(kept_rel sample_graph 2)\<^sup>+ = (edge_rel sample_graph)\<^sup>+"
    using optimized_edges_keep_reachability [OF sample_graph_reachable, of 2] by simp
qed

end
