(* ===== verification/Alert_Dag.thy ===== *)
theory Alert_Dag
  imports Dag Js_String
begin

text \<open>
  The graph of the queries and expressions of an alert rule,
  \<open>public/app/features/alerting/unified/components/rule-editor/dag.ts\<close>.

  A query is its \<open>refId\<close> and, when \<open>isExpressionQuery\<close> holds of its model, the fields of the
  expression that refer to other queries. The references of an SQL expression are the parameter
  \<open>sql_refs\<close> (that parser is not modelled). The recursive searches of the source return only on a
  graph without cycles: they take fuel, and the lemmas show that on every graph built here they return.
\<close>

section \<open>Queries\<close>

datatype expression_type = Math | Reduce | Resample | Classic | Threshold | Sql

record expression_model =
  ex_type :: expression_type
  ex_expression :: "string option"
  ex_conditions :: "string option list option"

record alert_query =
  aq_ref_id :: string
  aq_model :: "expression_model option"

record link_error =
  le_source :: string
  le_target :: string
  le_error :: js_error

definition is_word_char :: "char \<Rightarrow> bool" where
  "is_word_char c \<longleftrightarrow> (let n = (of_char c :: nat) in
     (97 \<le> n \<and> n \<le> 122) \<or> (65 \<le> n \<and> n \<le> 90) \<or> (48 \<le> n \<and> n \<le> 57) \<or> n = 95)"

text \<open>The matches of \<open>\$\{([a-zA-Z0-9_ ]+?)\}\<close> and of \<open>\$([a-zA-Z0-9_]+)\<close>.\<close>

definition braced_ref :: "string \<Rightarrow> (string \<times> string) option" where
  "braced_ref s =
     (if starts_with ''${'' s then
        (let name = takeWhile (\<lambda>c. is_word_char c \<or> c = CHR '' '') (drop 2 s);
             rest = dropWhile (\<lambda>c. is_word_char c \<or> c = CHR '' '') (drop 2 s)
         in if name \<noteq> [] \<and> rest \<noteq> [] \<and> hd rest = CHR ''}'' then Some (name, tl rest) else None)
      else None)"

definition plain_ref :: "string \<Rightarrow> (string \<times> string) option" where
  "plain_ref s =
     (if starts_with ''$'' s \<and> takeWhile is_word_char (tl s) \<noteq> []
      then Some (takeWhile is_word_char (tl s), dropWhile is_word_char (tl s)) else None)"

text \<open>All matches from left to right; a match is not searched again.\<close>

fun match_all :: "nat \<Rightarrow> (string \<Rightarrow> (string \<times> string) option) \<Rightarrow> string \<Rightarrow> string list" where
  "match_all 0 m s = []"
| "match_all (Suc fuel) m [] = []"
| "match_all (Suc fuel) m (c # s) =
     (case m (c # s) of
        Some (x, rest) \<Rightarrow> x # match_all fuel m rest
      | None \<Rightarrow> match_all fuel m s)"

definition parse_refs_from_math :: "string \<Rightarrow> string list" where
  "parse_refs_from_math s =
     filter (\<lambda>r. r \<noteq> [])
       (uniq_by id [] (match_all (length s) braced_ref s @ match_all (length s) plain_ref s))"

definition get_targets :: "(string \<Rightarrow> string list) \<Rightarrow> expression_model \<Rightarrow> string option list" where
  "get_targets sql_refs m =
     (case ex_type m of
        Math \<Rightarrow> map Some (parse_refs_from_math (nullish (ex_expression m) []))
      | Classic \<Rightarrow> nullish (ex_conditions m) []
      | Sql \<Rightarrow> map Some (sql_refs (nullish (ex_expression m) []))
      | _ \<Rightarrow> [ex_expression m])"

section \<open>Building the graph\<close>

fun link_targets :: "string \<Rightarrow> string option list \<Rightarrow> dgraph \<times> link_error list \<Rightarrow> dgraph \<times> link_error list" where
  "link_targets source [] st = st"
| "link_targets source (target # targets) (g, errs) =
     link_targets source targets
       (if source \<noteq> [] \<and> nullish target [] \<noteq> []
        then (case link [By_Name (the target)] [By_Name source] g of
                (Inl e, g') \<Rightarrow> (g', errs @ [\<lparr>le_source = source, le_target = the target, le_error = e\<rparr>])
              | (Inr _, g') \<Rightarrow> (g', errs))
        else (g, errs))"

fun link_queries :: "(string \<Rightarrow> string list) \<Rightarrow> alert_query list \<Rightarrow> dgraph \<times> link_error list \<Rightarrow> dgraph \<times> link_error list" where
  "link_queries sql_refs [] st = st"
| "link_queries sql_refs (q # qs) st =
     link_queries sql_refs qs
       (case aq_model q of
          None \<Rightarrow> st
        | Some m \<Rightarrow> link_targets (aq_ref_id q) (get_targets sql_refs m) st)"

definition create_dag :: "(string \<Rightarrow> string list) \<Rightarrow> alert_query list \<Rightarrow> link_error list + dgraph" where
  "create_dag sql_refs qs =
     (let (g, errs) = link_queries sql_refs qs (snd (create_nodes (map aq_ref_id qs) empty_graph), [])
      in if errs \<noteq> [] then Inl errs else Inr g)"

lemma link_targets_sources:
  "e \<in> set (snd (link_targets source targets st)) \<Longrightarrow> e \<in> set (snd st) \<or> le_source e = source"
  by (induction source targets st rule: link_targets.induct) (fastforce split: prod.splits sum.splits if_splits)+

lemma link_queries_sources:
  "e \<in> set (snd (link_queries sql_refs qs st)) \<Longrightarrow> e \<in> set (snd st) \<or> le_source e \<in> aq_ref_id ` set qs"
proof (induction sql_refs qs st rule: link_queries.induct)
  case (2 sql_refs q qs st)
  then show ?case
    by (cases "aq_model q") (auto dest: link_targets_sources)
qed simp

lemma create_dag_error_sources:
  assumes "create_dag sql_refs qs = Inl errs"
  shows "errs \<noteq> [] \<and> (\<forall>e \<in> set errs. le_source e \<in> aq_ref_id ` set qs)"
  using assms link_queries_sources [of _ sql_refs qs "(snd (create_nodes (map aq_ref_id qs) empty_graph), [])"]
  by (auto simp: create_dag_def split: prod.splits if_splits)

definition without_sources :: "link_error list \<Rightarrow> alert_query list \<Rightarrow> alert_query list" where
  "without_sources errs qs = filter (\<lambda>q. \<not> list_ex (\<lambda>e. le_source e = aq_ref_id q) errs) qs"

function create_dag_safe ::
  "(string \<Rightarrow> string list) \<Rightarrow> alert_query list \<Rightarrow> link_error list \<Rightarrow> dgraph \<times> link_error list" where
  "create_dag_safe sql_refs qs collected =
     (case create_dag sql_refs qs of
        Inr g \<Rightarrow> (g, collected)
      | Inl errs \<Rightarrow> create_dag_safe sql_refs (without_sources errs qs) (collected @ errs))"
  by pat_completeness auto

text \<open>Each round removes at least one query, because every link error comes from one of them.\<close>

termination
proof (relation "measure (\<lambda>(_, qs, _). length qs)")
  fix sql_refs qs and collected errs :: "link_error list"
  assume "create_dag sql_refs qs = Inl errs"
  from create_dag_error_sources [OF this] obtain e where "e \<in> set errs" "le_source e \<in> aq_ref_id ` set qs"
    by (cases errs) auto
  then obtain q where q: "q \<in> set qs" "le_source e = aq_ref_id q" by auto
  then have "length (without_sources errs qs) < length qs"
    using \<open>e \<in> set errs\<close> unfolding without_sources_def
    by (intro length_filter_less [of q]) (auto simp: list_ex_iff)
  then show "((sql_refs, without_sources errs qs, collected @ errs), sql_refs, qs, collected) \<in> measure (\<lambda>(_, qs, _). length qs)"
    by simp
qed simp

declare create_dag_safe.simps [simp del]

section \<open>Origins and descendants\<close>

fun concat_option :: "'a list option list \<Rightarrow> 'a list option" where
  "concat_option [] = Some []"
| "concat_option (x # xs) =
     (case x of None \<Rightarrow> None
      | Some a \<Rightarrow> (case concat_option xs of None \<Rightarrow> None | Some b \<Rightarrow> Some (a @ b)))"

fun find_parent_node :: "nat \<Rightarrow> dgraph \<Rightarrow> nat \<Rightarrow> nat list option" where
  "find_parent_node 0 g n = None"
| "find_parent_node (Suc fuel) g n =
     (if dn_inputs (node_of g n) \<noteq> []
      then concat_option (map (find_parent_node fuel g) (preds g n))
      else Some [n])"

definition get_origins_of_ref_id :: "nat \<Rightarrow> string \<Rightarrow> dgraph \<Rightarrow> string list option" where
  "get_origins_of_ref_id fuel ref_id g =
     (case get_node g ref_id of
        None \<Rightarrow> Some []
      | Some n \<Rightarrow> map_option (map (\<lambda>m. dn_name (node_of g m))) (find_parent_node fuel g n))"

fun find_child_node :: "nat \<Rightarrow> dgraph \<Rightarrow> nat \<Rightarrow> nat list option" where
  "find_child_node 0 g n = None"
| "find_child_node (Suc fuel) g n =
     concat_option (map (\<lambda>m. map_option (\<lambda>ms. m # ms) (find_child_node fuel g m)) (succs g n))"

definition get_descendants :: "nat \<Rightarrow> string \<Rightarrow> dgraph \<Rightarrow> string list option" where
  "get_descendants fuel ref_id g =
     (case get_node g ref_id of
        None \<Rightarrow> Some []
      | Some n \<Rightarrow> map_option (map (\<lambda>m. dn_name (node_of g m))) (find_child_node fuel g n))"

definition fingerprint_graph :: "dgraph \<Rightarrow> string" where
  "fingerprint_graph g =
     join_with '' '' (map (\<lambda>name.
       let n = node_of g (the (get_node g name)) in
       dn_name n @ '':''
         @ join_with '', '' (map (\<lambda>e. nullish (name_at g (de_output (edge_of g e))) []) (dn_outputs n)) @ '':''
         @ join_with '', '' (map (\<lambda>e. nullish (name_at g (de_input (edge_of g e))) []) (dn_inputs n)))
       (jo_keys (dg_names g)))"

section \<open>What a built graph contains\<close>

lemma link_names:
  assumes "reachable_graph g" "link [By_Name t] [By_Name s] g = (r, g')"
  shows "reachable_graph g' \<and> (\<forall>name. get_node g' name = get_node g name) \<and> edge_rel g \<subseteq> edge_rel g' \<and>
    ((\<exists>es. r = Inr es) \<longrightarrow> (\<exists>a b. get_node g t = Some a \<and> get_node g s = Some b \<and> (a, b) \<in> edge_rel g'))"
proof -
  have known: "list_all (known_endpoint g) ([By_Name t] @ [By_Name s])" by (simp add: known_endpoint_def)
  have wf: "graph_wf g" by (rule reachable_graph_wf [OF assms(1)])
  have "reachable_graph g'" by (rule reachable_graph.link [OF assms(1) known assms(2)])
  moreover have "(\<forall>name. get_node g' name = get_node g name) \<and> edge_rel g \<subseteq> edge_rel g'"
    using link_spec [OF wf known assms(2)] by blast
  moreover have "\<exists>a b. get_node g t = Some a \<and> get_node g s = Some b \<and> (a, b) \<in> edge_rel g'" if r: "r = Inr es" for es
  proof -
    obtain a b where ab: "get_node g t = Some a" "get_node g s = Some b" "link_pairs [(a, b)] g = (Inr es, g')"
      using assms(2) r by (auto simp: link_def resolve_endpoint_def split: option.splits)
    have "a < node_count g" "b < node_count g"
      using ab consistent_names [of g] wf by (auto simp: graph_wf_def)
    then have "edge_rel g' = edge_rel g \<union> {(a, b)}"
      using link_pairs_spec [OF wf _ ab(3)] by (auto simp: take_Cons')
    with ab show ?thesis by blast
  qed
  ultimately show ?thesis by blast
qed

definition target_linked :: "dgraph \<Rightarrow> string \<Rightarrow> string option \<Rightarrow> bool" where
  "target_linked g source target \<longleftrightarrow>
     (source \<noteq> [] \<and> nullish target [] \<noteq> [] \<longrightarrow>
       (\<exists>a b. get_node g (the target) = Some a \<and> get_node g source = Some b \<and> (a, b) \<in> edge_rel g))"

lemma target_linked_mono:
  "target_linked g source target \<Longrightarrow> (\<And>name. get_node g' name = get_node g name) \<Longrightarrow> edge_rel g \<subseteq> edge_rel g' \<Longrightarrow>
   target_linked g' source target"
  unfolding target_linked_def by (metis subsetD)

lemma link_targets_spec:
  "reachable_graph (fst st) \<Longrightarrow> link_targets source targets st = (g', errs') \<Longrightarrow>
   reachable_graph g' \<and> (\<forall>name. get_node g' name = get_node (fst st) name) \<and> edge_rel (fst st) \<subseteq> edge_rel g' \<and>
   (errs' = [] \<longrightarrow> snd st = [] \<and> (\<forall>t \<in> set targets. target_linked g' source t))"
proof (induction source targets st rule: link_targets.induct)
  case (2 source target targets g errs)
  let ?on = "source \<noteq> [] \<and> nullish target [] \<noteq> []"
  obtain r g1 where l: "link [By_Name (the target)] [By_Name source] g = (r, g1)" by fastforce
  define st1 where "st1 = (if ?on then (case r of
      Inl e \<Rightarrow> (g1, errs @ [\<lparr>le_source = source, le_target = the target, le_error = e\<rparr>]) | Inr _ \<Rightarrow> (g1, errs)) else (g, errs))"
  have run: "link_targets source targets st1 = (g', errs')"
    using "2.prems"(2) l by (cases r) (auto simp: st1_def split: if_splits)
  have g: "reachable_graph g" using "2.prems"(1) by simp
  note names = link_names [OF g l]
  have fst1: "fst st1 = (if ?on then g1 else g)" by (cases r) (auto simp: st1_def)
  have mono: "reachable_graph (fst st1)" "\<forall>name. get_node (fst st1) name = get_node g name" "edge_rel g \<subseteq> edge_rel (fst st1)"
    using names g by (auto simp: fst1)
  have st1: "st1 = (if ?on then case link [By_Name (the target)] [By_Name source] g of
      (Inl e, g') \<Rightarrow> (g', errs @ [\<lparr>le_source = source, le_target = the target, le_error = e\<rparr>])
    | (Inr _, g') \<Rightarrow> (g', errs) else (g, errs))"
    using l by (cases r) (auto simp: st1_def)
  have IH: "reachable_graph g' \<and> (\<forall>name. get_node g' name = get_node (fst st1) name) \<and> edge_rel (fst st1) \<subseteq> edge_rel g' \<and>
      (errs' = [] \<longrightarrow> snd st1 = [] \<and> (\<forall>t \<in> set targets. target_linked g' source t))"
    using "2.IH" [folded st1, OF mono(1) run] .
  have "errs = [] \<and> target_linked g' source target" if "errs' = []"
  proof -
    have e: "snd st1 = []" using IH that by blast
    have "target_linked (fst st1) source target"
      using names e by (cases r) (auto simp: st1_def target_linked_def fst1)
    then have "target_linked g' source target"
      using IH by (blast intro: target_linked_mono)
    with e show ?thesis by (cases r) (auto simp: st1_def split: if_splits)
  qed
  with IH mono show ?case by auto
qed simp

lemma link_queries_spec:
  "reachable_graph (fst st) \<Longrightarrow> link_queries sql_refs qs st = (g', errs') \<Longrightarrow>
   reachable_graph g' \<and> (\<forall>name. get_node g' name = get_node (fst st) name) \<and> edge_rel (fst st) \<subseteq> edge_rel g' \<and>
   (errs' = [] \<longrightarrow> snd st = [] \<and>
     (\<forall>q \<in> set qs. \<forall>m. aq_model q = Some m \<longrightarrow> (\<forall>t \<in> set (get_targets sql_refs m). target_linked g' (aq_ref_id q) t)))"
proof (induction sql_refs qs st rule: link_queries.induct)
  case (2 sql_refs q qs st)
  show ?case
  proof (cases "aq_model q")
    case None
    with 2 show ?thesis by auto
  next
    case (Some m)
    obtain g1 errs1 where st1: "link_targets (aq_ref_id q) (get_targets sql_refs m) st = (g1, errs1)" by fastforce
    note one = link_targets_spec [OF "2.prems"(1) st1]
    have "reachable_graph g' \<and> (\<forall>name. get_node g' name = get_node g1 name) \<and> edge_rel g1 \<subseteq> edge_rel g' \<and>
      (errs' = [] \<longrightarrow> errs1 = [] \<and>
        (\<forall>q \<in> set qs. \<forall>m. aq_model q = Some m \<longrightarrow> (\<forall>t \<in> set (get_targets sql_refs m). target_linked g' (aq_ref_id q) t)))"
      using 2 Some st1 one by auto
    with one Some show ?thesis
      by (auto intro: target_linked_mono)
  qed
qed simp

lemma create_dag_spec:
  assumes "create_dag sql_refs qs = Inr g"
  shows "reachable_graph g \<and>
    (\<forall>q \<in> set qs. \<forall>m. aq_model q = Some m \<longrightarrow> (\<forall>t \<in> set (get_targets sql_refs m). target_linked g (aq_ref_id q) t))"
proof -
  have "reachable_graph (snd (create_nodes (map aq_ref_id qs) empty_graph))"
    by (intro reachable_create_nodes reachable_graph.new)
  moreover have "link_queries sql_refs qs (snd (create_nodes (map aq_ref_id qs) empty_graph), []) = (g, [])"
    using assms by (auto simp: create_dag_def split: prod.splits if_splits)
  ultimately show ?thesis using link_queries_spec [of "(snd (create_nodes (map aq_ref_id qs) empty_graph), [])"] by auto
qed

lemma create_dag_safe_result:
  "create_dag_safe sql_refs qs collected = (g, errs) \<Longrightarrow>
   \<exists>new. errs = collected @ new \<and> create_dag sql_refs (without_sources new qs) = Inr g \<and>
     (\<forall>e \<in> set new. le_source e \<in> aq_ref_id ` set qs)"
proof (induction sql_refs qs collected rule: create_dag_safe.induct)
  case (1 sql_refs qs collected)
  show ?case
  proof (cases "create_dag sql_refs qs")
    case (Inr g')
    with "1.prems" show ?thesis by (subst (asm) create_dag_safe.simps) (auto simp: without_sources_def)
  next
    case (Inl new1)
    then have "create_dag_safe sql_refs (without_sources new1 qs) (collected @ new1) = (g, errs)"
      using "1.prems" by (subst (asm) create_dag_safe.simps) simp
    from "1.IH" [OF Inl this] obtain new2 where new2: "errs = (collected @ new1) @ new2"
      "create_dag sql_refs (without_sources new2 (without_sources new1 qs)) = Inr g"
      "\<forall>e \<in> set new2. le_source e \<in> aq_ref_id ` set (without_sources new1 qs)" by blast
    have "without_sources new2 (without_sources new1 qs) = without_sources (new1 @ new2) qs"
      by (auto simp: without_sources_def intro!: filter_cong)
    with new2 create_dag_error_sources [OF Inl] show ?thesis
      by (intro exI [of _ "new1 @ new2"]) (auto simp: without_sources_def)
  qed
qed

section \<open>The recursive searches return\<close>

lemma concat_option_Some: "concat_option (map (\<lambda>x. Some (F x)) xs) = Some (concat (map F xs))"
  by (induction xs) auto

lemma common_fuel:
  "(\<And>x. x \<in> set xs \<Longrightarrow> \<exists>k. \<forall>fuel \<ge> k. f fuel x = Some (F x)) \<Longrightarrow>
   \<exists>k. \<forall>fuel \<ge> k. map (f fuel) xs = map (\<lambda>x. Some (F x)) xs" for f :: "nat \<Rightarrow> 'a \<Rightarrow> 'b option"
proof (induction xs)
  case (Cons x xs)
  then obtain k1 k2 where "\<forall>fuel \<ge> k1. f fuel x = Some (F x)" "\<forall>fuel \<ge> k2. map (f fuel) xs = map (\<lambda>x. Some (F x)) xs"
    by (meson list.set_intros)
  then have "\<forall>fuel \<ge> max k1 k2. map (f fuel) (x # xs) = map (\<lambda>x. Some (F x)) (x # xs)"
    by simp
  then show ?case ..
qed simp

lemma wf_edges: "graph_wf g \<Longrightarrow> wf (edge_rel g)"
  by (auto simp: graph_wf_def intro: finite_acyclic_wf finite_edge_rel)

lemma find_parent_node_returns:
  assumes g: "graph_wf g"
  shows "n < node_count g \<Longrightarrow> \<exists>k ms. (\<forall>fuel \<ge> k. find_parent_node fuel g n = Some ms) \<and>
    set ms = {x. (x, n) \<in> (edge_rel g)\<^sup>* \<and> dn_inputs (node_of g x) = []}"
  using wf_edges [OF g]
proof (induction n rule: wf_induct_rule)
  case (less n)
  have c: "graph_consistent g" using g by (simp add: graph_wf_def)
  have pred: "p \<in> set (preds g n) \<longleftrightarrow> (p, n) \<in> edge_rel g" for p
    using pred_rel_edge_rel [OF c] by (auto simp: pred_rel_def)
  show ?case
  proof (cases "dn_inputs (node_of g n) = []")
    case True
    then have "preds g n = []" by (simp add: preds_def)
    then have "(x, n) \<in> (edge_rel g)\<^sup>* \<longleftrightarrow> x = n" for x
      using pred by (auto elim: rtranclE)
    moreover have "\<forall>fuel \<ge> 1. find_parent_node fuel g n = Some [n]"
      using True by (metis One_nat_def Suc_le_D find_parent_node.simps(2))
    ultimately show ?thesis using True by (intro exI [of _ 1] exI [of _ "[n]"]) auto
  next
    case False
    then obtain e where "e \<in> set (dn_inputs (node_of g n))" by (cases "dn_inputs (node_of g n)") auto
    have "\<exists>ms. \<exists>k. (\<forall>fuel \<ge> k. find_parent_node fuel g p = Some ms) \<and>
        set ms = {x. (x, p) \<in> (edge_rel g)\<^sup>* \<and> dn_inputs (node_of g x) = []}" if "p \<in> set (preds g n)" for p
      using less.IH [of p] that pred preds_allocated by blast
    then have "\<forall>p \<in> set (preds g n). \<exists>ms. \<exists>k. (\<forall>fuel \<ge> k. find_parent_node fuel g p = Some ms) \<and>
        set ms = {x. (x, p) \<in> (edge_rel g)\<^sup>* \<and> dn_inputs (node_of g x) = []}" ..
    from bchoice [OF this] obtain F where "\<forall>p \<in> set (preds g n). \<exists>k. (\<forall>fuel \<ge> k. find_parent_node fuel g p = Some (F p)) \<and>
        set (F p) = {x. (x, p) \<in> (edge_rel g)\<^sup>* \<and> dn_inputs (node_of g x) = []}" ..
    then have F: "\<And>p. p \<in> set (preds g n) \<Longrightarrow> \<exists>k. (\<forall>fuel \<ge> k. find_parent_node fuel g p = Some (F p))"
      "\<And>p. p \<in> set (preds g n) \<Longrightarrow> set (F p) = {x. (x, p) \<in> (edge_rel g)\<^sup>* \<and> dn_inputs (node_of g x) = []}"
      by blast+
    obtain k where k: "\<forall>fuel \<ge> k. map (\<lambda>p. find_parent_node fuel g p) (preds g n) = map (\<lambda>p. Some (F p)) (preds g n)"
      using common_fuel [of "preds g n" "\<lambda>fuel. find_parent_node fuel g" F] F(1) by blast
    have "find_parent_node fuel g n = Some (concat (map F (preds g n)))" if "Suc k \<le> fuel" for fuel
    proof -
      obtain f where f: "fuel = Suc f" "k \<le> f" using \<open>Suc k \<le> fuel\<close> Suc_le_D by fastforce
      then have m: "map (\<lambda>p. find_parent_node f g p) (preds g n) = map (\<lambda>p. Some (F p)) (preds g n)" using k by blast
      show ?thesis using False concat_option_Some [of F "preds g n"] unfolding f(1) find_parent_node.simps m by simp
    qed
    moreover have "set (concat (map F (preds g n))) = {x. (x, n) \<in> (edge_rel g)\<^sup>* \<and> dn_inputs (node_of g x) = []}"
    proof -
      have "(x, n) \<in> (edge_rel g)\<^sup>* \<longleftrightarrow> x = n \<or> (\<exists>p. (x, p) \<in> (edge_rel g)\<^sup>* \<and> (p, n) \<in> edge_rel g)" for x
        by (metis rtrancl.simps)
      then show ?thesis using F(2) False pred by auto
    qed
    ultimately show ?thesis by blast
  qed
qed

lemma find_child_node_returns:
  assumes g: "graph_wf g"
  shows "\<exists>k ms. (\<forall>fuel \<ge> k. find_child_node fuel g n = Some ms) \<and> set ms = {x. (n, x) \<in> (edge_rel g)\<^sup>+}"
  using wf_predecessors [OF g]
proof (induction n rule: wf_induct_rule)
  case (less n)
  have "\<exists>ms. \<exists>k. (\<forall>fuel \<ge> k. find_child_node fuel g m = Some ms) \<and> set ms = {x. (m, x) \<in> (edge_rel g)\<^sup>+}"
    if "m \<in> set (succs g n)" for m
    using less.IH [of m] that by (auto simp: edge_rel_def)
  then have "\<forall>m \<in> set (succs g n). \<exists>ms. \<exists>k. (\<forall>fuel \<ge> k. find_child_node fuel g m = Some ms) \<and>
      set ms = {x. (m, x) \<in> (edge_rel g)\<^sup>+}" ..
  from bchoice [OF this] obtain F where "\<forall>m \<in> set (succs g n). \<exists>k. (\<forall>fuel \<ge> k. find_child_node fuel g m = Some (F m)) \<and>
      set (F m) = {x. (m, x) \<in> (edge_rel g)\<^sup>+}" ..
  then have F: "\<And>m. m \<in> set (succs g n) \<Longrightarrow> \<exists>k. (\<forall>fuel \<ge> k. find_child_node fuel g m = Some (F m))"
    "\<And>m. m \<in> set (succs g n) \<Longrightarrow> set (F m) = {x. (m, x) \<in> (edge_rel g)\<^sup>+}"
    by blast+
  let ?G = "\<lambda>m. m # F m"
  have "\<exists>k. \<forall>fuel \<ge> k. map_option (\<lambda>ms. m # ms) (find_child_node fuel g m) = Some (?G m)" if "m \<in> set (succs g n)" for m
    using F(1) [OF that] by auto
  from common_fuel [where xs = "succs g n" and f = "\<lambda>fuel m. map_option (\<lambda>ms. m # ms) (find_child_node fuel g m)" and F = ?G, OF this] obtain k where
    k: "\<forall>fuel \<ge> k. map (\<lambda>m. map_option (\<lambda>ms. m # ms) (find_child_node fuel g m)) (succs g n) = map (\<lambda>m. Some (?G m)) (succs g n)"
    by blast
  have "find_child_node fuel g n = Some (concat (map ?G (succs g n)))" if "Suc k \<le> fuel" for fuel
  proof -
    obtain f where f: "fuel = Suc f" "k \<le> f" using \<open>Suc k \<le> fuel\<close> Suc_le_D by fastforce
    then have m: "map (\<lambda>m. map_option (\<lambda>ms. m # ms) (find_child_node f g m)) (succs g n) = map (\<lambda>m. Some (?G m)) (succs g n)"
      using k by blast
    show ?thesis using concat_option_Some [of ?G "succs g n"] unfolding f(1) find_child_node.simps m by simp
  qed
  moreover have "set (concat (map ?G (succs g n))) = {x. (n, x) \<in> (edge_rel g)\<^sup>+}"
  proof -
    have "(n, x) \<in> (edge_rel g)\<^sup>+ \<longleftrightarrow> (\<exists>m. m \<in> set (succs g n) \<and> (x = m \<or> (m, x) \<in> (edge_rel g)\<^sup>+))" for x
      unfolding edge_rel_def by (metis (mono_tags, lifting) converse_tranclE mem_Collect_eq prod.case r_into_trancl trancl_into_trancl2)
    then show ?thesis using F(2) by auto
  qed
  ultimately show ?case by blast
qed

section \<open>Properties\<close>

text \<open>
  C11. Building the graph with recovery always returns. The result is the strict graph of the queries
  that remain when those named as the source of a link error are left out; in it every reference
  of a remaining expression is linked, there is no cycle, and every reported error names one of the
  given queries.
\<close>

theorem create_dag_safe_clean:
  assumes "create_dag_safe sql_refs qs [] = (g, errs)"
  shows "create_dag sql_refs (without_sources errs qs) = Inr g \<and> graph_wf g \<and>
    (\<forall>e \<in> set errs. le_source e \<in> aq_ref_id ` set qs) \<and>
    (\<forall>q \<in> set (without_sources errs qs). \<forall>m. aq_model q = Some m \<longrightarrow>
      (\<forall>t \<in> set (get_targets sql_refs m). target_linked g (aq_ref_id q) t))"
  using create_dag_safe_result [OF assms] create_dag_spec [of sql_refs "without_sources errs qs" g] reachable_graph_wf [of g]
  by auto

definition sample_queries :: "alert_query list" where
  "sample_queries =
     [\<lparr>aq_ref_id = ''A'', aq_model = None\<rparr>,
      \<lparr>aq_ref_id = ''B'', aq_model = Some \<lparr>ex_type = Math, ex_expression = Some ''$A + ${C}'', ex_conditions = None\<rparr>\<rparr>,
      \<lparr>aq_ref_id = ''C'', aq_model = Some \<lparr>ex_type = Reduce, ex_expression = Some ''B'', ex_conditions = None\<rparr>\<rparr>]"

lemma create_dag_safe_clean_witness:
  "map le_source (snd (create_dag_safe (\<lambda>_. []) sample_queries [])) = [''C'', ''B''] \<and>
   graph_wf (fst (create_dag_safe (\<lambda>_. []) sample_queries []))"
proof
  show "map le_source (snd (create_dag_safe (\<lambda>_. []) sample_queries [])) = [''C'', ''B'']" by code_simp
  show "graph_wf (fst (create_dag_safe (\<lambda>_. []) sample_queries []))"
    using create_dag_safe_clean [OF prod.collapse [symmetric], of "\<lambda>_. []" sample_queries] by blast
qed

text \<open>
  On every graph that can be built, the searches for the origins and for the descendants of a
  query return once the stack is deep enough: the origins are the nodes without inputs that reach it,
  the descendants the nodes it reaches.
\<close>

theorem origins_and_descendants:
  assumes "reachable_graph g" and "get_node g ref_id = Some n"
  shows "\<exists>k os ds. \<forall>fuel \<ge> k. get_origins_of_ref_id fuel ref_id g = Some (map (\<lambda>m. dn_name (node_of g m)) os) \<and>
    get_descendants fuel ref_id g = Some (map (\<lambda>m. dn_name (node_of g m)) ds) \<and>
    set os = {x. (x, n) \<in> (edge_rel g)\<^sup>* \<and> dn_inputs (node_of g x) = []} \<and>
    set ds = {x. (n, x) \<in> (edge_rel g)\<^sup>+}"
proof -
  have wf: "graph_wf g" by (rule reachable_graph_wf [OF assms(1)])
  have n: "n < node_count g" using assms(2) wf consistent_names [of g] by (auto simp: graph_wf_def)
  obtain k os where "\<forall>fuel \<ge> k. find_parent_node fuel g n = Some os"
    "set os = {x. (x, n) \<in> (edge_rel g)\<^sup>* \<and> dn_inputs (node_of g x) = []}"
    using find_parent_node_returns [OF wf n] by blast
  moreover obtain k' ds where "\<forall>fuel \<ge> k'. find_child_node fuel g n = Some ds" "set ds = {x. (n, x) \<in> (edge_rel g)\<^sup>+}"
    using find_child_node_returns [OF wf] by blast
  ultimately show ?thesis
    using assms(2)
    by (intro exI [of _ "max k k'"] exI [of _ os] exI [of _ ds]) (simp add: get_origins_of_ref_id_def get_descendants_def)
qed

lemma origins_and_descendants_witness:
  "\<exists>k os ds. \<forall>fuel \<ge> k. get_origins_of_ref_id fuel ''C'' sample_graph = Some (map (\<lambda>m. dn_name (node_of sample_graph m)) os) \<and>
    get_descendants fuel ''C'' sample_graph = Some (map (\<lambda>m. dn_name (node_of sample_graph m)) ds) \<and>
    set os = {x. (x, 2) \<in> (edge_rel sample_graph)\<^sup>* \<and> dn_inputs (node_of sample_graph x) = []} \<and>
    set ds = {x. (2, x) \<in> (edge_rel sample_graph)\<^sup>+}"
  by (rule origins_and_descendants [OF sample_graph_reachable]) code_simp

end
