(* ===== verification/Rule_Id.thy ===== *)
theory Rule_Id
  imports Js_String Js_Hash Js_Object
begin

text \<open>
  Identifiers of alert rules, \<open>public/app/features/alerting/unified/utils/rule-id.ts\<close>: what identifies a
  rule, its text in a URL, the comparison of identifiers, and the fingerprints of rules that have no
  identifier of their own.

  \<open>decodeURIComponent\<close> is the parameter \<open>decode\<close> (\<open>None\<close> when it throws), the order \<open>Intl.Collator\<close>
  gives two label names is the parameter \<open>collate\<close> (\<open>collate a b\<close>: \<open>a\<close> does not come after \<open>b\<close>), and the
  feature toggle of the fingerprints is the argument \<open>prom_primary\<close>.
\<close>

section \<open>Identifiers and rules\<close>

record rule_location =
  rl_source :: string
  rl_namespace :: string
  rl_group :: string
  rl_name :: string

datatype rule_identifier =
    Grafana_Rule string
  | Cloud_Rule rule_location string
  | Prometheus_Rule rule_location string

type_synonym labels = "string jobj option"

datatype ruler_rule =
    Ruler_Grafana (rr_uid: string) (rr_title: string)
  | Ruler_Recording (rr_record: string) (rr_expr: string) (rr_labels: labels)
  | Ruler_Alerting (rr_alert: string) (rr_expr: string) (rr_annotations: labels) (rr_labels: labels)

datatype prom_rule =
    Prom_Recording (pr_name: string) (pr_query: string) (pr_labels: labels)
  | Prom_Alerting (pr_name: string) (pr_query: string) (pr_annotations: labels) (pr_labels: labels)

section \<open>Fingerprints\<close>

definition remove_chars :: "(char \<Rightarrow> bool) \<Rightarrow> string \<Rightarrow> string" where
  "remove_chars P s = filter (\<lambda>c. \<not> P c) s"

text \<open>\<open>/#[^\n]*/g\<close> removed: a hash sign starts a comment that lasts to the end of the line.\<close>

fun drop_comments :: "bool \<Rightarrow> string \<Rightarrow> string" where
  "drop_comments inside [] = []"
| "drop_comments inside (c # s) =
     (if c = CHR 0x0A then c # drop_comments False s
      else if inside \<or> c = CHR ''#'' then drop_comments True s
      else c # drop_comments False s)"

definition strip_promql_comments :: "string \<Rightarrow> string" where
  "strip_promql_comments query =
     join_with [CHR 0x0A]
       (filter (\<lambda>l. l \<noteq> []) (map trim (split_on (CHR 0x0A) (drop_comments False query))))"

text \<open>Pairs of backticks become double quotes; a backtick without a partner stays.\<close>

function replace_backticks :: "string \<Rightarrow> string" where
  "replace_backticks [] = []"
| "replace_backticks (c # s) =
     (if c = CHR 0x60 \<and> CHR 0x60 \<in> set s
      then CHR 0x22 # takeWhile (\<lambda>d. d \<noteq> CHR 0x60) s @ CHR 0x22 # replace_backticks (tl (dropWhile (\<lambda>d. d \<noteq> CHR 0x60) s))
      else c # replace_backticks s)"
  by pat_completeness auto
termination
  by (relation "measure length")
     (auto simp: less_Suc_eq_le intro: order_trans [OF diff_le_self length_dropWhile_le])

text \<open>\<open>/,(?=})/g\<close> removed.\<close>

fun drop_trailing_commas :: "string \<Rightarrow> string" where
  "drop_trailing_commas (c # d # s) =
     (if c = CHR '','' \<and> d = CHR ''}'' then drop_trailing_commas (d # s) else c # drop_trailing_commas (d # s))"
| "drop_trailing_commas s = s"

definition is_bracket_or_quote :: "char \<Rightarrow> bool" where
  "is_bracket_or_quote c \<longleftrightarrow> c \<in> {CHR 0x27, CHR 0x22, CHR ''('', CHR '')'', CHR ''['', CHR '']'', CHR 0x5C, CHR 0x60}"

definition strip_parens :: "string \<Rightarrow> string" where
  "strip_parens q =
     (if 1 < length q \<and> hd q = CHR ''('' \<and> last q = CHR '')'' then butlast (tl q) else q)"

definition normalize_query :: "string \<Rightarrow> string" where
  "normalize_query query =
     (let q = strip_parens (strip_promql_comments query);
          q = remove_chars is_space q;
          q = replace_pair (CHR 0x5C) (CHR 0x22) [CHR 0x22] q;
          q = replace_backticks q;
          q = drop_trailing_commas q;
          q = replace_pair (CHR ''{'') (CHR ''}'') [] q
      in remove_chars is_bracket_or_quote q)"

definition hash_query :: "string \<Rightarrow> string" where
  "hash_query query = sort (normalize_query query)"

text \<open>\<open>JSON.stringify\<close> of a string and of an array of strings or of entries.\<close>

definition hex_digit :: "nat \<Rightarrow> char" where
  "hex_digit d = (if d < 10 then char_of (48 + d) else char_of (87 + d))"

definition json_char :: "char \<Rightarrow> string" where
  "json_char c =
     (let n = (of_char c :: nat) in
      if c = CHR 0x22 \<or> c = CHR 0x5C then [CHR 0x5C, c]
      else if n = 8 then CHR 0x5C # ''b'' else if n = 9 then CHR 0x5C # ''t'' else if n = 10 then CHR 0x5C # ''n''
      else if n = 12 then CHR 0x5C # ''f'' else if n = 13 then CHR 0x5C # ''r''
      else if n < 32 then CHR 0x5C # ''u00'' @ [hex_digit (n div 16), hex_digit (n mod 16)] else [c])"

definition json_string :: "string \<Rightarrow> string" where
  "json_string s = CHR 0x22 # concat (map json_char s) @ [CHR 0x22]"

definition json_array :: "string list \<Rightarrow> string" where
  "json_array vs = ''['' @ join_with '','' vs @ '']''"

fun insert_by :: "('a \<Rightarrow> 'a \<Rightarrow> bool) \<Rightarrow> 'a \<Rightarrow> 'a list \<Rightarrow> 'a list" where
  "insert_by le x [] = [x]"
| "insert_by le x (y # ys) = (if le x y then x # y # ys else y # insert_by le x ys)"

definition sort_by :: "('a \<Rightarrow> 'a \<Rightarrow> bool) \<Rightarrow> 'a list \<Rightarrow> 'a list" where
  "sort_by le xs = foldr (insert_by le) xs []"

definition hash_labels :: "(string \<Rightarrow> string \<Rightarrow> bool) \<Rightarrow> labels \<Rightarrow> string" where
  "hash_labels collate item =
     json_array (map (\<lambda>(k, v). json_array [json_string k, json_string v])
       (sort_by (\<lambda>a b. collate (fst a) (fst b)) (nullish item [])))"

definition js_hash :: "string \<Rightarrow> int" where
  "js_hash value = (if value = [] then 0 else sint (hash_string value))"

definition ruler_rule_fingerprint :: "(string \<Rightarrow> string \<Rightarrow> bool) \<Rightarrow> ruler_rule \<Rightarrow> bool \<Rightarrow> string list res" where
  "ruler_rule_fingerprint collate rule include_query =
     (case rule of
        Ruler_Grafana _ _ \<Rightarrow> Inl (Js_Error ''Only recording and alerting ruler rules can be hashed'')
      | Ruler_Recording name expr ls \<Rightarrow>
          Inr [name, ''recording'', if include_query then hash_query expr else [], hash_labels collate ls]
      | Ruler_Alerting name expr as ls \<Rightarrow>
          Inr [name, ''alerting'', if include_query then hash_query expr else [], hash_labels collate as, hash_labels collate ls])"

definition prom_rule_fingerprint :: "(string \<Rightarrow> string \<Rightarrow> bool) \<Rightarrow> prom_rule \<Rightarrow> bool \<Rightarrow> string list" where
  "prom_rule_fingerprint collate rule include_query =
     (case rule of
        Prom_Recording name query ls \<Rightarrow>
          [name, ''recording'', if include_query then hash_query query else [], hash_labels collate ls]
      | Prom_Alerting name query as ls \<Rightarrow>
          [name, ''alerting'', if include_query then hash_query query else [], hash_labels collate as, hash_labels collate ls])"

definition hash_fingerprint :: "string list \<Rightarrow> string" where
  "hash_fingerprint parts = number_text 10 (js_hash (json_array (map json_string parts)))"

definition hash_ruler_rule :: "(string \<Rightarrow> string \<Rightarrow> bool) \<Rightarrow> bool \<Rightarrow> ruler_rule \<Rightarrow> string res" where
  "hash_ruler_rule collate prom_primary rule =
     (case rule of
        Ruler_Grafana uid _ \<Rightarrow> Inr uid
      | _ \<Rightarrow> bind_res (ruler_rule_fingerprint collate rule (\<not> prom_primary)) (\<lambda>f. Inr (hash_fingerprint f)))"

definition hash_prom_rule :: "(string \<Rightarrow> string \<Rightarrow> bool) \<Rightarrow> bool \<Rightarrow> prom_rule \<Rightarrow> string" where
  "hash_prom_rule collate prom_primary rule =
     hash_fingerprint (prom_rule_fingerprint collate rule (\<not> prom_primary))"

section \<open>From rules to identifiers\<close>

definition get_rule_name :: "ruler_rule \<Rightarrow> string" where
  "get_rule_name rule =
     (case rule of Ruler_Grafana _ title \<Rightarrow> title | Ruler_Alerting name _ _ _ \<Rightarrow> name | Ruler_Recording name _ _ \<Rightarrow> name)"

definition location :: "string \<Rightarrow> string \<Rightarrow> string \<Rightarrow> string \<Rightarrow> rule_location" where
  "location source namespace grp name =
     \<lparr>rl_source = source, rl_namespace = namespace, rl_group = grp, rl_name = name\<rparr>"

definition from_ruler_rule ::
  "(string \<Rightarrow> string \<Rightarrow> bool) \<Rightarrow> bool \<Rightarrow> string \<Rightarrow> string \<Rightarrow> string \<Rightarrow> ruler_rule \<Rightarrow> rule_identifier res" where
  "from_ruler_rule collate prom_primary source namespace grp rule =
     (case rule of
        Ruler_Grafana uid _ \<Rightarrow> Inr (Grafana_Rule uid)
      | _ \<Rightarrow> bind_res (hash_ruler_rule collate prom_primary rule)
               (\<lambda>h. Inr (Cloud_Rule (location source namespace grp (get_rule_name rule)) h)))"

datatype group_identifier_v2 =
    Grafana_Group string string
  | Data_Source_Group string string string

definition from_ruler_rule_and_group_v2 ::
  "(string \<Rightarrow> string \<Rightarrow> bool) \<Rightarrow> bool \<Rightarrow> group_identifier_v2 \<Rightarrow> ruler_rule \<Rightarrow> rule_identifier res" where
  "from_ruler_rule_and_group_v2 collate prom_primary grp rule =
     (case grp of
        Grafana_Group _ _ \<Rightarrow>
          (case rule of
             Ruler_Grafana uid _ \<Rightarrow> Inr (Grafana_Rule uid)
           | _ \<Rightarrow> Inl (Js_Error ''Rule is not a Grafana Ruler rule''))
      | Data_Source_Group source namespace name \<Rightarrow>
          from_ruler_rule collate prom_primary source namespace name rule)"

definition from_rule ::
  "(string \<Rightarrow> string \<Rightarrow> bool) \<Rightarrow> bool \<Rightarrow> string \<Rightarrow> string \<Rightarrow> string \<Rightarrow> prom_rule \<Rightarrow> rule_identifier" where
  "from_rule collate prom_primary source namespace grp rule =
     Prometheus_Rule (location source namespace grp (pr_name rule)) (hash_prom_rule collate prom_primary rule)"

definition from_combined_rule ::
  "(string \<Rightarrow> string \<Rightarrow> bool) \<Rightarrow> bool \<Rightarrow> string \<Rightarrow> string \<Rightarrow> string \<Rightarrow> ruler_rule option \<Rightarrow> prom_rule option \<Rightarrow>
   rule_identifier res" where
  "from_combined_rule collate prom_primary source namespace grp ruler prom =
     (case ruler of
        Some r \<Rightarrow> from_ruler_rule collate prom_primary source namespace grp r
      | None \<Rightarrow>
          (case prom of
             Some p \<Rightarrow> Inr (from_rule collate prom_primary source namespace grp p)
           | None \<Rightarrow> Inl (Js_Error ''Could not create an id for a rule that is missing both `rulerRule` and `promRule`.'')))"

definition same_location :: "rule_location \<Rightarrow> rule_location \<Rightarrow> bool" where
  "same_location a b \<longleftrightarrow> rl_group a = rl_group b \<and> rl_namespace a = rl_namespace b \<and> rl_name a = rl_name b"

fun equal_identifiers :: "rule_identifier \<Rightarrow> rule_identifier \<Rightarrow> bool" where
  "equal_identifiers (Grafana_Rule u) (Grafana_Rule v) = (u = v)"
| "equal_identifiers (Cloud_Rule a h) (Cloud_Rule b k) = (same_location a b \<and> h = k \<and> rl_source a = rl_source b)"
| "equal_identifiers (Prometheus_Rule a h) (Prometheus_Rule b k) = (same_location a b \<and> h = k \<and> rl_source a = rl_source b)"
| "equal_identifiers (Cloud_Rule a h) (Prometheus_Rule b k) = (same_location a b \<and> h = k \<and> rl_source a = rl_source b)"
| "equal_identifiers (Prometheus_Rule a h) (Cloud_Rule b k) = (same_location a b \<and> h = k \<and> rl_source a = rl_source b)"
| "equal_identifiers _ _ = False"

section \<open>The text of an identifier\<close>

definition escape_dollars :: "string \<Rightarrow> string" where
  "escape_dollars s = concat (map (\<lambda>c. if c = CHR ''$'' then ''_DOLLAR_'' else [c]) s)"

definition unescape_dollars :: "string \<Rightarrow> string" where
  "unescape_dollars s = replace_all ''_DOLLAR_'' ''$'' s"

definition escape_path_separators :: "string \<Rightarrow> string" where
  "escape_path_separators s =
     map (\<lambda>c. if c = CHR 0x5C then CHR 0x1E else c) (map (\<lambda>c. if c = CHR ''/'' then CHR 0x1F else c) s)"

definition unescape_path_separators :: "string \<Rightarrow> string" where
  "unescape_path_separators s =
     map (\<lambda>c. if c = CHR 0x1E then CHR 0x5C else c) (map (\<lambda>c. if c = CHR 0x1F then CHR ''/'' else c) s)"

definition identifier_parts :: "string \<Rightarrow> rule_location \<Rightarrow> string \<Rightarrow> string list" where
  "identifier_parts prefix l h = [prefix, rl_source l, rl_namespace l, rl_group l, rl_name l, h]"

fun stringify_identifier :: "rule_identifier \<Rightarrow> string" where
  "stringify_identifier (Grafana_Rule uid) = uid"
| "stringify_identifier (Cloud_Rule l h) =
     join_with ''$'' (map (escape_path_separators \<circ> escape_dollars) (identifier_parts ''cri'' l h))"
| "stringify_identifier (Prometheus_Rule l h) =
     join_with ''$'' (map (escape_path_separators \<circ> escape_dollars) (identifier_parts ''pri'' l h))"

definition parse_error :: "string \<Rightarrow> js_error" where
  "parse_error value = Js_Error (''Failed to parse rule location: '' @ value)"

definition parse_source :: "string \<Rightarrow> string \<Rightarrow> rule_identifier res" where
  "parse_source value source =
     (let parts = split_on (CHR ''$'') source in
      if length parts = 1 then Inr (Grafana_Rule value)
      else case map (unescape_path_separators \<circ> unescape_dollars) parts of
        [prefix, src, namespace, grp, name, h] \<Rightarrow>
          (if prefix = ''cri'' then Inr (Cloud_Rule (location src namespace grp name) h)
           else if prefix = ''pri'' then Inr (Prometheus_Rule (location src namespace grp name) h)
           else Inl (parse_error value))
      | _ \<Rightarrow> Inl (parse_error value))"

definition parse_identifier :: "(string \<Rightarrow> string option) \<Rightarrow> string \<Rightarrow> bool \<Rightarrow> rule_identifier res" where
  "parse_identifier decode value decode_from_uri =
     (if decode_from_uri
      then case decode value of None \<Rightarrow> Inl (Js_Error ''URI malformed'') | Some source \<Rightarrow> parse_source value source
      else parse_source value value)"

definition try_parse :: "(string \<Rightarrow> string option) \<Rightarrow> string option \<Rightarrow> bool \<Rightarrow> rule_identifier option" where
  "try_parse decode value decode_from_uri =
     (if nullish value [] = [] then None
      else case parse_identifier decode (the value) decode_from_uri of Inl _ \<Rightarrow> None | Inr i \<Rightarrow> Some i)"

definition rule_source_name :: "rule_identifier \<Rightarrow> string" where
  "rule_source_name i =
     (case i of Grafana_Rule _ \<Rightarrow> ''grafana'' | Cloud_Rule l _ \<Rightarrow> rl_source l | Prometheus_Rule l _ \<Rightarrow> rl_source l)"

definition rule_id_from_pathname :: "string \<Rightarrow> string option \<Rightarrow> string option" where
  "rule_id_from_pathname pathname ident =
     (let parts = split_on (CHR ''/'') pathname in
      if nullish ident [] \<noteq> [] \<and> 2 \<le> length parts then Some (parts ! (length parts - 2)) else None)"

section \<open>Escaping is undone\<close>

text \<open>No \<open>_DOLLAR_\<close> to be mistaken for an escape, and none that an escaped dollar completes.\<close>

fun dollar_safe :: "string \<Rightarrow> bool" where
  "dollar_safe [] = True"
| "dollar_safe (c # s) \<longleftrightarrow>
     \<not> starts_with ''_DOLLAR_'' (c # s) \<and> \<not> starts_with ''_DOLLAR$'' (c # s) \<and> dollar_safe s"

definition separator_free :: "string \<Rightarrow> bool" where
  "separator_free s \<longleftrightarrow> CHR 0x1E \<notin> set s \<and> CHR 0x1F \<notin> set s"

lemma escape_dollars_simps [simp]:
  "escape_dollars [] = []"
  "escape_dollars (c # s) = (if c = CHR ''$'' then ''_DOLLAR_'' else [c]) @ escape_dollars s"
  by (simp_all add: escape_dollars_def)

text \<open>An escaped text that starts with a letter comes from a text that starts with it.\<close>

lemma escape_dollars_head:
  "starts_with (d # p) (escape_dollars s) \<Longrightarrow> d \<noteq> CHR ''_'' \<Longrightarrow> \<exists>t. s = d # t \<and> starts_with p (escape_dollars t)"
  by (cases s) (auto split: if_splits)

lemma escape_dollars_prefix:
  "starts_with (p @ q) (escape_dollars s) \<Longrightarrow> CHR ''_'' \<notin> set p \<Longrightarrow> \<exists>t. s = p @ t \<and> starts_with q (escape_dollars t)"
proof (induction p arbitrary: s)
  case (Cons d p)
  from Cons.prems(1) have "starts_with (d # p @ q) (escape_dollars s)" by (simp only: append_Cons)
  moreover have "d \<noteq> CHR ''_''" "CHR ''_'' \<notin> set p" using Cons.prems(2) by auto
  ultimately obtain u where u: "s = d # u" "starts_with (p @ q) (escape_dollars u)"
    by (blast dest: escape_dollars_head)
  from Cons.IH [OF u(2) \<open>CHR ''_'' \<notin> set p\<close>] u(1) show ?case by auto
qed auto

lemma escape_dollars_underscore:
  "starts_with ''_'' (escape_dollars s) \<Longrightarrow> \<exists>t. s = CHR ''_'' # t \<or> s = CHR ''$'' # t"
  by (cases s) (auto split: if_splits)

lemma escaped_not_confused:
  assumes "dollar_safe (c # s)" "c \<noteq> CHR ''$''"
  shows "\<not> starts_with ''_DOLLAR_'' (c # escape_dollars s)"
proof
  assume "starts_with ''_DOLLAR_'' (c # escape_dollars s)"
  then have c: "c = CHR ''_''" and "starts_with ''DOLLAR_'' (escape_dollars s)"
    unfolding starts_with_Cons by blast+
  then have "starts_with (''DOLLAR'' @ ''_'') (escape_dollars s)" by (simp only: append.simps)
  from escape_dollars_prefix [OF this] obtain t
    where t: "s = ''DOLLAR'' @ t" "starts_with ''_'' (escape_dollars t)" by auto
  from escape_dollars_underscore [OF t(2)] obtain u where "t = CHR ''_'' # u \<or> t = CHR ''$'' # u" by blast
  with assms(1) c t(1) show False by (auto simp: dollar_safe.simps(2))
qed

lemma unescape_escape_dollars: "dollar_safe s \<Longrightarrow> unescape_dollars (escape_dollars s) = s"
proof (induction s)
  case Nil
  then show ?case by (simp add: unescape_dollars_def)
next
  case (Cons c s)
  then have IH: "unescape_dollars (escape_dollars s) = s" by (simp add: dollar_safe.simps(2))
  show ?case
  proof (cases "c = CHR ''$''")
    case True
    have "unescape_dollars (escape_dollars (c # s)) = replace_all ''_DOLLAR_'' ''$'' (''_DOLLAR_'' @ escape_dollars s)"
      using True by (simp add: unescape_dollars_def)
    also have "\<dots> = ''$'' @ replace_all ''_DOLLAR_'' ''$'' (escape_dollars s)"
      by (rule replace_all_match) simp
    finally show ?thesis using IH True by (simp add: unescape_dollars_def)
  next
    case False
    with IH replace_all_skip [OF escaped_not_confused [OF Cons.prems False]] show ?thesis
      by (simp add: unescape_dollars_def)
  qed
qed

definition path_char :: "char \<Rightarrow> char" where
  "path_char c = (if c = CHR ''/'' then CHR 0x1F else if c = CHR 0x5C then CHR 0x1E else c)"

lemma escape_path_map: "escape_path_separators s = map path_char s"
  by (simp add: escape_path_separators_def path_char_def)

lemma path_char_simps [simp]:
  "path_char c = CHR ''$'' \<longleftrightarrow> c = CHR ''$''" "path_char c = CHR ''_'' \<longleftrightarrow> c = CHR ''_''"
  "path_char c = CHR ''D'' \<longleftrightarrow> c = CHR ''D''" "path_char c = CHR ''O'' \<longleftrightarrow> c = CHR ''O''"
  "path_char c = CHR ''L'' \<longleftrightarrow> c = CHR ''L''" "path_char c = CHR ''A'' \<longleftrightarrow> c = CHR ''A''"
  "path_char c = CHR ''R'' \<longleftrightarrow> c = CHR ''R''"
  by (auto simp: path_char_def)

lemma escape_path_escape_dollars:
  "escape_path_separators (escape_dollars s) = escape_dollars (map path_char s)"
  unfolding escape_path_map by (induction s) (simp_all add: path_char_def)

lemma starts_with_path:
  "set p \<subseteq> set ''_DOLAR$'' \<Longrightarrow> starts_with p (map path_char s) = starts_with p s"
proof (induction p arbitrary: s)
  case (Cons d p)
  then show ?case by (cases s) (auto simp: eq_commute [of _ "path_char _"])
qed simp

lemma dollar_safe_path: "dollar_safe (map path_char s) = dollar_safe s"
proof (induction s)
  case (Cons c s)
  have "starts_with ''_DOLLAR_'' (map path_char (c # s)) = starts_with ''_DOLLAR_'' (c # s)"
    "starts_with ''_DOLLAR$'' (map path_char (c # s)) = starts_with ''_DOLLAR$'' (c # s)"
    by (rule starts_with_path; simp)+
  with Cons show ?case unfolding list.map dollar_safe.simps by simp
qed simp

lemma unescape_path_char:
  "separator_free s \<Longrightarrow> unescape_path_separators (map path_char s) = s"
  by (induction s) (auto simp: unescape_path_separators_def path_char_def separator_free_def)

definition part_ok :: "string \<Rightarrow> bool" where
  "part_ok s \<longleftrightarrow> dollar_safe s \<and> separator_free s"

lemma unescape_part:
  "part_ok s \<Longrightarrow> unescape_path_separators (unescape_dollars (escape_path_separators (escape_dollars s))) = s"
  unfolding part_ok_def escape_path_escape_dollars
  by (simp add: unescape_escape_dollars dollar_safe_path unescape_path_char)

lemma no_dollar_in_part: "CHR ''$'' \<notin> set (escape_path_separators (escape_dollars s))"
  unfolding escape_path_escape_dollars by (induction s) (auto simp: eq_commute [of _ "path_char _"])

definition identifier_ok :: "rule_identifier \<Rightarrow> bool" where
  "identifier_ok i \<longleftrightarrow>
     (case i of
        Grafana_Rule uid \<Rightarrow> CHR ''$'' \<notin> set uid
      | Cloud_Rule l h \<Rightarrow> list_all part_ok (identifier_parts ''cri'' l h)
      | Prometheus_Rule l h \<Rightarrow> list_all part_ok (identifier_parts ''pri'' l h))"

lemma parse_parts:
  assumes "list_all part_ok parts"
  shows "map (unescape_path_separators \<circ> unescape_dollars)
    (split_on (CHR ''$'') (join_with ''$'' (map (escape_path_separators \<circ> escape_dollars) parts))) =
    (if parts = [] then [[]] else parts)"
proof (cases "parts = []")
  case True
  then show ?thesis
    by (simp add: unescape_dollars_def unescape_path_separators_def)
next
  case False
  have "split_on (CHR ''$'') (join_with ''$'' (map (escape_path_separators \<circ> escape_dollars) parts)) =
      map (escape_path_separators \<circ> escape_dollars) parts"
    using False by (intro split_on_join) (auto simp: no_dollar_in_part)
  moreover have "map (\<lambda>s. unescape_path_separators (unescape_dollars (escape_path_separators (escape_dollars s)))) parts = parts"
    using assms unescape_part by (induction parts) auto
  ultimately show ?thesis using False by (simp add: comp_def)
qed

section \<open>Comments\<close>

text \<open>Line by line: what is before the first hash sign.\<close>

definition code_of_line :: "string \<Rightarrow> string" where
  "code_of_line = takeWhile (\<lambda>c. c \<noteq> CHR ''#'')"

lemma split_drop_comments:
  "split_on (CHR 0x0A) (drop_comments inside s) =
     (case split_on (CHR 0x0A) s of [] \<Rightarrow> []
      | l # ls \<Rightarrow> (if inside then [] else code_of_line l) # map code_of_line ls)"
proof (induction inside s rule: drop_comments.induct)
  case (1 inside)
  then show ?case by (simp add: code_of_line_def)
next
  case (2 inside c s)
  obtain l ls where s: "split_on (CHR 0x0A) s = l # ls" by (cases "split_on (CHR 0x0A) s") auto
  with 2 show ?case by (auto simp: code_of_line_def)
qed

lemma strip_comments_by_line:
  "strip_promql_comments q =
     join_with [CHR 0x0A] (filter (\<lambda>l. l \<noteq> []) (map (trim \<circ> code_of_line) (split_on (CHR 0x0A) q)))"
  using split_drop_comments [of False q]
  by (cases "split_on (CHR 0x0A) q") (simp_all add: strip_promql_comments_def)

section \<open>Properties\<close>

lemma parse_stringify:
  assumes "identifier_ok i"
  shows "parse_identifier decode (stringify_identifier i) False = Inr i"
proof (cases i)
  case (Grafana_Rule uid)
  then show ?thesis
    using assms by (simp add: parse_identifier_def parse_source_def identifier_ok_def split_on_absent)
next
  case (Cloud_Rule l h)
  then have ok: "list_all part_ok (identifier_parts ''cri'' l h)"
    using assms by (simp add: identifier_ok_def)
  note p = parse_parts [OF ok]
  have "length (split_on (CHR ''$'') (stringify_identifier i)) = 6"
    using arg_cong [OF p, of length] Cloud_Rule by (simp add: identifier_parts_def)
  with p Cloud_Rule show ?thesis
    by (simp add: parse_identifier_def parse_source_def identifier_parts_def location_def Let_def)
next
  case (Prometheus_Rule l h)
  then have ok: "list_all part_ok (identifier_parts ''pri'' l h)"
    using assms by (simp add: identifier_ok_def)
  note p = parse_parts [OF ok]
  have "length (split_on (CHR ''$'') (stringify_identifier i)) = 6"
    using arg_cong [OF p, of length] Prometheus_Rule by (simp add: identifier_parts_def)
  with p Prometheus_Rule show ?thesis
    by (simp add: parse_identifier_def parse_source_def identifier_parts_def location_def Let_def)
qed

interpretation identifier_text: codec stringify_identifier
  "\<lambda>s. case parse_identifier decode s False of Inl _ \<Rightarrow> None | Inr i \<Rightarrow> Some i" identifier_ok for decode
  by unfold_locales (simp add: parse_stringify)

text \<open>
  Round trip: the text of an identifier parses back to it, whatever dollar signs, slashes and
  backslashes its parts hold, when no part contains the escape sequences themselves (the two control
  characters, or \<open>_DOLLAR\<close> followed by an underscore or a dollar sign).
\<close>

theorem identifier_round_trip:
  assumes "identifier_ok i"
  shows "parse_identifier decode (stringify_identifier i) False = Inr i"
  by (rule parse_stringify [OF assms])

lemma identifier_round_trip_witness:
  "parse_identifier (\<lambda>_. None) (stringify_identifier (Cloud_Rule (location ''ds'' ''a/b'' ''g'' ''$x'') ''12'')) False =
     Inr (Cloud_Rule (location ''ds'' ''a/b'' ''g'' ''$x'') ''12'')"
proof (rule identifier_round_trip)
  show "identifier_ok (Cloud_Rule (location ''ds'' ''a/b'' ''g'' ''$x'') ''12'')"
    by code_simp
qed

text \<open>A rule whose name holds the escape sequence of the dollar sign comes back with another name.\<close>

lemma dollar_word_is_lost:
  "parse_identifier decode (stringify_identifier (Prometheus_Rule (location ''ds'' ''ns'' ''g'' ''_DOLLAR_'') ''1'')) False =
     Inr (Prometheus_Rule (location ''ds'' ''ns'' ''g'' ''$'') ''1'')"
  unfolding parse_identifier_def if_False by code_simp

text \<open>
  Comparison of identifiers is an equivalence, and the identifiers that one rule gets from the
  ruler and from Prometheus are equal whenever the two queries have the same hash, or the toggle
  leaves the query out of the fingerprint.
\<close>

theorem identifiers_of_one_rule_equal:
  "equivp equal_identifiers \<and>
   (\<forall>name expr query as ls source namespace grp. prom_primary \<or> hash_query expr = hash_query query \<longrightarrow>
     (\<exists>i. from_ruler_rule collate prom_primary source namespace grp (Ruler_Alerting name expr as ls) = Inr i \<and>
        equal_identifiers i (from_rule collate prom_primary source namespace grp (Prom_Alerting name query as ls))) \<and>
     (\<exists>i. from_ruler_rule collate prom_primary source namespace grp (Ruler_Recording name expr ls) = Inr i \<and>
        equal_identifiers i (from_rule collate prom_primary source namespace grp (Prom_Recording name query ls))))"
proof (intro conjI allI impI)
  have key: "equal_identifiers a b \<longleftrightarrow> k a = k b"
    if "k = (\<lambda>i. case i of Grafana_Rule u \<Rightarrow> Inl u | Cloud_Rule l h \<Rightarrow> Inr (l, h) | Prometheus_Rule l h \<Rightarrow> Inr (l, h))"
    for a b and k :: "rule_identifier \<Rightarrow> string + rule_location \<times> string"
    using that by (cases a; cases b) (auto simp: same_location_def)
  show "equivp equal_identifiers"
    by (rule equivpI) (auto simp: reflp_def symp_def transp_def key [OF refl])
qed (auto simp: from_ruler_rule_def from_rule_def hash_ruler_rule_def hash_prom_rule_def ruler_rule_fingerprint_def
    prom_rule_fingerprint_def get_rule_name_def same_location_def)

lemma identifiers_of_one_rule_equal_witness:
  "\<exists>i. from_ruler_rule (\<le>) False ''ds'' ''ns'' ''g'' (Ruler_Recording ''r'' ''sum(a{})'' None) = Inr i \<and>
     equal_identifiers i (from_rule (\<le>) False ''ds'' ''ns'' ''g'' (Prom_Recording ''r'' ''sum (a)'' None))"
proof -
  have "hash_query ''sum(a{})'' = hash_query ''sum (a)''" by code_simp
  with identifiers_of_one_rule_equal [of False "(\<le>)"] show ?thesis by blast
qed

text \<open>
  The query hash is the sorted text of the normalised query: two queries hash alike exactly when
  their normal forms have the same characters as often, and comments are removed line by line, so that
  a comment appended to any line of a query changes nothing.
\<close>

theorem hash_query_multiset:
  "(hash_query q = hash_query q' \<longleftrightarrow> mset (normalize_query q) = mset (normalize_query q')) \<and>
   strip_promql_comments q =
     join_with [CHR 0x0A] (filter (\<lambda>l. l \<noteq> []) (map (trim \<circ> code_of_line) (split_on (CHR 0x0A) q)))"
proof
  show "hash_query q = hash_query q' \<longleftrightarrow> mset (normalize_query q) = mset (normalize_query q')"
    unfolding hash_query_def by (metis mset_sort properties_for_sort sorted_sort)
qed (rule strip_comments_by_line)

end
