(* ===== verification/Rule_Groups.thy ===== *)
theory Rule_Groups
  imports Rule_Id "HOL-Library.Multiset"
begin

text \<open>
  Edits of a group of alert rules: the reducer \<open>public/app/features/alerting/unified/reducers/ruler/ruleGroups.ts\<close>,
  what the hooks of \<open>hooks/ruleGroup/\<close> send to the server after applying it to the latest definition of the group, and
  the table in which rules are dragged to another place (\<open>group-details/\<close>).

  The group fetched before an edit is an argument (\<open>None\<close> when the server has none), and what is sent is the result.
  What a rule holds besides its identity is a type parameter: \<open>'g\<close> for a Grafana-managed rule, \<open>'c\<close> for one of
  a data source. An index is an integer. \<open>collate\<close> and \<open>prom_primary\<close> are those of the rule fingerprints.
\<close>

section \<open>Rules and groups\<close>

datatype ('g, 'c) post_rule =
    Post_Grafana (po_uid: "string option") (po_paused: "bool option") 'g
  | Post_Recording string string labels 'c
  | Post_Alerting string string labels labels 'c

record ('g, 'c) rule_group =
  rg_name :: string
  rg_interval :: "string option"
  rg_rules :: "('g, 'c) post_rule list"

fun is_grafana_rule :: "('g, 'c) post_rule \<Rightarrow> bool" where
  "is_grafana_rule (Post_Grafana _ _ _) = True"
| "is_grafana_rule _ = False"

text \<open>What the fingerprint of a data source rule reads.\<close>

fun cloud_rule :: "('g, 'c) post_rule \<Rightarrow> ruler_rule" where
  "cloud_rule (Post_Recording name expr ls _) = Ruler_Recording name expr ls"
| "cloud_rule (Post_Alerting name expr as ls _) = Ruler_Alerting name expr as ls"
| "cloud_rule (Post_Grafana uid _ _) = Ruler_Grafana (nullish uid []) []"

definition initial_group :: "('g, 'c) rule_group" where
  "initial_group = \<lparr>rg_name = ''initial'', rg_interval = None, rg_rules = []\<rparr>"

section \<open>Finding a rule\<close>

definition rule_finder :: "(string \<Rightarrow> string \<Rightarrow> bool) \<Rightarrow> bool \<Rightarrow> rule_identifier \<Rightarrow> ('g, 'c) post_rule \<Rightarrow> bool" where
  "rule_finder collate prom_primary ident rule =
     (case ident of
        Grafana_Rule uid \<Rightarrow> is_grafana_rule rule \<and> po_uid rule = Some uid
      | Cloud_Rule _ h \<Rightarrow>
          \<not> is_grafana_rule rule \<and> hash_ruler_rule collate prom_primary (cloud_rule rule) = Inr h
      | Prometheus_Rule _ _ \<Rightarrow> False)"

definition find_rule_index ::
  "(string \<Rightarrow> string \<Rightarrow> bool) \<Rightarrow> bool \<Rightarrow> ('g, 'c) post_rule list \<Rightarrow> rule_identifier \<Rightarrow> nat res" where
  "find_rule_index collate prom_primary rules ident =
     (case find_index (rule_finder collate prom_primary ident) rules of
        None \<Rightarrow> Inl (Js_Error ''no rule matching identifier found'')
      | Some i \<Rightarrow> Inr i)"

section \<open>Moving rules within the group\<close>

type_synonym swap_operation = "int \<times> int"

text \<open>\<open>inRange(n, end)\<close> of lodash, for an end that is not negative.\<close>

definition in_range :: "int \<Rightarrow> nat \<Rightarrow> bool" where
  "in_range i n \<longleftrightarrow> 0 \<le> i \<and> i < int n"

definition swap_items :: "'a list \<Rightarrow> swap_operation \<Rightarrow> 'a list res" where
  "swap_items items swap =
     (let (old, new) = swap in
      if \<not> (in_range old (length items) \<and> in_range new (length items))
      then Inl (Js_Error ''Invalid operation: index out of bounds'')
      else Inr (insert_at (nat new) (items ! nat old) (remove_at (nat old) items)))"

fun reorder :: "'a list \<Rightarrow> swap_operation list \<Rightarrow> 'a list res" where
  "reorder items [] = Inr items"
| "reorder items (swap # swaps) = bind_res (swap_items items swap) (\<lambda>items'. reorder items' swaps)"

section \<open>The reducer\<close>

datatype ('g, 'c) group_action =
    Add_Rule "('g, 'c) post_rule" "string option" "string option"   \<comment> \<open>rule, group name, interval\<close>
  | Update_Rule rule_identifier "('g, 'c) post_rule"
  | Pause_Rule string bool
  | Delete_Rule rule_identifier
  | Update_Group "string option"
  | Move_Group string "string option" "string option"               \<comment> \<open>namespace, group name, interval\<close>
  | Rename_Group string "string option"
  | Reorder_Rules "swap_operation list"

definition named :: "string option \<Rightarrow> string option \<Rightarrow> ('g, 'c) rule_group \<Rightarrow> ('g, 'c) rule_group" where
  "named group_name interval g =
     g\<lparr>rg_name := nullish group_name (rg_name g),
       rg_interval := (case interval of None \<Rightarrow> rg_interval g | Some i \<Rightarrow> Some i)\<rparr>"

fun rule_group_reducer ::
  "(string \<Rightarrow> string \<Rightarrow> bool) \<Rightarrow> bool \<Rightarrow> ('g, 'c) rule_group \<Rightarrow> ('g, 'c) group_action \<Rightarrow> ('g, 'c) rule_group res" where
  "rule_group_reducer collate pp g (Add_Rule rule group_name interval) =
     Inr (named group_name interval (g\<lparr>rg_rules := rg_rules g @ [rule]\<rparr>))"
| "rule_group_reducer collate pp g (Update_Rule ident rule) =
     bind_res (find_rule_index collate pp (rg_rules g) ident) (\<lambda>i. Inr (g\<lparr>rg_rules := (rg_rules g)[i := rule]\<rparr>))"
| "rule_group_reducer collate pp g (Delete_Rule ident) =
     bind_res (find_rule_index collate pp (rg_rules g) ident) (\<lambda>i. Inr (g\<lparr>rg_rules := remove_at i (rg_rules g)\<rparr>))"
| "rule_group_reducer collate pp g (Pause_Rule uid pause) =
     bind_res (find_rule_index collate pp (rg_rules g) (Grafana_Rule uid)) (\<lambda>i.
       case rg_rules g ! i of
         Post_Grafana u _ x \<Rightarrow> Inr (g\<lparr>rg_rules := (rg_rules g)[i := Post_Grafana u (Some pause) x]\<rparr>)
       | _ \<Rightarrow> Inl (Js_Error ''Matching rule is not a Grafana-managed rule''))"
| "rule_group_reducer collate pp g (Reorder_Rules swaps) =
     bind_res (reorder (rg_rules g) swaps) (\<lambda>rules. Inr (g\<lparr>rg_rules := rules\<rparr>))"
| "rule_group_reducer collate pp g (Update_Group interval) = Inr (named None interval g)"
| "rule_group_reducer collate pp g (Move_Group namespace group_name interval) = Inr (named group_name interval g)"
| "rule_group_reducer collate pp g (Rename_Group group_name interval) = Inr (named (Some group_name) interval g)"

section \<open>What the hooks send\<close>

definition create_blank_rule_group :: "string \<Rightarrow> string \<Rightarrow> ('g, 'c) rule_group" where
  "create_blank_rule_group default_interval n = \<lparr>rg_name = n, rg_interval = Some default_interval, rg_rules = []\<rparr>"

text \<open>An added rule leaves the interval of an existing group alone.\<close>

definition keep_interval :: "('g, 'c) rule_group option \<Rightarrow> ('g, 'c) group_action \<Rightarrow> ('g, 'c) group_action" where
  "keep_interval latest a =
     (case latest of None \<Rightarrow> a
      | Some l \<Rightarrow> (case a of Add_Rule rule group_name _ \<Rightarrow> Add_Rule rule group_name (rg_interval l) | _ \<Rightarrow> a))"

fun apply_actions ::
  "(string \<Rightarrow> string \<Rightarrow> bool) \<Rightarrow> bool \<Rightarrow> ('g, 'c) rule_group \<Rightarrow> ('g, 'c) group_action list \<Rightarrow> ('g, 'c) rule_group res" where
  "apply_actions collate pp g [] = Inr g"
| "apply_actions collate pp g (a # as) =
     bind_res (rule_group_reducer collate pp g a) (\<lambda>g'. apply_actions collate pp g' as)"

definition produce_new_rule_group ::
  "(string \<Rightarrow> string \<Rightarrow> bool) \<Rightarrow> bool \<Rightarrow> string \<Rightarrow> ('g, 'c) rule_group option \<Rightarrow> string \<Rightarrow> ('g, 'c) group_action list \<Rightarrow>
   ('g, 'c) rule_group res" where
  "produce_new_rule_group collate pp default_interval latest group_name actions =
     apply_actions collate pp (nullish latest (create_blank_rule_group default_interval group_name))
       (map (keep_interval latest) actions)"

record group_delta =
  gd_namespace :: "string option"
  gd_name :: "string option"
  gd_interval :: "string option"
  gd_swaps :: "swap_operation list option"

text \<open>A text counts as given when it is not empty, a list of moves when it is there.\<close>

definition given :: "string option \<Rightarrow> bool" where
  "given v \<longleftrightarrow> nullish v [] \<noteq> []"

definition update_actions :: "bool \<Rightarrow> group_delta \<Rightarrow> ('g, 'c) group_action list res" where
  "update_actions grafana_source delta =
     (if given (gd_namespace delta) \<and> grafana_source
      then Inl (Js_Error ''Moving a Grafana-managed rule group to another folder is currently not supported.'')
      else Inr
        ((if given (gd_namespace delta) then [Move_Group (the (gd_namespace delta)) None None] else []) @
         (if given (gd_name delta) then [Rename_Group (the (gd_name delta)) None] else []) @
         (if given (gd_interval delta) then [Update_Group (gd_interval delta)] else []) @
         (case gd_swaps delta of None \<Rightarrow> [] | Some swaps \<Rightarrow> [Reorder_Rules swaps])))"

definition copy_grafana_uid :: "rule_identifier \<Rightarrow> ('g, 'c) post_rule \<Rightarrow> ('g, 'c) post_rule" where
  "copy_grafana_uid ident rule =
     (case (ident, rule) of
        (Grafana_Rule uid, Post_Grafana _ p x) \<Rightarrow> Post_Grafana (Some uid) p x
      | _ \<Rightarrow> rule)"

datatype ('g, 'c) group_request = Upsert "('g, 'c) rule_group" | Remove_Group

definition delete_rule_from_group ::
  "(string \<Rightarrow> string \<Rightarrow> bool) \<Rightarrow> bool \<Rightarrow> string \<Rightarrow> ('g, 'c) rule_group option \<Rightarrow> string \<Rightarrow> rule_identifier \<Rightarrow>
   ('g, 'c) group_request res" where
  "delete_rule_from_group collate pp default_interval latest group_name ident =
     bind_res (produce_new_rule_group collate pp default_interval latest group_name [Delete_Rule ident])
       (\<lambda>g. Inr (if rg_rules g = [] then Remove_Group else Upsert g))"

definition update_rule_in_group ::
  "(string \<Rightarrow> string \<Rightarrow> bool) \<Rightarrow> bool \<Rightarrow> string \<Rightarrow> ('g, 'c) rule_group option \<Rightarrow> string \<Rightarrow> rule_identifier \<Rightarrow> ('g, 'c) post_rule \<Rightarrow>
   ('g, 'c) group_request res" where
  "update_rule_in_group collate pp default_interval latest group_name ident rule =
     bind_res (produce_new_rule_group collate pp default_interval latest group_name
         [Update_Rule ident (copy_grafana_uid ident rule)]) (\<lambda>g. Inr (Upsert g))"

text \<open>The rule is added to the target first, and stays there if a later request fails; a rule of a data source is then deleted from its own group, whose latest
  definition is fetched after that. A Grafana-managed rule is moved by the server, which knows it by its \<open>uid\<close>.\<close>

datatype ('g, 'c) sent_request = To_Target "('g, 'c) group_request" | To_Current "('g, 'c) group_request"

definition move_rule ::
  "(string \<Rightarrow> string \<Rightarrow> bool) \<Rightarrow> bool \<Rightarrow> string \<Rightarrow> ('g, 'c) rule_group option \<Rightarrow> string \<Rightarrow> ('g, 'c) rule_group option \<Rightarrow> string \<Rightarrow>
   rule_identifier \<Rightarrow> ('g, 'c) post_rule \<Rightarrow> string option \<Rightarrow> ('g, 'c) sent_request list \<times> js_error option" where
  "move_rule collate pp default_interval target target_name current current_name ident rule interval =
     (case produce_new_rule_group collate pp default_interval target target_name
             [Add_Rule (copy_grafana_uid ident rule) None interval] of
        Inl e \<Rightarrow> ([], Some e)
      | Inr t \<Rightarrow> (case ident of
            Grafana_Rule _ \<Rightarrow> ([To_Target (Upsert t)], None)
          | _ \<Rightarrow> (case delete_rule_from_group collate pp default_interval current current_name ident of
                Inl e \<Rightarrow> ([To_Target (Upsert t)], Some e)
              | Inr request \<Rightarrow> ([To_Target (Upsert t), To_Current request], None))))"

section \<open>The table of rules\<close>

text \<open>The rules shown and the moves the form collects. \<open>None\<close> is a drop outside the table.\<close>

definition on_drag_end :: "nat \<Rightarrow> nat option \<Rightarrow> 'a list \<times> swap_operation list \<Rightarrow> ('a list \<times> swap_operation list) res" where
  "on_drag_end source destination table =
     (case destination of
        None \<Rightarrow> Inr table
      | Some d \<Rightarrow> bind_res (swap_items (fst table) (int source, int d))
                    (\<lambda>rules. Inr (rules, snd table @ [(int source, int d)])))"

fun drags :: "(nat \<times> nat option) list \<Rightarrow> 'a list \<times> swap_operation list \<Rightarrow> ('a list \<times> swap_operation list) res" where
  "drags [] table = Inr table"
| "drags ((s, d) # ds) table = bind_res (on_drag_end s d table) (drags ds)"

text \<open>The form around the table, and which of its fields have been edited.\<close>

record group_form =
  gf_name :: string
  gf_interval :: string
  gf_namespace :: "string option"

record dirty_fields =
  dirty_name :: bool
  dirty_interval :: bool
  dirty_namespace :: bool

definition saved_delta :: "dirty_fields \<Rightarrow> group_form \<Rightarrow> swap_operation list \<Rightarrow> group_delta" where
  "saved_delta dirty form operations =
     \<lparr>gd_namespace = (if dirty_namespace dirty then gf_namespace form else None),
      gd_name = (if dirty_name dirty then Some (gf_name form) else None),
      gd_interval = (if dirty_interval dirty then Some (gf_interval form) else None),
      gd_swaps = (if operations = [] then None else Some operations)\<rparr>"

definition untouched :: dirty_fields where
  "untouched = \<lparr>dirty_name = False, dirty_interval = False, dirty_namespace = False\<rparr>"

section \<open>Moves\<close>

lemma swap_items_ok:
  "(\<exists>ys. swap_items xs (a, b) = Inr ys) \<longleftrightarrow> in_range a (length xs) \<and> in_range b (length xs)"
  by (auto simp: swap_items_def)

lemma swap_items_perm: "swap_items xs s = Inr ys \<Longrightarrow> mset ys = mset xs \<and> length ys = length xs"
proof -
  obtain a b where s: "s = (a, b)" by (cases s)
  assume "swap_items xs s = Inr ys"
  then have r: "in_range a (length xs)" and ys: "ys = insert_at (nat b) (xs ! nat a) (remove_at (nat a) xs)"
    by (auto simp: swap_items_def s split: if_splits)
  have a: "nat a < length xs" using r by (auto simp: in_range_def)
  have ins: "mset (insert_at i x zs) = add_mset x (mset zs)" for i and x :: 'a and zs
    unfolding insert_at_def by (metis append_take_drop_id mset.simps(2) mset_append union_mset_add_mset_right)
  have "mset xs = add_mset (xs ! nat a) (mset (remove_at (nat a) xs))"
    using insert_remove_at [OF a] ins by metis
  then show "mset ys = mset xs \<and> length ys = length xs"
    using a by (simp add: ys ins length_remove_at)
qed

lemma remove_at_insert_at: "i \<le> length xs \<Longrightarrow> insert_at i x xs ! i = x \<and> remove_at i (insert_at i x xs) = xs"
  by (simp add: nth_insert_at_same remove_insert_at)

lemma swap_items_places:
  assumes "swap_items xs (a, b) = Inr ys"
  shows "ys ! nat b = xs ! nat a \<and> remove_at (nat b) ys = remove_at (nat a) xs"
proof -
  from assms have r: "in_range a (length xs)" "in_range b (length xs)"
    and ys: "ys = insert_at (nat b) (xs ! nat a) (remove_at (nat a) xs)"
    by (auto simp: swap_items_def split: if_splits)
  then have "nat b \<le> length (remove_at (nat a) xs)"
    by (auto simp: in_range_def length_remove_at)
  then show ?thesis using remove_at_insert_at by (simp add: ys)
qed

lemma swap_items_back: "swap_items xs s = Inr ys \<Longrightarrow> swap_items ys (prod.swap s) = Inr xs"
proof -
  obtain a b where s: "s = (a, b)" by (cases s)
  assume swap: "swap_items xs s = Inr ys"
  then have r: "in_range a (length xs)" "in_range b (length xs)"
    and ys: "ys = insert_at (nat b) (xs ! nat a) (remove_at (nat a) xs)"
    by (auto simp: swap_items_def s split: if_splits)
  have a: "nat a < length xs" and b: "nat b \<le> length (remove_at (nat a) xs)"
    using r by (auto simp: in_range_def length_remove_at)
  have "length ys = length xs" using swap_items_perm [OF swap] by simp
  then show "swap_items ys (prod.swap s) = Inr xs"
    using r remove_at_insert_at [OF b, of "xs ! nat a"] insert_remove_at [OF a]
    by (simp add: swap_items_def s ys)
qed

lemma reorder_append: "reorder xs (ss @ ts) = bind_res (reorder xs ss) (\<lambda>ys. reorder ys ts)"
proof (induction ss arbitrary: xs)
  case (Cons s ss)
  then show ?case by (cases "swap_items xs s") auto
qed simp

lemma reorder_facts:
  "reorder xs ss = Inr ys \<Longrightarrow> mset ys = mset xs \<and> length ys = length xs \<and> reorder ys (rev (map prod.swap ss)) = Inr xs"
proof (induction ss arbitrary: xs)
  case (Cons s ss)
  then obtain zs where zs: "swap_items xs s = Inr zs" "reorder zs ss = Inr ys"
    by (auto simp: bind_res_Inr_iff)
  with Cons.IH [OF zs(2)] swap_items_perm [OF zs(1)] swap_items_back [OF zs(1)] show ?case
    by (simp add: reorder_append)
qed simp

lemma reorder_ok: "(\<exists>ys. reorder xs ss = Inr ys) \<longleftrightarrow> (\<forall>(a, b) \<in> set ss. in_range a (length xs) \<and> in_range b (length xs))"
proof (induction ss arbitrary: xs)
  case (Cons s ss)
  obtain a b where s: "s = (a, b)" by (cases s)
  show ?case
  proof (cases "swap_items xs s")
    case (Inl e)
    then have "\<not> (in_range a (length xs) \<and> in_range b (length xs))"
      using swap_items_ok [of xs a b] s by auto
    with Inl s show ?thesis by auto
  next
    case (Inr zs)
    then have "in_range a (length xs) \<and> in_range b (length xs)" "length zs = length xs"
      using swap_items_ok [of xs a b] swap_items_perm [OF Inr] s by auto
    with Inr s Cons.IH [of zs] show ?thesis by simp
  qed
qed simp

lemma drags_reorder:
  "drags ds (rules, ops) = Inr (rules', ops') \<Longrightarrow> \<exists>ss. ops' = ops @ ss \<and> reorder rules ss = Inr rules'"
proof (induction ds arbitrary: rules ops)
  case (Cons d ds)
  obtain s to where d: "d = (s, to)" by (cases d)
  show ?case
  proof (cases to)
    case None
    with Cons d show ?thesis by (simp add: on_drag_end_def)
  next
    case (Some k)
    with Cons.prems d obtain r1 where r1: "swap_items rules (int s, int k) = Inr r1"
      and rest: "drags ds (r1, ops @ [(int s, int k)]) = Inr (rules', ops')"
      by (auto simp: on_drag_end_def bind_res_Inr_iff)
    from Cons.IH [OF rest] obtain ss where "ops' = (ops @ [(int s, int k)]) @ ss" "reorder r1 ss = Inr rules'"
      by blast
    with r1 show ?thesis by (intro exI [of _ "(int s, int k) # ss"]) simp
  qed
qed simp

section \<open>Edits of one rule\<close>

lemma find_rule_index_iff:
  "find_rule_index collate pp rules ident = Inr i \<longleftrightarrow> find_index (rule_finder collate pp ident) rules = Some i"
  by (simp add: find_rule_index_def split: option.splits)

lemma find_rule_index_fails:
  "(\<exists>e. find_rule_index collate pp rules ident = Inl e) \<longleftrightarrow> (\<forall>r \<in> set rules. \<not> rule_finder collate pp ident r)"
  by (simp add: find_rule_index_def find_index_None_iff [symmetric] split: option.splits)

lemma rule_index_update: "find_index P xs = Some i \<Longrightarrow> P y \<Longrightarrow> find_index P (xs[i := y]) = Some i"
  by (induction xs arbitrary: i) (auto split: if_splits)

lemma grafana_rule_at:
  assumes "find_index (rule_finder collate pp (Grafana_Rule uid)) rules = Some i"
  obtains p x where "rules ! i = Post_Grafana (Some uid) p x"
  using find_index_SomeD [OF assms] by (cases "rules ! i") (auto simp: rule_finder_def)

lemma keep_interval_simps [simp]:
  "keep_interval latest (Update_Rule ident rule) = Update_Rule ident rule"
  "keep_interval latest (Delete_Rule ident) = Delete_Rule ident"
  "keep_interval latest (Reorder_Rules swaps) = Reorder_Rules swaps"
  by (simp_all add: keep_interval_def split: option.splits)

lemma mset_remove_at: "i < length xs \<Longrightarrow> add_mset (xs ! i) (mset (remove_at i xs)) = mset xs"
  by (metis id_take_nth_drop mset.simps(2) mset_append remove_at_def union_mset_add_mset_right)

section \<open>Properties\<close>

text \<open>
  C24. Whatever rules are dragged where in the table, saving the form, whose other fields are as they were, sends the
  group in exactly the order the table shows, as long as nobody changed the group meanwhile: a permutation of its rules. Dragging backwards restores it. A
  list of moves is refused exactly when one of them
  leaves the table.
\<close>

theorem dragged_order_is_saved:
  assumes "drags ds (rg_rules g, []) = Inr (shown, operations)" and "rg_rules g = rules"
  shows "\<exists>actions. update_actions grafana_source (saved_delta untouched form operations) = Inr actions \<and>
      produce_new_rule_group collate pp default_interval (Some g) group_name actions = Inr (g\<lparr>rg_rules := shown\<rparr>) \<and>
      mset shown = mset rules \<and> reorder shown (rev (map prod.swap operations)) = Inr rules \<and>
      ((\<exists>ys. reorder rules swaps = Inr ys) \<longleftrightarrow>
        (\<forall>(a, b) \<in> set swaps. in_range a (length rules) \<and> in_range b (length rules))) \<and>
      (\<forall>a b ys. swap_items rules (a, b) = Inr ys \<longrightarrow>
        ys ! nat b = rules ! nat a \<and> remove_at (nat b) ys = remove_at (nat a) rules)"
proof -
  have one: "ys ! nat b = rules ! nat a \<and> remove_at (nat b) ys = remove_at (nat a) rules"
    if "swap_items rules (a, b) = Inr ys" for a b ys
    using swap_items_places [OF that] .
  have r: "reorder rules operations = Inr shown"
    using drags_reorder [OF assms(1)] assms(2) by auto
  show ?thesis
  proof (cases "operations = []")
    case True
    with r assms(2) reorder_ok [of rules swaps] one show ?thesis
      by (simp add: saved_delta_def untouched_def update_actions_def given_def produce_new_rule_group_def)
  next
    case False
    with r assms(2) reorder_facts [OF r] one show ?thesis
      by (simp add: saved_delta_def untouched_def update_actions_def given_def produce_new_rule_group_def reorder_ok)
  qed
qed

definition sample_group :: "(string, unit) rule_group" where
  "sample_group = \<lparr>rg_name = ''g'', rg_interval = Some ''1m'',
     rg_rules = [Post_Grafana (Some ''a'') None [], Post_Grafana (Some ''b'') None [], Post_Grafana (Some ''c'') None []]\<rparr>"

lemma dragged_order_is_saved_witness:
  "\<exists>actions. update_actions True (saved_delta untouched \<lparr>gf_name = ''g'', gf_interval = ''1m'', gf_namespace = None\<rparr> [(0, 2)]) = Inr actions \<and>
     produce_new_rule_group (\<le>) True ''1m'' (Some sample_group) ''g'' actions =
       Inr (sample_group\<lparr>rg_rules := [Post_Grafana (Some ''b'') None [], Post_Grafana (Some ''c'') None [], Post_Grafana (Some ''a'') None []]\<rparr>)"
proof -
  have "drags [(0, Some 2), (1, None)] (rg_rules sample_group, []) =
      Inr ([Post_Grafana (Some ''b'') None [], Post_Grafana (Some ''c'') None [], Post_Grafana (Some ''a'') None []], [(0, 2)])"
    by (simp add: sample_group_def on_drag_end_def swap_items_def in_range_def insert_at_def remove_at_def)
  from dragged_order_is_saved [OF this refl, of True] show ?thesis by blast
qed

text \<open>
  Editing one rule of a group: an edit fails exactly when no rule has the identifier, and otherwise touches the
  first such rule alone; deleting the last rule removes the group. A saved Grafana-managed rule is found again under
  its identifier at its place, and pausing it changes the flag alone.
\<close>

theorem rule_edits_are_local:
  assumes "rg_rules g = rules"
  shows "(case find_index (rule_finder collate pp ident) rules of
      None \<Rightarrow>
        (\<exists>e. update_rule_in_group collate pp default_interval (Some g) n ident rule = Inl e) \<and>
        (\<exists>e. delete_rule_from_group collate pp default_interval (Some g) n ident = Inl e)
    | Some i \<Rightarrow>
        update_rule_in_group collate pp default_interval (Some g) n ident rule =
          Inr (Upsert (g\<lparr>rg_rules := rules[i := copy_grafana_uid ident rule]\<rparr>)) \<and>
        delete_rule_from_group collate pp default_interval (Some g) n ident =
          Inr (if length rules = 1 then Remove_Group else Upsert (g\<lparr>rg_rules := remove_at i rules\<rparr>)) \<and>
        (\<forall>uid. ident = Grafana_Rule uid \<and> is_grafana_rule rule \<longrightarrow>
          find_index (rule_finder collate pp ident) (rules[i := copy_grafana_uid ident rule]) = Some i) \<and>
        (\<forall>uid pause. ident = Grafana_Rule uid \<longrightarrow> (\<exists>p x. rules ! i = Post_Grafana (Some uid) p x \<and>
          rule_group_reducer collate pp g (Pause_Rule uid pause) =
            Inr (g\<lparr>rg_rules := rules[i := Post_Grafana (Some uid) (Some pause) x]\<rparr>))))"
proof (cases "find_index (rule_finder collate pp ident) rules")
  case None
  then have "find_rule_index collate pp rules ident = Inl (Js_Error ''no rule matching identifier found'')"
    by (simp add: find_rule_index_def)
  with assms None show ?thesis
    by (simp add: update_rule_in_group_def delete_rule_from_group_def produce_new_rule_group_def)
next
  case (Some i)
  then have found: "find_rule_index collate pp rules ident = Inr i" by (simp add: find_rule_index_iff)
  have i: "i < length rules" using find_index_SomeD [OF Some] by blast
  then have "remove_at i rules = [] \<longleftrightarrow> length rules = 1"
    using length_remove_at [OF i] by (cases "remove_at i rules") auto
  moreover have "find_index (rule_finder collate pp ident) (rules[i := copy_grafana_uid ident rule]) = Some i"
    if "ident = Grafana_Rule uid" "is_grafana_rule rule" for uid
    using that by (intro rule_index_update [OF Some]) (cases rule, auto simp: rule_finder_def copy_grafana_uid_def)
  moreover have "\<exists>p x. rules ! i = Post_Grafana (Some uid) p x \<and>
      rule_group_reducer collate pp g (Pause_Rule uid pause) =
        Inr (g\<lparr>rg_rules := rules[i := Post_Grafana (Some uid) (Some pause) x]\<rparr>)"
    if uid: "ident = Grafana_Rule uid" for uid pause
  proof -
    obtain p x where "rules ! i = Post_Grafana (Some uid) p x"
      using grafana_rule_at Some [unfolded uid] by blast
    with found assms uid show ?thesis by simp
  qed
  ultimately show ?thesis
    using Some found assms
    by (simp add: update_rule_in_group_def delete_rule_from_group_def produce_new_rule_group_def)
qed

lemma rule_edits_are_local_witness:
  "delete_rule_from_group (\<le>) True ''1m'' (Some sample_group) ''g'' (Grafana_Rule ''b'') =
     Inr (Upsert (sample_group\<lparr>rg_rules := [Post_Grafana (Some ''a'') None [], Post_Grafana (Some ''c'') None []]\<rparr>))"
  using rule_edits_are_local [of sample_group "rg_rules sample_group" "(\<le>)" True "''1m''" "''g''" "Grafana_Rule ''b''" "Post_Grafana None None []", OF refl]
  by (simp add: sample_group_def rule_finder_def remove_at_def)

text \<open>A rule that is moved arrives in the target whatever happens next; its own group loses at most that rule.\<close>

lemma moved_rule_arrives:
  assumes "move_rule collate pp default_interval (Some t) tn (Some c) cn ident rule interval = (sent, e)"
  shows "sent \<noteq> [] \<and> hd sent = To_Target (Upsert (t\<lparr>rg_rules := rg_rules t @ [copy_grafana_uid ident rule]\<rparr>)) \<and>
    (\<forall>c'. To_Current (Upsert c') \<in> set sent \<longrightarrow> (\<exists>r. rule_finder collate pp ident r \<and> mset (rg_rules c) = add_mset r (mset (rg_rules c'))))"
proof -
  have add: "produce_new_rule_group collate pp default_interval (Some t) tn [Add_Rule (copy_grafana_uid ident rule) None interval] =
      Inr (t\<lparr>rg_rules := rg_rules t @ [copy_grafana_uid ident rule]\<rparr>)"
    by (cases "rg_interval t") (simp_all add: produce_new_rule_group_def keep_interval_def named_def)
  have del: "\<exists>r. rule_finder collate pp ident r \<and> mset (rg_rules c) = add_mset r (mset (rg_rules c'))"
    if "delete_rule_from_group collate pp default_interval (Some c) cn ident = Inr (Upsert c')" for c'
  proof -
    from that obtain i where i: "find_index (rule_finder collate pp ident) (rg_rules c) = Some i"
      "rg_rules c' = remove_at i (rg_rules c)"
      by (auto simp: delete_rule_from_group_def produce_new_rule_group_def bind_res_Inr_iff find_rule_index_iff split: if_splits)
    with find_index_SomeD [OF i(1)] mset_remove_at [of i "rg_rules c"] show ?thesis
      by (intro exI [of _ "rg_rules c ! i"]) auto
  qed
  show ?thesis
    using assms add del by (cases ident) (auto simp: move_rule_def split: sum.splits)
qed

end
