(* ===== verification/Am_Config.thy ===== *)
theory Am_Config
  imports Route_Tree
begin

text \<open>
  The edits of an Alertmanager configuration: the four reducers of
  \<open>public/app/features/alerting/unified/reducers/alertmanager/\<close> for contact points, notification policies, mute
  timings and notification templates, with the walks over the policy tree they use
  (\<open>utils/notification-policies.ts\<close>, \<open>utils/alertmanager.ts\<close>) and \<open>ensureDefine\<close> of \<open>utils/templates.ts\<close>.

  A reducer maps a configuration and an action to the next configuration or to what it throws; a draft that throws
  is discarded, so the configuration stays. What a contact point holds besides its name is the type parameter \<open>'r\<close>.
  \<open>unset\<close> of lodash is modelled on a name the object has; a name it does not have is left alone.
\<close>

section \<open>The configuration\<close>

record 'r receiver =
  rc_name :: string
  rc_config :: 'r

record time_range =
  tr_start_time :: string
  tr_end_time :: string

record time_interval =
  ti_times :: "time_range list option"
  ti_weekdays :: "string list option"
  ti_days_of_month :: "string list option"
  ti_months :: "string list option"
  ti_years :: "string list option"
  ti_location :: "string option"

record mute_time_interval =
  mi_name :: string
  mi_time_intervals :: "time_interval list"
  mi_provisioned :: "bool option"

record 'r am_config =
  ac_template_files :: "string jobj option"
  ac_templates :: "string list option"
  ac_route :: "am_route option"
  ac_receivers :: "'r receiver list option"
  ac_mute_time_intervals :: "mute_time_interval list option"
  ac_time_intervals :: "mute_time_interval list option"

definition initial_config :: "'r am_config" where
  "initial_config =
     \<lparr>ac_template_files = Some [], ac_templates = None, ac_route = None, ac_receivers = None,
      ac_mute_time_intervals = None, ac_time_intervals = None\<rparr>"

definition add_defaults :: "'r \<Rightarrow> 'r am_config \<Rightarrow> 'r am_config res" where
  "add_defaults none cfg =
     (let rs = nullish (ac_receivers cfg) [\<lparr>rc_name = ''default '', rc_config = none\<rparr>] in
      bind_res (case ac_route cfg of
                  Some r \<Rightarrow> Inr r
                | None \<Rightarrow> (case rs of [] \<Rightarrow> Inl Js_TypeError
                    | r # _ \<Rightarrow> Inr (Am_Route None (empty_fields\<lparr>af_receiver := Some (rc_name r)\<rparr>) None)))
        (\<lambda>route. Inr (cfg\<lparr>ac_receivers := Some rs, ac_route := Some route,
           ac_template_files := Some (nullish (ac_template_files cfg) [])\<rparr>)))"

section \<open>Contact points\<close>

function rename_receiver_in_route :: "am_route \<Rightarrow> string \<Rightarrow> string \<Rightarrow> am_route" where
  "rename_receiver_in_route (Am_Route i f rs) old new =
     Am_Route i (if af_receiver f = Some old then f\<lparr>af_receiver := Some new\<rparr> else f)
       (case rs of None \<Rightarrow> None | Some cs \<Rightarrow> Some (map (\<lambda>c. rename_receiver_in_route c old new) cs))"
  by pat_completeness auto
termination
  by (relation "measure (\<lambda>(r, _, _). size r)") (auto intro: size_child)

datatype 'r receiver_action =
    Add_Receiver "'r receiver"
  | Update_Receiver string "'r receiver"
  | Delete_Receiver string

definition has_receiver :: "string \<Rightarrow> 'r receiver list \<Rightarrow> bool" where
  "has_receiver n rs = list_ex (\<lambda>r. rc_name r = n) rs"

definition add_receiver :: "'r receiver \<Rightarrow> 'r am_config \<Rightarrow> 'r am_config res" where
  "add_receiver r cfg =
     (let current = nullish (ac_receivers cfg) [] in
      if has_receiver (rc_name r) current then Inl (Js_Error (''Duplicate receiver name '' @ rc_name r))
      else Inr (cfg\<lparr>ac_receivers := Some (current @ [r])\<rparr>))"

definition update_receiver :: "string \<Rightarrow> 'r receiver \<Rightarrow> 'r am_config \<Rightarrow> 'r am_config res" where
  "update_receiver n r cfg =
     (let rs = nullish (ac_receivers cfg) []; renaming = (n \<noteq> rc_name r) in
      case find_index (\<lambda>x. rc_name x = n) rs of
        None \<Rightarrow> Inl (Js_Error (''Expected receiver '' @ n @ '' to exist, but did not find it in the config''))
      | Some i \<Rightarrow>
          if renaming \<and> has_receiver (rc_name r) rs
          then Inl (Js_Error (''Duplicate receiver name '' @ rc_name r))
          else Inr (cfg\<lparr>ac_receivers := Some (rs[i := r]),
                 ac_route := (if renaming then map_option (\<lambda>t. rename_receiver_in_route t n (rc_name r)) (ac_route cfg)
                              else ac_route cfg)\<rparr>))"

definition delete_receiver :: "string \<Rightarrow> 'r am_config \<Rightarrow> 'r am_config" where
  "delete_receiver n cfg =
     cfg\<lparr>ac_receivers := map_option (filter (\<lambda>r. rc_name r \<noteq> n)) (ac_receivers cfg)\<rparr>"

fun receivers_reducer :: "'r am_config \<Rightarrow> 'r receiver_action \<Rightarrow> 'r am_config res" where
  "receivers_reducer cfg (Add_Receiver r) = add_receiver r cfg"
| "receivers_reducer cfg (Update_Receiver n r) = update_receiver n r cfg"
| "receivers_reducer cfg (Delete_Receiver n) = Inr (delete_receiver n cfg)"

section \<open>Mute timings\<close>

function rename_time_interval :: "string \<Rightarrow> string \<Rightarrow> am_route \<Rightarrow> am_route" where
  "rename_time_interval new old (Am_Route i f rs) =
     Am_Route i
       (f\<lparr>af_mute_time_intervals := map_option (map (\<lambda>n. if n = old then new else n)) (af_mute_time_intervals f),
          af_active_time_intervals := map_option (map (\<lambda>n. if n = old then new else n)) (af_active_time_intervals f)\<rparr>)
       (case rs of None \<Rightarrow> None | Some cs \<Rightarrow> Some (map (rename_time_interval new old) cs))"
  by pat_completeness auto
termination
  by (relation "measure (\<lambda>(_, _, r). size r)") (auto intro: size_child)

function remove_time_interval_from_route :: "string \<Rightarrow> am_route \<Rightarrow> am_route" where
  "remove_time_interval_from_route n (Am_Route i f rs) =
     Am_Route i
       (f\<lparr>af_mute_time_intervals := Some (filter (\<lambda>m. m \<noteq> n) (nullish (af_mute_time_intervals f) [])),
          af_active_time_intervals := Some (filter (\<lambda>m. m \<noteq> n) (nullish (af_active_time_intervals f) []))\<rparr>)
       (case rs of None \<Rightarrow> None | Some cs \<Rightarrow> Some (map (remove_time_interval_from_route n) cs))"
  by pat_completeness auto
termination
  by (relation "measure (\<lambda>(_, r). size r)") (auto intro: size_child)

datatype mute_timing_action =
    Add_Mute_Timing mute_time_interval
  | Update_Mute_Timing mute_time_interval string
  | Delete_Mute_Timing string

text \<open>Overwriting the first element with a name, when there is one.\<close>

definition replace_named :: "string \<Rightarrow> mute_time_interval \<Rightarrow> mute_time_interval list \<Rightarrow> mute_time_interval list" where
  "replace_named n m ms = (case find_index (\<lambda>x. mi_name x = n) ms of None \<Rightarrow> ms | Some i \<Rightarrow> ms[i := m])"

definition update_mute_timing :: "mute_time_interval \<Rightarrow> string \<Rightarrow> 'r am_config \<Rightarrow> 'r am_config" where
  "update_mute_timing m original cfg =
     cfg\<lparr>ac_time_intervals := map_option (replace_named original m) (ac_time_intervals cfg),
         ac_mute_time_intervals := map_option (replace_named original m) (ac_mute_time_intervals cfg),
         ac_route := (if mi_name m \<noteq> original
                      then map_option (rename_time_interval (mi_name m) original) (ac_route cfg)
                      else ac_route cfg)\<rparr>"

definition delete_mute_timing :: "string \<Rightarrow> 'r am_config \<Rightarrow> 'r am_config" where
  "delete_mute_timing n cfg =
     cfg\<lparr>ac_time_intervals := map_option (filter (\<lambda>m. mi_name m \<noteq> n)) (ac_time_intervals cfg),
         ac_mute_time_intervals := map_option (filter (\<lambda>m. mi_name m \<noteq> n)) (ac_mute_time_intervals cfg),
         ac_route := Some (remove_time_interval_from_route n (nullish (ac_route cfg) (Am_Route None empty_fields None)))\<rparr>"

fun mute_timings_reducer :: "'r am_config \<Rightarrow> mute_timing_action \<Rightarrow> 'r am_config" where
  "mute_timings_reducer cfg (Add_Mute_Timing m) =
     cfg\<lparr>ac_time_intervals := Some (nullish (ac_time_intervals cfg) [] @ [m])\<rparr>"
| "mute_timings_reducer cfg (Update_Mute_Timing m original) = update_mute_timing m original cfg"
| "mute_timings_reducer cfg (Delete_Mute_Timing n) = delete_mute_timing n cfg"

section \<open>Notification templates\<close>

record template_values =
  tv_title :: string
  tv_content :: string

text \<open>\<open>/\{\{\s*define/\<close> matches somewhere.\<close>

fun has_define :: "string \<Rightarrow> bool" where
  "has_define [] = False"
| "has_define (c # s) =
     (starts_with ''{{'' (c # s) \<and> starts_with ''define'' (dropWhile is_space (drop 1 s)) \<or> has_define s)"

definition newline :: char where
  "newline = CHR 0x0A"

definition ensure_define :: "string \<Rightarrow> string \<Rightarrow> string" where
  "ensure_define title content =
     (let c = trim content in
      if has_define c then c
      else ''{{ define '' @ dquote # title @ dquote # '' }}'' @ newline #
           join_with [newline] (map (\<lambda>l. ''  '' @ l) (split_on newline c)) @ newline # ''{{ end }}'')"

datatype template_action =
    Add_Template template_values
  | Update_Template string template_values
  | Delete_Template string

definition add_template :: "template_values \<Rightarrow> 'r am_config \<Rightarrow> 'r am_config res" where
  "add_template t cfg =
     (if finds_key (nullish (ac_template_files cfg) []) (tv_title t) then Inl (Js_Error ''target template already exists'')
      else Inr (cfg\<lparr>ac_template_files := map_option (jo_set (tv_title t) (ensure_define (tv_title t) (tv_content t)))
                       (ac_template_files cfg),
                    ac_templates := Some (nullish (ac_templates cfg) [] @ [tv_title t])\<rparr>))"

definition update_template :: "string \<Rightarrow> template_values \<Rightarrow> 'r am_config \<Rightarrow> 'r am_config res" where
  "update_template n t cfg =
     (let files = nullish (ac_template_files cfg) [];
          content = ensure_define (tv_title t) (tv_content t);
          store = (\<lambda>d. jo_set (tv_title t) content d) in
      if \<not> finds_key files n
      then Inl (Js_Error (''Expected notification template '' @ n @ '' to exist, but did not find it in the config''))
      else if n = tv_title t then Inr (cfg\<lparr>ac_template_files := map_option store (ac_template_files cfg)\<rparr>)
      else if finds_key files (tv_title t) then Inl (Js_Error (''Duplicate template name '' @ tv_title t))
      else Inr (cfg\<lparr>ac_template_files := map_option (store \<circ> jo_delete n) (ac_template_files cfg),
                    ac_templates := Some (filter (\<lambda>x. x \<noteq> n) (nullish (ac_templates cfg) []) @ [tv_title t])\<rparr>))"

definition delete_template :: "string \<Rightarrow> 'r am_config \<Rightarrow> 'r am_config" where
  "delete_template n cfg =
     cfg\<lparr>ac_template_files := map_option (jo_delete n) (ac_template_files cfg),
         ac_templates := map_option (filter (\<lambda>x. x \<noteq> n)) (ac_templates cfg)\<rparr>"

fun templates_reducer :: "'r am_config \<Rightarrow> template_action \<Rightarrow> 'r am_config res" where
  "templates_reducer cfg (Add_Template t) = add_template t cfg"
| "templates_reducer cfg (Update_Template n t) = update_template n t cfg"
| "templates_reducer cfg (Delete_Template n) = Inr (delete_template n cfg)"

section \<open>Notification policies\<close>

datatype route_action =
    Update_Route form_route string
  | Delete_Route string
  | Add_Route string form_route string insert_position

text \<open>Every edit numbers the stored tree, edits the numbered one and drops the numbers again.\<close>

definition edit_route :: "(am_route \<Rightarrow> string) \<Rightarrow> (am_route \<Rightarrow> am_error + am_route) \<Rightarrow> 'r am_config \<Rightarrow> am_error + 'r am_config" where
  "edit_route json edit cfg =
     (case ac_route cfg of
        None \<Rightarrow> Inr cfg
      | Some r \<Rightarrow> (case edit (identify_tree json r) of
            Inl e \<Rightarrow> Inl e
          | Inr t \<Rightarrow> Inr (cfg\<lparr>ac_route := Some (clean_route_ids t)\<rparr>)))"

fun routes_reducer :: "(am_route \<Rightarrow> string) \<Rightarrow> 'r am_config \<Rightarrow> route_action \<Rightarrow> am_error + 'r am_config" where
  "routes_reducer json cfg (Update_Route form source) = edit_route json (merge_partial_route source form) cfg"
| "routes_reducer json cfg (Delete_Route ident) = edit_route json (\<lambda>t. lift_error (omit_route ident t)) cfg"
| "routes_reducer json cfg (Add_Route source form ident position) =
     edit_route json (\<lambda>t. add_route source form ident t position) cfg"

section \<open>All actions on one configuration\<close>

datatype 'r config_action =
    Receiver_Action "'r receiver_action"
  | Mute_Timing_Action mute_timing_action
  | Template_Action template_action
  | Route_Action route_action

fun reduce_config :: "(am_route \<Rightarrow> string) \<Rightarrow> 'r am_config \<Rightarrow> 'r config_action \<Rightarrow> am_error + 'r am_config" where
  "reduce_config json cfg (Receiver_Action a) = lift_error (receivers_reducer cfg a)"
| "reduce_config json cfg (Mute_Timing_Action a) = Inr (mute_timings_reducer cfg a)"
| "reduce_config json cfg (Template_Action a) = lift_error (templates_reducer cfg a)"
| "reduce_config json cfg (Route_Action a) = routes_reducer json cfg a"

section \<open>Changes of labels\<close>

lemma am_flat_am_map: "am_flat (am_map g r) = map g (am_flat r)"
proof (induction g r rule: am_map.induct)
  case (1 g i f rs)
  have "map am_flat (map (am_map g) cs) = map (map g) (map am_flat cs)" if "rs = Some cs" for cs
    using 1 that by simp
  then have "concat (map am_flat (map (am_map g) cs)) = map g (concat (map am_flat cs))" if "rs = Some cs" for cs
    using that by (simp only: map_concat)
  then show ?case
    by (cases rs) (simp_all only: am_map.simps option.case am_flat_simps nullish_simps, simp_all)
qed

lemma am_map_am_map: "am_map g (am_map h r) = am_map (g \<circ> h) r"
proof (induction h r rule: am_map.induct)
  case (1 h i f rs)
  then show ?case by (cases rs) simp_all
qed

lemma am_map_cong: "(\<And>l. l \<in> set (am_flat r) \<Longrightarrow> g l = h l) \<Longrightarrow> am_map g r = am_map h r"
proof (induction g r rule: am_map.induct)
  case (1 g i f rs)
  then have "g (i, f) = h (i, f)" by simp
  moreover have "am_map g c = am_map h c" if "rs = Some cs" "c \<in> set cs" for cs c
    using that by (intro "1.IH" "1.prems") auto
  ultimately show ?case by (cases rs) simp_all
qed

lemma am_map_ident: "am_map (\<lambda>l. l) r = r"
proof (induction "\<lambda>l :: string option \<times> am_fields. l" r rule: am_map.induct)
  case (1 i f rs)
  then show ?case by (cases rs) (simp_all add: map_idI)
qed

definition renamed_receiver :: "string \<Rightarrow> string \<Rightarrow> am_fields \<Rightarrow> am_fields" where
  "renamed_receiver old new f = (if af_receiver f = Some old then f\<lparr>af_receiver := Some new\<rparr> else f)"

definition mapped_intervals :: "(string list option \<Rightarrow> string list option) \<Rightarrow> am_fields \<Rightarrow> am_fields" where
  "mapped_intervals g f =
     f\<lparr>af_mute_time_intervals := g (af_mute_time_intervals f), af_active_time_intervals := g (af_active_time_intervals f)\<rparr>"

lemma rename_receiver_am_map: "rename_receiver_in_route r old new = am_map (map_prod id (renamed_receiver old new)) r"
proof (induction r old new rule: rename_receiver_in_route.induct)
  case (1 i f rs old new)
  then show ?case by (cases rs) (simp_all add: renamed_receiver_def)
qed

lemma rename_interval_am_map:
  "rename_time_interval new old r =
     am_map (map_prod id (mapped_intervals (map_option (map (\<lambda>n. if n = old then new else n))))) r"
proof (induction new old r rule: rename_time_interval.induct)
  case (1 new old i f rs)
  then show ?case by (cases rs) (simp_all add: mapped_intervals_def)
qed

lemma remove_interval_am_map:
  "remove_time_interval_from_route n r =
     am_map (map_prod id (mapped_intervals (\<lambda>ms. Some (filter (\<lambda>m. m \<noteq> n) (nullish ms []))))) r"
proof (induction n r rule: remove_time_interval_from_route.induct)
  case (1 n i f rs)
  then show ?case by (cases rs) (simp_all add: mapped_intervals_def)
qed

section \<open>References\<close>

text \<open>What a policy refers to by name, and what the configuration defines.\<close>

datatype config_ref = Receiver_Ref string | Interval_Ref string

definition field_refs :: "am_fields \<Rightarrow> config_ref set" where
  "field_refs f = Receiver_Ref ` set_option (af_receiver f) \<union>
     Interval_Ref ` (set (nullish (af_mute_time_intervals f) []) \<union> set (nullish (af_active_time_intervals f) []))"

definition route_refs :: "am_route \<Rightarrow> config_ref set" where
  "route_refs r = (\<Union>l \<in> set (am_flat r). field_refs (snd l))"

definition config_refs :: "'r am_config \<Rightarrow> config_ref set" where
  "config_refs cfg = (case ac_route cfg of None \<Rightarrow> {} | Some r \<Rightarrow> route_refs r)"

definition receiver_names :: "'r am_config \<Rightarrow> string list" where
  "receiver_names cfg = map rc_name (nullish (ac_receivers cfg) [])"

definition interval_names :: "'r am_config \<Rightarrow> string list" where
  "interval_names cfg =
     map mi_name (nullish (ac_time_intervals cfg) [] @ nullish (ac_mute_time_intervals cfg) [])"

text \<open>A policy with the empty receiver inherits that of its parent: no contact point has to be there for it.\<close>

definition defined_refs :: "'r am_config \<Rightarrow> config_ref set" where
  "defined_refs cfg = Receiver_Ref ` insert [] (set (receiver_names cfg)) \<union> Interval_Ref ` set (interval_names cfg)"

text \<open>What a form makes a policy refer to, with the forms nested in it.\<close>

definition form_field_refs :: "form_fields \<Rightarrow> config_ref set" where
  "form_field_refs g = Receiver_Ref ` set_option (ff_receiver g) \<union>
     Interval_Ref ` (set (nullish (ff_mute_time_intervals g) []) \<union> set (nullish (ff_active_time_intervals g) []))"

function form_refs :: "form_route \<Rightarrow> config_ref set" where
  "form_refs (Form_Route g rs) = form_field_refs g \<union> (\<Union>c \<in> set (nullish rs []). form_refs c)"
  by pat_completeness auto
termination
  by (relation "measure size") (auto intro: size_child)

named_theorems ref_simps

lemmas [ref_simps] = route_refs_def config_refs_def defined_refs_def receiver_names_def interval_names_def field_refs_def

lemma route_refs_simps: "route_refs (Am_Route i f rs) = field_refs f \<union> (\<Union>c \<in> set (nullish rs []). route_refs c)"
  by (auto simp: route_refs_def am_flat_simps simp del: am_nodes.simps)

lemma route_refs_am_map: "route_refs (am_map g r) = (\<Union>l \<in> set (am_flat r). field_refs (snd (g l)))"
  by (simp only: route_refs_def am_flat_am_map set_map image_image)

lemma place_matchers_refs: "place_matchers source g f = Inr f' \<Longrightarrow> field_refs f' = field_refs f"
  by (auto simp: place_matchers_def field_refs_def bind_res_Inr_iff split: if_splits)

lemma form_to_am_route_refs: "form_to_am_route source tree form = Inr new \<Longrightarrow> route_refs new = form_refs form"
proof (induction source tree form arbitrary: new rule: form_to_am_route.induct)
  case (1 source tree g rs)
  define existing where "existing = find_existing_route (nullish (ff_id g) []) tree"
  obtain i old where old: "(i, old) = (case existing of None \<Rightarrow> (None, empty_fields) | Some e \<Rightarrow> (am_id e, am_fields e))"
    by (cases existing) auto
  from "1.prems" old obtain routes f where
    routes: "(case rs of None \<Rightarrow> Inr None
       | Some cs \<Rightarrow> bind_res (map_res (form_to_am_route source tree) cs) (\<lambda>x. Inr (Some x))) = Inr routes"
    and f: "place_matchers source g (form_to_fields old g) = Inr f" and new: "new = Am_Route i f routes"
    unfolding form_to_am_route.simps Let_def existing_def [symmetric] old [symmetric]
    by (auto simp: bind_res_Inr_iff)
  have "field_refs f = form_field_refs g"
    using place_matchers_refs [OF f] by (simp add: field_refs_def form_field_refs_def form_to_fields_def)
  moreover have "(\<Union>c \<in> set (nullish routes []). route_refs c) = (\<Union>c \<in> set (nullish rs []). form_refs c)"
  proof (cases rs)
    case None
    with routes show ?thesis by simp
  next
    case (Some cs)
    with routes obtain ns where ns: "map_res (form_to_am_route source tree) cs = Inr ns" "routes = Some ns"
      by (auto simp: bind_res_Inr_iff)
    have "list_all2 (\<lambda>c n. form_to_am_route source tree c = Inr n) cs ns"
      by (rule map_res_list_all2 [OF ns(1)])
    then have "list_all2 (\<lambda>c n. route_refs n = form_refs c) cs ns"
      by (rule list.rel_mono_strong) (use "1.IH" Some existing_def old in auto)
    then have "(\<Union>c \<in> set ns. route_refs c) = (\<Union>c \<in> set cs. form_refs c)"
      by (induction rule: list_all2_induct) auto
    with Some ns show ?thesis by simp
  qed
  ultimately show ?case by (simp add: new route_refs_simps)
qed

section \<open>The invariant of a configuration\<close>

definition refs_resolved :: "'r am_config \<Rightarrow> bool" where
  "refs_resolved cfg \<longleftrightarrow> config_refs cfg \<subseteq> defined_refs cfg"

definition templates_in_step :: "'r am_config \<Rightarrow> bool" where
  "templates_in_step cfg \<longleftrightarrow>
     (case ac_template_files cfg of
        None \<Rightarrow> False
      | Some files \<Rightarrow> jo_wf files \<and> distinct (nullish (ac_templates cfg) []) \<and>
          set (nullish (ac_templates cfg) []) = set (jo_keys files))"

text \<open>
  The actions the editor offers: a contact point that a policy uses is not deleted, a saved policy names
  contact points and timings that exist, or the empty contact point, which is the default of the form and inherits,
  and a template that is saved exists (the check of the reducer also accepts the names every object inherits).
\<close>

fun legal_action :: "'r am_config \<Rightarrow> 'r config_action \<Rightarrow> bool" where
  "legal_action cfg (Receiver_Action (Delete_Receiver n)) \<longleftrightarrow> n = [] \<or> Receiver_Ref n \<notin> config_refs cfg"
| "legal_action cfg (Route_Action (Update_Route form source)) \<longleftrightarrow> form_field_refs (fr_fields form) \<subseteq> defined_refs cfg"
| "legal_action cfg (Route_Action (Add_Route source form ident position)) \<longleftrightarrow> form_refs form \<subseteq> defined_refs cfg"
| "legal_action cfg (Template_Action (Update_Template n t)) \<longleftrightarrow>
     n \<in> set (jo_keys (nullish (ac_template_files cfg) [])) \<or> n \<notin> set inherited_names"
| "legal_action cfg _ \<longleftrightarrow> True"

definition config_step :: "(am_route \<Rightarrow> string) \<Rightarrow> 'r am_config \<Rightarrow> 'r am_config \<Rightarrow> bool" where
  "config_step json cfg cfg' \<longleftrightarrow> (\<exists>a. legal_action cfg a \<and> reduce_config json cfg a = Inr cfg')"

subsection \<open>Contact points and timings\<close>

lemma map_replaced:
  assumes "find_index (\<lambda>x. f x = n) xs = Some i"
  shows "f ` set (xs[i := y]) \<subseteq> insert (f y) (f ` set xs)" "f y \<in> f ` set (xs[i := y])"
    "z \<in> f ` set xs \<Longrightarrow> z \<noteq> n \<Longrightarrow> z \<in> f ` set (xs[i := y])"
    "n \<in> f ` set xs"
proof -
  have i: "i < length xs" "f (xs ! i) = n" using find_index_SomeD [OF assms] by auto
  show "f ` set (xs[i := y]) \<subseteq> insert (f y) (f ` set xs)"
    using set_update_subset_insert [of xs i y] by auto
  show "f y \<in> f ` set (xs[i := y])"
    using i set_update_memI by fastforce
  show "z \<in> f ` set (xs[i := y])" if "z \<in> f ` set xs" "z \<noteq> n"
  proof -
    from \<open>z \<in> f ` set xs\<close> obtain x where x: "x \<in> set xs" "z = f x" by blast
    then obtain k where k: "k < length xs" "z = f (xs ! k)" by (auto simp: in_set_conv_nth)
    then have "k \<noteq> i" using i \<open>z \<noteq> n\<close> by auto
    then have "xs[i := y] ! k = xs ! k" by simp
    with k show ?thesis by (metis imageI length_list_update nth_mem)
  qed
  show "n \<in> f ` set xs" using i by force
qed

lemma renamed_receiver_refs:
  "field_refs (renamed_receiver old new f) \<subseteq>
     (field_refs f - {Receiver_Ref old}) \<union> (if Receiver_Ref old \<in> field_refs f then {Receiver_Ref new} else {})"
  if "old \<noteq> new"
  using that by (auto simp: renamed_receiver_def field_refs_def)

lemma renamed_refs_image:
  assumes "\<And>l. l \<in> S \<Longrightarrow> G l \<subseteq> (F l - {a}) \<union> (if a \<in> F l then {b} else {})"
  shows "(\<Union>l \<in> S. G l) \<subseteq> ((\<Union>l \<in> S. F l) - {a}) \<union> (if a \<in> (\<Union>l \<in> S. F l) then {b} else {})"
proof
  fix x
  assume "x \<in> (\<Union>l \<in> S. G l)"
  then obtain l where l: "l \<in> S" "x \<in> G l" by blast
  then have "x \<in> F l - {a} \<or> (a \<in> F l \<and> x = b)" using assms [OF l(1)] by (auto split: if_splits)
  then show "x \<in> ((\<Union>l \<in> S. F l) - {a}) \<union> (if a \<in> (\<Union>l \<in> S. F l) then {b} else {})"
    using l(1) by auto
qed

lemma rename_receiver_refs:
  "old \<noteq> new \<Longrightarrow> route_refs (rename_receiver_in_route r old new) \<subseteq>
     (route_refs r - {Receiver_Ref old}) \<union> (if Receiver_Ref old \<in> route_refs r then {Receiver_Ref new} else {})"
  unfolding rename_receiver_am_map route_refs_am_map
  unfolding route_refs_def by (rule renamed_refs_image) (simp only: snd_map_prod, rule renamed_receiver_refs)

lemma add_receiver_resolved: "add_receiver r cfg = Inr cfg' \<Longrightarrow> refs_resolved cfg \<Longrightarrow> refs_resolved cfg'"
  by (auto simp: add_receiver_def refs_resolved_def config_refs_def defined_refs_def receiver_names_def
      interval_names_def Let_def split: if_splits)

lemma update_receiver_names:
  assumes "update_receiver n r cfg = Inr cfg'"
  shows "rc_name r \<in> set (receiver_names cfg')" "n \<in> set (receiver_names cfg)"
    "z \<in> set (receiver_names cfg) \<Longrightarrow> z \<noteq> n \<Longrightarrow> z \<in> set (receiver_names cfg')"
    "interval_names cfg' = interval_names cfg"
    "ac_route cfg' = (if n \<noteq> rc_name r then map_option (\<lambda>t. rename_receiver_in_route t n (rc_name r)) (ac_route cfg)
       else ac_route cfg)"
proof -
  from assms obtain i where i: "find_index (\<lambda>x. rc_name x = n) (nullish (ac_receivers cfg) []) = Some i"
    and cfg': "cfg' = cfg\<lparr>ac_receivers := Some ((nullish (ac_receivers cfg) [])[i := r]),
      ac_route := (if n \<noteq> rc_name r then map_option (\<lambda>t. rename_receiver_in_route t n (rc_name r)) (ac_route cfg)
         else ac_route cfg)\<rparr>"
    by (auto simp: update_receiver_def Let_def split: option.splits if_splits)
  show "rc_name r \<in> set (receiver_names cfg')" "n \<in> set (receiver_names cfg)"
    "z \<in> set (receiver_names cfg) \<Longrightarrow> z \<noteq> n \<Longrightarrow> z \<in> set (receiver_names cfg')"
    using map_replaced [OF i] by (simp_all add: cfg' receiver_names_def)
  show "interval_names cfg' = interval_names cfg" by (simp add: cfg' interval_names_def)
  show "ac_route cfg' = (if n \<noteq> rc_name r then map_option (\<lambda>t. rename_receiver_in_route t n (rc_name r)) (ac_route cfg)
       else ac_route cfg)" by (simp add: cfg')
qed

lemma update_receiver_resolved:
  assumes "update_receiver n r cfg = Inr cfg'" "refs_resolved cfg"
  shows "refs_resolved cfg'"
proof -
  note names = update_receiver_names [OF assms(1)]
  have defined: "x \<in> defined_refs cfg'" if "x \<in> defined_refs cfg" "x \<noteq> Receiver_Ref n" for x
    using that names(3,4) by (auto simp: defined_refs_def)
  have new: "Receiver_Ref (rc_name r) \<in> defined_refs cfg'"
    using names(1) by (simp add: defined_refs_def)
  have "x \<in> defined_refs cfg'" if "x \<in> config_refs cfg'" for x
  proof (cases "n = rc_name r")
    case True
    then show ?thesis
      using that assms(2) names(5) defined new by (auto simp: refs_resolved_def config_refs_def)
  next
    case False
    then have "x \<in> config_refs cfg - {Receiver_Ref n} \<or> x = Receiver_Ref (rc_name r)"
      using that names(5) False subsetD [OF rename_receiver_refs [OF False], of x "the (ac_route cfg)"]
      by (cases "ac_route cfg") (simp_all add: config_refs_def split: if_splits)
    then show ?thesis using assms(2) defined new by (auto simp: refs_resolved_def)
  qed
  then show ?thesis by (auto simp: refs_resolved_def)
qed

lemma delete_receiver_resolved:
  "n = [] \<or> Receiver_Ref n \<notin> config_refs cfg \<Longrightarrow> refs_resolved cfg \<Longrightarrow> refs_resolved (delete_receiver n cfg)"
  unfolding refs_resolved_def
proof
  fix x
  assume n: "n = [] \<or> Receiver_Ref n \<notin> config_refs cfg" and ok: "config_refs cfg \<subseteq> defined_refs cfg"
    and "x \<in> config_refs (delete_receiver n cfg)"
  then have x: "x \<in> config_refs cfg" by (simp add: delete_receiver_def config_refs_def)
  with n ok have "x \<in> defined_refs cfg" "x \<noteq> Receiver_Ref n \<or> n = []" by auto
  then show "x \<in> defined_refs (delete_receiver n cfg)"
    by (cases "ac_receivers cfg") (auto simp: delete_receiver_def defined_refs_def receiver_names_def interval_names_def)
qed

lemma replace_named_names:
  "n \<in> mi_name ` set ms \<Longrightarrow> mi_name m \<in> mi_name ` set (replace_named n m ms)"
  "z \<in> mi_name ` set ms \<Longrightarrow> z \<noteq> n \<Longrightarrow> z \<in> mi_name ` set (replace_named n m ms)"
proof -
  show "z \<in> mi_name ` set ms \<Longrightarrow> z \<noteq> n \<Longrightarrow> z \<in> mi_name ` set (replace_named n m ms)"
    by (auto simp: replace_named_def dest!: map_replaced(3) split: option.splits)
  show "mi_name m \<in> mi_name ` set (replace_named n m ms)" if "n \<in> mi_name ` set ms"
  proof (cases "find_index (\<lambda>x. mi_name x = n) ms")
    case None
    then show ?thesis using that by (auto simp: find_index_None_iff)
  next
    case (Some i)
    then show ?thesis using map_replaced(2) [OF Some, of m] by (simp add: replace_named_def)
  qed
qed

lemma renamed_interval_refs:
  "old \<noteq> new \<Longrightarrow> field_refs (mapped_intervals (map_option (map (\<lambda>n. if n = old then new else n))) f) \<subseteq>
     (field_refs f - {Interval_Ref old}) \<union> (if Interval_Ref old \<in> field_refs f then {Interval_Ref new} else {})"
  by (cases "af_mute_time_intervals f"; cases "af_active_time_intervals f")
     (auto simp: mapped_intervals_def field_refs_def split: if_splits)

lemma rename_interval_refs:
  "old \<noteq> new \<Longrightarrow> route_refs (rename_time_interval new old r) \<subseteq>
     (route_refs r - {Interval_Ref old}) \<union> (if Interval_Ref old \<in> route_refs r then {Interval_Ref new} else {})"
  unfolding rename_interval_am_map route_refs_am_map
  unfolding route_refs_def by (rule renamed_refs_image) (simp only: snd_map_prod, rule renamed_interval_refs)

lemma remove_interval_refs: "route_refs (remove_time_interval_from_route n r) \<subseteq> route_refs r - {Interval_Ref n}"
  unfolding remove_interval_am_map route_refs_am_map
  unfolding route_refs_def by (auto simp: mapped_intervals_def field_refs_def)

lemma interval_names_iff: "n \<in> set (interval_names cfg) \<longleftrightarrow>
    n \<in> mi_name ` set (nullish (ac_time_intervals cfg) []) \<or> n \<in> mi_name ` set (nullish (ac_mute_time_intervals cfg) [])"
  by (auto simp: interval_names_def)

lemma nullish_map: "f [] = [] \<Longrightarrow> nullish (map_option f x) [] = f (nullish x [])"
  by (cases x) simp_all

lemma update_mute_timing_names:
  assumes "z \<in> set (interval_names cfg)"
  shows "z = original \<Longrightarrow> mi_name m \<in> set (interval_names (update_mute_timing m original cfg))"
    "z \<noteq> original \<Longrightarrow> z \<in> set (interval_names (update_mute_timing m original cfg))"
proof -
  have "replace_named original m [] = []" by (simp add: replace_named_def)
  then have names: "x \<in> set (interval_names (update_mute_timing m original cfg)) \<longleftrightarrow>
      x \<in> mi_name ` set (replace_named original m (nullish (ac_time_intervals cfg) [])) \<or>
      x \<in> mi_name ` set (replace_named original m (nullish (ac_mute_time_intervals cfg) []))" for x
    by (simp add: interval_names_def update_mute_timing_def nullish_map image_Un)
  note at = replace_named_names(1) [of original "nullish (ac_time_intervals cfg) []" m]
    replace_named_names(2) [of z "nullish (ac_time_intervals cfg) []" original m]
    replace_named_names(1) [of original "nullish (ac_mute_time_intervals cfg) []" m]
    replace_named_names(2) [of z "nullish (ac_mute_time_intervals cfg) []" original m]
  show "z = original \<Longrightarrow> mi_name m \<in> set (interval_names (update_mute_timing m original cfg))"
    using assms [unfolded interval_names_iff] at(1,3) unfolding names by metis
  show "z \<noteq> original \<Longrightarrow> z \<in> set (interval_names (update_mute_timing m original cfg))"
    using assms [unfolded interval_names_iff] at(2,4) unfolding names by metis
qed

lemma update_mute_timing_resolved:
  assumes ok: "refs_resolved cfg"
  shows "refs_resolved (update_mute_timing m original cfg)"
proof -
  let ?cfg' = "update_mute_timing m original cfg"
  have defined: "x \<in> defined_refs ?cfg'" if "x \<in> defined_refs cfg" "x \<noteq> Interval_Ref original" for x
    using that update_mute_timing_names(2) [of _ cfg original m]
    by (auto simp: defined_refs_def receiver_names_def update_mute_timing_def)
  have new: "Interval_Ref (mi_name m) \<in> defined_refs ?cfg'" if "Interval_Ref original \<in> defined_refs cfg"
    using that update_mute_timing_names(1) [of original cfg original m] by (auto simp: defined_refs_def)
  have "x \<in> defined_refs ?cfg'" if "x \<in> config_refs ?cfg'" for x
  proof (cases "mi_name m = original")
    case True
    then have "x \<in> config_refs cfg" using that by (simp add: config_refs_def update_mute_timing_def)
    then have x: "x \<in> defined_refs cfg" using ok by (auto simp: refs_resolved_def)
    show ?thesis using defined [OF x] new x True by (cases "x = Interval_Ref original") auto
  next
    case False
    then have "x \<in> config_refs cfg \<and> x \<noteq> Interval_Ref original \<or>
        Interval_Ref original \<in> config_refs cfg \<and> x = Interval_Ref (mi_name m)"
      using that subsetD [OF rename_interval_refs [of original "mi_name m" "the (ac_route cfg)"], of x]
      by (cases "ac_route cfg") (auto simp: config_refs_def update_mute_timing_def split: if_splits)
    then show ?thesis using ok defined new by (auto simp: refs_resolved_def)
  qed
  then show ?thesis by (auto simp: refs_resolved_def)
qed

lemma delete_mute_timing_resolved:
  assumes ok: "refs_resolved cfg"
  shows "refs_resolved (delete_mute_timing n cfg)"
proof -
  let ?r = "nullish (ac_route cfg) (Am_Route None empty_fields None)"
  have "route_refs (Am_Route None empty_fields None) = {}"
    by (simp add: route_refs_simps field_refs_def empty_fields_def)
  then have "route_refs ?r = config_refs cfg"
    by (cases "ac_route cfg") (simp_all add: config_refs_def)
  moreover have "config_refs (delete_mute_timing n cfg) \<subseteq> route_refs ?r - {Interval_Ref n}"
    using remove_interval_refs [of n ?r] by (simp add: config_refs_def delete_mute_timing_def)
  moreover have "x \<in> defined_refs (delete_mute_timing n cfg)" if "x \<in> defined_refs cfg" "x \<noteq> Interval_Ref n" for x
    using that
    by (cases "ac_time_intervals cfg"; cases "ac_mute_time_intervals cfg")
       (auto simp: defined_refs_def receiver_names_def interval_names_def delete_mute_timing_def)
  ultimately show ?thesis using ok by (auto simp: refs_resolved_def)
qed

lemma mute_timings_reducer_resolved: "refs_resolved cfg \<Longrightarrow> refs_resolved (mute_timings_reducer cfg a)"
  by (cases a) (auto simp: update_mute_timing_resolved delete_mute_timing_resolved,
      auto simp: refs_resolved_def config_refs_def defined_refs_def receiver_names_def interval_names_def)

subsection \<open>Policies\<close>

lemma clean_route_refs: "route_refs (clean_route_ids r) = route_refs r"
proof -
  have "field_refs (f\<lparr>af_name := x\<rparr>) = field_refs f" for f x by (simp add: field_refs_def)
  then show ?thesis
    unfolding route_refs_def clean_route_ids_nodes by simp
qed

lemma identified_fields: "map am_fields (am_nodes (add_unique_identifier_to_route json r pos)) = map am_fields (am_nodes r)"
proof (induction json r pos rule: add_unique_identifier_to_route.induct)
  case (1 json i f rs pos)
  have "map (map am_fields \<circ> am_nodes \<circ> (\<lambda>(k, r). add_unique_identifier_to_route json r (pos @ ''-'' @ string_of_nat k)))
      (List.enumerate 0 cs) = map (map am_fields \<circ> am_nodes) cs" if cs: "cs = nullish rs []" for cs
  proof (rule nth_equalityI)
    fix k assume k: "k < length (map (map am_fields \<circ> am_nodes \<circ>
      (\<lambda>(k, r). add_unique_identifier_to_route json r (pos @ ''-'' @ string_of_nat k))) (List.enumerate 0 cs))"
    then have "(k, cs ! k) \<in> set (List.enumerate 0 cs)"
      by (simp add: in_set_enumerate_eq)
    then show "map (map am_fields \<circ> am_nodes \<circ> (\<lambda>(k, r). add_unique_identifier_to_route json r (pos @ ''-'' @ string_of_nat k)))
        (List.enumerate 0 cs) ! k = map (map am_fields \<circ> am_nodes) cs ! k"
      using "1.IH" [of "(k, cs ! k)" k "cs ! k"] k cs by (simp add: nth_enumerate_eq)
  qed simp
  then show ?case
    by (simp add: map_concat comp_assoc)
qed

lemma identified_refs: "route_refs (identify_tree json r) = route_refs r"
proof -
  have "route_refs t = (\<Union>f \<in> set (map am_fields (am_nodes t)). field_refs f)" for t
    by (simp add: route_refs_def)
  then show ?thesis by (simp only: identify_tree_def identified_fields)
qed

lemma merge_partial_route_refs:
  assumes "merge_partial_route source form t = Inr t'"
  shows "route_refs t' \<subseteq> route_refs t \<union> form_field_refs (fr_fields form)"
proof -
  let ?g = "edited (ff_id (fr_fields form))"
  from assms have find: "find_and_replace source form t t = Inr t'"
    by (auto simp: merge_partial_route_def lift_error_def split: option.splits sum.splits)
  show ?thesis
  proof (cases "form_to_am_route source t form")
    case (Inr new)
    then have t': "t' = am_map (?g new) t" using find find_and_replace_ok by fastforce
    obtain g rs where form: "form = Form_Route g rs" by (cases form)
    have "field_refs (am_fields new) \<subseteq> form_field_refs g"
    proof -
      from Inr obtain old f where "place_matchers source g (form_to_fields old g) = Inr f" "am_fields new = f"
        by (auto simp: form bind_res_Inr_iff Let_def split: option.splits prod.splits)
      then show ?thesis
        using place_matchers_refs [of source g _ f] by (simp add: field_refs_def form_field_refs_def form_to_fields_def)
    qed
    then have "field_refs (snd (?g new l)) \<subseteq> field_refs (snd l) \<union> form_field_refs g" for l
      by (auto simp: edited_def overlay_route_def field_refs_def)
    then show ?thesis
      unfolding t' route_refs_am_map form form_route.sel unfolding route_refs_def by fast
  next
    case (Inl e)
    then have "t' = t"
      using find find_and_replace_throws [OF Inl, of t] find_and_replace_absent [of form t source t]
      by (cases "ff_id (fr_fields form) \<in> set (am_ids t)") auto
    then show ?thesis by simp
  qed
qed

lemma omit_route_refs: "omit_route ident t = Inr t' \<Longrightarrow> route_refs t' \<subseteq> route_refs t"
proof -
  assume "omit_route ident t = Inr t'"
  then have t': "t' = find_and_omit ident t" by (simp add: omit_route_def split: if_splits)
  obtain subs where "mset (am_flat t) = mset (am_flat t') + mset (concat (map am_flat subs))"
    using omit_partition [of ident t] t' by blast
  then have "set (am_flat t') \<subseteq> set (am_flat t)"
    by (metis (no_types, lifting) Un_upper1 set_mset_mset set_mset_union)
  then show "route_refs t' \<subseteq> route_refs t" unfolding route_refs_def by blast
qed

lemma add_route_refs:
  assumes "add_route source form ident t position = Inr t'"
  shows "route_refs t' = route_refs t \<union> form_refs form"
proof -
  from assms obtain new pos ppos k where new: "form_to_am_route source t form = Inr new"
    and find: "find_route_in_tree t ident = Some (pos, ppos, k)"
    and t': "insert_route new position (pos, ppos, k) t = Inr t'"
    by (auto simp: add_route_def lift_error_def split: sum.splits option.splits)
  obtain xs ys where "am_flat t = xs @ ys" "am_flat t' = xs @ am_flat new @ ys"
    using insert_route_spec [OF find, of new position] t' by auto
  then have "route_refs t' = route_refs t \<union> route_refs new"
    unfolding route_refs_def by auto
  then show ?thesis by (simp add: form_to_am_route_refs [OF new])
qed

lemma edit_route_resolved:
  assumes "edit_route json edit cfg = Inr cfg'" "refs_resolved cfg"
    and "\<And>t t'. edit t = Inr t' \<Longrightarrow> route_refs t' \<subseteq> route_refs t \<union> defined_refs cfg"
  shows "refs_resolved cfg'"
proof (cases "ac_route cfg")
  case None
  with assms show ?thesis by (simp add: edit_route_def)
next
  case (Some r)
  with assms(1) obtain t where t: "edit (identify_tree json r) = Inr t" "cfg' = cfg\<lparr>ac_route := Some (clean_route_ids t)\<rparr>"
    by (auto simp: edit_route_def split: sum.splits)
  have "defined_refs cfg' = defined_refs cfg"
    by (simp add: t(2) defined_refs_def receiver_names_def interval_names_def)
  then show ?thesis
    using assms(2) assms(3) [OF t(1)] Some
    by (auto simp: refs_resolved_def config_refs_def t(2) clean_route_refs identified_refs)
qed

subsection \<open>Templates\<close>

lemma templates_in_step_D:
  assumes "templates_in_step cfg"
  obtains files where "ac_template_files cfg = Some files" "jo_wf files" "distinct (nullish (ac_templates cfg) [])"
    "set (nullish (ac_templates cfg) []) = set (jo_keys files)"
  using assms by (auto simp: templates_in_step_def split: option.splits)

lemma templates_in_step_cong:
  "ac_template_files cfg' = ac_template_files cfg \<Longrightarrow> ac_templates cfg' = ac_templates cfg \<Longrightarrow>
   templates_in_step cfg \<Longrightarrow> templates_in_step cfg'"
  by (erule templates_in_step_D) (simp add: templates_in_step_def)

lemma add_template_in_step:
  assumes "add_template t cfg = Inr cfg'" "templates_in_step cfg"
  shows "templates_in_step cfg'"
proof -
  obtain files where files: "ac_template_files cfg = Some files" "jo_wf files" "distinct (nullish (ac_templates cfg) [])"
    "set (nullish (ac_templates cfg) []) = set (jo_keys files)"
    by (rule templates_in_step_D [OF assms(2)])
  moreover have "tv_title t \<notin> set (jo_keys files)"
    using assms(1) files(1) by (auto simp: add_template_def finds_key_def jo.keys_get split: if_splits)
  moreover have "cfg' = cfg\<lparr>ac_template_files := Some (jo_set (tv_title t) (ensure_define (tv_title t) (tv_content t)) files),
      ac_templates := Some (nullish (ac_templates cfg) [] @ [tv_title t])\<rparr>"
    using assms(1) files(1) by (simp add: add_template_def split: if_splits)
  ultimately show ?thesis
    by (simp add: templates_in_step_def jo_wf_set jo.keys_put)
qed

lemma update_template_in_step:
  assumes "update_template n t cfg = Inr cfg'" "templates_in_step cfg"
    and n: "n \<in> set (jo_keys (nullish (ac_template_files cfg) [])) \<or> n \<notin> set inherited_names"
  shows "templates_in_step cfg'"
proof -
  obtain files where files: "ac_template_files cfg = Some files" "jo_wf files" "distinct (nullish (ac_templates cfg) [])"
    "set (nullish (ac_templates cfg) []) = set (jo_keys files)"
    by (rule templates_in_step_D [OF assms(2)])
  let ?store = "jo_set (tv_title t) (ensure_define (tv_title t) (tv_content t))"
  have found: "n \<in> set (jo_keys files)"
    using assms(1) n files(1) by (auto simp: update_template_def finds_key_def jo.keys_get Let_def split: if_splits)
  show ?thesis
  proof (cases "n = tv_title t")
    case True
    with assms(1) files(1) have "cfg' = cfg\<lparr>ac_template_files := Some (?store files)\<rparr>"
      by (simp add: update_template_def Let_def split: if_splits)
    with True files found show ?thesis
      by (auto simp: templates_in_step_def jo_wf_set jo.keys_put)
  next
    case False
    with assms(1) files(1) have "tv_title t \<notin> set (jo_keys files)"
      "cfg' = cfg\<lparr>ac_template_files := Some (?store (jo_delete n files)),
         ac_templates := Some (filter (\<lambda>x. x \<noteq> n) (nullish (ac_templates cfg) []) @ [tv_title t])\<rparr>"
      by (auto simp: update_template_def finds_key_def jo.keys_get Let_def split: if_splits)
    with False files show ?thesis
      by (auto simp: templates_in_step_def jo_wf_set jo_wf_delete jo.keys_put jo.keys_del)
  qed
qed

lemma delete_template_in_step:
  assumes "templates_in_step cfg"
  shows "templates_in_step (delete_template n cfg)"
proof -
  obtain files where files: "ac_template_files cfg = Some files" "jo_wf files" "distinct (nullish (ac_templates cfg) [])"
    "set (nullish (ac_templates cfg) []) = set (jo_keys files)"
    by (rule templates_in_step_D [OF assms])
  then show ?thesis
    by (auto simp: templates_in_step_def delete_template_def jo_wf_delete jo.keys_del nullish_map)
qed

subsection \<open>Every action\<close>

lemma templates_reducer_route:
  "templates_reducer cfg a = Inr cfg' \<Longrightarrow> refs_resolved cfg \<Longrightarrow> refs_resolved cfg'"
  by (cases a) (auto simp: add_template_def update_template_def delete_template_def Let_def refs_resolved_def
      config_refs_def defined_refs_def receiver_names_def interval_names_def split: if_splits)

lemma legal_action_resolved:
  assumes "legal_action cfg a" "reduce_config json cfg a = Inr cfg'" "refs_resolved cfg"
  shows "refs_resolved cfg'"
proof (cases a)
  case (Receiver_Action b)
  with assms show ?thesis
    by (cases b) (auto simp: lift_error_def add_receiver_resolved update_receiver_resolved delete_receiver_resolved
        split: sum.splits)
next
  case (Mute_Timing_Action b)
  with assms mute_timings_reducer_resolved show ?thesis by auto
next
  case (Template_Action b)
  with assms templates_reducer_route show ?thesis by (auto simp: lift_error_def split: sum.splits)
next
  case (Route_Action b)
  show ?thesis
  proof (cases b)
    case (Update_Route form source)
    with assms Route_Action show ?thesis
      using edit_route_resolved [of json "merge_partial_route source form" cfg cfg'] merge_partial_route_refs by fastforce
  next
    case (Delete_Route ident)
    have "route_refs t' \<subseteq> route_refs t" if "lift_error (omit_route ident t) = Inr t'" for t t'
      using that omit_route_refs [of ident t t'] by (simp add: lift_error_def split: sum.splits)
    with Delete_Route assms Route_Action show ?thesis
      using edit_route_resolved [of json "\<lambda>t. lift_error (omit_route ident t)" cfg cfg'] by fastforce
  next
    case (Add_Route source form ident position)
    with assms Route_Action show ?thesis
      using edit_route_resolved [of json "\<lambda>t. add_route source form ident t position" cfg cfg'] add_route_refs by fastforce
  qed
qed

lemma legal_action_in_step:
  assumes "legal_action cfg a" "reduce_config json cfg a = Inr cfg'" "templates_in_step cfg"
  shows "templates_in_step cfg'"
proof (cases a)
  case (Template_Action b)
  with assms show ?thesis
    by (cases b) (auto simp: lift_error_def add_template_in_step update_template_in_step delete_template_in_step
        split: sum.splits)
next
  case (Receiver_Action b)
  with assms(2) have "ac_template_files cfg' = ac_template_files cfg \<and> ac_templates cfg' = ac_templates cfg"
    by (cases b) (auto simp: lift_error_def add_receiver_def update_receiver_def delete_receiver_def Let_def
        split: sum.splits option.splits if_splits)
  with assms(3) show ?thesis by (auto intro: templates_in_step_cong)
next
  case (Mute_Timing_Action b)
  with assms(2) have "ac_template_files cfg' = ac_template_files cfg \<and> ac_templates cfg' = ac_templates cfg"
    by (cases b) (auto simp: update_mute_timing_def delete_mute_timing_def)
  with assms(3) show ?thesis by (auto intro: templates_in_step_cong)
next
  case (Route_Action b)
  with assms(2) have "ac_template_files cfg' = ac_template_files cfg \<and> ac_templates cfg' = ac_templates cfg"
    by (cases b) (auto simp: edit_route_def split: option.splits sum.splits)
  with assms(3) show ?thesis by (auto intro: templates_in_step_cong)
qed

definition config_ok :: "'r am_config \<Rightarrow> bool" where
  "config_ok cfg \<longleftrightarrow> refs_resolved cfg \<and> templates_in_step cfg"

interpretation config: state_machine config_ok "config_step json" config_ok for json
  by unfold_locales (auto simp: config_ok_def config_step_def legal_action_resolved legal_action_in_step)

text \<open>What the reducers do where no guard of theirs applies.\<close>

lemma deleted_receiver_dangles: "Receiver_Ref n \<in> config_refs cfg \<Longrightarrow> n \<noteq> [] \<Longrightarrow> \<not> refs_resolved (delete_receiver n cfg)"
  by (cases "ac_receivers cfg")
     (auto simp: refs_resolved_def config_refs_def delete_receiver_def defined_refs_def receiver_names_def)

lemma deleted_timing_adds_root:
  "ac_route cfg = None \<Longrightarrow> \<exists>f. ac_route (delete_mute_timing n cfg) = Some (Am_Route None f None) \<and> af_receiver f = None"
  by (simp add: delete_mute_timing_def empty_fields_def)

lemma template_of_missing_files_lost:
  "ac_template_files cfg = None \<Longrightarrow> tv_title t \<notin> set inherited_names \<Longrightarrow> add_template t cfg = Inr cfg' \<Longrightarrow>
   ac_template_files cfg' = None \<and> tv_title t \<in> set (nullish (ac_templates cfg') [])"
  by (auto simp: add_template_def split: if_splits)

section \<open>Renaming and renaming back\<close>

lemma find_index_renamed:
  "find_index (\<lambda>x. f x = n) xs = Some i \<Longrightarrow> f y \<notin> f ` set xs \<Longrightarrow> find_index (\<lambda>x. f x = f y) (xs[i := y]) = Some i"
  by (induction xs arbitrary: i) (auto split: if_splits)

lemma rename_receiver_back:
  assumes "Receiver_Ref new \<notin> route_refs r" "old \<noteq> new"
  shows "rename_receiver_in_route (rename_receiver_in_route r old new) new old = r"
proof -
  have "map_prod id (renamed_receiver new old) (map_prod id (renamed_receiver old new) l) = l"
    if l: "l \<in> set (am_flat r)" for l
  proof -
    have "Receiver_Ref new \<notin> field_refs (snd l)" using assms(1) l unfolding route_refs_def by blast
    then have "af_receiver (snd l) \<noteq> Some new" by (auto simp: field_refs_def)
    then show ?thesis using assms(2) by (cases l) (auto simp: renamed_receiver_def)
  qed
  then have "am_map (map_prod id (renamed_receiver new old) \<circ> map_prod id (renamed_receiver old new)) r = am_map (\<lambda>l. l) r"
    by (intro am_map_cong) (simp only: o_apply)
  then show ?thesis by (simp only: rename_receiver_am_map am_map_am_map am_map_ident)
qed

lemma rename_interval_back:
  assumes "Interval_Ref new \<notin> route_refs r" "old \<noteq> new"
  shows "rename_time_interval old new (rename_time_interval new old r) = r"
proof -
  let ?g = "\<lambda>a b. mapped_intervals (map_option (map (\<lambda>n. if n = a then b else n)))"
  have "map_prod id (?g new old) (map_prod id (?g old new) l) = l" if l: "l \<in> set (am_flat r)" for l
  proof -
    have "Interval_Ref new \<notin> field_refs (snd l)" using assms(1) l unfolding route_refs_def by blast
    then have absent: "new \<notin> set (nullish (af_mute_time_intervals (snd l)) [])" "new \<notin> set (nullish (af_active_time_intervals (snd l)) [])"
      by (auto simp: field_refs_def)
    have "map_option (map (\<lambda>n. if n = new then old else n)) (map_option (map (\<lambda>n. if n = old then new else n)) ms) = ms"
      if "new \<notin> set (nullish ms [])" for ms
      using that by (cases ms) (auto intro!: map_idI)
    with absent show ?thesis by (cases l) (simp add: mapped_intervals_def)
  qed
  then have "am_map (map_prod id (?g new old) \<circ> map_prod id (?g old new)) r = am_map (\<lambda>l. l) r"
    by (intro am_map_cong) (simp only: o_apply)
  then show ?thesis by (simp only: rename_interval_am_map am_map_am_map am_map_ident)
qed

lemma replace_named_back:
  assumes "\<And>x. x \<in> set ms \<Longrightarrow> mi_name x = mi_name m \<Longrightarrow> x = m" "mi_name m' \<notin> mi_name ` set ms" "mi_name m' \<noteq> mi_name m"
  shows "replace_named (mi_name m') m (replace_named (mi_name m) m' ms) = ms"
proof (cases "find_index (\<lambda>x. mi_name x = mi_name m) ms")
  case None
  moreover have "find_index (\<lambda>x. mi_name x = mi_name m') ms = None"
    using assms(2) by (auto simp: find_index_None_iff image_iff)
  ultimately show ?thesis by (simp add: replace_named_def)
next
  case (Some i)
  then have "i < length ms" "mi_name (ms ! i) = mi_name m" using find_index_SomeD [OF Some] by auto
  then have "ms ! i = m" using assms(1) by simp
  then show ?thesis
    using Some find_index_renamed [OF Some, of m'] assms(2) list_update_id [of ms i]
    by (simp add: replace_named_def)
qed

lemma receiver_renamed_back:
  assumes r: "r \<in> set (nullish (ac_receivers cfg) [])" and d: "distinct (receiver_names cfg)"
    and new: "rc_name r' \<notin> set (receiver_names cfg)" and fresh: "Receiver_Ref (rc_name r') \<notin> config_refs cfg"
  shows "bind_res (receivers_reducer cfg (Update_Receiver (rc_name r) r'))
      (\<lambda>cfg'. receivers_reducer cfg' (Update_Receiver (rc_name r') r)) = Inr cfg"
proof -
  from r obtain rs where rs: "ac_receivers cfg = Some rs" "r \<in> set rs" by (cases "ac_receivers cfg") auto
  then obtain i where i: "find_index (\<lambda>x. rc_name x = rc_name r) rs = Some i"
    by (cases "find_index (\<lambda>x. rc_name x = rc_name r) rs") (auto simp: find_index_None_iff)
  note at = find_index_SomeD [OF i]
  have names: "distinct (map rc_name rs)" "rc_name r' \<notin> rc_name ` set rs"
    using d new rs by (auto simp: receiver_names_def)
  have other: "rc_name r \<noteq> rc_name r'" using names(2) rs(2) by (metis imageI)
  have same: "rs ! i = r"
    using names(1) at rs(2) by (auto simp: distinct_map inj_on_def)
  have only: "rc_name r \<notin> rc_name ` set (rs[i := r'])"
  proof
    assume "rc_name r \<in> rc_name ` set (rs[i := r'])"
    then obtain k where k: "k < length rs" "rc_name (rs[i := r'] ! k) = rc_name r"
      by (auto simp: in_set_conv_nth)
    then have "k \<noteq> i" using at other by auto
    then have "rs[i := r'] ! k = rs ! k" by simp
    with k have "map rc_name rs ! k = map rc_name rs ! i" using at by simp
    then show False using names(1) k(1) at \<open>k \<noteq> i\<close> by (simp add: nth_eq_iff_index_eq del: nth_map)
  qed
  have undo: "map_option (\<lambda>t. rename_receiver_in_route t (rc_name r') (rc_name r))
      (map_option (\<lambda>t. rename_receiver_in_route t (rc_name r) (rc_name r')) (ac_route cfg)) = ac_route cfg"
    using rename_receiver_back [OF _ other] fresh by (cases "ac_route cfg") (auto simp: config_refs_def)
  have has: "has_receiver n xs \<longleftrightarrow> n \<in> rc_name ` set xs" for n and xs :: "'a receiver list"
    by (auto simp: has_receiver_def list_ex_iff)
  have "rs[i := r] = rs" using same list_update_id [of rs i] by simp
  then show ?thesis
    using i names(2) only other undo rs(1) find_index_renamed [OF i, of r']
    by (simp add: update_receiver_def has)
qed

lemma timing_renamed_back:
  assumes "m \<in> set (nullish (ac_time_intervals cfg) [])"
    and "\<forall>x \<in> set (nullish (ac_time_intervals cfg) [] @ nullish (ac_mute_time_intervals cfg) []). mi_name x = mi_name m \<longrightarrow> x = m"
    and "mi_name m' \<notin> set (interval_names cfg)" and "Interval_Ref (mi_name m') \<notin> config_refs cfg"
  shows "mute_timings_reducer (mute_timings_reducer cfg (Update_Mute_Timing m' (mi_name m))) (Update_Mute_Timing m (mi_name m')) = cfg"
proof -
  have other: "mi_name m \<noteq> mi_name m'" using assms(1,3) unfolding interval_names_iff by (metis imageI)
  have undo: "replace_named (mi_name m') m (replace_named (mi_name m) m' ms) = ms"
    if "ac_time_intervals cfg = Some ms \<or> ac_mute_time_intervals cfg = Some ms" for ms
    using that assms(2,3) other by (intro replace_named_back) (auto simp: interval_names_def)
  have "map_option (replace_named (mi_name m') m) (map_option (replace_named (mi_name m) m') (ac_time_intervals cfg)) = ac_time_intervals cfg"
    "map_option (replace_named (mi_name m') m) (map_option (replace_named (mi_name m) m') (ac_mute_time_intervals cfg)) = ac_mute_time_intervals cfg"
    using undo by (cases "ac_time_intervals cfg"; cases "ac_mute_time_intervals cfg"; simp)+
  moreover have "map_option (rename_time_interval (mi_name m) (mi_name m'))
      (map_option (rename_time_interval (mi_name m') (mi_name m)) (ac_route cfg)) = ac_route cfg"
    using rename_interval_back [OF _ other] assms(4) by (cases "ac_route cfg") (auto simp: config_refs_def)
  ultimately show ?thesis using other by (simp add: update_mute_timing_def)
qed

section \<open>Removing a policy\<close>

lemma am_flat_clean: "am_flat (clean_route_ids r) = map (\<lambda>l. (None, (snd l)\<lparr>af_name := None\<rparr>)) (am_flat r)"
  using clean_route_ids_nodes [of r] by (simp add: comp_def)

lemma flat_fields: "map snd (am_flat r) = map am_fields (am_nodes r)"
  by simp

lemma delete_route_reduced:
  assumes none: "\<And>n. n \<in> set (am_nodes r) \<Longrightarrow> am_id n = None"
    and r: "ac_route cfg = Some r"
    and ident: "Some ident \<in> set (am_ids (identify_tree json r))" "am_id (identify_tree json r) \<noteq> Some ident"
  shows "\<exists>t s. s \<in> set (am_nodes (identify_tree json r)) \<and> am_id s = Some ident \<and>
    routes_reducer json cfg (Delete_Route ident) = Inr (cfg\<lparr>ac_route := Some t\<rparr>) \<and>
    mset (am_flat (clean_route_ids r)) = mset (am_flat t) + mset (am_flat (clean_route_ids s))"
proof -
  let ?i = "identify_tree json r" and ?c = "\<lambda>l :: string option \<times> am_fields. (None :: string option, (snd l)\<lparr>af_name := None\<rparr>)"
  obtain s where s: "s \<in> set (am_nodes ?i)" "am_id s = Some ident"
    "mset (am_flat ?i) = mset (am_flat (find_and_omit ident ?i)) + mset (am_flat s)"
    using omit_removes_one [OF _ ident] identify_tree_distinct [of r json] none by blast
  have "am_flat (clean_route_ids r) = map (\<lambda>f. (None, f\<lparr>af_name := None\<rparr>)) (map am_fields (am_nodes r))"
    unfolding am_flat_clean by (simp add: comp_def)
  also have "\<dots> = map ?c (am_flat ?i)"
    unfolding identify_tree_def identified_fields [symmetric, of r json "nullish (af_name (am_fields r)) ''0''"]
    by (simp add: comp_def)
  finally have "mset (am_flat (clean_route_ids r)) = image_mset ?c (mset (am_flat ?i))"
    by (simp only: mset_map)
  also have "\<dots> = mset (am_flat (clean_route_ids (find_and_omit ident ?i))) + mset (am_flat (clean_route_ids s))"
    unfolding s(3) am_flat_clean by (simp only: image_mset_union mset_map)
  finally show ?thesis
    using s(1,2) r ident(2)
    by (intro exI [of _ "clean_route_ids (find_and_omit ident ?i)"] exI [of _ s])
       (simp add: edit_route_def omit_route_def lift_error_def)
qed

section \<open>Properties\<close>

text \<open>
  C23. From a consistent configuration, through any sequence of edits of contact points, timings, templates and policies in
  which no contact point is deleted that a policy uses, no policy is saved that names a contact point or timing that
  is not there (the empty contact point, which inherits, is free), and no template is saved over a missing one
  that has the name of a member every object inherits: every contact point and every timing a policy names is
  defined, and the list of templates has exactly the template files, each once. The reducers do not check the first two
  themselves (\<open>deleted_receiver_dangles\<close>).
\<close>

theorem configuration_stays_consistent:
  assumes "rtranclp (config_step json) cfg cfg'" and "config_ok cfg"
  shows "(\<forall>r n x. ac_route cfg' = Some r \<and> n \<in> set (am_nodes r) \<and> af_receiver (am_fields n) = Some x \<and> x \<noteq> [] \<longrightarrow>
      x \<in> rc_name ` set (nullish (ac_receivers cfg') [])) \<and>
    (\<forall>r n x. ac_route cfg' = Some r \<and> n \<in> set (am_nodes r) \<and>
        x \<in> set (nullish (af_mute_time_intervals (am_fields n)) [] @ nullish (af_active_time_intervals (am_fields n)) []) \<longrightarrow>
      x \<in> mi_name ` set (nullish (ac_time_intervals cfg') [] @ nullish (ac_mute_time_intervals cfg') [])) \<and>
    distinct (nullish (ac_templates cfg') []) \<and>
    set (nullish (ac_templates cfg') []) = set (jo_keys (nullish (ac_template_files cfg') []))"
proof -
  have ok: "refs_resolved cfg'" "templates_in_step cfg'"
    using config.run_inv [OF assms] by (auto simp: config_ok_def)
  have refs: "y \<in> defined_refs cfg'"
    if "ac_route cfg' = Some r" "n \<in> set (am_nodes r)" "y \<in> field_refs (am_fields n)" for r n y
    using ok(1) that by (auto simp: refs_resolved_def config_refs_def route_refs_def)
  have "x \<in> rc_name ` set (nullish (ac_receivers cfg') [])"
    if "ac_route cfg' = Some r" "n \<in> set (am_nodes r)" "af_receiver (am_fields n) = Some x" "x \<noteq> []" for r n x
    using refs [OF that(1,2), of "Receiver_Ref x"] that(3,4)
    by (auto simp: field_refs_def defined_refs_def receiver_names_def)
  moreover have "x \<in> mi_name ` set (nullish (ac_time_intervals cfg') [] @ nullish (ac_mute_time_intervals cfg') [])"
    if "ac_route cfg' = Some r" "n \<in> set (am_nodes r)"
      "x \<in> set (nullish (af_mute_time_intervals (am_fields n)) [] @ nullish (af_active_time_intervals (am_fields n)) [])" for r n x
    using refs [OF that(1,2), of "Interval_Ref x"] that(3)
    by (auto simp: field_refs_def defined_refs_def interval_names_def)
  moreover obtain files where "ac_template_files cfg' = Some files" "distinct (nullish (ac_templates cfg') [])"
    "set (nullish (ac_templates cfg') []) = set (jo_keys files)"
    using templates_in_step_D [OF ok(2)] by blast
  ultimately show ?thesis by auto
qed

definition sample_receiver :: "string \<Rightarrow> unit receiver" where
  "sample_receiver n = \<lparr>rc_name = n, rc_config = ()\<rparr>"

definition sample_config :: "unit am_config" where
  "sample_config = initial_config\<lparr>ac_receivers := Some [sample_receiver ''mail''],
     ac_route := Some (Am_Route None (empty_fields\<lparr>af_receiver := Some ''mail''\<rparr>) None)\<rparr>"

lemma sample_config_ok: "config_ok sample_config"
  by (simp add: config_ok_def sample_config_def initial_config_def sample_receiver_def refs_resolved_def
      config_refs_def defined_refs_def receiver_names_def route_refs_simps field_refs_def empty_fields_def
      templates_in_step_def jo.wf_empty jo.keys_empty)

lemma configuration_stays_consistent_witness:
  "\<exists>cfg'. reduce_config (\<lambda>_. []) sample_config (Receiver_Action (Update_Receiver ''mail'' (sample_receiver ''ops''))) = Inr cfg' \<and>
     (\<exists>r. ac_route cfg' = Some r \<and> af_receiver (am_fields r) = Some ''ops'') \<and> ''ops'' \<in> rc_name ` set (nullish (ac_receivers cfg') [])"
proof -
  let ?a = "Receiver_Action (Update_Receiver ''mail'' (sample_receiver ''ops''))"
  obtain cfg' where step: "reduce_config (\<lambda>_. []) sample_config ?a = Inr cfg'"
    and r: "ac_route cfg' = Some (Am_Route None (empty_fields\<lparr>af_receiver := Some ''ops''\<rparr>) None)"
    by (simp add: sample_config_def sample_receiver_def initial_config_def lift_error_def update_receiver_def has_receiver_def empty_fields_def)
  have "rtranclp (config_step (\<lambda>_. [])) sample_config cfg'"
    by (rule r_into_rtranclp) (use step in \<open>auto simp: config_step_def intro: exI [of _ ?a]\<close>)
  from configuration_stays_consistent [OF this sample_config_ok] have
    "''ops'' \<in> rc_name ` set (nullish (ac_receivers cfg') [])"
    using r by fastforce
  with step r show ?thesis by auto
qed

text \<open>Saving a policy with the default of the form, the empty contact point, is such an edit.\<close>

lemma inheriting_policy_saved:
  "legal_action cfg (Route_Action (Add_Route source (Form_Route (g\<lparr>ff_receiver := Some [], ff_mute_time_intervals := None,
     ff_active_time_intervals := None\<rparr>) None) ident position))"
  by (simp add: form_field_refs_def defined_refs_def)

text \<open>
  Renaming a contact point or a timing to a name nobody uses, and saving it under its old name again, restores
  the configuration with every policy as it was.
\<close>

theorem rename_undone:
  assumes "r \<in> set (nullish (ac_receivers cfg) [])" and "distinct (receiver_names cfg)"
    and "rc_name r' \<notin> set (receiver_names cfg)" and "Receiver_Ref (rc_name r') \<notin> config_refs cfg"
    and "m \<in> set (nullish (ac_time_intervals cfg) [])"
    and "\<forall>x \<in> set (nullish (ac_time_intervals cfg) [] @ nullish (ac_mute_time_intervals cfg) []). mi_name x = mi_name m \<longrightarrow> x = m"
    and "mi_name m' \<notin> set (interval_names cfg)" and "Interval_Ref (mi_name m') \<notin> config_refs cfg"
  shows "bind_res (receivers_reducer cfg (Update_Receiver (rc_name r) r'))
      (\<lambda>cfg'. receivers_reducer cfg' (Update_Receiver (rc_name r') r)) = Inr cfg \<and>
    mute_timings_reducer (mute_timings_reducer cfg (Update_Mute_Timing m' (mi_name m))) (Update_Mute_Timing m (mi_name m')) = cfg"
  using receiver_renamed_back [OF assms(1-4)] timing_renamed_back [OF assms(5-8)] by simp

definition sample_timing :: "string \<Rightarrow> mute_time_interval" where
  "sample_timing n = \<lparr>mi_name = n, mi_time_intervals = [], mi_provisioned = None\<rparr>"

lemma rename_undone_witness:
  "let cfg = sample_config\<lparr>ac_time_intervals := Some [sample_timing ''night'']\<rparr> in
   bind_res (receivers_reducer cfg (Update_Receiver ''mail'' (sample_receiver ''ops'')))
     (\<lambda>cfg'. receivers_reducer cfg' (Update_Receiver ''ops'' (sample_receiver ''mail''))) = Inr cfg"
proof -
  let ?cfg = "sample_config\<lparr>ac_time_intervals := Some [sample_timing ''night'']\<rparr>"
  have "config_refs ?cfg = {Receiver_Ref ''mail''}"
    by (auto simp: sample_config_def config_refs_def route_refs_simps field_refs_def empty_fields_def)
  then show ?thesis
    using rename_undone [of "sample_receiver ''mail''" ?cfg "sample_receiver ''ops''" "sample_timing ''night''" "sample_timing ''day''"]
    by (simp add: sample_config_def sample_receiver_def initial_config_def receiver_names_def interval_names_def sample_timing_def)
qed

text \<open>
  Deleting a policy of a stored configuration under the identifier the tree shows removes that policy and those
  nested in it; every other policy is stored as before, without the identifiers and names the editor works with.
\<close>

theorem delete_policy_reduced:
  assumes "\<forall>n \<in> set (am_nodes r). am_id n = None" and "ac_route cfg = Some r"
    and "Some ident \<in> set (am_ids (identify_tree json r))" and "am_id (identify_tree json r) \<noteq> Some ident"
  shows "\<exists>t s. s \<in> set (am_nodes (identify_tree json r)) \<and> am_id s = Some ident \<and>
    routes_reducer json cfg (Delete_Route ident) = Inr (cfg\<lparr>ac_route := Some t\<rparr>) \<and>
    mset (am_flat (clean_route_ids r)) = mset (am_flat t) + mset (am_flat (clean_route_ids s))"
  using delete_route_reduced [OF _ assms(2-4)] assms(1) by blast

lemma delete_policy_reduced_witness:
  "\<exists>t. routes_reducer (\<lambda>_. []) (sample_config\<lparr>ac_route := Some (Am_Route None empty_fields (Some [Am_Route None empty_fields None]))\<rparr>)
     (Delete_Route ''0-0-0'') = Inr (sample_config\<lparr>ac_route := Some t\<rparr>) \<and> length (am_nodes t) = 1"
proof -
  let ?r = "Am_Route None empty_fields (Some [Am_Route None empty_fields None])"
  let ?cfg = "sample_config\<lparr>ac_route := Some ?r\<rparr>"
  have ids: "am_ids (identify_tree (\<lambda>_. []) ?r) = [Some ''0-0'', Some ''0-0-0'']"
    by (simp add: identify_tree_def empty_fields_def hash_route_def hash_string_def number_text_def base_text.simps base_digit_def string_of_nat.simps digit_char_def char_of_def bit_0)
  have root: "am_id (identify_tree (\<lambda>_. []) ?r) = Some ''0-0''"
    by (simp add: identify_tree_def empty_fields_def hash_route_def hash_string_def number_text_def base_text.simps base_digit_def digit_char_def char_of_def bit_0)
  from delete_policy_reduced [of ?r ?cfg "''0-0-0''" "\<lambda>_. []"] ids root obtain t s where
    t: "routes_reducer (\<lambda>_. []) ?cfg (Delete_Route ''0-0-0'') = Inr (?cfg\<lparr>ac_route := Some t\<rparr>)"
    "mset (am_flat (clean_route_ids ?r)) = mset (am_flat t) + mset (am_flat (clean_route_ids s))"
    by auto
  have "length (am_nodes ?r) = length (am_nodes t) + length (am_nodes (clean_route_ids s))"
    using arg_cong [OF t(2), of size] by simp
  moreover have "length (am_nodes t) \<ge> 1" "length (am_nodes (clean_route_ids s)) \<ge> 1"
    by (cases t; simp) (cases s; simp)
  ultimately show ?thesis using t(1) by auto
qed

end
