(* ===== verification/Options_Picker.thy ===== *)
theory Options_Picker
  imports Js_String Js_Object
begin

text \<open>
  The picker of a template variable's values,
  \<open>public/app/features/variables/pickers/OptionsPicker/reducer.ts\<close>: the options on offer, those
  selected, the text typed into the search box and the highlighted row, with every action of the slice.

  The fuzzy search \<open>ufuzzy.search(haystack, needle, 5)\<close> is the parameter \<open>search\<close>. \<open>None\<close> stands for no
  index list, \<open>Some (idxs, None)\<close> for a filtered but unranked answer and \<open>Some (idxs, Some (idx, order))\<close>
  for a ranked one. An option's \<open>isNone\<close> and \<open>properties\<close>, which the slice only copies, are left out.
  The value \<open>__proto__\<close>, which a plain object cannot hold as a key, is not modelled.
\<close>

section \<open>State\<close>

datatype text_value = One string | Many "string list"

record variable_option =
  vo_selected :: bool
  vo_text :: text_value
  vo_value :: text_value

record options_picker_state =
  op_id :: string
  op_selected_values :: "variable_option list"
  op_query_value :: string
  op_highlight_index :: int
  op_options :: "variable_option list"
  op_multi :: bool

text \<open>What the slice reads of the variable it is shown for; \<open>query\<close> is \<open>None\<close> when it is not a text.\<close>

record variable_model =
  vm_id :: string
  vm_type :: string
  vm_query :: "string option"
  vm_query_value :: "string option"
  vm_multi :: "bool option"
  vm_options :: "variable_option list"

definition initial_option_picker_state :: options_picker_state where
  "initial_option_picker_state =
     \<lparr>op_id = [], op_selected_values = [], op_query_value = [], op_highlight_index = -1, op_options = [],
      op_multi = False\<rparr>"

definition ALL_VARIABLE_VALUE :: string where
  "ALL_VARIABLE_VALUE = ''$__all''"

definition OPTIONS_LIMIT :: nat where
  "OPTIONS_LIMIT = 1000"

text \<open>\<open>===\<close>: two arrays of different objects are never identical.\<close>

fun strict_equal :: "text_value \<Rightarrow> text_value \<Rightarrow> bool" where
  "strict_equal (One a) (One b) = (a = b)"
| "strict_equal _ _ = False"

definition is_all :: "variable_option \<Rightarrow> bool" where
  "is_all o' = strict_equal (vo_value o') (One ALL_VARIABLE_VALUE)"

section \<open>State changes\<close>

fun options_to_record :: "variable_option list \<Rightarrow> variable_option jobj \<Rightarrow> variable_option jobj" where
  "options_to_record [] d = d"
| "options_to_record (p # ps) d =
     options_to_record ps (case vo_value p of One v \<Rightarrow> jo_set v p d | Many _ \<Rightarrow> d)"

definition mark_option :: "variable_option jobj \<Rightarrow> variable_option \<Rightarrow> variable_option" where
  "mark_option d p =
     (case vo_value p of
        Many _ \<Rightarrow> p
      | One v \<Rightarrow> if vo_selected p = finds_key d v then p else p\<lparr>vo_selected := finds_key d v\<rparr>)"

definition apply_limit :: "variable_option list \<Rightarrow> variable_option list" where
  "apply_limit ps = (if length ps \<le> OPTIONS_LIMIT then ps else take OPTIONS_LIMIT ps)"

definition update_options :: "options_picker_state \<Rightarrow> options_picker_state" where
  "update_options s =
     (let d = options_to_record (op_selected_values s) [] in
      s\<lparr>op_selected_values := jo_values d, op_options := apply_limit (map (mark_option d) (op_options s))\<rparr>)"

definition update_default_selection :: "options_picker_state \<Rightarrow> options_picker_state" where
  "update_default_selection s =
     (if op_options s = [] \<or> op_selected_values s \<noteq> [] then s
      else if \<not> is_all (hd (op_options s)) then s
      else s\<lparr>op_selected_values := [(hd (op_options s))\<lparr>vo_selected := True\<rparr>]\<rparr>)"

definition update_all_selection :: "options_picker_state \<Rightarrow> options_picker_state" where
  "update_all_selection s =
     (if 1 < length (op_selected_values s)
      then s\<lparr>op_selected_values := filter (\<lambda>p. \<not> is_all p) (op_selected_values s)\<rparr> else s)"

definition select_all_options :: "variable_option list \<Rightarrow> variable_option list" where
  "select_all_options ps = map (\<lambda>p. p\<lparr>vo_selected := True\<rparr>) (filter (\<lambda>p. \<not> is_all p) ps)"

definition contains_search_filter :: "string option \<Rightarrow> bool" where
  "contains_search_filter query =
     (case query of Some q \<Rightarrow> q \<noteq> [] \<and> index_of ''__searchFilter'' q \<noteq> None | None \<Rightarrow> False)"

section \<open>Actions\<close>

definition show_options :: "variable_model \<Rightarrow> options_picker_state \<Rightarrow> options_picker_state" where
  "show_options m s =
     (let query = (if vm_type m = ''query'' \<and> contains_search_filter (vm_query m) then nullish (vm_query_value m) [] else []);
          s = s\<lparr>op_highlight_index := -1, op_options := vm_options m, op_id := vm_id m,
                op_query_value := query, op_multi := nullish (vm_multi m) False,
                op_selected_values := filter vo_selected (vm_options m)\<rparr>
      in update_options (update_default_selection s))"

definition hide_options :: "options_picker_state \<Rightarrow> options_picker_state" where
  "hide_options s = initial_option_picker_state"

definition same_option :: "variable_option \<Rightarrow> variable_option \<Rightarrow> bool" where
  "same_option p q \<longleftrightarrow> strict_equal (vo_value q) (vo_value p) \<and> strict_equal (vo_text q) (vo_text p)"

definition after_toggle :: "options_picker_state \<Rightarrow> options_picker_state" where
  "after_toggle s = update_options (update_all_selection (update_default_selection s))"

definition toggle_option ::
  "variable_option option \<Rightarrow> bool \<Rightarrow> bool \<Rightarrow> options_picker_state \<Rightarrow> options_picker_state" where
  "toggle_option opt force_select clear_others s =
     (case opt of
        None \<Rightarrow> after_toggle (s\<lparr>op_selected_values := []\<rparr>)
      | Some p \<Rightarrow>
          (let selected = \<not> list_ex (same_option p) (op_selected_values s) in
           if is_all p \<or> \<not> op_multi s \<or> clear_others
           then after_toggle (s\<lparr>op_selected_values :=
                  if selected \<or> force_select then [p\<lparr>vo_selected := True\<rparr>] else []\<rparr>)
           else if force_select \<or> selected
           then after_toggle (s\<lparr>op_selected_values := op_selected_values s @ [p\<lparr>vo_selected := True\<rparr>]\<rparr>)
           else after_toggle (s\<lparr>op_selected_values :=
                  filter (\<lambda>q. \<not> strict_equal (vo_value q) (vo_value p) \<and> \<not> strict_equal (vo_text q) (vo_text p))
                    (op_selected_values s)\<rparr>)))"

definition move_options_highlight :: "int \<Rightarrow> options_picker_state \<Rightarrow> options_picker_state" where
  "move_options_highlight d s =
     (let next_index = op_highlight_index s + d in
      s\<lparr>op_highlight_index :=
          if next_index < 0 then -1
          else if next_index \<ge> int (length (op_options s)) then int (length (op_options s)) - 1
          else next_index\<rparr>)"

definition toggle_all_options :: "options_picker_state \<Rightarrow> options_picker_state" where
  "toggle_all_options s =
     (let all_selected = list_ex is_all (op_selected_values s); configured = List.find is_all (op_options s) in
      if op_selected_values s \<noteq> [] \<and> configured \<noteq> None \<and> \<not> all_selected
      then update_options (s\<lparr>op_selected_values :=
             [\<lparr>vo_selected = True, vo_text = vo_text (the configured), vo_value = vo_value (the configured)\<rparr>]\<rparr>)
      else if all_selected \<and> length (op_selected_values s) = 1
      then update_options (s\<lparr>op_selected_values := select_all_options (op_options s)\<rparr>)
      else if op_selected_values s \<noteq> [] \<and> configured = None
      then update_options (s\<lparr>op_selected_values := []\<rparr>)
      else update_options (s\<lparr>op_selected_values := select_all_options (op_options s)\<rparr>))"

definition update_search_query :: "string \<Rightarrow> options_picker_state \<Rightarrow> options_picker_state" where
  "update_search_query q s = s\<lparr>op_query_value := q\<rparr>"

type_synonym fuzzy_search = "string list \<Rightarrow> string \<Rightarrow> (nat list \<times> (nat list \<times> nat list) option) option"

definition non_ascii :: "string \<Rightarrow> bool" where
  "non_ascii s = list_ex (\<lambda>c. (of_char c :: nat) < 32 \<or> 126 < (of_char c :: nat)) s"

definition text_includes :: "text_value \<Rightarrow> string \<Rightarrow> bool" where
  "text_includes t needle =
     (case t of One s \<Rightarrow> index_of needle s \<noteq> None | Many ss \<Rightarrow> needle \<in> set ss)"

definition text_string :: "text_value \<Rightarrow> string" where
  "text_string t = (case t of One s \<Rightarrow> s | Many ss \<Rightarrow> join_with '','' ss)"

text \<open>An index outside the list reads \<open>undefined\<close>, whose \<open>value\<close> the following steps cannot read.\<close>

fun pick_all :: "'a list \<Rightarrow> nat list \<Rightarrow> 'a list res" where
  "pick_all xs [] = Inr []"
| "pick_all xs (i # is) =
     (if i < length xs then map_sum id ((#) (xs ! i)) (pick_all xs is)
      else Inl Js_TypeError)"

definition search_options :: "fuzzy_search \<Rightarrow> string \<Rightarrow> variable_option list \<Rightarrow> variable_option list res" where
  "search_options search needle ps =
     (if needle = [] then Inr ps
      else if non_ascii needle then Inr (filter (\<lambda>p. text_includes (vo_text p) needle) ps)
      else case search (map (\<lambda>p. text_string (vo_text p)) ps) needle of
             None \<Rightarrow> Inr []
           | Some (idxs, ranked) \<Rightarrow>
               if idxs = [] then Inr []
               else bind_res
                 (case ranked of
                    Some (idx, order) \<Rightarrow> bind_res (pick_all idx order) (pick_all ps)
                  | None \<Rightarrow> pick_all ps idxs)
                 (\<lambda>opts. Inr (sort_key (\<lambda>p. if is_all p then -1 else 0 :: int) opts)))"

definition typed_option :: "string \<Rightarrow> variable_option" where
  "typed_option needle = \<lparr>vo_selected = False, vo_text = One (''> '' @ needle), vo_value = One needle\<rparr>"

definition update_options_and_filter ::
  "fuzzy_search \<Rightarrow> variable_option list \<Rightarrow> options_picker_state \<Rightarrow> options_picker_state res" where
  "update_options_and_filter search ps s =
     (let needle = trim (op_query_value s) in
      bind_res (search_options search needle ps) (\<lambda>opts.
        let first = find_index (\<lambda>p. \<not> is_all p) opts;
            s' = (if needle = [] then s\<lparr>op_highlight_index := 0, op_options := opts\<rparr>
                  else case first of
                    None \<Rightarrow> s\<lparr>op_highlight_index := 0, op_options := typed_option needle # opts\<rparr>
                  | Some i \<Rightarrow>
                      if \<not> strict_equal (vo_value (opts ! i)) (One needle)
                      then s\<lparr>op_highlight_index := int i + 1, op_options := typed_option needle # opts\<rparr>
                      else s\<lparr>op_highlight_index := 0, op_options := opts\<rparr>)
        in Inr (update_options (update_default_selection s'))))"

definition update_options_from_search :: "variable_option list \<Rightarrow> options_picker_state \<Rightarrow> options_picker_state" where
  "update_options_from_search ps s =
     update_options (update_default_selection (s\<lparr>op_options := ps, op_highlight_index := 0\<rparr>))"

definition clean_picker_state :: "options_picker_state \<Rightarrow> options_picker_state" where
  "clean_picker_state s = initial_option_picker_state"

datatype picker_action =
    Show_Options variable_model
  | Hide_Options
  | Toggle_Option "variable_option option" bool bool
  | Move_Options_Highlight int
  | Toggle_All_Options
  | Update_Search_Query string
  | Update_Options_And_Filter "variable_option list"
  | Update_Options_From_Search "variable_option list"
  | Clean_Picker_State

fun options_picker_reducer ::
  "fuzzy_search \<Rightarrow> options_picker_state \<Rightarrow> picker_action \<Rightarrow> options_picker_state res" where
  "options_picker_reducer search s (Show_Options m) = Inr (show_options m s)"
| "options_picker_reducer search s Hide_Options = Inr (hide_options s)"
| "options_picker_reducer search s (Toggle_Option p f c) = Inr (toggle_option p f c s)"
| "options_picker_reducer search s (Move_Options_Highlight d) = Inr (move_options_highlight d s)"
| "options_picker_reducer search s Toggle_All_Options = Inr (toggle_all_options s)"
| "options_picker_reducer search s (Update_Search_Query q) = Inr (update_search_query q s)"
| "options_picker_reducer search s (Update_Options_And_Filter ps) = update_options_and_filter search ps s"
| "options_picker_reducer search s (Update_Options_From_Search ps) = Inr (update_options_from_search ps s)"
| "options_picker_reducer search s Clean_Picker_State = Inr (clean_picker_state s)"

section \<open>Reachable states\<close>

inductive picker_reachable :: "fuzzy_search \<Rightarrow> options_picker_state \<Rightarrow> bool" for search where
  picker_start: "picker_reachable search initial_option_picker_state"
| picker_step:
    "picker_reachable search s \<Longrightarrow> options_picker_reducer search s a = Inr s' \<Longrightarrow> picker_reachable search s'"

definition picker_ok :: "options_picker_state \<Rightarrow> bool" where
  "picker_ok s \<longleftrightarrow>
     distinct (map vo_value (op_selected_values s)) \<and>
     (\<forall>p \<in> set (op_selected_values s). vo_selected p \<and> (\<exists>v. vo_value p = One v)) \<and>
     (\<forall>p \<in> set (op_options s). \<forall>v. vo_value p = One v \<longrightarrow> v \<notin> set inherited_names \<longrightarrow>
        vo_selected p = (One v \<in> vo_value ` set (op_selected_values s))) \<and>
     length (op_options s) \<le> OPTIONS_LIMIT \<and> -1 \<le> op_highlight_index s"

text \<open>The selected values, and those among given options that are not \<open>All\<close>.\<close>

definition picked :: "options_picker_state \<Rightarrow> string set" where
  "picked s = {v. One v \<in> vo_value ` set (op_selected_values s)}"

definition other_values :: "variable_option list \<Rightarrow> string set" where
  "other_values ps = {v. One v \<in> vo_value ` set ps \<and> v \<noteq> ALL_VARIABLE_VALUE}"

section \<open>The record of the selected options\<close>

definition has_key :: "variable_option \<Rightarrow> bool" where
  "has_key p \<longleftrightarrow> (\<exists>v. vo_value p = One v)"

definition key_of :: "variable_option \<Rightarrow> string" where
  "key_of p = (case vo_value p of One v \<Rightarrow> v | Many _ \<Rightarrow> [])"

lemma key_of_iff: "has_key p \<Longrightarrow> key_of p = k \<longleftrightarrow> vo_value p = One k"
  by (auto simp: has_key_def key_of_def)

lemma key_of_has_key: "has_key p \<Longrightarrow> vo_value p = One (key_of p)"
  by (auto simp: has_key_def key_of_def)

lemma key_of_image: "key_of ` {p \<in> set ps. has_key p} = {v. One v \<in> vo_value ` set ps}"
proof (intro set_eqI iffI)
  fix v
  assume "v \<in> key_of ` {p \<in> set ps. has_key p}"
  then obtain p where p: "p \<in> set ps" "has_key p" "v = key_of p" by blast
  with key_of_has_key [of p] show "v \<in> {v. One v \<in> vo_value ` set ps}" by (metis CollectI image_eqI)
next
  fix v
  assume "v \<in> {v. One v \<in> vo_value ` set ps}"
  then obtain p where p: "p \<in> set ps" "One v = vo_value p" by blast
  then have "has_key p" "key_of p = v" by (simp_all add: has_key_def key_of_def flip: p(2))
  with p(1) show "v \<in> key_of ` {p \<in> set ps. has_key p}" by blast
qed

lemma find_member: "find P xs = Some x \<Longrightarrow> x \<in> set xs \<and> P x"
  by (induction xs) (auto split: if_splits)

lemma options_to_record_fold:
  "options_to_record ps d = fold (\<lambda>p. jo_set (key_of p) p) (filter has_key ps) d"
  by (induction ps arbitrary: d) (auto simp: has_key_def key_of_def split: text_value.splits)

lemma record_wf: "jo_wf (options_to_record ps [])"
  unfolding options_to_record_fold by (rule jo.wf_fold_put [OF jo.wf_empty])

lemma record_entry:
  assumes "(k, p) \<in> set (options_to_record ps [])"
  shows "p \<in> set ps \<and> vo_value p = One k"
proof -
  from assms record_wf [of ps] have "jo_get (options_to_record ps []) k = Some p"
    by (simp add: jo_wf_def jo_get_def)
  then have "find (\<lambda>q. key_of q = k) (rev (filter has_key ps)) = Some p"
    by (simp add: options_to_record_fold jo.get_fold_put jo.get_empty split: option.splits)
  from find_member [OF this] show ?thesis by (auto simp: key_of_has_key)
qed

lemma record_keys: "set (map fst (options_to_record ps [])) = {v. One v \<in> vo_value ` set ps}"
proof -
  have "set (jo_keys (options_to_record ps [])) = key_of ` {p \<in> set ps. has_key p}"
    by (simp add: options_to_record_fold jo.keys_fold_put jo.keys_empty)
  then show ?thesis by (simp add: jo_keys_def key_of_image)
qed

lemma record_values: "map vo_value (jo_values (options_to_record ps [])) = map One (map fst (options_to_record ps []))"
  using record_entry by (auto simp: jo_values_def)

lemma finds_key_iff:
  "finds_key (options_to_record ps []) v \<longleftrightarrow> One v \<in> vo_value ` set ps \<or> v \<in> set inherited_names"
proof -
  have "jo_get (options_to_record ps []) v \<noteq> None \<longleftrightarrow> v \<in> set (map fst (options_to_record ps []))"
    using jo.keys_get [of v "options_to_record ps []"] by (simp add: jo_keys_def)
  then show ?thesis by (simp only: finds_key_def record_keys mem_Collect_eq)
qed

lemma picked_update_options [simp]: "picked (update_options s) = picked s"
proof -
  have "vo_value ` set (jo_values (options_to_record ps [])) = One ` {v. One v \<in> vo_value ` set ps}" for ps
    by (metis (no_types) record_keys record_values set_map)
  then show ?thesis by (auto simp: picked_def update_options_def Let_def)
qed

lemma mark_option_value [simp]: "vo_value (mark_option d p) = vo_value p" "vo_text (mark_option d p) = vo_text p"
  by (auto simp: mark_option_def split: text_value.splits)

lemma set_apply_limit: "set (apply_limit ps) \<subseteq> set ps" "length (apply_limit ps) \<le> OPTIONS_LIMIT"
  by (auto simp: apply_limit_def dest: in_set_takeD)

lemma update_options_ok:
  assumes "\<forall>p \<in> set (op_selected_values s). vo_selected p" "-1 \<le> op_highlight_index s"
  shows "picker_ok (update_options s)"
proof -
  let ?d = "options_to_record (op_selected_values s) []"
  have "distinct (map vo_value (jo_values ?d))"
    unfolding record_values using record_wf by (simp add: distinct_map jo_wf_def inj_on_def)
  moreover have "vo_selected p \<and> (\<exists>v. vo_value p = One v)" if "p \<in> set (jo_values ?d)" for p
    using that assms(1) by (auto simp: jo_values_def dest!: record_entry)
  moreover have "One v \<in> vo_value ` set (jo_values ?d) \<longleftrightarrow> One v \<in> vo_value ` set (op_selected_values s)" for v
    using picked_update_options [of s] by (auto simp: picked_def update_options_def Let_def set_eq_iff)
  moreover have "vo_selected p = (One v \<in> vo_value ` set (op_selected_values s))"
    if "p \<in> set (apply_limit (map (mark_option ?d) (op_options s)))" "vo_value p = One v" "v \<notin> set inherited_names" for p v
  proof -
    from that(1) set_apply_limit(1) obtain q where "p = mark_option ?d q" by fastforce
    moreover from this that(2) have "vo_value q = One v" by (simp only: mark_option_value)
    ultimately show ?thesis using that(3) by (simp add: mark_option_def finds_key_iff)
  qed
  ultimately show ?thesis
    using assms(2) set_apply_limit(2) unfolding picker_ok_def by (simp add: update_options_def Let_def)
qed

section \<open>Every action keeps the invariant\<close>

lemma update_default_keeps:
  "\<forall>p \<in> set (op_selected_values s). vo_selected p \<Longrightarrow>
   \<forall>p \<in> set (op_selected_values (update_default_selection s)). vo_selected p"
  "op_highlight_index (update_default_selection s) = op_highlight_index s"
  by (auto simp: update_default_selection_def)

lemma update_all_keeps:
  "\<forall>p \<in> set (op_selected_values s). vo_selected p \<Longrightarrow>
   \<forall>p \<in> set (op_selected_values (update_all_selection s)). vo_selected p"
  "op_highlight_index (update_all_selection s) = op_highlight_index s"
  by (auto simp: update_all_selection_def)

lemma after_toggle_ok:
  "\<forall>p \<in> set (op_selected_values s). vo_selected p \<Longrightarrow> -1 \<le> op_highlight_index s \<Longrightarrow> picker_ok (after_toggle s)"
  unfolding after_toggle_def
  by (rule update_options_ok, rule update_all_keeps(1), rule update_default_keeps(1), assumption)
     (simp only: update_all_keeps(2) update_default_keeps(2))

lemma default_update_ok:
  "\<forall>p \<in> set (op_selected_values s). vo_selected p \<Longrightarrow> -1 \<le> op_highlight_index s \<Longrightarrow>
   picker_ok (update_options (update_default_selection s))"
  by (rule update_options_ok, rule update_default_keeps(1), assumption) (simp only: update_default_keeps(2))

lemma picker_okD:
  "picker_ok s \<Longrightarrow> \<forall>p \<in> set (op_selected_values s). vo_selected p"
  "picker_ok s \<Longrightarrow> -1 \<le> op_highlight_index s"
  by (auto simp: picker_ok_def)

lemma initial_ok: "picker_ok initial_option_picker_state"
  by (simp add: picker_ok_def initial_option_picker_state_def)

lemma toggle_option_ok: "picker_ok s \<Longrightarrow> picker_ok (toggle_option p f c s)"
  using picker_okD [of s]
  by (auto simp: toggle_option_def Let_def intro!: after_toggle_ok split: option.splits)

lemma toggle_all_ok: "picker_ok s \<Longrightarrow> picker_ok (toggle_all_options s)"
  using picker_okD [of s]
  by (auto simp: toggle_all_options_def select_all_options_def Let_def intro!: update_options_ok)

lemma update_options_and_filter_ok:
  "picker_ok s \<Longrightarrow> update_options_and_filter search ps s = Inr s' \<Longrightarrow> picker_ok s'"
  using picker_okD [of s]
  by (auto simp: update_options_and_filter_def bind_res_Inr_iff Let_def intro!: default_update_ok
      split: option.splits if_splits)

lemma show_options_ok: "picker_ok (show_options m s)"
  unfolding show_options_def Let_def by (rule default_update_ok) simp_all

lemma update_options_from_search_ok: "picker_ok s \<Longrightarrow> picker_ok (update_options_from_search ps s)"
  unfolding update_options_from_search_def by (rule default_update_ok) (simp_all add: picker_okD(1))

lemma move_options_highlight_ok: "picker_ok s \<Longrightarrow> picker_ok (move_options_highlight d s)"
  by (simp add: picker_ok_def move_options_highlight_def Let_def)

lemma update_search_query_ok: "picker_ok s \<Longrightarrow> picker_ok (update_search_query q s)"
  by (simp add: picker_ok_def update_search_query_def)

lemma reducer_ok: "picker_ok s \<Longrightarrow> options_picker_reducer search s a = Inr s' \<Longrightarrow> picker_ok s'"
  by (cases a)
     (auto simp: hide_options_def clean_picker_state_def initial_ok show_options_ok toggle_option_ok toggle_all_ok
       move_options_highlight_ok update_search_query_ok update_options_from_search_ok
       simp del: One_nat_def intro: update_options_and_filter_ok)

interpretation picker: state_machine "\<lambda>s. s = initial_option_picker_state" "\<lambda>s s'. \<exists>a. options_picker_reducer search s a = Inr s'" picker_ok
  for search
  by unfold_locales (auto intro: initial_ok reducer_ok)

lemma reachable_ok: "picker_reachable search s \<Longrightarrow> picker_ok s"
  by (induction rule: picker_reachable.induct) (auto intro: picker.first_inv picker.step_inv)

section \<open>Which values an action leaves selected\<close>

lemma picked_Nil [simp]: "op_selected_values s = [] \<Longrightarrow> picked s = {}"
  by (simp add: picked_def)

lemma picked_ok_empty: "picker_ok s \<Longrightarrow> picked s = {} \<longleftrightarrow> op_selected_values s = []"
  by (cases "op_selected_values s") (auto simp: picked_def picker_ok_def)

lemma is_all_iff: "is_all p \<longleftrightarrow> vo_value p = One ALL_VARIABLE_VALUE"
  by (cases "vo_value p") (auto simp: is_all_def)

lemma strict_equal_iff: "strict_equal t (One v) \<longleftrightarrow> t = One v"
  by (cases t) auto

definition default_pick :: "variable_option list \<Rightarrow> string set" where
  "default_pick ps = (if ps \<noteq> [] \<and> is_all (hd ps) then {ALL_VARIABLE_VALUE} else {})"

lemma picked_default:
  "picked (update_default_selection s) = (if op_selected_values s = [] then default_pick (op_options s) else picked s)"
  by (auto simp: update_default_selection_def picked_def default_pick_def is_all_iff)

lemma picked_all_filter:
  "picked (update_all_selection s) =
     (if 1 < length (op_selected_values s) then picked s - {ALL_VARIABLE_VALUE} else picked s)"
  by (auto simp: update_all_selection_def picked_def is_all_iff)

lemma default_length: "op_selected_values s \<noteq> [] \<Longrightarrow> update_default_selection s = s"
  by (simp add: update_default_selection_def)

lemma default_short: "op_selected_values s = [] \<Longrightarrow> length (op_selected_values (update_default_selection s)) \<le> 1"
  by (simp add: update_default_selection_def)

lemma picked_after_toggle:
  "picked (after_toggle s) =
     (if op_selected_values s = [] then default_pick (op_options s)
      else if length (op_selected_values s) = 1 then picked s
      else picked s - {ALL_VARIABLE_VALUE})"
proof (cases "op_selected_values s = []")
  case True
  with default_short [OF this] show ?thesis
    by (simp add: after_toggle_def picked_all_filter picked_default)
next
  case False
  then have "1 < length (op_selected_values s) \<longleftrightarrow> length (op_selected_values s) \<noteq> 1"
    by (cases "op_selected_values s") auto
  with False show ?thesis
    by (simp add: after_toggle_def picked_all_filter default_length del: One_nat_def)
qed

lemma value_mem: "One w \<in> vo_value ` S \<longleftrightarrow> (\<exists>q \<in> S. vo_value q = One w)"
  by (metis image_iff)

lemma value_image:
  assumes "\<And>p. p \<in> S \<Longrightarrow> \<exists>v. vo_value p = One v"
  shows "vo_value ` S = One ` {w. One w \<in> vo_value ` S}"
proof (intro set_eqI iffI)
  fix x
  assume x: "x \<in> vo_value ` S"
  with assms obtain v where "x = One v" by (metis imageE)
  with x show "x \<in> One ` {w. One w \<in> vo_value ` S}" by simp
qed auto

lemma values_card:
  assumes "distinct (map vo_value ps)" "\<forall>p \<in> set ps. \<exists>v. vo_value p = One v"
  shows "card {w. One w \<in> vo_value ` set ps} = length ps"
proof -
  have "length ps = card (vo_value ` set ps)" using distinct_card [OF assms(1)] by simp
  also have "\<dots> = card (One ` {w. One w \<in> vo_value ` set ps})"
    using value_image [of "set ps"] assms(2) by simp
  also have "\<dots> = card {w. One w \<in> vo_value ` set ps}" by (rule card_image) (simp add: inj_on_def)
  finally show ?thesis by simp
qed

lemma values_empty:
  "\<forall>p \<in> set ps. \<exists>v. vo_value p = One v \<Longrightarrow> {w. One w \<in> vo_value ` set ps} = {} \<longleftrightarrow> ps = []"
  by (cases ps) auto

section \<open>Properties\<close>

text \<open>
  C12. In every state the picker can reach, the selected values are distinct texts, every option on
  offer is marked selected exactly when its value is selected (values that every object inherits as
  property names apart), at most a thousand options are on offer and the highlighted row is at least -1.
\<close>

theorem reachable_selection_marked:
  assumes "picker_reachable search s"
  shows "distinct (map vo_value (op_selected_values s)) \<and>
    (\<forall>p \<in> set (op_selected_values s). vo_selected p \<and> (\<exists>v. vo_value p = One v)) \<and>
    (\<forall>p \<in> set (op_options s). \<forall>v. vo_value p = One v \<longrightarrow> v \<notin> set inherited_names \<longrightarrow>
       vo_selected p = (v \<in> picked s)) \<and>
    length (op_options s) \<le> OPTIONS_LIMIT \<and> -1 \<le> op_highlight_index s"
  using reachable_ok [OF assms] by (simp add: picker_ok_def picked_def)

text \<open>A variable with \<open>All\<close> and two values, the first of them selected.\<close>

definition sample_option :: "bool \<Rightarrow> string \<Rightarrow> string \<Rightarrow> variable_option" where
  "sample_option sel t v = \<lparr>vo_selected = sel, vo_text = One t, vo_value = One v\<rparr>"

definition sample_variable :: variable_model where
  "sample_variable =
     \<lparr>vm_id = ''server'', vm_type = ''query'', vm_query = Some ''q'', vm_query_value = None, vm_multi = Some True,
      vm_options = [sample_option False ''All'' ALL_VARIABLE_VALUE, sample_option True ''a'' ''1'', sample_option False ''b'' ''2'']\<rparr>"

definition sample_picker :: options_picker_state where
  "sample_picker = show_options sample_variable initial_option_picker_state"

lemmas picker_eval =
  sample_option_def update_options_def update_default_selection_def apply_limit_def OPTIONS_LIMIT_def mark_option_def
  is_all_def ALL_VARIABLE_VALUE_def finds_key_def inherited_names_def initial_option_picker_state_def jo_set_def
  jo_get_def jo_values_def array_index_def is_digit_def nat_of_digits_def Let_def

lemma sample_reachable: "picker_reachable search sample_picker"
  unfolding sample_picker_def
  by (rule picker_step [OF picker_start, of _ "Show_Options sample_variable"]) simp

lemma reachable_selection_marked_witness:
  "distinct (map vo_value (op_selected_values sample_picker)) \<and> length (op_options sample_picker) \<le> OPTIONS_LIMIT"
  using reachable_selection_marked [OF sample_reachable] by blast

text \<open>
  Toggling an option: in a picker of single values, or when the others are to be cleared, or for
  \<open>All\<close>, it is the only one selected or, when it was selected before, none is; otherwise it joins the
  selection, which loses \<open>All\<close>, or leaves it together with every option that shares its value or its
  text. An empty selection falls back to \<open>All\<close> when that is the first option.
\<close>

theorem toggle_option_selection:
  assumes "picker_reachable search s" "vo_value p = One v" "vo_text p = One t"
  shows "picked (toggle_option (Some p) force clear s) =
    (let chosen = (\<exists>q \<in> set (op_selected_values s). vo_value q = One v \<and> vo_text q = One t);
         rest = {w. \<exists>q \<in> set (op_selected_values s). vo_value q = One w \<and> w \<noteq> v \<and> vo_text q \<noteq> One t}
     in if v = ALL_VARIABLE_VALUE \<or> \<not> op_multi s \<or> clear
        then (if force \<or> \<not> chosen then {v} else default_pick (op_options s))
        else if force \<or> \<not> chosen
        then (if picked s = {} then {v} else insert v (picked s) - {ALL_VARIABLE_VALUE})
        else if rest = {} then default_pick (op_options s)
        else if card rest = 1 then rest else rest - {ALL_VARIABLE_VALUE})"
proof -
  have ok: "picker_ok s" by (rule reachable_ok [OF assms(1)])
  let ?qs = "op_selected_values s"
  let ?R = "filter (\<lambda>q. vo_value q \<noteq> One v \<and> vo_text q \<noteq> One t) ?qs"
  have chosen: "list_ex (same_option p) ?qs \<longleftrightarrow> (\<exists>q \<in> set ?qs. vo_value q = One v \<and> vo_text q = One t)"
    by (simp add: list_ex_iff same_option_def assms(2,3) strict_equal_iff)
  have all: "is_all p \<longleftrightarrow> v = ALL_VARIABLE_VALUE" by (simp add: is_all_iff assms(2))
  have rest: "{w. \<exists>q \<in> set ?qs. vo_value q = One w \<and> w \<noteq> v \<and> vo_text q \<noteq> One t} = {w. One w \<in> vo_value ` set ?R}"
    (is "?rest = _") unfolding value_mem by auto
  have "distinct (map vo_value ?R)" "\<forall>p \<in> set ?R. \<exists>v. vo_value p = One v"
    using ok by (auto simp: picker_ok_def distinct_map_filter)
  then have card: "card ?rest = length ?R" unfolding rest by (rule values_card)
  have empty: "?rest = {} \<longleftrightarrow> ?R = []"
    unfolding rest by (rule values_empty [OF \<open>\<forall>p \<in> set ?R. \<exists>v. vo_value p = One v\<close>])
  have new: "picked (after_toggle (s\<lparr>op_selected_values := ?qs @ [p\<lparr>vo_selected := True\<rparr>]\<rparr>)) =
      (if picked s = {} then {v} else insert v (picked s) - {ALL_VARIABLE_VALUE})"
    unfolding picked_after_toggle picked_ok_empty [OF ok] by (auto simp: picked_def assms(2))
  have one: "picked (after_toggle (s\<lparr>op_selected_values := [p\<lparr>vo_selected := True\<rparr>]\<rparr>)) = {v}"
    unfolding picked_after_toggle by (auto simp: picked_def assms(2))
  have none: "picked (after_toggle (s\<lparr>op_selected_values := []\<rparr>)) = default_pick (op_options s)"
    unfolding picked_after_toggle by simp
  have left: "picked (s\<lparr>op_selected_values := ?R\<rparr>) = ?rest" unfolding rest picked_def by simp
  have drop: "picked (after_toggle (s\<lparr>op_selected_values := ?R\<rparr>)) =
      (if ?rest = {} then default_pick (op_options s)
       else if card ?rest = 1 then ?rest else ?rest - {ALL_VARIABLE_VALUE})"
    unfolding picked_after_toggle left empty card by simp
  have "toggle_option (Some p) force clear s =
      (if v = ALL_VARIABLE_VALUE \<or> \<not> op_multi s \<or> clear
       then if force \<or> \<not> list_ex (same_option p) ?qs
         then after_toggle (s\<lparr>op_selected_values := [p\<lparr>vo_selected := True\<rparr>]\<rparr>)
         else after_toggle (s\<lparr>op_selected_values := []\<rparr>)
       else if force \<or> \<not> list_ex (same_option p) ?qs
       then after_toggle (s\<lparr>op_selected_values := ?qs @ [p\<lparr>vo_selected := True\<rparr>]\<rparr>)
       else after_toggle (s\<lparr>op_selected_values := ?R\<rparr>))"
    unfolding toggle_option_def option.case Let_def all assms(2,3) strict_equal_iff
    by (simp only: disj_comms if_distrib [of "\<lambda>x. after_toggle (s\<lparr>op_selected_values := x\<rparr>)"])
  then show ?thesis
    unfolding Let_def by (simp only: if_distrib [of picked] one none new drop chosen)
qed

lemma toggle_option_selection_witness:
  "picked (toggle_option (Some (sample_option False ''b'' ''2'')) False False sample_picker) = {''1'', ''2''}"
proof -
  have q: "op_selected_values sample_picker = [sample_option True ''a'' ''1'']" "op_multi sample_picker"
    by (simp_all add: sample_picker_def sample_variable_def show_options_def picker_eval)
  then have p: "picked sample_picker = {''1''}" by (simp add: picked_def sample_option_def)
  have n: "\<not> (\<exists>q \<in> set (op_selected_values sample_picker). vo_value q = One ''2'' \<and> vo_text q = One ''b'')"
    by (simp add: q sample_option_def)
  have "vo_value (sample_option False ''b'' ''2'') = One ''2''" "vo_text (sample_option False ''b'' ''2'') = One ''b''"
    by (simp_all add: sample_option_def)
  from toggle_option_selection [OF sample_reachable this, of False False, unfolded Let_def]
  have "picked (toggle_option (Some (sample_option False ''b'' ''2'')) False False sample_picker) =
      insert ''2'' {''1''} - {ALL_VARIABLE_VALUE}"
    using n p q(2) by (simp only: if_False if_True) (simp add: ALL_VARIABLE_VALUE_def)
  then show ?thesis by (auto simp: ALL_VARIABLE_VALUE_def)
qed

text \<open>
  Two options that share a text cannot be deselected one by one: dropping the first also drops the second.
\<close>

lemma deselecting_drops_same_text:
  "toggle_option (Some (sample_option True ''a'' ''1'')) False False
     (initial_option_picker_state\<lparr>op_multi := True, op_selected_values := [sample_option True ''a'' ''1'', sample_option True ''a'' ''2'']\<rparr>) =
   initial_option_picker_state\<lparr>op_multi := True\<rparr>"
  by code_simp

text \<open>An option named like a member of every object is shown as selected though nothing is.\<close>

lemma inherited_name_shown_selected:
  "op_options (update_options_from_search [sample_option False ''c'' ''constructor''] initial_option_picker_state) =
     [sample_option True ''c'' ''constructor'']"
  by (simp add: update_options_from_search_def picker_eval)

section \<open>The toggle of all options\<close>

lemma picked_select_all: "picked (s\<lparr>op_selected_values := select_all_options ps\<rparr>) = other_values ps"
  by (auto simp: picked_def select_all_options_def other_values_def is_all_iff image_iff)

lemma picked_ok_single:
  assumes "picker_ok s"
  shows "picked s = {v} \<longleftrightarrow> length (op_selected_values s) = 1 \<and> v \<in> picked s"
proof -
  have "card (picked s) = length (op_selected_values s)"
    unfolding picked_def using assms by (intro values_card) (auto simp: picker_ok_def)
  moreover have "picked s = {v} \<longleftrightarrow> card (picked s) = 1 \<and> v \<in> picked s"
    by (metis card_1_singletonE is_singletonI is_singleton_altdef singletonD singletonI)
  ultimately show ?thesis by simp
qed

lemma picked_all: "list_ex is_all (op_selected_values s) \<longleftrightarrow> ALL_VARIABLE_VALUE \<in> picked s"
  by (simp add: list_ex_iff is_all_iff picked_def value_mem)

lemma configured_iff: "find is_all ps \<noteq> None \<longleftrightarrow> One ALL_VARIABLE_VALUE \<in> vo_value ` set ps"
  by (auto simp: find_None_iff is_all_iff value_mem)

lemma picked_toggle_all:
  assumes "picker_ok s"
  shows "picked (toggle_all_options s) =
    (if picked s = {} \<or> picked s = {ALL_VARIABLE_VALUE} then other_values (op_options s)
     else if One ALL_VARIABLE_VALUE \<in> vo_value ` set (op_options s)
     then (if ALL_VARIABLE_VALUE \<in> picked s then other_values (op_options s) else {ALL_VARIABLE_VALUE})
     else {})"
proof -
  have one: "picked (s\<lparr>op_selected_values := [\<lparr>vo_selected = True, vo_text = vo_text (the (find is_all (op_options s))),
      vo_value = vo_value (the (find is_all (op_options s)))\<rparr>]\<rparr>) = {ALL_VARIABLE_VALUE}"
    if "One ALL_VARIABLE_VALUE \<in> vo_value ` set (op_options s)"
  proof -
    from that obtain p where "find is_all (op_options s) = Some p"
      unfolding configured_iff [symmetric] by blast
    with find_member [OF this] show ?thesis by (simp add: picked_def is_all_iff)
  qed
  let ?c = "One ALL_VARIABLE_VALUE \<in> vo_value ` set (op_options s)" and ?a = "ALL_VARIABLE_VALUE \<in> picked s"
  have none: "picked (s\<lparr>op_selected_values := []\<rparr>) = {}" by simp
  have absent: "find is_all (op_options s) = None \<longleftrightarrow> \<not> ?c" unfolding configured_iff [symmetric] by blast
  have "picked (toggle_all_options s) =
      (if picked s \<noteq> {} \<and> ?c \<and> \<not> ?a
       then picked (s\<lparr>op_selected_values := [\<lparr>vo_selected = True, vo_text = vo_text (the (find is_all (op_options s))),
         vo_value = vo_value (the (find is_all (op_options s)))\<rparr>]\<rparr>)
       else if ?a \<and> length (op_selected_values s) = 1 then other_values (op_options s)
       else if picked s \<noteq> {} \<and> \<not> ?c then {} else other_values (op_options s))"
    unfolding toggle_all_options_def Let_def if_distrib [of picked] picked_update_options picked_select_all none picked_all
      absent picked_ok_empty [OF assms] not_not by (rule refl)
  moreover have "?a \<and> length (op_selected_values s) = 1 \<longleftrightarrow> picked s = {ALL_VARIABLE_VALUE}"
    using picked_ok_single [OF assms, of ALL_VARIABLE_VALUE] by blast
  ultimately show ?thesis
    using one by (cases ?c; cases ?a; cases "picked s = {}") simp_all
qed

lemma update_options_values:
  assumes "length (op_options s) \<le> OPTIONS_LIMIT"
  shows "vo_value ` set (op_options (update_options s)) = vo_value ` set (op_options s)"
  using assms by (simp add: update_options_def Let_def apply_limit_def image_image)

lemma toggle_all_values:
  assumes "picker_ok s"
  shows "vo_value ` set (op_options (toggle_all_options s)) = vo_value ` set (op_options s)"
proof -
  have "vo_value ` set (op_options (update_options (s\<lparr>op_selected_values := qs\<rparr>))) = vo_value ` set (op_options s)" for qs
    using assms update_options_values [of "s\<lparr>op_selected_values := qs\<rparr>"] by (simp add: picker_ok_def)
  then show ?thesis by (simp add: toggle_all_options_def Let_def)
qed

text \<open>
  The toggle of all options selects every value but \<open>All\<close> when nothing or only \<open>All\<close> is selected;
  otherwise it selects \<open>All\<close> alone, or, without \<open>All\<close> on offer, nothing. With \<open>All\<close> and another option on
  offer, repeated toggles alternate between \<open>All\<close> alone and every other value.
\<close>

theorem toggle_all_alternates:
  assumes "picker_reachable search s"
  shows "picked (toggle_all_options s) =
      (if picked s = {} \<or> picked s = {ALL_VARIABLE_VALUE} then other_values (op_options s)
       else if One ALL_VARIABLE_VALUE \<in> vo_value ` set (op_options s)
       then (if ALL_VARIABLE_VALUE \<in> picked s then other_values (op_options s) else {ALL_VARIABLE_VALUE})
       else {}) \<and>
    (One ALL_VARIABLE_VALUE \<in> vo_value ` set (op_options s) \<longrightarrow> other_values (op_options s) \<noteq> {} \<longrightarrow>
       {picked (toggle_all_options s), picked (toggle_all_options (toggle_all_options s))} =
         {{ALL_VARIABLE_VALUE}, other_values (op_options s)})"
proof -
  have ok: "picker_ok s" by (rule reachable_ok [OF assms])
  note once = picked_toggle_all [OF ok]
  note twice = picked_toggle_all [OF toggle_all_ok [OF ok], unfolded toggle_all_values [OF ok]]
  have others: "other_values (op_options (toggle_all_options s)) = other_values (op_options s)"
    by (simp only: other_values_def toggle_all_values [OF ok])
  have "ALL_VARIABLE_VALUE \<notin> other_values (op_options s)" by (simp add: other_values_def)
  then show ?thesis
    using twice unfolding others once by auto
qed

lemma toggle_all_alternates_witness:
  "{picked (toggle_all_options sample_picker), picked (toggle_all_options (toggle_all_options sample_picker))} =
     {{''$__all''}, {''1'', ''2''}}"
proof -
  have "map vo_value (op_options sample_picker) = [One ALL_VARIABLE_VALUE, One ''1'', One ''2'']"
    by (simp add: sample_picker_def sample_variable_def show_options_def picker_eval)
  then have v: "vo_value ` set (op_options sample_picker) = {One ALL_VARIABLE_VALUE, One ''1'', One ''2''}"
    by (metis list.set_map list.set(1,2))
  then have "other_values (op_options sample_picker) = {''1'', ''2''}"
    unfolding other_values_def by (auto simp: ALL_VARIABLE_VALUE_def)
  with v toggle_all_alternates [OF sample_reachable, THEN conjunct2] show ?thesis by (simp add: ALL_VARIABLE_VALUE_def)
qed

section \<open>The search box\<close>

text \<open>What \<open>ufuzzy.search\<close> documents: the indices point into the haystack, the order into the indices.\<close>

definition search_in_range :: "fuzzy_search \<Rightarrow> bool" where
  "search_in_range search \<longleftrightarrow>
     (\<forall>hay needle idxs ranked. search hay needle = Some (idxs, ranked) \<longrightarrow>
        (\<forall>i \<in> set idxs. i < length hay) \<and>
        (\<forall>idx order. ranked = Some (idx, order) \<longrightarrow>
           (\<forall>i \<in> set idx. i < length hay) \<and> (\<forall>j \<in> set order. j < length idx)))"

lemma pick_all_in_range: "\<forall>i \<in> set is. i < length xs \<Longrightarrow> pick_all xs is = Inr (map ((!) xs) is)"
  by (induction "is") auto

lemma search_options_total:
  assumes "search_in_range search"
  shows "\<exists>opts. search_options search needle ps = Inr opts"
proof (cases "search (map (\<lambda>p. text_string (vo_text p)) ps) needle")
  case None
  then show ?thesis by (simp add: search_options_def)
next
  case (Some r)
  obtain idxs ranked where r: "r = (idxs, ranked)" by (cases r)
  with assms Some have i: "\<forall>i \<in> set idxs. i < length ps"
    and o: "\<And>idx order. ranked = Some (idx, order) \<Longrightarrow> (\<forall>i \<in> set idx. i < length ps) \<and> (\<forall>j \<in> set order. j < length idx)"
    unfolding search_in_range_def by (metis length_map)+
  show ?thesis
  proof (cases ranked)
    case None
    then show ?thesis using i r Some by (simp add: search_options_def pick_all_in_range)
  next
    case (Some w)
    obtain idx order where w: "w = (idx, order)" by (cases w)
    with o Some have "\<forall>i \<in> set idx. i < length ps" "\<forall>j \<in> set order. j < length idx" by auto
    then have "bind_res (pick_all idx order) (pick_all ps) = Inr (map ((!) ps) (map ((!) idx) order))"
      by (simp add: pick_all_in_range)
    then show ?thesis
      using Some w r \<open>search _ needle = Some r\<close> by (simp add: search_options_def)
  qed
qed

lemma find_index_first:
  "find_index P xs = Some i \<Longrightarrow> i < length xs \<and> filter P xs = xs ! i # filter P (drop (Suc i) xs)"
proof (induction xs arbitrary: i)
  case (Cons x xs)
  then show ?case by (cases "P x") (auto split: option.splits)
qed simp

lemma update_default_options [simp]:
  "op_options (update_default_selection s) = op_options s"
  "op_highlight_index (update_default_selection s) = op_highlight_index s"
  by (simp_all add: update_default_selection_def)

lemma update_options_short:
  assumes "length (op_options s) \<le> OPTIONS_LIMIT"
  shows "map vo_value (op_options (update_options s)) = map vo_value (op_options s)"
    "op_highlight_index (update_options s) = op_highlight_index s"
  using assms by (simp_all add: update_options_def Let_def apply_limit_def)

definition filtered_state :: "string \<Rightarrow> variable_option list \<Rightarrow> options_picker_state \<Rightarrow> options_picker_state" where
  "filtered_state needle opts s =
     (case find_index (\<lambda>p. \<not> is_all p) opts of
        None \<Rightarrow> s\<lparr>op_highlight_index := 0, op_options := typed_option needle # opts\<rparr>
      | Some i \<Rightarrow>
          if \<not> strict_equal (vo_value (opts ! i)) (One needle)
          then s\<lparr>op_highlight_index := int i + 1, op_options := typed_option needle # opts\<rparr>
          else s\<lparr>op_highlight_index := 0, op_options := opts\<rparr>)"

lemma filtered_state_highlight:
  fixes needle opts s
  defines "s' \<equiv> filtered_state needle opts s"
  shows "One needle \<in> set (map vo_value (op_options s')) \<and> length (op_options s') \<le> Suc (length opts) \<and>
    0 \<le> op_highlight_index s' \<and> nat (op_highlight_index s') < length (op_options s') \<and>
    map vo_value (op_options s') ! nat (op_highlight_index s') =
      (case filter (\<lambda>p. \<not> is_all p) opts of
         [] \<Rightarrow> One needle | p # _ \<Rightarrow> if vo_value p = One needle then vo_value (hd opts) else vo_value p)"
proof (cases "find_index (\<lambda>p. \<not> is_all p) opts")
  case None
  then have "filter (\<lambda>p. \<not> is_all p) opts = []" by (simp add: find_index_None_iff filter_empty_conv)
  with None show ?thesis by (simp add: s'_def filtered_state_def typed_option_def)
next
  case (Some i)
  note f = find_index_first [OF Some]
  have n: "nat (int i + 1) = Suc i" by simp
  from f have "opts \<noteq> []" by auto
  with f Some show ?thesis
    by (cases "vo_value (opts ! i) = One needle")
       (auto simp: s'_def filtered_state_def strict_equal_iff typed_option_def n hd_conv_nth
         intro!: image_eqI [OF _ nth_mem])
qed

text \<open>
  Filtering by a typed text never fails when the fuzzy search answers with indices in range: the
  typed text is always on offer as a value, and the highlighted option is the typed text when nothing but
  \<open>All\<close> matches and the best match otherwise, except that an exact match leaves the highlight on the
  first option, which is \<open>All\<close> when that matches, too.
\<close>

theorem typed_text_offered:
  assumes "search_in_range search" "trim (op_query_value s) \<noteq> []"
  shows "\<exists>opts. search_options search (trim (op_query_value s)) ps = Inr opts \<and>
    (length opts < OPTIONS_LIMIT \<longrightarrow>
      (\<exists>s'. update_options_and_filter search ps s = Inr s' \<and>
        One (trim (op_query_value s)) \<in> set (map vo_value (op_options s')) \<and>
        0 \<le> op_highlight_index s' \<and> nat (op_highlight_index s') < length (op_options s') \<and>
        map vo_value (op_options s') ! nat (op_highlight_index s') =
          (case filter (\<lambda>p. \<not> is_all p) opts of
             [] \<Rightarrow> One (trim (op_query_value s))
           | p # _ \<Rightarrow> if vo_value p = One (trim (op_query_value s)) then vo_value (hd opts) else vo_value p)))"
proof -
  let ?needle = "trim (op_query_value s)"
  obtain opts where opts: "search_options search ?needle ps = Inr opts"
    using search_options_total [OF assms(1)] by blast
  let ?s = "filtered_state ?needle opts s" and ?u = "update_options (update_default_selection (filtered_state ?needle opts s))"
  have "update_options_and_filter search ps s = Inr ?u"
    using assms(2) opts unfolding update_options_and_filter_def filtered_state_def Let_def by simp
  moreover have "map vo_value (op_options ?u) = map vo_value (op_options ?s) \<and> op_highlight_index ?u = op_highlight_index ?s"
    if "length opts < OPTIONS_LIMIT"
    using that filtered_state_highlight [of ?needle opts s] update_options_short [of "update_default_selection ?s"] by simp
  moreover have "length (op_options t) = length (map vo_value (op_options t))" for t by simp
  ultimately show ?thesis
    using opts filtered_state_highlight [of ?needle opts s] by (metis (no_types, lifting))
qed

definition list_everything :: fuzzy_search where
  "list_everything hay needle = Some ([0..<length hay], Some (rev [0..<length hay], rev [0..<length hay]))"

lemma typed_text_offered_witness:
  "\<exists>s'. update_options_and_filter list_everything (vm_options sample_variable) (sample_picker\<lparr>op_query_value := '' 2''\<rparr>) = Inr s' \<and>
     One ''2'' \<in> set (map vo_value (op_options s')) \<and>
     map vo_value (op_options s') ! nat (op_highlight_index s') = One ''1''"
proof -
  have t: "trim (op_query_value (sample_picker\<lparr>op_query_value := '' 2''\<rparr>)) = ''2''"
    by (simp add: trim_def is_space_def)
  have r: "search_in_range list_everything" by (auto simp: search_in_range_def list_everything_def)
  have "search_options list_everything ''2'' (vm_options sample_variable) = Inr (vm_options sample_variable)"
    by code_simp
  moreover have "length (vm_options sample_variable) < OPTIONS_LIMIT" "filter (\<lambda>p. \<not> is_all p) (vm_options sample_variable) =
      [sample_option True ''a'' ''1'', sample_option False ''b'' ''2'']"
    by (simp_all add: sample_variable_def picker_eval)
  moreover have "trim (op_query_value (sample_picker\<lparr>op_query_value := '' 2''\<rparr>)) \<noteq> []" unfolding t by simp
  from typed_text_offered [OF r this, of "vm_options sample_variable", unfolded t]
  obtain opts where opts: "search_options list_everything ''2'' (vm_options sample_variable) = Inr opts"
    and s': "length opts < OPTIONS_LIMIT \<Longrightarrow> \<exists>s'.
      update_options_and_filter list_everything (vm_options sample_variable) (sample_picker\<lparr>op_query_value := '' 2''\<rparr>) = Inr s' \<and>
      One ''2'' \<in> set (map vo_value (op_options s')) \<and>
      map vo_value (op_options s') ! nat (op_highlight_index s') =
        (case filter (\<lambda>p. \<not> is_all p) opts of
           [] \<Rightarrow> One ''2'' | p # _ \<Rightarrow> if vo_value p = One ''2'' then vo_value (hd opts) else vo_value p)"
    by blast
  ultimately have "opts = vm_options sample_variable" by simp
  moreover have "vo_value (sample_option True ''a'' ''1'') = One ''1''" by (simp add: sample_option_def)
  ultimately show ?thesis
    using s' \<open>length (vm_options sample_variable) < OPTIONS_LIMIT\<close>
      \<open>filter (\<lambda>p. \<not> is_all p) (vm_options sample_variable) = _\<close> by simp
qed

end
