(* ===== verification/Browse_Tree.thy ===== *)
theory Browse_Tree
  imports Js_String Js_Object
begin

text \<open>
  The tree of the browse-dashboards page, \<open>public/app/features/browse-dashboards/state\<close>: the state of the
  slice (\<open>types.ts\<close>, \<open>slice.ts\<close>), the actions that load, open, clear and select (\<open>reducers.ts\<close>), the
  thunks that fetch pages (\<open>actions.ts\<close>), the look-up of an item (\<open>utils.ts\<close>), the rows that are shown and
  the selection that actions work on (\<open>hooks.ts\<close>).

  The identifier of the shared folder and the switch of the starred folders are configuration (\<open>cfg\<close>); the
  lists the backend returns are parameters. Three functions follow references between folders and would not
  return on a cyclic tree; they take fuel and are \<open>None\<close> when it runs out. Of an item only the kind, the
  identifiers and the title are kept.
\<close>

section \<open>State\<close>

datatype item_kind = Folder | Dashboard | Panel

record view_item =
  vi_kind :: item_kind
  vi_uid :: string
  vi_title :: string
  vi_parent :: "string option"

record item_collection =
  co_items :: "view_item list"
  co_last_kind :: item_kind
  co_last_page :: nat
  co_more :: bool
  co_full :: bool

record tree_selection =
  ts_folder :: "bool jobj"
  ts_dashboard :: "bool jobj"
  ts_panel :: "bool jobj"
  ts_all :: bool

record browse_state =
  bs_root :: "item_collection option"
  bs_children :: "item_collection option jobj"
  bs_selected :: tree_selection
  bs_open :: "bool jobj"

record browse_config =
  cf_shared_uid :: "string option"
  cf_starred :: bool

definition initial_browse_state :: browse_state where
  "initial_browse_state =
     \<lparr>bs_root = None, bs_children = [],
      bs_selected = \<lparr>ts_folder = [], ts_dashboard = [], ts_panel = [], ts_all = False\<rparr>, bs_open = []\<rparr>"

text \<open>An absent or empty identifier is falsy; \<open>collection_of\<close> is \<open>childrenByParentUID[uid]\<close>.\<close>

definition truthy :: "string option \<Rightarrow> string option" where
  "truthy u = (case u of Some [] \<Rightarrow> None | _ \<Rightarrow> u)"

definition collection_of :: "item_collection option jobj \<Rightarrow> string \<Rightarrow> item_collection option" where
  "collection_of kids uid = (case jo_get kids uid of Some c \<Rightarrow> c | None \<Rightarrow> None)"

definition items_of :: "item_collection option \<Rightarrow> view_item list" where
  "items_of c = (case c of Some c \<Rightarrow> co_items c | None \<Rightarrow> [])"

definition selection_of :: "item_kind \<Rightarrow> tree_selection \<Rightarrow> bool jobj" where
  "selection_of k sel = (case k of Folder \<Rightarrow> ts_folder sel | Dashboard \<Rightarrow> ts_dashboard sel | Panel \<Rightarrow> ts_panel sel)"

definition is_selected :: "tree_selection \<Rightarrow> item_kind \<Rightarrow> string \<Rightarrow> bool" where
  "is_selected sel k uid \<longleftrightarrow> jo_get (selection_of k sel) uid = Some True"

definition set_selected :: "item_kind \<Rightarrow> string \<Rightarrow> bool \<Rightarrow> tree_selection \<Rightarrow> tree_selection" where
  "set_selected k uid b sel =
     (case k of
        Folder \<Rightarrow> sel\<lparr>ts_folder := jo_set uid b (ts_folder sel)\<rparr>
      | Dashboard \<Rightarrow> sel\<lparr>ts_dashboard := jo_set uid b (ts_dashboard sel)\<rparr>
      | Panel \<Rightarrow> sel\<lparr>ts_panel := jo_set uid b (ts_panel sel)\<rparr>)"

section \<open>Virtual folders\<close>

definition GENERAL_FOLDER_UID :: string where "GENERAL_FOLDER_UID = ''general''"
definition TEAM_FOLDERS_UID :: string where "TEAM_FOLDERS_UID = ''teamfolders''"
definition STARRED_FOLDERS_UID :: string where "STARRED_FOLDERS_UID = ''starred_folders''"

definition is_root_folder_uid :: "string option \<Rightarrow> bool" where
  "is_root_folder_uid uid \<longleftrightarrow> truthy uid = None \<or> uid = Some GENERAL_FOLDER_UID"

definition is_shared_with_me :: "browse_config \<Rightarrow> string \<Rightarrow> bool" where
  "is_shared_with_me cfg uid \<longleftrightarrow> cf_shared_uid cfg = Some uid"

definition is_virtual_team_folder :: "string \<Rightarrow> bool" where
  "is_virtual_team_folder uid \<longleftrightarrow> uid = TEAM_FOLDERS_UID"

definition is_virtual_starred_folder :: "string \<Rightarrow> bool" where
  "is_virtual_starred_folder uid \<longleftrightarrow> uid = STARRED_FOLDERS_UID"

definition TEAM_FOLDER_PREFIX :: string where "TEAM_FOLDER_PREFIX = TEAM_FOLDERS_UID @ ''/''"
definition STARRED_FOLDER_PREFIX :: string where "STARRED_FOLDER_PREFIX = STARRED_FOLDERS_UID @ ''/''"

definition is_under_team_folders :: "string \<Rightarrow> bool" where
  "is_under_team_folders uid = starts_with TEAM_FOLDER_PREFIX uid"

definition add_team_folder_prefix :: "string \<Rightarrow> string" where
  "add_team_folder_prefix uid = TEAM_FOLDER_PREFIX @ uid"

definition add_starred_folder_prefix :: "string \<Rightarrow> string" where
  "add_starred_folder_prefix uid = STARRED_FOLDER_PREFIX @ uid"

definition virtual_folder_prefix_of :: "string \<Rightarrow> string option" where
  "virtual_folder_prefix_of uid = find (\<lambda>p. starts_with p uid) [TEAM_FOLDER_PREFIX, STARRED_FOLDER_PREFIX]"

definition strip_virtual_folder_prefix :: "string \<Rightarrow> string" where
  "strip_virtual_folder_prefix uid =
     (case virtual_folder_prefix_of uid of Some p \<Rightarrow> drop (length p) uid | None \<Rightarrow> uid)"

definition reapply_virtual_folder_prefix :: "string \<Rightarrow> string \<Rightarrow> string" where
  "reapply_virtual_folder_prefix parent child =
     (case virtual_folder_prefix_of parent of Some p \<Rightarrow> p @ strip_virtual_folder_prefix child | None \<Rightarrow> child)"

definition is_non_selectable :: "browse_config \<Rightarrow> string \<Rightarrow> bool" where
  "is_non_selectable cfg uid \<longleftrightarrow>
     is_shared_with_me cfg uid \<or> is_virtual_team_folder uid \<or> is_virtual_starred_folder uid \<or>
     starts_with STARRED_FOLDER_PREFIX uid"

section \<open>Looking up an item\<close>

text \<open>The root items first, then the loaded folders in enumeration order.\<close>

definition find_item :: "view_item list \<Rightarrow> item_collection option jobj \<Rightarrow> string \<Rightarrow> view_item option" where
  "find_item root kids uid =
     find (\<lambda>it. vi_uid it = uid) (root @ concat (map (\<lambda>c. items_of c) (jo_values kids)))"

section \<open>Reducers\<close>

record page_payload =
  pp_children :: "view_item list"
  pp_kind :: item_kind
  pp_page :: nat
  pp_last :: bool

definition refetch_children_fulfilled :: "string option \<Rightarrow> page_payload \<Rightarrow> browse_state \<Rightarrow> browse_state" where
  "refetch_children_fulfilled parent p s =
     (let c = \<lparr>co_items = pp_children p, co_last_kind = pp_kind p, co_last_page = pp_page p,
               co_more = \<not> pp_last p, co_full = (pp_kind p = Dashboard \<and> pp_last p)\<rparr>
      in if truthy parent \<noteq> None \<and> \<not> is_root_folder_uid parent
         then s\<lparr>bs_children := jo_set (the parent) (Some c) (bs_children s)\<rparr>
         else s\<lparr>bs_root := Some c\<rparr>)"

definition select_items :: "view_item list \<Rightarrow> bool \<Rightarrow> tree_selection \<Rightarrow> tree_selection" where
  "select_items items b sel = fold (\<lambda>it. set_selected (vi_kind it) (vi_uid it) b) items sel"

definition fetch_next_children_page_fulfilled ::
  "string option \<Rightarrow> string list \<Rightarrow> page_payload option \<Rightarrow> browse_state \<Rightarrow> browse_state" where
  "fetch_next_children_page_fulfilled parent excluded payload s =
     (case payload of
        None \<Rightarrow> s
      | Some p \<Rightarrow>
          (let old = (case truthy parent of Some u \<Rightarrow> collection_of (bs_children s) u | None \<Rightarrow> bs_root s);
               c = \<lparr>co_items = items_of old @ pp_children p, co_last_kind = pp_kind p, co_last_page = pp_page p,
                    co_more = \<not> pp_last p,
                    co_full = (if ''dashboard'' \<notin> set excluded then pp_kind p = Dashboard \<and> pp_last p else pp_last p)\<rparr>
           in case truthy parent of
                None \<Rightarrow> s\<lparr>bs_root := Some c\<rparr>
              | Some u \<Rightarrow>
                  (let s = s\<lparr>bs_children := jo_set u (Some c) (bs_children s)\<rparr> in
                   if is_selected (bs_selected s) Folder u
                   then s\<lparr>bs_selected := select_items (pp_children p) True (bs_selected s)\<rparr> else s)))"

definition set_folder_open_state :: "string \<Rightarrow> bool \<Rightarrow> browse_state \<Rightarrow> browse_state" where
  "set_folder_open_state uid is_open s = s\<lparr>bs_open := jo_set uid is_open (bs_open s)\<rparr>"

fun fold_opt :: "('a \<Rightarrow> 'b \<Rightarrow> 'b option) \<Rightarrow> 'a list \<Rightarrow> 'b \<Rightarrow> 'b option" where
  "fold_opt f [] b = Some b"
| "fold_opt f (x # xs) b = (case f x b of None \<Rightarrow> None | Some b \<Rightarrow> fold_opt f xs b)"

primrec mark_children ::
  "nat \<Rightarrow> item_collection option jobj \<Rightarrow> bool \<Rightarrow> item_kind \<Rightarrow> string \<Rightarrow> tree_selection \<Rightarrow> tree_selection option" where
  "mark_children 0 kids b k uid sel = None"
| "mark_children (Suc n) kids b k uid sel =
     (let sel = set_selected k uid b sel in
      if k \<noteq> Folder then Some sel
      else fold_opt (\<lambda>it. mark_children n kids b (vi_kind it) (vi_uid it)) (items_of (collection_of kids uid)) sel)"

primrec unselect_ancestors ::
  "nat \<Rightarrow> view_item list \<Rightarrow> item_collection option jobj \<Rightarrow> string option \<Rightarrow> tree_selection \<Rightarrow> tree_selection option" where
  "unselect_ancestors 0 root kids parent sel = None"
| "unselect_ancestors (Suc n) root kids parent sel =
     (case truthy parent of
        None \<Rightarrow> Some sel
      | Some u \<Rightarrow>
          (case find_item root kids u of
             None \<Rightarrow> Some sel
           | Some p \<Rightarrow> unselect_ancestors n root kids (vi_parent p) (set_selected (vi_kind p) (vi_uid p) False sel)))"

definition set_item_selection_state ::
  "browse_config \<Rightarrow> nat \<Rightarrow> item_kind \<Rightarrow> string \<Rightarrow> string option \<Rightarrow> bool \<Rightarrow> browse_state \<Rightarrow> browse_state option" where
  "set_item_selection_state cfg n k uid parent b s =
     (if is_non_selectable cfg uid then Some s
      else case mark_children n (bs_children s) b k uid (bs_selected s) of
             None \<Rightarrow> None
           | Some sel \<Rightarrow>
               (case (if b then Some sel else unselect_ancestors n (items_of (bs_root s)) (bs_children s) parent sel) of
                  None \<Rightarrow> None
                | Some sel \<Rightarrow>
                    Some (s\<lparr>bs_selected := sel\<lparr>ts_all :=
                      (case bs_root s of
                         None \<Rightarrow> False
                       | Some c \<Rightarrow> list_all (\<lambda>it. is_selected sel (vi_kind it) (vi_uid it)) (co_items c))\<rparr>\<rparr>)))"

primrec select_children_of_folder ::
  "browse_config \<Rightarrow> nat \<Rightarrow> item_collection option \<Rightarrow> item_collection option jobj \<Rightarrow> string list \<Rightarrow> string option \<Rightarrow>
   tree_selection \<Rightarrow> tree_selection option" where
  "select_children_of_folder cfg 0 root kids excluded uid sel = None"
| "select_children_of_folder cfg (Suc n) root kids excluded uid sel =
     (if case truthy uid of Some u \<Rightarrow> is_non_selectable cfg u | None \<Rightarrow> False then Some sel
      else fold_opt (\<lambda>it sel.
             if is_non_selectable cfg (vi_uid it) \<or> vi_uid it \<in> set excluded then Some sel
             else (let sel = set_selected (vi_kind it) (vi_uid it) True sel in
                   if vi_kind it \<noteq> Folder then Some sel
                   else select_children_of_folder cfg n root kids excluded (Some (vi_uid it)) sel))
             (items_of (case truthy uid of Some u \<Rightarrow> collection_of kids u | None \<Rightarrow> root)) sel)"

definition clear_selection :: "bool jobj \<Rightarrow> bool jobj" where
  "clear_selection d = map (\<lambda>(uid, _). (uid, False)) d"

definition set_all_selection ::
  "browse_config \<Rightarrow> nat \<Rightarrow> bool \<Rightarrow> string option \<Rightarrow> string list option \<Rightarrow> browse_state \<Rightarrow> browse_state option" where
  "set_all_selection cfg n b folder excluded s =
     (if case truthy folder of Some u \<Rightarrow> is_non_selectable cfg u | None \<Rightarrow> False then Some s
      else let sel = (bs_selected s)\<lparr>ts_all := b\<rparr> in
        if b
        then map_option (\<lambda>sel. s\<lparr>bs_selected := sel\<rparr>)
               (select_children_of_folder cfg n (bs_root s) (bs_children s) (nullish excluded []) folder sel)
        else Some (s\<lparr>bs_selected := sel\<lparr>ts_folder := clear_selection (ts_folder sel),
                    ts_dashboard := clear_selection (ts_dashboard sel), ts_panel := clear_selection (ts_panel sel)\<rparr>\<rparr>))"

definition clear_folder :: "string option \<Rightarrow> browse_state \<Rightarrow> browse_state" where
  "clear_folder uid s =
     (case truthy uid of
        None \<Rightarrow> s\<lparr>bs_root := None\<rparr>
      | Some u \<Rightarrow> s\<lparr>bs_children := jo_set u None (bs_children s), bs_open := jo_set u False (bs_open s)\<rparr>)"

definition clear_folders :: "string option list \<Rightarrow> browse_state \<Rightarrow> browse_state" where
  "clear_folders uids s = fold clear_folder uids s"

section \<open>Fetching pages\<close>

record page_api =
  api_folders :: "string option \<Rightarrow> nat \<Rightarrow> nat \<Rightarrow> view_item list res"
  api_dashboards :: "string option \<Rightarrow> nat \<Rightarrow> nat \<Rightarrow> view_item list res"
  api_team :: "view_item list res"
  api_starred :: "view_item list res"

definition list_safe :: "view_item list res \<Rightarrow> view_item list" where
  "list_safe r = (case r of Inl _ \<Rightarrow> [] | Inr items \<Rightarrow> items)"

definition reprefix :: "string option \<Rightarrow> string option \<Rightarrow> view_item list \<Rightarrow> view_item list" where
  "reprefix parent stripped children =
     (case truthy parent of
        Some u \<Rightarrow> if parent \<noteq> stripped
                  then map (\<lambda>c. c\<lparr>vi_uid := reapply_virtual_folder_prefix u (vi_uid c)\<rparr>) children else children
      | None \<Rightarrow> children)"

definition stripped_parent :: "string option \<Rightarrow> string option" where
  "stripped_parent parent =
     (case truthy parent of Some u \<Rightarrow> Some (strip_virtual_folder_prefix u) | None \<Rightarrow> parent)"

definition request_uid :: "string option \<Rightarrow> string option" where
  "request_uid stripped = (if is_root_folder_uid stripped then None else stripped)"

definition virtual_page :: "view_item list res \<Rightarrow> page_payload" where
  "virtual_page r = \<lparr>pp_children = list_safe r, pp_kind = Dashboard, pp_page = 1, pp_last = True\<rparr>"

text \<open>
  The shared end of the two thunks: a short page of folders is followed by the first page of dashboards
  when dashboards are wanted, and the children get the prefix of their virtual parent.
\<close>

definition fetch_page ::
  "page_api \<Rightarrow> string option \<Rightarrow> bool \<Rightarrow> nat \<Rightarrow> item_kind \<Rightarrow> nat \<Rightarrow> page_payload res" where
  "fetch_page api parent dashboards page_size kind page =
     (let stripped = stripped_parent parent; uid = request_uid stripped in
      bind_res (if kind = Folder then api_folders api uid page page_size else api_dashboards api uid page page_size) (\<lambda>children.
        let last = length children < page_size in
        if kind = Folder \<and> last \<and> dashboards
        then bind_res (api_dashboards api uid 1 page_size) (\<lambda>ds.
               Inr \<lparr>pp_children = reprefix parent stripped (children @ ds), pp_kind = Dashboard, pp_page = 1,
                    pp_last = length ds < page_size\<rparr>)
        else Inr \<lparr>pp_children = reprefix parent stripped children, pp_kind = kind, pp_page = page, pp_last = last\<rparr>))"

definition refetch_children :: "page_api \<Rightarrow> string option \<Rightarrow> nat \<Rightarrow> page_payload res" where
  "refetch_children api parent page_size =
     (if parent = Some TEAM_FOLDERS_UID then Inr (virtual_page (api_team api))
      else if parent = Some STARRED_FOLDERS_UID then Inr (virtual_page (api_starred api))
      else fetch_page api parent True page_size Folder 1)"

text \<open>Which page comes next: its kind and number, or none.\<close>

definition next_page :: "item_collection option \<Rightarrow> bool \<Rightarrow> (item_kind \<times> nat) option" where
  "next_page c dashboards =
     (case c of
        None \<Rightarrow> Some (Folder, 1)
      | Some c \<Rightarrow>
          if co_last_kind c = Dashboard \<and> \<not> co_more c then None
          else if co_last_kind c = Folder \<and> co_more c then Some (Folder, co_last_page c + 1)
          else if dashboards then Some (Dashboard, if co_last_kind c = Folder then 1 else co_last_page c + 1)
          else None)"

definition fetch_next_children_page ::
  "page_api \<Rightarrow> string option \<Rightarrow> string list \<Rightarrow> nat \<Rightarrow> browse_state \<Rightarrow> page_payload option res" where
  "fetch_next_children_page api parent excluded page_size s =
     (if parent = Some TEAM_FOLDERS_UID \<or> parent = Some STARRED_FOLDERS_UID
      then (case collection_of (bs_children s) (the parent) of
              Some c \<Rightarrow> if co_full c then Inr None
                else Inr (Some (virtual_page (if parent = Some TEAM_FOLDERS_UID then api_team api else api_starred api)))
            | None \<Rightarrow> Inr (Some (virtual_page (if parent = Some TEAM_FOLDERS_UID then api_team api else api_starred api))))
      else
        (let dashboards = ''dashboard'' \<notin> set excluded;
             c = (if is_root_folder_uid parent then bs_root s else collection_of (bs_children s) (the parent))
         in case next_page c dashboards of
              None \<Rightarrow> Inr None
            | Some (kind, page) \<Rightarrow> map_sum id Some (fetch_page api parent dashboards page_size kind page)))"

text \<open>A load: the thunk and, once it is fulfilled, its reducer.\<close>

definition load_next_children_page ::
  "page_api \<Rightarrow> string option \<Rightarrow> string list \<Rightarrow> nat \<Rightarrow> browse_state \<Rightarrow> browse_state" where
  "load_next_children_page api parent excluded page_size s =
     (case fetch_next_children_page api parent excluded page_size s of
        Inl _ \<Rightarrow> s | Inr p \<Rightarrow> fetch_next_children_page_fulfilled parent excluded p s)"

text \<open>The parents to refetch, each once, in the order they are found.\<close>

definition refresh_parents :: "string list \<Rightarrow> browse_state \<Rightarrow> string option list" where
  "refresh_parents uids s =
     uniq_by id [] (map (\<lambda>uid. case find_item (items_of (bs_root s)) (bs_children s) uid of
                                 Some it \<Rightarrow> vi_parent it | None \<Rightarrow> None) uids)"

section \<open>Rows\<close>

datatype tree_entry =
    Item_Row view_item
  | Empty_Folder_Row string
  | Placeholder_Row string
  | Divider_Row string

record tree_row =
  tr_entry :: tree_entry
  tr_level :: nat
  tr_open :: bool
  tr_parent :: "string option"

definition PAGE_SIZE :: nat where "PAGE_SIZE = 50"

definition get_pagination_placeholders :: "nat \<Rightarrow> string option \<Rightarrow> nat \<Rightarrow> tree_row list" where
  "get_pagination_placeholders amount parent level =
     map (\<lambda>i. \<lparr>tr_entry = Placeholder_Row (nullish parent ''undefined'' @ ''-pagination-'' @ string_of_nat i),
               tr_level = level, tr_open = False, tr_parent = parent\<rparr>) [0..<amount]"

definition kind_name :: "item_kind \<Rightarrow> string" where
  "kind_name k = (case k of Folder \<Rightarrow> ''folder'' | Dashboard \<Rightarrow> ''dashboard'' | Panel \<Rightarrow> ''panel'')"

definition flat_map_opt :: "('a \<Rightarrow> 'b list option) \<Rightarrow> 'a list \<Rightarrow> 'b list option" where
  "flat_map_opt f xs = fold_opt (\<lambda>x acc. map_option (\<lambda>ys. acc @ ys) (f x)) xs []"

definition map_item ::
  "browse_config \<Rightarrow> string list \<Rightarrow> string list \<Rightarrow> item_collection option jobj \<Rightarrow> bool jobj \<Rightarrow>
   (string \<Rightarrow> tree_row list option) \<Rightarrow> string option \<Rightarrow> nat \<Rightarrow> view_item \<Rightarrow> tree_row list option" where
  "map_item cfg ex_kinds ex_uids kids opened flat parent level it =
     (if kind_name (vi_kind it) \<in> set ex_kinds \<or> vi_uid it \<in> set ex_uids then Some []
      else map_option (\<lambda>mapped.
        let is_open = (jo_get opened (vi_uid it) = Some True);
            empty_folder = (case collection_of kids (vi_uid it) of Some c \<Rightarrow> co_items c = [] | None \<Rightarrow> False)
        in [\<lparr>tr_entry = Item_Row it, tr_level = level, tr_open = is_open, tr_parent = parent\<rparr>] @ mapped @
           (if is_open \<and> empty_folder \<and> ''empty-folder'' \<notin> set ex_kinds
            then [\<lparr>tr_entry = Empty_Folder_Row (vi_uid it @ ''empty-folder''), tr_level = level + 1, tr_open = False,
                   tr_parent = parent\<rparr>] else []) @
           (if is_virtual_starred_folder (vi_uid it) \<or> (is_virtual_team_folder (vi_uid it) \<and> \<not> cf_starred cfg)
            then [\<lparr>tr_entry = Divider_Row (vi_uid it @ ''-divider''), tr_level = level + 1, tr_open = False,
                   tr_parent = parent\<rparr>] else []))
        (flat (vi_uid it)))"

primrec create_flat_tree ::
  "nat \<Rightarrow> browse_config \<Rightarrow> string list \<Rightarrow> string list \<Rightarrow> item_collection option \<Rightarrow> item_collection option jobj \<Rightarrow>
   bool jobj \<Rightarrow> string option \<Rightarrow> nat \<Rightarrow> tree_row list option" where
  "create_flat_tree 0 cfg ex_kinds ex_uids root kids opened folder level = None"
| "create_flat_tree (Suc n) cfg ex_kinds ex_uids root kids opened folder level =
     (let is_open = ((case truthy folder of Some u \<Rightarrow> jo_get opened u = Some True | None \<Rightarrow> False) \<or> level = 0);
          c = (case truthy folder of Some u \<Rightarrow> collection_of kids u | None \<Rightarrow> root);
          items = (if truthy folder \<noteq> None \<and> \<not> is_open then [] else items_of c);
          considered_loaded = (''dashboard'' \<in> set ex_kinds \<and> (case c of Some c \<Rightarrow> co_last_kind c = Dashboard | None \<Rightarrow> False));
          placeholders = ((level = 0 \<and> c = None) \<or>
            (is_open \<and> (case c of Some c \<Rightarrow> \<not> (co_full c \<or> considered_loaded) | None \<Rightarrow> False)))
      in map_option (\<lambda>rows. rows @ (if placeholders then get_pagination_placeholders PAGE_SIZE folder level else []))
           (flat_map_opt (map_item cfg ex_kinds ex_uids kids opened
              (\<lambda>uid. create_flat_tree n cfg ex_kinds ex_uids root kids opened (Some uid) (level + 1)) folder level) items))"

section \<open>Selectors\<close>

definition has_selection :: "tree_selection \<Rightarrow> bool" where
  "has_selection sel \<longleftrightarrow> list_ex id (jo_values (ts_dashboard sel) @ jo_values (ts_folder sel) @ jo_values (ts_panel sel))"

definition deselect_child :: "view_item \<Rightarrow> bool jobj \<times> bool jobj \<Rightarrow> bool jobj \<times> bool jobj" where
  "deselect_child it = (\<lambda>(ds, fs).
     case vi_kind it of Dashboard \<Rightarrow> (jo_set (vi_uid it) False ds, fs)
       | Folder \<Rightarrow> (ds, jo_set (vi_uid it) False fs) | Panel \<Rightarrow> (ds, fs))"

definition selected_items_for_actions :: "tree_selection \<Rightarrow> item_collection option jobj \<Rightarrow> bool jobj \<times> bool jobj" where
  "selected_items_for_actions sel kids =
     fold (\<lambda>uid r. if jo_get (ts_folder sel) uid = Some True
                  then fold deselect_child (items_of (collection_of kids uid)) r else r)
       (jo_keys (ts_folder sel)) (ts_dashboard sel, ts_folder sel)"

text \<open>What a bulk deletion works on: the selected folders, then the selected dashboards.\<close>

definition collect_selected_items :: "bool jobj \<Rightarrow> bool jobj \<Rightarrow> (string \<times> string \<times> string) list" where
  "collect_selected_items dashboards folders =
     map (\<lambda>(uid, _). (uid, ''folder.grafana.app'', ''Folder'')) (filter snd folders) @
     map (\<lambda>(uid, _). (uid, ''dashboard.grafana.app'', ''Dashboard'')) (filter snd dashboards)"

section \<open>Names\<close>

definition make_row_id :: "string \<Rightarrow> view_item \<Rightarrow> string" where
  "make_row_id base it = base @ vi_uid it"

definition get_folder_url :: "string option \<Rightarrow> nat \<Rightarrow> string \<Rightarrow> string" where
  "get_folder_url sub_url org_id uid =
     (let url = nullish sub_url [] @ ''/dashboards/f/'' @ uid @ ''/'' in
      if org_id \<noteq> 0 then url @ ''?orgId='' @ string_of_nat org_id else url)"

definition team_owner_ref :: "string \<Rightarrow> string" where
  "team_owner_ref uid = ''iam.grafana.app/Team/'' @ uid"

definition parse_owner_ref :: "string \<Rightarrow> (string \<times> string) option" where
  "parse_owner_ref r =
     (case split_on (CHR ''/'') r of
        [group_name, kind, uid] \<Rightarrow> if group_name = ''iam.grafana.app'' then Some (kind, uid) else None
      | _ \<Rightarrow> None)"

lemma parse_team_owner_ref: "CHR ''/'' \<notin> set uid \<Longrightarrow> parse_owner_ref (team_owner_ref uid) = Some (''Team'', uid)"
proof -
  assume "CHR ''/'' \<notin> set uid"
  then have parts: "split_on (CHR ''/'') (join_with ''/'' [''iam.grafana.app'', ''Team'', uid]) = [''iam.grafana.app'', ''Team'', uid]"
    by (intro split_on_join) auto
  have "team_owner_ref uid = join_with ''/'' [''iam.grafana.app'', ''Team'', uid]" by (simp add: team_owner_ref_def)
  then show ?thesis unfolding parse_owner_ref_def by (simp only: parts list.case if_True refl)
qed

lemma team_prefix_found: "virtual_folder_prefix_of (TEAM_FOLDER_PREFIX @ u) = Some TEAM_FOLDER_PREFIX"
  by (simp add: virtual_folder_prefix_of_def)

lemma strip_reapply_prefix:
  assumes "virtual_folder_prefix_of u = None"
  shows "strip_virtual_folder_prefix (add_team_folder_prefix u) = u"
    "reapply_virtual_folder_prefix (add_team_folder_prefix parent) u = add_team_folder_prefix u"
  unfolding strip_virtual_folder_prefix_def reapply_virtual_folder_prefix_def add_team_folder_prefix_def team_prefix_found assms
  by simp_all

end
