(* ===== verification/Browse_Selection.thy ===== *)
theory Browse_Selection
  imports Browse_Tree
begin

text \<open>
  Selecting in the tree of dashboards: what \<open>setItemSelectionState\<close>, \<open>setAllSelection\<close> and a loaded page do
  to the selection, and that a selected folder never shows an unselected child. The tree is described by the
  folders that are loaded (\<open>loaded\<close>); a height of every folder that falls from parent to child makes the
  recursions return, with fuel above the greatest height.
\<close>

section \<open>Look-up of the selection\<close>

lemma is_selected_set [simp]:
  "is_selected (set_selected k u b sel) k' u' = (if k' = k \<and> u' = u then b else is_selected sel k' u')"
  by (cases k; cases k') (auto simp: is_selected_def set_selected_def selection_of_def jo_get_set)

lemma ts_all_set [simp]: "ts_all (set_selected k u b sel) = ts_all sel"
  by (cases k) (simp_all add: set_selected_def)

lemma is_selected_all [simp]: "is_selected (sel\<lparr>ts_all := b\<rparr>) k u = is_selected sel k u"
  by (cases k) (simp_all add: is_selected_def selection_of_def)

lemma is_selected_select_items:
  "is_selected (select_items items True sel) k u \<longleftrightarrow>
     (\<exists>it \<in> set items. vi_kind it = k \<and> vi_uid it = u) \<or> is_selected sel k u"
  by (induction items arbitrary: sel) (auto simp: select_items_def)

lemma map_of_clear: "map_of (clear_selection d) u = map_option (\<lambda>_. False) (map_of d u)"
  by (induction d) (auto simp: clear_selection_def)

lemma is_selected_cleared:
  "\<not> is_selected (sel\<lparr>ts_folder := clear_selection (ts_folder sel), ts_dashboard := clear_selection (ts_dashboard sel),
      ts_panel := clear_selection (ts_panel sel)\<rparr>) k u"
  by (cases k) (auto simp: is_selected_def selection_of_def jo_get_def map_of_clear)

text \<open>A fold of steps that each set what lies in their own range sets what lies in any of them.\<close>

definition marks :: "(item_kind \<Rightarrow> string \<Rightarrow> bool) \<Rightarrow> bool \<Rightarrow> tree_selection \<Rightarrow> tree_selection option \<Rightarrow> bool" where
  "marks S b sel r \<longleftrightarrow>
     (\<exists>sel'. r = Some sel' \<and> ts_all sel' = ts_all sel \<and>
        (\<forall>k u. is_selected sel' k u = (if S k u then b else is_selected sel k u)))"

lemma marks_self: "marks (\<lambda>_ _. False) b sel (Some sel)"
  by (simp add: marks_def)

lemma marks_cong: "marks S b sel r \<Longrightarrow> (\<And>k u. S k u = S' k u) \<Longrightarrow> marks S' b sel r"
  by (simp add: marks_def)

lemma fold_opt_marks:
  assumes "\<And>x sel. x \<in> set xs \<Longrightarrow> marks (S x) b sel (f x sel)"
  shows "marks (\<lambda>k u. \<exists>x \<in> set xs. S x k u) b sel (fold_opt f xs sel)"
  using assms
proof (induction xs arbitrary: sel)
  case Nil
  then show ?case by (simp add: marks_def)
next
  case (Cons x xs)
  from Cons.prems [of x sel] obtain sel1 where 1: "f x sel = Some sel1" "ts_all sel1 = ts_all sel"
    "\<And>k u. is_selected sel1 k u = (if S x k u then b else is_selected sel k u)"
    by (auto simp: marks_def)
  from Cons.IH [of sel1] Cons.prems obtain sel2 where 2: "fold_opt f xs sel1 = Some sel2" "ts_all sel2 = ts_all sel1"
    "\<And>k u. is_selected sel2 k u = (if \<exists>x \<in> set xs. S x k u then b else is_selected sel1 k u)"
    by (auto simp: marks_def)
  from 1 2 show ?case by (auto simp: marks_def)
qed

lemma marks_after_set:
  assumes "marks S b (set_selected k0 u0 b sel) r"
  shows "marks (\<lambda>k u. k = k0 \<and> u = u0 \<or> S k u) b sel r"
  using assms by (auto simp: marks_def)

section \<open>Subtrees\<close>

inductive in_subtree :: "item_collection option jobj \<Rightarrow> item_kind \<Rightarrow> string \<Rightarrow> item_kind \<Rightarrow> string \<Rightarrow> bool"
  for kids k0 u0 where
  subtree_self: "in_subtree kids k0 u0 k0 u0"
| subtree_child: "in_subtree kids k0 u0 Folder p \<Longrightarrow> it \<in> set (items_of (collection_of kids p)) \<Longrightarrow>
    in_subtree kids k0 u0 (vi_kind it) (vi_uid it)"

lemma subtree_trans: "in_subtree kids k1 u1 k2 u2 \<Longrightarrow> in_subtree kids k0 u0 k1 u1 \<Longrightarrow> in_subtree kids k0 u0 k2 u2"
  by (induction rule: in_subtree.induct) (auto intro: in_subtree.intros)

lemma subtree_step:
  "in_subtree kids k0 u0 k u \<longleftrightarrow>
     k = k0 \<and> u = u0 \<or>
     (k0 = Folder \<and> (\<exists>it \<in> set (items_of (collection_of kids u0)). in_subtree kids (vi_kind it) (vi_uid it) k u))"
proof
  assume "in_subtree kids k0 u0 k u"
  then show "k = k0 \<and> u = u0 \<or>
     (k0 = Folder \<and> (\<exists>it \<in> set (items_of (collection_of kids u0)). in_subtree kids (vi_kind it) (vi_uid it) k u))"
    by (induction rule: in_subtree.induct) (auto intro: in_subtree.intros)
next
  assume "k = k0 \<and> u = u0 \<or>
     (k0 = Folder \<and> (\<exists>it \<in> set (items_of (collection_of kids u0)). in_subtree kids (vi_kind it) (vi_uid it) k u))"
  then show "in_subtree kids k0 u0 k u"
    by (auto intro: subtree_self subtree_trans subtree_child [OF subtree_self])
qed

lemma subtree_leaf: "k0 \<noteq> Folder \<Longrightarrow> in_subtree kids k0 u0 k u \<longleftrightarrow> k = k0 \<and> u = u0"
  by (subst subtree_step) simp

definition heights :: "item_collection option jobj \<Rightarrow> (string \<Rightarrow> nat) \<Rightarrow> bool" where
  "heights kids h \<longleftrightarrow>
     (\<forall>p. \<forall>it \<in> set (items_of (collection_of kids p)). vi_kind it = Folder \<longrightarrow> h (vi_uid it) < h p)"

lemma mark_children_marks:
  assumes "heights kids h"
  shows "0 < n \<Longrightarrow> k0 = Folder \<longrightarrow> h u0 + 1 < n \<Longrightarrow>
    marks (in_subtree kids k0 u0) b sel (mark_children n kids b k0 u0 sel)"
proof (induction n arbitrary: k0 u0 sel)
  case (Suc n)
  show ?case
  proof (cases "k0 = Folder")
    case False
    then show ?thesis by (simp add: marks_def subtree_leaf Let_def)
  next
    case True
    with Suc.prems have n: "h u0 < n" by simp
    have "marks (in_subtree kids (vi_kind it) (vi_uid it)) b sel (mark_children n kids b (vi_kind it) (vi_uid it) sel)"
      if "it \<in> set (items_of (collection_of kids u0))" for it sel
      using assms that n by (intro Suc.IH) (auto simp: heights_def dest!: bspec)
    from fold_opt_marks [of "items_of (collection_of kids u0)" "\<lambda>it. in_subtree kids (vi_kind it) (vi_uid it)", OF this]
    have "marks (\<lambda>k u. \<exists>it \<in> set (items_of (collection_of kids u0)). in_subtree kids (vi_kind it) (vi_uid it) k u) b
        (set_selected k0 u0 b sel) (mark_children (Suc n) kids b k0 u0 sel)"
      using True by (simp add: Let_def)
    from marks_after_set [OF this] show ?thesis
      by (rule marks_cong) (subst (2) subtree_step, simp add: True)
  qed
qed simp

section \<open>The loaded tree\<close>

text \<open>\<open>loaded s it p\<close>: the item is among the loaded children of \<open>p\<close>, or of the root (\<open>None\<close>).\<close>

definition loaded :: "browse_state \<Rightarrow> view_item \<Rightarrow> string option \<Rightarrow> bool" where
  "loaded s it p \<longleftrightarrow>
     it \<in> set (items_of (case p of None \<Rightarrow> bs_root s | Some u \<Rightarrow> collection_of (bs_children s) u))"

text \<open>
  A tree as the backend describes it: every item names its parent, identifiers are unique, only folders
  have children, heights fall towards the leaves, and a selected folder with loaded children is loaded.
\<close>

definition tree_ok :: "browse_state \<Rightarrow> (string \<Rightarrow> nat) \<Rightarrow> nat \<Rightarrow> bool" where
  "tree_ok s h H \<longleftrightarrow>
     jo_wf (bs_children s) \<and> heights (bs_children s) h \<and> (\<forall>u. h u \<le> H) \<and>
     (\<forall>it p. loaded s it p \<longrightarrow> truthy (vi_parent it) = p \<and> vi_uid it \<noteq> []) \<and>
     (\<forall>it it' p p'. loaded s it p \<longrightarrow> loaded s it' p' \<longrightarrow> vi_uid it = vi_uid it' \<longrightarrow> it = it') \<and>
     (\<forall>it p. loaded s it p \<longrightarrow> items_of (collection_of (bs_children s) (vi_uid it)) \<noteq> [] \<longrightarrow> vi_kind it = Folder) \<and>
     (\<forall>u. is_selected (bs_selected s) Folder u \<longrightarrow> items_of (collection_of (bs_children s) u) \<noteq> [] \<longrightarrow>
        (\<exists>it p. loaded s it p \<and> vi_uid it = u))"

lemma tree_okD:
  assumes "tree_ok s h H"
  shows "jo_wf (bs_children s)" "heights (bs_children s) h" "h u \<le> H"
    "loaded s it p \<Longrightarrow> truthy (vi_parent it) = p"
    "loaded s it p \<Longrightarrow> vi_uid it \<noteq> []"
    "loaded s it p \<Longrightarrow> loaded s it' p' \<Longrightarrow> vi_uid it = vi_uid it' \<Longrightarrow> it = it'"
    "loaded s it p \<Longrightarrow> items_of (collection_of (bs_children s) (vi_uid it)) \<noteq> [] \<Longrightarrow> vi_kind it = Folder"
    "is_selected (bs_selected s) Folder u \<Longrightarrow> items_of (collection_of (bs_children s) u) \<noteq> [] \<Longrightarrow>
       \<exists>it p. loaded s it p \<and> vi_uid it = u"
  using assms unfolding tree_ok_def by blast+

lemma find_some_member: "find P xs = Some x \<Longrightarrow> x \<in> set xs \<and> P x"
  by (induction xs) (auto split: if_splits)

lemma value_collection:
  assumes "jo_wf kids"
  shows "c \<in> set (jo_values kids) \<longleftrightarrow> (\<exists>u. jo_get kids u = Some c)"
  using assms by (force simp: jo_values_def jo_get_def jo_wf_def)

lemma find_item_loaded:
  assumes "jo_wf (bs_children s)"
  shows "find_item (items_of (bs_root s)) (bs_children s) u = Some it \<Longrightarrow> vi_uid it = u \<and> (\<exists>p. loaded s it p)"
    "find_item (items_of (bs_root s)) (bs_children s) u = None \<Longrightarrow> loaded s it p \<Longrightarrow> vi_uid it \<noteq> u"
proof -
  have mem: "it \<in> set (items_of (bs_root s) @ concat (map items_of (jo_values (bs_children s)))) \<longleftrightarrow> (\<exists>p. loaded s it p)" for it
  proof -
    have "(\<exists>c \<in> set (jo_values (bs_children s)). it \<in> set (items_of c)) \<longleftrightarrow>
        (\<exists>u. it \<in> set (items_of (collection_of (bs_children s) u)))"
      using value_collection [OF assms] by (fastforce simp: collection_of_def items_of_def split: option.splits)
    then show ?thesis by (auto simp: loaded_def split: option.splits) (metis option.exhaust)?
  qed
  show "find_item (items_of (bs_root s)) (bs_children s) u = Some it \<Longrightarrow> vi_uid it = u \<and> (\<exists>p. loaded s it p)"
    unfolding find_item_def by (drule find_some_member) (use mem in auto)
  show "find_item (items_of (bs_root s)) (bs_children s) u = None \<Longrightarrow> loaded s it p \<Longrightarrow> vi_uid it \<noteq> u"
    using mem [of it] unfolding find_item_def find_None_iff by blast
qed

lemma find_item_iff:
  assumes "tree_ok s h H"
  shows "find_item (items_of (bs_root s)) (bs_children s) u = Some it \<longleftrightarrow> vi_uid it = u \<and> (\<exists>p. loaded s it p)"
proof
  show "vi_uid it = u \<and> (\<exists>p. loaded s it p) \<Longrightarrow> find_item (items_of (bs_root s)) (bs_children s) u = Some it"
    using find_item_loaded [OF tree_okD(1) [OF assms]] tree_okD(6) [OF assms]
    by (metis option.exhaust)
qed (rule find_item_loaded(1) [OF tree_okD(1) [OF assms]])

section \<open>Ancestors\<close>

text \<open>The folders the walk to the root passes.\<close>

inductive ancestor :: "browse_state \<Rightarrow> string option \<Rightarrow> view_item \<Rightarrow> bool" for s where
  ancestor_parent: "truthy parent = Some u \<Longrightarrow> vi_uid p = u \<Longrightarrow> loaded s p q \<Longrightarrow> ancestor s parent p"
| ancestor_up: "truthy parent = Some u \<Longrightarrow> vi_uid p = u \<Longrightarrow> loaded s p q \<Longrightarrow> ancestor s (vi_parent p) a \<Longrightarrow> ancestor s parent a"

lemma ancestor_step:
  assumes "tree_ok s h H"
  shows "ancestor s parent a \<longleftrightarrow>
    (case truthy parent of None \<Rightarrow> False
     | Some u \<Rightarrow> (case find_item (items_of (bs_root s)) (bs_children s) u of
         None \<Rightarrow> False | Some p \<Rightarrow> a = p \<or> ancestor s (vi_parent p) a))"
    (is "?l = ?r")
proof
  assume ?l
  then show ?r
  proof cases
    case (ancestor_parent u q)
    then have "find_item (items_of (bs_root s)) (bs_children s) u = Some a" using find_item_iff [OF assms] by blast
    with ancestor_parent show ?thesis by simp
  next
    case (ancestor_up u p q)
    then have "find_item (items_of (bs_root s)) (bs_children s) u = Some p" using find_item_iff [OF assms] by blast
    with ancestor_up show ?thesis by simp
  qed
next
  assume ?r
  then obtain u p where "truthy parent = Some u" "find_item (items_of (bs_root s)) (bs_children s) u = Some p"
    "a = p \<or> ancestor s (vi_parent p) a"
    by (auto split: option.splits)
  moreover from this(2) obtain q where "vi_uid p = u" "loaded s p q" using find_item_iff [OF assms] by blast
  ultimately show ?l by (auto intro: ancestor.intros)
qed

lemma loaded_child: "loaded s it (Some u) \<longleftrightarrow> it \<in> set (items_of (collection_of (bs_children s) u))"
  by (simp add: loaded_def)

lemma parent_is_folder:
  assumes "tree_ok s h H" "loaded s it (Some u)" "loaded s p q" "vi_uid p = u"
  shows "vi_kind p = Folder"
  by (rule tree_okD(7) [OF assms(1,3)]) (use assms(2,4) in \<open>auto simp: loaded_child\<close>)

text \<open>The walk from a loaded item ends, and clears the folders above it.\<close>

lemma unselect_ancestors_marks:
  assumes "tree_ok s h H"
  shows "loaded s it q \<Longrightarrow> (\<And>u. truthy (vi_parent it) = Some u \<Longrightarrow> H + 1 < n + h u) \<Longrightarrow> 0 < n \<Longrightarrow>
    marks (\<lambda>k u. \<exists>a. ancestor s (vi_parent it) a \<and> vi_kind a = k \<and> vi_uid a = u) False sel
      (unselect_ancestors n (items_of (bs_root s)) (bs_children s) (vi_parent it) sel)"
proof (induction n arbitrary: it q sel)
  case (Suc n)
  note step = ancestor_step [OF assms, of "vi_parent it"]
  show ?case
  proof (cases "truthy (vi_parent it)")
    case None
    then show ?thesis by (simp add: marks_def step)
  next
    case (Some u)
    show ?thesis
    proof (cases "find_item (items_of (bs_root s)) (bs_children s) u")
      case None
      with Some show ?thesis by (simp add: marks_def step)
    next
      case (Some p)
      then obtain r where p: "vi_uid p = u" "loaded s p r" using find_item_iff [OF assms] by blast
      have it: "loaded s it (Some u)"
        using tree_okD(4) [OF assms Suc.prems(1)] \<open>truthy (vi_parent it) = Some u\<close> Suc.prems(1) by simp
      have "vi_kind p = Folder" by (rule parent_is_folder [OF assms it p(2,1)])
      then have "h (vi_uid p) < h v" if "truthy (vi_parent p) = Some v" for v
        using tree_okD(2) [OF assms] tree_okD(4) [OF assms p(2)] that p(2) by (auto simp: heights_def loaded_child)
      moreover have "H < n + h u" using Suc.prems(2) \<open>truthy (vi_parent it) = Some u\<close> by fastforce
      moreover have "h u \<le> H" by (rule tree_okD(3) [OF assms])
      ultimately have "0 < n" "truthy (vi_parent p) = Some v \<Longrightarrow> H + 1 < n + h v" for v
        using p(1) by (simp, fastforce)
      then have "marks (\<lambda>k u. \<exists>a. ancestor s (vi_parent p) a \<and> vi_kind a = k \<and> vi_uid a = u) False
          (set_selected (vi_kind p) (vi_uid p) False sel)
          (unselect_ancestors n (items_of (bs_root s)) (bs_children s) (vi_parent p) (set_selected (vi_kind p) (vi_uid p) False sel))"
        by (intro Suc.IH [OF p(2)])
      from marks_after_set [OF this] Some \<open>truthy (vi_parent it) = Some u\<close> show ?thesis
        by (simp add: step) (rule marks_cong, assumption, auto)
    qed
  qed
qed simp

lemma subtree_loaded:
  "in_subtree (bs_children s) k0 u0 k u \<Longrightarrow>
     k = k0 \<and> u = u0 \<or> (\<exists>it p. loaded s it p \<and> vi_kind it = k \<and> vi_uid it = u)"
  by (induction rule: in_subtree.induct) (auto simp flip: loaded_child)

lemma subtree_height:
  "in_subtree kids k0 u0 k u \<Longrightarrow> heights kids h \<Longrightarrow> k = Folder \<Longrightarrow> h u \<le> h u0"
proof (induction rule: in_subtree.induct)
  case (subtree_child p it)
  then show ?case by (fastforce simp: heights_def)
qed simp

lemma child_not_above:
  assumes "tree_ok s h H" "loaded s it (Some u)" "in_subtree (bs_children s) Folder (vi_uid a) Folder u" "vi_kind a = Folder"
  shows "it \<noteq> a"
  using subtree_height [OF assms(3) tree_okD(2) [OF assms(1)]] tree_okD(2) [OF assms(1)] assms(2,4)
  by (fastforce simp: heights_def loaded_child)

lemma ancestor_in_subtree:
  assumes ok: "tree_ok s h H"
  shows "ancestor s parent a \<Longrightarrow> loaded s it q \<Longrightarrow> parent = vi_parent it \<Longrightarrow>
    (\<exists>p. loaded s a p) \<and> vi_kind a = Folder \<and> it \<noteq> a \<and>
    in_subtree (bs_children s) Folder (vi_uid a) (vi_kind it) (vi_uid it)"
proof (induction arbitrary: it q rule: ancestor.induct)
  case (ancestor_parent parent u p r)
  then have it: "loaded s it (Some u)" using tree_okD(4) [OF ok ancestor_parent(4)] by simp
  have p: "vi_kind p = Folder" by (rule parent_is_folder [OF ok it ancestor_parent(3,2)])
  have "in_subtree (bs_children s) Folder (vi_uid p) (vi_kind it) (vi_uid it)"
    using it ancestor_parent(2) by (auto simp: loaded_child intro: subtree_child [OF subtree_self])
  with p child_not_above [OF ok it, of p] ancestor_parent(2,3) show ?case by (auto intro: subtree_self)
next
  case (ancestor_up parent u p r a)
  then have it: "loaded s it (Some u)" using tree_okD(4) [OF ok ancestor_up(6)] by simp
  have p: "vi_kind p = Folder" by (rule parent_is_folder [OF ok it ancestor_up(3,2)])
  from ancestor_up.IH [OF ancestor_up(3) refl] have a: "\<exists>p. loaded s a p" "vi_kind a = Folder"
    "in_subtree (bs_children s) Folder (vi_uid a) Folder u"
    using p ancestor_up(2) by auto
  then have "in_subtree (bs_children s) Folder (vi_uid a) (vi_kind it) (vi_uid it)"
    using it by (auto simp: loaded_child intro: subtree_child)
  with a child_not_above [OF ok it a(3,2)] show ?case by blast
qed

lemma subtree_ancestor:
  assumes ok: "tree_ok s h H" and a: "loaded s a pa" "vi_kind a = Folder"
  shows "in_subtree (bs_children s) Folder (vi_uid a) k u \<Longrightarrow> loaded s it q \<Longrightarrow> vi_kind it = k \<Longrightarrow> vi_uid it = u \<Longrightarrow>
    it = a \<or> ancestor s (vi_parent it) a"
proof (induction arbitrary: it q rule: in_subtree.induct)
  case subtree_self
  then show ?case using tree_okD(6) [OF ok _ a(1)] by auto
next
  case (subtree_child p it')
  then have "loaded s it' (Some p)" by (simp add: loaded_child)
  then have "it = it'" using tree_okD(6) [OF ok subtree_child(4)] subtree_child(6) by simp
  then have par: "truthy (vi_parent it) = Some p" using tree_okD(4) [OF ok \<open>loaded s it' (Some p)\<close>] by simp
  obtain x y where x: "loaded s x y" "vi_kind x = Folder" "vi_uid x = p"
    using subtree_loaded [OF subtree_child(1)] a by auto
  from subtree_child(3) [OF x] show ?case
    using par x by (auto intro: ancestor.intros)
qed

lemma ancestor_iff:
  assumes "tree_ok s h H" "loaded s it q"
  shows "ancestor s (vi_parent it) a \<longleftrightarrow>
    (\<exists>p. loaded s a p) \<and> vi_kind a = Folder \<and> it \<noteq> a \<and>
    in_subtree (bs_children s) Folder (vi_uid a) (vi_kind it) (vi_uid it)"
  using ancestor_in_subtree [OF assms(1) _ assms(2) refl] subtree_ancestor [OF assms(1) _ _ _ assms(2) refl refl] by blast

text \<open>Above a loaded item: the loaded folders whose subtree holds it.\<close>

definition above_item :: "browse_state \<Rightarrow> view_item \<Rightarrow> item_kind \<Rightarrow> string \<Rightarrow> bool" where
  "above_item s it k u \<longleftrightarrow>
     k = Folder \<and> (\<exists>a p. loaded s a p \<and> vi_kind a = Folder \<and> vi_uid a = u \<and> a \<noteq> it) \<and>
     in_subtree (bs_children s) Folder u (vi_kind it) (vi_uid it)"

lemma above_item_iff:
  assumes "tree_ok s h H" "loaded s it q"
  shows "above_item s it k u \<longleftrightarrow> (\<exists>a. ancestor s (vi_parent it) a \<and> vi_kind a = k \<and> vi_uid a = u)"
  unfolding above_item_def ancestor_iff [OF assms] by auto

lemma set_item_selection_marks:
  assumes ok: "tree_ok s h H" and it: "loaded s it q" and n: "H + 2 \<le> n" and sel: "\<not> is_non_selectable cfg (vi_uid it)"
  shows "\<exists>sel'. set_item_selection_state cfg n (vi_kind it) (vi_uid it) (vi_parent it) b s = Some (s\<lparr>bs_selected := sel'\<rparr>) \<and>
    (ts_all sel' \<longleftrightarrow> bs_root s \<noteq> None \<and> (\<forall>r \<in> set (items_of (bs_root s)). is_selected sel' (vi_kind r) (vi_uid r))) \<and>
    (\<forall>k u. is_selected sel' k u =
      (if \<not> b \<and> above_item s it k u then False
       else if in_subtree (bs_children s) (vi_kind it) (vi_uid it) k u then b
       else is_selected (bs_selected s) k u))"
proof -
  let ?sub = "in_subtree (bs_children s) (vi_kind it) (vi_uid it)"
  have "h (vi_uid it) \<le> H" by (rule tree_okD(3) [OF ok])
  with n have "0 < n" "vi_kind it = Folder \<longrightarrow> h (vi_uid it) + 1 < n" by simp_all
  from mark_children_marks [OF tree_okD(2) [OF ok] this, of b "bs_selected s"]
  obtain sel1 where 1: "mark_children n (bs_children s) b (vi_kind it) (vi_uid it) (bs_selected s) = Some sel1"
    "\<And>k u. is_selected sel1 k u = (if ?sub k u then b else is_selected (bs_selected s) k u)"
    by (auto simp: marks_def)
  have "marks (above_item s it) False sel1 (unselect_ancestors n (items_of (bs_root s)) (bs_children s) (vi_parent it) sel1)"
    using unselect_ancestors_marks [OF ok it, of n sel1] n unfolding above_item_iff [OF ok it, abs_def] by simp
  then have "\<exists>sel2. (if b then Some sel1 else unselect_ancestors n (items_of (bs_root s)) (bs_children s) (vi_parent it) sel1) = Some sel2 \<and>
      (\<forall>k u. is_selected sel2 k u = (if \<not> b \<and> above_item s it k u then False else is_selected sel1 k u))"
    unfolding marks_def by (cases b) auto
  then obtain sel2 where 2: "(if b then Some sel1 else unselect_ancestors n (items_of (bs_root s)) (bs_children s) (vi_parent it) sel1) = Some sel2"
    "\<And>k u. is_selected sel2 k u = (if \<not> b \<and> above_item s it k u then False else is_selected sel1 k u)"
    by blast
  let ?sel = "sel2\<lparr>ts_all := (case bs_root s of None \<Rightarrow> False
    | Some c \<Rightarrow> list_all (\<lambda>it. is_selected sel2 (vi_kind it) (vi_uid it)) (co_items c))\<rparr>"
  have "set_item_selection_state cfg n (vi_kind it) (vi_uid it) (vi_parent it) b s = Some (s\<lparr>bs_selected := ?sel\<rparr>)"
    using sel 1(1) 2(1) by (simp add: set_item_selection_state_def)
  moreover have "ts_all ?sel \<longleftrightarrow> bs_root s \<noteq> None \<and> (\<forall>r \<in> set (items_of (bs_root s)). is_selected ?sel (vi_kind r) (vi_uid r))"
    by (auto simp: items_of_def list_all_iff split: option.splits)
  ultimately show ?thesis using 1(2) 2(2) by (intro exI [of _ ?sel]) simp
qed

section \<open>Selecting everything below a folder\<close>

text \<open>What \<open>selectChildrenOfFolder\<close> reaches: below selectable folders, what is selectable and not excluded.\<close>

definition view_items :: "browse_state \<Rightarrow> string option \<Rightarrow> view_item list" where
  "view_items s u = items_of (case truthy u of Some w \<Rightarrow> collection_of (bs_children s) w | None \<Rightarrow> bs_root s)"

definition blocked :: "browse_config \<Rightarrow> string option \<Rightarrow> bool" where
  "blocked cfg u \<longleftrightarrow> (case truthy u of Some w \<Rightarrow> is_non_selectable cfg w | None \<Rightarrow> False)"

inductive picks :: "browse_config \<Rightarrow> browse_state \<Rightarrow> string list \<Rightarrow> string option \<Rightarrow> item_kind \<Rightarrow> string \<Rightarrow> bool"
  for cfg s excluded where
  pick_child: "\<not> blocked cfg u \<Longrightarrow> it \<in> set (view_items s u) \<Longrightarrow> \<not> is_non_selectable cfg (vi_uid it) \<Longrightarrow>
    vi_uid it \<notin> set excluded \<Longrightarrow> picks cfg s excluded u (vi_kind it) (vi_uid it)"
| pick_below: "\<not> blocked cfg u \<Longrightarrow> it \<in> set (view_items s u) \<Longrightarrow> \<not> is_non_selectable cfg (vi_uid it) \<Longrightarrow>
    vi_uid it \<notin> set excluded \<Longrightarrow> vi_kind it = Folder \<Longrightarrow> picks cfg s excluded (Some (vi_uid it)) k v \<Longrightarrow>
    picks cfg s excluded u k v"

lemma picks_step:
  "picks cfg s excluded u k v \<longleftrightarrow>
     \<not> blocked cfg u \<and> (\<exists>it \<in> set (view_items s u). \<not> is_non_selectable cfg (vi_uid it) \<and> vi_uid it \<notin> set excluded \<and>
       (k = vi_kind it \<and> v = vi_uid it \<or> vi_kind it = Folder \<and> picks cfg s excluded (Some (vi_uid it)) k v))"
  by (subst picks.simps) blast

lemma picks_trans:
  "picks cfg s excluded u Folder w \<Longrightarrow> picks cfg s excluded (Some w) k v \<Longrightarrow> picks cfg s excluded u k v"
proof (induction u "Folder" w rule: picks.induct)
  case (pick_child u it)
  then show ?case by (metis pick_below)
next
  case (pick_below u it v)
  then show ?case by (metis picks.pick_below)
qed

lemma picks_selectable: "picks cfg s excluded u k v \<Longrightarrow> \<not> is_non_selectable cfg v"
  by (induction rule: picks.induct) auto

lemma marks_skip: "marks (\<lambda>k u. False) b sel (Some sel)"
  by (simp add: marks_def)

lemma select_children_marks:
  assumes ok: "tree_ok s h H"
  shows "(case truthy u of Some w \<Rightarrow> h w + 1 < n | None \<Rightarrow> H + 2 < n) \<Longrightarrow>
    marks (picks cfg s excluded u) True sel (select_children_of_folder cfg n (bs_root s) (bs_children s) excluded u sel)"
proof (induction n arbitrary: u sel)
  case (Suc n)
  show ?case
  proof (cases "blocked cfg u")
    case True
    then show ?thesis by (subst picks_step [abs_def]) (simp add: blocked_def marks_skip)
  next
    case False
    let ?S = "\<lambda>it k v. \<not> is_non_selectable cfg (vi_uid it) \<and> vi_uid it \<notin> set excluded \<and>
       (k = vi_kind it \<and> v = vi_uid it \<or> vi_kind it = Folder \<and> picks cfg s excluded (Some (vi_uid it)) k v)"
    let ?f = "\<lambda>it sel.
       if is_non_selectable cfg (vi_uid it) \<or> vi_uid it \<in> set excluded then Some sel
       else let sel = set_selected (vi_kind it) (vi_uid it) True sel in
         if vi_kind it \<noteq> Folder then Some sel
         else select_children_of_folder cfg n (bs_root s) (bs_children s) excluded (Some (vi_uid it)) sel"
    have "marks (?S it) True sel (?f it sel)" if "it \<in> set (view_items s u)" for it sel
    proof (cases "is_non_selectable cfg (vi_uid it) \<or> vi_uid it \<in> set excluded")
      case True
      then show ?thesis by (auto simp: marks_def)
    next
      case False
      have it: "loaded s it (truthy u)"
        using that by (auto simp: view_items_def loaded_def split: option.splits)
      have "marks (picks cfg s excluded (Some (vi_uid it))) True (set_selected (vi_kind it) (vi_uid it) True sel)
          (select_children_of_folder cfg n (bs_root s) (bs_children s) excluded (Some (vi_uid it))
            (set_selected (vi_kind it) (vi_uid it) True sel))" if "vi_kind it = Folder"
      proof (rule Suc.IH)
        have t: "truthy (Some (vi_uid it)) = Some (vi_uid it)"
          using tree_okD(5) [OF ok it] by (simp add: truthy_def split: list.split)
        have "h (vi_uid it) + 1 < n"
        proof (cases "truthy u")
          case None
          then show ?thesis using Suc.prems tree_okD(3) [OF ok, of "vi_uid it"] by simp
        next
          case (Some w)
          then have "h (vi_uid it) < h w"
            using tree_okD(2) [OF ok] it that by (simp add: heights_def loaded_def)
          with Some Suc.prems show ?thesis by simp
        qed
        with t show "case truthy (Some (vi_uid it)) of None \<Rightarrow> H + 2 < n | Some w \<Rightarrow> h w + 1 < n" by simp
      qed
      then have "marks (\<lambda>k v. k = vi_kind it \<and> v = vi_uid it \<or> vi_kind it = Folder \<and> picks cfg s excluded (Some (vi_uid it)) k v)
          True sel (?f it sel)"
        using False by (cases "vi_kind it = Folder") (simp_all add: Let_def marks_after_set, simp add: marks_def)
      with False show ?thesis by (rule_tac marks_cong) auto
    qed
    from fold_opt_marks [of "view_items s u" ?S, OF this] False show ?thesis
      by (subst picks_step [abs_def]) (simp add: blocked_def view_items_def)
  qed
qed (auto split: option.splits)

section \<open>The invariant of the selection\<close>

text \<open>Every loaded child of a selected folder is selected, unless it cannot be selected at all.\<close>

definition selection_closed :: "browse_config \<Rightarrow> browse_state \<Rightarrow> bool" where
  "selection_closed cfg s \<longleftrightarrow>
     (\<forall>u it. is_selected (bs_selected s) Folder u \<longrightarrow> loaded s it (Some u) \<longrightarrow>
        is_selected (bs_selected s) (vi_kind it) (vi_uid it) \<or> is_non_selectable cfg (vi_uid it))"

text \<open>
  The steps of the slice. An item is selected where it is shown; everything is selected with nothing
  excluded; a page brings folders that are not loaded yet; a folder is refetched while it is not selected.
\<close>

inductive browse_step :: "browse_config \<Rightarrow> browse_state \<Rightarrow> browse_state \<Rightarrow> bool" for cfg where
  select_step: "tree_ok s h H \<Longrightarrow> loaded s it q \<Longrightarrow> H + 2 \<le> n \<Longrightarrow>
    set_item_selection_state cfg n (vi_kind it) (vi_uid it) (vi_parent it) b s = Some s' \<Longrightarrow> browse_step cfg s s'"
| all_step: "tree_ok s h H \<Longrightarrow> H + 2 < n \<Longrightarrow> set_all_selection cfg n b folder None s = Some s' \<Longrightarrow> browse_step cfg s s'"
| page_step: "(\<And>p it x. payload = Some p \<Longrightarrow> it \<in> set (pp_children p) \<Longrightarrow> vi_kind it = Folder \<Longrightarrow>
      \<not> loaded s x (Some (vi_uid it)) \<and> truthy parent \<noteq> Some (vi_uid it)) \<Longrightarrow>
    browse_step cfg s (fetch_next_children_page_fulfilled parent excluded payload s)"
| refetch_step: "\<not> is_selected (bs_selected s) Folder (nullish parent []) \<Longrightarrow>
    browse_step cfg s (refetch_children_fulfilled parent p s)"
| open_step: "browse_step cfg s (set_folder_open_state u is_open s)"
| clear_step: "browse_step cfg s (clear_folders us s)"

lemma closedD:
  "selection_closed cfg s \<Longrightarrow> is_selected (bs_selected s) Folder u \<Longrightarrow> loaded s it (Some u) \<Longrightarrow>
   is_selected (bs_selected s) (vi_kind it) (vi_uid it) \<or> is_non_selectable cfg (vi_uid it)"
  by (simp add: selection_closed_def)

lemma loaded_selected_only [simp]: "loaded (s\<lparr>bs_selected := sel\<rparr>) it p = loaded s it p"
  by (cases p) (simp_all add: loaded_def)

lemma collection_of_set: "collection_of (jo_set u c kids) v = (if v = u then c else collection_of kids v)"
  by (simp add: collection_of_def jo_get_set)

lemma select_keeps_closed:
  assumes ok: "tree_ok s h H" and it: "loaded s it q" and n: "H + 2 \<le> n" and closed: "selection_closed cfg s"
    and s': "set_item_selection_state cfg n (vi_kind it) (vi_uid it) (vi_parent it) b s = Some s'"
  shows "selection_closed cfg s'"
proof (cases "is_non_selectable cfg (vi_uid it)")
  case True
  then show ?thesis using s' closed by (simp add: set_item_selection_state_def)
next
  case False
  let ?sub = "in_subtree (bs_children s) (vi_kind it) (vi_uid it)"
  from set_item_selection_marks [OF ok it n False, of b] s' obtain sel where sel: "s' = s\<lparr>bs_selected := sel\<rparr>"
    "\<And>k u. is_selected sel k u = (if \<not> b \<and> above_item s it k u then False else if ?sub k u then b
       else is_selected (bs_selected s) k u)"
    by auto
  have down: "?sub (vi_kind ch) (vi_uid ch)" if "?sub Folder u" "loaded s ch (Some u)" for u ch
    using that by (auto simp: loaded_child intro: subtree_child)
  have up: "above_item s it Folder u"
    if u: "is_selected (bs_selected s) Folder u" "loaded s ch (Some u)"
      and below: "above_item s it (vi_kind ch) (vi_uid ch) \<or> ?sub (vi_kind ch) (vi_uid ch)" "\<not> ?sub Folder u" for u ch
  proof -
    have "items_of (collection_of (bs_children s) u) \<noteq> []" using u(2) by (auto simp: loaded_child)
    from tree_okD(8) [OF ok u(1) this] obtain f g where f: "loaded s f g" "vi_uid f = u" by blast
    have kf: "vi_kind f = Folder" by (rule parent_is_folder [OF ok u(2) f])
    have ch: "in_subtree (bs_children s) Folder u (vi_kind ch) (vi_uid ch)"
      using u(2) by (auto simp: loaded_child intro: subtree_child [OF subtree_self])
    have "in_subtree (bs_children s) Folder u (vi_kind it) (vi_uid it)"
    proof (cases "above_item s it (vi_kind ch) (vi_uid ch)")
      case True
      then have "in_subtree (bs_children s) (vi_kind ch) (vi_uid ch) (vi_kind it) (vi_uid it)"
        by (auto simp: above_item_def)
      with ch show ?thesis by (rule subtree_trans [rotated])
    next
      case False
      with below(1) have "?sub (vi_kind ch) (vi_uid ch)" by blast
      then show ?thesis
      proof cases
        case subtree_self
        with ch show ?thesis by simp
      next
        case (subtree_child p x)
        then have "loaded s x (Some p)" by (simp add: loaded_child)
        then have "x = ch" using tree_okD(6) [OF ok _ u(2)] subtree_child by simp
        then have "p = u" using tree_okD(4) [OF ok u(2)] tree_okD(4) [OF ok \<open>loaded s x (Some p)\<close>] by simp
        with subtree_child below(2) show ?thesis by simp
      qed
    qed
    moreover have "f \<noteq> it" using below(2) f(2) kf by (auto intro: subtree_self)
    ultimately show ?thesis using f kf by (auto simp: above_item_def)
  qed
  show ?thesis
    unfolding selection_closed_def
  proof (intro allI impI)
    fix u ch
    assume u: "is_selected (bs_selected s') Folder u" and ch: "loaded s' ch (Some u)"
    then have u': "\<not> (\<not> b \<and> above_item s it Folder u)" "if ?sub Folder u then b else is_selected (bs_selected s) Folder u"
      and ch': "loaded s ch (Some u)" by (auto simp: sel split: if_splits)
    show "is_selected (bs_selected s') (vi_kind ch) (vi_uid ch) \<or> is_non_selectable cfg (vi_uid ch)"
    proof (cases "?sub Folder u")
      case True
      then show ?thesis using down [OF True ch'] u' by (simp add: sel)
    next
      case out: False
      with u' have was: "is_selected (bs_selected s) Folder u" by simp
      show ?thesis
      proof (cases b)
        case True
        then show ?thesis using closedD [OF closed was ch'] by (simp add: sel)
      next
        case False
        with u'(1) up [OF was ch' _ out] have "\<not> above_item s it (vi_kind ch) (vi_uid ch) \<and> \<not> ?sub (vi_kind ch) (vi_uid ch)"
          by blast
        then show ?thesis using closedD [OF closed was ch'] by (simp add: sel)
      qed
    qed
  qed
qed

lemma all_keeps_closed:
  assumes ok: "tree_ok s h H" and n: "H + 2 < n" and closed: "selection_closed cfg s"
    and s': "set_all_selection cfg n b folder None s = Some s'"
  shows "selection_closed cfg s'"
proof (cases "blocked cfg folder \<or> \<not> b")
  case True
  have "\<not> is_selected (bs_selected s') k u" if "\<not> b" "\<not> blocked cfg folder" for k u
    using s' that
    by (cases k) (auto simp: set_all_selection_def blocked_def Let_def is_selected_def selection_of_def jo_get_def map_of_clear)
  moreover have "s' = s" if "blocked cfg folder"
    using s' that by (simp add: set_all_selection_def blocked_def)
  ultimately show ?thesis using True closed by (cases "blocked cfg folder") (simp_all add: selection_closed_def)
next
  case False
  have "case truthy folder of Some w \<Rightarrow> h w + 1 < n | None \<Rightarrow> H + 2 < n"
    using n tree_okD(3) [OF ok, of "the (truthy folder)"] by (auto split: option.splits)
  from select_children_marks [OF ok this, of cfg "[]" "(bs_selected s)\<lparr>ts_all := b\<rparr>"] s' False
  obtain sel where sel: "s' = s\<lparr>bs_selected := sel\<rparr>"
    "\<And>k u. is_selected sel k u \<longleftrightarrow> picks cfg s [] folder k u \<or> is_selected (bs_selected s) k u"
    by (auto simp: marks_def set_all_selection_def blocked_def Let_def)
  show ?thesis
    unfolding selection_closed_def
  proof (intro allI impI)
    fix u it
    assume u: "is_selected (bs_selected s') Folder u" and it: "loaded s' it (Some u)"
    then have it: "loaded s it (Some u)" by (simp add: sel)
    show "is_selected (bs_selected s') (vi_kind it) (vi_uid it) \<or> is_non_selectable cfg (vi_uid it)"
    proof (cases "picks cfg s [] folder Folder u")
      case True
      have "u \<noteq> []" using tree_okD(4) [OF ok it] by (auto simp: truthy_def split: option.splits list.splits)
      then have t: "truthy (Some u) = Some u" by (cases u) (simp_all add: truthy_def)
      have "picks cfg s [] (Some u) (vi_kind it) (vi_uid it) \<or> is_non_selectable cfg (vi_uid it)"
        using picks_selectable [OF True] it
        by (auto simp: blocked_def view_items_def t loaded_child intro!: pick_child)
      then show ?thesis using picks_trans [OF True] by (auto simp: sel)
    next
      case False
      with u have "is_selected (bs_selected s) Folder u" by (simp add: sel)
      from closedD [OF closed this it] show ?thesis by (auto simp: sel)
    qed
  qed
qed

lemma page_keeps_closed:
  assumes closed: "selection_closed cfg s"
    and fresh: "\<And>p it x. payload = Some p \<Longrightarrow> it \<in> set (pp_children p) \<Longrightarrow> vi_kind it = Folder \<Longrightarrow>
      \<not> loaded s x (Some (vi_uid it)) \<and> truthy parent \<noteq> Some (vi_uid it)"
  shows "selection_closed cfg (fetch_next_children_page_fulfilled parent excluded payload s)" (is "selection_closed cfg ?s")
proof (cases payload)
  case None
  then show ?thesis using closed by (simp add: fetch_next_children_page_fulfilled_def)
next
  case (Some p)
  show ?thesis
  proof (cases "truthy parent")
    case None
    with Some closed show ?thesis
      by (auto simp: fetch_next_children_page_fulfilled_def selection_closed_def loaded_def Let_def)
  next
    case (Some w)
    have sel: "is_selected (bs_selected ?s) k u \<longleftrightarrow> is_selected (bs_selected s) k u \<or>
        (is_selected (bs_selected s) Folder w \<and> (\<exists>it \<in> set (pp_children p). vi_kind it = k \<and> vi_uid it = u))" for k u
      using Some \<open>payload = Some p\<close>
      by (auto simp: fetch_next_children_page_fulfilled_def Let_def is_selected_select_items)
    have ld: "loaded ?s it (Some u) \<longleftrightarrow> loaded s it (Some u) \<or> (u = w \<and> it \<in> set (pp_children p))" for it u
      using Some \<open>payload = Some p\<close>
      by (auto simp: fetch_next_children_page_fulfilled_def loaded_child Let_def collection_of_set items_of_def [of "Some _"])
    show ?thesis
      unfolding selection_closed_def
    proof (intro allI impI)
      fix u it
      assume "is_selected (bs_selected ?s) Folder u" "loaded ?s it (Some u)"
      then have "is_selected (bs_selected s) Folder u" and it: "loaded s it (Some u) \<or> (u = w \<and> it \<in> set (pp_children p))"
        unfolding sel ld using fresh [OF \<open>payload = Some p\<close>] Some by metis+
      then show "is_selected (bs_selected ?s) (vi_kind it) (vi_uid it) \<or> is_non_selectable cfg (vi_uid it)"
        unfolding sel using closedD [OF closed] by blast
    qed
  qed
qed

lemma clear_folder_loaded: "loaded (clear_folder w s) it (Some u) \<Longrightarrow> loaded s it (Some u)"
  by (auto simp: clear_folder_def loaded_child collection_of_set items_of_def [of None] split: option.splits if_splits)

lemma clear_folders_loaded:
  "loaded (clear_folders ws s) it (Some u) \<Longrightarrow> loaded s it (Some u)"
  by (induction ws arbitrary: s) (auto simp: clear_folders_def dest: clear_folder_loaded)

lemma clear_folders_selected [simp]: "bs_selected (clear_folders ws s) = bs_selected s"
  by (induction ws arbitrary: s) (auto simp: clear_folders_def clear_folder_def split: option.splits)

lemma refetch_keeps_closed:
  assumes "selection_closed cfg s" "\<not> is_selected (bs_selected s) Folder (nullish parent [])"
  shows "selection_closed cfg (refetch_children_fulfilled parent p s)"
proof (cases "truthy parent \<noteq> None \<and> \<not> is_root_folder_uid parent")
  case True
  then obtain w where "parent = Some w" by (auto simp: truthy_def split: option.splits)
  with True assms show ?thesis
    by (auto simp: refetch_children_fulfilled_def Let_def selection_closed_def loaded_child collection_of_set split: if_splits)
next
  case False
  then obtain c where "refetch_children_fulfilled parent p s = s\<lparr>bs_root := Some c\<rparr>"
    by (auto simp: refetch_children_fulfilled_def Let_def)
  then show ?thesis using assms(1) by (simp add: selection_closed_def loaded_child)
qed

lemma step_keeps_closed: "browse_step cfg s s' \<Longrightarrow> selection_closed cfg s \<Longrightarrow> selection_closed cfg s'"
proof (induction rule: browse_step.induct)
  case (page_step payload s parent excluded)
  then show ?case by (intro page_keeps_closed)
next
  case (open_step s u is_open)
  then show ?case by (simp add: selection_closed_def set_folder_open_state_def loaded_child)
next
  case (clear_step s us)
  then show ?case by (auto simp: selection_closed_def dest!: clear_folders_loaded)
next
  case (select_step s h H it q n b s')
  then show ?case by (intro select_keeps_closed [OF select_step(1,2,3) _ select_step(4)])
next
  case (all_step s h H n b folder s')
  then show ?case by (intro all_keeps_closed [OF all_step(1,2) _ all_step(3)])
next
  case (refetch_step s parent p)
  then show ?case by (intro refetch_keeps_closed)
qed

lemma initial_closed: "selection_closed cfg initial_browse_state"
  by (simp add: selection_closed_def initial_browse_state_def is_selected_def selection_of_def jo_get_def)

section \<open>A small tree\<close>

definition sample_item :: "item_kind \<Rightarrow> string \<Rightarrow> string option \<Rightarrow> view_item" where
  "sample_item k u p = \<lparr>vi_kind = k, vi_uid = u, vi_title = u, vi_parent = p\<rparr>"

definition sample_page :: "view_item list \<Rightarrow> page_payload" where
  "sample_page items = \<lparr>pp_children = items, pp_kind = Dashboard, pp_page = 1, pp_last = True\<rparr>"

definition sample_config :: browse_config where
  "sample_config = \<lparr>cf_shared_uid = None, cf_starred = False\<rparr>"

definition sample_root :: browse_state where
  "sample_root = fetch_next_children_page_fulfilled None [] (Some (sample_page [sample_item Folder ''f'' None])) initial_browse_state"

definition sample_tree :: browse_state where
  "sample_tree = fetch_next_children_page_fulfilled (Some ''f'') [] (Some (sample_page [sample_item Dashboard ''d'' (Some ''f'')])) sample_root"

lemmas sample_defs = sample_tree_def sample_root_def sample_page_def initial_browse_state_def
  fetch_next_children_page_fulfilled_def truthy_def items_of_def collection_of_def jo_get_def jo_set_def array_index_def
  is_digit_def is_selected_def selection_of_def Let_def

lemma sample_tree_eq:
  "sample_tree =
     \<lparr>bs_root = Some \<lparr>co_items = [sample_item Folder ''f'' None], co_last_kind = Dashboard, co_last_page = 1, co_more = False, co_full = True\<rparr>,
      bs_children = [(''f'', Some \<lparr>co_items = [sample_item Dashboard ''d'' (Some ''f'')], co_last_kind = Dashboard, co_last_page = 1, co_more = False, co_full = True\<rparr>)],
      bs_selected = \<lparr>ts_folder = [], ts_dashboard = [], ts_panel = [], ts_all = False\<rparr>, bs_open = []\<rparr>"
  by (simp add: sample_defs)

lemma sample_loaded:
  "loaded sample_tree it p \<longleftrightarrow>
     p = None \<and> it = sample_item Folder ''f'' None \<or> p = Some ''f'' \<and> it = sample_item Dashboard ''d'' (Some ''f'')"
  by (auto simp: loaded_def sample_tree_eq collection_of_def items_of_def jo_get_def split: option.splits if_splits)

lemma sample_children: "items_of (collection_of (bs_children sample_tree) u) =
    (if u = ''f'' then [sample_item Dashboard ''d'' (Some ''f'')] else [])"
  by (simp add: sample_tree_eq collection_of_def items_of_def jo_get_def)

lemma sample_tree_ok: "tree_ok sample_tree (\<lambda>_. 0) 0"
proof -
  have "jo_wf (bs_children sample_tree)" by (simp add: sample_tree_eq jo_wf_def)
  moreover have "\<not> is_selected (bs_selected sample_tree) k u" for k u
    by (cases k) (simp_all add: sample_tree_eq is_selected_def selection_of_def jo_get_def)
  ultimately show ?thesis
    by (auto simp: tree_ok_def heights_def sample_children sample_loaded sample_item_def truthy_def)
qed

section \<open>Properties\<close>



lemma sample_selectable: "\<not> is_non_selectable sample_config ''f''"
  by code_simp


interpretation browse: state_machine "\<lambda>s. s = initial_browse_state" "browse_step cfg" "selection_closed cfg" for cfg
  by unfold_locales (auto intro: initial_closed step_keeps_closed)

text \<open>
  C14. From the empty tree on, every loaded child of a selected folder is selected or cannot be selected. This is through
  any sequence of steps that select an item shown in a well-formed tree, select everything there with nothing excluded,
  load a page whose folders are not in the tree yet, refetch a folder that is not selected, open or close folders,
  and clear folders. A folder refetched while it is selected breaks it (\<open>refetch_forgets_selection\<close>); excluded items and
  pages that overlap are not covered.
\<close>

theorem selected_folder_children_selected:
  assumes "rtranclp (browse_step cfg) initial_browse_state s"
    and "is_selected (bs_selected s) Folder u" "loaded s it (Some u)"
  shows "is_selected (bs_selected s) (vi_kind it) (vi_uid it) \<or> is_non_selectable cfg (vi_uid it)"
proof -
  from assms(1) have "selection_closed cfg s"
    by (rule browse.reached_inv) (rule refl)
  from closedD [OF this assms(2,3)] show ?thesis .
qed

lemma sample_tree_reached: "rtranclp (browse_step sample_config) initial_browse_state sample_tree"
proof -
  have "browse_step sample_config initial_browse_state sample_root"
    unfolding sample_root_def
    by (rule page_step) (simp add: loaded_def initial_browse_state_def collection_of_def items_of_def jo_get_def truthy_def)
  moreover have "browse_step sample_config sample_root sample_tree"
    unfolding sample_tree_def by (rule page_step) (auto simp: sample_page_def sample_item_def)
  ultimately show ?thesis by auto
qed

lemma selected_folder_children_selected_witness:
  "\<exists>s. set_item_selection_state sample_config 2 Folder ''f'' None True sample_tree = Some s \<and>
     is_selected (bs_selected s) Dashboard ''d''"
proof -
  let ?f = "sample_item Folder ''f'' None" and ?d = "sample_item Dashboard ''d'' (Some ''f'')"
  have f: "loaded sample_tree ?f None" by (simp add: sample_loaded)
  have "0 + 2 \<le> (2 :: nat)" "\<not> is_non_selectable sample_config (vi_uid ?f)"
    using sample_selectable by (simp_all add: sample_item_def)
  from set_item_selection_marks [OF sample_tree_ok f this, of True]
  obtain sel' where s': "set_item_selection_state sample_config 2 (vi_kind ?f) (vi_uid ?f) (vi_parent ?f) True sample_tree =
      Some (sample_tree\<lparr>bs_selected := sel'\<rparr>)"
    and m: "\<forall>k u. is_selected sel' k u = (if \<not> True \<and> above_item sample_tree ?f k u then False
      else if in_subtree (bs_children sample_tree) (vi_kind ?f) (vi_uid ?f) k u then True
      else is_selected (bs_selected sample_tree) k u)"
    by blast
  from m have "is_selected sel' Folder ''f''" using subtree_self [of _ Folder "''f''"] by (simp add: sample_item_def)
  have "rtranclp (browse_step sample_config) initial_browse_state (sample_tree\<lparr>bs_selected := sel'\<rparr>)"
    using sample_tree_reached select_step [OF sample_tree_ok f _ s'] by simp
  from selected_folder_children_selected [OF this, of "''f''" ?d]
  have "is_selected sel' Dashboard ''d'' \<or> is_non_selectable sample_config ''d''"
    using \<open>is_selected sel' Folder ''f''\<close> by (simp add: sample_loaded sample_item_def)
  moreover have "\<not> is_non_selectable sample_config ''d''" by code_simp
  ultimately show ?thesis using s' by (simp add: sample_item_def)
qed

text \<open>
  A folder that is refetched while it is selected gets children that are not: the reducer of the refetch
  does not select them, as the one of a further page does.
\<close>

lemma refetch_forgets_selection:
  "let s = refetch_children_fulfilled (Some ''f'') (sample_page [sample_item Dashboard ''d'' (Some ''f'')])
        (initial_browse_state\<lparr>bs_selected := \<lparr>ts_folder = [(''f'', True)], ts_dashboard = [], ts_panel = [], ts_all = False\<rparr>\<rparr>)
   in is_selected (bs_selected s) Folder ''f'' \<and> loaded s (sample_item Dashboard ''d'' (Some ''f'')) (Some ''f'') \<and>
      \<not> is_selected (bs_selected s) Dashboard ''d''"
  by (simp add: refetch_children_fulfilled_def is_root_folder_uid_def GENERAL_FOLDER_UID_def loaded_def sample_defs)

end
