(* ===== verification/Browse_Pages.thy ===== *)
theory Browse_Pages
  imports Browse_Selection
begin

text \<open>
  Loading and showing the tree of dashboards: that loading page after page brings every folder and then
  every dashboard exactly once and comes to an end, and which rows are shown.
\<close>

section \<open>Loading all pages\<close>

text \<open>A parent that is no virtual folder, below no virtual folder, and not the folder called general.\<close>

definition ordinary_parent :: "string option \<Rightarrow> bool" where
  "ordinary_parent parent \<longleftrightarrow>
     (case parent of
        None \<Rightarrow> True
      | Some u \<Rightarrow> u \<noteq> [] \<and> u \<noteq> GENERAL_FOLDER_UID \<and> u \<noteq> TEAM_FOLDERS_UID \<and> u \<noteq> STARRED_FOLDERS_UID \<and>
                  virtual_folder_prefix_of u = None)"

definition shown_collection :: "string option \<Rightarrow> browse_state \<Rightarrow> item_collection option" where
  "shown_collection parent s =
     (case truthy parent of Some u \<Rightarrow> collection_of (bs_children s) u | None \<Rightarrow> bs_root s)"

text \<open>
  What the backend promises: pages are the slices of a fixed list of folders and of a fixed list of
  dashboards; the first page of folders may have the virtual folders in front.
\<close>

definition pages_of :: "page_api \<Rightarrow> string option \<Rightarrow> nat \<Rightarrow> view_item list \<Rightarrow> view_item list \<Rightarrow> view_item list \<Rightarrow> bool" where
  "pages_of api uid m virtual fs ds \<longleftrightarrow>
     (\<forall>p. api_folders api uid (Suc p) m = Inr ((if p = 0 then virtual else []) @ take m (drop (p * m) fs))) \<and>
     (\<forall>p. api_dashboards api uid (Suc p) m = Inr (take m (drop (p * m) ds)))"

lemma truthy_ordinary: "ordinary_parent parent \<Longrightarrow> truthy parent = parent"
  by (auto simp: ordinary_parent_def truthy_def split: option.splits list.splits)

lemma fetch_page_ordinary:
  assumes "ordinary_parent parent"
  shows "fetch_page api parent True m kind page =
    bind_res (if kind = Folder then api_folders api parent page m else api_dashboards api parent page m) (\<lambda>children.
      if kind = Folder \<and> length children < m
      then bind_res (api_dashboards api parent 1 m) (\<lambda>ds.
        Inr \<lparr>pp_children = children @ ds, pp_kind = Dashboard, pp_page = 1, pp_last = length ds < m\<rparr>)
      else Inr \<lparr>pp_children = children, pp_kind = kind, pp_page = page, pp_last = length children < m\<rparr>)"
proof -
  have "stripped_parent parent = parent" and uid: "request_uid parent = parent"
    using assms truthy_ordinary [OF assms]
    by (auto simp: stripped_parent_def request_uid_def is_root_folder_uid_def ordinary_parent_def
        strip_virtual_folder_prefix_def split: option.splits)
  moreover have "reprefix parent parent items = items" for items by (simp add: reprefix_def split: option.split)
  ultimately show ?thesis
    unfolding fetch_page_def Let_def by (cases "kind = Folder") (simp_all only: uid if_True if_False simp_thms)
qed

lemma load_ordinary:
  assumes "ordinary_parent parent"
  shows "load_next_children_page api parent [] m s =
    (case next_page (shown_collection parent s) True of
       None \<Rightarrow> s
     | Some (kind, page) \<Rightarrow>
         (case fetch_page api parent True m kind page of
            Inl _ \<Rightarrow> s | Inr p \<Rightarrow> fetch_next_children_page_fulfilled parent [] (Some p) s))"
proof -
  have "parent \<noteq> Some TEAM_FOLDERS_UID" "parent \<noteq> Some STARRED_FOLDERS_UID"
    "(if is_root_folder_uid parent then bs_root s else collection_of (bs_children s) (the parent)) = shown_collection parent s"
    using assms truthy_ordinary [OF assms]
    by (auto simp: ordinary_parent_def shown_collection_def is_root_folder_uid_def split: option.splits)
  then show ?thesis
    by (simp add: load_next_children_page_def fetch_next_children_page_def Let_def
        fetch_next_children_page_fulfilled_def [of _ _ None] split: option.split sum.split)
qed

lemma shown_after_page:
  "shown_collection parent (fetch_next_children_page_fulfilled parent [] (Some p) s) =
     Some \<lparr>co_items = items_of (shown_collection parent s) @ pp_children p, co_last_kind = pp_kind p,
       co_last_page = pp_page p, co_more = \<not> pp_last p, co_full = (pp_kind p = Dashboard \<and> pp_last p)\<rparr>"
  by (simp add: shown_collection_def fetch_next_children_page_fulfilled_def Let_def collection_of_set split: option.split)

text \<open>The states of a collection while its pages come in, and how many loads may still follow.\<close>

definition paging :: "nat \<Rightarrow> view_item list \<Rightarrow> view_item list \<Rightarrow> view_item list \<Rightarrow> item_collection option \<Rightarrow> bool" where
  "paging m virtual fs ds r \<longleftrightarrow>
     (case r of
        None \<Rightarrow> True
      | Some c \<Rightarrow>
          \<not> co_full c \<and> co_more c \<and> co_last_kind c = Folder \<and>
            (\<exists>p. co_last_page c = Suc p \<and> co_items c = virtual @ take (Suc p * m) fs \<and> (p = 0 \<or> Suc p * m \<le> length fs)) \<or>
          co_last_kind c = Dashboard \<and> co_full c = (\<not> co_more c) \<and>
            (\<exists>p. co_last_page c = Suc p \<and> co_items c = virtual @ fs @ take (Suc p * m) ds \<and>
               co_more c = (Suc p * m \<le> length ds)))"

definition loads_left :: "nat \<Rightarrow> view_item list \<Rightarrow> view_item list \<Rightarrow> item_collection option \<Rightarrow> nat" where
  "loads_left m fs ds r =
     (let A = length fs div m + 2; B = length ds div m + 1 in
      case r of
        None \<Rightarrow> A + B
      | Some c \<Rightarrow> if co_full c then 0 else if co_last_kind c = Folder then A - co_last_page c + B else B - co_last_page c)"

lemma slice: "0 < m \<Longrightarrow> length (take m (drop (p * m) xs)) < m \<longleftrightarrow> length xs < Suc p * m"
  by (auto simp: min_def algebra_simps)

lemma take_slice: "take (p * m) xs @ take m (drop (p * m) xs) = take (Suc p * m) xs"
  by (simp add: take_add add.commute flip: take_add)

lemma pages_ofD:
  assumes "pages_of api uid m virtual fs ds"
  shows "api_folders api uid (Suc p) m = Inr ((if p = 0 then virtual else []) @ take m (drop (p * m) fs))"
    "api_dashboards api uid (Suc p) m = Inr (take m (drop (p * m) ds))"
  using assms by (simp_all add: pages_of_def)

text \<open>The page of folders after the first \<open>p\<close>, with the first dashboards behind it when it is the last.\<close>

lemma folder_page:
  assumes "ordinary_parent parent" "pages_of api parent m virtual fs ds"
  shows "fetch_page api parent True m Folder (Suc p) =
    (let children = (if p = 0 then virtual else []) @ take m (drop (p * m) fs) in
     Inr (if length children < m
          then \<lparr>pp_children = children @ take m ds, pp_kind = Dashboard, pp_page = 1, pp_last = length (take m ds) < m\<rparr>
          else \<lparr>pp_children = children, pp_kind = Folder, pp_page = Suc p, pp_last = False\<rparr>))"
  using pages_ofD(1) [OF assms(2), of p] pages_ofD(2) [OF assms(2), of 0]
  unfolding fetch_page_ordinary [OF assms(1)] Let_def by (auto simp: min_def)

lemma dashboard_page:
  assumes "ordinary_parent parent" "pages_of api parent m virtual fs ds"
  shows "fetch_page api parent True m Dashboard (Suc p) =
    Inr \<lparr>pp_children = take m (drop (p * m) ds), pp_kind = Dashboard, pp_page = Suc p,
      pp_last = length (take m (drop (p * m) ds)) < m\<rparr>"
  using pages_ofD(2) [OF assms(2), of p] unfolding fetch_page_ordinary [OF assms(1)] by simp

lemma paging_folder_page:
  assumes "ordinary_parent parent" "pages_of api parent m virtual fs ds" "0 < m"
    and "items_of (shown_collection parent s) = (if p = 0 then [] else virtual @ take (p * m) fs)"
    and "p \<le> 1 \<or> p * m \<le> length fs"
  defines "page \<equiv> fetch_page api parent True m Folder (Suc p)"
  shows "\<exists>q. page = Inr q \<and>
    (let r = shown_collection parent (fetch_next_children_page_fulfilled parent [] (Some q) s) in
     paging m virtual fs ds r \<and> loads_left m fs ds r < length fs div m + 2 - p + (length ds div m + 1))"
proof -
  let ?new = "(if p = 0 then virtual else []) @ take m (drop (p * m) fs)"
  have all: "items_of (shown_collection parent s) @ ?new = virtual @ take (Suc p * m) fs"
    using assms(4) take_slice [of p m fs] by auto
  have p: "p \<le> length fs div m + 1"
    using assms(5) less_eq_div_iff_mult_less_eq [OF assms(3), of p "length fs"] by linarith
  show ?thesis
  proof (cases "length ?new < m")
    case True
    then have "length (take m (drop (p * m) fs)) < m" by (auto split: if_splits)
    then have "length fs < Suc p * m" using slice [OF assms(3)] by blast
    then have items: "items_of (shown_collection parent s) @ ?new @ take m ds = virtual @ fs @ take (Suc 0 * m) ds"
      using all by simp
    have "length (take m ds) < m \<longleftrightarrow> \<not> Suc 0 * m \<le> length ds" by auto
    then show ?thesis
      using True items p unfolding page_def folder_page [OF assms(1,2)] Let_def
      by (auto simp: shown_after_page paging_def loads_left_def Let_def)
  next
    case False
    then have "p = 0 \<or> Suc p * m \<le> length fs" using slice [OF assms(3), of p fs] by (cases "p = 0") auto
    with False all p show ?thesis
      unfolding page_def folder_page [OF assms(1,2)] Let_def
      by (auto simp: shown_after_page paging_def loads_left_def Let_def)
  qed
qed

lemma paging_dashboard_page:
  assumes "ordinary_parent parent" "pages_of api parent m virtual fs ds" "0 < m"
    and "items_of (shown_collection parent s) = virtual @ fs @ take (p * m) ds" "p * m \<le> length ds"
  defines "page \<equiv> fetch_page api parent True m Dashboard (Suc p)"
  shows "\<exists>q. page = Inr q \<and>
    (let r = shown_collection parent (fetch_next_children_page_fulfilled parent [] (Some q) s) in
     paging m virtual fs ds r \<and> loads_left m fs ds r < length ds div m + 1 - p)"
proof -
  have "p \<le> length ds div m" using assms(3,5) by (simp add: less_eq_div_iff_mult_less_eq)
  moreover have "length (take m (drop (p * m) ds)) < m \<longleftrightarrow> \<not> Suc p * m \<le> length ds"
    using slice [OF assms(3), of p ds] by (simp only: not_le)
  moreover have "items_of (shown_collection parent s) @ take m (drop (p * m) ds) = virtual @ fs @ take (Suc p * m) ds"
    using assms(4) take_slice [of p m ds] by simp
  ultimately show ?thesis
    unfolding page_def dashboard_page [OF assms(1,2)]
    by (auto simp: shown_after_page paging_def loads_left_def Let_def)
qed

text \<open>One load: nothing happens when everything is there, otherwise fewer loads are left.\<close>

lemma load_progress:
  assumes "ordinary_parent parent" "pages_of api parent m virtual fs ds" "0 < m"
    and "paging m virtual fs ds (shown_collection parent s)"
  defines "s' \<equiv> load_next_children_page api parent [] m s"
  shows "paging m virtual fs ds (shown_collection parent s') \<and>
    (loads_left m fs ds (shown_collection parent s') < loads_left m fs ds (shown_collection parent s) \<or>
     loads_left m fs ds (shown_collection parent s) = 0 \<and> s' = s)"
proof (cases "shown_collection parent s")
  case None
  then have "next_page (shown_collection parent s) True = Some (Folder, Suc 0)" by (simp add: next_page_def)
  with paging_folder_page [OF assms(1-3), of s 0] None show ?thesis
    unfolding s'_def load_ordinary [OF assms(1)]
    by (auto simp: Let_def items_of_def loads_left_def)
next
  case (Some c)
  show ?thesis
  proof (cases "co_last_kind c = Folder")
    case True
    with Some assms(4) obtain p where p: "co_last_page c = Suc p" "co_items c = virtual @ take (Suc p * m) fs"
      "p = 0 \<or> Suc p * m \<le> length fs" "co_more c" "\<not> co_full c"
      by (auto simp: paging_def)
    then have "next_page (shown_collection parent s) True = Some (Folder, Suc (Suc p))"
      using Some True by (simp add: next_page_def)
    with paging_folder_page [OF assms(1-3), of s "Suc p"] Some True p show ?thesis
      unfolding s'_def load_ordinary [OF assms(1)]
      by (auto simp: Let_def items_of_def loads_left_def)
  next
    case False
    with Some assms(4) obtain p where p: "co_last_page c = Suc p" "co_items c = virtual @ fs @ take (Suc p * m) ds"
      "co_more c = (Suc p * m \<le> length ds)" "co_full c = (\<not> co_more c)" "co_last_kind c = Dashboard"
      by (auto simp: paging_def)
    show ?thesis
    proof (cases "co_more c")
      case True
      then have "next_page (shown_collection parent s) True = Some (Dashboard, Suc (Suc p))"
        using Some p by (simp add: next_page_def)
      with paging_dashboard_page [OF assms(1-3), of s "Suc p"] Some True p show ?thesis
        unfolding s'_def load_ordinary [OF assms(1)]
        by (auto simp: Let_def items_of_def loads_left_def)
    next
      case False
      then have "next_page (shown_collection parent s) True = None" using Some p by (simp add: next_page_def)
      with Some False p assms(4) show ?thesis
        unfolding s'_def load_ordinary [OF assms(1)] by (simp add: loads_left_def)
    qed
  qed
qed

lemma load_until_done:
  assumes "ordinary_parent parent" "pages_of api parent m virtual fs ds" "0 < m"
    and "paging m virtual fs ds (shown_collection parent s)"
  shows "paging m virtual fs ds (shown_collection parent ((load_next_children_page api parent [] m ^^ k) s)) \<and>
    loads_left m fs ds (shown_collection parent ((load_next_children_page api parent [] m ^^ k) s))
      \<le> loads_left m fs ds (shown_collection parent s) - k"
proof (induction k)
  case (Suc k)
  with load_progress [OF assms(1-3)] show ?case by fastforce
qed (simp add: assms)

lemma paging_prefix:
  assumes "paging m virtual fs ds (Some c)"
  shows "\<exists>later. co_items c @ later = virtual @ fs @ ds"
proof -
  from assms consider (folders) n where "co_items c = virtual @ take n fs"
    | (dashboards) n where "co_items c = virtual @ fs @ take n ds"
    unfolding paging_def option.case by blast
  then show ?thesis
  proof cases
    case folders
    then show ?thesis by (intro exI [of _ "drop n fs @ ds"]) simp
  next
    case dashboards
    then show ?thesis by (intro exI [of _ "drop n ds"]) simp
  qed
qed

lemma paging_done:
  assumes "paging m virtual fs ds r" "loads_left m fs ds r = 0" "0 < m"
  shows "\<exists>c. r = Some c \<and> co_full c \<and> co_items c = virtual @ fs @ ds"
proof (cases r)
  case None
  with assms show ?thesis by (simp add: loads_left_def Let_def)
next
  case (Some c)
  have "co_full c"
  proof (rule ccontr)
    assume open_: "\<not> co_full c"
    with assms(1) Some obtain p where "co_last_kind c = Folder \<or> co_last_page c = Suc p \<and> Suc p * m \<le> length ds"
      unfolding paging_def by simp blast
    then have "co_last_kind c = Folder \<or> co_last_page c \<le> length ds div m"
      using less_eq_div_iff_mult_less_eq [OF assms(3), of "Suc p" "length ds"] by (elim disjE) simp_all
    with assms(2) Some open_ show False by (auto simp: loads_left_def Let_def split: if_splits)
  qed
  with assms(1) obtain p where "co_items c = virtual @ fs @ take (Suc p * m) ds" "\<not> Suc p * m \<le> length ds"
    unfolding Some paging_def option.case by blast
  with \<open>co_full c\<close> show ?thesis using Some by simp
qed

text \<open>
  C15. Loading page after page ends with everything: at every moment the items shown are a first part of
  the virtual folders, all folders and all dashboards, without a gap or a repetition, and after as many
  loads as there are pages (and three more) all of them are there and the collection is marked as loaded.
\<close>

theorem loading_completes:
  assumes "ordinary_parent parent" "pages_of api parent m virtual fs ds" "0 < m" "shown_collection parent s = None"
  shows "(\<forall>k. \<exists>later. items_of (shown_collection parent ((load_next_children_page api parent [] m ^^ k) s)) @ later =
      virtual @ fs @ ds) \<and>
    (\<forall>k \<ge> length fs div m + length ds div m + 3. \<exists>c.
      shown_collection parent ((load_next_children_page api parent [] m ^^ k) s) = Some c \<and>
      co_full c \<and> co_items c = virtual @ fs @ ds)"
proof (intro conjI allI impI)
  have start: "paging m virtual fs ds (shown_collection parent s)" by (simp add: paging_def assms(4))
  note runs = load_until_done [OF assms(1-3) start]
  fix k
  let ?r = "shown_collection parent ((load_next_children_page api parent [] m ^^ k) s)"
  show "\<exists>later. items_of ?r @ later = virtual @ fs @ ds"
    using runs [of k] paging_prefix [of m virtual fs ds] by (cases ?r) (auto simp: items_of_def)
  assume "length fs div m + length ds div m + 3 \<le> k"
  then have "loads_left m fs ds ?r = 0" using runs [of k] by (simp add: assms(4) loads_left_def Let_def)
  with paging_done [OF _ this assms(3)] runs [of k] show "\<exists>c. ?r = Some c \<and> co_full c \<and> co_items c = virtual @ fs @ ds" by blast
qed

definition sample_api :: "view_item list \<Rightarrow> view_item list \<Rightarrow> page_api" where
  "sample_api fs ds =
     \<lparr>api_folders = (\<lambda>_ p m. Inr (take m (drop ((p - 1) * m) fs))), api_dashboards = (\<lambda>_ p m. Inr (take m (drop ((p - 1) * m) ds))),
      api_team = Inr [], api_starred = Inr []\<rparr>"

lemma loading_completes_witness:
  "let a = sample_item Folder ''a'' None; b = sample_item Folder ''b'' None; d = sample_item Dashboard ''d'' None in
   \<exists>c. shown_collection None ((load_next_children_page (sample_api [a, b] [d]) None [] 1 ^^ 6) initial_browse_state) = Some c \<and>
     co_items c = [a, b, d]"
proof -
  have "ordinary_parent None" "shown_collection None initial_browse_state = None"
    by (simp_all add: ordinary_parent_def shown_collection_def truthy_def initial_browse_state_def)
  moreover have "pages_of (sample_api fs ds) None 1 [] fs ds" for fs ds
    by (simp add: pages_of_def sample_api_def)
  ultimately have "\<exists>c. shown_collection None ((load_next_children_page (sample_api fs ds) None [] 1 ^^ 6) initial_browse_state) = Some c \<and>
      co_full c \<and> co_items c = [] @ fs @ ds" if "length fs + length ds = 3" for fs ds
    using loading_completes [of None "sample_api fs ds" 1 "[]" fs ds initial_browse_state, THEN conjunct2] that by simp
  from this [of "[sample_item Folder ''a'' None, sample_item Folder ''b'' None]" "[sample_item Dashboard ''d'' None]"]
  show ?thesis unfolding Let_def by auto
qed

text \<open>
  Loading the folder called general, which names the root: the pages go to a folder of that name while
  the next page is chosen from the items of the root, so the first page is appended again and again.
\<close>

lemma general_is_loaded_twice:
  "let a = sample_item Folder ''a'' None; api = sample_api [a] [] in
   items_of (collection_of (bs_children ((load_next_children_page api (Some ''general'') [] 2 ^^ 2) initial_browse_state)) ''general'') = [a, a]"
  by (simp add: Let_def numeral_2_eq_2 load_next_children_page_def fetch_next_children_page_def TEAM_FOLDERS_UID_def
      STARRED_FOLDERS_UID_def is_root_folder_uid_def GENERAL_FOLDER_UID_def next_page_def fetch_page_def stripped_parent_def
      strip_virtual_folder_prefix_def virtual_folder_prefix_of_def TEAM_FOLDER_PREFIX_def STARRED_FOLDER_PREFIX_def
      request_uid_def reprefix_def sample_api_def sample_defs)

section \<open>The rows shown\<close>

definition is_open :: "browse_state \<Rightarrow> string \<Rightarrow> bool" where
  "is_open s u \<longleftrightarrow> jo_get (bs_open s) u = Some True"

text \<open>Visible: at the root, or in an open folder that is visible itself; with its level and parent.\<close>

inductive visible :: "browse_state \<Rightarrow> view_item \<Rightarrow> nat \<Rightarrow> string option \<Rightarrow> bool" for s where
  visible_root: "loaded s it None \<Longrightarrow> visible s it 0 None"
| visible_child: "visible s p l q \<Longrightarrow> is_open s (vi_uid p) \<Longrightarrow> loaded s it (Some (vi_uid p)) \<Longrightarrow>
    visible s it (Suc l) (Some (vi_uid p))"

text \<open>The same from a folder downwards, as the recursion goes.\<close>

definition unfolded :: "browse_state \<Rightarrow> string option \<Rightarrow> nat \<Rightarrow> bool" where
  "unfolded s folder level \<longleftrightarrow> (case truthy folder of None \<Rightarrow> True | Some u \<Rightarrow> level = 0 \<or> is_open s u)"

inductive below :: "browse_state \<Rightarrow> string option \<Rightarrow> nat \<Rightarrow> view_item \<Rightarrow> nat \<Rightarrow> string option \<Rightarrow> bool" for s where
  below_here: "unfolded s folder level \<Longrightarrow> it \<in> set (view_items s folder) \<Longrightarrow> below s folder level it level folder"
| below_deeper: "unfolded s folder level \<Longrightarrow> c \<in> set (view_items s folder) \<Longrightarrow>
    below s (Some (vi_uid c)) (Suc level) it l q \<Longrightarrow> below s folder level it l q"

lemma below_step:
  "below s folder level it l q \<longleftrightarrow>
     unfolded s folder level \<and> (\<exists>c \<in> set (view_items s folder).
       it = c \<and> l = level \<and> q = folder \<or> below s (Some (vi_uid c)) (Suc level) it l q)"
  by (subst below.simps) blast

lemma flat_map_opt_all:
  assumes "\<And>x. x \<in> set xs \<Longrightarrow> f x = Some (g x)"
  shows "flat_map_opt f xs = Some (concat (map g xs))"
proof -
  have "fold_opt (\<lambda>x acc. map_option (\<lambda>ys. acc @ ys) (f x)) xs acc = Some (acc @ concat (map g xs))" for acc
    using assms by (induction xs arbitrary: acc) auto
  then show ?thesis by (simp add: flat_map_opt_def)
qed

definition item_row :: "browse_state \<Rightarrow> view_item \<Rightarrow> nat \<Rightarrow> string option \<Rightarrow> tree_row" where
  "item_row s it l q = \<lparr>tr_entry = Item_Row it, tr_level = l, tr_open = is_open s (vi_uid it), tr_parent = q\<rparr>"

definition item_rows :: "tree_row list \<Rightarrow> tree_row set" where
  "item_rows rows = {r \<in> set rows. \<exists>it. tr_entry r = Item_Row it}"

lemma item_rows_append [simp]: "item_rows (xs @ ys) = item_rows xs \<union> item_rows ys"
  by (auto simp: item_rows_def)

lemma item_rows_concat: "item_rows (concat (map g xs)) = (\<Union>x \<in> set xs. item_rows (g x))"
  by (auto simp: item_rows_def)

lemma item_rows_placeholders [simp]: "item_rows (get_pagination_placeholders n q l) = {}"
  by (auto simp: item_rows_def get_pagination_placeholders_def)

lemma item_rows_optional [simp]: "item_rows (if b then get_pagination_placeholders n q l else []) = {}"
  by (simp add: item_rows_def [of "[]"])

lemma map_item_rows:
  assumes "flat (vi_uid it) = Some rows"
  shows "\<exists>rs. map_item cfg [] [] kids (bs_open s) flat q l it = Some rs \<and>
    item_rows rs = insert (item_row s it l q) (item_rows rows)"
  using assms by (auto simp: map_item_def item_row_def is_open_def Let_def) (auto simp: item_rows_def)

lemma create_flat_tree_rows:
  assumes ok: "tree_ok s h H"
  shows "0 < n \<Longrightarrow> (case truthy folder of None \<Rightarrow> H + 2 < n | Some w \<Rightarrow> view_items s folder \<noteq> [] \<longrightarrow> h w + 1 < n) \<Longrightarrow>
    \<exists>rows. create_flat_tree n cfg [] [] (bs_root s) (bs_children s) (bs_open s) folder level = Some rows \<and>
      item_rows rows = {item_row s it l q | it l q. below s folder level it l q}"
proof (induction n arbitrary: folder level)
  case (Suc n)
  let ?items = "if truthy folder \<noteq> None \<and> \<not> unfolded s folder level then [] else view_items s folder"
  let ?flat = "\<lambda>uid. create_flat_tree n cfg [] [] (bs_root s) (bs_children s) (bs_open s) (Some uid) (level + 1)"
  let ?map = "map_item cfg [] [] (bs_children s) (bs_open s) ?flat folder level"
  have items: "?items = (if unfolded s folder level then view_items s folder else [])"
    by (auto simp: unfolded_def split: option.splits)
  have "\<exists>rs. ?map c = Some rs \<and> item_rows rs = insert (item_row s c level folder)
      {item_row s it l q | it l q. below s (Some (vi_uid c)) (Suc level) it l q}" if c: "c \<in> set (view_items s folder)" for c
  proof -
    have ld: "loaded s c (truthy folder)" using c by (auto simp: view_items_def loaded_def split: option.splits)
    have t: "truthy (Some (vi_uid c)) = Some (vi_uid c)"
      using tree_okD(5) [OF ok ld] by (simp add: truthy_def split: list.split)
    have "h (vi_uid c) + 1 < n" if "view_items s (Some (vi_uid c)) \<noteq> []"
    proof -
      have "vi_kind c = Folder" by (rule tree_okD(7) [OF ok ld]) (use that t in \<open>simp add: view_items_def\<close>)
      then show ?thesis
        using Suc.prems(2) ld c tree_okD(2) [OF ok] tree_okD(3) [OF ok, of "vi_uid c"]
        by (cases "truthy folder") (force simp: heights_def loaded_child)+
    qed
    moreover have "0 < n" using Suc.prems(2) c by (cases "truthy folder") auto
    ultimately obtain rows where "?flat (vi_uid c) = Some rows"
      "item_rows rows = {item_row s it l q | it l q. below s (Some (vi_uid c)) (Suc level) it l q}"
      using Suc.IH [of "Some (vi_uid c)" "Suc level"] t by auto
    with map_item_rows [of ?flat c rows cfg "bs_children s" s folder level] show ?thesis by auto
  qed
  then have "\<forall>c. \<exists>rs. c \<in> set (view_items s folder) \<longrightarrow> ?map c = Some rs \<and> item_rows rs = insert (item_row s c level folder)
      {item_row s it l q | it l q. below s (Some (vi_uid c)) (Suc level) it l q}" by blast
  from choice [OF this] obtain g where g: "\<And>c. c \<in> set (view_items s folder) \<Longrightarrow> ?map c = Some (g c)"
    "\<And>c. c \<in> set (view_items s folder) \<Longrightarrow> item_rows (g c) = insert (item_row s c level folder)
      {item_row s it l q | it l q. below s (Some (vi_uid c)) (Suc level) it l q}"
    by blast
  have code: "(if truthy folder \<noteq> None \<and> \<not> ((case truthy folder of None \<Rightarrow> False | Some u \<Rightarrow> jo_get (bs_open s) u = Some True) \<or> level = 0)
      then [] else items_of (case truthy folder of None \<Rightarrow> bs_root s | Some u \<Rightarrow> collection_of (bs_children s) u)) = ?items"
    by (auto simp: unfolded_def view_items_def is_open_def split: option.splits)
  have "flat_map_opt ?map ?items = Some (concat (map g ?items))"
    by (rule flat_map_opt_all) (use g(1) in \<open>auto simp: items split: if_splits\<close>)
  then obtain ps where "create_flat_tree (Suc n) cfg [] [] (bs_root s) (bs_children s) (bs_open s) folder level =
      Some (concat (map g ?items) @ ps)" "item_rows ps = {}"
    unfolding create_flat_tree.simps Let_def code by simp
  moreover have "item_rows (concat (map g ?items)) = {item_row s it l q | it l q. below s folder level it l q}"
    unfolding item_rows_concat items using g(2) by (subst below_step) (auto; blast)
  ultimately show ?case by auto
qed simp

lemma truthy_loaded: "tree_ok s h H \<Longrightarrow> loaded s it p \<Longrightarrow> truthy (Some (vi_uid it)) = Some (vi_uid it)"
  using tree_okD(5) by (force simp: truthy_def split: list.split)

lemma view_items_loaded: "it \<in> set (view_items s u) \<longleftrightarrow> loaded s it (truthy u)"
  by (simp add: view_items_def loaded_def split: option.split)

lemma below_visible:
  assumes ok: "tree_ok s h H"
  shows "below s folder level it l q \<Longrightarrow>
    (\<And>c. c \<in> set (view_items s folder) \<Longrightarrow> unfolded s folder level \<Longrightarrow> visible s c level folder) \<Longrightarrow> visible s it l q"
proof (induction rule: below.induct)
  case (below_deeper folder level c it l q)
  have c: "visible s c level folder" by (rule below_deeper.prems [OF below_deeper.hyps(2,1)])
  have t: "truthy (Some (vi_uid c)) = Some (vi_uid c)"
    using below_deeper.hyps(2) truthy_loaded [OF ok] by (simp add: view_items_loaded)
  show ?case
  proof (rule below_deeper.IH)
    fix d
    assume "d \<in> set (view_items s (Some (vi_uid c)))" "unfolded s (Some (vi_uid c)) (Suc level)"
    with t show "visible s d (Suc level) (Some (vi_uid c))"
      by (intro visible_child [OF c]) (simp_all add: view_items_loaded unfolded_def)
  qed
qed blast

lemma below_child:
  "below s folder level p l q \<Longrightarrow> is_open s (vi_uid p) \<Longrightarrow> it \<in> set (view_items s (Some (vi_uid p))) \<Longrightarrow>
   below s folder level it (Suc l) (Some (vi_uid p))"
proof (induction rule: below.induct)
  case (below_here folder level p)
  then have "unfolded s (Some (vi_uid p)) (Suc level)" by (auto simp: unfolded_def truthy_def split: option.splits list.splits)
  then have "below s (Some (vi_uid p)) (Suc level) it (Suc level) (Some (vi_uid p))"
    using below_here.prems(2) by (rule below.below_here)
  with below_here.hyps show ?case by (rule below.below_deeper)
next
  case (below_deeper folder level c p l q)
  then show ?case by (blast intro: below.below_deeper)
qed

lemma visible_below:
  assumes ok: "tree_ok s h H"
  shows "visible s it l q \<Longrightarrow> below s None 0 it l q"
proof (induction rule: visible.induct)
  case (visible_root it)
  then show ?case by (intro below_here) (simp_all add: unfolded_def view_items_loaded truthy_def)
next
  case (visible_child p l q it)
  have "\<exists>r. loaded s p r" using visible_child.hyps(1) by cases auto
  then have "truthy (Some (vi_uid p)) = Some (vi_uid p)" using truthy_loaded [OF ok] by blast
  then show ?case using visible_child by (intro below_child) (simp_all add: view_items_loaded)
qed

text \<open>
  C16. The rows of the whole tree: the computation returns, and the rows of items are exactly the visible
  items, each at its level, under its parent and with the state of its arrow.
\<close>

theorem flat_tree_shows_visible:
  assumes "tree_ok s h H" "H + 2 < n"
  shows "\<exists>rows. create_flat_tree n cfg [] [] (bs_root s) (bs_children s) (bs_open s) None 0 = Some rows \<and>
    {r \<in> set rows. \<exists>it. tr_entry r = Item_Row it} =
      {\<lparr>tr_entry = Item_Row it, tr_level = l, tr_open = (jo_get (bs_open s) (vi_uid it) = Some True), tr_parent = q\<rparr> | it l q.
        visible s it l q}"
proof -
  have "below s None 0 it l q \<longleftrightarrow> visible s it l q" for it l q
  proof
    show "below s None 0 it l q \<Longrightarrow> visible s it l q"
      by (erule below_visible [OF assms(1)]) (simp add: view_items_loaded truthy_def visible_root)
  qed (rule visible_below [OF assms(1)])
  moreover have "case truthy None of None \<Rightarrow> H + 2 < n | Some w \<Rightarrow> view_items s None \<noteq> [] \<longrightarrow> h w + 1 < n"
    using assms(2) by (simp add: truthy_def)
  ultimately show ?thesis
    using create_flat_tree_rows [OF assms(1), of n None cfg 0] assms(2)
    by (simp add: item_rows_def item_row_def is_open_def)
qed

lemma flat_tree_shows_visible_witness:
  "\<exists>rows. create_flat_tree 3 sample_config [] [] (bs_root sample_tree) (bs_children sample_tree) (bs_open sample_tree) None 0 = Some rows \<and>
     \<lparr>tr_entry = Item_Row (sample_item Folder ''f'' None), tr_level = 0, tr_open = False, tr_parent = None\<rparr> \<in> set rows"
proof -
  have "0 + 2 < (3 :: nat)" by simp
  from flat_tree_shows_visible [OF sample_tree_ok this, of sample_config] obtain rows where
    rows: "create_flat_tree 3 sample_config [] [] (bs_root sample_tree) (bs_children sample_tree) (bs_open sample_tree) None 0 = Some rows"
    "{r \<in> set rows. \<exists>it. tr_entry r = Item_Row it} =
      {\<lparr>tr_entry = Item_Row it, tr_level = l, tr_open = (jo_get (bs_open sample_tree) (vi_uid it) = Some True), tr_parent = q\<rparr> | it l q.
        visible sample_tree it l q}"
    by blast
  have "visible sample_tree (sample_item Folder ''f'' None) 0 None"
    by (rule visible_root) (simp add: sample_loaded)
  moreover have "jo_get (bs_open sample_tree) ''f'' = None" by (simp add: sample_tree_eq jo_get_def)
  ultimately have "\<lparr>tr_entry = Item_Row (sample_item Folder ''f'' None), tr_level = 0, tr_open = False, tr_parent = None\<rparr> \<in>
      {r \<in> set rows. \<exists>it. tr_entry r = Item_Row it}"
    unfolding rows(2) by (force simp: sample_item_def)
  with rows(1) show ?thesis by blast
qed

end
