(* ===== verification/Graphite_Lexer.thy ===== *)
theory Graphite_Lexer
  imports Js_String Js_Object
begin

text \<open>
  The lexer of Graphite queries, \<open>public/app/plugins/datasource/graphite/lexer.ts\<close>. A scanner looks at the
  rest of the input and answers with a token or with nothing; where the source keeps an index into the
  input, the model keeps the text read and the text that is left. Characters are those of the development
  (Latin-1); the table of letters is the whole table of the source, since an escape in an identifier may
  name any of its codes.
\<close>

section \<open>Tokens\<close>

text \<open>The base of a number token, which nothing reads, is left out; a field the source leaves out is \<open>False\<close>, empty or \<open>None\<close>.\<close>

datatype token_type =
    T_Punctuator char
  | T_Number
  | T_Identifier
  | T_Bool
  | T_String
  | T_Template_Start
  | T_Template_End

record token =
  tk_type :: token_type
  tk_value :: string
  tk_pos :: "nat option"
  tk_malformed :: bool
  tk_unclosed :: bool
  tk_quote :: string

text \<open>What is left of the input, the position of its first character, and where the last token began.\<close>

record lexer =
  lx_input :: string
  lx_char :: nat
  lx_from :: nat

definition new_lexer :: "string \<Rightarrow> lexer" where
  "new_lexer expression = \<lparr>lx_input = expression, lx_char = 1, lx_from = 1\<rparr>"

text \<open>The source skips one character where it is told none; it is never told zero.\<close>

definition skip :: "nat \<Rightarrow> lexer \<Rightarrow> lexer" where
  "skip i lx = lx\<lparr>lx_char := lx_char lx + i, lx_input := drop i (lx_input lx)\<rparr>"

definition simple_token :: "token_type \<Rightarrow> string \<Rightarrow> nat \<Rightarrow> token" where
  "simple_token t v p = \<lparr>tk_type = t, tk_value = v, tk_pos = Some p, tk_malformed = False, tk_unclosed = False, tk_quote = []\<rparr>"

section \<open>Letters and digits\<close>

definition unicode_letter_table :: "nat list" where
  "unicode_letter_table = [
   170, 170, 181, 181, 186, 186, 192, 214, 216, 246, 248, 705, 710, 721, 736, 740, 748, 748, 750, 750, 880, 884, 886,
   887, 890, 893, 902, 902, 904, 906, 908, 908, 910, 929, 931, 1013, 1015, 1153, 1162, 1319, 1329, 1366, 1369, 1369,
   1377, 1415, 1488, 1514, 1520, 1522, 1568, 1610, 1646, 1647, 1649, 1747, 1749, 1749, 1765, 1766, 1774, 1775, 1786,
   1788, 1791, 1791, 1808, 1808, 1810, 1839, 1869, 1957, 1969, 1969, 1994, 2026, 2036, 2037, 2042, 2042, 2048, 2069,
   2074, 2074, 2084, 2084, 2088, 2088, 2112, 2136, 2308, 2361, 2365, 2365, 2384, 2384, 2392, 2401, 2417, 2423, 2425,
   2431, 2437, 2444, 2447, 2448, 2451, 2472, 2474, 2480, 2482, 2482, 2486, 2489, 2493, 2493, 2510, 2510, 2524, 2525,
   2527, 2529, 2544, 2545, 2565, 2570, 2575, 2576, 2579, 2600, 2602, 2608, 2610, 2611, 2613, 2614, 2616, 2617, 2649,
   2652, 2654, 2654, 2674, 2676, 2693, 2701, 2703, 2705, 2707, 2728, 2730, 2736, 2738, 2739, 2741, 2745, 2749, 2749,
   2768, 2768, 2784, 2785, 2821, 2828, 2831, 2832, 2835, 2856, 2858, 2864, 2866, 2867, 2869, 2873, 2877, 2877, 2908,
   2909, 2911, 2913, 2929, 2929, 2947, 2947, 2949, 2954, 2958, 2960, 2962, 2965, 2969, 2970, 2972, 2972, 2974, 2975,
   2979, 2980, 2984, 2986, 2990, 3001, 3024, 3024, 3077, 3084, 3086, 3088, 3090, 3112, 3114, 3123, 3125, 3129, 3133,
   3133, 3160, 3161, 3168, 3169, 3205, 3212, 3214, 3216, 3218, 3240, 3242, 3251, 3253, 3257, 3261, 3261, 3294, 3294,
   3296, 3297, 3313, 3314, 3333, 3340, 3342, 3344, 3346, 3386, 3389, 3389, 3406, 3406, 3424, 3425, 3450, 3455, 3461,
   3478, 3482, 3505, 3507, 3515, 3517, 3517, 3520, 3526, 3585, 3632, 3634, 3635, 3648, 3654, 3713, 3714, 3716, 3716,
   3719, 3720, 3722, 3722, 3725, 3725, 3732, 3735, 3737, 3743, 3745, 3747, 3749, 3749, 3751, 3751, 3754, 3755, 3757,
   3760, 3762, 3763, 3773, 3773, 3776, 3780, 3782, 3782, 3804, 3805, 3840, 3840, 3904, 3911, 3913, 3948, 3976, 3980,
   4096, 4138, 4159, 4159, 4176, 4181, 4186, 4189, 4193, 4193, 4197, 4198, 4206, 4208, 4213, 4225, 4238, 4238, 4256,
   4293, 4304, 4346, 4348, 4348, 4352, 4680, 4682, 4685, 4688, 4694, 4696, 4696, 4698, 4701, 4704, 4744, 4746, 4749,
   4752, 4784, 4786, 4789, 4792, 4798, 4800, 4800, 4802, 4805, 4808, 4822, 4824, 4880, 4882, 4885, 4888, 4954, 4992,
   5007, 5024, 5108, 5121, 5740, 5743, 5759, 5761, 5786, 5792, 5866, 5870, 5872, 5888, 5900, 5902, 5905, 5920, 5937,
   5952, 5969, 5984, 5996, 5998, 6000, 6016, 6067, 6103, 6103, 6108, 6108, 6176, 6263, 6272, 6312, 6314, 6314, 6320,
   6389, 6400, 6428, 6480, 6509, 6512, 6516, 6528, 6571, 6593, 6599, 6656, 6678, 6688, 6740, 6823, 6823, 6917, 6963,
   6981, 6987, 7043, 7072, 7086, 7087, 7104, 7141, 7168, 7203, 7245, 7247, 7258, 7293, 7401, 7404, 7406, 7409, 7424,
   7615, 7680, 7957, 7960, 7965, 7968, 8005, 8008, 8013, 8016, 8023, 8025, 8025, 8027, 8027, 8029, 8029, 8031, 8061,
   8064, 8116, 8118, 8124, 8126, 8126, 8130, 8132, 8134, 8140, 8144, 8147, 8150, 8155, 8160, 8172, 8178, 8180, 8182,
   8188, 8305, 8305, 8319, 8319, 8336, 8348, 8450, 8450, 8455, 8455, 8458, 8467, 8469, 8469, 8473, 8477, 8484, 8484,
   8486, 8486, 8488, 8488, 8490, 8493, 8495, 8505, 8508, 8511, 8517, 8521, 8526, 8526, 8544, 8584, 11264, 11310,
   11312, 11358, 11360, 11492, 11499, 11502, 11520, 11557, 11568, 11621, 11631, 11631, 11648, 11670, 11680, 11686,
   11688, 11694, 11696, 11702, 11704, 11710, 11712, 11718, 11720, 11726, 11728, 11734, 11736, 11742, 11823, 11823,
   12293, 12295, 12321, 12329, 12337, 12341, 12344, 12348, 12353, 12438, 12445, 12447, 12449, 12538, 12540, 12543,
   12549, 12589, 12593, 12686, 12704, 12730, 12784, 12799, 13312, 13312, 19893, 19893, 19968, 19968, 40907, 40907,
   40960, 42124, 42192, 42237, 42240, 42508, 42512, 42527, 42538, 42539, 42560, 42606, 42623, 42647, 42656, 42735,
   42775, 42783, 42786, 42888, 42891, 42894, 42896, 42897, 42912, 42921, 43002, 43009, 43011, 43013, 43015, 43018,
   43020, 43042, 43072, 43123, 43138, 43187, 43250, 43255, 43259, 43259, 43274, 43301, 43312, 43334, 43360, 43388,
   43396, 43442, 43471, 43471, 43520, 43560, 43584, 43586, 43588, 43595, 43616, 43638, 43642, 43642, 43648, 43695,
   43697, 43697, 43701, 43702, 43705, 43709, 43712, 43712, 43714, 43714, 43739, 43741, 43777, 43782, 43785, 43790,
   43793, 43798, 43808, 43814, 43816, 43822, 43968, 44002, 44032, 44032, 55203, 55203, 55216, 55238, 55243, 55291,
   63744, 64045, 64048, 64109, 64112, 64217, 64256, 64262, 64275, 64279, 64285, 64285, 64287, 64296, 64298, 64310,
   64312, 64316, 64318, 64318, 64320, 64321, 64323, 64324, 64326, 64433, 64467, 64829, 64848, 64911, 64914, 64967,
   65008, 65019, 65136, 65140, 65142, 65276, 65313, 65338, 65345, 65370, 65382, 65470, 65474, 65479, 65482, 65487,
   65490, 65495, 65498, 65500, 65536, 65547, 65549, 65574, 65576, 65594, 65596, 65597, 65599, 65613, 65616, 65629,
   65664, 65786, 65856, 65908, 66176, 66204, 66208, 66256, 66304, 66334, 66352, 66378, 66432, 66461, 66464, 66499,
   66504, 66511, 66513, 66517, 66560, 66717, 67584, 67589, 67592, 67592, 67594, 67637, 67639, 67640, 67644, 67644,
   67647, 67669, 67840, 67861, 67872, 67897, 68096, 68096, 68112, 68115, 68117, 68119, 68121, 68147, 68192, 68220,
   68352, 68405, 68416, 68437, 68448, 68466, 68608, 68680, 69635, 69687, 69763, 69807, 73728, 74606, 74752, 74850,
   77824, 78894, 92160, 92728, 110592, 110593, 119808, 119892, 119894, 119964, 119966, 119967, 119970, 119970,
   119973, 119974, 119977, 119980, 119982, 119993, 119995, 119995, 119997, 120003, 120005, 120069, 120071, 120074,
   120077, 120084, 120086, 120092, 120094, 120121, 120123, 120126, 120128, 120132, 120134, 120134, 120138, 120144,
   120146, 120485, 120488, 120512, 120514, 120538, 120540, 120570, 120572, 120596, 120598, 120628, 120630, 120654,
   120656, 120686, 120688, 120712, 120714, 120744, 120746, 120770, 120772, 120779, 131072, 131072, 173782, 173782,
   173824, 173824, 177972, 177972, 177984, 177984, 178205, 178205, 194560, 195101]"

text \<open>The table is a list of ranges, lower and upper bound in turn.\<close>

fun is_unicode_letter_in :: "nat list \<Rightarrow> nat \<Rightarrow> bool" where
  "is_unicode_letter_in (lo # hi # rest) code =
     (if code < lo then False else if code \<le> hi then True else is_unicode_letter_in rest code)"
| "is_unicode_letter_in _ code = False"

definition is_unicode_letter :: "nat \<Rightarrow> bool" where
  "is_unicode_letter code = is_unicode_letter_in unicode_letter_table code"

definition identifier_start_table :: "nat \<Rightarrow> bool" where
  "identifier_start_table i \<longleftrightarrow>
     (48 \<le> i \<and> i \<le> 57) \<or> i = 36 \<or> i = 126 \<or> i = 124 \<or> (65 \<le> i \<and> i \<le> 90) \<or> i = 95 \<or> i = 45 \<or> i = 42 \<or> i = 58 \<or>
     i = 91 \<or> i = 93 \<or> i = 63 \<or> i = 37 \<or> i = 35 \<or> i = 61 \<or> i = 64 \<or> (97 \<le> i \<and> i \<le> 122)"

definition identifier_part_table :: "nat \<Rightarrow> bool" where
  "identifier_part_table = identifier_start_table"

definition is_octal_digit :: "char \<Rightarrow> bool" where
  "is_octal_digit c \<longleftrightarrow> (48 :: nat) \<le> of_char c \<and> of_char c \<le> (55 :: nat)"

definition is_hex_digit :: "char \<Rightarrow> bool" where
  "is_hex_digit c \<longleftrightarrow>
     is_digit c \<or> (97 :: nat) \<le> of_char c \<and> of_char c \<le> (102 :: nat) \<or> (65 :: nat) \<le> of_char c \<and> of_char c \<le> (70 :: nat)"

definition hex_value :: "char \<Rightarrow> nat" where
  "hex_value c =
     (let n = of_char c in if n \<le> 57 then n - 48 else if n \<le> 70 then n - 55 else n - 87)"

definition hex_code :: "string \<Rightarrow> nat" where
  "hex_code s = fold (\<lambda>c n. n * 16 + hex_value c) s 0"

definition is_identifier_start :: "char \<Rightarrow> bool" where
  "is_identifier_start c \<longleftrightarrow>
     c = CHR ''$'' \<or> c = CHR ''_'' \<or> c = CHR 0x5C \<or> (97 :: nat) \<le> of_char c \<and> of_char c \<le> (122 :: nat) \<or>
     (65 :: nat) \<le> of_char c \<and> of_char c \<le> (90 :: nat)"

definition is_punctuator :: "char \<Rightarrow> bool" where
  "is_punctuator c \<longleftrightarrow> c \<in> {CHR ''.'', CHR ''('', CHR '')'', CHR '','', CHR ''{'', CHR ''}''}"

section \<open>Identifiers\<close>

text \<open>How many characters the next piece of an identifier has, or 0: an escape has six.\<close>

definition read_unicode_escape :: "string \<Rightarrow> nat" where
  "read_unicode_escape s =
     (case s of
        b # u # c1 # c2 # c3 # c4 # _ \<Rightarrow>
          if u = CHR ''u'' \<and> is_hex_digit c1 \<and> is_hex_digit c2 \<and> is_hex_digit c3 \<and> is_hex_digit c4 \<and>
             is_unicode_letter (hex_code [c1, c2, c3, c4])
          then 6 else 0
      | _ \<Rightarrow> 0)"

definition identifier_part :: "(nat \<Rightarrow> bool) \<Rightarrow> string \<Rightarrow> nat" where
  "identifier_part table s =
     (case s of
        [] \<Rightarrow> 0
      | c # _ \<Rightarrow>
          if c = CHR 0x5C then read_unicode_escape s
          else if (of_char c :: nat) < 128 then (if table (of_char c) then 1 else 0)
          else if is_unicode_letter (of_char c) then 1 else 0)"

definition get_identifier_start :: "string \<Rightarrow> nat" where
  "get_identifier_start s =
     (if s \<noteq> [] \<and> hd s = CHR ''*'' then 1 else identifier_part identifier_start_table s)"

definition get_identifier_part :: "string \<Rightarrow> nat" where
  "get_identifier_part s = identifier_part identifier_part_table s"

lemma identifier_part_bound: "identifier_part table s \<le> length s"
  by (auto simp: identifier_part_def read_unicode_escape_def split: list.splits)

function identifier_rest :: "string \<Rightarrow> string" where
  "identifier_rest s =
     (let n = get_identifier_part s in if n = 0 then [] else take n s @ identifier_rest (drop n s))"
  by pat_completeness auto
termination
proof (relation "measure length")
  fix s :: string and n
  assume "n = get_identifier_part s" "n \<noteq> 0"
  then show "(drop n s, s) \<in> measure length"
    using identifier_part_bound [of identifier_part_table s] by (simp add: get_identifier_part_def)
qed simp

declare identifier_rest.simps [simp del]

definition scan_identifier :: "lexer \<Rightarrow> token option" where
  "scan_identifier lx =
     (let s = lx_input lx; n = get_identifier_start s in
      if n = 0 then None
      else let ident = take n s @ identifier_rest (drop n s) in
           Some (simple_token (if ident = ''true'' \<or> ident = ''false'' then T_Bool else T_Identifier) ident (lx_char lx)))"

section \<open>Template brackets and punctuators\<close>

definition scan_template_sequence :: "lexer \<Rightarrow> token option" where
  "scan_template_sequence lx =
     (if take 2 (lx_input lx) = ''[['' then Some (simple_token T_Template_Start ''[['' (lx_char lx))
      else if take 2 (lx_input lx) = '']]'' then Some (simple_token T_Template_End ''[['' (lx_char lx))
      else None)"

definition scan_punctuator :: "lexer \<Rightarrow> token option" where
  "scan_punctuator lx =
     (case lx_input lx of
        c # _ \<Rightarrow> if is_punctuator c then Some (simple_token (T_Punctuator c) [c] (lx_char lx)) else None
      | [] \<Rightarrow> None)"

section \<open>Numbers\<close>

text \<open>
  The number a decimal text stands for, as digits and a power of ten, and whether JavaScript reads it as
  a finite number: it has a digit, and rounds to a double below \<open>2 ^ 1024\<close>.
\<close>

record decimal =
  dc_negative :: bool
  dc_digits :: nat
  dc_exponent :: int

definition read_decimal :: "string \<Rightarrow> decimal option" where
  "read_decimal s =
     (let neg = (s \<noteq> [] \<and> hd s = CHR ''-''); s = (if neg then tl s else s);
          whole = takeWhile is_digit s; s = dropWhile is_digit s;
          dot = (s \<noteq> [] \<and> hd s = CHR ''.'');
          fraction = (if dot then takeWhile is_digit (tl s) else []);
          s = (if dot then dropWhile is_digit (tl s) else s);
          e = (s \<noteq> [] \<and> hd s \<in> {CHR ''e'', CHR ''E''}); t = tl s;
          minus = (e \<and> t \<noteq> [] \<and> hd t = CHR ''-'');
          t = (if e \<and> t \<noteq> [] \<and> hd t \<in> {CHR ''+'', CHR ''-''} then tl t else t);
          power = (if e then int (nat_of_digits (takeWhile is_digit t)) else 0)
      in if whole @ fraction = [] then None
         else Some \<lparr>dc_negative = neg, dc_digits = nat_of_digits (whole @ fraction),
                dc_exponent = (if minus then - power else power) - int (length fraction)\<rparr>)"

definition decimal_finite :: "decimal \<Rightarrow> bool" where
  "decimal_finite d \<longleftrightarrow>
     (let bound = 2 ^ 1024 - 2 ^ 970 in
      if 0 \<le> dc_exponent d then dc_digits d * 10 ^ nat (dc_exponent d) < bound
      else dc_digits d < bound * 10 ^ nat (- dc_exponent d))"

definition is_finite_text :: "string \<Rightarrow> bool" where
  "is_finite_text s = (case read_decimal s of None \<Rightarrow> False | Some d \<Rightarrow> decimal_finite d)"

definition number_token :: "string \<Rightarrow> bool \<Rightarrow> nat option \<Rightarrow> token" where
  "number_token v bad p = \<lparr>tk_type = T_Number, tk_value = v, tk_pos = p, tk_malformed = bad, tk_unclosed = False, tk_quote = []\<rparr>"

text \<open>After \<open>0x\<close>: the digits, and no start of an identifier behind them.\<close>

definition scan_hex :: "string \<Rightarrow> string \<Rightarrow> nat \<Rightarrow> token option" where
  "scan_hex value s p =
     (let digits = takeWhile is_hex_digit s; rest = dropWhile is_hex_digit s in
      if digits = [] then Some (number_token value True (Some p))
      else if rest \<noteq> [] \<and> is_identifier_start (hd rest) then None
      else Some (number_token (value @ digits) False (Some p)))"

text \<open>After two octal digits: any further digit marks the number as malformed.\<close>

definition scan_octal :: "string \<Rightarrow> string \<Rightarrow> token option" where
  "scan_octal value s =
     (let digits = takeWhile is_octal_digit s; rest = dropWhile is_octal_digit s in
      if rest \<noteq> [] \<and> \<not> is_punctuator (hd rest) then None
      else Some (number_token (value @ digits) (digits \<noteq> []) None))"

definition scan_exponent :: "string \<Rightarrow> string \<Rightarrow> (string \<times> string) option" where
  "scan_exponent value s =
     (case s of
        e # s' \<Rightarrow>
          if e = CHR ''e'' \<or> e = CHR ''E''
          then let sgn = (if s' \<noteq> [] \<and> hd s' \<in> {CHR ''+'', CHR ''-''} then [hd s'] else []);
                   s'' = drop (length sgn) s'; digits = takeWhile is_digit s''
               in if digits = [] then None else Some (value @ [e] @ sgn @ digits, dropWhile is_digit s'')
          else Some (value, s)
      | [] \<Rightarrow> Some (value, s))"

definition scan_fraction :: "string \<Rightarrow> string \<Rightarrow> string \<times> string" where
  "scan_fraction value s =
     (case s of
        c # s' \<Rightarrow> if c = CHR ''.'' then (value @ [c] @ takeWhile is_digit s', dropWhile is_digit s') else (value, s)
      | [] \<Rightarrow> (value, s))"

definition scan_decimal :: "string \<Rightarrow> string \<Rightarrow> nat \<Rightarrow> token option" where
  "scan_decimal value s p =
     (case scan_fraction value s of (value, s) \<Rightarrow>
      (case scan_exponent value s of
         None \<Rightarrow> None
       | Some (value, s) \<Rightarrow>
           if s \<noteq> [] \<and> \<not> is_punctuator (hd s) then None
           else Some (number_token value (\<not> is_finite_text value) (Some p))))"

definition scan_digits :: "string \<Rightarrow> string \<Rightarrow> nat \<Rightarrow> token option" where
  "scan_digits value s p = scan_decimal (value @ takeWhile is_digit s) (dropWhile is_digit s) p"

definition scan_numeric_literal :: "lexer \<Rightarrow> token option" where
  "scan_numeric_literal lx =
     (let neg = (lx_input lx \<noteq> [] \<and> hd (lx_input lx) = CHR ''-'');
          sgn = (if neg then ''-'' else []); s = (if neg then tl (lx_input lx) else lx_input lx); p = lx_char lx
      in case s of
           [] \<Rightarrow> None
         | c # s' \<Rightarrow>
             if c \<noteq> CHR ''.'' \<and> \<not> is_digit c then None
             else if c = CHR ''.'' then scan_decimal sgn s p
             else let value = sgn @ [c] in
               if value = ''0'' \<and> s' \<noteq> [] \<and> hd s' \<in> {CHR ''x'', CHR ''X''} then scan_hex (value @ [hd s']) (tl s') p
               else if value = ''0'' \<and> s' \<noteq> [] \<and> is_octal_digit (hd s') then scan_octal (value @ [hd s']) (tl s')
               else scan_digits value s' p)"

section \<open>Strings\<close>

text \<open>A string moves the position; its token carries the position behind it.\<close>

definition scan_string_literal :: "lexer \<Rightarrow> (token \<times> lexer) option" where
  "scan_string_literal lx =
     (case lx_input lx of
        [] \<Rightarrow> None
      | q # s \<Rightarrow>
          if q \<noteq> CHR 0x22 \<and> q \<noteq> CHR 0x27 then None
          else let value = takeWhile (\<lambda>c. c \<noteq> q) s; unclosed = (q \<notin> set s);
                   lx' = skip (1 + length value + (if unclosed then 0 else 1)) lx
               in Some (\<lparr>tk_type = T_String, tk_value = value, tk_pos = Some (lx_char lx'), tk_malformed = False,
                         tk_unclosed = unclosed, tk_quote = [q]\<rparr>, lx'))"

section \<open>The next token\<close>

definition skip_spaces :: "lexer \<Rightarrow> lexer" where
  "skip_spaces lx =
     (let n = length (takeWhile is_space (lx_input lx)) in (skip n lx)\<lparr>lx_from := lx_char lx + n\<rparr>)"

definition or_else :: "'a option \<Rightarrow> 'a option \<Rightarrow> 'a option" where
  "or_else a b = (case a of Some _ \<Rightarrow> a | None \<Rightarrow> b)"

definition next_token :: "lexer \<Rightarrow> (token \<times> lexer) option" where
  "next_token lx =
     (let lx = skip_spaces lx in
      case scan_string_literal lx of
        Some r \<Rightarrow> Some r
      | None \<Rightarrow>
          map_option (\<lambda>t. (t, skip (length (tk_value t)) lx))
            (or_else (scan_punctuator lx) (or_else (scan_numeric_literal lx)
               (or_else (scan_identifier lx) (scan_template_sequence lx)))))"

section \<open>What a token covers\<close>

definition token_text :: "token \<Rightarrow> string" where
  "token_text t =
     (if tk_type t = T_String then tk_quote t @ tk_value t @ (if tk_unclosed t then [] else tk_quote t) else tk_value t)"

text \<open>The position of a token is that of its first character; of a string, that behind its last.\<close>

definition token_at :: "nat \<Rightarrow> token \<Rightarrow> bool" where
  "token_at p t \<longleftrightarrow>
     (case tk_pos t of
        None \<Rightarrow> True
      | Some q \<Rightarrow> q = (if tk_type t = T_String then p + length (token_text t) else p))"

text \<open>A scanner that answers covers a first part of the input, and starts where the input does.\<close>

definition covers :: "lexer \<Rightarrow> token \<Rightarrow> bool" where
  "covers lx t \<longleftrightarrow>
     tk_type t \<notin> {T_String, T_Template_Start, T_Template_End} \<and> tk_value t \<noteq> [] \<and> tk_pos t \<in> {None, Some (lx_char lx)} \<and>
     (\<exists>rest. lx_input lx = tk_value t @ rest)"

lemma identifier_rest_prefix: "\<exists>rest. s = identifier_rest s @ rest"
proof (induction s rule: identifier_rest.induct)
  case (1 s)
  let ?n = "get_identifier_part s"
  show ?case
  proof (cases "?n = 0")
    case True
    then show ?thesis by (subst identifier_rest.simps) simp
  next
    case False
    with 1 obtain rest where "drop ?n s = identifier_rest (drop ?n s) @ rest" by auto
    then have "s = (take ?n s @ identifier_rest (drop ?n s)) @ rest" by (metis append.assoc append_take_drop_id)
    with False show ?thesis by (subst identifier_rest.simps) (auto simp: Let_def)
  qed
qed

lemma scan_identifier_covers: "scan_identifier lx = Some t \<Longrightarrow> covers lx t"
proof -
  assume t: "scan_identifier lx = Some t"
  let ?s = "lx_input lx" and ?n = "get_identifier_start (lx_input lx)"
  have "?n \<le> length ?s" using identifier_part_bound [of identifier_start_table ?s]
    by (cases ?s) (auto simp: get_identifier_start_def)
  obtain rest where "drop ?n ?s = identifier_rest (drop ?n ?s) @ rest" using identifier_rest_prefix by blast
  define ident where "ident = take ?n ?s @ identifier_rest (drop ?n ?s)"
  have "?s = take ?n ?s @ identifier_rest (drop ?n ?s) @ rest"
    using \<open>drop ?n ?s = _ @ rest\<close> by (metis append_take_drop_id)
  then have rest: "?s = ident @ rest" by (simp add: ident_def)
  have n: "?n \<noteq> 0" and "t = simple_token (if ident = ''true'' \<or> ident = ''false'' then T_Bool else T_Identifier) ident (lx_char lx)"
    using t unfolding scan_identifier_def Let_def ident_def by (auto split: if_split_asm)
  moreover have "ident \<noteq> []" using n \<open>?n \<le> length ?s\<close> by (auto simp: ident_def)
  ultimately show ?thesis using rest by (simp add: covers_def simple_token_def)
qed

lemma scan_punctuator_covers: "scan_punctuator lx = Some t \<Longrightarrow> covers lx t"
  by (auto simp: scan_punctuator_def covers_def simple_token_def split: list.splits if_splits)

definition number_covers :: "string \<Rightarrow> nat \<Rightarrow> token \<Rightarrow> bool" where
  "number_covers s p t \<longleftrightarrow> tk_type t = T_Number \<and> tk_value t \<noteq> [] \<and> tk_pos t \<in> {None, Some p} \<and> (\<exists>rest. s = tk_value t @ rest)"

lemma scan_hex_covers: "scan_hex v s p = Some t \<Longrightarrow> v \<noteq> [] \<Longrightarrow> number_covers (v @ s) p t"
  by (auto simp: scan_hex_def number_covers_def number_token_def Let_def split: if_splits)
     (metis takeWhile_dropWhile_id)+

lemma scan_octal_covers: "scan_octal v s = Some t \<Longrightarrow> v \<noteq> [] \<Longrightarrow> number_covers (v @ s) p t"
  by (auto simp: scan_octal_def number_covers_def number_token_def Let_def split: if_splits)
     (metis takeWhile_dropWhile_id)+

lemma scan_exponent_prefix:
  assumes "scan_exponent v s = Some (v', s')"
  shows "v' @ s' = v @ s \<and> length v \<le> length v'"
proof (cases s)
  case (Cons e r)
  let ?g = "if r \<noteq> [] \<and> hd r \<in> {CHR ''+'', CHR ''-''} then [hd r] else []"
  have "?g @ drop (length ?g) r = r" by (cases r) auto
  moreover have "takeWhile is_digit (drop (length ?g) r) @ dropWhile is_digit (drop (length ?g) r) = drop (length ?g) r" by simp
  ultimately show ?thesis
    using assms Cons unfolding scan_exponent_def Let_def list.case
    by (auto split: if_splits) 
qed (use assms in \<open>auto simp: scan_exponent_def\<close>)

lemma scan_fraction_prefix:
  assumes "scan_fraction v s = (v', s')"
  shows "v' @ s' = v @ s \<and> length v \<le> length v' \<and> (s \<noteq> [] \<and> hd s = CHR ''.'' \<longrightarrow> v' \<noteq> [])"
  using assms by (cases s) (auto simp: scan_fraction_def split: if_splits)

lemma scan_decimal_covers:
  assumes "scan_decimal v s p = Some t" "v \<noteq> [] \<or> s \<noteq> [] \<and> hd s = CHR ''.''"
  shows "number_covers (v @ s) p t"
proof -
  obtain v1 s1 where 1: "scan_fraction v s = (v1, s1)" by (cases "scan_fraction v s")
  with assms(1) obtain v2 s2 where 2: "scan_exponent v1 s1 = Some (v2, s2)" "t = number_token v2 (\<not> is_finite_text v2) (Some p)"
    by (auto simp: scan_decimal_def split: option.splits if_splits)
  from scan_fraction_prefix [OF 1] scan_exponent_prefix [OF 2(1)] assms(2) have "v2 @ s2 = v @ s" "v2 \<noteq> []" by auto
  with 2(2) show ?thesis by (auto simp: number_covers_def number_token_def intro: sym)
qed

lemma scan_digits_covers: "scan_digits v s p = Some t \<Longrightarrow> v \<noteq> [] \<Longrightarrow> number_covers (v @ s) p t"
  unfolding scan_digits_def by (drule scan_decimal_covers) auto

lemma scan_numeric_covers:
  assumes "scan_numeric_literal lx = Some t"
  shows "covers lx t"
proof -
  define sgn where "sgn = (if lx_input lx \<noteq> [] \<and> hd (lx_input lx) = CHR ''-'' then ''-'' else [])"
  define s where "s = (if lx_input lx \<noteq> [] \<and> hd (lx_input lx) = CHR ''-'' then tl (lx_input lx) else lx_input lx)"
  have s: "lx_input lx = sgn @ s" by (cases "lx_input lx") (auto simp: sgn_def s_def)
  have "number_covers (sgn @ s) (lx_char lx) t"
  proof (cases s)
    case Nil
    then show ?thesis using assms by (simp add: scan_numeric_literal_def Let_def flip: s_def)
  next
    case (Cons c r)
    show ?thesis
    proof (cases "c = CHR ''.''")
      case True
      then have "scan_decimal sgn s (lx_char lx) = Some t"
        using assms Cons by (simp add: scan_numeric_literal_def Let_def flip: s_def sgn_def)
      then show ?thesis by (rule scan_decimal_covers) (simp add: Cons True)
    next
      case False
      have r: "r \<noteq> [] \<Longrightarrow> [hd r] @ tl r = r" by simp
      from assms Cons False consider
          "scan_hex ((sgn @ [c]) @ [hd r]) (tl r) (lx_char lx) = Some t" "r \<noteq> []"
        | "scan_octal ((sgn @ [c]) @ [hd r]) (tl r) = Some t" "r \<noteq> []"
        | "scan_digits (sgn @ [c]) r (lx_char lx) = Some t"
        by (simp add: scan_numeric_literal_def Let_def flip: s_def sgn_def split: if_splits)
      then show ?thesis
        using Cons r by cases (auto dest!: scan_hex_covers scan_octal_covers [where p = "lx_char lx"] scan_digits_covers)
    qed
  qed
  with s show ?thesis by (auto simp: number_covers_def covers_def)
qed

lemma split_at_quote:
  "q \<in> set s \<Longrightarrow> s = takeWhile (\<lambda>c. c \<noteq> q) s @ q # drop (Suc (length (takeWhile (\<lambda>c. c \<noteq> q) s))) s"
  by (induction s) auto

lemma no_space_left: "takeWhile is_space (dropWhile is_space s) = []"
  by (induction s) auto

lemma scan_string_split:
  assumes "scan_string_literal lx = Some (t, lx')"
  shows "tk_type t = T_String \<and> lx_input lx = token_text t @ lx_input lx' \<and>
    lx_char lx' = lx_char lx + length (token_text t) \<and> tk_pos t = Some (lx_char lx') \<and> token_text t \<noteq> []"
proof (cases "lx_input lx")
  case Nil
  with assms show ?thesis by (simp add: scan_string_literal_def)
next
  case (Cons q s)
  let ?v = "takeWhile (\<lambda>c. c \<noteq> q) s"
  have s: "s = ?v @ (if q \<in> set s then q # drop (Suc (length ?v)) s else [])"
  proof (cases "q \<in> set s")
    case True
    with split_at_quote [OF True] show ?thesis by (simp only: if_True)
  next
    case False
    then have "?v = s" by (auto simp: takeWhile_eq_all_conv)
    with False show ?thesis by (simp only: if_False append_Nil2)
  qed
  have q: "q = CHR 0x22 \<or> q = CHR 0x27" using assms Cons by (auto simp: scan_string_literal_def split: if_splits)
  have "drop (length ?v) s = []" if "q \<notin> set s"
  proof -
    from that have "?v = s" by (auto simp: takeWhile_eq_all_conv)
    then show ?thesis by (simp only: drop_all order_refl)
  qed
  with assms Cons q s show ?thesis
    by (auto simp: scan_string_literal_def skip_def token_text_def Let_def)
qed

lemma skip_spaces_split:
  "\<exists>gap. list_all is_space gap \<and> lx_input lx = gap @ lx_input (skip_spaces lx) \<and>
     lx_char (skip_spaces lx) = lx_char lx + length gap"
  by (intro exI [of _ "takeWhile is_space (lx_input lx)"])
     (auto simp: skip_spaces_def skip_def Let_def list_all_iff dropWhile_eq_drop [symmetric] dest: set_takeWhileD)

lemma bracket_is_identifier: "identifier_start_table 91" "identifier_start_table 93"
  by (simp_all add: identifier_start_table_def)

lemma no_template_after_identifier: "scan_identifier lx = None \<Longrightarrow> scan_template_sequence lx = None"
  by (cases "lx_input lx")
     (auto simp: scan_identifier_def scan_template_sequence_def get_identifier_start_def identifier_part_def Let_def
       bracket_is_identifier split: if_splits)

text \<open>One step: a gap of blanks, the text of the token, and the rest.\<close>

lemma next_token_split:
  assumes "next_token lx = Some (t, lx')"
  shows "\<exists>gap. list_all is_space gap \<and> lx_input lx = gap @ token_text t @ lx_input lx' \<and> token_text t \<noteq> [] \<and>
    lx_char lx' = lx_char lx + length gap + length (token_text t) \<and> token_at (lx_char lx + length gap) t \<and>
    tk_type t \<notin> {T_Template_Start, T_Template_End}"
proof -
  let ?lx = "skip_spaces lx"
  obtain gap where gap: "list_all is_space gap" "lx_input lx = gap @ lx_input ?lx" "lx_char ?lx = lx_char lx + length gap"
    using skip_spaces_split by blast
  have "lx_input ?lx = token_text t @ lx_input lx' \<and> token_text t \<noteq> [] \<and>
    lx_char lx' = lx_char ?lx + length (token_text t) \<and> token_at (lx_char ?lx) t \<and> tk_type t \<notin> {T_Template_Start, T_Template_End}"
  proof (cases "scan_string_literal ?lx")
    case (Some r)
    with assms have "scan_string_literal ?lx = Some (t, lx')" by (simp add: next_token_def Let_def)
    from scan_string_split [OF this] show ?thesis by (simp add: token_at_def)
  next
    case None
    with assms have t: "or_else (scan_punctuator ?lx) (or_else (scan_numeric_literal ?lx)
        (or_else (scan_identifier ?lx) (scan_template_sequence ?lx))) = Some t" "lx' = skip (length (tk_value t)) ?lx"
      by (auto simp: next_token_def Let_def)
    have "covers ?lx t"
      using t(1) no_template_after_identifier [of ?lx]
      by (auto simp: or_else_def split: option.splits
          intro: scan_punctuator_covers scan_numeric_covers scan_identifier_covers)
    with t(2) show ?thesis by (auto simp: covers_def token_text_def token_at_def skip_def)
  qed
  with gap show ?thesis by (intro exI [of _ gap]) simp
qed

text \<open>Where the last token began plays no part.\<close>

lemma scan_from [simp]:
  "scan_punctuator (lx\<lparr>lx_from := p\<rparr>) = scan_punctuator lx"
  "scan_numeric_literal (lx\<lparr>lx_from := p\<rparr>) = scan_numeric_literal lx"
  "scan_identifier (lx\<lparr>lx_from := p\<rparr>) = scan_identifier lx"
  "scan_template_sequence (lx\<lparr>lx_from := p\<rparr>) = scan_template_sequence lx"
  "scan_string_literal (lx\<lparr>lx_from := p\<rparr>) = None \<longleftrightarrow> scan_string_literal lx = None"
  unfolding scan_punctuator_def scan_numeric_literal_def scan_identifier_def scan_template_sequence_def
    scan_string_literal_def
  by (simp_all add: Let_def split: list.split)

function tokenize :: "lexer \<Rightarrow> token list \<times> lexer" where
  "tokenize lx =
     (case next_token lx of
        None \<Rightarrow> ([], skip_spaces lx)
      | Some (t, lx') \<Rightarrow> (case tokenize lx' of (ts, lx'') \<Rightarrow> (t # ts, lx'')))"
  by pat_completeness auto
termination
proof (relation "measure (\<lambda>lx. length (lx_input lx))")
  fix lx t lx' and r :: "token \<times> lexer"
  assume "next_token lx = Some r" "(t, lx') = r"
  then have "next_token lx = Some (t, lx')" by simp
  from next_token_split [OF this] show "(lx', lx) \<in> measure (\<lambda>lx. length (lx_input lx))" by auto
qed simp

declare tokenize.simps [simp del]

text \<open>
  \<open>laid_out p ts s rest\<close>: the text \<open>s\<close>, whose first character is at position \<open>p\<close>, is the tokens \<open>ts\<close> in
  order, each after a gap of blanks and at its position, and then \<open>rest\<close>.
\<close>

fun laid_out :: "nat \<Rightarrow> token list \<Rightarrow> string \<Rightarrow> string \<Rightarrow> bool" where
  "laid_out p [] s rest \<longleftrightarrow> (\<exists>gap. list_all is_space gap \<and> s = gap @ rest)"
| "laid_out p (t # ts) s rest \<longleftrightarrow>
     (\<exists>gap s'. list_all is_space gap \<and> s = gap @ token_text t @ s' \<and> token_text t \<noteq> [] \<and> token_at (p + length gap) t \<and>
        laid_out (p + length gap + length (token_text t)) ts s' rest)"

lemma tokenize_laid_out:
  "tokenize lx = (ts, lx') \<Longrightarrow> laid_out (lx_char lx) ts (lx_input lx) (lx_input lx') \<and>
     (\<forall>t \<in> set ts. tk_type t \<notin> {T_Template_Start, T_Template_End}) \<and> next_token lx' = None \<and>
     lx_char lx' + length (lx_input lx') = lx_char lx + length (lx_input lx)"
proof (induction lx arbitrary: ts rule: tokenize.induct)
  case (1 lx)
  show ?case
  proof (cases "next_token lx")
    case None
    then have eq: "ts = []" "lx' = skip_spaces lx" using "1.prems" by (simp_all add: tokenize.simps)
    have "skip_spaces (skip_spaces lx) = (skip_spaces lx)\<lparr>lx_from := lx_char (skip_spaces lx)\<rparr>"
      by (simp add: skip_spaces_def skip_def Let_def dropWhile_eq_drop [symmetric] no_space_left)
    moreover from this have "scan_string_literal (skip_spaces (skip_spaces lx)) = None \<longleftrightarrow> scan_string_literal (skip_spaces lx) = None"
      by simp
    ultimately have "next_token (skip_spaces lx) = None"
      using None by (simp add: next_token_def Let_def del: scan_from(5) split: option.splits)
    with eq skip_spaces_split [of lx] show ?thesis by auto
  next
    case (Some r)
    obtain t lx1 where r: "r = (t, lx1)" by (cases r)
    obtain ts1 where ts1: "tokenize lx1 = (ts1, lx')" "ts = t # ts1"
      using "1.prems" Some r by (auto simp: tokenize.simps [of lx] split: prod.splits)
    from next_token_split [of lx t lx1] Some r "1.IH" [OF Some r [symmetric] ts1(1)] ts1(2) show ?thesis by fastforce
  qed
qed

section \<open>Properties\<close>

text \<open>
  Lexing ends on every text and loses nothing but blanks: the tokens cover the text from its first
  character on, each at the position it carries, up to a rest in which no token begins; and no token for
  a template bracket is ever made, since brackets are read as parts of identifiers.
\<close>

theorem tokenize_covers:
  "case tokenize (new_lexer s) of (ts, lx) \<Rightarrow>
     laid_out 1 ts s (lx_input lx) \<and> next_token lx = None \<and>
     lx_char lx + length (lx_input lx) = length s + 1 \<and>
     list_all (\<lambda>t. tk_type t \<notin> {T_Template_Start, T_Template_End}) ts"
  using tokenize_laid_out [of "new_lexer s"]
  by (cases "tokenize (new_lexer s)") (simp add: new_lexer_def list_all_iff)

end
