(* ===== verification/Graphite_Parser.thy ===== *)
theory Graphite_Parser
  imports Graphite_Lexer
begin

text \<open>
  The parser of Graphite queries, \<open>public/app/plugins/datasource/graphite/parser.ts\<close>, on the tokens of the
  lexer. Where the source keeps an index into its tokens, the model keeps the tokens from there on; reading
  past the end finds no token. A thrown parser error is a value with its message and position.

  The calls of functions and parameters take fuel. \<open>parser_fuel\<close> gives enough for the tokens at hand: a token
  counts one more for every number it may be split into.

  A number is kept as its decimal digits and exponent, read as \<open>parseFloat\<close> reads the longest decimal text in
  front; rounding to a double is left out. The value of the dot that a split number leaves in front of its
  fraction, which the source leaves out, is never read.
\<close>

section \<open>Trees\<close>

datatype ast =
    Segment "string option"
  | Template string
  | Metric "ast list"
  | Function string "ast list"
  | Bool_Node bool
  | Number_Node "decimal option"
  | String_Node string
  | Series_Ref string
  | Error_Node string nat

datatype parse_failure = Parse_Error string nat | Out_Of_Fuel

type_synonym 'a parsed = "parse_failure + 'a \<times> token list"

definition parse_bind :: "'a parsed \<Rightarrow> ('a \<Rightarrow> token list \<Rightarrow> 'b parsed) \<Rightarrow> 'b parsed" where
  "parse_bind r f = (case r of Inl e \<Rightarrow> Inl e | Inr (x, ts) \<Rightarrow> f x ts)"

section \<open>Looking at tokens\<close>

definition match_token :: "token_type \<Rightarrow> token list \<Rightarrow> bool" where
  "match_token t ts = (case ts of [] \<Rightarrow> False | u # _ \<Rightarrow> tk_type u = t)"

definition match_two :: "token_type \<Rightarrow> token_type \<Rightarrow> token list \<Rightarrow> bool" where
  "match_two t t' ts \<longleftrightarrow> match_token t ts \<and> match_token t' (drop 1 ts)"

definition type_name :: "token_type \<Rightarrow> string" where
  "type_name t =
     (case t of
        T_Punctuator c \<Rightarrow> [c] | T_Number \<Rightarrow> ''number'' | T_Identifier \<Rightarrow> ''identifier'' | T_Bool \<Rightarrow> ''bool''
      | T_String \<Rightarrow> ''string'' | T_Template_Start \<Rightarrow> ''templateStart'' | T_Template_End \<Rightarrow> ''templateEnd'')"

definition error_mark :: "nat \<Rightarrow> token list \<Rightarrow> string \<Rightarrow> parse_failure" where
  "error_mark final ts msg =
     Parse_Error
       (msg @ '' instead found '' @ (case ts of [] \<Rightarrow> ''end of string'' | t # _ \<Rightarrow> type_name (tk_type t)))
       (case ts of
          t # _ \<Rightarrow> (case tk_pos t of Some p \<Rightarrow> if p \<noteq> 0 then p else final | None \<Rightarrow> final)
        | [] \<Rightarrow> final)"

section \<open>Metrics\<close>

definition starts_curly :: "token list \<Rightarrow> bool" where
  "starts_curly ts \<longleftrightarrow> match_two T_Identifier (T_Punctuator (CHR ''{'')) ts \<or> match_token (T_Punctuator (CHR ''{'')) ts"

definition curly_brace_segment :: "nat \<Rightarrow> token list \<Rightarrow> ast option parsed" where
  "curly_brace_segment final ts =
     (if starts_curly ts
      then let inner = takeWhile (\<lambda>t. tk_type t \<noteq> T_Punctuator (CHR ''}'')) ts;
               rest = dropWhile (\<lambda>t. tk_type t \<noteq> T_Punctuator (CHR ''}'')) ts
           in case rest of
                [] \<Rightarrow> Inl (error_mark final rest (''Expected closing '' @ [CHR 0x27, CHR ''}'', CHR 0x27]))
              | close # rest \<Rightarrow>
                  (let v = concat (map tk_value inner) @ tk_value close in
                   if match_token T_Identifier rest
                   then Inr (Some (Segment (Some (v @ tk_value (hd rest)))), tl rest)
                   else Inr (Some (Segment (Some v)), rest))
      else Inr (None, ts))"

definition dot_token :: token where
  "dot_token =
     \<lparr>tk_type = T_Punctuator (CHR ''.''), tk_value = [], tk_pos = None, tk_malformed = False, tk_unclosed = False, tk_quote = []\<rparr>"

text \<open>The parts of a value between its dots; an empty value has none.\<close>

definition value_parts :: "string \<Rightarrow> string list" where
  "value_parts v = (if v = [] then [] else split_on (CHR ''.'') v)"

definition split_number :: "string \<Rightarrow> token list \<Rightarrow> token list" where
  "split_number v ts =
     (if length (value_parts v) = 2 then dot_token # number_token (value_parts v ! 1) False None # ts else ts)"

definition metric_segment :: "nat \<Rightarrow> token list \<Rightarrow> ast parsed" where
  "metric_segment final ts =
     parse_bind (curly_brace_segment final ts) (\<lambda>curly ts.
       case curly of
         Some c \<Rightarrow> Inr (c, ts)
       | None \<Rightarrow>
           if match_token T_Identifier ts \<or> match_token T_Number ts \<or> match_token T_Bool ts
           then let v = tk_value (hd ts) in
                Inr (Segment (case value_parts v of [] \<Rightarrow> None | p # _ \<Rightarrow> Some p), split_number v (tl ts))
           else if \<not> match_token T_Template_Start ts then Inl (error_mark final ts ''Expected metric identifier'')
           else if \<not> match_token T_Identifier (tl ts)
           then Inl (error_mark final (tl ts) ''Expected identifier after templateStart'')
           else if \<not> match_token T_Template_End (drop 2 ts) then Inl (error_mark final (drop 2 ts) ''Expected templateEnd'')
           else Inr (Template (tk_value (ts ! 1)), drop 3 ts))"

primrec metric_rest :: "nat \<Rightarrow> nat \<Rightarrow> token list \<Rightarrow> ast list parsed" where
  "metric_rest 0 final ts = Inl Out_Of_Fuel"
| "metric_rest (Suc n) final ts =
     (if match_token (T_Punctuator (CHR ''.'')) ts
      then parse_bind (metric_segment final (tl ts)) (\<lambda>seg ts.
             parse_bind (metric_rest n final ts) (\<lambda>segs ts. Inr (seg # segs, ts)))
      else Inr ([], ts))"

definition metric_expression :: "nat \<Rightarrow> nat \<Rightarrow> token list \<Rightarrow> ast option parsed" where
  "metric_expression n final ts =
     (if \<not> match_token T_Template_Start ts \<and> \<not> match_token T_Identifier ts \<and> \<not> match_token T_Number ts \<and>
         \<not> match_token (T_Punctuator (CHR ''{'')) ts
      then Inr (None, ts)
      else parse_bind (metric_segment final ts) (\<lambda>seg ts.
             parse_bind (metric_rest n final ts) (\<lambda>segs ts. Inr (Some (Metric (seg # segs)), ts))))"

section \<open>Parameters\<close>

definition bool_expression :: "token list \<Rightarrow> ast option parsed" where
  "bool_expression ts =
     (if match_token T_Bool ts then Inr (Some (Bool_Node (tk_value (hd ts) = ''true'')), tl ts) else Inr (None, ts))"

text \<open>\<open>/#[A-Z]/\<close> somewhere in the text.\<close>

fun has_series_ref :: "string \<Rightarrow> bool" where
  "has_series_ref (c # d # s) \<longleftrightarrow>
     c = CHR ''#'' \<and> (65 :: nat) \<le> of_char d \<and> of_char d \<le> (90 :: nat) \<or> has_series_ref (d # s)"
| "has_series_ref _ \<longleftrightarrow> False"

definition series_ref_expression :: "token list \<Rightarrow> ast option parsed" where
  "series_ref_expression ts =
     (if \<not> match_token T_Identifier ts then Inr (None, ts)
      else if tk_value (hd ts) \<noteq> [] \<and> \<not> has_series_ref (tk_value (hd ts)) then Inr (None, ts)
      else Inr (Some (Series_Ref (tk_value (hd ts))), tl ts))"

definition numeric_literal :: "token list \<Rightarrow> ast option parsed" where
  "numeric_literal ts =
     (if \<not> match_token T_Number ts then Inr (None, ts)
      else if tk_value (hd ts) \<noteq> [] then Inr (Some (Number_Node (read_decimal (tk_value (hd ts)))), tl ts)
      else Inr (None, tl ts))"

definition string_literal :: "token list \<Rightarrow> ast option parsed" where
  "string_literal ts =
     (if \<not> match_token T_String ts then Inr (None, ts)
      else let t = hd ts in
        if tk_unclosed t \<and> tk_pos t \<noteq> None \<and> tk_pos t \<noteq> Some 0
        then Inl (Parse_Error ''Unclosed string parameter'' (the (tk_pos t)))
        else Inr (Some (String_Node (tk_value t)), tl ts))"

text \<open>\<open>a || b\<close>: the second is tried, on the tokens the first leaves, when the first finds nothing.\<close>

definition parse_or :: "ast option parsed \<Rightarrow> (token list \<Rightarrow> ast option parsed) \<Rightarrow> ast option parsed" where
  "parse_or r f = parse_bind r (\<lambda>x ts. case x of Some a \<Rightarrow> Inr (Some a, ts) | None \<Rightarrow> f ts)"

fun function_call :: "nat \<Rightarrow> nat \<Rightarrow> token list \<Rightarrow> ast option parsed"
  and function_parameters :: "nat \<Rightarrow> nat \<Rightarrow> token list \<Rightarrow> ast list parsed" where
  "function_call 0 final ts = Inl Out_Of_Fuel"
| "function_call (Suc n) final ts =
     (if \<not> match_two T_Identifier (T_Punctuator (CHR ''('')) ts then Inr (None, ts)
      else parse_bind (function_parameters n final (drop 2 ts)) (\<lambda>ps rest.
        if \<not> match_token (T_Punctuator (CHR '')'')) rest then Inl (error_mark final rest ''Expected closing parenthesis'')
        else Inr (Some (Function (tk_value (hd ts)) ps), tl rest)))"
| "function_parameters 0 final ts = Inl Out_Of_Fuel"
| "function_parameters (Suc n) final ts =
     (if match_token (T_Punctuator (CHR '')'')) ts \<or> ts = [] then Inr ([], ts)
      else parse_bind
        (parse_or (parse_or (parse_or (parse_or (parse_or (function_call n final ts) numeric_literal)
           series_ref_expression) bool_expression) (metric_expression n final)) string_literal) (\<lambda>p ts.
          case p of
            None \<Rightarrow> Inr ([], tl ts)
          | Some a \<Rightarrow>
              if \<not> match_token (T_Punctuator (CHR '','')) ts then Inr ([a], ts)
              else parse_bind (function_parameters n final (tl ts)) (\<lambda>ps ts. Inr (a # ps, ts))))"

section \<open>The whole query\<close>

text \<open>A number with a dot is split in three: it weighs as much as its parts and itself.\<close>

definition token_weight :: "token \<Rightarrow> nat" where
  "token_weight t = (if length (value_parts (tk_value t)) = 2 then 3 else 1)"

definition parser_fuel :: "token list \<Rightarrow> nat" where
  "parser_fuel ts = sum_list (map token_weight ts) + 2"

definition start :: "nat \<Rightarrow> nat \<Rightarrow> token list \<Rightarrow> ast option option" where
  "start n final ts =
     (case parse_or (function_call n final ts) (metric_expression n final) of
        Inr (a, _) \<Rightarrow> Some a
      | Inl (Parse_Error msg p) \<Rightarrow> Some (Some (Error_Node msg p))
      | Inl Out_Of_Fuel \<Rightarrow> None)"

definition get_ast :: "string \<Rightarrow> ast option option" where
  "get_ast expression =
     (case tokenize (new_lexer expression) of (ts, lx) \<Rightarrow> start (parser_fuel ts) (lx_char lx) ts)"

section \<open>What a parser may do\<close>

definition weight :: "token list \<Rightarrow> nat" where
  "weight ts = sum_list (map token_weight ts)"

definition good_tokens :: "nat \<Rightarrow> token list \<Rightarrow> bool" where
  "good_tokens final ts \<longleftrightarrow> 1 \<le> final \<and> (\<forall>t \<in> set ts. \<forall>p. tk_pos t = Some p \<longrightarrow> 1 \<le> p \<and> p \<le> final)"

text \<open>A result with fuel to spare: errors within the text, and what is left as told.\<close>

definition safe :: "nat \<Rightarrow> ('a \<Rightarrow> token list \<Rightarrow> bool) \<Rightarrow> 'a parsed \<Rightarrow> bool" where
  "safe final P r \<longleftrightarrow>
     (case r of
        Inr (x, ts) \<Rightarrow> good_tokens final ts \<and> P x ts
      | Inl (Parse_Error m p) \<Rightarrow> 1 \<le> p \<and> p \<le> final
      | Inl Out_Of_Fuel \<Rightarrow> False)"

lemma safe_Inr [simp]: "safe final P (Inr (x, ts)) \<longleftrightarrow> good_tokens final ts \<and> P x ts"
  by (simp add: safe_def)

lemma safe_bind:
  assumes "safe final P r" "\<And>x ts. good_tokens final ts \<Longrightarrow> P x ts \<Longrightarrow> safe final Q (f x ts)"
  shows "safe final Q (parse_bind r f)"
proof (cases r)
  case (Inl e)
  with assms(1) show ?thesis by (cases e) (simp_all add: safe_def parse_bind_def)
next
  case (Inr y)
  obtain x ts where "y = (x, ts)" by (cases y)
  with Inr assms show ?thesis by (simp add: parse_bind_def)
qed

lemma good_drop: "good_tokens final ts \<Longrightarrow> good_tokens final (drop n ts)"
  by (auto simp: good_tokens_def dest: in_set_dropD)

lemma good_tl: "good_tokens final ts \<Longrightarrow> good_tokens final (tl ts)"
  using good_drop [of final ts 1] by (simp add: drop_Suc)

lemma good_dropWhile: "good_tokens final ts \<Longrightarrow> good_tokens final (dropWhile P ts)"
  by (auto simp: good_tokens_def dest: set_dropWhileD)

lemma error_mark_safe: "good_tokens final ts \<Longrightarrow> safe final P (Inl (error_mark final ts msg))"
  by (cases ts) (auto simp: safe_def error_mark_def good_tokens_def split: option.splits)

lemma token_weight_pos [simp]: "0 < token_weight t"
  by (simp add: token_weight_def)

lemma weight_simps [simp]: "weight [] = 0" "weight (t # ts) = token_weight t + weight ts" "weight (ts @ us) = weight ts + weight us"
  by (simp_all add: weight_def)

lemma weight_tl: "ts \<noteq> [] \<Longrightarrow> weight (tl ts) < weight ts"
  by (cases ts) simp_all

lemma weight_tl_le: "weight (tl ts) \<le> weight ts"
  by (cases ts) simp_all

lemma weight_drop: "weight (drop n ts) \<le> weight ts"
  using weight_simps(3) [of "take n ts" "drop n ts"] by simp

lemma match_token_nonempty: "match_token t ts \<Longrightarrow> ts \<noteq> []"
  by (auto simp: match_token_def)

lemma split_on_no_separator: "p \<in> set (split_on c s) \<Longrightarrow> c \<notin> set p"
  by (induction s arbitrary: p) (auto split: if_splits, (metis list.set_sel(1) list.set_sel(2) split_on_nonempty)+)

lemma split_number_weight:
  "weight (split_number (tk_value t) ts) < token_weight t + weight ts"
proof (cases "length (value_parts (tk_value t)) = 2")
  case True
  then have "CHR ''.'' \<notin> set (value_parts (tk_value t) ! 1)"
    by (intro split_on_no_separator [of _ _ "tk_value t"]) (auto simp: value_parts_def split: if_splits intro!: nth_mem)
  then have "length (value_parts (value_parts (tk_value t) ! 1)) \<noteq> 2"
    by (subst value_parts_def) (simp add: split_on_absent)
  with True show ?thesis
    by (simp add: split_number_def token_weight_def dot_token_def number_token_def value_parts_def [of "[]"])
qed (simp add: split_number_def)

lemma split_number_good: "good_tokens final ts \<Longrightarrow> good_tokens final (split_number v ts)"
  by (auto simp: split_number_def good_tokens_def dot_token_def number_token_def)

definition found :: "nat \<Rightarrow> ast option \<Rightarrow> token list \<Rightarrow> bool" where
  "found w x ts \<longleftrightarrow> (case x of None \<Rightarrow> weight ts \<le> w | Some a \<Rightarrow> weight ts < w \<and> (\<forall>m p. a \<noteq> Error_Node m p))"

lemma curly_safe: "good_tokens final ts \<Longrightarrow> safe final (\<lambda>x rest. (x = None \<and> rest = ts) \<or> x \<noteq> None \<and> found (weight ts) x rest) (curly_brace_segment final ts)"
proof (cases "starts_curly ts")
  case True
  let ?p = "\<lambda>t. tk_type t \<noteq> T_Punctuator (CHR ''}'')"
  assume good: "good_tokens final ts"
  have ts: "takeWhile ?p ts @ dropWhile ?p ts = ts" by simp
  show ?thesis
  proof (cases "dropWhile ?p ts")
    case Nil
    with True error_mark_safe [of final "[]"] good show ?thesis
      unfolding curly_brace_segment_def Let_def if_P [OF True] Nil by (simp add: good_tokens_def)
  next
    case (Cons close rest)
    have "weight ts = weight (takeWhile ?p ts) + (token_weight close + weight rest)"
      by (subst ts [symmetric]) (simp add: Cons del: takeWhile_dropWhile_id)
    then have "weight rest < weight ts" by (simp add: less_add_Suc1 add_strict_increasing2)
    moreover have "good_tokens final rest" using good_tl [OF good_dropWhile [OF good, of ?p]] Cons by simp
    ultimately show ?thesis
      using good_tl [of final rest] weight_tl_le [of rest]
      unfolding curly_brace_segment_def Let_def if_P [OF True] Cons by (simp add: found_def)
  qed
qed (simp add: curly_brace_segment_def)

lemma metric_segment_safe:
  assumes "good_tokens final ts"
  shows "safe final (\<lambda>a rest. weight rest < weight ts \<and> (\<forall>m p. a \<noteq> Error_Node m p)) (metric_segment final ts)"
  unfolding metric_segment_def
proof (rule safe_bind [OF curly_safe [OF assms]])
  fix curly us
  assume us: "good_tokens final us" and c: "(curly = None \<and> us = ts) \<or> curly \<noteq> None \<and> found (weight ts) curly us"
  show "safe final (\<lambda>a rest. weight rest < weight ts \<and> (\<forall>m p. a \<noteq> Error_Node m p))
    (case curly of
       Some c \<Rightarrow> Inr (c, us)
     | None \<Rightarrow>
         if match_token T_Identifier us \<or> match_token T_Number us \<or> match_token T_Bool us
         then let v = tk_value (hd us) in
              Inr (Segment (case value_parts v of [] \<Rightarrow> None | p # _ \<Rightarrow> Some p), split_number v (tl us))
         else if \<not> match_token T_Template_Start us then Inl (error_mark final us ''Expected metric identifier'')
         else if \<not> match_token T_Identifier (tl us)
         then Inl (error_mark final (tl us) ''Expected identifier after templateStart'')
         else if \<not> match_token T_Template_End (drop 2 us) then Inl (error_mark final (drop 2 us) ''Expected templateEnd'')
         else Inr (Template (tk_value (us ! 1)), drop 3 us))"
  proof (cases curly)
    case (Some a)
    with us c show ?thesis by (simp add: found_def)
  next
    case None
    with c have ts: "us = ts" by simp
    have "weight (drop 3 us) < weight us" if "match_token t us" for t
    proof -
      have "weight (drop 3 us) = weight (drop 2 (tl us))" by (simp add: drop_Suc numeral_3_eq_3 numeral_2_eq_2)
      also have "\<dots> \<le> weight (tl us)" by (rule weight_drop)
      also have "\<dots> < weight us" by (rule weight_tl [OF match_token_nonempty [OF that]])
      finally show ?thesis .
    qed
    moreover have "weight (split_number (tk_value (hd us)) (tl us)) < weight us" if "match_token t us" for t
      using that split_number_weight [of "hd us" "tl us"] by (cases us) (simp_all add: match_token_def)
    ultimately show ?thesis
      using None us ts by (auto simp: Let_def intro: error_mark_safe good_tl good_drop split_number_good)
  qed
qed

lemma metric_rest_safe:
  "good_tokens final ts \<Longrightarrow> weight ts < n \<Longrightarrow> safe final (\<lambda>_ rest. weight rest \<le> weight ts) (metric_rest n final ts)"
proof (induction n arbitrary: ts)
  case (Suc n)
  show ?case
  proof (cases "match_token (T_Punctuator (CHR ''.'')) ts")
    case True
    have "safe final (\<lambda>_ rest. weight rest \<le> weight ts)
        (parse_bind (metric_segment final (tl ts)) (\<lambda>seg us. parse_bind (metric_rest n final us) (\<lambda>segs us. Inr (seg # segs, us))))"
    proof (rule safe_bind [OF metric_segment_safe [OF good_tl [OF Suc.prems(1)]]])
      fix seg us
      assume us: "good_tokens final us" "weight us < weight (tl ts) \<and> (\<forall>m p. seg \<noteq> Error_Node m p)"
      then have "weight us < n" using weight_tl_le [of ts] Suc.prems(2) by simp
      show "safe final (\<lambda>_ rest. weight rest \<le> weight ts) (parse_bind (metric_rest n final us) (\<lambda>segs us. Inr (seg # segs, us)))"
        by (rule safe_bind [OF Suc.IH [OF us(1) \<open>weight us < n\<close>]]) (use us(2) weight_tl_le [of ts] in simp)
    qed
    with True show ?thesis by simp
  qed (use Suc.prems in simp)
qed simp

lemma metric_expression_safe:
  assumes "good_tokens final ts" "weight ts \<le> n"
  shows "safe final (found (weight ts)) (metric_expression n final ts)"
proof -
  have "safe final (found (weight ts)) (parse_bind (metric_segment final ts) (\<lambda>seg us.
      parse_bind (metric_rest n final us) (\<lambda>segs us. Inr (Some (Metric (seg # segs)), us))))"
  proof (rule safe_bind [OF metric_segment_safe [OF assms(1)]])
    fix seg us
    assume us: "good_tokens final us" "weight us < weight ts \<and> (\<forall>m p. seg \<noteq> Error_Node m p)"
    then have "weight us < n" using assms(2) by simp
    show "safe final (found (weight ts)) (parse_bind (metric_rest n final us) (\<lambda>segs us. Inr (Some (Metric (seg # segs)), us)))"
      by (rule safe_bind [OF metric_rest_safe [OF us(1) \<open>weight us < n\<close>]]) (use us(2) in \<open>simp add: found_def\<close>)
  qed
  then show ?thesis using assms(1) by (simp add: metric_expression_def found_def)
qed

lemma found_mono: "found v x ts \<Longrightarrow> v \<le> w \<Longrightarrow> found w x ts"
  by (auto simp: found_def split: option.splits)

lemma safe_mono: "safe final P r \<Longrightarrow> (\<And>x ts. P x ts \<Longrightarrow> Q x ts) \<Longrightarrow> safe final Q r"
  by (auto simp: safe_def split: sum.splits parse_failure.splits)

lemma parse_or_safe:
  assumes "safe final (found w) r" "\<And>ts. good_tokens final ts \<Longrightarrow> weight ts \<le> w \<Longrightarrow> safe final (found (weight ts)) (f ts)"
  shows "safe final (found w) (parse_or r f)"
  unfolding parse_or_def
proof (rule safe_bind [OF assms(1)])
  fix x ts
  assume ts: "good_tokens final ts" "found w x ts"
  show "safe final (found w) (case x of Some a \<Rightarrow> Inr (Some a, ts) | None \<Rightarrow> f ts)"
  proof (cases x)
    case None
    with ts(2) have w: "weight ts \<le> w" by (simp add: found_def)
    from safe_mono [OF assms(2) [OF ts(1) w] found_mono [OF _ w]] None show ?thesis by simp
  qed (use ts in simp)
qed

lemma leaf_safe:
  assumes "good_tokens final ts"
  shows "safe final (found (weight ts)) (numeric_literal ts)" "safe final (found (weight ts)) (series_ref_expression ts)"
    "safe final (found (weight ts)) (bool_expression ts)" "safe final (found (weight ts)) (string_literal ts)"
proof -
  have tl: "weight (tl ts) < weight ts" if "match_token t ts" for t
    using that by (intro weight_tl) (rule match_token_nonempty)
  have pos: "1 \<le> p \<and> p \<le> final" if "match_token t ts" "tk_pos (hd ts) = Some p" for t p
    using that assms by (cases ts) (auto simp: good_tokens_def match_token_def)
  show "safe final (found (weight ts)) (numeric_literal ts)"
    using assms good_tl [OF assms] tl [of T_Number] weight_tl_le [of ts] by (simp add: numeric_literal_def found_def)
  show "safe final (found (weight ts)) (series_ref_expression ts)"
    using assms good_tl [OF assms] tl [of T_Identifier] by (simp add: series_ref_expression_def found_def)
  show "safe final (found (weight ts)) (bool_expression ts)"
    using assms good_tl [OF assms] tl [of T_Bool] by (simp add: bool_expression_def found_def)
  show "safe final (found (weight ts)) (string_literal ts)"
    using assms good_tl [OF assms] tl [of T_String] pos [of T_String]
    by (auto simp: string_literal_def found_def Let_def safe_def)
qed

lemma function_call_safe:
  "good_tokens final ts \<Longrightarrow> weight ts < n \<Longrightarrow> safe final (found (weight ts)) (function_call n final ts)"
  "good_tokens final ts \<Longrightarrow> weight ts + 1 < n \<Longrightarrow> safe final (\<lambda>_ rest. weight rest \<le> weight ts) (function_parameters n final ts)"
proof (induction n final ts and n final ts rule: function_call_function_parameters.induct)
  case (2 n final ts)
  show ?case
  proof (cases "match_two T_Identifier (T_Punctuator (CHR ''('')) ts")
    case True
    then have w: "weight (drop 2 ts) + 2 \<le> weight ts"
      by (cases ts; cases "tl ts")
         (auto simp: match_two_def match_token_def numeral_2_eq_2 token_weight_def)
    then have "weight (drop 2 ts) + 1 < n" using "2.prems" by simp
    have "safe final (found (weight ts)) (parse_bind (function_parameters n final (drop 2 ts)) (\<lambda>ps rest.
        if \<not> match_token (T_Punctuator (CHR '')'')) rest then Inl (error_mark final rest ''Expected closing parenthesis'')
        else Inr (Some (Function (tk_value (hd ts)) ps), tl rest)))"
    proof (rule safe_bind)
      show "safe final (\<lambda>_ rest. weight rest \<le> weight (drop 2 ts)) (function_parameters n final (drop 2 ts))"
        using True good_drop [OF "2.prems"(1)] \<open>weight (drop 2 ts) + 1 < n\<close> by (intro "2.IH") auto
      fix ps rest
      assume "good_tokens final rest" "weight rest \<le> weight (drop 2 ts)"
      then show "safe final (found (weight ts)) (if \<not> match_token (T_Punctuator (CHR '')'')) rest
          then Inl (error_mark final rest ''Expected closing parenthesis'')
          else Inr (Some (Function (tk_value (hd ts)) ps), tl rest))"
        using w weight_tl_le [of rest] by (auto simp: found_def intro: error_mark_safe good_tl)
    qed
    with True show ?thesis by simp
  qed (use "2.prems" in \<open>simp add: found_def\<close>)
next
  case (4 n final ts)
  let ?stop = "match_token (T_Punctuator (CHR '')'')) ts \<or> ts = []"
  show ?case
  proof (cases ?stop)
    case False
    let ?p = "parse_or (parse_or (parse_or (parse_or (parse_or (function_call n final ts) numeric_literal)
           series_ref_expression) bool_expression) (metric_expression n final)) string_literal"
    have "safe final (found (weight ts)) (function_call n final ts)"
      using False "4.prems" by (intro "4.IH"(1)) auto
    then have "safe final (found (weight ts)) ?p"
      using "4.prems" by (intro parse_or_safe leaf_safe metric_expression_safe) auto
    then have "safe final (\<lambda>_ rest. weight rest \<le> weight ts) (parse_bind ?p (\<lambda>p ts. case p of
        None \<Rightarrow> Inr ([], tl ts)
      | Some a \<Rightarrow>
          if \<not> match_token (T_Punctuator (CHR '','')) ts then Inr ([a], ts)
          else parse_bind (function_parameters n final (tl ts)) (\<lambda>ps ts. Inr (a # ps, ts))))"
    proof (rule safe_bind)
      fix x us
      assume us: "good_tokens final us" "found (weight ts) x us"
      show "safe final (\<lambda>_ rest. weight rest \<le> weight ts) (case x of
          None \<Rightarrow> Inr ([], tl us)
        | Some a \<Rightarrow>
            if \<not> match_token (T_Punctuator (CHR '','')) us then Inr ([a], us)
            else parse_bind (function_parameters n final (tl us)) (\<lambda>ps ts. Inr (a # ps, ts)))"
      proof (cases x)
        case None
        with us weight_tl_le [of us] show ?thesis by (simp add: found_def good_tl)
      next
        case (Some a)
        with us(2) have less: "weight us < weight ts" by (simp add: found_def)
        have IH: "safe final (\<lambda>_ rest. weight rest \<le> weight (tl us)) (function_parameters n final (tl us))"
          if "match_token (T_Punctuator (CHR '','')) us"
        proof -
          have "weight (tl us) < weight us" by (rule weight_tl [OF match_token_nonempty [OF that]])
          then have "weight (tl us) + 1 < n" using less "4.prems"(2) by simp
          then show ?thesis using False Some that good_tl [OF us(1)] by (intro "4.IH"(2)) auto
        qed
        have "safe final (\<lambda>_ rest. weight rest \<le> weight ts) (parse_bind (function_parameters n final (tl us)) (\<lambda>ps ts. Inr (a # ps, ts)))"
          if "match_token (T_Punctuator (CHR '','')) us"
          by (rule safe_bind [OF IH [OF that]]) (use less weight_tl_le [of us] in auto)
        with Some us less show ?thesis by simp
      qed
    qed
    with False show ?thesis by simp
  qed (use "4.prems" in auto)
qed simp_all

section \<open>Positions\<close>

lemma laid_out_length: "laid_out p ts s rest \<Longrightarrow> length rest \<le> length s"
proof (induction p ts s rest rule: laid_out.induct)
  case (2 p u ts s rest)
  then obtain gap s' where "s = gap @ token_text u @ s'" "length rest \<le> length s'" by fastforce
  then show ?case by simp
qed auto

lemma laid_out_positions:
  "laid_out p ts s rest \<Longrightarrow> t \<in> set ts \<Longrightarrow> tk_pos t = Some q \<Longrightarrow> p \<le> q \<and> q + length rest \<le> p + length s"
proof (induction p ts s rest rule: laid_out.induct)
  case (2 p u ts s rest)
  then obtain gap s' where g: "s = gap @ token_text u @ s'" "token_at (p + length gap) u"
    "laid_out (p + length gap + length (token_text u)) ts s' rest" by auto
  have rest: "length rest \<le> length s'" using g(3) by (rule laid_out_length)
  show ?case
  proof (cases "t = u")
    case True
    with 2(4) g(1,2) rest show ?thesis by (auto simp: token_at_def split: if_splits)
  next
    case False
    with 2 g(3) have "p + length gap + length (token_text u) \<le> q \<and>
        q + length rest \<le> p + length gap + length (token_text u) + length s'" by auto
    with g(1) show ?thesis by simp
  qed
qed simp

lemma tokenize_good:
  assumes "tokenize (new_lexer s) = (ts, lx)"
  shows "good_tokens (lx_char lx) ts \<and> lx_char lx \<le> length s + 1"
proof -
  from tokenize_laid_out [OF assms] have l: "laid_out 1 ts s (lx_input lx)" "lx_char lx + length (lx_input lx) = 1 + length s"
    by (simp_all add: new_lexer_def)
  have "length (lx_input lx) \<le> length s"
    using l(1) by (rule laid_out_length)
  with l laid_out_positions [OF l(1)] show ?thesis by (fastforce simp: good_tokens_def)
qed

section \<open>Properties of the parser\<close>

lemma get_ast_total:
  "\<exists>r. get_ast s = Some r \<and> (\<forall>m p. r = Some (Error_Node m p) \<longrightarrow> 1 \<le> p \<and> p \<le> length s + 1)"
proof -
  obtain ts lx where t: "tokenize (new_lexer s) = (ts, lx)" by (cases "tokenize (new_lexer s)")
  let ?n = "parser_fuel ts" and ?f = "lx_char lx"
  have good: "good_tokens ?f ts" "?f \<le> length s + 1" using tokenize_good [OF t] by auto
  have "safe ?f (found (weight ts)) (parse_or (function_call ?n ?f ts) (metric_expression ?n ?f))"
    using good(1) by (intro parse_or_safe function_call_safe metric_expression_safe) (auto simp: parser_fuel_def weight_def)
  then show ?thesis
    using t good(2) by (auto simp: get_ast_def start_def safe_def found_def split: sum.splits parse_failure.splits option.splits)
qed

text \<open>
  C17. The parser returns on every text: with a tree, with nothing, or with an error whose position is a
  position of the text or the one behind its end.
\<close>

theorem parser_total:
  "\<exists>r. get_ast s = Some r \<and> (\<forall>m p. r = Some (Error_Node m p) \<longrightarrow> 1 \<le> p \<and> p \<le> length s + 1)"
  by (rule get_ast_total)

lemma parser_total_witness:
  "get_ast ''f(a'' = Some (Some (Error_Node ''Expected closing parenthesis instead found end of string'' 4)) \<and> (4 :: nat) \<le> 5"
proof -
  have "get_ast ''f(a'' = Some (Some (Error_Node ''Expected closing parenthesis instead found end of string'' 4))"
    by code_simp
  with parser_total [of "''f(a''"] show ?thesis by simp
qed

end
