(* ===== verification/Graphite_Print.thy ===== *)
theory Graphite_Print
  imports Graphite_Parser
begin

text \<open>
  Text for the trees of the Graphite parser, in the form the query editor writes queries (parameters after a
  comma and a blank, strings in single quotes), and the round trip: parsing that text gives the tree back.
\<close>

section \<open>Text of a tree\<close>

definition segment_text :: "ast \<Rightarrow> string" where
  "segment_text a = (case a of Segment (Some v) \<Rightarrow> v | _ \<Rightarrow> [])"

fun print_ast :: "ast \<Rightarrow> string" where
  "print_ast (Function f ps) = f @ ''('' @ join_with '', '' (map print_ast ps) @ '')''"
| "print_ast (Metric segs) = join_with ''.'' (map segment_text segs)"
| "print_ast (Bool_Node b) = (if b then ''true'' else ''false'')"
| "print_ast (Number_Node (Some d)) = string_of_nat (dc_digits d)"
| "print_ast (String_Node s) = [CHR 0x27] @ s @ [CHR 0x27]"
| "print_ast (Series_Ref s) = s"
| "print_ast _ = []"

text \<open>A name of the editor: characters of identifiers, not starting as a number, and no word for a boolean.\<close>

definition name_char :: "char \<Rightarrow> bool" where
  "name_char c \<longleftrightarrow> (of_char c :: nat) < 128 \<and> identifier_start_table (of_char c)"

definition wf_name :: "string \<Rightarrow> bool" where
  "wf_name w \<longleftrightarrow> w \<noteq> [] \<and> list_all name_char w \<and> \<not> is_digit (hd w) \<and> hd w \<noteq> CHR ''-'' \<and> w \<noteq> ''true'' \<and> w \<noteq> ''false''"

definition wf_segment :: "ast \<Rightarrow> bool" where
  "wf_segment a \<longleftrightarrow> (case a of Segment (Some v) \<Rightarrow> wf_name v | _ \<Rightarrow> False)"

fun wf_ast :: "ast \<Rightarrow> bool" where
  "wf_ast (Function f ps) \<longleftrightarrow> wf_name f \<and> list_all wf_ast ps"
| "wf_ast (Metric segs) \<longleftrightarrow> segs \<noteq> [] \<and> list_all wf_segment segs \<and> \<not> has_series_ref (segment_text (hd segs))"
| "wf_ast (Bool_Node b) \<longleftrightarrow> True"
| "wf_ast (Number_Node x) \<longleftrightarrow> (\<exists>n. x = Some \<lparr>dc_negative = False, dc_digits = n, dc_exponent = 0\<rparr>)"
| "wf_ast (String_Node s) \<longleftrightarrow> CHR 0x27 \<notin> set s"
| "wf_ast (Series_Ref s) \<longleftrightarrow> wf_name s \<and> has_series_ref s"
| "wf_ast _ \<longleftrightarrow> False"

section \<open>Tokens of the text\<close>

text \<open>What the parser looks at in a token, when it finds no error.\<close>

type_synonym shape = "token_type \<times> string \<times> bool"

definition shape :: "token \<Rightarrow> shape" where
  "shape t = (tk_type t, tk_value t, tk_unclosed t)"

definition punct :: "char \<Rightarrow> shape" where
  "punct c = (T_Punctuator c, [c], False)"

definition word :: "string \<Rightarrow> shape" where
  "word w = (T_Identifier, w, False)"

fun join_lists :: "'a list \<Rightarrow> 'a list list \<Rightarrow> 'a list" where
  "join_lists sep [] = []"
| "join_lists sep [x] = x"
| "join_lists sep (x # y # xs) = x @ sep @ join_lists sep (y # xs)"

fun shapes :: "ast \<Rightarrow> shape list" where
  "shapes (Function f ps) = word f # punct (CHR ''('') # join_lists [punct (CHR '','')] (map shapes ps) @ [punct (CHR '')'')]"
| "shapes (Metric segs) = join_lists [punct (CHR ''.'')] (map (\<lambda>s. [word (segment_text s)]) segs)"
| "shapes (Bool_Node b) = [(T_Bool, if b then ''true'' else ''false'', False)]"
| "shapes (Number_Node (Some d)) = [(T_Number, string_of_nat (dc_digits d), False)]"
| "shapes (String_Node s) = [(T_String, s, False)]"
| "shapes (Series_Ref s) = [word s]"
| "shapes _ = []"

text \<open>The tokens of a text, wherever it stands.\<close>

definition lexes :: "string \<Rightarrow> shape list \<Rightarrow> bool" where
  "lexes s ks \<longleftrightarrow> (\<forall>lx. lx_input lx = s \<longrightarrow> map shape (fst (tokenize lx)) = ks)"

definition ends_word :: "string \<Rightarrow> bool" where
  "ends_word s \<longleftrightarrow> s = [] \<or> is_punctuator (hd s)"

lemma lexes_next:
  assumes "\<And>lx. lx_input lx = s \<Longrightarrow> \<exists>t lx'. next_token lx = Some (t, lx') \<and> shape t = k \<and> lx_input lx' = s'"
    and "lexes s' ks"
  shows "lexes s (k # ks)"
  unfolding lexes_def
proof (intro allI impI)
  fix lx :: lexer
  assume "lx_input lx = s"
  with assms(1) obtain t lx' where t: "next_token lx = Some (t, lx')" "shape t = k" "lx_input lx' = s'" by blast
  moreover have "map shape (fst (tokenize lx')) = ks" using assms(2) t(3) by (simp add: lexes_def)
  ultimately show "map shape (fst (tokenize lx)) = k # ks"
    by (subst tokenize.simps) (cases "tokenize lx'", simp)
qed

lemma skip_spaces_id:
  "lx_input lx = c # s \<Longrightarrow> \<not> is_space c \<Longrightarrow> lx_input (skip_spaces lx) = c # s"
  by (simp add: skip_spaces_def skip_def)

lemma lexes_nil: "lexes [] []"
  unfolding lexes_def
  by (subst tokenize.simps)
     (simp add: next_token_def skip_spaces_def skip_def scan_string_literal_def scan_punctuator_def
       scan_numeric_literal_def scan_identifier_def get_identifier_start_def identifier_part_def
       scan_template_sequence_def or_else_def Let_def)

lemma lexes_space: "lexes s ks \<Longrightarrow> lexes (CHR '' '' # s) ks"
  unfolding lexes_def
proof (intro allI impI)
  fix lx :: lexer
  assume ks: "\<forall>lx. lx_input lx = s \<longrightarrow> map shape (fst (tokenize lx)) = ks" and lx: "lx_input lx = CHR '' '' # s"
  have "is_space (CHR '' '')" by code_simp
  then have eq: "skip_spaces (skip 1 lx) = skip_spaces lx" using lx by (simp add: skip_spaces_def skip_def Let_def)
  have eq': "next_token (skip 1 lx) = next_token lx" unfolding next_token_def Let_def eq by (rule refl)
  have "tokenize (skip 1 lx) = tokenize lx"
    unfolding tokenize.simps [of "skip 1 lx"] tokenize.simps [of lx] eq eq' by (rule refl)
  moreover have "lx_input (skip 1 lx) = s" using lx by (simp add: skip_def)
  ultimately show "map shape (fst (tokenize lx)) = ks" using ks by metis
qed

lemma punctuator_facts:
  "is_punctuator c \<Longrightarrow> \<not> is_space c \<and> c \<noteq> CHR 0x22 \<and> c \<noteq> CHR 0x27 \<and> \<not> is_digit c \<and> \<not> name_char c \<and> (of_char c :: nat) < 128 \<and> c \<noteq> CHR 0x5C"
  by (auto simp: is_punctuator_def is_space_def is_digit_def name_char_def identifier_start_table_def)

lemma lexes_punct:
  assumes "is_punctuator c" "lexes s ks"
  shows "lexes (c # s) (punct c # ks)"
proof (rule lexes_next [OF _ assms(2)])
  fix lx :: lexer
  assume "lx_input lx = c # s"
  then have lx: "lx_input (skip_spaces lx) = c # s" using punctuator_facts [OF assms(1)] by (intro skip_spaces_id) auto
  then show "\<exists>t lx'. next_token lx = Some (t, lx') \<and> shape t = punct c \<and> lx_input lx' = s"
    using punctuator_facts [OF assms(1)] assms(1)
    by (simp add: next_token_def Let_def scan_string_literal_def scan_punctuator_def or_else_def simple_token_def
        shape_def punct_def skip_def)
qed

text \<open>A word, a string, a number.\<close>

lemma name_char_facts:
  "name_char c \<Longrightarrow> \<not> is_space c \<and> c \<noteq> CHR 0x22 \<and> c \<noteq> CHR 0x27 \<and> \<not> is_punctuator c \<and> c \<noteq> CHR ''.'' \<and> c \<noteq> CHR 0x5C"
  by (auto simp: name_char_def identifier_start_table_def is_space_def is_punctuator_def)

lemma identifier_part_name: "name_char c \<Longrightarrow> identifier_part identifier_start_table (c # s) = 1"
  using name_char_facts [of c] by (simp add: identifier_part_def name_char_def)

lemma identifier_part_end: "ends_word s \<Longrightarrow> identifier_part identifier_start_table s = 0"
  using punctuator_facts [of "hd s"] by (cases s) (auto simp: ends_word_def identifier_part_def name_char_def)

lemma identifier_rest_word: "list_all name_char w \<Longrightarrow> ends_word s \<Longrightarrow> identifier_rest (w @ s) = w"
proof (induction w)
  case Nil
  then show ?case
    by (subst identifier_rest.simps) (simp add: get_identifier_part_def identifier_part_table_def identifier_part_end)
next
  case (Cons c w)
  then show ?case
    by (subst identifier_rest.simps)
       (simp add: get_identifier_part_def identifier_part_table_def identifier_part_name Let_def)
qed

definition word_type :: "string \<Rightarrow> token_type" where
  "word_type w = (if w = ''true'' \<or> w = ''false'' then T_Bool else T_Identifier)"

lemma scan_identifier_word:
  assumes "lx_input lx = c # w @ s" "list_all name_char (c # w)" "ends_word s"
  shows "scan_identifier lx = Some (simple_token (word_type (c # w)) (c # w) (lx_char lx))"
proof -
  have "get_identifier_start (c # w @ s) = 1"
    using assms(2) by (simp add: get_identifier_start_def identifier_part_name)
  then show ?thesis using assms identifier_rest_word [of w s] unfolding scan_identifier_def Let_def word_type_def by simp
qed

lemma next_word:
  assumes "lx_input lx = c # w @ s" "list_all name_char (c # w)" "\<not> is_digit c" "c \<noteq> CHR ''-''" "ends_word s"
  shows "\<exists>t lx'. next_token lx = Some (t, lx') \<and>
    shape t = (word_type (c # w), c # w, False) \<and> lx_input lx' = s"
proof -
  let ?lx = "skip_spaces lx"
  from assms(2) have c: "name_char c" by simp
  then have lx: "lx_input ?lx = c # w @ s" using assms(1) name_char_facts [OF c] by (intro skip_spaces_id) auto
  have "scan_string_literal ?lx = None" "scan_punctuator ?lx = None" "scan_numeric_literal ?lx = None"
    using lx name_char_facts [OF c] assms(3,4)
    by (simp_all add: scan_string_literal_def scan_punctuator_def scan_numeric_literal_def)
  then show ?thesis
    using scan_identifier_word [OF lx assms(2,5)] lx
    by (auto simp: next_token_def Let_def or_else_def simple_token_def shape_def skip_def)
qed

lemma lexes_any_word:
  assumes "w \<noteq> []" "list_all name_char w" "\<not> is_digit (hd w)" "hd w \<noteq> CHR ''-''" "ends_word s" "lexes s ks"
  shows "lexes (w @ s) ((word_type w, w, False) # ks)"
proof (rule lexes_next [OF _ assms(6)])
  fix lx :: lexer
  assume lx: "lx_input lx = w @ s"
  obtain c v where w: "w = c # v" using assms(1) by (cases w) auto
  have "lx_input lx = c # v @ s" "list_all name_char (c # v)" "\<not> is_digit c" "c \<noteq> CHR ''-''"
    using lx assms(2-4) unfolding w by simp_all
  from next_word [OF this assms(5)]
  show "\<exists>t lx'. next_token lx = Some (t, lx') \<and> shape t = (word_type w, w, False) \<and> lx_input lx' = s"
    unfolding w .
qed

lemma lexes_name: "wf_name w \<Longrightarrow> ends_word s \<Longrightarrow> lexes s ks \<Longrightarrow> lexes (w @ s) (word w # ks)"
  using lexes_any_word [of w s ks] by (simp add: wf_name_def word_type_def word_def)

lemma lexes_bool:
  "ends_word s \<Longrightarrow> lexes s ks \<Longrightarrow>
   lexes ((if b then ''true'' else ''false'') @ s) ((T_Bool, if b then ''true'' else ''false'', False) # ks)"
proof -
  assume s: "ends_word s" "lexes s ks"
  have t: "list_all name_char ''true''" "list_all name_char ''false''" by code_simp+
  have "lexes (''true'' @ s) ((word_type ''true'', ''true'', False) # ks)"
    by (rule lexes_any_word) (use s t in \<open>simp_all add: is_digit_def\<close>)
  moreover have "lexes (''false'' @ s) ((word_type ''false'', ''false'', False) # ks)"
    by (rule lexes_any_word) (use s t in \<open>simp_all add: is_digit_def\<close>)
  ultimately show ?thesis by (cases b) (simp_all add: word_type_def)
qed

lemma takeWhile_until: "q \<notin> set v \<Longrightarrow> takeWhile (\<lambda>c. c \<noteq> q) (v @ q # s) = v"
  by (induction v) auto

lemma lexes_string:
  assumes "CHR 0x27 \<notin> set v" "lexes s ks"
  shows "lexes ([CHR 0x27] @ v @ [CHR 0x27] @ s) ((T_String, v, False) # ks)"
proof (rule lexes_next [OF _ assms(2)])
  fix lx :: lexer
  assume "lx_input lx = [CHR 0x27] @ v @ [CHR 0x27] @ s"
  then have lx: "lx_input (skip_spaces lx) = CHR 0x27 # v @ CHR 0x27 # s"
    by (intro skip_spaces_id) (simp_all add: is_space_def)
  show "\<exists>t lx'. next_token lx = Some (t, lx') \<and> shape t = (T_String, v, False) \<and> lx_input lx' = s"
    using lx takeWhile_until [OF assms(1), of s]
    by (simp add: next_token_def Let_def scan_string_literal_def skip_def shape_def)
qed

text \<open>Numbers: the digits of a natural number.\<close>

lemma string_of_nat_digits: "list_all is_digit (string_of_nat n)"
proof (induction n rule: string_of_nat.induct)
  case (1 n)
  have "is_digit (digit_char k)" if "k < 10" for k using that by (simp add: is_digit_def of_char_digit_char)
  with 1 show ?case by (subst string_of_nat.simps) simp
qed

lemma nat_of_digits_snoc: "nat_of_digits (s @ [c]) = nat_of_digits s * 10 + (of_char c - 48)"
  by (simp add: nat_of_digits_def)

lemma nat_of_digits_string_of_nat: "nat_of_digits (string_of_nat n) = n"
proof (induction n rule: string_of_nat.induct)
  case (1 n)
  show ?case
  proof (cases "n < 10")
    case True
    then show ?thesis by (subst string_of_nat.simps) (simp add: nat_of_digits_def of_char_digit_char)
  next
    case False
    with 1 show ?thesis by (subst string_of_nat.simps) (simp add: nat_of_digits_snoc of_char_digit_char)
  qed
qed

lemma string_of_nat_leading: "hd (string_of_nat n) = CHR ''0'' \<Longrightarrow> string_of_nat n = ''0''"
proof (induction n rule: string_of_nat.induct)
  case (1 n)
  show ?case
  proof (cases "n < 10")
    case True
    have "digit_char n = CHR ''0'' \<Longrightarrow> n = 0" using of_char_digit_char [OF True] by (cases n) auto
    with True "1.prems" show ?thesis by (subst (asm) string_of_nat.simps, subst string_of_nat.simps) auto
  next
    case False
    then have "hd (string_of_nat (n div 10)) = CHR ''0''"
      using "1.prems" by (subst (asm) string_of_nat.simps) simp
    then have "string_of_nat (n div 10) = ''0''" using "1.IH" False by blast
    moreover have "string_of_nat 0 = ''0''" by code_simp
    ultimately have "n div 10 = 0" by (metis string_of_nat_inj)
    with False show ?thesis by simp
  qed
qed

lemma read_decimal_digits:
  assumes "list_all is_digit w" "w \<noteq> []"
  shows "read_decimal w = Some \<lparr>dc_negative = False, dc_digits = nat_of_digits w, dc_exponent = 0\<rparr>"
proof -
  have "hd w \<noteq> CHR ''-''" using assms by (cases w) (auto simp: is_digit_def)
  moreover have "takeWhile is_digit w = w" "dropWhile is_digit w = []" using assms(1) by (simp_all add: list_all_iff)
  ultimately show ?thesis using assms(2)
    by (simp add: read_decimal_def Let_def del: takeWhile_eq_all_conv dropWhile_eq_Nil_conv)
qed

lemma lexes_digits:
  assumes "list_all is_digit w" "w \<noteq> []" "hd w = CHR ''0'' \<Longrightarrow> w = ''0''" "ends_word s" "s = [] \<or> hd s \<noteq> CHR ''.''" "lexes s ks"
  shows "lexes (w @ s) ((T_Number, w, False) # ks)"
proof (rule lexes_next [OF _ assms(6)])
  fix lx :: lexer
  assume lx: "lx_input lx = w @ s"
  obtain c v where w: "w = c # v" using assms(2) by (cases w) auto
  have c: "is_digit c" "list_all is_digit v" using assms(1) w by simp_all
  then have nc: "\<not> is_space c" "c \<noteq> CHR 0x22" "c \<noteq> CHR 0x27" "\<not> is_punctuator c" "c \<noteq> CHR ''.''" "c \<noteq> CHR ''-''"
    by (auto simp: is_digit_def is_space_def is_punctuator_def)
  let ?lx = "skip_spaces lx"
  from lx nc(1) have i: "lx_input ?lx = c # v @ s" unfolding w by (intro skip_spaces_id) simp_all
  have s: "s = [] \<or> is_punctuator (hd s) \<and> \<not> is_digit (hd s)"
    using assms(4) punctuator_facts [of "hd s"] by (auto simp: ends_word_def)
  have tw: "takeWhile is_digit (v @ s) = v" "dropWhile is_digit (v @ s) = s"
    using c(2) s by (cases s; auto simp: list_all_iff takeWhile_append dropWhile_append)+
  have "scan_fraction (c # v) s = (c # v, s)" using assms(5) by (cases s) (auto simp: scan_fraction_def)
  moreover have "scan_exponent (c # v) s = Some (c # v, s)"
    using s by (cases s) (auto simp: scan_exponent_def is_punctuator_def)
  ultimately have d: "scan_digits [c] (v @ s) p = Some (number_token (c # v) (\<not> is_finite_text (c # v)) (Some p))" for p
    using s tw by (auto simp: scan_digits_def scan_decimal_def)
  have "scan_numeric_literal ?lx = scan_digits [c] (v @ s) (lx_char ?lx)"
  proof (cases "c = CHR ''0''")
    case True
    with assms(3) w have "v = []" by simp
    with s show ?thesis using i c nc True
      by (auto simp: scan_numeric_literal_def Let_def is_punctuator_def is_octal_digit_def)
  next
    case False
    then show ?thesis using i c nc by (simp add: scan_numeric_literal_def)
  qed
  then show "\<exists>t lx'. next_token lx = Some (t, lx') \<and> shape t = (T_Number, w, False) \<and> lx_input lx' = s"
    unfolding w using i d nc
    by (auto simp: next_token_def Let_def scan_string_literal_def scan_punctuator_def or_else_def number_token_def shape_def skip_def)
qed

text \<open>The text of a tree lexes to its tokens.\<close>

lemma lexes_segments:
  assumes "segs \<noteq> []" "list_all wf_segment segs" "ends_word s" "s = [] \<or> hd s \<noteq> CHR ''.''" "lexes s ks"
  shows "lexes (join_with ''.'' (map segment_text segs) @ s)
    (join_lists [punct (CHR ''.'')] (map (\<lambda>a. [word (segment_text a)]) segs) @ ks)"
  using assms(1,2)
proof (induction segs rule: induct_list012)
  case (2 a)
  then have "wf_name (segment_text a)" by (auto simp: wf_segment_def segment_text_def split: ast.splits option.splits)
  then show ?case using assms(3,5) by (simp add: lexes_name)
next
  case (3 a b segs)
  then have a: "wf_name (segment_text a)" by (auto simp: wf_segment_def segment_text_def split: ast.splits option.splits)
  let ?t = "join_with ''.'' (map segment_text (b # segs)) @ s"
  let ?k = "join_lists [punct (CHR ''.'')] (map (\<lambda>a. [word (segment_text a)]) (b # segs)) @ ks"
  have "lexes ?t ?k" using 3 by simp
  then have "lexes (CHR ''.'' # ?t) (punct (CHR ''.'') # ?k)" by (rule lexes_punct [rotated]) (simp add: is_punctuator_def)
  then have "lexes (segment_text a @ CHR ''.'' # ?t) (word (segment_text a) # punct (CHR ''.'') # ?k)"
    by (rule lexes_name [OF a, rotated]) (simp add: ends_word_def is_punctuator_def)
  then show ?case by simp
qed simp

lemma lexes_params:
  assumes "\<And>a s ks. a \<in> set ps \<Longrightarrow> ends_word s \<Longrightarrow> s = [] \<or> hd s \<noteq> CHR ''.'' \<Longrightarrow> lexes s ks \<Longrightarrow>
      lexes (print_ast a @ s) (shapes a @ ks)"
    and "lexes s ks" "ends_word s" "s = [] \<or> hd s \<noteq> CHR ''.''"
  shows "lexes (join_with '', '' (map print_ast ps) @ s) (join_lists [punct (CHR '','')] (map shapes ps) @ ks)"
  using assms(1)
proof (induction ps rule: induct_list012)
  case 1
  then show ?case using assms(2) by simp
next
  case (2 a)
  show ?case using 2 [of a s ks] assms(2-4) by simp
next
  case (3 a b ps)
  let ?t = "join_with '', '' (map print_ast (b # ps)) @ s"
  let ?k = "join_lists [punct (CHR '','')] (map shapes (b # ps)) @ ks"
  have "lexes ?t ?k" using "3.IH"(2) "3.prems" by simp
  then have "lexes (CHR '' '' # ?t) ?k" by (rule lexes_space)
  then have "lexes (CHR '','' # CHR '' '' # ?t) (punct (CHR '','') # ?k)"
    by (rule lexes_punct [rotated]) (simp add: is_punctuator_def)
  then have "lexes (print_ast a @ CHR '','' # CHR '' '' # ?t) (shapes a @ punct (CHR '','') # ?k)"
    by (intro "3.prems") (simp_all add: ends_word_def is_punctuator_def)
  then show ?case by simp
qed

lemma lexes_print:
  "wf_ast a \<Longrightarrow> ends_word s \<Longrightarrow> s = [] \<or> hd s \<noteq> CHR ''.'' \<Longrightarrow> lexes s ks \<Longrightarrow> lexes (print_ast a @ s) (shapes a @ ks)"
proof (induction a arbitrary: s ks)
  case (Function f ps)
  have "lexes (CHR '')'' # s) (punct (CHR '')'') # ks)" using Function.prems by (intro lexes_punct) (simp_all add: is_punctuator_def)
  then have "lexes (join_with '', '' (map print_ast ps) @ CHR '')'' # s)
      (join_lists [punct (CHR '','')] (map shapes ps) @ punct (CHR '')'') # ks)"
    using Function.prems Function.IH by (intro lexes_params) (auto simp: list_all_iff ends_word_def is_punctuator_def)
  then have "lexes (CHR ''('' # join_with '', '' (map print_ast ps) @ CHR '')'' # s)
      (punct (CHR ''('') # join_lists [punct (CHR '','')] (map shapes ps) @ punct (CHR '')'') # ks)"
    by (rule lexes_punct [rotated]) (simp add: is_punctuator_def)
  then have "lexes (f @ CHR ''('' # join_with '', '' (map print_ast ps) @ CHR '')'' # s)
      (word f # punct (CHR ''('') # join_lists [punct (CHR '','')] (map shapes ps) @ punct (CHR '')'') # ks)"
    using Function.prems(1) by (intro lexes_name) (simp_all add: ends_word_def is_punctuator_def)
  then show ?case by simp
next
  case (Number_Node x)
  then obtain n where x: "x = Some \<lparr>dc_negative = False, dc_digits = n, dc_exponent = 0\<rparr>" by auto
  show ?case
    using Number_Node.prems lexes_digits [OF string_of_nat_digits string_of_nat_nonempty string_of_nat_leading]
    by (simp add: x)
next
  case (Bool_Node b)
  then show ?case using lexes_bool [of s ks b] by simp
next
  case (String_Node v)
  then show ?case using lexes_string [of v s ks] by simp
qed (simp_all add: lexes_segments lexes_name)

section \<open>Parsing the tokens\<close>

definition parameter :: "nat \<Rightarrow> nat \<Rightarrow> token list \<Rightarrow> ast option parsed" where
  "parameter n final ts =
     parse_or (parse_or (parse_or (parse_or (parse_or (function_call n final ts) numeric_literal)
       series_ref_expression) bool_expression) (metric_expression n final)) string_literal"

text \<open>A parameter ends before a comma, a closing parenthesis, or the end.\<close>

definition ends_param :: "token list \<Rightarrow> bool" where
  "ends_param ts \<longleftrightarrow> ts = [] \<or> tk_type (hd ts) \<in> {T_Punctuator (CHR '',''), T_Punctuator (CHR '')'')}"

fun need_list :: "nat list \<Rightarrow> nat" where
  "need_list [] = 1"
| "need_list (k # ks) = Suc (max k (need_list ks))"

fun need :: "ast \<Rightarrow> nat" where
  "need (Function f ps) = Suc (need_list (map need ps))"
| "need (Metric segs) = max 1 (length segs)"
| "need _ = 1"

lemma match_token_simps [simp]:
  "match_token t (u # ts) \<longleftrightarrow> tk_type u = t" "\<not> match_token t []"
  by (simp_all add: match_token_def)

lemma match_two_simps [simp]:
  "match_two t t' (u # ts) \<longleftrightarrow> tk_type u = t \<and> match_token t' ts" "\<not> match_two t t' []"
  by (simp_all add: match_two_def)

lemma parse_simps [simp]:
  "parse_bind (Inr (x, ts)) f = f x ts"
  "parse_or (Inr (Some a, ts)) g = Inr (Some a, ts)"
  "parse_or (Inr (None, ts)) g = g ts"
  by (simp_all add: parse_bind_def parse_or_def)

lemma shape_simps: "shape u = (t, v, b) \<longleftrightarrow> tk_type u = t \<and> tk_value u = v \<and> tk_unclosed u = b"
  by (auto simp: shape_def)

lemma shape_words: "shape u = word w \<longleftrightarrow> tk_type u = T_Identifier \<and> tk_value u = w \<and> \<not> tk_unclosed u"
  "shape u = punct c \<longleftrightarrow> tk_type u = T_Punctuator c \<and> tk_value u = [c] \<and> \<not> tk_unclosed u"
  by (auto simp: shape_def word_def punct_def)

lemma name_parts: "wf_name w \<Longrightarrow> value_parts w = [w]"
  using split_on_absent [of "CHR ''.''" w] name_char_facts
  by (auto simp: value_parts_def wf_name_def list_all_iff)

lemma wf_segment_name: "wf_segment a \<Longrightarrow> wf_name (segment_text a) \<and> a = Segment (Some (segment_text a))"
  by (auto simp: wf_segment_def segment_text_def split: ast.splits option.splits)

lemma metric_segment_word:
  assumes "shape u = word (segment_text a)" "wf_segment a" "rest = [] \<or> tk_type (hd rest) \<noteq> T_Punctuator (CHR ''{'')"
  shows "metric_segment final (u # rest) = Inr (a, rest)"
proof -
  have a: "wf_name (segment_text a)" "a = Segment (Some (segment_text a))" using wf_segment_name [OF assms(2)] by auto
  have "curly_brace_segment final (u # rest) = Inr (None, u # rest)"
    using assms(1,3) by (cases rest) (auto simp: curly_brace_segment_def starts_curly_def shape_words)
  then show ?thesis
    using assms(1) name_parts [OF a(1)] a(2)
    by (simp add: metric_segment_def shape_words Let_def split_number_def)
qed

lemma metric_rest_words:
  "map shape us = concat (map (\<lambda>a. [punct (CHR ''.''), word (segment_text a)]) segs) \<Longrightarrow> list_all wf_segment segs \<Longrightarrow>
   ends_param rest \<Longrightarrow> length segs < n \<Longrightarrow> metric_rest n final (us @ rest) = Inr (segs, rest)"
proof (induction segs arbitrary: us n)
  case Nil
  then show ?case by (cases n; cases rest) (auto simp: ends_param_def)
next
  case (Cons a segs)
  then obtain d u vs where us: "us = d # u # vs" "shape d = punct (CHR ''.'')" "shape u = word (segment_text a)"
    "map shape vs = concat (map (\<lambda>a. [punct (CHR ''.''), word (segment_text a)]) segs)"
    by (auto simp: map_eq_Cons_conv)
  obtain m where n: "n = Suc m" using Cons.prems(4) by (cases n) auto
  have "vs @ rest = [] \<or> tk_type (hd (vs @ rest)) \<noteq> T_Punctuator (CHR ''{'')"
    using us(4) Cons.prems(3) by (cases segs; cases vs; cases rest) (auto simp: ends_param_def shape_words)
  then have "metric_segment final (u # vs @ rest) = Inr (a, vs @ rest)"
    using us(3) Cons.prems(2) by (intro metric_segment_word) auto
  moreover have "metric_rest m final (vs @ rest) = Inr (segs, rest)"
    using Cons.prems n us(4) by (intro Cons.IH) auto
  ultimately show ?case using us(1,2) by (simp add: n shape_words)
qed

lemma join_dots:
  "join_lists [punct (CHR ''.'')] (map (\<lambda>a. [word (segment_text a)]) (a # segs)) =
   word (segment_text a) # concat (map (\<lambda>a. [punct (CHR ''.''), word (segment_text a)]) segs)"
  by (induction segs arbitrary: a) auto

lemma metric_words:
  assumes "map shape us = shapes (Metric segs)" "segs \<noteq> []" "list_all wf_segment segs" "ends_param rest" "length segs \<le> n"
  shows "metric_expression n final (us @ rest) = Inr (Some (Metric segs), rest) \<and> us \<noteq> [] \<and>
    shape (hd us) = word (segment_text (hd segs)) \<and> \<not> match_two T_Identifier (T_Punctuator (CHR ''('')) (us @ rest)"
proof -
  obtain a as where segs: "segs = a # as" using assms(2) by (cases segs) auto
  obtain u vs where us: "us = u # vs" "shape u = word (segment_text a)"
    "map shape vs = concat (map (\<lambda>a. [punct (CHR ''.''), word (segment_text a)]) as)"
    using assms(1) by (auto simp: segs join_dots map_eq_Cons_conv simp del: join_lists.simps list.map(2))
  have h: "vs @ rest = [] \<or> tk_type (hd (vs @ rest)) \<in> {T_Punctuator (CHR ''.''), T_Punctuator (CHR '',''), T_Punctuator (CHR '')'')}"
    using us(3) assms(4) by (cases as; cases vs; cases rest) (auto simp: ends_param_def shape_words)
  then have "metric_segment final (u # vs @ rest) = Inr (a, vs @ rest)"
    using us(2) assms(3) by (intro metric_segment_word) (auto simp: segs)
  moreover have "metric_rest n final (vs @ rest) = Inr (as, rest)"
    using us(3) assms segs by (intro metric_rest_words) auto
  ultimately show ?thesis
    using us h by (cases "vs @ rest") (auto simp: metric_expression_def shape_words segs)
qed

lemma no_call: "0 < n \<Longrightarrow> \<not> match_two T_Identifier (T_Punctuator (CHR ''('')) ts \<Longrightarrow> function_call n final ts = Inr (None, ts)"
  by (cases n) simp_all

lemma function_parameters_step:
  "ts \<noteq> [] \<Longrightarrow> \<not> match_token (T_Punctuator (CHR '')'')) ts \<Longrightarrow> parameter n final ts = Inr (Some a, us) \<Longrightarrow>
   function_parameters (Suc n) final ts =
     (if \<not> match_token (T_Punctuator (CHR '','')) us then Inr ([a], us)
      else parse_bind (function_parameters n final (tl us)) (\<lambda>ps ts. Inr (a # ps, ts)))"
  by (simp flip: parameter_def)

lemma shapes_first:
  assumes "wf_ast a" "map shape us = shapes a"
  shows "us \<noteq> [] \<and> \<not> match_token (T_Punctuator c) (us @ rest)"
proof (cases a)
  case (Metric segs)
  then show ?thesis
    using assms by (cases segs) (auto simp: join_dots map_eq_Cons_conv shape_words simp del: join_lists.simps list.map(2))
qed (use assms in \<open>auto simp: map_eq_Cons_conv shape_words shape_simps\<close>)

lemma function_parameters_print:
  assumes "\<And>a us rest n. a \<in> set ps \<Longrightarrow> map shape us = shapes a \<Longrightarrow> ends_param rest \<Longrightarrow> need a \<le> n \<Longrightarrow>
      parameter n final (us @ rest) = Inr (Some a, rest)"
    and "list_all wf_ast ps"
    and "map shape us = join_lists [punct (CHR '','')] (map shapes ps)" "match_token (T_Punctuator (CHR '')'')) rest"
    and "need_list (map need ps) \<le> n"
  shows "function_parameters n final (us @ rest) = Inr (ps, rest)"
  using assms(1-3,5)
proof (induction ps arbitrary: us n rule: induct_list012)
  case 1
  then show ?case using assms(4) by (cases n) simp_all
next
  case (2 a)
  then obtain m where n: "n = Suc m" "need a \<le> m" by (cases n) auto
  have "ends_param rest" "\<not> match_token (T_Punctuator (CHR '','')) rest"
    using assms(4) by (cases rest; simp add: ends_param_def)+
  moreover have "us \<noteq> [] \<and> \<not> match_token (T_Punctuator (CHR '')'')) (us @ rest)"
    using 2 by (intro shapes_first [of a]) simp_all
  ultimately show ?case
    using 2 n function_parameters_step [of "us @ rest" m final a rest] by simp
next
  case (3 a b ps)
  then obtain m where n: "n = Suc m" "need a \<le> m" "need_list (map need (b # ps)) \<le> m" by (cases n) auto
  have "map shape us = shapes a @ punct (CHR '','') # join_lists [punct (CHR '','')] (map shapes (b # ps))"
    using "3.prems"(3) by simp
  then obtain vs c ws where us: "us = vs @ c # ws" "map shape vs = shapes a" "shape c = punct (CHR '','')"
    "map shape ws = join_lists [punct (CHR '','')] (map shapes (b # ps))"
    by (auto simp: map_eq_append_conv map_eq_Cons_conv)
  have rec: "function_parameters m final (ws @ rest) = Inr (b # ps, rest)"
    by (rule "3.IH"(2)) (use "3.prems" us(4) n(3) in auto)
  have c: "tk_type c = T_Punctuator (CHR '','')" using us(3) by (simp add: shape_words)
  have "parameter m final (vs @ c # ws @ rest) = Inr (Some a, c # ws @ rest)"
    by (rule "3.prems"(1)) (use us(2) c n(2) in \<open>simp_all add: ends_param_def\<close>)
  moreover have "vs \<noteq> [] \<and> \<not> match_token (T_Punctuator (CHR '')'')) (vs @ c # ws @ rest)"
    using "3.prems" us(2) by (intro shapes_first [of a]) simp_all
  ultimately show ?case
    using function_parameters_step [of "vs @ c # ws @ rest" m final a "c # ws @ rest"] c rec by (simp add: us(1) n(1))
qed

lemma function_call_print:
  assumes "\<And>a us rest n. a \<in> set ps \<Longrightarrow> map shape us = shapes a \<Longrightarrow> ends_param rest \<Longrightarrow> need a \<le> n \<Longrightarrow>
      parameter n final (us @ rest) = Inr (Some a, rest)"
    and "list_all wf_ast ps" "map shape us = shapes (Function f ps)" "need (Function f ps) \<le> n"
  shows "function_call n final (us @ rest) = Inr (Some (Function f ps), rest)"
proof -
  obtain m where n: "n = Suc m" "need_list (map need ps) \<le> m" using assms(4) by (cases n) auto
  obtain u p vs c where us: "us = u # p # vs @ [c]" "shape u = word f" "shape p = punct (CHR ''('')"
      "map shape vs = join_lists [punct (CHR '','')] (map shapes ps)" "shape c = punct (CHR '')'')"
    using assms(3) by (auto simp: map_eq_append_conv map_eq_Cons_conv)
  have "function_parameters m final (vs @ c # rest) = Inr (ps, c # rest)"
    using assms(1,2) us(4,5) n(2) by (intro function_parameters_print) (auto simp: shape_words)
  then show ?thesis using us by (simp add: n(1) shape_words)
qed

lemma parameter_print:
  "wf_ast a \<Longrightarrow> map shape us = shapes a \<Longrightarrow> ends_param rest \<Longrightarrow> need a \<le> n \<Longrightarrow>
   parameter n final (us @ rest) = Inr (Some a, rest)"
proof (induction a arbitrary: us rest n)
  case (Function f ps)
  have "function_call n final (us @ rest) = Inr (Some (Function f ps), rest)"
    by (rule function_call_print) (use Function in \<open>auto simp: list_all_iff\<close>)
  then show ?case by (simp add: parameter_def)
next
  case (Metric segs)
  have m: "metric_expression n final (us @ rest) = Inr (Some (Metric segs), rest) \<and> us \<noteq> [] \<and>
    shape (hd us) = word (segment_text (hd segs)) \<and> \<not> match_two T_Identifier (T_Punctuator (CHR ''('')) (us @ rest)"
    by (rule metric_words) (use Metric.prems in simp_all)
  moreover have "segment_text (hd segs) \<noteq> []"
    using Metric.prems(1) wf_segment_name [of "hd segs"] by (cases segs) (auto simp: wf_name_def)
  moreover have "0 < n" using Metric.prems(4) by simp
  ultimately show ?case
    using Metric.prems(1) no_call [of n "us @ rest" final]
    by (cases us) (auto simp: parameter_def numeric_literal_def series_ref_expression_def bool_expression_def shape_words)
next
  case (Bool_Node b)
  then obtain u where "us = [u]" "tk_type u = T_Bool" "tk_value u = (if b then ''true'' else ''false'')"
    by (auto simp: map_eq_Cons_conv shape_simps)
  then show ?case
    using Bool_Node.prems no_call [of n "us @ rest" final]
    by (simp add: parameter_def numeric_literal_def series_ref_expression_def bool_expression_def)
next
  case (Number_Node x)
  then obtain u k where u: "us = [u]" "tk_type u = T_Number" "tk_value u = string_of_nat k"
      "x = Some \<lparr>dc_negative = False, dc_digits = k, dc_exponent = 0\<rparr>"
    by (auto simp: map_eq_Cons_conv shape_simps)
  moreover have "read_decimal (string_of_nat k) = x"
    using read_decimal_digits [OF string_of_nat_digits string_of_nat_nonempty, of k] u(4)
    by (simp add: nat_of_digits_string_of_nat)
  ultimately show ?case
    using Number_Node.prems no_call [of n "us @ rest" final] by (simp add: parameter_def numeric_literal_def)
next
  case (String_Node v)
  then obtain u where "us = [u]" "tk_type u = T_String" "tk_value u = v" "\<not> tk_unclosed u"
    by (auto simp: map_eq_Cons_conv shape_simps)
  then show ?case
    using String_Node.prems no_call [of n "us @ rest" final]
    by (simp add: parameter_def numeric_literal_def series_ref_expression_def bool_expression_def metric_expression_def
        string_literal_def Let_def)
next
  case (Series_Ref v)
  then obtain u where "us = [u]" "tk_type u = T_Identifier" "tk_value u = v"
    by (auto simp: map_eq_Cons_conv shape_words)
  then show ?case
    using Series_Ref.prems no_call [of n "us @ rest" final]
    by (cases rest) (auto simp: parameter_def numeric_literal_def series_ref_expression_def ends_param_def)
qed simp_all

section \<open>Fuel\<close>

lemma length_join_dots: "length (join_lists [punct (CHR ''.'')] (map (\<lambda>a. [word (segment_text a)]) segs)) \<ge> length segs"
  by (induction segs rule: induct_list012) auto

lemma need_list_bound:
  "(\<And>a. a \<in> set ps \<Longrightarrow> need a \<le> length (shapes a) \<and> shapes a \<noteq> []) \<Longrightarrow>
   need_list (map need ps) \<le> length (join_lists [k] (map shapes ps)) + 1"
proof (induction ps rule: induct_list012)
  case (2 a)
  from "2.prems" [of a] show ?case by (cases "shapes a") auto
next
  case (3 a b ps)
  from "3.prems" [of a] have "need a \<le> length (shapes a)" "shapes a \<noteq> []" by simp_all
  moreover have "need_list (map need (b # ps)) \<le> length (join_lists [k] (map shapes (b # ps))) + 1"
    using "3.IH"(2) "3.prems" by simp
  ultimately show ?case by (cases "shapes a") auto
qed simp

lemma need_bound: "wf_ast a \<Longrightarrow> need a \<le> length (shapes a) \<and> shapes a \<noteq> []"
proof (induction a)
  case (Function f ps)
  then have "need_list (map need ps) \<le> length (join_lists [punct (CHR '','')] (map shapes ps)) + 1"
    by (intro need_list_bound) (auto simp: list_all_iff)
  then show ?case by simp
next
  case (Metric segs)
  then show ?case using length_join_dots [of segs] by (cases segs) (auto simp: join_dots simp del: join_lists.simps)
qed auto

lemma length_le_fuel: "length ts + 2 \<le> parser_fuel ts"
proof -
  have "length ts \<le> sum_list (map token_weight ts)"
  proof (induction ts)
    case (Cons u ts)
    with token_weight_pos [of u] show ?case unfolding list.map sum_list.Cons length_Cons by linarith
  qed simp
  then show ?thesis by (simp add: parser_fuel_def)
qed

section \<open>The round trip\<close>

lemma get_ast_print:
  assumes "wf_ast a" "case a of Function _ _ \<Rightarrow> True | Metric _ \<Rightarrow> True | _ \<Rightarrow> False"
  shows "get_ast (print_ast a) = Some (Some a)"
proof -
  obtain ts lx where t: "tokenize (new_lexer (print_ast a)) = (ts, lx)" by (cases "tokenize (new_lexer (print_ast a))")
  let ?n = "parser_fuel ts" and ?f = "lx_char lx"
  have "lexes (print_ast a) (shapes a)"
    using lexes_print [OF assms(1), of "[]" "[]"] lexes_nil by (simp add: ends_word_def)
  then have "map shape (fst (tokenize (new_lexer (print_ast a)))) = shapes a" by (simp add: lexes_def new_lexer_def)
  then have ts: "map shape ts = shapes a" by (simp only: t fst_conv)
  then have "length ts = length (shapes a)" by (metis length_map)
  then have n: "need a \<le> ?n" "0 < ?n" using need_bound [OF assms(1)] length_le_fuel [of ts] by auto
  have "parse_or (function_call ?n ?f ts) (metric_expression ?n ?f) = Inr (Some a, [])"
  proof (cases a)
    case (Function f ps)
    have "function_call ?n ?f (ts @ []) = Inr (Some (Function f ps), [])"
      by (rule function_call_print) (use assms(1) Function ts n parameter_print in \<open>auto simp: list_all_iff\<close>)
    then show ?thesis using Function by simp
  next
    case (Metric segs)
    have "metric_expression ?n ?f (ts @ []) = Inr (Some (Metric segs), []) \<and> ts \<noteq> [] \<and>
        shape (hd ts) = word (segment_text (hd segs)) \<and> \<not> match_two T_Identifier (T_Punctuator (CHR ''('')) (ts @ [])"
      by (rule metric_words) (use assms(1) Metric ts n in \<open>auto simp: ends_param_def\<close>)
    then show ?thesis using no_call [OF n(2), of ts ?f] Metric by simp
  qed (use assms(2) in simp_all)
  then show ?thesis using t by (simp add: get_ast_def start_def)
qed

definition read_ast :: "string \<Rightarrow> ast option" where
  "read_ast s = (case get_ast s of Some (Some a) \<Rightarrow> Some a | _ \<Rightarrow> None)"

text \<open>So different trees have different texts.\<close>

interpretation ast_text: codec print_ast read_ast "\<lambda>a. wf_ast a \<and> (case a of Function _ _ \<Rightarrow> True | Metric _ \<Rightarrow> True | _ \<Rightarrow> False)"
  by unfold_locales (simp add: read_ast_def get_ast_print)



end
