(* ===== verification/Graphite_Func.thy ===== *)
theory Graphite_Func
  imports Graphite_Print
begin

text \<open>
  The functions of a Graphite query, \<open>public/app/plugins/datasource/graphite/gfunc.ts\<close>: definitions of functions,
  their instances in a query, the text of an instance, and the editing of its parameters.

  The table of known functions, which the data source may load from its server, is the parameter \<open>defs\<close>;
  \<open>rv\<close> stands for the replacement of template variables in a text. An instance carries a number that tells
  it from the others, as the identity of the object does in the source.
\<close>

section \<open>Values of parameters\<close>

datatype param_value =
    P_Str string
  | P_Num "decimal option"   \<comment> \<open>\<open>None\<close>: not a number\<close>
  | P_Bool bool
  | P_Undefined

definition zeros :: "int \<Rightarrow> string" where
  "zeros n = replicate (nat n) (CHR ''0'')"

definition string_of_int :: "int \<Rightarrow> string" where
  "string_of_int n = (if n < 0 then CHR ''-'' # string_of_nat (nat (- n)) else string_of_nat (nat n))"

text \<open>
  The text of a number, as \<open>Number::toString\<close> lays out its digits: without trailing zeros, with a point
  or an exponent where it is short enough or not. Digits beyond those a double holds are not rounded.
\<close>

definition number_text :: "decimal \<Rightarrow> string" where
  "number_text d =
     (if dc_digits d = 0 then ''0''
      else
        let ds = string_of_nat (dc_digits d); n = int (length ds) + dc_exponent d;
            ds = rev (dropWhile (\<lambda>c. c = CHR ''0'') (rev ds)); k = int (length ds);
            body =
              (if \<not> decimal_finite d then ''Infinity''
               else if k \<le> n \<and> n \<le> 21 then ds @ zeros (n - k)
               else if 0 < n \<and> n \<le> 21 then take (nat n) ds @ ''.'' @ drop (nat n) ds
               else if - 6 < n \<and> n \<le> 0 then ''0.'' @ zeros (- n) @ ds
               else take 1 ds @ (if k = 1 then [] else ''.'' @ drop 1 ds) @ ''e'' @ (if 0 < n then ''+'' else []) @ string_of_int (n - 1))
        in if dc_negative d then CHR ''-'' # body else body)"

definition value_text :: "param_value \<Rightarrow> string" where
  "value_text v =
     (case v of
        P_Str s \<Rightarrow> s
      | P_Num None \<Rightarrow> ''NaN''
      | P_Num (Some d) \<Rightarrow> number_text d
      | P_Bool b \<Rightarrow> (if b then ''true'' else ''false'')
      | P_Undefined \<Rightarrow> ''undefined'')"

text \<open>\<open>toString\<close> of lodash, which keeps the sign of zero.\<close>

definition lodash_text :: "param_value \<Rightarrow> string" where
  "lodash_text v =
     (case v of
        P_Num (Some d) \<Rightarrow> if dc_digits d = 0 \<and> dc_negative d then ''-0'' else number_text d
      | _ \<Rightarrow> value_text v)"

text \<open>What \<open>join\<close> makes of an element.\<close>

definition joined_text :: "param_value \<Rightarrow> string" where
  "joined_text v = (if v = P_Undefined then [] else value_text v)"

text \<open>Whether \<open>+s\<close> is a finite number, for a text \<open>s\<close>.\<close>

definition drop_sign :: "string \<Rightarrow> string" where
  "drop_sign s = (if s \<noteq> [] \<and> hd s \<in> {CHR ''+'', CHR ''-''} then tl s else s)"

definition decimal_literal :: "string \<Rightarrow> bool" where
  "decimal_literal s \<longleftrightarrow>
     (let s = drop_sign s; whole = takeWhile is_digit s; s = dropWhile is_digit s;
          dot = (s \<noteq> [] \<and> hd s = CHR ''.''); fraction = (if dot then takeWhile is_digit (tl s) else []);
          s = (if dot then dropWhile is_digit (tl s) else s)
      in whole @ fraction \<noteq> [] \<and>
         (s = [] \<or> hd s \<in> {CHR ''e'', CHR ''E''} \<and> drop_sign (tl s) \<noteq> [] \<and> list_all is_digit (drop_sign (tl s))))"

definition radix_literal :: "string \<Rightarrow> bool" where
  "radix_literal s \<longleftrightarrow>
     (case s of
        z # x # ds \<Rightarrow>
          z = CHR ''0'' \<and> ds \<noteq> [] \<and>
          (x \<in> {CHR ''x'', CHR ''X''} \<and> list_all is_hex_digit ds \<and> hex_code ds < 2 ^ 1024 - 2 ^ 970 \<or>
           x \<in> {CHR ''o'', CHR ''O''} \<and> list_all is_octal_digit ds \<and> fold (\<lambda>c n. n * 8 + hex_value c) ds 0 < 2 ^ 1024 - 2 ^ 970 \<or>
           x \<in> {CHR ''b'', CHR ''B''} \<and> list_all (\<lambda>c. c \<in> {CHR ''0'', CHR ''1''}) ds \<and>
             fold (\<lambda>c n. n * 2 + hex_value c) ds 0 < 2 ^ 1024 - 2 ^ 970)
      | _ \<Rightarrow> False)"

definition numeric_text :: "string \<Rightarrow> bool" where
  "numeric_text s \<longleftrightarrow>
     (let s = trim s in
      s = [] \<or> radix_literal s \<or>
      decimal_literal s \<and> is_finite_text (if hd s = CHR ''+'' then tl s else s))"

definition value_finite :: "(string \<Rightarrow> string) \<Rightarrow> param_value \<Rightarrow> bool" where
  "value_finite rv v \<longleftrightarrow>
     (case v of
        P_Str s \<Rightarrow> numeric_text (rv s)
      | P_Num x \<Rightarrow> (case x of None \<Rightarrow> False | Some d \<Rightarrow> decimal_finite d)
      | P_Bool _ \<Rightarrow> True
      | P_Undefined \<Rightarrow> False)"

section \<open>Definitions and instances\<close>

text \<open>The description of a function, a help text, is left out.\<close>

record param_def =
  pd_name :: string
  pd_type :: string
  pd_options :: "param_value list option"
  pd_multiple :: bool
  pd_optional :: bool
  pd_version :: "string option"

record func_def =
  fd_name :: string
  fd_params :: "param_def list"
  fd_default_params :: "param_value list"
  fd_category :: "string option"
  fd_short_name :: "string option"
  fd_fake :: bool
  fd_version :: "string option"
  fd_unknown :: bool

type_synonym func_defs = "string \<Rightarrow> func_def option"

record func_instance =
  fi_id :: nat
  fi_def :: func_def
  fi_params :: "param_value list"
  fi_text :: string
  fi_added :: bool
  fi_hidden :: bool

text \<open>Whether the last parameter may be repeated.\<close>

definition last_multiple :: "func_def \<Rightarrow> bool" where
  "last_multiple d \<longleftrightarrow> fd_params d \<noteq> [] \<and> pd_multiple (last (fd_params d))"

definition get_func_def :: "func_defs \<Rightarrow> string \<Rightarrow> func_def" where
  "get_func_def defs name =
     (case defs name of
        None \<Rightarrow>
          \<lparr>fd_name = name,
           fd_params = [\<lparr>pd_name = [], pd_type = [], pd_options = None, pd_multiple = True, pd_optional = False, pd_version = None\<rparr>],
           fd_default_params = [P_Str []], fd_category = None, fd_short_name = None, fd_fake = False, fd_version = None, fd_unknown = True\<rparr>
      | Some d \<Rightarrow> d)"

definition update_text :: "func_instance \<Rightarrow> func_instance" where
  "update_text f =
     (let name = fd_name (fi_def f) in
      if fi_params f = [] then f\<lparr>fi_text := name @ ''()''\<rparr>
      else f\<lparr>fi_text := name @ ''('' @ join_with '', '' (map joined_text (fi_params f)) @ '')''\<rparr>)"

definition create_func_instance :: "func_def \<Rightarrow> bool \<Rightarrow> nat \<Rightarrow> func_instance" where
  "create_func_instance d with_default_params i =
     update_text \<lparr>fi_id = i, fi_def = d, fi_params = (if with_default_params then fd_default_params d else []),
       fi_text = [], fi_added = False, fi_hidden = False\<rparr>"

section \<open>The text of an instance\<close>

definition param_type :: "func_def \<Rightarrow> nat \<Rightarrow> string option" where
  "param_type d i =
     (if i < length (fd_params d) then Some (pd_type (fd_params d ! i))
      else if last_multiple d then Some (pd_type (last (fd_params d))) else None)"

definition never_quoted_params :: "string list" where
  "never_quoted_params = [''value_or_series'', ''boolean'', ''int'', ''float'', ''node'', ''int_or_infinity'']"

definition never_quoted_functions :: "string list" where
  "never_quoted_functions = [''asPercent'']"

definition maybe_quoted_params :: "string list" where
  "maybe_quoted_params = [''int_or_interval'', ''node_or_tag'']"

definition render_param :: "(string \<Rightarrow> string) \<Rightarrow> func_def \<Rightarrow> nat \<Rightarrow> param_value \<Rightarrow> param_value" where
  "render_param rv d i v =
     (let t = param_type d i in
      if (case t of None \<Rightarrow> False | Some t \<Rightarrow> t \<in> set never_quoted_params) \<or> fd_name d \<in> set never_quoted_functions then v
      else if (case t of None \<Rightarrow> False | Some t \<Rightarrow> t \<in> set maybe_quoted_params) \<and> value_finite rv v then P_Str (lodash_text v)
      else P_Str ([CHR 0x27] @ value_text v @ [CHR 0x27]))"

definition drop_blank :: "param_value list \<Rightarrow> param_value list" where
  "drop_blank ps = rev (dropWhile (\<lambda>p. p = P_Str []) (rev ps))"

definition render_func :: "(string \<Rightarrow> string) \<Rightarrow> string \<Rightarrow> func_instance \<Rightarrow> string" where
  "render_func rv metric_exp f =
     (let d = fi_def f;
          ps = drop_blank (map (\<lambda>(i, v). render_param rv d i v) (enumerate 0 (fi_params f)));
          ps = (if metric_exp \<noteq> [] then P_Str metric_exp # ps else ps)
      in fd_name d @ ''('' @ join_with '', '' (map joined_text ps) @ '')'')"

section \<open>Editing the parameters\<close>

definition has_multiple_params_in_string :: "func_def \<Rightarrow> string \<Rightarrow> nat \<Rightarrow> bool" where
  "has_multiple_params_in_string d s i \<longleftrightarrow>
     CHR '','' \<in> set s \<and>
     (i + 1 < length (fd_params d) \<and> pd_optional (fd_params d ! (i + 1)) \<or>
      length (fd_params d) \<le> i + 1 \<and> last_multiple d)"

text \<open>\<open>xs[i] = x\<close>; between the end and \<open>i\<close> an array has holes, which read as undefined.\<close>

definition put_at :: "nat \<Rightarrow> param_value \<Rightarrow> param_value list \<Rightarrow> param_value list" where
  "put_at i x xs = (if i < length xs then xs[i := x] else xs @ replicate (i - length xs) P_Undefined @ [x])"

definition update_one_param :: "string \<Rightarrow> nat \<Rightarrow> func_instance \<Rightarrow> func_instance" where
  "update_one_param s i f =
     (let d = fi_def f in
      update_text
        (if s = [] \<and> (length (fd_params d) \<le> i \<or> pd_optional (fd_params d ! i))
         then f\<lparr>fi_params := remove_at i (fi_params f)\<rparr>
         else f\<lparr>fi_params := put_at i (P_Str s) (fi_params f)\<rparr>))"

text \<open>A part between commas has no comma, so the call for a part is the plain update.\<close>

definition update_param :: "string \<Rightarrow> nat \<Rightarrow> func_instance \<Rightarrow> func_instance" where
  "update_param s i f =
     (if has_multiple_params_in_string (fi_def f) s i
      then fold (\<lambda>(k, part) f. update_one_param (trim part) (i + k) f) (enumerate 0 (split_on (CHR '','') s)) f
      else update_one_param s i f)"

end
