(* ===== verification/Graphite_Query.thy ===== *)
theory Graphite_Query
  imports Graphite_Func
begin

text \<open>
  The model behind the Graphite query editor, \<open>public/app/plugins/datasource/graphite/graphite_query.ts\<close>: a query is
  a path of segments wrapped in functions, with the tags of a \<open>seriesByTag\<close> call. \<open>parse_target\<close> reads it from
  the text of the query, \<open>generate_query_string\<close> writes it, and the operations on segments, functions and tags
  edit it. Rendering the references to other queries is in \<open>Graphite_Refs\<close>.

  An exception leaves the fields as they were when it was thrown, so the reader of trees returns the query
  with it. A write behind the end of the tags, which would leave a hole, is \<open>Exn_Hole\<close>.
\<close>

section \<open>State\<close>

record graphite_segment =
  gs_value :: "string option"
  gs_type :: "string option"

record graphite_tag =
  tg_key :: string
  tg_operator :: string
  tg_value :: string

record graphite_target =
  gt_ref_id :: string
  gt_target :: string
  gt_target_full :: "string option"
  gt_text_editor :: bool

datatype query_exn =
    Exn_Too_Many string        \<comment> \<open>an object that is no \<open>Error\<close>\<close>
  | Exn_Mismatch string string
  | Exn_Type
  | Exn_Hole

datatype shown_error = Shown_Parser string nat | Shown_Query query_exn

record graphite_query =
  gq_functions :: "func_instance list"
  gq_segments :: "graphite_segment list"
  gq_tags :: "graphite_tag list"
  gq_error :: "shown_error option"
  gq_series_by_tag_used :: bool
  gq_check_index :: int
  gq_target :: graphite_target
  gq_next_id :: nat   \<comment> \<open>the identity of the next instance\<close>

definition segment_of :: "ast \<Rightarrow> graphite_segment" where
  "segment_of a =
     (case a of
        Segment v \<Rightarrow> \<lparr>gs_value = v, gs_type = Some ''segment''\<rparr>
      | Template v \<Rightarrow> \<lparr>gs_value = Some v, gs_type = Some ''template''\<rparr>
      | Series_Ref v \<Rightarrow> \<lparr>gs_value = Some v, gs_type = Some ''series-ref''\<rparr>
      | _ \<Rightarrow> \<lparr>gs_value = None, gs_type = None\<rparr>)"

section \<open>Writing the query\<close>

text \<open>A path that is empty or undefined so far is replaced by the next value.\<close>

definition extend_path :: "string option \<Rightarrow> string option \<Rightarrow> string option" where
  "extend_path path v =
     (case path of
        None \<Rightarrow> v
      | Some p \<Rightarrow> if p = [] then v else Some (p @ ''.'' @ (case v of None \<Rightarrow> ''undefined'' | Some s \<Rightarrow> s)))"

definition get_segment_path_up_to :: "nat \<Rightarrow> graphite_query \<Rightarrow> string option" where
  "get_segment_path_up_to i q = foldl extend_path (Some []) (map gs_value (take i (gq_segments q)))"

definition select_metric :: string where
  "select_metric = ''select metric''"

definition strip_select_metric :: "string \<Rightarrow> string" where
  "strip_select_metric s =
     (if ends_with (CHR ''.'' # select_metric) s then take (length s - 14) s
      else if ends_with select_metric s then take (length s - 13) s else s)"

definition generate_query_string :: "(string \<Rightarrow> string) \<Rightarrow> graphite_query \<Rightarrow> string option" where
  "generate_query_string rv q =
     map_option (\<lambda>path. foldl (render_func rv) (strip_select_metric path) (gq_functions q))
       (get_segment_path_up_to (length (gq_segments q)) q)"

section \<open>Tags\<close>

definition is_tag_sign :: "char \<Rightarrow> bool" where
  "is_tag_sign c \<longleftrightarrow> c \<in> {CHR ''!'', CHR ''='', CHR ''~''}"

text \<open>
  The operator in front of a text, and the text behind it. The pattern \<open>([^!=~]+)(!?=~?)(.*)\<close> matches at
  the first run of other characters that an operator follows.
\<close>

definition tag_operator :: "string \<Rightarrow> (string \<times> string) option" where
  "tag_operator s =
     (let bang = (s \<noteq> [] \<and> hd s = CHR ''!''); s' = (if bang then tl s else s) in
      if s' = [] \<or> hd s' \<noteq> CHR ''='' then None
      else let tilde = (tl s' \<noteq> [] \<and> hd (tl s') = CHR ''~'') in
        Some ((if bang then ''!'' else []) @ ''='' @ (if tilde then ''~'' else []), if tilde then tl (tl s') else tl s'))"

function match_tag :: "string \<Rightarrow> graphite_tag option" where
  "match_tag s =
     (let s = dropWhile is_tag_sign s; key = takeWhile (\<lambda>c. \<not> is_tag_sign c) s; rest = dropWhile (\<lambda>c. \<not> is_tag_sign c) s in
      if key = [] then None
      else case tag_operator rest of
          Some (op, v) \<Rightarrow> Some \<lparr>tg_key = key, tg_operator = op, tg_value = takeWhile (\<lambda>c. \<not> is_line_end c) v\<rparr>
        | None \<Rightarrow> match_tag rest)"
  by pat_completeness auto
termination
proof (relation "measure length")
  fix s t key rest :: string
  assume "t = dropWhile is_tag_sign s" "key = takeWhile (\<lambda>c. \<not> is_tag_sign c) t"
    "rest = dropWhile (\<lambda>c. \<not> is_tag_sign c) t" "key \<noteq> []"
  moreover have "length t = length key + length rest"
    using calculation by (metis length_append takeWhile_dropWhile_id)
  moreover have "length t \<le> length s" unfolding calculation(1) by (rule length_dropWhile_le)
  moreover have "0 < length key" using \<open>key \<noteq> []\<close> by simp
  ultimately have "length rest < length s" by linarith
  then show "(rest, s) \<in> measure length" by simp
qed simp

declare match_tag.simps [simp del]

definition split_series_by_tag_params :: "param_value list \<Rightarrow> graphite_tag list" where
  "split_series_by_tag_params ps = List.map_filter (\<lambda>p. match_tag (value_text p)) ps"

definition render_tag_string :: "graphite_tag \<Rightarrow> string" where
  "render_tag_string t = tg_key t @ tg_operator t @ tg_value t"

definition render_tag_expressions :: "nat option \<Rightarrow> graphite_query \<Rightarrow> string list" where
  "render_tag_expressions excluded q =
     filter (\<lambda>s. s \<noteq> [])
       (map (\<lambda>(_, t). render_tag_string t) (filter (\<lambda>(i, _). Some i \<noteq> excluded) (enumerate 0 (gq_tags q))))"

definition series_by_tag :: string where
  "series_by_tag = ''seriesByTag''"

definition get_series_by_tag_func_index :: "graphite_query \<Rightarrow> nat option" where
  "get_series_by_tag_func_index q = find_index (\<lambda>f. fd_name (fi_def f) = series_by_tag) (gq_functions q)"

section \<open>Preparing the parameters of a call\<close>

definition is_function :: "ast \<Rightarrow> bool" where
  "is_function a = (case a of Function _ _ \<Rightarrow> True | _ \<Rightarrow> False)"

text \<open>The value of a node, where it has one, and its text.\<close>

definition node_value :: "ast \<Rightarrow> param_value" where
  "node_value a =
     (case a of
        Segment v \<Rightarrow> (case v of None \<Rightarrow> P_Undefined | Some s \<Rightarrow> P_Str s)
      | Template s \<Rightarrow> P_Str s
      | Bool_Node b \<Rightarrow> P_Bool b
      | Number_Node x \<Rightarrow> P_Num x
      | String_Node s \<Rightarrow> P_Str s
      | Series_Ref s \<Rightarrow> P_Str s
      | _ \<Rightarrow> P_Undefined)"

text \<open>A comma follows every text but the last; a single one keeps its comma.\<close>

fun quoted_params :: "bool \<Rightarrow> ast list \<Rightarrow> string" where
  "quoted_params first [] = []"
| "quoted_params first (p # ps) =
     [CHR 0x27] @ value_text (node_value p) @ [CHR 0x27] @ (if first \<or> ps \<noteq> [] then '','' else []) @ quoted_params False ps"

fun second_series_by_tag :: "nat \<Rightarrow> ast list \<Rightarrow> ast list" where
  "second_series_by_tag n [] = []"
| "second_series_by_tag n (p # ps) =
     (let n = (if is_function p then Suc n else n) in
      (case p of
         Function name qs \<Rightarrow>
           if n = 2 \<and> name = series_by_tag then String_Node (name @ ''('' @ quoted_params True qs @ '')'') else p
       | _ \<Rightarrow> p) # second_series_by_tag n ps)"

definition handle_multiple_series_by_tags_params :: "ast list \<Rightarrow> ast list" where
  "handle_multiple_series_by_tags_params ps = (if 2 \<le> length ps then second_series_by_tag 0 ps else ps)"

text \<open>What was written so far is passed down, and a nested call writes it again.\<close>

fun nested_functions_to_string :: "ast list \<Rightarrow> string \<Rightarrow> string"
  and nested_node :: "ast \<Rightarrow> string \<Rightarrow> string" where
  "nested_functions_to_string [] acc = acc @ '')''"
| "nested_functions_to_string (p # ps) acc =
     nested_functions_to_string ps (acc @ nested_node p acc @ (if ps \<noteq> [] then '','' else []))"
| "nested_node (Function name ps) acc = nested_functions_to_string ps (acc @ name @ ''('')"
| "nested_node (Metric segs) acc = join_with ''.'' (map (\<lambda>a. joined_text (node_value a)) segs)"
| "nested_node a acc = value_text (node_value a)"

definition handle_divide_series_lists :: "string \<Rightarrow> ast list \<Rightarrow> ast list" where
  "handle_divide_series_lists name ps =
     (if name = ''divideSeriesLists'' \<and> 2 \<le> length ps
      then (case ps ! 1 of
              Function n qs \<Rightarrow> ps[1 := String_Node (n @ ''('' @ nested_functions_to_string qs [])]
            | _ \<Rightarrow> ps)
      else ps)"

definition prepared_params :: "string \<Rightarrow> ast list \<Rightarrow> ast list" where
  "prepared_params name ps = handle_divide_series_lists name (handle_multiple_series_by_tags_params ps)"

section \<open>Reading the query\<close>

text \<open>
  What reading a node leaves: the exception thrown, if any, the instance of the call around it, with the
  parameters added so far, and the query.
\<close>

type_synonym outcome = "query_exn option \<times> func_instance option \<times> graphite_query"

definition add_function_parameter :: "func_instance option \<Rightarrow> param_value \<Rightarrow> graphite_query \<Rightarrow> outcome" where
  "add_function_parameter func v q =
     (case func of
        None \<Rightarrow> (Some Exn_Type, None, q)
      | Some f \<Rightarrow>
          if length (fd_params (fi_def f)) \<le> length (fi_params f) \<and> \<not> last_multiple (fi_def f)
          then (Some (Exn_Too_Many (fd_name (fi_def f))), func, q)
          else (None, Some (f\<lparr>fi_params := fi_params f @ [v]\<rparr>), q))"

definition push_function :: "func_instance \<Rightarrow> graphite_query \<Rightarrow> graphite_query" where
  "push_function f q =
     (let f = update_text f in
      if fd_name (fi_def f) = series_by_tag \<and> \<not> gq_series_by_tag_used q
      then q\<lparr>gq_functions := gq_functions q @ [f\<lparr>fi_hidden := True\<rparr>], gq_series_by_tag_used := True,
             gq_tags := split_series_by_tag_params (fi_params f)\<rparr>
      else q\<lparr>gq_functions := gq_functions q @ [f]\<rparr>)"

definition new_instance :: "func_defs \<Rightarrow> string \<Rightarrow> graphite_query \<Rightarrow> func_instance \<times> graphite_query" where
  "new_instance defs name q =
     (create_func_instance (get_func_def defs name) False (gq_next_id q), q\<lparr>gq_next_id := gq_next_id q + 1\<rparr>)"

lemma size_list_update: "f x \<le> f (xs ! i) \<Longrightarrow> size_list f (xs[i := x]) \<le> size_list f xs"
proof (induction xs arbitrary: i)
  case (Cons y xs)
  then show ?case by (cases i) auto
qed simp

lemma size_second_series: "size_list size (second_series_by_tag n ps) \<le> size_list size ps"
  by (induction n ps rule: second_series_by_tag.induct) (auto simp: Let_def split: ast.splits)

lemma size_prepared_params: "size_list size (prepared_params name ps) \<le> size_list size ps"
proof -
  let ?qs = "handle_multiple_series_by_tags_params ps"
  have "size_list size (handle_divide_series_lists name ?qs) \<le> size_list size ?qs"
    by (auto simp: handle_divide_series_lists_def split: ast.splits intro!: size_list_update)
  moreover have "size_list size ?qs \<le> size_list size ps"
    by (simp add: handle_multiple_series_by_tags_params_def size_second_series)
  ultimately show ?thesis by (simp add: prepared_params_def)
qed

function parse_target_recursive :: "func_defs \<Rightarrow> ast \<Rightarrow> func_instance option \<Rightarrow> graphite_query \<Rightarrow> outcome"
  and parse_params :: "func_defs \<Rightarrow> ast list \<Rightarrow> func_instance option \<Rightarrow> graphite_query \<Rightarrow> outcome" where
  "parse_target_recursive defs (Function name ps) func q =
     (case new_instance defs name q of (inner, q) \<Rightarrow>
      (case parse_params defs (prepared_params name ps) (Some inner) q of
         (None, Some inner, q) \<Rightarrow> (None, func, push_function inner q)
       | (e, _, q) \<Rightarrow> (e, func, q)))"
| "parse_target_recursive defs (Series_Ref v) func q =
     (if gq_segments q \<noteq> [] \<or> get_series_by_tag_func_index q \<noteq> None then add_function_parameter func (P_Str v) q
      else (None, func, q\<lparr>gq_segments := gq_segments q @ [segment_of (Series_Ref v)]\<rparr>))"
| "parse_target_recursive defs (Bool_Node b) func q = add_function_parameter func (P_Bool b) q"
| "parse_target_recursive defs (String_Node s) func q = add_function_parameter func (P_Str s) q"
| "parse_target_recursive defs (Number_Node x) func q = add_function_parameter func (P_Num x) q"
| "parse_target_recursive defs (Metric segs) func q =
     (if gq_segments q \<noteq> [] \<or> gq_tags q \<noteq> []
      then add_function_parameter func (P_Str (join_with ''.'' (map (\<lambda>a. joined_text (node_value a)) segs))) q
      else (None, func, q\<lparr>gq_segments := map segment_of segs\<rparr>))"
| "parse_target_recursive defs (Segment v) func q = (None, func, q)"
| "parse_target_recursive defs (Template v) func q = (None, func, q)"
| "parse_target_recursive defs (Error_Node m p) func q = (None, func, q)"
| "parse_params defs [] func q = (None, func, q)"
| "parse_params defs (p # ps) func q =
     (case parse_target_recursive defs p func q of
        (None, func, q) \<Rightarrow> parse_params defs ps func q
      | (Some e, func, q) \<Rightarrow> (Some e, func, q))"
  by pat_completeness auto
termination
proof (relation "measure (case_sum (\<lambda>(_, a, _, _). size a) (\<lambda>(_, ps, _, _). size_list size ps))")
  fix defs name ps func q inner q'
  show "(Inr (defs, prepared_params name ps, Some inner, q'), Inl (defs, Function name ps, func, q))
      \<in> measure (case_sum (\<lambda>(_, a, _, _). size a) (\<lambda>(_, ps, _, _). size_list size ps))"
    using size_prepared_params [of name ps] by (simp add: less_Suc_eq_le)
qed auto

text \<open>\<open>o.replace(/\s|'|"|,/g, '')\<close>: what two texts of one query may differ in.\<close>

definition sanitize_query :: "string \<Rightarrow> string" where
  "sanitize_query s = filter (\<lambda>c. \<not> is_space c \<and> c \<notin> {CHR 0x27, CHR 0x22, CHR '',''}) s"

definition cleared :: "graphite_query \<Rightarrow> graphite_query" where
  "cleared q = q\<lparr>gq_functions := [], gq_segments := [], gq_tags := [], gq_series_by_tag_used := False, gq_error := None\<rparr>"

definition to_text_editor :: "graphite_query \<Rightarrow> graphite_query" where
  "to_text_editor q = q\<lparr>gq_target := (gq_target q)\<lparr>gt_text_editor := True\<rparr>\<rparr>"

text \<open>The text the query builder makes must be the text it read, or the query stays in the text editor.\<close>

definition check_query :: "(string \<Rightarrow> string) \<Rightarrow> graphite_query \<Rightarrow> query_exn option" where
  "check_query rv q =
     (let old = gt_target (gq_target q) in
      if old = [] then None
      else case generate_query_string rv q of
          None \<Rightarrow> Some Exn_Type
        | Some new \<Rightarrow>
            if sanitize_query old \<noteq> [] \<and> sanitize_query new \<noteq> [] \<and> sanitize_query old \<noteq> sanitize_query new
            then Some (Exn_Mismatch old new) else None)"

definition catch_exn :: "query_exn \<Rightarrow> graphite_query \<Rightarrow> graphite_query" where
  "catch_exn e q =
     to_text_editor (case e of Exn_Too_Many _ \<Rightarrow> q | _ \<Rightarrow> q\<lparr>gq_error := Some (Shown_Query e)\<rparr>)"

definition read_tree :: "func_defs \<Rightarrow> (string \<Rightarrow> string) \<Rightarrow> ast \<Rightarrow> graphite_query \<Rightarrow> graphite_query" where
  "read_tree defs rv a q =
     (let q = (case parse_target_recursive defs a None q of
                 (Some e, _, q) \<Rightarrow> catch_exn e q
               | (None, _, q) \<Rightarrow> (case check_query rv q of None \<Rightarrow> q | Some e \<Rightarrow> catch_exn e q))
      in q\<lparr>gq_check_index := int (length (gq_segments q)) - 1\<rparr>)"

text \<open>The parser returns on every text; the first case is that it does not.\<close>

definition parse_target :: "func_defs \<Rightarrow> (string \<Rightarrow> string) \<Rightarrow> graphite_query \<Rightarrow> graphite_query" where
  "parse_target defs rv q =
     (let q = cleared q in
      if gt_text_editor (gq_target q) then q
      else case get_ast (gt_target (gq_target q)) of
          None \<Rightarrow> q
        | Some None \<Rightarrow> q\<lparr>gq_check_index := 0\<rparr>
        | Some (Some (Error_Node m p)) \<Rightarrow> to_text_editor (q\<lparr>gq_error := Some (Shown_Parser m p)\<rparr>)
        | Some (Some a) \<Rightarrow> read_tree defs rv a q)"

definition new_graphite_query :: "func_defs \<Rightarrow> (string \<Rightarrow> string) \<Rightarrow> graphite_target \<Rightarrow> graphite_query" where
  "new_graphite_query defs rv t =
     parse_target defs rv
       \<lparr>gq_functions = [], gq_segments = [], gq_tags = [], gq_error = None, gq_series_by_tag_used = False,
        gq_check_index = 0, gq_target = t, gq_next_id = 0\<rparr>"

section \<open>Editing the query\<close>

type_synonym edited = "query_exn option \<times> graphite_query"

definition update_segment_value :: "string option \<Rightarrow> nat \<Rightarrow> graphite_query \<Rightarrow> edited" where
  "update_segment_value v i q =
     (if i < length (gq_segments q)
      then (None, q\<lparr>gq_segments := (gq_segments q)[i := (gq_segments q ! i)\<lparr>gs_value := v\<rparr>]\<rparr>)
      else (Some Exn_Type, q))"

definition add_select_metric_segment :: "graphite_query \<Rightarrow> graphite_query" where
  "add_select_metric_segment q =
     q\<lparr>gq_segments := gq_segments q @ [\<lparr>gs_value = Some select_metric, gs_type = None\<rparr>]\<rparr>"

definition add_function :: "func_instance \<Rightarrow> graphite_query \<Rightarrow> graphite_query" where
  "add_function f q = q\<lparr>gq_functions := gq_functions q @ [f]\<rparr>"

definition remove_function :: "nat \<Rightarrow> graphite_query \<Rightarrow> graphite_query" where
  "remove_function i q = q\<lparr>gq_functions := filter (\<lambda>f. fi_id f \<noteq> i) (gq_functions q)\<rparr>"

text \<open>Where \<open>splice\<close> starts: a negative position counts from the end, and both ends bound it.\<close>

definition splice_start :: "nat \<Rightarrow> int \<Rightarrow> nat" where
  "splice_start n i = nat (if i < 0 then max 0 (int n + i) else min i (int n))"

definition array_move :: "'a list \<Rightarrow> int \<Rightarrow> int \<Rightarrow> 'a list option" where
  "array_move xs i j =
     (let i = splice_start (length xs) i in
      if i < length xs
      then let ys = remove_at i xs in Some (insert_at (splice_start (length ys) j) (xs ! i) ys)
      else None)"

definition move_function :: "nat \<Rightarrow> int \<Rightarrow> graphite_query \<Rightarrow> edited" where
  "move_function f offset q =
     (let i = (case find_index (\<lambda>g. fi_id g = f) (gq_functions q) of None \<Rightarrow> - 1 | Some i \<Rightarrow> int i) in
      case array_move (gq_functions q) i (i + offset) of
        None \<Rightarrow> (Some Exn_Hole, q)
      | Some fs \<Rightarrow> (None, q\<lparr>gq_functions := fs\<rparr>))"

definition set_params :: "nat \<Rightarrow> (param_value list \<Rightarrow> param_value list) \<Rightarrow> graphite_query \<Rightarrow> graphite_query" where
  "set_params i g q =
     q\<lparr>gq_functions := (gq_functions q)[i := (gq_functions q ! i)\<lparr>fi_params := g (fi_params (gq_functions q ! i))\<rparr>]\<rparr>"

definition add_tag :: "graphite_tag \<Rightarrow> graphite_query \<Rightarrow> edited" where
  "add_tag t q =
     (case get_series_by_tag_func_index q of
        None \<Rightarrow> (Some Exn_Type, q)
      | Some i \<Rightarrow> (None, (set_params i (\<lambda>ps. ps @ [P_Str (render_tag_string t)]) q)\<lparr>gq_tags := gq_tags q @ [t]\<rparr>))"

definition remove_tag :: "nat \<Rightarrow> graphite_query \<Rightarrow> edited" where
  "remove_tag k q =
     (case get_series_by_tag_func_index q of
        None \<Rightarrow> (Some Exn_Type, q)
      | Some i \<Rightarrow> (None, (set_params i (remove_at k) q)\<lparr>gq_tags := remove_at k (gq_tags q)\<rparr>))"

definition remove_tag_value :: string where
  "remove_tag_value = ''-- remove tag --''"

definition update_tag :: "graphite_tag \<Rightarrow> nat \<Rightarrow> graphite_query \<Rightarrow> edited" where
  "update_tag t k q =
     (let q = q\<lparr>gq_error := None\<rparr> in
      if tg_key t = remove_tag_value
      then (case remove_tag k q of
              (Some e, q) \<Rightarrow> (Some e, q)
            | (None, q) \<Rightarrow>
                if gq_tags q \<noteq> [] then (None, q)
                else (None,
                  (case get_series_by_tag_func_index q of
                     None \<Rightarrow> q
                   | Some i \<Rightarrow> remove_function (fi_id (gq_functions q ! i)) q)
                    \<lparr>gq_check_index := 0, gq_series_by_tag_used := False\<rparr>))
      else case get_series_by_tag_func_index q of
          None \<Rightarrow> (Some Exn_Type, q)
        | Some i \<Rightarrow>
            (let q = set_params i (put_at k (P_Str (render_tag_string t))) q in
             if k < length (gq_tags q) then (None, q\<lparr>gq_tags := (gq_tags q)[k := t]\<rparr>)
             else if k = length (gq_tags q) then (None, q\<lparr>gq_tags := gq_tags q @ [t]\<rparr>)
             else (Some Exn_Hole, q)))"

section \<open>Tags stay in step with the parameters\<close>

definition tag_ok :: "graphite_tag \<Rightarrow> bool" where
  "tag_ok t \<longleftrightarrow>
     tg_key t \<noteq> [] \<and> list_all (\<lambda>c. \<not> is_tag_sign c) (tg_key t) \<and> list_all (\<lambda>c. \<not> is_line_end c) (tg_value t) \<and>
     tg_operator t \<in> {''='', ''!='', ''=~'', ''!=~''} \<and>
     (tg_value t \<noteq> [] \<and> hd (tg_value t) = CHR ''~'' \<longrightarrow> tg_operator t \<in> {''=~'', ''!=~''})"

definition tags_in_step :: "graphite_query \<Rightarrow> bool" where
  "tags_in_step q \<longleftrightarrow>
     (case get_series_by_tag_func_index q of
        None \<Rightarrow> False
      | Some i \<Rightarrow> map (\<lambda>p. match_tag (value_text p)) (fi_params (gq_functions q ! i)) = map Some (gq_tags q))"

text \<open>The text of a tag reads as the tag.\<close>

lemma tag_operator_render:
  "op \<in> {''='', ''!='', ''=~'', ''!=~''} \<Longrightarrow> (v \<noteq> [] \<and> hd v = CHR ''~'' \<longrightarrow> op \<in> {''=~'', ''!=~''}) \<Longrightarrow>
   tag_operator (op @ v) = Some (op, v)"
  by (cases v) (auto simp: tag_operator_def)

lemma match_render_tag:
  assumes "tag_ok t"
  shows "match_tag (render_tag_string t) = Some t"
proof -
  let ?k = "tg_key t" and ?r = "tg_operator t @ tg_value t"
  from assms have k: "?k \<noteq> []" "\<not> is_tag_sign (hd ?k)" "\<forall>c \<in> set ?k. \<not> is_tag_sign c"
    by (auto simp: tag_ok_def list_all_iff)
  have r: "?r \<noteq> []" "is_tag_sign (hd ?r)" using assms by (auto simp: tag_ok_def is_tag_sign_def)
  have s: "dropWhile is_tag_sign (render_tag_string t) = ?k @ ?r"
    using k(1,2) by (cases ?k) (auto simp: render_tag_string_def)
  have "takeWhile (\<lambda>c. \<not> is_tag_sign c) (?k @ ?r) = ?k" "dropWhile (\<lambda>c. \<not> is_tag_sign c) (?k @ ?r) = ?r"
    using k(3) r by (cases ?r; simp add: takeWhile_append dropWhile_append)+
  moreover have "tag_operator ?r = Some (tg_operator t, tg_value t)"
    using assms unfolding tag_ok_def by (intro tag_operator_render) blast+
  moreover have "takeWhile (\<lambda>c. \<not> is_line_end c) (tg_value t) = tg_value t"
    using assms by (auto simp: tag_ok_def list_all_iff takeWhile_eq_all_conv)
  ultimately show ?thesis
    using k(1) by (subst match_tag.simps) (simp add: s Let_def)
qed

interpretation tag_text: codec render_tag_string match_tag tag_ok
  by unfold_locales (rule match_render_tag)

lemma find_index_update:
  "find_index P xs = Some i \<Longrightarrow> P x \<Longrightarrow> find_index P (xs[i := x]) = Some i"
proof (induction xs arbitrary: i)
  case (Cons y xs)
  then show ?case by (cases i) (auto split: if_splits)
qed simp

lemma set_params_index:
  assumes "get_series_by_tag_func_index q = Some i"
  shows "get_series_by_tag_func_index (set_params i g q) = Some i"
    and "fi_params (gq_functions (set_params i g q) ! i) = g (fi_params (gq_functions q ! i))"
    and "fi_id (gq_functions (set_params i g q) ! i) = fi_id (gq_functions q ! i)"
proof -
  from find_index_SomeD [OF assms [unfolded get_series_by_tag_func_index_def]]
  have i: "i < length (gq_functions q)" "fd_name (fi_def (gq_functions q ! i)) = series_by_tag" by simp_all
  show "get_series_by_tag_func_index (set_params i g q) = Some i"
    using assms i unfolding get_series_by_tag_func_index_def set_params_def by (simp add: find_index_update)
  show "fi_params (gq_functions (set_params i g q) ! i) = g (fi_params (gq_functions q ! i))"
    and "fi_id (gq_functions (set_params i g q) ! i) = fi_id (gq_functions q ! i)"
    using i by (simp_all add: set_params_def)
qed

lemma set_params_fields [simp]:
  "gq_tags (set_params i g q) = gq_tags q" "gq_error (set_params i g q) = gq_error q"
  by (simp_all add: set_params_def)

lemma series_index_fields [simp]:
  "get_series_by_tag_func_index (q\<lparr>gq_tags := ts\<rparr>) = get_series_by_tag_func_index q"
  "get_series_by_tag_func_index (q\<lparr>gq_error := e\<rparr>) = get_series_by_tag_func_index q"
  by (simp_all add: get_series_by_tag_func_index_def)

lemma tags_in_stepI:
  "get_series_by_tag_func_index q = Some i \<Longrightarrow>
   map (\<lambda>p. match_tag (value_text p)) (g (fi_params (gq_functions q ! i))) = map Some ts \<Longrightarrow>
   tags_in_step ((set_params i g q)\<lparr>gq_tags := ts\<rparr>)"
  by (simp add: tags_in_step_def set_params_index)

lemma map_remove_at: "map f (remove_at k xs) = remove_at k (map f xs)"
  by (simp add: remove_at_def take_map drop_map)

section \<open>Reading keeps the target\<close>

lemma text_editor_fields [simp]:
  "gt_text_editor (gq_target (to_text_editor q))"
  "gq_target (q\<lparr>gq_check_index := i\<rparr>) = gq_target q"
  by (simp_all add: to_text_editor_def)

lemma generate_check_index [simp]: "generate_query_string rv (q\<lparr>gq_check_index := i\<rparr>) = generate_query_string rv q"
  by (simp add: generate_query_string_def get_segment_path_up_to_def)

lemma catch_exn_editor [simp]: "gt_text_editor (gq_target (catch_exn e q))"
  by (simp add: catch_exn_def)

lemma parse_keeps_target:
  "parse_target_recursive defs a func q = (e, func', q') \<Longrightarrow> gq_target q' = gq_target q"
  "parse_params defs ps func q = (e, func', q') \<Longrightarrow> gq_target q' = gq_target q"
proof (induction defs a func q and defs ps func q arbitrary: e func' q' and e func' q'
    rule: parse_target_recursive_parse_params.induct)
  case (1 defs name ps func q)
  obtain inner q1 where n: "new_instance defs name q = (inner, q1)" by (cases "new_instance defs name q")
  then have q1: "gq_target q1 = gq_target q" by (auto simp: new_instance_def)
  obtain e2 f2 q2 where p: "parse_params defs (prepared_params name ps) (Some inner) q1 = (e2, f2, q2)"
    by (cases "parse_params defs (prepared_params name ps) (Some inner) q1")
  with "1.IH" [of inner q1 e2 f2 q2] n q1 have "gq_target q2 = gq_target q" by simp
  then show ?case
    using "1.prems" n p by (auto simp: push_function_def Let_def split: option.splits if_splits)
next
  case (11 defs p ps func q)
  obtain e2 f2 q2 where p: "parse_target_recursive defs p func q = (e2, f2, q2)"
    by (cases "parse_target_recursive defs p func q")
  from "11.IH"(1) [OF p] have t: "gq_target q2 = gq_target q" .
  show ?case
  proof (cases e2)
    case None
    with "11.prems" p have "parse_params defs ps f2 q2 = (e, func', q')" by simp
    then show ?thesis using "11.IH"(2) None p t by auto
  next
    case (Some x)
    with "11.prems" p t show ?thesis by simp
  qed
qed (auto simp: add_function_parameter_def split: option.splits if_splits)

end
