(* ===== verification/Graphite_Editor.thy ===== *)
theory Graphite_Editor
  imports Graphite_Query
begin

text \<open>
  Properties of the model behind the Graphite query editor: what the builder writes it reads again, what it
  cannot write is left to the text editor, and tags stay in step with the parameters of their call.
\<close>

section \<open>Edits of tags\<close>

lemma add_tag_step:
  assumes "tags_in_step q" "tag_ok t"
  shows "\<exists>q'. add_tag t q = (None, q') \<and> tags_in_step q' \<and> gq_tags q' = gq_tags q @ [t]"
proof -
  obtain i where i: "get_series_by_tag_func_index q = Some i"
      "map (\<lambda>p. match_tag (value_text p)) (fi_params (gq_functions q ! i)) = map Some (gq_tags q)"
    using assms(1) by (auto simp: tags_in_step_def split: option.splits)
  have "tags_in_step ((set_params i (\<lambda>ps. ps @ [P_Str (render_tag_string t)]) q)\<lparr>gq_tags := gq_tags q @ [t]\<rparr>)"
    by (rule tags_in_stepI [OF i(1)]) (use i(2) tag_text.dec_enc [OF assms(2)] in \<open>simp add: value_text_def [of "P_Str _"]\<close>)
  with i(1) show ?thesis by (simp add: add_tag_def)
qed

lemma update_tag_step:
  assumes "tags_in_step q" "tag_ok t" "k < length (gq_tags q)" "tg_key t \<noteq> remove_tag_value"
  shows "\<exists>q'. update_tag t k q = (None, q') \<and> tags_in_step q' \<and> gq_tags q' = (gq_tags q)[k := t] \<and> gq_error q' = None"
proof -
  let ?q = "q\<lparr>gq_error := None\<rparr>"
  obtain i where i: "get_series_by_tag_func_index q = Some i"
      "map (\<lambda>p. match_tag (value_text p)) (fi_params (gq_functions q ! i)) = map Some (gq_tags q)"
    using assms(1) by (auto simp: tags_in_step_def split: option.splits)
  then have len: "length (fi_params (gq_functions q ! i)) = length (gq_tags q)" by (metis length_map)
  have "tags_in_step ((set_params i (put_at k (P_Str (render_tag_string t))) ?q)\<lparr>gq_tags := (gq_tags q)[k := t]\<rparr>)"
    by (rule tags_in_stepI)
       (use i len assms(3) tag_text.dec_enc [OF assms(2)] in \<open>simp_all add: put_at_def map_update value_text_def [of "P_Str _"]\<close>)
  with i(1) assms(3,4) show ?thesis by (simp add: update_tag_def Let_def)
qed

lemma remove_tag_step:
  assumes "tags_in_step q" "tg_key t = remove_tag_value" "k < length (gq_tags q)"
  shows "\<exists>q'. update_tag t k q = (None, q') \<and> gq_tags q' = remove_at k (gq_tags q) \<and>
    (if gq_tags q' \<noteq> [] then tags_in_step q'
     else \<not> gq_series_by_tag_used q' \<and> gq_check_index q' = 0 \<and>
       (\<exists>i. get_series_by_tag_func_index q = Some i \<and> fi_id (gq_functions q ! i) \<notin> fi_id ` set (gq_functions q')))"
proof -
  let ?q = "q\<lparr>gq_error := None\<rparr>"
  obtain i where i: "get_series_by_tag_func_index q = Some i"
      "map (\<lambda>p. match_tag (value_text p)) (fi_params (gq_functions q ! i)) = map Some (gq_tags q)"
    using assms(1) by (auto simp: tags_in_step_def split: option.splits)
  let ?r = "(set_params i (remove_at k) ?q)\<lparr>gq_tags := remove_at k (gq_tags q)\<rparr>"
  have step: "tags_in_step ?r"
    by (rule tags_in_stepI) (use i in \<open>simp_all add: map_remove_at\<close>)
  have r: "remove_tag k ?q = (None, ?r)" using i(1) by (simp add: remove_tag_def)
  show ?thesis
  proof (cases "remove_at k (gq_tags q) = []")
    case True
    have "get_series_by_tag_func_index ?r = Some i" "fi_id (gq_functions ?r ! i) = fi_id (gq_functions q ! i)"
      using set_params_index [of ?q i "remove_at k"] i(1) by simp_all
    with True r i(1) assms(2) show ?thesis by (auto simp: update_tag_def Let_def remove_function_def)
  next
    case False
    with r assms(2) step show ?thesis by (simp add: update_tag_def Let_def)
  qed
qed

text \<open>
  The tags shown and the parameters of the \<open>seriesByTag\<close> call, of which each must read as the tag at its
  place, stay in step: when a tag is added, when one is changed, and when one is removed; removing the last
  tag removes the call.
\<close>

theorem tag_edits_in_step:
  assumes "tags_in_step q"
  shows "(\<forall>t. tag_ok t \<longrightarrow> (\<exists>q'. add_tag t q = (None, q') \<and> tags_in_step q' \<and> gq_tags q' = gq_tags q @ [t])) \<and>
    (\<forall>k < length (gq_tags q). \<forall>t. tag_ok t \<and> tg_key t \<noteq> remove_tag_value \<longrightarrow>
      (\<exists>q'. update_tag t k q = (None, q') \<and> tags_in_step q' \<and> gq_tags q' = (gq_tags q)[k := t] \<and> gq_error q' = None)) \<and>
    (\<forall>k < length (gq_tags q). \<forall>t. tg_key t = remove_tag_value \<longrightarrow>
      (\<exists>q'. update_tag t k q = (None, q') \<and> gq_tags q' = remove_at k (gq_tags q) \<and>
        (if gq_tags q' \<noteq> [] then tags_in_step q'
         else \<not> gq_series_by_tag_used q' \<and> gq_check_index q' = 0 \<and>
           (\<exists>i. get_series_by_tag_func_index q = Some i \<and>
             fi_id (gq_functions q ! i) \<notin> fi_id ` set (gq_functions q')))))"
  using add_tag_step [OF assms] update_tag_step [OF assms] remove_tag_step [OF assms] by blast

definition no_defs :: func_defs where
  "no_defs = (\<lambda>_. None)"

definition tagged_target :: graphite_target where
  "tagged_target = \<lparr>gt_ref_id = ''A'', gt_target = ''seriesByTag('app=web', 'host!=~a.*')'', gt_target_full = None, gt_text_editor = False\<rparr>"

definition tagged_query :: graphite_query where
  "tagged_query = new_graphite_query no_defs id tagged_target"

lemma tagged_query_tree:
  "get_ast ''seriesByTag('app=web', 'host!=~a.*')'' =
     Some (Some (Function ''seriesByTag'' [String_Node ''app=web'', String_Node ''host!=~a.*'']))"
proof -
  let ?a = "Function ''seriesByTag'' [String_Node ''app=web'', String_Node ''host!=~a.*'']"
  have "wf_ast ?a" by (simp add: wf_name_def name_char_def identifier_start_table_def is_digit_def)
  moreover have "print_ast ?a = ''seriesByTag('app=web', 'host!=~a.*')''" by code_simp
  ultimately show ?thesis using get_ast_print [of ?a] by simp
qed

lemma tagged_query_read:
  "tagged_query = read_tree no_defs id (Function ''seriesByTag'' [String_Node ''app=web'', String_Node ''host!=~a.*''])
     \<lparr>gq_functions = [], gq_segments = [], gq_tags = [], gq_error = None, gq_series_by_tag_used = False,
      gq_check_index = 0, gq_target = tagged_target, gq_next_id = 0\<rparr>"
  unfolding tagged_query_def new_graphite_query_def parse_target_def Let_def cleared_def
  by (simp add: tagged_target_def tagged_query_tree)

lemma tagged_query_facts:
  "gq_tags tagged_query = [\<lparr>tg_key = ''app'', tg_operator = ''='', tg_value = ''web''\<rparr>,
     \<lparr>tg_key = ''host'', tg_operator = ''!=~'', tg_value = ''a.*''\<rparr>]"
  "tags_in_step tagged_query"
  unfolding tagged_query_read by code_simp+

lemma tag_edits_in_step_witness:
  "tags_in_step tagged_query \<and>
   (\<exists>q'. update_tag \<lparr>tg_key = remove_tag_value, tg_operator = ''='', tg_value = []\<rparr> 0 tagged_query = (None, q') \<and>
      gq_tags q' = [\<lparr>tg_key = ''host'', tg_operator = ''!=~'', tg_value = ''a.*''\<rparr>] \<and> tags_in_step q')"
proof -
  let ?t = "\<lparr>tg_key = remove_tag_value, tg_operator = ''='', tg_value = []\<rparr>"
  have k: "0 < length (gq_tags tagged_query)" "tg_key ?t = remove_tag_value" by (simp_all add: tagged_query_facts)
  from tag_edits_in_step [OF tagged_query_facts(2), THEN conjunct2, THEN conjunct2, rule_format, OF k]
  obtain q' where q': "update_tag ?t 0 tagged_query = (None, q')" "gq_tags q' = remove_at 0 (gq_tags tagged_query)"
    "gq_tags q' \<noteq> [] \<longrightarrow> tags_in_step q'" by auto
  then have "gq_tags q' = [\<lparr>tg_key = ''host'', tg_operator = ''!=~'', tg_value = ''a.*''\<rparr>]"
    by (simp add: tagged_query_facts remove_at_def)
  with q' show ?thesis using tagged_query_facts(2) by auto
qed

section \<open>What the builder cannot write\<close>

text \<open>
  After reading a query, either the text editor shows it, or the query parses to nothing, or the text the query builder
  makes is the text of the query up to blanks, quotes and commas, as far as both are more than those. A query that
  parses to nothing is not kept: it is shown in the builder as an empty one, and written as that.
\<close>

theorem builder_keeps_query:
  assumes "q' = parse_target defs rv q" "\<not> gt_text_editor (gq_target q')"
    and "get_ast (gt_target (gq_target q)) \<noteq> Some None" "gt_target (gq_target q) \<noteq> []"
  shows "gq_target q' = gq_target q \<and>
    (\<exists>t. generate_query_string rv q' = Some t \<and>
      (sanitize_query t = sanitize_query (gt_target (gq_target q)) \<or> sanitize_query t = [] \<or>
       sanitize_query (gt_target (gq_target q)) = []))"
proof -
  let ?q = "cleared q" and ?s = "gt_target (gq_target q)"
  have c: "gq_target ?q = gq_target q" by (simp add: cleared_def)
  obtain x where x: "get_ast ?s = Some x" using get_ast_total [of ?s] by blast
  from assms(1,2) c have v: "\<not> gt_text_editor (gq_target q)" by (auto simp: parse_target_def Let_def)
  from assms(3) x obtain a where a: "x = Some a" by auto
  have "q' = read_tree defs rv a ?q"
    using assms(1,2) v x a c by (cases a) (simp_all add: parse_target_def Let_def)
  moreover obtain e f q1 where r: "parse_target_recursive defs a None ?q = (e, f, q1)"
    by (cases "parse_target_recursive defs a None ?q")
  ultimately have q': "e = None" "check_query rv q1 = None" "q' = q1\<lparr>gq_check_index := int (length (gq_segments q1)) - 1\<rparr>"
    using assms(2) by (auto simp: read_tree_def Let_def split: option.splits)
  have t: "gq_target q1 = gq_target q" using parse_keeps_target(1) [OF r] c by simp
  with q'(2) assms(4) obtain t where "generate_query_string rv q1 = Some t"
      "\<not> (sanitize_query ?s \<noteq> [] \<and> sanitize_query t \<noteq> [] \<and> sanitize_query ?s \<noteq> sanitize_query t)"
    by (auto simp: check_query_def Let_def split: option.splits if_splits)
  then show ?thesis using q'(3) t by auto
qed

lemma builder_keeps_query_witness:
  "\<not> gt_text_editor (gq_target tagged_query) \<and>
   (\<exists>t. generate_query_string id tagged_query = Some t \<and> sanitize_query t = ''seriesByTag(app=webhost!=~a.*)'')"
proof -
  have v: "\<not> gt_text_editor (gq_target tagged_query)"
    "sanitize_query (gt_target tagged_target) = ''seriesByTag(app=webhost!=~a.*)''"
    "generate_query_string id tagged_query = Some ''seriesByTag('app=web', 'host!=~a.*')''"
    unfolding tagged_query_read by code_simp+
  let ?q = "\<lparr>gq_functions = [], gq_segments = [], gq_tags = [], gq_error = None, gq_series_by_tag_used = False,
     gq_check_index = 0, gq_target = tagged_target, gq_next_id = 0\<rparr>"
  have q: "tagged_query = parse_target no_defs id ?q" by (simp add: tagged_query_def new_graphite_query_def)
  have "get_ast (gt_target (gq_target ?q)) \<noteq> Some None" "gt_target (gq_target ?q) \<noteq> []"
    by (simp_all add: tagged_target_def tagged_query_tree)
  from builder_keeps_query [OF q v(1) this] v show ?thesis by (auto simp: sanitize_query_def is_space_def)
qed

lemma unread_query_lost:
  assumes "gt_target t \<in> {''()'', [CHR 0x27, CHR ''x'', CHR 0x27]}" "\<not> gt_text_editor t"
  shows "let q = new_graphite_query no_defs id t in
     \<not> gt_text_editor (gq_target q) \<and> gq_error q = None \<and> generate_query_string id q = Some []"
proof -
  have "get_ast ''()'' = Some None" "get_ast [CHR 0x27, CHR ''x'', CHR 0x27] = Some None" by code_simp+
  with assms show ?thesis
    by (auto simp: new_graphite_query_def parse_target_def cleared_def generate_query_string_def get_segment_path_up_to_def
        strip_select_metric_def ends_with_def select_metric_def Let_def)
qed

text \<open>A call nested in the second list of \<open>divideSeriesLists\<close> repeats the parameters in front of it.\<close>

lemma nested_call_is_doubled:
  "prepared_params ''divideSeriesLists''
     [Metric [Segment (Some ''a'')], Function ''f'' [Metric [Segment (Some ''b'')], Function ''g'' [Metric [Segment (Some ''c'')]]]] =
   [Metric [Segment (Some ''a'')], String_Node ''f(b,b,g(c))'']"
  by code_simp

text \<open>A parameter that is no tag leaves tags and parameters out of step: the first tag is of the second parameter.\<close>

lemma tag_of_later_parameter:
  "split_series_by_tag_params [P_Str ''web'', P_Str ''app=web''] = [\<lparr>tg_key = ''app'', tg_operator = ''='', tg_value = ''web''\<rparr>]"
  by code_simp

section \<open>What the builder writes it reads again\<close>

text \<open>The text of a natural number as a parameter.\<close>

definition whole :: "nat \<Rightarrow> decimal" where
  "whole n = \<lparr>dc_negative = False, dc_digits = n, dc_exponent = 0\<rparr>"

lemma string_of_nat_length: "0 < k \<Longrightarrow> n < 10 ^ k \<Longrightarrow> length (string_of_nat n) \<le> k"
proof (induction k arbitrary: n)
  case (Suc k)
  show ?case
  proof (cases "n < 10")
    case True
    then show ?thesis by (subst string_of_nat.simps) simp
  next
    case False
    with Suc.prems have "n div 10 < 10 ^ k" by simp
    moreover have "0 < k" using False Suc.prems by (cases k) auto
    ultimately have "length (string_of_nat (n div 10)) \<le> k" using Suc.IH by blast
    with False show ?thesis by (subst string_of_nat.simps) simp
  qed
qed simp

lemma strip_and_pad:
  "rev (dropWhile (\<lambda>c. c = z) (rev ds)) @ replicate (length ds - length (rev (dropWhile (\<lambda>c. c = z) (rev ds)))) z = ds"
proof -
  let ?t = "takeWhile (\<lambda>c. c = z) (rev ds)" and ?d = "dropWhile (\<lambda>c. c = z) (rev ds)"
  have t: "?t = replicate (length ?t) z" by (induction ds rule: rev_induct) auto
  have "length ?t + length ?d = length ds" by (metis length_append length_rev takeWhile_dropWhile_id)
  then have "length ds - length (rev ?d) = length ?t" by simp
  moreover have "rev ?d @ replicate (length ?t) z = ds"
    by (metis t rev_append rev_replicate rev_rev_ident takeWhile_dropWhile_id)
  ultimately show ?thesis by simp
qed

lemma number_text_whole:
  assumes "n < 10 ^ 21"
  shows "number_text (whole n) = string_of_nat n"
proof (cases "n = 0")
  case True
  moreover have "string_of_nat 0 = ''0''" by code_simp
  ultimately show ?thesis by (simp add: number_text_def whole_def)
next
  case False
  let ?ds = "string_of_nat n" let ?r = "rev (dropWhile (\<lambda>c. c = CHR ''0'') (rev ?ds))"
  have len: "length ?ds \<le> 21" using string_of_nat_length [of 21 n] assms by simp
  have "length ?r \<le> length ?ds" using length_dropWhile_le [of _ "rev ?ds"] by simp
  moreover have "decimal_finite (whole n)"
  proof -
    have "(10 :: nat) ^ 21 < 2 ^ 1024 - 2 ^ 970" by simp
    with assms show ?thesis unfolding decimal_finite_def whole_def Let_def by simp
  qed
  moreover have "zeros (int (length ?ds) - int (length ?r)) = replicate (length ?ds - length ?r) (CHR ''0'')"
    by (simp add: zeros_def nat_minus_as_int)
  ultimately show ?thesis
    using False len strip_and_pad [of "CHR ''0''" ?ds]
    unfolding number_text_def whole_def by (simp add: Let_def)
qed

text \<open>A parameter that its place writes as it reads: a number or a boolean where values are not quoted, a reference to a query there, or a quoted text.\<close>

definition unquoted :: "func_def \<Rightarrow> nat \<Rightarrow> bool" where
  "unquoted d i \<longleftrightarrow>
     (case param_type d i of None \<Rightarrow> False | Some t \<Rightarrow> t \<in> set never_quoted_params) \<or> fd_name d \<in> set never_quoted_functions"

definition maybe_quoted :: "func_def \<Rightarrow> nat \<Rightarrow> bool" where
  "maybe_quoted d i \<longleftrightarrow> (case param_type d i of None \<Rightarrow> False | Some t \<Rightarrow> t \<in> set maybe_quoted_params)"

fun fits :: "(string \<Rightarrow> string) \<Rightarrow> func_def \<Rightarrow> nat \<Rightarrow> param_value \<Rightarrow> bool" where
  "fits rv d i (P_Num x) \<longleftrightarrow> (case x of None \<Rightarrow> False | Some y \<Rightarrow> y = whole (dc_digits y) \<and> dc_digits y < 10 ^ 21) \<and> (unquoted d i \<or> maybe_quoted d i)"
| "fits rv d i (P_Bool b) \<longleftrightarrow> unquoted d i"
| "fits rv d i (P_Str s) \<longleftrightarrow>
     (if unquoted d i then wf_name s \<and> has_series_ref s else CHR 0x27 \<notin> set s \<and> \<not> (maybe_quoted d i \<and> numeric_text (rv s)))"
| "fits rv d i P_Undefined \<longleftrightarrow> False"

fun param_node :: "func_def \<Rightarrow> nat \<Rightarrow> param_value \<Rightarrow> ast" where
  "param_node d i (P_Num x) = Number_Node x"
| "param_node d i (P_Bool b) = Bool_Node b"
| "param_node d i (P_Str s) = (if unquoted d i then Series_Ref s else String_Node s)"
| "param_node d i P_Undefined = String_Node []"

definition param_nodes :: "func_instance \<Rightarrow> ast list" where
  "param_nodes f = map (\<lambda>(i, v). param_node (fi_def f) i v) (enumerate 0 (fi_params f))"

definition call_ok :: "func_defs \<Rightarrow> (string \<Rightarrow> string) \<Rightarrow> func_instance \<Rightarrow> bool" where
  "call_ok defs rv f \<longleftrightarrow>
     fi_def f = get_func_def defs (fd_name (fi_def f)) \<and> wf_name (fd_name (fi_def f)) \<and> fd_name (fi_def f) \<noteq> series_by_tag \<and>
     (length (fi_params f) \<le> length (fd_params (fi_def f)) \<or> last_multiple (fi_def f)) \<and>
     list_all (\<lambda>(i, v). fits rv (fi_def f) i v) (enumerate 0 (fi_params f))"

definition wrap_call :: "ast \<Rightarrow> func_instance \<Rightarrow> ast" where
  "wrap_call a f = Function (fd_name (fi_def f)) (a # param_nodes f)"

lemma render_param_node:
  assumes "fits rv d i v"
  shows "joined_text (render_param rv d i v) = print_ast (param_node d i v) \<and> render_param rv d i v \<noteq> P_Str [] \<and>
    wf_ast (param_node d i v) \<and> \<not> is_function (param_node d i v)"
proof (cases v)
  case (P_Num x)
  with assms obtain y where y: "x = Some y" "y = whole (dc_digits y)" "dc_digits y < 10 ^ 21" "unquoted d i \<or> maybe_quoted d i"
    by (auto split: option.splits)
  have "number_text y = string_of_nat (dc_digits y)" using number_text_whole [OF y(3)] y(2) by simp
  moreover have "decimal_finite y"
  proof -
    have "(10 :: nat) ^ 21 < 2 ^ 1024 - 2 ^ 970" by simp
    with y(3) have "dc_digits y < 2 ^ 1024 - 2 ^ 970" by linarith
    moreover have "dc_exponent y = 0" using y(2) by (metis decimal.select_convs(3) whole_def)
    ultimately show ?thesis unfolding decimal_finite_def Let_def by simp
  qed
  moreover have "\<exists>n. y = \<lparr>dc_negative = False, dc_digits = n, dc_exponent = 0\<rparr>" using y(2) whole_def by metis
  ultimately show ?thesis
    using P_Num y(1,4)
    by (auto simp: render_param_def Let_def unquoted_def maybe_quoted_def joined_text_def value_text_def lodash_text_def value_finite_def is_function_def)
next
  case (P_Str s)
  with assms show ?thesis
    by (cases "unquoted d i")
       (auto simp: render_param_def Let_def unquoted_def maybe_quoted_def joined_text_def value_text_def lodash_text_def value_finite_def is_function_def wf_name_def)
next
  case (P_Bool b)
  with assms show ?thesis
    by (auto simp: render_param_def Let_def unquoted_def joined_text_def value_text_def is_function_def)
qed (use assms in simp)

lemma drop_blank_id: "ps = [] \<or> last ps \<noteq> P_Str [] \<Longrightarrow> drop_blank ps = ps"
  by (cases ps rule: rev_cases) (auto simp: drop_blank_def)

lemma render_wrap:
  assumes "call_ok defs rv f" "print_ast a \<noteq> []"
  shows "render_func rv (print_ast a) f = print_ast (wrap_call a f)"
proof -
  let ?d = "fi_def f" and ?es = "enumerate 0 (fi_params f)"
  let ?ps = "map (\<lambda>(i, v). render_param rv ?d i v) ?es"
  have fit: "fits rv ?d i v" if "(i, v) \<in> set ?es" for i v
    using assms(1) that by (auto simp: call_ok_def list_all_iff)
  have "?ps = [] \<or> last ?ps \<noteq> P_Str []"
  proof (cases "?es = []")
    case False
    then have "last ?es \<in> set ?es" by (rule last_in_set)
    with False fit render_param_node [of rv ?d "fst (last ?es)" "snd (last ?es)"] show ?thesis
      by (simp add: last_map split_beta)
  qed simp
  then have "drop_blank ?ps = ?ps" by (rule drop_blank_id)
  moreover have "map joined_text ?ps = map print_ast (param_nodes f)"
    using fit render_param_node by (auto simp: param_nodes_def)
  moreover have "joined_text (P_Str (print_ast a)) = print_ast a" by (simp add: joined_text_def value_text_def)
  ultimately show ?thesis
    using assms(2) by (simp add: render_func_def wrap_call_def Let_def)
qed

lemma wf_wrap: "call_ok defs rv f \<Longrightarrow> wf_ast a \<Longrightarrow> wf_ast (wrap_call a f)"
  using render_param_node by (fastforce simp: call_ok_def wrap_call_def param_nodes_def list_all_iff)

text \<open>The path.\<close>

definition segment_ok :: "graphite_segment \<Rightarrow> bool" where
  "segment_ok g \<longleftrightarrow> gs_type g = Some ''segment'' \<and> (case gs_value g of None \<Rightarrow> False | Some v \<Rightarrow> wf_name v)"

definition segment_node :: "graphite_segment \<Rightarrow> ast" where
  "segment_node g = Segment (gs_value g)"

lemma segment_okD:
  "segment_ok g \<Longrightarrow> gs_value g = Some (segment_text (segment_node g)) \<and> wf_segment (segment_node g) \<and> segment_of (segment_node g) = g"
  by (cases g) (auto simp: segment_ok_def segment_node_def segment_text_def wf_segment_def segment_of_def split: option.splits)

lemma extend_path_simps [simp]:
  "extend_path (Some []) w = w"
  "p \<noteq> [] \<Longrightarrow> extend_path (Some p) (Some v) = Some (p @ ''.'' @ v)"
  by (simp_all add: extend_path_def)

lemma path_joins:
  "p \<noteq> [] \<Longrightarrow> foldl extend_path (Some p) (map Some vs) = Some (join_with ''.'' (p # vs))"
proof (induction vs arbitrary: p)
  case (Cons v vs)
  have "foldl extend_path (Some (p @ ''.'' @ v)) (map Some vs) = Some (join_with ''.'' ((p @ ''.'' @ v) # vs))"
    using Cons.prems by (intro Cons.IH) simp
  moreover have "join_with ''.'' ((p @ ''.'' @ v) # vs) = join_with ''.'' (p # v # vs)" by (cases vs) simp_all
  ultimately show ?case using Cons.prems by simp
qed simp

lemma path_text:
  assumes "gs \<noteq> []" "list_all segment_ok gs"
  shows "foldl extend_path (Some []) (map gs_value gs) = Some (print_ast (Metric (map segment_node gs)))"
proof -
  obtain g hs where gs: "gs = g # hs" using assms(1) by (cases gs) auto
  let ?t = "\<lambda>g. segment_text (segment_node g)"
  have v: "map gs_value hs = map Some (map ?t hs)" and g: "gs_value g = Some (?t g)"
    using assms(2) segment_okD by (auto simp: list_all_iff gs)
  have "?t g \<noteq> []"
    using assms(2) segment_okD [of g] wf_segment_name [of "segment_node g"] by (auto simp: gs wf_name_def)
  then have "foldl extend_path (Some (?t g)) (map Some (map ?t hs)) = Some (join_with ''.'' (?t g # map ?t hs))"
    by (rule path_joins)
  then show ?thesis unfolding gs list.map v g by (simp add: comp_def del: join_with.simps(3))
qed

lemma join_with_chars: "c \<in> set (join_with sep ss) \<Longrightarrow> c \<in> set sep \<or> (\<exists>s \<in> set ss. c \<in> set s)"
  by (induction sep ss rule: join_with.induct) auto

lemma no_space_in_path:
  assumes "list_all segment_ok gs"
  shows "CHR '' '' \<notin> set (print_ast (Metric (map segment_node gs)))"
proof
  assume "CHR '' '' \<in> set (print_ast (Metric (map segment_node gs)))"
  then obtain g where g: "g \<in> set gs" "CHR '' '' \<in> set (segment_text (segment_node g))"
    using join_with_chars [of _ "''.''"] by fastforce
  with assms segment_okD [of g] wf_segment_name [of "segment_node g"] have "wf_name (segment_text (segment_node g))"
    by (auto simp: list_all_iff)
  with g(2) have "name_char (CHR '' '')" by (auto simp: wf_name_def list_all_iff)
  then show False by (simp add: name_char_def identifier_start_table_def)
qed

lemma strip_select_metric_id: "CHR '' '' \<notin> set s \<Longrightarrow> strip_select_metric s = s"
  by (auto simp: strip_select_metric_def ends_with_iff select_metric_def)

text \<open>Reading the tree of the calls around a path.\<close>

definition call_key :: "func_instance \<Rightarrow> func_def \<times> param_value list" where
  "call_key f = (fi_def f, fi_params f)"

lemma param_node_reads:
  assumes "fits rv d i v" "gq_segments q \<noteq> []"
  shows "parse_target_recursive defs (param_node d i v) func q = add_function_parameter func v q"
  using assms by (cases v) auto

lemma parse_plain_params:
  assumes "gq_segments q \<noteq> []"
  shows "list_all (\<lambda>(i, v). fits rv d i v) (enumerate k vs) \<Longrightarrow> fi_def f = d \<Longrightarrow> length (fi_params f) = k \<Longrightarrow>
    k + length vs \<le> length (fd_params d) \<or> last_multiple d \<Longrightarrow>
    parse_params defs (map (\<lambda>(i, v). param_node d i v) (enumerate k vs)) (Some f) q =
      (None, Some (f\<lparr>fi_params := fi_params f @ vs\<rparr>), q)"
proof (induction vs arbitrary: k f)
  case (Cons v vs)
  have "parse_target_recursive defs (param_node d k v) (Some f) q = (None, Some (f\<lparr>fi_params := fi_params f @ [v]\<rparr>), q)"
    using Cons.prems param_node_reads [OF _ assms, of rv d k v] by (auto simp: add_function_parameter_def)
  then show ?case using Cons.IH [of "Suc k" "f\<lparr>fi_params := fi_params f @ [v]\<rparr>"] Cons.prems by simp
qed simp

lemma param_node_plain: "\<not> is_function (param_node d i v)"
  by (cases v) (simp_all add: is_function_def)

lemma no_second_call:
  "\<forall>p \<in> set ps. \<not> is_function p \<Longrightarrow> n \<noteq> 2 \<Longrightarrow> second_series_by_tag n ps = ps"
  by (induction n ps rule: second_series_by_tag.induct) (auto simp: is_function_def Let_def split: ast.splits)

lemma prepared_wrapped:
  assumes "\<forall>p \<in> set ps. \<not> is_function p"
  shows "prepared_params name (a # ps) = a # ps"
proof -
  have "second_series_by_tag 0 (a # ps) = a # ps"
    using no_second_call [OF assms, of 0] no_second_call [OF assms, of 1]
    by (cases a) (simp_all add: is_function_def Let_def)
  then have 1: "handle_multiple_series_by_tags_params (a # ps) = a # ps"
    by (simp add: handle_multiple_series_by_tags_params_def)
  have "handle_divide_series_lists name (a # ps) = a # ps"
    using assms by (cases ps) (auto simp: handle_divide_series_lists_def is_function_def split: ast.splits)
  with 1 show ?thesis by (simp add: prepared_params_def)
qed

lemma parse_wrapped:
  assumes "gs \<noteq> []" "list_all (call_ok defs rv) fs"
  shows "gq_segments q = [] \<Longrightarrow> gq_tags q = [] \<Longrightarrow>
    \<exists>q' hs. parse_target_recursive defs (foldl wrap_call (Metric (map segment_node gs)) fs) func q = (None, func, q') \<and>
      gq_segments q' = map (\<lambda>g. segment_of (segment_node g)) gs \<and> gq_functions q' = gq_functions q @ hs \<and>
      map call_key hs = map call_key fs \<and> gq_error q' = gq_error q \<and> gq_target q' = gq_target q"
  using assms(2)
proof (induction fs arbitrary: func q rule: rev_induct)
  case Nil
  then show ?case by auto
next
  case (snoc f fs)
  let ?a = "foldl wrap_call (Metric (map segment_node gs)) fs" and ?d = "fi_def f"
  obtain inner q1 where n: "new_instance defs (fd_name ?d) q = (inner, q1)" by (cases "new_instance defs (fd_name ?d) q")
  have f: "call_ok defs rv f" using snoc.prems by simp
  then have d: "get_func_def defs (fd_name ?d) = ?d" by (simp add: call_ok_def)
  have inner: "fi_def inner = ?d" "fi_params inner = []" and q1: "q1 = q\<lparr>gq_next_id := gq_next_id q + 1\<rparr>"
    using n d by (auto simp: new_instance_def create_func_instance_def update_text_def Let_def)
  obtain q2 hs where q2: "parse_target_recursive defs ?a (Some inner) q1 = (None, Some inner, q2)"
      "gq_segments q2 = map (\<lambda>g. segment_of (segment_node g)) gs" "gq_functions q2 = gq_functions q @ hs"
      "map call_key hs = map call_key fs" "gq_error q2 = gq_error q" "gq_target q2 = gq_target q"
    using snoc.IH [of q1 "Some inner"] snoc.prems q1 by auto
  have fit: "fits rv ?d i v" if "(i, v) \<in> set (enumerate 0 (fi_params f))" for i v
    using f that by (auto simp: call_ok_def list_all_iff)
  have "prepared_params (fd_name ?d) (?a # param_nodes f) = ?a # param_nodes f"
    using param_node_plain by (intro prepared_wrapped) (auto simp: param_nodes_def)
  moreover have "parse_params defs (param_nodes f) (Some inner) q2 = (None, Some (inner\<lparr>fi_params := fi_params f\<rparr>), q2)"
    using parse_plain_params [of q2 rv ?d 0 "fi_params f" inner] q2(2) assms(1) f inner
    by (auto simp: param_nodes_def call_ok_def)
  ultimately have "parse_target_recursive defs (wrap_call ?a f) func q =
      (None, func, push_function (inner\<lparr>fi_params := fi_params f\<rparr>) q2)"
    by (simp add: wrap_call_def n q2(1))
  moreover have "\<exists>h. push_function (inner\<lparr>fi_params := fi_params f\<rparr>) q2 = q2\<lparr>gq_functions := gq_functions q2 @ [h]\<rparr> \<and> call_key h = call_key f"
    using f inner by (auto simp: push_function_def call_ok_def update_text_def call_key_def Let_def)
  ultimately show ?case using q2 by auto
qed

definition builder_ok :: "func_defs \<Rightarrow> (string \<Rightarrow> string) \<Rightarrow> graphite_query \<Rightarrow> bool" where
  "builder_ok defs rv q \<longleftrightarrow>
     gq_segments q \<noteq> [] \<and> list_all segment_ok (gq_segments q) \<and>
     \<not> has_series_ref (segment_text (segment_node (hd (gq_segments q)))) \<and> list_all (call_ok defs rv) (gq_functions q)"

lemma wrapped_text:
  assumes "list_all (call_ok defs rv) fs" "wf_ast a" "print_ast a \<noteq> []"
  shows "foldl (render_func rv) (print_ast a) fs = print_ast (foldl wrap_call a fs) \<and> wf_ast (foldl wrap_call a fs)"
  using assms
proof (induction fs arbitrary: a)
  case (Cons f fs)
  have "render_func rv (print_ast a) f = print_ast (wrap_call a f)" "wf_ast (wrap_call a f)"
    using Cons.prems by (auto intro: render_wrap [of defs] wf_wrap)
  moreover have "print_ast (wrap_call a f) \<noteq> []" by (simp add: wrap_call_def)
  ultimately show ?case using Cons.IH [of "wrap_call a f"] Cons.prems(1) by simp
qed simp

lemma foldl_call_key:
  "map call_key fs = map call_key gs \<Longrightarrow> foldl (render_func rv) t fs = foldl (render_func rv) t gs"
proof (induction fs arbitrary: gs t)
  case (Cons f fs)
  then obtain g hs where g: "gs = g # hs" "call_key f = call_key g" "map call_key fs = map call_key hs" by (cases gs) auto
  then have "render_func rv t f = render_func rv t g" by (simp add: render_func_def call_key_def)
  with g Cons.IH [OF g(3)] show ?case by simp
qed simp

definition builder_tree :: "graphite_query \<Rightarrow> ast" where
  "builder_tree q = foldl wrap_call (Metric (map segment_node (gq_segments q))) (gq_functions q)"

lemma builder_text:
  assumes "builder_ok defs rv q" "gq_segments q' = gq_segments q" "map call_key (gq_functions q') = map call_key (gq_functions q)"
  shows "generate_query_string rv q' = Some (print_ast (builder_tree q)) \<and> wf_ast (builder_tree q)"
proof -
  let ?gs = "gq_segments q" and ?fs = "gq_functions q" and ?m = "Metric (map segment_node (gq_segments q))"
  from assms have gs: "?gs \<noteq> []" "list_all segment_ok ?gs" and fs: "list_all (call_ok defs rv) ?fs"
    by (simp_all add: builder_ok_def)
  have m: "wf_ast ?m"
    using assms(1) segment_okD by (cases ?gs) (auto simp: builder_ok_def list_all_iff)
  have path: "foldl extend_path (Some []) (map gs_value ?gs) = Some (print_ast ?m)" by (rule path_text [OF gs])
  have ne: "print_ast ?m \<noteq> []"
  proof -
    obtain g hs where g: "?gs = g # hs" using gs(1) by (cases ?gs) auto
    then have "segment_text (segment_node g) \<noteq> []"
      using gs(2) segment_okD [of g] wf_segment_name [of "segment_node g"] by (auto simp: wf_name_def)
    then show ?thesis by (cases hs) (simp_all add: g)
  qed
  show ?thesis
    using assms(2) path wrapped_text [OF fs m ne] foldl_call_key [OF assms(3)] strip_select_metric_id [OF no_space_in_path [OF gs(2)]]
    by (simp add: generate_query_string_def get_segment_path_up_to_def builder_tree_def)
qed

text \<open>
  C20. What the query builder writes it reads again: from the text of a query built of named segments and calls
  of known functions, each with parameters its places write as they are read, \<open>parse_target\<close> makes a query with the
  same segments and, in the same order, the same functions and parameters, without an error and without the
  text editor, and writing that query gives the same text.
\<close>

theorem builder_round_trip:
  assumes "builder_ok defs rv q"
  shows "\<exists>t q'. generate_query_string rv q = Some t \<and>
    parse_target defs rv (p\<lparr>gq_target := (gq_target p)\<lparr>gt_target := t, gt_text_editor := False\<rparr>\<rparr>) = q' \<and>
    gq_segments q' = gq_segments q \<and> map call_key (gq_functions q') = map call_key (gq_functions q) \<and>
    gq_error q' = None \<and> \<not> gt_text_editor (gq_target q') \<and> generate_query_string rv q' = Some t"
proof -
  let ?gs = "gq_segments q" and ?fs = "gq_functions q" and ?a = "builder_tree q"
  let ?t = "print_ast ?a" let ?p = "p\<lparr>gq_target := (gq_target p)\<lparr>gt_target := ?t, gt_text_editor := False\<rparr>\<rparr>"
  from assms have gs: "?gs \<noteq> []" "list_all segment_ok ?gs" and fs: "list_all (call_ok defs rv) ?fs"
    by (simp_all add: builder_ok_def)
  obtain q1 hs where q1: "parse_target_recursive defs ?a None (cleared ?p) = (None, None, q1)"
      "gq_segments q1 = map (\<lambda>g. segment_of (segment_node g)) ?gs" "gq_functions q1 = hs"
      "map call_key hs = map call_key ?fs" "gq_error q1 = None" "gq_target q1 = gq_target ?p"
    using parse_wrapped [OF gs(1) fs, of "cleared ?p" None] by (auto simp: cleared_def builder_tree_def)
  have seg: "gq_segments q1 = ?gs" using q1(2) gs(2) segment_okD by (auto simp: list_all_iff intro: map_idI)
  have gen1: "generate_query_string rv q1 = Some ?t" using builder_text [OF assms seg] q1(3,4) by simp
  have a: "case ?a of Function _ _ \<Rightarrow> True | Metric _ \<Rightarrow> True | _ \<Rightarrow> False"
    by (cases ?fs rule: rev_cases) (simp_all add: wrap_call_def builder_tree_def)
  have "get_ast ?t = Some (Some ?a)"
    by (rule get_ast_print [OF _ a]) (use builder_text [OF assms refl refl] in blast)
  then have "parse_target defs rv ?p = read_tree defs rv ?a (cleared ?p)"
    using a by (cases ?a) (simp_all add: parse_target_def Let_def cleared_def)
  moreover have "check_query rv q1 = None" using gen1 q1(6) by (simp add: check_query_def Let_def)
  ultimately have r: "parse_target defs rv ?p = q1\<lparr>gq_check_index := int (length (gq_segments q1)) - 1\<rparr>"
    using q1(1) by (simp add: read_tree_def)
  show ?thesis
    by (rule exI [of _ ?t], rule exI [of _ "parse_target defs rv ?p"])
       (use builder_text [OF assms refl refl] r seg q1 gen1 in simp)
qed

definition sample_defs :: func_defs where
  "sample_defs =
     [''scale'' \<mapsto>
        \<lparr>fd_name = ''scale'',
         fd_params = [\<lparr>pd_name = ''factor'', pd_type = ''int'', pd_options = None, pd_multiple = False, pd_optional = False, pd_version = None\<rparr>],
         fd_default_params = [P_Num (Some (whole 1))], fd_category = None, fd_short_name = None, fd_fake = False, fd_version = None,
         fd_unknown = False\<rparr>]"

definition sample_call :: "string \<Rightarrow> param_value list \<Rightarrow> func_instance" where
  "sample_call name ps =
     \<lparr>fi_id = 0, fi_def = get_func_def sample_defs name, fi_params = ps, fi_text = [], fi_added = False, fi_hidden = False\<rparr>"

definition sample_query :: graphite_query where
  "sample_query =
     \<lparr>gq_functions = [sample_call ''scale'' [P_Num (Some (whole 10))], sample_call ''alias'' [P_Str ''the web'']],
      gq_segments = [\<lparr>gs_value = Some ''web'', gs_type = Some ''segment''\<rparr>, \<lparr>gs_value = Some ''*'', gs_type = Some ''segment''\<rparr>],
      gq_tags = [], gq_error = None, gq_series_by_tag_used = False, gq_check_index = 0, gq_target = tagged_target, gq_next_id = 0\<rparr>"

lemma builder_round_trip_witness:
  "generate_query_string id sample_query = Some ''alias(scale(web.*, 10), 'the web')'' \<and>
   map call_key (gq_functions (parse_target sample_defs id
     (tagged_query\<lparr>gq_target := tagged_target\<lparr>gt_target := ''alias(scale(web.*, 10), 'the web')'', gt_text_editor := False\<rparr>\<rparr>))) =
   map call_key (gq_functions sample_query)"
proof -
  have ok: "builder_ok sample_defs id sample_query"
    by (simp add: builder_ok_def sample_query_def sample_call_def sample_defs_def segment_ok_def wf_name_def name_char_def
        identifier_start_table_def is_digit_def segment_text_def segment_node_def call_ok_def get_func_def_def series_by_tag_def
        unquoted_def maybe_quoted_def param_type_def never_quoted_params_def never_quoted_functions_def maybe_quoted_params_def
        whole_def last_multiple_def)
  have "print_ast (builder_tree sample_query) = ''alias(scale(web.*, 10), 'the web')''" by code_simp
  with builder_text [OF ok refl refl] have t: "generate_query_string id sample_query = Some ''alias(scale(web.*, 10), 'the web')''"
    by simp
  from builder_round_trip [OF ok, of "tagged_query\<lparr>gq_target := tagged_target\<rparr>"] t show ?thesis by auto
qed

end
