(* ===== verification/Graphite_Refs.thy ===== *)
theory Graphite_Refs
  imports Graphite_Query "HOL-Library.While_Combinator"
begin

text \<open>
  Queries that refer to other queries: \<open>updateModelTarget\<close> and \<open>updateRenderedTarget\<close> of
  \<open>public/app/plugins/datasource/graphite/graphite_query.ts\<close>. A reference \<open>#A\<close> is replaced by the text of the query
  with that identifier, again and again; a count of references per query bounds how often one may be replaced,
  so that queries referring to each other in a circle do not keep the loop going.

  Identifiers of queries are taken literally, where the source makes a regular expression of them. The counts,
  which the source leaves behind on the queries, are local to the computation.
\<close>

section \<open>References\<close>

text \<open>\<open>match(/#id/g)\<close>: how often \<open>#id\<close> is in a text, counted from the left without overlaps.\<close>

function count_refs :: "string \<Rightarrow> string \<Rightarrow> nat" where
  "count_refs r s =
     (if s = [] then 0
      else if starts_with (CHR ''#'' # r) s then Suc (count_refs r (drop (Suc (length r)) s))
      else count_refs r (tl s))"
  by pat_completeness auto
termination
  by (relation "measure (\<lambda>(_, s). length s)") auto

declare count_refs.simps [simp del]

definition is_upper :: "char \<Rightarrow> bool" where
  "is_upper c \<longleftrightarrow> (65 :: nat) \<le> of_char c \<and> of_char c \<le> (90 :: nat)"

text \<open>The queries by identifier: the text of each and how often it may still be replaced, less one.\<close>

record ref_entry =
  re_id :: string
  re_target :: string
  re_count :: nat

definition find_entry :: "ref_entry list \<Rightarrow> string \<Rightarrow> ref_entry option" where
  "find_entry tbl i = find (\<lambda>e. re_id e = i) tbl"

text \<open>\<open>keyBy\<close>: the last target with an identifier stands for it, in the place of the first.\<close>

fun key_by_ref :: "graphite_target list \<Rightarrow> graphite_target list" where
  "key_by_ref [] = []"
| "key_by_ref (t # ts) =
     (case find (\<lambda>u. gt_ref_id u = gt_ref_id t) (rev ts) of
        None \<Rightarrow> t # key_by_ref ts
      | Some u \<Rightarrow> u # key_by_ref (filter (\<lambda>v. gt_ref_id v \<noteq> gt_ref_id t) ts))"

definition ref_table :: "graphite_target list \<Rightarrow> ref_entry list" where
  "ref_table targets =
     (let ts = key_by_ref targets in
      map (\<lambda>t. \<lparr>re_id = gt_ref_id t, re_target = gt_target t,
               re_count = sum_list (map (\<lambda>u. count_refs (gt_ref_id t) (gt_target u)) (filter (\<lambda>u. gt_ref_id u \<noteq> gt_ref_id t) ts))\<rparr>) ts)"

text \<open>One replacement: the entry is dropped once its count is zero.\<close>

definition use_entry :: "string \<Rightarrow> ref_entry list \<Rightarrow> ref_entry list" where
  "use_entry i tbl =
     map (\<lambda>e. if re_id e = i then e\<lparr>re_count := re_count e - 1\<rparr> else e) (filter (\<lambda>e. \<not> (re_id e = i \<and> re_count e = 0)) tbl)"

text \<open>\<open>replace(/#([A-Z])/g, ...)\<close> and \<open>match\<close> with the same pattern.\<close>

fun replace_refs :: "ref_entry list \<Rightarrow> string \<Rightarrow> string \<times> ref_entry list" where
  "replace_refs tbl (h # c # s) =
     (if h = CHR ''#'' \<and> is_upper c
      then (case find_entry tbl [c] of
              None \<Rightarrow> (case replace_refs tbl s of (s', tbl') \<Rightarrow> (h # c # s', tbl'))
            | Some e \<Rightarrow> (case replace_refs (use_entry [c] tbl) s of (s', tbl') \<Rightarrow> (re_target e @ s', tbl')))
      else (case replace_refs tbl (c # s) of (s', tbl') \<Rightarrow> (h # s', tbl')))"
| "replace_refs tbl s = (s, tbl)"

fun has_ref :: "string \<Rightarrow> bool" where
  "has_ref (h # c # s) \<longleftrightarrow> h = CHR ''#'' \<and> is_upper c \<or> has_ref (c # s)"
| "has_ref _ \<longleftrightarrow> False"

text \<open>The loop: the text, the table, and whether the last pass changed the text.\<close>

type_synonym render_state = "string \<times> ref_entry list \<times> bool"

definition render_more :: "render_state \<Rightarrow> bool" where
  "render_more st = (case st of (s, _, changed) \<Rightarrow> changed \<and> has_ref s)"

definition render_pass :: "render_state \<Rightarrow> render_state" where
  "render_pass st = (case st of (s, tbl, _) \<Rightarrow> (case replace_refs tbl s of (s', tbl') \<Rightarrow> (s', tbl', s' \<noteq> s)))"

definition render_loop :: "string \<Rightarrow> ref_entry list \<Rightarrow> render_state option" where
  "render_loop s tbl = while_option render_more render_pass (s, tbl, True)"

text \<open>The target with its full text, where that differs; \<open>None\<close> if the loop does not end.\<close>

definition update_rendered_target :: "graphite_target list \<Rightarrow> graphite_target \<Rightarrow> graphite_target option" where
  "update_rendered_target targets t =
     map_option (\<lambda>(full, _, _). t\<lparr>gt_target_full := (if full = gt_target t then None else Some full)\<rparr>)
       (render_loop (gt_target t) (ref_table targets))"

fun update_others :: "graphite_target list \<Rightarrow> string \<Rightarrow> graphite_target list \<Rightarrow> graphite_target list option" where
  "update_others targets i [] = Some []"
| "update_others targets i (t # ts) =
     (case (if gt_ref_id t \<noteq> i then update_rendered_target targets t else Some t) of
        None \<Rightarrow> None
      | Some t' \<Rightarrow> map_option ((#) t') (update_others targets i ts))"

text \<open>\<open>updateModelTarget\<close>: the query and the targets, or nothing if a loop does not end.\<close>

definition update_model_target ::
  "(string \<Rightarrow> string) \<Rightarrow> graphite_target list \<Rightarrow> graphite_query \<Rightarrow> (query_exn option \<times> graphite_query \<times> graphite_target list) option" where
  "update_model_target rv targets q =
     (let written =
        (if gt_text_editor (gq_target q) then Some (gt_target (gq_target q)) else generate_query_string rv q)
      in case written of
           None \<Rightarrow> Some (Some Exn_Type, q, targets)
         | Some s \<Rightarrow>
             (let t = (gq_target q)\<lparr>gt_target := s\<rparr> in
              case (update_rendered_target targets t, update_others targets (gt_ref_id t) targets) of
                (Some t', Some targets') \<Rightarrow>
                  Some (None,
                    q\<lparr>gq_target := t', gq_functions := map (\<lambda>f. f\<lparr>fi_added := False\<rparr>) (gq_functions q)\<rparr>, targets')
              | _ \<Rightarrow> None))"

section \<open>The loop ends\<close>

text \<open>What the table still allows.\<close>

definition table_budget :: "ref_entry list \<Rightarrow> nat" where
  "table_budget tbl = sum_list (map (\<lambda>e. Suc (re_count e)) tbl)"

lemma use_entry_budget:
  assumes "find_entry tbl i = Some e"
  shows "table_budget (use_entry i tbl) < table_budget tbl"
  using assms
proof (induction tbl)
  case (Cons a tbl)
  have le: "table_budget (use_entry i tbl) \<le> table_budget tbl"
    by (induction tbl) (auto simp: table_budget_def use_entry_def)
  show ?case
  proof (cases "re_id a = i")
    case True
    with le show ?thesis by (cases "re_count a") (auto simp: table_budget_def use_entry_def)
  next
    case False
    with Cons show ?thesis by (auto simp: table_budget_def use_entry_def find_entry_def)
  qed
qed (simp add: find_entry_def)

lemma replace_refs_budget:
  "replace_refs tbl s = (s', tbl') \<Longrightarrow> table_budget tbl' \<le> table_budget tbl \<and> (s' \<noteq> s \<longrightarrow> table_budget tbl' < table_budget tbl)"
proof (induction tbl s arbitrary: s' tbl' rule: replace_refs.induct)
  case (1 tbl h c s)
  show ?case
  proof (cases "h = CHR ''#'' \<and> is_upper c")
    case True
    show ?thesis
    proof (cases "find_entry tbl [c]")
      case None
      obtain s1 t1 where r: "replace_refs tbl s = (s1, t1)" by (cases "replace_refs tbl s")
      with 1 True None show ?thesis by auto
    next
      case (Some e)
      obtain s1 t1 where r: "replace_refs (use_entry [c] tbl) s = (s1, t1)" by (cases "replace_refs (use_entry [c] tbl) s")
      with 1 True Some use_entry_budget [OF Some] show ?thesis by fastforce
    qed
  next
    case False
    obtain s1 t1 where r: "replace_refs tbl (c # s) = (s1, t1)" by (cases "replace_refs tbl (c # s)")
    with 1 False show ?thesis by auto
  qed
qed auto

lemma render_loop_passes:
  "\<exists>n. n \<le> table_budget tbl + (if changed then 1 else 0) \<and>
     while_option render_more render_pass (s, tbl, changed) = Some ((render_pass ^^ n) (s, tbl, changed))"
proof (induction "2 * table_budget tbl + (if changed then 1 else 0)" arbitrary: s tbl changed rule: less_induct)
  case less
  show ?case
  proof (cases "render_more (s, tbl, changed)")
    case False
    then show ?thesis by (intro exI [of _ 0]) (simp add: while_option_unfold)
  next
    case True
    obtain s' tbl' where r: "replace_refs tbl s = (s', tbl')" by (cases "replace_refs tbl s")
    then have p: "render_pass (s, tbl, changed) = (s', tbl', s' \<noteq> s)" by (simp add: render_pass_def)
    from True have c: "changed" by (simp add: render_more_def)
    have "2 * table_budget tbl' + (if s' \<noteq> s then 1 else 0) < 2 * table_budget tbl + (if changed then 1 else 0)"
      using replace_refs_budget [OF r] c by auto
    then obtain n where n: "n \<le> table_budget tbl' + (if s' \<noteq> s then 1 else 0)"
        "while_option render_more render_pass (s', tbl', s' \<noteq> s) = Some ((render_pass ^^ n) (s', tbl', s' \<noteq> s))"
      using less [of tbl' "s' \<noteq> s" s'] by blast
    have "Suc n \<le> table_budget tbl + 1" using n(1) replace_refs_budget [OF r] by (auto split: if_splits)
    moreover have "while_option render_more render_pass (s, tbl, changed) = Some ((render_pass ^^ Suc n) (s, tbl, changed))"
      using True n(2) p by (subst while_option_unfold) (simp add: funpow_swap1)
    ultimately show ?thesis using c by auto
  qed
qed

lemma render_loop_ends:
  "\<exists>n st. n \<le> table_budget tbl + 1 \<and> st = (render_pass ^^ n) (s, tbl, True) \<and> render_loop s tbl = Some st \<and> \<not> render_more st"
proof -
  obtain n where n: "n \<le> table_budget tbl + 1" "render_loop s tbl = Some ((render_pass ^^ n) (s, tbl, True))"
    using render_loop_passes [of tbl True s] by (auto simp: render_loop_def)
  from n(2) have "\<not> render_more ((render_pass ^^ n) (s, tbl, True))"
    unfolding render_loop_def by (rule while_option_stop)
  with n show ?thesis by blast
qed

lemma update_rendered_target_returns: "\<exists>t'. update_rendered_target targets t = Some t'"
proof -
  obtain st where "render_loop (gt_target t) (ref_table targets) = Some st" using render_loop_ends by blast
  then show ?thesis unfolding update_rendered_target_def by simp
qed

lemma update_others_returns: "\<exists>ts'. update_others targets i ts = Some ts'"
proof (induction ts)
  case (Cons t ts)
  then show ?case using update_rendered_target_returns [of targets t] by (auto split: option.splits)
qed simp

section \<open>Expansion of references\<close>

text \<open>A text as pieces: references and plain characters.\<close>

type_synonym piece = "bool \<times> char"

fun pieces :: "string \<Rightarrow> piece list" where
  "pieces (h # c # s) =
     (if h = CHR ''#'' \<and> is_upper c then (True, c) # pieces s else (False, h) # pieces (c # s))"
| "pieces s = map (Pair False) s"

definition piece_text :: "piece \<Rightarrow> string" where
  "piece_text p = (case p of (r, c) \<Rightarrow> if r then [CHR ''#'', c] else [c])"

definition flat :: "piece list \<Rightarrow> string" where
  "flat ps = concat (map piece_text ps)"

text \<open>No two hashes in a row and none at the end: replacing cannot make a new reference.\<close>

fun clean :: "string \<Rightarrow> bool" where
  "clean (h # c # s) \<longleftrightarrow> (h = CHR ''#'' \<longrightarrow> c \<noteq> CHR ''#'') \<and> clean (c # s)"
| "clean [c] \<longleftrightarrow> c \<noteq> CHR ''#''"
| "clean [] \<longleftrightarrow> True"

fun good :: "piece list \<Rightarrow> bool" where
  "good (p # q # ps) \<longleftrightarrow> (fst p \<longrightarrow> is_upper (snd p)) \<and> (p = (False, CHR ''#'') \<longrightarrow> (\<exists>c. q = (False, c) \<and> \<not> is_upper c \<and> c \<noteq> CHR ''#'')) \<and> good (q # ps)"
| "good [p] \<longleftrightarrow> (fst p \<longrightarrow> is_upper (snd p)) \<and> p \<noteq> (False, CHR ''#'')"
| "good [] \<longleftrightarrow> True"

lemma flat_simps [simp]: "flat [] = []" "flat (p # ps) = piece_text p @ flat ps" "flat (ps @ qs) = flat ps @ flat qs"
  by (simp_all add: flat_def)

lemma flat_pieces: "flat (pieces s) = s"
  by (induction s rule: pieces.induct) (auto simp: piece_text_def)

lemma upper_not_hash: "is_upper c \<Longrightarrow> c \<noteq> CHR ''#''"
  by (auto simp: is_upper_def)

lemma clean_tl: "clean (c # s) \<Longrightarrow> clean s"
  by (cases s) auto

lemma pieces_hd: "pieces (c # s) = p # ps \<Longrightarrow> p = (True, hd s) \<and> c = CHR ''#'' \<and> s \<noteq> [] \<and> is_upper (hd s) \<or> p = (False, c)"
  by (cases s) (auto split: if_splits)

lemma good_pieces: "clean s \<Longrightarrow> good (pieces s)"
proof (induction s rule: pieces.induct)
  case (1 h c s)
  show ?case
  proof (cases "h = CHR ''#'' \<and> is_upper c")
    case True
    with 1 have "good (pieces s)" by (auto dest: clean_tl)
    with True show ?thesis by (cases "pieces s") auto
  next
    case False
    with 1 have g: "good (pieces (c # s))" by auto
    obtain p ps where p: "pieces (c # s) = p # ps" by (cases "pieces (c # s)") (auto dest: arg_cong [of _ _ flat] simp: flat_pieces)
    have "h = CHR ''#'' \<Longrightarrow> p = (False, c) \<and> \<not> is_upper c \<and> c \<noteq> CHR ''#''"
      using False "1.prems" pieces_hd [OF p] by auto
    with False g p show ?thesis by auto
  qed
qed auto

lemma good_append: "good ps \<Longrightarrow> good qs \<Longrightarrow> good (ps @ qs)"
proof (induction ps rule: good.induct)
  case (2 p)
  then show ?case by (cases qs) auto
qed auto

lemma pieces_flat: "good ps \<Longrightarrow> pieces (flat ps) = ps"
proof (induction ps)
  case (Cons p ps)
  then have g: "good ps" by (cases ps) auto
  with Cons.IH have IH: "pieces (flat ps) = ps" by blast
  obtain r c where p: "p = (r, c)" by (cases p)
  show ?case
  proof (cases r)
    case True
    with Cons.prems p have "is_upper c" by (cases ps) auto
    with True IH show ?thesis by (simp add: p piece_text_def)
  next
    case False
    show ?thesis
    proof (cases ps)
      case Nil
      with False show ?thesis by (simp add: p piece_text_def)
    next
      case (Cons q qs)
      have "piece_text q \<noteq> []" by (simp add: piece_text_def split: prod.split)
      with Cons obtain h s where f: "flat ps = h # s" by (cases "flat ps") auto
      have "c = CHR ''#'' \<Longrightarrow> \<not> is_upper h"
        using Cons.prems False Cons f by (auto simp: p piece_text_def)
      then show ?thesis using False IH f by (auto simp: p piece_text_def)
    qed
  qed
qed simp

text \<open>
  With \<open>T\<close> the texts of the queries: whether the references in some pieces end within \<open>n\<close> levels, how often
  \<open>d\<close> is replaced on the way to the full text, and the full text.
\<close>

primrec ends_within :: "(char \<Rightarrow> string option) \<Rightarrow> nat \<Rightarrow> piece list \<Rightarrow> bool" where
  "ends_within T 0 ps = list_all (\<lambda>(r, c). r \<longrightarrow> T c = None) ps"
| "ends_within T (Suc n) ps =
     list_all (\<lambda>(r, c). r \<longrightarrow> (case T c of None \<Rightarrow> True | Some t \<Rightarrow> ends_within T n (pieces t))) ps"

primrec uses :: "(char \<Rightarrow> string option) \<Rightarrow> nat \<Rightarrow> piece list \<Rightarrow> char \<Rightarrow> nat" where
  "uses T 0 ps d = 0"
| "uses T (Suc n) ps d =
     sum_list (map (\<lambda>(r, c). if r then (case T c of None \<Rightarrow> 0 | Some t \<Rightarrow> (if c = d then 1 else 0) + uses T n (pieces t) d) else 0) ps)"

primrec full_text :: "(char \<Rightarrow> string option) \<Rightarrow> nat \<Rightarrow> piece list \<Rightarrow> string" where
  "full_text T 0 ps = flat ps"
| "full_text T (Suc n) ps =
     concat (map (\<lambda>(r, c). if r then (case T c of None \<Rightarrow> piece_text (r, c) | Some t \<Rightarrow> full_text T n (pieces t)) else [c]) ps)"

lemma expansion_append:
  "ends_within T n (ps @ qs) \<longleftrightarrow> ends_within T n ps \<and> ends_within T n qs"
  "uses T n (ps @ qs) d = uses T n ps d + uses T n qs d"
  "full_text T n (ps @ qs) = full_text T n ps @ full_text T n qs"
  by (cases n; simp)+

lemma expansion_nil [simp]: "ends_within T n []" "uses T n [] d = 0" "full_text T n [] = []"
  by (cases n; simp)+

lemma expansion_known_free:
  "list_all (\<lambda>(r, c). r \<longrightarrow> T c = None) ps \<Longrightarrow> ends_within T n ps \<and> uses T n ps d = 0 \<and> full_text T n ps = flat ps"
  by (cases n) (induction ps; auto simp: piece_text_def list_all_iff split: option.splits)+

lemma expansion_more:
  "ends_within T n ps \<Longrightarrow> ends_within T (Suc n) ps \<and> uses T (Suc n) ps d = uses T n ps d \<and> full_text T (Suc n) ps = full_text T n ps"
proof (induction n arbitrary: ps)
  case 0
  then show ?case using expansion_known_free [of T ps "Suc 0" d] by simp
next
  case (Suc n)
  have step: "ends_within T (Suc n) (pieces t) \<and> uses T (Suc n) (pieces t) d = uses T n (pieces t) d \<and>
      full_text T (Suc n) (pieces t) = full_text T n (pieces t)"
    if "(True, c) \<in> set ps" "T c = Some t" for c t
    using Suc.prems that by (intro Suc.IH) (auto simp: list_all_iff)
  have "ends_within T (Suc (Suc n)) ps"
    unfolding ends_within.simps(2) [of T "Suc n"] list_all_iff
    using step by (auto simp del: ends_within.simps split: option.splits)
  moreover have "uses T (Suc (Suc n)) ps d = uses T (Suc n) ps d"
    unfolding uses.simps(2) [of T "Suc n"] uses.simps(2) [of T n ps]
    by (intro arg_cong [where f = sum_list] map_cong refl) (use step in \<open>auto split: option.splits\<close>)
  moreover have "full_text T (Suc (Suc n)) ps = full_text T (Suc n) ps"
    unfolding full_text.simps(2) [of T "Suc n"] full_text.simps(2) [of T n ps]
    by (intro arg_cong [where f = concat] map_cong refl) (use step in \<open>auto split: option.splits\<close>)
  ultimately show ?case by blast
qed

section \<open>The table along the way\<close>

definition budget :: "ref_entry list \<Rightarrow> char \<Rightarrow> nat" where
  "budget tbl d = (case find_entry tbl [d] of None \<Rightarrow> 0 | Some e \<Rightarrow> Suc (re_count e))"

text \<open>Every entry left has the text \<open>T\<close> gives for its identifier, and no identifier comes twice.\<close>

definition table_ok :: "(char \<Rightarrow> string option) \<Rightarrow> ref_entry list \<Rightarrow> bool" where
  "table_ok T tbl \<longleftrightarrow> distinct (map re_id tbl) \<and> (\<forall>d e. find_entry tbl [d] = Some e \<longrightarrow> T d = Some (re_target e))"

lemma find_entry_use:
  "distinct (map re_id tbl) \<Longrightarrow>
   find_entry (use_entry i tbl) j =
     (if i = j then (case find_entry tbl i of None \<Rightarrow> None | Some e \<Rightarrow> if re_count e = 0 then None else Some (e\<lparr>re_count := re_count e - 1\<rparr>))
      else find_entry tbl j)"
proof (induction tbl)
  case (Cons a tbl)
  have other: "re_id e \<noteq> re_id a" if "e \<in> set tbl" for e
  proof
    assume "re_id e = re_id a"
    then have "re_id a \<in> re_id ` set tbl" using that by (metis imageI)
    with Cons.prems show False by simp
  qed
  have "find_entry (use_entry i tbl) i = None" if "re_id a = i"
    using other that by (auto simp: find_entry_def use_entry_def find_None_iff)
  with Cons other show ?case by (auto simp: find_entry_def use_entry_def split: option.splits)
qed (simp add: find_entry_def use_entry_def)

lemma use_entry_ids: "set (map re_id (use_entry i tbl)) \<subseteq> set (map re_id tbl)"
  by (auto simp: use_entry_def)

lemma use_entry_distinct: "distinct (map re_id tbl) \<Longrightarrow> distinct (map re_id (use_entry i tbl))"
proof (induction tbl)
  case (Cons a tbl)
  then show ?case using use_entry_ids [of i tbl] by (auto simp: use_entry_def)
qed (simp add: use_entry_def)

lemma use_entry_ok:
  assumes "table_ok T tbl"
  shows "table_ok T (use_entry [c] tbl)"
    and "find_entry tbl [c] \<noteq> None \<Longrightarrow> budget (use_entry [c] tbl) d + (if c = d then 1 else 0) = budget tbl d"
proof -
  from assms have d: "distinct (map re_id tbl)" by (simp add: table_ok_def)
  show "table_ok T (use_entry [c] tbl)"
    using assms by (auto simp: table_ok_def find_entry_use [OF d] use_entry_distinct split: option.splits if_splits)
  show "find_entry tbl [c] \<noteq> None \<Longrightarrow> budget (use_entry [c] tbl) d + (if c = d then 1 else 0) = budget tbl d"
    by (auto simp: budget_def find_entry_use [OF d] split: option.splits)
qed

text \<open>One pass on pieces.\<close>

fun replace_pieces :: "ref_entry list \<Rightarrow> piece list \<Rightarrow> piece list \<times> ref_entry list" where
  "replace_pieces tbl [] = ([], tbl)"
| "replace_pieces tbl ((r, c) # ps) =
     (case (if r then find_entry tbl [c] else None) of
        None \<Rightarrow> (case replace_pieces tbl ps of (ps', tbl') \<Rightarrow> ((r, c) # ps', tbl'))
      | Some e \<Rightarrow> (case replace_pieces (use_entry [c] tbl) ps of (ps', tbl') \<Rightarrow> (pieces (re_target e) @ ps', tbl')))"

lemma replace_refs_pieces:
  "replace_refs tbl s = (flat (fst (replace_pieces tbl (pieces s))), snd (replace_pieces tbl (pieces s)))"
proof (induction tbl s rule: replace_refs.induct)
  case (1 tbl h c s)
  then show ?case
    by (auto simp: piece_text_def flat_pieces split: option.splits prod.splits)
qed (simp_all add: piece_text_def)

lemma replace_pieces_good:
  assumes "\<And>d t. T d = Some t \<Longrightarrow> clean t"
  shows "replace_pieces tbl ps = (ps', tbl') \<Longrightarrow> table_ok T tbl \<Longrightarrow> good ps \<Longrightarrow> good ps' \<and> table_ok T tbl' \<and>
    (ps \<noteq> [] \<longrightarrow> ps' = [] \<or> fst (hd ps) \<or> hd ps' = hd ps)"
proof (induction tbl ps arbitrary: ps' tbl' rule: replace_pieces.induct)
  case (2 tbl r c ps)
  from "2.prems"(3) have g: "good ps" by (cases ps) auto
  show ?case
  proof (cases "if r then find_entry tbl [c] else None")
    case None
    obtain ps1 t1 where p: "replace_pieces tbl ps = (ps1, t1)" by (cases "replace_pieces tbl ps")
    from "2.IH"(1) [OF None p "2.prems"(2) g] have IH: "good ps1" "table_ok T t1" "ps \<noteq> [] \<longrightarrow> ps1 = [] \<or> fst (hd ps) \<or> hd ps1 = hd ps" by auto
    from "2.prems"(1) None p have r: "ps' = (r, c) # ps1" "tbl' = t1" by auto
    have "good ((r, c) # ps1)"
    proof (cases "r \<or> c \<noteq> CHR ''#''")
      case True
      with IH(1) "2.prems"(3) show ?thesis by (cases ps1; cases ps) auto
    next
      case False
      with "2.prems"(3) obtain x qs where ps: "ps = (False, x) # qs" "\<not> is_upper x" "x \<noteq> CHR ''#''" by (cases ps) auto
      have "ps1 \<noteq> []" using p ps(1) by (auto split: prod.splits)
      with IH(1,3) ps False show ?thesis by (cases ps1) auto
    qed
    with r IH(2) show ?thesis by simp
  next
    case (Some e)
    then have r: "r" and e: "find_entry tbl [c] = Some e" by (auto split: if_splits)
    obtain ps1 t1 where p: "replace_pieces (use_entry [c] tbl) ps = (ps1, t1)" by (cases "replace_pieces (use_entry [c] tbl) ps")
    from "2.IH"(2) [OF Some p use_entry_ok(1) [OF "2.prems"(2)] g] have IH: "good ps1" "table_ok T t1" by auto
    have "clean (re_target e)" using "2.prems"(2) e assms by (auto simp: table_ok_def)
    then have "good (pieces (re_target e) @ ps1)" using good_pieces good_append IH(1) by blast
    with "2.prems"(1) Some p IH(2) r show ?thesis by auto
  qed
qed auto

text \<open>How often a pass replaces \<open>d\<close>.\<close>

definition known_refs :: "(char \<Rightarrow> string option) \<Rightarrow> piece list \<Rightarrow> char \<Rightarrow> nat" where
  "known_refs T ps d = length (filter (\<lambda>p. p = (True, d) \<and> T d \<noteq> None) ps)"

lemma known_refs_simps [simp]:
  "known_refs T [] d = 0" "known_refs T ((r, c) # ps) d = (if r \<and> c = d \<and> T c \<noteq> None then 1 else 0) + known_refs T ps d"
  by (auto simp: known_refs_def)

text \<open>While the table allows what is still to be replaced, a pass replaces every reference to a query.\<close>

lemma replace_pieces_step:
  "replace_pieces tbl ps = (ps', tbl') \<Longrightarrow> table_ok T tbl \<Longrightarrow> ends_within T n ps \<Longrightarrow> (\<And>d. uses T n ps d \<le> budget tbl d) \<Longrightarrow>
   ends_within T n ps' \<and> full_text T n ps' = full_text T n ps \<and>
   (\<forall>d. uses T n ps' d + known_refs T ps d = uses T n ps d \<and> budget tbl' d + known_refs T ps d = budget tbl d)"
proof (induction tbl ps arbitrary: ps' tbl' rule: replace_pieces.induct)
  case (2 tbl r c ps)
  have split: "ends_within T n ((r, c) # qs) \<longleftrightarrow> ends_within T n [(r, c)] \<and> ends_within T n qs"
    "uses T n ((r, c) # qs) d = uses T n [(r, c)] d + uses T n qs d"
    "full_text T n ((r, c) # qs) = full_text T n [(r, c)] @ full_text T n qs" for d qs
    using expansion_append [of T n "[(r, c)]" qs] by simp_all
  from "2.prems"(3) split(1) have ends: "ends_within T n ps" by blast
  show ?case
  proof (cases "r \<and> T c \<noteq> None")
    case True
    then obtain t where t: "T c = Some t" by auto
    from "2.prems"(3) True t obtain m where n: "n = Suc m" "ends_within T m (pieces t)" by (cases n) auto
    have u1: "uses T n [(r, c)] d = (if c = d then 1 else 0) + uses T m (pieces t) d" for d using True t n(1) by simp
    have "0 < budget tbl c" using "2.prems"(4) [of c] split(2) [of ps c] u1 [of c] by simp
    then obtain e where e: "find_entry tbl [c] = Some e" by (auto simp: budget_def split: option.splits)
    with "2.prems"(2) t have et: "re_target e = t" by (auto simp: table_ok_def)
    obtain ps1 t1 where p: "replace_pieces (use_entry [c] tbl) ps = (ps1, t1)" by (cases "replace_pieces (use_entry [c] tbl) ps")
    have b: "budget (use_entry [c] tbl) d + (if c = d then 1 else 0) = budget tbl d" for d
      using use_entry_ok(2) [OF "2.prems"(2)] e by simp
    have r: "ps' = pieces t @ ps1" "tbl' = t1" using "2.prems"(1) True e et p by auto
    have more: "ends_within T n (pieces t)" "uses T n (pieces t) d = uses T m (pieces t) d" "full_text T n (pieces t) = full_text T m (pieces t)" for d
      using expansion_more [OF n(2)] unfolding n(1) by blast+
    have le: "uses T n ps d \<le> budget (use_entry [c] tbl) d" for d
      using "2.prems"(4) [of d] b [of d] unfolding split(2) [of ps] u1 by linarith
    have c: "(if r then find_entry tbl [c] else None) = Some e" using True e by simp
    from "2.IH"(2) [OF c p use_entry_ok(1) [OF "2.prems"(2)] ends le]
    have IH: "ends_within T n ps1" "full_text T n ps1 = full_text T n ps"
      "uses T n ps1 d + known_refs T ps d = uses T n ps d" "budget t1 d + known_refs T ps d = budget (use_entry [c] tbl) d" for d
      by auto
    have "full_text T n [(r, c)] = full_text T m (pieces t)" using True t n(1) by simp
    moreover have "uses T n ps' d + known_refs T ((r, c) # ps) d = uses T n ((r, c) # ps) d \<and>
        budget tbl' d + known_refs T ((r, c) # ps) d = budget tbl d" for d
      using IH(3,4) [of d] b [of d] True more(2) [of d] u1 [of d]
      unfolding r split(2) [of ps] expansion_append by auto
    ultimately show ?thesis using IH(1,2) more split(3) [of ps] r by (simp add: expansion_append)
  next
    case False
    then have c: "(if r then find_entry tbl [c] else None) = None"
      using "2.prems"(2) by (cases "find_entry tbl [c]") (auto simp: table_ok_def)
    obtain ps1 t1 where p: "replace_pieces tbl ps = (ps1, t1)" by (cases "replace_pieces tbl ps")
    have r: "ps' = (r, c) # ps1" "tbl' = t1" using "2.prems"(1) c p by auto
    have "list_all (\<lambda>(r, c). r \<longrightarrow> T c = None) [(r, c)]" using False by simp
    from expansion_known_free [OF this] have u1: "uses T n [(r, c)] d = 0" "ends_within T n [(r, c)]" for d by blast+
    have le: "uses T n ps d \<le> budget tbl d" for d using "2.prems"(4) [of d] u1 unfolding split(2) [of ps] by simp
    from "2.IH"(1) [OF c p "2.prems"(2) ends le]
    have IH: "ends_within T n ps1" "full_text T n ps1 = full_text T n ps"
      "uses T n ps1 d + known_refs T ps d = uses T n ps d" "budget t1 d + known_refs T ps d = budget tbl d" for d
      by auto
    have "known_refs T ((r, c) # ps) d = known_refs T ps d" for d using False by auto
    then show ?thesis unfolding r split(1) [of ps1] split(2) [of ps1] split(2) [of ps] split(3) [of ps1] split(3) [of ps]
      using IH u1 by simp
  qed
qed simp

section \<open>The whole loop\<close>

lemma has_ref_pieces: "has_ref s \<longleftrightarrow> (\<exists>c. (True, c) \<in> set (pieces s))"
proof (induction s rule: pieces.induct)
  case (1 h c s)
  then show ?case by (cases "h = CHR ''#'' \<and> is_upper c") auto
qed auto

lemma no_known_refs: "(\<And>d. known_refs T ps d = 0) \<Longrightarrow> list_all (\<lambda>(r, c). r \<longrightarrow> T c = None) ps"
  by (auto simp: known_refs_def list_all_iff filter_empty_conv)

text \<open>What holds before and after every pass.\<close>

definition render_inv :: "(char \<Rightarrow> string option) \<Rightarrow> nat \<Rightarrow> string \<Rightarrow> render_state \<Rightarrow> bool" where
  "render_inv T n full st \<longleftrightarrow>
     (case st of (s, tbl, changed) \<Rightarrow>
        good (pieces s) \<and> table_ok T tbl \<and> ends_within T n (pieces s) \<and> (\<forall>d. uses T n (pieces s) d \<le> budget tbl d) \<and>
        full_text T n (pieces s) = full \<and> (\<not> changed \<longrightarrow> (\<forall>d. known_refs T (pieces s) d = 0)))"

lemma render_pass_inv:
  assumes "\<And>d t. T d = Some t \<Longrightarrow> clean t" "render_inv T n full st"
  shows "render_inv T n full (render_pass st)"
proof -
  obtain s tbl b where st: "st = (s, tbl, b)" by (cases st)
  from assms(2) have inv: "good (pieces s)" "table_ok T tbl" "ends_within T n (pieces s)" "\<And>d. uses T n (pieces s) d \<le> budget tbl d"
    "full_text T n (pieces s) = full" by (auto simp: render_inv_def st)
  obtain ps' tbl' where r: "replace_pieces tbl (pieces s) = (ps', tbl')" by (cases "replace_pieces tbl (pieces s)")
  from replace_pieces_good [OF assms(1) r inv(2,1)] have g: "good ps'" "table_ok T tbl'" by auto
  then have ps: "pieces (flat ps') = ps'" by (intro pieces_flat)
  from replace_pieces_step [OF r inv(2-4)] inv(5)
  have step: "ends_within T n ps'" "full_text T n ps' = full" "uses T n ps' d + known_refs T (pieces s) d = uses T n (pieces s) d"
    "budget tbl' d + known_refs T (pieces s) d = budget tbl d" for d by auto
  have "uses T n ps' d \<le> budget tbl' d" for d using step(3,4) [of d] inv(4) [of d] by linarith
  moreover have "known_refs T ps' d = 0" if "flat ps' = s" for d
  proof -
    have "ps' = pieces s" using that ps by simp
    then show ?thesis using step(3) [of d] by simp
  qed
  ultimately show ?thesis
    using g step(1,2) ps by (auto simp: render_inv_def st render_pass_def replace_refs_pieces r)
qed

lemma render_inv_done:
  assumes "render_inv T n full st" "\<not> render_more st"
  shows "fst st = full"
proof -
  obtain s tbl b where st: "st = (s, tbl, b)" by (cases st)
  have "list_all (\<lambda>(r, c). r \<longrightarrow> T c = None) (pieces s)"
  proof (cases b)
    case True
    with assms(2) have "\<not> has_ref s" by (simp add: st render_more_def)
    then show ?thesis by (auto simp: has_ref_pieces list_all_iff)
  next
    case False
    with assms(1) show ?thesis by (intro no_known_refs) (auto simp: st render_inv_def)
  qed
  from expansion_known_free [OF this, of n] have "full_text T n (pieces s) = s" by (simp add: flat_pieces)
  with assms(1) show ?thesis by (simp add: st render_inv_def)
qed

lemma key_by_ref_subset: "set (key_by_ref ts) \<subseteq> set ts"
proof (induction ts rule: key_by_ref.induct)
  case (2 t ts)
  show ?case
  proof (cases "find (\<lambda>u. gt_ref_id u = gt_ref_id t) (rev ts)")
    case (Some u)
    then obtain i where "i < length (rev ts)" "u = rev ts ! i" by (auto simp: find_Some_iff)
    then have "u \<in> set (rev ts)" by (metis nth_mem)
    then have "u \<in> set ts" by simp
    with Some 2(2) [OF Some] show ?thesis by auto
  qed (use 2 in auto)
qed simp

lemma key_by_ref_distinct: "distinct (map gt_ref_id (key_by_ref ts))"
proof (induction ts rule: key_by_ref.induct)
  case (2 t ts)
  show ?case
  proof (cases "find (\<lambda>u. gt_ref_id u = gt_ref_id t) (rev ts)")
    case None
    then have "gt_ref_id t \<notin> gt_ref_id ` set (key_by_ref ts)"
      using key_by_ref_subset [of ts] by (auto simp: find_None_iff)
    with None 2 show ?thesis by simp
  next
    case (Some u)
    then have "gt_ref_id u = gt_ref_id t" by (auto simp: find_Some_iff)
    moreover have "gt_ref_id t \<notin> gt_ref_id ` set (key_by_ref (filter (\<lambda>v. gt_ref_id v \<noteq> gt_ref_id t) ts))"
      using key_by_ref_subset [of "filter (\<lambda>v. gt_ref_id v \<noteq> gt_ref_id t) ts"] by auto
    ultimately show ?thesis using Some 2(2) [OF Some] by simp
  qed
qed simp

definition query_text :: "graphite_target list \<Rightarrow> char \<Rightarrow> string option" where
  "query_text targets c = map_option re_target (find_entry (ref_table targets) [c])"

lemma ref_table_ok: "table_ok (query_text targets) (ref_table targets)"
  using key_by_ref_distinct [of targets] by (simp add: table_ok_def query_text_def ref_table_def Let_def comp_def)

lemma query_text_clean:
  assumes "list_all (\<lambda>u. clean (gt_target u)) targets" "query_text targets d = Some t"
  shows "clean t"
proof -
  from assms(2) obtain e where "find_entry (ref_table targets) [d] = Some e" "re_target e = t" by (auto simp: query_text_def)
  then have "e \<in> set (ref_table targets)" by (auto simp: find_entry_def find_Some_iff)
  then obtain u where "u \<in> set (key_by_ref targets)" "re_target e = gt_target u" by (auto simp: ref_table_def Let_def)
  with key_by_ref_subset [of targets] assms(1) \<open>re_target e = t\<close> show ?thesis by (auto simp: list_all_iff)
qed

section \<open>Properties\<close>

lemma update_model_target_returns:
  "\<exists>e q' ts'. update_model_target rv targets q = Some (e, q', ts') \<and>
     (e = None \<and> gq_segments q' = gq_segments q \<and> gq_tags q' = gq_tags q \<or> e = Some Exn_Type \<and> q' = q \<and> ts' = targets)"
proof (cases "if gt_text_editor (gq_target q) then Some (gt_target (gq_target q)) else generate_query_string rv q")
  case (Some s)
  obtain t' where t': "update_rendered_target targets ((gq_target q)\<lparr>gt_target := s\<rparr>) = Some t'"
    using update_rendered_target_returns by blast
  obtain ts' where "update_others targets (gt_ref_id (gq_target q)) targets = Some ts'" using update_others_returns by blast
  with Some t' show ?thesis by (simp add: update_model_target_def Let_def)
qed (simp add: update_model_target_def Let_def)

text \<open>
  Updating a query and the queries beside it always returns, also when queries refer to each other in a
  circle or to themselves: each rendering takes at most as many passes as there are references in the queries,
  one for each query, and one more. The only exception is that of a path without a value.
\<close>

theorem rendering_returns:
  "(\<exists>e q' ts'. update_model_target rv targets q = Some (e, q', ts') \<and> (e = None \<or> e = Some Exn_Type \<and> q' = q \<and> ts' = targets)) \<and>
   (\<forall>s. \<exists>m. m \<le> sum_list (map re_count (ref_table targets)) + length (ref_table targets) + 1 \<and>
      render_loop s (ref_table targets) = Some ((render_pass ^^ m) (s, ref_table targets, True)))"
proof
  have budget: "table_budget tbl = sum_list (map re_count tbl) + length tbl" for tbl :: "ref_entry list"
    by (induction tbl) (auto simp: table_budget_def)
  show "\<forall>s. \<exists>m. m \<le> sum_list (map re_count (ref_table targets)) + length (ref_table targets) + 1 \<and>
      render_loop s (ref_table targets) = Some ((render_pass ^^ m) (s, ref_table targets, True))"
    using render_loop_ends [of "ref_table targets"] budget [of "ref_table targets"] by metis
  show "\<exists>e q' ts'. update_model_target rv targets q = Some (e, q', ts') \<and> (e = None \<or> e = Some Exn_Type \<and> q' = q \<and> ts' = targets)"
    using update_model_target_returns by metis
qed

text \<open>
  C19. As long as the references of a query lead to no circle, and none is needed more often for its full text
  than the queries beside it refer to it, plus one, rendering gives the full text: every reference to a query
  replaced by the full text of that query, to any depth, and references to unknown queries left as they are.
  The texts may have no two hashes in a row and none at the end, so that no reference arises by accident.
\<close>

theorem rendered_in_full:
  assumes "list_all (\<lambda>u. clean (gt_target u)) (t # targets)"
    and "ends_within (query_text targets) n (pieces (gt_target t))"
    and "\<And>d. uses (query_text targets) n (pieces (gt_target t)) d \<le> budget (ref_table targets) d"
  shows "\<exists>t'. update_rendered_target targets t = Some t' \<and>
    nullish (gt_target_full t') (gt_target t') = full_text (query_text targets) n (pieces (gt_target t))"
proof -
  let ?T = "query_text targets" and ?s = "gt_target t"
  obtain st where st: "render_loop ?s (ref_table targets) = Some st" "\<not> render_more st"
    using render_loop_ends by blast
  have "render_inv ?T n (full_text ?T n (pieces ?s)) (?s, ref_table targets, True)"
    using assms good_pieces [of ?s] ref_table_ok by (simp add: render_inv_def)
  then have "render_inv ?T n (full_text ?T n (pieces ?s)) st"
    using while_option_rule [OF _ st(1) [unfolded render_loop_def], where P = "render_inv ?T n (full_text ?T n (pieces ?s))"]
      render_pass_inv query_text_clean assms(1) by fastforce
  from render_inv_done [OF this st(2)] st(1)
  show ?thesis by (cases st) (auto simp: update_rendered_target_def)
qed

definition plain_target :: "string \<Rightarrow> string \<Rightarrow> graphite_target" where
  "plain_target i s = \<lparr>gt_ref_id = i, gt_target = s, gt_target_full = None, gt_text_editor = False\<rparr>"

definition sample_targets :: "graphite_target list" where
  "sample_targets = [plain_target ''A'' ''sum(#B, #X)'', plain_target ''B'' ''avg(#C)'', plain_target ''C'' ''web.*'']"

text \<open>A circle: each query is replaced as often as its count allows.\<close>

lemma circular_references:
  "update_rendered_target [plain_target ''A'' ''f(#B)'', plain_target ''B'' ''g(#A)''] (plain_target ''A'' ''f(#B)'') =
     Some ((plain_target ''A'' ''f(#B)'')\<lparr>gt_target_full := Some ''f(g(f(g(f(#B)))))''\<rparr>)"
  by code_simp

lemma rendered_in_full_witness:
  "\<exists>t'. update_rendered_target sample_targets (plain_target ''A'' ''sum(#B, #X)'') = Some t' \<and>
    nullish (gt_target_full t') (gt_target t') = ''sum(avg(web.*), #X)''"
proof -
  let ?t = "plain_target ''A'' ''sum(#B, #X)''" let ?T = "query_text sample_targets"
  have "ends_within ?T 2 (pieces (gt_target ?t))" by code_simp
  moreover have "list_all (\<lambda>u. clean (gt_target u)) (?t # sample_targets)" by code_simp
  moreover have "uses ?T 2 (pieces (gt_target ?t)) d \<le> budget (ref_table sample_targets) d" for d
  proof -
    have T: "?T (CHR ''B'') = Some ''avg(#C)''" "?T (CHR ''X'') = None" "?T (CHR ''C'') = Some ''web.*''" by code_simp+
    have u: "uses ?T 2 (pieces (gt_target ?t)) d = (if CHR ''B'' = d then 1 else 0) + (if CHR ''C'' = d then 1 else 0)"
      by (simp add: plain_target_def is_upper_def numeral_2_eq_2 T)
    have "budget (ref_table sample_targets) (CHR ''B'') = 2" "budget (ref_table sample_targets) (CHR ''C'') = 2" by code_simp+
    then show ?thesis unfolding u by auto
  qed
  moreover have "full_text ?T 2 (pieces (gt_target ?t)) = ''sum(avg(web.*), #X)''" by code_simp
  ultimately show ?thesis using rendered_in_full [of ?t sample_targets 2] by metis
qed

text \<open>
  Without that bound references stay behind: \<open>A\<close> needs \<open>C\<close> four times, where two references allow three.
\<close>

lemma references_left_over:
  "map_option gt_target_full
     (update_rendered_target [plain_target ''A'' ''#B #B'', plain_target ''B'' ''#C #C'', plain_target ''C'' ''x'']
       (plain_target ''A'' ''#B #B'')) = Some (Some ''x x x #C'')"
  by code_simp

end
