(* ===== verification/Graphite_Store.thy ===== *)
theory Graphite_Store
  imports Graphite_Refs
begin

text \<open>
  The state of the Graphite query editor, \<open>public/app/plugins/datasource/graphite/state/\<close> (\<open>store.ts\<close>, \<open>helpers.ts\<close>,
  \<open>actions.ts\<close>): the segments shown, the model of the query behind them, and the effect of every action. Actions
  are run one after the other, each on the state the last one left.

  The data source is a parameter: the definitions of its functions, the replacement of template variables, and
  \<open>env_find\<close>, whose answer for a path lists, metric by metric, whether it can be expanded, or is a rejection, with
  an \<open>Error\<close> or with something else. Running the query and showing an error are counted. Of the queries beside the
  edited one the state has those with a text. Checking the segments behind a changed one takes fuel; an action that
  runs out of it is \<open>Stuck\<close>. An action that throws is \<open>Thrown\<close>, with the state at that moment: the store keeps
  its own copy of the fields then, but the model of the query, its target and the array of segments are objects
  that the action has changed in place. \<open>ed_kept\<close> is that array once the action works on another one. A write that
  leaves a hole in an array of tags or functions is \<open>Hole\<close>, and not followed any further; a hole in the array of
  segments is a segment without a value.
\<close>

section \<open>State and actions\<close>

datatype find_answer = Metrics "bool list" | Failed_With_Error | Failed_Otherwise

record editor_env =
  env_defs :: func_defs
  env_rv :: "string \<Rightarrow> string"
  env_find :: "string option \<Rightarrow> find_answer"

record editor_segment =
  es_value :: "string option"
  es_type :: "string option"
  es_expandable :: bool
  es_fake :: bool

record editor_state =
  ed_query :: graphite_query
  ed_segments :: "editor_segment list"
  ed_queries :: "graphite_target list"
  ed_paused :: bool
  ed_metric_error_shown :: bool
  ed_refreshes :: nat   \<comment> \<open>calls of \<open>refresh\<close>\<close>
  ed_alerts :: nat      \<comment> \<open>errors published\<close>
  ed_has_template_srv :: bool     \<comment> \<open>\<open>templateSrv\<close> is defined in the state\<close>
  ed_model_template_srv :: bool   \<comment> \<open>it was when the model of the query was made\<close>
  ed_kept :: "editor_segment list option"   \<comment> \<open>the array of the store, if the action has left it\<close>

datatype run = Done editor_state | Thrown editor_state | Hole | Stuck

definition bind_run :: "run \<Rightarrow> (editor_state \<Rightarrow> run) \<Rightarrow> run" where
  "bind_run r f = (case r of Done st \<Rightarrow> f st | _ \<Rightarrow> r)"

datatype segment_change = New_Value string | New_Segment editor_segment

datatype editor_action =
    Init graphite_target "graphite_target list"
  | Time_Range_Changed
  | Queries_Changed "graphite_target list"
  | Query_Changed string
  | Segment_Value_Changed segment_change nat
  | Tag_Changed graphite_tag nat
  | Add_New_Tag string
  | Unpause
  | Add_Function string
  | Remove_Function nat
  | Move_Function nat int
  | Update_Function_Param nat nat string
  | Update_Query string
  | Run_Query
  | Toggle_Editor_Mode

text \<open>A method of the model that may throw, after it has changed the model.\<close>

definition run_edit :: "(graphite_query \<Rightarrow> edited) \<Rightarrow> editor_state \<Rightarrow> run" where
  "run_edit f st =
     (case f (ed_query st) of
        (None, q) \<Rightarrow> Done (st\<lparr>ed_query := q\<rparr>)
      | (Some e, q) \<Rightarrow> if e = Exn_Hole then Hole else Thrown (st\<lparr>ed_query := q\<rparr>))"

text \<open>The replacement of template variables in the model: none if it was made without a service for them.\<close>

definition model_rv :: "editor_env \<Rightarrow> editor_state \<Rightarrow> string \<Rightarrow> string" where
  "model_rv env st = (if ed_model_template_srv st then env_rv env else id)"

section \<open>Segments\<close>

definition shown_segment :: "graphite_segment \<Rightarrow> editor_segment" where
  "shown_segment g = \<lparr>es_value = gs_value g, es_type = gs_type g, es_expandable = False, es_fake = False\<rparr>"

definition add_select_metric :: "editor_state \<Rightarrow> editor_state" where
  "add_select_metric st =
     st\<lparr>ed_query := add_select_metric_segment (ed_query st),
        ed_segments := ed_segments st @ [\<lparr>es_value = Some select_metric, es_type = None, es_expandable = False, es_fake = True\<rparr>]\<rparr>"

text \<open>
  \<open>xs = xs.splice(0, i)\<close>: the first segments move to a new array, the rest is left in the old one. A push, above,
  is seen in both.
\<close>

definition splice_segments :: "nat \<Rightarrow> editor_state \<Rightarrow> editor_state" where
  "splice_segments i st =
     st\<lparr>ed_kept := Some (nullish (ed_kept st) (drop i (ed_segments st))), ed_segments := take i (ed_segments st),
        ed_query := (ed_query st)\<lparr>gq_segments := take i (gq_segments (ed_query st))\<rparr>\<rparr>"

definition assign_segments :: "editor_segment list \<Rightarrow> editor_state \<Rightarrow> editor_state" where
  "assign_segments ss st = st\<lparr>ed_kept := Some (nullish (ed_kept st) (ed_segments st)), ed_segments := ss\<rparr>"

definition empty_segments :: "editor_state \<Rightarrow> editor_state" where
  "empty_segments st = (assign_segments [] st)\<lparr>ed_query := (ed_query st)\<lparr>gq_segments := []\<rparr>\<rparr>"

definition handle_metrics_auto_complete_error :: "editor_state \<Rightarrow> editor_state" where
  "handle_metrics_auto_complete_error st =
     (if ed_metric_error_shown st then st else st\<lparr>ed_metric_error_shown := True, ed_alerts := ed_alerts st + 1\<rparr>)"

primrec check_other_segments :: "nat \<Rightarrow> editor_env \<Rightarrow> int \<Rightarrow> bool \<Rightarrow> editor_state \<Rightarrow> run" where
  "check_other_segments 0 env from_index modify_last st = Stuck"
| "check_other_segments (Suc n) env from_index modify_last st =
     (let segs = gq_segments (ed_query st) in
      if length segs = 1 \<and> gs_type (hd segs) = Some ''series-ref'' then Done st
      else if from_index = 0 then Done (add_select_metric st)
      else
        let cur = from_index + 1; path = get_segment_path_up_to (nat cur) (ed_query st) in
        if path = Some [] then Done st
        else (case env_find env path of
                Failed_With_Error \<Rightarrow> Done (handle_metrics_auto_complete_error st)
              | Failed_Otherwise \<Rightarrow> Done st
              | Metrics [] \<Rightarrow>
                  if modify_last
                  then let st = splice_segments (nat cur) st in
                    Done (if list_ex es_fake (ed_segments st) then st else add_select_metric st)
                  else Done st
              | Metrics (expandable # _) \<Rightarrow>
                  if expandable
                  then if int (length (ed_segments st)) = from_index then Done (add_select_metric st)
                    else check_other_segments n env cur True st
                  else Done st))"

text \<open>Fuel for the segments there are: one check each, and two more.\<close>

definition check_segments :: "editor_env \<Rightarrow> int \<Rightarrow> bool \<Rightarrow> editor_state \<Rightarrow> run" where
  "check_segments env from_index modify_last st = check_other_segments (length (ed_segments st) + 2) env from_index modify_last st"

definition build_segments :: "editor_env \<Rightarrow> bool \<Rightarrow> editor_state \<Rightarrow> run" where
  "build_segments env modify_last st =
     (let st = assign_segments (map shown_segment (gq_segments (ed_query st))) st in
      check_segments env (gq_check_index (ed_query st)) modify_last st)"

definition parse_editor_target :: "editor_env \<Rightarrow> editor_state \<Rightarrow> run" where
  "parse_editor_target env st =
     build_segments env True (st\<lparr>ed_query := parse_target (env_defs env) (model_rv env st) (ed_query st)\<rparr>)"

section \<open>Running the query\<close>

definition resolved_target :: "editor_state \<Rightarrow> string" where
  "resolved_target st =
     (let t = gq_target (ed_query st) in filter (\<lambda>c. \<not> is_space c) (nullish (gt_target_full t) (gt_target t)))"

definition handle_target_changed :: "editor_env \<Rightarrow> editor_state \<Rightarrow> run" where
  "handle_target_changed env st =
     (if gq_error (ed_query st) \<noteq> None then Done st
      else case update_model_target (model_rv env st) (ed_queries st) (ed_query st) of
          None \<Rightarrow> Stuck
        | Some (Some _, q, qs) \<Rightarrow> Thrown (st\<lparr>ed_query := q, ed_queries := qs\<rparr>)
        | Some (None, q, qs) \<Rightarrow>
            (let st' = st\<lparr>ed_query := q, ed_queries := qs\<rparr> in
             Done (if resolved_target st' \<noteq> resolved_target st \<and> \<not> ed_paused st' then st'\<lparr>ed_refreshes := ed_refreshes st' + 1\<rparr> else st')))"

section \<open>Tags and functions\<close>

definition TAG_PREFIX :: string where
  "TAG_PREFIX = ''tag: ''"

definition remove_tag_prefix :: "string \<Rightarrow> string" where
  "remove_tag_prefix s =
     (case index_of TAG_PREFIX s of None \<Rightarrow> s | Some i \<Rightarrow> take i s @ drop (i + length TAG_PREFIX) s)"

text \<open>A new instance with its own identity, pushed with the parameters given, or its default ones.\<close>

definition push_instance :: "editor_env \<Rightarrow> string \<Rightarrow> param_value list option \<Rightarrow> editor_state \<Rightarrow> editor_state" where
  "push_instance env name ps st =
     (let q = ed_query st; f = create_func_instance (get_func_def (env_defs env) name) (ps = None) (gq_next_id q);
          f = f\<lparr>fi_params := nullish ps (fi_params f), fi_added := True\<rparr>
      in st\<lparr>ed_query := add_function f (q\<lparr>gq_next_id := gq_next_id q + 1\<rparr>)\<rparr>)"

definition add_series_by_tag_func :: "editor_env \<Rightarrow> string \<Rightarrow> editor_state \<Rightarrow> run" where
  "add_series_by_tag_func env tag st =
     (let st = empty_segments (push_instance env series_by_tag (Some [P_Str (tag @ ''='')]) st) in
      bind_run (handle_target_changed env st) (parse_editor_target env))"

definition update_instance :: "nat \<Rightarrow> (func_instance \<Rightarrow> func_instance) \<Rightarrow> editor_state \<Rightarrow> editor_state" where
  "update_instance i g st =
     st\<lparr>ed_query := (ed_query st)\<lparr>gq_functions := map (\<lambda>f. if fi_id f = i then g f else f) (gq_functions (ed_query st))\<rparr>\<rparr>"

text \<open>The first segment with a star; a segment without a value before it throws, which is \<open>None\<close>.\<close>

fun first_star :: "nat \<Rightarrow> editor_segment list \<Rightarrow> nat option option" where
  "first_star i [] = Some None"
| "first_star i (s # ss) =
     (case es_value s of None \<Rightarrow> None | Some v \<Rightarrow> if CHR ''*'' \<in> set v then Some (Some i) else first_star (Suc i) ss)"

definition smartly_handle_new_alias_by_node :: "editor_env \<Rightarrow> func_instance \<Rightarrow> editor_state \<Rightarrow> run" where
  "smartly_handle_new_alias_by_node env f st =
     (if fd_name (fi_def f) \<noteq> ''aliasByNode'' then Done st
      else case first_star 0 (ed_segments st) of
          None \<Rightarrow> Thrown st
        | Some None \<Rightarrow> Done st
        | Some (Some i) \<Rightarrow>
            handle_target_changed env
              (update_instance (fi_id f)
                (\<lambda>f. f\<lparr>fi_params := put_at 0 (P_Num (Some \<lparr>dc_negative = False, dc_digits = i, dc_exponent = 0\<rparr>)) (fi_params f),
                       fi_added := False\<rparr>) st))"

section \<open>The reducer\<close>

definition set_target_text :: "string \<Rightarrow> editor_state \<Rightarrow> editor_state" where
  "set_target_text s st = st\<lparr>ed_query := (ed_query st)\<lparr>gq_target := (gq_target (ed_query st))\<lparr>gt_target := s\<rparr>\<rparr>\<rparr>"

text \<open>\<open>segments[i] = segment\<close>, in place: an array that is too short grows.\<close>

definition put_segment :: "nat \<Rightarrow> editor_segment \<Rightarrow> editor_segment list \<Rightarrow> editor_segment list" where
  "put_segment i s ss =
     (if i < length ss then ss[i := s]
      else ss @ replicate (i - length ss) \<lparr>es_value = None, es_type = None, es_expandable = False, es_fake = False\<rparr> @ [s])"

definition change_segment :: "editor_env \<Rightarrow> segment_change \<Rightarrow> nat \<Rightarrow> editor_state \<Rightarrow> run" where
  "change_segment env c i st =
     (let seg = (case c of
                   New_Value s \<Rightarrow> \<lparr>es_value = Some s, es_type = None, es_expandable = True, es_fake = False\<rparr>
                 | New_Segment s \<Rightarrow> s)
      in bind_run (run_edit (update_segment_value (es_value seg) i) (st\<lparr>ed_segments := put_segment i seg (ed_segments st)\<rparr>)) (\<lambda>st.
         let fs = gq_functions (ed_query st);
             st = (if fs \<noteq> [] \<and> fd_fake (fi_def (hd fs)) then st\<lparr>ed_query := (ed_query st)\<lparr>gq_functions := []\<rparr>\<rparr> else st)
         in if es_type seg = Some ''tag''
            then (case es_value seg of
                    None \<Rightarrow> Thrown st
                  | Some v \<Rightarrow> add_series_by_tag_func env (remove_tag_prefix v) (st\<lparr>ed_paused := True\<rparr>))
            else bind_run
              (if es_expandable seg then check_segments env (int i + 1) True st else Done (splice_segments (i + 1) st))
              (handle_target_changed env)))"

definition add_editor_function :: "editor_env \<Rightarrow> string \<Rightarrow> editor_state \<Rightarrow> run" where
  "add_editor_function env name st =
     (let st = push_instance env name None st; f = last (gq_functions (ed_query st)) in
      bind_run (smartly_handle_new_alias_by_node env f st) (\<lambda>st.
        let f = last (gq_functions (ed_query st));
            st = (if length (ed_segments st) = 1 \<and> es_fake (hd (ed_segments st)) then empty_segments st else st)
        in bind_run (if fi_params f = [] \<and> fi_added f then handle_target_changed env st else Done st) (\<lambda>st.
           if fd_name (fi_def f) = series_by_tag then parse_editor_target env st else Done st)))"

definition editor_reducer :: "editor_env \<Rightarrow> editor_action \<Rightarrow> editor_state \<Rightarrow> run" where
  "editor_reducer env a st =
     (case a of
        Init t qs \<Rightarrow>
          (let b = ed_has_template_srv st;
               st = st\<lparr>ed_has_template_srv := True, ed_model_template_srv := b, ed_paused := False, ed_queries := qs\<rparr>
           in build_segments env False (st\<lparr>ed_query := new_graphite_query (env_defs env) (model_rv env st) t\<rparr>))
      | Time_Range_Changed \<Rightarrow> Done st
      | Queries_Changed qs \<Rightarrow> handle_target_changed env (st\<lparr>ed_queries := qs\<rparr>)
      | Query_Changed s \<Rightarrow> bind_run (parse_editor_target env (set_target_text s st)) (handle_target_changed env)
      | Segment_Value_Changed c i \<Rightarrow> change_segment env c i st
      | Tag_Changed t i \<Rightarrow>
          bind_run (run_edit (update_tag t i) st) (\<lambda>st.
          bind_run (handle_target_changed env st) (\<lambda>st.
            if gq_tags (ed_query st) = []
            then bind_run (check_segments env 0 True st) (\<lambda>st. Done (st\<lparr>ed_paused := False\<rparr>))
            else Done st))
      | Add_New_Tag key \<Rightarrow>
          bind_run (run_edit (add_tag \<lparr>tg_key = key, tg_operator = ''='', tg_value = []\<rparr>) st) (handle_target_changed env)
      | Unpause \<Rightarrow> Done (st\<lparr>ed_paused := False, ed_refreshes := ed_refreshes st + 1\<rparr>)
      | Add_Function name \<Rightarrow> add_editor_function env name st
      | Remove_Function i \<Rightarrow> handle_target_changed env (st\<lparr>ed_query := remove_function i (ed_query st)\<rparr>)
      | Move_Function i offset \<Rightarrow> bind_run (run_edit (move_function i offset) st) (handle_target_changed env)
      | Update_Function_Param f i s \<Rightarrow> handle_target_changed env (update_instance f (update_param s i) st)
      | Update_Query s \<Rightarrow> handle_target_changed env (set_target_text s st)
      | Run_Query \<Rightarrow> Done (st\<lparr>ed_refreshes := ed_refreshes st + 1\<rparr>)
      | Toggle_Editor_Mode \<Rightarrow>
          parse_editor_target env
            (st\<lparr>ed_query := (ed_query st)\<lparr>gq_target := (gq_target (ed_query st))
                \<lparr>gt_text_editor := \<not> gt_text_editor (gq_target (ed_query st))\<rparr>\<rparr>\<rparr>))"

section \<open>The store\<close>

text \<open>
  \<open>createStore\<close>: the state the reducer returns is the next one. If it throws, the store stays with the fields it
  had, and with what has happened to the objects they refer to.
\<close>

definition kept_after_throw :: "editor_action \<Rightarrow> editor_state \<Rightarrow> editor_state \<Rightarrow> editor_state" where
  "kept_after_throw a st st' =
     (let st = st\<lparr>ed_refreshes := ed_refreshes st', ed_alerts := ed_alerts st'\<rparr>;
          changed = st\<lparr>ed_query := ed_query st', ed_segments := nullish (ed_kept st') (ed_segments st')\<rparr>
      in case a of
           Init _ _ \<Rightarrow> st
         | Queries_Changed _ \<Rightarrow> changed
         | _ \<Rightarrow> changed\<lparr>ed_queries := ed_queries st'\<rparr>)"

definition editor_dispatch :: "editor_env \<Rightarrow> editor_action \<Rightarrow> editor_state \<Rightarrow> editor_state option" where
  "editor_dispatch env a st =
     (case editor_reducer env a st of
        Done st' \<Rightarrow> Some (st'\<lparr>ed_kept := None\<rparr>)
      | Thrown st' \<Rightarrow> Some (kept_after_throw a st st')
      | Hole \<Rightarrow> None
      | Stuck \<Rightarrow> None)"

definition no_query :: graphite_query where
  "no_query = \<lparr>gq_functions = [], gq_segments = [], gq_tags = [], gq_error = None, gq_series_by_tag_used = False,
     gq_check_index = 0, gq_target = \<lparr>gt_ref_id = [], gt_target = [], gt_target_full = None, gt_text_editor = False\<rparr>, gq_next_id = 0\<rparr>"

text \<open>The store starts with nothing in it.\<close>

definition empty_editor :: editor_state where
  "empty_editor =
     \<lparr>ed_query = no_query, ed_segments = [], ed_queries = [], ed_paused = False, ed_metric_error_shown = False,
      ed_refreshes = 0, ed_alerts = 0, ed_has_template_srv = False, ed_model_template_srv = False, ed_kept = None\<rparr>"

section \<open>The segments shown are those of the model\<close>

definition segments_in_step :: "editor_state \<Rightarrow> bool" where
  "segments_in_step st \<longleftrightarrow> map es_value (ed_segments st) = map gs_value (gq_segments (ed_query st))"

text \<open>A fake segment is the one behind the path.\<close>

definition fakes_ok :: "editor_state \<Rightarrow> bool" where
  "fakes_ok st \<longleftrightarrow> (\<forall>s\<in>set (ed_segments st). es_fake s \<longrightarrow> es_value s = Some select_metric)"

definition segments_ok :: "editor_state \<Rightarrow> bool" where
  "segments_ok st \<longleftrightarrow> segments_in_step st \<and> fakes_ok st"

text \<open>The text of the query is not written, or can be.\<close>

definition whole_path :: "graphite_query \<Rightarrow> string option" where
  "whole_path q = get_segment_path_up_to (length (gq_segments q)) q"

definition writable :: "graphite_query \<Rightarrow> bool" where
  "writable q \<longleftrightarrow> gq_error q \<noteq> None \<or> gt_text_editor (gq_target q) \<or> whole_path q \<noteq> None"

text \<open>
  What holds in the middle of an action: the action still works on the array of the store, or writing the query
  will not throw.
\<close>

definition in_order :: "editor_state \<Rightarrow> bool" where
  "in_order st \<longleftrightarrow> segments_ok st \<and> (ed_kept st = None \<or> writable (ed_query st))"





lemma assign_segments_query [simp]: "ed_query (assign_segments ss st) = ed_query st"
  by (simp add: assign_segments_def)


section \<open>Paths with a value\<close>








section \<open>The operations\<close>















text \<open>Edits of the query beside its segments, while the action works on the array of the store or the query can be written.\<close>

lemma in_order_fields [simp]:
  "in_order (st\<lparr>ed_paused := b\<rparr>) \<longleftrightarrow> in_order st"
  "in_order (st\<lparr>ed_queries := qs\<rparr>) \<longleftrightarrow> in_order st"
  "in_order (st\<lparr>ed_refreshes := k\<rparr>) \<longleftrightarrow> in_order st"
  by (simp_all add: in_order_def segments_ok_def segments_in_step_def fakes_ok_def)








section \<open>Every action\<close>






section \<open>Reachable states\<close>






definition sample_env :: editor_env where
  "sample_env = \<lparr>env_defs = (\<lambda>_. None), env_rv = id, env_find = (\<lambda>_. Metrics [True])\<rparr>"

definition edited_editor :: editor_state where
  "edited_editor =
     empty_editor\<lparr>ed_query := (ed_query empty_editor)
         \<lparr>gq_segments := [\<lparr>gs_value = Some ''web'', gs_type = None\<rparr>, \<lparr>gs_value = Some select_metric, gs_type = None\<rparr>],
          gq_target := plain_target ''A'' ''web''\<rparr>,
       ed_segments := [\<lparr>es_value = Some ''web'', es_type = None, es_expandable = True, es_fake = False\<rparr>,
         \<lparr>es_value = Some select_metric, es_type = None, es_expandable = False, es_fake = True\<rparr>],
       ed_refreshes := 1, ed_has_template_srv := True\<rparr>"





text \<open>An action that throws: a tag without a call of \<open>seriesByTag\<close>. The error of the model is already cleared.\<close>

lemma tag_without_call:
  "editor_dispatch sample_env (Tag_Changed \<lparr>tg_key = ''app'', tg_operator = ''='', tg_value = ''web''\<rparr> 0)
     (edited_editor\<lparr>ed_query := (ed_query edited_editor)\<lparr>gq_error := Some (Shown_Query Exn_Type)\<rparr>\<rparr>) = Some edited_editor"
  by code_simp

text \<open>Behind the end, the segment is in the array of the store before the model throws.\<close>

lemma segment_behind_end:
  "map_option (\<lambda>st. (length (ed_segments st), length (gq_segments (ed_query st))))
     (editor_dispatch sample_env (Segment_Value_Changed (New_Value ''cpu'') 2) edited_editor) = Some (3, 2)"
  by code_simp

text \<open>
  At the first \<open>init\<close> the state has no service for template variables yet, so the model of the query has none: what
  the service would replace makes no difference to it.
\<close>

lemma first_model_without_template_srv:
  "editor_dispatch env (Init t qs) empty_editor =
     editor_dispatch (env\<lparr>env_rv := rv\<rparr>) (Init t qs) empty_editor"
proof -
  have check: "check_other_segments n (env\<lparr>env_rv := rv\<rparr>) i m st = check_other_segments n env i m st" for n i m st
    by (induction n arbitrary: i m st) (simp_all add: Let_def split: find_answer.split list.split)
  show ?thesis
    by (simp add: editor_dispatch_def editor_reducer_def build_segments_def check_segments_def check model_rv_def empty_editor_def Let_def)
qed


end
