(* ===== verification/Graphite_Table.thy ===== *)
theory Graphite_Table
  imports Graphite_Func Js_Object
begin

text \<open>
  The functions Graphite knows, \<open>public/app/plugins/datasource/graphite/gfunc.ts\<close>: the table built into the source, the
  selection for a version of the server, and the import of a list the server sends. Reading a version and
  comparing two are those of the library \<open>semver\<close>: the parameters \<open>coerce\<close> and \<open>gte\<close>.

  The lemmas show that the parameters a new instance starts with always have a place in its definition.
\<close>

section \<open>The table\<close>

definition param :: "string \<Rightarrow> string \<Rightarrow> param_def" where
  "param name t =
     \<lparr>pd_name = name, pd_type = t, pd_options = None, pd_multiple = False, pd_optional = False, pd_version = None\<rparr>"

definition func :: "string \<Rightarrow> string \<Rightarrow> param_def list \<Rightarrow> param_value list \<Rightarrow> func_def" where
  "func name category ps defaults =
     \<lparr>fd_name = name, fd_params = ps, fd_default_params = defaults, fd_category = Some category, fd_short_name = None,
      fd_fake = False, fd_version = None, fd_unknown = False\<rparr>"

definition integer :: "int \<Rightarrow> param_value" where
  "integer n = P_Num (Some \<lparr>dc_negative = n < 0, dc_digits = nat \<bar>n\<bar>, dc_exponent = 0\<rparr>)"

definition optional_series_ref_args :: "param_def list" where
  "optional_series_ref_args = [(param ''other'' ''value_or_series'')\<lparr>pd_multiple := True, pd_optional := True\<rparr>]"

definition graphite_functions_1 :: "func_def list" where
  "graphite_functions_1 = [
      func ''scaleToSeconds'' ''Transform'' [param ''seconds'' ''int''] [integer 1],
      func ''perSecond'' ''Transform'' [(param ''max value'' ''int'')\<lparr>pd_optional := True\<rparr>] [],
      func ''holtWintersForecast'' ''Calculate'' [] [],
      func ''holtWintersConfidenceBands'' ''Calculate'' [param ''delta'' ''int''] [integer 3],
      func ''holtWintersAberration'' ''Calculate'' [param ''delta'' ''int''] [integer 3],
      func ''nPercentile'' ''Calculate'' [param ''Nth percentile'' ''int''] [integer 95],
      func ''diffSeries'' ''Combine'' optional_series_ref_args [P_Str ''#A''],
      func ''stddevSeries'' ''Combine'' optional_series_ref_args [P_Str []],
      func ''divideSeries'' ''Combine'' optional_series_ref_args [P_Str ''#A''],
      func ''multiplySeries'' ''Combine'' optional_series_ref_args [P_Str ''#A''],
      func ''asPercent'' ''Combine'' optional_series_ref_args [P_Str ''#A''],
      func ''group'' ''Combine'' optional_series_ref_args [P_Str ''#A'', P_Str ''#B''],
      (func ''sumSeries'' ''Combine'' optional_series_ref_args [P_Str []])\<lparr>fd_short_name := Some
        ''sum''\<rparr>,
      (func ''averageSeries'' ''Combine'' optional_series_ref_args [P_Str []])\<lparr>fd_short_name := Some
        ''avg''\<rparr>,
      func ''rangeOfSeries'' ''Combine'' [] [],
      func ''percentileOfSeries'' ''Combine'' [param ''n'' ''int'', (param ''interpolate''
        ''boolean'')\<lparr>pd_options := Some [P_Str ''true'', P_Str ''false'']\<rparr>] [integer 95, P_Str
        ''false''],
      func ''sumSeriesWithWildcards'' ''Combine'' [(param ''node'' ''int'')\<lparr>pd_multiple := True\<rparr>]
        [integer 3],
      (func ''maxSeries'' ''Combine'' [] [])\<lparr>fd_short_name := Some ''max''\<rparr>,
      (func ''minSeries'' ''Combine'' [] [])\<lparr>fd_short_name := Some ''min''\<rparr>,
      func ''averageSeriesWithWildcards'' ''Combine'' [(param ''node'' ''int'')\<lparr>pd_multiple :=
        True\<rparr>] [integer 3],
      func ''alias'' ''Alias'' [param ''alias'' ''string''] [P_Str ''alias'']]"

definition graphite_functions_2 :: "func_def list" where
  "graphite_functions_2 = [
      func ''aliasSub'' ''Alias'' [param ''search'' ''string'', param ''replace'' ''string''] [P_Str [], P_Str
        [CHR 0x5C, CHR ''1'']],
      func ''consolidateBy'' ''Special'' [(param ''function'' ''string'')\<lparr>pd_options := Some [P_Str
        ''sum'', P_Str ''average'', P_Str ''min'', P_Str ''max'']\<rparr>] [P_Str ''max''],
      func ''cumulative'' ''Special'' [] [],
      func ''groupByNode'' ''Combine'' [(param ''node'' ''int'')\<lparr>pd_options := Some [integer 0, integer
        1, integer 2, integer 3, integer 4, integer 5, integer 6, integer 7, integer 8, integer 9, integer 10,
        integer 12]\<rparr>, (param ''function'' ''string'')\<lparr>pd_options := Some [P_Str ''sum'', P_Str
        ''avg'', P_Str ''maxSeries'']\<rparr>] [integer 3, P_Str ''sum''],
      func ''aliasByNode'' ''Alias'' [(param ''node'' ''int'')\<lparr>pd_options := Some [integer 0, integer 1,
        integer 2, integer 3, integer 4, integer 5, integer 6, integer 7, integer 8, integer 9, integer 10,
        integer 12], pd_multiple := True\<rparr>] [integer 3],
      func ''substr'' ''Special'' [(param ''start'' ''int'')\<lparr>pd_options := Some [integer (-6), integer
        (-5), integer (-4), integer (-3), integer (-2), integer (-1), integer 0, integer 1, integer 2, integer
        3, integer 4, integer 5, integer 6, integer 7, integer 8, integer 9, integer 10, integer 12]\<rparr>,
        (param ''stop'' ''int'')\<lparr>pd_options := Some [integer (-6), integer (-5), integer (-4), integer
        (-3), integer (-2), integer (-1), integer 0, integer 1, integer 2, integer 3, integer 4, integer 5,
        integer 6, integer 7, integer 8, integer 9, integer 10, integer 12]\<rparr>] [integer 0, integer 0],
      func ''sortByName'' ''Sorting'' [(param ''natural'' ''boolean'')\<lparr>pd_options := Some [P_Str
        ''true'', P_Str ''false''], pd_optional := True\<rparr>] [P_Str ''false''],
      func ''sortByMaxima'' ''Sorting'' [] [],
      func ''sortByMinima'' ''Sorting'' [] [],
      func ''sortByTotal'' ''Sorting'' [] [],
      func ''aliasByMetric'' ''Alias'' [] [],
      (func ''randomWalk'' ''Special'' [param ''name'' ''string''] [P_Str ''randomWalk''])\<lparr>fd_fake :=
        True\<rparr>,
      func ''countSeries'' ''Combine'' [] [],
      func ''constantLine'' ''Special'' [param ''value'' ''int''] [integer 10],
      func ''cactiStyle'' ''Special'' [] [],
      func ''keepLastValue'' ''Transform'' [param ''n'' ''int''] [integer 100]]"

definition graphite_functions_3 :: "func_def list" where
  "graphite_functions_3 = [
      func ''changed'' ''Special'' [] [],
      func ''scale'' ''Transform'' [param ''factor'' ''int''] [integer 1],
      func ''offset'' ''Transform'' [param ''amount'' ''int''] [integer 10],
      func ''transformNull'' ''Transform'' [param ''amount'' ''int''] [integer 0],
      func ''integral'' ''Transform'' [] [],
      func ''derivative'' ''Transform'' [] [],
      func ''nonNegativeDerivative'' ''Transform'' [(param ''max value or 0'' ''int'')\<lparr>pd_optional :=
        True\<rparr>] [P_Str []],
      func ''timeShift'' ''Transform'' [(param ''amount'' ''select'')\<lparr>pd_options := Some [P_Str ''1h'',
        P_Str ''6h'', P_Str ''12h'', P_Str ''1d'', P_Str ''2d'', P_Str ''7d'', P_Str ''14d'', P_Str
        ''30d'']\<rparr>] [P_Str ''1d''],
      func ''timeStack'' ''Transform'' [(param ''timeShiftUnit'' ''select'')\<lparr>pd_options := Some [P_Str
        ''1h'', P_Str ''6h'', P_Str ''12h'', P_Str ''1d'', P_Str ''2d'', P_Str ''7d'', P_Str ''14d'', P_Str
        ''30d'']\<rparr>, param ''timeShiftStart'' ''int'', param ''timeShiftEnd'' ''int''] [P_Str ''1d'',
        integer 0, integer 7],
      func ''summarize'' ''Transform'' [param ''interval'' ''string'', (param ''func''
        ''select'')\<lparr>pd_options := Some [P_Str ''sum'', P_Str ''avg'', P_Str ''min'', P_Str ''max'', P_Str
        ''last'']\<rparr>, (param ''alignToFrom'' ''boolean'')\<lparr>pd_options := Some [P_Str ''false'', P_Str
        ''true''], pd_optional := True\<rparr>] [P_Str ''1h'', P_Str ''sum'', P_Str ''false''],
      func ''smartSummarize'' ''Transform'' [param ''interval'' ''string'', (param ''func''
        ''select'')\<lparr>pd_options := Some [P_Str ''sum'', P_Str ''avg'', P_Str ''min'', P_Str ''max'', P_Str
        ''last'']\<rparr>] [P_Str ''1h'', P_Str ''sum''],
      func ''absolute'' ''Transform'' [] [],
      func ''hitcount'' ''Transform'' [param ''interval'' ''string''] [P_Str ''10s''],
      func ''log'' ''Transform'' [param ''base'' ''int''] [P_Str ''10''],
      func ''averageAbove'' ''Filter Series'' [param ''n'' ''int''] [integer 25],
      func ''averageBelow'' ''Filter Series'' [param ''n'' ''int''] [integer 25],
      func ''currentAbove'' ''Filter Series'' [param ''n'' ''int''] [integer 25]]"

definition graphite_functions_4 :: "func_def list" where
  "graphite_functions_4 = [
      func ''currentBelow'' ''Filter Series'' [param ''n'' ''int''] [integer 25],
      func ''maximumAbove'' ''Filter Series'' [param ''value'' ''int''] [integer 0],
      func ''maximumBelow'' ''Filter Series'' [param ''value'' ''int''] [integer 0],
      func ''minimumAbove'' ''Filter Series'' [param ''value'' ''int''] [integer 0],
      func ''minimumBelow'' ''Filter Series'' [param ''value'' ''int''] [integer 0],
      func ''limit'' ''Filter Series'' [param ''n'' ''int''] [integer 5],
      func ''mostDeviant'' ''Filter Series'' [param ''n'' ''int''] [integer 10],
      func ''exclude'' ''Filter Series'' [param ''exclude'' ''string''] [P_Str ''exclude''],
      func ''highestCurrent'' ''Filter Series'' [param ''count'' ''int''] [integer 5],
      func ''highestMax'' ''Filter Series'' [param ''count'' ''int''] [integer 5],
      func ''lowestCurrent'' ''Filter Series'' [param ''count'' ''int''] [integer 5],
      func ''movingAverage'' ''Calculate'' [(param ''windowSize'' ''int_or_interval'')\<lparr>pd_options := Some
        [P_Str ''5'', P_Str ''7'', P_Str ''10'', P_Str ''5min'', P_Str ''10min'', P_Str ''30min'', P_Str
        ''1hour'']\<rparr>] [integer 10],
      func ''movingMedian'' ''Calculate'' [(param ''windowSize'' ''int_or_interval'')\<lparr>pd_options := Some
        [P_Str ''5'', P_Str ''7'', P_Str ''10'', P_Str ''5min'', P_Str ''10min'', P_Str ''30min'', P_Str
        ''1hour'']\<rparr>] [P_Str ''5''],
      func ''stdev'' ''Calculate'' [param ''n'' ''int'', param ''tolerance'' ''int''] [integer 5, P_Num (Some
        \<lparr>dc_negative = False, dc_digits = 1, dc_exponent = - 1\<rparr>)],
      func ''highestAverage'' ''Filter Series'' [param ''count'' ''int''] [integer 5],
      func ''lowestAverage'' ''Filter Series'' [param ''count'' ''int''] [integer 5],
      func ''removeAbovePercentile'' ''Filter Data'' [param ''n'' ''int''] [integer 5],
      func ''removeAboveValue'' ''Filter Data'' [param ''n'' ''int''] [integer 5],
      func ''removeBelowPercentile'' ''Filter Data'' [param ''n'' ''int''] [integer 5]]"

definition graphite_functions_5 :: "func_def list" where
  "graphite_functions_5 = [
      func ''removeBelowValue'' ''Filter Data'' [param ''n'' ''int''] [integer 5],
      func ''useSeriesAbove'' ''Filter Series'' [param ''value'' ''int'', param ''search'' ''string'', param
        ''replace'' ''string''] [integer 0, P_Str ''search'', P_Str ''replace''],
      (func ''aggregateLine'' ''Calculate'' [(param ''func'' ''select'')\<lparr>pd_options := Some [P_Str
        ''sum'', P_Str ''avg'', P_Str ''min'', P_Str ''max'', P_Str ''last'']\<rparr>] [P_Str
        ''avg''])\<lparr>fd_version := Some ''1.0.0''\<rparr>,
      (func ''averageOutsidePercentile'' ''Filter Series'' [param ''n'' ''int''] [integer 95])\<lparr>fd_version
        := Some ''1.0.0''\<rparr>,
      (func ''delay'' ''Transform'' [param ''steps'' ''int''] [integer 1])\<lparr>fd_version := Some
        ''1.0.0''\<rparr>,
      (func ''exponentialMovingAverage'' ''Calculate'' [(param ''windowSize''
        ''int_or_interval'')\<lparr>pd_options := Some [P_Str ''5'', P_Str ''7'', P_Str ''10'', P_Str ''5min'',
        P_Str ''10min'', P_Str ''30min'', P_Str ''1hour'']\<rparr>] [integer 10])\<lparr>fd_version := Some
        ''1.0.0''\<rparr>,
      (func ''fallbackSeries'' ''Special'' [param ''fallback'' ''string''] [P_Str
        ''constantLine(0)''])\<lparr>fd_version := Some ''1.0.0''\<rparr>,
      (func ''grep'' ''Filter Series'' [param ''grep'' ''string''] [P_Str ''grep''])\<lparr>fd_version := Some
        ''1.0.0''\<rparr>,
      (func ''groupByNodes'' ''Combine'' [(param ''function'' ''string'')\<lparr>pd_options := Some [P_Str
        ''sum'', P_Str ''avg'', P_Str ''maxSeries'']\<rparr>, (param ''node'' ''int'')\<lparr>pd_options := Some
        [integer 0, integer 1, integer 2, integer 3, integer 4, integer 5, integer 6, integer 7, integer 8,
        integer 9, integer 10, integer 12], pd_multiple := True\<rparr>] [P_Str ''sum'', integer
        3])\<lparr>fd_version := Some ''1.0.0''\<rparr>,
      (func ''integralByInterval'' ''Transform'' [(param ''intervalUnit'' ''select'')\<lparr>pd_options := Some
        [P_Str ''1h'', P_Str ''6h'', P_Str ''12h'', P_Str ''1d'', P_Str ''2d'', P_Str ''7d'', P_Str ''14d'',
        P_Str ''30d'']\<rparr>] [P_Str ''1d''])\<lparr>fd_version := Some ''1.0.0''\<rparr>,
      (func ''interpolate'' ''Transform'' [(param ''limit'' ''int'')\<lparr>pd_optional := True\<rparr>]
        [])\<lparr>fd_version := Some ''1.0.0''\<rparr>,
      (func ''invert'' ''Transform'' [] [])\<lparr>fd_version := Some ''1.0.0''\<rparr>,
      (func ''isNonNull'' ''Combine'' [] [])\<lparr>fd_version := Some ''1.0.0''\<rparr>]"

definition graphite_functions_6 :: "func_def list" where
  "graphite_functions_6 = [
      (func ''linearRegression'' ''Calculate'' [(param ''startSourceAt'' ''select'')\<lparr>pd_options := Some
        [P_Str ''-1h'', P_Str ''-6h'', P_Str ''-12h'', P_Str ''-1d'', P_Str ''-2d'', P_Str ''-7d'', P_Str
        ''-14d'', P_Str ''-30d''], pd_optional := True\<rparr>, (param ''endSourceAt''
        ''select'')\<lparr>pd_options := Some [P_Str ''-1h'', P_Str ''-6h'', P_Str ''-12h'', P_Str ''-1d'',
        P_Str ''-2d'', P_Str ''-7d'', P_Str ''-14d'', P_Str ''-30d''], pd_optional := True\<rparr>]
        [])\<lparr>fd_version := Some ''1.0.0''\<rparr>,
      (func ''mapSeries'' ''Combine'' [param ''node'' ''int''] [integer 3])\<lparr>fd_short_name := Some
        ''map'', fd_version := Some ''1.0.0''\<rparr>,
      (func ''movingMin'' ''Calculate'' [(param ''windowSize'' ''int_or_interval'')\<lparr>pd_options := Some
        [P_Str ''5'', P_Str ''7'', P_Str ''10'', P_Str ''5min'', P_Str ''10min'', P_Str ''30min'', P_Str
        ''1hour'']\<rparr>] [integer 10])\<lparr>fd_version := Some ''1.0.0''\<rparr>,
      (func ''movingMax'' ''Calculate'' [(param ''windowSize'' ''int_or_interval'')\<lparr>pd_options := Some
        [P_Str ''5'', P_Str ''7'', P_Str ''10'', P_Str ''5min'', P_Str ''10min'', P_Str ''30min'', P_Str
        ''1hour'']\<rparr>] [integer 10])\<lparr>fd_version := Some ''1.0.0''\<rparr>,
      (func ''movingSum'' ''Calculate'' [(param ''windowSize'' ''int_or_interval'')\<lparr>pd_options := Some
        [P_Str ''5'', P_Str ''7'', P_Str ''10'', P_Str ''5min'', P_Str ''10min'', P_Str ''30min'', P_Str
        ''1hour'']\<rparr>] [integer 10])\<lparr>fd_version := Some ''1.0.0''\<rparr>,
      (func ''multiplySeriesWithWildcards'' ''Combine'' [(param ''position'' ''int'')\<lparr>pd_options := Some
        [integer 0, integer 1, integer 2, integer 3, integer 4, integer 5, integer 6, integer 7, integer 8,
        integer 9, integer 10, integer 12], pd_multiple := True\<rparr>] [integer 2])\<lparr>fd_version := Some
        ''1.0.0''\<rparr>,
      (func ''offsetToZero'' ''Transform'' [] [])\<lparr>fd_version := Some ''1.0.0''\<rparr>,
      (func ''pow'' ''Transform'' [param ''factor'' ''int''] [integer 10])\<lparr>fd_version := Some
        ''1.0.0''\<rparr>,
      (func ''powSeries'' ''Transform'' optional_series_ref_args [P_Str []])\<lparr>fd_version := Some
        ''1.0.0''\<rparr>,
      (func ''reduceSeries'' ''Combine'' [(param ''function'' ''string'')\<lparr>pd_options := Some [P_Str
        ''asPercent'', P_Str ''diffSeries'', P_Str ''divideSeries'']\<rparr>, (param ''reduceNode''
        ''int'')\<lparr>pd_options := Some [integer 0, integer 1, integer 2, integer 3, integer 4, integer 5,
        integer 6, integer 7, integer 8, integer 9, integer 10, integer 11, integer 12, integer 13]\<rparr>,
        (param ''reduceMatchers'' ''string'')\<lparr>pd_multiple := True\<rparr>] [P_Str ''asPercent'', integer
        2, P_Str ''used_bytes''])\<lparr>fd_short_name := Some ''reduce'', fd_version := Some ''1.0.0''\<rparr>,
      (func ''removeBetweenPercentile'' ''Filter Series'' [param ''n'' ''int''] [integer 95])\<lparr>fd_version
        := Some ''1.0.0''\<rparr>,
      (func ''removeEmptySeries'' ''Filter Series'' [] [])\<lparr>fd_version := Some ''1.0.0''\<rparr>,
      (func ''squareRoot'' ''Transform'' [] [])\<lparr>fd_version := Some ''1.0.0''\<rparr>]"

definition graphite_functions_7 :: "func_def list" where
  "graphite_functions_7 = [
      (func ''timeSlice'' ''Transform'' [(param ''startSliceAt'' ''select'')\<lparr>pd_options := Some [P_Str
        ''-1h'', P_Str ''-6h'', P_Str ''-12h'', P_Str ''-1d'', P_Str ''-2d'', P_Str ''-7d'', P_Str ''-14d'',
        P_Str ''-30d'']\<rparr>, (param ''endSliceAt'' ''select'')\<lparr>pd_options := Some [P_Str ''-1h'',
        P_Str ''-6h'', P_Str ''-12h'', P_Str ''-1d'', P_Str ''-2d'', P_Str ''-7d'', P_Str ''-14d'', P_Str
        ''-30d''], pd_optional := True\<rparr>] [P_Str ''-1h''])\<lparr>fd_version := Some ''1.0.0''\<rparr>,
      (func ''weightedAverage'' ''Combine'' [(param ''other'' ''value_or_series'')\<lparr>pd_optional :=
        True\<rparr>, (param ''node'' ''int'')\<lparr>pd_options := Some [integer 0, integer 1, integer 2,
        integer 3, integer 4, integer 5, integer 6, integer 7, integer 8, integer 9, integer 10, integer
        12]\<rparr>] [P_Str ''#A'', integer 4])\<lparr>fd_version := Some ''1.0.0''\<rparr>,
      (func ''seriesByTag'' ''Special'' [(param ''tagExpression'' ''string'')\<lparr>pd_multiple :=
        True\<rparr>] [])\<lparr>fd_version := Some ''1.1.0''\<rparr>,
      (func ''groupByTags'' ''Combine'' [(param ''function'' ''string'')\<lparr>pd_options := Some [P_Str
        ''sum'', P_Str ''avg'', P_Str ''maxSeries'']\<rparr>, (param ''tag'' ''string'')\<lparr>pd_multiple :=
        True\<rparr>] [P_Str ''sum'', P_Str ''tag''])\<lparr>fd_version := Some ''1.1.0''\<rparr>,
      (func ''aliasByTags'' ''Alias'' [(param ''tag'' ''string'')\<lparr>pd_multiple := True\<rparr>] [P_Str
        ''tag''])\<lparr>fd_version := Some ''1.1.0''\<rparr>]"

definition graphite_functions :: "func_def list" where
  "graphite_functions =
     graphite_functions_1 @ graphite_functions_2 @ graphite_functions_3 @ graphite_functions_4 @ graphite_functions_5 @
     graphite_functions_6 @ graphite_functions_7"

text \<open>A function is found under its name and, if it has one, its short name.\<close>

definition add_func_def :: "func_def \<Rightarrow> func_def jobj \<Rightarrow> func_def jobj" where
  "add_func_def d idx =
     (let idx = jo_set (fd_name d) d idx in
      case fd_short_name d of None \<Rightarrow> idx | Some s \<Rightarrow> if s = [] then idx else jo_set s d idx)"

definition builtin_index :: "func_def jobj" where
  "builtin_index = fold add_func_def graphite_functions []"

section \<open>Functions of a version\<close>

definition is_version_related_function :: "(string \<Rightarrow> 'v option) \<Rightarrow> ('v \<Rightarrow> string \<Rightarrow> bool) \<Rightarrow> string option \<Rightarrow> string \<Rightarrow> bool" where
  "is_version_related_function coerce gte since version =
     (case coerce version of
        None \<Rightarrow> False
      | Some v \<Rightarrow> (case since of None \<Rightarrow> True | Some w \<Rightarrow> w = [] \<or> gte v w))"

definition get_func_defs ::
  "(string \<Rightarrow> 'v option) \<Rightarrow> ('v \<Rightarrow> string \<Rightarrow> bool) \<Rightarrow> string \<Rightarrow> func_def jobj option \<Rightarrow> func_def jobj" where
  "get_func_defs coerce gte version idx =
     fold (\<lambda>d funcs.
         if is_version_related_function coerce gte (fd_version d) version
         then jo_set (fd_name d)
                (d\<lparr>fd_params := filter (\<lambda>p. is_version_related_function coerce gte (pd_version p) version) (fd_params d)\<rparr>) funcs
         else funcs)
       (jo_values (nullish idx builtin_index)) []"

section \<open>Functions from the server\<close>

text \<open>A default the server sends: infinity or a value; \<open>None\<close> is none.\<close>

datatype raw_default = Raw_Infinity | Raw_Value param_value

record raw_param =
  rp_name :: string
  rp_type :: string
  rp_required :: bool
  rp_multiple :: bool
  rp_default :: "raw_default option"
  rp_suggestions :: "param_value list option"
  rp_options :: "param_value list option"

record raw_func =
  rf_name :: string
  rf_group :: string
  rf_params :: "raw_param list"

text \<open>\<open>toString\<close> of a value, and of the first of a list: of nothing the empty text.\<close>

definition to_text :: "param_value \<Rightarrow> string" where
  "to_text v = joined_text v"

definition parsed_type :: "string \<Rightarrow> string" where
  "parsed_type t =
     (if t = ''boolean'' then ''boolean'' else if t = ''integer'' then ''int'' else if t = ''float'' then ''float''
      else if t = ''node'' then ''node'' else if t = ''nodeOrTag'' then ''node_or_tag''
      else if t = ''intOrInterval'' then ''int_or_interval'' else if t = ''seriesList'' then ''value_or_series''
      else if t = ''intOrInf'' then ''int_or_infinity'' else ''string'')"

definition node_numbers :: "param_value list" where
  "node_numbers = map (\<lambda>n. P_Str (string_of_nat n)) [0..<13]"

definition parsed_options :: "raw_param \<Rightarrow> param_value list option" where
  "parsed_options r =
     (case rp_options r of
        Some os \<Rightarrow> Some (map (\<lambda>v. P_Str (to_text v)) os)
      | None \<Rightarrow>
          (case rp_suggestions r of
             Some ss \<Rightarrow> Some (map (\<lambda>v. P_Str (to_text v)) ss)
           | None \<Rightarrow>
               if rp_type r = ''boolean'' then Some [P_Str ''true'', P_Str ''false'']
               else if rp_type r = ''node'' then Some node_numbers
               else if rp_type r = ''nodeOrTag'' then Some (P_Str ''name'' # node_numbers) else None))"

definition parsed_param :: "raw_param \<Rightarrow> param_def" where
  "parsed_param r =
     \<lparr>pd_name = rp_name r, pd_type = parsed_type (rp_type r), pd_options = parsed_options r, pd_multiple = rp_multiple r,
      pd_optional = (\<not> rp_required r), pd_version = None\<rparr>"

definition parsed_default :: "raw_param \<Rightarrow> param_value" where
  "parsed_default r =
     P_Str (case rp_default r of
              Some Raw_Infinity \<Rightarrow> ''inf''
            | Some (Raw_Value v) \<Rightarrow> to_text v
            | None \<Rightarrow> (case rp_suggestions r of Some (v # _) \<Rightarrow> to_text v | _ \<Rightarrow> []))"

text \<open>A first parameter of series is dropped, or made optional when it may be repeated; without one the function is fake.\<close>

definition series_type :: "raw_func \<Rightarrow> bool" where
  "series_type f \<longleftrightarrow> rf_params f \<noteq> [] \<and> rp_type (hd (rf_params f)) \<in> {''seriesList'', ''seriesLists''}"

definition own_params :: "raw_func \<Rightarrow> raw_param list" where
  "own_params f =
     (if \<not> series_type f then rf_params f
      else if rp_multiple (hd (rf_params f)) then (hd (rf_params f))\<lparr>rp_required := False\<rparr> # tl (rf_params f)
      else tl (rf_params f))"

definition parse_func_def :: "raw_func \<Rightarrow> func_def" where
  "parse_func_def f =
     \<lparr>fd_name = rf_name f, fd_params = map parsed_param (own_params f), fd_default_params = map parsed_default (own_params f),
      fd_category = Some (rf_group f), fd_short_name = None, fd_fake = (\<not> series_type f), fd_version = None, fd_unknown = False\<rparr>"

definition parse_func_defs :: "raw_func jobj \<Rightarrow> func_def jobj" where
  "parse_func_defs raw =
     fold (\<lambda>name defs.
         case jo_get raw name of
           None \<Rightarrow> defs
         | Some f \<Rightarrow> if rf_group f = ''Graph'' then defs else jo_set name (parse_func_def f) defs)
       (jo_keys raw) []"

section \<open>Default parameters fit\<close>

definition defaults_fit :: "func_def \<Rightarrow> bool" where
  "defaults_fit d \<longleftrightarrow> length (fd_default_params d) \<le> length (fd_params d) \<or> last_multiple d"

lemma builtin_defaults_fit: "d \<in> set graphite_functions \<Longrightarrow> defaults_fit d"
proof -
  have "list_all defaults_fit graphite_functions" by code_simp
  then show "d \<in> set graphite_functions \<Longrightarrow> defaults_fit d" by (auto simp: list_all_iff)
qed

lemma parsed_defaults_fit: "defaults_fit (parse_func_def f)"
  by (simp add: defaults_fit_def parse_func_def_def)

text \<open>Whatever all added definitions have in common, all definitions found have.\<close>

lemma add_func_def_found:
  "jo_get (add_func_def d idx) k = Some e \<Longrightarrow> e = d \<or> jo_get idx k = Some e"
  by (auto simp: add_func_def_def Let_def jo_get_set split: option.splits if_splits)

lemma builtin_found: "jo_get builtin_index k = Some d \<Longrightarrow> d \<in> set graphite_functions"
proof -
  have "jo_get (fold add_func_def ds idx) k = Some d \<Longrightarrow> d \<in> set ds \<or> jo_get idx k = Some d" for ds idx
  proof (induction ds arbitrary: idx)
    case (Cons e ds)
    then show ?case using add_func_def_found [of e idx k d] by fastforce
  qed simp
  from this [of graphite_functions "[]"] show "jo_get builtin_index k = Some d \<Longrightarrow> d \<in> set graphite_functions"
    by (auto simp: builtin_index_def jo_get_def)
qed

lemma server_found: "jo_get (parse_func_defs raw) k = Some d \<Longrightarrow> \<exists>f. d = parse_func_def f \<and> rf_group f \<noteq> ''Graph''"
proof -
  have "jo_get (fold (\<lambda>name defs. case jo_get raw name of None \<Rightarrow> defs
      | Some f \<Rightarrow> if rf_group f = ''Graph'' then defs else jo_set name (parse_func_def f) defs) names idx) k = Some d \<Longrightarrow>
      (\<exists>f. d = parse_func_def f \<and> rf_group f \<noteq> ''Graph'') \<or> jo_get idx k = Some d" for names idx
  proof (induction names arbitrary: idx)
    case (Cons n names)
    from Cons.IH [OF Cons.prems [unfolded fold_simps]] show ?case
      by (auto simp: jo_get_set split: option.splits if_splits)
  qed simp
  from this [of "jo_keys raw" "[]"] show "jo_get (parse_func_defs raw) k = Some d \<Longrightarrow> \<exists>f. d = parse_func_def f \<and> rf_group f \<noteq> ''Graph''"
    by (auto simp: parse_func_defs_def jo_get_def)
qed

text \<open>So an instance made with its default parameters, from either source or for an unknown name, has a place for each of them.\<close>

lemma new_instance_fits:
  assumes "defs = jo_get builtin_index \<or> defs = jo_get (parse_func_defs raw)"
  shows "length (fi_params (create_func_instance (get_func_def defs name) b i)) \<le> length (fd_params (get_func_def defs name)) \<or>
    last_multiple (get_func_def defs name)"
proof -
  have "defaults_fit (get_func_def defs name)"
  proof (cases "defs name")
    case None
    then show ?thesis by (simp add: get_func_def_def defaults_fit_def)
  next
    case (Some d)
    with assms builtin_found server_found [of raw name d] have "defaults_fit d"
      using builtin_defaults_fit parsed_defaults_fit by metis
    with Some show ?thesis by (simp add: get_func_def_def)
  qed
  then show ?thesis by (auto simp: defaults_fit_def create_func_instance_def update_text_def Let_def)
qed

end
