(* ===== verification/Flame_Levels.thy ===== *)
theory Flame_Levels
  imports Js_String Js_Object
begin

text \<open>
  The data of a flame graph, \<open>packages/grafana-flamegraph/src/FlameGraph/dataTransform.ts\<close>: the check of the data frame, the
  container that gives access to its fields, the conversion of the nested set into levels of items, and the map of items
  that are collapsed into one.

  Items are shared, mutable objects: an item is the address of an entry of the store of items, and as every row of the
  frame makes one item, the address of an item is the number of its row. Configurations of the collapsed map have a store
  of their own. Rows are natural numbers and values integers; the comparison of an item's value with a fraction of its
  parent's, which is done in floating point, is the parameter \<open>over\<close>. A field of an enumeration shows the text the display
  processor gives, the parameter \<open>enum_text\<close>.
\<close>

section \<open>Data frames\<close>

datatype field_type =
    FT_time | FT_number | FT_string | FT_boolean | FT_trace | FT_geo | FT_enum | FT_other | FT_frame | FT_nested_frames

datatype field_values = Texts "string list" | Numbers "int list"

record data_field =
  df_name :: string
  df_type :: field_type
  df_values :: field_values

fun type_name :: "field_type \<Rightarrow> string" where
  "type_name FT_time = ''time''"
| "type_name FT_number = ''number''"
| "type_name FT_string = ''string''"
| "type_name FT_boolean = ''boolean''"
| "type_name FT_trace = ''trace''"
| "type_name FT_geo = ''geo''"
| "type_name FT_enum = ''enum''"
| "type_name FT_other = ''other''"
| "type_name FT_frame = ''frame''"
| "type_name FT_nested_frames = ''nestedFrames''"

record check_result =
  cr_wrong :: "(string \<times> field_type list \<times> field_type) list"   \<comment> \<open>name, expected types, type\<close>
  cr_missing :: "string list"

definition required_fields :: "(string \<times> field_type list) list" where
  "required_fields = [(''label'', [FT_string, FT_enum]), (''level'', [FT_number]), (''value'', [FT_number]), (''self'', [FT_number])]"

definition frame_field :: "data_field list \<Rightarrow> string \<Rightarrow> data_field option" where
  "frame_field frame n = find (\<lambda>f. df_name f = n) frame"

fun check_one :: "data_field list \<Rightarrow> string \<times> field_type list \<Rightarrow> check_result \<Rightarrow> check_result" where
  "check_one frame (n, types) c =
     (case frame_field frame n of
        None \<Rightarrow> c\<lparr>cr_missing := cr_missing c @ [n]\<rparr>
      | Some f \<Rightarrow> if df_type f \<in> set types then c else c\<lparr>cr_wrong := cr_wrong c @ [(n, types, df_type f)]\<rparr>)"

definition check_fields :: "data_field list \<Rightarrow> check_result option" where
  "check_fields frame =
     (let c = fold (check_one frame) required_fields \<lparr>cr_wrong = [], cr_missing = []\<rparr> in
      if cr_missing c \<noteq> [] \<or> cr_wrong c \<noteq> [] then Some c else None)"

definition check_message :: "check_result \<Rightarrow> string" where
  "check_message c =
     (if cr_missing c \<noteq> [] then ''Data is missing fields: '' @ join_with '', '' (cr_missing c)
      else if cr_wrong c \<noteq> [] then ''Data has fields of wrong type: '' @ join_with '', ''
        (map (\<lambda>(n, types, t). n @ '' has type '' @ type_name t @ '' but should be '' @ join_with '' or '' (map type_name types)) (cr_wrong c))
      else [])"

section \<open>The container\<close>

record flame_data =
  fd_label :: "string list"
  fd_level :: "nat list"
  fd_value :: "int list"
  fd_self :: "int list"
  fd_value_right :: "int list option"
  fd_self_right :: "int list option"

definition numbers_of :: "data_field \<Rightarrow> int list" where
  "numbers_of f = (case df_values f of Numbers ns \<Rightarrow> ns | Texts _ \<Rightarrow> [])"

definition texts_of :: "(int \<Rightarrow> string) \<Rightarrow> data_field \<Rightarrow> string list" where
  "texts_of enum_text f = (case df_values f of Texts ts \<Rightarrow> ts | Numbers ns \<Rightarrow> map enum_text ns)"

definition make_container :: "(int \<Rightarrow> string) \<Rightarrow> data_field list \<Rightarrow> flame_data res" where
  "make_container enum_text frame =
     (case check_fields frame of
        Some wrong \<Rightarrow> Inl (Js_Error (check_message wrong))
      | None \<Rightarrow> (let field = (\<lambda>n. the (frame_field frame n)) in
          Inr \<lparr>fd_label = texts_of enum_text (field ''label''), fd_level = map nat (numbers_of (field ''level'')),
               fd_value = numbers_of (field ''value''), fd_self = numbers_of (field ''self''),
               fd_value_right = map_option numbers_of (frame_field frame ''valueRight''),
               fd_self_right = map_option numbers_of (frame_field frame ''selfRight'')\<rparr>))"

abbreviation fd_rows :: "flame_data \<Rightarrow> nat" where
  "fd_rows d \<equiv> length (fd_level d)"

definition is_diff :: "flame_data \<Rightarrow> bool" where
  "is_diff d \<longleftrightarrow> fd_value_right d \<noteq> None \<and> fd_self_right d \<noteq> None"

text \<open>The sum of a field over several rows; a field that is missing counts as zero.\<close>

definition field_accessor :: "int list option \<Rightarrow> nat list \<Rightarrow> int" where
  "field_accessor field rows = (case field of None \<Rightarrow> 0 | Some vs \<Rightarrow> foldl (\<lambda>acc i. acc + vs ! i) 0 rows)"

definition get_label :: "flame_data \<Rightarrow> nat \<Rightarrow> string" where
  "get_label d i = fd_label d ! i"

definition get_value :: "flame_data \<Rightarrow> nat list \<Rightarrow> int" where
  "get_value d = field_accessor (Some (fd_value d))"

definition get_value_right :: "flame_data \<Rightarrow> nat list \<Rightarrow> int" where
  "get_value_right d = field_accessor (fd_value_right d)"

definition get_self :: "flame_data \<Rightarrow> nat list \<Rightarrow> int" where
  "get_self d = field_accessor (Some (fd_self d))"

definition get_self_right :: "flame_data \<Rightarrow> nat list \<Rightarrow> int" where
  "get_self_right d = field_accessor (fd_self_right d)"

section \<open>From the nested set to levels\<close>

record level_item =
  li_start :: int
  li_value :: int
  li_value_right :: "int option"
  li_indexes :: "nat list"
  li_children :: "nat list"
  li_level :: nat
  li_parents :: "nat list option"

text \<open>\<open>fs_levels\<close> is the array of levels, where a level that was skipped is a hole.\<close>

record flame_state =
  fs_items :: "level_item list"
  fs_levels :: "nat list option list"
  fs_offset :: int
  fs_parent :: "nat option"
  fs_labels :: "nat list jobj"

definition ensure_level :: "nat \<Rightarrow> nat list option list \<Rightarrow> nat list option list" where
  "ensure_level k ls =
     (let ls' = ls @ replicate (Suc k - length ls) None in
      case ls' ! k of None \<Rightarrow> ls'[k := Some []] | Some _ \<Rightarrow> ls')"

definition add_child :: "nat \<Rightarrow> nat \<Rightarrow> level_item list \<Rightarrow> level_item list" where
  "add_child p c items = items[p := (items ! p)\<lparr>li_children := li_children (items ! p) @ [c]\<rparr>]"

text \<open>Where the row goes: behind the last item of its level and under the same parent when the previous row is at the
  same level or deeper, and under the previous row otherwise. The test of \<open>prevLevel\<close> also fails for level zero.\<close>

definition placement :: "flame_data \<Rightarrow> nat \<Rightarrow> flame_state \<Rightarrow> (int \<times> nat option) res" where
  "placement d i s =
     (let current = fd_level d ! i in
      if i > 0 \<and> fd_level d ! (i - 1) \<noteq> 0 \<and> fd_level d ! (i - 1) \<ge> current
      then (case nullish (fs_levels s ! current) [] of
              [] \<Rightarrow> Inl Js_TypeError
            | sibs \<Rightarrow> (let sib = fs_items s ! last sibs; row = hd (li_indexes sib) in
                (case li_parents sib of
                   Some (p # _) \<Rightarrow> Inr (li_start sib + get_value d [row] + get_value_right d [row], Some p)
                 | Some [] \<Rightarrow> Inr (li_start sib + get_value d [row] + get_value_right d [row], None)
                 | None \<Rightarrow> Inl Js_TypeError)))
      else Inr (fs_offset s, fs_parent s))"

definition new_level_item :: "flame_data \<Rightarrow> nat \<Rightarrow> int \<Rightarrow> nat option \<Rightarrow> level_item" where
  "new_level_item d i offset parent =
     \<lparr>li_start = offset, li_value = get_value d [i] + get_value_right d [i],
      li_value_right = (if is_diff d then Some (get_value_right d [i]) else None),
      li_indexes = [i], li_children = [], li_level = fd_level d ! i,
      li_parents = map_option (\<lambda>p. [p]) parent\<rparr>"

definition nested_set_step :: "flame_data \<Rightarrow> nat \<Rightarrow> flame_state \<Rightarrow> flame_state res" where
  "nested_set_step d i s =
     (let s = s\<lparr>fs_levels := ensure_level (fd_level d ! i) (fs_levels s)\<rparr> in
      bind_res (placement d i s) (\<lambda>(offset, parent).
        let addr = length (fs_items s);
            items = fs_items s @ [new_level_item d i offset parent];
            k = fd_level d ! i
        in Inr \<lparr>fs_items = (case parent of None \<Rightarrow> items | Some p \<Rightarrow> add_child p addr items),
                fs_levels = (fs_levels s)[k := Some (nullish (fs_levels s ! k) [] @ [addr])],
                fs_offset = offset, fs_parent = Some addr,
                fs_labels = group_push (get_label d i) addr (fs_labels s)\<rparr>))"

fun nested_set_loop :: "flame_data \<Rightarrow> nat list \<Rightarrow> flame_state \<Rightarrow> flame_state res" where
  "nested_set_loop d [] s = Inr s"
| "nested_set_loop d (i # is) s = bind_res (nested_set_step d i s) (nested_set_loop d is)"

definition initial_flame_state :: flame_state where
  "initial_flame_state = \<lparr>fs_items = [], fs_levels = [], fs_offset = 0, fs_parent = None, fs_labels = []\<rparr>"

definition nested_set_to_levels :: "flame_data \<Rightarrow> flame_state res" where
  "nested_set_to_levels d = nested_set_loop d [0..<fd_rows d] initial_flame_state"

section \<open>Items shown as one\<close>

record collapse_config =
  cc_items :: "nat list"
  cc_collapsed :: bool

text \<open>The map from items to configurations, which are shared: an entry is the address of a configuration.\<close>

record collapsed_map =
  cm_map :: "(nat \<times> nat) list"
  cm_configs :: "collapse_config list"

definition cm_get :: "collapsed_map \<Rightarrow> nat \<Rightarrow> collapse_config option" where
  "cm_get m i = map_option (\<lambda>c. cm_configs m ! c) (map_of (cm_map m) i)"

definition add_item :: "(int \<Rightarrow> int \<Rightarrow> bool) \<Rightarrow> level_item list \<Rightarrow> nat \<Rightarrow> nat \<Rightarrow> collapsed_map \<Rightarrow> collapsed_map" where
  "add_item over items i p m =
     (if over (li_value (items ! i)) (li_value (items ! p)) \<and> length (li_children (items ! p)) = 1
      then (case map_of (cm_map m) p of
          Some c \<Rightarrow>
            m\<lparr>cm_map := es_map_set i c (cm_map m),
              cm_configs := (cm_configs m)[c := (cm_configs m ! c)\<lparr>cc_items := cc_items (cm_configs m ! c) @ [i]\<rparr>]\<rparr>
        | None \<Rightarrow>
            (let c = length (cm_configs m) in
             m\<lparr>cm_map := es_map_set i c (es_map_set p c (cm_map m)),
               cm_configs := cm_configs m @ [\<lparr>cc_items = [p, i], cc_collapsed = True\<rparr>]\<rparr>))
      else m)"

fun add_tree_loop :: "nat \<Rightarrow> (int \<Rightarrow> int \<Rightarrow> bool) \<Rightarrow> level_item list \<Rightarrow> nat list \<Rightarrow> collapsed_map \<Rightarrow> collapsed_map option" where
  "add_tree_loop n over items [] m = Some m"
| "add_tree_loop 0 over items (i # stack) m = None"
| "add_tree_loop (Suc n) over items (i # stack) m =
     add_tree_loop n over items (li_children (items ! i) @ stack)
       (case li_parents (items ! i) of Some (p # _) \<Rightarrow> add_item over items i p m | _ \<Rightarrow> m)"

definition empty_collapsed_map :: collapsed_map where
  "empty_collapsed_map = \<lparr>cm_map = [], cm_configs = []\<rparr>"

text \<open>The map of the whole graph, with fuel for the walk; an empty graph has no root to start from.\<close>

definition build_collapsed_map :: "nat \<Rightarrow> (int \<Rightarrow> int \<Rightarrow> bool) \<Rightarrow> bool \<Rightarrow> flame_state \<Rightarrow> collapsed_map option res" where
  "build_collapsed_map n over collapsing s =
     (if \<not> collapsing then Inr (Some empty_collapsed_map)
      else (case fs_levels s of
          Some (r # _) # _ \<Rightarrow> Inr (add_tree_loop n over (fs_items s) [r] empty_collapsed_map)
        | _ \<Rightarrow> Inl Js_TypeError))"

text \<open>Both setters make new configurations, and a new map that refers to them.\<close>

definition set_collapsed_status :: "nat \<Rightarrow> bool \<Rightarrow> collapsed_map \<Rightarrow> collapsed_map res" where
  "set_collapsed_status i b m =
     (case cm_get m i of
        None \<Rightarrow> Inl Js_TypeError
      | Some config \<Rightarrow>
          (let c = length (cm_configs m) in
           Inr \<lparr>cm_map = fold (\<lambda>j. es_map_set j c) (cc_items config) (cm_map m),
                cm_configs = cm_configs m @ [config\<lparr>cc_collapsed := b\<rparr>]\<rparr>))"

definition set_all_collapsed_status :: "bool \<Rightarrow> collapsed_map \<Rightarrow> collapsed_map" where
  "set_all_collapsed_status b m =
     (let keys = map fst (cm_map m); c = length (cm_configs m) in
      \<lparr>cm_map = fold (\<lambda>(k, j). es_map_set j (c + k)) (List.enumerate 0 keys) (cm_map m),
       cm_configs = cm_configs m @ map (\<lambda>j. (the (cm_get m j))\<lparr>cc_collapsed := b\<rparr>) keys\<rparr>)"

end
