(* ===== verification/Flame_Frame.thy ===== *)
theory Flame_Frame
  imports Flame_Levels
begin

text \<open>
  Which data frames the container of a flame graph accepts, and what it reports about the others.
\<close>

definition has_type :: "data_field list \<Rightarrow> string \<times> field_type list \<Rightarrow> bool" where
  "has_type frame = (\<lambda>(n, types). case frame_field frame n of None \<Rightarrow> False | Some f \<Rightarrow> df_type f \<in> set types)"

definition missing_in :: "data_field list \<Rightarrow> string list" where
  "missing_in frame = filter (\<lambda>n. n \<notin> df_name ` set frame) [''label'', ''level'', ''value'', ''self'']"

definition wrong_in :: "data_field list \<Rightarrow> (string \<times> field_type list \<times> field_type) list" where
  "wrong_in frame =
     map (\<lambda>(n, types). (n, types, df_type (the (frame_field frame n))))
       (filter (\<lambda>(n, types). n \<in> df_name ` set frame \<and> \<not> has_type frame (n, types)) required_fields)"

lemma frame_field_None: "frame_field frame n = None \<longleftrightarrow> n \<notin> df_name ` set frame"
  by (auto simp: frame_field_def find_None_iff)

lemma fold_check_one:
  "fold (check_one frame) req c = c\<lparr>
     cr_wrong := cr_wrong c @ map (\<lambda>(n, types). (n, types, df_type (the (frame_field frame n))))
       (filter (\<lambda>(n, types). n \<in> df_name ` set frame \<and> \<not> has_type frame (n, types)) req),
     cr_missing := cr_missing c @ filter (\<lambda>n. n \<notin> df_name ` set frame) (map fst req)\<rparr>"
proof (induction req arbitrary: c)
  case (Cons r req)
  obtain n types where r: "r = (n, types)" by (cases r)
  show ?case
  proof (cases "frame_field frame n")
    case None
    then show ?thesis using frame_field_None [of frame n] by (simp add: r Cons.IH)
  next
    case (Some f)
    then have "n \<in> df_name ` set frame" using frame_field_None [of frame n] by auto
    then show ?thesis using Some by (simp add: r Cons.IH has_type_def)
  qed
qed simp

lemma check_fields_eq:
  "check_fields frame = (if missing_in frame = [] \<and> wrong_in frame = [] then None
     else Some \<lparr>cr_wrong = wrong_in frame, cr_missing = missing_in frame\<rparr>)"
proof -
  have names: "map fst required_fields = [''label'', ''level'', ''value'', ''self'']" by (simp add: required_fields_def)
  show ?thesis
    unfolding check_fields_def fold_check_one Let_def names check_result.simps append_Nil
    by (simp only: missing_in_def wrong_in_def) auto
qed

lemma all_present: "missing_in frame = [] \<longleftrightarrow> (\<forall>r \<in> set required_fields. fst r \<in> df_name ` set frame)"
  by (auto simp: missing_in_def required_fields_def)

lemma none_wrong: "wrong_in frame = [] \<longleftrightarrow> (\<forall>r \<in> set required_fields. fst r \<in> df_name ` set frame \<longrightarrow> has_type frame r)"
  by (auto simp: wrong_in_def filter_empty_conv)

lemma has_type_present: "has_type frame r \<Longrightarrow> fst r \<in> df_name ` set frame"
  using frame_field_None [of frame "fst r"] by (auto simp: has_type_def split: option.splits prod.splits)

text \<open>A frame of one graph has no right field, that of a comparison has both.\<close>

definition right_fields_match :: "data_field list \<Rightarrow> bool" where
  "right_fields_match frame \<longleftrightarrow> (frame_field frame ''valueRight'' = None \<longleftrightarrow> frame_field frame ''selfRight'' = None)"

text \<open>
  C27. Of the frames with both right fields or none, the container accepts exactly those where the first field of each
  required name has one of its types, and takes it for a comparison exactly if there are right fields. When fields are
  missing the error names these, in the order label, level, value, self, and says nothing of wrong types; otherwise it
  names every field of a wrong type. A frame with one right field only should be refused, and is not
  (\<open>half_diff_accepted\<close>).
\<close>

theorem container_checks_types:
  assumes "right_fields_match frame"
  shows "((\<exists>d. make_container enum_text frame = Inr d) \<longleftrightarrow> (\<forall>r \<in> set required_fields. has_type frame r)) \<and>
    (missing_in frame \<noteq> [] \<longrightarrow>
      make_container enum_text frame = Inl (Js_Error (''Data is missing fields: '' @ join_with '', '' (missing_in frame)))) \<and>
    (missing_in frame = [] \<and> wrong_in frame \<noteq> [] \<longrightarrow>
      make_container enum_text frame = Inl (Js_Error (''Data has fields of wrong type: '' @ join_with '', ''
        (map (\<lambda>(n, types, t). n @ '' has type '' @ type_name t @ '' but should be '' @ join_with '' or '' (map type_name types))
          (wrong_in frame))))) \<and>
    (\<forall>d. make_container enum_text frame = Inr d \<longrightarrow> (is_diff d \<longleftrightarrow> frame_field frame ''valueRight'' \<noteq> None))"
proof -
  have ok: "(\<forall>r \<in> set required_fields. has_type frame r) \<longleftrightarrow> missing_in frame = [] \<and> wrong_in frame = []"
    unfolding all_present none_wrong using has_type_present by blast
  have diff: "is_diff d \<longleftrightarrow> frame_field frame ''valueRight'' \<noteq> None"
    if "make_container enum_text frame = Inr d" for d
    using that assms by (auto simp: make_container_def is_diff_def right_fields_match_def Let_def split: option.splits)
  show ?thesis
    unfolding ok using diff by (auto simp: make_container_def check_fields_eq check_message_def Let_def)
qed

definition sample_frame :: "data_field list" where
  "sample_frame = [\<lparr>df_name = ''label'', df_type = FT_string, df_values = Texts [''main'']\<rparr>,
     \<lparr>df_name = ''level'', df_type = FT_number, df_values = Numbers [0]\<rparr>,
     \<lparr>df_name = ''value'', df_type = FT_string, df_values = Texts [''7'']\<rparr>,
     \<lparr>df_name = ''self'', df_type = FT_number, df_values = Numbers [7]\<rparr>]"

lemma container_checks_types_witness:
  "make_container (\<lambda>_. []) sample_frame =
     Inl (Js_Error ''Data has fields of wrong type: value has type string but should be number'') \<and>
   make_container (\<lambda>_. []) (tl sample_frame) = Inl (Js_Error ''Data is missing fields: label'')"
proof -
  have "missing_in sample_frame = []" "wrong_in sample_frame = [(''value'', [FT_number], FT_string)]"
    "missing_in (tl sample_frame) = [''label'']"
    by code_simp+
  moreover have right: "right_fields_match sample_frame" "right_fields_match (tl sample_frame)" by code_simp+
  ultimately show ?thesis
    using container_checks_types [OF right(1), of "\<lambda>_. []"] container_checks_types [OF right(2), of "\<lambda>_. []"]
    by simp
qed

section \<open>Incomplete comparisons\<close>

text \<open>A frame with only one of the two right fields is accepted: the test of the constructor that should refuse it
  compares the fields of the left side, which are both present.\<close>

definition half_diff :: "data_field list" where
  "half_diff = [\<lparr>df_name = ''label'', df_type = FT_string, df_values = Texts [''main'']\<rparr>,
     \<lparr>df_name = ''level'', df_type = FT_number, df_values = Numbers [0]\<rparr>,
     \<lparr>df_name = ''value'', df_type = FT_number, df_values = Numbers [7]\<rparr>,
     \<lparr>df_name = ''self'', df_type = FT_number, df_values = Numbers [7]\<rparr>,
     \<lparr>df_name = ''valueRight'', df_type = FT_number, df_values = Numbers [5]\<rparr>]"

lemma half_diff_accepted:
  "\<exists>d. make_container (\<lambda>_. []) half_diff = Inr d \<and> \<not> is_diff d \<and> get_value_right d [0] = 5"
  by (simp add: make_container_def half_diff_def check_fields_def required_fields_def frame_field_def is_diff_def
      get_value_right_def field_accessor_def numbers_of_def)

end
