(* ===== verification/Flame_Nesting.thy ===== *)
theory Flame_Nesting
  imports Flame_Levels
begin

text \<open>
  What the conversion of \<open>Flame_Levels\<close> makes of a nested set. The specification reads the tree off the levels alone: the
  parent of a row is the last row before it that is one level higher. The conversion returns on every well-formed nested
  set, its items are the rows with exactly these parents and children, every item starts where its earlier siblings end,
  and when no row is smaller than its children together the items of a level lie side by side, inside their parents.
\<close>

section \<open>Nested sets\<close>

text \<open>One root at level zero; every other row is at most one level deeper than the row before it.\<close>

definition nested_set :: "nat list \<Rightarrow> bool" where
  "nested_set ls \<longleftrightarrow> (\<forall>i < length ls. if i = 0 then ls ! 0 = 0 else 1 \<le> ls ! i \<and> ls ! i \<le> Suc (ls ! (i - 1)))"

definition row_parent :: "nat list \<Rightarrow> nat \<Rightarrow> nat option" where
  "row_parent ls i = find (\<lambda>j. Suc (ls ! j) = ls ! i) (rev [0..<i])"

definition rows_under :: "nat list \<Rightarrow> nat \<Rightarrow> nat \<Rightarrow> nat list" where
  "rows_under ls p n = filter (\<lambda>i. row_parent ls i = Some p) [0..<n]"

definition rows_at :: "nat list \<Rightarrow> nat \<Rightarrow> nat \<Rightarrow> nat list" where
  "rows_at ls k n = filter (\<lambda>i. ls ! i = k) [0..<n]"

definition row_total :: "flame_data \<Rightarrow> nat \<Rightarrow> int" where
  "row_total d i = get_value d [i] + get_value_right d [i]"

lemma find_rev_upt_Some:
  "find P (rev [0..<n]) = Some j \<longleftrightarrow> j < n \<and> P j \<and> (\<forall>k. j < k \<and> k < n \<longrightarrow> \<not> P k)"
proof (induction n)
  case (Suc n)
  then show ?case by (auto simp: less_Suc_eq)
qed simp

lemma find_rev_upt_None: "find P (rev [0..<n]) = None \<longleftrightarrow> (\<forall>j < n. \<not> P j)"
  by (auto simp: find_None_iff)

lemma row_parent_Some:
  "row_parent ls i = Some p \<longleftrightarrow> p < i \<and> ls ! i = Suc (ls ! p) \<and> (\<forall>k. p < k \<and> k < i \<longrightarrow> ls ! i \<noteq> Suc (ls ! k))"
  by (auto simp: row_parent_def find_rev_upt_Some)

lemma row_parent_less: "row_parent ls i = Some p \<Longrightarrow> p < i"
  by (simp add: row_parent_Some)

lemma rows_under_Suc: "rows_under ls p (Suc n) = rows_under ls p n @ (if row_parent ls n = Some p then [n] else [])"
  by (simp add: rows_under_def)

lemma rows_at_Suc: "rows_at ls k (Suc n) = rows_at ls k n @ (if ls ! n = k then [n] else [])"
  by (simp add: rows_at_def)

lemma rows_under_0 [simp]: "rows_under ls p 0 = []" and rows_at_0 [simp]: "rows_at ls k 0 = []"
  by (simp_all add: rows_under_def rows_at_def)

lemma in_rows_under: "i \<in> set (rows_under ls p n) \<longleftrightarrow> i < n \<and> row_parent ls i = Some p"
  by (auto simp: rows_under_def)

lemma in_rows_at: "i \<in> set (rows_at ls k n) \<longleftrightarrow> i < n \<and> ls ! i = k"
  by (auto simp: rows_at_def)

lemma last_rows_at: "rows_at ls k n \<noteq> [] \<Longrightarrow> last (rows_at ls k n) = s \<longleftrightarrow>
    s < n \<and> ls ! s = k \<and> (\<forall>t. s < t \<and> t < n \<longrightarrow> ls ! t \<noteq> k)"
proof (induction n)
  case (Suc n)
  show ?case
  proof (cases "ls ! n = k")
    case True
    then show ?thesis by (auto simp: rows_at_Suc less_Suc_eq)
  next
    case False
    with Suc show ?thesis by (auto simp: rows_at_Suc less_Suc_eq)
  qed
qed simp

text \<open>Levels rise by at most one: between a row and a deeper one every level occurs.\<close>

lemma nested_set_step_up: "nested_set ls \<Longrightarrow> Suc i < length ls \<Longrightarrow> ls ! Suc i \<le> Suc (ls ! i)"
  by (auto simp: nested_set_def dest: spec [of _ "Suc i"])

lemma level_between:
  assumes "nested_set ls" "a \<le> b" "b < length ls" "ls ! a \<le> k" "k \<le> ls ! b"
  shows "\<exists>c. a \<le> c \<and> c \<le> b \<and> ls ! c = k \<and> (\<forall>t. c < t \<and> t \<le> b \<longrightarrow> k < ls ! t)"
  using assms(2-5)
proof (induction b)
  case 0
  then show ?case by auto
next
  case (Suc b)
  show ?case
  proof (cases "ls ! Suc b = k")
    case True
    with Suc.prems show ?thesis by (intro exI [of _ "Suc b"]) auto
  next
    case False
    then have k: "k < ls ! Suc b" using Suc.prems by simp
    have ab: "a \<le> b" using Suc.prems k by (cases "a = Suc b") auto
    have "k \<le> ls ! b" using nested_set_step_up [OF assms(1), of b] Suc.prems(2) k by simp
    then obtain c where "a \<le> c" "c \<le> b" "ls ! c = k" "\<forall>t. c < t \<and> t \<le> b \<longrightarrow> k < ls ! t"
      using Suc.IH [OF ab] Suc.prems by auto
    with k show ?thesis by (intro exI [of _ c]) (auto simp: le_Suc_eq)
  qed
qed

lemma nested_set_level: "nested_set ls \<Longrightarrow> i < length ls \<Longrightarrow> ls ! i = 0 \<longleftrightarrow> i = 0"
  by (auto simp: nested_set_def split: if_splits)

lemma nested_level_le: "nested_set ls \<Longrightarrow> i < length ls \<Longrightarrow> ls ! i \<le> i"
proof (induction i)
  case 0
  then show ?case by (simp add: nested_set_level)
next
  case (Suc i)
  then show ?case using nested_set_step_up [of ls i] by simp
qed

lemma row_parent_exists:
  assumes "nested_set ls" "i < length ls" "0 < i"
  shows "\<exists>p. row_parent ls i = Some p"
proof -
  obtain j where i: "i = Suc j" using assms(3) by (cases i) auto
  have li: "1 \<le> ls ! i" "ls ! i \<le> Suc (ls ! j)"
    using assms by (auto simp: nested_set_def i split: if_splits)
  have "ls ! 0 = 0" using nested_set_level [OF assms(1), of 0] assms(2) by (cases ls) auto
  then obtain c where "c \<le> j" "ls ! c = ls ! i - 1" "\<forall>t. c < t \<and> t \<le> j \<longrightarrow> ls ! i - 1 < ls ! t"
    using level_between [OF assms(1), of 0 j "ls ! i - 1"] assms(2) i li by (auto simp: le_diff_conv)
  then show ?thesis
    using li by (intro exI [of _ c]) (auto simp: row_parent_Some i)
qed

text \<open>All rows between a row and its parent are deeper than the parent; rows at least as deep as the row that follows the
  last sibling are below that sibling.\<close>

lemma between_parent:
  assumes "nested_set ls" "i < length ls" "row_parent ls i = Some p" "p < t" "t < i"
  shows "ls ! p < ls ! t"
proof (rule ccontr)
  assume "\<not> ls ! p < ls ! t"
  then have t: "ls ! t \<le> ls ! p" by simp
  have li: "ls ! i = Suc (ls ! p)" using assms(3) by (simp add: row_parent_Some)
  obtain j where i: "i = Suc j" using assms(5) by (cases i) auto
  have "ls ! p \<le> ls ! j"
    using nested_set_step_up [OF assms(1), of j] assms(2) li i by simp
  then obtain c where "t \<le> c" "c \<le> j" "ls ! c = ls ! p"
    using level_between [OF assms(1), of t j "ls ! p"] t assms(2,5) i by auto
  moreover from this have "p < c \<and> c < i" using assms(4) i by simp
  ultimately show False using assms(3) li by (auto simp: row_parent_Some)
qed

lemma last_sibling:
  assumes ns: "nested_set ls" and i: "i < length ls" "0 < i" and deep: "ls ! i \<le> ls ! (i - 1)"
  shows "\<exists>s. rows_at ls (ls ! i) i \<noteq> [] \<and> last (rows_at ls (ls ! i) i) = s \<and> s < i \<and>
    row_parent ls s = row_parent ls i \<and>
    (\<forall>p. row_parent ls i = Some p \<longrightarrow> (\<exists>us. rows_under ls p i = us @ [s] \<and> rows_under ls p s = us))"
proof -
  obtain j where j: "i = Suc j" using i by (cases i) auto
  obtain p where p: "row_parent ls i = Some p" using row_parent_exists [OF ns i] by blast
  have li: "ls ! i = Suc (ls ! p)" "p < i" using p by (auto simp: row_parent_Some)
  obtain s where s: "s \<le> j" "p \<le> s" "ls ! s = ls ! i" "\<forall>t. s < t \<and> t \<le> j \<longrightarrow> ls ! i < ls ! t"
    using level_between [OF ns, of p j "ls ! i"] li deep i j by auto
  then have ps: "p < s" "s < i" using li j by (auto simp: le_less)
  have sp: "row_parent ls s = Some p"
    using p s ps by (auto simp: row_parent_Some)
  have "s \<in> set (rows_at ls (ls ! i) i)" using s ps by (simp add: in_rows_at)
  then have ne: "rows_at ls (ls ! i) i \<noteq> []" by auto
  have last: "last (rows_at ls (ls ! i) i) = s"
    using s ps j by (subst last_rows_at [OF ne]) auto
  have "rows_under ls p i = rows_under ls p (Suc s)"
  proof -
    have "[0..<i] = [0..<Suc s] @ [Suc s..<i]"
      using ps upt_add_eq_append [of 0 "Suc s" "i - Suc s"] by simp
    moreover have "filter (\<lambda>t. row_parent ls t = Some p) [Suc s..<i] = []"
      unfolding filter_empty_conv
    proof
      fix t assume "t \<in> set [Suc s..<i]"
      then have "ls ! t \<noteq> Suc (ls ! p)" using s(4) [rule_format, of t] li(1) j by auto
      then show "row_parent ls t \<noteq> Some p" by (auto simp: row_parent_Some)
    qed
    ultimately show ?thesis by (simp add: rows_under_def)
  qed
  then have "rows_under ls p i = rows_under ls p s @ [s]" by (simp add: rows_under_Suc sp)
  with ne last ps sp p show ?thesis by auto
qed

lemma deeper_row:
  assumes "nested_set ls" "i < length ls" "0 < i" "ls ! (i - 1) < ls ! i"
  shows "row_parent ls i = Some (i - 1)" "rows_under ls (i - 1) i = []"
proof -
  obtain j where j: "i = Suc j" using assms(3) by (cases i) auto
  have "ls ! i = Suc (ls ! (i - 1))"
    using nested_set_step_up [OF assms(1), of j] assms j by simp
  then show "row_parent ls i = Some (i - 1)" using assms by (auto simp: row_parent_Some)
  show "rows_under ls (i - 1) i = []"
    by (auto simp: rows_under_def filter_empty_conv row_parent_Some)
qed

section \<open>Arrays of levels\<close>

text \<open>Elements \<open>0..<n\<close> are pushed in turn onto the level \<open>f\<close> gives: the array then lists each level in order, without holes
  when no element is more than one level deeper than those before it.\<close>

definition pushed_at :: "(nat \<Rightarrow> nat) \<Rightarrow> nat \<Rightarrow> nat \<Rightarrow> nat list" where
  "pushed_at f k n = filter (\<lambda>i. f i = k) [0..<n]"

definition levels_done :: "(nat \<Rightarrow> nat) \<Rightarrow> nat \<Rightarrow> nat list option list \<Rightarrow> bool" where
  "levels_done f n levels \<longleftrightarrow>
     (\<forall>k < length levels. levels ! k = Some (pushed_at f k n) \<and> pushed_at f k n \<noteq> []) \<and> (\<forall>i < n. f i < length levels)"

lemma pushed_at_Suc: "pushed_at f k (Suc n) = pushed_at f k n @ (if f n = k then [n] else [])"
  by (simp add: pushed_at_def)

lemma pushed_at_0 [simp]: "pushed_at f k 0 = []"
  by (simp add: pushed_at_def)

lemma in_pushed_at: "i \<in> set (pushed_at f k n) \<longleftrightarrow> i < n \<and> f i = k"
  by (auto simp: pushed_at_def)

lemma levels_done_0 [simp]: "levels_done f 0 []"
  by (simp add: levels_done_def)

lemma levels_done_at:
  assumes "levels_done f n levels"
  shows "k < length levels \<Longrightarrow> levels ! k = Some (pushed_at f k n)" "k < length levels \<Longrightarrow> pushed_at f k n \<noteq> []"
    "i < n \<Longrightarrow> f i < length levels"
  using assms by (simp_all add: levels_done_def)

lemma nothing_beyond: "levels_done f n levels \<Longrightarrow> length levels \<le> k \<Longrightarrow> pushed_at f k n = []"
  by (fastforce simp: levels_done_def pushed_at_def filter_empty_conv)

lemma ensured_level:
  assumes "levels_done f n levels" "k \<le> length levels"
  shows "ensure_level k levels = (if k < length levels then levels else levels @ [Some []])"
  using assms levels_done_at(1) [OF assms(1), of k]
  by (cases "k < length levels") (auto simp: ensure_level_def Let_def le_less list_update_append nth_append)

lemma levels_done_push:
  assumes s: "levels_done f n levels" and le: "f n \<le> length levels"
  defines "ls \<equiv> ensure_level (f n) levels"
  shows "levels_done f (Suc n) (ls[f n := Some (nullish (ls ! f n) [] @ [n])])" (is "levels_done f _ ?ls'")
proof -
  have ens: "ls = (if f n < length levels then levels else levels @ [Some []])"
    using ensured_level [OF s le] by (simp add: ls_def)
  have "?ls' ! k = Some (pushed_at f k (Suc n)) \<and> pushed_at f k (Suc n) \<noteq> []" if k: "k < length ?ls'" for k
  proof (cases "k < length levels")
    case True
    then have "ls ! k = Some (pushed_at f k n)" "pushed_at f k n \<noteq> []"
      using levels_done_at [OF s] ens by (simp_all add: nth_append)
    then show ?thesis using k by (auto simp: nth_list_update pushed_at_Suc)
  next
    case False
    then have "k = length levels" "f n = k" "ls ! k = Some []"
      using k ens le by (auto simp: nth_append split: if_splits)
    then show ?thesis using k nothing_beyond [OF s, of k] by (simp add: pushed_at_Suc)
  qed
  moreover have "f i < length ?ls'" if "i < Suc n" for i
    using that levels_done_at(3) [OF s] ens le by (auto simp: less_Suc_eq intro: less_SucI)
  ultimately show ?thesis by (simp add: levels_done_def)
qed

section \<open>The state after some rows\<close>

definition item_done :: "flame_data \<Rightarrow> nat \<Rightarrow> level_item list \<Rightarrow> nat \<Rightarrow> bool" where
  "item_done d n items i \<longleftrightarrow>
     li_value (items ! i) = row_total d i \<and> li_indexes (items ! i) = [i] \<and> li_level (items ! i) = fd_level d ! i \<and>
     li_value_right (items ! i) = (if is_diff d then Some (get_value_right d [i]) else None) \<and>
     li_parents (items ! i) = map_option (\<lambda>p. [p]) (row_parent (fd_level d) i) \<and>
     li_children (items ! i) = rows_under (fd_level d) i n \<and>
     li_start (items ! i) = (case row_parent (fd_level d) i of None \<Rightarrow> 0
       | Some p \<Rightarrow> li_start (items ! p) + sum_list (map (row_total d) (rows_under (fd_level d) p i)))"

definition labels_done :: "flame_data \<Rightarrow> nat \<Rightarrow> nat list jobj \<Rightarrow> bool" where
  "labels_done d n labels \<longleftrightarrow> jo_wf labels \<and>
     (\<forall>l. jo_get labels l = (case filter (\<lambda>i. get_label d i = l) [0..<n] of [] \<Rightarrow> None | is \<Rightarrow> Some is))"

definition rows_done :: "flame_data \<Rightarrow> nat \<Rightarrow> flame_state \<Rightarrow> bool" where
  "rows_done d n s \<longleftrightarrow>
     length (fs_items s) = n \<and> (\<forall>i < n. item_done d n (fs_items s) i) \<and> levels_done ((!) (fd_level d)) n (fs_levels s) \<and>
     (if n = 0 then fs_offset s = 0 \<and> fs_parent s = None
      else fs_offset s = li_start (fs_items s ! (n - 1)) \<and> fs_parent s = Some (n - 1)) \<and>
     labels_done d n (fs_labels s)"

lemma rows_done_item:
  assumes "rows_done d n s" "i < n"
  shows "li_value (fs_items s ! i) = row_total d i" "li_indexes (fs_items s ! i) = [i]"
    "li_level (fs_items s ! i) = fd_level d ! i"
    "li_value_right (fs_items s ! i) = (if is_diff d then Some (get_value_right d [i]) else None)"
    "li_parents (fs_items s ! i) = map_option (\<lambda>p. [p]) (row_parent (fd_level d) i)"
    "li_children (fs_items s ! i) = rows_under (fd_level d) i n"
    "li_start (fs_items s ! i) = (case row_parent (fd_level d) i of None \<Rightarrow> 0
       | Some p \<Rightarrow> li_start (fs_items s ! p) + sum_list (map (row_total d) (rows_under (fd_level d) p i)))"
proof -
  have "item_done d n (fs_items s) i" using assms by (simp add: rows_done_def)
  then show "li_value (fs_items s ! i) = row_total d i" "li_indexes (fs_items s ! i) = [i]"
    "li_level (fs_items s ! i) = fd_level d ! i"
    "li_value_right (fs_items s ! i) = (if is_diff d then Some (get_value_right d [i]) else None)"
    "li_parents (fs_items s ! i) = map_option (\<lambda>p. [p]) (row_parent (fd_level d) i)"
    "li_children (fs_items s ! i) = rows_under (fd_level d) i n"
    "li_start (fs_items s ! i) = (case row_parent (fd_level d) i of None \<Rightarrow> 0
       | Some p \<Rightarrow> li_start (fs_items s ! p) + sum_list (map (row_total d) (rows_under (fd_level d) p i)))"
    by (simp_all only: item_done_def)
qed

lemma pushed_at_rows: "pushed_at ((!) ls) k n = rows_at ls k n"
  by (simp add: pushed_at_def rows_at_def)

lemma rows_done_levels: "rows_done d n s \<Longrightarrow> levels_done ((!) (fd_level d)) n (fs_levels s)"
  by (simp add: rows_done_def)

lemma rows_at_level_done:
  assumes "rows_done d n s" "k < length (fs_levels s)"
  shows "fs_levels s ! k = Some (rows_at (fd_level d) k n)" "rows_at (fd_level d) k n \<noteq> []"
  using levels_done_at [OF rows_done_levels [OF assms(1)]] assms(2) by (simp_all add: pushed_at_rows)

lemma level_done: "rows_done d n s \<Longrightarrow> i < n \<Longrightarrow> fd_level d ! i < length (fs_levels s)"
  using levels_done_at(3) [OF rows_done_levels] by blast

lemma initial_rows_done: "rows_done d 0 initial_flame_state"
  by (simp add: rows_done_def labels_done_def initial_flame_state_def jo.get_empty jo.wf_empty)

text \<open>Where the next row goes.\<close>

lemma placed_row:
  assumes ns: "nested_set (fd_level d)" and n: "n < fd_rows d" and s: "rows_done d n s"
    and levels: "fs_levels s' = ensure_level (fd_level d ! n) (fs_levels s)"
    and same: "fs_items s' = fs_items s" "fs_offset s' = fs_offset s" "fs_parent s' = fs_parent s"
  shows "\<exists>x. placement d n s' = Inr (x, row_parent (fd_level d) n) \<and>
    x = (case row_parent (fd_level d) n of None \<Rightarrow> 0
       | Some p \<Rightarrow> li_start (fs_items s ! p) + sum_list (map (row_total d) (rows_under (fd_level d) p n)))"
proof (cases "n = 0")
  case True
  then have "row_parent (fd_level d) n = None" by (simp add: row_parent_def)
  with True s same show ?thesis by (simp add: placement_def rows_done_def)
next
  case False
  let ?ls = "fd_level d"
  have n0: "0 < n" using False by simp
  show ?thesis
  proof (cases "?ls ! n \<le> ?ls ! (n - 1)")
    case True
    have pos: "1 \<le> ?ls ! n" using ns n False by (auto simp: nested_set_def split: if_splits)
    obtain p where p: "row_parent ?ls n = Some p" using row_parent_exists [OF ns n n0] by blast
    obtain sb us where sb: "rows_at ?ls (?ls ! n) n \<noteq> []" "last (rows_at ?ls (?ls ! n) n) = sb" "sb < n"
      "row_parent ?ls sb = Some p" "rows_under ?ls p n = us @ [sb]" "rows_under ?ls p sb = us"
      using last_sibling [OF ns n n0 True] p by auto
    have "?ls ! sb = ?ls ! n" using sb(1,2) last_in_set [OF sb(1)] by (auto simp: in_rows_at)
    then have len: "?ls ! n < length (fs_levels s)"
      using level_done [OF s sb(3)] by simp
    then have lev: "fs_levels s ! (?ls ! n) = Some (rows_at ?ls (?ls ! n) n)"
      using rows_at_level_done [OF s] by blast
    then have "fs_levels s' ! (?ls ! n) = Some (rows_at ?ls (?ls ! n) n)"
      using len by (simp add: levels ensure_level_def)
    moreover obtain z zs where "rows_at ?ls (?ls ! n) n = z # zs" using sb(1) by (cases "rows_at ?ls (?ls ! n) n") auto
    ultimately have "placement d n s' = Inr (li_start (fs_items s ! sb) + row_total d sb, Some p)"
      using False True pos sb rows_done_item [OF s sb(3)] same by (simp add: placement_def Let_def row_total_def)
    moreover have "li_start (fs_items s ! sb) = li_start (fs_items s ! p) + sum_list (map (row_total d) us)"
      using rows_done_item(7) [OF s sb(3)] sb by simp
    ultimately show ?thesis using p sb by simp
  next
    case False
    then have deep: "?ls ! (n - 1) < ?ls ! n" by simp
    from deeper_row [OF ns n n0 deep] s same n0 deep show ?thesis
      by (simp add: placement_def rows_done_def)
  qed
qed

lemma no_level_skipped:
  assumes "rows_done d n s" "nested_set (fd_level d)" "n < fd_rows d"
  shows "fd_level d ! n \<le> length (fs_levels s)"
proof (cases n)
  case 0
  with assms show ?thesis by (auto simp: nested_set_def)
next
  case (Suc j)
  then have "fd_level d ! j < length (fs_levels s)" using level_done [OF assms(1)] by simp
  with nested_set_step_up [OF assms(2), of j] Suc assms(3) show ?thesis by simp
qed

lemma no_rows_beyond: "rows_done d n s \<Longrightarrow> length (fs_levels s) \<le> k \<Longrightarrow> rows_at (fd_level d) k n = []"
  using nothing_beyond [OF rows_done_levels] by (simp add: pushed_at_rows)

lemma next_row_done:
  assumes ns: "nested_set (fd_level d)" and n: "n < fd_rows d" and s: "rows_done d n s"
  shows "\<exists>s'. nested_set_step d n s = Inr s' \<and> rows_done d (Suc n) s'"
proof -
  let ?ls = "fd_level d" and ?par = "row_parent (fd_level d)"
  let ?s1 = "s\<lparr>fs_levels := ensure_level (?ls ! n) (fs_levels s)\<rparr>"
  obtain x where x: "placement d n ?s1 = Inr (x, ?par n)"
    "x = (case ?par n of None \<Rightarrow> 0 | Some p \<Rightarrow> li_start (fs_items s ! p) + sum_list (map (row_total d) (rows_under ?ls p n)))"
    using placed_row [OF ns n s, of ?s1] by auto
  have len: "length (fs_items s) = n" using s by (simp add: rows_done_def)
  let ?items = "fs_items s @ [new_level_item d n x (?par n)]"
  let ?items' = "case ?par n of None \<Rightarrow> ?items | Some p \<Rightarrow> add_child p n ?items"
  let ?s' = "\<lparr>fs_items = ?items',
      fs_levels = (fs_levels ?s1)[?ls ! n := Some (nullish (fs_levels ?s1 ! (?ls ! n)) [] @ [n])],
      fs_offset = x, fs_parent = Some n, fs_labels = group_push (get_label d n) n (fs_labels s)\<rparr>"
  have step: "nested_set_step d n s = Inr ?s'"
    using x(1) len by (cases "?par n") (simp_all add: nested_set_step_def Let_def)
  have p_less: "p < n" if "?par n = Some p" for p using that by (simp add: row_parent_Some)
  have item: "?items' ! i = (if ?par n = Some i then (fs_items s ! i)\<lparr>li_children := li_children (fs_items s ! i) @ [n]\<rparr>
      else fs_items s ! i)" if "i < n" for i
    using that len p_less by (cases "?par n") (auto simp: add_child_def nth_append nth_list_update)
  have last: "?items' ! n = new_level_item d n x (?par n)"
    using len p_less by (cases "?par n") (auto simp: add_child_def nth_append nth_list_update)
  have start: "li_start (?items' ! i) = li_start (fs_items s ! i)" if "i < n" for i
    using item [OF that] by simp
  have no_kids: "rows_under ?ls n (Suc n) = []"
    by (auto simp: rows_under_def filter_empty_conv row_parent_Some)
  have len': "length ?items' = Suc n" using len by (simp add: add_child_def split: option.splits)
  have items': "item_done d (Suc n) ?items' i" if i: "i < Suc n" for i
  proof (cases "i = n")
    case True
    then show ?thesis
      using last x(2) start p_less no_kids by (auto simp: item_done_def new_level_item_def row_total_def split: option.splits)
  next
    case False
    then have "i < n" using i by simp
    then have old: "item_done d n (fs_items s) i" using s by (simp add: rows_done_def)
    have "li_start (?items' ! p) = li_start (fs_items s ! p)" if "?par i = Some p" for p
      using start [of p] that \<open>i < n\<close> by (simp add: row_parent_Some)
    then have "(case ?par i of None \<Rightarrow> 0
        | Some p \<Rightarrow> li_start (?items' ! p) + sum_list (map (row_total d) (rows_under ?ls p i))) = li_start (fs_items s ! i)"
      using old unfolding item_done_def by (cases "?par i") auto
    with old show ?thesis
      unfolding item_done_def item [OF \<open>i < n\<close>] by (cases "?par n = Some i") (simp_all add: rows_under_Suc)
  qed
  have labels': "labels_done d (Suc n) (group_push (get_label d n) n (fs_labels s))"
  proof -
    have "jo_get (fs_labels s) l = (case filter (\<lambda>i. get_label d i = l) [0..<n] of [] \<Rightarrow> None | is \<Rightarrow> Some is)" for l
      using s by (simp add: rows_done_def labels_done_def)
    moreover have "jo_wf (fs_labels s)" using s by (simp add: rows_done_def labels_done_def)
    ultimately show ?thesis
      by (auto simp: labels_done_def group_push_def jo_get_set jo_wf_set split: list.splits)
  qed
  have levels': "levels_done ((!) ?ls) (Suc n) ((fs_levels ?s1)[?ls ! n := Some (nullish (fs_levels ?s1 ! (?ls ! n)) [] @ [n])])"
    using levels_done_push [OF rows_done_levels [OF s] no_level_skipped [OF s ns n]] by simp
  have x': "x = li_start (?items' ! (Suc n - 1))" using last by (simp add: new_level_item_def)
  have "rows_done d (Suc n) ?s'"
    unfolding rows_done_def flame_state.select_convs
    by (intro conjI allI impI len' items' levels' labels') (use x' in simp_all)
  with step show ?thesis by blast
qed

lemma rows_done_all:
  assumes ns: "nested_set (fd_level d)"
  shows "n \<le> fd_rows d \<Longrightarrow> \<exists>s. nested_set_loop d [0..<n] initial_flame_state = Inr s \<and> rows_done d n s"
proof (induction n)
  case 0
  then show ?case by (simp add: initial_rows_done)
next
  case (Suc n)
  then obtain s where s: "nested_set_loop d [0..<n] initial_flame_state = Inr s" "rows_done d n s" by auto
  have "nested_set_loop d (is @ js) s0 = bind_res (nested_set_loop d is s0) (nested_set_loop d js)" for "is" js s0
  proof (induction "is" arbitrary: s0)
    case (Cons i "is")
    then show ?case by (cases "nested_set_step d i s0") simp_all
  qed simp
  with s next_row_done [OF ns _ s(2)] Suc.prems show ?case by auto
qed

lemma nested_set_done:
  "nested_set (fd_level d) \<Longrightarrow> \<exists>s. nested_set_to_levels d = Inr s \<and> rows_done d (fd_rows d) s"
  using rows_done_all [of d "fd_rows d"] by (simp add: nested_set_to_levels_def)

lemma root_level:
  assumes ns: "nested_set (fd_level d)" and rows: "0 < fd_rows d" and s: "rows_done d (fd_rows d) s"
  shows "\<exists>ls. fs_levels s = Some [0] # ls"
proof -
  have "fd_level d ! 0 = 0" using nested_set_level [OF ns rows] by simp
  then have "0 < length (fs_levels s)" using level_done [OF s rows] by simp
  moreover have "rows_at (fd_level d) 0 (fd_rows d) = [0]"
  proof -
    have "[0..<fd_rows d] = 0 # [1..<fd_rows d]" using rows by (simp add: upt_conv_Cons)
    moreover have "filter (\<lambda>i. fd_level d ! i = 0) [1..<fd_rows d] = []"
      using nested_set_level [OF ns] by (auto simp: filter_empty_conv)
    ultimately show ?thesis using \<open>fd_level d ! 0 = 0\<close> by (simp add: rows_at_def)
  qed
  ultimately show ?thesis using rows_at_level_done(1) [OF s, of 0] by (cases "fs_levels s") auto
qed

section \<open>The layout\<close>

text \<open>No row is negative or smaller than its children together.\<close>

definition rows_fit :: "flame_data \<Rightarrow> bool" where
  "rows_fit d \<longleftrightarrow> (\<forall>i < fd_rows d. 0 \<le> row_total d i \<and>
     sum_list (map (row_total d) (rows_under (fd_level d) i (fd_rows d))) \<le> row_total d i)"

lemma rows_under_split:
  assumes "row_parent ls c = Some p" "c < n"
  shows "\<exists>zs. rows_under ls p n = rows_under ls p c @ c # zs"
proof -
  have "[0..<n] = [0..<c] @ [c..<n]"
    using assms(2) upt_add_eq_append [of 0 c "n - c"] by simp
  then have "[0..<n] = [0..<c] @ c # [Suc c..<n]"
    using assms(2) by (simp add: upt_conv_Cons)
  then show ?thesis
    using assms(1) by (simp add: rows_under_def)
qed

lemma totals_nonneg:
  assumes "rows_fit d" "\<And>i. i \<in> set is \<Longrightarrow> i < fd_rows d"
  shows "0 \<le> sum_list (map (row_total d) is)"
  using assms by (intro sum_list_nonneg) (auto simp: rows_fit_def)

lemma child_within:
  assumes s: "rows_done d (fd_rows d) s" and fit: "rows_fit d"
    and c: "c < fd_rows d" "row_parent (fd_level d) c = Some p"
  shows "li_start (fs_items s ! p) \<le> li_start (fs_items s ! c)"
    "li_start (fs_items s ! c) + row_total d c \<le> li_start (fs_items s ! p) + row_total d p"
proof -
  let ?ls = "fd_level d"
  have start: "li_start (fs_items s ! c) = li_start (fs_items s ! p) + sum_list (map (row_total d) (rows_under ?ls p c))"
    using rows_done_item(7) [OF s c(1)] c(2) by simp
  have p: "p < fd_rows d" using c by (simp add: row_parent_Some)
  obtain zs where zs: "rows_under ?ls p (fd_rows d) = rows_under ?ls p c @ c # zs"
    using rows_under_split [OF c(2,1)] by blast
  have "0 \<le> sum_list (map (row_total d) (rows_under ?ls p c))"
    using c(1) by (intro totals_nonneg [OF fit]) (auto simp: in_rows_under)
  with start show "li_start (fs_items s ! p) \<le> li_start (fs_items s ! c)" by simp
  have "i \<in> set zs \<Longrightarrow> i < fd_rows d" for i
  proof -
    assume "i \<in> set zs"
    then have "i \<in> set (rows_under ?ls p (fd_rows d))" by (simp add: zs)
    then show "i < fd_rows d" by (simp add: in_rows_under)
  qed
  then have "0 \<le> sum_list (map (row_total d) zs)" by (rule totals_nonneg [OF fit])
  moreover have "sum_list (map (row_total d) (rows_under ?ls p (fd_rows d))) \<le> row_total d p"
    using fit p by (simp add: rows_fit_def)
  ultimately show "li_start (fs_items s ! c) + row_total d c \<le> li_start (fs_items s ! p) + row_total d p"
    using start by (simp add: zs)
qed

lemma sibling_after:
  assumes s: "rows_done d (fd_rows d) s" and fit: "rows_fit d"
    and ij: "i < j" "j < fd_rows d" "row_parent (fd_level d) i = Some p" "row_parent (fd_level d) j = Some p"
  shows "li_start (fs_items s ! i) + row_total d i \<le> li_start (fs_items s ! j)"
proof -
  let ?ls = "fd_level d"
  obtain zs where zs: "rows_under ?ls p j = rows_under ?ls p i @ i # zs"
    using rows_under_split [OF ij(3,1)] by blast
  have "k \<in> set zs \<Longrightarrow> k < fd_rows d" for k
  proof -
    assume "k \<in> set zs"
    then have "k \<in> set (rows_under ?ls p j)" by (simp add: zs)
    then show "k < fd_rows d" using ij(2) by (simp add: in_rows_under)
  qed
  then have "0 \<le> sum_list (map (row_total d) zs)" by (rule totals_nonneg [OF fit])
  then show ?thesis
    using rows_done_item(7) [OF s, of i] rows_done_item(7) [OF s ij(2)] ij by (simp add: zs)
qed

lemma row_parent_mono:
  assumes "row_parent ls i = Some p" "row_parent ls j = Some q" "i < j" "ls ! i = ls ! j"
  shows "p \<le> q"
  using assms by (auto simp: row_parent_Some not_less [symmetric])

lemma level_disjoint:
  assumes s: "rows_done d (fd_rows d) s" and fit: "rows_fit d" and ns: "nested_set (fd_level d)"
  shows "i < j \<Longrightarrow> j < fd_rows d \<Longrightarrow> fd_level d ! i = k \<Longrightarrow> fd_level d ! j = k \<Longrightarrow>
    li_start (fs_items s ! i) + row_total d i \<le> li_start (fs_items s ! j)"
proof (induction k arbitrary: i j)
  case 0
  then show ?case using nested_set_level [OF ns, of j] by simp
next
  case (Suc k)
  have "i < fd_rows d" using Suc.prems by simp
  then have "0 < i" using Suc.prems nested_set_level [OF ns] by (metis gr0I nat.distinct(1))
  then obtain p q where pq: "row_parent (fd_level d) i = Some p" "row_parent (fd_level d) j = Some q"
    using row_parent_exists [OF ns, of i] row_parent_exists [OF ns, of j] Suc.prems by auto
  then have le: "p \<le> q" using row_parent_mono Suc.prems by metis
  show ?case
  proof (cases "p = q")
    case True
    with pq Suc.prems sibling_after [OF s fit] show ?thesis by blast
  next
    case False
    then have "p < q" "q < fd_rows d" "fd_level d ! p = k" "fd_level d ! q = k"
      using le pq Suc.prems by (auto simp: row_parent_Some)
    from Suc.IH [OF this] child_within [OF s fit _ pq(1)] child_within [OF s fit _ pq(2)] Suc.prems
    show ?thesis by force
  qed
qed

section \<open>Properties of the conversion\<close>

text \<open>
  C25. On every nested set the conversion returns, and what it returns is the tree the levels describe: one item per row,
  under the last row before it that is one level higher, with its children in the order of the rows; the array of levels
  lists the rows of each level, and the items of a label are the rows that have it. An item starts where its parent
  starts, moved by the totals of the siblings before it.
\<close>

theorem levels_are_the_tree:
  assumes "nested_set (fd_level d)" and "n = fd_rows d" and "ls = fd_level d"
  shows "\<exists>s. nested_set_to_levels d = Inr s \<and> length (fs_items s) = n \<and>
    (\<forall>i < n. li_parents (fs_items s ! i) = map_option (\<lambda>p. [p]) (row_parent ls i) \<and>
       li_children (fs_items s ! i) = rows_under ls i n \<and> li_level (fs_items s ! i) = ls ! i \<and>
       li_indexes (fs_items s ! i) = [i] \<and> li_value (fs_items s ! i) = row_total d i \<and>
       li_start (fs_items s ! i) = (case row_parent ls i of None \<Rightarrow> 0
         | Some p \<Rightarrow> li_start (fs_items s ! p) + sum_list (map (row_total d) (rows_under ls p i)))) \<and>
    (\<forall>k < length (fs_levels s). fs_levels s ! k = Some (rows_at ls k n) \<and> rows_at ls k n \<noteq> []) \<and>
    (\<forall>k. rows_at ls k n \<noteq> [] \<longrightarrow> k < length (fs_levels s)) \<and>
    (\<forall>l. nullish (jo_get (fs_labels s) l) [] = filter (\<lambda>i. get_label d i = l) [0..<n])"
proof -
  obtain s where s: "nested_set_to_levels d = Inr s" "rows_done d n s"
    using nested_set_done [OF assms(1)] assms(2) by blast
  have "k < length (fs_levels s)" if "rows_at ls k n \<noteq> []" for k
    using no_rows_beyond [OF s(2), of k] that assms(3) by (meson not_le)
  moreover have "nullish (jo_get (fs_labels s) l) [] = filter (\<lambda>i. get_label d i = l) [0..<n]" for l
    using s(2) by (simp add: rows_done_def labels_done_def split: list.splits)
  moreover have "length (fs_items s) = n" using s(2) by (simp add: rows_done_def)
  ultimately show ?thesis
    using s(1) rows_done_item [OF s(2)] rows_at_level_done [OF s(2)] assms(3)
    by (intro exI [of _ s] conjI allI impI) auto
qed

definition sample_flame :: flame_data where
  "sample_flame = \<lparr>fd_label = [''main'', ''a'', ''b'', ''a'', ''c''], fd_level = [0, 1, 2, 1, 2], fd_value = [10, 6, 4, 3, 3],
     fd_self = [1, 2, 4, 0, 3], fd_value_right = None, fd_self_right = None\<rparr>"

lemma sample_flame_nested: "nested_set (fd_level sample_flame)"
  by (auto simp: sample_flame_def nested_set_def nth_Cons' numeral_nat)

lemma levels_are_the_tree_witness:
  "\<exists>s. nested_set_to_levels sample_flame = Inr s \<and> li_children (fs_items s ! 0) = [1, 3] \<and> li_parents (fs_items s ! 4) = Some [3]"
  using levels_are_the_tree [OF sample_flame_nested refl refl]
  by (auto simp: sample_flame_def rows_under_def row_parent_def upt_rec)

text \<open>
  When no row is smaller than its children together, the items of a level lie side by side without overlap, in the
  order of the rows, and every item lies within its parent.
\<close>

theorem levels_do_not_overlap:
  assumes "nested_set (fd_level d)" and "rows_fit d" and "nested_set_to_levels d = Inr s"
  shows "(\<forall>i j. i < j \<and> j < fd_rows d \<and> fd_level d ! i = fd_level d ! j \<longrightarrow>
      li_start (fs_items s ! i) + li_value (fs_items s ! i) \<le> li_start (fs_items s ! j)) \<and>
    (\<forall>c p. c < fd_rows d \<and> li_parents (fs_items s ! c) = Some [p] \<longrightarrow>
      li_start (fs_items s ! p) \<le> li_start (fs_items s ! c) \<and>
      li_start (fs_items s ! c) + li_value (fs_items s ! c) \<le> li_start (fs_items s ! p) + li_value (fs_items s ! p))"
proof -
  have s: "rows_done d (fd_rows d) s" using nested_set_done [OF assms(1)] assms(3) by auto
  have "li_start (fs_items s ! i) + li_value (fs_items s ! i) \<le> li_start (fs_items s ! j)"
    if "i < j" "j < fd_rows d" "fd_level d ! i = fd_level d ! j" for i j
    using level_disjoint [OF s assms(2,1) that(1,2) that(3) refl] rows_done_item(1) [OF s, of i] that by simp
  moreover have "li_start (fs_items s ! p) \<le> li_start (fs_items s ! c) \<and>
      li_start (fs_items s ! c) + li_value (fs_items s ! c) \<le> li_start (fs_items s ! p) + li_value (fs_items s ! p)"
    if c: "c < fd_rows d" "li_parents (fs_items s ! c) = Some [p]" for c p
  proof -
    have p: "row_parent (fd_level d) c = Some p" using rows_done_item(5) [OF s c(1)] c(2) by (cases "row_parent (fd_level d) c") auto
    then have "p < fd_rows d" using c(1) by (simp add: row_parent_Some)
    with child_within [OF s assms(2) c(1) p] rows_done_item(1) [OF s] c(1) show ?thesis by simp
  qed
  ultimately show ?thesis by blast
qed

lemma sample_flame_fits: "rows_fit sample_flame"
  by (auto simp: rows_fit_def sample_flame_def row_total_def get_value_def get_value_right_def field_accessor_def
      rows_under_def row_parent_def upt_rec less_Suc_eq numeral_nat)

lemma levels_do_not_overlap_witness:
  "\<exists>s. nested_set_to_levels sample_flame = Inr s \<and>
     li_start (fs_items s ! 1) + li_value (fs_items s ! 1) \<le> li_start (fs_items s ! 3)"
proof -
  have fit: "rows_fit sample_flame" by (rule sample_flame_fits)
  obtain s where s: "nested_set_to_levels sample_flame = Inr s" using nested_set_done [OF sample_flame_nested] by blast
  from levels_do_not_overlap [OF sample_flame_nested fit s] s show ?thesis
    by (auto simp: sample_flame_def)
qed

end
