(* ===== verification/Flame_Merge.thy ===== *)
theory Flame_Merge
  imports Flame_Levels
begin

text \<open>
  The sandwich view of a flame graph, \<open>packages/grafana-flamegraph/src/FlameGraph/treeTransforms.ts\<close> and
  \<open>getSandwichLevels\<close> of \<open>dataTransform.ts\<close>: all occurrences of a label are merged into one item, with their callees
  merged below it and their callers merged above it.

  The merge reads items of one store and makes new items in a store of its own, so the addresses of both are separate.
  The loops of the source take fuel, one unit for each entry taken from the queue.
\<close>

section \<open>Merging subtrees\<close>

datatype direction = Parents | Children

fun next_of :: "direction \<Rightarrow> level_item \<Rightarrow> nat list" where
  "next_of Children it = li_children it"
| "next_of Parents it = nullish (li_parents it) []"

fun push_next :: "direction \<Rightarrow> nat \<Rightarrow> level_item \<Rightarrow> level_item" where
  "push_next Children a it = it\<lparr>li_children := li_children it @ [a]\<rparr>"
| "push_next Parents a it = it\<lparr>li_parents := Some (nullish (li_parents it) [] @ [a])\<rparr>"

fun set_opposite :: "direction \<Rightarrow> nat list \<Rightarrow> level_item \<Rightarrow> level_item" where
  "set_opposite Children as it = it\<lparr>li_parents := Some as\<rparr>"
| "set_opposite Parents as it = it\<lparr>li_children := as\<rparr>"

record merge_state =
  ms_items :: "level_item list"
  ms_levels :: "nat list option list"

text \<open>An entry of the queue: the merged item it goes under, the items to merge, and their level.\<close>

type_synonym merge_entry = "nat option \<times> nat list \<times> nat"

definition merged_item :: "level_item list \<Rightarrow> nat list \<Rightarrow> nat \<Rightarrow> level_item" where
  "merged_item src g k =
     \<lparr>li_start = 0, li_value = foldl (\<lambda>acc i. acc + li_value (src ! i)) 0 g, li_value_right = None,
      li_indexes = concat (map (\<lambda>i. li_indexes (src ! i)) g), li_children = [], li_level = k, li_parents = Some []\<rparr>"

fun merge_one :: "direction \<Rightarrow> level_item list \<Rightarrow> merge_entry \<Rightarrow> merge_state \<Rightarrow> merge_state" where
  "merge_one dir src (prev, g, k) ms =
     (let a = length (ms_items ms);
          item = merged_item src g k;
          levels = ensure_level k (ms_levels ms);
          levels = levels[k := Some (nullish (levels ! k) [] @ [a])] in
      case prev of
        None \<Rightarrow> ms\<lparr>ms_items := ms_items ms @ [item], ms_levels := levels\<rparr>
      | Some p \<Rightarrow>
          (let before = ms_items ms ! p;
               siblings = foldl (\<lambda>acc c. acc + li_value (ms_items ms ! c)) 0 (next_of dir before);
               item = set_opposite dir [p] item in
           ms\<lparr>ms_items := (ms_items ms)[p := push_next dir a before] @ [item\<lparr>li_start := li_start before + siblings\<rparr>],
              ms_levels := levels\<rparr>))"

definition next_groups :: "(nat \<Rightarrow> string) \<Rightarrow> direction \<Rightarrow> level_item list \<Rightarrow> nat list \<Rightarrow> nat list list" where
  "next_groups label dir src g =
     jo_values (group_by (\<lambda>c. label (hd (li_indexes (src ! c)))) (concat (map (\<lambda>i. next_of dir (src ! i)) g)))"

fun merge_loop :: "nat \<Rightarrow> (nat \<Rightarrow> string) \<Rightarrow> direction \<Rightarrow> level_item list \<Rightarrow> merge_entry list \<Rightarrow> merge_state \<Rightarrow> merge_state option" where
  "merge_loop n label dir src [] ms = Some ms"
| "merge_loop 0 label dir src (e # queue) ms = None"
| "merge_loop (Suc n) label dir src ((prev, g, k) # queue) ms =
     merge_loop n label dir src
       (queue @ map (\<lambda>h. (Some (length (ms_items ms)), h, Suc k)) (next_groups label dir src g))
       (merge_one dir src (prev, g, k) ms)"

definition set_level :: "nat \<Rightarrow> level_item \<Rightarrow> level_item" where
  "set_level k it = it\<lparr>li_level := k\<rparr>"

definition number_levels :: "nat list option list \<Rightarrow> level_item list \<Rightarrow> level_item list" where
  "number_levels levels items =
     fold (\<lambda>(k, l). fold (\<lambda>a items. items[a := set_level k (items ! a)]) (nullish l [])) (List.enumerate 0 levels) items"

definition merge_subtrees ::
  "nat \<Rightarrow> (nat \<Rightarrow> string) \<Rightarrow> direction \<Rightarrow> level_item list \<Rightarrow> nat list \<Rightarrow> merge_state option" where
  "merge_subtrees n label dir src roots =
     (case merge_loop n label dir src [(None, roots, 0)] \<lparr>ms_items = [], ms_levels = []\<rparr> of
        None \<Rightarrow> None
      | Some ms \<Rightarrow>
          (case dir of
             Children \<Rightarrow> Some ms
           | Parents \<Rightarrow> (let levels = rev (ms_levels ms) in
               Some \<lparr>ms_items = number_levels levels (ms_items ms), ms_levels = levels\<rparr>)))"

section \<open>The callers of an item\<close>

text \<open>The parents of an item are copied up to the root, each with the value of the item. An entry of the stack is a copy
  and the item whose copy becomes its parent.\<close>

fun chain_loop :: "nat \<Rightarrow> (nat \<times> nat) list \<Rightarrow> level_item list \<Rightarrow> level_item list option" where
  "chain_loop n [] items = Some items"
| "chain_loop 0 (e # stack) items = None"
| "chain_loop (Suc n) ((child, parent) # stack) items =
     (let a = length items;
          old = items ! parent;
          node = old\<lparr>li_value := li_value (items ! child), li_children := [child], li_parents := Some []\<rparr>;
          items' = items[child := (items ! child)\<lparr>li_parents := Some [a]\<rparr>] @ [node] in
      chain_loop n (case li_parents old of Some (p # _) \<Rightarrow> stack @ [(a, p)] | _ \<Rightarrow> stack) items')"

definition parent_subtree :: "nat \<Rightarrow> nat \<Rightarrow> level_item list \<Rightarrow> (nat \<times> level_item list) option" where
  "parent_subtree n r items =
     (case li_parents (items ! r) of
        Some (p # _) \<Rightarrow>
          (let a = length items in
           map_option (Pair a) (chain_loop n [(a, p)] (items @ [(items ! r)\<lparr>li_children := []\<rparr>])))
      | _ \<Rightarrow> Some (r, items))"

fun parent_subtrees :: "nat \<Rightarrow> nat list \<Rightarrow> level_item list \<Rightarrow> (nat list \<times> level_item list) option" where
  "parent_subtrees n [] items = Some ([], items)"
| "parent_subtrees n (r # rs) items =
     (case parent_subtree n r items of
        None \<Rightarrow> None
      | Some (r', items') \<Rightarrow> map_option (\<lambda>(rs', items''). (r' # rs', items'')) (parent_subtrees n rs items'))"

definition merge_parent_subtrees :: "nat \<Rightarrow> nat \<Rightarrow> (nat \<Rightarrow> string) \<Rightarrow> level_item list \<Rightarrow> nat list \<Rightarrow> merge_state option" where
  "merge_parent_subtrees n k label items roots =
     (case parent_subtrees n roots items of
        None \<Rightarrow> None
      | Some (roots', items') \<Rightarrow> merge_subtrees k label Parents items' roots')"

text \<open>Both halves of the view; the copies made for the callers are not part of the graph itself.\<close>

definition no_levels :: merge_state where
  "no_levels = \<lparr>ms_items = [], ms_levels = []\<rparr>"

definition get_sandwich_levels :: "nat \<Rightarrow> nat \<Rightarrow> flame_data \<Rightarrow> string \<Rightarrow> (merge_state \<times> merge_state) option res" where
  "get_sandwich_levels n k d l =
     bind_res (nested_set_to_levels d) (\<lambda>s.
       case nullish (jo_get (fs_labels s) l) [] of
         [] \<Rightarrow> Inr (Some (no_levels, no_levels))
       | nodes \<Rightarrow> Inr
           (case (merge_parent_subtrees n k (get_label d) (fs_items s) nodes,
                  merge_subtrees k (get_label d) Children (fs_items s) nodes) of
              (Some callers, Some callees) \<Rightarrow> Some (callers, callees)
            | _ \<Rightarrow> None))"

end
