(* ===== verification/Flame_Groups.thy ===== *)
theory Flame_Groups
  imports Flame_Nesting Flame_Merge
begin

text \<open>
  The queue of \<open>merge_subtrees\<close> against a specification without a queue: the groups of a level are the groups of the level
  above, each replaced by the groups of the items below it. The merge returns with fuel for the items it can reach, its
  items are these groups level by level, and every item is linked to, and starts behind, the items of its own group.
\<close>

section \<open>Groups by level\<close>

definition groups_below :: "('a \<Rightarrow> string) \<Rightarrow> ('a \<Rightarrow> 'a list) \<Rightarrow> 'a list \<Rightarrow> 'a list list" where
  "groups_below lab nxt g = jo_values (group_by lab (concat (map nxt g)))"

primrec group_level :: "('a \<Rightarrow> string) \<Rightarrow> ('a \<Rightarrow> 'a list) \<Rightarrow> 'a list \<Rightarrow> nat \<Rightarrow> 'a list list" where
  "group_level lab nxt roots 0 = [roots]"
| "group_level lab nxt roots (Suc k) = concat (map (groups_below lab nxt) (group_level lab nxt roots k))"

lemma mset_groups_below: "mset (concat (groups_below lab nxt g)) = mset (concat (map nxt g))"
  by (simp add: groups_below_def mset_group_by)

lemma set_groups_below: "\<Union> (set ` set (groups_below lab nxt g)) = (\<Union>i \<in> set g. set (nxt i))"
  using mset_groups_below [of lab nxt g, THEN mset_eq_setD] by simp

lemma groups_below_nonempty: "h \<in> set (groups_below lab nxt g) \<Longrightarrow> h \<noteq> []"
  by (auto simp: groups_below_def dest: group_by_nonempty)

text \<open>No item is lost or counted twice: the items of a level are those below the items of the level above.\<close>

lemma mset_group_level_Suc:
  "mset (concat (group_level lab nxt roots (Suc k))) = mset (concat (map nxt (concat (group_level lab nxt roots k))))"
proof -
  have "mset (concat (concat (map (groups_below lab nxt) gs))) = mset (concat (map nxt (concat gs)))" for gs
    by (induction gs) (simp_all add: mset_groups_below)
  then show ?thesis by simp
qed

text \<open>Groups depend on the labels and on what is below, not on how items are represented.\<close>

lemma groups_below_map:
  assumes "\<And>x. x \<in> set g \<Longrightarrow> nxt' (f x) = map f (nxt x)" and "\<And>x y. x \<in> set g \<Longrightarrow> y \<in> set (nxt x) \<Longrightarrow> lab' (f y) = lab y"
  shows "groups_below lab' nxt' (map f g) = map (map f) (groups_below lab nxt g)"
proof -
  have "concat (map nxt' (map f g)) = map f (concat (map nxt g))"
    using assms(1) by (induction g) simp_all
  moreover have "group_by (\<lambda>x. lab' (f x)) (concat (map nxt g)) = group_by lab (concat (map nxt g))"
    using assms(2) by (intro group_by_cong) auto
  ultimately show ?thesis by (simp add: groups_below_def jo_values_group_by_map)
qed

lemma group_level_closed:
  assumes "set roots \<subseteq> R" and "\<And>x. x \<in> R \<Longrightarrow> set (nxt x) \<subseteq> R"
  shows "g \<in> set (group_level lab nxt roots k) \<Longrightarrow> set g \<subseteq> R"
proof (induction k arbitrary: g)
  case 0
  then show ?case using assms(1) by simp
next
  case (Suc k)
  then obtain h where h: "h \<in> set (group_level lab nxt roots k)" "g \<in> set (groups_below lab nxt h)" by auto
  then have "set g \<subseteq> (\<Union>i \<in> set h. set (nxt i))" using set_groups_below [of lab nxt h] by auto
  with Suc.IH [OF h(1)] assms(2) show ?case by fastforce
qed

lemma group_level_map:
  assumes "set roots \<subseteq> R" and "\<And>x. x \<in> R \<Longrightarrow> set (nxt x) \<subseteq> R"
    and "\<And>x. x \<in> R \<Longrightarrow> nxt' (f x) = map f (nxt x)" and "\<And>x. x \<in> R \<Longrightarrow> lab' (f x) = lab x"
  shows "group_level lab' nxt' (map f roots) k = map (map f) (group_level lab nxt roots k)"
proof (induction k)
  case (Suc k)
  have "groups_below lab' nxt' (map f g) = map (map f) (groups_below lab nxt g)" if "g \<in> set (group_level lab nxt roots k)" for g
    using group_level_closed [OF assms(1,2) that] assms by (intro groups_below_map) blast+
  then show ?case using Suc by (simp add: map_concat comp_def cong: map_cong)
qed simp

section \<open>The queue\<close>

text \<open>The entries taken from the queue so far, followed by those still in it, are the first entry and, in order, the
  entries made for each that was taken.\<close>

definition entries_of :: "(nat list \<Rightarrow> nat list list) \<Rightarrow> nat \<Rightarrow> merge_entry \<Rightarrow> merge_entry list" where
  "entries_of below i e = map (\<lambda>h. (Some i, h, Suc (snd (snd e)))) (below (fst (snd e)))"

definition offspring :: "(nat list \<Rightarrow> nat list list) \<Rightarrow> merge_entry list \<Rightarrow> merge_entry list" where
  "offspring below log = concat (map (\<lambda>(i, e). entries_of below i e) (List.enumerate 0 log))"

definition logged :: "(nat list \<Rightarrow> nat list list) \<Rightarrow> nat list \<Rightarrow> merge_entry list \<Rightarrow> merge_entry list \<Rightarrow> bool" where
  "logged below roots log queue \<longleftrightarrow> log @ queue = (None, roots, 0) # offspring below log"

lemma offspring_Nil [simp]: "offspring below [] = []"
  by (simp add: offspring_def)

lemma offspring_snoc: "offspring below (log @ [e]) = offspring below log @ entries_of below (length log) e"
  by (simp add: offspring_def enumerate_append_eq)

lemma in_offspring: "e \<in> set (offspring below log) \<longleftrightarrow>
    (\<exists>i h. i < length log \<and> h \<in> set (below (fst (snd (log ! i)))) \<and> e = (Some i, h, Suc (snd (snd (log ! i)))))"
proof (induction log rule: rev_induct)
  case (snoc x log)
  then show ?case
    by (auto simp: offspring_snoc entries_of_def less_Suc_eq nth_append conj_disj_distribR ex_disj_distrib cong: conj_cong)
qed simp

lemma logged_start: "logged below roots [] [(None, roots, 0)]"
  by (simp add: logged_def)

lemma logged_step: "logged below roots log (e # queue) \<Longrightarrow> logged below roots (log @ [e]) (queue @ entries_of below (length log) e)"
  by (simp add: logged_def offspring_snoc)

lemma logged_next:
  assumes "logged below roots log (e # queue)"
  shows "log = [] \<and> e = (None, roots, 0) \<or>
    (\<exists>i < length log. fst e = Some i \<and> fst (snd e) \<in> set (below (fst (snd (log ! i)))) \<and> snd (snd e) = Suc (snd (snd (log ! i))))"
proof (cases log)
  case Nil
  with assms show ?thesis by (simp add: logged_def)
next
  case (Cons e0 log')
  then have "log' @ e # queue = offspring below log" using assms by (simp add: logged_def)
  then have "e \<in> set (offspring below log)" by (metis in_set_conv_decomp)
  then show ?thesis by (auto simp: in_offspring)
qed

section \<open>Merged items\<close>

definition entries_under :: "merge_entry list \<Rightarrow> nat \<Rightarrow> nat \<Rightarrow> nat list" where
  "entries_under log p n = filter (\<lambda>j. fst (log ! j) = Some p) [0..<n]"

definition group_value :: "level_item list \<Rightarrow> nat list \<Rightarrow> int" where
  "group_value src g = sum_list (map (\<lambda>i. li_value (src ! i)) g)"

fun opposite :: "direction \<Rightarrow> direction" where
  "opposite Parents = Children"
| "opposite Children = Parents"

definition merged_item_done :: "direction \<Rightarrow> level_item list \<Rightarrow> merge_entry list \<Rightarrow> level_item list \<Rightarrow> nat \<Rightarrow> bool" where
  "merged_item_done dir src log items i \<longleftrightarrow>
     li_value (items ! i) = group_value src (fst (snd (log ! i))) \<and>
     li_indexes (items ! i) = concat (map (\<lambda>c. li_indexes (src ! c)) (fst (snd (log ! i)))) \<and>
     li_level (items ! i) = snd (snd (log ! i)) \<and> li_value_right (items ! i) = None \<and>
     next_of dir (items ! i) = entries_under log i (length log) \<and>
     next_of (opposite dir) (items ! i) = (case fst (log ! i) of None \<Rightarrow> [] | Some p \<Rightarrow> [p]) \<and>
     li_start (items ! i) = (case fst (log ! i) of None \<Rightarrow> 0
       | Some p \<Rightarrow> li_start (items ! p) + sum_list (map (\<lambda>j. group_value src (fst (snd (log ! j)))) (entries_under log p i)))"

definition entry_fits :: "merge_entry list \<Rightarrow> merge_entry \<Rightarrow> bool" where
  "entry_fits log e \<longleftrightarrow> (case fst e of None \<Rightarrow> log = [] \<and> snd (snd e) = 0
     | Some p \<Rightarrow> p < length log \<and> snd (snd e) = Suc (snd (snd (log ! p))))"

definition merged_done :: "direction \<Rightarrow> level_item list \<Rightarrow> merge_entry list \<Rightarrow> merge_state \<Rightarrow> bool" where
  "merged_done dir src log ms \<longleftrightarrow> length (ms_items ms) = length log \<and>
     (\<forall>i < length log. entry_fits (take i log) (log ! i)) \<and>
     (\<forall>i < length log. merged_item_done dir src log (ms_items ms) i) \<and>
     levels_done (\<lambda>i. snd (snd (log ! i))) (length log) (ms_levels ms)"

lemma foldl_sum: "foldl (\<lambda>acc i. acc + f i) (a :: int) xs = a + sum_list (map f xs)"
  by (induction xs arbitrary: a) (simp_all add: add.assoc)

lemma entries_under_append: "n \<le> length log \<Longrightarrow> entries_under (log @ log2) p n = entries_under log p n"
  by (auto simp: entries_under_def nth_append intro: filter_cong)

lemma entries_under_snoc: "entries_under (log @ [e]) p (Suc (length log)) =
    entries_under log p (length log) @ (if fst e = Some p then [length log] else [])"
  using entries_under_append [of "length log" log "[e]" p] by (simp add: entries_under_def)

lemma levels_done_cong: "levels_done f n ls \<Longrightarrow> (\<And>i. i < n \<Longrightarrow> f i = g i) \<Longrightarrow> levels_done g n ls"
proof -
  assume "levels_done f n ls" and eq: "\<And>i. i < n \<Longrightarrow> f i = g i"
  moreover from eq have "pushed_at f k n = pushed_at g k n" for k by (auto simp: pushed_at_def intro: filter_cong)
  ultimately show ?thesis by (simp add: levels_done_def)
qed

lemma next_of_set_opposite [simp]:
  "next_of dir (set_opposite dir as it) = next_of dir it" "next_of (opposite dir) (set_opposite dir as it) = as"
  by (cases dir; simp)+

lemma next_of_push_next [simp]:
  "next_of dir (push_next dir a it) = next_of dir it @ [a]" "next_of (opposite dir) (push_next dir a it) = next_of (opposite dir) it"
  by (cases dir; simp)+

lemma push_next_fields [simp]:
  "li_value (push_next dir a it) = li_value it" "li_indexes (push_next dir a it) = li_indexes it"
  "li_level (push_next dir a it) = li_level it" "li_start (push_next dir a it) = li_start it"
  "li_value_right (push_next dir a it) = li_value_right it"
  by (cases dir; simp)+

lemma set_opposite_fields [simp]:
  "li_value (set_opposite dir as it) = li_value it" "li_indexes (set_opposite dir as it) = li_indexes it"
  "li_level (set_opposite dir as it) = li_level it" "li_start (set_opposite dir as it) = li_start it"
  "li_value_right (set_opposite dir as it) = li_value_right it"
  by (cases dir; simp)+

lemma next_of_start [simp]: "next_of dir (it\<lparr>li_start := x\<rparr>) = next_of dir it"
  by (cases dir) simp_all

lemma merged_item_fields [simp]:
  "li_value (merged_item src g k) = group_value src g" "li_level (merged_item src g k) = k" "li_start (merged_item src g k) = 0"
  "li_indexes (merged_item src g k) = concat (map (\<lambda>c. li_indexes (src ! c)) g)" "li_value_right (merged_item src g k) = None"
  "next_of dir (merged_item src g k) = []"
  by (cases dir; simp add: merged_item_def group_value_def foldl_sum)+

lemma merged_doneD:
  assumes "merged_done dir src log ms"
  shows "length (ms_items ms) = length log" "i < length log \<Longrightarrow> merged_item_done dir src log (ms_items ms) i"
    "levels_done (\<lambda>i. snd (snd (log ! i))) (length log) (ms_levels ms)"
    "i < length log \<Longrightarrow> entry_fits (take i log) (log ! i)"
  using assms by (simp_all add: merged_done_def)

lemma entry_parent:
  assumes "merged_done dir src log ms" "i < length log" "fst (log ! i) = Some p"
  shows "p < i" "snd (snd (log ! i)) = Suc (snd (snd (log ! p)))"
  using merged_doneD(4) [OF assms(1,2)] assms(2,3) by (simp_all add: entry_fits_def)

lemma merge_one_levels:
  assumes m: "merged_done dir src log ms" and fits: "entry_fits log e"
  shows "levels_done (\<lambda>i. snd (snd ((log @ [e]) ! i))) (Suc (length log)) (ms_levels (merge_one dir src e ms))"
proof -
  obtain prev g k where e: "e = (prev, g, k)" by (cases e) auto
  let ?f = "\<lambda>i. snd (snd ((log @ [e]) ! i))"
  have old: "levels_done ?f (length log) (ms_levels ms)"
    using merged_doneD(3) [OF m] by (rule levels_done_cong) (simp add: nth_append)
  have "?f (length log) \<le> length (ms_levels ms)"
    using fits levels_done_at(3) [OF merged_doneD(3) [OF m]]
    by (auto simp: e entry_fits_def Suc_le_eq split: option.splits)
  from levels_done_push [OF old this] merged_doneD(1) [OF m] show ?thesis
    by (cases prev) (simp_all add: e Let_def)
qed

lemma merge_one_done:
  assumes m: "merged_done dir src log ms" and fits: "entry_fits log e"
  shows "merged_done dir src (log @ [e]) (merge_one dir src e ms)"
proof -
  obtain prev g k where e: "e = (prev, g, k)" by (cases e) auto
  let ?n = "length log" and ?ms = "merge_one dir src e ms"
  have len: "length (ms_items ms) = ?n" using merged_doneD(1) [OF m] .
  have len': "length (ms_items ?ms) = Suc ?n" by (cases prev) (simp_all add: e Let_def len)
  have p: "p < ?n" if "prev = Some p" for p using fits that by (simp add: entry_fits_def e)
  have old: "ms_items ?ms ! i = (if prev = Some i then push_next dir ?n (ms_items ms ! i) else ms_items ms ! i)" if "i < ?n" for i
    using that len p by (cases prev) (auto simp: e Let_def nth_append nth_list_update)
  have start: "li_start (ms_items ?ms ! i) = li_start (ms_items ms ! i)" if "i < ?n" for i
    using old [OF that] by simp
  have new: "ms_items ?ms ! ?n = (case prev of None \<Rightarrow> merged_item src g k
      | Some p \<Rightarrow> (set_opposite dir [p] (merged_item src g k))\<lparr>li_start := li_start (ms_items ms ! p) +
          sum_list (map (\<lambda>c. li_value (ms_items ms ! c)) (next_of dir (ms_items ms ! p)))\<rparr>)"
    using len p by (cases prev) (auto simp: e Let_def nth_append foldl_sum)
  have vals: "map (\<lambda>c. li_value (ms_items ms ! c)) (entries_under log p ?n) =
      map (\<lambda>j. group_value src (fst (snd ((log @ [e]) ! j)))) (entries_under log p ?n)" for p
    using merged_doneD(2) [OF m] by (auto simp: entries_under_def merged_item_done_def nth_append)
  have "merged_item_done dir src (log @ [e]) (ms_items ?ms) i" if "i < Suc ?n" for i
  proof (cases "i = ?n")
    case True
    have none: "entries_under (log @ [e]) ?n (Suc ?n) = []"
    proof -
      have "fst ((log @ [e]) ! j) \<noteq> Some ?n" if "j < Suc ?n" for j
        using that entry_parent(1) [OF m, of j ?n] p [of ?n] by (auto simp: nth_append e less_Suc_eq)
      then have "\<forall>j \<in> set [0..<Suc ?n]. fst ((log @ [e]) ! j) \<noteq> Some ?n" by (simp only: set_upt atLeastLessThan_iff) simp
      then show ?thesis unfolding entries_under_def filter_empty_conv .
    qed
    show ?thesis
    proof (cases prev)
      case None
      then show ?thesis using True new none by (simp add: merged_item_done_def e)
    next
      case (Some p)
      have "next_of dir (ms_items ms ! p) = entries_under log p ?n"
        using merged_doneD(2) [OF m p [OF Some]] by (simp add: merged_item_done_def)
      then show ?thesis
        using True new none Some vals [of p] start [OF p [OF Some]] entries_under_append [of ?n log "[e]" p]
        by (simp add: merged_item_done_def e)
    qed
  next
    case False
    then have i: "i < ?n" using that by simp
    have d: "merged_item_done dir src log (ms_items ms) i" using merged_doneD(2) [OF m i] .
    have up: "li_start (ms_items ?ms ! p) = li_start (ms_items ms ! p)" if "fst (log ! i) = Some p" for p
      using start [of p] entry_parent(1) [OF m i that] i by simp
    have same: "map (\<lambda>j. group_value src (fst (snd ((log @ [e]) ! j)))) (entries_under log p i) =
        map (\<lambda>j. group_value src (fst (snd (log ! j)))) (entries_under log p i)" for p
      using i by (auto simp: entries_under_def nth_append)
    have starts: "(case fst (log ! i) of None \<Rightarrow> 0
       | Some p \<Rightarrow> li_start (ms_items ?ms ! p) + sum_list (map (\<lambda>j. group_value src (fst (snd ((log @ [e]) ! j)))) (entries_under (log @ [e]) p i)))
      = li_start (ms_items ms ! i)"
    proof (cases "fst (log ! i)")
      case None
      with d show ?thesis by (simp add: merged_item_done_def)
    next
      case (Some p)
      have "entries_under (log @ [e]) p i = entries_under log p i" using i by (simp add: entries_under_append)
      with Some d show ?thesis by (simp only: merged_item_done_def option.case up [OF Some] same)
    qed
    have pre: "(log @ [e]) ! i = log ! i" and prev: "prev = fst e" using i by (simp_all add: nth_append e)
    show ?thesis
      unfolding merged_item_done_def length_append_singleton pre starts entries_under_snoc old [OF i] prev
      using d by (cases "fst e = Some i") (simp_all add: merged_item_done_def)
  qed
  moreover have "entry_fits (take i (log @ [e])) ((log @ [e]) ! i)" if "i < Suc ?n" for i
    using that fits merged_doneD(4) [OF m, of i] by (auto simp: nth_append less_Suc_eq)
  ultimately show ?thesis
    using len' merge_one_levels [OF m fits] unfolding merged_done_def by simp
qed

section \<open>The whole merge\<close>

abbreviation src_label :: "(nat \<Rightarrow> string) \<Rightarrow> level_item list \<Rightarrow> nat \<Rightarrow> string" where
  "src_label label src \<equiv> \<lambda>c. label (hd (li_indexes (src ! c)))"

abbreviation src_next :: "direction \<Rightarrow> level_item list \<Rightarrow> nat \<Rightarrow> nat list" where
  "src_next dir src \<equiv> \<lambda>c. next_of dir (src ! c)"

lemma next_groups_eq: "next_groups label dir src = groups_below (src_label label src) (src_next dir src)"
  by (simp add: next_groups_def groups_below_def fun_eq_iff)

text \<open>Every item weighs more than the items below it together, so the weight of the queue falls with each entry.\<close>

definition weighed :: "direction \<Rightarrow> level_item list \<Rightarrow> nat set \<Rightarrow> (nat \<Rightarrow> nat) \<Rightarrow> bool" where
  "weighed dir src R w \<longleftrightarrow> (\<forall>c \<in> R. set (src_next dir src c) \<subseteq> R \<and> sum_list (map w (src_next dir src c)) < w c)"

definition queue_weight :: "(nat \<Rightarrow> nat) \<Rightarrow> merge_entry list \<Rightarrow> nat" where
  "queue_weight w queue = sum_list (map (\<lambda>e. sum_list (map w (fst (snd e)))) queue)"

lemma sum_list_mset_eq: "mset xs = mset ys \<Longrightarrow> sum_list (map f xs) = sum_list (map f ys)" for f :: "'a \<Rightarrow> 'b::comm_monoid_add"
  by (metis mset_map sum_mset_sum_list)

lemma groups_total:
  fixes w :: "'a \<Rightarrow> 'b::comm_monoid_add"
  shows "sum_list (map (\<lambda>h. sum_list (map w h)) (groups_below lab nxt g)) = sum_list (map (\<lambda>c. sum_list (map w (nxt c))) g)"
proof -
  have concat: "sum_list (map w (concat gs)) = sum_list (map (\<lambda>h. sum_list (map w h)) gs)" for gs
    by (induction gs) simp_all
  have "sum_list (map w (concat (groups_below lab nxt g))) = sum_list (map w (concat (map nxt g)))"
    by (rule sum_list_mset_eq [OF mset_groups_below])
  then show ?thesis by (simp add: concat comp_def)
qed

lemma group_weight_less:
  assumes "weighed dir src R w" "set g \<subseteq> R" "g \<noteq> []"
  shows "sum_list (map (\<lambda>c. sum_list (map w (src_next dir src c))) g) < sum_list (map w g)"
  using assms(3,2)
proof (induction g rule: list_nonempty_induct)
  case (single c)
  with assms(1) show ?case by (simp add: weighed_def)
next
  case (cons c g)
  then have "sum_list (map w (src_next dir src c)) < w c" using assms(1) by (simp add: weighed_def)
  with cons show ?case by simp
qed

lemma merge_loop_done:
  assumes w: "weighed dir src R w"
  shows "queue_weight w queue \<le> n \<Longrightarrow> (\<And>e. e \<in> set queue \<Longrightarrow> fst (snd e) \<noteq> [] \<and> set (fst (snd e)) \<subseteq> R) \<Longrightarrow>
    logged (next_groups label dir src) roots log queue \<Longrightarrow> merged_done dir src log ms \<Longrightarrow>
    \<exists>log' ms'. merge_loop n label dir src queue ms = Some ms' \<and>
      logged (next_groups label dir src) roots log' [] \<and> merged_done dir src log' ms'"
proof (induction n arbitrary: queue log ms)
  case 0
  have "queue = []"
  proof (rule ccontr)
    assume "queue \<noteq> []"
    then obtain e q where q: "queue = e # q" by (cases queue) auto
    then have "sum_list (map w (fst (snd e))) = 0" "fst (snd e) \<noteq> []" "set (fst (snd e)) \<subseteq> R"
      using 0 by (simp_all add: queue_weight_def)
    with group_weight_less [OF w, of "fst (snd e)"] show False by simp
  qed
  with 0 show ?case by auto
next
  case (Suc n)
  show ?case
  proof (cases queue)
    case Nil
    with Suc.prems show ?thesis by auto
  next
    case (Cons e q)
    obtain prev g k where e: "e = (prev, g, k)" by (cases e) auto
    let ?below = "next_groups label dir src"
    let ?new = "entries_of ?below (length log) e"
    have g: "g \<noteq> []" "set g \<subseteq> R" using Suc.prems(2) [of e] Cons by (simp_all add: e)
    have "queue_weight w ?new < sum_list (map w g)"
      using group_weight_less [OF w g(2,1)] groups_total [of w "src_label label src" "src_next dir src" g]
      by (simp add: queue_weight_def entries_of_def e next_groups_eq comp_def)
    then have weight: "queue_weight w (q @ ?new) \<le> n"
      using Suc.prems(1) by (simp add: Cons queue_weight_def e)
    have below: "h \<noteq> [] \<and> set h \<subseteq> R" if "h \<in> set (?below g)" for h
    proof -
      have "set h \<subseteq> (\<Union>c \<in> set g. set (src_next dir src c))"
        using that set_groups_below [of "src_label label src" "src_next dir src" g] by (auto simp: next_groups_eq)
      also have "\<dots> \<subseteq> R" using g(2) w by (force simp: weighed_def)
      finally show ?thesis using that by (auto simp: next_groups_eq dest: groups_below_nonempty)
    qed
    have entries: "fst (snd e') \<noteq> [] \<and> set (fst (snd e')) \<subseteq> R" if e': "e' \<in> set (q @ ?new)" for e'
    proof (cases "e' \<in> set q")
      case True
      then show ?thesis by (intro Suc.prems(2)) (simp add: Cons)
    next
      case False
      then obtain h where "h \<in> set (?below g)" "fst (snd e') = h" using e' by (auto simp: entries_of_def e)
      with below show ?thesis by blast
    qed
    have "entry_fits log e"
      using logged_next [of ?below roots log e q] Suc.prems(3) by (auto simp: Cons entry_fits_def)
    then have "merged_done dir src (log @ [e]) (merge_one dir src e ms)" by (rule merge_one_done [OF Suc.prems(4)])
    moreover have "logged ?below roots (log @ [e]) (q @ ?new)" using Suc.prems(3) by (simp add: Cons logged_step)
    ultimately obtain log' ms' where "merge_loop n label dir src (q @ ?new) (merge_one dir src e ms) = Some ms'"
      "logged ?below roots log' []" "merged_done dir src log' ms'"
      using Suc.IH [OF weight entries] by blast
    then show ?thesis
      using merged_doneD(1) [OF Suc.prems(4)] by (auto simp: Cons e entries_of_def)
  qed
qed

text \<open>The entries of a level are the groups of that level.\<close>

lemma filter_concat: "filter P (concat xss) = concat (map (filter P) xss)"
  by (induction xss) simp_all

lemma filter_constant: "filter (\<lambda>_. P) xs = (if P then xs else [])"
  by simp

lemma logged_levels:
  assumes "logged (groups_below lab nxt) roots log []"
  shows "map (\<lambda>e. fst (snd e)) (filter (\<lambda>e. snd (snd e) = k) log) = group_level lab nxt roots k"
proof (induction k)
  case 0
  have "filter (\<lambda>e. snd (snd e) = 0) (offspring (groups_below lab nxt) log) = []"
    by (auto simp: filter_empty_conv in_offspring)
  moreover have "filter (\<lambda>e. snd (snd e) = 0) log = filter (\<lambda>e. snd (snd e) = 0) ((None, roots, 0) # offspring (groups_below lab nxt) log)"
    using assms by (simp add: logged_def)
  ultimately show ?case by simp
next
  case (Suc k)
  let ?below = "groups_below lab nxt"
  have "log = (None, roots, 0) # offspring ?below log" using assms by (simp only: logged_def append_Nil2)
  then have "filter (\<lambda>e. snd (snd e) = Suc k) log = filter (\<lambda>e. snd (snd e) = Suc k) ((None, roots, 0) # offspring ?below log)"
    by (rule arg_cong)
  also have "\<dots> = filter (\<lambda>e. snd (snd e) = Suc k) (offspring ?below log)" by simp
  finally have "map (\<lambda>e. fst (snd e)) (filter (\<lambda>e. snd (snd e) = Suc k) log) =
      concat (map (\<lambda>(i, e). if snd (snd e) = k then ?below (fst (snd e)) else []) (List.enumerate 0 log))"
    by (simp add: offspring_def filter_concat map_concat comp_def case_prod_unfold entries_of_def filter_map filter_constant
        if_distrib cong: if_cong)
  also have "\<dots> = concat (map (\<lambda>e. if snd (snd e) = k then ?below (fst (snd e)) else []) (map snd (List.enumerate 0 log)))"
    by (simp only: map_map comp_def case_prod_unfold)
  also have "\<dots> = concat (map ?below (map (\<lambda>e. fst (snd e)) (filter (\<lambda>e. snd (snd e) = k) log)))"
    by (simp only: map_snd_enumerate) (induction log; simp)
  finally show ?case using Suc.IH by simp
qed

lemma filter_offspring:
  "i < length log \<Longrightarrow> filter (\<lambda>e. fst e = Some i) (offspring below log) = entries_of below i (log ! i)"
proof (induction log rule: rev_induct)
  case (snoc e log)
  have other: "filter (\<lambda>e. fst e = Some i) (entries_of below j e) = (if j = i then entries_of below j e else [])" for j e
    by (auto simp: entries_of_def filter_empty_conv filter_id_conv)
  show ?case
  proof (cases "i < length log")
    case True
    with snoc show ?thesis by (simp add: offspring_snoc other nth_append)
  next
    case False
    then have i: "i = length log" using snoc.prems by simp
    have "filter (\<lambda>e. fst e = Some i) (offspring below log) = []"
      by (auto simp: filter_empty_conv in_offspring i)
    then show ?thesis using other [of i e] by (simp add: offspring_snoc i)
  qed
qed simp

lemma map_filter_nth: "map (\<lambda>j. f (xs ! j)) (filter (\<lambda>j. P (xs ! j)) [0..<length xs]) = map f (filter P xs)"
proof -
  have "filter P xs = filter P (map (\<lambda>j. xs ! j) [0..<length xs])" by (simp add: map_nth)
  then show ?thesis by (simp add: filter_map comp_def)
qed

lemma filter_upt_before:
  assumes "filter P [0..<n] = us @ c # vs"
  shows "filter P [0..<c] = us"
proof -
  have "c \<in> set (filter P [0..<n])" using assms by simp
  then have c: "c < n" "P c" by auto
  have "[0..<n] = [0..<c] @ [c..<n]"
    using c(1) upt_add_eq_append [of 0 c "n - c"] by simp
  then have "filter P [0..<n] = filter P [0..<c] @ c # filter P [Suc c..<n]"
    using c by (simp add: upt_conv_Cons)
  then have "us @ c # vs = filter P [0..<c] @ c # filter P [Suc c..<n]" using assms by simp
  moreover have "c \<notin> set us"
  proof -
    have "distinct (us @ c # vs)" using assms by (metis distinct_filter distinct_upt)
    then show ?thesis by simp
  qed
  moreover have "takeWhile (\<lambda>x. x \<noteq> c) (xs @ c # ys) = xs" if "c \<notin> set xs" for xs ys
    using that by (subst takeWhile_append2) auto
  ultimately show ?thesis by (metis atLeastLessThan_iff filter_is_subset less_irrefl set_upt subset_code(1))
qed

text \<open>The shape of the merge: \<open>grp\<close> gives the items that were merged into an item.\<close>

definition merged_shape ::
  "direction \<Rightarrow> (nat \<Rightarrow> string) \<Rightarrow> level_item list \<Rightarrow> nat list \<Rightarrow> (nat \<Rightarrow> nat list) \<Rightarrow> merge_state \<Rightarrow> bool" where
  "merged_shape dir label src roots grp ms \<longleftrightarrow>
     (\<forall>k < length (ms_levels ms). \<exists>as. ms_levels ms ! k = Some as \<and> distinct as \<and>
        (\<forall>a \<in> set as. a < length (ms_items ms) \<and> li_level (ms_items ms ! a) = k) \<and>
        map grp as = group_level (src_label label src) (src_next dir src) roots k) \<and>
     (\<forall>k. k < length (ms_levels ms) \<longleftrightarrow> group_level (src_label label src) (src_next dir src) roots k \<noteq> []) \<and>
     (\<forall>a < length (ms_items ms). li_level (ms_items ms ! a) < length (ms_levels ms) \<and>
        (\<exists>as. ms_levels ms ! li_level (ms_items ms ! a) = Some as \<and> a \<in> set as) \<and>
        li_value (ms_items ms ! a) = group_value src (grp a) \<and> li_value_right (ms_items ms ! a) = None \<and>
        li_indexes (ms_items ms ! a) = concat (map (\<lambda>c. li_indexes (src ! c)) (grp a)) \<and>
        (\<forall>c \<in> set (next_of dir (ms_items ms ! a)). c < length (ms_items ms)) \<and>
        map grp (next_of dir (ms_items ms ! a)) = next_groups label dir src (grp a) \<and>
        (\<forall>us c vs. next_of dir (ms_items ms ! a) = us @ c # vs \<longrightarrow>
           next_of (opposite dir) (ms_items ms ! c) = [a] \<and>
           li_level (ms_items ms ! c) = Suc (li_level (ms_items ms ! a)) \<and>
           li_start (ms_items ms ! c) = li_start (ms_items ms ! a) + sum_list (map (\<lambda>u. li_value (ms_items ms ! u)) us)))"

lemma merged_shape_level:
  assumes "merged_shape dir label src roots grp ms" "k < length (ms_levels ms)"
  obtains as where "ms_levels ms ! k = Some as" "distinct as"
    "\<And>a. a \<in> set as \<Longrightarrow> a < length (ms_items ms)" "\<And>a. a \<in> set as \<Longrightarrow> li_level (ms_items ms ! a) = k"
    "map grp as = group_level (src_label label src) (src_next dir src) roots k"
proof -
  obtain as where as: "ms_levels ms ! k = Some as \<and> distinct as \<and>
      (\<forall>a \<in> set as. a < length (ms_items ms) \<and> li_level (ms_items ms ! a) = k) \<and>
      map grp as = group_level (src_label label src) (src_next dir src) roots k"
    by (rule exE [OF assms(1) [unfolded merged_shape_def, THEN conjunct1, rule_format, OF assms(2)]])
  show thesis by (rule that [of as]) (use as in simp_all)
qed

lemma merged_shape_levels:
  assumes "merged_shape dir label src roots grp ms"
  shows "k < length (ms_levels ms) \<longleftrightarrow> group_level (src_label label src) (src_next dir src) roots k \<noteq> []"
  using assms unfolding merged_shape_def by blast

lemma merged_shape_item:
  assumes "merged_shape dir label src roots grp ms" "a < length (ms_items ms)"
  shows "li_level (ms_items ms ! a) < length (ms_levels ms)"
    "\<exists>as. ms_levels ms ! li_level (ms_items ms ! a) = Some as \<and> a \<in> set as"
    "li_value (ms_items ms ! a) = group_value src (grp a)" "li_value_right (ms_items ms ! a) = None"
    "li_indexes (ms_items ms ! a) = concat (map (\<lambda>c. li_indexes (src ! c)) (grp a))"
    "c \<in> set (next_of dir (ms_items ms ! a)) \<Longrightarrow> c < length (ms_items ms)"
    "map grp (next_of dir (ms_items ms ! a)) = next_groups label dir src (grp a)"
    "next_of dir (ms_items ms ! a) = us @ c # vs \<Longrightarrow> next_of (opposite dir) (ms_items ms ! c) = [a]"
    "next_of dir (ms_items ms ! a) = us @ c # vs \<Longrightarrow> li_level (ms_items ms ! c) = Suc (li_level (ms_items ms ! a))"
    "next_of dir (ms_items ms ! a) = us @ c # vs \<Longrightarrow>
      li_start (ms_items ms ! c) = li_start (ms_items ms ! a) + sum_list (map (\<lambda>u. li_value (ms_items ms ! u)) us)"
  using assms unfolding merged_shape_def by blast+

lemma merged_shape_group:
  assumes "merged_shape dir label src roots grp ms" "a < length (ms_items ms)"
  shows "grp a \<in> set (group_level (src_label label src) (src_next dir src) roots (li_level (ms_items ms ! a)))"
proof -
  obtain as where as: "ms_levels ms ! li_level (ms_items ms ! a) = Some as" "a \<in> set as"
    using merged_shape_item(2) [OF assms] by blast
  obtain as' where "ms_levels ms ! li_level (ms_items ms ! a) = Some as'"
    "map grp as' = group_level (src_label label src) (src_next dir src) roots (li_level (ms_items ms ! a))"
    using merged_shape_level [OF assms(1) merged_shape_item(1) [OF assms]] by blast
  with as show ?thesis by (metis image_eqI list.set_map option.inject)
qed

lemma merged_itemD:
  assumes "merged_item_done dir src log items i"
  shows "li_value (items ! i) = group_value src (fst (snd (log ! i)))"
    "li_indexes (items ! i) = concat (map (\<lambda>c. li_indexes (src ! c)) (fst (snd (log ! i))))"
    "li_level (items ! i) = snd (snd (log ! i))"
    "next_of (opposite dir) (items ! i) = (case fst (log ! i) of None \<Rightarrow> [] | Some p \<Rightarrow> [p])"
    "li_start (items ! i) = (case fst (log ! i) of None \<Rightarrow> 0
       | Some p \<Rightarrow> li_start (items ! p) + sum_list (map (\<lambda>j. group_value src (fst (snd (log ! j)))) (entries_under log p i)))"
  using assms by (simp_all only: merged_item_done_def)

lemma merged_loop_shape:
  assumes log: "logged (next_groups label dir src) roots log []" and m: "merged_done dir src log ms"
  shows "merged_shape dir label src roots (\<lambda>a. fst (snd (log ! a))) ms"
proof -
  let ?grp = "\<lambda>a. fst (snd (log ! a))" and ?level = "\<lambda>a. snd (snd (log ! a))" and ?n = "length log"
  note lv = merged_doneD(3) [OF m]
  have level: "map ?grp (pushed_at ?level k ?n) = group_level (src_label label src) (src_next dir src) roots k" for k
    using logged_levels [OF log [unfolded next_groups_eq], of k] map_filter_nth [of "\<lambda>e. fst (snd e)" log "\<lambda>e. snd (snd e) = k"]
    by (simp add: pushed_at_def)
  have nonempty: "k < length (ms_levels ms) \<longleftrightarrow> group_level (src_label label src) (src_next dir src) roots k \<noteq> []" for k
    using level [of k] levels_done_at(2) [OF lv, of k] nothing_beyond [OF lv, of k] by (metis list.map_disc_iff not_le)
  have item: "merged_item_done dir src log (ms_items ms) a" if "a < ?n" for a using merged_doneD(2) [OF m that] .
  have under: "next_of dir (ms_items ms ! a) = filter (\<lambda>j. fst (log ! j) = Some a) [0..<?n]" if "a < ?n" for a
    using item [OF that] by (simp add: merged_item_done_def entries_under_def)
  have groups: "map ?grp (next_of dir (ms_items ms ! a)) = next_groups label dir src (?grp a)" if a: "a < ?n" for a
  proof -
    have "log = (None, roots, 0) # offspring (next_groups label dir src) log" using log by (simp only: logged_def append_Nil2)
    then have "filter (\<lambda>e. fst e = Some a) log = filter (\<lambda>e. fst e = Some a) ((None, roots, 0) # offspring (next_groups label dir src) log)"
      by (rule arg_cong)
    also have "\<dots> = entries_of (next_groups label dir src) a (log ! a)" using filter_offspring [OF a] by simp
    finally show ?thesis
      using map_filter_nth [of "\<lambda>e. fst (snd e)" log "\<lambda>e. fst e = Some a"] by (simp add: under [OF a] entries_of_def comp_def)
  qed
  have child: "next_of (opposite dir) (ms_items ms ! c) = [a] \<and> li_level (ms_items ms ! c) = Suc (li_level (ms_items ms ! a)) \<and>
      li_start (ms_items ms ! c) = li_start (ms_items ms ! a) + sum_list (map (\<lambda>u. li_value (ms_items ms ! u)) us)"
    if a: "a < ?n" and split: "next_of dir (ms_items ms ! a) = us @ c # vs" for a us c vs
  proof -
    have "c \<in> set (filter (\<lambda>j. fst (log ! j) = Some a) [0..<?n])" using split under [OF a] by simp
    then have c: "c < ?n" "fst (log ! c) = Some a" by auto
    have us: "entries_under log a c = us"
      using filter_upt_before [OF trans [OF under [OF a, symmetric] split]] by (simp only: entries_under_def)
    have "u < ?n" if "u \<in> set us" for u
    proof -
      have "u \<in> set (entries_under log a c)" using that us by simp
      then have "u < c" by (simp add: entries_under_def)
      with c(1) show ?thesis by simp
    qed
    then have same: "map (\<lambda>j. group_value src (?grp j)) us = map (\<lambda>u. li_value (ms_items ms ! u)) us"
      by (intro map_cong refl) (simp only: merged_itemD(1) [OF item])
    show ?thesis
      unfolding merged_itemD [OF item [OF c(1)]] merged_itemD(3) [OF item [OF a]] c(2) option.case us same entry_parent(2) [OF m c]
      by simp
  qed
  show ?thesis
    unfolding merged_shape_def merged_doneD(1) [OF m]
  proof (intro conjI allI impI)
    fix k assume k: "k < length (ms_levels ms)"
    show "\<exists>as. ms_levels ms ! k = Some as \<and> distinct as \<and> (\<forall>a \<in> set as. a < ?n \<and> li_level (ms_items ms ! a) = k) \<and>
        map ?grp as = group_level (src_label label src) (src_next dir src) roots k"
      using levels_done_at(1) [OF lv k] level [of k] item
      by (intro exI [of _ "pushed_at ?level k ?n"]) (auto simp: in_pushed_at merged_item_done_def pushed_at_def)
  next
    fix a assume a: "a < ?n"
    show "li_level (ms_items ms ! a) < length (ms_levels ms)"
      using levels_done_at(3) [OF lv a] item [OF a] by (simp add: merged_item_done_def)
    show "\<exists>as. ms_levels ms ! li_level (ms_items ms ! a) = Some as \<and> a \<in> set as"
      using levels_done_at(1) [OF lv levels_done_at(3) [OF lv a]] a
      by (simp add: merged_itemD(3) [OF item [OF a]] in_pushed_at)
    show "\<forall>c \<in> set (next_of dir (ms_items ms ! a)). c < ?n" by (simp add: under [OF a])
  qed (use nonempty item groups child in \<open>auto simp: merged_item_done_def\<close>)
qed

lemma merge_loop_shape:
  assumes "weighed dir src R w" and "set roots \<subseteq> R" "roots \<noteq> []" and "sum_list (map w roots) \<le> n"
  shows "\<exists>ms grp. merge_loop n label dir src [(None, roots, 0)] \<lparr>ms_items = [], ms_levels = []\<rparr> = Some ms \<and>
    merged_shape dir label src roots grp ms"
proof -
  let ?none = "\<lparr>ms_items = [], ms_levels = []\<rparr>"
  have start: "merged_done dir src [] ?none" by (simp add: merged_done_def)
  have weight: "queue_weight w [(None, roots, 0)] \<le> n" using assms(4) by (simp add: queue_weight_def)
  have "fst (snd e) \<noteq> [] \<and> set (fst (snd e)) \<subseteq> R" if "e \<in> set [(None, roots, 0)]" for e :: merge_entry
    using that assms(2,3) by simp
  from merge_loop_done [OF assms(1) weight this logged_start start] merged_loop_shape show ?thesis by blast
qed

end
