(* ===== verification/Flame_Sandwich.thy ===== *)
theory Flame_Sandwich
  imports Flame_Groups
begin

text \<open>
  The sandwich view of a nested set. The callees of a label are its occurrences merged with everything below them, level by
  level; the callers are the copied chains of parents, where a copy keeps the value of the occurrence it leads to, so that
  the callers at each distance add up to the occurrences that have callers so far away.
\<close>

section \<open>Callees\<close>

function subtree_rows :: "nat list \<Rightarrow> nat \<Rightarrow> nat" where
  "subtree_rows ls i = Suc (sum_list (map (\<lambda>c. if i < c \<and> c < length ls then subtree_rows ls c else 0) (rows_under ls i (length ls))))"
  by auto
termination by (relation "measure (\<lambda>(ls, i). length ls - i)") auto

declare subtree_rows.simps [simp del]

lemma rows_under_range: "c \<in> set (rows_under ls i n) \<Longrightarrow> i < c \<and> c < n"
  by (simp add: in_rows_under row_parent_Some)

lemma subtree_rows_eq: "subtree_rows ls i = Suc (sum_list (map (subtree_rows ls) (rows_under ls i (length ls))))"
proof -
  have "map (\<lambda>c. if i < c \<and> c < length ls then subtree_rows ls c else 0) (rows_under ls i (length ls)) =
      map (subtree_rows ls) (rows_under ls i (length ls))"
    by (intro map_cong refl) (auto dest: rows_under_range)
  then show ?thesis by (subst subtree_rows.simps) (simp only:)
qed

lemma weighed_rows:
  assumes "rows_done d (fd_rows d) s"
  shows "weighed Children (fs_items s) {..<fd_rows d} (subtree_rows (fd_level d))"
  unfolding weighed_def
proof (intro ballI conjI)
  fix c assume "c \<in> {..<fd_rows d}"
  then have c: "next_of Children (fs_items s ! c) = rows_under (fd_level d) c (fd_rows d)"
    using rows_done_item(6) [OF assms] by simp
  show "set (next_of Children (fs_items s ! c)) \<subseteq> {..<fd_rows d}" unfolding c using rows_under_range by blast
  show "sum_list (map (subtree_rows (fd_level d)) (next_of Children (fs_items s ! c))) < subtree_rows (fd_level d) c"
    unfolding c using subtree_rows_eq [of "fd_level d" c] by simp
qed

text \<open>The groups of rows that are merged at a level below the occurrences.\<close>

definition callee_groups :: "flame_data \<Rightarrow> nat list \<Rightarrow> nat \<Rightarrow> nat list list" where
  "callee_groups d = group_level (get_label d) (\<lambda>i. rows_under (fd_level d) i (fd_rows d))"

lemma src_groups:
  assumes s: "rows_done d (fd_rows d) s" and roots: "set roots \<subseteq> {..<fd_rows d}"
  shows "group_level (src_label (get_label d) (fs_items s)) (src_next Children (fs_items s)) roots k = callee_groups d roots k"
    and "g \<in> set (callee_groups d roots k) \<Longrightarrow> set g \<subseteq> {..<fd_rows d}"
proof -
  let ?nxt = "\<lambda>i. rows_under (fd_level d) i (fd_rows d)"
  have closed: "set (?nxt i) \<subseteq> {..<fd_rows d}" for i using rows_under_range by auto
  have "group_level (src_label (get_label d) (fs_items s)) (src_next Children (fs_items s)) (map (\<lambda>i. i) roots) k =
      map (map (\<lambda>i. i)) (callee_groups d roots k)"
    unfolding callee_groups_def
    by (rule group_level_map [OF roots closed]) (simp_all add: rows_done_item [OF s])
  then show "group_level (src_label (get_label d) (fs_items s)) (src_next Children (fs_items s)) roots k = callee_groups d roots k"
    by simp
  show "g \<in> set (callee_groups d roots k) \<Longrightarrow> set g \<subseteq> {..<fd_rows d}"
    unfolding callee_groups_def by (rule group_level_closed [OF roots closed])
qed

lemma group_row_fields:
  assumes s: "rows_done d (fd_rows d) s" and g: "set g \<subseteq> {..<fd_rows d}"
  shows "group_value (fs_items s) g = sum_list (map (row_total d) g)"
    and "concat (map (\<lambda>c. li_indexes (fs_items s ! c)) g) = g"
    and "next_groups (get_label d) Children (fs_items s) g = groups_below (get_label d) (\<lambda>i. rows_under (fd_level d) i (fd_rows d)) g"
proof -
  show "group_value (fs_items s) g = sum_list (map (row_total d) g)"
    unfolding group_value_def using g rows_done_item(1) [OF s] by (intro arg_cong [where f = sum_list] map_cong) auto
  show "concat (map (\<lambda>c. li_indexes (fs_items s ! c)) g) = g"
    using g rows_done_item(2) [OF s] by (induction g) auto
  have "groups_below (src_label (get_label d) (fs_items s)) (src_next Children (fs_items s)) (map (\<lambda>i. i) g) =
      map (map (\<lambda>i. i)) (groups_below (get_label d) (\<lambda>i. rows_under (fd_level d) i (fd_rows d)) g)"
    using g rows_under_range by (intro groups_below_map) (force simp: rows_done_item [OF s])+
  then show "next_groups (get_label d) Children (fs_items s) g = groups_below (get_label d) (\<lambda>i. rows_under (fd_level d) i (fd_rows d)) g"
    by (simp add: next_groups_eq)
qed

lemma merged_rows:
  assumes s: "rows_done d (fd_rows d) s" and roots: "set roots \<subseteq> {..<fd_rows d}"
    and shape: "merged_shape Children (get_label d) (fs_items s) roots grp ms" and a: "a < length (ms_items ms)"
  shows "set (grp a) \<subseteq> {..<fd_rows d}" "li_indexes (ms_items ms ! a) = grp a"
    "li_value (ms_items ms ! a) = sum_list (map (row_total d) (grp a))"
    "map grp (li_children (ms_items ms ! a)) = groups_below (get_label d) (\<lambda>i. rows_under (fd_level d) i (fd_rows d)) (grp a)"
proof -
  show rows: "set (grp a) \<subseteq> {..<fd_rows d}"
    using merged_shape_group [OF shape a] src_groups [OF s roots] by (simp only:)
  note item = merged_shape_item [OF shape a] and row = group_row_fields [OF s rows]
  show "li_indexes (ms_items ms ! a) = grp a" using item(5) row(2) by simp
  show "li_value (ms_items ms ! a) = sum_list (map (row_total d) (grp a))" using item(3) row(1) by simp
  show "map grp (li_children (ms_items ms ! a)) = groups_below (get_label d) (\<lambda>i. rows_under (fd_level d) i (fd_rows d)) (grp a)"
    using item(7) row(3) by simp
qed

lemma callees_shape:
  assumes s: "rows_done d (fd_rows d) s" and "roots \<noteq> []" and "set roots \<subseteq> {..<fd_rows d}"
    and "sum_list (map (subtree_rows (fd_level d)) roots) \<le> n"
  shows "\<exists>ms grp. merge_subtrees n (get_label d) Children (fs_items s) roots = Some ms \<and>
    merged_shape Children (get_label d) (fs_items s) roots grp ms"
proof -
  obtain ms grp where "merge_loop n (get_label d) Children (fs_items s) [(None, roots, 0)] \<lparr>ms_items = [], ms_levels = []\<rparr> = Some ms"
    "merged_shape Children (get_label d) (fs_items s) roots grp ms"
    using merge_loop_shape [OF weighed_rows [OF s] assms(3,2,4)] by blast
  then show ?thesis by (auto simp: merge_subtrees_def)
qed

text \<open>
  C28. Merging occurrences with everything below them takes no more steps than there are rows below the occurrences, and
  gives a level of the merged tree for every level of the specification: the groups of one level are the groups of rows
  with the same label below each group of the level above. An item has the rows of its group, their total value, one child
  for each group below it, and each child starts where the children before it end.
\<close>

theorem callees_are_merged_by_level:
  assumes "nested_set (fd_level d)" and "nested_set_to_levels d = Inr s"
    and "roots \<noteq> []" and "set roots \<subseteq> {..<fd_rows d}" and "sum_list (map (subtree_rows (fd_level d)) roots) \<le> n"
  shows "\<exists>ms. merge_subtrees n (get_label d) Children (fs_items s) roots = Some ms \<and>
    (\<forall>k. k < length (ms_levels ms) \<longleftrightarrow> callee_groups d roots k \<noteq> []) \<and>
    (\<forall>k < length (ms_levels ms). \<exists>as. ms_levels ms ! k = Some as \<and>
       map (\<lambda>a. li_indexes (ms_items ms ! a)) as = callee_groups d roots k \<and> (\<forall>a \<in> set as. li_level (ms_items ms ! a) = k)) \<and>
    (\<forall>a < length (ms_items ms). let it = ms_items ms ! a in
       li_value it = sum_list (map (row_total d) (li_indexes it)) \<and>
       map (\<lambda>c. li_indexes (ms_items ms ! c)) (li_children it) =
         groups_below (get_label d) (\<lambda>i. rows_under (fd_level d) i (fd_rows d)) (li_indexes it) \<and>
       (\<forall>us c vs. li_children it = us @ c # vs \<longrightarrow> next_of Parents (ms_items ms ! c) = [a] \<and>
          li_start (ms_items ms ! c) = li_start it + sum_list (map (\<lambda>u. li_value (ms_items ms ! u)) us)))"
proof -
  have s: "rows_done d (fd_rows d) s" using nested_set_done [OF assms(1)] assms(2) by auto
  obtain ms grp where ms: "merge_subtrees n (get_label d) Children (fs_items s) roots = Some ms"
    and shape: "merged_shape Children (get_label d) (fs_items s) roots grp ms"
    using callees_shape [OF s assms(3-5)] by blast
  note level = merged_shape_level [OF shape, unfolded src_groups(1) [OF s assms(4)]]
  note item = merged_shape_item [OF shape] and rows = merged_rows [OF s assms(4) shape]
  have "\<exists>as. ms_levels ms ! k = Some as \<and> map (\<lambda>a. li_indexes (ms_items ms ! a)) as = callee_groups d roots k \<and>
      (\<forall>a \<in> set as. li_level (ms_items ms ! a) = k)" if "k < length (ms_levels ms)" for k
  proof (rule level [OF that])
    fix as assume as: "ms_levels ms ! k = Some as" "\<And>a. a \<in> set as \<Longrightarrow> a < length (ms_items ms)"
      "\<And>a. a \<in> set as \<Longrightarrow> li_level (ms_items ms ! a) = k" "map grp as = callee_groups d roots k"
    then have "map (\<lambda>a. li_indexes (ms_items ms ! a)) as = map grp as" using rows(2) by (intro map_cong) auto
    with as show ?thesis by auto
  qed
  moreover have "let it = ms_items ms ! a in
       li_value it = sum_list (map (row_total d) (li_indexes it)) \<and>
       map (\<lambda>c. li_indexes (ms_items ms ! c)) (li_children it) =
         groups_below (get_label d) (\<lambda>i. rows_under (fd_level d) i (fd_rows d)) (li_indexes it) \<and>
       (\<forall>us c vs. li_children it = us @ c # vs \<longrightarrow> next_of Parents (ms_items ms ! c) = [a] \<and>
          li_start (ms_items ms ! c) = li_start it + sum_list (map (\<lambda>u. li_value (ms_items ms ! u)) us))"
    if a: "a < length (ms_items ms)" for a
  proof -
    have "map (\<lambda>c. li_indexes (ms_items ms ! c)) (li_children (ms_items ms ! a)) = map grp (li_children (ms_items ms ! a))"
      using item(6) [OF a] rows(2) by (intro map_cong) auto
    then show ?thesis
      using item(8,10) [OF a] rows(2-4) [OF a] by (simp only: Let_def next_of.simps opposite.simps) simp
  qed
  ultimately show ?thesis
    using ms merged_shape_levels [OF shape, unfolded src_groups(1) [OF s assms(4)]]
    by (intro exI [of _ ms]) simp
qed

lemma callees_are_merged_by_level_witness:
  "\<exists>s ms. nested_set_to_levels sample_flame = Inr s \<and>
     merge_subtrees 4 (get_label sample_flame) Children (fs_items s) [1, 3] = Some ms \<and>
     length (ms_levels ms) = 2 \<and> callee_groups sample_flame [1, 3] 1 = [[2], [4]]"
proof -
  obtain s where s: "nested_set_to_levels sample_flame = Inr s" using nested_set_done [OF sample_flame_nested] by blast
  have groups: "callee_groups sample_flame [1, 3] 1 = [[2], [4]]" "callee_groups sample_flame [1, 3] 2 = []"
    by code_simp+
  have "sum_list (map (subtree_rows (fd_level sample_flame)) [1, 3]) \<le> 4" by code_simp
  then obtain ms where ms: "merge_subtrees 4 (get_label sample_flame) Children (fs_items s) [1, 3] = Some ms"
    and levels: "\<And>k. k < length (ms_levels ms) \<longleftrightarrow> callee_groups sample_flame [1, 3] k \<noteq> []"
    using callees_are_merged_by_level [OF sample_flame_nested s, of "[1, 3]" 4] by (auto simp: sample_flame_def)
  have "1 < length (ms_levels ms)" "\<not> 2 < length (ms_levels ms)" using groups levels by auto
  with s ms groups show ?thesis by (intro exI [of _ s] exI [of _ ms]) simp
qed

text \<open>
  When no row is smaller than its children together, every merged callee lies within the item it is called from, and
  the callees of an item lie side by side.
\<close>

theorem merged_callees_fit:
  assumes "nested_set (fd_level d)" and "rows_fit d" and "nested_set_to_levels d = Inr s"
    and "roots \<noteq> []" and "set roots \<subseteq> {..<fd_rows d}" and "sum_list (map (subtree_rows (fd_level d)) roots) \<le> n"
  shows "\<exists>ms. merge_subtrees n (get_label d) Children (fs_items s) roots = Some ms \<and>
    (\<forall>a < length (ms_items ms). \<forall>us c vs. li_children (ms_items ms ! a) = us @ c # vs \<longrightarrow>
       li_start (ms_items ms ! a) \<le> li_start (ms_items ms ! c) \<and>
       li_start (ms_items ms ! c) + li_value (ms_items ms ! c) \<le> li_start (ms_items ms ! a) + li_value (ms_items ms ! a) \<and>
       (\<forall>u \<in> set us. li_start (ms_items ms ! u) + li_value (ms_items ms ! u) \<le> li_start (ms_items ms ! c)))"
proof -
  have s: "rows_done d (fd_rows d) s" using nested_set_done [OF assms(1)] assms(3) by auto
  obtain ms grp where ms: "merge_subtrees n (get_label d) Children (fs_items s) roots = Some ms"
    and shape: "merged_shape Children (get_label d) (fs_items s) roots grp ms"
    using callees_shape [OF s assms(4-6)] by blast
  note item = merged_shape_item [OF shape] and rows = merged_rows [OF s assms(5) shape]
  let ?nxt = "\<lambda>i. rows_under (fd_level d) i (fd_rows d)" and ?val = "\<lambda>a. li_value (ms_items ms ! a)"
  have nonneg: "0 \<le> ?val a" if "a < length (ms_items ms)" for a
    using rows(1,3) [OF that] totals_nonneg [OF assms(2), of "grp a"] by force
  have total: "sum_list (map ?val (li_children (ms_items ms ! a))) \<le> ?val a" if a: "a < length (ms_items ms)" for a
  proof -
    have "map ?val (li_children (ms_items ms ! a)) = map (\<lambda>g. sum_list (map (row_total d) g)) (map grp (li_children (ms_items ms ! a)))"
      using rows(3) item(6) [OF a] by simp
    also have "sum_list \<dots> = sum_list (map (\<lambda>i. sum_list (map (row_total d) (?nxt i))) (grp a))"
      unfolding rows(4) [OF a] by (rule groups_total)
    also have "\<dots> \<le> sum_list (map (row_total d) (grp a))"
      using rows(1) [OF a] assms(2) by (intro sum_list_mono) (auto simp: rows_fit_def)
    finally show ?thesis by (simp add: rows(3) [OF a])
  qed
  have "li_start (ms_items ms ! a) \<le> li_start (ms_items ms ! c) \<and>
      li_start (ms_items ms ! c) + ?val c \<le> li_start (ms_items ms ! a) + ?val a \<and>
      (\<forall>u \<in> set us. li_start (ms_items ms ! u) + ?val u \<le> li_start (ms_items ms ! c))"
    if a: "a < length (ms_items ms)" and split: "li_children (ms_items ms ! a) = us @ c # vs" for a us c vs
  proof -
    have kids: "x < length (ms_items ms)" if "x \<in> set us \<union> {c} \<union> set vs" for x
      using item(6) [OF a, of x] that by (auto simp: split)
    then have pos: "x \<in> set us \<union> {c} \<union> set vs \<Longrightarrow> 0 \<le> ?val x" for x using nonneg by blast
    have sums: "0 \<le> sum_list (map ?val us)" "0 \<le> sum_list (map ?val vs)"
      using pos by (auto intro!: sum_list_nonneg)
    have c: "li_start (ms_items ms ! c) = li_start (ms_items ms ! a) + sum_list (map ?val us)"
      using item(10) [OF a] split by simp
    have "li_start (ms_items ms ! u) + ?val u \<le> li_start (ms_items ms ! c)" if u: "u \<in> set us" for u
    proof -
      obtain xs ys where us: "us = xs @ u # ys" using split_list [OF u] by blast
      then have "li_start (ms_items ms ! u) = li_start (ms_items ms ! a) + sum_list (map ?val xs)"
        using item(10) [OF a, of xs u "ys @ c # vs"] split by simp
      moreover have "0 \<le> sum_list (map ?val ys)" using pos us by (auto intro!: sum_list_nonneg)
      ultimately show ?thesis by (simp add: c us)
    qed
    then show ?thesis using c sums total [OF a] by (simp add: split)
  qed
  with ms show ?thesis by blast
qed

lemma merged_callees_fit_witness:
  "\<exists>s ms. nested_set_to_levels sample_flame = Inr s \<and>
     merge_subtrees 5 (get_label sample_flame) Children (fs_items s) [0] = Some ms"
proof -
  have fit: "rows_fit sample_flame" by (rule sample_flame_fits)
  obtain s where s: "nested_set_to_levels sample_flame = Inr s" using nested_set_done [OF sample_flame_nested] by blast
  have "sum_list (map (subtree_rows (fd_level sample_flame)) [0]) \<le> 5" by code_simp
  with merged_callees_fit [OF sample_flame_nested fit s, of "[0]" 5] s show ?thesis by (auto simp: sample_flame_def)
qed

end
