(* ===== verification/Flame_Callers.thy ===== *)
theory Flame_Callers
  imports Flame_Sandwich
begin

text \<open>
  The callers of the sandwich view. The parents of an occurrence are copied up to the root, and each copy keeps the value of
  the occurrence; merging the copies towards the root therefore gives every caller the total of the occurrences it leads
  to.
\<close>

section \<open>Chains of copies\<close>

definition rows_kept :: "flame_data \<Rightarrow> level_item list \<Rightarrow> bool" where
  "rows_kept d items \<longleftrightarrow> fd_rows d \<le> length items \<and>
     (\<forall>r < fd_rows d. li_value (items ! r) = row_total d r \<and> li_indexes (items ! r) = [r] \<and>
        li_parents (items ! r) = map_option (\<lambda>p. [p]) (row_parent (fd_level d) r))"

text \<open>The copies, and the rows without a parent, which are never copied.\<close>

definition copies :: "flame_data \<Rightarrow> level_item list \<Rightarrow> nat set" where
  "copies d items = {c. fd_rows d \<le> c \<and> c < length items} \<union> {r. r < fd_rows d \<and> row_parent (fd_level d) r = None}"

definition copy_of :: "flame_data \<Rightarrow> level_item list \<Rightarrow> nat \<Rightarrow> nat \<Rightarrow> bool" where
  "copy_of d items c r \<longleftrightarrow> r < fd_rows d \<and> li_indexes (items ! c) = [r] \<and>
     (case row_parent (fd_level d) r of
        None \<Rightarrow> next_of Parents (items ! c) = []
      | Some p \<Rightarrow> (\<exists>c' \<in> copies d items. next_of Parents (items ! c) = [c'] \<and>
          li_value (items ! c') = li_value (items ! c) \<and> li_indexes (items ! c') = [p]))"

definition all_copied :: "flame_data \<Rightarrow> level_item list \<Rightarrow> nat set \<Rightarrow> bool" where
  "all_copied d items except \<longleftrightarrow> rows_kept d items \<and> (\<forall>c \<in> copies d items - except. \<exists>r. copy_of d items c r)"

lemma rows_keptD:
  assumes "rows_kept d items"
  shows "fd_rows d \<le> length items" "r < fd_rows d \<Longrightarrow> li_value (items ! r) = row_total d r"
    "r < fd_rows d \<Longrightarrow> li_indexes (items ! r) = [r]"
    "r < fd_rows d \<Longrightarrow> li_parents (items ! r) = map_option (\<lambda>p. [p]) (row_parent (fd_level d) r)"
  using assms by (simp_all add: rows_kept_def)

lemma rows_done_kept: "rows_done d (fd_rows d) s \<Longrightarrow> rows_kept d (fs_items s)"
proof -
  assume s: "rows_done d (fd_rows d) s"
  then have "length (fs_items s) = fd_rows d" by (simp add: rows_done_def)
  then show "rows_kept d (fs_items s)" unfolding rows_kept_def using rows_done_item(1,2,5) [OF s] by simp
qed

lemma rows_done_copied:
  assumes "rows_done d (fd_rows d) s"
  shows "all_copied d (fs_items s) {}"
proof -
  have "length (fs_items s) = fd_rows d" using assms by (simp add: rows_done_def)
  then have "c \<in> copies d (fs_items s) \<Longrightarrow> copy_of d (fs_items s) c c" for c
    using rows_done_item(2,5) [OF assms, of c] by (auto simp: copies_def copy_of_def)
  with rows_done_kept [OF assms] show ?thesis by (auto simp: all_copied_def)
qed

definition same_items :: "level_item list \<Rightarrow> level_item list \<Rightarrow> bool" where
  "same_items items items' \<longleftrightarrow> length items \<le> length items' \<and>
     (\<forall>b < length items. li_value (items' ! b) = li_value (items ! b) \<and> li_indexes (items' ! b) = li_indexes (items ! b))"

lemma same_itemsD:
  assumes "same_items items items'"
  shows "length items \<le> length items'" "b < length items \<Longrightarrow> li_value (items' ! b) = li_value (items ! b)"
    "b < length items \<Longrightarrow> li_indexes (items' ! b) = li_indexes (items ! b)"
  using assms by (simp_all add: same_items_def)

lemma same_items_trans: "same_items a b \<Longrightarrow> same_items b c \<Longrightarrow> same_items a c"
  by (simp add: same_items_def)

lemma in_copies_less: "rows_kept d items \<Longrightarrow> c \<in> copies d items \<Longrightarrow> c < length items"
  by (auto simp: copies_def rows_kept_def)

lemma copies_mono: "length items \<le> length items' \<Longrightarrow> copies d items \<subseteq> copies d items'"
  by (auto simp: copies_def)

text \<open>A copy stays one when the parents of another item change and items are added.\<close>

lemma copy_of_mono:
  assumes c: "copy_of d items c r" "c \<in> copies d items" and kept: "rows_kept d items" and same: "same_items items items'"
    and par: "li_parents (items' ! c) = li_parents (items ! c)"
  shows "copy_of d items' c r"
proof -
  note less = in_copies_less [OF kept]
  have idx: "li_indexes (items' ! c) = [r]" using c same_itemsD(3) [OF same less [OF c(2)]] by (simp add: copy_of_def)
  show ?thesis
  proof (cases "row_parent (fd_level d) r")
    case None
    with c par idx show ?thesis by (simp add: copy_of_def)
  next
    case (Some p)
    then obtain c' where c': "c' \<in> copies d items" "next_of Parents (items ! c) = [c']"
      "li_value (items ! c') = li_value (items ! c)" "li_indexes (items ! c') = [p]"
      using c(1) by (auto simp: copy_of_def)
    then have "c' \<in> copies d items'" using copies_mono [OF same_itemsD(1) [OF same]] by blast
    moreover have "next_of Parents (items' ! c) = [c']" using c'(2) par by simp
    moreover have "li_value (items' ! c') = li_value (items' ! c)"
      using same_itemsD(2) [OF same] less c'(1,3) c(2) by simp
    moreover have "li_indexes (items' ! c') = [p]" using same_itemsD(3) [OF same] less c'(1,4) by simp
    ultimately show ?thesis using Some c(1) idx unfolding copy_of_def by (simp only: option.case) blast
  qed
qed

lemma chain_loop_copied:
  "all_copied d items {c} \<Longrightarrow> c \<in> copies d items \<Longrightarrow> fd_rows d \<le> c \<Longrightarrow> li_indexes (items ! c) = [x] \<Longrightarrow> x < fd_rows d \<Longrightarrow>
    row_parent (fd_level d) x = Some p \<Longrightarrow> p < n \<Longrightarrow>
    \<exists>items'. chain_loop n [(c, p)] items = Some items' \<and> all_copied d items' {} \<and> same_items items items'"
proof (induction n arbitrary: items c x p)
  case (Suc n)
  note kept = Suc.prems(1) [unfolded all_copied_def, THEN conjunct1]
  note others = Suc.prems(1) [unfolded all_copied_def, THEN conjunct2, rule_format]
  let ?a = "length items" and ?old = "items ! p"
  let ?node = "?old\<lparr>li_value := li_value (items ! c), li_children := [c], li_parents := Some []\<rparr>"
  let ?items = "items[c := (items ! c)\<lparr>li_parents := Some [?a]\<rparr>] @ [?node]"
  have p: "p < fd_rows d" using Suc.prems(5,6) by (simp add: row_parent_Some)
  have c: "c < ?a" using in_copies_less [OF kept Suc.prems(2)] .
  have len: "fd_rows d \<le> ?a" "length ?items = Suc ?a" using rows_keptD(1) [OF kept] by simp_all
  have at: "?items ! b = (if b = c then (items ! c)\<lparr>li_parents := Some [?a]\<rparr> else items ! b)" if "b < ?a" for b
    using that by (simp add: nth_append nth_list_update)
  have new: "?items ! ?a = ?node" by (simp add: nth_append)
  have same: "same_items items ?items" using at by (auto simp: same_items_def)
  have kept': "rows_kept d ?items"
    using kept Suc.prems(3) len at by (auto simp: rows_kept_def)
  have a_in: "?a \<in> copies d ?items" using len by (simp add: copies_def)
  have copied: "\<exists>r. copy_of d ?items b r" if b: "b \<in> copies d ?items" "b \<noteq> ?a" for b
  proof -
    have b': "b \<in> copies d items" using b len by (auto simp: copies_def)
    show ?thesis
    proof (cases "b = c")
      case True
      have "copy_of d ?items c x"
        using Suc.prems(4-6) at [OF c] new rows_keptD(3) [OF kept p] a_in by (auto simp: copy_of_def)
      with True show ?thesis by blast
    next
      case False
      then obtain r where r: "copy_of d items b r" using others b' by blast
      have "li_parents (?items ! b) = li_parents (items ! b)" using at [of b] False in_copies_less [OF kept b'] by simp
      with copy_of_mono [OF r b' kept same] show ?thesis by blast
    qed
  qed
  have indexes: "li_indexes (?items ! ?a) = [p]" using new rows_keptD(3) [OF kept p] by simp
  show ?case
  proof (cases "row_parent (fd_level d) p")
    case None
    then have "copy_of d ?items ?a p" using indexes new p by (simp add: copy_of_def)
    then have "all_copied d ?items {}" using kept' copied by (auto simp: all_copied_def)
    moreover have "chain_loop (Suc n) [(c, p)] items = Some ?items"
      using None rows_keptD(4) [OF kept p] by (simp add: Let_def)
    ultimately show ?thesis using same by blast
  next
    case (Some q)
    have "all_copied d ?items {?a}" using kept' copied by (auto simp: all_copied_def)
    moreover have "q < n" using Some Suc.prems(7) by (simp add: row_parent_Some)
    ultimately obtain items' where items': "chain_loop n [(?a, q)] ?items = Some items'" "all_copied d items' {}" "same_items ?items items'"
      using Suc.IH [of ?items ?a p q] a_in len indexes p Some by auto
    moreover have "chain_loop (Suc n) [(c, p)] items = chain_loop n [(?a, q)] ?items"
      using Some rows_keptD(4) [OF kept p] by (simp add: Let_def)
    ultimately show ?thesis using same_items_trans [OF same items'(3)] by (simp only:) blast
  qed
qed simp

lemma parent_subtree_copied:
  assumes copied: "all_copied d items {}" and r: "r < fd_rows d" and n: "fd_rows d \<le> n"
  shows "\<exists>r' items'. parent_subtree n r items = Some (r', items') \<and> all_copied d items' {} \<and> same_items items items' \<and>
    r' \<in> copies d items' \<and> li_value (items' ! r') = row_total d r \<and> li_indexes (items' ! r') = [r]"
proof (cases "row_parent (fd_level d) r")
  case None
  note kept = copied [unfolded all_copied_def, THEN conjunct1]
  have "parent_subtree n r items = Some (r, items)" using None rows_keptD(4) [OF kept r] by (simp add: parent_subtree_def)
  with None r copied rows_keptD [OF kept] show ?thesis by (auto simp: copies_def same_items_def)
next
  case (Some p)
  note kept = copied [unfolded all_copied_def, THEN conjunct1]
  note others = copied [unfolded all_copied_def, THEN conjunct2, rule_format]
  let ?a = "length items" and ?items = "items @ [(items ! r)\<lparr>li_children := []\<rparr>]"
  have ra: "r < ?a" using r rows_keptD(1) [OF kept] by simp
  have same: "same_items items ?items" by (auto simp: same_items_def nth_append)
  have kept': "rows_kept d ?items" using kept by (auto simp: rows_kept_def nth_append)
  have a_in: "?a \<in> copies d ?items" "fd_rows d \<le> ?a" using rows_keptD(1) [OF kept] by (simp_all add: copies_def)
  have "\<exists>x. copy_of d ?items b x" if b: "b \<in> copies d ?items - {?a}" for b
  proof -
    have b': "b \<in> copies d items" using b by (auto simp: copies_def)
    then obtain x where x: "copy_of d items b x" using others by blast
    have "li_parents (?items ! b) = li_parents (items ! b)" using in_copies_less [OF kept b'] by (simp add: nth_append)
    with copy_of_mono [OF x b' kept same] show ?thesis by blast
  qed
  then have "all_copied d ?items {?a}" using kept' by (auto simp: all_copied_def)
  moreover have "li_indexes (?items ! ?a) = [r]" "li_value (?items ! ?a) = row_total d r"
    using rows_keptD(2,3) [OF kept r] by simp_all
  moreover have "p < n" using Some r n by (simp add: row_parent_Some)
  ultimately obtain items' where items': "chain_loop n [(?a, p)] ?items = Some items'" "all_copied d items' {}" "same_items ?items items'"
    using chain_loop_copied [of d ?items ?a r p n] a_in r Some by auto
  have "parent_subtree n r items = Some (?a, items')"
    using Some rows_keptD(4) [OF kept r] items'(1) by (simp add: parent_subtree_def Let_def)
  moreover have "?a \<in> copies d items'"
    using a_in(1) copies_mono [of ?items items' d] items'(3) by (auto simp: same_items_def)
  moreover have "li_value (items' ! ?a) = row_total d r" "li_indexes (items' ! ?a) = [r]"
    using items'(3) rows_keptD(2,3) [OF kept r] by (auto simp: same_items_def)
  ultimately show ?thesis using items'(2) same_items_trans [OF same items'(3)] by blast
qed

lemma parent_subtrees_copied:
  assumes n: "fd_rows d \<le> n"
  shows "all_copied d items {} \<Longrightarrow> set roots \<subseteq> {..<fd_rows d} \<Longrightarrow>
    \<exists>roots' items'. parent_subtrees n roots items = Some (roots', items') \<and> all_copied d items' {} \<and> same_items items items' \<and>
      set roots' \<subseteq> copies d items' \<and>
      map (\<lambda>c. (li_value (items' ! c), li_indexes (items' ! c))) roots' = map (\<lambda>r. (row_total d r, [r])) roots"
proof (induction roots arbitrary: items)
  case Nil
  then show ?case by (simp add: same_items_def)
next
  case (Cons r roots)
  then have "r < fd_rows d" by simp
  from parent_subtree_copied [OF Cons.prems(1) this n] obtain r' items1 where
    one: "parent_subtree n r items = Some (r', items1)" "all_copied d items1 {}" "same_items items items1" and
    r': "r' \<in> copies d items1" "li_value (items1 ! r') = row_total d r" "li_indexes (items1 ! r') = [r]"
    by blast
  have "set roots \<subseteq> {..<fd_rows d}" using Cons.prems(2) by simp
  from Cons.IH [OF one(2) this] obtain roots' items2 where
    two: "parent_subtrees n roots items1 = Some (roots', items2)" "all_copied d items2 {}" "same_items items1 items2"
      "set roots' \<subseteq> copies d items2"
      "map (\<lambda>c. (li_value (items2 ! c), li_indexes (items2 ! c))) roots' = map (\<lambda>r. (row_total d r, [r])) roots"
    by blast
  have "r' < length items1" using in_copies_less one(2) r'(1) by (auto simp: all_copied_def)
  then have r2: "li_value (items2 ! r') = row_total d r" "li_indexes (items2 ! r') = [r]" "r' \<in> copies d items2"
    using r' same_itemsD [OF two(3)] copies_mono [of items1 items2 d] by auto
  have "same_items items items2" using same_items_trans [OF one(3) two(3)] .
  with one(1) two r2 show ?case by (intro exI [of _ "r' # roots'"] exI [of _ items2]) simp
qed

section \<open>Levels of callers\<close>

text \<open>A caller is followed as the value of its occurrence and its row.\<close>

definition caller_next :: "flame_data \<Rightarrow> int \<times> nat \<Rightarrow> (int \<times> nat) list" where
  "caller_next d = (\<lambda>(v, a). case row_parent (fd_level d) a of None \<Rightarrow> [] | Some p \<Rightarrow> [(v, p)])"

definition caller_groups :: "flame_data \<Rightarrow> nat list \<Rightarrow> nat \<Rightarrow> (int \<times> nat) list list" where
  "caller_groups d roots = group_level (\<lambda>c. get_label d (snd c)) (caller_next d) (map (\<lambda>r. (row_total d r, r)) roots)"

abbreviation caller_of :: "level_item list \<Rightarrow> nat \<Rightarrow> int \<times> nat" where
  "caller_of items c \<equiv> (li_value (items ! c), hd (li_indexes (items ! c)))"

lemma copied_next:
  assumes "all_copied d items {}" "c \<in> copies d items"
  shows "set (next_of Parents (items ! c)) \<subseteq> copies d items"
    and "caller_next d (caller_of items c) = map (caller_of items) (next_of Parents (items ! c))"
    and "sum_list (map (\<lambda>c. Suc (hd (li_indexes (items ! c)))) (next_of Parents (items ! c))) < Suc (hd (li_indexes (items ! c)))"
    and "li_indexes (items ! c) = [hd (li_indexes (items ! c))]"
proof -
  obtain r where r: "copy_of d items c r" using assms by (auto simp: all_copied_def)
  then show "set (next_of Parents (items ! c)) \<subseteq> copies d items"
    and "caller_next d (caller_of items c) = map (caller_of items) (next_of Parents (items ! c))"
    and "sum_list (map (\<lambda>c. Suc (hd (li_indexes (items ! c)))) (next_of Parents (items ! c))) < Suc (hd (li_indexes (items ! c)))"
    and "li_indexes (items ! c) = [hd (li_indexes (items ! c))]"
    using row_parent_less [of "fd_level d" r] by (cases "row_parent (fd_level d) r"; auto simp: copy_of_def caller_next_def)+
qed

lemma caller_levels:
  assumes copied: "all_copied d items {}" and roots: "set roots' \<subseteq> copies d items"
    and key: "map (\<lambda>c. (li_value (items ! c), li_indexes (items ! c))) roots' = map (\<lambda>r. (row_total d r, [r])) roots"
  shows "caller_groups d roots j =
      map (map (caller_of items)) (group_level (src_label (get_label d) items) (src_next Parents items) roots' j)"
    and "g \<in> set (group_level (src_label (get_label d) items) (src_next Parents items) roots' j) \<Longrightarrow> set g \<subseteq> copies d items"
proof -
  note next_copies = copied_next [OF copied]
  have "map (caller_of items) roots' = map (\<lambda>(v, rs). (v, hd rs)) (map (\<lambda>c. (li_value (items ! c), li_indexes (items ! c))) roots')"
    by (simp add: comp_def)
  then have start: "map (caller_of items) roots' = map (\<lambda>r. (row_total d r, r)) roots" by (simp only: key) (simp add: comp_def)
  show "caller_groups d roots j =
      map (map (caller_of items)) (group_level (src_label (get_label d) items) (src_next Parents items) roots' j)"
    unfolding caller_groups_def start [symmetric]
  proof (rule group_level_map [OF roots])
    fix c assume c: "c \<in> copies d items"
    show "set (next_of Parents (items ! c)) \<subseteq> copies d items" by (rule next_copies(1) [OF c])
    show "caller_next d (caller_of items c) = map (caller_of items) (next_of Parents (items ! c))" by (rule next_copies(2) [OF c])
  qed simp
  show "g \<in> set (group_level (src_label (get_label d) items) (src_next Parents items) roots' j) \<Longrightarrow> set g \<subseteq> copies d items"
    by (rule group_level_closed [OF roots next_copies(1)])
qed

text \<open>The callers at a distance carry the values of the occurrences that are at least as deep.\<close>

lemma nested_root: "nested_set ls \<Longrightarrow> a < length ls \<Longrightarrow> row_parent ls a = None \<longleftrightarrow> ls ! a = 0"
  using row_parent_exists [of ls a] nested_set_level [of ls a] by (cases "a = 0") (auto simp: row_parent_def)

lemma caller_values:
  assumes ns: "nested_set (fd_level d)" and roots: "set roots \<subseteq> {..<fd_rows d}"
  shows "mset (map (\<lambda>(v, a). (v, fd_level d ! a)) (concat (caller_groups d roots j))) =
      mset (map (\<lambda>r. (row_total d r, fd_level d ! r - j)) (filter (\<lambda>r. j \<le> fd_level d ! r) roots)) \<and>
    (\<forall>c \<in> set (concat (caller_groups d roots j)). snd c < fd_rows d)"
proof (induction j)
  case 0
  then show ?case using roots by (auto simp: caller_groups_def comp_def)
next
  case (Suc j)
  let ?cs = "concat (caller_groups d roots j)" and ?lv = "\<lambda>(v, a). (v, fd_level d ! a)"
  let ?up = "\<lambda>xs. map (\<lambda>(v, l). (v, l - 1)) (filter (\<lambda>(v, l). 0 < l) xs)"
  have step: "map ?lv (caller_next d c) = ?up [?lv c] \<and> (\<forall>c' \<in> set (caller_next d c). snd c' < fd_rows d)" if "c \<in> set ?cs" for c
  proof -
    obtain v a where c: "c = (v, a)" by (cases c)
    then have a: "a < fd_rows d" using Suc that by force
    show ?thesis
    proof (cases "row_parent (fd_level d) a")
      case None
      then show ?thesis using nested_root [OF ns a] by (simp add: caller_next_def c)
    next
      case (Some p)
      then have "p < a" "fd_level d ! a = Suc (fd_level d ! p)" by (simp_all add: row_parent_Some)
      with Some a show ?thesis by (simp add: caller_next_def c)
    qed
  qed
  have all: "map ?lv (concat (map (caller_next d) cs)) = ?up (map ?lv cs)" if "set cs \<subseteq> set ?cs" for cs
    using that
  proof (induction cs)
    case (Cons c cs)
    then show ?case using step [of c] by (cases c) auto
  qed simp
  have next_cs: "mset (concat (caller_groups d roots (Suc j))) = mset (concat (map (caller_next d) ?cs))"
    unfolding caller_groups_def by (rule mset_group_level_Suc)
  have "mset (map ?lv (concat (caller_groups d roots (Suc j)))) = mset (?up (map ?lv ?cs))"
  proof -
    have "mset (map ?lv (concat (caller_groups d roots (Suc j)))) = mset (map ?lv (concat (map (caller_next d) ?cs)))"
      by (simp only: mset_map next_cs)
    then show ?thesis by (simp only: all [OF subset_refl])
  qed
  also have "\<dots> = mset (?up (map (\<lambda>r. (row_total d r, fd_level d ! r - j)) (filter (\<lambda>r. j \<le> fd_level d ! r) roots)))"
    using Suc by (simp only: mset_map mset_filter)
  also have "\<dots> = mset (map (\<lambda>r. (row_total d r, fd_level d ! r - Suc j)) (filter (\<lambda>r. Suc j \<le> fd_level d ! r) roots))"
    by (induction roots) (auto simp: Suc_le_eq)
  finally show ?case
    using step mset_eq_setD [OF next_cs] by auto
qed

lemma caller_total:
  assumes "nested_set (fd_level d)" "set roots \<subseteq> {..<fd_rows d}"
  shows "sum_list (map (\<lambda>g. sum_list (map fst g)) (caller_groups d roots j)) =
    sum_list (map (row_total d) (filter (\<lambda>r. j \<le> fd_level d ! r) roots))"
proof -
  let ?cs = "concat (caller_groups d roots j)"
  have "sum_list (map (\<lambda>g. sum_list (map fst g)) gs) = sum_list (map fst (map (\<lambda>(v, a). (v, fd_level d ! a)) (concat gs)))"
    for gs :: "(int \<times> nat) list list"
    by (induction gs) (simp_all add: case_prod_unfold comp_def)
  also have "sum_list (map fst (map (\<lambda>(v, a). (v, fd_level d ! a)) ?cs)) =
      sum_list (map fst (map (\<lambda>r. (row_total d r, fd_level d ! r - j)) (filter (\<lambda>r. j \<le> fd_level d ! r) roots)))"
    using caller_values [OF assms, of j] by (intro sum_list_mset_eq) blast
  finally show ?thesis by (simp add: comp_def)
qed

lemma caller_groups_nonempty:
  assumes "nested_set (fd_level d)" "set roots \<subseteq> {..<fd_rows d}" "roots \<noteq> []"
  shows "caller_groups d roots j \<noteq> [] \<longleftrightarrow> (\<exists>r \<in> set roots. j \<le> fd_level d ! r)"
proof -
  have "g \<noteq> []" if "g \<in> set (caller_groups d roots j)" for g
    using that assms(3) groups_below_nonempty by (cases j) (auto simp: caller_groups_def)
  then have "caller_groups d roots j \<noteq> [] \<longleftrightarrow> concat (caller_groups d roots j) \<noteq> []"
    by (cases "caller_groups d roots j") auto
  also have "\<dots> \<longleftrightarrow> filter (\<lambda>r. j \<le> fd_level d ! r) roots \<noteq> []"
  proof -
    have "length (concat (caller_groups d roots j)) = length (filter (\<lambda>r. j \<le> fd_level d ! r) roots)"
      using caller_values [OF assms(1,2), of j, THEN conjunct1, THEN mset_eq_length] by (simp only: length_map)
    then show ?thesis by (metis length_0_conv)
  qed
  finally show ?thesis by (auto simp: filter_empty_conv)
qed

section \<open>The levels in the order of the graph\<close>

lemma set_level_fields [simp]:
  "li_value (set_level k it) = li_value it" "li_indexes (set_level k it) = li_indexes it" "li_start (set_level k it) = li_start it"
  "li_children (set_level k it) = li_children it" "li_parents (set_level k it) = li_parents it" "li_level (set_level k it) = k"
  "li_value_right (set_level k it) = li_value_right it" "set_level k (set_level m it) = set_level k it"
  by (simp_all add: set_level_def)

lemma fold_set_level:
  assumes "set as \<subseteq> {..<length items}" and "b < length items"
  shows "length (fold (\<lambda>a items. items[a := set_level k (items ! a)]) as items) = length items \<and>
    fold (\<lambda>a items. items[a := set_level k (items ! a)]) as items ! b = (if b \<in> set as then set_level k (items ! b) else items ! b)"
  using assms by (induction as arbitrary: items) (auto simp: nth_list_update)

definition level_at :: "nat list option list \<Rightarrow> nat \<Rightarrow> nat list" where
  "level_at levels k = nullish (levels ! k) []"

lemma number_levels_at:
  assumes "\<And>k. k < length levels \<Longrightarrow> set (level_at levels k) \<subseteq> {..<length items}" and "b < length items"
    and "\<And>k. k < length levels \<Longrightarrow> b \<in> set (level_at levels k) \<longleftrightarrow> k = K" and "K < length levels"
  shows "fold (\<lambda>(k, l). fold (\<lambda>a items. items[a := set_level k (items ! a)]) (nullish l [])) (List.enumerate m levels) items ! b =
    set_level (m + K) (items ! b)"
  using assms
proof (induction levels arbitrary: m K items)
  case (Cons l levels)
  let ?f = "\<lambda>(k, l). fold (\<lambda>a items. items[a := set_level k (items ! a)]) (nullish l [])"
  let ?items = "fold (\<lambda>a items. items[a := set_level m (items ! a)]) (nullish l []) items"
  have head: "set (nullish l []) \<subseteq> {..<length items}" using Cons.prems(1) [of 0] by (simp add: level_at_def)
  note first = fold_set_level [OF head]
  have tail: "set (level_at levels k) \<subseteq> {..<length ?items}" if "k < length levels" for k
    using Cons.prems(1) [of "Suc k"] that first [OF Cons.prems(2)] by (simp add: level_at_def)
  have b: "b < length ?items" using first [OF Cons.prems(2)] Cons.prems(2) by simp
  show ?case
  proof (cases K)
    case 0
    have at: "?items ! b = set_level m (items ! b)"
      using first [OF Cons.prems(2)] Cons.prems(3) [of 0] 0 by (simp add: level_at_def)
    have not: "b \<notin> set (level_at levels k)" if "k < length levels" for k
      using Cons.prems(3) [of "Suc k"] that 0 by (simp add: level_at_def)
    have "fold ?f (List.enumerate n ls) its ! b = its ! b"
      if "\<And>k. k < length ls \<Longrightarrow> set (level_at ls k) \<subseteq> {..<length its} \<and> b \<notin> set (level_at ls k)" "b < length its" for n ls its
      using that
    proof (induction ls arbitrary: n its)
      case (Cons l ls)
      from Cons.prems(1) [of 0] have l: "set (nullish l []) \<subseteq> {..<length its}" "b \<notin> set (nullish l [])"
        by (simp_all add: level_at_def)
      note one = fold_set_level [OF l(1) Cons.prems(2), of n]
      have "fold ?f (List.enumerate (Suc n) ls) (fold (\<lambda>a items. items[a := set_level n (items ! a)]) (nullish l []) its) ! b =
          fold (\<lambda>a items. items[a := set_level n (items ! a)]) (nullish l []) its ! b"
      proof (rule Cons.IH)
        fix k assume "k < length ls"
        then show "set (level_at ls k) \<subseteq> {..<length (fold (\<lambda>a items. items[a := set_level n (items ! a)]) (nullish l []) its)} \<and>
            b \<notin> set (level_at ls k)"
          using Cons.prems(1) [of "Suc k"] one by (simp add: level_at_def)
      qed (use one Cons.prems(2) in simp)
      with one l(2) show ?case by simp
    qed simp
    from this [of levels ?items "Suc m"] tail not b show ?thesis by (simp add: at 0)
  next
    case (Suc K')
    have "?items ! b = items ! b"
      using first [OF Cons.prems(2)] Cons.prems(3) [of 0] Suc by (simp add: level_at_def)
    moreover have "fold ?f (List.enumerate (Suc m) levels) ?items ! b = set_level (Suc m + K') (?items ! b)"
    proof (rule Cons.IH [OF tail b])
      fix k assume "k < length levels"
      then show "b \<in> set (level_at levels k) \<longleftrightarrow> k = K'" using Cons.prems(3) [of "Suc k"] Suc by (simp add: level_at_def)
    qed (use Cons.prems(4) Suc in simp_all)
    ultimately show ?thesis by (simp add: Suc)
  qed
qed simp

lemma number_levels_length:
  "length (number_levels levels items) = length items"
proof -
  have one: "length (fold (\<lambda>a items. items[a := set_level k (items ! a)]) as items) = length items" for k as and items :: "level_item list"
    by (induction as arbitrary: items) simp_all
  have "length (fold (\<lambda>(k, l). fold (\<lambda>a items. items[a := set_level k (items ! a)]) (nullish l [])) kls items) = length items" for kls
    by (induction kls arbitrary: items) (auto simp: one)
  then show ?thesis by (simp add: number_levels_def)
qed

text \<open>Reversing the levels leaves the items as they are, but for their level.\<close>

lemma merged_parents:
  assumes loop: "merge_loop n label Parents src [(None, roots, 0)] \<lparr>ms_items = [], ms_levels = []\<rparr> = Some ms0"
    and shape: "merged_shape Parents label src roots grp ms0"
  shows "\<exists>ms. merge_subtrees n label Parents src roots = Some ms \<and> ms_levels ms = rev (ms_levels ms0) \<and>
    length (ms_items ms) = length (ms_items ms0) \<and>
    (\<forall>a < length (ms_items ms0). ms_items ms ! a =
       set_level (length (ms_levels ms0) - Suc (li_level (ms_items ms0 ! a))) (ms_items ms0 ! a))"
proof -
  let ?levels = "rev (ms_levels ms0)" and ?H = "length (ms_levels ms0)"
  have at: "level_at ?levels k = level_at (ms_levels ms0) (?H - Suc k)" if "k < ?H" for k
    using that by (simp add: level_at_def rev_nth)
  have level: "a < length (ms_items ms0) \<and> li_level (ms_items ms0 ! a) = k" if k: "k < ?H" and a: "a \<in> set (level_at (ms_levels ms0) k)" for k a
    by (rule merged_shape_level [OF shape k]) (use a in \<open>simp add: level_at_def\<close>)
  have "number_levels ?levels (ms_items ms0) ! a = set_level (?H - Suc (li_level (ms_items ms0 ! a))) (ms_items ms0 ! a)"
    if a: "a < length (ms_items ms0)" for a
  proof -
    let ?l = "li_level (ms_items ms0 ! a)"
    have l: "?l < ?H" "a \<in> set (level_at (ms_levels ms0) ?l)"
      using merged_shape_item(1,2) [OF shape a] by (auto simp: level_at_def)
    have inside: "set (level_at ?levels k) \<subseteq> {..<length (ms_items ms0)}" if "k < length ?levels" for k
      using level [of "?H - Suc k"] that by (auto simp: at)
    have there: "a \<in> set (level_at ?levels k) \<longleftrightarrow> k = ?H - Suc ?l" if "k < length ?levels" for k
    proof
      assume "a \<in> set (level_at ?levels k)"
      then have "?l = ?H - Suc k" using level [of "?H - Suc k" a] that by (simp add: at)
      then show "k = ?H - Suc ?l" using that by simp
    next
      assume "k = ?H - Suc ?l"
      then have "?H - Suc k = ?l" using l(1) by simp
      then show "a \<in> set (level_at ?levels k)" using l(2) that by (simp add: at)
    qed
    have "?H - Suc ?l < length ?levels" using l(1) by simp
    from number_levels_at [OF inside a there this, of 0] show ?thesis by (simp add: number_levels_def)
  qed
  then show ?thesis using loop by (simp add: merge_subtrees_def Let_def number_levels_length)
qed

section \<open>Properties of the callers\<close>

lemma concat_singletons: "(\<And>c. c \<in> R \<Longrightarrow> f c = [hd (f c)]) \<Longrightarrow> set g \<subseteq> R \<Longrightarrow> concat (map f g) = map (\<lambda>c. hd (f c)) g"
proof (induction g)
  case (Cons c g)
  then have "f c = [hd (f c)]" by simp
  with Cons show ?case by (metis append_Cons append_Nil concat.simps(2) list.set_intros(1) list.simps(9) set_subset_Cons subset_trans)
qed simp

lemma callers_shape:
  assumes s: "rows_done d (fd_rows d) s" and roots: "roots \<noteq> []" "set roots \<subseteq> {..<fd_rows d}"
    and n: "fd_rows d \<le> n" and k: "sum_list (map Suc roots) \<le> k"
  shows "\<exists>ms0 ms grp roots' src. merge_parent_subtrees n k (get_label d) (fs_items s) roots = Some ms \<and>
    all_copied d src {} \<and> set roots' \<subseteq> copies d src \<and>
    map (\<lambda>c. (li_value (src ! c), li_indexes (src ! c))) roots' = map (\<lambda>r. (row_total d r, [r])) roots \<and>
    merged_shape Parents (get_label d) src roots' grp ms0 \<and> ms_levels ms = rev (ms_levels ms0) \<and>
    length (ms_items ms) = length (ms_items ms0) \<and>
    (\<forall>a < length (ms_items ms0). ms_items ms ! a =
       set_level (length (ms_levels ms0) - Suc (li_level (ms_items ms0 ! a))) (ms_items ms0 ! a))"
proof -
  obtain roots' src where sub: "parent_subtrees n roots (fs_items s) = Some (roots', src)" "all_copied d src {}"
    "set roots' \<subseteq> copies d src" and key: "map (\<lambda>c. (li_value (src ! c), li_indexes (src ! c))) roots' = map (\<lambda>r. (row_total d r, [r])) roots"
    using parent_subtrees_copied [OF n rows_done_copied [OF s] roots(2)] by blast
  let ?w = "\<lambda>c. Suc (hd (li_indexes (src ! c)))"
  have w: "weighed Parents src (copies d src) ?w"
    using copied_next [OF sub(2)] by (simp only: weighed_def) blast
  have "map ?w roots' = map (\<lambda>(v, rs). Suc (hd rs)) (map (\<lambda>c. (li_value (src ! c), li_indexes (src ! c))) roots')"
    by (simp add: comp_def)
  then have "map ?w roots' = map Suc roots" by (simp only: key) (simp add: comp_def)
  then have "sum_list (map ?w roots') \<le> k" using k by simp
  moreover have "roots' \<noteq> []" using key roots(1) by auto
  ultimately obtain ms0 grp where ms0: "merge_loop k (get_label d) Parents src [(None, roots', 0)] \<lparr>ms_items = [], ms_levels = []\<rparr> = Some ms0"
    "merged_shape Parents (get_label d) src roots' grp ms0"
    using merge_loop_shape [OF w sub(3)] by blast
  from merged_parents [OF this] obtain ms where "merge_subtrees k (get_label d) Parents src roots' = Some ms"
    "ms_levels ms = rev (ms_levels ms0)" "length (ms_items ms) = length (ms_items ms0)"
    "\<forall>a < length (ms_items ms0). ms_items ms ! a =
       set_level (length (ms_levels ms0) - Suc (li_level (ms_items ms0 ! a))) (ms_items ms0 ! a)"
    by blast
  with sub key ms0(2) show ?thesis unfolding merge_parent_subtrees_def by (simp only: option.case prod.case) blast
qed

text \<open>
  C29. The callers of occurrences are found in as many steps as the fuel says, in as many levels as the deepest occurrence
  has ancestors, and one for the occurrences themselves. The level at a distance holds the groups of ancestors at that
  distance, and an entry has the total of just those occurrences it leads to: a level adds up to the occurrences that are
  at least that deep, so nothing is lost and nothing counted twice on the way to the root. Items are numbered by level,
  and every caller has the entry it was reached from as its only child.
\<close>

theorem callers_get_their_share:
  assumes "nested_set (fd_level d)" and "nested_set_to_levels d = Inr s"
    and "roots \<noteq> []" and "set roots \<subseteq> {..<fd_rows d}" and "fd_rows d \<le> n" and "sum_list (map Suc roots) \<le> k"
  shows "\<exists>ms. merge_parent_subtrees n k (get_label d) (fs_items s) roots = Some ms \<and>
    (\<forall>j. j < length (ms_levels ms) \<longleftrightarrow> (\<exists>r \<in> set roots. j \<le> fd_level d ! r)) \<and>
    (\<forall>j < length (ms_levels ms). \<exists>as. ms_levels ms ! (length (ms_levels ms) - Suc j) = Some as \<and>
       (\<forall>a \<in> set as. li_level (ms_items ms ! a) = length (ms_levels ms) - Suc j) \<and>
       map (\<lambda>a. (li_value (ms_items ms ! a), li_indexes (ms_items ms ! a))) as =
         map (\<lambda>g. (sum_list (map fst g), map snd g)) (caller_groups d roots j) \<and>
       sum_list (map (\<lambda>a. li_value (ms_items ms ! a)) as) =
         sum_list (map (row_total d) (filter (\<lambda>r. j \<le> fd_level d ! r) roots))) \<and>
    (\<forall>a < length (ms_items ms). \<forall>c \<in> set (next_of Parents (ms_items ms ! a)). li_children (ms_items ms ! c) = [a])"
proof -
  have s: "rows_done d (fd_rows d) s" using nested_set_done [OF assms(1)] assms(2) by auto
  obtain ms0 ms grp roots' src where ms: "merge_parent_subtrees n k (get_label d) (fs_items s) roots = Some ms"
    and src: "all_copied d src {}" "set roots' \<subseteq> copies d src"
      "map (\<lambda>c. (li_value (src ! c), li_indexes (src ! c))) roots' = map (\<lambda>r. (row_total d r, [r])) roots"
    and shape: "merged_shape Parents (get_label d) src roots' grp ms0" and levels: "ms_levels ms = rev (ms_levels ms0)"
    and len: "length (ms_items ms) = length (ms_items ms0)"
    and items: "\<And>a. a < length (ms_items ms0) \<Longrightarrow> ms_items ms ! a =
       set_level (length (ms_levels ms0) - Suc (li_level (ms_items ms0 ! a))) (ms_items ms0 ! a)"
    using callers_shape [OF s assms(3-6)] by blast
  let ?H = "length (ms_levels ms0)"
  have nonempty: "j < ?H \<longleftrightarrow> (\<exists>r \<in> set roots. j \<le> fd_level d ! r)" for j
    using merged_shape_levels [OF shape, of j] caller_levels(1) [OF src, of j] caller_groups_nonempty [OF assms(1,4,3), of j]
    by simp
  have entry: "(li_value (ms_items ms ! a), li_indexes (ms_items ms ! a)) =
      (sum_list (map fst (map (caller_of src) (grp a))), map snd (map (caller_of src) (grp a)))" if a: "a < length (ms_items ms0)" for a
  proof -
    have "set (grp a) \<subseteq> copies d src" using caller_levels(2) [OF src] merged_shape_group [OF shape a] by blast
    then have "concat (map (\<lambda>c. li_indexes (src ! c)) (grp a)) = map (\<lambda>c. hd (li_indexes (src ! c))) (grp a)"
      by (intro concat_singletons [of "copies d src" "\<lambda>c. li_indexes (src ! c)"] copied_next(4) [OF src(1)])
    then show ?thesis
      using merged_shape_item(3,5) [OF shape a] by (simp add: items [OF a] group_value_def comp_def)
  qed
  have "\<exists>as. ms_levels ms ! (?H - Suc j) = Some as \<and> (\<forall>a \<in> set as. li_level (ms_items ms ! a) = ?H - Suc j) \<and>
       map (\<lambda>a. (li_value (ms_items ms ! a), li_indexes (ms_items ms ! a))) as =
         map (\<lambda>g. (sum_list (map fst g), map snd g)) (caller_groups d roots j) \<and>
       sum_list (map (\<lambda>a. li_value (ms_items ms ! a)) as) =
         sum_list (map (row_total d) (filter (\<lambda>r. j \<le> fd_level d ! r) roots))" if j: "j < ?H" for j
  proof (rule merged_shape_level [OF shape j])
    fix as assume as: "ms_levels ms0 ! j = Some as" "\<And>a. a \<in> set as \<Longrightarrow> a < length (ms_items ms0)"
      "\<And>a. a \<in> set as \<Longrightarrow> li_level (ms_items ms0 ! a) = j"
      "map grp as = group_level (src_label (get_label d) src) (src_next Parents src) roots' j"
    have groups: "caller_groups d roots j = map (\<lambda>a. map (caller_of src) (grp a)) as"
      unfolding caller_levels(1) [OF src] as(4) [symmetric] by (simp add: comp_def)
    have entries: "map (\<lambda>a. (li_value (ms_items ms ! a), li_indexes (ms_items ms ! a))) as =
         map (\<lambda>g. (sum_list (map fst g), map snd g)) (caller_groups d roots j)"
    proof -
      have "map (\<lambda>a. (li_value (ms_items ms ! a), li_indexes (ms_items ms ! a))) as =
          map (\<lambda>a. (sum_list (map fst (map (caller_of src) (grp a))), map snd (map (caller_of src) (grp a)))) as"
        by (rule map_cong [OF refl], rule entry, erule as(2))
      then show ?thesis by (simp add: groups comp_def)
    qed
    have "map (\<lambda>a. li_value (ms_items ms ! a)) as = map fst (map (\<lambda>a. (li_value (ms_items ms ! a), li_indexes (ms_items ms ! a))) as)"
      by (simp add: comp_def)
    also have "\<dots> = map (\<lambda>g. sum_list (map fst g)) (caller_groups d roots j)" unfolding entries by (simp add: comp_def)
    finally have "sum_list (map (\<lambda>a. li_value (ms_items ms ! a)) as) =
         sum_list (map (row_total d) (filter (\<lambda>r. j \<le> fd_level d ! r) roots))"
      by (simp only: caller_total [OF assms(1,4)])
    moreover have "ms_levels ms ! (?H - Suc j) = Some as" using as(1) j by (simp add: levels rev_nth)
    moreover have "\<forall>a \<in> set as. li_level (ms_items ms ! a) = ?H - Suc j" using as(2,3) by (simp add: items)
    ultimately show ?thesis using entries by blast
  qed
  moreover have "li_children (ms_items ms ! c) = [a]"
    if a: "a < length (ms_items ms)" and c: "c \<in> set (next_of Parents (ms_items ms ! a))" for a c
  proof -
    have a0: "a < length (ms_items ms0)" using a len by simp
    have c0: "c \<in> set (next_of Parents (ms_items ms0 ! a))" using c by (simp add: items [OF a0])
    then obtain us vs where "next_of Parents (ms_items ms0 ! a) = us @ c # vs" by (auto simp: in_set_conv_decomp)
    with merged_shape_item(8) [OF shape a0] merged_shape_item(6) [OF shape a0 c0] show ?thesis by (simp add: items)
  qed
  ultimately show ?thesis using ms nonempty levels by (intro exI [of _ ms]) simp
qed

lemma callers_get_their_share_witness:
  "\<exists>s ms as. nested_set_to_levels sample_flame = Inr s \<and>
     merge_parent_subtrees 5 6 (get_label sample_flame) (fs_items s) [1, 3] = Some ms \<and> length (ms_levels ms) = 2 \<and>
     ms_levels ms ! 0 = Some as \<and> map (\<lambda>a. (li_value (ms_items ms ! a), li_indexes (ms_items ms ! a))) as = [(9, [0, 0])]"
proof -
  obtain s where s: "nested_set_to_levels sample_flame = Inr s" using nested_set_done [OF sample_flame_nested] by blast
  have rows: "[1, 3 :: nat] \<noteq> []" "set [1, 3] \<subseteq> {..<fd_rows sample_flame}" "fd_rows sample_flame \<le> 5" "sum_list (map Suc [1, 3]) \<le> 6"
    by (simp_all add: sample_flame_def)
  obtain ms where C: "merge_parent_subtrees 5 6 (get_label sample_flame) (fs_items s) [1, 3] = Some ms \<and>
    (\<forall>j. j < length (ms_levels ms) \<longleftrightarrow> (\<exists>r \<in> set [1, 3]. j \<le> fd_level sample_flame ! r)) \<and>
    (\<forall>j < length (ms_levels ms). \<exists>as. ms_levels ms ! (length (ms_levels ms) - Suc j) = Some as \<and>
       (\<forall>a \<in> set as. li_level (ms_items ms ! a) = length (ms_levels ms) - Suc j) \<and>
       map (\<lambda>a. (li_value (ms_items ms ! a), li_indexes (ms_items ms ! a))) as =
         map (\<lambda>g. (sum_list (map fst g), map snd g)) (caller_groups sample_flame [1, 3] j) \<and>
       sum_list (map (\<lambda>a. li_value (ms_items ms ! a)) as) =
         sum_list (map (row_total sample_flame) (filter (\<lambda>r. j \<le> fd_level sample_flame ! r) [1, 3]))) \<and>
    (\<forall>a < length (ms_items ms). \<forall>c \<in> set (next_of Parents (ms_items ms ! a)). li_children (ms_items ms ! c) = [a])"
    by (rule exE [OF callers_get_their_share [OF sample_flame_nested s rows]])
  note ms = C [THEN conjunct1] and H = C [THEN conjunct2, THEN conjunct1, rule_format]
    and levels = C [THEN conjunct2, THEN conjunct2, THEN conjunct1, rule_format]
  have "1 < length (ms_levels ms)" "\<not> 2 < length (ms_levels ms)"
    unfolding H by (simp_all add: sample_flame_def nth_Cons')
  then have len: "length (ms_levels ms) = 2" by simp
  have "caller_groups sample_flame [1, 3] 1 = [[(6, 0), (3, 0)]]" by code_simp
  with levels [of 1] \<open>1 < length (ms_levels ms)\<close> len obtain as where "ms_levels ms ! 0 = Some as"
    "map (\<lambda>a. (li_value (ms_items ms ! a), li_indexes (ms_items ms ! a))) as = [(9, [0, 0])]" by auto
  with s ms len show ?thesis by (intro exI [of _ s] exI [of _ ms] exI [of _ as] conjI)
qed

text \<open>
  For every label of a nested set the view returns. A label that no row has gives two empty halves; for any other, the
  last level of the callers and the first of the callees are each the one item that stands for all its rows.
\<close>

theorem sandwich_answers:
  assumes "nested_set (fd_level d)" and "rs = filter (\<lambda>i. get_label d i = l) [0..<fd_rows d]"
    and "fd_rows d \<le> n" and "sum_list (map (subtree_rows (fd_level d)) rs) \<le> k" and "sum_list (map Suc rs) \<le> k"
  shows "\<exists>callers callees. get_sandwich_levels n k d l = Inr (Some (callers, callees)) \<and>
    (if rs = [] then ms_levels callers = [] \<and> ms_levels callees = []
     else (\<exists>a b. ms_levels callers \<noteq> [] \<and> last (ms_levels callers) = Some [a] \<and> li_indexes (ms_items callers ! a) = rs \<and>
       li_value (ms_items callers ! a) = sum_list (map (row_total d) rs) \<and>
       ms_levels callees \<noteq> [] \<and> hd (ms_levels callees) = Some [b] \<and> li_indexes (ms_items callees ! b) = rs \<and>
       li_value (ms_items callees ! b) = sum_list (map (row_total d) rs)))"
proof -
  obtain s where s: "nested_set_to_levels d = Inr s" "rows_done d (fd_rows d) s" using nested_set_done [OF assms(1)] by blast
  have nodes: "nullish (jo_get (fs_labels s) l) [] = rs"
    using s(2) by (simp add: rows_done_def labels_done_def assms(2) split: list.splits)
  show ?thesis
  proof (cases "rs = []")
    case True
    then show ?thesis using s(1) nodes by (simp add: get_sandwich_levels_def no_levels_def)
  next
    case False
    have rows: "set rs \<subseteq> {..<fd_rows d}" by (auto simp: assms(2))
    obtain ms0 callers grp roots' src where up: "merge_parent_subtrees n k (get_label d) (fs_items s) rs = Some callers"
      and src: "all_copied d src {}" "set roots' \<subseteq> copies d src"
        "map (\<lambda>c. (li_value (src ! c), li_indexes (src ! c))) roots' = map (\<lambda>r. (row_total d r, [r])) rs"
      and shape: "merged_shape Parents (get_label d) src roots' grp ms0" and levels: "ms_levels callers = rev (ms_levels ms0)"
      and items: "\<And>a. a < length (ms_items ms0) \<Longrightarrow> ms_items callers ! a =
         set_level (length (ms_levels ms0) - Suc (li_level (ms_items ms0 ! a))) (ms_items ms0 ! a)"
      using callers_shape [OF s(2) False rows assms(3,5)] by blast
    obtain callees grp' where down: "merge_subtrees k (get_label d) Children (fs_items s) rs = Some callees"
      and shape': "merged_shape Children (get_label d) (fs_items s) rs grp' callees"
      using callees_shape [OF s(2) False rows assms(4)] by blast
    have "0 < length (ms_levels ms0)" using merged_shape_levels [OF shape, of 0] by simp
    then obtain as where as: "ms_levels ms0 ! 0 = Some as" "map grp as = [roots']" "\<And>a. a \<in> set as \<Longrightarrow> a < length (ms_items ms0)"
      by (rule merged_shape_level [OF shape]) auto
    then obtain a where a: "as = [a]" "grp a = roots'" "a < length (ms_items ms0)" by auto
    have "0 < length (ms_levels callees)" using merged_shape_levels [OF shape', of 0] by simp
    then obtain bs where bs: "ms_levels callees ! 0 = Some bs" "map grp' bs = [rs]" "\<And>b. b \<in> set bs \<Longrightarrow> b < length (ms_items callees)"
      by (rule merged_shape_level [OF shape']) auto
    then obtain b where b: "bs = [b]" "grp' b = rs" "b < length (ms_items callees)" by auto
    have val: "map (\<lambda>c. li_value (src ! c)) roots' = map (row_total d) rs"
      using arg_cong [OF src(3), of "map fst"] by (simp add: comp_def)
    have idx: "map (\<lambda>c. li_indexes (src ! c)) roots' = map (\<lambda>r. [r]) rs"
      using arg_cong [OF src(3), of "map snd"] by (simp add: comp_def)
    have single: "concat (map (\<lambda>r. [r]) xs) = xs" for xs :: "nat list" by (induction xs) simp_all
    have "li_value (ms_items callers ! a) = sum_list (map (row_total d) rs)" "li_indexes (ms_items callers ! a) = rs"
      using merged_shape_item(3,5) [OF shape a(3)] by (simp_all add: items [OF a(3)] a(2) group_value_def val idx single)
    moreover have "li_value (ms_items callees ! b) = sum_list (map (row_total d) rs)" "li_indexes (ms_items callees ! b) = rs"
      using merged_rows(2,3) [OF s(2) rows shape' b(3)] b(2) by simp_all
    moreover have "last (ms_levels callers) = Some [a]" "ms_levels callers \<noteq> []"
      using as(1) a(1) \<open>0 < length (ms_levels ms0)\<close> by (auto simp: levels last_rev hd_conv_nth)
    moreover have "hd (ms_levels callees) = Some [b]" "ms_levels callees \<noteq> []"
      using bs(1) b(1) \<open>0 < length (ms_levels callees)\<close> by (auto simp: hd_conv_nth)
    moreover have "get_sandwich_levels n k d l = Inr (Some (callers, callees))"
      using s(1) nodes False up down by (cases rs) (simp_all add: get_sandwich_levels_def)
    ultimately show ?thesis using False by auto
  qed
qed

lemma sandwich_answers_witness:
  "\<exists>callers callees a. get_sandwich_levels 5 6 sample_flame ''a'' = Inr (Some (callers, callees)) \<and>
     last (ms_levels callers) = Some [a] \<and> li_value (ms_items callers ! a) = 9"
proof -
  have "filter (\<lambda>i. get_label sample_flame i = ''a'') [0..<fd_rows sample_flame] = [1, 3]"
    "sum_list (map (subtree_rows (fd_level sample_flame)) [1, 3]) \<le> 6" "sum_list (map (row_total sample_flame) [1, 3]) = 9"
    by code_simp+
  then show ?thesis
    using sandwich_answers [OF sample_flame_nested, of "[1, 3]" "''a''" 5 6] by (fastforce simp: sample_flame_def)
qed

section \<open>What the view does not show\<close>

text \<open>A function that calls itself: its inner occurrence is merged with the outer one that already contains it, so the
  merged item is larger than the whole graph.\<close>

definition recursive_flame :: flame_data where
  "recursive_flame = \<lparr>fd_label = [''main'', ''f'', ''f''], fd_level = [0, 1, 2], fd_value = [10, 10, 10], fd_self = [0, 0, 10],
     fd_value_right = None, fd_self_right = None\<rparr>"

lemma recursion_counted_twice:
  "\<exists>callers callees b. get_sandwich_levels 3 6 recursive_flame ''f'' = Inr (Some (callers, callees)) \<and>
     hd (ms_levels callees) = Some [b] \<and> li_value (ms_items callees ! b) = 20 \<and> row_total recursive_flame 0 = 10"
  by (rule exI, rule exI, rule exI, intro conjI, code_simp+)

text \<open>A merged item has no right value, even in a comparison.\<close>

lemma merged_items_lose_right_value: "li_value_right (merged_item src g k) = None"
  by (rule merged_item_fields(5))

end
