(* ===== verification/Flame_Collapse.thy ===== *)
theory Flame_Collapse
  imports Flame_Nesting
begin

text \<open>
  Which items of a flame graph are shown as one. A row is linked to its parent when it is the only child and almost as
  large; the walk over the tree, which visits the rows in order, puts the rows of a maximal run of linked rows into one
  group. Collapsing and expanding, of one item or of all, keep the groups, and the items of a group always agree.
\<close>

section \<open>Linked rows\<close>

definition linked :: "(int \<Rightarrow> int \<Rightarrow> bool) \<Rightarrow> flame_data \<Rightarrow> nat \<Rightarrow> bool" where
  "linked over d i \<longleftrightarrow>
     (case row_parent (fd_level d) i of
        None \<Rightarrow> False
      | Some p \<Rightarrow> over (row_total d i) (row_total d p) \<and> length (rows_under (fd_level d) p (fd_rows d)) = 1)"

text \<open>The rows that are shown together with a row: all rows between are linked to their parents.\<close>

definition collapse_group :: "(int \<Rightarrow> int \<Rightarrow> bool) \<Rightarrow> flame_data \<Rightarrow> nat \<Rightarrow> nat list" where
  "collapse_group over d i =
     filter (\<lambda>j. \<forall>x \<in> {Suc (min i j)..max i j}. linked over d x) [0..<fd_rows d]"

lemma only_child_next:
  assumes ns: "nested_set ls" and i: "i < length ls" "row_parent ls i = Some p" and one: "length (rows_under ls p (length ls)) = 1"
  shows "i = Suc p"
proof (rule ccontr)
  assume "i \<noteq> Suc p"
  moreover have "p < i" "ls ! i = Suc (ls ! p)" using i(2) by (auto simp: row_parent_Some)
  ultimately have q: "Suc p < i" by simp
  have "ls ! p < ls ! Suc p" using between_parent [OF ns i(1,2) _ q] by simp
  then have "ls ! Suc p = Suc (ls ! p)" using nested_set_step_up [OF ns, of p] q i(1) by simp
  then have "row_parent ls (Suc p) = Some p" by (auto simp: row_parent_Some)
  then have "Suc p \<in> set (rows_under ls p (length ls))" "i \<in> set (rows_under ls p (length ls))"
    using q i by (auto simp: in_rows_under)
  with one q show False by (cases "rows_under ls p (length ls)") auto
qed

lemma linked_parent:
  assumes "nested_set (fd_level d)" "i < fd_rows d" "linked over d i"
  shows "row_parent (fd_level d) i = Some (i - 1)" "0 < i"
proof -
  obtain p where p: "row_parent (fd_level d) i = Some p" "length (rows_under (fd_level d) p (fd_rows d)) = 1"
    using assms(3) by (auto simp: linked_def split: option.splits)
  have "i = Suc p" using only_child_next [OF assms(1,2) p] .
  with p show "row_parent (fd_level d) i = Some (i - 1)" "0 < i" by simp_all
qed

section \<open>The walk\<close>

text \<open>The rows still on the stack when row \<open>i\<close> is next.\<close>

definition pending :: "nat list \<Rightarrow> nat \<Rightarrow> nat list" where
  "pending ls i = filter (\<lambda>j. case row_parent ls j of None \<Rightarrow> True | Some p \<Rightarrow> p < i) [i..<length ls]"

lemma pending_start: "nested_set ls \<Longrightarrow> 0 < length ls \<Longrightarrow> pending ls 0 = [0]"
proof -
  assume ns: "nested_set ls" and len: "0 < length ls"
  have "[0..<length ls] = 0 # [1..<length ls]" using len by (simp add: upt_conv_Cons)
  moreover have "row_parent ls 0 = None" by (simp add: row_parent_def)
  moreover have "filter (\<lambda>j. case row_parent ls j of None \<Rightarrow> True | Some p \<Rightarrow> p < 0) [1..<length ls] = []"
  proof -
    have "row_parent ls j \<noteq> None" if "j \<in> set [1..<length ls]" for j
      using that row_parent_exists [OF ns, of j] by auto
    then show ?thesis by (auto simp: filter_empty_conv split: option.splits)
  qed
  ultimately show ?thesis by (simp add: pending_def)
qed

lemma pending_step:
  assumes ns: "nested_set ls" and i: "i < length ls"
  shows "\<exists>rest. pending ls i = i # rest \<and> rows_under ls i (length ls) @ rest = pending ls (Suc i)"
proof -
  let ?rest = "filter (\<lambda>j. case row_parent ls j of None \<Rightarrow> True | Some p \<Rightarrow> p < i) [Suc i..<length ls]"
  have "[i..<length ls] = i # [Suc i..<length ls]" using i by (simp add: upt_conv_Cons)
  then have head: "pending ls i = i # ?rest"
    by (auto simp: pending_def row_parent_Some split: option.splits)
  have before: "c < j" if c: "c \<in> set (rows_under ls i (length ls))" and j: "j \<in> set ?rest" for c j
  proof (rule ccontr)
    assume "\<not> c < j"
    have c': "c < length ls" "row_parent ls c = Some i" using c by (auto simp: in_rows_under)
    have j': "i < j" "j < length ls" using j by auto
    then obtain p where p: "row_parent ls j = Some p" "p < i"
      using j row_parent_exists [OF ns j'(2)] by auto
    have "j \<noteq> c" using p c' by auto
    with \<open>\<not> c < j\<close> have "j < c" by simp
    then have "ls ! i < ls ! j" using between_parent [OF ns c' j'(1)] by simp
    moreover have "ls ! p < ls ! i" using between_parent [OF ns j'(2) p(1,2) j'(1)] .
    moreover have "ls ! j = Suc (ls ! p)" using p by (simp add: row_parent_Some)
    ultimately show False by simp
  qed
  have "sorted_wrt (<) (rows_under ls i (length ls) @ ?rest)"
    using before by (simp add: sorted_wrt_append rows_under_def sorted_wrt_filter del: set_filter)
  moreover have "sorted_wrt (<) (pending ls (Suc i))"
    by (simp add: pending_def sorted_wrt_filter)
  moreover have "set (rows_under ls i (length ls) @ ?rest) = set (pending ls (Suc i))"
    using row_parent_less [of ls] by (auto simp: pending_def in_rows_under less_Suc_eq Suc_le_eq split: option.splits)
  ultimately have "rows_under ls i (length ls) @ ?rest = pending ls (Suc i)"
    by (metis strict_sorted_equal)
  with head show ?thesis by blast
qed

definition visit :: "(int \<Rightarrow> int \<Rightarrow> bool) \<Rightarrow> level_item list \<Rightarrow> nat \<Rightarrow> collapsed_map \<Rightarrow> collapsed_map" where
  "visit over items i m = (case li_parents (items ! i) of Some (p # _) \<Rightarrow> add_item over items i p m | _ \<Rightarrow> m)"

lemma walk_in_order:
  assumes ns: "nested_set (fd_level d)" and s: "rows_done d (fd_rows d) s" and n: "n = fd_rows d - i"
    and i: "i \<le> fd_rows d"
  shows "add_tree_loop n over (fs_items s) (pending (fd_level d) i) m = Some (fold (visit over (fs_items s)) [i..<fd_rows d] m)"
  using n i
proof (induction n arbitrary: i m)
  case 0
  then show ?case by (simp add: pending_def)
next
  case (Suc n)
  then have i: "i < fd_rows d" by simp
  obtain rest where "pending (fd_level d) i = i # rest"
    "rows_under (fd_level d) i (fd_rows d) @ rest = pending (fd_level d) (Suc i)"
    using pending_step [OF ns i] by blast
  moreover have "[i..<fd_rows d] = i # [Suc i..<fd_rows d]" using i by (simp add: upt_conv_Cons)
  moreover have "add_tree_loop n over (fs_items s) (pending (fd_level d) (Suc i)) m' =
      Some (fold (visit over (fs_items s)) [Suc i..<fd_rows d] m')" for m'
    using Suc.prems by (intro Suc.IH) linarith+
  ultimately show ?case
    using rows_done_item(6) [OF s i] by (simp add: visit_def [symmetric])
qed

section \<open>The groups\<close>

definition a_group :: "(nat \<Rightarrow> bool) \<Rightarrow> nat \<Rightarrow> collapsed_map \<Rightarrow> nat \<Rightarrow> nat \<Rightarrow> nat \<Rightarrow> bool" where
  "a_group L n m c t e \<longleftrightarrow>
     t < e \<and> e < n \<and> c < length (cm_configs m) \<and>
     cm_configs m ! c = \<lparr>cc_items = [t..<Suc e], cc_collapsed = True\<rparr> \<and>
     (\<forall>x. t < x \<and> x \<le> e \<longrightarrow> L x) \<and> \<not> L t \<and> (Suc e < n \<longrightarrow> \<not> L (Suc e)) \<and>
     (\<forall>k. t \<le> k \<and> k \<le> e \<longrightarrow> map_of (cm_map m) k = Some c)"

definition grouped :: "(nat \<Rightarrow> bool) \<Rightarrow> nat \<Rightarrow> collapsed_map \<Rightarrow> bool" where
  "grouped L n m \<longleftrightarrow>
     (\<forall>j c. map_of (cm_map m) j = Some c \<longrightarrow> (\<exists>t e. t \<le> j \<and> j \<le> e \<and> a_group L n m c t e)) \<and>
     (\<forall>j < n. L j \<longrightarrow> map_of (cm_map m) j \<noteq> None)"

lemma grouped_D: "grouped L n m \<Longrightarrow> map_of (cm_map m) j = Some c \<Longrightarrow> \<exists>t e. t \<le> j \<and> j \<le> e \<and> a_group L n m c t e"
  by (simp add: grouped_def)

lemma grouped_linked: "grouped L n m \<Longrightarrow> j < n \<Longrightarrow> L j \<Longrightarrow> map_of (cm_map m) j \<noteq> None"
  by (simp add: grouped_def)

lemma a_group_interval:
  assumes "a_group L n m c t e" "grouped L n m" "map_of (cm_map m) j = Some c"
  shows "t \<le> j \<and> j \<le> e"
proof -
  obtain t' e' where "t' \<le> j" "j \<le> e'" "a_group L n m c t' e'" using grouped_D [OF assms(2,3)] by blast
  moreover from this assms(1) have "[t'..<Suc e'] = [t..<Suc e]" "t < e" "t' < e'"
    by (auto simp: a_group_def simp del: upt_Suc)
  then have "{t'..e'} = {t..e}" by (metis atLeastLessThanSuc_atLeastAtMost set_upt)
  ultimately show ?thesis by (metis atLeastAtMost_iff)
qed

lemma a_group_Suc:
  assumes "a_group L n m c t e" "\<not> L n"
  shows "a_group L (Suc n) m c t e"
  using assms by (auto simp: a_group_def less_Suc_eq)

lemma grouped_skip: "grouped L n m \<Longrightarrow> \<not> L n \<Longrightarrow> grouped L (Suc n) m"
  unfolding grouped_def using a_group_Suc [of L n m] by (metis less_Suc_eq)

text \<open>A linked row joins the group of the row before it, or starts one with it.\<close>

lemma grouped_join:
  assumes g: "grouped L n m" and n: "0 < n" and L: "L n" "\<not> L 0"
    and cfg: "map_of (cm_map m) (n - 1) = Some c"
  shows "grouped L (Suc n) (m\<lparr>cm_map := es_map_set n c (cm_map m),
    cm_configs := (cm_configs m)[c := (cm_configs m ! c)\<lparr>cc_items := cc_items (cm_configs m ! c) @ [n]\<rparr>]\<rparr>)"
    (is "grouped L (Suc n) ?m")
proof -
  obtain t e where te: "t \<le> n - 1" "n - 1 \<le> e" "a_group L n m c t e" using grouped_D [OF g cfg] by blast
  then have e: "e = n - 1" "t < e" by (auto simp: a_group_def)
  have items: "cc_items (cm_configs m ! c) @ [n] = [t..<Suc n]"
    using te e n by (cases n) (auto simp: a_group_def)
  have at: "map_of (cm_map ?m) j = (if j = n then Some c else map_of (cm_map m) j)" for j
    by (simp add: map_of_es_map_set)
  have fresh: "map_of (cm_map m) n = None"
  proof (rule ccontr)
    assume "map_of (cm_map m) n \<noteq> None"
    then obtain c' t' e' where "n \<le> e'" "a_group L n m c' t' e'" using grouped_D [OF g, of n] by blast
    then show False by (simp add: a_group_def)
  qed
  obtain N where N: "n = Suc N" using n by (cases n) auto
  have new: "a_group L (Suc n) ?m c t n"
    unfolding a_group_def
    using te(3) e L at items unfolding N by (auto simp: a_group_def le_Suc_eq simp del: upt_Suc)
  have other: "a_group L (Suc n) ?m c' t' e'" if a: "a_group L n m c' t' e'" "c' \<noteq> c" for c' t' e'
  proof -
    have "e' < n - 1"
    proof (rule ccontr)
      assume "\<not> e' < n - 1"
      then have "t' \<le> n - 1 \<and> n - 1 \<le> e'" using a(1) by (auto simp: a_group_def)
      then have "map_of (cm_map m) (n - 1) = Some c'" using a(1) by (simp add: a_group_def)
      with cfg a(2) show False by simp
    qed
    then show ?thesis
      using a at by (auto simp: a_group_def)
  qed
  show ?thesis
    unfolding grouped_def
  proof (intro conjI allI impI)
    fix j c' assume j: "map_of (cm_map ?m) j = Some c'"
    show "\<exists>t e. t \<le> j \<and> j \<le> e \<and> a_group L (Suc n) ?m c' t e"
    proof (cases "c' = c")
      case True
      then have "t \<le> j \<and> j \<le> n"
        using a_group_interval [OF te(3) g, of j] j at te e by (auto split: if_splits)
      with new True show ?thesis by blast
    next
      case False
      then have "map_of (cm_map m) j = Some c'" using j at by (auto split: if_splits)
      then obtain t' e' where "t' \<le> j" "j \<le> e'" "a_group L n m c' t' e'" using grouped_D [OF g] by blast
      with other False show ?thesis by blast
    qed
  next
    fix j assume "j < Suc n" "L j"
    then show "map_of (cm_map ?m) j \<noteq> None" using grouped_linked [OF g, of j] at by (auto simp: less_Suc_eq)
  qed
qed

lemma grouped_start:
  assumes g: "grouped L n m" and n: "0 < n" and L: "L n"
    and none: "map_of (cm_map m) (n - 1) = None"
  shows "grouped L (Suc n) (m\<lparr>cm_map := es_map_set n (length (cm_configs m)) (es_map_set (n - 1) (length (cm_configs m)) (cm_map m)),
    cm_configs := cm_configs m @ [\<lparr>cc_items = [n - 1, n], cc_collapsed = True\<rparr>]\<rparr>)"
    (is "grouped L (Suc n) ?m")
proof -
  let ?c = "length (cm_configs m)"
  have at: "map_of (cm_map ?m) j = (if j = n \<or> j = n - 1 then Some ?c else map_of (cm_map m) j)" for j
    by (auto simp: map_of_es_map_set)
  have notL: "\<not> L (n - 1)" using grouped_linked [OF g, of "n - 1"] none n by auto
  have "[n - 1, n] = [n - 1..<Suc n]" using n by (cases n) (simp_all add: upt_rec)
  moreover obtain N where "n = Suc N" using n by (cases n) auto
  ultimately have new: "a_group L (Suc n) ?m ?c (n - 1) n"
    unfolding a_group_def using L notL at by (auto simp: le_Suc_eq simp del: upt_Suc)
  have other: "a_group L (Suc n) ?m c t e" if a: "a_group L n m c t e" for c t e
  proof -
    have "e < n - 1"
    proof (rule ccontr)
      assume "\<not> e < n - 1"
      then have "t \<le> n - 1 \<and> n - 1 \<le> e" using a by (auto simp: a_group_def)
      then show False using a none by (auto simp: a_group_def)
    qed
    then show ?thesis using a at by (auto simp: a_group_def nth_append)
  qed
  show ?thesis
    unfolding grouped_def
  proof (intro conjI allI impI)
    fix j c assume j: "map_of (cm_map ?m) j = Some c"
    show "\<exists>t e. t \<le> j \<and> j \<le> e \<and> a_group L (Suc n) ?m c t e"
    proof (cases "j = n \<or> j = n - 1")
      case True
      then show ?thesis using j at new by (intro exI [of _ "n - 1"] exI [of _ n]) auto
    next
      case False
      then have "map_of (cm_map m) j = Some c" using j at by simp
      then obtain t e where "t \<le> j" "j \<le> e" "a_group L n m c t e" using grouped_D [OF g] by blast
      with other show ?thesis by blast
    qed
  next
    fix j assume "j < Suc n" "L j"
    then show "map_of (cm_map ?m) j \<noteq> None" using grouped_linked [OF g, of j] at by (auto simp: less_Suc_eq)
  qed
qed

text \<open>The walk leaves every group complete.\<close>

lemma visit_grouped:
  assumes ns: "nested_set (fd_level d)" and s: "rows_done d (fd_rows d) s" and i: "i < fd_rows d"
    and g: "grouped (linked over d) i m"
  shows "grouped (linked over d) (Suc i) (visit over (fs_items s) i m)"
proof (cases "row_parent (fd_level d) i")
  case None
  then have "\<not> linked over d i" by (simp add: linked_def)
  with g None show ?thesis using rows_done_item(5) [OF s i] by (simp add: visit_def grouped_skip)
next
  case (Some p)
  then have p: "p < fd_rows d" using i row_parent_less [OF Some] by simp
  have test: "over (li_value (fs_items s ! i)) (li_value (fs_items s ! p)) \<and> length (li_children (fs_items s ! p)) = 1 \<longleftrightarrow> linked over d i"
    using Some rows_done_item(1) [OF s i] rows_done_item(1,6) [OF s p] by (simp add: linked_def)
  have visit: "visit over (fs_items s) i m = add_item over (fs_items s) i p m"
    using Some rows_done_item(5) [OF s i] by (simp add: visit_def)
  show ?thesis
  proof (cases "linked over d i")
    case False
    then have "add_item over (fs_items s) i p m = m" using test by (simp only: add_item_def if_False)
    with g visit False show ?thesis by (simp add: grouped_skip)
  next
    case True
    then have ip: "p = i - 1" "0 < i" using linked_parent [OF ns i True] Some by auto
    have no0: "\<not> linked over d 0" by (simp add: linked_def row_parent_def)
    have add: "add_item over (fs_items s) i p m = (case map_of (cm_map m) p of
        Some c \<Rightarrow> m\<lparr>cm_map := es_map_set i c (cm_map m),
          cm_configs := (cm_configs m)[c := (cm_configs m ! c)\<lparr>cc_items := cc_items (cm_configs m ! c) @ [i]\<rparr>]\<rparr>
      | None \<Rightarrow> m\<lparr>cm_map := es_map_set i (length (cm_configs m)) (es_map_set p (length (cm_configs m)) (cm_map m)),
          cm_configs := cm_configs m @ [\<lparr>cc_items = [p, i], cc_collapsed = True\<rparr>]\<rparr>)"
      using test True by (simp only: add_item_def if_True Let_def)
    show ?thesis
    proof (cases "map_of (cm_map m) p")
      case (Some c)
      with grouped_join [OF g ip(2) True no0] ip visit add show ?thesis by simp
    next
      case None
      with grouped_start [OF g ip(2) True] ip visit add show ?thesis by simp
    qed
  qed
qed

lemma distinct_es_map_set: "distinct (map fst es) \<Longrightarrow> distinct (map fst (es_map_set k v es))"
proof (induction k v es rule: es_map_set.induct)
  case (2 k v k' v' es)
  have "fst ` set (es_map_set k v es) = insert k (fst ` set es)"
    by (induction k v es rule: es_map_set.induct) auto
  with 2 show ?case by auto
qed simp

lemma fold_visit_grouped:
  assumes ns: "nested_set (fd_level d)" and s: "rows_done d (fd_rows d) s"
  shows "i \<le> fd_rows d \<Longrightarrow> grouped (linked over d) i (fold (visit over (fs_items s)) [0..<i] empty_collapsed_map)"
  by (induction i) (auto simp: visit_grouped [OF ns s] grouped_def [of _ 0] empty_collapsed_map_def)

lemma fold_visit_distinct:
  "distinct (map fst (cm_map m)) \<Longrightarrow> distinct (map fst (cm_map (fold (visit over items) is m)))"
proof (induction "is" arbitrary: m)
  case (Cons i "is")
  have "distinct (map fst (cm_map (visit over items i m)))"
    using Cons.prems
    by (auto simp: visit_def add_item_def Let_def distinct_es_map_set split: option.splits list.splits)
  from Cons.IH [OF this] show ?case by simp
qed simp

lemma in_collapse_group:
  "k \<in> set (collapse_group over d j) \<longleftrightarrow> k < fd_rows d \<and> (\<forall>x. min j k < x \<and> x \<le> max j k \<longrightarrow> linked over d x)"
  by (auto simp: collapse_group_def Suc_le_eq)

lemma collapse_group_upt:
  assumes "e < fd_rows d" and "\<And>k. k \<in> set (collapse_group over d j) \<longleftrightarrow> t \<le> k \<and> k \<le> e"
  shows "collapse_group over d j = [t..<Suc e]"
proof -
  have sorted: "sorted_wrt (<) (collapse_group over d j)" by (simp add: collapse_group_def sorted_wrt_filter)
  have "set (collapse_group over d j) = set [t..<Suc e]"
    by (rule set_eqI) (simp only: assms(2) set_upt atLeastLessThan_iff less_Suc_eq_le)
  then show ?thesis by (rule strict_sorted_equal [OF sorted_wrt_upt sorted])
qed

lemma grouped_get:
  assumes g: "grouped (linked over d) (fd_rows d) m" and j: "j < fd_rows d"
  shows "cm_get m j = (if length (collapse_group over d j) > 1
      then Some \<lparr>cc_items = collapse_group over d j, cc_collapsed = True\<rparr> else None)"
proof (cases "map_of (cm_map m) j")
  case (Some c)
  then obtain t e where te: "t \<le> j" "j \<le> e" and a: "a_group (linked over d) (fd_rows d) m c t e"
    using grouped_D [OF g] by blast
  have out: "\<not> linked over d t" "Suc e < fd_rows d \<Longrightarrow> \<not> linked over d (Suc e)" "e < fd_rows d" "t < e"
    using a by (simp_all add: a_group_def)
  have "collapse_group over d j = [t..<Suc e]"
  proof (rule collapse_group_upt [OF out(3)])
    fix k
    show "k \<in> set (collapse_group over d j) \<longleftrightarrow> t \<le> k \<and> k \<le> e"
    proof
      assume k: "k \<in> set (collapse_group over d j)"
      have "t \<le> k" 
      proof (rule ccontr)
        assume "\<not> t \<le> k"
        then have "linked over d t" using k te by (auto simp: in_collapse_group)
        with out show False by simp
      qed
      moreover have "k \<le> e"
      proof (rule ccontr)
        assume "\<not> k \<le> e"
        then have "Suc e < fd_rows d" "linked over d (Suc e)" using k te by (auto simp: in_collapse_group)
        with out show False by simp
      qed
      ultimately show "t \<le> k \<and> k \<le> e" ..
    next
      assume k: "t \<le> k \<and> k \<le> e"
      have "linked over d x" if "min j k < x" "x \<le> max j k" for x
      proof -
        have "t < x" "x \<le> e" using that k te by linarith+
        with a show ?thesis by (simp add: a_group_def)
      qed
      with k out show "k \<in> set (collapse_group over d j)" by (simp add: in_collapse_group)
    qed
  qed
  moreover have "cm_configs m ! c = \<lparr>cc_items = [t..<Suc e], cc_collapsed = True\<rparr>" using a by (simp add: a_group_def)
  ultimately show ?thesis using Some out by (simp add: cm_get_def del: upt_Suc)
next
  case None
  then have nj: "\<not> linked over d j" using grouped_linked [OF g j] by auto
  have nSj: "\<not> linked over d (Suc j)" if more: "Suc j < fd_rows d"
  proof
    assume "linked over d (Suc j)"
    then obtain c where "map_of (cm_map m) (Suc j) = Some c" using grouped_linked [OF g more] by auto
    then obtain t e where te: "t \<le> Suc j" "Suc j \<le> e" and a: "a_group (linked over d) (fd_rows d) m c t e"
      using grouped_D [OF g] by blast
    then have "t \<noteq> Suc j" using \<open>linked over d (Suc j)\<close> by (auto simp: a_group_def)
    then have "map_of (cm_map m) j = Some c" using te a by (simp add: a_group_def)
    with None show False by simp
  qed
  have "collapse_group over d j = [j..<Suc j]"
  proof (rule collapse_group_upt [OF j])
    fix k
    show "k \<in> set (collapse_group over d j) \<longleftrightarrow> j \<le> k \<and> k \<le> j"
    proof
      assume k: "k \<in> set (collapse_group over d j)"
      then have "\<not> k < j" using nj by (auto simp: in_collapse_group)
      moreover from k have "\<not> j < k" using nSj by (auto simp: in_collapse_group)
      ultimately show "j \<le> k \<and> k \<le> j" by simp
    qed (use j in \<open>auto simp: in_collapse_group\<close>)
  qed
  with None show ?thesis by (simp add: cm_get_def)
qed

text \<open>The map built for a nested set; fuel for one visit of every row is enough.\<close>

lemma built_map:
  assumes ns: "nested_set (fd_level d)" and s: "nested_set_to_levels d = Inr s" and rows: "0 < fd_rows d"
  shows "\<exists>m. build_collapsed_map (fd_rows d) over True s = Inr (Some m) \<and> grouped (linked over d) (fd_rows d) m \<and>
    distinct (map fst (cm_map m))"
proof -
  have fin: "rows_done d (fd_rows d) s" using nested_set_done [OF ns] s by auto
  obtain ls where "fs_levels s = Some [0] # ls" using root_level [OF ns rows fin] by blast
  moreover have "add_tree_loop (fd_rows d) over (fs_items s) [0] empty_collapsed_map =
      Some (fold (visit over (fs_items s)) [0..<fd_rows d] empty_collapsed_map)"
    using walk_in_order [OF ns fin, of "fd_rows d" 0 over empty_collapsed_map] pending_start [OF ns rows] by simp
  ultimately show ?thesis
    using fold_visit_grouped [OF ns fin, of "fd_rows d" over]
      fold_visit_distinct [of empty_collapsed_map over "fs_items s" "[0..<fd_rows d]"]
    by (simp add: build_collapsed_map_def empty_collapsed_map_def)
qed

section \<open>Collapsing and expanding\<close>

definition cm_valid :: "collapsed_map \<Rightarrow> bool" where
  "cm_valid m \<longleftrightarrow> distinct (map fst (cm_map m)) \<and> (\<forall>c \<in> snd ` set (cm_map m). c < length (cm_configs m))"

lemma cm_valid_at: "cm_valid m \<Longrightarrow> map_of (cm_map m) i = Some c \<Longrightarrow> c < length (cm_configs m)"
  by (force simp: cm_valid_def dest: map_of_SomeD)

lemma snd_es_map_set: "snd ` set (es_map_set k v es) \<subseteq> insert v (snd ` set es)"
  by (induction k v es rule: es_map_set.induct) auto

lemma fold_es_map_set:
  assumes "\<And>x. x \<in> set xs \<Longrightarrow> g x \<in> C"
  shows "snd ` set es \<subseteq> C \<Longrightarrow> snd ` set (fold (\<lambda>x. es_map_set (f x) (g x)) xs es) \<subseteq> C"
    and "distinct (map fst es) \<Longrightarrow> distinct (map fst (fold (\<lambda>x. es_map_set (f x) (g x)) xs es))"
proof -
  show "snd ` set es \<subseteq> C \<Longrightarrow> snd ` set (fold (\<lambda>x. es_map_set (f x) (g x)) xs es) \<subseteq> C"
    using assms
  proof (induction xs arbitrary: es)
    case (Cons x xs)
    have "snd ` set (es_map_set (f x) (g x) es) \<subseteq> C"
      by (rule subset_trans [OF snd_es_map_set]) (use Cons.prems in simp)
    with Cons show ?case by simp
  qed simp
  show "distinct (map fst es) \<Longrightarrow> distinct (map fst (fold (\<lambda>x. es_map_set (f x) (g x)) xs es))"
    by (induction xs arbitrary: es) (simp_all add: distinct_es_map_set)
qed

lemma map_of_fold_same: "map_of (fold (\<lambda>j. es_map_set j c) js es) i = (if i \<in> set js then Some c else map_of es i)"
  by (induction js arbitrary: es) (auto simp: map_of_es_map_set)

lemma map_of_fold_other:
  "i \<notin> set js \<Longrightarrow> map_of (fold (\<lambda>(k, j). es_map_set j (c + k)) (List.enumerate a js) es) i = map_of es i"
  by (induction js arbitrary: a es) (auto simp: map_of_es_map_set)

lemma map_of_fold_enumerate:
  "distinct js \<Longrightarrow> k < length js \<Longrightarrow>
    map_of (fold (\<lambda>(k, j). es_map_set j (c + k)) (List.enumerate a js) es) (js ! k) = Some (c + a + k)"
proof (induction js arbitrary: a es k)
  case (Cons j js)
  then show ?case by (cases k) (simp_all add: map_of_fold_other map_of_es_map_set)
qed simp

text \<open>What the setters change: the configuration of the group, or the state of every configuration.\<close>

lemma set_collapsed_get:
  assumes m: "cm_valid m" and set: "set_collapsed_status i b m = Inr m'"
  obtains config where "cm_get m i = Some config" and "cm_valid m'"
    "\<And>j. cm_get m' j = (if j \<in> set (cc_items config) then Some (config\<lparr>cc_collapsed := b\<rparr>) else cm_get m j)"
proof -
  obtain config where config: "cm_get m i = Some config" using set by (auto simp: set_collapsed_status_def split: option.splits)
  let ?c = "length (cm_configs m)"
  have m': "m' = \<lparr>cm_map = fold (\<lambda>j. es_map_set j ?c) (cc_items config) (cm_map m),
      cm_configs = cm_configs m @ [config\<lparr>cc_collapsed := b\<rparr>]\<rparr>"
    using set config by (simp add: set_collapsed_status_def Let_def)
  have "snd ` set (cm_map m) \<subseteq> {..<Suc ?c}" using m by (auto simp: cm_valid_def)
  then have "cm_valid m'"
    using fold_es_map_set(1) [of "cc_items config" "\<lambda>_. ?c" "{..<Suc ?c}" "cm_map m" id]
      fold_es_map_set(2) [of "cc_items config" "\<lambda>_. ?c" "{..<Suc ?c}" "cm_map m" id] m
    by (auto simp: cm_valid_def m')
  moreover have "cm_get m' j = (if j \<in> set (cc_items config) then Some (config\<lparr>cc_collapsed := b\<rparr>) else cm_get m j)" for j
    using cm_valid_at [OF m, of j]
    by (cases "map_of (cm_map m) j") (auto simp: cm_get_def m' map_of_fold_same nth_append)
  ultimately show thesis using config by (intro that)
qed

lemma set_all_get:
  assumes m: "cm_valid m"
  shows "cm_get (set_all_collapsed_status b m) j = map_option (\<lambda>c. c\<lparr>cc_collapsed := b\<rparr>) (cm_get m j)"
    and "cm_valid (set_all_collapsed_status b m)"
proof -
  let ?keys = "map fst (cm_map m)" and ?c = "length (cm_configs m)"
  have d: "distinct ?keys" using m by (simp add: cm_valid_def)
  show "cm_get (set_all_collapsed_status b m) j = map_option (\<lambda>c. c\<lparr>cc_collapsed := b\<rparr>) (cm_get m j)"
  proof (cases "j \<in> set ?keys")
    case True
    then obtain k where k: "k < length ?keys" "?keys ! k = j" by (auto simp: in_set_conv_nth)
    have at: "map_of (cm_map (set_all_collapsed_status b m)) j = Some (?c + k)"
      using map_of_fold_enumerate [OF d k(1), of ?c 0 "cm_map m"] k(2) by (simp add: set_all_collapsed_status_def Let_def)
    have "map_of (cm_map m) j \<noteq> None" using True by (simp add: map_of_eq_None_iff)
    then have "cm_get m j \<noteq> None" by (simp add: cm_get_def)
    moreover have "cm_configs (set_all_collapsed_status b m) ! (?c + k) = (the (cm_get m j))\<lparr>cc_collapsed := b\<rparr>"
      using k by (simp add: set_all_collapsed_status_def Let_def nth_append)
    ultimately show ?thesis using at by (auto simp: cm_get_def [of "set_all_collapsed_status b m"])
  next
    case False
    then have "map_of (cm_map (set_all_collapsed_status b m)) j = map_of (cm_map m) j" "map_of (cm_map m) j = None"
      using map_of_fold_other [of j ?keys ?c 0 "cm_map m"]
      by (simp_all add: set_all_collapsed_status_def Let_def map_of_eq_None_iff)
    then show ?thesis by (simp add: cm_get_def)
  qed
  have "snd ` set (cm_map m) \<subseteq> {..<?c + length ?keys}" using m by (auto simp: cm_valid_def)
  then show "cm_valid (set_all_collapsed_status b m)"
    using fold_es_map_set(1) [of "List.enumerate 0 ?keys" "\<lambda>(k, j). ?c + k" "{..<?c + length ?keys}" "cm_map m" snd]
      fold_es_map_set(2) [of "List.enumerate 0 ?keys" "\<lambda>(k, j). ?c + k" "{..<?c + length ?keys}" "cm_map m" snd] d
    by (auto simp: cm_valid_def set_all_collapsed_status_def Let_def case_prod_unfold in_set_enumerate_eq)
qed

inductive collapse_step :: "collapsed_map \<Rightarrow> collapsed_map \<Rightarrow> bool" where
  one: "set_collapsed_status i b m = Inr m' \<Longrightarrow> collapse_step m m'"
| all: "collapse_step m (set_all_collapsed_status b m)"

definition groups_kept :: "(int \<Rightarrow> int \<Rightarrow> bool) \<Rightarrow> flame_data \<Rightarrow> collapsed_map \<Rightarrow> bool" where
  "groups_kept over d m \<longleftrightarrow> cm_valid m \<and> (\<forall>j. map_option cc_items (cm_get m j) =
     (if j < fd_rows d \<and> 1 < length (collapse_group over d j) then Some (collapse_group over d j) else None)) \<and>
     (\<forall>j config. cm_get m j = Some config \<longrightarrow> (\<forall>k \<in> set (cc_items config). cm_get m k = Some config))"

lemma groups_keptD:
  assumes "groups_kept over d m"
  shows "cm_valid m" "map_option cc_items (cm_get m j) =
      (if j < fd_rows d \<and> 1 < length (collapse_group over d j) then Some (collapse_group over d j) else None)"
    "cm_get m j = Some config \<Longrightarrow> k \<in> set (cc_items config) \<Longrightarrow> cm_get m k = Some config"
  using assms unfolding groups_kept_def by blast+

lemma groups_kept_same:
  assumes "groups_kept over d m" and "cm_valid m'" and items: "\<And>j. map_option cc_items (cm_get m' j) = map_option cc_items (cm_get m j)"
    and same: "\<And>j k config. cm_get m' j = Some config \<Longrightarrow> k \<in> set (cc_items config) \<Longrightarrow> cm_get m' k = Some config"
  shows "groups_kept over d m'"
  unfolding groups_kept_def items
  using assms(2) groups_keptD(2) [OF assms(1)] by (intro conjI allI impI ballI) (auto intro: same)

lemma groups_kept_step:
  assumes "collapse_step m m'" and kept: "groups_kept over d m"
  shows "groups_kept over d m'"
proof -
  note m = groups_keptD(1) [OF kept] and items = groups_keptD(2) [OF kept] and same = groups_keptD(3) [OF kept]
  from assms(1) show ?thesis
  proof cases
    case (one i b)
    obtain config where config: "cm_get m i = Some config" "cm_valid m'"
      and get: "cm_get m' j = (if j \<in> set (cc_items config) then Some (config\<lparr>cc_collapsed := b\<rparr>) else cm_get m j)" for j
      using set_collapsed_get [OF m one] by metis
    have group: "map_option cc_items (cm_get m' j) = map_option cc_items (cm_get m j)" for j
      using same [OF config(1)] by (simp add: get)
    have together: "cm_get m' k = Some conf" if "cm_get m' j = Some conf" "k \<in> set (cc_items conf)" for j k conf
    proof (cases "j \<in> set (cc_items config)")
      case True
      with that show ?thesis by (auto simp: get)
    next
      case False
      then have old: "cm_get m j = Some conf" using that by (simp add: get)
      have "k \<notin> set (cc_items config)"
      proof
        assume "k \<in> set (cc_items config)"
        then have "conf = config" using same [OF config(1)] same [OF old that(2)] by simp
        moreover have "j \<in> set (cc_items conf)"
          using items [of j] old by (auto simp: in_collapse_group split: if_splits)
        ultimately show False using False by simp
      qed
      then show ?thesis using same [OF old that(2)] by (simp add: get)
    qed
    show ?thesis by (rule groups_kept_same [OF kept config(2) group together])
  next
    case (all b)
    show ?thesis
    proof (rule groups_kept_same [OF kept])
      show "cm_valid m'" using set_all_get(2) [OF m] all by simp
      show "map_option cc_items (cm_get m' j) = map_option cc_items (cm_get m j)" for j
        by (simp add: all set_all_get(1) [OF m] option.map_comp comp_def)
      fix j k conf assume "cm_get m' j = Some conf" "k \<in> set (cc_items conf)"
      then show "cm_get m' k = Some conf"
        using same [of j _ k] by (auto simp: all set_all_get(1) [OF m])
    qed
  qed
qed

definition map_built :: "(int \<Rightarrow> int \<Rightarrow> bool) \<Rightarrow> flame_data \<Rightarrow> collapsed_map \<Rightarrow> bool" where
  "map_built over d m \<longleftrightarrow> nested_set (fd_level d) \<and> 0 < fd_rows d \<and>
     (\<exists>s. nested_set_to_levels d = Inr s \<and> build_collapsed_map (fd_rows d) over True s = Inr (Some m))"

lemma collapse_group_same:
  assumes "k \<in> set (collapse_group over d j)" and "j < fd_rows d"
  shows "collapse_group over d k = collapse_group over d j"
proof -
  have between: "linked over d x" if "min j k < x" "x \<le> max j k" for x
    using assms(1) that by (auto simp: in_collapse_group)
  have other: "\<forall>x \<in> {Suc (min b y)..max b y}. linked over d x"
    if ab: "{a, b} = {j, k}" and a: "\<forall>x \<in> {Suc (min a y)..max a y}. linked over d x" for a b y
  proof
    fix x assume x: "x \<in> {Suc (min b y)..max b y}"
    show "linked over d x"
    proof (cases "min a y < x \<and> x \<le> max a y")
      case True
      with a show ?thesis by (simp add: Suc_le_eq)
    next
      case False
      with x have "min a b < x \<and> x \<le> max a b" by (auto simp: min_def max_def split: if_splits)
      moreover have "min a b = min j k" "max a b = max j k" using ab by (auto simp: doubleton_eq_iff min.commute max.commute)
      ultimately show ?thesis by (simp add: between)
    qed
  qed
  have "(\<forall>x \<in> {Suc (min k y)..max k y}. linked over d x) = (\<forall>x \<in> {Suc (min j y)..max j y}. linked over d x)" for y
    using other [of j k y] other [of k j y] by blast
  then show ?thesis by (simp add: collapse_group_def)
qed

lemma built_groups_kept: "map_built over d m \<Longrightarrow> groups_kept over d m"
proof -
  assume "map_built over d m"
  then obtain s where ns: "nested_set (fd_level d)" and rows: "0 < fd_rows d" and s: "nested_set_to_levels d = Inr s"
    and m: "build_collapsed_map (fd_rows d) over True s = Inr (Some m)" by (auto simp: map_built_def)
  then have g: "grouped (linked over d) (fd_rows d) m" and distinct: "distinct (map fst (cm_map m))"
    using built_map [OF ns s rows, of over] by auto
  have at: "cm_get m j = (if 1 < length (collapse_group over d j)
      then Some \<lparr>cc_items = collapse_group over d j, cc_collapsed = True\<rparr> else None)" if "j < fd_rows d" for j
    using grouped_get [OF g that] .
  have out: "cm_get m j = None" if "\<not> j < fd_rows d" for j
    using grouped_D [OF g, of j] that by (cases "map_of (cm_map m) j") (auto simp: cm_get_def a_group_def)
  have "cm_valid m"
    unfolding cm_valid_def
  proof (intro conjI ballI distinct)
    fix c assume "c \<in> snd ` set (cm_map m)"
    then obtain j where "map_of (cm_map m) j = Some c" using distinct by (force simp: map_of_eq_Some_iff)
    then show "c < length (cm_configs m)" using grouped_D [OF g] by (auto simp: a_group_def)
  qed
  moreover have "map_option cc_items (cm_get m j) =
      (if j < fd_rows d \<and> 1 < length (collapse_group over d j) then Some (collapse_group over d j) else None)" for j
    using at out by (cases "j < fd_rows d") simp_all
  moreover have "cm_get m k = Some config" if "cm_get m j = Some config" "k \<in> set (cc_items config)" for j k config
  proof -
    have j: "j < fd_rows d" using out that(1) by force
    then have config: "config = \<lparr>cc_items = collapse_group over d j, cc_collapsed = True\<rparr>" "1 < length (collapse_group over d j)"
      using at that(1) by (auto split: if_splits)
    have k: "k \<in> set (collapse_group over d j)" using that(2) config by simp
    then have "k < fd_rows d" by (simp add: in_collapse_group)
    with at config collapse_group_same [OF k j] show ?thesis by simp
  qed
  ultimately show ?thesis unfolding groups_kept_def by blast
qed

interpretation collapse: state_machine "map_built over d" collapse_step "groups_kept over d" for over d
  by unfold_locales (use built_groups_kept groups_kept_step in blast)+

text \<open>
  C26. The walk that builds the collapsed map returns, and its groups are the maximal runs of rows that are only children
  and almost as large as their parents: a row is in the map when its run has another row, all rows of a run share one
  entry, which lists the run in order, and starts collapsed. Collapsing and expanding, one item or all, in any order,
  never changes the groups, and the rows of a group are always collapsed or expanded together.
\<close>

theorem collapse_groups_are_kept:
  assumes "nested_set (fd_level d)" and "0 < fd_rows d" and "nested_set_to_levels d = Inr s"
  shows "\<exists>m. build_collapsed_map (fd_rows d) over True s = Inr (Some m) \<and>
    (\<forall>j < fd_rows d. cm_get m j = (if 1 < length (collapse_group over d j)
       then Some \<lparr>cc_items = collapse_group over d j, cc_collapsed = True\<rparr> else None)) \<and>
    (\<forall>m' j. collapse_step\<^sup>*\<^sup>* m m' \<and> j < fd_rows d \<longrightarrow>
       map_option cc_items (cm_get m' j) = map_option cc_items (cm_get m j) \<and>
       (\<forall>k \<in> set (collapse_group over d j). cm_get m' k = cm_get m' j))"
proof -
  obtain m where m: "build_collapsed_map (fd_rows d) over True s = Inr (Some m)" "grouped (linked over d) (fd_rows d) m"
    using built_map [OF assms(1,3,2)] by blast
  have built: "map_built over d m" using assms m by (auto simp: map_built_def)
  have "map_option cc_items (cm_get m' j) = map_option cc_items (cm_get m j)"
    "\<forall>k \<in> set (collapse_group over d j). cm_get m' k = cm_get m' j"
    if reach: "collapse_step\<^sup>*\<^sup>* m m'" and j: "j < fd_rows d" for m' j
  proof -
    have kept: "groups_kept over d m'" using collapse.reached_inv [OF reach built] .
    note items = groups_keptD(2) [OF kept]
    show "map_option cc_items (cm_get m' j) = map_option cc_items (cm_get m j)"
      by (simp only: items groups_keptD(2) [OF built_groups_kept [OF built]])
    show "\<forall>k \<in> set (collapse_group over d j). cm_get m' k = cm_get m' j"
    proof
      fix k assume k: "k \<in> set (collapse_group over d j)"
      show "cm_get m' k = cm_get m' j"
      proof (cases "cm_get m' j")
        case None
        then have "\<not> 1 < length (collapse_group over d j)" using items [of j] j by (auto split: if_splits)
        then have "map_option cc_items (cm_get m' k) = None"
          using items [of k] collapse_group_same [OF k j] by simp
        with None show ?thesis by simp
      next
        case (Some config)
        then have "cc_items config = collapse_group over d j" using items [of j] by (auto split: if_splits)
        with Some k show ?thesis using groups_keptD(3) [OF kept Some] by simp
      qed
    qed
  qed
  with m(1) grouped_get [OF m(2)] show ?thesis by blast
qed

definition sample_chain :: flame_data where
  "sample_chain = \<lparr>fd_label = [''main'', ''a'', ''b'', ''c''], fd_level = [0, 1, 2, 2], fd_value = [10, 10, 6, 4],
     fd_self = [0, 0, 6, 4], fd_value_right = None, fd_self_right = None\<rparr>"

lemma collapse_groups_are_kept_witness:
  "\<exists>s m. nested_set_to_levels sample_chain = Inr s \<and>
     build_collapsed_map 4 (\<lambda>v p. 99 * p < 100 * v) True s = Inr (Some m) \<and>
     cm_get m 1 = Some \<lparr>cc_items = [0, 1], cc_collapsed = True\<rparr> \<and> cm_get m 2 = None"
proof -
  have ns: "nested_set (fd_level sample_chain)"
    by (auto simp: sample_chain_def nested_set_def nth_Cons' numeral_nat)
  obtain s where s: "nested_set_to_levels sample_chain = Inr s" using nested_set_done [OF ns] by blast
  have rows: "fd_rows sample_chain = 4" by (simp add: sample_chain_def)
  have "collapse_group (\<lambda>v p. 99 * p < 100 * v) sample_chain 1 = [0, 1]"
    "collapse_group (\<lambda>v p. 99 * p < 100 * v) sample_chain 2 = [2]"
    by code_simp+
  then show ?thesis
    using collapse_groups_are_kept [OF ns _ s, of "\<lambda>v p. 99 * p < 100 * v"] s unfolding rows by force
qed

end
