(* ===== verification/Flame_Tree.thy ===== *)
theory Flame_Tree
  imports Flame_Callers Flame_Collapse
begin

text \<open>
  The call tree, \<open>packages/grafana-flamegraph/src/CallTree/utils.ts\<close>: the tree of nodes made from the levels, the tree of
  callers made from the sandwich levels, and the nodes that are expanded at first.

  Percentages are computed in floating point and are parameters, gathered in \<open>percents\<close>. The recursive builders take
  fuel, one unit for each level of the tree.
\<close>

section \<open>Nodes\<close>

record 'p percents =
  pc_of :: "int \<Rightarrow> int \<Rightarrow> 'p"      \<comment> \<open>\<open>(value / total) * 100\<close>\<close>
  pc_zero :: 'p
  pc_diff :: "'p \<Rightarrow> 'p \<Rightarrow> 'p"      \<comment> \<open>\<open>computeDiffPercent\<close>\<close>

record 'p call_node =
  cn_id :: string
  cn_label :: string
  cn_self :: int
  cn_total :: int
  cn_self_percent :: 'p
  cn_total_percent :: 'p
  cn_depth :: nat
  cn_parent_id :: "string option"
  cn_subtree_size :: nat
  cn_item :: nat
  cn_self_right :: "int option"
  cn_total_right :: "int option"
  cn_self_percent_right :: "'p option"
  cn_total_percent_right :: "'p option"
  cn_diff_percent :: "'p option"

datatype 'p call_tree = Call_Tree (ct_node: "'p call_node") (ct_children: "'p call_tree list option")

definition percent_of :: "'p percents \<Rightarrow> int \<Rightarrow> int \<Rightarrow> 'p" where
  "percent_of pc v whole = (if 0 < whole then pc_of pc v whole else pc_zero pc)"

text \<open>The figures of an item, relative to the totals of both sides.\<close>

definition call_node :: "'p percents \<Rightarrow> flame_data \<Rightarrow> int \<Rightarrow> int \<Rightarrow> level_item list \<Rightarrow> nat \<Rightarrow> string \<Rightarrow> nat \<Rightarrow> string option \<Rightarrow> nat \<Rightarrow> 'p call_node" where
  "call_node pc d total_left total_right items a nid depth parent sub =
     (let it = items ! a; label = get_label d (hd (li_indexes it)) in
      if is_diff d
      then (let self_left = get_self d (li_indexes it);
                self_right = get_self_right d (li_indexes it);
                right = nullish (li_value_right it) 0;
                left = li_value it - right;
                left_percent = percent_of pc left total_left;
                right_percent = percent_of pc right total_right in
            \<lparr>cn_id = nid, cn_label = label, cn_self = self_left, cn_total = left,
             cn_self_percent = percent_of pc self_left total_left, cn_total_percent = left_percent,
             cn_depth = depth, cn_parent_id = parent, cn_subtree_size = sub, cn_item = a,
             cn_self_right = Some self_right, cn_total_right = Some right,
             cn_self_percent_right = Some (percent_of pc self_right total_right), cn_total_percent_right = Some right_percent,
             cn_diff_percent = Some (pc_diff pc left_percent right_percent)\<rparr>)
      else (let self = get_self d (li_indexes it) in
            \<lparr>cn_id = nid, cn_label = label, cn_self = self, cn_total = li_value it,
             cn_self_percent = percent_of pc self total_left, cn_total_percent = percent_of pc (li_value it) total_left,
             cn_depth = depth, cn_parent_id = parent, cn_subtree_size = sub, cn_item = a,
             cn_self_right = None, cn_total_right = None, cn_self_percent_right = None, cn_total_percent_right = None,
             cn_diff_percent = None\<rparr>))"

abbreviation child_id :: "string \<Rightarrow> nat \<Rightarrow> string" where
  "child_id nid k \<equiv> nid @ ''.'' @ string_of_nat k"

abbreviation subtree_size :: "'p call_tree list \<Rightarrow> nat" where
  "subtree_size kids \<equiv> sum_list (map (\<lambda>t. Suc (cn_subtree_size (ct_node t))) kids)"

text \<open>The node of an item with the nodes of the items next to it in one direction.\<close>

fun build_node ::
  "nat \<Rightarrow> direction \<Rightarrow> level_item list \<Rightarrow> (nat \<Rightarrow> string \<Rightarrow> nat \<Rightarrow> string option \<Rightarrow> nat \<Rightarrow> 'p call_node) \<Rightarrow>
   nat \<Rightarrow> string \<Rightarrow> nat \<Rightarrow> string option \<Rightarrow> 'p call_tree option" where
  "build_node 0 dir items mk a nid depth parent = None"
| "build_node (Suc n) dir items mk a nid depth parent =
     (case those (map (\<lambda>(k, c). build_node n dir items mk c (child_id nid k) (Suc depth) (Some nid))
         (List.enumerate 0 (next_of dir (items ! a)))) of
        None \<Rightarrow> None
      | Some kids \<Rightarrow> Some (Call_Tree (mk a nid depth parent (subtree_size kids)) (if kids = [] then None else Some kids)))"

definition build_roots ::
  "nat \<Rightarrow> direction \<Rightarrow> level_item list \<Rightarrow> (nat \<Rightarrow> string \<Rightarrow> nat \<Rightarrow> string option \<Rightarrow> nat \<Rightarrow> 'p call_node) \<Rightarrow> nat list \<Rightarrow> 'p call_tree list option" where
  "build_roots n dir items mk roots =
     those (map (\<lambda>(k, a). build_node n dir items mk a (string_of_nat k) 0 None) (List.enumerate 0 roots))"

definition build_all_call_tree_nodes :: "nat \<Rightarrow> 'p percents \<Rightarrow> flame_data \<Rightarrow> 'p call_tree list option res" where
  "build_all_call_tree_nodes n pc d =
     bind_res (nested_set_to_levels d) (\<lambda>s.
       case fs_levels s of
         [] \<Rightarrow> Inr (Some [])
       | Some (r # rs) # _ \<Rightarrow>
           (let root = fs_items s ! r;
                right = (if is_diff d then nullish (li_value_right root) 0 else 0) in
            Inr (build_roots n Children (fs_items s) (call_node pc d (li_value root - right) right (fs_items s)) (r # rs)))
       | _ \<Rightarrow> Inl Js_TypeError)"

definition build_callers_tree :: "nat \<Rightarrow> 'p percents \<Rightarrow> flame_data \<Rightarrow> merge_state \<Rightarrow> 'p call_tree list option" where
  "build_callers_tree n pc d ms =
     (if ms_levels ms = [] then Some []
      else (case last (ms_levels ms) of
          None \<Rightarrow> Some []
        | Some [] \<Rightarrow> Some []
        | Some targets \<Rightarrow>
            (let all = foldl (\<lambda>acc a. acc + li_value (ms_items ms ! a)) 0 targets;
                 right = (if is_diff d then foldl (\<lambda>acc a. acc + nullish (li_value_right (ms_items ms ! a)) 0) 0 targets else 0) in
             build_roots n Parents (ms_items ms) (call_node pc d (all - right) right (ms_items ms)) targets)))"

section \<open>Expanded nodes\<close>

function collect_expanded :: "nat \<Rightarrow> 'p call_tree \<Rightarrow> bool jobj \<Rightarrow> bool jobj" where
  "collect_expanded levels (Call_Tree node kids) expanded =
     fold (collect_expanded levels) (nullish kids [])
       (if cn_depth node < levels \<and> nullish kids [] \<noteq> [] then jo_set (cn_id node) True expanded else expanded)"
  by pat_completeness auto
termination by (relation "measure (\<lambda>(_, t, _). size t)") (auto simp: size_child)


definition initial_expanded_state :: "'p call_tree list \<Rightarrow> nat \<Rightarrow> bool jobj" where
  "initial_expanded_state nodes levels = fold (collect_expanded levels) nodes []"

function tree_nodes :: "'p call_tree \<Rightarrow> ('p call_node \<times> bool) list" where
  "tree_nodes (Call_Tree node kids) = (node, nullish kids [] \<noteq> []) # concat (map tree_nodes (nullish kids []))"
  by pat_completeness auto
termination by (relation "measure size") (auto simp: size_child)

section \<open>Building\<close>

lemma those_Some: "those xs = Some ys \<longleftrightarrow> xs = map Some ys"
proof (induction xs arbitrary: ys)
  case (Cons x xs)
  then show ?case by (cases x; cases ys) auto
qed auto

lemma those_exists: "(\<And>x. x \<in> set xs \<Longrightarrow> x \<noteq> None) \<Longrightarrow> \<exists>ys. those xs = Some ys"
proof (induction xs)
  case (Cons x xs)
  then obtain y where "x = Some y" by (cases x) auto
  with Cons show ?case by auto
qed simp

text \<open>The walk ends when what is next ranks lower.\<close>

lemma build_node_exists:
  assumes "\<And>a c. a \<in> R \<Longrightarrow> c \<in> set (next_of dir (items ! a)) \<Longrightarrow> c \<in> R \<and> rank c < rank a"
  shows "a \<in> R \<Longrightarrow> rank a < n \<Longrightarrow> \<exists>t. build_node n dir items mk a nid depth parent = Some t"
proof (induction n arbitrary: a nid depth parent)
  case (Suc n)
  have "\<exists>kids. those (map (\<lambda>(k, c). build_node n dir items mk c (child_id nid k) (Suc depth) (Some nid))
      (List.enumerate 0 (next_of dir (items ! a)))) = Some kids"
  proof (rule those_exists)
    fix x assume "x \<in> set (map (\<lambda>(k, c). build_node n dir items mk c (child_id nid k) (Suc depth) (Some nid))
      (List.enumerate 0 (next_of dir (items ! a))))"
    then obtain k c where x: "x = build_node n dir items mk c (child_id nid k) (Suc depth) (Some nid)"
      and c: "c \<in> set (next_of dir (items ! a))" by (auto simp: in_set_enumerate_eq)
    then have "c \<in> R" "rank c < n" using assms [OF Suc.prems(1) c] Suc.prems(2) by auto
    with Suc.IH x show "x \<noteq> None" by fastforce
  qed
  then show ?case by auto
qed simp

text \<open>What the builder guarantees of every node: the number of nodes below it, and identity, depth and parent of its
  children.\<close>

function tree_ok :: "'p call_tree \<Rightarrow> bool" where
  "tree_ok (Call_Tree node kids) \<longleftrightarrow>
     cn_subtree_size node = length (concat (map tree_nodes (nullish kids []))) \<and>
     map (\<lambda>t. (cn_id (ct_node t), cn_depth (ct_node t), cn_parent_id (ct_node t))) (nullish kids []) =
       map (\<lambda>k. (child_id (cn_id node) k, Suc (cn_depth node), Some (cn_id node))) [0..<length (nullish kids [])] \<and>
     (\<forall>t \<in> set (nullish kids []). tree_ok t)"
  by pat_completeness auto
termination by (relation "measure size") (auto simp: size_child)

definition plain_node :: "(nat \<Rightarrow> string \<Rightarrow> nat \<Rightarrow> string option \<Rightarrow> nat \<Rightarrow> 'p call_node) \<Rightarrow> bool" where
  "plain_node mk \<longleftrightarrow> (\<forall>a nid depth parent sub. cn_id (mk a nid depth parent sub) = nid \<and> cn_depth (mk a nid depth parent sub) = depth \<and>
     cn_parent_id (mk a nid depth parent sub) = parent \<and> cn_subtree_size (mk a nid depth parent sub) = sub \<and>
     cn_item (mk a nid depth parent sub) = a)"

lemma plain_call_node: "plain_node (call_node pc d l r items)"
  by (simp add: plain_node_def call_node_def Let_def)

lemma plain_nodeD:
  assumes "plain_node mk"
  shows "cn_id (mk a nid depth parent sub) = nid" "cn_depth (mk a nid depth parent sub) = depth"
    "cn_parent_id (mk a nid depth parent sub) = parent" "cn_subtree_size (mk a nid depth parent sub) = sub"
    "cn_item (mk a nid depth parent sub) = a"
  using assms by (simp_all add: plain_node_def)

lemma length_tree_nodes: "tree_ok t \<Longrightarrow> length (tree_nodes t) = Suc (cn_subtree_size (ct_node t))"
  by (cases t) simp

lemma build_nodeE:
  assumes "build_node n dir items mk a nid depth parent = Some t"
  obtains m kids where "n = Suc m" "t = Call_Tree (mk a nid depth parent (subtree_size kids)) (if kids = [] then None else Some kids)"
    "length kids = length (next_of dir (items ! a))"
    "\<And>k. k < length kids \<Longrightarrow>
      build_node m dir items mk (next_of dir (items ! a) ! k) (child_id nid k) (Suc depth) (Some nid) = Some (kids ! k)"
proof -
  obtain m where m: "n = Suc m" using assms by (cases n) auto
  let ?build = "\<lambda>(k, c). build_node m dir items mk c (child_id nid k) (Suc depth) (Some nid)"
  obtain kids where kids: "map ?build (List.enumerate 0 (next_of dir (items ! a))) = map Some kids"
    "t = Call_Tree (mk a nid depth parent (subtree_size kids)) (if kids = [] then None else Some kids)"
    using assms by (auto simp: m those_Some split: option.splits)
  have len: "length kids = length (next_of dir (items ! a))" using arg_cong [OF kids(1), of length] by simp
  have "build_node m dir items mk (next_of dir (items ! a) ! k) (child_id nid k) (Suc depth) (Some nid) = Some (kids ! k)"
    if "k < length kids" for k
    using arg_cong [OF kids(1), of "\<lambda>xs. xs ! k"] that len by (simp add: nth_enumerate_eq)
  with m kids(2) len show thesis by (rule that)
qed

lemma nullish_kids [simp]: "nullish (if kids = [] then None else Some kids) [] = kids"
  by simp

lemma build_node_ok:
  assumes mk: "plain_node mk"
  shows "build_node n dir items mk a nid depth parent = Some t \<Longrightarrow>
    tree_ok t \<and> cn_id (ct_node t) = nid \<and> cn_depth (ct_node t) = depth \<and> cn_parent_id (ct_node t) = parent"
proof (induction n arbitrary: a nid depth parent t)
  case (Suc n)
  from Suc.prems obtain kids where t: "t = Call_Tree (mk a nid depth parent (subtree_size kids)) (if kids = [] then None else Some kids)"
    and kids: "\<And>k. k < length kids \<Longrightarrow>
      build_node n dir items mk (next_of dir (items ! a) ! k) (child_id nid k) (Suc depth) (Some nid) = Some (kids ! k)"
    by (rule build_nodeE) auto
  note kid = Suc.IH [OF kids]
  have ok: "\<forall>t \<in> set kids. tree_ok t" using kid by (auto simp: in_set_conv_nth)
  then have "subtree_size kids = length (concat (map tree_nodes kids))"
    by (induction kids) (simp_all add: length_tree_nodes)
  moreover have "map (\<lambda>t. (cn_id (ct_node t), cn_depth (ct_node t), cn_parent_id (ct_node t))) kids =
      map (\<lambda>k. (child_id nid k, Suc depth, Some nid)) [0..<length kids]"
    using kid by (intro nth_equalityI) auto
  ultimately show ?case using ok by (simp only: t tree_ok.simps nullish_kids plain_nodeD [OF mk] call_tree.sel simp_thms)
qed simp

lemma build_node_items:
  assumes mk: "plain_node mk" and R: "\<And>a. a \<in> R \<Longrightarrow> set (next_of dir (items ! a)) \<subseteq> R \<and> pre a = a # concat (map pre (next_of dir (items ! a)))"
  shows "build_node n dir items mk a nid depth parent = Some t \<Longrightarrow> a \<in> R \<Longrightarrow> map (\<lambda>x. cn_item (fst x)) (tree_nodes t) = pre a"
proof (induction n arbitrary: a nid depth parent t)
  case (Suc n)
  from Suc.prems(1) obtain kids where t: "t = Call_Tree (mk a nid depth parent (subtree_size kids)) (if kids = [] then None else Some kids)"
    and len: "length kids = length (next_of dir (items ! a))" and kids: "\<And>k. k < length kids \<Longrightarrow>
      build_node n dir items mk (next_of dir (items ! a) ! k) (child_id nid k) (Suc depth) (Some nid) = Some (kids ! k)"
    by (rule build_nodeE) auto
  have "map (\<lambda>t. map (\<lambda>x. cn_item (fst x)) (tree_nodes t)) kids = map pre (next_of dir (items ! a))"
  proof (rule nth_equalityI)
    fix k assume "k < length (map (\<lambda>t. map (\<lambda>x. cn_item (fst x)) (tree_nodes t)) kids)"
    then have k: "k < length kids" by simp
    then have "next_of dir (items ! a) ! k \<in> R" using R [OF Suc.prems(2)] len by (auto dest: nth_mem)
    from Suc.IH [OF kids [OF k] this] k len
    show "map (\<lambda>t. map (\<lambda>x. cn_item (fst x)) (tree_nodes t)) kids ! k = map pre (next_of dir (items ! a)) ! k"
      by simp
  qed (simp add: len)
  then show ?case
    using R [OF Suc.prems(2)] plain_nodeD(5) [OF mk] by (simp add: t map_concat comp_def del: nullish_def)
qed simp

text \<open>What holds of the nodes made, whatever their place, holds of all nodes of the tree.\<close>

lemma build_node_all:
  assumes "\<And>a nid depth parent sub. a \<in> R \<Longrightarrow> lv a = depth \<Longrightarrow> Q (mk a nid depth parent sub) (next_of dir (items ! a) \<noteq> [])"
    and "\<And>a c. a \<in> R \<Longrightarrow> c \<in> set (next_of dir (items ! a)) \<Longrightarrow> c \<in> R \<and> lv c = Suc (lv a)"
  shows "build_node n dir items mk a nid depth parent = Some t \<Longrightarrow> a \<in> R \<Longrightarrow> lv a = depth \<Longrightarrow> \<forall>x \<in> set (tree_nodes t). Q (fst x) (snd x)"
proof (induction n arbitrary: a nid depth parent t)
  case (Suc n)
  from Suc.prems(1) obtain kids where t: "t = Call_Tree (mk a nid depth parent (subtree_size kids)) (if kids = [] then None else Some kids)"
    and len: "length kids = length (next_of dir (items ! a))" and kids: "\<And>k. k < length kids \<Longrightarrow>
      build_node n dir items mk (next_of dir (items ! a) ! k) (child_id nid k) (Suc depth) (Some nid) = Some (kids ! k)"
    by (rule build_nodeE) auto
  have "\<forall>x \<in> set (tree_nodes u). Q (fst x) (snd x)" if u: "u \<in> set kids" for u
  proof -
    obtain k where k: "k < length kids" "u = kids ! k" using u by (auto simp: in_set_conv_nth)
    then have "next_of dir (items ! a) ! k \<in> set (next_of dir (items ! a))" using len by simp
    then show ?thesis using Suc.IH [OF kids [OF k(1)]] assms(2) [OF Suc.prems(2)] Suc.prems(3) k(2) by auto
  qed
  moreover have "kids \<noteq> [] \<longleftrightarrow> next_of dir (items ! a) \<noteq> []" using len by (metis length_0_conv)
  ultimately show ?case using assms(1) [OF Suc.prems(2,3)] by (auto simp: t)
qed simp

section \<open>Identifiers\<close>

definition tree_ids :: "'p call_tree \<Rightarrow> string list" where
  "tree_ids t = map (\<lambda>x. cn_id (fst x)) (tree_nodes t)"

lemma tree_ids_simps: "tree_ids (Call_Tree node kids) = cn_id node # concat (map tree_ids (nullish kids []))"
  by (simp add: tree_ids_def [abs_def] map_concat comp_def)

lemma digit_char_no_dot: "d < 10 \<Longrightarrow> digit_char d \<noteq> CHR ''.''"
  using of_char_digit_char [of d] by auto

lemma no_dot_digit: "c \<in> set (string_of_nat n) \<Longrightarrow> c \<noteq> CHR ''.''"
proof (induction n rule: string_of_nat.induct)
  case (1 n)
  then show ?case
    using digit_char_no_dot [of n] digit_char_no_dot [of "n mod 10"]
    by (subst (asm) (2) string_of_nat.simps) (auto split: if_splits)
qed

definition below_id :: "string \<Rightarrow> string \<Rightarrow> bool" where
  "below_id nid x \<longleftrightarrow> (\<exists>r. x = nid @ r \<and> (r = [] \<or> hd r = CHR ''.''))"

lemma below_id_child: "below_id (child_id nid k) x \<Longrightarrow> below_id nid x \<and> x \<noteq> nid"
  by (auto simp: below_id_def)

lemma below_id_siblings:
  assumes "below_id (nid @ string_of_nat j) x" "below_id (nid @ string_of_nat k) x"
  shows "j = k"
proof -
  have digits: "takeWhile (\<lambda>c. c \<noteq> CHR ''.'') (string_of_nat i @ r) = string_of_nat i" if "r = [] \<or> hd r = CHR ''.''" for i r
    using that no_dot_digit by (cases r) (auto simp: takeWhile_append2)
  obtain r where r: "x = nid @ string_of_nat j @ r" "r = [] \<or> hd r = CHR ''.''"
    using assms(1) unfolding below_id_def append_assoc by blast
  obtain r' where r': "x = nid @ string_of_nat k @ r'" "r' = [] \<or> hd r' = CHR ''.''"
    using assms(2) unfolding below_id_def append_assoc by blast
  from r r' digits have "string_of_nat j = string_of_nat k" by (metis same_append_eq)
  then show ?thesis by (rule string_of_nat_inj)
qed

lemma distinct_concat_disjoint:
  "(\<And>i. i < length xss \<Longrightarrow> distinct (xss ! i)) \<Longrightarrow>
   (\<And>i j x. i < length xss \<Longrightarrow> j < length xss \<Longrightarrow> x \<in> set (xss ! i) \<Longrightarrow> x \<in> set (xss ! j) \<Longrightarrow> i = j) \<Longrightarrow> distinct (concat xss)"
proof (induction xss)
  case (Cons xs xss)
  have "distinct (concat xss)"
    using Cons.prems(1) [of "Suc i" for i] Cons.prems(2) [of "Suc i" "Suc j" for i j] by (intro Cons.IH) auto
  moreover have "distinct xs" using Cons.prems(1) [of 0] by simp
  moreover have "x \<notin> set xs" if "x \<in> set ys" "ys \<in> set xss" for x ys
  proof -
    obtain j where "j < length xss" "ys = xss ! j" using \<open>ys \<in> set xss\<close> by (auto simp: in_set_conv_nth)
    then show ?thesis using Cons.prems(2) [of 0 "Suc j" x] that(1) by auto
  qed
  ultimately show ?case by auto
qed simp

lemma tree_ids_distinct: "tree_ok t \<Longrightarrow> distinct (tree_ids t) \<and> (\<forall>x \<in> set (tree_ids t). below_id (cn_id (ct_node t)) x)"
proof (induction t rule: tree_ok.induct)
  case (1 node kids)
  let ?kids = "nullish kids []"
  have ids: "cn_id (ct_node (?kids ! k)) = child_id (cn_id node) k" if "k < length ?kids" for k
    using 1(2) that by (auto dest: arg_cong [of _ _ "\<lambda>xs. xs ! k"])
  have kid: "distinct (tree_ids (?kids ! k))" "\<And>x. x \<in> set (tree_ids (?kids ! k)) \<Longrightarrow> below_id (child_id (cn_id node) k) x"
    if "k < length ?kids" for k
  proof -
    have k: "?kids ! k \<in> set ?kids" using that by simp
    then have "tree_ok (?kids ! k)" using 1(2) by simp
    from 1(1) [OF k this] ids [OF that] show "distinct (tree_ids (?kids ! k))"
      "\<And>x. x \<in> set (tree_ids (?kids ! k)) \<Longrightarrow> below_id (child_id (cn_id node) k) x" by simp_all
  qed
  have "distinct (concat (map tree_ids ?kids))"
  proof (rule distinct_concat_disjoint)
    fix i j x assume "i < length (map tree_ids ?kids)" "j < length (map tree_ids ?kids)"
      "x \<in> set (map tree_ids ?kids ! i)" "x \<in> set (map tree_ids ?kids ! j)"
    then show "i = j"
      using kid(2) [of i x] kid(2) [of j x] below_id_siblings [of "cn_id node @ ''.''" i x j] by simp
  qed (use kid(1) in simp)
  moreover have "below_id (cn_id node) x \<and> x \<noteq> cn_id node" if "x \<in> set (concat (map tree_ids ?kids))" for x
  proof -
    obtain t where t: "t \<in> set ?kids" "x \<in> set (tree_ids t)" using \<open>x \<in> set (concat (map tree_ids ?kids))\<close> by auto
    from t(1) obtain k where "k < length ?kids" "?kids ! k = t" by (auto simp: in_set_conv_nth)
    with t(2) kid(2) show ?thesis using below_id_child by blast
  qed
  moreover have "below_id (cn_id node) (cn_id node)" by (simp add: below_id_def)
  ultimately show ?case by (auto simp: tree_ids_simps)
qed

section \<open>The tree of a nested set\<close>

function row_preorder :: "nat list \<Rightarrow> nat \<Rightarrow> nat list" where
  "row_preorder ls i = i # concat (map (\<lambda>c. if i < c \<and> c < length ls then row_preorder ls c else []) (rows_under ls i (length ls)))"
  by auto
termination by (relation "measure (\<lambda>(ls, i). length ls - i)") auto

declare row_preorder.simps [simp del]

lemma row_preorder_eq: "row_preorder ls i = i # concat (map (row_preorder ls) (rows_under ls i (length ls)))"
proof -
  have "map (\<lambda>c. if i < c \<and> c < length ls then row_preorder ls c else []) (rows_under ls i (length ls)) =
      map (row_preorder ls) (rows_under ls i (length ls))"
    by (intro map_cong refl) (auto dest: rows_under_range)
  then show ?thesis by (subst row_preorder.simps) (simp only:)
qed

text \<open>The rows still to come are those below the rows that are pending, in order.\<close>

lemma preorder_pending:
  assumes ns: "nested_set ls"
  shows "n = length ls - i \<Longrightarrow> i \<le> length ls \<Longrightarrow> concat (map (row_preorder ls) (pending ls i)) = [i..<length ls]"
proof (induction n arbitrary: i)
  case 0
  then show ?case by (simp add: pending_def)
next
  case (Suc n)
  then have i: "i < length ls" by simp
  obtain rest where rest: "pending ls i = i # rest" "rows_under ls i (length ls) @ rest = pending ls (Suc i)"
    using pending_step [OF ns i] by blast
  have "concat (map (row_preorder ls) (pending ls i)) = i # concat (map (row_preorder ls) (pending ls (Suc i)))"
    unfolding rest(1) rest(2) [symmetric] by (simp add: row_preorder_eq [of ls i])
  also have "concat (map (row_preorder ls) (pending ls (Suc i))) = [Suc i..<length ls]"
    using Suc.prems by (intro Suc.IH) linarith+
  finally show ?case using i by (simp add: upt_conv_Cons)
qed

lemma row_preorder_all: "nested_set ls \<Longrightarrow> 0 < length ls \<Longrightarrow> row_preorder ls 0 = [0..<length ls]"
  using preorder_pending [of ls "length ls" 0] pending_start [of ls] by simp

lemma row_level_parent: "row_parent ls c = Some i \<Longrightarrow> ls ! c = Suc (ls ! i)"
  by (simp add: row_parent_Some)

text \<open>
  C30. The call tree of a nested set is built with fuel for its rows, has one root, and lists every row exactly once, in the
  order of the rows. Each node is as deep as the level of its row, has children exactly when the row has, and knows how many
  nodes are below it; its children carry its identifier, extended by their position, and no two nodes of the tree have the
  same identifier.
\<close>

theorem call_tree_lists_rows:
  assumes "nested_set (fd_level d)" and "0 < fd_rows d" and "fd_rows d \<le> n"
  shows "\<exists>t. build_all_call_tree_nodes n pc d = Inr (Some [t]) \<and>
    map (\<lambda>x. cn_item (fst x)) (tree_nodes t) = [0..<fd_rows d] \<and> tree_ok t \<and>
    (\<forall>(node, parent) \<in> set (tree_nodes t). cn_depth node = fd_level d ! cn_item node \<and>
       cn_label node = get_label d (cn_item node) \<and> cn_self node = get_self d [cn_item node] \<and>
       cn_total node + nullish (cn_total_right node) 0 = row_total d (cn_item node) \<and>
       parent = (rows_under (fd_level d) (cn_item node) (fd_rows d) \<noteq> [])) \<and>
    distinct (map (\<lambda>x. cn_id (fst x)) (tree_nodes t))"
proof -
  obtain s where s: "nested_set_to_levels d = Inr s" "rows_done d (fd_rows d) s" using nested_set_done [OF assms(1)] by blast
  let ?items = "fs_items s" and ?R = "{..<fd_rows d}"
  note item = rows_done_item [OF s(2)]
  have kids: "next_of Children (?items ! a) = rows_under (fd_level d) a (fd_rows d)" if "a \<in> ?R" for a using item(6) that by simp
  have kid: "c \<in> ?R" "a < c" "fd_level d ! c = Suc (fd_level d ! a)" if "a \<in> ?R" "c \<in> set (next_of Children (?items ! a))" for a c
  proof -
    have "c \<in> set (rows_under (fd_level d) a (fd_rows d))" using that kids by simp
    then show "c \<in> ?R" "a < c" "fd_level d ! c = Suc (fd_level d ! a)"
      using row_level_parent row_parent_less by (auto simp: in_rows_under)
  qed
  obtain ls where levels: "fs_levels s = Some [0] # ls" using root_level [OF assms(1,2) s(2)] by blast
  let ?right = "if is_diff d then nullish (li_value_right (?items ! 0)) 0 else 0"
  let ?mk = "call_node pc d (li_value (?items ! 0) - ?right) ?right ?items"
  have "\<exists>t. build_node n Children ?items ?mk 0 (string_of_nat 0) 0 None = Some t"
  proof (rule build_node_exists [where R = ?R and rank = "\<lambda>a. fd_rows d - Suc a"])
    fix a c assume "a \<in> ?R" "c \<in> set (next_of Children (?items ! a))"
    from kid [OF this] show "c \<in> ?R \<and> fd_rows d - Suc c < fd_rows d - Suc a" by auto
  next
    show "0 \<in> ?R" using assms(2) by simp
    show "fd_rows d - Suc 0 < n" using assms(2,3) by linarith
  qed
  then obtain t where t: "build_node n Children ?items ?mk 0 (string_of_nat 0) 0 None = Some t" by blast
  have built: "build_all_call_tree_nodes n pc d = Inr (Some [t])"
    using s(1) levels t by (simp add: build_all_call_tree_nodes_def build_roots_def Let_def)
  have ok: "tree_ok t" using build_node_ok [OF plain_call_node t] by simp
  have pre: "map (\<lambda>x. cn_item (fst x)) (tree_nodes t) = row_preorder (fd_level d) 0"
  proof (rule build_node_items [OF plain_call_node _ t, of ?R])
    fix a assume a: "a \<in> ?R"
    show "set (next_of Children (?items ! a)) \<subseteq> ?R \<and>
        row_preorder (fd_level d) a = a # concat (map (row_preorder (fd_level d)) (next_of Children (?items ! a)))"
      unfolding kids [OF a] using row_preorder_eq rows_under_range by blast
  qed (use assms in auto)
  have "\<forall>x \<in> set (tree_nodes t). cn_depth (fst x) = fd_level d ! cn_item (fst x) \<and>
       cn_label (fst x) = get_label d (cn_item (fst x)) \<and> cn_self (fst x) = get_self d [cn_item (fst x)] \<and>
       cn_total (fst x) + nullish (cn_total_right (fst x)) 0 = row_total d (cn_item (fst x)) \<and>
       snd x = (rows_under (fd_level d) (cn_item (fst x)) (fd_rows d) \<noteq> [])"
  proof (rule build_node_all [OF _ _ t, where R = ?R and lv = "\<lambda>a. fd_level d ! a"])
    fix a nid depth parent sub assume a: "a \<in> ?R" "fd_level d ! a = depth"
    then show "cn_depth (?mk a nid depth parent sub) = fd_level d ! cn_item (?mk a nid depth parent sub) \<and>
       cn_label (?mk a nid depth parent sub) = get_label d (cn_item (?mk a nid depth parent sub)) \<and>
       cn_self (?mk a nid depth parent sub) = get_self d [cn_item (?mk a nid depth parent sub)] \<and>
       cn_total (?mk a nid depth parent sub) + nullish (cn_total_right (?mk a nid depth parent sub)) 0 =
         row_total d (cn_item (?mk a nid depth parent sub)) \<and>
       (next_of Children (?items ! a) \<noteq> []) = (rows_under (fd_level d) (cn_item (?mk a nid depth parent sub)) (fd_rows d) \<noteq> [])"
      using item(1,2) [of a] kids [OF a(1)] by (simp add: call_node_def Let_def)
  next
    fix a c assume "a \<in> ?R" "c \<in> set (next_of Children (?items ! a))"
    from kid [OF this] show "c \<in> ?R \<and> fd_level d ! c = Suc (fd_level d ! a)" by simp
  qed (use assms nested_set_level [OF assms(1), of 0] in auto)
  with built ok pre row_preorder_all [OF assms(1,2)] tree_ids_distinct [OF ok] show ?thesis
    by (auto simp: tree_ids_def)
qed

definition no_percents :: "unit percents" where
  "no_percents = \<lparr>pc_of = (\<lambda>_ _. ()), pc_zero = (), pc_diff = (\<lambda>_ _. ())\<rparr>"

lemma call_tree_lists_rows_witness:
  "\<exists>t. build_all_call_tree_nodes 5 no_percents sample_flame = Inr (Some [t]) \<and>
     map (\<lambda>x. cn_item (fst x)) (tree_nodes t) = [0, 1, 2, 3, 4]"
proof -
  have rows: "fd_rows sample_flame = 5" by (simp add: sample_flame_def)
  have "[0..<5] = [0, 1, 2, 3, 4 :: nat]" by (simp add: upt_rec)
  with call_tree_lists_rows [OF sample_flame_nested, of 5 no_percents] show ?thesis unfolding rows by force
qed

lemma fold_concat_map: "fold f (concat xss) s = fold (fold f) xss s"
  by (induction xss arbitrary: s) simp_all

lemma collect_expanded_nodes:
  "collect_expanded levels t e =
     fold (\<lambda>(node, parent) e. if cn_depth node < levels \<and> parent then jo_set (cn_id node) True e else e) (tree_nodes t) e"
proof (induction levels t e rule: collect_expanded.induct)
  case (1 levels node kids e)
  let ?f = "\<lambda>(node, parent) e. if cn_depth node < levels \<and> parent then jo_set (cn_id node) True e else e"
  have "fold (collect_expanded levels) ts e = fold (fold ?f) (map tree_nodes ts) e" if "set ts \<subseteq> set (nullish kids [])" for ts e
    using that 1 by (induction ts arbitrary: e) auto
  then show ?case by (simp add: fold_concat_map)
qed

lemma initial_expanded_get:
  "jo_get (fold (\<lambda>(node, parent) e. if cn_depth node < levels \<and> parent then jo_set (cn_id node) True e else e) xs e) k =
    (if \<exists>(node, parent) \<in> set xs. cn_id node = k \<and> cn_depth node < levels \<and> parent then Some True else jo_get e k)"
proof (induction xs arbitrary: e)
  case (Cons x xs)
  obtain node parent where x: "x = (node, parent)" by (cases x)
  show ?case
    by (cases "cn_depth node < levels \<and> parent"; cases "cn_id node = k")
       (auto simp: x Cons.IH jo_get_set simp del: fold_simps intro: Cons.IH [unfolded comp_def])
qed simp

text \<open>
  The nodes expanded at first are exactly those above the given depth that have children.
\<close>

theorem initially_expanded:
  shows "jo_get (initial_expanded_state ts levels) k =
    (if \<exists>t \<in> set ts. \<exists>(node, parent) \<in> set (tree_nodes t). cn_id node = k \<and> cn_depth node < levels \<and> parent then Some True else None)"
proof -
  let ?f = "\<lambda>(node, parent) e. if cn_depth node < levels \<and> parent then jo_set (cn_id node) True e else e"
  have "fold (collect_expanded levels) ts e = fold ?f (concat (map tree_nodes ts)) e" for e
    by (induction ts arbitrary: e) (simp_all add: collect_expanded_nodes)
  then have "initial_expanded_state ts levels = fold ?f (concat (map tree_nodes ts)) []"
    by (simp add: initial_expanded_state_def)
  then show ?thesis
    by (simp add: initial_expanded_get jo.wf_empty jo.get_empty)
qed

section \<open>The tree of callers\<close>

text \<open>
  The tree of the callers of occurrences is built with fuel for their levels. Its root is the item that stands for the
  occurrences, its nodes count the nodes below them, and no two have the same identifier. In a comparison every node has
  zero as its right total, and as its left total all of its value, whatever the data: the merge drops the right values.
\<close>

theorem callers_tree_built:
  assumes "nested_set (fd_level d)" and "nested_set_to_levels d = Inr s" and "roots \<noteq> []" and "set roots \<subseteq> {..<fd_rows d}"
    and "fd_rows d \<le> n" and "sum_list (map Suc roots) \<le> k" and "fd_rows d \<le> m"
  shows "\<exists>ms t. merge_parent_subtrees n k (get_label d) (fs_items s) roots = Some ms \<and>
    build_callers_tree m pc d ms = Some [t] \<and> tree_ok t \<and> distinct (map (\<lambda>x. cn_id (fst x)) (tree_nodes t)) \<and>
    cn_total (ct_node t) = sum_list (map (row_total d) roots) \<and>
    (\<forall>(node, parent) \<in> set (tree_nodes t). cn_total node = li_value (ms_items ms ! cn_item node) \<and>
       cn_total_right node = (if is_diff d then Some 0 else None))"
proof -
  have s: "rows_done d (fd_rows d) s" using nested_set_done [OF assms(1)] assms(2) by auto
  obtain ms0 ms grp roots' src where up: "merge_parent_subtrees n k (get_label d) (fs_items s) roots = Some ms"
    and src: "all_copied d src {}" "set roots' \<subseteq> copies d src"
      "map (\<lambda>c. (li_value (src ! c), li_indexes (src ! c))) roots' = map (\<lambda>r. (row_total d r, [r])) roots"
    and shape: "merged_shape Parents (get_label d) src roots' grp ms0" and levels: "ms_levels ms = rev (ms_levels ms0)"
    and len: "length (ms_items ms) = length (ms_items ms0)"
    and items: "\<And>a. a < length (ms_items ms0) \<Longrightarrow> ms_items ms ! a =
       set_level (length (ms_levels ms0) - Suc (li_level (ms_items ms0 ! a))) (ms_items ms0 ! a)"
    using callers_shape [OF s assms(3-6)] by blast
  let ?H = "length (ms_levels ms0)" and ?R = "{..<length (ms_items ms0)}"
  obtain a where a: "ms_levels ms0 ! 0 = Some [a]" "a < length (ms_items ms0)" "grp a = roots'" "li_level (ms_items ms0 ! a) = 0"
  proof -
    have "0 < ?H" using merged_shape_levels [OF shape, of 0] by simp
    then obtain as where as: "ms_levels ms0 ! 0 = Some as" "map grp as = [roots']" "\<And>a. a \<in> set as \<Longrightarrow> a < length (ms_items ms0)"
      "\<And>a. a \<in> set as \<Longrightarrow> li_level (ms_items ms0 ! a) = 0"
      by (rule merged_shape_level [OF shape]) auto
    from as(2) obtain a where "as = [a]" "grp a = roots'" by auto
    with as show thesis by (intro that [of a]) auto
  qed
  have H: "0 < ?H" "?H \<le> m"
  proof -
    show "0 < ?H" using merged_shape_levels [OF shape, of 0] by simp
    have "\<not> fd_rows d < ?H"
    proof
      assume "fd_rows d < ?H"
      then have "caller_groups d roots (fd_rows d) \<noteq> []"
        using merged_shape_levels [OF shape, of "fd_rows d"] caller_levels(1) [OF src, of "fd_rows d"] by simp
      then obtain r where "r \<in> set roots" "fd_rows d \<le> fd_level d ! r"
        using caller_groups_nonempty [OF assms(1,4,3)] by blast
      with assms(4) nested_level_le [OF assms(1), of r] show False by fastforce
    qed
    with assms(7) show "?H \<le> m" by simp
  qed
  have kid: "c \<in> ?R" "li_level (ms_items ms0 ! c) = Suc (li_level (ms_items ms0 ! b))"
    "li_level (ms_items ms ! c) < li_level (ms_items ms ! b)"
    if b: "b \<in> ?R" and c: "c \<in> set (next_of Parents (ms_items ms ! b))" for b c
  proof -
    have b0: "b < length (ms_items ms0)" using b by simp
    have c0: "c \<in> set (next_of Parents (ms_items ms0 ! b))" using c by (simp add: items [OF b0])
    then obtain us vs where "next_of Parents (ms_items ms0 ! b) = us @ c # vs" by (auto simp: in_set_conv_decomp)
    note lv = merged_shape_item(9) [OF shape b0 this]
    have c1: "c < length (ms_items ms0)" using merged_shape_item(6) [OF shape b0 c0] .
    then show "c \<in> ?R" by simp
    show "li_level (ms_items ms0 ! c) = Suc (li_level (ms_items ms0 ! b))" by (rule lv)
    show "li_level (ms_items ms ! c) < li_level (ms_items ms ! b)"
      using lv merged_shape_item(1) [OF shape c1] by (simp add: items [OF b0] items [OF c1])
  qed
  have last: "last (ms_levels ms) = Some [a]" "ms_levels ms \<noteq> []"
    using a(1) H(1) by (auto simp: levels last_rev hd_conv_nth)
  have val: "li_value (ms_items ms ! a) = sum_list (map (row_total d) roots)"
    using merged_shape_item(3) [OF shape a(2)] arg_cong [OF src(3), of "map fst"]
    by (simp add: items [OF a(2)] a(3) group_value_def comp_def)
  have none: "li_value_right (ms_items ms ! b) = None" if "b < length (ms_items ms0)" for b
    using merged_shape_item(4) [OF shape that] by (simp add: items [OF that])
  let ?mk = "call_node pc d (li_value (ms_items ms ! a)) 0 (ms_items ms)"
  have "\<exists>t. build_node m Parents (ms_items ms) ?mk a (string_of_nat 0) 0 None = Some t"
  proof (rule build_node_exists [where R = ?R and rank = "\<lambda>b. li_level (ms_items ms ! b)"])
    show "a \<in> ?R" using a(2) by simp
    have "li_level (ms_items ms ! a) = ?H - Suc 0" using a(2,4) by (simp add: items)
    then show "li_level (ms_items ms ! a) < m" using H by linarith
  qed (use kid in blast)
  then obtain t where t: "build_node m Parents (ms_items ms) ?mk a (string_of_nat 0) 0 None = Some t" by blast
  have built: "build_callers_tree m pc d ms = Some [t]"
    using last none [OF a(2)] t by (simp add: build_callers_tree_def build_roots_def Let_def)
  have ok: "tree_ok t" using build_node_ok [OF plain_call_node t] by simp
  have all: "\<forall>x \<in> set (tree_nodes t). cn_item (fst x) < length (ms_items ms0) \<and>
      cn_total (fst x) = li_value (ms_items ms ! cn_item (fst x)) \<and> cn_total_right (fst x) = (if is_diff d then Some 0 else None)"
  proof (rule build_node_all [OF _ _ t, where R = ?R and lv = "\<lambda>b. li_level (ms_items ms0 ! b)"])
    fix b c assume b: "b \<in> ?R" and c: "c \<in> set (next_of Parents (ms_items ms ! b))"
    show "c \<in> ?R \<and> li_level (ms_items ms0 ! c) = Suc (li_level (ms_items ms0 ! b))" by (rule conjI [OF kid(1) [OF b c] kid(2) [OF b c]])
  next
    show "a \<in> ?R" "li_level (ms_items ms0 ! a) = 0" using a by simp_all
  qed (use none in \<open>auto simp: call_node_def Let_def\<close>)
  have root: "cn_total (ct_node t) = li_value (ms_items ms ! a)"
    by (rule build_nodeE [OF t]) (use none [OF a(2)] in \<open>simp add: call_node_def Let_def\<close>)
  show ?thesis
    using up built ok all root val tree_ids_distinct [OF ok] by (intro exI [of _ ms] exI [of _ t]) (auto simp: tree_ids_def)
qed

definition sample_diff :: flame_data where
  "sample_diff = \<lparr>fd_label = [''main'', ''a''], fd_level = [0, 1], fd_value = [10, 6], fd_self = [4, 6],
     fd_value_right = Some [5, 3], fd_self_right = Some [2, 3]\<rparr>"

lemma callers_tree_built_witness:
  "\<exists>s ms t. nested_set_to_levels sample_diff = Inr s \<and>
     merge_parent_subtrees 2 2 (get_label sample_diff) (fs_items s) [1] = Some ms \<and>
     build_callers_tree 2 no_percents sample_diff ms = Some [t] \<and>
     cn_total (ct_node t) = 9 \<and> cn_total_right (ct_node t) = Some 0 \<and> get_value_right sample_diff [1] = 3"
proof -
  have ns: "nested_set (fd_level sample_diff)" by (auto simp: sample_diff_def nested_set_def nth_Cons')
  obtain s where s: "nested_set_to_levels sample_diff = Inr s" using nested_set_done [OF ns] by blast
  have hyps: "[1 :: nat] \<noteq> []" "set [1] \<subseteq> {..<fd_rows sample_diff}" "fd_rows sample_diff \<le> 2" "sum_list (map Suc [1]) \<le> 2"
    "fd_rows sample_diff \<le> 2"
    by (simp_all add: sample_diff_def)
  have vals: "is_diff sample_diff" "sum_list (map (row_total sample_diff) [1]) = 9" "get_value_right sample_diff [1] = 3"
    by code_simp+
  obtain ms t where ms: "merge_parent_subtrees 2 2 (get_label sample_diff) (fs_items s) [1] = Some ms"
    and t: "build_callers_tree 2 no_percents sample_diff ms = Some [t]" and whole: "cn_total (ct_node t) = 9"
    and all: "\<forall>(node, parent) \<in> set (tree_nodes t). cn_total_right node = Some 0"
    using callers_tree_built [OF ns s hyps, of no_percents] vals by fastforce
  have "\<exists>parent. (ct_node t, parent) \<in> set (tree_nodes t)" by (cases t) auto
  with all have "cn_total_right (ct_node t) = Some 0" by fastforce
  with s ms t whole vals(3) show ?thesis by blast
qed

end
