(* ===== verification/Murmur.thy ===== *)
theory Murmur
  imports "HOL-Library.Word" Js_Prelude
begin

unbundle bit_operations_syntax

text \<open>
  The hash that chooses the colour of a package, \<open>packages/grafana-flamegraph/src/FlameGraph/murmur3.ts\<close>, and the choice,
  \<open>getBarColorByPackage\<close> of \<open>colors.ts\<close>.

  Numbers of the source are doubles. They are modelled as integers, and every product and sum goes through \<open>exact\<close>, which
  is undefined where a double would round; the bit operators read their operands modulo \<open>2 ^ 32\<close> and, but for \<open>>>>\<close>, give a
  signed number. A string is the list of its UTF-16 code units.
\<close>

section \<open>Numbers\<close>

definition exact :: "int \<Rightarrow> int option" where
  "exact x = (if \<bar>x\<bar> \<le> 2 ^ 53 then Some x else None)"

abbreviation to_w32 :: "int \<Rightarrow> 32 word" where
  "to_w32 \<equiv> word_of_int"

definition js_and :: "int \<Rightarrow> int \<Rightarrow> int" where
  "js_and a b = sint (to_w32 a AND to_w32 b)"

definition js_or :: "int \<Rightarrow> int \<Rightarrow> int" where
  "js_or a b = sint (to_w32 a OR to_w32 b)"

definition js_xor :: "int \<Rightarrow> int \<Rightarrow> int" where
  "js_xor a b = sint (to_w32 a XOR to_w32 b)"

definition js_shl :: "int \<Rightarrow> nat \<Rightarrow> int" where
  "js_shl a n = sint (push_bit n (to_w32 a))"

definition js_ushr :: "int \<Rightarrow> nat \<Rightarrow> int" where
  "js_ushr a n = uint (drop_bit n (to_w32 a))"

section \<open>The hash\<close>

text \<open>\<open>((k & 0xffff) * c + ((((k >>> 16) * c) & 0xffff) << 16)) & 0xffffffff\<close>\<close>

definition mul32 :: "int \<Rightarrow> int \<Rightarrow> int option" where
  "mul32 k c =
     Option.bind (exact (js_and k 0xffff * c)) (\<lambda>low.
     Option.bind (exact (js_ushr k 16 * c)) (\<lambda>high.
     Option.bind (exact (low + js_shl (js_and high 0xffff) 16)) (\<lambda>s.
     Some (js_and s 0xffffffff))))"

definition rotate :: "int \<Rightarrow> nat \<Rightarrow> int" where
  "rotate k n = js_or (js_shl k n) (js_ushr k (32 - n))"

definition scramble :: "int \<Rightarrow> int option" where
  "scramble k1 = Option.bind (mul32 k1 0xcc9e2d51) (\<lambda>k1. mul32 (rotate k1 15) 0x1b873593)"

definition block_at :: "int list \<Rightarrow> nat \<Rightarrow> int" where
  "block_at key i =
     js_or (js_or (js_or (js_and (key ! i) 0xff) (js_shl (js_and (key ! (i + 1)) 0xff) 8))
       (js_shl (js_and (key ! (i + 2)) 0xff) 16)) (js_shl (js_and (key ! (i + 3)) 0xff) 24)"

definition hash_block :: "int \<Rightarrow> int \<Rightarrow> int option" where
  "hash_block k1 h1 =
     Option.bind (scramble k1) (\<lambda>k1.
     Option.bind (mul32 (rotate (js_xor h1 k1) 13) 5) (\<lambda>h1b.
     exact (js_and h1b 0xffff + 0x6b64 + js_shl (js_and (js_ushr h1b 16 + 0xe654) 0xffff) 16)))"

function hash_blocks :: "int list \<Rightarrow> nat \<Rightarrow> nat \<Rightarrow> int \<Rightarrow> int option" where
  "hash_blocks key i bytes h1 =
     (if i < bytes then Option.bind (hash_block (block_at key i) h1) (hash_blocks key (i + 4) bytes) else Some h1)"
  by auto
termination by (relation "measure (\<lambda>(_, i, bytes, _). bytes - i)") auto

declare hash_blocks.simps [simp del]

definition tail_at :: "int list \<Rightarrow> nat \<Rightarrow> nat \<Rightarrow> int" where
  "tail_at key i remainder =
     (let k1 = (if remainder = 3 then js_xor 0 (js_shl (js_and (key ! (i + 2)) 0xff) 16) else 0);
          k1 = (if remainder \<in> {2, 3} then js_xor k1 (js_shl (js_and (key ! (i + 1)) 0xff) 8) else k1) in
      if remainder \<in> {1, 2, 3} then js_xor k1 (js_and (key ! i) 0xff) else k1)"

definition finish :: "int \<Rightarrow> int option" where
  "finish h1 =
     Option.bind (mul32 (js_xor h1 (js_ushr h1 16)) 0x85ebca6b) (\<lambda>h1.
     Option.bind (mul32 (js_xor h1 (js_ushr h1 13)) 0xc2b2ae35) (\<lambda>h1.
     Some (js_xor h1 (js_ushr h1 16))))"

definition murmurhash3_32_gc :: "int list \<Rightarrow> int \<Rightarrow> int option" where
  "murmurhash3_32_gc key seed =
     (let remainder = length key mod 4; bytes = length key - remainder in
      Option.bind (hash_blocks key 0 bytes seed) (\<lambda>h1.
      Option.bind (scramble (tail_at key bytes remainder)) (\<lambda>k1.
      Option.bind (finish (js_xor (js_xor h1 k1) (int (length key)))) (\<lambda>h1.
      Some (js_ushr h1 0)))))"

text \<open>The index into the 24 colours.\<close>

definition package_color :: "int list \<Rightarrow> int option" where
  "package_color package = map_option (\<lambda>h. h mod 24) (murmurhash3_32_gc package 0)"

section \<open>MurmurHash3 on 32-bit words\<close>

definition scramble_ref :: "32 word \<Rightarrow> 32 word" where
  "scramble_ref k = word_rotl 15 (k * 0xcc9e2d51) * 0x1b873593"

definition hash_block_ref :: "32 word \<Rightarrow> 32 word \<Rightarrow> 32 word" where
  "hash_block_ref k h = word_rotl 13 (h XOR scramble_ref k) * 5 + 0xe6546b64"

text \<open>A block of at most four bytes, the first the least significant.\<close>

definition bytes_ref :: "int list \<Rightarrow> 32 word" where
  "bytes_ref cs = word_of_int (horner_sum (\<lambda>c. c mod 256) 256 cs)"

fun hash_ref :: "int list \<Rightarrow> 32 word \<Rightarrow> 32 word" where
  "hash_ref (a # b # c # d # cs) h = hash_ref cs (hash_block_ref (bytes_ref [a, b, c, d]) h)"
| "hash_ref cs h = h XOR scramble_ref (bytes_ref cs)"

definition finish_ref :: "32 word \<Rightarrow> 32 word" where
  "finish_ref h =
     (let h = (h XOR drop_bit 16 h) * 0x85ebca6b; h = (h XOR drop_bit 13 h) * 0xc2b2ae35 in h XOR drop_bit 16 h)"

definition murmur3_ref :: "int list \<Rightarrow> 32 word \<Rightarrow> 32 word" where
  "murmur3_ref key seed = finish_ref (hash_ref key seed XOR of_nat (length key))"

section \<open>The operators on words\<close>

lemma to_w32_ops [simp]:
  "to_w32 (js_and a b) = to_w32 a AND to_w32 b" "to_w32 (js_or a b) = to_w32 a OR to_w32 b"
  "to_w32 (js_xor a b) = to_w32 a XOR to_w32 b" "to_w32 (js_shl a n) = push_bit n (to_w32 a)"
  "to_w32 (js_ushr a n) = drop_bit n (to_w32 a)"
  by (simp_all add: js_and_def js_or_def js_xor_def js_shl_def js_ushr_def)

lemma sint_to_w32: "- (2 ^ 31) \<le> x \<Longrightarrow> x < 2 ^ 31 \<Longrightarrow> sint (to_w32 x) = x"
  by (simp add: sint_sbintrunc' signed_take_bit_int_eq_self)

lemma to_w32_mask: "to_w32 (k mod 2 ^ n) = to_w32 k AND mask n"
proof -
  have "k mod 2 ^ n = k AND mask n" by (simp add: take_bit_eq_mask [symmetric] take_bit_eq_mod)
  then have "to_w32 (k mod 2 ^ n) = to_w32 k AND to_w32 (mask n)" by (simp only: word_wi_log_defs)
  moreover have "to_w32 (mask n) = mask n" by (simp add: mask_eq_exp_minus_1)
  ultimately show ?thesis by simp
qed

lemma js_and_mask:
  assumes "n \<le> 31"
  shows "sint (to_w32 k AND mask n) = k mod 2 ^ n"
proof -
  have "k mod 2 ^ n < 2 ^ n" by simp
  also have "(2 :: int) ^ n \<le> 2 ^ 31" using assms by (intro power_increasing) simp_all
  finally have "sint (to_w32 (k mod 2 ^ n)) = k mod 2 ^ n" by (intro sint_to_w32) (simp_all add: order_trans [of _ 0])
  then show ?thesis using to_w32_mask [of k n] by simp
qed

lemma js_and_ffff: "js_and k 65535 = k mod 65536"
  using js_and_mask [of 16 k] by (simp add: js_and_def mask_eq_exp_minus_1)

lemma js_and_ff: "js_and k 255 = k mod 256"
  using js_and_mask [of 8 k] by (simp add: js_and_def mask_eq_exp_minus_1)

lemma js_and_all: "js_and k 4294967295 = sint (to_w32 k)"
proof -
  have "to_w32 4294967295 = - 1" by simp
  then show ?thesis unfolding js_and_def by (simp only: word_and_max)
qed

lemma js_ushr_eq: "js_ushr k n = k mod 2 ^ 32 div 2 ^ n"
proof -
  have "k mod 2 ^ 32 div 2 ^ n = drop_bit n (take_bit 32 k)" by (simp only: drop_bit_eq_div take_bit_eq_mod)
  moreover have "uint (drop_bit n (to_w32 k)) = drop_bit n (take_bit 32 k)" by transfer (simp add: drop_bit_take_bit)
  ultimately show ?thesis by (simp only: js_ushr_def)
qed

lemma js_shl_range: "\<bar>js_shl a n\<bar> \<le> 2147483648"
  using sint_greater_eq [of "push_bit n (to_w32 a)"] sint_less [of "push_bit n (to_w32 a)"] by (simp add: js_shl_def)

lemma push_bit_w32: "push_bit n (to_w32 a) = to_w32 (a * 2 ^ n)"
  by (simp add: push_bit_eq_mult)

lemma halves: "k = k mod 65536 + k mod 2 ^ 32 div 2 ^ 16 * 65536 + 4294967296 * (k div 4294967296)" for k :: int
proof -
  have "k mod 4294967296 = (k mod 4294967296) mod 65536 + k mod 2 ^ 32 div 2 ^ 16 * 65536"
    by (simp add: mod_div_mult_eq)
  moreover have "(k mod 4294967296) mod 65536 = k mod 65536" by (rule mod_mod_cancel) simp
  moreover have "k = k mod 4294967296 + 4294967296 * (k div 4294967296)" by simp
  ultimately show ?thesis by linarith
qed

text \<open>The product is the one of words, and no step of it leaves the range of exact integers.\<close>

lemma mul32_eq:
  assumes c: "0 \<le> c" "c < 2 ^ 32"
  shows "mul32 k c = Some (sint (to_w32 k * to_w32 c))"
proof -
  let ?a = "k mod 65536" and ?b = "k mod 2 ^ 32 div 2 ^ 16"
  have a: "0 \<le> ?a" "?a < 2 ^ 16" by simp_all
  have b: "0 \<le> ?b" "?b < 2 ^ 16" by simp_all
  have ac: "0 \<le> ?a * c" "?a * c \<le> 2 ^ 16 * 2 ^ 32" using a c by (simp, intro mult_mono) simp_all
  have bc: "0 \<le> ?b * c" "?b * c \<le> 2 ^ 16 * 2 ^ 32" using b c by (simp, intro mult_mono) simp_all
  let ?s = "?a * c + js_shl (?b * c mod 65536) 16"
  have "\<bar>?s\<bar> \<le> 2 ^ 53" using ac js_shl_range [of "?b * c mod 65536" 16] unfolding abs_le_iff by simp
  moreover have "exact (?a * c) = Some (?a * c)" "exact (?b * c) = Some (?b * c)" using ac bc by (simp_all add: exact_def)
  ultimately have "mul32 k c = Some (sint (to_w32 ?s))"
    by (simp add: mul32_def js_and_ffff js_ushr_eq js_and_all exact_def)
  moreover have "to_w32 ?s = to_w32 k * to_w32 c"
  proof -
    have "to_w32 ?s = to_w32 (?a * c + ?b * c mod 65536 * 2 ^ 16)" by (simp add: push_bit_w32)
    also have "\<dots> = to_w32 (k * c)"
    proof -
      note k = halves [of k]
      have bc: "x * 65536 = x mod 65536 * 65536 + 4294967296 * (x div 65536)" for x :: int
        using mult_div_mod_eq [of 65536 x] by linarith
      have "k * c = (?a + ?b * 65536 + 4294967296 * (k div 4294967296)) * c" by (subst k) (rule refl)
      also have "\<dots> = ?a * c + (?b * c) * 65536 + 4294967296 * (k div 4294967296 * c)" by (simp add: algebra_simps)
      also have "\<dots> = ?a * c + ?b * c mod 65536 * 65536 + 4294967296 * (?b * c div 65536 + k div 4294967296 * c)"
        unfolding bc [of "?b * c"] distrib_left by (simp only: add.assoc)
      finally have "to_w32 (k * c) = to_w32 (?a * c + ?b * c mod 65536 * 65536) +
          to_w32 4294967296 * to_w32 (?b * c div 65536 + k div 4294967296 * c)"
        by (simp only: wi_hom_add wi_hom_mult)
      moreover have "to_w32 4294967296 = 0" by simp
      ultimately have "to_w32 (k * c) = to_w32 (?a * c + ?b * c mod 65536 * 65536)" by (simp only: mult_zero_left add_0_right)
      moreover have "(2 :: int) ^ 16 = 65536" by simp
      ultimately show ?thesis by (simp only:)
    qed
    finally show ?thesis by simp
  qed
  ultimately show ?thesis by simp
qed

lemma rotate_eq: "n < 32 \<Longrightarrow> 0 < n \<Longrightarrow> to_w32 (rotate k n) = word_rotl n (to_w32 k)"
proof (rule bit_word_eqI)
  fix m assume n: "n < 32" "0 < n" and "m < LENGTH(32)"
  then have m: "m < 32" by simp
  have "(m + 32 - n) mod 32 = (if n \<le> m then m - n else m + 32 - n)"
    using n m by (auto simp: mod_if)
  then show "bit (to_w32 (rotate k n)) m = bit (word_rotl n (to_w32 k)) m"
    using n m by (auto simp: rotate_def bit_simps add.commute [of 32 m])
qed

lemma to_w32_sint [simp]: "to_w32 (sint w) = w"
  by simp

lemma scramble_eq: "\<exists>v. scramble k = Some v \<and> to_w32 v = scramble_ref (to_w32 k)"
  by (simp add: scramble_def mul32_eq rotate_eq scramble_ref_def)

lemma finish_eq: "\<exists>v. finish h = Some v \<and> to_w32 v = finish_ref (to_w32 h)"
  by (simp add: finish_def mul32_eq finish_ref_def Let_def)

lemma sum_of_halves:
  fixes b :: int
  assumes "b = low + high * 65536 + 4294967296 * q" and "high + 0xe654 = m + 65536 * d"
  shows "b + 0xe6546b64 = low + 0x6b64 + m * 65536 + 4294967296 * (d + q)"
proof -
  have high: "high = m + 65536 * d - 0xe654" using assms(2) by simp
  show ?thesis unfolding assms(1) high by (simp add: algebra_simps)
qed

lemma hash_block_eq: "\<exists>v. hash_block k h = Some v \<and> to_w32 v = hash_block_ref (to_w32 k) (to_w32 h)"
proof -
  obtain k' where k': "scramble k = Some k'" "to_w32 k' = scramble_ref (to_w32 k)" using scramble_eq by blast
  let ?w = "word_rotl 13 (to_w32 h XOR scramble_ref (to_w32 k)) * 5"
  let ?b = "sint ?w"
  let ?u = "?b mod 2 ^ 32 div 2 ^ 16 + 0xe654"
  let ?s = "?b mod 65536 + 0x6b64 + js_shl (?u mod 65536) 16"
  have "mul32 (rotate (js_xor h k') 13) 5 = Some ?b" using k'(2) by (simp add: mul32_eq rotate_eq)
  moreover have "\<bar>?s\<bar> \<le> 2 ^ 53"
  proof -
    have "0 \<le> ?b mod 65536" "?b mod 65536 < 65536" by simp_all
    then have "\<bar>?s\<bar> \<le> 9007199254740992" using js_shl_range [of "?u mod 65536" 16] unfolding abs_le_iff by linarith
    then show ?thesis by simp
  qed
  ultimately have "hash_block k h = Some ?s"
    by (simp add: hash_block_def k'(1) js_and_ffff js_ushr_eq exact_def)
  moreover have "to_w32 ?s = ?w + 0xe6546b64"
  proof -
    have "?u = ?u mod 65536 + 65536 * (?u div 65536)" by simp
    then have "?b + 0xe6546b64 = ?b mod 65536 + 0x6b64 + ?u mod 65536 * 65536 + 4294967296 * (?u div 65536 + ?b div 4294967296)"
      by (rule sum_of_halves [OF halves])
    then have "to_w32 (?b + 0xe6546b64) = to_w32 (?b mod 65536 + 0x6b64 + ?u mod 65536 * 65536) +
        to_w32 4294967296 * to_w32 (?u div 65536 + ?b div 4294967296)"
      by (simp only: wi_hom_add wi_hom_mult)
    moreover have "to_w32 4294967296 = 0" by simp
    ultimately have "to_w32 (?b mod 65536 + 0x6b64 + ?u mod 65536 * 65536) = to_w32 (?b + 0xe6546b64)"
      by (simp only: mult_zero_left add_0_right)
    moreover have "to_w32 ?s = to_w32 (?b mod 65536 + 0x6b64 + ?u mod 65536 * 65536)"
      by (simp add: push_bit_w32)
    ultimately show ?thesis by simp
  qed
  ultimately show ?thesis by (simp add: hash_block_ref_def)
qed

section \<open>Blocks and tail\<close>

lemma byte_bits: "bit (to_w32 (c mod 256)) n \<longleftrightarrow> n < 8 \<and> bit c n"
  by (auto simp: bit_simps take_bit_eq_mod [of 8, simplified, symmetric])

lemma bytes_ref_bits: "bit (bytes_ref cs) n \<longleftrightarrow> n < 32 \<and> n div 8 < length cs \<and> bit (cs ! (n div 8)) (n mod 8)"
proof -
  have "bit (horner_sum (\<lambda>c. c mod 256) (256 :: int) cs) n \<longleftrightarrow> n div 8 < length cs \<and> bit (cs ! (n div 8)) (n mod 8)"
  proof (induction cs arbitrary: n)
    case (Cons c cs)
    let ?r = "horner_sum (\<lambda>c. c mod 256) (256 :: int) cs"
    have "c mod 256 + 256 * ?r = take_bit 8 c + push_bit 8 ?r" by (simp add: take_bit_eq_mod push_bit_eq_mult)
    also have "\<dots> = take_bit 8 c OR push_bit 8 ?r"
      by (rule disjunctive_add [THEN sym, THEN sym]) (auto simp: bit_simps)
    finally have "bit (c mod 256 + 256 * ?r) n \<longleftrightarrow> (if n < 8 then bit c n else bit ?r (n - 8))"
      by (auto simp: bit_simps)
    moreover have "n div 8 = Suc ((n - 8) div 8)" "(n - 8) mod 8 = n mod 8" if "\<not> n < 8"
      using that by (simp_all add: le_div_geq le_mod_geq)
    ultimately show ?case using Cons.IH [of "n - 8"] by auto
  qed simp
  then show ?thesis by (auto simp: bytes_ref_def bit_simps)
qed

lemma byte_bit: "bit (to_w32 (js_and c 255)) n \<longleftrightarrow> n < 8 \<and> bit c n"
  unfolding js_and_ff by (rule byte_bits)

lemma shifted_byte_bit: "bit (to_w32 (js_shl (js_and c 255) m)) n \<longleftrightarrow> m \<le> n \<and> n < 32 \<and> n < m + 8 \<and> bit c (n - m)"
proof -
  have "to_w32 (js_shl (js_and c 255) m) = push_bit m (to_w32 (js_and c 255))" by (rule to_w32_ops(4))
  then show ?thesis by (simp only: bit_push_bit_iff byte_bit) auto
qed

lemmas byte_simps = to_w32_ops(2,3) bit_or_iff bit_xor_iff byte_bit shifted_byte_bit bytes_ref_bits

lemma byte_cases:
  assumes "n < (32 :: nat)"
  obtains "n < 8" "n div 8 = 0" "n mod 8 = n" | "8 \<le> n" "n < 16" "n div 8 = 1" "n mod 8 = n - 8"
    | "16 \<le> n" "n < 24" "n div 8 = 2" "n mod 8 = n - 16" | "24 \<le> n" "n < 32" "n div 8 = 3" "n mod 8 = n - 24"
proof -
  consider "n < 8" | "8 \<le> n" "n < 16" | "16 \<le> n" "n < 24" | "24 \<le> n" "n < 32" using assms by linarith
  then show thesis
  proof cases
    case 1
    then show thesis by (intro that(1)) simp_all
  next
    case 2
    then show thesis by (intro that(2)) (simp_all add: div_nat_eqI mod_nat_eqI)
  next
    case 3
    then show thesis by (intro that(3)) (simp_all add: div_nat_eqI mod_nat_eqI)
  next
    case 4
    then show thesis by (intro that(4)) (simp_all add: div_nat_eqI mod_nat_eqI)
  qed
qed

lemma block_at_eq: "to_w32 (block_at key i) = bytes_ref [key ! i, key ! (i + 1), key ! (i + 2), key ! (i + 3)]"
proof (rule bit_word_eqI)
  fix n assume "n < LENGTH(32)"
  then have "n < 32" by simp
  then show "bit (to_w32 (block_at key i)) n = bit (bytes_ref [key ! i, key ! (i + 1), key ! (i + 2), key ! (i + 3)]) n"
    unfolding block_at_def byte_simps by (rule byte_cases) simp_all
qed

lemma bit_w32_0: "\<not> bit (to_w32 0) n"
  by simp

lemma tail_at_eq:
  assumes "i + r = length key" "r < 4"
  shows "to_w32 (tail_at key i r) = bytes_ref (drop i key)"
proof (rule bit_word_eqI)
  fix n assume "n < LENGTH(32)"
  then have n: "n < 32" by simp
  have key: "drop i key = map (\<lambda>k. key ! (i + k)) [0..<r]"
    using assms(1) by (intro nth_equalityI) auto
  consider "r = 0" | "r = 1" | "r = 2" | "r = 3" using assms(2) by linarith
  then show "bit (to_w32 (tail_at key i r)) n = bit (bytes_ref (drop i key)) n"
  proof cases
    case 1
    then show ?thesis by (simp add: tail_at_def bytes_ref_bits assms(1) [symmetric])
  next
    case 2
    have d: "drop i key = [key ! i]" by (simp add: key 2)
    have t: "to_w32 (tail_at key i r) = to_w32 (js_xor 0 (js_and (key ! i) 255))" by (simp add: tail_at_def 2)
    show ?thesis unfolding t d byte_simps by (rule byte_cases [OF n]) simp_all
  next
    case 3
    have d: "drop i key = [key ! i, key ! (i + 1)]" by (simp add: key 3 upt_rec)
    have t: "to_w32 (tail_at key i r) = to_w32 (js_xor (js_xor 0 (js_shl (js_and (key ! (i + 1)) 255) 8)) (js_and (key ! i) 255))"
      by (simp add: tail_at_def 3)
    show ?thesis unfolding t d byte_simps by (rule byte_cases [OF n]) simp_all
  next
    case 4
    have d: "drop i key = [key ! i, key ! (i + 1), key ! (i + 2)]" by (simp add: key 4 upt_rec)
    have t: "to_w32 (tail_at key i r) =
        to_w32 (js_xor (js_xor (js_xor 0 (js_shl (js_and (key ! (i + 2)) 255) 16)) (js_shl (js_and (key ! (i + 1)) 255) 8)) (js_and (key ! i) 255))"
      by (simp add: tail_at_def 4)
    show ?thesis unfolding t d byte_simps by (rule byte_cases [OF n]) simp_all
  qed
qed

lemma hash_ref_short: "length cs < 4 \<Longrightarrow> hash_ref cs h = h XOR scramble_ref (bytes_ref cs)"
proof -
  assume len: "length cs < 4"
  have "cs = [] \<or> (\<exists>a. cs = [a]) \<or> (\<exists>a b. cs = [a, b]) \<or> (\<exists>a b c. cs = [a, b, c])"
  proof (cases cs)
    case (Cons a xs)
    show ?thesis
    proof (cases xs)
      case (Cons b ys)
      with \<open>cs = a # xs\<close> len show ?thesis by (cases ys) auto
    qed (simp add: Cons)
  qed simp
  then show "hash_ref cs h = h XOR scramble_ref (bytes_ref cs)" by auto
qed

lemma hash_ref_block:
  "i + 4 \<le> length key \<Longrightarrow> hash_ref (drop i key) h =
    hash_ref (drop (i + 4) key) (hash_block_ref (bytes_ref [key ! i, key ! (i + 1), key ! (i + 2), key ! (i + 3)]) h)"
proof -
  assume le: "i + 4 \<le> length key"
  have "drop i key = key ! i # key ! (i + 1) # key ! (i + 2) # key ! (i + 3) # drop (i + 4) key"
    using le by (simp add: Cons_nth_drop_Suc numeral_eq_Suc)
  then show ?thesis by simp
qed

lemma hash_blocks_eq:
  "i + 4 * m + r = length key \<Longrightarrow> r < 4 \<Longrightarrow>
    \<exists>v. hash_blocks key i (length key - r) h = Some v \<and>
      hash_ref (drop i key) (to_w32 h) = to_w32 v XOR scramble_ref (bytes_ref (drop (length key - r) key))"
proof (induction m arbitrary: i h)
  case 0
  then have "length key - r = i" by simp
  then show ?case using 0 by (simp add: hash_blocks.simps [of key i] hash_ref_short)
next
  case (Suc m)
  obtain h' where h': "hash_block (block_at key i) h = Some h'" "to_w32 h' = hash_block_ref (to_w32 (block_at key i)) (to_w32 h)"
    using hash_block_eq by blast
  have "i + 4 + 4 * m + r = length key" using Suc.prems(1) by simp
  from Suc.IH [OF this Suc.prems(2), of h'] obtain v where
    v: "hash_blocks key (i + 4) (length key - r) h' = Some v"
      "hash_ref (drop (i + 4) key) (to_w32 h') = to_w32 v XOR scramble_ref (bytes_ref (drop (length key - r) key))" by blast
  have "i < length key - r" "i + 4 \<le> length key" using Suc.prems by simp_all
  then show ?case
    using v h' hash_ref_block [of i key "to_w32 h"] by (simp add: hash_blocks.simps [of key i] block_at_eq)
qed

lemma murmur_eq: "murmurhash3_32_gc key seed = Some (uint (murmur3_ref key (to_w32 seed)))"
proof -
  let ?r = "length key mod 4" and ?bytes = "length key - length key mod 4"
  have len: "0 + 4 * (length key div 4) + ?r = length key" "?r < 4" by simp_all
  obtain v where v: "hash_blocks key 0 ?bytes seed = Some v"
    "hash_ref key (to_w32 seed) = to_w32 v XOR scramble_ref (bytes_ref (drop ?bytes key))"
    using hash_blocks_eq [OF len, of seed] by auto
  obtain k where k: "scramble (tail_at key ?bytes ?r) = Some k" "to_w32 k = scramble_ref (to_w32 (tail_at key ?bytes ?r))"
    using scramble_eq by blast
  have bytes: "?bytes + ?r = length key" by simp
  note tail = tail_at_eq [OF bytes len(2)]
  let ?h = "js_xor (js_xor v k) (int (length key))"
  have "to_w32 ?h = (to_w32 v XOR to_w32 k) XOR of_nat (length key)" by simp
  then have h: "to_w32 ?h = hash_ref key (to_w32 seed) XOR of_nat (length key)" by (simp only: v(2) k(2) tail)
  obtain f where f: "finish ?h = Some f" "to_w32 f = finish_ref (to_w32 ?h)" using finish_eq by blast
  have "murmurhash3_32_gc key seed = Some (js_ushr f 0)"
    using v(1) k(1) f(1) by (simp add: murmurhash3_32_gc_def Let_def)
  moreover have "js_ushr f 0 = uint (murmur3_ref key (to_w32 seed))"
    unfolding js_ushr_def murmur3_ref_def h [symmetric] f(2) [symmetric] by simp
  ultimately show ?thesis by simp
qed

text \<open>
  C31. For every key and seed no step of the hash leaves the range in which doubles are exact, and the result is the
  MurmurHash3 of the low bytes of the code units on 32-bit words, read as an unsigned number: the split products of the
  source are the products of words. The index of the colour lies within the table.
\<close>

theorem murmur_is_murmur3:
  shows "murmurhash3_32_gc key seed = Some (uint (murmur3_ref key (to_w32 seed))) \<and>
    (\<exists>k. package_color key = Some k \<and> 0 \<le> k \<and> k < 24)"
  by (simp add: package_color_def murmur_eq)

lemma murmur_sample: "murmurhash3_32_gc [104, 101, 108, 108, 111] 0 = Some 613153351"
  unfolding murmur_eq by code_simp

end
