(* ===== verification/Fetch_Queue.thy ===== *)
theory Fetch_Queue
  imports Js_String Js_Object
begin

text \<open>
  The queue of requests to the backend, \<open>public/app/core/services/FetchQueue.ts\<close>, \<open>FetchQueueWorker.ts\<close> and
  \<open>ResponseQueue.ts\<close>, with the subscription that \<open>fetch\<close> of \<open>backend_srv.ts\<close> makes. Requests are started in the order of
  the record of the queue: those to the API at once, queries of data as far as the limit of parallel requests allows.

  The three classes call one another through streams of rxjs, of which the model has what its documentation promises of
  the operators used: a subject calls its subscribers at once; \<open>filter\<close> drops updates; \<open>concatMap\<close> works on one update at
  a time, and keeps the others in the order of their arrival. So a system has the updates that wait and the batch of
  requests that is being handed out. An update holds the numbers counted when it was published, but the record of
  requests only by reference: a batch is computed from the record as it is when the update's turn comes.

  Identifiers are UUIDs, so they are no names of inherited members. What requests answer is outside the model; of their options it has the URL.
\<close>

section \<open>The queue\<close>

datatype fetch_status = FS_Pending | FS_InProgress | FS_Done

record backend_request =
  br_url :: string

record queue_item =
  qi_state :: fetch_status
  qi_options :: backend_request

record queue_entry =
  qe_id :: string
  qe_options :: "backend_request option"
  qe_state :: fetch_status

record queue_update =
  qu_in_progress :: nat
  qu_pending :: nat

record fetch_system =
  fq_state :: "queue_item jobj"
  fq_waiting :: "queue_update list"                  \<comment> \<open>updates kept back by \<open>concatMap\<close>\<close>
  fq_batch :: "(string \<times> backend_request) list"      \<comment> \<open>requests still to be handed out for the current update\<close>
  fq_listeners :: "string list"                      \<comment> \<open>who waits for a response\<close>
  fq_fetched :: "(string \<times> backend_request) list"    \<comment> \<open>calls of \<open>fetch\<close>\<close>
  fq_started :: "string list"                        \<comment> \<open>responses that met a listener\<close>

definition initial_fetch_system :: fetch_system where
  "initial_fetch_system =
     \<lparr>fq_state = [], fq_waiting = [], fq_batch = [], fq_listeners = [], fq_fetched = [], fq_started = []\<rparr>"

definition status_of :: "queue_item jobj \<Rightarrow> string \<Rightarrow> fetch_status" where
  "status_of q k = qi_state (the (jo_get q k))"

definition options_of :: "queue_item jobj \<Rightarrow> string \<Rightarrow> backend_request" where
  "options_of q k = qi_options (the (jo_get q k))"

definition count_status :: "fetch_status \<Rightarrow> queue_item jobj \<Rightarrow> nat" where
  "count_status st q = length (filter (\<lambda>k. status_of q k = st) (jo_keys q))"

definition get_update :: "queue_item jobj \<Rightarrow> queue_update" where
  "get_update q = \<lparr>qu_in_progress = count_status FS_InProgress q, qu_pending = count_status FS_Pending q\<rparr>"

text \<open>The subscriber of the updates drops those with nothing pending.\<close>

definition publish_update :: "fetch_system \<Rightarrow> fetch_system" where
  "publish_update s =
     (let u = get_update (fq_state s) in
      if 0 < qu_pending u then s\<lparr>fq_waiting := fq_waiting s @ [u]\<rparr> else s)"

definition handle_entry :: "queue_entry \<Rightarrow> fetch_system \<Rightarrow> fetch_system" where
  "handle_entry e s =
     (let k = qe_id e;
          q = (if jo_get (fq_state s) k = None
               then jo_set k \<lparr>qi_state = FS_Pending, qi_options = \<lparr>br_url = []\<rparr>\<rparr> (fq_state s)
               else fq_state s) in
      if qe_state e = FS_Done then publish_update (s\<lparr>fq_state := jo_delete k q\<rparr>)
      else publish_update (s\<lparr>fq_state := jo_set k \<lparr>qi_state = qe_state e, qi_options = nullish (qe_options e) (options_of q k)\<rparr> q\<rparr>))"

definition queue_add :: "string \<Rightarrow> backend_request \<Rightarrow> fetch_system \<Rightarrow> fetch_system" where
  "queue_add k req = handle_entry \<lparr>qe_id = k, qe_options = Some req, qe_state = FS_Pending\<rparr>"

definition set_in_progress :: "string \<Rightarrow> fetch_system \<Rightarrow> fetch_system" where
  "set_in_progress k = handle_entry \<lparr>qe_id = k, qe_options = None, qe_state = FS_InProgress\<rparr>"

definition set_done :: "string \<Rightarrow> fetch_system \<Rightarrow> fetch_system" where
  "set_done k = handle_entry \<lparr>qe_id = k, qe_options = None, qe_state = FS_Done\<rparr>"

section \<open>The worker\<close>

definition max_parallel_requests :: "bool \<Rightarrow> nat" where
  "max_parallel_requests http2 = (if http2 then 1000 else 5)"

definition is_data_query :: "string \<Rightarrow> bool" where
  "is_data_query url \<longleftrightarrow> index_of ''api/datasources/proxy'' url \<noteq> None \<or> index_of ''api/ds/query'' url \<noteq> None"

definition waits :: "bool \<Rightarrow> queue_item jobj \<Rightarrow> string \<Rightarrow> bool" where
  "waits data q k \<longleftrightarrow> status_of q k = FS_Pending \<and> is_data_query (br_url (options_of q k)) = data"

definition pending_requests :: "bool \<Rightarrow> queue_item jobj \<Rightarrow> (string \<times> backend_request) list" where
  "pending_requests data q = map (\<lambda>k. (k, options_of q k)) (filter (waits data q) (jo_keys q))"

definition worker_batch :: "bool \<Rightarrow> queue_update \<Rightarrow> queue_item jobj \<Rightarrow> (string \<times> backend_request) list" where
  "worker_batch http2 u q =
     (let api = pending_requests False q; data = pending_requests True q;
          allowed = max_parallel_requests http2 - qu_in_progress u - length api in
      api @ take allowed data)"

text \<open>What the response queue does with a request: it is in progress from now on, and whoever listens gets its response.\<close>

definition response_add :: "string \<Rightarrow> backend_request \<Rightarrow> fetch_system \<Rightarrow> fetch_system" where
  "response_add k req s =
     (let s = set_in_progress k s in
      s\<lparr>fq_fetched := fq_fetched s @ [(k, req)],
        fq_started := (if k \<in> set (fq_listeners s) then fq_started s @ [k] else fq_started s)\<rparr>)"

definition worker_step :: "bool \<Rightarrow> fetch_system \<Rightarrow> fetch_system option" where
  "worker_step http2 s =
     (case fq_batch s of
        (k, req) # rest \<Rightarrow> Some (response_add k req (s\<lparr>fq_batch := rest\<rparr>))
      | [] \<Rightarrow> (case fq_waiting s of
          u # us \<Rightarrow> Some (s\<lparr>fq_waiting := us, fq_batch := worker_batch http2 u (fq_state s)\<rparr>)
        | [] \<Rightarrow> None))"

fun worker_run :: "nat \<Rightarrow> bool \<Rightarrow> fetch_system \<Rightarrow> fetch_system option" where
  "worker_run n http2 s =
     (case worker_step http2 s of
        None \<Rightarrow> Some s
      | Some s' \<Rightarrow> (case n of 0 \<Rightarrow> None | Suc m \<Rightarrow> worker_run m http2 s'))"

declare worker_run.simps [simp del]

definition run_fuel :: "fetch_system \<Rightarrow> nat" where
  "run_fuel s = 2 * count_status FS_Pending (fq_state s) + 2 * length (fq_batch s) + length (fq_waiting s)"

definition settle :: "bool \<Rightarrow> fetch_system \<Rightarrow> fetch_system option" where
  "settle http2 s = worker_run (run_fuel s) http2 s"

section \<open>Its clients\<close>

text \<open>
  Subscribing to the stream of \<open>fetch\<close> listens for the response and then adds the request; the end of the subscription,
  by an answer, an error or a cancellation, sets the request done and then stops listening. \<open>handle_event\<close> is what happens
  when the worker rests: it has come to rest again before the call returns. \<open>fetch_step\<close> also allows clients to act while
  the worker hands out a batch, as they do when a response or a cancellation makes them. One such case is in
  \<open>internalFetch\<close> itself: a request started with the \<open>requestId\<close> of one in flight ends that one at once, which is a step
  \<open>Finished\<close> there, and no event. So events stand for requests without identifiers in common.
\<close>

datatype fetch_event = Fetch string backend_request | Finish string

definition listen :: "string \<Rightarrow> fetch_system \<Rightarrow> fetch_system" where
  "listen k s = s\<lparr>fq_listeners := k # fq_listeners s\<rparr>"

definition unlisten :: "string \<Rightarrow> fetch_system \<Rightarrow> fetch_system" where
  "unlisten k s = s\<lparr>fq_listeners := filter (\<lambda>l. l \<noteq> k) (fq_listeners s)\<rparr>"

fun handle_event :: "bool \<Rightarrow> fetch_event \<Rightarrow> fetch_system \<Rightarrow> fetch_system option" where
  "handle_event http2 (Fetch k req) s = settle http2 (queue_add k req (listen k s))"
| "handle_event http2 (Finish k) s = map_option (unlisten k) (settle http2 (set_done k s))"

fun handle_events :: "bool \<Rightarrow> fetch_event list \<Rightarrow> fetch_system \<Rightarrow> fetch_system option" where
  "handle_events http2 [] s = Some s"
| "handle_events http2 (e # es) s = Option.bind (handle_event http2 e s) (handle_events http2 es)"

inductive fetch_step :: "bool \<Rightarrow> fetch_system \<Rightarrow> fetch_system \<Rightarrow> bool" for http2 where
  Added: "fetch_step http2 s (queue_add k req (listen k s))"
| Finished: "fetch_step http2 s (set_done k s)"
| Left: "fetch_step http2 s (unlisten k s)"
| Worked: "worker_step http2 s = Some s' \<Longrightarrow> fetch_step http2 s s'"

end
