(* ===== verification/Fetch_Worker.thy ===== *)
theory Fetch_Worker
  imports Fetch_Queue
begin

text \<open>
  Whatever clients do and whenever they do it, the worker of the fetch queue comes to rest, and when it rests no request is
  held back without need: \<open>queue_never_stalls\<close>. The invariant \<open>attended\<close> says why: after every change of the record either
  nothing is to be done, or the last update kept back carries the present count.

  The limit of parallel requests is kept only for clients that act while the worker rests, see \<open>limit_exceeded\<close>.
\<close>

section \<open>The record of requests\<close>

definition with_status :: "fetch_status \<Rightarrow> queue_item jobj \<Rightarrow> string set" where
  "with_status st q = {k. \<exists>it. jo_get q k = Some it \<and> qi_state it = st}"

lemma in_with_status: "k \<in> with_status st q \<longleftrightarrow> k \<in> set (jo_keys q) \<and> status_of q k = st"
  by (auto simp: with_status_def status_of_def jo.keys_get)

lemma finite_with_status [simp]: "finite (with_status st q)"
  by (rule finite_subset [of _ "set (jo_keys q)"]) (auto simp: in_with_status)

lemma count_card: "jo_wf q \<Longrightarrow> count_status st q = card (with_status st q)"
proof -
  assume "jo_wf q"
  then have "distinct (filter (\<lambda>k. status_of q k = st) (jo_keys q))" by (simp add: jo.wf_distinct)
  moreover have "set (filter (\<lambda>k. status_of q k = st) (jo_keys q)) = with_status st q" by (auto simp: in_with_status)
  ultimately show ?thesis unfolding count_status_def using distinct_card by metis
qed

text \<open>The record after an entry of the queue.\<close>

definition entry_state :: "queue_entry \<Rightarrow> queue_item jobj \<Rightarrow> queue_item jobj" where
  "entry_state e q = fq_state (handle_entry e (initial_fetch_system\<lparr>fq_state := q\<rparr>))"

lemma publish_state [simp]: "fq_state (publish_update s) = fq_state s" "fq_batch (publish_update s) = fq_batch s"
  "fq_listeners (publish_update s) = fq_listeners s" "fq_fetched (publish_update s) = fq_fetched s"
  "fq_started (publish_update s) = fq_started s"
  by (simp_all add: publish_update_def Let_def)

lemma handle_entry_eq: "handle_entry e s = publish_update (s\<lparr>fq_state := entry_state e (fq_state s)\<rparr>)"
  by (simp add: entry_state_def handle_entry_def Let_def)

lemma entry_state_wf: "jo_wf q \<Longrightarrow> jo_wf (entry_state e q)"
  by (simp add: entry_state_def handle_entry_def Let_def jo.wf_put jo.wf_del)

lemma entry_state_status:
  "with_status st (entry_state e q) = (if qe_state e = st \<and> st \<noteq> FS_Done then insert (qe_id e) (with_status st q) else with_status st q - {qe_id e})"
  by (auto simp: entry_state_def handle_entry_def Let_def with_status_def jo_get_set jo_get_delete split: if_splits)

section \<open>The worker attends to every change\<close>

definition resting :: "bool \<Rightarrow> queue_item jobj \<Rightarrow> bool" where
  "resting http2 q \<longleftrightarrow> (\<forall>k \<in> with_status FS_Pending q. is_data_query (br_url (options_of q k)) \<and>
     max_parallel_requests http2 \<le> count_status FS_InProgress q)"

definition attended :: "bool \<Rightarrow> fetch_system \<Rightarrow> bool" where
  "attended http2 s \<longleftrightarrow> jo_wf (fq_state s) \<and>
     (fq_batch s \<noteq> [] \<or>
      (fq_waiting s \<noteq> [] \<and> qu_in_progress (last (fq_waiting s)) = count_status FS_InProgress (fq_state s)) \<or>
      resting http2 (fq_state s))"

lemma attended_publish: "jo_wf (fq_state s) \<Longrightarrow> attended http2 (publish_update s)"
  by (cases "count_status FS_Pending (fq_state s) = 0")
     (auto simp: attended_def resting_def publish_update_def get_update_def Let_def count_card)

lemma attended_handle_entry: "jo_wf (fq_state s) \<Longrightarrow> attended http2 (handle_entry e s)"
  unfolding handle_entry_eq by (rule attended_publish) (simp add: entry_state_wf)

lemma attended_logs: "attended http2 (s\<lparr>fq_fetched := a, fq_started := b\<rparr>) = attended http2 s" "attended http2 (s\<lparr>fq_listeners := c\<rparr>) = attended http2 s"
  by (simp_all add: attended_def)

lemma pending_requests_Nil: "pending_requests data q = [] \<longleftrightarrow> (\<forall>k \<in> with_status FS_Pending q. is_data_query (br_url (options_of q k)) \<noteq> data)"
  by (auto simp: pending_requests_def waits_def filter_empty_conv in_with_status)

lemma worker_batch_Nil:
  "worker_batch http2 u q = [] \<Longrightarrow> qu_in_progress u = count_status FS_InProgress q \<Longrightarrow> resting http2 q"
proof -
  assume none: "worker_batch http2 u q = []" and count: "qu_in_progress u = count_status FS_InProgress q"
  then have api: "pending_requests False q = []" by (simp add: worker_batch_def Let_def)
  with none count have "pending_requests True q = [] \<or> max_parallel_requests http2 \<le> count_status FS_InProgress q"
    by (auto simp: worker_batch_def Let_def)
  then show ?thesis using api unfolding pending_requests_Nil resting_def by auto
qed

lemma attended_worker: "attended http2 s \<Longrightarrow> worker_step http2 s = Some s' \<Longrightarrow> attended http2 s'"
proof -
  assume s: "attended http2 s" and step: "worker_step http2 s = Some s'"
  show ?thesis
  proof (cases "fq_batch s")
    case (Cons e rest)
    obtain k req where e: "e = (k, req)" by (cases e)
    have "attended http2 (set_in_progress k (s\<lparr>fq_batch := rest\<rparr>))"
      unfolding set_in_progress_def by (rule attended_handle_entry) (use s in \<open>simp add: attended_def\<close>)
    then show ?thesis using step Cons by (auto simp: worker_step_def response_add_def attended_logs Let_def e)
  next
    case Nil
    then obtain u us where u: "fq_waiting s = u # us" and s': "s' = s\<lparr>fq_waiting := us, fq_batch := worker_batch http2 u (fq_state s)\<rparr>"
      using step by (auto simp: worker_step_def split: list.splits)
    then show ?thesis
      using s Nil worker_batch_Nil [of http2 u "fq_state s"] by (cases us) (auto simp: attended_def)
  qed
qed

lemma attended_step: "fetch_step http2 s s' \<Longrightarrow> attended http2 s \<Longrightarrow> attended http2 s'"
proof (induction rule: fetch_step.induct)
  case (Added s k req)
  then show ?case using attended_handle_entry [of "listen k s"] by (simp add: queue_add_def attended_def listen_def)
next
  case (Finished s k)
  then show ?case using attended_handle_entry [of s] by (simp add: set_done_def attended_def)
next
  case (Left s k)
  then show ?case by (simp add: unlisten_def attended_logs)
next
  case (Worked s s')
  then show ?case using attended_worker by blast
qed

interpretation fetching: state_machine "\<lambda>s. s = initial_fetch_system" "fetch_step http2" "attended http2" for http2
proof unfold_locales
  fix http2 and s s' :: fetch_system
  show "s = initial_fetch_system \<Longrightarrow> attended http2 s"
    by (simp add: initial_fetch_system_def attended_def resting_def with_status_def jo.wf_empty jo.get_empty)
  show "fetch_step http2 s s' \<Longrightarrow> attended http2 s \<Longrightarrow> attended http2 s'" by (rule attended_step)
qed

section \<open>The worker comes to rest\<close>

definition live_batch :: "fetch_system \<Rightarrow> string set" where
  "live_batch s = fst ` set (fq_batch s) \<inter> with_status FS_Pending (fq_state s)"

definition weight :: "fetch_system \<Rightarrow> nat" where
  "weight s = 2 * card (with_status FS_Pending (fq_state s)) + 2 * (length (fq_batch s) - card (live_batch s)) + length (fq_waiting s)"

lemma live_batch_le: "card (live_batch s) \<le> length (fq_batch s)"
  by (metis card_length card_mono finite_set inf.cobounded1 le_trans length_map live_batch_def set_map)

lemma pending_requests_keys: "map fst (pending_requests data q) = filter (waits data q) (jo_keys q)"
  by (simp add: pending_requests_def comp_def)

lemma worker_batch_live:
  assumes "jo_wf q"
  shows "distinct (map fst (worker_batch http2 u q))" "fst ` set (worker_batch http2 u q) \<subseteq> with_status FS_Pending q"
proof -
  have "distinct (jo_keys q)" using assms by (rule jo.wf_distinct)
  moreover have "x \<notin> set (filter (waits True q) (jo_keys q))" if "waits False q x" for x using that by (simp add: waits_def)
  ultimately show "distinct (map fst (worker_batch http2 u q))"
    by (auto simp: worker_batch_def Let_def pending_requests_keys take_map [symmetric] distinct_take dest: in_set_takeD)
  have "fst ` set (pending_requests data q) \<subseteq> with_status FS_Pending q" for data
    by (auto simp: pending_requests_def waits_def in_with_status)
  then show "fst ` set (worker_batch http2 u q) \<subseteq> with_status FS_Pending q"
    unfolding worker_batch_def Let_def using set_take_subset by fastforce
qed

lemma worker_weight:
  assumes "jo_wf (fq_state s)" and "worker_step http2 s = Some s'"
  shows "weight s' < weight s"
proof (cases "fq_batch s")
  case Nil
  then obtain u us where u: "fq_waiting s = u # us" and s': "s' = s\<lparr>fq_waiting := us, fq_batch := worker_batch http2 u (fq_state s)\<rparr>"
    using assms(2) by (auto simp: worker_step_def split: list.splits)
  have "live_batch s' = set (map fst (worker_batch http2 u (fq_state s)))"
    using worker_batch_live(2) [OF assms(1)] by (auto simp: live_batch_def s')
  then have "card (live_batch s') = length (worker_batch http2 u (fq_state s))"
    using worker_batch_live(1) [OF assms(1)] by (metis distinct_card length_map)
  then show ?thesis by (simp add: weight_def s' u Nil)
next
  case (Cons e rest)
  obtain k req where e: "e = (k, req)" by (cases e)
  let ?t = "s\<lparr>fq_batch := rest\<rparr>" and ?P = "with_status FS_Pending (fq_state s)"
  have s': "s' = response_add k req ?t" using assms(2) Cons e by (simp add: worker_step_def)
  have parts: "fq_batch s' = rest" "with_status FS_Pending (fq_state s') = ?P - {k}" "length (fq_waiting s') \<le> Suc (length (fq_waiting s))"
    by (simp_all add: s' response_add_def set_in_progress_def handle_entry_eq Let_def entry_state_status publish_update_def)
  show ?thesis
  proof (cases "k \<in> ?P")
    case True
    have "live_batch s = insert k (live_batch s')" "k \<notin> live_batch s'" "finite (live_batch s')"
      using True by (auto simp: live_batch_def parts Cons e)
    then have "card (live_batch s) = Suc (card (live_batch s'))" by simp
    moreover have "card ?P = Suc (card (?P - {k}))" using True by (metis card.remove finite_with_status)
    ultimately show ?thesis using parts by (simp add: weight_def Cons)
  next
    case False
    have "live_batch s = live_batch s'" using False by (auto simp: live_batch_def parts Cons e)
    moreover have "card (live_batch s') \<le> length rest" using live_batch_le [of s'] parts by simp
    ultimately show ?thesis using parts False by (simp add: weight_def Cons)
  qed
qed

abbreviation working :: "bool \<Rightarrow> fetch_system \<Rightarrow> fetch_system \<Rightarrow> bool" where
  "working http2 s s' \<equiv> worker_step http2 s = Some s'"

lemma worker_wf: "working http2 s s' \<Longrightarrow> jo_wf (fq_state s) \<Longrightarrow> jo_wf (fq_state s')"
  by (auto simp: worker_step_def response_add_def set_in_progress_def handle_entry_eq Let_def entry_state_wf split: list.splits)

lemma worker_run_rests:
  "jo_wf (fq_state s) \<Longrightarrow> weight s \<le> n \<Longrightarrow>
   \<exists>s'. worker_run n http2 s = Some s' \<and> (working http2)\<^sup>*\<^sup>* s s' \<and> worker_step http2 s' = None"
proof (induction n arbitrary: s)
  case 0
  then have "worker_step http2 s = None"
    using worker_weight [OF 0(1), of http2] by (cases "worker_step http2 s") auto
  then show ?case by (auto simp: worker_run.simps [of 0])
next
  case (Suc n)
  show ?case
  proof (cases "worker_step http2 s")
    case None
    then show ?thesis by (auto simp: worker_run.simps [of "Suc n"])
  next
    case (Some t)
    have "weight t \<le> n" using worker_weight [OF Suc.prems(1) Some] Suc.prems(2) by simp
    from Suc.IH [OF worker_wf [OF Some Suc.prems(1)] this] Some show ?thesis
      by (auto simp: worker_run.simps [of "Suc n"] intro: converse_rtranclp_into_rtranclp)
  qed
qed

lemma settle_rests:
  "jo_wf (fq_state s) \<Longrightarrow> \<exists>s'. settle http2 s = Some s' \<and> (working http2)\<^sup>*\<^sup>* s s' \<and> worker_step http2 s' = None"
  unfolding settle_def by (rule worker_run_rests) (simp_all add: weight_def run_fuel_def count_card)

lemma at_rest: "worker_step http2 s = None \<longleftrightarrow> fq_batch s = [] \<and> fq_waiting s = []"
  by (auto simp: worker_step_def split: list.splits)

lemma working_steps: "(working http2)\<^sup>*\<^sup>* s s' \<Longrightarrow> (fetch_step http2)\<^sup>*\<^sup>* s s'"
  by (rule rtranclp_mono [THEN predicate2D]) (auto intro: Worked)

text \<open>
  C33. Whatever clients do, also while the worker is at work, the worker comes to rest, within \<open>run_fuel\<close> steps. When it
  rests no request to the API waits, and queries of data wait only while as many requests are in progress as may be.
\<close>

theorem queue_never_stalls:
  assumes "(fetch_step http2)\<^sup>*\<^sup>* initial_fetch_system s"
  shows "\<exists>s'. settle http2 s = Some s' \<and> (fetch_step http2)\<^sup>*\<^sup>* s s' \<and> fq_batch s' = [] \<and> fq_waiting s' = [] \<and>
    (\<forall>k it. jo_get (fq_state s') k = Some it \<and> qi_state it = FS_Pending \<longrightarrow>
       is_data_query (br_url (qi_options it)) \<and>
       max_parallel_requests http2 \<le> card {j. \<exists>jt. jo_get (fq_state s') j = Some jt \<and> qi_state jt = FS_InProgress})"
proof -
  have att: "attended http2 s" using fetching.reached_inv [OF assms] by simp
  obtain s' where s': "settle http2 s = Some s'" "(working http2)\<^sup>*\<^sup>* s s'" "worker_step http2 s' = None"
    using settle_rests att unfolding attended_def by blast
  have "attended http2 s'" using fetching.run_inv [OF working_steps [OF s'(2)] att] .
  then have wf: "jo_wf (fq_state s')" and rest: "resting http2 (fq_state s')"
    using s'(3) by (auto simp: attended_def at_rest)
  then have "is_data_query (br_url (qi_options it)) \<and>
      max_parallel_requests http2 \<le> card {j. \<exists>jt. jo_get (fq_state s') j = Some jt \<and> qi_state jt = FS_InProgress}"
    if "jo_get (fq_state s') k = Some it" "qi_state it = FS_Pending" for k it
    using that unfolding resting_def by (auto simp: with_status_def options_of_def count_card [OF wf])
  then show ?thesis using s' working_steps at_rest by blast
qed

theorem queue_never_stalls_witness:
  "\<exists>s. (fetch_step False)\<^sup>*\<^sup>* initial_fetch_system s \<and> fq_state s \<noteq> [] \<and> fq_waiting s \<noteq> [] \<and>
     (\<exists>s'. settle False s = Some s' \<and> fq_batch s' = [] \<and> fq_waiting s' = [])"
proof -
  let ?s = "queue_add ''a-'' \<lparr>br_url = ''api/org''\<rparr> (listen ''a-'' initial_fetch_system)"
  have "(fetch_step False)\<^sup>*\<^sup>* initial_fetch_system ?s" using Added by blast
  moreover have "fq_state ?s \<noteq> [] \<and> fq_waiting ?s \<noteq> []" by code_simp
  ultimately show ?thesis using queue_never_stalls [of False ?s] by blast
qed

end
