(* ===== verification/Fetch_Scheduler.thy ===== *)
theory Fetch_Scheduler
  imports Fetch_Worker
begin

text \<open>
  What the fetch queue is for clients that act while the worker rests: a scheduler with a list of tasks. A request to the
  API runs at once, a query of data when fewer than the limit are running, and when a task leaves the first task
  that waits takes its place. \<open>fetch_queue_is_scheduler\<close> is the refinement; that the limit is kept, that queries run in
  the order of their arrival, and that every task gets its turn, are properties of the scheduler.
\<close>

section \<open>The scheduler\<close>

record task =
  tk_id :: string
  tk_request :: backend_request
  tk_runs :: bool

record scheduler =
  sc_tasks :: "task list"
  sc_log :: "string list"   \<comment> \<open>the tasks started so far\<close>

definition initial_scheduler :: scheduler where
  "initial_scheduler = \<lparr>sc_tasks = [], sc_log = []\<rparr>"

abbreviation is_data :: "backend_request \<Rightarrow> bool" where
  "is_data r \<equiv> is_data_query (br_url r)"

definition running :: "task list \<Rightarrow> nat" where
  "running ts = length (filter tk_runs ts)"

definition run_task :: "string \<Rightarrow> task list \<Rightarrow> task list" where
  "run_task k = map (\<lambda>t. if tk_id t = k then t\<lparr>tk_runs := True\<rparr> else t)"

definition start_next :: "nat \<Rightarrow> scheduler \<Rightarrow> scheduler" where
  "start_next limit sc =
     (case filter (\<lambda>t. \<not> tk_runs t) (sc_tasks sc) of
        [] \<Rightarrow> sc
      | t # _ \<Rightarrow> if running (sc_tasks sc) < limit
                then \<lparr>sc_tasks = run_task (tk_id t) (sc_tasks sc), sc_log = sc_log sc @ [tk_id t]\<rparr> else sc)"

fun schedule :: "nat \<Rightarrow> fetch_event \<Rightarrow> scheduler \<Rightarrow> scheduler" where
  "schedule limit (Fetch k r) sc =
     (let go = \<not> is_data r \<or> running (sc_tasks sc) < limit in
      \<lparr>sc_tasks = sc_tasks sc @ [\<lparr>tk_id = k, tk_request = r, tk_runs = go\<rparr>],
       sc_log = (if go then sc_log sc @ [k] else sc_log sc)\<rparr>)"
| "schedule limit (Finish k) sc = start_next limit (sc\<lparr>sc_tasks := filter (\<lambda>t. tk_id t \<noteq> k) (sc_tasks sc)\<rparr>)"

text \<open>Events in which every request has an identifier of its own, none of them a number.\<close>

fun fresh_events :: "string set \<Rightarrow> fetch_event list \<Rightarrow> bool" where
  "fresh_events used [] \<longleftrightarrow> True"
| "fresh_events used (Fetch k r # es) \<longleftrightarrow> k \<notin> used \<and> array_index k = None \<and> fresh_events (insert k used) es"
| "fresh_events used (Finish k # es) \<longleftrightarrow> fresh_events used es"

text \<open>Tasks that wait are queries of data, and wait only while the limit is reached.\<close>

definition sched_ok :: "nat \<Rightarrow> scheduler \<Rightarrow> bool" where
  "sched_ok limit sc \<longleftrightarrow>
     distinct (map tk_id (sc_tasks sc)) \<and>
     (\<forall>t \<in> set (sc_tasks sc). \<not> tk_runs t \<longrightarrow> is_data (tk_request t) \<and> limit \<le> running (sc_tasks sc))"

section \<open>The record of the tasks\<close>

definition item_of :: "task \<Rightarrow> string \<times> queue_item" where
  "item_of t = (tk_id t, \<lparr>qi_state = (if tk_runs t then FS_InProgress else FS_Pending), qi_options = tk_request t\<rparr>)"

definition items_of :: "task list \<Rightarrow> queue_item jobj" where
  "items_of = map item_of"

lemma items_of_keys [simp]: "jo_keys (items_of ts) = map tk_id ts"
  by (simp add: jo_keys_def items_of_def item_of_def comp_def)

lemma items_of_wf [simp]: "jo_wf (items_of ts) \<longleftrightarrow> distinct (map tk_id ts)"
  by (simp add: jo_wf_def items_of_def item_of_def comp_def)

lemma items_of_get: "distinct (map tk_id ts) \<Longrightarrow> t \<in> set ts \<Longrightarrow> jo_get (items_of ts) (tk_id t) = Some (snd (item_of t))"
  by (auto simp: jo_get_def items_of_def item_of_def comp_def intro!: map_of_is_SomeI)

lemma items_of_get_None: "jo_get (items_of ts) k = None \<longleftrightarrow> k \<notin> tk_id ` set ts"
  using jo.keys_get [of k "items_of ts"] by auto

lemma items_of_status:
  "distinct (map tk_id ts) \<Longrightarrow> t \<in> set ts \<Longrightarrow> status_of (items_of ts) (tk_id t) = (if tk_runs t then FS_InProgress else FS_Pending)"
  "distinct (map tk_id ts) \<Longrightarrow> t \<in> set ts \<Longrightarrow> options_of (items_of ts) (tk_id t) = tk_request t"
  by (simp_all add: status_of_def options_of_def items_of_get item_of_def)

lemma filter_ids: "distinct (map tk_id ts) \<Longrightarrow> (\<And>t. t \<in> set ts \<Longrightarrow> P (tk_id t) = Q t) \<Longrightarrow> filter P (map tk_id ts) = map tk_id (filter Q ts)"
  by (simp add: filter_map comp_def cong: filter_cong)

lemma items_of_count:
  "distinct (map tk_id ts) \<Longrightarrow> count_status FS_InProgress (items_of ts) = running ts"
  "distinct (map tk_id ts) \<Longrightarrow> count_status FS_Pending (items_of ts) = length (filter (\<lambda>t. \<not> tk_runs t) ts)"
  unfolding count_status_def items_of_keys running_def
  by (subst filter_ids [where Q = tk_runs]; simp add: items_of_status)
     (subst filter_ids [where Q = "\<lambda>t. \<not> tk_runs t"]; simp add: items_of_status)

lemma items_of_pending:
  "distinct (map tk_id ts) \<Longrightarrow> pending_requests data (items_of ts) =
     map (\<lambda>t. (tk_id t, tk_request t)) (filter (\<lambda>t. \<not> tk_runs t \<and> is_data (tk_request t) = data) ts)"
proof -
  assume d: "distinct (map tk_id ts)"
  have "filter (waits data (items_of ts)) (map tk_id ts) = map tk_id (filter (\<lambda>t. \<not> tk_runs t \<and> is_data (tk_request t) = data) ts)"
    by (rule filter_ids [OF d]) (simp add: waits_def items_of_status d)
  then show ?thesis by (simp add: pending_requests_def items_of_status d)
qed

lemma replace_task:
  "distinct (map tk_id ts) \<Longrightarrow> t \<in> set ts \<Longrightarrow>
   jo_set (tk_id t) (snd (item_of (t\<lparr>tk_runs := True\<rparr>))) (items_of ts) = items_of (run_task (tk_id t) ts)"
proof -
  have *: "distinct (map tk_id ts) \<Longrightarrow> t \<in> set ts \<Longrightarrow>
      jo_replace (tk_id t) (snd (item_of (t\<lparr>tk_runs := True\<rparr>))) (items_of ts) = items_of (run_task (tk_id t) ts)" for ts
  proof (induction ts)
    case (Cons u ts)
    show ?case
    proof (cases "tk_id u = tk_id t")
      case True
      then have "u = t" using Cons.prems by (auto simp: image_iff)
      moreover have "run_task (tk_id t) ts = ts" using Cons.prems True by (auto simp: run_task_def image_iff intro!: map_idI)
      ultimately show ?thesis by (simp add: items_of_def item_of_def run_task_def)
    next
      case False
      with Cons show ?thesis by (auto simp: items_of_def item_of_def run_task_def)
    qed
  qed simp
  assume "distinct (map tk_id ts)" "t \<in> set ts"
  with * show ?thesis by (simp add: jo_set_def items_of_get)
qed

lemma run_task_ids [simp]: "map tk_id (run_task k ts) = map tk_id ts"
  by (simp add: run_task_def comp_def if_distrib [of tk_id] cong: if_cong)

lemma running_run_task:
  "distinct (map tk_id ts) \<Longrightarrow> t \<in> set ts \<Longrightarrow> \<not> tk_runs t \<Longrightarrow> running (run_task (tk_id t) ts) = Suc (running ts)"
proof (induction ts)
  case (Cons u ts)
  show ?case
  proof (cases "u = t")
    case True
    then have "run_task (tk_id t) ts = ts" using Cons.prems by (auto simp: run_task_def image_iff intro!: map_idI)
    with True Cons.prems show ?thesis by (simp add: running_def run_task_def)
  next
    case False
    with Cons show ?thesis by (auto simp: running_def run_task_def)
  qed
qed simp

section \<open>The worker carries out the schedule\<close>

lemma settle_unique:
  assumes "jo_wf (fq_state s)" and "(working http2)\<^sup>*\<^sup>* s t" and "worker_step http2 t = None"
  shows "settle http2 s = Some t"
proof -
  have same: "(working http2)\<^sup>*\<^sup>* s t' \<Longrightarrow> worker_step http2 t' = None \<Longrightarrow> t' = t" for t'
    using assms(2,3)
  proof (induction rule: converse_rtranclp_induct)
    case base
    then show ?case by (auto elim: converse_rtranclpE)
  next
    case (step a b)
    from step.prems(1) show ?case
    proof (cases rule: converse_rtranclpE)
      case base
      with step show ?thesis by simp
    next
      case (step c)
      then have "c = b" using \<open>working http2 a b\<close> by simp
      with step \<open>worker_step http2 t' = None\<close> \<open>worker_step http2 t = None\<close> show ?thesis
        by (metis \<open>\<lbrakk>(working http2)\<^sup>*\<^sup>* b t'; worker_step http2 t' = None; worker_step http2 t = None\<rbrakk> \<Longrightarrow> t' = t\<close>)
    qed
  qed
  from settle_rests [OF assms(1), of http2] same show ?thesis by auto
qed

definition at_peace :: "nat \<Rightarrow> task list \<Rightarrow> bool" where
  "at_peace limit ts \<longleftrightarrow> (\<forall>t \<in> set ts. \<not> tk_runs t \<longrightarrow> is_data (tk_request t) \<and> limit \<le> running ts)"

abbreviation idle :: "fetch_system \<Rightarrow> task list \<Rightarrow> bool" where
  "idle s ts \<equiv> fq_state s = items_of ts \<and> fq_batch s = [] \<and> fq_waiting s = []"

lemma peaceful_batch:
  assumes "distinct (map tk_id ts)" and "at_peace (max_parallel_requests http2) ts"
  shows "worker_batch http2 (get_update (items_of ts)) (items_of ts) = []"
  using assms(2) unfolding worker_batch_def Let_def get_update_def at_peace_def
  by (cases "\<forall>t \<in> set ts. tk_runs t") (auto simp: items_of_pending [OF assms(1)] items_of_count [OF assms(1)] filter_empty_conv)

lemma settle_peaceful:
  assumes "idle s ts" and "distinct (map tk_id ts)" and "at_peace (max_parallel_requests http2) ts"
  shows "(working http2)\<^sup>*\<^sup>* (publish_update s) s"
proof (cases "publish_update s = s")
  case False
  then have "publish_update s = s\<lparr>fq_waiting := [get_update (items_of ts)]\<rparr>"
    using assms(1) by (auto simp: publish_update_def Let_def)
  then have "working http2 (publish_update s) s"
    using assms(1) peaceful_batch [OF assms(2,3)] by (simp add: worker_step_def)
  then show ?thesis by blast
qed simp

definition log_start :: "string \<Rightarrow> backend_request \<Rightarrow> fetch_system \<Rightarrow> fetch_system" where
  "log_start k r s = s\<lparr>fq_fetched := fq_fetched s @ [(k, r)], fq_started := fq_started s @ [k]\<rparr>"

lemma publish_log: "log_start k r (publish_update s) = publish_update (log_start k r s)"
  by (simp add: log_start_def publish_update_def Let_def)

lemma settle_start:
  assumes "idle s ts" and "distinct (map tk_id ts)" and "t \<in> set ts" and "\<not> tk_runs t"
    and "worker_batch http2 (get_update (items_of ts)) (items_of ts) = [(tk_id t, tk_request t)]"
    and "at_peace (max_parallel_requests http2) (run_task (tk_id t) ts)" and "tk_id t \<in> set (fq_listeners s)"
  shows "(working http2)\<^sup>*\<^sup>* (publish_update s) (log_start (tk_id t) (tk_request t) (s\<lparr>fq_state := items_of (run_task (tk_id t) ts)\<rparr>))"
proof -
  let ?k = "tk_id t" and ?r = "tk_request t"
  let ?s = "s\<lparr>fq_state := items_of (run_task ?k ts)\<rparr>"
  have "0 < count_status FS_Pending (items_of ts)"
    using assms(3,4) by (auto simp: items_of_count [OF assms(2)] length_greater_0_conv [symmetric] filter_empty_conv simp del: length_greater_0_conv)
  then have pub: "publish_update s = s\<lparr>fq_waiting := [get_update (items_of ts)]\<rparr>"
    using assms(1) by (simp add: publish_update_def Let_def get_update_def)
  have one: "working http2 (publish_update s) (s\<lparr>fq_batch := [(?k, ?r)]\<rparr>)"
    using assms(1,5) by (simp add: worker_step_def pub)
  have item: "jo_get (items_of ts) ?k = Some (snd (item_of t))" by (rule items_of_get [OF assms(2,3)])
  have same: "s\<lparr>fq_batch := [], fq_state := q\<rparr> = s\<lparr>fq_state := q\<rparr>" for q using assms(1) by (cases s) simp
  have "set_in_progress ?k (s\<lparr>fq_batch := []\<rparr>) = publish_update ?s"
    using assms(1) replace_task [OF assms(2,3)] items_of_status(2) [OF assms(2,3)]
    by (simp add: set_in_progress_def handle_entry_def Let_def item item_of_def same)
  then have "response_add ?k ?r (s\<lparr>fq_batch := []\<rparr>) = log_start ?k ?r (publish_update ?s)"
    using assms(7) by (simp add: response_add_def log_start_def)
  then have two: "working http2 (s\<lparr>fq_batch := [(?k, ?r)]\<rparr>) (publish_update (log_start ?k ?r ?s))"
    by (simp add: worker_step_def publish_log)
  have "(working http2)\<^sup>*\<^sup>* (publish_update (log_start ?k ?r ?s)) (log_start ?k ?r ?s)"
    by (rule settle_peaceful [OF _ _ assms(6)]) (use assms(1,2) in \<open>simp_all add: log_start_def\<close>)
  with one two show ?thesis by (meson converse_rtranclp_into_rtranclp)
qed

lemma run_task_members: "u \<in> set (run_task k ts) \<longleftrightarrow> (\<exists>t \<in> set ts. u = (if tk_id t = k then t\<lparr>tk_runs := True\<rparr> else t))"
  unfolding run_task_def set_map image_iff by simp

lemma run_task_requests: "u \<in> set (run_task k ts) \<Longrightarrow> \<not> tk_runs u \<Longrightarrow> u \<in> set ts \<and> tk_id u \<noteq> k"
  by (auto simp: run_task_def split: if_splits)

definition sim :: "scheduler \<Rightarrow> fetch_system \<Rightarrow> bool" where
  "sim sc s \<longleftrightarrow> idle s (sc_tasks sc) \<and> fq_started s = sc_log sc \<and> tk_id ` set (sc_tasks sc) \<subseteq> set (fq_listeners s)"

lemma sched_okD:
  "sched_ok limit sc \<Longrightarrow> distinct (map tk_id (sc_tasks sc))" "sched_ok limit sc \<Longrightarrow> at_peace limit (sc_tasks sc)"
  by (simp_all add: sched_ok_def at_peace_def)

lemma initial_scheduled: "sched_ok limit initial_scheduler" "sim initial_scheduler initial_fetch_system"
  by (simp_all add: sched_ok_def sim_def initial_scheduler_def initial_fetch_system_def items_of_def)

lemma add_entry: "jo_get q k = None \<Longrightarrow> array_index k = None \<Longrightarrow>
  entry_state \<lparr>qe_id = k, qe_options = Some r, qe_state = FS_Pending\<rparr> q = q @ [(k, \<lparr>qi_state = FS_Pending, qi_options = r\<rparr>)]"
  by (auto simp: entry_state_def handle_entry_def Let_def jo_set_def jo_get_def map_add_def jo_replace_append split: option.splits)

lemma sched_ok_peace: "sched_ok limit sc \<longleftrightarrow> distinct (map tk_id (sc_tasks sc)) \<and> at_peace limit (sc_tasks sc)"
  by (simp add: sched_ok_def at_peace_def)

lemma fetch_sim:
  assumes ok: "sched_ok (max_parallel_requests http2) sc" and sim: "sim sc s"
    and k: "k \<notin> tk_id ` set (sc_tasks sc)" "array_index k = None"
  shows "\<exists>s'. handle_event http2 (Fetch k r) s = Some s' \<and> sim (schedule (max_parallel_requests http2) (Fetch k r) sc) s'"
    "sched_ok (max_parallel_requests http2) (schedule (max_parallel_requests http2) (Fetch k r) sc)"
proof -
  let ?limit = "max_parallel_requests http2" and ?ts = "sc_tasks sc"
  let ?t = "\<lparr>tk_id = k, tk_request = r, tk_runs = False\<rparr>"
  let ?ts' = "?ts @ [?t]" and ?s = "(listen k s)\<lparr>fq_state := items_of (?ts @ [?t])\<rparr>"
  note d = sched_okD(1) [OF ok] and peace = sched_okD(2) [OF ok]
  have d': "distinct (map tk_id ?ts')" using d k by auto
  have "entry_state \<lparr>qe_id = k, qe_options = Some r, qe_state = FS_Pending\<rparr> (items_of ?ts) = items_of ?ts'"
    by (subst add_entry) (simp_all add: items_of_get_None k, simp add: items_of_def item_of_def)
  then have start: "queue_add k r (listen k s) = publish_update ?s"
    using sim by (simp add: queue_add_def handle_entry_eq listen_def sim_def)
  have run: "run_task k ?ts' = ?ts @ [?t\<lparr>tk_runs := True\<rparr>]" using k by (auto simp: run_task_def image_iff intro!: map_idI)
  let ?go = "\<not> is_data r \<or> running ?ts < ?limit"
  have waiting: "filter (\<lambda>t. \<not> tk_runs t) ?ts \<noteq> [] \<Longrightarrow> ?limit \<le> running ?ts"
    using peace by (auto simp: at_peace_def filter_empty_conv)
  have none: "filter (\<lambda>t. \<not> tk_runs t \<and> \<not> is_data (tk_request t)) ?ts = []"
    "filter (\<lambda>t. \<not> tk_runs t \<and> is_data (tk_request t)) ?ts = filter (\<lambda>t. \<not> tk_runs t) ?ts"
    using peace by (auto simp: at_peace_def filter_empty_conv intro: filter_cong)
  have runs: "running ?ts' = running ?ts" "running (?ts @ [?t\<lparr>tk_runs := True\<rparr>]) = Suc (running ?ts)" by (simp_all add: running_def)
  have wf: "jo_wf (fq_state (publish_update ?s))" using d' by simp
  have idle: "idle ?s ?ts'" using sim by (simp add: sim_def listen_def)
  have sets: "tk_id ` set ?ts \<subseteq> set (fq_listeners s)" "fq_started s = sc_log sc" using sim by (simp_all add: sim_def)
  show "sched_ok ?limit (schedule ?limit (Fetch k r) sc)"
    using peace d k runs(2) by (auto simp: sched_ok_peace at_peace_def Let_def running_def)
  show "\<exists>s'. handle_event http2 (Fetch k r) s = Some s' \<and> sim (schedule ?limit (Fetch k r) sc) s'"
  proof (cases ?go)
    case True
    have batch: "worker_batch http2 (get_update (items_of ?ts')) (items_of ?ts') = [(k, r)]"
      using True waiting by (cases "filter (\<lambda>t. \<not> tk_runs t) ?ts = []")
        (auto simp: worker_batch_def Let_def get_update_def items_of_pending [OF d'] items_of_count [OF d'] runs none)
    have after: "at_peace ?limit (run_task k ?ts')" using peace runs(2) unfolding run by (auto simp: at_peace_def running_def)
    from settle_start [OF idle d', of ?t http2] batch after
    have "(working http2)\<^sup>*\<^sup>* (publish_update ?s) (log_start k r (?s\<lparr>fq_state := items_of (run_task k ?ts')\<rparr>))" by (simp add: listen_def)
    from settle_unique [OF wf this] start idle True show ?thesis
      by (simp add: log_start_def sim_def at_rest run Let_def sets) (use sets in \<open>auto simp: listen_def\<close>)
  next
    case False
    have "at_peace ?limit ?ts'" using False peace runs(1) by (auto simp: at_peace_def running_def)
    from settle_unique [OF wf settle_peaceful [OF idle d' this]] start idle False show ?thesis
      by (simp add: sim_def at_rest Let_def) (use sets in \<open>auto simp: listen_def\<close>)
  qed
qed

lemma delete_entry: "entry_state \<lparr>qe_id = k, qe_options = r, qe_state = FS_Done\<rparr> (items_of ts) = items_of (filter (\<lambda>t. tk_id t \<noteq> k) ts)"
proof -
  have "jo_delete k (items_of ts) = items_of (filter (\<lambda>t. tk_id t \<noteq> k) ts)"
    by (simp add: jo_delete_def items_of_def filter_map comp_def item_of_def)
  then show ?thesis by (simp add: entry_state_def handle_entry_def Let_def jo_delete_set)
qed

lemma running_remove: "distinct (map tk_id ts) \<Longrightarrow> running ts \<le> Suc (running (filter (\<lambda>t. tk_id t \<noteq> k) ts))"
proof (induction ts)
  case (Cons u ts)
  show ?case
  proof (cases "tk_id u = k")
    case True
    then have "filter (\<lambda>t. tk_id t \<noteq> k) ts = ts" using Cons.prems by (auto simp: image_iff filter_id_conv)
    with True show ?thesis by (simp add: running_def)
  next
    case False
    with Cons show ?thesis by (auto simp: running_def)
  qed
qed (simp add: running_def)

lemma distinct_filter_ids: "distinct (map tk_id ts) \<Longrightarrow> distinct (map tk_id (filter P ts))"
  by (simp add: distinct_map_filter)

lemma finish_sim:
  assumes ok: "sched_ok (max_parallel_requests http2) sc" and sim: "sim sc s"
  shows "\<exists>s'. handle_event http2 (Finish k) s = Some s' \<and> sim (schedule (max_parallel_requests http2) (Finish k) sc) s'"
    "sched_ok (max_parallel_requests http2) (schedule (max_parallel_requests http2) (Finish k) sc)"
proof -
  let ?limit = "max_parallel_requests http2" and ?ts = "filter (\<lambda>t. tk_id t \<noteq> k) (sc_tasks sc)"
  let ?s = "s\<lparr>fq_state := items_of ?ts\<rparr>" and ?sc = "schedule ?limit (Finish k) sc"
  note d = distinct_filter_ids [OF sched_okD(1) [OF ok], of "\<lambda>t. tk_id t \<noteq> k"]
  have start: "set_done k s = publish_update ?s" using sim by (simp add: set_done_def handle_entry_eq sim_def delete_entry)
  have idle: "idle ?s ?ts" and sets: "tk_id ` set ?ts \<subseteq> set (fq_listeners s)" "fq_started s = sc_log sc"
    using sim by (auto simp: sim_def)
  have wf: "jo_wf (fq_state (publish_update ?s))" using d by simp
  have waiting: "is_data (tk_request t) \<and> ?limit \<le> Suc (running ?ts)" if "t \<in> set ?ts" "\<not> tk_runs t" for t
    using that sched_okD(2) [OF ok] running_remove [OF sched_okD(1) [OF ok], of k] by (auto simp: at_peace_def intro: le_trans)
  have finish: "\<exists>s'. handle_event http2 (Finish k) s = Some s' \<and> sim ?sc s'"
    if "(working http2)\<^sup>*\<^sup>* (publish_update ?s) s'" "idle s' (sc_tasks ?sc)" "fq_started s' = sc_log ?sc"
      "tk_id ` set (sc_tasks ?sc) \<subseteq> set (fq_listeners s') - {k}" for s'
    using settle_unique [OF wf that(1)] that(2-4) start by (auto simp: sim_def at_rest unlisten_def)
  have goal: "(\<exists>s'. handle_event http2 (Finish k) s = Some s' \<and> sim ?sc s') \<and> sched_ok ?limit ?sc"
  proof (cases "filter (\<lambda>t. \<not> tk_runs t) ?ts = [] \<or> \<not> running ?ts < ?limit")
    case True
    then have sc: "?sc = sc\<lparr>sc_tasks := ?ts\<rparr>" by (cases "filter (\<lambda>t. \<not> tk_runs t) ?ts") (simp_all add: start_next_def)
    have peace: "at_peace ?limit ?ts"
      using True waiting unfolding at_peace_def by (metis (mono_tags, lifting) filter_empty_conv not_le)
    have "\<exists>s'. handle_event http2 (Finish k) s = Some s' \<and> sim ?sc s'"
      by (rule finish [OF settle_peaceful [OF idle d peace]]) (use idle sets in \<open>unfold sc, auto\<close>)
    then show ?thesis using peace d unfolding sc by (simp add: sched_ok_peace)
  next
    case False
    then obtain t ws where t: "filter (\<lambda>t. \<not> tk_runs t) ?ts = t # ws" by (cases "filter (\<lambda>t. \<not> tk_runs t) ?ts") auto
    have mem: "t \<in> set ?ts" "\<not> tk_runs t" using t by (auto dest: filter_eq_ConsD)
    let ?ts' = "run_task (tk_id t) ?ts"
    have sc: "?sc = \<lparr>sc_tasks = ?ts', sc_log = sc_log sc @ [tk_id t]\<rparr>" using t False by (simp add: start_next_def)
    have none: "filter (\<lambda>t. \<not> tk_runs t \<and> \<not> is_data (tk_request t)) ?ts = []" using waiting by (auto simp: filter_empty_conv)
    have same: "filter (\<lambda>t. \<not> tk_runs t \<and> is_data (tk_request t)) ?ts = filter (\<lambda>t. \<not> tk_runs t) ?ts"
      using waiting by (intro filter_cong) auto
    have full: "?limit = Suc (running ?ts)" using waiting [OF mem] False by simp
    have batch: "worker_batch http2 (get_update (items_of ?ts)) (items_of ?ts) = [(tk_id t, tk_request t)]"
      unfolding worker_batch_def Let_def items_of_pending [OF d] eq_False eq_True none same t
      by (simp add: get_update_def items_of_count [OF d] full)
    have after: "at_peace ?limit ?ts'"
      using waiting running_run_task [OF d mem] full run_task_requests unfolding at_peace_def by metis
    have ids: "tk_id ` set ?ts' = tk_id ` set ?ts" by (metis run_task_ids set_map)
    have listens: "tk_id t \<in> set (fq_listeners ?s)" using sets mem by auto
    have "\<exists>s'. handle_event http2 (Finish k) s = Some s' \<and> sim ?sc s'"
      by (rule finish [OF settle_start [OF idle d mem batch after listens]])
         (use idle sets in \<open>unfold sc log_start_def, auto simp: ids\<close>)
    then show ?thesis using after d unfolding sc by (simp add: sched_ok_peace)
  qed
  from goal show "\<exists>s'. handle_event http2 (Finish k) s = Some s' \<and> sim ?sc s'" "sched_ok ?limit ?sc" by auto
qed

end
