(* ===== verification/Fetch_Order.thy ===== *)
theory Fetch_Order
  imports Fetch_Scheduler
begin

text \<open>
  Properties of the scheduler, and with the refinement of the fetch queue: the limit, the order in which queries of data
  run, and that every request is started. The queue is used by clients that act while its worker rests, and requests have
  identifiers of their own.
\<close>

section \<open>Invariant of the scheduler\<close>

definition in_order :: "task list \<Rightarrow> bool" where
  "in_order = sorted_wrt (\<lambda>a b. is_data (tk_request a) \<and> is_data (tk_request b) \<and> tk_runs b \<longrightarrow> tk_runs a)"

definition data_running :: "task list \<Rightarrow> nat" where
  "data_running ts = length (filter (\<lambda>t. is_data (tk_request t) \<and> tk_runs t) ts)"

definition sched_inv :: "nat \<Rightarrow> string set \<Rightarrow> scheduler \<Rightarrow> bool" where
  "sched_inv limit used sc \<longleftrightarrow>
     tk_id ` set (sc_tasks sc) \<subseteq> used \<and> set (sc_log sc) \<subseteq> used \<and> distinct (sc_log sc) \<and>
     (\<forall>t \<in> set (sc_tasks sc). tk_runs t \<longleftrightarrow> tk_id t \<in> set (sc_log sc)) \<and>
     data_running (sc_tasks sc) \<le> limit \<and> in_order (sc_tasks sc)"

lemma sched_invD:
  assumes "sched_inv limit used sc"
  shows "tk_id ` set (sc_tasks sc) \<subseteq> used" "set (sc_log sc) \<subseteq> used" "distinct (sc_log sc)"
    "\<And>t. t \<in> set (sc_tasks sc) \<Longrightarrow> tk_runs t \<longleftrightarrow> tk_id t \<in> set (sc_log sc)"
    "data_running (sc_tasks sc) \<le> limit" "in_order (sc_tasks sc)"
  using assms by (auto simp: sched_inv_def)

lemma data_running_le: "data_running ts \<le> running ts"
  by (induction ts) (auto simp: data_running_def running_def)

lemma data_running_filter: "data_running (filter P ts) \<le> data_running ts"
  by (induction ts) (auto simp: data_running_def)

lemma all_run: "at_peace limit ts \<Longrightarrow> running ts < limit \<Longrightarrow> t \<in> set ts \<Longrightarrow> tk_runs t"
  by (auto simp: at_peace_def)

lemma inv_fetch:
  assumes ok: "sched_ok limit sc" and inv: "sched_inv limit used sc" and k: "k \<notin> used"
  shows "sched_inv limit (insert k used) (schedule limit (Fetch k r) sc)"
proof -
  note peace = sched_okD(2) [OF ok] and D = sched_invD [OF inv]
  have "data_running (sc_tasks sc) < limit" if "running (sc_tasks sc) < limit"
    using that data_running_le [of "sc_tasks sc"] by simp
  moreover have "in_order (sc_tasks sc @ [\<lparr>tk_id = k, tk_request = r, tk_runs = \<not> is_data r \<or> running (sc_tasks sc) < limit\<rparr>])"
    using D(6) all_run [OF peace] by (auto simp: in_order_def sorted_wrt_append)
  ultimately show ?thesis
    using D(1-5) k by (auto simp: sched_inv_def Let_def data_running_def image_subset_iff)
qed

lemma run_first:
  assumes "filter (\<lambda>t. \<not> tk_runs t) ts = t # ws" and "distinct (map tk_id ts)"
  obtains us vs where "ts = us @ t # vs" "\<forall>u \<in> set us. tk_runs u" "run_task (tk_id t) ts = us @ t\<lparr>tk_runs := True\<rparr> # vs"
proof -
  obtain us vs where ts: "ts = us @ t # vs" "\<forall>u \<in> set us. tk_runs u" "\<not> tk_runs t"
    using filter_eq_ConsD [OF assms(1)] by auto
  have "run_task (tk_id t) us = us" "run_task (tk_id t) vs = vs"
    using assms(2) unfolding ts(1) by (auto simp: run_task_def image_iff intro!: map_idI)
  then have "run_task (tk_id t) ts = us @ t\<lparr>tk_runs := True\<rparr> # vs" unfolding ts(1) by (simp add: run_task_def)
  with ts that show thesis by blast
qed

lemma inv_finish:
  assumes ok: "sched_ok limit sc" and inv: "sched_inv limit used sc"
  shows "sched_inv limit used (schedule limit (Finish k) sc)"
proof -
  let ?ts = "filter (\<lambda>t. tk_id t \<noteq> k) (sc_tasks sc)"
  note D = sched_invD [OF inv]
  have less: "sched_inv limit used (sc\<lparr>sc_tasks := ?ts\<rparr>)"
    using D data_running_filter [of "\<lambda>t. tk_id t \<noteq> k" "sc_tasks sc"]
    by (auto simp: sched_inv_def in_order_def sorted_wrt_filter)
  show ?thesis
  proof (cases "filter (\<lambda>t. \<not> tk_runs t) ?ts = [] \<or> \<not> running ?ts < limit")
    case True
    then have "schedule limit (Finish k) sc = sc\<lparr>sc_tasks := ?ts\<rparr>"
      by (cases "filter (\<lambda>t. \<not> tk_runs t) ?ts") (simp_all add: start_next_def)
    with less show ?thesis by simp
  next
    case False
    then obtain t ws where t: "filter (\<lambda>t. \<not> tk_runs t) ?ts = t # ws" by (cases "filter (\<lambda>t. \<not> tk_runs t) ?ts") auto
    have d: "distinct (map tk_id ?ts)" by (rule distinct_filter_ids [OF sched_okD(1) [OF ok]])
    obtain us vs where ts: "?ts = us @ t # vs" "\<forall>u \<in> set us. tk_runs u" "run_task (tk_id t) ?ts = us @ t\<lparr>tk_runs := True\<rparr> # vs"
      using run_first [OF t d] .
    have sc: "schedule limit (Finish k) sc = \<lparr>sc_tasks = us @ t\<lparr>tk_runs := True\<rparr> # vs, sc_log = sc_log sc @ [tk_id t]\<rparr>"
      using t False by (simp add: start_next_def ts(3) [simplified])
    note L = sched_invD [OF less, simplified]
    have mem: "t \<in> set ?ts" "\<not> tk_runs t" using t by (auto dest: filter_eq_ConsD)
    have new: "tk_id t \<notin> set (sc_log sc)" "tk_id t \<in> used" using mem D(1,4) by auto
    have others: "tk_id u \<noteq> tk_id t" if "u \<in> set us \<union> set vs" for u
      using d that unfolding ts(1) by (auto simp: image_iff)
    have runs: "tk_runs u \<longleftrightarrow> tk_id u \<in> set (sc_log sc)" if "u \<in> set us \<union> set vs" for u
    proof -
      have "u \<in> set ?ts" using that unfolding ts(1) by auto
      then show ?thesis using D(4) by simp
    qed
    have ids: "tk_id u \<in> used" if "u \<in> set us \<union> set vs" for u
    proof -
      have "u \<in> set ?ts" using that unfolding ts(1) by auto
      then show ?thesis using D(1) by auto
    qed
    have "in_order (us @ t # vs)" using sched_invD(6) [OF less] ts(1) by simp
    then have order: "in_order (us @ t\<lparr>tk_runs := True\<rparr> # vs)"
      using ts(2) by (auto simp: in_order_def sorted_wrt_append)
    have "data_running (us @ t\<lparr>tk_runs := True\<rparr> # vs) \<le> Suc (data_running ?ts)" unfolding ts(1) by (simp add: data_running_def)
    moreover have "data_running ?ts < limit" using False data_running_le [of ?ts] by linarith
    ultimately have "data_running (us @ t\<lparr>tk_runs := True\<rparr> # vs) \<le> limit" by linarith
    with order new others runs ids D(2,3) show ?thesis unfolding sc by (auto simp: sched_inv_def)
  qed
qed

section \<open>The queue refines the scheduler\<close>

lemma inv_ids: "sched_inv limit used sc \<Longrightarrow> k \<notin> used \<Longrightarrow> k \<notin> tk_id ` set (sc_tasks sc)"
  by (auto simp: sched_inv_def)

lemma schedule_run:
  assumes "fresh_events used es" and "sched_ok (max_parallel_requests http2) sc"
    and "sched_inv (max_parallel_requests http2) used sc" and "sim sc s"
  shows "\<exists>s' used'. handle_events http2 es s = Some s' \<and> sim (fold (schedule (max_parallel_requests http2)) es sc) s' \<and>
    sched_ok (max_parallel_requests http2) (fold (schedule (max_parallel_requests http2)) es sc) \<and>
    sched_inv (max_parallel_requests http2) used' (fold (schedule (max_parallel_requests http2)) es sc)"
  using assms
proof (induction used es arbitrary: sc s rule: fresh_events.induct)
  case (2 used k r es)
  have k: "k \<notin> tk_id ` set (sc_tasks sc)" "array_index k = None" using "2.prems" by (auto dest: inv_ids)
  obtain s1 where "handle_event http2 (Fetch k r) s = Some s1" "sim (schedule (max_parallel_requests http2) (Fetch k r) sc) s1"
    using fetch_sim(1) [OF "2.prems"(2,4) k] by blast
  with "2.IH" [OF _ fetch_sim(2) [OF "2.prems"(2,4) k] inv_fetch [OF "2.prems"(2,3)]] "2.prems"(1) show ?case
    by (simp del: schedule.simps handle_event.simps)
next
  case (3 used k es)
  obtain s1 where "handle_event http2 (Finish k) s = Some s1" "sim (schedule (max_parallel_requests http2) (Finish k) sc) s1"
    using finish_sim(1) [OF "3.prems"(2,4)] by blast
  with "3.IH" [OF _ finish_sim(2) [OF "3.prems"(2,4), of k] inv_finish [OF "3.prems"(2,3), of k]] "3.prems"(1) show ?case
    by (simp del: schedule.simps handle_event.simps)
qed auto

lemma scheduled:
  assumes "fresh_events {} es" and "handle_events http2 es initial_fetch_system = Some s"
  shows "\<exists>used. sim (fold (schedule (max_parallel_requests http2)) es initial_scheduler) s \<and>
    sched_ok (max_parallel_requests http2) (fold (schedule (max_parallel_requests http2)) es initial_scheduler) \<and>
    sched_inv (max_parallel_requests http2) used (fold (schedule (max_parallel_requests http2)) es initial_scheduler)"
proof -
  have "sched_inv (max_parallel_requests http2) {} initial_scheduler"
    by (simp add: sched_inv_def initial_scheduler_def data_running_def in_order_def)
  from schedule_run [OF assms(1) initial_scheduled(1) this initial_scheduled(2)] assms(2) show ?thesis by auto
qed

lemma handle_events_return: "fresh_events {} es \<Longrightarrow> handle_events http2 es initial_fetch_system \<noteq> None"
proof -
  assume es: "fresh_events {} es"
  have "sched_inv (max_parallel_requests http2) {} initial_scheduler"
    by (simp add: sched_inv_def initial_scheduler_def data_running_def in_order_def)
  from schedule_run [OF es initial_scheduled(1) this initial_scheduled(2)] show ?thesis by auto
qed

text \<open>
  C32. For clients that act while the worker rests the three classes are the scheduler: every call returns, the record of the
  queue lists the tasks in the order of their arrival with their state, the responses delivered are those of the tasks
  started, in this order, and no update or request is left over.
\<close>

theorem fetch_queue_is_scheduler:
  assumes "fresh_events {} es"
  shows "\<exists>s. handle_events http2 es initial_fetch_system = Some s \<and> fq_batch s = [] \<and> fq_waiting s = [] \<and>
    (let sc = fold (schedule (max_parallel_requests http2)) es initial_scheduler in
     fq_state s = map (\<lambda>t. (tk_id t, \<lparr>qi_state = (if tk_runs t then FS_InProgress else FS_Pending), qi_options = tk_request t\<rparr>)) (sc_tasks sc) \<and>
     fq_started s = sc_log sc)"
proof -
  have "sched_inv (max_parallel_requests http2) {} initial_scheduler"
    by (simp add: sched_inv_def initial_scheduler_def data_running_def in_order_def)
  from schedule_run [OF assms initial_scheduled(1) this initial_scheduled(2)] show ?thesis
    by (auto simp: sim_def items_of_def item_of_def [abs_def] Let_def)
qed

definition sample_events :: "fetch_event list" where
  "sample_events =
     map (\<lambda>k. Fetch k \<lparr>br_url = ''/api/ds/query''\<rparr>) [''a-'', ''b-'', ''c-'', ''d-'', ''e-'', ''f-'', ''g-'']
     @ [Fetch ''h-'' \<lparr>br_url = ''/api/org''\<rparr>, Finish ''b-'', Finish ''g-'', Finish ''c-'']"

lemma sample_events_fresh: "fresh_events {} sample_events"
  by (simp add: sample_events_def) code_simp

lemma sample_events_returns: "handle_events False sample_events initial_fetch_system \<noteq> None"
  using handle_events_return [OF sample_events_fresh] by blast

theorem fetch_queue_is_scheduler_witness:
  "\<exists>s. handle_events False sample_events initial_fetch_system = Some s \<and> fq_started s = [''a-'', ''b-'', ''c-'', ''d-'', ''e-'', ''h-'', ''f-'']"
proof -
  have "sc_log (fold (schedule (max_parallel_requests False)) sample_events initial_scheduler) = [''a-'', ''b-'', ''c-'', ''d-'', ''e-'', ''h-'', ''f-'']"
    by code_simp
  with fetch_queue_is_scheduler [OF sample_events_fresh, of False] show ?thesis by (auto simp: Let_def)
qed

section \<open>Limit and order\<close>

definition data_item :: "string \<times> queue_item \<Rightarrow> bool" where
  "data_item e \<longleftrightarrow> is_data (qi_options (snd e))"

definition runs_item :: "string \<times> queue_item \<Rightarrow> bool" where
  "runs_item e \<longleftrightarrow> qi_state (snd e) = FS_InProgress"

lemma item_flags [simp]: "data_item (item_of t) = is_data (tk_request t)" "runs_item (item_of t) = tk_runs t" "fst (item_of t) = tk_id t"
  by (simp_all add: data_item_def runs_item_def item_of_def)

text \<open>
  C34. For clients that act while the worker rests, each request with an identifier of its own: no more queries of data
  are in progress than the limit allows; a query of data is in progress only when every query that arrived before it is
  in progress or done; no request is started twice, and those in progress are the ones of the queue that have been
  started. Clients that act while a batch is handed out can exceed the limit (\<open>limit_exceeded\<close>).
\<close>

theorem limit_and_order_kept:
  assumes "fresh_events {} es" and "handle_events http2 es initial_fetch_system = Some s"
  shows "length (filter (\<lambda>e. data_item e \<and> runs_item e) (fq_state s)) \<le> max_parallel_requests http2 \<and>
    sorted_wrt (\<lambda>a b. data_item a \<and> data_item b \<and> runs_item b \<longrightarrow> runs_item a) (fq_state s) \<and>
    distinct (fq_started s) \<and> (\<forall>e \<in> set (fq_state s). runs_item e \<longleftrightarrow> fst e \<in> set (fq_started s))"
proof -
  let ?sc = "fold (schedule (max_parallel_requests http2)) es initial_scheduler"
  obtain used where sim: "sim ?sc s" and inv: "sched_inv (max_parallel_requests http2) used ?sc" using scheduled [OF assms] by blast
  have s: "fq_state s = map item_of (sc_tasks ?sc)" "fq_started s = sc_log ?sc" using sim by (simp_all add: sim_def items_of_def)
  show ?thesis
    unfolding s using sched_invD(3,5,6) [OF inv] sched_invD(4) [OF inv]
    by (auto simp: filter_map comp_def data_running_def in_order_def sorted_wrt_map)
qed

theorem limit_and_order_kept_witness:
  "\<exists>s. handle_events False sample_events initial_fetch_system = Some s \<and>
    length (filter (\<lambda>e. data_item e \<and> runs_item e) (fq_state s)) \<le> 5 \<and> distinct (fq_started s)"
proof -
  obtain s where s: "handle_events False sample_events initial_fetch_system = Some s"
    by (cases "handle_events False sample_events initial_fetch_system") (insert sample_events_returns, simp_all)
  with limit_and_order_kept [OF sample_events_fresh s] show ?thesis by (auto simp: max_parallel_requests_def)
qed

section \<open>Every request gets its turn\<close>

text \<open>
  As long as the queue holds requests some request is in progress, and whichever of these finishes, the same holds after it,
  for \<open>n\<close> times; then the queue is empty and all of \<open>goal\<close> has been started.
\<close>

fun drains :: "bool \<Rightarrow> nat \<Rightarrow> string set \<Rightarrow> fetch_system \<Rightarrow> bool" where
  "drains http2 0 goal s \<longleftrightarrow> fq_state s = [] \<and> goal \<subseteq> set (fq_started s)"
| "drains http2 (Suc n) goal s \<longleftrightarrow>
     (\<exists>e \<in> set (fq_state s). runs_item e) \<and>
     (\<forall>e \<in> set (fq_state s). runs_item e \<longrightarrow>
        (\<exists>s'. handle_event http2 (Finish (fst e)) s = Some s' \<and> drains http2 n goal s'))"

lemma schedule_log: "set (sc_log sc) \<subseteq> set (sc_log (schedule limit (Finish k) sc))"
  by (auto simp: start_next_def split: list.splits)

lemma schedule_finish_ids: "map tk_id (sc_tasks (schedule limit (Finish k) sc)) = map tk_id (filter (\<lambda>t. tk_id t \<noteq> k) (sc_tasks sc))"
  by (auto simp: start_next_def split: list.splits)

lemma length_remove_id: "distinct (map tk_id ts) \<Longrightarrow> t \<in> set ts \<Longrightarrow> Suc (length (filter (\<lambda>u. tk_id u \<noteq> tk_id t) ts)) = length ts"
proof (induction ts)
  case (Cons u ts)
  show ?case
  proof (cases "tk_id u = tk_id t")
    case True
    then have "filter (\<lambda>u. tk_id u \<noteq> tk_id t) ts = ts" using Cons.prems by (auto simp: image_iff filter_id_conv)
    with True show ?thesis by simp
  next
    case False
    with Cons show ?thesis by auto
  qed
qed simp

lemma some_runs: "sched_ok limit sc \<Longrightarrow> 0 < limit \<Longrightarrow> sc_tasks sc \<noteq> [] \<Longrightarrow> \<exists>t \<in> set (sc_tasks sc). tk_runs t"
  by (cases "sc_tasks sc") (auto simp: sched_ok_def running_def filter_empty_conv length_greater_0_conv [symmetric] simp del: length_greater_0_conv dest!: bspec)

lemma goal_moves: "goal \<subseteq> L \<union> T \<Longrightarrow> L \<subseteq> L' \<Longrightarrow> k \<in> L \<Longrightarrow> T' = T - {k} \<Longrightarrow> goal \<subseteq> L' \<union> T'"
  by auto

lemma drains_all:
  assumes "sched_ok (max_parallel_requests http2) sc" and "sched_inv (max_parallel_requests http2) used sc" and "sim sc s"
    and "goal \<subseteq> set (sc_log sc) \<union> tk_id ` set (sc_tasks sc)" and "length (sc_tasks sc) = n"
  shows "drains http2 n goal s"
  using assms
proof (induction n arbitrary: sc s)
  case 0
  then show ?case by (simp add: sim_def items_of_def)
next
  case (Suc n)
  let ?limit = "max_parallel_requests http2"
  have s: "fq_state s = map item_of (sc_tasks sc)" using Suc.prems(3) by (simp add: sim_def items_of_def)
  have "\<exists>t \<in> set (sc_tasks sc). tk_runs t"
    by (rule some_runs [OF Suc.prems(1)]) (use Suc.prems(5) in \<open>auto simp: max_parallel_requests_def\<close>)
  moreover have "\<exists>s'. handle_event http2 (Finish (tk_id t)) s = Some s' \<and> drains http2 n goal s'"
    if t: "t \<in> set (sc_tasks sc)" "tk_runs t" for t
  proof -
    let ?sc = "schedule ?limit (Finish (tk_id t)) sc"
    obtain s' where s': "handle_event http2 (Finish (tk_id t)) s = Some s'" "sim ?sc s'"
      using finish_sim(1) [OF Suc.prems(1,3)] by blast
    have ids: "map tk_id (sc_tasks ?sc) = map tk_id (filter (\<lambda>u. tk_id u \<noteq> tk_id t) (sc_tasks sc))" by (rule schedule_finish_ids)
    have "length (filter (\<lambda>u. tk_id u \<noteq> tk_id t) (sc_tasks sc)) = n"
      using Suc.prems(5) length_remove_id [OF sched_okD(1) [OF Suc.prems(1)] t(1)] by simp
    then have len: "length (sc_tasks ?sc) = n" using arg_cong [OF ids, of length] by simp
    have "tk_id t \<in> set (sc_log sc)" using sched_invD(4) [OF Suc.prems(2) t(1)] t(2) by simp
    moreover have "tk_id ` set (sc_tasks ?sc) = tk_id ` set (sc_tasks sc) - {tk_id t}"
      using arg_cong [OF ids, of set] by auto
    ultimately have "goal \<subseteq> set (sc_log ?sc) \<union> tk_id ` set (sc_tasks ?sc)"
      by (rule goal_moves [OF Suc.prems(4) schedule_log])
    from Suc.IH [OF finish_sim(2) [OF Suc.prems(1,3)] inv_finish [OF Suc.prems(1,2)] s'(2) this len] s'(1)
    show ?thesis by blast
  qed
  ultimately show ?case unfolding drains.simps s by (simp del: handle_event.simps)
qed

text \<open>
  C35. For clients that act while the worker rests, each request with an identifier of its own: as long as requests are
  in the queue some request is in progress. If requests in progress finish one after another, in whatever order, each
  makes the queue shorter by one, until it is empty and every request that was in it has been started. A request that is
  cancelled while its batch is handed out comes back to the queue instead, without being started
  (\<open>cancelled_request_revived\<close>).
\<close>

theorem every_request_starts:
  assumes "fresh_events {} es" and "handle_events http2 es initial_fetch_system = Some s"
  shows "drains http2 (length (fq_state s)) (fst ` set (fq_state s)) s"
proof -
  let ?sc = "fold (schedule (max_parallel_requests http2)) es initial_scheduler"
  obtain used where sim: "sim ?sc s" and ok: "sched_ok (max_parallel_requests http2) ?sc"
    and inv: "sched_inv (max_parallel_requests http2) used ?sc" using scheduled [OF assms] by blast
  have s: "fq_state s = map item_of (sc_tasks ?sc)" using sim by (simp add: sim_def items_of_def)
  show ?thesis by (rule drains_all [OF ok inv sim]) (auto simp: s)
qed

theorem every_request_starts_witness:
  "\<exists>s. handle_events False sample_events initial_fetch_system = Some s \<and> drains False (length (fq_state s)) (fst ` set (fq_state s)) s"
proof -
  obtain s where s: "handle_events False sample_events initial_fetch_system = Some s"
    by (cases "handle_events False sample_events initial_fetch_system") (insert sample_events_returns, simp_all)
  with every_request_starts [OF sample_events_fresh s] show ?thesis by blast
qed

section \<open>Clients that act while a batch is handed out\<close>

lemma attended_settle:
  assumes "attended http2 s" and "settle http2 s = Some s'"
  shows "(fetch_step http2)\<^sup>*\<^sup>* s s'"
  using settle_rests [of s http2] assms working_steps by (auto simp: attended_def)

lemma handle_event_steps:
  assumes "attended http2 s" and "handle_event http2 e s = Some s'"
  shows "(fetch_step http2)\<^sup>*\<^sup>* s s'"
proof (cases e)
  case (Fetch k r)
  have "fetch_step http2 s (queue_add k r (listen k s))" by (rule Added)
  moreover have "(fetch_step http2)\<^sup>*\<^sup>* (queue_add k r (listen k s)) s'"
    by (rule attended_settle [OF attended_step [OF Added assms(1)]]) (use assms(2) Fetch in simp)
  ultimately show ?thesis by (meson converse_rtranclp_into_rtranclp)
next
  case (Finish k)
  then obtain t where t: "settle http2 (set_done k s) = Some t" "s' = unlisten k t" using assms(2) by auto
  have "fetch_step http2 s (set_done k s)" by (rule Finished)
  moreover have "(fetch_step http2)\<^sup>*\<^sup>* (set_done k s) t" by (rule attended_settle [OF attended_step [OF Finished assms(1)] t(1)])
  moreover have "fetch_step http2 t s'" unfolding t(2) by (rule Left)
  ultimately show ?thesis by (meson converse_rtranclp_into_rtranclp rtranclp.rtrancl_into_rtrancl)
qed

lemma handle_events_steps:
  "attended http2 s \<Longrightarrow> handle_events http2 es s = Some s' \<Longrightarrow> (fetch_step http2)\<^sup>*\<^sup>* s s'"
proof (induction es arbitrary: s)
  case (Cons e es)
  then obtain t where t: "handle_event http2 e s = Some t" "handle_events http2 es t = Some s'" by (auto split: Option.bind_splits)
  have run: "(fetch_step http2)\<^sup>*\<^sup>* s t" by (rule handle_event_steps [OF Cons.prems(1) t(1)])
  then have "attended http2 t" using fetching.run_inv Cons.prems(1) by blast
  from Cons.IH [OF this t(2)] run show ?case by simp
qed simp

text \<open>
  Eight queries of data arrive, of which five run. The end of the first lets the sixth start; when its response is delivered,
  the second query is cancelled and another one arrives. Two updates that each count four in progress are kept back, and
  each lets a query start: six are in progress.
\<close>

definition data_request :: backend_request where
  "data_request = \<lparr>br_url = ''api/ds/query''\<rparr>"

definition racing_run :: "fetch_system option" where
  "racing_run =
     Option.bind (handle_events False (map (\<lambda>k. Fetch k data_request) [''a-'', ''b-'', ''c-'', ''d-'', ''e-'', ''f-'', ''g-'', ''h-'']) initial_fetch_system) (\<lambda>s.
     Option.bind (worker_step False (set_done ''a-'' s)) (\<lambda>s.
     Option.bind (worker_step False s) (\<lambda>s.
     settle False (queue_add ''i-'' data_request (listen ''i-'' (set_done ''b-'' s))))))"

lemma racing_run_result:
  "map_option (\<lambda>s. (length (filter (\<lambda>e. data_item e \<and> runs_item e) (fq_state s)), fq_batch s = [], fq_waiting s = [])) racing_run = Some (6, True, True)"
  by code_simp

lemma limit_exceeded:
  "\<exists>s. (fetch_step False)\<^sup>*\<^sup>* initial_fetch_system s \<and> worker_step False s = None \<and>
     length (filter (\<lambda>e. data_item e \<and> runs_item e) (fq_state s)) = Suc (max_parallel_requests False)"
proof -
  obtain s where s: "racing_run = Some s" "length (filter (\<lambda>e. data_item e \<and> runs_item e) (fq_state s)) = 6" "fq_batch s = []" "fq_waiting s = []"
    using racing_run_result by (auto simp: map_option_eq_Some)
  obtain a b c where run: "handle_events False (map (\<lambda>k. Fetch k data_request) [''a-'', ''b-'', ''c-'', ''d-'', ''e-'', ''f-'', ''g-'', ''h-'']) initial_fetch_system = Some a"
    "worker_step False (set_done ''a-'' a) = Some b" "worker_step False b = Some c"
    "settle False (queue_add ''i-'' data_request (listen ''i-'' (set_done ''b-'' c))) = Some s"
    using s(1) unfolding racing_run_def bind_eq_Some_conv by blast
  note start = fetching.first_inv [OF refl, of False]
  have a: "(fetch_step False)\<^sup>*\<^sup>* initial_fetch_system a" by (rule handle_events_steps [OF start run(1)])
  let ?c = "queue_add ''i-'' data_request (listen ''i-'' (set_done ''b-'' c))"
  have c: "(fetch_step False)\<^sup>*\<^sup>* initial_fetch_system ?c"
    using a Finished [of False a "''a-''"] Worked [OF run(2)] Worked [OF run(3)] Finished [of False c "''b-''"] Added [of False "set_done ''b-'' c" "''i-''" data_request]
    by (meson rtranclp.rtrancl_into_rtrancl)
  have "(fetch_step False)\<^sup>*\<^sup>* initial_fetch_system s"
    using c attended_settle [OF fetching.run_inv [OF c start] run(4)] by simp
  then show ?thesis using s at_rest by (auto simp: max_parallel_requests_def)
qed

text \<open>
  While its response is delivered the first query makes two others arrive, which share a batch. The response of the second
  cancels the third; but the batch still has it, and setting it in progress puts it into the queue again. Nobody
  listens any more, so it is not started, and nothing sets it done: it counts against the limit for ever.
\<close>

definition reviving_run :: "fetch_system option" where
  "reviving_run =
     Option.bind (worker_step False (queue_add ''a-'' data_request (listen ''a-'' initial_fetch_system))) (\<lambda>s.
     Option.bind (worker_step False s) (\<lambda>s.
     Option.bind (worker_step False (queue_add ''c-'' data_request (listen ''c-'' (queue_add ''b-'' data_request (listen ''b-'' s))))) (\<lambda>s.
     Option.bind (worker_step False s) (\<lambda>s.
     settle False (unlisten ''c-'' (set_done ''c-'' s))))))"

lemma reviving_run_result:
  "map_option (\<lambda>s. (map_option qi_state (jo_get (fq_state s) ''c-''), ''c-'' \<in> set (fq_listeners s), ''c-'' \<in> set (fq_started s),
     fq_batch s = [], fq_waiting s = [])) reviving_run = Some (Some FS_InProgress, False, False, True, True)"
  by code_simp

lemma cancelled_request_revived:
  "\<exists>s. (fetch_step False)\<^sup>*\<^sup>* initial_fetch_system s \<and> worker_step False s = None \<and>
     map_option qi_state (jo_get (fq_state s) ''c-'') = Some FS_InProgress \<and>
     ''c-'' \<notin> set (fq_listeners s) \<and> ''c-'' \<notin> set (fq_started s)"
proof -
  obtain s where s: "reviving_run = Some s" "map_option qi_state (jo_get (fq_state s) ''c-'') = Some FS_InProgress"
    "''c-'' \<notin> set (fq_listeners s)" "''c-'' \<notin> set (fq_started s)" "fq_batch s = []" "fq_waiting s = []"
    using reviving_run_result by (cases reviving_run) auto
  obtain a b c d where run: "worker_step False (queue_add ''a-'' data_request (listen ''a-'' initial_fetch_system)) = Some a"
    "worker_step False a = Some b"
    "worker_step False (queue_add ''c-'' data_request (listen ''c-'' (queue_add ''b-'' data_request (listen ''b-'' b)))) = Some c"
    "worker_step False c = Some d" "settle False (unlisten ''c-'' (set_done ''c-'' d)) = Some s"
    using s(1) unfolding reviving_run_def bind_eq_Some_conv by blast
  have b: "(fetch_step False)\<^sup>*\<^sup>* initial_fetch_system b"
    using Added [of False initial_fetch_system "''a-''" data_request] Worked [OF run(1)] Worked [OF run(2)]
    by (meson rtranclp.rtrancl_into_rtrancl rtranclp.rtrancl_refl)
  have d: "(fetch_step False)\<^sup>*\<^sup>* initial_fetch_system (unlisten ''c-'' (set_done ''c-'' d))"
    using b Added [of False b "''b-''" data_request] Added [of False "queue_add ''b-'' data_request (listen ''b-'' b)" "''c-''" data_request]
      Worked [OF run(3)] Worked [OF run(4)] Finished [of False d "''c-''"] Left [of False "set_done ''c-'' d" "''c-''"]
    by (meson rtranclp.rtrancl_into_rtrancl)
  have "(fetch_step False)\<^sup>*\<^sup>* initial_fetch_system s"
    using d attended_settle [OF fetching.run_inv [OF d fetching.first_inv [OF refl]] run(5)] by simp
  then show ?thesis using s at_rest by auto
qed

end
