(* ===== verification/Trace_Spans.thy ===== *)
theory Trace_Spans
  imports Js_Object
begin

text \<open>
  The spans of a trace, \<open>public/app/features/explore/TraceView/components/\<close>: the tree that the references between spans
  describe (\<open>getTraceSpanIdsAsTree\<close> of \<open>selectors/trace.ts\<close>, with \<open>walk\<close> of \<open>utils/TreeNode.ts\<close>), the list of spans made
  from it (\<open>transformTraceData\<close> of \<open>model/transform-trace-data.tsx\<close>), and the critical path of the trace (\<open>CriticalPath/\<close>).

  Times are integers and identifiers are not empty. A map of the language is the list of its entries. A node of the tree is known by the identifier of its
  span, which is the key it is found by. Tags, processes, names, the counts of services and the pointers from a
  reference to its span are left out. The walk and the recursions take fuel.
\<close>

section \<open>Spans\<close>

datatype ref_type = CHILD_OF | FOLLOWS_FROM | EXTERNAL

record trace_span =
  ts_id :: string
  ts_start :: int
  ts_duration :: int
  ts_refs :: "(ref_type \<times> string) list"
  ts_depth :: nat
  ts_has_children :: bool
  ts_child_ids :: "string list"
  ts_relative_start :: int

abbreviation ts_end :: "trace_span \<Rightarrow> int" where
  "ts_end s \<equiv> ts_start s + ts_duration s"

type_synonym span_map = "(string \<times> trace_span) list"

definition spans_by_id :: "trace_span list \<Rightarrow> span_map" where
  "spans_by_id spans = fold (\<lambda>s. es_map_set (ts_id s) s) spans []"

definition es_map_delete :: "'k \<Rightarrow> ('k \<times> 'v) list \<Rightarrow> ('k \<times> 'v) list" where
  "es_map_delete k m = filter (\<lambda>e. fst e \<noteq> k) m"

section \<open>The tree of spans\<close>

record span_nodes =
  sn_children :: "(string \<times> string list) list"   \<comment> \<open>the children of each node\<close>
  sn_root :: "string list"                        \<comment> \<open>those of the nominal root\<close>

fun ref_type_name :: "ref_type \<Rightarrow> string" where
  "ref_type_name CHILD_OF = ''CHILD_OF''"
| "ref_type_name FOLLOWS_FROM = ''FOLLOWS_FROM''"
| "ref_type_name EXTERNAL = ''EXTERNAL''"

definition add_node :: "trace_span \<Rightarrow> span_nodes \<Rightarrow> span_nodes res" where
  "add_node s t =
     (case ts_refs s of
        [] \<Rightarrow> Inr (t\<lparr>sn_root := sn_root t @ [ts_id s]\<rparr>)
      | (type, parent) # _ \<Rightarrow>
          if type = CHILD_OF \<or> type = FOLLOWS_FROM
          then Inr (case map_of (sn_children t) parent of
                      None \<Rightarrow> t\<lparr>sn_root := sn_root t @ [ts_id s]\<rparr>
                    | Some ks \<Rightarrow> t\<lparr>sn_children := es_map_set parent (ks @ [ts_id s]) (sn_children t)\<rparr>)
          else Inl (Js_Error (''Unrecognized ref type: '' @ ref_type_name type)))"

fun add_nodes :: "trace_span list \<Rightarrow> span_nodes \<Rightarrow> span_nodes res" where
  "add_nodes [] t = Inr t"
| "add_nodes (s # ss) t = bind_res (add_node s t) (add_nodes ss)"

definition start_of :: "span_map \<Rightarrow> string \<Rightarrow> int" where
  "start_of m k = ts_start (the (map_of m k))"

definition span_ids_as_tree :: "trace_span list \<Rightarrow> span_map \<Rightarrow> span_nodes res" where
  "span_ids_as_tree spans m =
     (let nodes = fold (\<lambda>s. es_map_set (ts_id s) []) spans [] in
      bind_res (add_nodes spans \<lparr>sn_children = nodes, sn_root = []\<rparr>) (\<lambda>t.
        Inr \<lparr>sn_children = map (\<lambda>(k, ks). (k, sort_key (start_of m) ks)) (sn_children t),
             sn_root = sort_key (start_of m) (sn_root t)\<rparr>))"

definition node_children :: "span_nodes \<Rightarrow> string \<Rightarrow> string list" where
  "node_children t k = nullish (map_of (sn_children t) k) []"

text \<open>The walk visits a node before its children; the first of the list is the top of the stack.\<close>

fun walk_loop :: "nat \<Rightarrow> span_nodes \<Rightarrow> (string \<times> nat) list \<Rightarrow> (string \<times> nat) list option" where
  "walk_loop n t [] = Some []"
| "walk_loop 0 t (e # stack) = None"
| "walk_loop (Suc n) t ((k, d) # stack) =
     map_option (Cons (k, d)) (walk_loop n t (map (\<lambda>c. (c, Suc d)) (node_children t k) @ stack))"

section \<open>Transforming the spans\<close>

text \<open>Identifiers that occur again get a number.\<close>

fun unique_ids :: "(string \<times> nat) list \<Rightarrow> trace_span list \<Rightarrow> trace_span list" where
  "unique_ids counts [] = []"
| "unique_ids counts (s # ss) =
     (case map_of counts (ts_id s) of
        Some n \<Rightarrow> s\<lparr>ts_id := ts_id s @ ''_'' @ string_of_nat n\<rparr> # unique_ids (es_map_set (ts_id s) (n + 1) counts) ss
      | None \<Rightarrow> s # unique_ids (es_map_set (ts_id s) 1 counts) ss)"

definition max_safe_integer :: int where
  "max_safe_integer = 2 ^ 53 - 1"

definition trace_start :: "trace_span list \<Rightarrow> int" where
  "trace_start spans = fold (\<lambda>s t. if ts_start s < t then ts_start s else t) spans max_safe_integer"

definition trace_end :: "trace_span list \<Rightarrow> int" where
  "trace_end spans = fold (\<lambda>s t. if ts_end s > t then ts_end s else t) spans 0"

definition end_of :: "span_map \<Rightarrow> string \<Rightarrow> int" where
  "end_of m k = ts_end (the (map_of m k))"

definition place_span :: "span_map \<Rightarrow> span_nodes \<Rightarrow> int \<Rightarrow> nat \<Rightarrow> trace_span \<Rightarrow> trace_span" where
  "place_span m t start d s =
     (let ks = node_children t (ts_id s) in
      s\<lparr>ts_relative_start := ts_start s - start, ts_depth := d - 1, ts_has_children := 0 < length ks,
        ts_child_ids := sort_key (\<lambda>k. - end_of m k) ks\<rparr>)"

definition tree_root_id :: string where
  "tree_root_id = ''__root__''"

definition placed :: "span_map \<Rightarrow> span_nodes \<Rightarrow> int \<Rightarrow> string \<times> nat \<Rightarrow> trace_span list" where
  "placed m t start e =
     (case e of (k, d) \<Rightarrow>
        if k = tree_root_id then []
        else (case map_of m k of None \<Rightarrow> [] | Some s \<Rightarrow> [place_span m t start d s]))"

record trace =
  tr_spans :: "trace_span list"
  tr_start :: int
  tr_end :: int
  tr_duration :: int

definition transform_trace_data :: "nat \<Rightarrow> trace_span list \<Rightarrow> trace option res" where
  "transform_trace_data n data =
     (let spans = unique_ids [] (filter (\<lambda>s. ts_start s \<noteq> 0) data);
          start = trace_start spans; m = spans_by_id spans in
      bind_res (span_ids_as_tree spans m) (\<lambda>t.
        Inr (map_option (\<lambda>visited.
          \<lparr>tr_spans = concat (map (placed m t start) visited), tr_start = start, tr_end = trace_end spans,
           tr_duration = trace_end spans - start\<rparr>)
          (walk_loop n t (map (\<lambda>c. (c, 1)) (sn_root t))))))"

end
