(* ===== verification/Trace_Path.thy ===== *)
theory Trace_Path
  imports Trace_Spans
begin

text \<open>
  The critical path of a trace, \<open>CriticalPath/index.tsx\<close> and \<open>CriticalPath/utils/\<close>: spans that follow from others are
  removed with what is below them, children are cut to the time of their parents, and the path is followed from the end
  of the root to its start, through the children that finish last.

  The map of spans is changed in place. The function that computes the path calls itself as the last thing it does, on one
  array of sections: it is a loop, and when it throws, the sections found so far stay in the array.
\<close>

section \<open>Only children\<close>

text \<open>Spans that follow from another are taken out of the children of their parents and collected.\<close>

fun drop_follows :: "string list \<Rightarrow> string list \<Rightarrow> span_map \<Rightarrow> (string list \<times> span_map) res" where
  "drop_follows [] follows m = Inr (follows, m)"
| "drop_follows (k # ks) follows m =
     (let each = the (map_of m k) in
      case ts_refs each of
        (FOLLOWS_FROM, p) # _ \<Rightarrow>
          (case map_of m p of
             None \<Rightarrow> Inl Js_TypeError
           | Some parent \<Rightarrow>
               drop_follows ks (follows @ [ts_id each])
                 (es_map_set (ts_id parent) (parent\<lparr>ts_child_ids := filter (\<lambda>a. a \<noteq> ts_id each) (ts_child_ids parent)\<rparr>) m))
      | _ \<Rightarrow> drop_follows ks follows m)"

fun descendant_spans :: "nat \<Rightarrow> span_map \<Rightarrow> string list \<Rightarrow> string list \<Rightarrow> string list option res" where
  "descendant_spans n m acc [] = Inr (Some acc)"
| "descendant_spans 0 m acc (k # ks) = Inr None"
| "descendant_spans (Suc n) m acc (k # ks) =
     (case map_of m k of
        None \<Rightarrow> Inl Js_TypeError
      | Some s \<Rightarrow>
          if ts_has_children s
          then bind_res (descendant_spans n m (acc @ ts_child_ids s) (ts_child_ids s)) (\<lambda>found.
                 case found of None \<Rightarrow> Inr None | Some acc' \<Rightarrow> descendant_spans (Suc n) m acc' ks)
          else descendant_spans (Suc n) m acc ks)"

definition child_of_spans :: "nat \<Rightarrow> span_map \<Rightarrow> span_map option res" where
  "child_of_spans n m =
     bind_res (drop_follows (map fst m) [] m) (\<lambda>(follows, m').
     bind_res (descendant_spans n m' [] follows) (\<lambda>found.
     Inr (map_option (\<lambda>below. fold es_map_delete (follows @ below) m') found)))"

section \<open>Children within their parents\<close>

definition remove_child :: "string \<Rightarrow> trace_span \<Rightarrow> trace_span" where
  "remove_child k parent = parent\<lparr>ts_child_ids := filter (\<lambda>c. c \<noteq> k) (ts_child_ids parent)\<rparr>"

definition sanitize_span :: "string \<Rightarrow> span_map \<Rightarrow> span_map" where
  "sanitize_span k m =
     (case map_of m k of
        None \<Rightarrow> m
      | Some s \<Rightarrow>
          (case ts_refs s of
             [] \<Rightarrow> m
           | (_, p) # _ \<Rightarrow>
               if ts_depth s = 0 then m
               else (case map_of m p of
                   None \<Rightarrow> es_map_delete (ts_id s) m
                 | Some parent \<Rightarrow>
                     if ts_start parent \<le> ts_start s
                     then if ts_end parent \<le> ts_start s
                          then es_map_delete (ts_id s) (es_map_set p (remove_child (ts_id s) parent) m)
                          else if ts_end parent < ts_end s
                          then es_map_set (ts_id s) (s\<lparr>ts_duration := ts_end parent - ts_start s\<rparr>) m
                          else m
                     else if ts_end s \<le> ts_start parent
                     then es_map_delete (ts_id s) (es_map_set p (remove_child (ts_id s) parent) m)
                     else if ts_end s \<le> ts_end parent
                     then es_map_set (ts_id s) (s\<lparr>ts_start := ts_start parent, ts_duration := ts_end s - ts_start parent\<rparr>) m
                     else es_map_set (ts_id s) (s\<lparr>ts_start := ts_start parent, ts_duration := ts_end parent - ts_start parent\<rparr>) m)))"

definition sanitize_children :: "span_map \<Rightarrow> span_map" where
  "sanitize_children m = fold sanitize_span (map fst m) m"

section \<open>The path\<close>

record path_section =
  ps_span :: string
  ps_start :: int
  ps_end :: int

text \<open>A time of zero and an empty identifier count as missing.\<close>

definition returning :: "int option \<Rightarrow> int option" where
  "returning r = (case r of Some t \<Rightarrow> if t = 0 then None else Some t | None \<Rightarrow> None)"

definition last_finishing_child :: "span_map \<Rightarrow> trace_span \<Rightarrow> int option \<Rightarrow> trace_span option" where
  "last_finishing_child m s r =
     (let found = (case returning r of
          Some t \<Rightarrow> find (\<lambda>c. case map_of m c of None \<Rightarrow> False | Some child \<Rightarrow> ts_end child < t) (ts_child_ids s)
        | None \<Rightarrow> (case ts_child_ids s of [] \<Rightarrow> None | c # _ \<Rightarrow> Some c)) in
      case found of None \<Rightarrow> None | Some c \<Rightarrow> if c = [] then None else map_of m c)"

definition push_section :: "string \<Rightarrow> int \<Rightarrow> int \<Rightarrow> path_section list \<Rightarrow> path_section list" where
  "push_section k a b path = (if a \<noteq> b then path @ [\<lparr>ps_span = k, ps_start = a, ps_end = b\<rparr>] else path)"

text \<open>The sections found, and the exception that ended the search, if any.\<close>

fun compute_path :: "nat \<Rightarrow> span_map \<Rightarrow> string \<Rightarrow> int option \<Rightarrow> path_section list \<Rightarrow> (path_section list \<times> js_error option) option" where
  "compute_path 0 m k r path = None"
| "compute_path (Suc n) m k r path =
     (case map_of m k of
        None \<Rightarrow> Some (path, None)
      | Some s \<Rightarrow>
          (let upto = nullish (returning r) (ts_end s) in
           case last_finishing_child m s r of
             Some child \<Rightarrow> compute_path n m (ts_id child) None (push_section (ts_id s) (ts_end child) upto path)
           | None \<Rightarrow>
               (let path = push_section (ts_id s) (ts_start s) upto path in
                if ts_refs s = [] then Some (path, None)
                else (case filter (\<lambda>ref. fst ref = CHILD_OF) (ts_refs s) of
                    [] \<Rightarrow> Some (path, Some Js_TypeError)
                  | (_, p) # _ \<Rightarrow> compute_path n m p (Some (ts_start s)) path))))"

text \<open>An exception is logged; a trace without spans throws one that nobody catches.\<close>

definition critical_path :: "nat \<Rightarrow> trace_span list \<Rightarrow> path_section list option res" where
  "critical_path n spans =
     (case spans of
        [] \<Rightarrow> Inl Js_TypeError
      | root # _ \<Rightarrow>
          if ts_id root = [] then Inr (Some [])
          else (case child_of_spans n (spans_by_id spans) of
              Inl e \<Rightarrow> Inr (Some [])
            | Inr None \<Rightarrow> Inr None
            | Inr (Some m) \<Rightarrow> Inr (map_option fst (compute_path n (sanitize_children m) (ts_id root) None []))))"

end
