(* ===== verification/Trace_Tree.thy ===== *)
theory Trace_Tree
  imports Trace_Path
begin

text \<open>
  The critical path of a tree of spans, as a recursive specification, and its properties: its sections follow one another
  without gap from the end of the root to its start, and no child ends within a section of its parent. Where a map of
  spans represents a tree, the loop of the source computes this path (\<open>compute_is_tree_path\<close>).
\<close>

section \<open>Specification\<close>

datatype span_tree = Span_Tree (st_id: string) (st_from: int) (st_to: int) (st_kids: "span_tree list")

definition section_of :: "string \<Rightarrow> int \<Rightarrow> int \<Rightarrow> path_section list" where
  "section_of k a b = (if a \<noteq> b then [\<lparr>ps_span = k, ps_start = a, ps_end = b\<rparr>] else [])"

text \<open>The path within a span, back from the time \<open>r\<close>: through the first of the children listed, and from its start on
  through the next that ended before. A child is given by its start, its end and its own path.\<close>

function path_back :: "string \<Rightarrow> int \<Rightarrow> (int \<times> int \<times> path_section list) list \<Rightarrow> int \<Rightarrow> path_section list" where
  "path_back i a [] r = section_of i a r"
| "path_back i a ((from, to, path) # ks) r =
     section_of i to r @ path @ path_back i a (dropWhile (\<lambda>k. from \<le> fst (snd k)) ks) from"
  by pat_completeness auto
termination
  by (relation "measure (\<lambda>(_, _, ks, _). length ks)") (auto simp: less_Suc_eq_le length_dropWhile_le)

fun tree_path :: "span_tree \<Rightarrow> path_section list" where
  "tree_path (Span_Tree i a b kids) = path_back i a (map (\<lambda>k. (st_from k, st_to k, tree_path k)) kids) b"

text \<open>The number of steps the loop takes.\<close>

function back_cost :: "(int \<times> int \<times> nat) list \<Rightarrow> nat" where
  "back_cost [] = 0"
| "back_cost ((from, to, n) # ks) = Suc (n + back_cost (dropWhile (\<lambda>k. from \<le> fst (snd k)) ks))"
  by pat_completeness auto
termination
  by (relation "measure length") (auto simp: less_Suc_eq_le length_dropWhile_le)

fun tree_cost :: "span_tree \<Rightarrow> nat" where
  "tree_cost (Span_Tree i a b kids) = Suc (back_cost (map (\<lambda>k. (st_from k, st_to k, tree_cost k)) kids))"

fun tree_spans :: "span_tree \<Rightarrow> span_tree list" where
  "tree_spans (Span_Tree i a b kids) = Span_Tree i a b kids # concat (map tree_spans kids)"

lemma tree_spans_self: "T \<in> set (tree_spans T)"
  by (cases T) simp

lemma back_cost_le: "back_cost ks \<le> sum_list (map (\<lambda>k. Suc (snd (snd k))) ks)"
proof (induction ks rule: back_cost.induct)
  case (2 "from" to n ks)
  have "sum_list (map (\<lambda>k. Suc (snd (snd k))) (dropWhile P ks)) \<le> sum_list (map (\<lambda>k. Suc (snd (snd k))) ks)" for P
    by (induction ks) auto
  with 2 show ?case by (auto intro: le_trans)
qed simp

lemma tree_cost_le: "Suc (tree_cost T) \<le> 2 * length (tree_spans T)"
proof (induction T)
  case (Span_Tree i a b kids)
  have "sum_list (map (\<lambda>k. Suc (tree_cost k)) kids) \<le> 2 * length (concat (map tree_spans kids))"
    using Span_Tree
  proof (induction kids)
    case (Cons k kids)
    then have "Suc (tree_cost k) \<le> 2 * length (tree_spans k)"
      "sum_list (map (\<lambda>k. Suc (tree_cost k)) kids) \<le> 2 * length (concat (map tree_spans kids))" by simp_all
    then show ?case by simp
  qed simp
  then show ?case using back_cost_le [of "map (\<lambda>k. (st_from k, st_to k, tree_cost k)) kids"] by (simp add: comp_def)
qed

section \<open>Properties\<close>

text \<open>The sections lead without gap from \<open>b\<close> back to \<open>a\<close>, none of them empty.\<close>

fun tiles :: "int \<Rightarrow> int \<Rightarrow> path_section list \<Rightarrow> bool" where
  "tiles a b [] \<longleftrightarrow> a = b"
| "tiles a b (x # xs) \<longleftrightarrow> ps_end x = b \<and> ps_start x < b \<and> tiles a (ps_start x) xs"

lemma tiles_append: "tiles b c xs \<Longrightarrow> tiles a b ys \<Longrightarrow> tiles a c (xs @ ys)"
  by (induction xs arbitrary: c) auto

lemma tiles_section: "a \<le> b \<Longrightarrow> tiles a b (section_of k a b)"
  by (simp add: section_of_def)

definition fits :: "span_tree \<Rightarrow> bool" where
  "fits t \<longleftrightarrow> st_from t \<le> st_to t \<and> (\<forall>k \<in> set (st_kids t). st_from t \<le> st_from k \<and> st_to k \<le> st_to t) \<and>
     sorted_wrt (\<lambda>x y. st_to y \<le> st_to x) (st_kids t)"

lemma path_back_tiles:
  "a \<le> r \<Longrightarrow> (\<And>k. k \<in> set ks \<Longrightarrow> a \<le> fst k \<and> fst k \<le> fst (snd k) \<and> tiles (fst k) (fst (snd k)) (snd (snd k))) \<Longrightarrow>
   (ks \<noteq> [] \<Longrightarrow> fst (snd (hd ks)) \<le> r) \<Longrightarrow> tiles a r (path_back i a ks r)"
proof (induction i a ks r rule: path_back.induct)
  case (1 i a r)
  then show ?case by (simp add: tiles_section)
next
  case (2 i a "from" to path ks r)
  let ?ks = "dropWhile (\<lambda>k. from \<le> fst (snd k)) ks"
  have "tiles a from (path_back i a ?ks from)"
  proof (rule "2.IH")
    show "a \<le> from" using "2.prems"(2) by fastforce
    show "a \<le> fst k \<and> fst k \<le> fst (snd k) \<and> tiles (fst k) (fst (snd k)) (snd (snd k))" if "k \<in> set ?ks" for k
      using "2.prems"(2) set_dropWhileD [OF that] by simp
    show "fst (snd (hd ?ks)) \<le> from" if "?ks \<noteq> []" using hd_dropWhile [OF that] by simp
  qed
  moreover have "tiles from to path" "to \<le> r" using "2.prems" by fastforce+
  ultimately show ?case using tiles_section [of to r i] by (auto intro: tiles_append)
qed

lemma tree_path_tiles: "(\<And>t. t \<in> set (tree_spans T) \<Longrightarrow> fits t) \<Longrightarrow> tiles (st_from T) (st_to T) (tree_path T)"
proof (induction T)
  case (Span_Tree i a b kids)
  have fit: "fits (Span_Tree i a b kids)" using Span_Tree.prems by simp
  have kid: "tiles (st_from k) (st_to k) (tree_path k)" "fits k" if "k \<in> set kids" for k
  proof -
    have sub: "t \<in> set (tree_spans k) \<Longrightarrow> fits t" for t using Span_Tree.prems that by auto
    show "tiles (st_from k) (st_to k) (tree_path k)" using Span_Tree.IH [OF that] sub by blast
    show "fits k" using sub [OF tree_spans_self] .
  qed
  have "tiles a b (path_back i a (map (\<lambda>k. (st_from k, st_to k, tree_path k)) kids) b)"
  proof (rule path_back_tiles)
    show "a \<le> b" using fit by (simp add: fits_def)
    show "a \<le> fst k \<and> fst k \<le> fst (snd k) \<and> tiles (fst k) (fst (snd k)) (snd (snd k))"
      if "k \<in> set (map (\<lambda>k. (st_from k, st_to k, tree_path k)) kids)" for k
      using that kid fit by (auto simp: fits_def)
    show "fst (snd (hd (map (\<lambda>k. (st_from k, st_to k, tree_path k)) kids))) \<le> b"
      if "map (\<lambda>k. (st_from k, st_to k, tree_path k)) kids \<noteq> []"
      using that fit by (cases kids) (auto simp: fits_def)
  qed
  then show ?case by simp
qed

text \<open>A section of a span lies within it, and no child ends within the section.\<close>

definition section_ok :: "span_tree \<Rightarrow> path_section \<Rightarrow> bool" where
  "section_ok t x \<longleftrightarrow> ps_span x = st_id t \<and> st_from t \<le> ps_start x \<and> ps_end x \<le> st_to t \<and>
     (\<forall>k \<in> set (st_kids t). \<not> (ps_start x < st_to k \<and> st_to k < ps_end x))"

lemma path_back_sections:
  assumes "x \<in> set (path_back i a (map (\<lambda>k. (st_from k, st_to k, tree_path k)) rest) r)"
    and "fits t" and "st_id t = i" and "st_from t = a" and "r \<le> st_to t" and "st_kids t = pre @ rest"
    and "\<forall>k \<in> set pre. r \<le> st_to k" and "rest \<noteq> [] \<Longrightarrow> st_to (hd rest) \<le> r" and "\<forall>k \<in> set rest. st_from k \<le> st_to k"
  shows "section_ok t x \<or> (\<exists>k \<in> set rest. x \<in> set (tree_path k))"
  using assms
proof (induction "length rest" arbitrary: rest pre r rule: less_induct)
  case less
  show ?case
  proof (cases rest)
    case Nil
    with less.prems show ?thesis by (auto simp: section_of_def section_ok_def split: if_splits)
  next
    case (Cons k ks)
    let ?ks = "dropWhile (\<lambda>c. st_from k \<le> st_to c) ks"
    have drop: "dropWhile (\<lambda>c. st_from k \<le> fst (snd c)) (map (\<lambda>k. (st_from k, st_to k, tree_path k)) ks) =
        map (\<lambda>k. (st_from k, st_to k, tree_path k)) ?ks" by (simp add: dropWhile_map comp_def)
    from less.prems(1) consider "x \<in> set (section_of i (st_to k) r)" | "x \<in> set (tree_path k)"
      | "x \<in> set (path_back i a (map (\<lambda>k. (st_from k, st_to k, tree_path k)) ?ks) (st_from k))"
      by (auto simp: Cons drop)
    then show ?thesis
    proof cases
      case 1
      then have x: "ps_span x = i" "ps_start x = st_to k" "ps_end x = r" by (auto simp: section_of_def split: if_splits)
      have "sorted_wrt (\<lambda>x y. st_to y \<le> st_to x) (pre @ k # ks)" using less.prems(2,6) Cons by (simp add: fits_def)
      then have "st_to c \<le> st_to k" if "c \<in> set ks" for c using that by (auto simp: sorted_wrt_append)
      then have "section_ok t x"
        using less.prems(2-9) x unfolding section_ok_def Cons fits_def by (auto simp: not_less)
      then show ?thesis by simp
    next
      case 2
      then show ?thesis using Cons by auto
    next
      case 3
      have in_t: "k \<in> set (st_kids t)" using less.prems(6) Cons by simp
      have "section_ok t x \<or> (\<exists>c \<in> set ?ks. x \<in> set (tree_path c))"
      proof (rule less.hyps [OF _ 3 less.prems(2-4)])
        show "length ?ks < length rest" using Cons by (simp add: less_Suc_eq_le length_dropWhile_le)
        have k: "st_from k \<le> st_to k" "st_to k \<le> r" using less.prems(8,9) Cons by simp_all
        then show "st_from k \<le> st_to t" using less.prems(5) by simp
        show "st_kids t = (pre @ k # takeWhile (\<lambda>c. st_from k \<le> st_to c) ks) @ ?ks" using less.prems(6) Cons by simp
        show "\<forall>c \<in> set (pre @ k # takeWhile (\<lambda>c. st_from k \<le> st_to c) ks). st_from k \<le> st_to c"
          using less.prems(7) k set_takeWhileD [of _ "\<lambda>c. st_from k \<le> st_to c" ks] by auto
        show "?ks \<noteq> [] \<Longrightarrow> st_to (hd ?ks) \<le> st_from k" using hd_dropWhile [of "\<lambda>c. st_from k \<le> st_to c" ks] by simp
        show "\<forall>c \<in> set ?ks. st_from c \<le> st_to c" using less.prems(9) Cons by (auto dest: set_dropWhileD)
      qed
      then show ?thesis using Cons by (auto dest: set_dropWhileD)
    qed
  qed
qed

lemma tree_path_sections:
  "(\<And>t. t \<in> set (tree_spans T) \<Longrightarrow> fits t) \<Longrightarrow> x \<in> set (tree_path T) \<Longrightarrow> \<exists>t \<in> set (tree_spans T). section_ok t x"
proof (induction T)
  case (Span_Tree i a b kids)
  let ?t = "Span_Tree i a b kids"
  have fit: "fits ?t" using Span_Tree.prems(1) by simp
  have sub: "fits t" if "k \<in> set kids" "t \<in> set (tree_spans k)" for k t using Span_Tree.prems(1) that by auto
  have "section_ok ?t x \<or> (\<exists>k \<in> set kids. x \<in> set (tree_path k))"
  proof (rule path_back_sections [where pre = "[]", OF Span_Tree.prems(2) [simplified] fit])
    show "kids \<noteq> [] \<Longrightarrow> st_to (hd kids) \<le> b" using fit by (cases kids) (simp_all add: fits_def)
    show "\<forall>k \<in> set kids. st_from k \<le> st_to k" using sub tree_spans_self by (auto simp: fits_def)
  qed (use fit in \<open>simp_all add: fits_def\<close>)
  then show ?case using Span_Tree.IH sub by fastforce
qed

section \<open>The loop computes the path of the tree\<close>

fun represents :: "span_map \<Rightarrow> span_tree \<Rightarrow> bool" where
  "represents m (Span_Tree i a b kids) \<longleftrightarrow>
     (\<exists>s. map_of m i = Some s \<and> ts_id s = i \<and> i \<noteq> [] \<and> ts_start s = a \<and> ts_end s = b \<and> 0 < a \<and> a \<le> b \<and> ts_child_ids s = map st_id kids) \<and>
     (\<forall>k \<in> set kids. represents m k \<and>
        (\<exists>s type refs. map_of m (st_id k) = Some s \<and> ts_refs s \<noteq> [] \<and> filter (\<lambda>ref. fst ref = CHILD_OF) (ts_refs s) = (type, i) # refs))"

text \<open>How the loop goes on when it leaves a span at its start.\<close>

definition leave :: "nat \<Rightarrow> span_map \<Rightarrow> trace_span \<Rightarrow> path_section list \<Rightarrow> (path_section list \<times> js_error option) option" where
  "leave n m s path =
     (if ts_refs s = [] then Some (path, None)
      else (case filter (\<lambda>ref. fst ref = CHILD_OF) (ts_refs s) of
          [] \<Rightarrow> Some (path, Some Js_TypeError)
        | (_, p) # _ \<Rightarrow> compute_path n m p (Some (ts_start s)) path))"

lemma push_section_eq: "push_section k a b path = path @ section_of k a b"
  by (simp add: push_section_def section_of_def)

lemma representsD:
  assumes "represents m t"
  obtains s where "map_of m (st_id t) = Some s" "ts_id s = st_id t" "st_id t \<noteq> []" "ts_start s = st_from t" "ts_end s = st_to t"
    "0 < st_from t" "st_from t \<le> st_to t" "ts_child_ids s = map st_id (st_kids t)"
  using assms by (cases t) auto

lemma representsK:
  "represents m t \<Longrightarrow> k \<in> set (st_kids t) \<Longrightarrow> represents m k \<and>
   (\<exists>s type refs. map_of m (st_id k) = Some s \<and> ts_refs s \<noteq> [] \<and> filter (\<lambda>ref. fst ref = CHILD_OF) (ts_refs s) = (type, st_id t) # refs)"
  by (cases t) simp

declare compute_path.simps [simp del] represents.simps [simp del]

lemma compute_back:
  assumes s: "map_of m i = Some s" "ts_id s = i" "ts_start s = a" "ts_child_ids s = map st_id (pre @ rest)"
    and kids: "\<And>k. k \<in> set (pre @ rest) \<Longrightarrow> represents m k"
    and below: "\<And>k n path. k \<in> set rest \<Longrightarrow>
      compute_path (tree_cost k + Suc n) m (st_id k) None path = compute_path (Suc n) m i (Some (st_from k)) (path @ tree_path k)"
    and r: "0 < r" "\<forall>k \<in> set pre. r \<le> st_to k" "rest \<noteq> [] \<Longrightarrow> st_to (hd rest) < r"
  shows "compute_path (Suc (back_cost (map (\<lambda>k. (st_from k, st_to k, tree_cost k)) rest) + n)) m i (Some r) path =
    leave n m s (path @ path_back i a (map (\<lambda>k. (st_from k, st_to k, tree_path k)) rest) r)"
  using assms(4-)
proof (induction "length rest" arbitrary: rest pre r n path rule: less_induct)
  case less
  have ret: "returning (Some r) = Some r" using less.prems(4) by (simp add: returning_def)
  let ?late = "\<lambda>c. case map_of m c of None \<Rightarrow> False | Some child \<Rightarrow> ts_end child < r"
  have late: "?late (st_id k) \<longleftrightarrow> st_to k < r" if "k \<in> set (pre @ rest)" for k
    using less.prems(2) [OF that] by (auto elim!: representsD)
  have skip: "find ?late (map st_id (pre @ ks)) = find ?late (map st_id ks)" for ks
    using late less.prems(5) by (induction pre) (auto simp: not_less)
  show ?case
  proof (cases rest)
    case Nil
    have "last_finishing_child m s (Some r) = None"
      using less.prems(1) skip [of "[]"] by (simp add: last_finishing_child_def ret Nil)
    then show ?thesis using s(1-3) by (simp add: compute_path.simps Nil ret leave_def push_section_eq Let_def)
  next
    case (Cons k ks)
    let ?drop = "dropWhile (\<lambda>c. st_from k \<le> st_to c) ks" and ?skip = "takeWhile (\<lambda>c. st_from k \<le> st_to c) ks"
    have drop: "dropWhile (\<lambda>c. st_from k \<le> fst (snd c)) (map (\<lambda>k. (st_from k, st_to k, f k)) ks) = map (\<lambda>k. (st_from k, st_to k, f k)) ?drop" for f
      by (simp add: dropWhile_map comp_def)
    have k: "represents m k" "k \<in> set (pre @ rest)" using less.prems(2) Cons by simp_all
    then obtain sk where sk: "map_of m (st_id k) = Some sk" "ts_id sk = st_id k" "st_id k \<noteq> []" "ts_end sk = st_to k"
      "0 < st_from k" "st_from k \<le> st_to k" by (auto elim!: representsD)
    have "find ?late (map st_id (pre @ rest)) = Some (st_id k)"
      using late [OF k(2)] less.prems(6) unfolding skip by (simp add: Cons)
    then have lfc: "last_finishing_child m s (Some r) = Some sk"
      using less.prems(1) sk(1,3) by (simp add: last_finishing_child_def ret)
    let ?n = "back_cost (map (\<lambda>k. (st_from k, st_to k, tree_cost k)) ?drop) + n"
    have "compute_path (Suc (back_cost (map (\<lambda>k. (st_from k, st_to k, tree_cost k)) rest) + n)) m i (Some r) path =
        compute_path (tree_cost k + Suc ?n) m (st_id k) None (path @ section_of i (st_to k) r)"
      using s(1,2) lfc sk(2,4) by (simp add: compute_path.simps Cons ret drop push_section_eq ac_simps)
    also have "\<dots> = compute_path (Suc ?n) m i (Some (st_from k)) (path @ section_of i (st_to k) r @ tree_path k)"
      using less.prems(3) [of k] Cons by simp
    also have "\<dots> = leave n m s ((path @ section_of i (st_to k) r @ tree_path k) @
        path_back i a (map (\<lambda>k. (st_from k, st_to k, tree_path k)) ?drop) (st_from k))"
    proof (rule less.hyps [where pre = "pre @ k # ?skip"])
      show "length ?drop < length rest" using Cons by (simp add: less_Suc_eq_le length_dropWhile_le)
      show "ts_child_ids s = map st_id ((pre @ k # ?skip) @ ?drop)"
        using less.prems(1) Cons by (simp flip: map_append)
      show "represents m c" if "c \<in> set ((pre @ k # ?skip) @ ?drop)" for c
        using less.prems(2) that Cons by (auto dest: set_takeWhileD set_dropWhileD)
      show "compute_path (tree_cost c + Suc n) m (st_id c) None path = compute_path (Suc n) m i (Some (st_from c)) (path @ tree_path c)"
        if "c \<in> set ?drop" for c n path using less.prems(3) that Cons by (auto dest: set_dropWhileD)
      show "0 < st_from k" by (rule sk(5))
      show "\<forall>c \<in> set (pre @ k # ?skip). st_from k \<le> st_to c"
        using less.prems(5,6) sk(6) Cons by (auto dest: set_takeWhileD)
      show "?drop \<noteq> [] \<Longrightarrow> st_to (hd ?drop) < st_from k" using hd_dropWhile [of "\<lambda>c. st_from k \<le> st_to c" ks] by simp
    qed
    finally show ?thesis by (simp add: Cons drop)
  qed
qed

lemma compute_is_tree_path:
  "represents m t \<Longrightarrow> map_of m (st_id t) = Some s \<Longrightarrow>
   compute_path (tree_cost t + n) m (st_id t) None path = leave n m s (path @ tree_path t)"
proof (induction t arbitrary: s n path)
  case (Span_Tree i a b kids)
  have s: "map_of m i = Some s" "ts_id s = i" "ts_start s = a" "ts_end s = b" "ts_child_ids s = map st_id kids"
    using Span_Tree.prems by (auto simp: represents.simps)
  have kid: "represents m k" if "k \<in> set kids" for k using representsK [OF Span_Tree.prems(1)] that by simp
  have ret: "returning None = None" by (simp add: returning_def)
  have below: "compute_path (tree_cost k + Suc n) m (st_id k) None path = compute_path (Suc n) m i (Some (st_from k)) (path @ tree_path k)"
    if mem: "k \<in> set kids" for k n path
  proof -
    obtain sk type refs where sk: "map_of m (st_id k) = Some sk" "ts_refs sk \<noteq> []" "filter (\<lambda>ref. fst ref = CHILD_OF) (ts_refs sk) = (type, i) # refs"
      using representsK [OF Span_Tree.prems(1), of k] mem by auto
    moreover have "ts_start sk = st_from k" using representsD [OF kid [OF mem]] sk(1) by auto
    ultimately show ?thesis unfolding Span_Tree.IH [OF mem kid [OF mem] sk(1)] by (simp add: leave_def)
  qed
  show ?case
  proof (cases kids)
    case Nil
    then show ?thesis using s by (simp add: compute_path.simps ret last_finishing_child_def leave_def push_section_eq Let_def)
  next
    case (Cons k ks)
    let ?drop = "dropWhile (\<lambda>c. st_from k \<le> st_to c) ks" and ?skip = "takeWhile (\<lambda>c. st_from k \<le> st_to c) ks"
    have drop: "dropWhile (\<lambda>c. st_from k \<le> fst (snd c)) (map (\<lambda>k. (st_from k, st_to k, f k)) ks) = map (\<lambda>k. (st_from k, st_to k, f k)) ?drop" for f
      by (simp add: dropWhile_map comp_def)
    obtain sk where sk: "map_of m (st_id k) = Some sk" "ts_id sk = st_id k" "st_id k \<noteq> []" "ts_end sk = st_to k"
      "0 < st_from k" "st_from k \<le> st_to k" using representsD [OF kid [of k]] Cons by (metis list.set_intros(1))
    have lfc: "last_finishing_child m s None = Some sk" using s(5) sk Cons by (simp add: last_finishing_child_def ret)
    let ?n = "back_cost (map (\<lambda>k. (st_from k, st_to k, tree_cost k)) ?drop) + n"
    have "compute_path (tree_cost (Span_Tree i a b kids) + n) m i None path =
        compute_path (tree_cost k + Suc ?n) m (st_id k) None (path @ section_of i (st_to k) b)"
      using s lfc sk(2,4) by (simp add: compute_path.simps Cons ret drop push_section_eq ac_simps)
    also have "\<dots> = compute_path (Suc ?n) m i (Some (st_from k)) (path @ section_of i (st_to k) b @ tree_path k)"
      using below [of k] Cons by simp
    also have "\<dots> = leave n m s ((path @ section_of i (st_to k) b @ tree_path k) @
        path_back i a (map (\<lambda>k. (st_from k, st_to k, tree_path k)) ?drop) (st_from k))"
    proof (rule compute_back [OF s(1-3), where pre = "k # ?skip"])
      show "ts_child_ids s = map st_id ((k # ?skip) @ ?drop)" using s(5) Cons by (simp flip: map_append)
      show "represents m c" if "c \<in> set ((k # ?skip) @ ?drop)" for c
        using kid that Cons by (auto dest: set_takeWhileD set_dropWhileD)
      show "compute_path (tree_cost c + Suc n) m (st_id c) None path = compute_path (Suc n) m i (Some (st_from c)) (path @ tree_path c)"
        if "c \<in> set ?drop" for c n path using below that Cons by (auto dest: set_dropWhileD)
      show "0 < st_from k" by (rule sk(5))
      show "\<forall>c \<in> set (k # ?skip). st_from k \<le> st_to c" using sk(6) by (auto dest: set_takeWhileD)
      show "?drop \<noteq> [] \<Longrightarrow> st_to (hd ?drop) < st_from k" using hd_dropWhile [of "\<lambda>c. st_from k \<le> st_to c" ks] by simp
    qed
    finally show ?thesis by (simp add: Cons drop)
  qed
qed

end
