(* ===== verification/Trace_Cut.thy ===== *)
theory Trace_Cut
  imports Trace_Tree
begin

text \<open>
  What is left of a well-formed trace when spans that follow from others are removed and children are cut to the time of
  their parents: a map of spans that represents a tree. With the specification in \<open>Trace_Tree\<close> this gives the property
  of the critical path, \<open>critical_path_tiles\<close>, in terms of the spans of the trace alone.
\<close>

section \<open>Well-formed traces\<close>

definition parent_id :: "trace_span \<Rightarrow> string option" where
  "parent_id s = (case ts_refs s of [] \<Rightarrow> None | ref # _ \<Rightarrow> Some (snd ref))"

definition follows :: "trace_span \<Rightarrow> bool" where
  "follows s \<longleftrightarrow> (case ts_refs s of [] \<Rightarrow> False | ref # _ \<Rightarrow> fst ref = FOLLOWS_FROM)"

text \<open>
  Parents come before their children, which they list by descending end, with only their descendants in between; the depth
  counts the parents in the trace.
\<close>

definition span_ok :: "trace_span list \<Rightarrow> trace_span \<Rightarrow> bool" where
  "span_ok spans s \<longleftrightarrow>
     ts_id s \<noteq> [] \<and> 0 < ts_start s \<and> 0 \<le> ts_duration s \<and> (\<forall>ref \<in> set (take 1 (ts_refs s)). fst ref \<noteq> EXTERNAL) \<and>
     (ts_has_children s \<longleftrightarrow> ts_child_ids s \<noteq> []) \<and> distinct (ts_child_ids s) \<and>
     set (ts_child_ids s) = {ts_id c | c. c \<in> set spans \<and> parent_id c = Some (ts_id s)} \<and>
     sorted_wrt (\<lambda>a b. \<forall>s \<in> set spans. \<forall>t \<in> set spans. ts_id s = a \<and> ts_id t = b \<longrightarrow> ts_end t \<le> ts_end s) (ts_child_ids s)"

definition trace_ok :: "trace_span list \<Rightarrow> bool" where
  "trace_ok spans \<longleftrightarrow> distinct (map ts_id spans) \<and> (\<forall>s \<in> set spans. span_ok spans s) \<and>
     (\<forall>i < length spans. \<forall>p. parent_id (spans ! i) = Some p \<and> p \<in> ts_id ` set spans \<longrightarrow>
        (\<exists>j < i. ts_id (spans ! j) = p \<and> ts_depth (spans ! i) = Suc (ts_depth (spans ! j)) \<and>
           (\<forall>l. j < l \<and> l < i \<longrightarrow> ts_depth (spans ! j) < ts_depth (spans ! l)))) \<and>
     (\<forall>s \<in> set spans. (\<forall>p. parent_id s = Some p \<longrightarrow> p \<notin> ts_id ` set spans) \<longrightarrow> ts_depth s = 0)"

text \<open>The place of an identifier in the trace.\<close>

definition place :: "trace_span list \<Rightarrow> string \<Rightarrow> nat" where
  "place spans k = length (takeWhile (\<lambda>s. ts_id s \<noteq> k) spans)"

lemma place_nth: "distinct (map ts_id spans) \<Longrightarrow> i < length spans \<Longrightarrow> place spans (ts_id (spans ! i)) = i"
proof -
  assume d: "distinct (map ts_id spans)" and i: "i < length spans"
  have "takeWhile (\<lambda>s. ts_id s \<noteq> ts_id (spans ! i)) spans = take i spans"
    by (rule takeWhile_eq_take_P_nth) (use d i in \<open>auto simp: distinct_conv_nth\<close>)
  then show ?thesis using i by (simp add: place_def)
qed

lemma place_less: "distinct (map ts_id spans) \<Longrightarrow> k \<in> ts_id ` set spans \<Longrightarrow> place spans k < length spans"
  by (auto simp: in_set_conv_nth place_nth)

section \<open>Maps of spans\<close>

lemma map_of_delete: "map_of (es_map_delete k m) k' = (if k' = k then None else map_of m k')"
  by (induction m) (auto simp: es_map_delete_def)

lemma map_of_deletes: "map_of (fold es_map_delete ks m) k' = (if k' \<in> set ks then None else map_of m k')"
  by (induction ks arbitrary: m) (auto simp: map_of_delete)

lemma keys_delete: "map fst (es_map_delete k m) = filter (\<lambda>j. j \<noteq> k) (map fst m)"
  by (simp add: es_map_delete_def filter_map comp_def)

lemma keys_deletes: "map fst (fold es_map_delete ks m) = filter (\<lambda>j. j \<notin> set ks) (map fst m)"
proof (induction ks arbitrary: m)
  case (Cons k ks)
  then show ?case by (simp add: keys_delete conj_commute)
qed simp

lemma keys_set: "k \<in> set (map fst m) \<Longrightarrow> map fst (es_map_set k v m) = map fst m"
  by (induction k v m rule: es_map_set.induct) auto

lemma set_same: "map_of m k = Some v \<Longrightarrow> es_map_set k v m = m"
  by (induction k v m rule: es_map_set.induct) (auto split: if_splits)

lemma spans_by_id_eq: "distinct (map ts_id spans) \<Longrightarrow> spans_by_id spans = map (\<lambda>s. (ts_id s, s)) spans"
  using fold_es_map_set_fresh [of ts_id spans "[]" "\<lambda>s. s"] by (simp add: spans_by_id_def)

lemma map_of_spans: "distinct (map ts_id spans) \<Longrightarrow> map_of (map (\<lambda>s. (ts_id s, s)) spans) k = Some s \<longleftrightarrow> s \<in> set spans \<and> ts_id s = k"
  by (auto simp: map_of_eq_Some_iff comp_def dest: map_of_SomeD)

lemma map_of_spans_None: "map_of (map (\<lambda>s. (ts_id s, s)) spans) k = None \<longleftrightarrow> k \<notin> ts_id ` set spans"
  by (force simp: map_of_eq_None_iff)

section \<open>Spans that follow\<close>

lemma trace_okD:
  assumes "trace_ok spans"
  shows "distinct (map ts_id spans)" "\<And>s. s \<in> set spans \<Longrightarrow> span_ok spans s"
    "\<And>i p. i < length spans \<Longrightarrow> parent_id (spans ! i) = Some p \<Longrightarrow> p \<in> ts_id ` set spans \<Longrightarrow>
       \<exists>j < i. ts_id (spans ! j) = p \<and> ts_depth (spans ! i) = Suc (ts_depth (spans ! j)) \<and>
         (\<forall>l. j < l \<and> l < i \<longrightarrow> ts_depth (spans ! j) < ts_depth (spans ! l))"
    "\<And>s. s \<in> set spans \<Longrightarrow> (\<And>p. parent_id s = Some p \<Longrightarrow> p \<notin> ts_id ` set spans) \<Longrightarrow> ts_depth s = 0"
  using assms by (auto simp: trace_ok_def)

lemma span_eq: "trace_ok spans \<Longrightarrow> s \<in> set spans \<Longrightarrow> t \<in> set spans \<Longrightarrow> ts_id s = ts_id t \<Longrightarrow> s = t"
  using trace_okD(1) by (metis distinct_map inj_onD)

text \<open>The parent of a span is before it in the trace.\<close>

lemma parent_span:
  assumes "trace_ok spans" and "c \<in> set spans" and "parent_id c = Some p" and "p \<in> ts_id ` set spans"
  shows "\<exists>s \<in> set spans. ts_id s = p \<and> ts_depth c = Suc (ts_depth s) \<and> place spans p < place spans (ts_id c)"
proof -
  obtain i where i: "i < length spans" "spans ! i = c" using assms(2) by (auto simp: in_set_conv_nth)
  obtain j where j: "j < i" "ts_id (spans ! j) = p" "ts_depth c = Suc (ts_depth (spans ! j))"
    using trace_okD(3) [OF assms(1) i(1)] assms(3,4) i(2) by auto
  note place = place_nth [OF trace_okD(1) [OF assms(1)]]
  have "place spans p = j" "place spans (ts_id c) = i" using place [of j] place [of i] i j by auto
  then show ?thesis using i j by (intro bexI [of _ "spans ! j"]) auto
qed

lemma child_span:
  assumes "trace_ok spans" and "s \<in> set spans" and "c \<in> set (ts_child_ids s)"
  obtains t where "t \<in> set spans" "ts_id t = c" "parent_id t = Some (ts_id s)" "ts_depth t = Suc (ts_depth s)"
    "place spans (ts_id s) < place spans c"
proof -
  obtain t where t: "t \<in> set spans" "ts_id t = c" "parent_id t = Some (ts_id s)"
    using trace_okD(2) [OF assms(1,2)] assms(3) by (auto simp: span_ok_def)
  with parent_span [OF assms(1) t(1,3)] assms(2) that span_eq [OF assms(1)] show thesis by (metis image_eqI)
qed

definition follow_ids :: "trace_span list \<Rightarrow> string list" where
  "follow_ids spans = map ts_id (filter follows spans)"

definition without_children :: "string set \<Rightarrow> trace_span \<Rightarrow> trace_span" where
  "without_children F s = s\<lparr>ts_child_ids := filter (\<lambda>c. c \<notin> F) (ts_child_ids s)\<rparr>"

lemma without_children_fields [simp]:
  "ts_id (without_children F s) = ts_id s" "ts_start (without_children F s) = ts_start s" "ts_duration (without_children F s) = ts_duration s"
  "ts_refs (without_children F s) = ts_refs s" "ts_depth (without_children F s) = ts_depth s"
  "ts_has_children (without_children F s) = ts_has_children s" "set (ts_child_ids (without_children F s)) = set (ts_child_ids s) - F"
  by (auto simp: without_children_def)

lemma map_of_ids: "map_of (map (\<lambda>s. (ts_id s, f s)) spans) k = map_option f (map_of (map (\<lambda>s. (ts_id s, s)) spans) k)"
  by (induction spans) auto

lemma drop_follows_run:
  assumes ok: "trace_ok spans" and present: "\<And>s. s \<in> set spans \<Longrightarrow> follows s \<Longrightarrow> the (parent_id s) \<in> ts_id ` set spans"
    and "set todo \<subseteq> set spans" and "m = map (\<lambda>s. (ts_id s, without_children (set F) s)) spans"
  shows "drop_follows (map ts_id todo) F m =
    Inr (F @ follow_ids todo, map (\<lambda>s. (ts_id s, without_children (set F \<union> set (follow_ids todo)) s)) spans)"
  using assms(3-)
proof (induction todo arbitrary: F m)
  case Nil
  then show ?case by (simp add: follow_ids_def)
next
  case (Cons c todo)
  have look: "map_of m k = map_option (without_children (set F)) (map_of (map (\<lambda>s. (ts_id s, s)) spans) k)" for k
    unfolding Cons.prems(2) by (rule map_of_ids)
  have c: "c \<in> set spans" using Cons.prems by simp
  then have the: "map_of m (ts_id c) = Some (without_children (set F) c)"
    by (simp add: look map_of_spans [OF trace_okD(1) [OF ok], THEN iffD2])
  show ?case
  proof (cases "follows c")
    case False
    then have "drop_follows (map ts_id (c # todo)) F m = drop_follows (map ts_id todo) F m"
      by (auto simp: the follows_def Let_def split: list.splits ref_type.splits)
    moreover have "follow_ids (c # todo) = follow_ids todo" using False by (simp add: follow_ids_def)
    ultimately show ?thesis using Cons by simp
  next
    case True
    then obtain p refs where refs: "ts_refs c = (FOLLOWS_FROM, p) # refs" by (auto simp: follows_def split: list.splits)
    then have parent: "parent_id c = Some p" by (simp add: parent_id_def)
    then obtain s where s: "s \<in> set spans" "ts_id s = p" using present [OF c True] by auto
    then have mp: "map_of m p = Some (without_children (set F) s)"
      by (simp add: look map_of_spans [OF trace_okD(1) [OF ok], THEN iffD2])
    let ?s = "(without_children (set F) s)\<lparr>ts_child_ids := filter (\<lambda>a. a \<noteq> ts_id c) (ts_child_ids (without_children (set F) s))\<rparr>"
    have "drop_follows (map ts_id (c # todo)) F m = drop_follows (map ts_id todo) (F @ [ts_id c]) (es_map_set p ?s m)"
      using s(2) by (simp add: the refs mp Let_def)
    moreover have "es_map_set p ?s m = map (\<lambda>s. (ts_id s, without_children (set (F @ [ts_id c])) s)) spans"
    proof -
      have only: "without_children (insert (ts_id c) (set F)) t = without_children (set F) t" if "t \<in> set spans" "ts_id t \<noteq> p" for t
      proof -
        have "ts_id c \<notin> set (ts_child_ids t)"
        proof
          assume "ts_id c \<in> set (ts_child_ids t)"
          from child_span [OF ok that(1) this] obtain c' where "c' \<in> set spans" "ts_id c' = ts_id c" "parent_id c' = Some (ts_id t)" by blast
          with span_eq [OF ok, of c' c] c parent that(2) show False by simp
        qed
        then have "filter (\<lambda>a. a \<notin> insert (ts_id c) (set F)) (ts_child_ids t) = filter (\<lambda>a. a \<notin> set F) (ts_child_ids t)"
          by (intro filter_cong) auto
        then show ?thesis by (simp add: without_children_def)
      qed
      have self: "?s = without_children (insert (ts_id c) (set F)) s"
        by (simp add: without_children_def conj_commute)
      have "es_map_set p ?s (map (\<lambda>s. (ts_id s, without_children (set F) s)) xs) =
          map (\<lambda>s. (ts_id s, without_children (insert (ts_id c) (set F)) s)) xs"
        if "set xs \<subseteq> set spans" "distinct (map ts_id xs)" "s \<in> set xs" for xs
        using that
      proof (induction xs)
        case (Cons x xs)
        show ?case
        proof (cases "ts_id x = p")
          case True
          then have "x = s" using Cons.prems s span_eq [OF ok] by auto
          moreover have "map (\<lambda>s. (ts_id s, without_children (insert (ts_id c) (set F)) s)) xs = map (\<lambda>s. (ts_id s, without_children (set F) s)) xs"
          proof (rule map_cong [OF refl])
            fix x' assume x': "x' \<in> set xs"
            then have "ts_id x' \<in> set (map ts_id xs)" by simp
            then have "ts_id x' \<noteq> p" using Cons.prems(2) True by auto
            moreover have "x' \<in> set spans" using Cons.prems(1) x' by auto
            ultimately show "(ts_id x', without_children (insert (ts_id c) (set F)) x') = (ts_id x', without_children (set F) x')"
              using only by simp
          qed
          ultimately show ?thesis using s(2) by (simp add: self)
        next
          case False
          with Cons s only show ?thesis by auto
        qed
      qed simp
      from this [OF order.refl trace_okD(1) [OF ok] s(1)] show ?thesis unfolding Cons.prems(2) by simp
    qed
    moreover have "follow_ids (c # todo) = ts_id c # follow_ids todo" using True by (simp add: follow_ids_def)
    ultimately show ?thesis using Cons.IH [of "es_map_set p ?s m" "F @ [ts_id c]"] Cons.prems(1) by simp
  qed
qed

text \<open>The descendants of some spans: those that a chain of children leads to.\<close>

definition child_in :: "span_map \<Rightarrow> string \<Rightarrow> string \<Rightarrow> bool" where
  "child_in m k c \<longleftrightarrow> (\<exists>s. map_of m k = Some s \<and> c \<in> set (ts_child_ids s))"

text \<open>Children of a map are in it, and closer to the end of some order of \<open>bound\<close> places.\<close>

definition downward :: "nat \<Rightarrow> (string \<Rightarrow> nat) \<Rightarrow> span_map \<Rightarrow> bool" where
  "downward bound pos m \<longleftrightarrow>
     (\<forall>k s. map_of m k = Some s \<longrightarrow> pos k < bound \<and> (ts_child_ids s \<noteq> [] \<longrightarrow> ts_has_children s) \<and>
        (\<forall>c \<in> set (ts_child_ids s). map_of m c \<noteq> None \<and> pos k < pos c))"

lemma downwardD:
  assumes "downward bound pos m" and "map_of m k = Some s"
  shows "pos k < bound" "ts_child_ids s \<noteq> [] \<Longrightarrow> ts_has_children s" "\<And>c. c \<in> set (ts_child_ids s) \<Longrightarrow> map_of m c \<noteq> None \<and> pos k < pos c"
  using assms unfolding downward_def by blast+

lemma descendants_of:
  assumes "map_of m k = Some s"
  shows "{c. (child_in m)\<^sup>+\<^sup>+ k c} = set (ts_child_ids s) \<union> {c. \<exists>z \<in> set (ts_child_ids s). (child_in m)\<^sup>+\<^sup>+ z c}"
proof -
  have "(child_in m)\<^sup>+\<^sup>+ k c \<longleftrightarrow> child_in m k c \<or> (\<exists>z. child_in m k z \<and> (child_in m)\<^sup>+\<^sup>+ z c)" for c
    by (metis tranclp.r_into_trancl tranclp_into_tranclp2 tranclpD rtranclpD)
  then show ?thesis using assms by (auto simp: child_in_def)
qed

lemma descendant_spans_run:
  assumes "downward bound pos m" and "\<forall>k \<in> set ks. map_of m k \<noteq> None \<and> bound \<le> pos k + n"
  shows "\<exists>acc'. descendant_spans n m acc ks = Inr (Some acc') \<and> set acc' = set acc \<union> {c. \<exists>k \<in> set ks. (child_in m)\<^sup>+\<^sup>+ k c}"
  using assms
proof (induction n m acc ks rule: descendant_spans.induct)
  case (1 n m acc)
  then show ?case by simp
next
  case (2 m acc k ks)
  then obtain s where "map_of m k = Some s" by auto
  from downwardD(1) [OF "2.prems"(1) this] "2.prems"(2) show ?case by simp
next
  case (3 n m acc k ks)
  then obtain s where s: "map_of m k = Some s" by auto
  note down = downwardD [OF "3.prems"(1) s]
  have bound: "bound \<le> Suc (pos k + n)" using "3.prems"(2) by simp
  show ?case
  proof (cases "ts_has_children s")
    case True
    have kids: "\<forall>c \<in> set (ts_child_ids s). map_of m c \<noteq> None \<and> bound \<le> pos c + n"
    proof
      fix c assume "c \<in> set (ts_child_ids s)"
      with down(3) have "map_of m c \<noteq> None" "pos k < pos c" by auto
      with bound show "map_of m c \<noteq> None \<and> bound \<le> pos c + n" by simp
    qed
    obtain acc1 where acc1: "descendant_spans n m (acc @ ts_child_ids s) (ts_child_ids s) = Inr (Some acc1)"
      "set acc1 = set (acc @ ts_child_ids s) \<union> {c. \<exists>k \<in> set (ts_child_ids s). (child_in m)\<^sup>+\<^sup>+ k c}"
      using "3.IH"(1) [OF s True "3.prems"(1) kids] by blast
    obtain acc2 where acc2: "descendant_spans (Suc n) m acc1 ks = Inr (Some acc2)"
      "set acc2 = set acc1 \<union> {c. \<exists>k \<in> set ks. (child_in m)\<^sup>+\<^sup>+ k c}"
      using "3.IH"(2) [OF s True acc1(1) refl "3.prems"(1)] "3.prems"(2) by auto
    have "set acc1 = set acc \<union> {c. (child_in m)\<^sup>+\<^sup>+ k c}" unfolding acc1(2) descendants_of [OF s] by auto
    then have "set acc2 = set acc \<union> {c. \<exists>k \<in> set (k # ks). (child_in m)\<^sup>+\<^sup>+ k c}" unfolding acc2(2) by auto
    then show ?thesis using s True acc1(1) acc2(1) by simp
  next
    case False
    then have "ts_child_ids s = []" using down(2) by blast
    then have none: "{c. (child_in m)\<^sup>+\<^sup>+ k c} = {}" using descendants_of [OF s] by simp
    obtain acc2 where "descendant_spans (Suc n) m acc ks = Inr (Some acc2)"
      "set acc2 = set acc \<union> {c. \<exists>k \<in> set ks. (child_in m)\<^sup>+\<^sup>+ k c}"
      using "3.IH"(3) [OF s False "3.prems"(1)] "3.prems"(2) by auto
    then show ?thesis using s False none by auto
  qed
qed

text \<open>The map after the first stage: the spans that neither follow nor come below one that does.\<close>

definition kept :: "trace_span list \<Rightarrow> string \<Rightarrow> bool" where
  "kept spans k \<longleftrightarrow> k \<in> ts_id ` set spans \<and> k \<notin> set (follow_ids spans) \<and>
     \<not> (\<exists>f \<in> set (follow_ids spans). (child_in (map (\<lambda>s. (ts_id s, without_children (set (follow_ids spans)) s)) spans))\<^sup>+\<^sup>+ f k)"

lemma child_of_spans_run:
  assumes ok: "trace_ok spans" and present: "\<And>s. s \<in> set spans \<Longrightarrow> follows s \<Longrightarrow> the (parent_id s) \<in> ts_id ` set spans"
    and "length spans \<le> n"
  shows "\<exists>m. child_of_spans n (spans_by_id spans) = Inr (Some m) \<and>
    map fst m = filter (kept spans) (map ts_id spans) \<and>
    (\<forall>k. map_of m k = (if kept spans k then map_option (without_children (set (follow_ids spans))) (map_of (map (\<lambda>s. (ts_id s, s)) spans) k) else None))"
proof -
  let ?F = "follow_ids spans" and ?orig = "map (\<lambda>s. (ts_id s, s)) spans"
  let ?m = "map (\<lambda>s. (ts_id s, without_children (set ?F) s)) spans"
  note d = trace_okD(1) [OF ok]
  have look: "map_of ?m k = map_option (without_children (set ?F)) (map_of ?orig k)" for k by (rule map_of_ids)
  have "map (\<lambda>s. (ts_id s, without_children (set []) s)) spans = ?orig" by (simp add: without_children_def)
  from drop_follows_run [OF ok present order.refl this [symmetric]]
  have one: "drop_follows (map fst (spans_by_id spans)) [] (spans_by_id spans) = Inr (?F, ?m)"
    by (simp add: spans_by_id_eq [OF d] comp_def)
  have down: "downward (length spans) (place spans) ?m"
    unfolding downward_def
  proof (intro allI impI)
    fix k s assume "map_of ?m k = Some s"
    then obtain s0 where s0: "s0 \<in> set spans" "ts_id s0 = k" "s = without_children (set ?F) s0"
      by (auto simp: look map_of_spans [OF d])
    have "map_of ?m c \<noteq> None \<and> place spans k < place spans c" if "c \<in> set (ts_child_ids s)" for c
    proof -
      have "c \<in> set (ts_child_ids s0)" using that s0(3) by simp
      from child_span [OF ok s0(1) this] s0(2) show ?thesis by (auto simp: look map_of_spans_None)
    qed
    moreover have "ts_child_ids s \<noteq> [] \<longrightarrow> ts_has_children s"
      using trace_okD(2) [OF ok s0(1)] s0(3) by (auto simp: span_ok_def without_children_def)
    ultimately show "place spans k < length spans \<and> (ts_child_ids s \<noteq> [] \<longrightarrow> ts_has_children s) \<and>
        (\<forall>c \<in> set (ts_child_ids s). map_of ?m c \<noteq> None \<and> place spans k < place spans c)"
      using place_less [OF d] s0 by auto
  qed
  have "\<forall>k \<in> set ?F. map_of ?m k \<noteq> None \<and> length spans \<le> place spans k + n"
  proof
    fix k assume "k \<in> set ?F"
    then have "k \<in> ts_id ` set spans" unfolding follow_ids_def by auto
    then have "map_of ?orig k \<noteq> None" using map_of_spans_None by metis
    then show "map_of ?m k \<noteq> None \<and> length spans \<le> place spans k + n" using assms(3) unfolding look by simp
  qed
  from descendant_spans_run [OF down this, of "[]"] obtain below where
    below: "descendant_spans n ?m [] ?F = Inr (Some below)" "set below = {c. \<exists>k \<in> set ?F. (child_in ?m)\<^sup>+\<^sup>+ k c}" by auto
  let ?r = "fold es_map_delete (?F @ below) ?m"
  have "child_of_spans n (spans_by_id spans) = Inr (Some ?r)"
    by (simp add: child_of_spans_def one below(1) spans_by_id_eq [OF d, symmetric])
  moreover have iff: "k \<notin> set (?F @ below) \<longleftrightarrow> kept spans k" if "k \<in> ts_id ` set spans" for k
    using that below(2) by (auto simp: kept_def)
  have "map fst ?r = filter (kept spans) (map ts_id spans)"
    unfolding keys_deletes by (simp add: comp_def) (intro filter_cong; use iff in auto)
  moreover have "map_of ?r k = (if kept spans k then map_option (without_children (set ?F)) (map_of ?orig k) else None)" for k
  proof (cases "k \<in> ts_id ` set spans")
    case True
    then show ?thesis using iff [OF True] by (auto simp: map_of_deletes look)
  next
    case False
    then have "map_of ?orig k = None" by (simp add: map_of_spans_None)
    then show ?thesis by (simp add: map_of_deletes look)
  qed
  ultimately show ?thesis by blast
qed

lemma kept_child:
  assumes ok: "trace_ok spans" and "s \<in> set spans" and "kept spans (ts_id s)" and "c \<in> set spans" and "parent_id c = Some (ts_id s)" and "\<not> follows c"
  shows "kept spans (ts_id c)"
proof -
  let ?m = "map (\<lambda>s. (ts_id s, without_children (set (follow_ids spans)) s)) spans"
  have "ts_id c \<notin> set (follow_ids spans)"
    using assms(4,6) span_eq [OF ok] by (auto simp: follow_ids_def)
  moreover have False if f: "f \<in> set (follow_ids spans)" "(child_in ?m)\<^sup>+\<^sup>+ f (ts_id c)" for f
  proof -
    have last: "z = ts_id s" if "child_in ?m z (ts_id c)" for z
    proof -
      have "map_of ?m z = map_option (without_children (set (follow_ids spans))) (map_of (map (\<lambda>s. (ts_id s, s)) spans) z)"
        by (rule map_of_ids)
      with that obtain t where t: "t \<in> set spans" "ts_id t = z" "ts_id c \<in> set (ts_child_ids t)"
        by (auto simp: child_in_def map_of_spans [OF trace_okD(1) [OF ok]])
      from child_span [OF ok t(1,3)] obtain c' where "c' \<in> set spans" "ts_id c' = ts_id c" "parent_id c' = Some z" using t(2) by metis
      then show "z = ts_id s" using span_eq [OF ok, of c' c] assms(4,5) by simp
    qed
    from f(2) show False
    proof (cases rule: tranclp.cases)
      case r_into_trancl
      then show False using last assms(3) f(1) by (auto simp: kept_def)
    next
      case (trancl_into_trancl z)
      then show False using last assms(3) f(1) by (auto simp: kept_def)
    qed
  qed
  ultimately show ?thesis using assms(4) by (auto simp: kept_def)
qed

section \<open>Cutting to the parents\<close>

definition overlaps :: "trace_span \<Rightarrow> trace_span \<Rightarrow> bool" where
  "overlaps parent s \<longleftrightarrow> ts_start s < ts_end parent \<and> (ts_start parent \<le> ts_start s \<or> ts_start parent < ts_end s)"

definition cut_to :: "trace_span \<Rightarrow> trace_span \<Rightarrow> trace_span" where
  "cut_to parent s = s\<lparr>ts_start := max (ts_start s) (ts_start parent),
     ts_duration := min (ts_end s) (ts_end parent) - max (ts_start s) (ts_start parent)\<rparr>"

text \<open>Where children are no longer than \<open>overlaps\<close> says, the five cases of the source are two.\<close>

lemma sanitize_span_eq:
  assumes "map_of m k = Some s" and "ts_id s = k" and "ts_refs s = (type, p) # refs" and "ts_depth s \<noteq> 0"
    and "map_of m p = Some parent" and "0 \<le> ts_duration parent" and "0 \<le> ts_duration s"
  shows "sanitize_span k m = (if overlaps parent s then es_map_set k (cut_to parent s) m
     else es_map_delete k (es_map_set p (remove_child k parent) m))"
proof -
  have same: "es_map_set k s m = m" by (rule set_same [OF assms(1)])
  have fields: "s\<lparr>ts_start := a, ts_duration := b\<rparr> = cut_to parent s"
    if "a = max (ts_start s) (ts_start parent)" "b = min (ts_end s) (ts_end parent) - a" for a b
    using that by (simp add: cut_to_def)
  have keep: "cut_to parent s = s" if "ts_start parent \<le> ts_start s" "ts_end s \<le> ts_end parent"
    using that by (simp add: cut_to_def max_def min_def)
  have dur: "s\<lparr>ts_duration := b\<rparr> = cut_to parent s" if "ts_start parent \<le> ts_start s" "b = min (ts_end s) (ts_end parent) - ts_start s" for b
    using that by (simp add: cut_to_def max_def)
  show ?thesis
    using assms same keep fields dur
    by (auto simp: sanitize_span_def overlaps_def not_le not_less min_def max_def)
qed

end
