(* ===== verification/Trace_Sanitize.thy ===== *)
theory Trace_Sanitize
  imports Trace_Cut
begin

text \<open>
  The loop that cuts children to the time of their parents, \<open>sanitizeOverFlowingChildren\<close>: what holds of the map after any
  number of spans, and at the end.
\<close>

section \<open>Invariant of the loop\<close>

text \<open>The map the loop starts from: children know their parents, which come before them.\<close>

definition linked_map :: "span_map \<Rightarrow> bool" where
  "linked_map m \<longleftrightarrow> distinct (map fst m) \<and>
     (\<forall>k s. map_of m k = Some s \<longrightarrow> ts_id s = k \<and> 0 \<le> ts_duration s \<and>
        (\<forall>c. c \<in> set (ts_child_ids s) \<longleftrightarrow> (\<exists>t. map_of m c = Some t \<and> parent_id t = Some k)) \<and>
        (\<forall>p. parent_id s = Some p \<and> map_of m p \<noteq> None \<longrightarrow> ts_depth s \<noteq> 0) \<and>
        (ts_depth s \<noteq> 0 \<longrightarrow> (\<exists>p. parent_id s = Some p \<and> map_of m p \<noteq> None)))"

lemma linkedD:
  assumes "linked_map m" and "map_of m k = Some s"
  shows "ts_id s = k" "0 \<le> ts_duration s" "\<And>c. c \<in> set (ts_child_ids s) \<longleftrightarrow> (\<exists>t. map_of m c = Some t \<and> parent_id t = Some k)"
    "\<And>p. parent_id s = Some p \<Longrightarrow> map_of m p \<noteq> None \<Longrightarrow> ts_depth s \<noteq> 0"
    "ts_depth s \<noteq> 0 \<Longrightarrow> \<exists>p. parent_id s = Some p \<and> map_of m p \<noteq> None"
  using assms unfolding linked_map_def by blast+

definition same_time :: "trace_span \<Rightarrow> trace_span \<Rightarrow> bool" where
  "same_time s t \<longleftrightarrow> ts_start s = ts_start t \<and> ts_duration s = ts_duration t"

definition same_links :: "trace_span \<Rightarrow> trace_span \<Rightarrow> bool" where
  "same_links s t \<longleftrightarrow> ts_id s = ts_id t \<and> ts_refs s = ts_refs t \<and> ts_depth s = ts_depth t"

text \<open>The time of a span after its turn: that of the source where it has no parent, and cut to the parent otherwise.\<close>

definition time_cut :: "span_map \<Rightarrow> string set \<Rightarrow> trace_span \<Rightarrow> trace_span \<Rightarrow> bool" where
  "time_cut m turn s0 s \<longleftrightarrow>
     (if ts_id s0 \<in> turn \<and> ts_depth s0 \<noteq> 0
      then (\<exists>p parent. parent_id s0 = Some p \<and> p \<in> turn \<and> map_of m p = Some parent \<and> overlaps parent s0 \<and> same_time s (cut_to parent s0))
      else same_time s s0)"

definition entry_cut :: "span_map \<Rightarrow> string set \<Rightarrow> span_map \<Rightarrow> trace_span \<Rightarrow> trace_span \<Rightarrow> bool" where
  "entry_cut m0 turn m s0 s \<longleftrightarrow> same_links s s0 \<and> time_cut m turn s0 s \<and> 0 \<le> ts_duration s \<and>
     ts_child_ids s = filter (\<lambda>c. map_of m c \<noteq> None) (ts_child_ids s0)"

definition cut_inv :: "span_map \<Rightarrow> string set \<Rightarrow> span_map \<Rightarrow> bool" where
  "cut_inv m0 turn m \<longleftrightarrow>
     (\<forall>k. k \<notin> turn \<longrightarrow> (map_of m k = None \<longleftrightarrow> map_of m0 k = None)) \<and>
     (\<forall>k s. map_of m k = Some s \<longrightarrow> (\<exists>s0. map_of m0 k = Some s0 \<and> entry_cut m0 turn m s0 s)) \<and>
     (\<forall>k s0 p parent. k \<in> turn \<and> map_of m0 k = Some s0 \<and> (ts_depth s0 \<noteq> 0 \<longrightarrow> parent_id s0 = Some p \<and> map_of m p = Some parent \<and> overlaps parent s0) \<longrightarrow>
        map_of m k \<noteq> None)"

lemma cut_invD:
  assumes "cut_inv m0 turn m"
  shows "\<And>k. k \<notin> turn \<Longrightarrow> map_of m k = None \<longleftrightarrow> map_of m0 k = None"
    "\<And>k s. map_of m k = Some s \<Longrightarrow> \<exists>s0. map_of m0 k = Some s0 \<and> entry_cut m0 turn m s0 s"
    "\<And>k s0 p parent. k \<in> turn \<Longrightarrow> map_of m0 k = Some s0 \<Longrightarrow>
       (ts_depth s0 \<noteq> 0 \<Longrightarrow> parent_id s0 = Some p \<and> map_of m p = Some parent \<and> overlaps parent s0) \<Longrightarrow> map_of m k \<noteq> None"
  using assms unfolding cut_inv_def by blast+

lemma overlaps_time: "same_time a a' \<Longrightarrow> same_time b b' \<Longrightarrow> overlaps a b = overlaps a' b'"
  by (simp add: overlaps_def same_time_def)

lemma cut_to_time: "same_time a a' \<Longrightarrow> same_time b b' \<Longrightarrow> same_time (cut_to a b) (cut_to a' b')"
  by (simp add: cut_to_def same_time_def)

lemma cut_to_fields [simp]: "ts_id (cut_to a b) = ts_id b" "ts_refs (cut_to a b) = ts_refs b" "ts_depth (cut_to a b) = ts_depth b"
  "ts_child_ids (cut_to a b) = ts_child_ids b"
  by (simp_all add: cut_to_def)

lemma cut_duration: "overlaps a b \<Longrightarrow> 0 \<le> ts_duration a \<Longrightarrow> 0 \<le> ts_duration b \<Longrightarrow> 0 \<le> ts_duration (cut_to a b)"
  by (auto simp: overlaps_def cut_to_def)

text \<open>Entries other than the one whose turn it is: their parents have had their turn, and keep their time.\<close>

lemma time_kept:
  assumes "time_cut m turn s0 s" and "ts_id s0 \<noteq> k" and "k \<notin> turn"
    and parents: "\<And>p. p \<noteq> k \<Longrightarrow> rel_option same_time (map_of m' p) (map_of m p)"
  shows "time_cut m' (insert k turn) s0 s"
proof (cases "ts_id s0 \<in> turn \<and> ts_depth s0 \<noteq> 0")
  case True
  then obtain p parent where p: "parent_id s0 = Some p" "p \<in> turn" "map_of m p = Some parent" "overlaps parent s0" "same_time s (cut_to parent s0)"
    using assms(1) by (auto simp: time_cut_def)
  have "p \<noteq> k" using p(2) assms(3) by auto
  with parents p(3) obtain parent' where parent': "map_of m' p = Some parent'" "same_time parent' parent"
    by (metis option_rel_Some2)
  have "overlaps parent' s0" using overlaps_time [OF parent'(2), of s0 s0] p(4) by (simp add: same_time_def)
  moreover have "same_time s (cut_to parent' s0)"
    using cut_to_time [OF parent'(2), of s0 s0] p(5) by (simp add: same_time_def)
  ultimately show ?thesis using True p(1,2) parent'(1) by (auto simp: time_cut_def)
next
  case False
  then show ?thesis using assms(1,2) by (auto simp: time_cut_def)
qed

lemma entry_kept:
  assumes "entry_cut m0 turn m s0 s" and "ts_id s0 \<noteq> k" and "k \<notin> turn"
    and parents: "\<And>p. p \<noteq> k \<Longrightarrow> rel_option same_time (map_of m' p) (map_of m p)"
    and kids: "\<And>c. c \<in> set (ts_child_ids s0) \<Longrightarrow> map_of m' c = None \<longleftrightarrow> map_of m c = None"
  shows "entry_cut m0 (insert k turn) m' s0 s"
proof -
  have "filter (\<lambda>c. map_of m' c \<noteq> None) (ts_child_ids s0) = filter (\<lambda>c. map_of m c \<noteq> None) (ts_child_ids s0)"
    using kids by (intro filter_cong) auto
  then show ?thesis using assms(1) time_kept [OF _ assms(2,3) parents] by (auto simp: entry_cut_def)
qed

lemma same_time_refl [simp]: "same_time s s"
  by (simp add: same_time_def)

lemma same_time_option [simp]: "rel_option same_time x x"
  by (simp add: option.rel_refl)

lemma map_of_set: "map_of (es_map_set k v m) k' = (if k' = k then Some v else map_of m k')"
  by (simp add: map_of_es_map_set)

section \<open>One span\<close>

text \<open>A span whose turn it is: the turns of its parent and of the parents of those before it are over.\<close>

definition next_turn :: "span_map \<Rightarrow> string set \<Rightarrow> span_map \<Rightarrow> string \<Rightarrow> trace_span \<Rightarrow> trace_span \<Rightarrow> bool" where
  "next_turn m0 turn m k s0 s \<longleftrightarrow> linked_map m0 \<and> cut_inv m0 turn m \<and> k \<notin> turn \<and> map_of m0 k = Some s0 \<and> map_of m k = Some s \<and>
     (\<forall>p. parent_id s0 = Some p \<and> map_of m0 p \<noteq> None \<longrightarrow> p \<in> turn) \<and>
     (\<forall>j t0 q. j \<in> turn \<and> map_of m0 j = Some t0 \<and> parent_id t0 = Some q \<and> map_of m0 q \<noteq> None \<longrightarrow> q \<in> turn)"

lemma next_turnD:
  assumes "next_turn m0 turn m k s0 s"
  shows "linked_map m0" "cut_inv m0 turn m" "k \<notin> turn" "map_of m0 k = Some s0" "map_of m k = Some s"
    "\<And>p. parent_id s0 = Some p \<Longrightarrow> map_of m0 p \<noteq> None \<Longrightarrow> p \<in> turn"
    "\<And>j t0 q. j \<in> turn \<Longrightarrow> map_of m0 j = Some t0 \<Longrightarrow> parent_id t0 = Some q \<Longrightarrow> map_of m0 q \<noteq> None \<Longrightarrow> q \<in> turn"
  using assms unfolding next_turn_def by blast+

text \<open>So far nothing but the list of its children has changed of it.\<close>

lemma next_turn_span:
  assumes "next_turn m0 turn m k s0 s"
  shows "same_links s s0" "same_time s s0" "0 \<le> ts_duration s" "ts_id s = k" "entry_cut m0 turn m s0 s" "ts_id s0 = k"
proof -
  note N = next_turnD [OF assms]
  obtain t0 where "map_of m0 k = Some t0" "entry_cut m0 turn m t0 s" using cut_invD(2) [OF N(2,5)] by blast
  then show entry: "entry_cut m0 turn m s0 s" using N(4) by simp
  show "ts_id s0 = k" by (rule linkedD(1) [OF N(1,4)])
  then show "same_links s s0" "same_time s s0" "0 \<le> ts_duration s" "ts_id s = k"
    using entry N(3) by (auto simp: entry_cut_def time_cut_def same_links_def)
qed

text \<open>No other span lists it among its children.\<close>

lemma next_turn_only:
  assumes "next_turn m0 turn m k s0 s" and "map_of m0 j = Some t0" and "parent_id s0 \<noteq> Some j"
  shows "k \<notin> set (ts_child_ids t0)"
  using linkedD(3) [OF next_turnD(1) [OF assms(1)] assms(2), of k] next_turnD(4) [OF assms(1)] assms(3) by auto

lemma step_top:
  assumes turn_of: "next_turn m0 turn m k s0 s" and top: "ts_depth s0 = 0"
  shows "cut_inv m0 (insert k turn) m"
proof -
  note N = next_turnD [OF turn_of] and I = cut_invD [OF N(2)]
  show ?thesis
    unfolding cut_inv_def
  proof (intro conjI allI impI)
    show "(map_of m j = None) = (map_of m0 j = None)" if "j \<notin> insert k turn" for j using I(1) that by blast
    show "\<exists>t0. map_of m0 j = Some t0 \<and> entry_cut m0 (insert k turn) m t0 t" if j: "map_of m j = Some t" for j t
    proof -
      obtain t0 where t0: "map_of m0 j = Some t0" "entry_cut m0 turn m t0 t" using I(2) [OF j] by blast
      have "entry_cut m0 (insert k turn) m t0 t"
      proof (cases "j = k")
        case True
        then show ?thesis using t0 N(4) top by (auto simp: entry_cut_def time_cut_def)
      next
        case False
        then show ?thesis
          using entry_kept [OF t0(2), of k m] linkedD(1) [OF N(1) t0(1)] N(3) by (auto simp: option.rel_refl same_time_def)
      qed
      with t0(1) show ?thesis by blast
    qed
    show "map_of m j \<noteq> None"
      if "j \<in> insert k turn \<and> map_of m0 j = Some t0 \<and> (ts_depth t0 \<noteq> 0 \<longrightarrow> parent_id t0 = Some p \<and> map_of m p = Some parent \<and> overlaps parent t0)" for j t0 p parent
      using that N(5) I(3) by blast
  qed
qed

lemma step_orphan:
  assumes turn_of: "next_turn m0 turn m k s0 s" and deep: "ts_depth s0 \<noteq> 0" and p: "parent_id s0 = Some p" "map_of m p = None"
  shows "cut_inv m0 (insert k turn) (es_map_delete k m)"
proof -
  note N = next_turnD [OF turn_of] and I = cut_invD [OF N(2)]
  show ?thesis
    unfolding cut_inv_def map_of_delete
  proof (intro conjI allI impI)
    show "((if j = k then None else map_of m j) = None) = (map_of m0 j = None)" if "j \<notin> insert k turn" for j using I(1) that by auto
    show "\<exists>t0. map_of m0 j = Some t0 \<and> entry_cut m0 (insert k turn) (es_map_delete k m) t0 t"
      if "(if j = k then None else map_of m j) = Some t" for j t
    proof -
      have j: "j \<noteq> k" "map_of m j = Some t" using that by (auto split: if_splits)
      obtain t0 where t0: "map_of m0 j = Some t0" "entry_cut m0 turn m t0 t" using I(2) [OF j(2)] by blast
      have "parent_id s0 \<noteq> Some j" using j(2) p by auto
      then have "k \<notin> set (ts_child_ids t0)" by (rule next_turn_only [OF turn_of t0(1)])
      then have "entry_cut m0 (insert k turn) (es_map_delete k m) t0 t"
        by (intro entry_kept [OF t0(2)]) (use linkedD(1) [OF N(1) t0(1)] N(3) j(1) in \<open>auto simp: map_of_delete\<close>)
      with t0(1) show ?thesis by blast
    qed
    show "(if j = k then None else map_of m j) \<noteq> None"
      if "j \<in> insert k turn \<and> map_of m0 j = Some t0 \<and> (ts_depth t0 \<noteq> 0 \<longrightarrow> parent_id t0 = Some q \<and> (if q = k then None else map_of m q) = Some parent \<and> overlaps parent t0)" for j t0 q parent
      using that I(3) [of j t0 q parent] p N(4) deep by (auto split: if_splits)
  qed
qed

lemma step_cut:
  assumes turn_of: "next_turn m0 turn m k s0 s" and deep: "ts_depth s0 \<noteq> 0" and p: "parent_id s0 = Some p" "p \<in> turn"
    and parent: "map_of m p = Some parent" "0 \<le> ts_duration parent" "overlaps parent s0"
  shows "cut_inv m0 (insert k turn) (es_map_set k (cut_to parent s) m)"
proof -
  note N = next_turnD [OF turn_of] and I = cut_invD [OF N(2)] and S = next_turn_span [OF turn_of]
  have pk: "p \<noteq> k" using p(2) N(3) by auto
  let ?m = "es_map_set k (cut_to parent s) m"
  show ?thesis
    unfolding cut_inv_def map_of_set
  proof (intro conjI allI impI)
    show "((if j = k then Some (cut_to parent s) else map_of m j) = None) = (map_of m0 j = None)" if "j \<notin> insert k turn" for j
      using I(1) that by auto
    show "\<exists>t0. map_of m0 j = Some t0 \<and> entry_cut m0 (insert k turn) ?m t0 t"
      if "(if j = k then Some (cut_to parent s) else map_of m j) = Some t" for j t
    proof (cases "j = k")
      case self: True
      then have t: "t = cut_to parent s" using that by simp
      have "time_cut ?m (insert k turn) s0 t"
        using p pk parent deep S(6) cut_to_time [of parent parent s s0] S(2)
        by (auto simp: time_cut_def map_of_set t same_time_def)
      moreover have "overlaps parent s" using overlaps_time [of parent parent s s0] S(2) parent(3) by (simp add: same_time_def)
      ultimately have "entry_cut m0 (insert k turn) ?m s0 t"
        using S(1,5) cut_duration [OF _ parent(2) S(3)] N(5) by (auto simp: entry_cut_def t same_links_def map_of_set intro!: filter_cong)
      then show ?thesis using N(4) self by blast
    next
      case False
      then have j: "map_of m j = Some t" using that by simp
      obtain t0 where t0: "map_of m0 j = Some t0" "entry_cut m0 turn m t0 t" using I(2) [OF j] by blast
      have "entry_cut m0 (insert k turn) ?m t0 t"
        using entry_kept [OF t0(2), of k ?m] linkedD(1) [OF N(1) t0(1)] N(3,5) False
        by (auto simp: map_of_set option.rel_refl same_time_def)
      with t0(1) show ?thesis by blast
    qed
    show "(if j = k then Some (cut_to parent s) else map_of m j) \<noteq> None"
      if alive: "j \<in> insert k turn \<and> map_of m0 j = Some t0 \<and> (ts_depth t0 \<noteq> 0 \<longrightarrow> parent_id t0 = Some q \<and> (if q = k then Some (cut_to parent s) else map_of m q) = Some par \<and> overlaps par t0)" for j t0 q par
    proof (cases "j = k")
      case False
      then have j: "j \<in> turn" "map_of m0 j = Some t0" using alive by auto
      have "q \<noteq> k" if "ts_depth t0 \<noteq> 0" using N(7) [OF j] linkedD(5) [OF N(1) j(2) that] N(3) alive that by auto
      then show ?thesis using I(3) [OF j, of q par] alive False by auto
    qed simp
  qed
qed

lemma step_drop_parent:
  assumes turn_of: "next_turn m0 turn m k s0 s" and pk: "p \<noteq> k" and parent: "map_of m p = Some parent"
    and p0: "map_of m0 p = Some p0" "entry_cut m0 turn m p0 parent"
  shows "entry_cut m0 (insert k turn) (es_map_delete k (es_map_set p (remove_child k parent) m)) p0 (remove_child k parent)"
proof -
  note N = next_turnD [OF turn_of]
  let ?m = "es_map_delete k (es_map_set p (remove_child k parent) m)"
  have look: "map_of ?m j = (if j = k then None else if j = p then Some (remove_child k parent) else map_of m j)" for j
    by (simp add: map_of_delete map_of_set)
  have "same_time (remove_child k parent) parent" by (simp add: remove_child_def same_time_def)
  then have times: "rel_option same_time (map_of ?m q) (map_of m q)" if "q \<noteq> k" for q
    using that parent by (auto simp: look)
  have "time_cut ?m (insert k turn) p0 parent"
    using time_kept [OF _ _ N(3) times] p0(2) linkedD(1) [OF N(1) p0(1)] pk by (auto simp: entry_cut_def)
  then have time: "time_cut ?m (insert k turn) p0 (remove_child k parent)"
    by (auto simp: time_cut_def same_time_def remove_child_def)
  have e: "same_links parent p0" "0 \<le> ts_duration parent" "ts_child_ids parent = filter (\<lambda>c. map_of m c \<noteq> None) (ts_child_ids p0)"
    using p0(2) by (auto simp: entry_cut_def)
  have "ts_child_ids (remove_child k parent) = filter (\<lambda>c. c \<noteq> k) (filter (\<lambda>c. map_of m c \<noteq> None) (ts_child_ids p0))"
    unfolding remove_child_def e(3) by simp
  also have "\<dots> = filter (\<lambda>c. map_of ?m c \<noteq> None) (ts_child_ids p0)"
    unfolding filter_filter by (rule filter_cong) (use parent in \<open>auto simp: look\<close>)
  finally have kids: "ts_child_ids (remove_child k parent) = filter (\<lambda>c. map_of ?m c \<noteq> None) (ts_child_ids p0)" .
  have "same_links (remove_child k parent) p0" "0 \<le> ts_duration (remove_child k parent)"
    using e(1,2) by (simp_all add: remove_child_def same_links_def)
  with time kids show ?thesis unfolding entry_cut_def by blast
qed

lemma step_drop:
  assumes turn_of: "next_turn m0 turn m k s0 s" and deep: "ts_depth s0 \<noteq> 0" and p: "parent_id s0 = Some p" "p \<in> turn"
    and parent: "map_of m p = Some parent" "\<not> overlaps parent s0"
  shows "cut_inv m0 (insert k turn) (es_map_delete k (es_map_set p (remove_child k parent) m))"
proof -
  note N = next_turnD [OF turn_of] and I = cut_invD [OF N(2)]
  have pk: "p \<noteq> k" using p(2) N(3) by auto
  obtain p0 where p0: "map_of m0 p = Some p0" "entry_cut m0 turn m p0 parent" using I(2) [OF parent(1)] by blast
  let ?m = "es_map_delete k (es_map_set p (remove_child k parent) m)"
  have look: "map_of ?m j = (if j = k then None else if j = p then Some (remove_child k parent) else map_of m j)" for j
    by (simp add: map_of_delete map_of_set)
  have rt: "same_time (remove_child k parent) parent" by (simp add: remove_child_def same_time_def)
  have times: "rel_option same_time (map_of ?m q) (map_of m q)" if "q \<noteq> k" for q
    using that parent(1) rt by (auto simp: look)
  show ?thesis
    unfolding cut_inv_def
  proof (intro conjI allI impI)
    show "(map_of ?m j = None) = (map_of m0 j = None)" if "j \<notin> insert k turn" for j using I(1) that p(2) by (auto simp: look)
    show "\<exists>t0. map_of m0 j = Some t0 \<and> entry_cut m0 (insert k turn) ?m t0 t" if t: "map_of ?m j = Some t" for j t
    proof (cases "j = p")
      case True
      then show ?thesis using t pk step_drop_parent [OF turn_of pk parent(1) p0] p0(1) by (auto simp: look)
    next
      case False
      then have j: "j \<noteq> k" "map_of m j = Some t" using t by (auto simp: look split: if_splits)
      obtain t0 where t0: "map_of m0 j = Some t0" "entry_cut m0 turn m t0 t" using I(2) [OF j(2)] by blast
      have "k \<notin> set (ts_child_ids t0)" using next_turn_only [OF turn_of t0(1)] p(1) False by simp
      then have "entry_cut m0 (insert k turn) ?m t0 t"
        by (intro entry_kept [OF t0(2) _ N(3) times]) (use linkedD(1) [OF N(1) t0(1)] j(1) parent(1) in \<open>auto simp: look\<close>)
      with t0(1) show ?thesis by blast
    qed
    show "map_of ?m j \<noteq> None"
      if alive: "j \<in> insert k turn \<and> map_of m0 j = Some t0 \<and> (ts_depth t0 \<noteq> 0 \<longrightarrow> parent_id t0 = Some q \<and> map_of ?m q = Some par \<and> overlaps par t0)" for j t0 q par
    proof (cases "j = k")
      case True
      then have "t0 = s0" "overlaps (remove_child k parent) s0" using alive N(4) deep p(1) pk by (auto simp: look)
      then show ?thesis using overlaps_time [OF rt same_time_refl, of s0] parent(2) by simp
    next
      case j': False
      then have j: "j \<in> turn" "map_of m0 j = Some t0" using alive by auto
      have "parent_id t0 = Some q \<and> (\<exists>par. map_of m q = Some par \<and> overlaps par t0)" if "ts_depth t0 \<noteq> 0"
      proof -
        have q: "parent_id t0 = Some q" "map_of ?m q = Some par" "overlaps par t0" using alive that by auto
        then have "q \<noteq> k" by (auto simp: look)
        then show ?thesis using q parent(1) overlaps_time [OF rt same_time_refl, of t0] by (auto simp: look split: if_splits)
      qed
      then have "map_of m j \<noteq> None" using I(3) [OF j] by blast
      then show ?thesis using j' by (simp add: look)
    qed
  qed
qed

lemma sanitize_step:
  assumes linked: "linked_map m0" and inv: "cut_inv m0 turn m" and k: "k \<notin> turn" "map_of m0 k = Some s0"
    and before: "\<And>p. parent_id s0 = Some p \<Longrightarrow> map_of m0 p \<noteq> None \<Longrightarrow> p \<in> turn"
    and closed: "\<And>j t0 q. j \<in> turn \<Longrightarrow> map_of m0 j = Some t0 \<Longrightarrow> parent_id t0 = Some q \<Longrightarrow> map_of m0 q \<noteq> None \<Longrightarrow> q \<in> turn"
  shows "cut_inv m0 (insert k turn) (sanitize_span k m)"
proof -
  obtain s where s: "map_of m k = Some s" using cut_invD(1) [OF inv k(1)] k(2) by (cases "map_of m k") auto
  then have turn_of: "next_turn m0 turn m k s0 s" unfolding next_turn_def using assms by blast
  note S = next_turn_span [OF turn_of]
  show ?thesis
  proof (cases "ts_depth s0 = 0")
    case True
    then have "sanitize_span k m = m" using s S(1) by (auto simp: sanitize_span_def same_links_def split: list.splits)
    then show ?thesis using step_top [OF turn_of True] by simp
  next
    case deep: False
    then obtain p where p: "parent_id s0 = Some p" "map_of m0 p \<noteq> None" using linkedD(5) [OF linked k(2)] by blast
    then obtain type refs where refs: "ts_refs s0 = (type, p) # refs" by (auto simp: parent_id_def split: list.splits)
    have turn: "p \<in> turn" by (rule before [OF p])
    have s': "ts_refs s = (type, p) # refs" "ts_depth s \<noteq> 0" "ts_id s = k" using S(1,4) refs deep by (auto simp: same_links_def)
    show ?thesis
    proof (cases "map_of m p")
      case None
      then show ?thesis using step_orphan [OF turn_of deep p(1) None] s s' by (simp add: sanitize_span_def)
    next
      case parent: (Some parent)
      have pdur: "0 \<le> ts_duration parent" using cut_invD(2) [OF inv parent] by (auto simp: entry_cut_def)
      have "overlaps parent s = overlaps parent s0" by (rule overlaps_time) (use S(2) in \<open>simp_all add: same_time_def\<close>)
      then show ?thesis
        unfolding sanitize_span_eq [OF s s'(3,1,2) parent pdur S(3)]
        using step_cut [OF turn_of deep p(1) turn parent pdur] step_drop [OF turn_of deep p(1) turn parent] by simp
    qed
  qed
qed

end
