(* ===== verification/Trace_Walk.thy ===== *)
theory Trace_Walk
  imports Trace_Cut
begin

text \<open>
  The walk over the tree of spans (\<open>walk\<close> of \<open>utils/TreeNode.ts\<close>): on the children of a forest it returns, visits every
  node that a chain of children leads to exactly once, parents before children, and knows their depths.
\<close>

section \<open>Forests\<close>

definition forest :: "string set \<Rightarrow> span_nodes \<Rightarrow> bool" where
  "forest ids t \<longleftrightarrow> finite ids \<and> distinct (sn_root t) \<and> set (sn_root t) \<subseteq> ids \<and>
     (\<forall>k. distinct (node_children t k) \<and> set (node_children t k) \<subseteq> ids \<and> set (node_children t k) \<inter> set (sn_root t) = {}) \<and>
     (\<forall>k k' c. c \<in> set (node_children t k) \<and> c \<in> set (node_children t k') \<longrightarrow> k = k')"

lemma forestD:
  assumes "forest ids t"
  shows "finite ids" "distinct (sn_root t)" "set (sn_root t) \<subseteq> ids" "distinct (node_children t k)" "set (node_children t k) \<subseteq> ids"
    "c \<in> set (node_children t k) \<Longrightarrow> c \<notin> set (sn_root t)"
    "c \<in> set (node_children t k) \<Longrightarrow> c \<in> set (node_children t k') \<Longrightarrow> k = k'"
  using assms unfolding forest_def by blast+

text \<open>An entry of the walk: a root at depth one, or a child of an entry visited before, with only deeper ones in between.\<close>

definition comes_from :: "span_nodes \<Rightarrow> (string \<times> nat) list \<Rightarrow> string \<times> nat \<Rightarrow> bool" where
  "comes_from t before e \<longleftrightarrow> (fst e \<in> set (sn_root t) \<and> snd e = 1) \<or>
     (\<exists>us p vs. before = us @ p # vs \<and> fst e \<in> set (node_children t (fst p)) \<and> snd e = Suc (snd p) \<and> (\<forall>y \<in> set vs. snd p < snd y))"

lemma comes_from_snoc: "comes_from t xs e \<Longrightarrow> snd e \<le> snd y \<Longrightarrow> comes_from t (xs @ [y]) e"
  unfolding comes_from_def by (elim disjE exE conjE) (auto simp: all_conj_distrib intro!: exI)

section \<open>Invariant of the walk\<close>

definition walk_inv :: "string set \<Rightarrow> span_nodes \<Rightarrow> (string \<times> nat) list \<Rightarrow> (string \<times> nat) list \<Rightarrow> bool" where
  "walk_inv ids t visited stack \<longleftrightarrow>
     distinct (map fst (visited @ stack)) \<and> set (map fst (visited @ stack)) \<subseteq> ids \<and>
     (\<forall>us e vs. visited = us @ e # vs \<longrightarrow> comes_from t us e) \<and> (\<forall>e \<in> set stack. comes_from t visited e) \<and>
     sorted_wrt (\<lambda>x y. snd y \<le> snd x) stack \<and>
     (\<forall>e \<in> set visited. \<forall>c \<in> set (node_children t (fst e)). (c, Suc (snd e)) \<in> set (visited @ stack)) \<and>
     (\<forall>k \<in> set (sn_root t). (k, 1) \<in> set (visited @ stack))"

lemma walk_invD:
  assumes "walk_inv ids t visited stack"
  shows "distinct (map fst (visited @ stack))" "set (map fst (visited @ stack)) \<subseteq> ids"
    "\<And>us e vs. visited = us @ e # vs \<Longrightarrow> comes_from t us e" "\<And>e. e \<in> set stack \<Longrightarrow> comes_from t visited e"
    "\<And>e c. e \<in> set visited \<Longrightarrow> c \<in> set (node_children t (fst e)) \<Longrightarrow> (c, Suc (snd e)) \<in> set (visited @ stack)"
    "\<And>k. k \<in> set (sn_root t) \<Longrightarrow> (k, 1) \<in> set (visited @ stack)" "sorted_wrt (\<lambda>x y. snd y \<le> snd x) stack"
  using assms unfolding walk_inv_def by blast+

lemma walk_inv_start: "forest ids t \<Longrightarrow> walk_inv ids t [] (map (\<lambda>c. (c, 1)) (sn_root t))"
  using forestD(2,3) by (auto simp: walk_inv_def comp_def comes_from_def sorted_wrt_map)

lemma walk_inv_step:
  assumes F: "forest ids t" and inv: "walk_inv ids t visited (e # stack)"
  shows "walk_inv ids t (visited @ [e]) (map (\<lambda>c. (c, Suc (snd e))) (node_children t (fst e)) @ stack)"
proof -
  note I = walk_invD [OF inv]
  let ?kids = "map (\<lambda>c. (c, Suc (snd e))) (node_children t (fst e))"
  have new: "c \<notin> set (map fst (visited @ e # stack))" if c: "c \<in> set (node_children t (fst e))" for c
  proof
    assume "c \<in> set (map fst (visited @ e # stack))"
    then obtain x where x: "c = fst x" "x \<in> set (visited @ e # stack)" unfolding set_map by (rule imageE)
    define d where "d = snd x"
    then have d: "(c, d) \<in> set visited \<or> (c, d) \<in> set (e # stack)" using x by (cases x) auto
    then have "\<exists>before. set before \<subseteq> set visited \<and> comes_from t before (c, d)"
    proof
      assume "(c, d) \<in> set visited"
      then obtain us vs where "visited = us @ (c, d) # vs" by (meson split_list)
      with I(3) [OF this] show ?thesis by auto
    qed (use I(4) in blast)
    then obtain p where "p \<in> set visited" "c \<in> set (node_children t (fst p))"
      using forestD(6) [OF F c] by (auto simp: comes_from_def)
    moreover have "fst p = fst e" using forestD(7) [OF F] calculation(2) c by blast
    ultimately show False using I(1) by (auto simp: rev_image_eqI)
  qed
  have kid: "comes_from t (visited @ [e]) x" if x: "x \<in> set ?kids" for x
    unfolding comes_from_def using x by (intro disjI2 exI [of _ visited] exI [of _ e] exI [of _ "[]"]) auto
  have all: "set (visited @ e # stack) \<subseteq> set ((visited @ [e]) @ ?kids @ stack)" by auto
  show ?thesis
    unfolding walk_inv_def
  proof (intro conjI ballI allI impI)
    show "distinct (map fst ((visited @ [e]) @ ?kids @ stack))"
      using I(1) new forestD(4) [OF F, of "fst e"] by (auto simp: comp_def)
    show "set (map fst ((visited @ [e]) @ ?kids @ stack)) \<subseteq> ids" using I(2) forestD(5) [OF F, of "fst e"] by auto
    show "comes_from t us x" if "visited @ [e] = us @ x # vs" for us x vs
    proof (cases vs rule: rev_cases)
      case Nil
      then show ?thesis using that I(4) [of e] by simp
    next
      case (snoc vs' y)
      then have "visited = us @ x # vs'" using that by (metis append_Cons append_assoc butlast_snoc)
      then show ?thesis by (rule I(3))
    qed
    show "comes_from t (visited @ [e]) x" if x: "x \<in> set (?kids @ stack)" for x
    proof (cases "x \<in> set stack")
      case True
      then have "comes_from t visited x" "snd x \<le> snd e" using I(4,7) by auto
      then show ?thesis by (rule comes_from_snoc)
    next
      case False
      then show ?thesis using x kid by auto
    qed
    show "sorted_wrt (\<lambda>x y. snd y \<le> snd x) (?kids @ stack)"
      using I(4,7) by (auto simp: sorted_wrt_append sorted_wrt_map le_Suc_eq)
    show "(c, Suc (snd x)) \<in> set ((visited @ [e]) @ ?kids @ stack)"
      if x: "x \<in> set (visited @ [e])" and c: "c \<in> set (node_children t (fst x))" for x c
    proof (cases "x = e")
      case False
      then show ?thesis using I(5) [of x c] x c all by auto
    qed (use c in auto)
    show "(k, 1) \<in> set ((visited @ [e]) @ ?kids @ stack)" if "k \<in> set (sn_root t)" for k using I(6) [OF that] all by blast
  qed
qed

lemma walk_inv_size: "forest ids t \<Longrightarrow> walk_inv ids t visited stack \<Longrightarrow> length (visited @ stack) \<le> card ids"
  using walk_invD(1,2) forestD(1) by (metis card_mono distinct_card length_map)

lemma walk_loop_run:
  "forest ids t \<Longrightarrow> walk_inv ids t visited stack \<Longrightarrow> card ids \<le> length visited + n \<Longrightarrow>
    \<exists>more. walk_loop n t stack = Some more \<and> walk_inv ids t (visited @ more) []"
proof (induction n t stack arbitrary: visited rule: walk_loop.induct)
  case (2 t e stack)
  then show ?case using walk_inv_size [OF "2.prems"(1,2)] by simp
next
  case (3 n t k d stack)
  obtain more where "walk_loop n t (map (\<lambda>c. (c, Suc d)) (node_children t k) @ stack) = Some more"
    "walk_inv ids t ((visited @ [(k, d)]) @ more) []"
    using "3.IH" [of "visited @ [(k, d)]"] walk_inv_step [OF "3.prems"(1,2)] "3.prems"(1,3) by auto
  then show ?case by simp
qed auto

end
