(* ===== verification/Trace_Build.thy ===== *)
theory Trace_Build
  imports Trace_Walk
begin

text \<open>
  The spans of a trace as \<open>transformTraceData\<close> lists them: the tree that \<open>getTraceSpanIdsAsTree\<close> builds is a forest, its walk
  ends, and the result is a well-formed trace in the sense of \<open>trace_ok\<close>.
\<close>

section \<open>The tree of the spans\<close>

lemma add_nodes_run:
  "\<forall>s \<in> set ss. \<forall>ref \<in> set (take 1 (ts_refs s)). fst ref \<noteq> EXTERNAL \<Longrightarrow>
   \<exists>t'. add_nodes ss t = Inr t' \<and>
     sn_root t' = sn_root t @ map ts_id (filter (\<lambda>s. \<forall>p. parent_id s = Some p \<longrightarrow> map_of (sn_children t) p = None) ss) \<and>
     (\<forall>k. map_of (sn_children t') k =
        map_option (\<lambda>ks. ks @ map ts_id (filter (\<lambda>s. parent_id s = Some k) ss)) (map_of (sn_children t) k))"
proof (induction ss arbitrary: t)
  case Nil
  show ?case by (simp add: option.map_ident)
next
  case (Cons s ss)
  have rest: "\<exists>t'. add_nodes ss u = Inr t' \<and>
     sn_root t' = sn_root u @ map ts_id (filter (\<lambda>s. \<forall>p. parent_id s = Some p \<longrightarrow> map_of (sn_children u) p = None) ss) \<and>
     (\<forall>k. map_of (sn_children t') k =
        map_option (\<lambda>ks. ks @ map ts_id (filter (\<lambda>s. parent_id s = Some k) ss)) (map_of (sn_children u) k))" for u
    by (rule Cons.IH) (use Cons.prems in auto)
  show ?case
  proof (cases "parent_id s")
    case None
    then have "ts_refs s = []" by (simp add: parent_id_def split: list.splits)
    then have "add_node s t = Inr (t\<lparr>sn_root := sn_root t @ [ts_id s]\<rparr>)" by (simp add: add_node_def)
    then show ?thesis using rest [of "t\<lparr>sn_root := sn_root t @ [ts_id s]\<rparr>"] None by simp
  next
    case (Some p)
    then obtain type refs where refs: "ts_refs s = (type, p) # refs" by (auto simp: parent_id_def split: list.splits)
    then have "type = CHILD_OF \<or> type = FOLLOWS_FROM" using Cons.prems by (cases type) auto
    then have step: "add_node s t = Inr (case map_of (sn_children t) p of
         None \<Rightarrow> t\<lparr>sn_root := sn_root t @ [ts_id s]\<rparr>
       | Some ks \<Rightarrow> t\<lparr>sn_children := es_map_set p (ks @ [ts_id s]) (sn_children t)\<rparr>)"
      using refs by (simp add: add_node_def)
    show ?thesis
    proof (cases "map_of (sn_children t) p")
      case None
      let ?u = "t\<lparr>sn_root := sn_root t @ [ts_id s]\<rparr>"
      from rest [of ?u] obtain t' where t': "add_nodes ss ?u = Inr t'"
        "sn_root t' = sn_root ?u @ map ts_id (filter (\<lambda>s. \<forall>p. parent_id s = Some p \<longrightarrow> map_of (sn_children ?u) p = None) ss)"
        "\<And>k. map_of (sn_children t') k =
           map_option (\<lambda>ks. ks @ map ts_id (filter (\<lambda>s. parent_id s = Some k) ss)) (map_of (sn_children ?u) k)" by blast
      have "map_of (sn_children t') k =
          map_option (\<lambda>ks. ks @ map ts_id (filter (\<lambda>s. parent_id s = Some k) (s # ss))) (map_of (sn_children t) k)" for k
        using Some None unfolding t'(3) by (cases "k = p") auto
      then show ?thesis using t'(1,2) Some None step by (intro exI [of _ t']) simp
    next
      case ks: (Some ks)
      let ?u = "t\<lparr>sn_children := es_map_set p (ks @ [ts_id s]) (sn_children t)\<rparr>"
      have look: "map_of (sn_children ?u) q = (if q = p then Some (ks @ [ts_id s]) else map_of (sn_children t) q)" for q
        by (simp add: map_of_es_map_set)
      then have none: "map_of (sn_children ?u) q = None \<longleftrightarrow> map_of (sn_children t) q = None" for q using ks by simp
      from rest [of ?u] obtain t' where t': "add_nodes ss ?u = Inr t'"
        "sn_root t' = sn_root ?u @ map ts_id (filter (\<lambda>s. \<forall>p. parent_id s = Some p \<longrightarrow> map_of (sn_children ?u) p = None) ss)"
        "\<And>k. map_of (sn_children t') k =
           map_option (\<lambda>ks. ks @ map ts_id (filter (\<lambda>s. parent_id s = Some k) ss)) (map_of (sn_children ?u) k)" by blast
      have "add_nodes (s # ss) t = Inr t'" using step ks t'(1) by simp
      moreover have "sn_root t' = sn_root t @ map ts_id (filter (\<lambda>s. \<forall>p. parent_id s = Some p \<longrightarrow> map_of (sn_children t) p = None) (s # ss))"
        using t'(2) Some ks unfolding none by simp
      moreover have "map_of (sn_children t') k =
          map_option (\<lambda>ks. ks @ map ts_id (filter (\<lambda>s. parent_id s = Some k) (s # ss))) (map_of (sn_children t) k)" for k
        using Some ks unfolding t'(3) look by auto
      ultimately show ?thesis by blast
    qed
  qed
qed

lemma empty_nodes: "map_of (fold (\<lambda>s. es_map_set (ts_id s) []) spans m) k = (if k \<in> ts_id ` set spans then Some [] else map_of m k)"
  by (induction spans arbitrary: m) (auto simp: map_of_es_map_set)

definition top_span :: "trace_span list \<Rightarrow> trace_span \<Rightarrow> bool" where
  "top_span spans s \<longleftrightarrow> (\<forall>p. parent_id s = Some p \<longrightarrow> p \<notin> ts_id ` set spans)"

lemma span_ids_as_tree_run:
  assumes "\<forall>s \<in> set spans. \<forall>ref \<in> set (take 1 (ts_refs s)). fst ref \<noteq> EXTERNAL"
  shows "\<exists>t. span_ids_as_tree spans m = Inr t \<and>
    sn_root t = sort_key (start_of m) (map ts_id (filter (top_span spans) spans)) \<and>
    (\<forall>k. node_children t k = (if k \<in> ts_id ` set spans then sort_key (start_of m) (map ts_id (filter (\<lambda>s. parent_id s = Some k) spans)) else []))"
proof -
  let ?nodes = "fold (\<lambda>s. es_map_set (ts_id s) []) spans [] :: (string \<times> string list) list"
  have none: "map_of ?nodes p = None \<longleftrightarrow> p \<notin> ts_id ` set spans" for p unfolding empty_nodes by simp
  obtain t where t: "add_nodes spans \<lparr>sn_children = ?nodes, sn_root = []\<rparr> = Inr t"
    "sn_root t = map ts_id (filter (\<lambda>s. \<forall>p. parent_id s = Some p \<longrightarrow> map_of ?nodes p = None) spans)"
    "\<And>k. map_of (sn_children t) k = map_option (\<lambda>ks. ks @ map ts_id (filter (\<lambda>s. parent_id s = Some k) spans)) (map_of ?nodes k)"
    using add_nodes_run [OF assms, of "\<lparr>sn_children = ?nodes, sn_root = []\<rparr>"]
    unfolding span_nodes.select_convs append_Nil
    by (elim exE conjE) (rule that, assumption, assumption, erule spec)
  let ?t = "\<lparr>sn_children = map (\<lambda>(k, ks). (k, sort_key (start_of m) ks)) (sn_children t), sn_root = sort_key (start_of m) (sn_root t)\<rparr>"
  have "span_ids_as_tree spans m = Inr ?t" using t(1) by (simp add: span_ids_as_tree_def Let_def)
  moreover have "sn_root ?t = sort_key (start_of m) (map ts_id (filter (top_span spans) spans))"
    using t(2) unfolding none by (simp add: top_span_def [abs_def])
  moreover have "node_children ?t k = (if k \<in> ts_id ` set spans then sort_key (start_of m) (map ts_id (filter (\<lambda>s. parent_id s = Some k) spans)) else [])" for k
    by (simp add: node_children_def map_of_map t(3) nullish_def empty_nodes)
  ultimately show ?thesis by blast
qed

lemma span_tree_forest:
  assumes "distinct (map ts_id spans)"
    and root: "sn_root t = sort_key f (map ts_id (filter (top_span spans) spans))"
    and kids: "\<And>k. node_children t k = (if k \<in> ts_id ` set spans then sort_key f (map ts_id (filter (\<lambda>s. parent_id s = Some k) spans)) else [])"
  shows "forest (ts_id ` set spans) t"
proof -
  have eq: "s = s'" if "s \<in> set spans" "s' \<in> set spans" "ts_id s = ts_id s'" for s s' using assms(1) that by (simp add: distinct_map inj_on_def)
  have d: "distinct (map ts_id (filter P spans))" for P using assms(1) by (simp add: distinct_map_filter)
  have kid: "k \<in> ts_id ` set spans \<and> (\<exists>s \<in> set spans. ts_id s = c \<and> parent_id s = Some k)" if "c \<in> set (node_children t k)" for c k
    using that by (auto simp: kids split: if_splits)
  show ?thesis
    unfolding forest_def
  proof (intro conjI allI impI)
    show "distinct (sn_root t)" "distinct (node_children t k)" for k using d by (simp_all add: root kids)
    show "set (sn_root t) \<subseteq> ts_id ` set spans" "set (node_children t k) \<subseteq> ts_id ` set spans" for k by (auto simp: root kids)
    show "set (node_children t k) \<inter> set (sn_root t) = {}" for k
    proof (rule equals0I)
      fix c assume c: "c \<in> set (node_children t k) \<inter> set (sn_root t)"
      then obtain s where s: "s \<in> set spans" "ts_id s = c" "parent_id s = Some k" "k \<in> ts_id ` set spans" using kid by blast
      obtain s' where "s' \<in> set spans" "ts_id s' = c" "top_span spans s'" using c by (auto simp: root)
      then show False using eq [OF s(1)] s by (auto simp: top_span_def)
    qed
    show "k = k'" if "c \<in> set (node_children t k) \<and> c \<in> set (node_children t k')" for k k' c
      using that kid eq by (metis option.inject)
  qed simp
qed

section \<open>The spans in the order of the walk\<close>

definition walked :: "trace_span list \<Rightarrow> span_nodes \<Rightarrow> (string \<times> nat) list \<Rightarrow> bool" where
  "walked spans t visited \<longleftrightarrow> distinct (map ts_id spans) \<and> walk_inv (ts_id ` set spans) t visited [] \<and>
     set (sn_root t) = {ts_id s | s. s \<in> set spans \<and> top_span spans s} \<and>
     (\<forall>k. distinct (node_children t k)) \<and>
     (\<forall>k \<in> ts_id ` set spans. set (node_children t k) = {ts_id c | c. c \<in> set spans \<and> parent_id c = Some k})"

lemma walkedD:
  assumes "walked spans t visited"
  shows "distinct (map ts_id spans)" "distinct (map fst visited)" "fst ` set visited \<subseteq> ts_id ` set spans" "distinct (node_children t k)"
    "k \<in> ts_id ` set spans \<Longrightarrow> set (node_children t k) = {ts_id c | c. c \<in> set spans \<and> parent_id c = Some k}"
    "s \<in> set spans \<Longrightarrow> s' \<in> set spans \<Longrightarrow> ts_id s = ts_id s' \<Longrightarrow> s = s'"
    "s \<in> set spans \<Longrightarrow> top_span spans s \<Longrightarrow> (ts_id s, 1) \<in> set visited"
    "e \<in> set visited \<Longrightarrow> s \<in> set spans \<Longrightarrow> parent_id s = Some (fst e) \<Longrightarrow> (ts_id s, Suc (snd e)) \<in> set visited"
proof -
  have W: "walk_inv (ts_id ` set spans) t visited []" and d: "distinct (map ts_id spans)"
    and root: "set (sn_root t) = {ts_id s | s. s \<in> set spans \<and> top_span spans s}"
    and kids: "\<And>k. k \<in> ts_id ` set spans \<Longrightarrow> set (node_children t k) = {ts_id c | c. c \<in> set spans \<and> parent_id c = Some k}"
    using assms unfolding walked_def by blast+
  note I = walk_invD [OF W, unfolded append_Nil2]
  show "distinct (map ts_id spans)" "distinct (node_children t k)" using assms by (simp_all add: walked_def)
  show "distinct (map fst visited)" by (rule I(1))
  show visited: "fst ` set visited \<subseteq> ts_id ` set spans" using I(2) by simp
  show "k \<in> ts_id ` set spans \<Longrightarrow> set (node_children t k) = {ts_id c | c. c \<in> set spans \<and> parent_id c = Some k}" by (rule kids)
  show "s \<in> set spans \<Longrightarrow> s' \<in> set spans \<Longrightarrow> ts_id s = ts_id s' \<Longrightarrow> s = s'" using d by (simp add: distinct_map inj_on_def)
  show "(ts_id s, 1) \<in> set visited" if "s \<in> set spans" "top_span spans s"
    by (rule I(6)) (use that root in auto)
  show "(ts_id s, Suc (snd e)) \<in> set visited" if "e \<in> set visited" "s \<in> set spans" "parent_id s = Some (fst e)"
    by (rule I(5) [OF that(1)]) (use that kids [of "fst e"] visited in auto)
qed

text \<open>A span that is visited comes after its parent, unless it is one of the topmost.\<close>

lemma walked_between:
  assumes w: "walked spans t visited" and at: "visited = us @ e # vs" and s: "s \<in> set spans" "ts_id s = fst e"
  shows "(top_span spans s \<and> snd e = 1) \<or>
    (\<exists>xs p ys. us = xs @ p # ys \<and> parent_id s = Some (fst p) \<and> snd e = Suc (snd p) \<and> (\<forall>y \<in> set ys. snd p < snd y))"
proof -
  have "walk_inv (ts_id ` set spans) t visited []" using w by (simp add: walked_def)
  from walk_invD(3) [OF this at] have "comes_from t us e" .
  then consider "fst e \<in> set (sn_root t)" "snd e = 1" | xs p ys where "us = xs @ p # ys" "fst e \<in> set (node_children t (fst p))" "snd e = Suc (snd p)" "\<forall>y \<in> set ys. snd p < snd y"
    unfolding comes_from_def by blast
  then show ?thesis
  proof cases
    case 1
    then obtain s' where "s' \<in> set spans" "ts_id s' = fst e" "top_span spans s'" using w by (auto simp: walked_def)
    then show ?thesis using walkedD(6) [OF w, of s' s] s 1(2) by simp
  next
    case 2
    have "fst p \<in> ts_id ` set spans" using walkedD(3) [OF w] 2(1) at by auto
    then obtain s' where "s' \<in> set spans" "ts_id s' = fst e" "parent_id s' = Some (fst p)" using walkedD(5) [OF w] 2(2) by auto
    then have "parent_id s = Some (fst p)" using walkedD(6) [OF w, of s' s] s by simp
    then show ?thesis using 2(1,3,4) by blast
  qed
qed

lemma walked_before:
  assumes "walked spans t visited" and "visited = us @ e # vs" and "s \<in> set spans" and "ts_id s = fst e"
  shows "(top_span spans s \<and> snd e = 1) \<or> (\<exists>p \<in> set us. parent_id s = Some (fst p) \<and> snd e = Suc (snd p))"
  using walked_between [OF assms] by auto

lemma walked_positive: "walked spans t visited \<Longrightarrow> e \<in> set visited \<Longrightarrow> 0 < snd e"
proof -
  assume w: "walked spans t visited" and e: "e \<in> set visited"
  obtain us vs where at: "visited = us @ e # vs" using split_list [OF e] by blast
  obtain s where s: "s \<in> set spans" "ts_id s = fst e" using walkedD(3) [OF w] e by auto
  from walked_before [OF w at s] show "0 < snd e" by auto
qed

text \<open>The spans from which going from parent to parent comes to an end.\<close>

inductive rooted :: "trace_span list \<Rightarrow> string \<Rightarrow> bool" for spans where
  rooted_top: "s \<in> set spans \<Longrightarrow> top_span spans s \<Longrightarrow> rooted spans (ts_id s)"
| rooted_below: "s \<in> set spans \<Longrightarrow> parent_id s = Some p \<Longrightarrow> rooted spans p \<Longrightarrow> rooted spans (ts_id s)"

lemma walked_rooted:
  assumes w: "walked spans t visited"
  shows "fst ` set visited = {k. rooted spans k}"
proof
  have "i < length visited \<Longrightarrow> rooted spans (fst (visited ! i))" for i
  proof (induction i rule: less_induct)
    case (less i)
    obtain s where s: "s \<in> set spans" "ts_id s = fst (visited ! i)" using walkedD(3) [OF w] nth_mem [OF less.prems] by auto
    from walked_before [OF w id_take_nth_drop [OF less.prems] s] show ?case
    proof (elim disjE bexE conjE)
      assume "top_span spans s"
      then show ?thesis using rooted_top [OF s(1)] s(2) by simp
    next
      fix p assume p: "p \<in> set (take i visited)" "parent_id s = Some (fst p)"
      then obtain j where "j < i" "visited ! j = p" using less.prems by (auto simp: in_set_conv_nth)
      then show ?thesis using less rooted_below [OF s(1) p(2)] s(2) by auto
    qed
  qed
  then have "rooted spans (fst e)" if "e \<in> set visited" for e using that unfolding in_set_conv_nth by blast
  then show "fst ` set visited \<subseteq> {k. rooted spans k}" by blast
  have "k \<in> fst ` set visited" if "rooted spans k" for k
    using that
  proof induction
    case (rooted_top s)
    from walkedD(7) [OF w this] show ?case by (rule rev_image_eqI) simp
  next
    case (rooted_below s p)
    then obtain e where e: "e \<in> set visited" "fst e = p" by auto
    have "(ts_id s, Suc (snd e)) \<in> set visited" by (rule walkedD(8) [OF w e(1)]) (use rooted_below e(2) in simp_all)
    then show ?case by (rule rev_image_eqI) simp
  qed
  then show "{k. rooted spans k} \<subseteq> fst ` set visited" by blast
qed

section \<open>The transformed trace\<close>

lemma unique_ids_same: "distinct (map ts_id ss) \<Longrightarrow> (\<forall>s \<in> set ss. map_of counts (ts_id s) = None) \<Longrightarrow> unique_ids counts ss = ss"
proof (induction ss arbitrary: counts)
  case (Cons s ss)
  have "unique_ids (es_map_set (ts_id s) 1 counts) ss = ss"
  proof (rule Cons.IH)
    have "ts_id x \<noteq> ts_id s" if "x \<in> set ss" for x using Cons.prems(1) that by (metis distinct.simps(2) list.set_map list.simps(9) rev_image_eqI)
    then show "\<forall>x \<in> set ss. map_of (es_map_set (ts_id s) 1 counts) (ts_id x) = None"
      using Cons.prems(2) by (simp add: map_of_es_map_set)
  qed (use Cons.prems in simp)
  then show ?case using Cons.prems by simp
qed simp

lemma trace_start_le: "s \<in> set spans \<Longrightarrow> trace_start spans \<le> ts_start s"
proof -
  have "fold (\<lambda>s t. if ts_start s < t then ts_start s else t) ss t0 \<le> t0 \<and>
      (\<forall>s \<in> set ss. fold (\<lambda>s t. if ts_start s < t then ts_start s else t) ss t0 \<le> ts_start s)" for ss t0
  proof (induction ss arbitrary: t0)
    case (Cons s ss)
    from Cons.IH [of "if ts_start s < t0 then ts_start s else t0"] show ?case by (auto split: if_splits)
  qed simp
  then show "s \<in> set spans \<Longrightarrow> trace_start spans \<le> ts_start s" unfolding trace_start_def by blast
qed

lemma trace_end_ge: "s \<in> set spans \<Longrightarrow> ts_end s \<le> trace_end spans"
proof -
  have "t0 \<le> fold (\<lambda>s t. if ts_end s > t then ts_end s else t) ss t0 \<and>
      (\<forall>s \<in> set ss. ts_end s \<le> fold (\<lambda>s t. if ts_end s > t then ts_end s else t) ss t0)" for ss t0
  proof (induction ss arbitrary: t0)
    case (Cons s ss)
    from Cons.IH [of "if ts_end s > t0 then ts_end s else t0"] show ?case by (auto split: if_splits)
  qed simp
  then show "s \<in> set spans \<Longrightarrow> ts_end s \<le> trace_end spans" unfolding trace_end_def by blast
qed

text \<open>The span that an entry of the walk becomes.\<close>

definition place_entry :: "trace_span list \<Rightarrow> span_nodes \<Rightarrow> int \<Rightarrow> string \<times> nat \<Rightarrow> trace_span" where
  "place_entry spans t start e = place_span (spans_by_id spans) t start (snd e) (the (map_of (spans_by_id spans) (fst e)))"

lemma place_entry_fields:
  assumes w: "walked spans t visited" and e: "e \<in> set visited"
  obtains s0 where "s0 \<in> set spans" "ts_id s0 = fst e" "map_of (spans_by_id spans) (fst e) = Some s0"
    "ts_id (place_entry spans t a e) = fst e" "ts_start (place_entry spans t a e) = ts_start s0"
    "ts_duration (place_entry spans t a e) = ts_duration s0" "ts_refs (place_entry spans t a e) = ts_refs s0"
    "parent_id (place_entry spans t a e) = parent_id s0" "ts_depth (place_entry spans t a e) = snd e - 1"
    "ts_has_children (place_entry spans t a e) \<longleftrightarrow> node_children t (fst e) \<noteq> []"
    "ts_child_ids (place_entry spans t a e) = sort_key (\<lambda>k. - end_of (spans_by_id spans) k) (node_children t (fst e))"
    "ts_relative_start (place_entry spans t a e) = ts_start s0 - a"
proof -
  obtain s0 where s0: "s0 \<in> set spans" "ts_id s0 = fst e" using walkedD(3) [OF w] e by auto
  then have look: "map_of (spans_by_id spans) (fst e) = Some s0"
    using map_of_spans [OF walkedD(1) [OF w]] by (simp add: spans_by_id_eq [OF walkedD(1) [OF w]])
  show thesis by (rule that [OF s0 look]) (simp_all add: place_entry_def place_span_def look s0(2) Let_def parent_id_def)
qed

lemma concat_singles: "(\<And>x. x \<in> set xs \<Longrightarrow> f x = [g x]) \<Longrightarrow> concat (map f xs) = map g xs"
  by (induction xs) auto

lemma placed_entries:
  assumes w: "walked spans t visited" and root: "tree_root_id \<notin> ts_id ` set spans"
  shows "concat (map (placed (spans_by_id spans) t start) visited) = map (place_entry spans t start) visited"
proof (rule concat_singles)
  fix e assume e: "e \<in> set visited"
  obtain s0 where s0: "s0 \<in> set spans" "ts_id s0 = fst e" "map_of (spans_by_id spans) (fst e) = Some s0"
    by (rule place_entry_fields [OF w e]) (rule that; assumption)
  then have "fst e \<noteq> tree_root_id" using root rev_image_eqI [of s0 "set spans" "fst e" ts_id] by auto
  then show "placed (spans_by_id spans) t start e = [place_entry spans t start e]"
    using s0(3) by (cases e) (simp add: placed_def place_entry_def)
qed

definition span_given :: "trace_span \<Rightarrow> bool" where
  "span_given s \<longleftrightarrow> ts_id s \<noteq> [] \<and> ts_id s \<noteq> tree_root_id \<and> 0 \<le> ts_start s \<and> 0 \<le> ts_duration s \<and>
     (\<forall>ref \<in> set (take 1 (ts_refs s)). fst ref \<noteq> EXTERNAL)"

lemma placed_ids:
  assumes "walked spans t visited"
  shows "map ts_id (map (place_entry spans t start) visited) = map fst visited"
  unfolding map_map
proof (rule map_cong [OF refl])
  fix e assume e: "e \<in> set visited"
  show "(ts_id \<circ> place_entry spans t start) e = fst e"
    by (rule place_entry_fields [OF assms e, of start]) simp
qed

lemma place_entry_ok:
  assumes w: "walked spans t visited" and given: "\<forall>s \<in> set spans. span_given s \<and> ts_start s \<noteq> 0" and e: "e \<in> set visited"
  shows "span_ok (map (place_entry spans t a) visited) (place_entry spans t a e)"
proof -
  let ?out = "map (place_entry spans t a) visited" and ?till = "end_of (spans_by_id spans)"
  obtain s0 where s0: "s0 \<in> set spans" "ts_id s0 = fst e" "ts_id (place_entry spans t a e) = fst e"
    "ts_start (place_entry spans t a e) = ts_start s0" "ts_duration (place_entry spans t a e) = ts_duration s0"
    "ts_refs (place_entry spans t a e) = ts_refs s0" "ts_has_children (place_entry spans t a e) \<longleftrightarrow> node_children t (fst e) \<noteq> []"
    "ts_child_ids (place_entry spans t a e) = sort_key (\<lambda>k. - ?till k) (node_children t (fst e))"
    by (rule place_entry_fields [OF w e, of a]) (rule that; assumption)
  have kids: "set (node_children t (fst e)) = {ts_id c | c. c \<in> set ?out \<and> parent_id c = Some (fst e)}"
  proof (rule set_eqI, rule iffI)
    fix c assume "c \<in> set (node_children t (fst e))"
    then obtain s where s: "s \<in> set spans" "ts_id s = c" "parent_id s = Some (fst e)" using walkedD(5) [OF w] s0(1,2) by force
    have c: "(c, Suc (snd e)) \<in> set visited" using walkedD(8) [OF w e s(1,3)] s(2) by simp
    obtain u where u: "u \<in> set spans" "ts_id u = c" "ts_id (place_entry spans t a (c, Suc (snd e))) = c"
      "parent_id (place_entry spans t a (c, Suc (snd e))) = parent_id u"
      by (rule place_entry_fields [OF w c, of a, unfolded fst_conv]) (rule that; assumption)
    have "u = s" using walkedD(6) [OF w u(1) s(1)] u(2) s(2) by simp
    then show "c \<in> {ts_id c | c. c \<in> set ?out \<and> parent_id c = Some (fst e)}" using c u(3,4) s(3) by force
  next
    fix c assume "c \<in> {ts_id c | c. c \<in> set ?out \<and> parent_id c = Some (fst e)}"
    then obtain e' where e': "e' \<in> set visited" "ts_id (place_entry spans t a e') = c" "parent_id (place_entry spans t a e') = Some (fst e)" by auto
    obtain u where u: "u \<in> set spans" "ts_id u = fst e'" "ts_id (place_entry spans t a e') = fst e'" "parent_id (place_entry spans t a e') = parent_id u"
      by (rule place_entry_fields [OF w e'(1), of a]) (rule that; assumption)
    then show "c \<in> set (node_children t (fst e))" using walkedD(5) [OF w, of "fst e"] s0(1,2) e'(2,3) by force
  qed
  have ends: "ts_end c = ?till (ts_id c)" if mem: "c \<in> set ?out" for c
  proof -
    obtain e' where e': "c = place_entry spans t a e'" "e' \<in> set visited" using mem unfolding set_map by (rule imageE)
    obtain u where "map_of (spans_by_id spans) (fst e') = Some u" "ts_id (place_entry spans t a e') = fst e'"
      "ts_start (place_entry spans t a e') = ts_start u" "ts_duration (place_entry spans t a e') = ts_duration u"
      by (rule place_entry_fields [OF w e'(2), of a]) (rule that; assumption)
    then show ?thesis by (simp add: e'(1) end_of_def)
  qed
  have "sorted (map (\<lambda>k. - ?till k) (sort_key (\<lambda>k. - ?till k) (node_children t (fst e))))" by (rule sorted_sort_key)
  then have "sorted_wrt (\<lambda>a b. ?till b \<le> ?till a) (ts_child_ids (place_entry spans t a e))"
    unfolding s0(8) sorted_map by simp
  then have order: "sorted_wrt (\<lambda>x y. \<forall>s \<in> set ?out. \<forall>u \<in> set ?out. ts_id s = x \<and> ts_id u = y \<longrightarrow> ts_end u \<le> ts_end s)
      (ts_child_ids (place_entry spans t a e))"
    by (rule sorted_wrt_mono_rel [rotated]) (simp add: ends)
  have "span_given s0" "ts_start s0 \<noteq> 0" using given s0(1) by auto
  then show ?thesis
    using s0 kids order walkedD(4) [OF w, of "fst e"] length_sort [of "\<lambda>k. - ?till k" "node_children t (fst e)"]
    unfolding span_ok_def span_given_def by (auto simp del: length_sort)
qed

text \<open>Each entry comes after the one of its parent, one level below.\<close>

lemma placed_depth:
  assumes w: "walked spans t visited" and i: "i < length visited"
    and p: "parent_id (place_entry spans t a (visited ! i)) = Some p" "p \<in> fst ` set visited"
  shows "\<exists>j < i. fst (visited ! j) = p \<and> snd (visited ! i) - 1 = Suc (snd (visited ! j) - 1) \<and>
    (\<forall>l. j < l \<and> l < i \<longrightarrow> snd (visited ! j) - 1 < snd (visited ! l) - 1)"
proof -
  let ?e = "visited ! i"
  obtain s where s: "s \<in> set spans" "ts_id s = fst ?e" "parent_id (place_entry spans t a ?e) = parent_id s"
    by (rule place_entry_fields [OF w nth_mem [OF i], of a]) (rule that; assumption)
  have "\<not> top_span spans s" using p s(3) walkedD(3) [OF w] by (auto simp: top_span_def)
  then obtain xs q ys where q: "take i visited = xs @ q # ys" "parent_id s = Some (fst q)" "snd ?e = Suc (snd q)" "\<forall>y \<in> set ys. snd q < snd y"
    using walked_between [OF w id_take_nth_drop [OF i] s(1,2)] by blast
  have at: "visited ! l = (xs @ q # ys) ! l" if "l < i" for l using nth_take [OF that, of visited] q(1) by simp
  have len: "length (xs @ q # ys) = i" using q(1) i by (metis length_take min.absorb2 order.strict_implies_order)
  then have j: "length xs < i" "visited ! length xs = q" using at by simp_all
  have later: "snd q < snd (visited ! l)" if "length xs < l" "l < i" for l
  proof -
    have "visited ! l = ys ! (l - Suc (length xs))" using at [OF that(2)] that(1) by (simp add: nth_append nth_Cons')
    moreover have "l - Suc (length xs) < length ys" using len that by simp
    ultimately show ?thesis using q(4) by simp
  qed
  have "0 < snd q" using walked_positive [OF w nth_mem, of "length xs"] i j by simp
  moreover have "p = fst q" using p(1) s(3) q(2) by simp
  ultimately show ?thesis using q(3) j later by (intro exI [of _ "length xs"]) (auto intro!: diff_less_mono)
qed

lemma placed_top:
  assumes w: "walked spans t visited" and e: "e \<in> set visited"
    and p: "\<And>p. parent_id (place_entry spans t a e) = Some p \<Longrightarrow> p \<notin> fst ` set visited"
  shows "snd e = 1"
proof -
  obtain s where s: "s \<in> set spans" "ts_id s = fst e" "parent_id (place_entry spans t a e) = parent_id s"
    by (rule place_entry_fields [OF w e, of a]) (rule that; assumption)
  obtain us vs where at: "visited = us @ e # vs" using split_list [OF e] by blast
  from walked_before [OF w at s(1,2)] show ?thesis using p s(3) at by auto
qed

lemma placed_ok:
  assumes w: "walked spans t visited" and given: "\<forall>s \<in> set spans. span_given s \<and> ts_start s \<noteq> 0"
  shows "trace_ok (map (place_entry spans t a) visited)"
proof -
  let ?out = "map (place_entry spans t a) visited"
  have ids: "ts_id ` set ?out = fst ` set visited" using placed_ids [OF w, of a] by (metis set_map)
  have entry: "ts_id (place_entry spans t a e) = fst e" "ts_depth (place_entry spans t a e) = snd e - 1" if "e \<in> set visited" for e
    by (rule place_entry_fields [OF w that, of a], assumption)+
  show ?thesis
    unfolding trace_ok_def
  proof (intro conjI allI ballI impI)
    show "distinct (map ts_id ?out)" unfolding placed_ids [OF w] by (rule walkedD(2) [OF w])
    show "span_ok ?out s" if "s \<in> set ?out" for s using that place_entry_ok [OF w given] by auto
    show "\<exists>j < i. ts_id (?out ! j) = p \<and> ts_depth (?out ! i) = Suc (ts_depth (?out ! j)) \<and>
        (\<forall>l. j < l \<and> l < i \<longrightarrow> ts_depth (?out ! j) < ts_depth (?out ! l))"
      if i: "i < length ?out" and p: "parent_id (?out ! i) = Some p \<and> p \<in> ts_id ` set ?out" for i p
    proof -
      have i': "i < length visited" using i by simp
      obtain j where j: "j < i" "fst (visited ! j) = p" "snd (visited ! i) - 1 = Suc (snd (visited ! j) - 1)"
        "\<And>l. j < l \<Longrightarrow> l < i \<Longrightarrow> snd (visited ! j) - 1 < snd (visited ! l) - 1"
        using placed_depth [OF w i', of a p] p i' unfolding ids by auto
      then show ?thesis using entry nth_mem i' by (intro exI [of _ j]) simp
    qed
    show "ts_depth s = 0" if "s \<in> set ?out" "\<forall>p. parent_id s = Some p \<longrightarrow> p \<notin> ts_id ` set ?out" for s
    proof -
      obtain e where e: "s = place_entry spans t a e" "e \<in> set visited" using \<open>s \<in> set ?out\<close> unfolding set_map by (rule imageE)
      then have "snd e = 1" using placed_top [OF w e(2), of a] that(2) unfolding ids by simp
      then show ?thesis using entry(2) e by simp
    qed
  qed
qed

lemma transform_run:
  assumes "distinct (map ts_id data)" and "\<forall>s \<in> set data. span_given s" and "length data \<le> n"
  shows "\<exists>tr. transform_trace_data n data = Inr (Some tr) \<and> trace_ok (tr_spans tr) \<and>
    ts_id ` set (tr_spans tr) = {k. rooted (filter (\<lambda>s. ts_start s \<noteq> 0) data) k} \<and>
    (\<forall>s \<in> set (tr_spans tr). 0 \<le> ts_relative_start s \<and> ts_relative_start s + ts_duration s \<le> tr_duration tr \<and>
       (\<exists>s0 \<in> set data. ts_id s = ts_id s0 \<and> ts_start s = ts_start s0 \<and> ts_duration s = ts_duration s0 \<and> ts_refs s = ts_refs s0))"
proof -
  define spans where "spans = filter (\<lambda>s. ts_start s \<noteq> 0) data"
  let ?ids = "ts_id ` set spans" and ?a = "trace_start spans"
  have d: "distinct (map ts_id spans)" using assms(1) by (simp add: spans_def distinct_map_filter)
  have given: "\<forall>s \<in> set spans. span_given s \<and> ts_start s \<noteq> 0" using assms(2) by (simp add: spans_def)
  then have refs: "\<forall>s \<in> set spans. \<forall>ref \<in> set (take 1 (ts_refs s)). fst ref \<noteq> EXTERNAL" by (auto simp: span_given_def)
  have root: "tree_root_id \<notin> ?ids" using given by (auto simp: span_given_def)
  obtain t where t: "span_ids_as_tree spans (spans_by_id spans) = Inr t"
    "sn_root t = sort_key (start_of (spans_by_id spans)) (map ts_id (filter (top_span spans) spans))"
    "\<And>k. node_children t k = (if k \<in> ?ids then sort_key (start_of (spans_by_id spans)) (map ts_id (filter (\<lambda>s. parent_id s = Some k) spans)) else [])"
    using span_ids_as_tree_run [OF refs, of "spans_by_id spans"] by blast
  have F: "forest ?ids t" by (rule span_tree_forest [OF d t(2,3)])
  have "card ?ids \<le> length spans" using card_length [of "map ts_id spans"] by simp
  also have "\<dots> \<le> n" using assms(3) length_filter_le [of _ data] unfolding spans_def by (rule order.trans [rotated])
  finally obtain visited where run: "walk_loop n t (map (\<lambda>c. (c, 1)) (sn_root t)) = Some visited" "walk_inv ?ids t visited []"
    using walk_loop_run [OF F walk_inv_start [OF F], of n] by auto
  have w: "walked spans t visited"
    unfolding walked_def using d run(2) forestD(4) [OF F] by (auto simp: t(2,3))
  let ?out = "map (place_entry spans t ?a) visited"
  let ?tr = "\<lparr>tr_spans = ?out, tr_start = ?a, tr_end = trace_end spans, tr_duration = trace_end spans - ?a\<rparr>"
  have "unique_ids [] spans = spans" by (rule unique_ids_same [OF d]) simp
  then have "transform_trace_data n data = Inr (Some ?tr)"
    unfolding transform_trace_data_def spans_def [symmetric] by (simp add: t(1) run(1) [unfolded One_nat_def] placed_entries [OF w root] Let_def)
  moreover have "trace_ok (tr_spans ?tr)" using placed_ok [OF w given] by simp
  moreover have "ts_id ` set (tr_spans ?tr) = {k. rooted spans k}"
    using placed_ids [OF w, of ?a] walked_rooted [OF w] unfolding trace.select_convs by (metis set_map)
  moreover have "0 \<le> ts_relative_start s \<and> ts_relative_start s + ts_duration s \<le> tr_duration ?tr \<and>
       (\<exists>s0 \<in> set data. ts_id s = ts_id s0 \<and> ts_start s = ts_start s0 \<and> ts_duration s = ts_duration s0 \<and> ts_refs s = ts_refs s0)"
    if mem: "s \<in> set (tr_spans ?tr)" for s
  proof -
    obtain e where e: "s = place_entry spans t ?a e" "e \<in> set visited" using mem unfolding trace.select_convs set_map by (rule imageE)
    obtain s0 where s0: "s0 \<in> set spans" "ts_id s0 = fst e" "ts_id s = fst e" "ts_start s = ts_start s0" "ts_duration s = ts_duration s0"
      "ts_refs s = ts_refs s0" "ts_relative_start s = ts_start s0 - ?a"
      by (rule place_entry_fields [OF w e(2), of ?a, folded e(1)]) (rule that; assumption)
    moreover have "s0 \<in> set data" using s0(1) by (simp add: spans_def)
    ultimately show ?thesis using trace_start_le [OF s0(1)] trace_end_ge [OF s0(1)] by (intro conjI bexI [of _ s0]) simp_all
  qed
  ultimately show ?thesis unfolding spans_def by blast
qed

text \<open>
  C37. Spans with identifiers of their own, whose first references name a parent or are missing, become a well-formed
  trace: it has the spans from which going from parent to parent comes to an end, each once and with its times and
  references, parents before children and one level above them, children by descending end, and all of them within the
  time of the trace. Spans without a start are left out; as many steps as there are spans are enough.
\<close>

theorem transform_trace_ok:
  assumes "distinct (map ts_id data)" and "\<forall>s \<in> set data. span_given s" and "length data \<le> n"
  shows "\<exists>tr. transform_trace_data n data = Inr (Some tr) \<and> trace_ok (tr_spans tr) \<and>
    ts_id ` set (tr_spans tr) = {k. rooted (filter (\<lambda>s. ts_start s \<noteq> 0) data) k} \<and>
    (\<forall>s \<in> set (tr_spans tr). 0 \<le> ts_relative_start s \<and> ts_relative_start s + ts_duration s \<le> tr_duration tr \<and>
       (\<exists>s0 \<in> set data. ts_id s = ts_id s0 \<and> ts_start s = ts_start s0 \<and> ts_duration s = ts_duration s0 \<and> ts_refs s = ts_refs s0))"
  by (rule transform_run [OF assms])

definition shop_trace :: "trace_span list" where
  "shop_trace =
     [\<lparr>ts_id = ''a'', ts_start = 10, ts_duration = 50, ts_refs = [], ts_depth = 0, ts_has_children = False, ts_child_ids = [], ts_relative_start = 0\<rparr>,
      \<lparr>ts_id = ''c'', ts_start = 45, ts_duration = 30, ts_refs = [(CHILD_OF, ''a'')], ts_depth = 0, ts_has_children = False, ts_child_ids = [], ts_relative_start = 0\<rparr>,
      \<lparr>ts_id = ''b'', ts_start = 20, ts_duration = 20, ts_refs = [(CHILD_OF, ''a'')], ts_depth = 0, ts_has_children = False, ts_child_ids = [], ts_relative_start = 0\<rparr>,
      \<lparr>ts_id = ''d'', ts_start = 30, ts_duration = 40, ts_refs = [(FOLLOWS_FROM, ''b'')], ts_depth = 0, ts_has_children = False, ts_child_ids = [], ts_relative_start = 0\<rparr>]"

lemma shop_trace_given: "distinct (map ts_id shop_trace)" "\<forall>s \<in> set shop_trace. span_given s" "length shop_trace \<le> 8"
  by (simp_all add: shop_trace_def span_given_def tree_root_id_def)

theorem transform_trace_ok_witness:
  "\<exists>tr. transform_trace_data 8 shop_trace = Inr (Some tr) \<and> trace_ok (tr_spans tr)"
  using transform_trace_ok [OF shop_trace_given] by blast

text \<open>
  Renamed identifiers can meet others: of three spans named \<open>a\<close>, \<open>a\<close> and \<open>a_1\<close>, two are named \<open>a_1\<close> afterwards.
\<close>

lemma renamed_ids_collide:
  "\<exists>spans. \<not> distinct (map ts_id (unique_ids [] spans))"
proof -
  let ?s = "\<lambda>i. \<lparr>ts_id = i, ts_start = 1, ts_duration = 1, ts_refs = [], ts_depth = 0, ts_has_children = False, ts_child_ids = [], ts_relative_start = 0\<rparr>"
  have "\<not> distinct (map ts_id (unique_ids [] [?s ''a'', ?s ''a'', ?s ''a_1'']))" by code_simp
  then show ?thesis by blast
qed

end
