(* ===== verification/Trace_Critical.thy ===== *)
theory Trace_Critical
  imports Trace_Sanitize Trace_Build
begin

text \<open>
  The critical path of a well-formed trace: the stages of the source put together.
\<close>

section \<open>The end of the loop\<close>

lemma cut_inv_start: "linked_map m \<Longrightarrow> cut_inv m {} m"
  unfolding cut_inv_def entry_cut_def time_cut_def same_links_def same_time_def
  by (auto dest: linkedD(2) linkedD(3) intro!: filter_True [symmetric])

definition parents_first :: "span_map \<Rightarrow> bool" where
  "parents_first m \<longleftrightarrow>
     (\<forall>us k vs s p. map fst m = us @ k # vs \<and> map_of m k = Some s \<and> parent_id s = Some p \<and> map_of m p \<noteq> None \<longrightarrow> p \<in> set us)"

lemma parents_firstD:
  "parents_first m \<Longrightarrow> map fst m = us @ k # vs \<Longrightarrow> map_of m k = Some s \<Longrightarrow> parent_id s = Some p \<Longrightarrow> map_of m p \<noteq> None \<Longrightarrow> p \<in> set us"
  unfolding parents_first_def by blast

lemma sanitize_loop:
  assumes "linked_map m0" and "parents_first m0"
  shows "map fst m0 = us @ ks \<Longrightarrow> cut_inv m0 (set us) m \<Longrightarrow> cut_inv m0 (set (us @ ks)) (fold sanitize_span ks m)"
proof (induction ks arbitrary: us m)
  case (Cons k ks)
  have "distinct (us @ k # ks)" using assms(1) Cons.prems(1) by (simp add: linked_map_def)
  then have k: "k \<notin> set us" by simp
  obtain s0 where s0: "map_of m0 k = Some s0"
    using Cons.prems(1) by (cases "map_of m0 k") (auto simp: map_of_eq_None_iff simp flip: set_map)
  have closed: "q \<in> set us" if mem: "j \<in> set us" and look: "map_of m0 j = Some t0" "parent_id t0 = Some q" "map_of m0 q \<noteq> None" for j t0 q
  proof -
    obtain xs ys where "us = xs @ j # ys" using split_list [OF mem] by blast
    with parents_firstD [OF assms(2) _ look] Cons.prems(1) show ?thesis by (metis Un_iff append.assoc append_Cons set_append)
  qed
  have "cut_inv m0 (insert k (set us)) (sanitize_span k m)"
    by (rule sanitize_step [OF assms(1) Cons.prems(2) k s0 parents_firstD [OF assms(2) Cons.prems(1) s0] closed])
  with Cons.IH [of "us @ [k]" "sanitize_span k m"] Cons.prems(1) show ?case by simp
qed simp

lemma sanitized:
  assumes "linked_map m" and "parents_first m"
  shows "cut_inv m (set (map fst m)) (sanitize_children m)"
  using sanitize_loop [OF assms, of "[]" "map fst m"] cut_inv_start [OF assms(1)] by (simp add: sanitize_children_def)

section \<open>The spans that are kept\<close>

lemma kept_parent:
  assumes ok: "trace_ok spans" and "c \<in> set spans" and "kept spans (ts_id c)" and "parent_id c = Some p" and "p \<in> ts_id ` set spans"
  shows "kept spans p"
proof -
  let ?m = "map (\<lambda>s. (ts_id s, without_children (set (follow_ids spans)) s)) spans"
  obtain s where s: "s \<in> set spans" "ts_id s = p" using assms(5) by auto
  have "ts_id c \<in> set (ts_child_ids s)" using trace_okD(2) [OF ok s(1)] s(2) assms(2,4) by (auto simp: span_ok_def)
  moreover have "map_of ?m p = map_option (without_children (set (follow_ids spans))) (map_of (map (\<lambda>s. (ts_id s, s)) spans) p)"
    by (rule map_of_ids)
  moreover have "map_of (map (\<lambda>s. (ts_id s, s)) spans) p = Some s" using map_of_spans [OF trace_okD(1) [OF ok]] s by simp
  ultimately have child: "child_in ?m p (ts_id c)" using assms(3) by (auto simp: child_in_def kept_def)
  have "p \<notin> set (follow_ids spans)" using assms(3) child unfolding kept_def by blast
  moreover have "\<not> (child_in ?m)\<^sup>+\<^sup>+ f p" if "f \<in> set (follow_ids spans)" for f
  proof
    assume "(child_in ?m)\<^sup>+\<^sup>+ f p"
    then have "(child_in ?m)\<^sup>+\<^sup>+ f (ts_id c)" using child by (rule tranclp.trancl_into_trancl)
    then show False using assms(3) that unfolding kept_def by blast
  qed
  ultimately show ?thesis using assms(5) unfolding kept_def by blast
qed

definition child_map :: "trace_span list \<Rightarrow> span_map \<Rightarrow> bool" where
  "child_map spans m \<longleftrightarrow> map fst m = filter (kept spans) (map ts_id spans) \<and>
     (\<forall>k. map_of m k = (if kept spans k then map_option (without_children (set (follow_ids spans))) (map_of (map (\<lambda>s. (ts_id s, s)) spans) k) else None))"

lemma child_map_Some:
  assumes "trace_ok spans" and "child_map spans m"
  shows "map_of m k = Some s \<longleftrightarrow> kept spans k \<and> (\<exists>s0 \<in> set spans. ts_id s0 = k \<and> s = without_children (set (follow_ids spans)) s0)"
  using assms(2) map_of_spans [OF trace_okD(1) [OF assms(1)]] unfolding child_map_def by (auto split: if_splits)

lemma parent_id_without [simp]: "parent_id (without_children F s) = parent_id s"
  by (simp add: parent_id_def)

lemma child_map_None:
  assumes "trace_ok spans" and "child_map spans m"
  shows "map_of m k \<noteq> None \<longleftrightarrow> kept spans k"
proof -
  have "map_of (map (\<lambda>s. (ts_id s, s)) spans) k \<noteq> None" if "kept spans k"
    using that map_of_spans_None [of spans k] unfolding kept_def by blast
  then show ?thesis using assms(2) unfolding child_map_def by auto
qed

lemma not_follow: "trace_ok spans \<Longrightarrow> c \<in> set spans \<Longrightarrow> kept spans (ts_id c) \<Longrightarrow> \<not> follows c"
  by (auto simp: kept_def follow_ids_def)

lemma child_map_linked:
  assumes ok: "trace_ok spans" and m: "child_map spans m"
  shows "linked_map m"
proof -
  note look = child_map_Some [OF ok m] and alive = child_map_None [OF ok m]
  have "distinct (map fst m)" using m trace_okD(1) [OF ok] by (simp add: child_map_def)
  moreover have "ts_id s = k \<and> 0 \<le> ts_duration s \<and>
        (\<forall>c. c \<in> set (ts_child_ids s) \<longleftrightarrow> (\<exists>t. map_of m c = Some t \<and> parent_id t = Some k)) \<and>
        (\<forall>p. parent_id s = Some p \<and> map_of m p \<noteq> None \<longrightarrow> ts_depth s \<noteq> 0) \<and>
        (ts_depth s \<noteq> 0 \<longrightarrow> (\<exists>p. parent_id s = Some p \<and> map_of m p \<noteq> None))"
    if entry: "map_of m k = Some s" for k s
  proof -
    obtain s0 where s0: "s0 \<in> set spans" "ts_id s0 = k" "s = without_children (set (follow_ids spans)) s0" and keep: "kept spans k"
      using entry look by blast
    have ok0: "span_ok spans s0" by (rule trace_okD(2) [OF ok s0(1)])
    have kids: "c \<in> set (ts_child_ids s) \<longleftrightarrow> (\<exists>t. map_of m c = Some t \<and> parent_id t = Some k)" for c
    proof
      assume "c \<in> set (ts_child_ids s)"
      then have c: "c \<in> set (ts_child_ids s0)" "c \<notin> set (follow_ids spans)" using s0(3) by auto
      obtain t0 where t0: "t0 \<in> set spans" "ts_id t0 = c" "parent_id t0 = Some k" using child_span [OF ok s0(1) c(1)] s0(2) by metis
      have "\<not> follows t0" using c(2) t0 by (auto simp: follow_ids_def)
      then have "kept spans c" using kept_child [OF ok s0(1) _ t0(1)] s0(2) t0 keep by auto
      then show "\<exists>t. map_of m c = Some t \<and> parent_id t = Some k" using t0 look by auto
    next
      assume "\<exists>t. map_of m c = Some t \<and> parent_id t = Some k"
      then obtain t0 where t0: "t0 \<in> set spans" "ts_id t0 = c" "parent_id t0 = Some k" "kept spans c" using look by auto
      then have "c \<in> set (ts_child_ids s0)" using ok0 s0(2) by (auto simp: span_ok_def)
      then show "c \<in> set (ts_child_ids s)" using t0(4) s0(3) by (simp add: kept_def)
    qed
    have up: "ts_depth s \<noteq> 0" if "parent_id s = Some p" "map_of m p \<noteq> None" for p
    proof -
      have "p \<in> ts_id ` set spans" using that(2) alive by (auto simp: kept_def)
      with parent_span [OF ok s0(1)] that(1) s0(3) show ?thesis by fastforce
    qed
    have down: "\<exists>p. parent_id s = Some p \<and> map_of m p \<noteq> None" if deep: "ts_depth s \<noteq> 0"
    proof -
      obtain p where p: "parent_id s0 = Some p" "p \<in> ts_id ` set spans" using trace_okD(4) [OF ok s0(1)] deep s0(3) by auto
      have "kept spans p" by (rule kept_parent [OF ok s0(1) _ p]) (use keep s0(2) in simp)
      then show ?thesis using p(1) s0(3) alive by auto
    qed
    show ?thesis using kids up down s0 ok0 by (auto simp: span_ok_def)
  qed
  ultimately show ?thesis unfolding linked_map_def by blast
qed

lemma child_map_order:
  assumes ok: "trace_ok spans" and m: "child_map spans m"
  shows "parents_first m"
  unfolding parents_first_def
proof (intro allI impI)
  fix us k vs s p assume a: "map fst m = us @ k # vs \<and> map_of m k = Some s \<and> parent_id s = Some p \<and> map_of m p \<noteq> None"
  obtain s0 where s0: "s0 \<in> set spans" "ts_id s0 = k" "parent_id s0 = Some p" using a child_map_Some [OF ok m] by auto
  have p: "kept spans p" using a child_map_None [OF ok m] by blast
  then have mem: "p \<in> ts_id ` set spans" by (auto simp: kept_def)
  with parent_span [OF ok s0(1,3)] s0(2) have less: "place spans p < place spans k" by auto
  have "sorted_wrt (\<lambda>a b. place spans a < place spans b) (map ts_id spans)"
    unfolding sorted_wrt_map sorted_wrt_iff_nth_less using place_nth [OF trace_okD(1) [OF ok]] by auto
  then have "sorted_wrt (\<lambda>a b. place spans a < place spans b) (us @ k # vs)"
    using a m unfolding child_map_def by (metis sorted_wrt_filter)
  then have "\<forall>v \<in> set vs. place spans k < place spans v" by (auto simp: sorted_wrt_append)
  moreover have "p \<in> set (us @ k # vs)"
  proof -
    have "p \<in> set (filter (kept spans) (map ts_id spans))" using p mem by simp
    then show ?thesis using a m unfolding child_map_def by metis
  qed
  ultimately show "p \<in> set us" using less by auto
qed

section \<open>The tree that is left\<close>

fun tree_at :: "nat \<Rightarrow> span_map \<Rightarrow> string \<Rightarrow> span_tree" where
  "tree_at 0 m k = Span_Tree k 0 0 []"
| "tree_at (Suc n) m k =
     (let s = the (map_of m k) in Span_Tree k (ts_start s) (ts_end s) (map (tree_at n m) (ts_child_ids s)))"

lemma tree_at_id [simp]: "st_id (tree_at n m k) = k"
  by (cases n) (simp_all add: Let_def)

text \<open>What the two stages leave, in one place.\<close>

definition cut_map :: "trace_span list \<Rightarrow> span_map \<Rightarrow> bool" where
  "cut_map spans m \<longleftrightarrow> (\<exists>m0. child_map spans m0 \<and> cut_inv m0 (set (map fst m0)) m)"

lemma cut_map_entry:
  assumes ok: "trace_ok spans" and m: "cut_map spans m" and "map_of m k = Some s"
  obtains s0 where "s0 \<in> set spans" "ts_id s0 = k" "ts_id s = k" "ts_refs s = ts_refs s0" "ts_depth s = ts_depth s0" "kept spans k"
    "0 \<le> ts_duration s" "ts_start s0 \<le> ts_start s" "ts_end s \<le> ts_end s0"
    "ts_child_ids s = filter (\<lambda>c. map_of m c \<noteq> None) (ts_child_ids s0)"
    "\<And>p. parent_id s0 = Some p \<Longrightarrow> p \<in> ts_id ` set spans \<Longrightarrow> \<exists>parent. map_of m p = Some parent \<and> same_time s (cut_to parent s0)"
    "(\<And>p. parent_id s0 = Some p \<Longrightarrow> p \<notin> ts_id ` set spans) \<Longrightarrow> same_time s s0"
proof -
  obtain m0 where m0: "child_map spans m0" "cut_inv m0 (set (map fst m0)) m" using m by (auto simp: cut_map_def)
  note look = child_map_Some [OF ok m0(1)] and alive = child_map_None [OF ok m0(1)]
  obtain t where t: "map_of m0 k = Some t" "entry_cut m0 (set (map fst m0)) m t s" using cut_invD(2) [OF m0(2) assms(3)] by blast
  obtain s0 where s0: "s0 \<in> set spans" "ts_id s0 = k" "t = without_children (set (follow_ids spans)) s0" "kept spans k"
    using t(1) look by blast
  have turn: "k \<in> set (map fst m0)" using t(1) by (metis domI dom_map_of_conv_image_fst set_map)
  have time: "time_cut m (set (map fst m0)) t s" using t(2) by (simp add: entry_cut_def)
  have "\<exists>parent. map_of m p = Some parent \<and> same_time s (cut_to parent s0)" if "parent_id s0 = Some p" "p \<in> ts_id ` set spans" for p
  proof -
    have "ts_depth t \<noteq> 0" using parent_span [OF ok s0(1) that] s0(3) by auto
    then show ?thesis using time turn that(1) s0(2,3) by (auto simp: time_cut_def cut_to_def same_time_def)
  qed
  moreover have same: "same_time s s0" if "\<And>p. parent_id s0 = Some p \<Longrightarrow> p \<notin> ts_id ` set spans"
  proof -
    have "ts_depth t = 0" using trace_okD(4) [OF ok s0(1) that] s0(3) by simp
    then show ?thesis using time s0(3) by (simp add: time_cut_def same_time_def)
  qed
  moreover have "ts_start s0 \<le> ts_start s \<and> ts_end s \<le> ts_end s0"
    using time s0(3) by (auto simp: time_cut_def same_time_def cut_to_def split: if_splits)
  moreover have "ts_child_ids s = filter (\<lambda>c. map_of m c \<noteq> None) (ts_child_ids s0)"
  proof -
    have "ts_child_ids s = filter (\<lambda>c. map_of m c \<noteq> None) (filter (\<lambda>c. c \<notin> set (follow_ids spans)) (ts_child_ids s0))"
      using t(2) s0(3) by (simp add: entry_cut_def without_children_def)
    also have "\<dots> = filter (\<lambda>c. map_of m c \<noteq> None) (ts_child_ids s0)"
      unfolding filter_filter
    proof (rule filter_cong [OF refl])
      fix c
      have "c \<notin> set (follow_ids spans)" if gone: "map_of m c \<noteq> None"
      proof -
        obtain u where "map_of m0 c = Some u" using cut_invD(2) [OF m0(2)] gone by blast
        then show ?thesis using alive by (auto simp: kept_def)
      qed
      then show "(c \<notin> set (follow_ids spans) \<and> map_of m c \<noteq> None) = (map_of m c \<noteq> None)" by blast
    qed
    finally show ?thesis .
  qed
  moreover have "same_links s t" "0 \<le> ts_duration s" using t(2) by (simp_all add: entry_cut_def)
  ultimately show thesis using that [OF s0(1,2)] s0 by (simp add: same_links_def)
qed

text \<open>A span of the trace that is not cut away entirely is still there.\<close>

lemma cut_map_alive:
  assumes ok: "trace_ok spans" and m: "cut_map spans m" and "s0 \<in> set spans" and "kept spans (ts_id s0)"
    and "\<And>p. parent_id s0 = Some p \<Longrightarrow> p \<in> ts_id ` set spans \<Longrightarrow> \<exists>parent. map_of m p = Some parent \<and> overlaps parent s0"
  shows "map_of m (ts_id s0) \<noteq> None"
proof -
  obtain m0 where m0: "child_map spans m0" "cut_inv m0 (set (map fst m0)) m" using m by (auto simp: cut_map_def)
  let ?t = "without_children (set (follow_ids spans)) s0"
  have t: "map_of m0 (ts_id s0) = Some ?t" using child_map_Some [OF ok m0(1)] assms(3,4) by blast
  have turn: "ts_id s0 \<in> set (map fst m0)" using t by (metis domI dom_map_of_conv_image_fst set_map)
  show ?thesis
  proof (cases "ts_depth s0 = 0")
    case True
    then show ?thesis using cut_invD(3) [OF m0(2) turn t] by simp
  next
    case False
    then obtain p where p: "parent_id s0 = Some p" "p \<in> ts_id ` set spans" using trace_okD(4) [OF ok assms(3)] by auto
    obtain parent where "map_of m p = Some parent" "overlaps parent s0" using assms(5) [OF p] by blast
    then show ?thesis using cut_invD(3) [OF m0(2) turn t, of p parent] p(1) by (simp add: overlaps_def)
  qed
qed

lemma cut_map_kid:
  assumes ok: "trace_ok spans" and m: "cut_map spans m" and k: "map_of m k = Some s" and c: "c \<in> set (ts_child_ids s)"
  obtains t t0 refs where "map_of m c = Some t" "t0 \<in> set spans" "ts_id t0 = c" "parent_id t0 = Some k" "same_time t (cut_to s t0)"
    "ts_refs t = (CHILD_OF, k) # refs" "ts_depth t = Suc (ts_depth s)" "place spans k < place spans c"
proof -
  obtain s0 where s0: "s0 \<in> set spans" "ts_id s0 = k" "ts_child_ids s = filter (\<lambda>c. map_of m c \<noteq> None) (ts_child_ids s0)" "ts_depth s = ts_depth s0"
    by (rule cut_map_entry [OF ok m k]) (rule that; assumption)
  have c0: "c \<in> set (ts_child_ids s0)" "map_of m c \<noteq> None" using c s0(3) by auto
  obtain t where t: "map_of m c = Some t" using c0(2) by blast
  obtain t0 where t0: "t0 \<in> set spans" "ts_id t0 = c" "parent_id t0 = Some k" "ts_depth t0 = Suc (ts_depth s)" "place spans k < place spans c"
    using child_span [OF ok s0(1) c0(1)] s0(2,4) by metis
  obtain u0 where u0: "u0 \<in> set spans" "ts_id u0 = c" "ts_refs t = ts_refs u0" "ts_depth t = ts_depth u0" "kept spans c"
    "\<And>p. parent_id u0 = Some p \<Longrightarrow> p \<in> ts_id ` set spans \<Longrightarrow> \<exists>parent. map_of m p = Some parent \<and> same_time t (cut_to parent u0)"
    by (rule cut_map_entry [OF ok m t]) (rule that; assumption)
  have same: "u0 = t0" using span_eq [OF ok u0(1) t0(1)] u0(2) t0(2) by simp
  have "k \<in> ts_id ` set spans" using s0 by auto
  then have time: "same_time t (cut_to s t0)" using u0(6) [of k] t0(3) k same by auto
  obtain type refs where refs: "ts_refs t0 = (type, k) # refs" using t0(3) by (auto simp: parent_id_def split: list.splits)
  have "\<not> follows t0" using not_follow [OF ok t0(1)] u0(5) t0(2) by simp
  moreover have "type \<noteq> EXTERNAL" using trace_okD(2) [OF ok t0(1)] refs by (simp add: span_ok_def)
  ultimately have "type = CHILD_OF" using refs by (cases type) (simp_all add: follows_def)
  then show thesis using that [OF t t0(1-3) time _ _ t0(5)] u0(3,4) same refs t0(4) by simp
qed

lemma tree_at_represents:
  assumes ok: "trace_ok spans" and m: "cut_map spans m"
  shows "map_of m k = Some s \<Longrightarrow> length spans \<le> place spans k + n \<Longrightarrow> represents m (tree_at n m k)"
proof (induction n arbitrary: k s)
  case 0
  obtain s0 where "s0 \<in> set spans" "ts_id s0 = k" by (rule cut_map_entry [OF ok m 0(1)]) (rule that; assumption)
  then have "place spans k < length spans" using place_less [OF trace_okD(1) [OF ok]] by auto
  with 0 show ?case by simp
next
  case (Suc n)
  obtain s0 where s0: "s0 \<in> set spans" "ts_id s0 = k" "ts_id s = k" "ts_start s0 \<le> ts_start s" "0 \<le> ts_duration s"
    by (rule cut_map_entry [OF ok m Suc.prems(1)]) (rule that; assumption)
  have "k \<noteq> []" "0 < ts_start s0" using trace_okD(2) [OF ok s0(1)] s0(2) by (auto simp: span_ok_def)
  moreover have "represents m (tree_at n m c) \<and>
      (\<exists>s type refs. map_of m c = Some s \<and> ts_refs s \<noteq> [] \<and> filter (\<lambda>ref. fst ref = CHILD_OF) (ts_refs s) = (type, k) # refs)"
    if c: "c \<in> set (ts_child_ids s)" for c
  proof -
    obtain t t0 refs where t: "map_of m c = Some t" "ts_refs t = (CHILD_OF, k) # refs" "place spans k < place spans c"
      by (rule cut_map_kid [OF ok m Suc.prems(1) c]) (rule that; assumption)
    have "represents m (tree_at n m c)" by (rule Suc.IH [OF t(1)]) (use Suc.prems(2) t(3) in simp)
    then show ?thesis using t by auto
  qed
  ultimately show ?case using Suc.prems(1) s0 by (simp add: represents.simps Let_def comp_def)
qed

lemma tree_at_fits:
  assumes ok: "trace_ok spans" and m: "cut_map spans m"
  shows "map_of m k = Some s \<Longrightarrow> length spans \<le> place spans k + n \<Longrightarrow> t \<in> set (tree_spans (tree_at n m k)) \<Longrightarrow>
    fits t \<and> (\<exists>j u. map_of m j = Some u \<and> st_id t = j \<and> st_from t = ts_start u \<and> st_to t = ts_end u \<and>
      map st_id (st_kids t) = ts_child_ids u \<and> (\<forall>c \<in> set (st_kids t). \<exists>v. map_of m (st_id c) = Some v \<and> st_to c = ts_end v))"
proof (induction n arbitrary: k s)
  case 0
  obtain s0 where "s0 \<in> set spans" "ts_id s0 = k" by (rule cut_map_entry [OF ok m 0(1)]) (rule that; assumption)
  then have "place spans k < length spans" using place_less [OF trace_okD(1) [OF ok]] by auto
  with 0 show ?case by simp
next
  case (Suc n)
  obtain s0 where s0: "s0 \<in> set spans" "ts_id s0 = k" "0 \<le> ts_duration s"
    "ts_child_ids s = filter (\<lambda>c. map_of m c \<noteq> None) (ts_child_ids s0)"
    by (rule cut_map_entry [OF ok m Suc.prems(1)]) (rule that; assumption)
  have kid: "\<exists>v t0. map_of m c = Some v \<and> t0 \<in> set spans \<and> ts_id t0 = c \<and> same_time v (cut_to s t0) \<and> length spans \<le> place spans c + n"
    if c: "c \<in> set (ts_child_ids s)" for c
  proof -
    obtain v t0 refs where v: "map_of m c = Some v" "t0 \<in> set spans" "ts_id t0 = c" "same_time v (cut_to s t0)" "place spans k < place spans c"
      by (rule cut_map_kid [OF ok m Suc.prems(1) c])
    moreover have "length spans \<le> place spans c + n" using Suc.prems(2) v(5) by simp
    ultimately show ?thesis by blast
  qed
  have ends: "st_from (tree_at n m c) = ts_start v" "st_to (tree_at n m c) = ts_end v" if "map_of m c = Some v" "length spans \<le> place spans c + n" for c v
    using tree_at_represents [OF ok m that] that(1) by (auto elim!: representsD)
  show ?case
  proof (cases "t = tree_at (Suc n) m k")
    case True
    have bounds: "ts_start s \<le> st_from (tree_at n m c) \<and> st_to (tree_at n m c) \<le> ts_end s" if "c \<in> set (ts_child_ids s)" for c
      using kid [OF that] ends by (auto simp: same_time_def cut_to_def)
    have cut_end: "st_to (tree_at n m c) = min (ts_end u0) (ts_end s)" if c: "c \<in> set (ts_child_ids s)" and u0: "u0 \<in> set spans" "ts_id u0 = c" for c u0
    proof -
      obtain v t0 where v: "map_of m c = Some v" "t0 \<in> set spans" "ts_id t0 = c" "same_time v (cut_to s t0)" "length spans \<le> place spans c + n"
        using kid [OF c] by blast
      have "t0 = u0" using span_eq [OF ok v(2) u0(1)] v(3) u0(2) by simp
      then show ?thesis using ends [OF v(1,5)] v(4) by (simp add: same_time_def cut_to_def)
    qed
    have "sorted_wrt (\<lambda>a b. \<forall>s \<in> set spans. \<forall>t \<in> set spans. ts_id s = a \<and> ts_id t = b \<longrightarrow> ts_end t \<le> ts_end s) (ts_child_ids s)"
      unfolding s0(4) using trace_okD(2) [OF ok s0(1)] by (intro sorted_wrt_filter) (simp add: span_ok_def)
    then have "sorted_wrt (\<lambda>a b. st_to (tree_at n m b) \<le> st_to (tree_at n m a)) (ts_child_ids s)"
    proof (rule sorted_wrt_mono_rel [rotated])
      fix a b assume a: "a \<in> set (ts_child_ids s)" and b: "b \<in> set (ts_child_ids s)"
        and le: "\<forall>s \<in> set spans. \<forall>t \<in> set spans. ts_id s = a \<and> ts_id t = b \<longrightarrow> ts_end t \<le> ts_end s"
      obtain ua ub where "ua \<in> set spans" "ts_id ua = a" "ub \<in> set spans" "ts_id ub = b" using kid [OF a] kid [OF b] by blast
      then show "st_to (tree_at n m b) \<le> st_to (tree_at n m a)" using cut_end [OF a] cut_end [OF b] le by fastforce
    qed
    then have "fits t" using True Suc.prems(1) s0(3) bounds by (simp add: fits_def Let_def sorted_wrt_map)
    moreover have "\<exists>v. map_of m c = Some v \<and> st_to (tree_at n m c) = ts_end v" if "c \<in> set (ts_child_ids s)" for c
      using kid [OF that] ends by blast
    ultimately show ?thesis using True Suc.prems(1) by (auto simp: Let_def comp_def)
  next
    case False
    then obtain c where c: "c \<in> set (ts_child_ids s)" "t \<in> set (tree_spans (tree_at n m c))"
      using Suc.prems(1,3) by (auto simp: Let_def)
    obtain v where "map_of m c = Some v" "length spans \<le> place spans c + n" using kid [OF c(1)] by blast
    from Suc.IH [OF this c(2)] show ?thesis .
  qed
qed

section \<open>The size of the tree\<close>

text \<open>Going up as often as the depths differ leads from a span of a tree to its root, so no span is in two places.\<close>

definition up :: "span_map \<Rightarrow> string \<Rightarrow> string" where
  "up m k = (case map_of m k of Some s \<Rightarrow> nullish (parent_id s) k | None \<Rightarrow> k)"

definition depth_of :: "span_map \<Rightarrow> string \<Rightarrow> nat" where
  "depth_of m k = (case map_of m k of Some s \<Rightarrow> ts_depth s | None \<Rightarrow> 0)"

lemma tree_at_ids:
  assumes ok: "trace_ok spans" and m: "cut_map spans m"
  shows "map_of m k = Some s \<Longrightarrow> x \<in> st_id ` set (tree_spans (tree_at n m k)) \<Longrightarrow>
    map_of m x \<noteq> None \<and> depth_of m k \<le> depth_of m x \<and> (up m ^^ (depth_of m x - depth_of m k)) x = k"
proof (induction n arbitrary: k s)
  case (Suc n)
  show ?case
  proof (cases "x = k")
    case False
    then obtain c where c: "c \<in> set (ts_child_ids s)" "x \<in> st_id ` set (tree_spans (tree_at n m c))"
      using Suc.prems by (auto simp: Let_def)
    obtain t refs where t: "map_of m c = Some t" "ts_refs t = (CHILD_OF, k) # refs" "ts_depth t = Suc (ts_depth s)"
      by (rule cut_map_kid [OF ok m Suc.prems(1) c(1)]) (rule that; assumption)
    from Suc.IH [OF t(1) c(2)] have ih: "map_of m x \<noteq> None" "depth_of m c \<le> depth_of m x" "(up m ^^ (depth_of m x - depth_of m c)) x = c" by auto
    have depth: "depth_of m c = Suc (depth_of m k)" using t Suc.prems(1) by (simp add: depth_of_def)
    then have "depth_of m x - depth_of m k = Suc (depth_of m x - depth_of m c)" using ih(2) by simp
    moreover have "up m c = k" using t by (simp add: up_def parent_id_def)
    ultimately show ?thesis using ih depth by simp
  qed (use Suc.prems in auto)
qed auto

lemma distinct_concat_apart:
  "distinct cs \<Longrightarrow> (\<And>c. c \<in> set cs \<Longrightarrow> distinct (f c)) \<Longrightarrow>
   (\<And>c c' x. c \<in> set cs \<Longrightarrow> c' \<in> set cs \<Longrightarrow> x \<in> set (f c) \<Longrightarrow> x \<in> set (f c') \<Longrightarrow> c = c') \<Longrightarrow> distinct (concat (map f cs))"
proof (induction cs)
  case (Cons c cs)
  have "distinct (concat (map f cs))" using Cons.prems by (intro Cons.IH) auto
  moreover have "set (f c) \<inter> set (f c') = {}" if "c' \<in> set cs" for c'
    using Cons.prems(1,3) that by (auto simp: disjoint_iff)
  ultimately show ?case using Cons.prems(1,2) by auto
qed simp

lemma tree_at_distinct:
  assumes ok: "trace_ok spans" and m: "cut_map spans m"
  shows "map_of m k = Some s \<Longrightarrow> distinct (map st_id (tree_spans (tree_at n m k)))"
proof (induction n arbitrary: k s)
  case (Suc n)
  obtain s0 where s0: "s0 \<in> set spans" "ts_child_ids s = filter (\<lambda>c. map_of m c \<noteq> None) (ts_child_ids s0)"
    by (rule cut_map_entry [OF ok m Suc.prems]) (rule that; assumption)
  then have d: "distinct (ts_child_ids s)" using trace_okD(2) [OF ok s0(1)] by (simp add: span_ok_def)
  let ?ids = "\<lambda>c. map st_id (tree_spans (tree_at n m c))"
  have kid: "\<exists>t. map_of m c = Some t \<and> depth_of m c = Suc (depth_of m k)" if c: "c \<in> set (ts_child_ids s)" for c
  proof -
    obtain t where "map_of m c = Some t" "ts_depth t = Suc (ts_depth s)"
      by (rule cut_map_kid [OF ok m Suc.prems c]) (rule that; assumption)
    then show ?thesis using Suc.prems by (simp add: depth_of_def)
  qed
  have one: "distinct (?ids c)" if "c \<in> set (ts_child_ids s)" for c using kid [OF that] Suc.IH by blast
  have apart: "c = c'" if "c \<in> set (ts_child_ids s)" "c' \<in> set (ts_child_ids s)" "x \<in> set (?ids c)" "x \<in> set (?ids c')" for c c' x
    using kid [OF that(1)] kid [OF that(2)] tree_at_ids [OF ok m, of c _ x n] tree_at_ids [OF ok m, of c' _ x n] that(3,4) by fastforce
  have other: "k \<notin> set (?ids c)" if "c \<in> set (ts_child_ids s)" for c
    using kid [OF that] tree_at_ids [OF ok m, of c _ k n] by fastforce
  have "distinct (concat (map ?ids (ts_child_ids s)))"
    by (rule distinct_concat_apart [OF d one apart])
  then show ?case using Suc.prems other by (auto simp: Let_def map_concat comp_def)
qed simp

section \<open>The critical path\<close>

lemma tree_at_size:
  assumes ok: "trace_ok spans" and m: "cut_map spans m" and "map_of m k = Some s"
  shows "length (tree_spans (tree_at n m k)) \<le> length spans"
proof -
  let ?ids = "map st_id (tree_spans (tree_at n m k))"
  have "set ?ids \<subseteq> ts_id ` set spans"
  proof
    fix x assume "x \<in> set ?ids"
    then obtain t where "map_of m x = Some t" using tree_at_ids [OF ok m assms(3), of x n] by auto
    then obtain s0 where "s0 \<in> set spans" "ts_id s0 = x" by (rule cut_map_entry [OF ok m]) (rule that; assumption)
    then show "x \<in> ts_id ` set spans" by blast
  qed
  then have "card (set ?ids) \<le> card (ts_id ` set spans)" by (intro card_mono) auto
  also have "\<dots> \<le> length spans" using card_length [of "map ts_id spans"] by simp
  finally have "length ?ids \<le> length spans" unfolding distinct_card [OF tree_at_distinct [OF ok m assms(3), of n]] .
  then show ?thesis unfolding length_map .
qed

lemma cut_map_top:
  assumes ok: "trace_ok spans" and m: "cut_map spans m" and k: "map_of m k = Some s" and s0: "s0 \<in> set spans" "ts_id s0 = k"
    and top: "\<And>p. parent_id s0 = Some p \<Longrightarrow> p \<notin> ts_id ` set spans"
  shows "same_time s s0"
proof (rule cut_map_entry [OF ok m k])
  fix t assume "t \<in> set spans" "ts_id t = k" and same: "(\<And>p. parent_id t = Some p \<Longrightarrow> p \<notin> ts_id ` set spans) \<Longrightarrow> same_time s t"
  then have "t = s0" using span_eq [OF ok] s0 by simp
  then show "same_time s s0" using same top by simp
qed

text \<open>The loop ends where it leaves a span whose parent is not in the map.\<close>

lemma leave_top:
  assumes "\<And>p. parent_id s = Some p \<Longrightarrow> map_of m p = None" and "\<not> follows s" and "\<forall>ref \<in> set (take 1 (ts_refs s)). fst ref \<noteq> EXTERNAL"
  shows "leave (Suc n) m s path = Some (path, None)"
proof (cases "ts_refs s")
  case (Cons ref refs)
  obtain type p where ref: "ref = (type, p)" by (cases ref)
  have "type = CHILD_OF" using assms(2,3) Cons ref by (cases type) (simp_all add: follows_def)
  moreover have "map_of m p = None" using assms(1) Cons ref by (simp add: parent_id_def)
  ultimately show ?thesis using Cons ref by (simp add: leave_def compute_path.simps)
qed (simp add: leave_def)

lemma section_in_trace:
  assumes ok: "trace_ok spans" and m: "cut_map spans m" and k: "map_of m k = Some s"
    and x: "x \<in> set (tree_path (tree_at (length spans) m k))"
  shows "\<exists>s \<in> set spans. ts_id s = ps_span x \<and> ts_start s \<le> ps_start x \<and> ps_end x \<le> ts_end s \<and>
    (\<forall>c \<in> set spans. parent_id c = Some (ts_id s) \<and> \<not> follows c \<longrightarrow> \<not> (ps_start x < ts_end c \<and> ts_end c < ps_end x))"
proof -
  note fit = tree_at_fits [OF ok m k le_add2]
  obtain t where t: "t \<in> set (tree_spans (tree_at (length spans) m k))" "section_ok t x"
    using tree_path_sections [OF _ x] fit by blast
  obtain u where u: "map_of m (st_id t) = Some u" "st_from t = ts_start u" "st_to t = ts_end u" "map st_id (st_kids t) = ts_child_ids u"
    and ends: "\<forall>c \<in> set (st_kids t). \<exists>v. map_of m (st_id c) = Some v \<and> st_to c = ts_end v"
    using fit [OF t(1)] by blast
  obtain s0 where s0: "s0 \<in> set spans" "ts_id s0 = st_id t" "kept spans (st_id t)" "ts_start s0 \<le> ts_start u" "ts_end u \<le> ts_end s0"
    "ts_child_ids u = filter (\<lambda>c. map_of m c \<noteq> None) (ts_child_ids s0)"
    by (rule cut_map_entry [OF ok m u(1)]) (rule that; assumption)
  have within: "ts_start u \<le> ps_start x" "ps_end x \<le> ts_end u" using t(2) u(2,3) by (simp_all add: section_ok_def)
  have False if c: "c \<in> set spans" "parent_id c = Some (ts_id s0)" "\<not> follows c" "ps_start x < ts_end c" "ts_end c < ps_end x" for c
  proof -
    have "0 \<le> ts_duration c" using trace_okD(2) [OF ok c(1)] by (simp add: span_ok_def)
    then have over: "overlaps u c" using within c(4,5) by (simp add: overlaps_def)
    have "kept spans (ts_id c)" using kept_child [OF ok s0(1) _ c(1-3)] s0(2,3) by simp
    then have alive: "map_of m (ts_id c) \<noteq> None"
      by (rule cut_map_alive [OF ok m c(1)]) (use c(2) s0(2) u(1) over in simp)
    have "ts_id c \<in> set (ts_child_ids s0)" using trace_okD(2) [OF ok s0(1)] c(1,2) by (auto simp: span_ok_def)
    then have kid: "ts_id c \<in> set (ts_child_ids u)" using alive s0(6) by simp
    then have "ts_id c \<in> set (map st_id (st_kids t))" using u(4) by simp
    then obtain d where d: "d \<in> set (st_kids t)" "st_id d = ts_id c" by auto
    obtain v c' where v: "map_of m (ts_id c) = Some v" "c' \<in> set spans" "ts_id c' = ts_id c" "same_time v (cut_to u c')"
      by (rule cut_map_kid [OF ok m u(1) kid]) (rule that; assumption)
    have "c' = c" by (rule span_eq [OF ok v(2) c(1) v(3)])
    then have "ts_end v = ts_end c" using v(4) c(5) within by (simp add: same_time_def cut_to_def)
    then have "st_to d = ts_end c" using ends d v(1) by auto
    then show False using t(2) d(1) c(4,5) by (auto simp: section_ok_def)
  qed
  then show ?thesis using s0 within t(2) by (intro bexI [of _ s0]) (auto simp: section_ok_def)
qed

lemma critical_path_run:
  assumes "trace_ok spans" and "spans = root # rest" and "2 * length spans \<le> n"
    and "\<forall>s \<in> set spans. follows s \<longrightarrow> the (parent_id s) \<in> ts_id ` set spans"
  shows "\<exists>path. critical_path n spans = Inr (Some path) \<and> tiles (ts_start root) (ts_end root) path \<and>
    (\<forall>x \<in> set path. \<exists>s \<in> set spans. ts_id s = ps_span x \<and> ts_start s \<le> ps_start x \<and> ps_end x \<le> ts_end s \<and>
       (\<forall>c \<in> set spans. parent_id c = Some (ts_id s) \<and> \<not> follows c \<longrightarrow> \<not> (ps_start x < ts_end c \<and> ts_end c < ps_end x)))"
proof -
  note ok = assms(1)
  have root: "root \<in> set spans" "ts_id root \<noteq> []" using trace_okD(2) [OF ok, of root] assms(2) by (auto simp: span_ok_def)
  have place_root: "place spans (ts_id root) = 0" using assms(2) by (simp add: place_def)
  have top: "p \<notin> ts_id ` set spans" if "parent_id root = Some p" for p
    using parent_span [OF ok root(1) that] place_root by fastforce
  have keep: "kept spans (ts_id root)"
  proof -
    have "ts_id root \<notin> set (follow_ids spans)"
    proof
      assume "ts_id root \<in> set (follow_ids spans)"
      then have "follows root" using span_eq [OF ok] root(1) by (auto simp: follow_ids_def)
      then show False using assms(4) root(1) top by (auto simp: follows_def parent_id_def split: list.splits)
    qed
    moreover have "\<not> child_in (map (\<lambda>s. (ts_id s, without_children (set (follow_ids spans)) s)) spans) z (ts_id root)" for z
    proof
      assume "child_in (map (\<lambda>s. (ts_id s, without_children (set (follow_ids spans)) s)) spans) z (ts_id root)"
      then obtain s where s: "s \<in> set spans" "ts_id root \<in> set (ts_child_ids s)"
        unfolding child_in_def map_of_ids [of "without_children (set (follow_ids spans))"] by (auto simp: map_of_spans [OF trace_okD(1) [OF ok]])
      from child_span [OF ok this] place_root show False by (metis less_nat_zero_code)
    qed
    ultimately show ?thesis using root(1) unfolding kept_def by (metis image_eqI tranclp.cases)
  qed
  obtain m0 where m0: "child_of_spans n (spans_by_id spans) = Inr (Some m0)" "child_map spans m0"
    using child_of_spans_run [OF ok _ , of n] assms(3,4) unfolding child_map_def by (auto simp: Ball_def)
  let ?m = "sanitize_children m0"
  have m: "cut_map spans ?m"
    using sanitized [OF child_map_linked [OF ok m0(2)] child_map_order [OF ok m0(2)]] m0(2) unfolding cut_map_def by blast
  obtain s where s: "map_of ?m (ts_id root) = Some s" using cut_map_alive [OF ok m root(1) keep] top by blast
  obtain s0 where s0: "s0 \<in> set spans" "ts_id s0 = ts_id root" "ts_refs s = ts_refs s0"
    by (rule cut_map_entry [OF ok m s]) (rule that; assumption)
  have refs: "ts_refs s = ts_refs root" using span_eq [OF ok s0(1) root(1) s0(2)] s0(3) by simp
  have time: "ts_start s = ts_start root" "ts_end s = ts_end root"
    using cut_map_top [OF ok m s root(1) refl top] by (simp_all add: same_time_def)
  let ?t = "tree_at (length spans) ?m (ts_id root)"
  have rep: "represents ?m ?t" by (rule tree_at_represents [OF ok m s]) simp
  have "tree_cost ?t < 2 * length spans" using tree_cost_le [of ?t] tree_at_size [OF ok m s, of "length spans"] by linarith
  then obtain n' where n': "n = tree_cost ?t + Suc n'" using assms(3) by (metis add_Suc_right less_iff_Suc_add less_le_trans)
  have gone: "map_of ?m p = None" if "p \<notin> ts_id ` set spans" for p
  proof (cases "map_of ?m p")
    case (Some v)
    obtain v0 where "v0 \<in> set spans" "ts_id v0 = p" by (rule cut_map_entry [OF ok m Some]) (rule that; assumption)
    then show ?thesis using that by blast
  qed
  have "leave (Suc n') ?m s (tree_path ?t) = Some (tree_path ?t, None)"
  proof (rule leave_top)
    show "map_of ?m p = None" if "parent_id s = Some p" for p using that refs top gone by (simp add: parent_id_def)
    show "\<not> follows s" using not_follow [OF ok root(1) keep] refs by (simp add: follows_def)
    show "\<forall>ref \<in> set (take 1 (ts_refs s)). fst ref \<noteq> EXTERNAL" using trace_okD(2) [OF ok root(1)] refs by (simp add: span_ok_def)
  qed
  then have path: "critical_path n spans = Inr (Some (tree_path ?t))"
    using compute_is_tree_path [OF rep, of s "Suc n'" "[]"] s m0(1) root(2) by (simp add: critical_path_def assms(2) n')
  have fits: "fits t" if "t \<in> set (tree_spans ?t)" for t using tree_at_fits [OF ok m s le_add2 that] by simp
  obtain v where v: "map_of ?m (st_id ?t) = Some v" "ts_start v = st_from ?t" "ts_end v = st_to ?t"
    by (rule representsD [OF rep]) (rule that; assumption)
  have "v = s" using v(1) s unfolding tree_at_id by (rule option.inject [THEN iffD1, OF trans [OF sym]])
  with v(2,3) time have "st_from ?t = ts_start root" "st_to ?t = ts_end root" by (simp_all only:)
  then have "tiles (ts_start root) (ts_end root) (tree_path ?t)" using tree_path_tiles [OF fits, of ?t] by simp
  with path section_in_trace [OF ok m s] show ?thesis by blast
qed

section \<open>From the data to the path\<close>

text \<open>
  C36. The critical path of the trace made from given spans, of which every span that follows from another has that other
  one: the trace is made, and where it is not empty, the path is found within twice as many steps as there are spans; its
  sections lead without gap and without overlap from the end of the first span of the trace back to its start; each lies
  within the time of its span, and no child of that span ends in between.
\<close>

theorem critical_path_of_data:
  assumes "distinct (map ts_id data)" and "\<forall>s \<in> set data. span_given s" and "2 * length data \<le> n"
    and "\<forall>s \<in> set data. ts_start s \<noteq> 0 \<and> follows s \<longrightarrow> (\<exists>s' \<in> set data. ts_start s' \<noteq> 0 \<and> parent_id s = Some (ts_id s'))"
  shows "\<exists>tr. transform_trace_data n data = Inr (Some tr) \<and>
    (case tr_spans tr of [] \<Rightarrow> True | root # _ \<Rightarrow>
       \<exists>path. critical_path n (tr_spans tr) = Inr (Some path) \<and> tiles (ts_start root) (ts_end root) path \<and>
         (\<forall>x \<in> set path. \<exists>s \<in> set (tr_spans tr). ts_id s = ps_span x \<and> ts_start s \<le> ps_start x \<and> ps_end x \<le> ts_end s \<and>
            (\<forall>c \<in> set (tr_spans tr). parent_id c = Some (ts_id s) \<and> \<not> follows c \<longrightarrow> \<not> (ps_start x < ts_end c \<and> ts_end c < ps_end x))))"
proof -
  let ?spans = "filter (\<lambda>s. ts_start s \<noteq> 0) data"
  obtain tr where tr: "transform_trace_data n data = Inr (Some tr)" "trace_ok (tr_spans tr)" "ts_id ` set (tr_spans tr) = {k. rooted ?spans k}"
    and from_data: "\<forall>s \<in> set (tr_spans tr). \<exists>s0 \<in> set data. ts_id s = ts_id s0 \<and> ts_refs s = ts_refs s0"
    using transform_run [OF assms(1,2), of n] assms(3) by fastforce
  have present: "\<forall>s \<in> set (tr_spans tr). follows s \<longrightarrow> the (parent_id s) \<in> ts_id ` set (tr_spans tr)"
  proof (intro ballI impI)
    fix s assume s: "s \<in> set (tr_spans tr)" "follows s"
    obtain s0 where s0: "s0 \<in> set data" "ts_id s = ts_id s0" "ts_refs s = ts_refs s0" using from_data s(1) by blast
    have "rooted ?spans (ts_id s0)" using s(1) s0(2) tr(3) by (metis image_eqI mem_Collect_eq)
    then obtain u where u: "u \<in> set ?spans" "ts_id u = ts_id s0" "top_span ?spans u \<or> (\<exists>p. parent_id u = Some p \<and> rooted ?spans p)"
      by cases auto
    have "u = s0" using u(1,2) s0(1) assms(1) by (simp add: distinct_map inj_on_def)
    moreover have "follows s0" "parent_id s = parent_id s0" using s(2) s0(3) by (simp_all add: follows_def parent_id_def)
    ultimately obtain s' where s': "s' \<in> set ?spans" "parent_id u = Some (ts_id s')" using assms(4) u(1) by auto
    then have "rooted ?spans (ts_id s')" using u(3) by (auto simp: top_span_def)
    then show "the (parent_id s) \<in> ts_id ` set (tr_spans tr)"
      using s'(2) \<open>u = s0\<close> \<open>parent_id s = parent_id s0\<close> tr(3) by simp
  qed
  have "length (tr_spans tr) \<le> length data"
  proof -
    have "set (map ts_id (tr_spans tr)) \<subseteq> set (map ts_id data)" using from_data by fastforce
    then have "card (set (map ts_id (tr_spans tr))) \<le> card (set (map ts_id data))" by (intro card_mono) auto
    then show ?thesis using distinct_card [OF assms(1)] distinct_card [OF trace_okD(1) [OF tr(2)]] unfolding length_map by simp
  qed
  then have fuel: "2 * length (tr_spans tr) \<le> n" using assms(3) by simp
  show ?thesis
    using tr(1) critical_path_run [OF tr(2) _ fuel present] by (intro exI [of _ tr]) (auto split: list.split)
qed

lemma shop_trace_follows:
  "\<forall>s \<in> set shop_trace. ts_start s \<noteq> 0 \<and> follows s \<longrightarrow> (\<exists>s' \<in> set shop_trace. ts_start s' \<noteq> 0 \<and> parent_id s = Some (ts_id s'))"
  by (simp add: shop_trace_def follows_def parent_id_def)

theorem critical_path_of_data_witness:
  "\<exists>tr path. transform_trace_data 8 shop_trace = Inr (Some tr) \<and> critical_path 8 (tr_spans tr) = Inr (Some path) \<and> tiles 10 60 path"
proof -
  have first: "case transform_trace_data 8 shop_trace of Inr (Some tr) \<Rightarrow> map (\<lambda>s. (ts_start s, ts_end s)) (tr_spans tr) = [(10, 60), (20, 40), (30, 70), (45, 75)] | _ \<Rightarrow> False"
    by code_simp
  have fuel: "2 * length shop_trace \<le> 8" by (simp add: shop_trace_def)
  obtain tr where tr: "transform_trace_data 8 shop_trace = Inr (Some tr)"
    and run: "case tr_spans tr of [] \<Rightarrow> True | root # _ \<Rightarrow>
       \<exists>path. critical_path 8 (tr_spans tr) = Inr (Some path) \<and> tiles (ts_start root) (ts_end root) path"
    using critical_path_of_data [OF shop_trace_given(1,2) fuel shop_trace_follows] by (fastforce split: list.splits)
  obtain root rest where "tr_spans tr = root # rest" "ts_start root = 10" "ts_end root = 60"
    using first unfolding tr by (cases "tr_spans tr") auto
  with tr run show ?thesis by auto
qed

lemma shop_trace_path:
  "(case transform_trace_data 8 shop_trace of Inr (Some tr) \<Rightarrow> critical_path 8 (tr_spans tr) | _ \<Rightarrow> Inl Js_TypeError) =
   Inr (Some [\<lparr>ps_span = ''c'', ps_start = 45, ps_end = 60\<rparr>, \<lparr>ps_span = ''a'', ps_start = 40, ps_end = 45\<rparr>,
     \<lparr>ps_span = ''b'', ps_start = 20, ps_end = 40\<rparr>, \<lparr>ps_span = ''a'', ps_start = 10, ps_end = 20\<rparr>])"
  by code_simp

section \<open>Spans that follow one which is missing\<close>

definition links_of :: "span_map \<Rightarrow> string \<Rightarrow> (string \<times> (ref_type \<times> string) list) option" where
  "links_of m k = map_option (\<lambda>s. (ts_id s, ts_refs s)) (map_of m k)"

lemma drop_follows_orphan:
  "k \<in> set ks \<Longrightarrow> links_of m k = Some (k, (FOLLOWS_FROM, p) # refs) \<Longrightarrow> links_of m p = None \<Longrightarrow>
   (\<forall>j \<in> set ks. links_of m j \<noteq> None) \<Longrightarrow> (\<forall>j i r. links_of m j = Some (i, r) \<longrightarrow> i = j) \<Longrightarrow>
   drop_follows ks F m = Inl Js_TypeError"
proof (induction ks arbitrary: F m)
  case (Cons c ks)
  obtain s where s: "map_of m c = Some s" using Cons.prems(4) by (auto simp: links_of_def)
  show ?case
  proof (cases "follows s")
    case True
    then obtain q rest where q: "ts_refs s = (FOLLOWS_FROM, q) # rest" by (auto simp: follows_def split: list.splits)
    show ?thesis
    proof (cases "map_of m q")
      case None
      then show ?thesis using s q by simp
    next
      case (Some parent)
      let ?m = "es_map_set (ts_id parent) (parent\<lparr>ts_child_ids := filter (\<lambda>a. a \<noteq> ts_id s) (ts_child_ids parent)\<rparr>) m"
      have "ts_id parent = q" using Cons.prems(5) Some by (auto simp: links_of_def)
      then have same: "links_of ?m j = links_of m j" for j using Some by (simp add: links_of_def map_of_es_map_set)
      have "c \<noteq> k" using Cons.prems(2,3) s q Some by (auto simp: links_of_def)
      then have "k \<in> set ks" using Cons.prems(1) by simp
      then have "drop_follows ks (F @ [ts_id s]) ?m = Inl Js_TypeError"
        by (rule Cons.IH) (use Cons.prems in \<open>simp_all add: same\<close>)
      then show ?thesis using s q Some by simp
    qed
  next
    case False
    then have "c \<noteq> k" using Cons.prems(2) s by (auto simp: links_of_def follows_def)
    then have "k \<in> set ks" using Cons.prems(1) by simp
    then have "drop_follows ks F m = Inl Js_TypeError" by (rule Cons.IH) (use Cons.prems in simp_all)
    then show ?thesis using s False by (auto simp: follows_def Let_def split: list.splits ref_type.splits)
  qed
qed simp

text \<open>
  Where one span follows from another that is not in the trace, the trace has no critical path at all: the search for
  spans that follow fails before any path is looked for.
\<close>

theorem orphan_follower_no_path:
  assumes "distinct (map ts_id spans)" and "s \<in> set spans" and "follows s" and "the (parent_id s) \<notin> ts_id ` set spans"
  shows "critical_path n spans = Inr (Some [])"
proof -
  let ?m = "spans_by_id spans"
  have look: "map_of ?m k = Some u \<longleftrightarrow> u \<in> set spans \<and> ts_id u = k" for k u
    by (simp add: spans_by_id_eq [OF assms(1)] map_of_spans [OF assms(1)])
  have keys: "map fst ?m = map ts_id spans" by (simp add: spans_by_id_eq [OF assms(1)])
  obtain p refs where refs: "ts_refs s = (FOLLOWS_FROM, p) # refs" using assms(3) by (auto simp: follows_def split: list.splits)
  have "drop_follows (map fst ?m) [] ?m = Inl Js_TypeError"
  proof (rule drop_follows_orphan)
    show "ts_id s \<in> set (map fst ?m)" using assms(2) by (simp add: keys)
    show "links_of ?m (ts_id s) = Some (ts_id s, (FOLLOWS_FROM, p) # refs)"
      using assms(2) look [of "ts_id s" s] refs by (simp add: links_of_def)
    show "links_of ?m p = None"
    proof (cases "map_of ?m p")
      case (Some u)
      then have "u \<in> set spans" "ts_id u = p" using look by auto
      then show ?thesis using assms(4) refs by (auto simp: parent_id_def)
    qed (simp add: links_of_def)
    show "\<forall>j \<in> set (map fst ?m). links_of ?m j \<noteq> None" using look unfolding keys by (auto simp: links_of_def)
    show "\<forall>j i r. links_of ?m j = Some (i, r) \<longrightarrow> i = j" using look by (auto simp: links_of_def)
  qed
  then show ?thesis using assms(2) by (cases spans) (simp_all add: critical_path_def child_of_spans_def)
qed

definition orphan_trace :: "trace_span list" where
  "orphan_trace =
     [\<lparr>ts_id = ''a'', ts_start = 10, ts_duration = 50, ts_refs = [], ts_depth = 0, ts_has_children = False, ts_child_ids = [], ts_relative_start = 0\<rparr>,
      \<lparr>ts_id = ''d'', ts_start = 30, ts_duration = 40, ts_refs = [(FOLLOWS_FROM, ''x'')], ts_depth = 0, ts_has_children = False, ts_child_ids = [], ts_relative_start = 20\<rparr>]"

theorem orphan_follower_no_path_witness: "critical_path 8 orphan_trace = Inr (Some [])"
  by (rule orphan_follower_no_path [where s = "orphan_trace ! 1"]) (simp_all add: orphan_trace_def follows_def parent_id_def)

end
