(* ===== verification/Trace_Rows.thy ===== *)
theory Trace_Rows
  imports Trace_Cut
begin

text \<open>
  The rows of the timeline of a trace: which spans are collapsed (\<open>useChildrenState.ts\<close>), whose details are open
  (\<open>useDetailState.ts\<close>), and the rows that are shown (\<open>generateRowStates\<close> of
  \<open>TraceTimelineViewer/VirtualizedTraceView.tsx\<close>). The loops know descendants by their depths only; the properties are
  stated over the references between spans.

  A set of the language is the list of its members. The state of details is reduced to the spans that have any.
\<close>

section \<open>Collapsed spans\<close>

definition id_add :: "string \<Rightarrow> string list \<Rightarrow> string list" where
  "id_add k ks = (if k \<in> set ks then ks else ks @ [k])"

definition id_delete :: "string \<Rightarrow> string list \<Rightarrow> string list" where
  "id_delete k ks = filter (\<lambda>j. j \<noteq> k) ks"

definition should_disable_collapse :: "trace_span list \<Rightarrow> string list \<Rightarrow> bool" where
  "should_disable_collapse spans hidden \<longleftrightarrow> length (filter ts_has_children spans) = length hidden"

text \<open>The depth of the last span that was expanded, and whether the next collapsed one is expanded too.\<close>

fun expand_loop :: "int \<Rightarrow> bool \<Rightarrow> trace_span list \<Rightarrow> string list \<Rightarrow> string list" where
  "expand_loop prev expand [] res = res"
| "expand_loop prev expand (s # ss) res =
     (let expand = (expand \<or> int (ts_depth s) \<le> prev) in
      if expand \<and> ts_id s \<in> set res then expand_loop (int (ts_depth s)) False ss (id_delete (ts_id s) res)
      else expand_loop prev expand ss res)"

definition expand_one :: "trace_span list \<Rightarrow> string list \<Rightarrow> string list" where
  "expand_one spans hidden = (if hidden = [] then hidden else expand_loop (- 1) True spans hidden)"

fun collapse_loop :: "trace_span option \<Rightarrow> trace_span list \<Rightarrow> string list \<Rightarrow> trace_span option \<times> string list" where
  "collapse_loop nearest [] res = (nearest, res)"
| "collapse_loop nearest (s # ss) res =
     (case nearest of
        Some n \<Rightarrow>
          if ts_depth s \<le> ts_depth n
          then collapse_loop (if ts_has_children s then Some s else Some n) ss (id_add (ts_id n) res)
          else if ts_has_children s \<and> ts_id s \<notin> set res then collapse_loop (Some s) ss res
          else collapse_loop (Some n) ss res
      | None \<Rightarrow>
          if ts_has_children s \<and> ts_id s \<notin> set res then collapse_loop (Some s) ss res
          else collapse_loop None ss res)"

definition collapse_one :: "trace_span list \<Rightarrow> string list \<Rightarrow> string list" where
  "collapse_one spans hidden =
     (if should_disable_collapse spans hidden then hidden
      else (case collapse_loop None spans hidden of
          (None, res) \<Rightarrow> res
        | (Some n, res) \<Rightarrow> id_add (ts_id n) res))"

definition expand_all :: "string list" where
  "expand_all = []"

definition collapse_all :: "trace_span list \<Rightarrow> string list \<Rightarrow> string list" where
  "collapse_all spans hidden =
     (if should_disable_collapse spans hidden then hidden
      else fold (\<lambda>s res. if ts_has_children s then id_add (ts_id s) res else res) spans [])"

definition children_toggle :: "string \<Rightarrow> string list \<Rightarrow> string list" where
  "children_toggle k hidden = (if k \<in> set hidden then id_delete k hidden else id_add k hidden)"

definition toggle_detail :: "string \<Rightarrow> string list \<Rightarrow> string list" where
  "toggle_detail k details = (if k \<in> set details then id_delete k details else id_add k details)"

section \<open>Rows\<close>

record row_state =
  rw_span :: trace_span
  rw_is_detail :: bool
  rw_index :: nat

definition span_rows :: "string list \<Rightarrow> trace_span \<Rightarrow> nat \<Rightarrow> row_state list" where
  "span_rows details s i =
     \<lparr>rw_span = s, rw_is_detail = False, rw_index = i\<rparr> #
     (if ts_id s \<in> set details then [\<lparr>rw_span = s, rw_is_detail = True, rw_index = i\<rparr>] else [])"

fun rows_loop :: "string list \<Rightarrow> string list \<Rightarrow> nat option \<Rightarrow> nat \<Rightarrow> trace_span list \<Rightarrow> row_state list" where
  "rows_loop hidden details collapse i [] = []"
| "rows_loop hidden details collapse i (s # ss) =
     (case collapse of
        Some d \<Rightarrow>
          if d \<le> ts_depth s then rows_loop hidden details collapse (Suc i) ss
          else span_rows details s i @
            rows_loop hidden details (if ts_id s \<in> set hidden then Some (ts_depth s + 1) else None) (Suc i) ss
      | None \<Rightarrow>
          span_rows details s i @
            rows_loop hidden details (if ts_id s \<in> set hidden then Some (ts_depth s + 1) else None) (Suc i) ss)"

definition generate_row_states :: "trace_span list option \<Rightarrow> string list \<Rightarrow> string list \<Rightarrow> string list option \<Rightarrow> bool \<Rightarrow> row_state list" where
  "generate_row_states spans hidden details matches matches_only =
     (case spans of
        None \<Rightarrow> []
      | Some spans \<Rightarrow>
          rows_loop hidden details None 0
            (case matches of
               Some ms \<Rightarrow> if matches_only then filter (\<lambda>s. ts_id s \<in> set ms) spans else spans
             | None \<Rightarrow> spans))"

section \<open>Members of sets\<close>

lemma id_add_set [simp]: "set (id_add k ks) = insert k (set ks)"
  by (auto simp: id_add_def)

lemma id_add_distinct [simp]: "distinct (id_add k ks) \<longleftrightarrow> distinct ks"
  by (auto simp: id_add_def)

lemma id_delete_set [simp]: "set (id_delete k ks) = set ks - {k}"
  by (auto simp: id_delete_def)

lemma id_delete_distinct [simp]: "distinct ks \<Longrightarrow> distinct (id_delete k ks)"
  by (simp add: id_delete_def)

section \<open>Descendants by depth\<close>

text \<open>
  What comes after some spans, at whatever depths \<open>mid\<close> has in between, is below one of them that is in the set.
\<close>

definition covers :: "string set \<Rightarrow> trace_span list \<Rightarrow> trace_span list \<Rightarrow> bool" where
  "covers H pre mid \<longleftrightarrow> (\<exists>us a vs. pre = us @ a # vs \<and> ts_id a \<in> H \<and> (\<forall>x \<in> set (vs @ mid). ts_depth a < ts_depth x))"

lemma covers_Nil [simp]: "\<not> covers H [] mid"
  by (simp add: covers_def)

lemma covers_snoc:
  "covers H (pre @ [s]) mid \<longleftrightarrow> covers H pre (s # mid) \<or> (ts_id s \<in> H \<and> (\<forall>x \<in> set mid. ts_depth s < ts_depth x))"
proof
  assume "covers H (pre @ [s]) mid"
  then obtain us a vs where c: "pre @ [s] = us @ a # vs" "ts_id a \<in> H" "\<forall>x \<in> set (vs @ mid). ts_depth a < ts_depth x"
    by (auto simp: covers_def)
  show "covers H pre (s # mid) \<or> (ts_id s \<in> H \<and> (\<forall>x \<in> set mid. ts_depth s < ts_depth x))"
  proof (cases vs rule: rev_cases)
    case Nil
    with c show ?thesis by simp
  next
    case (snoc vs' x)
    with c have "pre = us @ a # vs'" "x = s" by (simp_all flip: append_assoc append_Cons)
    with c snoc show ?thesis unfolding covers_def by (intro disjI1 exI [of _ us] exI [of _ a] exI [of _ vs']) auto
  qed
next
  assume "covers H pre (s # mid) \<or> (ts_id s \<in> H \<and> (\<forall>x \<in> set mid. ts_depth s < ts_depth x))"
  then show "covers H (pre @ [s]) mid"
  proof
    assume "covers H pre (s # mid)"
    then obtain us a vs where "pre = us @ a # vs" "ts_id a \<in> H" "\<forall>x \<in> set (vs @ s # mid). ts_depth a < ts_depth x"
      by (auto simp: covers_def)
    then show ?thesis unfolding covers_def by (intro exI [of _ us] exI [of _ a] exI [of _ "vs @ [s]"]) auto
  next
    assume "ts_id s \<in> H \<and> (\<forall>x \<in> set mid. ts_depth s < ts_depth x)"
    then show ?thesis unfolding covers_def by (intro exI [of _ pre] exI [of _ s] exI [of _ "[]"]) auto
  qed
qed

text \<open>The depth that both loops keep says which of the spans to come are covered.\<close>

definition depth_covers :: "string set \<Rightarrow> trace_span list \<Rightarrow> nat option \<Rightarrow> bool" where
  "depth_covers H pre c \<longleftrightarrow> (\<forall>mid. covers H pre mid \<longleftrightarrow> (\<exists>d. c = Some d \<and> (\<forall>x \<in> set mid. d \<le> ts_depth x)))"

lemma depth_covers_start: "depth_covers H [] None"
  by (simp add: depth_covers_def)

lemma depth_covers_next:
  assumes "depth_covers H pre c"
  shows "covers H pre [s] \<longleftrightarrow> (\<exists>d. c = Some d \<and> d \<le> ts_depth s)"
    and "covers H pre [s] \<Longrightarrow> depth_covers H (pre @ [s]) c"
    and "\<not> covers H pre [s] \<Longrightarrow> depth_covers H (pre @ [s]) (if ts_id s \<in> H then Some (ts_depth s + 1) else None)"
proof -
  have all: "covers H pre mid \<longleftrightarrow> (\<exists>d. c = Some d \<and> (\<forall>x \<in> set mid. d \<le> ts_depth x))" for mid
    using assms by (simp add: depth_covers_def)
  show "covers H pre [s] \<longleftrightarrow> (\<exists>d. c = Some d \<and> d \<le> ts_depth s)" by (simp add: all)
  show "depth_covers H (pre @ [s]) c" if c: "covers H pre [s]"
  proof -
    obtain d where "c = Some d" "d \<le> ts_depth s" using c by (auto simp: all)
    then show ?thesis unfolding depth_covers_def covers_snoc all by (auto dest!: bspec)
  qed
  show "depth_covers H (pre @ [s]) (if ts_id s \<in> H then Some (ts_depth s + 1) else None)" if "\<not> covers H pre [s]"
    using that unfolding depth_covers_def covers_snoc all by (auto simp: Suc_le_eq)
qed

lemma rows_loop_covers:
  "depth_covers (set hidden) pre c \<Longrightarrow>
   rows_loop hidden details c (length pre) rest =
     concat (map (\<lambda>i. if covers (set hidden) (take i (pre @ rest)) [(pre @ rest) ! i] then [] else span_rows details ((pre @ rest) ! i) i)
       [length pre ..< length (pre @ rest)])"
proof (induction rest arbitrary: pre c)
  case (Cons s rest)
  note step = depth_covers_next [OF Cons.prems, of s]
  let ?rows = "\<lambda>i. if covers (set hidden) (take i (pre @ s # rest)) [(pre @ s # rest) ! i] then []
    else span_rows details ((pre @ s # rest) ! i) i"
  have ih: "rows_loop hidden details c' (Suc (length pre)) rest = concat (map ?rows [Suc (length pre) ..< length (pre @ s # rest)])"
    if "depth_covers (set hidden) (pre @ [s]) c'" for c'
    using Cons.IH [OF that] by (simp only: append_assoc append_Cons append_Nil length_append_singleton)
  have upt: "[length pre ..< length (pre @ s # rest)] = length pre # [Suc (length pre) ..< length (pre @ s # rest)]"
    by (rule upt_conv_Cons) simp
  have here: "take (length pre) (pre @ s # rest) = pre" "(pre @ s # rest) ! length pre = s" by simp_all
  show ?case
  proof (cases "covers (set hidden) pre [s]")
    case True
    then obtain d where "c = Some d" "d \<le> ts_depth s" using step(1) by blast
    then have "rows_loop hidden details c (length pre) (s # rest) = rows_loop hidden details c (Suc (length pre)) rest" by simp
    then show ?thesis using True unfolding ih [OF step(2) [OF True]] upt list.map concat.simps here by simp
  next
    case False
    then have "\<And>d. c = Some d \<Longrightarrow> \<not> d \<le> ts_depth s" using step(1) by blast
    then have "rows_loop hidden details c (length pre) (s # rest) = span_rows details s (length pre) @
        rows_loop hidden details (if ts_id s \<in> set hidden then Some (ts_depth s + 1) else None) (Suc (length pre)) rest"
      by (cases c) auto
    then show ?thesis using False unfolding ih [OF step(3) [OF False]] upt list.map concat.simps here by simp
  qed
qed simp

text \<open>Expanding removes the collapsed spans that are not covered by others.\<close>

lemma expand_loop_covers:
  "depth_covers H pre (if expand then None else Some (nat (prev + 1))) \<Longrightarrow> (expand \<or> 0 \<le> prev) \<Longrightarrow>
   distinct (map ts_id (pre @ rest)) \<Longrightarrow> (\<forall>s \<in> set rest. ts_id s \<in> set res \<longleftrightarrow> ts_id s \<in> H) \<Longrightarrow>
   set (expand_loop prev expand rest res) =
     set res - {ts_id s | us s vs. rest = us @ s # vs \<and> ts_id s \<in> H \<and> \<not> covers H (pre @ us) [s]}"
proof (induction rest arbitrary: pre expand prev res)
  case (Cons s rest)
  let ?c = "if expand then None else Some (nat (prev + 1))" and ?e = "expand \<or> int (ts_depth s) \<le> prev"
  note step = depth_covers_next [OF Cons.prems(1), of s]
  have e: "?e \<longleftrightarrow> \<not> covers H pre [s]" using Cons.prems(2) by (auto simp: step(1))
  have split: "{ts_id x | us x vs. s # rest = us @ x # vs \<and> ts_id x \<in> H \<and> \<not> covers H (pre @ us) [x]} =
      (if ts_id s \<in> H \<and> \<not> covers H pre [s] then {ts_id s} else {}) \<union>
      {ts_id x | us x vs. rest = us @ x # vs \<and> ts_id x \<in> H \<and> \<not> covers H ((pre @ [s]) @ us) [x]}" (is "?l = ?a \<union> ?b")
  proof (rule set_eqI, rule iffI)
    fix k assume "k \<in> ?l"
    then obtain us x vs where x: "s # rest = us @ x # vs" "k = ts_id x" "ts_id x \<in> H" "\<not> covers H (pre @ us) [x]" by blast
    then show "k \<in> ?a \<union> ?b" by (cases us) auto
  next
    fix k assume "k \<in> ?a \<union> ?b"
    then show "k \<in> ?l"
    proof
      assume "k \<in> ?a"
      then show ?thesis by (auto split: if_splits intro!: exI [of _ "[]"])
    next
      assume "k \<in> ?b"
      then obtain us x vs where "rest = us @ x # vs" "k = ts_id x" "ts_id x \<in> H" "\<not> covers H ((pre @ [s]) @ us) [x]" by blast
      then have "s # rest = (s # us) @ x # vs \<and> ts_id x \<in> H \<and> \<not> covers H (pre @ s # us) [x]" "k = ts_id x" by simp_all
      then show ?thesis by blast
    qed
  qed
  have d: "distinct (map ts_id ((pre @ [s]) @ rest))" "ts_id s \<notin> ts_id ` set rest" using Cons.prems(3) by auto
  have mem: "ts_id s \<in> set res \<longleftrightarrow> ts_id s \<in> H" using Cons.prems(4) by simp
  show ?case
  proof (cases "?e \<and> ts_id s \<in> H")
    case True
    have "set (expand_loop (int (ts_depth s)) False rest (id_delete (ts_id s) res)) =
        set (id_delete (ts_id s) res) - ?b"
    proof (rule Cons.IH [OF _ _ d(1)])
      show "depth_covers H (pre @ [s]) (if False then None else Some (nat (int (ts_depth s) + 1)))"
        using step(3) True e by (simp add: nat_add_distrib)
      show "\<forall>x \<in> set rest. ts_id x \<in> set (id_delete (ts_id s) res) \<longleftrightarrow> ts_id x \<in> H" using Cons.prems(4) d(2) by (auto simp: image_iff)
    qed simp
    then show ?thesis using True e mem unfolding split by (auto simp: Let_def)
  next
    case False
    have "set (expand_loop prev ?e rest res) = set res - ?b"
    proof (rule Cons.IH [OF _ _ d(1)])
      show "depth_covers H (pre @ [s]) (if ?e then None else Some (nat (prev + 1)))"
        using step(2,3) e False by (cases ?e) auto
    qed (use Cons.prems in auto)
    moreover have "expand_loop prev expand (s # rest) res = expand_loop prev ?e rest res" using False mem by (auto simp: Let_def)
    moreover have "?a = {}" using False e by auto
    ultimately show ?thesis unfolding split by simp
  qed
qed simp

end
