(* ===== verification/Trace_Collapse.thy ===== *)
theory Trace_Collapse
  imports Trace_Rows Trace_Build
begin

text \<open>
  What the rows and the buttons of the timeline do, in terms of the references between the spans of a well-formed trace:
  ancestors are found by depth, the rows are those of the spans without a collapsed ancestor, expanding opens the outermost
  collapsed spans and collapsing closes the innermost open ones.
\<close>

section \<open>Ancestors\<close>

inductive ancestor :: "trace_span list \<Rightarrow> string \<Rightarrow> string \<Rightarrow> bool" for spans where
  ancestor_parent: "s \<in> set spans \<Longrightarrow> parent_id s = Some p \<Longrightarrow> p \<in> ts_id ` set spans \<Longrightarrow> ancestor spans p (ts_id s)"
| ancestor_step: "ancestor spans a p \<Longrightarrow> s \<in> set spans \<Longrightarrow> parent_id s = Some p \<Longrightarrow> ancestor spans a (ts_id s)"

definition deeper :: "trace_span list \<Rightarrow> nat \<Rightarrow> nat \<Rightarrow> bool" where
  "deeper spans j i \<longleftrightarrow> j < i \<and> (\<forall>l. j < l \<and> l \<le> i \<longrightarrow> ts_depth (spans ! j) < ts_depth (spans ! l))"

lemma deeper_parent:
  assumes ok: "trace_ok spans" and i: "i < length spans" and p: "parent_id (spans ! i) = Some p" "p \<in> ts_id ` set spans"
  obtains j where "deeper spans j i" "ts_id (spans ! j) = p" "ts_depth (spans ! i) = Suc (ts_depth (spans ! j))"
proof -
  obtain j where j: "j < i" "ts_id (spans ! j) = p" "ts_depth (spans ! i) = Suc (ts_depth (spans ! j))"
    "\<And>l. j < l \<Longrightarrow> l < i \<Longrightarrow> ts_depth (spans ! j) < ts_depth (spans ! l)"
    using trace_okD(3) [OF ok i p] by blast
  then have "deeper spans j i" unfolding deeper_def by (metis le_neq_implies_less lessI)
  then show thesis using that j by blast
qed

lemma deeper_trans: "deeper spans a j \<Longrightarrow> deeper spans j i \<Longrightarrow> deeper spans a i"
  unfolding deeper_def by (metis le_less_linear less_le_trans less_trans order.refl)

lemma deeper_ancestor:
  assumes ok: "trace_ok spans"
  shows "i < length spans \<Longrightarrow> deeper spans j i \<Longrightarrow> ancestor spans (ts_id (spans ! j)) (ts_id (spans ! i))"
proof (induction i rule: less_induct)
  case (less i)
  have "ts_depth (spans ! i) \<noteq> 0" using less.prems(2) by (auto simp: deeper_def)
  then obtain p where p: "parent_id (spans ! i) = Some p" "p \<in> ts_id ` set spans"
    using trace_okD(4) [OF ok nth_mem [OF less.prems(1)]] by auto
  obtain k where k: "deeper spans k i" "ts_id (spans ! k) = p" "ts_depth (spans ! i) = Suc (ts_depth (spans ! k))"
    using deeper_parent [OF ok less.prems(1) p] by blast
  have kj: "k < i" "j < i" "ts_depth (spans ! j) < ts_depth (spans ! i)" using k(1) less.prems(2) by (auto simp: deeper_def)
  consider "k = j" | "j < k" | "k < j" by linarith
  then show ?case
  proof cases
    case 1
    then show ?thesis using ancestor_parent [OF nth_mem [OF less.prems(1)] p] k(2) by simp
  next
    case 2
    then have "deeper spans j k" using less.prems(2) kj(1) by (auto simp: deeper_def)
    then have "ancestor spans (ts_id (spans ! j)) p" using less.IH [OF kj(1)] less.prems(1) kj(1) k(2) by simp
    then show ?thesis by (rule ancestor_step [OF _ nth_mem [OF less.prems(1)] p(1)])
  next
    case 3
    then have "ts_depth (spans ! k) < ts_depth (spans ! j)" using k(1) kj(2) by (auto simp: deeper_def)
    then show ?thesis using k(3) kj(3) by simp
  qed
qed

lemma ancestor_deeper:
  assumes ok: "trace_ok spans" and "ancestor spans a k"
  shows "i < length spans \<Longrightarrow> ts_id (spans ! i) = k \<Longrightarrow> \<exists>j. deeper spans j i \<and> ts_id (spans ! j) = a"
  using assms(2)
proof (induction arbitrary: i)
  case (ancestor_parent s p)
  have "spans ! i = s" by (rule span_eq [OF ok nth_mem [OF ancestor_parent(4)] ancestor_parent(1,5)])
  then show ?case using deeper_parent [OF ok ancestor_parent(4), of p] ancestor_parent(2,3) by metis
next
  case (ancestor_step a p s)
  have s: "spans ! i = s" by (rule span_eq [OF ok nth_mem [OF ancestor_step(5)] ancestor_step(2,6)])
  have "p \<in> ts_id ` set spans" using ancestor_step(1) by cases auto
  then obtain j where j: "deeper spans j i" "ts_id (spans ! j) = p"
    using deeper_parent [OF ok ancestor_step(5), of p] ancestor_step(3) s by metis
  have "j < length spans" using j(1) ancestor_step(5) by (simp add: deeper_def)
  then obtain j' where "deeper spans j' j" "ts_id (spans ! j') = a" using ancestor_step(4) j(2) by blast
  then show ?case using deeper_trans j(1) by blast
qed

text \<open>Both loops ask whether a collapsed span is above another.\<close>

lemma covers_deeper:
  assumes "i < length spans"
  shows "covers H (take i spans) [spans ! i] \<longleftrightarrow> (\<exists>j. deeper spans j i \<and> ts_id (spans ! j) \<in> H)"
proof
  assume "covers H (take i spans) [spans ! i]"
  then obtain us a vs where c: "take i spans = us @ a # vs" "ts_id a \<in> H" "\<forall>x \<in> set (vs @ [spans ! i]). ts_depth a < ts_depth x"
    by (auto simp: covers_def)
  let ?j = "length us"
  have len: "i = Suc (?j + length vs)" using arg_cong [OF c(1), of length] assms by simp
  have at: "spans ! l = (us @ a # vs) ! l" if "l < i" for l using c(1) that by (metis nth_take)
  have "ts_depth a < ts_depth (spans ! l)" if "?j < l" "l \<le> i" for l
  proof (cases "l = i")
    case False
    then have "spans ! l = vs ! (l - Suc ?j)" "l - Suc ?j < length vs" using at [of l] that len by (simp_all add: nth_append nth_Cons')
    then show ?thesis using c(3) by simp
  qed (use c(3) in simp)
  moreover have "spans ! ?j = a" "?j < i" using at [of ?j] len by simp_all
  ultimately show "\<exists>j. deeper spans j i \<and> ts_id (spans ! j) \<in> H" using c(2) unfolding deeper_def by blast
next
  assume "\<exists>j. deeper spans j i \<and> ts_id (spans ! j) \<in> H"
  then obtain j where j: "deeper spans j i" "ts_id (spans ! j) \<in> H" by blast
  let ?vs = "drop (Suc j) (take i spans)"
  have "take i spans = take j (take i spans) @ take i spans ! j # ?vs"
    by (rule id_take_nth_drop) (use j(1) assms in \<open>simp add: deeper_def\<close>)
  then have "take i spans = take j spans @ spans ! j # ?vs" using j(1) by (simp add: deeper_def min_def)
  moreover have "\<forall>x \<in> set (?vs @ [spans ! i]). ts_depth (spans ! j) < ts_depth x"
    using j(1) assms by (auto simp: deeper_def in_set_conv_nth)
  ultimately show "covers H (take i spans) [spans ! i]" using j(2) unfolding covers_def by blast
qed

lemma covers_ancestor:
  assumes ok: "trace_ok spans" and i: "i < length spans"
  shows "covers H (take i spans) [spans ! i] \<longleftrightarrow> (\<exists>a \<in> H. ancestor spans a (ts_id (spans ! i)))"
  unfolding covers_deeper [OF i] using deeper_ancestor [OF ok i] ancestor_deeper [OF ok _ i refl] by blast

section \<open>Collapsing\<close>

definition opens :: "string set \<Rightarrow> trace_span \<Rightarrow> bool" where
  "opens H s \<longleftrightarrow> ts_has_children s \<and> ts_id s \<notin> H"

text \<open>Spans that are open with none open below them, so far and for good.\<close>

definition pending_open :: "string set \<Rightarrow> trace_span list \<Rightarrow> trace_span \<Rightarrow> bool" where
  "pending_open H pre s \<longleftrightarrow> (\<exists>us vs. pre = us @ s # vs \<and> opens H s \<and> (\<forall>x \<in> set vs. ts_depth s < ts_depth x \<and> \<not> opens H x))"

definition finished_open :: "string set \<Rightarrow> trace_span list \<Rightarrow> trace_span \<Rightarrow> bool" where
  "finished_open H pre s \<longleftrightarrow> (\<exists>us vs v ws. pre = us @ s # vs @ v # ws \<and> opens H s \<and> ts_depth v \<le> ts_depth s \<and>
     (\<forall>x \<in> set vs. ts_depth s < ts_depth x \<and> \<not> opens H x))"

lemma open_Nil [simp]: "\<not> pending_open H [] s" "\<not> finished_open H [] s"
  by (simp_all add: pending_open_def finished_open_def)

lemma pending_open_snoc:
  "pending_open H (pre @ [s]) p \<longleftrightarrow> (p = s \<and> opens H s) \<or> (pending_open H pre p \<and> ts_depth p < ts_depth s \<and> \<not> opens H s)"
proof
  assume "pending_open H (pre @ [s]) p"
  then obtain us vs where v: "pre @ [s] = us @ p # vs" "opens H p" "\<forall>x \<in> set vs. ts_depth p < ts_depth x \<and> \<not> opens H x"
    by (auto simp: pending_open_def)
  show "(p = s \<and> opens H s) \<or> (pending_open H pre p \<and> ts_depth p < ts_depth s \<and> \<not> opens H s)"
  proof (cases vs rule: rev_cases)
    case Nil
    with v show ?thesis by simp
  next
    case (snoc vs' x)
    with v have "pre = us @ p # vs'" "x = s" by (simp_all flip: append_assoc append_Cons)
    with v snoc show ?thesis by (auto simp: pending_open_def)
  qed
next
  assume "(p = s \<and> opens H s) \<or> (pending_open H pre p \<and> ts_depth p < ts_depth s \<and> \<not> opens H s)"
  then show "pending_open H (pre @ [s]) p"
  proof (elim disjE conjE)
    assume "p = s" "opens H s"
    then show ?thesis unfolding pending_open_def by (intro exI [of _ pre] exI [of _ "[]"]) simp
  next
    assume "pending_open H pre p" and s: "ts_depth p < ts_depth s" "\<not> opens H s"
    then obtain us vs where "pre = us @ p # vs" "opens H p" "\<forall>x \<in> set vs. ts_depth p < ts_depth x \<and> \<not> opens H x"
      by (auto simp: pending_open_def)
    with s show ?thesis unfolding pending_open_def by (intro exI [of _ us] exI [of _ "vs @ [s]"]) auto
  qed
qed

lemma finished_open_snoc:
  "finished_open H (pre @ [s]) p \<longleftrightarrow> finished_open H pre p \<or> (pending_open H pre p \<and> ts_depth s \<le> ts_depth p)"
proof
  assume "finished_open H (pre @ [s]) p"
  then obtain us vs v ws where v: "pre @ [s] = us @ p # vs @ v # ws" "opens H p" "ts_depth v \<le> ts_depth p"
    "\<forall>x \<in> set vs. ts_depth p < ts_depth x \<and> \<not> opens H x" by (auto simp: finished_open_def)
  show "finished_open H pre p \<or> (pending_open H pre p \<and> ts_depth s \<le> ts_depth p)"
  proof (cases ws rule: rev_cases)
    case Nil
    with v have "pre = us @ p # vs" "v = s" by (simp_all flip: append_assoc append_Cons)
    with v show ?thesis by (auto simp: pending_open_def)
  next
    case (snoc ws' x)
    with v have "pre = us @ p # vs @ v # ws'" by (simp flip: append_assoc append_Cons)
    with v show ?thesis unfolding finished_open_def by blast
  qed
next
  assume "finished_open H pre p \<or> (pending_open H pre p \<and> ts_depth s \<le> ts_depth p)"
  then show "finished_open H (pre @ [s]) p"
  proof
    assume "finished_open H pre p"
    then obtain us vs v ws where v: "pre = us @ p # vs @ v # ws" "opens H p" "ts_depth v \<le> ts_depth p"
      "\<forall>x \<in> set vs. ts_depth p < ts_depth x \<and> \<not> opens H x" by (auto simp: finished_open_def)
    then show ?thesis unfolding finished_open_def
      by (intro exI [of _ us] exI [of _ vs] exI [of _ v] exI [of _ "ws @ [s]"]) simp
  next
    assume "pending_open H pre p \<and> ts_depth s \<le> ts_depth p"
    then obtain us vs where v: "pre = us @ p # vs" "opens H p" "\<forall>x \<in> set vs. ts_depth p < ts_depth x \<and> \<not> opens H x"
      and "ts_depth s \<le> ts_depth p" by (auto simp: pending_open_def)
    then show ?thesis unfolding finished_open_def
      by (intro exI [of _ us] exI [of _ vs] exI [of _ s] exI [of _ "[]"]) simp
  qed
qed

lemma pending_open_unique:
  "pending_open H pre p \<Longrightarrow> pending_open H pre q \<Longrightarrow> p = q"
proof (induction pre rule: rev_induct)
  case (snoc s pre)
  then show ?case by (auto simp: pending_open_snoc)
qed simp

text \<open>The loop keeps the one span that is pending, or one that needs nothing more.\<close>

definition collapsing :: "string set \<Rightarrow> trace_span list \<Rightarrow> trace_span option \<Rightarrow> string list \<Rightarrow> bool" where
  "collapsing H pre nearest res \<longleftrightarrow>
     set res = H \<union> {ts_id s | s. finished_open H pre s} \<and> distinct res \<and>
     (\<forall>s. pending_open H pre s \<longrightarrow> nearest = Some s) \<and>
     (\<forall>n. nearest = Some n \<longrightarrow> pending_open H pre n \<or> ts_id n \<in> set res)"

lemma finished_open_mem: "finished_open H pre s \<Longrightarrow> s \<in> set pre"
  by (auto simp: finished_open_def)

lemma collapse_loop_keeps:
  "collapsing H pre nearest res \<Longrightarrow> distinct (map ts_id (pre @ rest)) \<Longrightarrow> collapse_loop nearest rest res = (nearest', res') \<Longrightarrow>
   collapsing H (pre @ rest) nearest' res'"
proof (induction rest arbitrary: pre nearest res)
  case (Cons s rest)
  have res: "set res = H \<union> {ts_id s | s. finished_open H pre s}" "distinct res"
    and pend: "\<And>x. pending_open H pre x \<Longrightarrow> nearest = Some x"
    and near: "\<And>n. nearest = Some n \<Longrightarrow> pending_open H pre n \<or> ts_id n \<in> set res"
    using Cons.prems(1) unfolding collapsing_def by blast+
  have new: "ts_id s \<in> set res \<longleftrightarrow> ts_id s \<in> H"
    using Cons.prems(2) finished_open_mem [of H pre] unfolding res(1) by auto
  have go: "collapsing H (pre @ [s]) n r \<Longrightarrow> collapse_loop nearest (s # rest) res = collapse_loop n rest r \<Longrightarrow> ?case" for n r
    using Cons.IH [of "pre @ [s]" n r] Cons.prems(2,3) by simp
  have unfinished: "{ts_id x | x. finished_open H (pre @ [s]) x} = {ts_id x | x. finished_open H pre x}"
    if "\<And>x. pending_open H pre x \<Longrightarrow> \<not> ts_depth s \<le> ts_depth x" using that unfolding finished_open_snoc by blast
  have still: "collapsing H (pre @ [s]) (if opens H s then Some s else nearest) res"
    if same: "\<And>x. pending_open H pre x \<Longrightarrow> \<not> ts_depth s \<le> ts_depth x"
    unfolding collapsing_def
  proof (intro conjI allI impI)
    show "(if opens H s then Some s else nearest) = Some x" if "pending_open H (pre @ [s]) x" for x
      using that pend unfolding pending_open_snoc by auto
    show "pending_open H (pre @ [s]) n \<or> ts_id n \<in> set res" if n: "(if opens H s then Some s else nearest) = Some n" for n
    proof (cases "opens H s")
      case True
      then show ?thesis using n by (simp add: pending_open_snoc)
    next
      case False
      then have "pending_open H pre n \<or> ts_id n \<in> set res" using n near by simp
      then show ?thesis using False same [of n] unfolding pending_open_snoc by auto
    qed
    have "{ts_id x | x. finished_open H (pre @ [s]) x} = {ts_id x | x. finished_open H pre x}" by (rule unfinished) (rule same)
    with res(1) show "set res = H \<union> {ts_id x | x. finished_open H (pre @ [s]) x}" by simp
  qed (rule res(2))
  show ?case
  proof (cases nearest)
    case None
    have "\<not> pending_open H pre x" for x using pend None by blast
    then have "collapsing H (pre @ [s]) (if opens H s then Some s else nearest) res" by (intro still) simp
    then show ?thesis by (rule go) (simp add: None opens_def new)
  next
    case (Some n)
    show ?thesis
    proof (cases "ts_depth s \<le> ts_depth n")
      case False
      then have "\<not> ts_depth s \<le> ts_depth x" if "pending_open H pre x" for x using pend [OF that] Some by simp
      then have "collapsing H (pre @ [s]) (if opens H s then Some s else nearest) res" by (rule still)
      then show ?thesis by (rule go) (simp add: Some False opens_def new)
    next
      case True
      have fin: "finished_open H (pre @ [s]) x \<longleftrightarrow> finished_open H pre x \<or> pending_open H pre x" for x
        using pend [of x] Some True by (auto simp: finished_open_snoc)
      have "insert (ts_id n) (set res) = H \<union> {ts_id x | x. finished_open H (pre @ [s]) x}"
        unfolding fin res(1) using near [OF Some] pend Some unfolding res(1) by auto
      then have "collapsing H (pre @ [s]) (if ts_has_children s then Some s else Some n) (id_add (ts_id n) res)"
        unfolding collapsing_def
      proof (intro conjI allI impI)
        show "(if ts_has_children s then Some s else Some n) = Some x" if "pending_open H (pre @ [s]) x" for x
          using that pend [of x] Some True unfolding pending_open_snoc opens_def by auto
        show "pending_open H (pre @ [s]) x \<or> ts_id x \<in> set (id_add (ts_id n) res)"
          if "(if ts_has_children s then Some s else Some n) = Some x" for x
          using that new unfolding pending_open_snoc opens_def by (auto split: if_splits)
      qed (use res(2) in simp_all)
      then show ?thesis by (rule go) (simp add: Some True)
    qed
  qed
qed simp

section \<open>Descendants in a run\<close>

lemma all_le_Suc: "(\<forall>l \<le> Suc i. Q l) \<longleftrightarrow> Q 0 \<and> (\<forall>l \<le> i. Q (Suc l))"
  by (metis Suc_le_mono le0 old.nat.exhaust)

lemma takeWhile_index: "i < length xs \<Longrightarrow> i < length (takeWhile P xs) \<longleftrightarrow> (\<forall>l \<le> i. P (xs ! l))"
proof (induction xs arbitrary: i)
  case (Cons x xs)
  show ?case
  proof (cases i)
    case (Suc i')
    then show ?thesis using Cons by (simp add: all_le_Suc)
  qed simp
qed simp

abbreviation run_below :: "trace_span \<Rightarrow> trace_span list \<Rightarrow> trace_span list" where
  "run_below s vs \<equiv> takeWhile (\<lambda>x. ts_depth s < ts_depth x) vs"

lemma deeper_run:
  assumes "spans = us @ s # vs" and "i < length vs"
  shows "deeper spans (length us) (Suc (length us + i)) \<longleftrightarrow> i < length (run_below s vs)"
proof -
  have at: "spans ! length us = s" "spans ! Suc (length us + l) = vs ! l" for l using assms(1) by (simp_all add: nth_append)
  have "deeper spans (length us) (Suc (length us + i)) \<longleftrightarrow> (\<forall>l \<le> i. ts_depth s < ts_depth (vs ! l))"
  proof
    assume d: "deeper spans (length us) (Suc (length us + i))"
    show "\<forall>l \<le> i. ts_depth s < ts_depth (vs ! l)"
    proof (intro allI impI)
      fix l assume "l \<le> i"
      then have "ts_depth (spans ! length us) < ts_depth (spans ! Suc (length us + l))" using d by (simp add: deeper_def)
      then show "ts_depth s < ts_depth (vs ! l)" by (simp add: at)
    qed
  next
    assume all: "\<forall>l \<le> i. ts_depth s < ts_depth (vs ! l)"
    show "deeper spans (length us) (Suc (length us + i))"
      unfolding deeper_def
    proof (intro conjI allI impI)
      fix l assume l: "length us < l \<and> l \<le> Suc (length us + i)"
      then obtain l' where l': "l = Suc (length us + l')" using less_imp_Suc_add by blast
      then have "ts_depth s < ts_depth (vs ! l')" using all l by simp
      then show "ts_depth (spans ! length us) < ts_depth (spans ! l)" unfolding l' at .
    qed simp
  qed
  also have "\<dots> \<longleftrightarrow> i < length (run_below s vs)" by (rule takeWhile_index [OF assms(2), symmetric])
  finally show ?thesis .
qed

lemma run_descendants:
  assumes ok: "trace_ok spans" and at: "spans = us @ s # vs"
  shows "x \<in> set (run_below s vs) \<longleftrightarrow> x \<in> set spans \<and> ancestor spans (ts_id s) (ts_id x)"
proof
  have nth: "spans ! length us = s" "spans ! Suc (length us + l) = vs ! l" for l using at by (simp_all add: nth_append)
  assume "x \<in> set (run_below s vs)"
  then obtain i where i: "i < length (run_below s vs)" "run_below s vs ! i = x" by (auto simp: in_set_conv_nth)
  then have vi: "i < length vs" "vs ! i = x" using length_takeWhile_le [of _ vs] takeWhile_nth [OF i(1)] by (auto intro: less_le_trans)
  have "ancestor spans (ts_id (spans ! length us)) (ts_id (spans ! Suc (length us + i)))"
    by (rule deeper_ancestor [OF ok]) (use vi(1) i(1) deeper_run [OF at vi(1)] in \<open>simp_all add: at\<close>)
  then show "x \<in> set spans \<and> ancestor spans (ts_id s) (ts_id x)" using nth vi at by auto
next
  assume x: "x \<in> set spans \<and> ancestor spans (ts_id s) (ts_id x)"
  then obtain i where i: "i < length spans" "spans ! i = x" by (auto simp: in_set_conv_nth)
  obtain j where j: "deeper spans j i" "ts_id (spans ! j) = ts_id s"
    using ancestor_deeper [OF ok conjunct2 [OF x] i(1)] i(2) by blast
  have "j < length spans" "length us < length spans" "spans ! length us = s" using j(1) i(1) by (simp_all add: deeper_def at)
  then have "j = length us" using place_nth [OF trace_okD(1) [OF ok]] j(2) by metis
  then have "length us < i" using j(1) by (simp add: deeper_def)
  then obtain l where l: "i = Suc (length us + l)" using less_imp_Suc_add by blast
  then have "l < length vs" using i(1) at by simp
  then have "l < length (run_below s vs)" using deeper_run [OF at] j(1) l \<open>j = length us\<close> by blast
  moreover have "vs ! l = x" using i(2) l at by (simp add: nth_append)
  ultimately show "x \<in> set (run_below s vs)" using takeWhile_nth nth_mem by metis
qed

text \<open>Where nothing below is open, in terms of ancestors.\<close>

lemma open_run:
  "pending_open H spans s \<or> finished_open H spans s \<longleftrightarrow>
   (\<exists>us vs. spans = us @ s # vs \<and> opens H s \<and> (\<forall>x \<in> set (run_below s vs). \<not> opens H x))" (is "?l \<longleftrightarrow> ?r")
proof
  assume ?l
  then show ?r
  proof
    assume "pending_open H spans s"
    then show ?r unfolding pending_open_def using set_takeWhileD by metis
  next
    assume "finished_open H spans s"
    then obtain us vs v ws where v: "spans = us @ s # vs @ v # ws" "opens H s" "ts_depth v \<le> ts_depth s"
      "\<forall>x \<in> set vs. ts_depth s < ts_depth x \<and> \<not> opens H x" by (auto simp: finished_open_def)
    then have "run_below s (vs @ v # ws) = vs" by (simp add: takeWhile_append2)
    then show ?r using v by metis
  qed
next
  assume ?r
  then obtain us vs where v: "spans = us @ s # vs" "opens H s" "\<forall>x \<in> set (run_below s vs). \<not> opens H x" by blast
  let ?drop = "dropWhile (\<lambda>x. ts_depth s < ts_depth x) vs"
  have take: "\<forall>x \<in> set (run_below s vs). ts_depth s < ts_depth x \<and> \<not> opens H x" using v(3) set_takeWhileD [of _ _ vs] by auto
  show ?l
  proof (cases ?drop)
    case Nil
    then have "vs = run_below s vs" by (metis append_Nil2 takeWhile_dropWhile_id)
    then show ?thesis using v(1,2) take unfolding pending_open_def by metis
  next
    case (Cons x xs)
    then have "ts_depth x \<le> ts_depth s" using hd_dropWhile [of "\<lambda>x. ts_depth s < ts_depth x" vs] by simp
    moreover have "spans = us @ s # run_below s vs @ x # xs" using v(1) Cons by (metis takeWhile_dropWhile_id)
    ultimately show ?thesis using v(2) take unfolding finished_open_def by blast
  qed
qed

lemma open_below:
  assumes ok: "trace_ok spans"
  shows "pending_open H spans s \<or> finished_open H spans s \<longleftrightarrow>
    s \<in> set spans \<and> opens H s \<and> (\<forall>c \<in> set spans. ancestor spans (ts_id s) (ts_id c) \<longrightarrow> \<not> opens H c)"
  unfolding open_run
proof
  assume "\<exists>us vs. spans = us @ s # vs \<and> opens H s \<and> (\<forall>x \<in> set (run_below s vs). \<not> opens H x)"
  then obtain us vs where v: "spans = us @ s # vs" "opens H s" "\<forall>x \<in> set (run_below s vs). \<not> opens H x" by blast
  then show "s \<in> set spans \<and> opens H s \<and> (\<forall>c \<in> set spans. ancestor spans (ts_id s) (ts_id c) \<longrightarrow> \<not> opens H c)"
    using run_descendants [OF ok v(1)] by auto
next
  assume r: "s \<in> set spans \<and> opens H s \<and> (\<forall>c \<in> set spans. ancestor spans (ts_id s) (ts_id c) \<longrightarrow> \<not> opens H c)"
  then obtain us vs where v: "spans = us @ s # vs" by (meson split_list)
  then have "\<forall>x \<in> set (run_below s vs). \<not> opens H x" using r run_descendants [OF ok v] by blast
  then show "\<exists>us vs. spans = us @ s # vs \<and> opens H s \<and> (\<forall>x \<in> set (run_below s vs). \<not> opens H x)" using v r by blast
qed

section \<open>The controls\<close>

definition parent_ids :: "trace_span list \<Rightarrow> string set" where
  "parent_ids spans = {ts_id s | s. s \<in> set spans \<and> ts_has_children s}"

definition collapse_ok :: "trace_span list \<Rightarrow> string list \<Rightarrow> bool" where
  "collapse_ok spans hidden \<longleftrightarrow> distinct hidden \<and> set hidden \<subseteq> parent_ids spans"

lemma parent_ids_list: "parent_ids spans = set (map ts_id (filter ts_has_children spans))"
  by (auto simp: parent_ids_def)

lemma all_collapsed:
  assumes "distinct (map ts_id spans)" and "collapse_ok spans hidden" and "should_disable_collapse spans hidden"
  shows "set hidden = parent_ids spans"
proof -
  have "distinct (map ts_id (filter ts_has_children spans))" using assms(1) by (simp add: distinct_map_filter)
  then have "card (parent_ids spans) = length hidden"
    using assms(3) unfolding parent_ids_list should_disable_collapse_def by (simp only: distinct_card length_map)
  also have "\<dots> = card (set hidden)" using assms(2) by (simp add: collapse_ok_def distinct_card)
  finally show ?thesis using assms(2) by (intro card_subset_eq) (simp_all add: collapse_ok_def parent_ids_list)
qed

lemma expand_loop_shrinks: "set (expand_loop prev e spans res) \<subseteq> set res" "distinct res \<Longrightarrow> distinct (expand_loop prev e spans res)"
proof (induction prev e spans res rule: expand_loop.induct)
  case (2 prev e s ss res)
  let ?next = "(e \<or> int (ts_depth s) \<le> prev) \<and> ts_id s \<in> set res"
  { case 1
    show ?case
    proof (cases ?next)
      case True
      from "2.IH"(1) [OF refl this] show ?thesis using True by (auto simp: Let_def)
    next
      case False
      from "2.IH"(3) [OF refl this] show ?thesis using False by (auto simp: Let_def)
    qed }
  { case 2
    show ?case
    proof (cases ?next)
      case True
      from "2.IH"(2) [OF refl this] show ?thesis using True 2 by (simp add: Let_def)
    next
      case False
      from "2.IH"(4) [OF refl this] show ?thesis using False 2 by (auto simp: Let_def)
    qed }
qed simp_all

lemma expand_one_effect:
  assumes ok: "trace_ok spans" and hidden: "collapse_ok spans hidden"
  shows "set (expand_one spans hidden) = {k \<in> set hidden. \<exists>a \<in> set hidden. ancestor spans a k}"
proof (cases "hidden = []")
  case False
  have left: "set (expand_one spans hidden) =
      set hidden - {ts_id s | us s vs. spans = us @ s # vs \<and> ts_id s \<in> set hidden \<and> \<not> covers (set hidden) us [s]}"
    using expand_loop_covers [of "set hidden" "[]" True "- 1" spans hidden] False trace_okD(1) [OF ok]
    by (simp add: expand_one_def depth_covers_start)
  have iff: "(\<exists>us s vs. k = ts_id s \<and> spans = us @ s # vs \<and> ts_id s \<in> set hidden \<and> \<not> covers (set hidden) us [s]) \<longleftrightarrow>
      \<not> (\<exists>a \<in> set hidden. ancestor spans a k)" if k: "k \<in> set hidden" for k
  proof -
    have cov: "covers (set hidden) us [s] \<longleftrightarrow> (\<exists>a \<in> set hidden. ancestor spans a (ts_id s))" if "spans = us @ s # vs" for us s vs
      using covers_ancestor [OF ok, of "length us" "set hidden"] that by simp
    obtain s where "s \<in> set spans" "ts_id s = k" using hidden k by (auto simp: collapse_ok_def parent_ids_def)
    then obtain us vs where at: "spans = us @ s # vs" "ts_id s = k" by (meson split_list)
    show ?thesis
    proof (rule iffI)
      assume "\<exists>us s vs. k = ts_id s \<and> spans = us @ s # vs \<and> ts_id s \<in> set hidden \<and> \<not> covers (set hidden) us [s]"
      then obtain us' s' vs' where "k = ts_id s'" "spans = us' @ s' # vs'" "\<not> covers (set hidden) us' [s']" by blast
      then show "\<not> (\<exists>a \<in> set hidden. ancestor spans a k)" using cov by simp
    next
      assume "\<not> (\<exists>a \<in> set hidden. ancestor spans a k)"
      then have "\<not> covers (set hidden) us [s]" using cov [OF at(1)] at(2) by simp
      then show "\<exists>us s vs. k = ts_id s \<and> spans = us @ s # vs \<and> ts_id s \<in> set hidden \<and> \<not> covers (set hidden) us [s]"
        using at k by blast
    qed
  qed
  show ?thesis
  proof (rule set_eqI)
    fix k
    show "k \<in> set (expand_one spans hidden) \<longleftrightarrow> k \<in> {k \<in> set hidden. \<exists>a \<in> set hidden. ancestor spans a k}"
      using iff [of k] unfolding left Diff_iff mem_Collect_eq by argo
  qed
qed (simp add: expand_one_def)

lemma collapse_one_effect:
  assumes ok: "trace_ok spans" and hidden: "collapse_ok spans hidden"
  shows "set (collapse_one spans hidden) = set hidden \<union>
      {ts_id s | s. s \<in> set spans \<and> ts_has_children s \<and>
         (\<forall>c \<in> set spans. ts_has_children c \<and> ancestor spans (ts_id s) (ts_id c) \<longrightarrow> ts_id c \<in> set hidden)} \<and>
    distinct (collapse_one spans hidden)"
proof (cases "should_disable_collapse spans hidden")
  case True
  then have "set hidden = parent_ids spans" by (rule all_collapsed [OF trace_okD(1) [OF ok] hidden])
  then show ?thesis using True hidden by (auto simp: collapse_one_def parent_ids_def collapse_ok_def)
next
  case False
  obtain nearest res where run: "collapse_loop None spans hidden = (nearest, res)" by fastforce
  have "collapsing (set hidden) [] None hidden" using hidden by (simp add: collapsing_def collapse_ok_def)
  then have final: "collapsing (set hidden) spans nearest res"
    using collapse_loop_keeps [of "set hidden" "[]" None hidden spans nearest res] run trace_okD(1) [OF ok] by simp
  let ?H = "set hidden" and ?one = "collapse_one spans hidden"
  have "set ?one = ?H \<union> {ts_id s | s. pending_open ?H spans s \<or> finished_open ?H spans s}"
    using final run False unfolding collapsing_def collapse_one_def by (cases nearest) auto
  also have "\<dots> = ?H \<union> {ts_id s | s. s \<in> set spans \<and> opens ?H s \<and> (\<forall>c \<in> set spans. ancestor spans (ts_id s) (ts_id c) \<longrightarrow> \<not> opens ?H c)}"
    unfolding open_below [OF ok] ..
  finally have "set ?one = ?H \<union> {ts_id s | s. s \<in> set spans \<and> ts_has_children s \<and>
      (\<forall>c \<in> set spans. ts_has_children c \<and> ancestor spans (ts_id s) (ts_id c) \<longrightarrow> ts_id c \<in> ?H)}"
    unfolding opens_def by blast
  moreover have "distinct ?one" using final run False unfolding collapsing_def collapse_one_def by (cases nearest) auto
  ultimately show ?thesis by blast
qed

lemma collapse_all_effect:
  assumes "trace_ok spans" and "collapse_ok spans hidden"
  shows "set (collapse_all spans hidden) = parent_ids spans \<and> distinct (collapse_all spans hidden)"
proof (cases "should_disable_collapse spans hidden")
  case True
  then show ?thesis using all_collapsed [OF trace_okD(1) [OF assms(1)] assms(2)] assms(2) by (simp add: collapse_all_def collapse_ok_def)
next
  case False
  have "set (fold (\<lambda>s res. if ts_has_children s then id_add (ts_id s) res else res) ss res) = set res \<union> parent_ids ss \<and>
      (distinct res \<longrightarrow> distinct (fold (\<lambda>s res. if ts_has_children s then id_add (ts_id s) res else res) ss res))" for ss res
    by (induction ss arbitrary: res) (auto simp: parent_ids_def)
  from this [of spans "[]"] False show ?thesis by (simp add: collapse_all_def)
qed

text \<open>
  C38. The controls of collapsed spans in a well-formed trace, where only spans with children can be collapsed: "expand one
  level" opens the collapsed spans that no other collapsed span is above; "collapse one level" closes the spans whose
  descendants with children are all closed; "collapse all" closes every span with children, "expand all" none, and the
  toggle of a span it alone. All of them keep that only spans with children are collapsed, each once.
\<close>

theorem collapse_controls:
  assumes "trace_ok spans" and "collapse_ok spans hidden" and "k \<in> parent_ids spans"
  shows "set (expand_one spans hidden) = {k \<in> set hidden. \<exists>a \<in> set hidden. ancestor spans a k} \<and>
    set (collapse_one spans hidden) = set hidden \<union>
      {ts_id s | s. s \<in> set spans \<and> ts_has_children s \<and>
         (\<forall>c \<in> set spans. ts_has_children c \<and> ancestor spans (ts_id s) (ts_id c) \<longrightarrow> ts_id c \<in> set hidden)} \<and>
    set (collapse_all spans hidden) = parent_ids spans \<and> set expand_all = {} \<and>
    set (children_toggle k hidden) = (if k \<in> set hidden then set hidden - {k} else insert k (set hidden)) \<and>
    collapse_ok spans (expand_one spans hidden) \<and> collapse_ok spans (collapse_one spans hidden) \<and>
    collapse_ok spans (collapse_all spans hidden) \<and> collapse_ok spans expand_all \<and> collapse_ok spans (children_toggle k hidden)"
proof -
  note E = expand_one_effect [OF assms(1,2)] and C = collapse_one_effect [OF assms(1,2)] and A = collapse_all_effect [OF assms(1,2)]
  have hidden: "distinct hidden" "set hidden \<subseteq> parent_ids spans" using assms(2) by (simp_all add: collapse_ok_def)
  have "distinct (expand_one spans hidden)" using expand_loop_shrinks(2) hidden(1) by (simp add: expand_one_def)
  then have "collapse_ok spans (expand_one spans hidden)" using E hidden by (auto simp: collapse_ok_def)
  moreover have "collapse_ok spans (collapse_one spans hidden)" using C hidden(2) by (auto simp: collapse_ok_def parent_ids_def)
  moreover have "collapse_ok spans (collapse_all spans hidden)" using A by (simp add: collapse_ok_def)
  moreover have "collapse_ok spans expand_all" by (simp add: collapse_ok_def expand_all_def)
  moreover have "collapse_ok spans (children_toggle k hidden)"
    using hidden assms(3) by (auto simp: collapse_ok_def children_toggle_def)
  ultimately show ?thesis using E C A by (simp add: expand_all_def children_toggle_def)
qed

definition shop_spans :: "trace_span list" where
  "shop_spans = (case transform_trace_data 8 shop_trace of Inr (Some tr) \<Rightarrow> tr_spans tr | _ \<Rightarrow> [])"

lemma shop_spans_ok: "trace_ok shop_spans"
  using transform_run [OF shop_trace_given] by (auto simp: shop_spans_def)

lemma shop_spans_collapse: "collapse_ok shop_spans [''b'']" "''a'' \<in> parent_ids shop_spans"
  unfolding collapse_ok_def parent_ids_list by code_simp+

theorem collapse_controls_witness:
  "set (expand_one shop_spans [''b'']) = {k \<in> {''b''}. \<exists>a \<in> {''b''}. ancestor shop_spans a k} \<and>
   collapse_ok shop_spans (children_toggle ''a'' [''b''])"
  using collapse_controls [OF shop_spans_ok shop_spans_collapse] by simp

text \<open>
  C39. The rows of a well-formed trace, without the filter for matches: one for each span none of whose ancestors is
  collapsed, in the order of the trace and with its place in it, and one after it where its details are open.
\<close>

theorem rows_shown:
  assumes "trace_ok spans"
  shows "generate_row_states (Some spans) hidden details matches False =
    concat (map (\<lambda>i. if \<exists>a \<in> set hidden. ancestor spans a (ts_id (spans ! i)) then [] else span_rows details (spans ! i) i) [0 ..< length spans])"
proof -
  have "generate_row_states (Some spans) hidden details matches False = rows_loop hidden details None 0 spans"
    by (cases matches) (simp_all add: generate_row_states_def)
  also have "\<dots> = concat (map (\<lambda>i. if covers (set hidden) (take i spans) [spans ! i] then [] else span_rows details (spans ! i) i) [0 ..< length spans])"
    using rows_loop_covers [OF depth_covers_start, of hidden details spans] by (simp only: append_Nil list.size(3))
  also have "\<dots> = concat (map (\<lambda>i. if \<exists>a \<in> set hidden. ancestor spans a (ts_id (spans ! i)) then [] else span_rows details (spans ! i) i) [0 ..< length spans])"
    by (intro arg_cong [where f = concat] map_cong refl) (simp add: covers_ancestor [OF assms])
  finally show ?thesis .
qed

theorem rows_shown_witness:
  "generate_row_states (Some shop_spans) [''b''] [''a''] None False =
    concat (map (\<lambda>i. if ancestor shop_spans ''b'' (ts_id (shop_spans ! i)) then [] else span_rows [''a''] (shop_spans ! i) i) [0 ..< length shop_spans])"
  using rows_shown [OF shop_spans_ok, of "[''b'']" "[''a'']" None] by simp

section \<open>Level by level\<close>

lemma place_ancestor:
  assumes ok: "trace_ok spans" and "ancestor spans a k"
  shows "place spans a < place spans k"
proof -
  have "k \<in> ts_id ` set spans" using assms(2) by cases auto
  then obtain i where i: "i < length spans" "ts_id (spans ! i) = k" by (auto simp: in_set_conv_nth)
  obtain j where j: "deeper spans j i" "ts_id (spans ! j) = a" using ancestor_deeper [OF ok assms(2) i] by blast
  note place = place_nth [OF trace_okD(1) [OF ok]]
  show ?thesis using place [of j] place [of i] i j by (auto simp: deeper_def)
qed

lemma expand_one_fewer:
  assumes ok: "trace_ok spans" and hidden: "collapse_ok spans hidden" and "hidden \<noteq> []"
  shows "collapse_ok spans (expand_one spans hidden) \<and> length (expand_one spans hidden) < length hidden"
proof -
  note E = expand_one_effect [OF ok hidden]
  have d: "distinct hidden" "distinct (expand_one spans hidden)"
    using hidden expand_loop_shrinks(2) by (simp_all add: collapse_ok_def expand_one_def)
  obtain k where k: "k \<in> set hidden" "\<And>j. j \<in> set hidden \<Longrightarrow> place spans k \<le> place spans j"
    using arg_min_if_finite [of "set hidden" "place spans"] assms(3) by (metis List.finite_set not_less set_empty)
  have "k \<notin> set (expand_one spans hidden)" using k(2) place_ancestor [OF ok] unfolding E by fastforce
  then have "set (expand_one spans hidden) \<subset> set hidden" using k(1) E by blast
  then have "card (set (expand_one spans hidden)) < card (set hidden)" by (rule psubset_card_mono [OF finite_set])
  moreover have "collapse_ok spans (expand_one spans hidden)" using E hidden d(2) by (auto simp: collapse_ok_def)
  ultimately show ?thesis using d by (simp add: distinct_card)
qed

lemma collapse_one_more:
  assumes ok: "trace_ok spans" and hidden: "collapse_ok spans hidden"
  shows "collapse_ok spans (collapse_one spans hidden) \<and>
    card (parent_ids spans - set (collapse_one spans hidden)) \<le> card (parent_ids spans - set hidden) - 1"
proof -
  note C = collapse_one_effect [OF ok hidden]
  have fin: "finite (parent_ids spans)" by (simp add: parent_ids_list)
  have kept: "collapse_ok spans (collapse_one spans hidden)" using C hidden by (auto simp: collapse_ok_def parent_ids_def)
  show ?thesis
  proof (cases "parent_ids spans - set hidden = {}")
    case True
    then have "parent_ids spans - set (collapse_one spans hidden) = {}" using C by blast
    then show ?thesis using kept by (metis card.empty zero_le)
  next
    case False
    let ?open = "parent_ids spans - set hidden"
    obtain k where k: "k \<in> ?open" "\<And>j. j \<in> ?open \<Longrightarrow> place spans j \<le> place spans k"
      using arg_min_if_finite [of ?open "\<lambda>j. - int (place spans j)"] False fin by (metis finite_Diff linorder_not_less neg_less_iff_less of_nat_less_iff)
    obtain s where s: "s \<in> set spans" "ts_has_children s" "ts_id s = k" using k(1) by (auto simp: parent_ids_def)
    have "ts_id c \<in> set hidden" if "c \<in> set spans" "ts_has_children c" "ancestor spans (ts_id s) (ts_id c)" for c
    proof (rule ccontr)
      assume "ts_id c \<notin> set hidden"
      then have "ts_id c \<in> ?open" using that(1,2) by (auto simp: parent_ids_def)
      then show False using k(2) place_ancestor [OF ok that(3)] s(3) by fastforce
    qed
    then have "k \<in> set (collapse_one spans hidden)" using C s by blast
    then have "parent_ids spans - set (collapse_one spans hidden) \<subset> ?open" using C k(1) by blast
    then have "card (parent_ids spans - set (collapse_one spans hidden)) < card ?open" using fin by (intro psubset_card_mono) simp_all
    then show ?thesis using kept by simp
  qed
qed

text \<open>
  C40. Level by level everything opens and everything closes: after as many steps as there are collapsed spans none is
  collapsed, and after as many steps the other way as there are spans with children all of them are.
\<close>

theorem levels_open_and_close:
  assumes "trace_ok spans" and "collapse_ok spans hidden"
  shows "(expand_one spans ^^ length hidden) hidden = [] \<and>
    set ((collapse_one spans ^^ length (filter ts_has_children spans)) hidden) = parent_ids spans"
proof
  have "collapse_ok spans hidden \<Longrightarrow> length hidden \<le> n \<Longrightarrow> (expand_one spans ^^ n) hidden = []" for n hidden
  proof (induction n arbitrary: hidden)
    case (Suc n)
    show ?case
    proof (cases "hidden = []")
      case True
      have "(expand_one spans ^^ m) [] = []" for m by (induction m) (simp_all add: expand_one_def)
      then show ?thesis unfolding True .
    next
      case False
      then have "(expand_one spans ^^ n) (expand_one spans hidden) = []"
        using Suc expand_one_fewer [OF assms(1) Suc.prems(1)] by simp
      then show ?thesis by (simp add: funpow_swap1)
    qed
  qed simp
  then show "(expand_one spans ^^ length hidden) hidden = []" using assms(2) by simp
  have "collapse_ok spans ((collapse_one spans ^^ n) hidden) \<and>
      card (parent_ids spans - set ((collapse_one spans ^^ n) hidden)) \<le> card (parent_ids spans - set hidden) - n" for n
  proof (induction n)
    case (Suc n)
    then show ?case using collapse_one_more [OF assms(1), of "(collapse_one spans ^^ n) hidden"]
      unfolding funpow.simps(2) comp_def by linarith
  qed (simp add: assms(2))
  from this [of "length (filter ts_has_children spans)"]
  have all: "collapse_ok spans ((collapse_one spans ^^ length (filter ts_has_children spans)) hidden)"
    "card (parent_ids spans - set ((collapse_one spans ^^ length (filter ts_has_children spans)) hidden)) \<le>
      card (parent_ids spans - set hidden) - length (filter ts_has_children spans)" by blast+
  have "card (parent_ids spans) \<le> length (filter ts_has_children spans)"
    using card_length [of "map ts_id (filter ts_has_children spans)"] by (simp add: parent_ids_list)
  moreover have "card (parent_ids spans - set hidden) \<le> card (parent_ids spans)" by (intro card_mono) (auto simp: parent_ids_list)
  ultimately have "parent_ids spans - set ((collapse_one spans ^^ length (filter ts_has_children spans)) hidden) = {}"
    using all(2) by (simp add: parent_ids_list)
  then show "set ((collapse_one spans ^^ length (filter ts_has_children spans)) hidden) = parent_ids spans"
    using all(1) by (auto simp: collapse_ok_def)
qed

theorem levels_open_and_close_witness:
  "(expand_one shop_spans ^^ 1) [''b''] = [] \<and>
   set ((collapse_one shop_spans ^^ length (filter ts_has_children shop_spans)) [''b'']) = parent_ids shop_spans"
  using levels_open_and_close [OF shop_spans_ok shop_spans_collapse(1)] by simp

section \<open>Where rows and controls go wrong\<close>

definition given_span :: "string \<Rightarrow> int \<Rightarrow> (ref_type \<times> string) list \<Rightarrow> trace_span" where
  "given_span i start refs =
     \<lparr>ts_id = i, ts_start = start, ts_duration = 10, ts_refs = refs, ts_depth = 0, ts_has_children = False, ts_child_ids = [], ts_relative_start = 0\<rparr>"

definition filter_spans :: "trace_span list" where
  "filter_spans =
     (case transform_trace_data 8
        [given_span ''a'' 10 [], given_span ''b'' 11 [(CHILD_OF, ''a'')], given_span ''c'' 12 [(CHILD_OF, ''b'')],
         given_span ''d'' 13 [(CHILD_OF, ''a'')], given_span ''e'' 14 [(CHILD_OF, ''d'')]] of
        Inr (Some tr) \<Rightarrow> tr_spans tr | _ \<Rightarrow> [])"

text \<open>
  With the filter for matches a span is taken for a descendant of a collapsed one that is not: here \<open>e\<close>, below \<open>d\<close>, when its
  parent is filtered out and \<open>b\<close>, before it, is collapsed. And the places of rows are those in the filtered list.
\<close>

lemma matching_row_hidden:
  "map (ts_id \<circ> rw_span) (generate_row_states (Some filter_spans) [''b''] [] (Some [''a'', ''b'', ''e'']) False) = [''a'', ''b'', ''d'', ''e'']"
  "map (ts_id \<circ> rw_span) (generate_row_states (Some filter_spans) [''b''] [] (Some [''a'', ''b'', ''e'']) True) = [''a'', ''b'']"
  "map rw_index (generate_row_states (Some filter_spans) [] [] (Some [''a'', ''e'']) True) = [0, 1]"
  by code_simp+

text \<open>Collapsed spans of another trace: as many as this one has spans with children, and "collapse all" does nothing.\<close>

lemma stale_collapse: "collapse_all filter_spans [''x'', ''y'', ''z''] = [''x'', ''y'', ''z'']"
  by code_simp

end
