(* ===== verification/Spec2Isabelle.thy ===== *)
theory Spec2Isabelle
  imports Alert_Routes Route_Tree Alert_Dag Rule_Id Rule_Groups Am_Config Options_Picker Browse_Pages
    Graphite_Editor Graphite_Store Graphite_Table Flame_Frame Flame_Sandwich Flame_Tree Murmur Fetch_Order Trace_Critical
    Trace_Collapse
begin

text \<open>
  Verification of parts of the Grafana front end, the TypeScript under \<open>src/upstream/\<close> (paths below are relative
  to it; \<open>unified/\<close> is \<open>public/app/features/alerting/unified/\<close>, \<open>graphite/\<close> is
  \<open>public/app/plugins/datasource/graphite/\<close>, \<open>flamegraph/\<close> is \<open>packages/grafana-flamegraph/src/\<close>). The parts modelled
  are those that carry logic of their own: the routing of alerts, the editing of notification policies, of the
  configuration around them and of groups of rules, the identifiers and graphs of alert rules, the picker of variable
  values, the tree of dashboards, the language and query editor of Graphite, the flame graph, the queue of requests, and the
  trace view with its critical path.

  \<^bold>\<open>The language.\<close> \<open>Js_Prelude\<close> (exceptions as values, optional fields, list operations, the text of a natural
  number), \<open>Js_String\<close> (string operations), \<open>Js_Object\<close> (plain objects as dictionaries with the enumeration
  order of the language) and \<open>Js_Hash\<close> (the 32-bit string hash on words) model what the sources use of
  JavaScript. Three contracts are stated once as locales and interpreted on the model's own definitions:
  \<open>dictionary\<close> (what a look-up returns after an assignment or deletion; interpretation \<open>jo\<close>), \<open>codec\<close> (a text form
  that reads back; interpreted on quoted texts, rule identifiers, Graphite trees and tags) and \<open>state_machine\<close>
  (steps that keep an invariant; interpreted on the variable picker, the tree of dashboards, the Graphite
  editor, the Alertmanager configuration, the collapsed groups of a flame graph and the fetch queue). Characters are code units below 256.

  \<^bold>\<open>Alert routing.\<close> \<open>Alert_Matching\<close>: label matchers (\<open>packages/grafana-alerting/src/grafana/matchers/utils.ts\<close>).
  \<open>Alert_Routes\<close>: the search for the policies an alert goes to, the inheritance of properties, unique
  identifiers and the matching against several trees (\<open>notificationPolicies/utils.ts\<close>, \<open>useMatchPolicies.ts\<close>).
  C1 relates the search to the abstract specification \<open>selects\<close>, C2 shows that expanding inherited properties
  keeps the routing, C3 that no instance is lost or doubled. What is inherited and when matching throws are
  \<open>inherited_properties_nearest\<close> and \<open>match_labels_throws\<close>.

  \<^bold>\<open>Notification policies.\<close> \<open>Alert_Matchers\<close>: the textual form of matchers (\<open>unified/utils/matchers.ts\<close>), with the
  round trip \<open>encoded_matcher_round_trip\<close>. \<open>Am_Route\<close>: stored policies, form values, stable identifiers and hashes
  (\<open>unified/utils/amroutes.ts\<close>, \<open>routeTree.ts\<close>): round trip of what a form has in force C4, distinct identifiers C21. \<open>Route_Tree\<close>:
  saving, removing and adding a policy (\<open>routeTree.ts\<close>): which nodes each edit changes (C5 to C7). \<open>Am_Config\<close>: the
  reducers of the whole configuration (\<open>unified/reducers/alertmanager/\<close>): contact points, timings, templates and
  policies on one state; what policies refer to stays defined by the edits the editor offers (C23).

  \<^bold>\<open>Alert rules.\<close> \<open>Dag\<close>: the graph class (\<open>public/app/core/utils/dag.ts\<close>) over a store of
  node and edge addresses: the test for cycles is exact (C8), every graph built stays consistent and acyclic
  (C9), the reduction of edges (C10). \<open>Alert_Dag\<close>: the graph of a rule's queries
  (\<open>unified/components/rule-editor/dag.ts\<close>), C11. \<open>Rule_Id\<close>: identifiers of rules (\<open>unified/utils/rule-id.ts\<close>),
  their text, comparison and the hash of a query. \<open>Rule_Groups\<close>: the reducer of a group of rules and the hooks
  that use it (\<open>unified/reducers/ruler/ruleGroups.ts\<close>, \<open>unified/hooks/ruleGroup/\<close>): the order dragged is the order
  saved (C24).

  \<^bold>\<open>Variables and dashboards.\<close> \<open>Options_Picker\<close>: the slice of the variable picker (\<open>variables/pickers/OptionsPicker/
  reducer.ts\<close>), C12 and \<open>toggle_option_selection\<close>. \<open>Browse_Tree\<close>: the slice of the browse page (\<open>browse-dashboards/state/\<close>), with its
  properties in \<open>Browse_Selection\<close> (what a selection changes, C13; selected folders have selected children unless they are refetched,
  C14) and \<open>Browse_Pages\<close> (paged loading is complete and ends, C15; the rows shown refine the visible items, C16).

  \<^bold>\<open>Graphite.\<close> \<open>Graphite_Lexer\<close> (\<open>graphite/lexer.ts\<close>) and \<open>Graphite_Parser\<close> (\<open>parser.ts\<close>; total, with
  errors inside the text, C17) read a query; \<open>Graphite_Print\<close> shows that the text of a tree parses back (C18).
  \<open>Graphite_Func\<close> (\<open>gfunc.ts\<close>) has the instances of functions and their text, \<open>Graphite_Table\<close> the functions known,
  built in or sent by the server, whose default parameters always have a place, and \<open>Graphite_Query\<close>
  (\<open>graphite_query.ts\<close>) the model of the editor: reading a query from a tree, writing it, editing it.
  \<open>Graphite_Refs\<close> renders references between queries: it always returns (\<open>rendering_returns\<close>) and gives the full text where the
  reference counts allow it (C19). \<open>Graphite_Editor\<close> has the properties of the model: what the builder writes
  it reads again (C20), opening a query that is read does not change it (\<open>builder_keeps_query\<close>).
  \<open>Graphite_Store\<close> (\<open>graphite/state/\<close>) runs the actions of the editor on all of this, those that throw half-way and
  leave the objects they have changed included: the segments shown stay those of the model, and every action ends
  (C22).

  \<^bold>\<open>Flame graph.\<close> \<open>Flame_Levels\<close> (\<open>flamegraph/FlameGraph/dataTransform.ts\<close>): the check of a data frame, the container of
  its fields, the loop that makes items of rows, and the map of items collapsed into one. Items are mutable and shared:
  an item is the address of an entry of a store. \<open>Flame_Frame\<close> shows which frames are accepted, of those with both right fields or none (C27). \<open>Flame_Nesting\<close>
  states what tree a column of levels describes and that the loop builds it (C25; without overlap,
  \<open>levels_do_not_overlap\<close>). \<open>Flame_Collapse\<close> shows which items form a group, and that
  expanding and collapsing keep the groups (C26). \<open>Flame_Merge\<close> (\<open>treeTransforms.ts\<close> and \<open>getSandwichLevels\<close>) merges
  the occurrences of a function with what they call and what calls them; \<open>Flame_Groups\<close> relates its queue to grouping by
  level, \<open>Flame_Sandwich\<close> states it for the callees (C28; without overlap, \<open>merged_callees_fit\<close>) and \<open>Flame_Callers\<close> for the callers and the whole view (C29,
  \<open>sandwich_answers\<close>). \<open>Flame_Tree\<close> (\<open>CallTree/utils.ts\<close>) makes the rows of the call tree (C30) and of the tree of callers (\<open>callers_tree_built\<close>).
  \<open>Murmur\<close> (\<open>murmur3.ts\<close>) has the hash that chooses colours, on doubles, and shows it is the one defined on words (C31).

  \<^bold>\<open>Requests.\<close> \<open>Fetch_Queue\<close> (\<open>public/app/core/services/FetchQueue.ts\<close>, \<open>FetchQueueWorker.ts\<close>, \<open>ResponseQueue.ts\<close>): the
  three classes as one system, with the updates and requests that the streams between them keep back. \<open>Fetch_Worker\<close>: the
  worker comes to rest and leaves nothing waiting that might run, whenever clients act (C33).
  \<open>Fetch_Scheduler\<close> has the abstract scheduler, which the system refines for clients that act while the worker rests
  (\<open>Fetch_Order\<close>, C32); so for these the limit and the order are kept (C34) and every
  request is started (C35). \<open>limit_exceeded\<close> and \<open>cancelled_request_revived\<close> are runs of clients that act in between.

  \<^bold>\<open>Traces.\<close> \<open>Trace_Spans\<close> (\<open>public/app/features/explore/TraceView/components/\<close>: \<open>selectors/trace.ts\<close>, \<open>utils/TreeNode.ts\<close>,
  \<open>model/transform-trace-data.tsx\<close>): the tree of spans and the list made from it; \<open>Trace_Path\<close> (\<open>CriticalPath/\<close>): the critical
  path. \<open>Trace_Walk\<close> and \<open>Trace_Build\<close> show that the walk ends and the list is well formed (\<open>trace_ok\<close>,
  C37). \<open>Trace_Tree\<close> specifies the path on a tree, recursively, and has its properties; \<open>Trace_Cut\<close>,
  \<open>Trace_Sanitize\<close> and \<open>Trace_Critical\<close> show that what the first two stages leave of a well-formed trace represents a tree,
  so the loop computes that path (C36). A span that follows a missing one costs the whole path
  (\<open>orphan_follower_no_path\<close>). \<open>Trace_Rows\<close> (\<open>useChildrenState.ts\<close>, \<open>VirtualizedTraceView.tsx\<close>) has the collapsed spans and
  the rows; \<open>Trace_Collapse\<close> relates depths to ancestors and shows what the controls do (C38,
  C40) and which rows are left (C39).

  \<^bold>\<open>Parameters.\<close> Not in the sources, and arguments of the definitions: the regular expression engine, \<open>JSON.stringify\<close>
  of a policy, decoding of URI components, the collation of sorted fields, the fuzzy search, the parser of SQL
  references, the lists and answers the backends return, the replacement of template variables, versions of servers, and
  the display processor of enumerations. Arguments for their floating point: the comparison with the collapsing
  threshold (\<open>over\<close>) and percentages (\<open>percents\<close>).

  \<^bold>\<open>Fuel and bounds.\<close> Recursions that follow references of the data may not end in the source; they take fuel and
  have a value of their own for running out. The searches of \<open>Alert_Dag\<close> return with the number of nodes as fuel
  on every graph the code builds; the recursions of \<open>Browse_Tree\<close> with more than the height of the tree; the parser
  with \<open>parser_fuel\<close>, the weight of its tokens; the checks of the Graphite editor with the number of segments and
  two. The loop that renders references is \<open>while_option\<close>, with a bound on its passes. On a flame graph the number of rows
  is enough for the walk over the tree, for copying the callers of an occurrence and for the call tree; the queue of a
  merge needs the rows below the occurrences, or their numbers added up for callers. The worker of the fetch queue needs two
  steps for each request that waits or is being handed out, and one for each update kept back. The walk over the spans of a
  trace takes as many steps as there are spans, the search for the critical path twice as many. Numbers of Graphite queries
  are decimals that are not rounded to doubles, values of flame graphs are integers; hashes wrap at 32 bits.

  \<^bold>\<open>Not modelled.\<close> React components and hooks beyond the selectors they connect, styling, translations, network
  clients (mostly generated), the Go backend and the other languages of the repository, vendored code (the
  date library, sample data, mocks), and pure tables of options. Actions dispatched to the Graphite store while
  another waits for the data source, and its suggestion lists (\<open>providers.ts\<close>), are left out; of the flame graph the
  drawing, its search and the colours other than the choice by hash; of rule groups the requests and forms; of traces everything but times and references of spans; of the client of
  the backend all but its use of the queue.
\<close>

end
